(* ===== verification/Prelude.thy ===== *)
theory Prelude
  imports Main "HOL-Library.Word" "HOL-Library.Multiset" "HOL-Library.Monad_Syntax"
begin

text \<open>
  Shared vocabulary of the development: the machine types of the C sources, the checked
  memory accesses that every buffer operation of the model goes through, and the list and
  word lemmas the component theories share.

  Conventions. \<open>size_t\<close> is \<^typ>\<open>nat\<close>; where the source lets a \<open>size_t\<close> wrap around
  the wrap is written out (\<open>size_sub\<close>, \<open>size_dec\<close>). A buffer is the list of its bytes. An
  access outside of a buffer, and a failed \<open>FOUNDATION_ASSERT\<close>, is the value \<^const>\<open>None\<close>:
  a theorem that a function returns \<open>Some\<close> is a memory-safety theorem.
\<close>

unbundle bit_operations_syntax

named_theorems mem_simps \<open>rewriting of successful checked memory accesses\<close>
named_theorems wrap_simps \<open>wrap-around arithmetic that does not wrap\<close>

type_synonym byte = "8 word"
type_synonym u16 = "16 word"
type_synonym u32 = "32 word"
type_synonym u64 = "64 word"
type_synonym size_t = nat
type_synonym pointer = u64

section \<open>Arithmetic on \<open>size_t\<close>\<close>

definition SIZE_MOD :: nat where
  "SIZE_MOD = 18446744073709551616"

text \<open>\<open>a - b\<close> on \<open>size_t\<close>, wrapping below zero.\<close>

definition size_sub :: "size_t \<Rightarrow> size_t \<Rightarrow> size_t" where
  "size_sub a b = (if b \<le> a then a - b else a + SIZE_MOD - b)"

lemma size_sub_le [wrap_simps, simp]: "b \<le> a \<Longrightarrow> size_sub a b = a - b"
  by (simp add: size_sub_def)

section \<open>Checked memory accesses\<close>

text \<open>
  \<open>mem_load\<close> and \<open>mem_store\<close> are \<open>memcpy\<close> out of and into a buffer, \<open>mem_move\<close> is
  \<open>memmove\<close> within one; \<open>mem_get\<close> and \<open>mem_set\<close> are single reads and writes.
\<close>

definition mem_get :: "'a list \<Rightarrow> nat \<Rightarrow> 'a option" where
  "mem_get buf i = (if i < length buf then Some (buf ! i) else None)"

definition mem_set :: "'a list \<Rightarrow> nat \<Rightarrow> 'a \<Rightarrow> 'a list option" where
  "mem_set buf i v = (if i < length buf then Some (buf[i := v]) else None)"

definition mem_load :: "'a list \<Rightarrow> nat \<Rightarrow> nat \<Rightarrow> 'a list option" where
  "mem_load buf ofs n = (if ofs + n \<le> length buf then Some (take n (drop ofs buf)) else None)"

definition overwrite :: "'a list \<Rightarrow> nat \<Rightarrow> 'a list \<Rightarrow> 'a list" where
  "overwrite buf ofs xs = take ofs buf @ xs @ drop (ofs + length xs) buf"

definition mem_store :: "'a list \<Rightarrow> nat \<Rightarrow> 'a list \<Rightarrow> 'a list option" where
  "mem_store buf ofs xs = (if ofs + length xs \<le> length buf then Some (overwrite buf ofs xs) else None)"

definition mem_move :: "'a list \<Rightarrow> nat \<Rightarrow> nat \<Rightarrow> nat \<Rightarrow> 'a list option" where
  "mem_move buf dst src n =
     (case mem_load buf src n of None \<Rightarrow> None | Some xs \<Rightarrow> mem_store buf dst xs)"

text \<open>A failed assertion of the source stops the run.\<close>

definition c_assert :: "bool \<Rightarrow> unit option" where
  "c_assert b = (if b then Some () else None)"

lemma c_assert_simps [simp]: "c_assert True = Some ()" "c_assert False = None"
  by (simp_all add: c_assert_def)

lemma c_assert_eq_Some [simp]: "c_assert b = Some u \<longleftrightarrow> b"
  by (simp add: c_assert_def)

lemma length_overwrite [simp]:
  "ofs + length xs \<le> length buf \<Longrightarrow> length (overwrite buf ofs xs) = length buf"
  by (simp add: overwrite_def)

lemma mem_get_Some [mem_simps]: "i < length buf \<Longrightarrow> mem_get buf i = Some (buf ! i)"
  by (simp add: mem_get_def)

lemma mem_set_Some [mem_simps]: "i < length buf \<Longrightarrow> mem_set buf i v = Some (buf[i := v])"
  by (simp add: mem_set_def)

lemma mem_load_Some [mem_simps]:
  "ofs + n \<le> length buf \<Longrightarrow> mem_load buf ofs n = Some (take n (drop ofs buf))"
  by (simp add: mem_load_def)

lemma mem_store_Some [mem_simps]:
  "ofs + length xs \<le> length buf \<Longrightarrow> mem_store buf ofs xs = Some (overwrite buf ofs xs)"
  by (simp add: mem_store_def)

lemma nth_overwrite:
  assumes "ofs + length xs \<le> length buf" "i < length buf"
  shows "overwrite buf ofs xs ! i =
    (if i < ofs then buf ! i else if i < ofs + length xs then xs ! (i - ofs) else buf ! i)"
  using assms by (auto simp: overwrite_def nth_append)

lemma take_overwrite_front:
  "n \<le> ofs \<Longrightarrow> ofs + length xs \<le> length buf \<Longrightarrow> take n (overwrite buf ofs xs) = take n buf"
  by (simp add: overwrite_def)

lemma take_overwrite_upto:
  "ofs + length xs \<le> length buf \<Longrightarrow>
   take (ofs + length xs) (overwrite buf ofs xs) = take ofs buf @ xs"
  by (simp add: overwrite_def)

lemma drop_overwrite_behind:
  assumes "ofs + length xs \<le> n" "ofs + length xs \<le> length buf"
  shows "drop n (overwrite buf ofs xs) = drop n buf"
proof -
  have "ofs + length xs + (n - (ofs + length xs)) = n" using assms by simp
  then show ?thesis using assms by (simp add: overwrite_def)
qed

lemma overwrite_Nil [simp]: "overwrite buf ofs [] = buf"
  by (simp add: overwrite_def)

lemma overwrite_append:
  assumes "p \<le> length xs"
  shows "overwrite (overwrite xs p a) (p + length a) b = overwrite xs p (a @ b)"
  using assms by (simp add: overwrite_def add.commute [of "length b"] add.assoc)

section \<open>Slices of lists\<close>

text \<open>\<open>segment xs i j\<close> is the half-open segment \<open>xs[i..j)\<close>.\<close>

definition segment :: "'a list \<Rightarrow> nat \<Rightarrow> nat \<Rightarrow> 'a list" where
  "segment xs i j = drop i (take j xs)"

lemma length_segment [simp]: "j \<le> length xs \<Longrightarrow> length (segment xs i j) = j - i"
  by (simp add: segment_def)

lemma segment_empty [simp]: "j \<le> i \<Longrightarrow> segment xs i j = []"
  by (simp add: segment_def)

lemma segment_append:
  "i \<le> j \<Longrightarrow> j \<le> k \<Longrightarrow> k \<le> length xs \<Longrightarrow> segment xs i j @ segment xs j k = segment xs i k"
proof -
  assume a: "i \<le> j" "j \<le> k" "k \<le> length xs"
  then have "take k xs = take j xs @ drop j (take k xs)"
    by (metis append_take_drop_id min.absorb1 take_take)
  then have "drop i (take k xs) = drop i (take j xs) @ drop j (take k xs)"
    using a by (metis append_eq_conv_conj drop_append length_take diff_is_0_eq drop0 min.absorb2 order_trans)
  then show ?thesis by (simp add: segment_def)
qed

lemma take_drop_segment: "i + n \<le> length xs \<Longrightarrow> take n (drop i xs) = segment xs i (i + n)"
  by (simp add: segment_def drop_take)

lemma take_segment: "take n (segment xs i j) = segment xs i (min (i + n) j)"
  by (simp add: segment_def take_drop min.commute add.commute)

lemma drop_segment: "drop n (segment xs i j) = segment xs (i + n) j"
  by (simp add: segment_def add.commute)

lemma segment_full [simp]: "segment xs 0 (length xs) = xs"
  by (simp add: segment_def)

lemma segment_overwrite_before:
  "j \<le> ofs \<Longrightarrow> ofs + length ys \<le> length xs \<Longrightarrow> segment (overwrite xs ofs ys) i j = segment xs i j"
  by (simp add: segment_def take_overwrite_front)

lemma segment_overwrite_after:
  "ofs + length ys \<le> i \<Longrightarrow> ofs + length ys \<le> length xs \<Longrightarrow>
   segment (overwrite xs ofs ys) i j = segment xs i j"
  by (simp add: segment_def drop_take drop_overwrite_behind)

lemma segment_overwrite_same:
  "ofs + length ys \<le> length xs \<Longrightarrow> segment (overwrite xs ofs ys) ofs (ofs + length ys) = ys"
  by (simp add: segment_def overwrite_def)

lemma segment_nth: "i + k < j \<Longrightarrow> j \<le> length xs \<Longrightarrow> segment xs i j ! k = xs ! (i + k)"
  by (simp add: segment_def)

section \<open>Option and list utilities\<close>

lemma bind_eq_SomeE [elim]:
  assumes "Option.bind m f = Some y"
  obtains x where "m = Some x" "f x = Some y"
  using assms by (cases m) auto

lemma bind_cong_Some: "m = Some x \<Longrightarrow> Option.bind m f = f x"
  by simp

lemma distinct_map_nth_upt:
  "distinct xs \<Longrightarrow> set xs = {..<length xs} \<Longrightarrow> mset xs = mset [0..<length xs]"
  by (subst set_eq_iff_mset_eq_distinct [symmetric]) (auto simp: atLeast0LessThan)

end
