(* ===== verification/Ringbuffer.thy ===== *)
theory Ringbuffer
  imports Prelude
begin

text \<open>
  The byte ring buffer of \<open>foundation/ringbuffer.c\<close>: the record of the buffer, its
  operations, and the proof that it is a bounded first-in first-out queue of bytes that
  never touches memory outside of its storage.
\<close>

section \<open>State and operations\<close>

record ringbuffer_t =
  rb_total_read :: u64
  rb_total_write :: u64
  rb_offset_read :: size_t
  rb_offset_write :: size_t
  rb_buffer_size :: size_t
  rb_buffer :: "byte list"

definition ringbuffer_initialize :: "ringbuffer_t \<Rightarrow> size_t \<Rightarrow> ringbuffer_t" where
  "ringbuffer_initialize buffer sz =
     buffer\<lparr>rb_total_read := 0, rb_total_write := 0, rb_offset_read := 0, rb_offset_write := 0,
            rb_buffer_size := sz\<rparr>"

text \<open>The allocation gives storage of the requested size with whatever bytes it holds.\<close>

definition ringbuffer_allocate :: "byte list \<Rightarrow> ringbuffer_t" where
  "ringbuffer_allocate storage =
     ringbuffer_initialize
       \<lparr>rb_total_read = 0, rb_total_write = 0, rb_offset_read = 0, rb_offset_write = 0,
        rb_buffer_size = 0, rb_buffer = storage\<rparr> (length storage)"

definition ringbuffer_size :: "ringbuffer_t \<Rightarrow> size_t" where
  "ringbuffer_size buffer = rb_buffer_size buffer"

definition ringbuffer_reset :: "ringbuffer_t \<Rightarrow> ringbuffer_t" where
  "ringbuffer_reset buffer =
     buffer\<lparr>rb_total_read := 0, rb_total_write := 0, rb_offset_read := 0, rb_offset_write := 0\<rparr>"

text \<open>
  \<open>dest\<close> says whether the caller passed a destination; the second component of the
  result is what was copied there.
\<close>

function ringbuffer_read :: "ringbuffer_t \<Rightarrow> bool \<Rightarrow> size_t \<Rightarrow> (ringbuffer_t \<times> byte list \<times> size_t) option" where
  "ringbuffer_read buffer dest sz =
     (let buffer_size = rb_buffer_size buffer;
          offset_read = rb_offset_read buffer;
          offset_write = rb_offset_write buffer;
          max_read = (if offset_read > offset_write then size_sub buffer_size offset_read
                      else offset_write - offset_read);
          do_read = (if sz > max_read then max_read else sz)
      in if do_read = 0 then Some (buffer, [], 0)
         else case (if dest then mem_load (rb_buffer buffer) offset_read do_read else Some []) of
           None \<Rightarrow> None
         | Some copied \<Rightarrow>
            let offset_read = (if offset_read + do_read = buffer_size then 0 else offset_read + do_read);
                buffer = buffer\<lparr>rb_offset_read := offset_read,
                                rb_total_read := rb_total_read buffer + of_nat do_read\<rparr>
            in if do_read < sz \<and> offset_read = 0 \<and> offset_write > 0
               then (case ringbuffer_read buffer dest (sz - do_read) of
                       None \<Rightarrow> None
                     | Some (buffer', rest, n) \<Rightarrow> Some (buffer', copied @ rest, do_read + n))
               else Some (buffer, copied, do_read))"
  by pat_completeness auto
termination
  by (relation "measure (\<lambda>(b, d, s). s)") (auto simp: Let_def split: if_splits)

function ringbuffer_write :: "ringbuffer_t \<Rightarrow> byte list \<Rightarrow> size_t \<Rightarrow> (ringbuffer_t \<times> size_t) option" where
  "ringbuffer_write buffer source sz =
     (let buffer_size = rb_buffer_size buffer;
          offset_read = rb_offset_read buffer;
          offset_write = rb_offset_write buffer;
          max_write =
            (if offset_write \<ge> offset_read
             then (let m = size_sub buffer_size offset_write
                   in if m \<noteq> 0 \<and> rb_offset_read buffer = 0 then m - 1 else m)
             else offset_read - (offset_write + 1));
          do_write = (if sz > max_write then max_write else sz)
      in if do_write = 0 then Some (buffer, 0)
         else case mem_load source 0 do_write of
           None \<Rightarrow> None
         | Some data \<Rightarrow>
        (case mem_store (rb_buffer buffer) offset_write data of
           None \<Rightarrow> None
         | Some storage \<Rightarrow>
        (case (if offset_write + do_write = buffer_size then c_assert (rb_offset_read buffer \<noteq> 0) else Some ()) of
           None \<Rightarrow> None
         | Some _ \<Rightarrow>
            let offset_write = (if offset_write + do_write = buffer_size then 0 else offset_write + do_write);
                buffer = buffer\<lparr>rb_buffer := storage, rb_offset_write := offset_write,
                                rb_total_write := rb_total_write buffer + of_nat do_write\<rparr>
            in if do_write < sz \<and> offset_write = 0 \<and> offset_read > 0
               then (case ringbuffer_write buffer (drop do_write source) (sz - do_write) of
                       None \<Rightarrow> None
                     | Some (buffer', n) \<Rightarrow> Some (buffer', do_write + n))
               else Some (buffer, do_write))))"
  by pat_completeness auto
termination
  by (relation "measure (\<lambda>(b, src, s). s)") (auto simp: Let_def split: if_splits)

declare ringbuffer_read.simps [simp del] ringbuffer_write.simps [simp del]

definition ringbuffer_total_read :: "ringbuffer_t \<Rightarrow> u64" where
  "ringbuffer_total_read buffer = rb_total_read buffer"

definition ringbuffer_total_written :: "ringbuffer_t \<Rightarrow> u64" where
  "ringbuffer_total_written buffer = rb_total_write buffer"

section \<open>Invariant and abstraction\<close>

definition rb_inv :: "ringbuffer_t \<Rightarrow> bool" where
  "rb_inv b \<longleftrightarrow> rb_buffer_size b = length (rb_buffer b) \<and>
     (if rb_buffer_size b = 0 then rb_offset_read b = 0 \<and> rb_offset_write b = 0
      else rb_offset_read b < rb_buffer_size b \<and> rb_offset_write b < rb_buffer_size b)"

text \<open>The unread bytes, oldest first.\<close>

definition rb_contents :: "ringbuffer_t \<Rightarrow> byte list" where
  "rb_contents b =
     (if rb_offset_read b \<le> rb_offset_write b
      then segment (rb_buffer b) (rb_offset_read b) (rb_offset_write b)
      else segment (rb_buffer b) (rb_offset_read b) (rb_buffer_size b) @
           segment (rb_buffer b) 0 (rb_offset_write b))"

text \<open>One byte of the storage is never used, so that a full buffer differs from an empty one.\<close>

definition rb_free :: "ringbuffer_t \<Rightarrow> nat" where
  "rb_free b = rb_buffer_size b - 1 - length (rb_contents b)"

lemma rb_contents_length:
  "rb_inv b \<Longrightarrow> length (rb_contents b) =
     (if rb_offset_read b \<le> rb_offset_write b then rb_offset_write b - rb_offset_read b
      else rb_buffer_size b - rb_offset_read b + rb_offset_write b)"
  by (auto simp: rb_inv_def rb_contents_def split: if_splits)

lemma rb_contents_bound: "rb_inv b \<Longrightarrow> length (rb_contents b) \<le> rb_buffer_size b - 1"
  by (auto simp: rb_contents_length) (auto simp: rb_inv_def split: if_splits)

lemma ringbuffer_allocate_inv [simp]: "rb_inv (ringbuffer_allocate storage)"
  by (simp add: ringbuffer_allocate_def ringbuffer_initialize_def rb_inv_def)

lemma ringbuffer_allocate_contents [simp]: "rb_contents (ringbuffer_allocate storage) = []"
  by (simp add: ringbuffer_allocate_def ringbuffer_initialize_def rb_contents_def)

lemma ringbuffer_reset_spec:
  "rb_inv b \<Longrightarrow> rb_inv (ringbuffer_reset b) \<and> rb_contents (ringbuffer_reset b) = []"
  by (simp add: ringbuffer_reset_def rb_inv_def rb_contents_def)

section \<open>Reads and writes on the queue of unread bytes\<close>

text \<open>A read that does not reach the end of the storage.\<close>

lemma ringbuffer_read_linear:
  assumes inv: "rb_inv b" and le: "rb_offset_read b \<le> rb_offset_write b"
    and n: "n = min sz (length (rb_contents b))"
  shows "ringbuffer_read b dest sz =
    Some (b\<lparr>rb_offset_read := rb_offset_read b + n, rb_total_read := rb_total_read b + of_nat n\<rparr>,
          if dest then take n (rb_contents b) else [], n)"
proof (cases "n = 0")
  case True
  then show ?thesis
    using inv le n by (subst ringbuffer_read.simps) (auto simp: Let_def rb_contents_length)
next
  case False
  have len: "length (rb_contents b) = rb_offset_write b - rb_offset_read b"
    using inv le by (simp add: rb_contents_length)
  have "rb_offset_read b + n < rb_buffer_size b"
    using inv False n len by (auto simp: rb_inv_def split: if_splits)
  moreover have "mem_load (rb_buffer b) (rb_offset_read b) n = Some (take n (rb_contents b))"
    using inv le n len
    by (auto simp: mem_load_def rb_inv_def rb_contents_def take_drop_segment take_segment split: if_splits)
  ultimately show ?thesis
    using le n len False by (subst ringbuffer_read.simps) (auto simp: Let_def min_def)
qed

lemma rb_inv_advance_linear:
  assumes "rb_inv b" "rb_offset_read b \<le> rb_offset_write b" "n \<le> length (rb_contents b)"
    and "b' = b\<lparr>rb_offset_read := rb_offset_read b + n, rb_total_read := t\<rparr>"
  shows "rb_inv b'" "rb_contents b' = drop n (rb_contents b)"
  using assms by (auto simp: rb_contents_length rb_inv_def rb_contents_def drop_segment split: if_splits)

text \<open>A read that stops before the end of the storage or exactly there.\<close>

lemma rb_inv_advance_wrapped:
  assumes "rb_inv b" "\<not> rb_offset_read b \<le> rb_offset_write b"
    and "n \<le> rb_buffer_size b - rb_offset_read b"
    and "b' = b\<lparr>rb_offset_read := (if rb_offset_read b + n = rb_buffer_size b then 0 else rb_offset_read b + n),
                   rb_total_read := t\<rparr>"
  shows "rb_inv b'" "rb_contents b' = drop n (rb_contents b)"
  using assms by (auto simp: rb_inv_def rb_contents_def drop_segment split: if_splits)

theorem ringbuffer_read_spec:
  assumes inv: "rb_inv b" and n: "n = min sz (length (rb_contents b))"
  shows "\<exists>b'. ringbuffer_read b dest sz = Some (b', if dest then take n (rb_contents b) else [], n) \<and>
    rb_inv b' \<and> rb_contents b' = drop n (rb_contents b) \<and>
    rb_buffer b' = rb_buffer b \<and> rb_total_read b' = rb_total_read b + of_nat n \<and>
    rb_total_write b' = rb_total_write b"
proof (cases "rb_offset_read b \<le> rb_offset_write b")
  case True
  have "n \<le> length (rb_contents b)" using n by simp
  from rb_inv_advance_linear [OF inv True this refl, of "rb_total_read b + of_nat n"]
  show ?thesis by (subst ringbuffer_read_linear [OF inv True n]) simp
next
  case False
  define m where "m = rb_buffer_size b - rb_offset_read b"
  define k where "k = min sz m"
  have m: "0 < m" "rb_offset_read b + m = length (rb_buffer b)"
    using inv False by (auto simp: rb_inv_def m_def split: if_splits)
  have len: "length (rb_contents b) = m + rb_offset_write b"
    using inv False by (simp add: rb_contents_length m_def)
  have load: "mem_load (rb_buffer b) (rb_offset_read b) k = Some (take k (rb_contents b))"
    using inv False m
    by (auto simp: mem_load_def rb_inv_def rb_contents_def take_drop_segment take_segment k_def)
  define b1 where "b1 = b\<lparr>rb_offset_read := (if rb_offset_read b + k = rb_buffer_size b then 0 else rb_offset_read b + k),
                          rb_total_read := rb_total_read b + of_nat k\<rparr>"
  have b1: "rb_inv b1" "rb_contents b1 = drop k (rb_contents b)"
    using rb_inv_advance_wrapped [OF inv False _ b1_def] by (simp_all add: k_def m_def)
  show ?thesis
  proof (cases "k < sz \<and> rb_offset_write b > 0")
    case wrap: True
    then have k: "k = m" "rb_offset_read b1 = 0" using m by (auto simp: k_def b1_def m_def)
    define j where "j = min (sz - k) (length (rb_contents b1))"
    have "rb_offset_read b1 \<le> rb_offset_write b1" using k by simp
    note lin = ringbuffer_read_linear [OF b1(1) this j_def, of dest]
      rb_inv_advance_linear [OF b1(1) this _ refl, of j "rb_total_read b1 + of_nat j"]
    obtain b2 where b2: "ringbuffer_read b1 dest (sz - k) =
        Some (b2, if dest then take j (rb_contents b1) else [], j)"
      "rb_inv b2" "rb_contents b2 = drop j (rb_contents b1)"
      "rb_buffer b2 = rb_buffer b" "rb_total_read b2 = rb_total_read b1 + of_nat j"
      "rb_total_write b2 = rb_total_write b"
      using lin by (simp add: b1_def j_def)
    have nj: "n = k + j"
      using n len b1 wrap k by (auto simp: j_def)
    have "ringbuffer_read b dest sz =
        Some (b2, if dest then take k (rb_contents b) @ take j (rb_contents b1) else [], k + j)"
      using wrap m k b2(1) load inv False
      by (subst ringbuffer_read.simps)
         (auto simp: Let_def rb_inv_def b1_def m_def k_def split: if_splits)
    then show ?thesis
      using b2 b1(2) nj take_add [of k j "rb_contents b"]
      by (simp add: b1_def add.assoc add.commute [of k j])
  next
    case stop: False
    then have nk: "n = k" using n len m by (auto simp: k_def)
    show ?thesis
    proof (cases "k = 0")
      case True
      then show ?thesis using inv nk m
        by (subst ringbuffer_read.simps) (auto simp: Let_def k_def m_def split: if_splits)
    next
      case pos: False
      have "ringbuffer_read b dest sz = Some (b1, if dest then take k (rb_contents b) else [], k)"
        using stop pos m load inv False
        by (subst ringbuffer_read.simps)
           (auto simp: Let_def rb_inv_def b1_def m_def k_def split: if_splits)
      then show ?thesis using b1 nk by (auto simp: b1_def)
    qed
  qed
qed

text \<open>Writing \<open>data\<close> at the write offset, short of the read offset.\<close>

lemma rb_store_linear:
  assumes inv: "rb_inv b" and ge: "rb_offset_write b \<ge> rb_offset_read b"
    and fit: "rb_offset_write b + length data \<le> rb_buffer_size b"
    and full: "rb_offset_write b + length data = rb_buffer_size b \<Longrightarrow> 0 < rb_offset_read b"
    and b': "b' = b\<lparr>rb_buffer := overwrite (rb_buffer b) (rb_offset_write b) data,
      rb_offset_write := (if rb_offset_write b + length data = rb_buffer_size b then 0
                          else rb_offset_write b + length data), rb_total_write := t\<rparr>"
  shows "rb_inv b'" "rb_contents b' = rb_contents b @ data"
proof -
  show "rb_inv b'" using inv fit b' by (auto simp: rb_inv_def split: if_splits)
  let ?s = "overwrite (rb_buffer b) (rb_offset_write b) data"
  have len: "rb_buffer_size b = length (rb_buffer b)" using inv by (simp add: rb_inv_def)
  have "segment ?s (rb_offset_read b) (rb_offset_write b + length data) =
      segment ?s (rb_offset_read b) (rb_offset_write b) @
      segment ?s (rb_offset_write b) (rb_offset_write b + length data)"
    using ge fit len by (simp add: segment_append)
  also have "\<dots> = rb_contents b @ data"
    using ge fit len by (simp add: segment_overwrite_before segment_overwrite_same rb_contents_def)
  finally show "rb_contents b' = rb_contents b @ data"
    using b' ge full by (auto simp: rb_contents_def)
qed

lemma rb_store_wrapped:
  assumes inv: "rb_inv b" and lt: "rb_offset_write b < rb_offset_read b"
    and fit: "rb_offset_write b + length data < rb_offset_read b"
    and b': "b' = b\<lparr>rb_buffer := overwrite (rb_buffer b) (rb_offset_write b) data,
      rb_offset_write := rb_offset_write b + length data, rb_total_write := t\<rparr>"
  shows "rb_inv b'" "rb_contents b' = rb_contents b @ data"
proof -
  have len: "rb_buffer_size b = length (rb_buffer b)" "rb_offset_read b < rb_buffer_size b"
    using inv lt by (auto simp: rb_inv_def split: if_splits)
  then show "rb_inv b'" using inv fit b' by (auto simp: rb_inv_def)
  let ?s = "overwrite (rb_buffer b) (rb_offset_write b) data"
  have "segment ?s 0 (rb_offset_write b + length data) =
      segment ?s 0 (rb_offset_write b) @
      segment ?s (rb_offset_write b) (rb_offset_write b + length data)"
    using fit len by (simp add: segment_append)
  then show "rb_contents b' = rb_contents b @ data"
    using b' fit len
    by (auto simp: rb_contents_def segment_overwrite_before segment_overwrite_after segment_overwrite_same)
qed

lemma rb_free_cases:
  "rb_inv b \<Longrightarrow> rb_free b =
     (if rb_offset_write b < rb_offset_read b then rb_offset_read b - (rb_offset_write b + 1)
      else rb_buffer_size b - rb_offset_write b - (if rb_offset_read b = 0 then 1 else 0) +
           (rb_offset_read b - 1))"
  by (auto simp: rb_free_def rb_contents_length) (auto simp: rb_inv_def split: if_splits)

text \<open>One unfolding of a write that copies \<open>k\<close> bytes.\<close>

lemma ringbuffer_write_step:
  assumes mw: "(if rb_offset_write b \<ge> rb_offset_read b
      then (if size_sub (rb_buffer_size b) (rb_offset_write b) \<noteq> 0 \<and> rb_offset_read b = 0
            then size_sub (rb_buffer_size b) (rb_offset_write b) - 1
            else size_sub (rb_buffer_size b) (rb_offset_write b))
      else rb_offset_read b - (rb_offset_write b + 1)) = m"
    and k: "k = min sz m" "k \<noteq> 0" and src: "sz \<le> length src"
    and fit: "rb_offset_write b + k \<le> length (rb_buffer b)"
    and full: "rb_offset_write b + k = rb_buffer_size b \<Longrightarrow> rb_offset_read b \<noteq> 0"
    and b1: "b1 = b\<lparr>rb_buffer := overwrite (rb_buffer b) (rb_offset_write b) (take k src),
      rb_offset_write := (if rb_offset_write b + k = rb_buffer_size b then 0 else rb_offset_write b + k),
      rb_total_write := rb_total_write b + of_nat k\<rparr>"
  shows "ringbuffer_write b src sz =
      (if k < sz \<and> rb_offset_write b1 = 0 \<and> rb_offset_read b > 0
       then (case ringbuffer_write b1 (drop k src) (sz - k) of
               None \<Rightarrow> None | Some (b', j) \<Rightarrow> Some (b', k + j))
       else Some (b1, k))"
proof -
  have lk: "length (take k src) = k" using src k by simp
  have kk: "(if sz > m then m else sz) = k" using k by simp
  have load: "mem_load src 0 k = Some (take k src)"
    using src k by (simp add: mem_load_def)
  have store: "mem_store (rb_buffer b) (rb_offset_write b) (take k src) =
      Some (overwrite (rb_buffer b) (rb_offset_write b) (take k src))"
    using fit lk by (simp add: mem_store_def)
  have ok: "(if rb_offset_write b + k = rb_buffer_size b then c_assert (rb_offset_read b \<noteq> 0)
      else Some ()) = Some ()"
    using full by simp
  have w: "rb_offset_write b1 =
      (if rb_offset_write b + k = rb_buffer_size b then 0 else rb_offset_write b + k)"
    by (simp add: b1)
  show ?thesis
    unfolding w ringbuffer_write.simps [of b src sz] Let_def mw kk load option.case store ok
    using k(2) by (simp only: b1 if_False)
qed

lemma ringbuffer_write_none:
  assumes mw: "(if rb_offset_write b \<ge> rb_offset_read b
      then (if size_sub (rb_buffer_size b) (rb_offset_write b) \<noteq> 0 \<and> rb_offset_read b = 0
            then size_sub (rb_buffer_size b) (rb_offset_write b) - 1
            else size_sub (rb_buffer_size b) (rb_offset_write b))
      else rb_offset_read b - (rb_offset_write b + 1)) = m"
    and k: "min sz m = 0"
  shows "ringbuffer_write b src sz = Some (b, 0)"
proof -
  have kk: "(if sz > m then m else sz) = 0" using k by (auto simp: min_def split: if_splits)
  show ?thesis
    unfolding ringbuffer_write.simps [of b src sz] Let_def mw kk by simp
qed

text \<open>A write with the write offset behind the read offset.\<close>

lemma ringbuffer_write_wrapped:
  assumes inv: "rb_inv b" and lt: "rb_offset_write b < rb_offset_read b"
    and src: "sz \<le> length src" and n: "n = min sz (rb_free b)"
  shows "\<exists>b'. ringbuffer_write b src sz = Some (b', n) \<and> rb_inv b' \<and>
    rb_contents b' = rb_contents b @ take n src \<and> rb_buffer_size b' = rb_buffer_size b \<and>
    rb_total_write b' = rb_total_write b + of_nat n \<and> rb_total_read b' = rb_total_read b"
proof (cases "n = 0")
  case True
  then show ?thesis
    using inv lt n by (subst ringbuffer_write.simps) (auto simp: Let_def rb_free_cases)
next
  case False
  have len: "rb_buffer_size b = length (rb_buffer b)" "rb_offset_read b < rb_buffer_size b"
    using inv lt by (auto simp: rb_inv_def split: if_splits)
  have n': "n = min sz (rb_offset_read b - (rb_offset_write b + 1))" "n \<le> length src"
    "rb_offset_write b + n < rb_offset_read b"
    using inv lt n src False by (auto simp: rb_free_cases)
  define b' where "b' = b\<lparr>rb_buffer := overwrite (rb_buffer b) (rb_offset_write b) (take n src),
      rb_offset_write := rb_offset_write b + length (take n src), rb_total_write := rb_total_write b + of_nat n\<rparr>"
  have b'1: "b' = b\<lparr>rb_buffer := overwrite (rb_buffer b) (rb_offset_write b) (take n src),
      rb_offset_write := (if rb_offset_write b + n = rb_buffer_size b then 0 else rb_offset_write b + n),
      rb_total_write := rb_total_write b + of_nat n\<rparr>"
    using n' len by (simp add: b'_def)
  have "rb_offset_write b' \<noteq> 0" using False n' by (simp add: b'_def)
  then have "ringbuffer_write b src sz = Some (b', n)"
    using lt n' len by (subst ringbuffer_write_step [OF refl _ False src _ _ b'1]) simp_all
  moreover have "rb_inv b'" "rb_contents b' = rb_contents b @ take n src"
    using rb_store_wrapped [OF inv lt _ b'_def] n' by simp_all
  ultimately show ?thesis by (simp add: b'_def)
qed

theorem ringbuffer_write_spec:
  assumes inv: "rb_inv b" and src: "sz \<le> length src" and n: "n = min sz (rb_free b)"
  shows "\<exists>b'. ringbuffer_write b src sz = Some (b', n) \<and> rb_inv b' \<and>
    rb_contents b' = rb_contents b @ take n src \<and> rb_buffer_size b' = rb_buffer_size b \<and>
    rb_total_write b' = rb_total_write b + of_nat n \<and> rb_total_read b' = rb_total_read b"
proof (cases "rb_offset_write b < rb_offset_read b")
  case True
  then show ?thesis using ringbuffer_write_wrapped [OF inv _ src n] by simp
next
  case False
  then have ge: "rb_offset_write b \<ge> rb_offset_read b" by simp
  define m where "m = rb_buffer_size b - rb_offset_write b - (if rb_offset_read b = 0 then 1 else 0)"
  define k where "k = min sz m"
  have len: "rb_buffer_size b = length (rb_buffer b)" "rb_offset_write b \<le> rb_buffer_size b"
    using inv by (auto simp: rb_inv_def split: if_splits)
  have m: "m \<le> rb_buffer_size b - rb_offset_write b"
    "rb_offset_read b > 0 \<Longrightarrow> m > 0 \<and> rb_offset_write b + m = rb_buffer_size b"
    using inv len by (auto simp: m_def rb_inv_def split: if_splits)
  have mw: "(if size_sub (rb_buffer_size b) (rb_offset_write b) \<noteq> 0 \<and> rb_offset_read b = 0
             then size_sub (rb_buffer_size b) (rb_offset_write b) - 1
             else size_sub (rb_buffer_size b) (rb_offset_write b)) = m"
    using len by (auto simp: m_def)
  have free: "rb_free b = m + (rb_offset_read b - 1)"
    using inv False by (simp add: rb_free_cases m_def)
  define b1 where "b1 = b\<lparr>rb_buffer := overwrite (rb_buffer b) (rb_offset_write b) (take k src),
      rb_offset_write := (if rb_offset_write b + length (take k src) = rb_buffer_size b then 0
                          else rb_offset_write b + length (take k src)),
      rb_total_write := rb_total_write b + of_nat k\<rparr>"
  have lk: "length (take k src) = k" using src by (simp add: k_def)
  have full: "rb_offset_read b > 0" if "rb_offset_write b + k = rb_buffer_size b" "k \<noteq> 0"
    using that inv len by (auto simp: k_def m_def rb_inv_def split: if_splits)
  show ?thesis
  proof (cases "k = 0")
    case True
    then have "sz = 0 \<or> rb_offset_read b = 0 \<and> m = 0" using m(2) by (auto simp: k_def min_def split: if_splits)
    then have "n = 0" using n free by auto
    moreover have "ringbuffer_write b src sz = Some (b, 0)"
      using ringbuffer_write_none [of b m sz src] mw ge True by (simp add: k_def)
    ultimately show ?thesis using inv by simp
  next
    case pos: False
    have "rb_offset_write b + length (take k src) \<le> rb_buffer_size b"
      unfolding lk using m(1) len by (simp add: k_def)
    moreover have "0 < rb_offset_read b" if "rb_offset_write b + length (take k src) = rb_buffer_size b"
      using full pos that unfolding lk by blast
    ultimately have b1: "rb_inv b1" "rb_contents b1 = rb_contents b @ take k src"
      using rb_store_linear [OF inv ge _ _ b1_def] by blast+
    have fit: "rb_offset_write b + k \<le> length (rb_buffer b)" using len m by (simp add: k_def)
    have mw': "(if rb_offset_write b \<ge> rb_offset_read b
        then (if size_sub (rb_buffer_size b) (rb_offset_write b) \<noteq> 0 \<and> rb_offset_read b = 0
              then size_sub (rb_buffer_size b) (rb_offset_write b) - 1
              else size_sub (rb_buffer_size b) (rb_offset_write b))
        else rb_offset_read b - (rb_offset_write b + 1)) = m"
      using ge by (simp only: mw if_True)
    have full': "rb_offset_read b \<noteq> 0" if "rb_offset_write b + k = rb_buffer_size b"
      using full [OF that pos] by simp
    note step = ringbuffer_write_step [OF mw' k_def pos src fit full' b1_def [unfolded lk]]
    show ?thesis
    proof (cases "k < sz \<and> rb_offset_write b1 = 0 \<and> rb_offset_read b > 0")
      case wrap: True
      then have k: "k = m" "rb_offset_write b1 < rb_offset_read b1" by (auto simp: k_def b1_def)
      define j where "j = min (sz - k) (rb_free b1)"
      have "rb_free b1 = rb_offset_read b - 1"
        using wrap k b1(1) by (simp add: rb_free_cases) (simp add: b1_def)
      then have nj: "n = k + j" using n free k wrap by (auto simp: j_def)
      have "sz - k \<le> length (drop k src)" using src by simp
      from ringbuffer_write_wrapped [OF b1(1) k(2) this j_def]
      obtain b2 where b2: "ringbuffer_write b1 (drop k src) (sz - k) = Some (b2, j)" "rb_inv b2"
        "rb_contents b2 = rb_contents b1 @ take j (drop k src)"
        "rb_buffer_size b2 = rb_buffer_size b1" "rb_total_write b2 = rb_total_write b1 + of_nat j"
        "rb_total_read b2 = rb_total_read b1" by blast
      have "ringbuffer_write b src sz = Some (b2, n)"
        using step wrap b2(1) nj by simp
      then show ?thesis
        using b2(2-) b1(2) nj by (simp add: take_add b1_def add.assoc)
    next
      case stop: False
      have "rb_offset_write b1 = 0" if "k < sz" "rb_offset_read b > 0"
        using that m(2) lk by (simp add: b1_def k_def)
      then have "sz \<le> m \<or> rb_offset_read b = 0" using stop by (force simp: k_def)
      then have "n = k" using n free by (auto simp: k_def)
      then show ?thesis using step stop b1 by (auto simp: b1_def)
    qed
  qed
qed

section \<open>The queue interface\<close>

text \<open>
  What a client of a bounded queue relies on: \<open>put\<close> accepts as many elements as there is
  room for and appends them, \<open>get\<close> delivers as many as are there from the front.
\<close>

locale bounded_fifo =
  fixes invar :: "'q \<Rightarrow> bool"
    and contents :: "'q \<Rightarrow> 'a list"
    and room :: "'q \<Rightarrow> nat"
    and put :: "'q \<Rightarrow> 'a list \<Rightarrow> ('q \<times> nat) option"
    and get :: "'q \<Rightarrow> nat \<Rightarrow> ('q \<times> 'a list) option"
  assumes put_spec: "invar q \<Longrightarrow> \<exists>q'. put q xs = Some (q', min (length xs) (room q)) \<and> invar q' \<and>
      contents q' = contents q @ take (min (length xs) (room q)) xs \<and>
      room q' = room q - min (length xs) (room q)"
    and get_spec: "invar q \<Longrightarrow> \<exists>q'. get q n = Some (q', take n (contents q)) \<and> invar q' \<and>
      contents q' = drop n (contents q) \<and> room q' = room q + min n (length (contents q))"

text \<open>A client's run: what was accepted and what was delivered, in order.\<close>

datatype 'a fifo_op = Put "'a list" | Get nat

fun fifo_run :: "('q \<Rightarrow> 'a list \<Rightarrow> ('q \<times> nat) option) \<Rightarrow> ('q \<Rightarrow> nat \<Rightarrow> ('q \<times> 'a list) option) \<Rightarrow>
    'q \<Rightarrow> 'a fifo_op list \<Rightarrow> ('q \<times> 'a list \<times> 'a list) option" where
  "fifo_run put get q [] = Some (q, [], [])"
| "fifo_run put get q (Put xs # ops) =
     do { (q1, n) \<leftarrow> put q xs; (q2, acc, del) \<leftarrow> fifo_run put get q1 ops;
          Some (q2, take n xs @ acc, del) }"
| "fifo_run put get q (Get n # ops) =
     do { (q1, ys) \<leftarrow> get q n; (q2, acc, del) \<leftarrow> fifo_run put get q1 ops;
          Some (q2, acc, ys @ del) }"

context bounded_fifo
begin

lemma fifo_run_order:
  "invar q \<Longrightarrow> \<exists>q' acc del. fifo_run put get q ops = Some (q', acc, del) \<and> invar q' \<and>
     contents q @ acc = del @ contents q' \<and>
     room q' + length (contents q') = room q + length (contents q)"
proof (induction ops arbitrary: q)
  case Nil
  then show ?case by simp
next
  case (Cons op ops)
  show ?case
  proof (cases op)
    case (Put xs)
    define n where "n = min (length xs) (room q)"
    obtain q1 where q1: "put q xs = Some (q1, n)" "invar q1"
      "contents q1 = contents q @ take n xs" "room q1 = room q - n"
      using put_spec [OF Cons.prems, of xs] by (auto simp: n_def)
    from Cons.IH [OF q1(2)] obtain q' acc del where
      "fifo_run put get q1 ops = Some (q', acc, del)" "invar q'"
      "contents q1 @ acc = del @ contents q'"
      "room q' + length (contents q') = room q1 + length (contents q1)" by blast
    moreover have "length (take n xs) = n" "n \<le> room q" by (simp_all add: n_def)
    ultimately show ?thesis using Put q1 by simp
  next
    case (Get n)
    obtain q1 where q1: "get q n = Some (q1, take n (contents q))" "invar q1"
      "contents q1 = drop n (contents q)" "room q1 = room q + min n (length (contents q))"
      using get_spec [OF Cons.prems, of n] by blast
    from Cons.IH [OF q1(2)] obtain q' acc del where
      run: "fifo_run put get q1 ops = Some (q', acc, del)" "invar q'"
      "contents q1 @ acc = del @ contents q'"
      "room q' + length (contents q') = room q1 + length (contents q1)" by blast
    have "contents q @ acc = (take n (contents q) @ del) @ contents q'"
      using q1(3) run(3) by (metis append.assoc append_take_drop_id)
    moreover have "room q1 + length (contents q1) = room q + length (contents q)"
      using q1 by (simp add: min_def)
    ultimately show ?thesis using Get q1 run by simp
  qed
qed

end

definition rb_put :: "ringbuffer_t \<Rightarrow> byte list \<Rightarrow> (ringbuffer_t \<times> nat) option" where
  "rb_put b xs = ringbuffer_write b xs (length xs)"

definition rb_get :: "ringbuffer_t \<Rightarrow> nat \<Rightarrow> (ringbuffer_t \<times> byte list) option" where
  "rb_get b n = map_option (\<lambda>(b', xs, _). (b', xs)) (ringbuffer_read b True n)"

interpretation rb_fifo: bounded_fifo rb_inv rb_contents rb_free rb_put rb_get
proof
  fix b :: ringbuffer_t and xs :: "byte list"
  assume inv: "rb_inv b"
  let ?n = "min (length xs) (rb_free b)"
  obtain b' where b': "ringbuffer_write b xs (length xs) = Some (b', ?n)" "rb_inv b'"
    "rb_contents b' = rb_contents b @ take ?n xs" "rb_buffer_size b' = rb_buffer_size b"
    using ringbuffer_write_spec [OF inv order_refl refl] by blast
  then have "rb_free b' = rb_free b - ?n" by (simp add: rb_free_def)
  with b' show "\<exists>q'. rb_put b xs = Some (q', ?n) \<and> rb_inv q' \<and>
      rb_contents q' = rb_contents b @ take ?n xs \<and> rb_free q' = rb_free b - ?n"
    by (auto simp: rb_put_def)
next
  fix b :: ringbuffer_t and n :: nat
  assume inv: "rb_inv b"
  let ?n = "min n (length (rb_contents b))"
  obtain b' where b': "ringbuffer_read b True n = Some (b', take ?n (rb_contents b), ?n)" "rb_inv b'"
    "rb_contents b' = drop ?n (rb_contents b)" "rb_buffer b' = rb_buffer b"
    using ringbuffer_read_spec [OF inv refl, of True] by (auto simp del: take_all drop_all)
  have sz: "rb_buffer_size b' = rb_buffer_size b"
    using b'(2,4) inv by (simp add: rb_inv_def)
  have "length (rb_contents b) \<le> rb_buffer_size b - 1" by (rule rb_contents_bound [OF inv])
  moreover have "length (rb_contents b') = length (rb_contents b) - ?n" using b'(3) by simp
  ultimately have "rb_free b' = rb_free b + ?n"
    unfolding rb_free_def sz by arith
  moreover have "take ?n (rb_contents b) = take n (rb_contents b)"
    "drop ?n (rb_contents b) = drop n (rb_contents b)" by (simp_all add: min_def)
  ultimately show "\<exists>q'. rb_get b n = Some (q', take n (rb_contents b)) \<and> rb_inv q' \<and>
      rb_contents q' = drop n (rb_contents b) \<and> rb_free q' = rb_free b + ?n"
    using b' by (simp add: rb_get_def)
qed

text \<open>
  C1. For every sequence of writes and reads on a freshly allocated ring buffer, no
  operation accesses memory outside of the storage and no assertion fails; the bytes
  delivered by the reads, followed by the bytes still buffered, are exactly the bytes the
  writes accepted, in order; and the free space plus the buffered bytes is always the
  storage size less one.
\<close>

theorem ringbuffer_fifo:
  "\<exists>b acc del. fifo_run rb_put rb_get (ringbuffer_allocate storage) ops = Some (b, acc, del) \<and>
     rb_inv b \<and> acc = del @ rb_contents b \<and> rb_free b + length (rb_contents b) = length storage - 1"
proof -
  have "rb_free (ringbuffer_allocate storage) = length storage - 1"
    by (simp add: rb_free_def) (simp add: ringbuffer_allocate_def ringbuffer_initialize_def)
  with rb_fifo.fifo_run_order [of "ringbuffer_allocate storage" ops] show ?thesis by auto
qed

end
