(* ===== verification/Stream_Base.thy ===== *)
theory Stream_Base
  imports Prelude
begin

text \<open>
  The part of \<open>foundation/stream.c\<close> and \<open>types.h\<close> that all streams share: the fields every stream
  begins with, and their initialization.
\<close>

section \<open>The fields of a stream\<close>

datatype stream_type_t =
  STREAMTYPE_INVALID | STREAMTYPE_MEMORY | STREAMTYPE_FILE | STREAMTYPE_SOCKET |
  STREAMTYPE_RINGBUFFER | STREAMTYPE_ASSET | STREAMTYPE_PIPE | STREAMTYPE_STDSTREAM |
  STREAMTYPE_CUSTOM

datatype byteorder_t = BYTEORDER_LITTLEENDIAN | BYTEORDER_BIGENDIAN

definition STREAM_IN :: u32 where "STREAM_IN = 1"
definition STREAM_OUT :: u32 where "STREAM_OUT = push_bit 1 1"
definition STREAM_TRUNCATE :: u32 where "STREAM_TRUNCATE = push_bit 2 1"
definition STREAM_ATEND :: u32 where "STREAM_ATEND = push_bit 4 1"
definition STREAM_BINARY :: u32 where "STREAM_BINARY = push_bit 5 1"

record stream_t =
  st_type :: stream_type_t
  st_sequential :: bool
  st_reliable :: bool
  st_inorder :: bool
  st_swap :: bool
  st_byteorder :: byteorder_t
  st_persistent :: bool
  st_compressed :: bool
  st_mode :: u32
  st_path :: string

text \<open>The x86-64 targets are little endian.\<close>

definition system_byteorder :: byteorder_t where
  "system_byteorder = BYTEORDER_LITTLEENDIAN"

definition stream_initialize :: "'a stream_t_scheme \<Rightarrow> byteorder_t \<Rightarrow> 'a stream_t_scheme" where
  "stream_initialize stream order =
     stream\<lparr>st_byteorder := order, st_sequential := False, st_reliable := True, st_inorder := True,
            st_persistent := False, st_compressed := False, st_swap := (order \<noteq> system_byteorder),
            st_mode := STREAM_BINARY, st_path := []\<rparr>"

datatype stream_seek_mode_t = STREAM_SEEK_BEGIN | STREAM_SEEK_CURRENT | STREAM_SEEK_END

end
