(* ===== verification/Ringbuffer_Stream.thy ===== *)
theory Ringbuffer_Stream
  imports Ringbuffer Stream_Base
begin

text \<open>
  The stream interface of \<open>foundation/ringbuffer.c\<close>: one reading and one writing thread share
  a ring buffer and signal each other through two semaphores. A thread is a program counter and
  its locals, one step is one access to the shared state (also inside of the unsynchronized calls of the
  ring buffer), and an execution is an interleaving of the steps of the two threads under sequential
  consistency.
\<close>

section \<open>Streams\<close>

record stream_ringbuffer_t = stream_t +
  rs_signal_read :: nat
  rs_signal_write :: nat
  rs_pending_read :: int
  rs_pending_write :: int
  rs_total_size :: size_t
  rs_ring :: ringbuffer_t

text \<open>
  \<open>path\<close> is the formatted \<open>ringbuffer://0x...\<close> string, which carries the stream's address.
\<close>

definition ringbuffer_stream_initialize ::
    "byte list \<Rightarrow> size_t \<Rightarrow> string \<Rightarrow> stream_ringbuffer_t" where
  "ringbuffer_stream_initialize storage total_size path =
     (let zeroed = \<lparr>st_type = STREAMTYPE_INVALID, st_sequential = False, st_reliable = False,
            st_inorder = False, st_swap = False, st_byteorder = BYTEORDER_LITTLEENDIAN,
            st_persistent = False, st_compressed = False, st_mode = 0, st_path = [],
            rs_signal_read = 0, rs_signal_write = 0, rs_pending_read = 0, rs_pending_write = 0,
            rs_total_size = 0, rs_ring = ringbuffer_allocate storage\<rparr>;
          stream = stream_initialize zeroed system_byteorder
      in stream\<lparr>st_type := STREAMTYPE_RINGBUFFER, st_sequential := True, st_path := path,
                st_mode := STREAM_OUT OR STREAM_IN OR STREAM_BINARY,
                rs_ring := ringbuffer_initialize (rs_ring stream) (length storage),
                rs_signal_read := 0, rs_signal_write := 0, rs_total_size := total_size\<rparr>)"

section \<open>The reading thread\<close>

text \<open>
  The calls of \<open>ringbuffer_read\<close> and \<open>ringbuffer_write\<close> are not atomic: every load and store of an offset,
  every byte that is copied and every update of a counter is a step of its own. \<open>Ring p\<close> is a thread inside
  of such a call; \<open>buffer_size\<close> does not change after the initialization, so that its load is part of the
  step that follows it.
\<close>

datatype read_pc = Read_Offset_Read | Read_Offset_Write | Read_Copy | Read_Store | Read_Count

datatype write_pc = Write_Offset_Read | Write_Offset_Write | Write_Reload | Write_Copy | Write_Assert | Write_Store | Write_Count

datatype 'p stream_pc = Ring 'p | Test | Pend | Peek | Post | Wait | Clear | Final | Final_Post | Done

text \<open>
  The destination of the reader holds \<open>rd_out\<close>, which it has released from the ring buffer, followed by
  \<open>rd_copied\<close>, which it has copied in the running call. \<open>rd_want\<close> is the size that the running call was
  called with, \<open>rd_read\<close> what the calls that it is nested in have read.
\<close>

record reader =
  rd_pc :: "read_pc stream_pc"
  rd_dest :: bool
  rd_size :: size_t
  rd_total :: size_t
  rd_out :: "byte list"
  rd_want :: size_t
  rd_read :: size_t
  rd_offset_read :: size_t
  rd_offset_write :: size_t
  rd_do_read :: size_t
  rd_copied :: "byte list"

definition ringbuffer_stream_read :: "bool \<Rightarrow> size_t \<Rightarrow> reader" where
  "ringbuffer_stream_read dest sz =
     \<lparr>rd_pc = Ring Read_Offset_Read, rd_dest = dest, rd_size = sz, rd_total = 0, rd_out = [], rd_want = sz, rd_read = 0,
      rd_offset_read = 0, rd_offset_write = 0, rd_do_read = 0, rd_copied = []\<rparr>"

text \<open>The call returns to the stream function; \<open>n\<close> is the result of its last nested call.\<close>

definition read_returns :: "reader \<Rightarrow> size_t \<Rightarrow> reader" where
  "read_returns r n = r\<lparr>rd_pc := Test, rd_total := rd_total r + (rd_read r + n), rd_read := 0\<rparr>"

text \<open>The steps of \<open>ringbuffer_read\<close>; \<^const>\<open>None\<close> is an access outside of the storage.\<close>

definition ring_read_step :: "ringbuffer_t \<Rightarrow> reader \<Rightarrow> read_pc \<Rightarrow> (ringbuffer_t \<times> reader) option" where
  "ring_read_step b r p = (case p of
     Read_Offset_Read \<Rightarrow> Some (b, r\<lparr>rd_pc := Ring Read_Offset_Write, rd_offset_read := rb_offset_read b\<rparr>)
   | Read_Offset_Write \<Rightarrow>
       (let offset_write = rb_offset_write b;
            max_read = (if rd_offset_read r > offset_write then size_sub (rb_buffer_size b) (rd_offset_read r)
                        else offset_write - rd_offset_read r);
            do_read = (if rd_want r > max_read then max_read else rd_want r)
        in Some (b, if do_read = 0 then read_returns r 0
                    else r\<lparr>rd_pc := Ring (if rd_dest r then Read_Copy else Read_Store), rd_offset_write := offset_write,
                           rd_do_read := do_read, rd_copied := []\<rparr>))
   | Read_Copy \<Rightarrow>
       (case mem_get (rb_buffer b) (rd_offset_read r + length (rd_copied r)) of
          None \<Rightarrow> None
        | Some c \<Rightarrow>
            Some (b, r\<lparr>rd_pc := Ring (if length (rd_copied r) + 1 < rd_do_read r then Read_Copy else Read_Store),
                       rd_copied := rd_copied r @ [c]\<rparr>))
   | Read_Store \<Rightarrow>
       (let offset_read = rd_offset_read r + rd_do_read r;
            offset_read = (if offset_read = rb_buffer_size b then 0 else offset_read)
        in Some (b\<lparr>rb_offset_read := offset_read\<rparr>,
                 r\<lparr>rd_pc := Ring Read_Count, rd_offset_read := offset_read, rd_out := rd_out r @ rd_copied r, rd_copied := []\<rparr>))
   | Read_Count \<Rightarrow>
       Some (b\<lparr>rb_total_read := rb_total_read b + of_nat (rd_do_read r)\<rparr>,
             if rd_do_read r < rd_want r \<and> rd_offset_read r = 0 \<and> rd_offset_write r > 0
             then r\<lparr>rd_pc := Ring Read_Offset_Read, rd_read := rd_read r + rd_do_read r, rd_want := rd_want r - rd_do_read r\<rparr>
             else read_returns r (rd_do_read r)))"

text \<open>\<^const>\<open>None\<close>: the thread has returned, or it is blocked on its semaphore, or it makes an access outside of the storage.\<close>

definition reader_step :: "stream_ringbuffer_t \<Rightarrow> reader \<Rightarrow> (stream_ringbuffer_t \<times> reader) option" where
  "reader_step s r = (case rd_pc r of
     Ring p \<Rightarrow> map_option (\<lambda>(b, r'). (s\<lparr>rs_ring := b\<rparr>, r')) (ring_read_step (rs_ring s) r p)
   | Test \<Rightarrow> Some (s, r\<lparr>rd_pc := (if rd_total r < rd_size r then Pend else Final)\<rparr>)
   | Pend \<Rightarrow> Some (s\<lparr>rs_pending_read := 1\<rparr>, r\<lparr>rd_pc := Peek\<rparr>)
   | Peek \<Rightarrow> Some (s, r\<lparr>rd_pc := (if rs_pending_write s \<noteq> 0 then Post else Wait)\<rparr>)
   | Post \<Rightarrow> Some (s\<lparr>rs_signal_read := rs_signal_read s + 1\<rparr>, r\<lparr>rd_pc := Wait\<rparr>)
   | Wait \<Rightarrow>
       (if rs_signal_write s = 0 then None
        else Some (s\<lparr>rs_signal_write := rs_signal_write s - 1\<rparr>, r\<lparr>rd_pc := Clear\<rparr>))
   | Clear \<Rightarrow>
       Some (s\<lparr>rs_pending_read := 0\<rparr>, r\<lparr>rd_pc := Ring Read_Offset_Read, rd_want := rd_size r - rd_total r, rd_read := 0\<rparr>)
   | Final \<Rightarrow> Some (s, r\<lparr>rd_pc := (if rs_pending_write s \<noteq> 0 then Final_Post else Done)\<rparr>)
   | Final_Post \<Rightarrow> Some (s\<lparr>rs_signal_read := rs_signal_read s + 1\<rparr>, r\<lparr>rd_pc := Done\<rparr>)
   | Done \<Rightarrow> None)"

section \<open>The writing thread\<close>

text \<open>\<open>wr_written\<close> is what the calls that the running call is nested in have written, \<open>wr_copied\<close> the bytes it has stored.\<close>

record writer =
  wr_pc :: "write_pc stream_pc"
  wr_source :: "byte list"
  wr_size :: size_t
  wr_total :: size_t
  wr_want :: size_t
  wr_written :: size_t
  wr_offset_read :: size_t
  wr_offset_write :: size_t
  wr_do_write :: size_t
  wr_copied :: size_t

definition ringbuffer_stream_write :: "byte list \<Rightarrow> size_t \<Rightarrow> writer" where
  "ringbuffer_stream_write source sz =
     \<lparr>wr_pc = Ring Write_Offset_Read, wr_source = source, wr_size = sz, wr_total = 0, wr_want = sz, wr_written = 0,
      wr_offset_read = 0, wr_offset_write = 0, wr_do_write = 0, wr_copied = 0\<rparr>"

definition write_returns :: "writer \<Rightarrow> size_t \<Rightarrow> writer" where
  "write_returns w n = w\<lparr>wr_pc := Test, wr_total := wr_total w + (wr_written w + n), wr_written := 0\<rparr>"

text \<open>The call goes on with at most \<open>max_write\<close> bytes.\<close>

definition write_at_most :: "writer \<Rightarrow> size_t \<Rightarrow> writer" where
  "write_at_most w max_write =
     (let do_write = (if wr_want w > max_write then max_write else wr_want w)
      in if do_write = 0 then write_returns w 0
         else w\<lparr>wr_pc := Ring Write_Copy, wr_do_write := do_write, wr_copied := 0\<rparr>)"

text \<open>
  The steps of \<open>ringbuffer_write\<close>. \<open>Write_Reload\<close> is the second load of the read offset, which the code makes
  only if there is room up to the end of the storage, and \<open>Write_Assert\<close> the load for the assertion.
\<close>

definition ring_write_step :: "ringbuffer_t \<Rightarrow> writer \<Rightarrow> write_pc \<Rightarrow> (ringbuffer_t \<times> writer) option" where
  "ring_write_step b w p = (case p of
     Write_Offset_Read \<Rightarrow> Some (b, w\<lparr>wr_pc := Ring Write_Offset_Write, wr_offset_read := rb_offset_read b\<rparr>)
   | Write_Offset_Write \<Rightarrow>
       (let offset_write = rb_offset_write b; w = w\<lparr>wr_offset_write := offset_write\<rparr>
        in Some (b, if offset_write \<ge> wr_offset_read w then
                      (if size_sub (rb_buffer_size b) offset_write \<noteq> 0 then w\<lparr>wr_pc := Ring Write_Reload\<rparr>
                       else write_at_most w 0)
                    else write_at_most w (wr_offset_read w - (offset_write + 1))))
   | Write_Reload \<Rightarrow>
       (let max_write = size_sub (rb_buffer_size b) (wr_offset_write w)
        in Some (b, write_at_most w (if rb_offset_read b = 0 then max_write - 1 else max_write)))
   | Write_Copy \<Rightarrow>
       (case mem_get (wr_source w) (wr_total w + wr_written w + wr_copied w) of
          None \<Rightarrow> None
        | Some c \<Rightarrow>
            (case mem_set (rb_buffer b) (wr_offset_write w + wr_copied w) c of
               None \<Rightarrow> None
             | Some storage \<Rightarrow>
                 Some (b\<lparr>rb_buffer := storage\<rparr>,
                       w\<lparr>wr_copied := wr_copied w + 1,
                         wr_pc := Ring (if wr_copied w + 1 < wr_do_write w then Write_Copy
                                        else if wr_offset_write w + wr_do_write w = rb_buffer_size b then Write_Assert
                                        else Write_Store)\<rparr>)))
   | Write_Assert \<Rightarrow>
       (case c_assert (rb_offset_read b \<noteq> 0) of
          None \<Rightarrow> None
        | Some _ \<Rightarrow> Some (b, w\<lparr>wr_pc := Ring Write_Store\<rparr>))
   | Write_Store \<Rightarrow>
       (let offset_write = wr_offset_write w + wr_do_write w;
            offset_write = (if offset_write = rb_buffer_size b then 0 else offset_write)
        in Some (b\<lparr>rb_offset_write := offset_write\<rparr>, w\<lparr>wr_pc := Ring Write_Count, wr_offset_write := offset_write\<rparr>))
   | Write_Count \<Rightarrow>
       Some (b\<lparr>rb_total_write := rb_total_write b + of_nat (wr_do_write w)\<rparr>,
             if wr_do_write w < wr_want w \<and> wr_offset_write w = 0 \<and> wr_offset_read w > 0
             then w\<lparr>wr_pc := Ring Write_Offset_Read, wr_written := wr_written w + wr_do_write w, wr_want := wr_want w - wr_do_write w\<rparr>
             else write_returns w (wr_do_write w)))"

definition writer_step :: "stream_ringbuffer_t \<Rightarrow> writer \<Rightarrow> (stream_ringbuffer_t \<times> writer) option" where
  "writer_step s w = (case wr_pc w of
     Ring p \<Rightarrow> map_option (\<lambda>(b, w'). (s\<lparr>rs_ring := b\<rparr>, w')) (ring_write_step (rs_ring s) w p)
   | Test \<Rightarrow> Some (s, w\<lparr>wr_pc := (if wr_total w < wr_size w then Pend else Final)\<rparr>)
   | Pend \<Rightarrow> Some (s\<lparr>rs_pending_write := 1\<rparr>, w\<lparr>wr_pc := Peek\<rparr>)
   | Peek \<Rightarrow> Some (s, w\<lparr>wr_pc := (if rs_pending_read s \<noteq> 0 then Post else Wait)\<rparr>)
   | Post \<Rightarrow> Some (s\<lparr>rs_signal_write := rs_signal_write s + 1\<rparr>, w\<lparr>wr_pc := Wait\<rparr>)
   | Wait \<Rightarrow>
       (if rs_signal_read s = 0 then None
        else Some (s\<lparr>rs_signal_read := rs_signal_read s - 1\<rparr>, w\<lparr>wr_pc := Clear\<rparr>))
   | Clear \<Rightarrow>
       Some (s\<lparr>rs_pending_write := 0\<rparr>, w\<lparr>wr_pc := Ring Write_Offset_Read, wr_want := wr_size w - wr_total w, wr_written := 0\<rparr>)
   | Final \<Rightarrow> Some (s, w\<lparr>wr_pc := (if rs_pending_read s \<noteq> 0 then Final_Post else Done)\<rparr>)
   | Final_Post \<Rightarrow> Some (s\<lparr>rs_signal_write := rs_signal_write s + 1\<rparr>, w\<lparr>wr_pc := Done\<rparr>)
   | Done \<Rightarrow> None)"

section \<open>The remaining stream functions\<close>

definition ringbuffer_stream_eos :: "stream_ringbuffer_t \<Rightarrow> bool" where
  "ringbuffer_stream_eos s =
     (if rs_total_size s \<noteq> 0 then unat (rb_total_read (rs_ring s)) \<ge> rs_total_size s else False)"

definition ringbuffer_stream_truncate :: "stream_ringbuffer_t \<Rightarrow> size_t \<Rightarrow> stream_ringbuffer_t" where
  "ringbuffer_stream_truncate s sz = s\<lparr>rs_total_size := sz\<rparr>"

definition ringbuffer_stream_size :: "stream_ringbuffer_t \<Rightarrow> size_t" where
  "ringbuffer_stream_size s = rs_total_size s"


text \<open>A seek is refused (\<^const>\<open>None\<close>), or runs a read without a destination.\<close>

definition ringbuffer_stream_seek :: "int \<Rightarrow> stream_seek_mode_t \<Rightarrow> reader option" where
  "ringbuffer_stream_seek offset direction =
     (if direction \<noteq> STREAM_SEEK_CURRENT \<or> offset < 0 then None
      else Some (ringbuffer_stream_read False (nat offset)))"

definition ringbuffer_stream_tell :: "stream_ringbuffer_t \<Rightarrow> size_t" where
  "ringbuffer_stream_tell s = unat (rb_total_read (rs_ring s))"

definition ringbuffer_stream_available_read :: "stream_ringbuffer_t \<Rightarrow> size_t" where
  "ringbuffer_stream_available_read s =
     unat (rb_total_write (rs_ring s) - rb_total_read (rs_ring s))"

section \<open>Executions\<close>

type_synonym rb_system = "stream_ringbuffer_t \<times> reader \<times> writer"

inductive rb_step :: "rb_system \<Rightarrow> rb_system \<Rightarrow> bool" where
  reader_moves: "reader_step s r = Some (s', r') \<Longrightarrow> rb_step (s, r, w) (s', r', w)"
| writer_moves: "writer_step s w = Some (s', w') \<Longrightarrow> rb_step (s, r, w) (s', r, w')"

inductive rb_reach :: "rb_system \<Rightarrow> rb_system \<Rightarrow> bool" for init where
  reach_start: "rb_reach init init"
| reach_step: "rb_reach init x \<Longrightarrow> rb_step x y \<Longrightarrow> rb_reach init y"

inductive_simps rb_step_iff: "rb_step (s, r, w) y"

definition rb_start :: "byte list \<Rightarrow> size_t \<Rightarrow> byte list \<Rightarrow> rb_system" where
  "rb_start storage sz source =
     (ringbuffer_stream_initialize storage 0 [], ringbuffer_stream_read True sz,
      ringbuffer_stream_write source (length source))"

section \<open>Accesses of one thread while the other is at work\<close>

lemma contents_nth:
  assumes "rb_inv b" "c < length (rb_contents b)" "rb_offset_read b + c < rb_buffer_size b"
  shows "mem_get (rb_buffer b) (rb_offset_read b + c) = Some (rb_contents b ! c)"
proof -
  have "rb_contents b ! c = rb_buffer b ! (rb_offset_read b + c)"
    using assms by (auto simp: rb_contents_def rb_inv_def nth_append segment_def split: if_splits)
  then show ?thesis using assms(1,3) by (simp add: mem_get_def rb_inv_def)
qed

text \<open>The reader releases \<open>k\<close> bytes.\<close>

definition advanced :: "ringbuffer_t \<Rightarrow> nat \<Rightarrow> ringbuffer_t" where
  "advanced b k =
     b\<lparr>rb_offset_read := (if rb_offset_read b + k = rb_buffer_size b then 0 else rb_offset_read b + k)\<rparr>"

definition can_read :: "ringbuffer_t \<Rightarrow> nat \<Rightarrow> bool" where
  "can_read b k \<longleftrightarrow> k \<le> length (rb_contents b) \<and> rb_offset_read b + k \<le> rb_buffer_size b"

lemma advanced_spec:
  assumes "rb_inv b" "can_read b k"
  shows "rb_inv (advanced b k)" "rb_contents (advanced b k) = drop k (rb_contents b)"
  using assms
  by (auto simp: can_read_def advanced_def rb_inv_def rb_contents_def drop_segment rb_contents_length split: if_splits)

text \<open>The writer may store \<open>k\<close> bytes from the write offset on.\<close>

definition can_write :: "ringbuffer_t \<Rightarrow> nat \<Rightarrow> bool" where
  "can_write b k \<longleftrightarrow>
     (if rb_offset_read b \<le> rb_offset_write b
      then rb_offset_write b + k \<le> rb_buffer_size b \<and> (rb_offset_write b + k = rb_buffer_size b \<longrightarrow> 0 < rb_offset_read b)
      else rb_offset_write b + k < rb_offset_read b)"

lemma can_write_advanced: "rb_inv b \<Longrightarrow> can_read b k \<Longrightarrow> can_write b j \<Longrightarrow> can_write (advanced b k) j"
  by (auto simp: can_read_def can_write_def advanced_def rb_inv_def rb_contents_length split: if_splits)

text \<open>What the writer knows of a read offset \<open>offset\<close> that it has loaded before.\<close>

definition loaded_before :: "ringbuffer_t \<Rightarrow> nat \<Rightarrow> bool" where
  "loaded_before b offset \<longleftrightarrow> offset \<le> rb_buffer_size b \<and>
     (if offset \<le> rb_offset_write b then offset \<le> rb_offset_read b \<and> rb_offset_read b \<le> rb_offset_write b
      else rb_offset_write b < rb_offset_read b \<longrightarrow> offset \<le> rb_offset_read b)"

lemma loaded_before_advanced:
  "rb_inv b \<Longrightarrow> can_read b k \<Longrightarrow> loaded_before b offset \<Longrightarrow> loaded_before (advanced b k) offset"
  by (auto simp: can_read_def loaded_before_def advanced_def rb_inv_def rb_contents_length split: if_splits)

lemma loaded_now: "rb_inv b \<Longrightarrow> loaded_before b (rb_offset_read b)"
  by (auto simp: loaded_before_def rb_inv_def split: if_splits)

text \<open>A byte that is stored in the free part of the storage, and the release of the stored bytes to the reader.\<close>

lemma store_free:
  assumes "rb_inv b" "can_write b k" "i < k"
  shows "mem_set (rb_buffer b) (rb_offset_write b + i) c = Some ((rb_buffer b)[rb_offset_write b + i := c])"
    "rb_inv (b\<lparr>rb_buffer := (rb_buffer b)[rb_offset_write b + i := c]\<rparr>)"
    "rb_contents (b\<lparr>rb_buffer := (rb_buffer b)[rb_offset_write b + i := c]\<rparr>) = rb_contents b"
    "segment ((rb_buffer b)[rb_offset_write b + i := c]) (rb_offset_write b) (rb_offset_write b + (i + 1)) =
       segment (rb_buffer b) (rb_offset_write b) (rb_offset_write b + i) @ [c]"
proof -
  have less: "rb_offset_write b + i < length (rb_buffer b)"
    using assms by (auto simp: can_write_def rb_inv_def split: if_splits)
  then show "mem_set (rb_buffer b) (rb_offset_write b + i) c = Some ((rb_buffer b)[rb_offset_write b + i := c])"
    by (simp add: mem_set_def)
  show "rb_inv (b\<lparr>rb_buffer := (rb_buffer b)[rb_offset_write b + i := c]\<rparr>)" using assms(1) by (auto simp: rb_inv_def split: if_splits)
  have "rb_offset_write b < rb_offset_read b \<Longrightarrow> rb_offset_write b + i < rb_offset_read b"
    using assms(2,3) by (simp add: can_write_def split: if_splits)
  then show "rb_contents (b\<lparr>rb_buffer := (rb_buffer b)[rb_offset_write b + i := c]\<rparr>) = rb_contents b"
    by (auto simp: rb_contents_def segment_def drop_take)
  show "segment ((rb_buffer b)[rb_offset_write b + i := c]) (rb_offset_write b) (rb_offset_write b + (i + 1)) =
      segment (rb_buffer b) (rb_offset_write b) (rb_offset_write b + i) @ [c]"
    using less by (simp add: segment_def take_Suc_conv_app_nth)
qed

definition released :: "ringbuffer_t \<Rightarrow> nat \<Rightarrow> ringbuffer_t" where
  "released b k =
     b\<lparr>rb_offset_write := (if rb_offset_write b + k = rb_buffer_size b then 0 else rb_offset_write b + k)\<rparr>"

lemma overwrite_same: "p + k \<le> length xs \<Longrightarrow> overwrite xs p (segment xs p (p + k)) = xs"
  by (simp add: overwrite_def segment_def) (metis append_take_drop_id drop_drop add.commute drop_take diff_add_inverse take_drop)

lemma released_spec:
  assumes "rb_inv b" "can_write b k" "segment (rb_buffer b) (rb_offset_write b) (rb_offset_write b + k) = data"
  shows "rb_inv (released b k)" "rb_contents (released b k) = rb_contents b @ data"
proof -
  have le: "rb_offset_write b + k \<le> length (rb_buffer b)"
    using assms(1,2) by (auto simp: can_write_def rb_inv_def split: if_splits)
  then have data: "length data = k" "overwrite (rb_buffer b) (rb_offset_write b) data = rb_buffer b"
    using assms(3) overwrite_same [OF le] by auto
  have "rb_inv (released b k) \<and> rb_contents (released b k) = rb_contents b @ data"
  proof (cases "rb_offset_read b \<le> rb_offset_write b")
    case True
    have "released b k = b\<lparr>rb_buffer := overwrite (rb_buffer b) (rb_offset_write b) data,
        rb_offset_write := (if rb_offset_write b + length data = rb_buffer_size b then 0 else rb_offset_write b + length data),
        rb_total_write := rb_total_write b\<rparr>"
      unfolding data by (simp add: released_def)
    from rb_store_linear [OF assms(1) True _ _ this] assms(2) True data(1) show ?thesis by (auto simp: can_write_def)
  next
    case False
    then have lt: "rb_offset_write b < rb_offset_read b" "rb_offset_write b + length data < rb_offset_read b"
      "rb_offset_read b < rb_buffer_size b"
      using assms(1,2) data(1) by (auto simp: can_write_def rb_inv_def split: if_splits)
    then have "released b k = b\<lparr>rb_buffer := overwrite (rb_buffer b) (rb_offset_write b) data,
        rb_offset_write := rb_offset_write b + length data, rb_total_write := rb_total_write b\<rparr>"
      unfolding data by (simp add: released_def)
    from rb_store_wrapped [OF assms(1) lt(1,2) this] show ?thesis by simp
  qed
  then show "rb_inv (released b k)" "rb_contents (released b k) = rb_contents b @ data" by simp_all
qed

section \<open>The invariant\<close>

definition reader_inv :: "ringbuffer_t \<Rightarrow> reader \<Rightarrow> bool" where
  "reader_inv b r \<longleftrightarrow> rd_dest r \<and> (case rd_pc r of
     Ring p \<Rightarrow> rd_total r + rd_read r + rd_want r = rd_size r \<and> (case p of
         Read_Offset_Read \<Rightarrow> length (rd_out r) = rd_total r + rd_read r \<and> rd_copied r = []
       | Read_Offset_Write \<Rightarrow>
           length (rd_out r) = rd_total r + rd_read r \<and> rd_copied r = [] \<and> rd_offset_read r = rb_offset_read b
       | Read_Copy \<Rightarrow>
           length (rd_out r) = rd_total r + rd_read r \<and> rd_offset_read r = rb_offset_read b \<and> rd_do_read r \<le> rd_want r \<and>
           can_read b (rd_do_read r) \<and> length (rd_copied r) < rd_do_read r \<and> rd_copied r = take (length (rd_copied r)) (rb_contents b)
       | Read_Store \<Rightarrow>
           length (rd_out r) = rd_total r + rd_read r \<and> rd_offset_read r = rb_offset_read b \<and> rd_do_read r \<le> rd_want r \<and>
           can_read b (rd_do_read r) \<and> rd_copied r = take (rd_do_read r) (rb_contents b)
       | Read_Count \<Rightarrow>
           length (rd_out r) = rd_total r + rd_read r + rd_do_read r \<and> rd_do_read r \<le> rd_want r \<and> rd_copied r = [])
   | _ \<Rightarrow> length (rd_out r) = rd_total r \<and> rd_total r \<le> rd_size r \<and> rd_copied r = [] \<and> rd_read r = 0)"

definition writer_inv :: "ringbuffer_t \<Rightarrow> writer \<Rightarrow> bool" where
  "writer_inv b w \<longleftrightarrow> wr_size w = length (wr_source w) \<and> (case wr_pc w of
     Ring p \<Rightarrow> wr_total w + wr_written w + wr_want w = wr_size w \<and> (case p of
         Write_Offset_Read \<Rightarrow> True
       | Write_Offset_Write \<Rightarrow> loaded_before b (wr_offset_read w)
       | Write_Reload \<Rightarrow> wr_offset_write w = rb_offset_write b \<and> rb_offset_read b \<le> rb_offset_write b
       | Write_Count \<Rightarrow> wr_do_write w \<le> wr_want w
       | _ \<Rightarrow>
           wr_offset_write w = rb_offset_write b \<and> wr_do_write w \<le> wr_want w \<and> can_write b (wr_do_write w) \<and>
           segment (rb_buffer b) (rb_offset_write b) (rb_offset_write b + wr_copied w) =
             take (wr_copied w) (drop (wr_total w + wr_written w) (wr_source w)) \<and>
           (if p = Write_Copy then wr_copied w < wr_do_write w
            else wr_copied w = wr_do_write w \<and> (p = Write_Assert \<longrightarrow> rb_offset_write b + wr_do_write w = rb_buffer_size b)))
   | _ \<Rightarrow> wr_total w \<le> wr_size w \<and> wr_written w = 0)"

text \<open>The number of bytes that the writer has released to the reader.\<close>

definition wr_sent :: "writer \<Rightarrow> nat" where
  "wr_sent w = wr_total w + wr_written w + (if wr_pc w = Ring Write_Count then wr_do_write w else 0)"

fun rbs_inv :: "rb_system \<Rightarrow> bool" where
  "rbs_inv (s, r, w) \<longleftrightarrow> rb_inv (rs_ring s) \<and> reader_inv (rs_ring s) r \<and> writer_inv (rs_ring s) w \<and>
     rd_out r @ rb_contents (rs_ring s) = take (wr_sent w) (wr_source w)"

lemma rbs_inv_start: "rbs_inv (rb_start storage sz source)"
  by (simp add: rb_start_def ringbuffer_stream_initialize_def ringbuffer_stream_read_def
      ringbuffer_stream_write_def stream_initialize_def Let_def ringbuffer_initialize_def
      rb_inv_def rb_contents_def ringbuffer_allocate_def reader_inv_def writer_inv_def wr_sent_def)

text \<open>The steps of one thread keep what the other knows.\<close>

lemma reader_inv_mono:
  assumes "reader_inv b r" "rb_offset_read b' = rb_offset_read b" "rb_buffer_size b' = rb_buffer_size b"
    "rb_contents b' = rb_contents b @ data"
  shows "reader_inv b' r"
  using assms by (auto simp: reader_inv_def can_read_def split: stream_pc.splits read_pc.splits)

lemma writer_inv_cong:
  "writer_inv b w \<Longrightarrow> rb_offset_read b' = rb_offset_read b \<Longrightarrow> rb_offset_write b' = rb_offset_write b \<Longrightarrow>
   rb_buffer_size b' = rb_buffer_size b \<Longrightarrow> rb_buffer b' = rb_buffer b \<Longrightarrow> writer_inv b' w"
  by (auto simp: writer_inv_def can_write_def loaded_before_def split: stream_pc.splits write_pc.splits)

lemma writer_inv_advanced:
  assumes "rb_inv b" "can_read b k" "writer_inv b w"
  shows "writer_inv (advanced b k) w"
proof -
  have same: "rb_offset_write (advanced b k) = rb_offset_write b" "rb_buffer_size (advanced b k) = rb_buffer_size b"
      "rb_buffer (advanced b k) = rb_buffer b"
    by (simp_all add: advanced_def)
  have "rb_offset_read b \<le> rb_offset_write b \<Longrightarrow> rb_offset_read (advanced b k) \<le> rb_offset_write b"
    using assms(1,2) by (auto simp: advanced_def can_read_def rb_contents_length)
  then show ?thesis
    using assms(3) can_write_advanced [OF assms(1,2)] loaded_before_advanced [OF assms(1,2)]
    by (auto simp: writer_inv_def same split: stream_pc.splits write_pc.splits)
qed

lemma rb_frame [simp]:
  "rb_inv (b\<lparr>rb_total_read := t\<rparr>) = rb_inv b" "rb_contents (b\<lparr>rb_total_read := t\<rparr>) = rb_contents b"
  "rb_inv (b\<lparr>rb_total_write := t\<rparr>) = rb_inv b" "rb_contents (b\<lparr>rb_total_write := t\<rparr>) = rb_contents b"
  by (simp_all add: rb_inv_def rb_contents_def)

lemma max_read_can_read:
  assumes "rb_inv b" "k \<le> (if rb_offset_read b > rb_offset_write b then size_sub (rb_buffer_size b) (rb_offset_read b)
    else rb_offset_write b - rb_offset_read b)"
  shows "can_read b k"
  using assms by (auto simp: can_read_def rb_contents_length rb_inv_def split: if_splits)

lemma ring_read_step_inv:
  assumes inv: "rbs_inv (s, r, w)" and pc: "rd_pc r = Ring p"
  shows "\<exists>b' r'. ring_read_step (rs_ring s) r p = Some (b', r') \<and> rbs_inv (s\<lparr>rs_ring := b'\<rparr>, r', w)"
proof -
  define b where "b = rs_ring s"
  have b: "rb_inv b" "reader_inv b r" "writer_inv b w" "rd_out r @ rb_contents b = take (wr_sent w) (wr_source w)"
    using inv by (simp_all add: b_def)
  note rd = b(2) [unfolded reader_inv_def pc, simplified]
  show ?thesis
  proof (cases p)
    case Read_Offset_Read
    then show ?thesis using b rd by (auto simp: ring_read_step_def reader_inv_def simp flip: b_def)
  next
    case Read_Offset_Write
    define max_read where "max_read = (if rd_offset_read r > rb_offset_write b then size_sub (rb_buffer_size b) (rd_offset_read r)
      else rb_offset_write b - rd_offset_read r)"
    define k where "k = min (rd_want r) max_read"
    have k: "can_read b k" "k \<le> rd_want r"
      using max_read_can_read [OF b(1), of k] rd Read_Offset_Write by (simp_all add: k_def max_read_def)
    have kk: "(if rd_want r > max_read then max_read else rd_want r) = k" by (simp add: k_def min_def)
    have step: "ring_read_step b r p = Some (b, if k = 0 then read_returns r 0
        else r\<lparr>rd_pc := Ring Read_Copy, rd_offset_write := rb_offset_write b, rd_do_read := k, rd_copied := []\<rparr>)"
      unfolding ring_read_step_def Read_Offset_Write read_pc.case Let_def max_read_def [symmetric] kk using rd by simp
    show ?thesis
    proof (cases "k = 0")
      case True
      then show ?thesis using step b(1,3,4) rd Read_Offset_Write by (simp add: reader_inv_def read_returns_def flip: b_def)
    next
      case False
      then show ?thesis using step b(1,3,4) rd Read_Offset_Write k by (simp add: reader_inv_def flip: b_def)
    qed
  next
    case Read_Copy
    define c where "c = rb_contents b ! length (rd_copied r)"
    have len: "length (rd_copied r) < length (rb_contents b)" "rb_offset_read b + length (rd_copied r) < rb_buffer_size b"
      using rd Read_Copy by (auto simp: can_read_def)
    then have get: "mem_get (rb_buffer b) (rd_offset_read r + length (rd_copied r)) = Some c"
      using contents_nth [OF b(1)] rd Read_Copy by (simp add: c_def)
    define xs where "xs = rd_copied r @ [c]"
    have xs: "xs = take (length xs) (rb_contents b)" "length xs = length (rd_copied r) + 1"
      using rd Read_Copy len(1) by (simp_all add: c_def xs_def take_Suc_conv_app_nth)
    define p' where "p' = (if length xs < rd_do_read r then Read_Copy else Read_Store)"
    have "ring_read_step b r p = Some (b, r\<lparr>rd_pc := Ring p', rd_copied := xs\<rparr>)"
      using Read_Copy get xs(2) by (simp add: ring_read_step_def p'_def flip: xs_def)
    moreover have "reader_inv b (r\<lparr>rd_pc := Ring p', rd_copied := xs\<rparr>)"
    proof (cases "length xs < rd_do_read r")
      case True
      then show ?thesis using rd Read_Copy xs(1) by (simp add: reader_inv_def p'_def)
    next
      case False
      then have "length xs = rd_do_read r" using rd Read_Copy xs(2) by simp
      then show ?thesis using False rd Read_Copy xs(1) by (simp add: reader_inv_def p'_def)
    qed
    ultimately show ?thesis using b(1,3,4) by (simp flip: b_def)
  next
    case Read_Store
    define k where "k = rd_do_read r"
    have k: "can_read b k" "rd_copied r = take k (rb_contents b)" "length (take k (rb_contents b)) = k"
      using rd Read_Store by (auto simp: k_def can_read_def)
    have "ring_read_step b r p = Some (advanced b k,
        r\<lparr>rd_pc := Ring Read_Count, rd_offset_read := rb_offset_read (advanced b k), rd_out := rd_out r @ rd_copied r, rd_copied := []\<rparr>)"
      using rd Read_Store by (simp add: ring_read_step_def advanced_def k_def Let_def)
    then show ?thesis
      using b(4) rd Read_Store k advanced_spec [OF b(1) k(1)] writer_inv_advanced [OF b(1) k(1) b(3)]
      by (auto simp: reader_inv_def k_def [symmetric] simp flip: b_def)
  next
    case Read_Count
    have "writer_inv (b\<lparr>rb_total_read := t\<rparr>) w" for t by (rule writer_inv_cong [OF b(3)]) simp_all
    then show ?thesis using b rd Read_Count
      by (auto simp: ring_read_step_def reader_inv_def read_returns_def simp flip: b_def)
  qed
qed

lemma write_at_most_inv:
  assumes "writer_inv b w'" "w' = w\<lparr>wr_pc := Ring Write_Offset_Read\<rparr>" "wr_offset_write w = rb_offset_write b"
    "k = min (wr_want w) max_write" "k \<noteq> 0 \<longrightarrow> can_write b k"
  shows "writer_inv b (write_at_most w max_write)" "wr_sent (write_at_most w max_write) = wr_total w + wr_written w"
    "wr_source (write_at_most w max_write) = wr_source w"
proof -
  have k: "(if wr_want w > max_write then max_write else wr_want w) = k" using assms(4) by simp
  show "writer_inv b (write_at_most w max_write)"
    using assms(1,2,3,5) assms(4) [symmetric] by (cases "k = 0") (simp_all add: write_at_most_def Let_def k writer_inv_def write_returns_def)
  show "wr_sent (write_at_most w max_write) = wr_total w + wr_written w"
    "wr_source (write_at_most w max_write) = wr_source w"
    by (simp_all add: write_at_most_def Let_def wr_sent_def write_returns_def)
qed

lemma ring_write_step_inv:
  assumes inv: "rbs_inv (s, r, w)" and pc: "wr_pc w = Ring p"
  shows "\<exists>b' w'. ring_write_step (rs_ring s) w p = Some (b', w') \<and> rbs_inv (s\<lparr>rs_ring := b'\<rparr>, r, w')"
proof -
  define b where "b = rs_ring s"
  have b: "rb_inv b" "reader_inv b r" "writer_inv b w" "rd_out r @ rb_contents b = take (wr_sent w) (wr_source w)"
    using inv by (simp_all add: b_def)
  note wr = b(3) [unfolded writer_inv_def pc, simplified]
  have same: ?thesis if "ring_write_step b w p = Some (b, w')" "writer_inv b w'" "wr_sent w' = wr_sent w" "wr_source w' = wr_source w" for w'
    using that b(1,2,4) by (simp flip: b_def)
  show ?thesis
  proof (cases p)
    case Write_Offset_Read
    then show ?thesis using b wr pc loaded_now [OF b(1)]
      by (auto simp: ring_write_step_def writer_inv_def wr_sent_def simp flip: b_def)
  next
    case Write_Offset_Write
    define w1 where "w1 = w\<lparr>wr_offset_write := rb_offset_write b\<rparr>"
    have w1: "writer_inv b (w1\<lparr>wr_pc := Ring Write_Offset_Read\<rparr>)" "wr_sent w = wr_total w1 + wr_written w1"
      "wr_source w = wr_source w1" "wr_offset_write w1 = rb_offset_write b" "wr_want w1 = wr_want w"
      using wr Write_Offset_Write pc by (simp_all add: writer_inv_def w1_def wr_sent_def)
    note at_most = write_at_most_inv [OF w1(1) refl w1(4) refl]
    show ?thesis
    proof (cases "wr_offset_read w \<le> rb_offset_write b")
      case True
      then have le: "rb_offset_read b \<le> rb_offset_write b" using wr Write_Offset_Write by (simp add: loaded_before_def)
      show ?thesis
      proof (cases "size_sub (rb_buffer_size b) (rb_offset_write b) = 0")
        case z: True
        have "ring_write_step b w p = Some (b, write_at_most w1 0)"
          using Write_Offset_Write True z by (simp add: ring_write_step_def Let_def w1_def)
        then show ?thesis by (rule same) (simp_all add: at_most [of 0, simplified] w1(2,3))
      next
        case False
        have "ring_write_step b w p = Some (b, w1\<lparr>wr_pc := Ring Write_Reload\<rparr>)"
          using Write_Offset_Write True False by (simp add: ring_write_step_def Let_def w1_def)
        then show ?thesis
          by (rule same) (use wr Write_Offset_Write le pc in \<open>simp_all add: writer_inv_def wr_sent_def w1_def\<close>)
      qed
    next
      case False
      define k where "k = min (wr_want w) (wr_offset_read w - (rb_offset_write b + 1))"
      have k: "k \<noteq> 0 \<longrightarrow> can_write b k"
        using wr Write_Offset_Write False by (auto simp: loaded_before_def can_write_def k_def)
      have "ring_write_step b w p = Some (b, write_at_most w1 (wr_offset_read w - (rb_offset_write b + 1)))"
        using Write_Offset_Write False by (simp add: ring_write_step_def Let_def w1_def)
      then show ?thesis
        by (rule same) (simp_all only: at_most [OF k [unfolded k_def, folded w1(5)]] w1(2,3))
    qed
  next
    case Write_Reload
    define max_write where "max_write = (if rb_offset_read b = 0 then size_sub (rb_buffer_size b) (wr_offset_write w) - 1
      else size_sub (rb_buffer_size b) (wr_offset_write w))"
    define k where "k = min (wr_want w) max_write"
    have w0: "writer_inv b (w\<lparr>wr_pc := Ring Write_Offset_Read\<rparr>)" "wr_sent w = wr_total w + wr_written w"
      "wr_offset_write w = rb_offset_write b"
      using wr Write_Reload pc by (simp_all add: writer_inv_def wr_sent_def)
    have k: "k \<noteq> 0 \<longrightarrow> can_write b k"
      using wr Write_Reload b(1) by (auto simp: can_write_def k_def max_write_def rb_inv_def split: if_splits)
    have "ring_write_step b w p = Some (b, write_at_most w max_write)"
      using Write_Reload by (simp add: ring_write_step_def max_write_def)
    then show ?thesis by (rule same) (simp_all only: w0(2) write_at_most_inv [OF w0(1) refl w0(3) k_def k])
  next
    case Write_Copy
    define data where "data = drop (wr_total w + wr_written w) (wr_source w)"
    define i where "i = wr_copied w"
    define c where "c = data ! i"
    define b' where "b' = b\<lparr>rb_buffer := (rb_buffer b)[rb_offset_write b + i := c]\<rparr>"
    have i: "i < wr_do_write w" "can_write b (wr_do_write w)" "wr_offset_write w = rb_offset_write b"
      "segment (rb_buffer b) (rb_offset_write b) (rb_offset_write b + i) = take i data"
      using wr Write_Copy by (simp_all add: i_def data_def)
    note store = store_free [OF b(1) i(2,1), of c]
    have "i < length data" using wr Write_Copy i(1) by (auto simp: data_def)
    then have get: "mem_get (wr_source w) (wr_total w + wr_written w + i) = Some c"
      and data: "take i data @ [c] = take (i + 1) data"
      by (simp_all add: mem_get_def c_def data_def take_Suc_conv_app_nth add.commute less_diff_conv)
    define p' where "p' = (if i + 1 < wr_do_write w then Write_Copy
      else if rb_offset_write b + wr_do_write w = rb_buffer_size b then Write_Assert else Write_Store)"
    have "ring_write_step b w p = Some (b', w\<lparr>wr_copied := i + 1, wr_pc := Ring p'\<rparr>)"
      using Write_Copy get store(1) i(3) by (simp add: ring_write_step_def b'_def p'_def flip: i_def)
    moreover have "writer_inv b' (w\<lparr>wr_copied := i + 1, wr_pc := Ring p'\<rparr>)"
      using wr Write_Copy i store(4) data
      by (auto simp: writer_inv_def p'_def b'_def can_write_def data_def [symmetric])
    moreover have "reader_inv b' r" by (rule reader_inv_mono [OF b(2), where data = "[]"]) (simp_all add: b'_def store(3))
    moreover have "wr_sent (w\<lparr>wr_copied := i + 1, wr_pc := Ring p'\<rparr>) = wr_sent w" using pc Write_Copy by (simp add: wr_sent_def p'_def)
    ultimately show ?thesis using b(4) store(2,3) by (simp add: b'_def flip: b_def)
  next
    case Write_Assert
    then have "rb_offset_read b \<noteq> 0" using wr b(1) by (auto simp: can_write_def rb_inv_def split: if_splits)
    then show ?thesis using b wr Write_Assert pc
      by (auto simp: ring_write_step_def writer_inv_def wr_sent_def simp flip: b_def)
  next
    case Write_Store
    define k where "k = wr_do_write w"
    define data where "data = take k (drop (wr_total w + wr_written w) (wr_source w))"
    have k: "can_write b k" "wr_offset_write w = rb_offset_write b" "k \<le> wr_want w"
      "segment (rb_buffer b) (rb_offset_write b) (rb_offset_write b + k) = data"
      using wr Write_Store by (auto simp: k_def data_def)
    note rel = released_spec [OF b(1) k(1,4)]
    define w' where "w' = w\<lparr>wr_pc := Ring Write_Count, wr_offset_write := rb_offset_write (released b k)\<rparr>"
    have "ring_write_step b w p = Some (released b k, w')"
      using Write_Store k(2) by (simp add: ring_write_step_def released_def k_def w'_def Let_def)
    moreover have "writer_inv (released b k) w'" using wr Write_Store k(3) by (simp add: writer_inv_def w'_def)
    moreover have "reader_inv (released b k) r"
      by (rule reader_inv_mono [OF b(2) _ _ rel(2)]) (simp_all add: released_def)
    moreover have "take (wr_sent w') (wr_source w') = take (wr_sent w) (wr_source w) @ data"
      using pc Write_Store by (simp add: wr_sent_def w'_def data_def k_def take_add)
    ultimately show ?thesis using b(4) rel by (simp flip: b_def append_assoc)
  next
    case Write_Count
    have "reader_inv (b\<lparr>rb_total_write := t\<rparr>) r" for t by (rule reader_inv_mono [OF b(2), where data = "[]"]) simp_all
    then show ?thesis using b wr Write_Count pc
      by (auto simp: ring_write_step_def writer_inv_def write_returns_def wr_sent_def add.assoc simp flip: b_def)
  qed
qed

lemma reader_step_inv:
  assumes inv: "rbs_inv (s, r, w)" and step: "reader_step s r = Some (s', r')"
  shows "rbs_inv (s', r', w)"
proof (cases "rd_pc r")
  case (Ring p)
  then show ?thesis using ring_read_step_inv [OF inv Ring] step by (auto simp: reader_step_def)
qed (use assms in \<open>auto simp: reader_step_def reader_inv_def split: if_splits\<close>)

lemma writer_step_inv:
  assumes inv: "rbs_inv (s, r, w)" and step: "writer_step s w = Some (s', w')"
  shows "rbs_inv (s', r, w')"
proof (cases "wr_pc w")
  case (Ring p)
  then show ?thesis using ring_write_step_inv [OF inv Ring] step by (auto simp: writer_step_def)
qed (use assms in \<open>auto simp: writer_step_def writer_inv_def wr_sent_def split: if_splits\<close>)

lemma rb_reach_inv: "rb_reach init x \<Longrightarrow> rbs_inv init \<Longrightarrow> rbs_inv x"
proof (induction rule: rb_reach.induct)
  case reach_start
  then show ?case .
next
  case (reach_step x y)
  from \<open>rb_step x y\<close> reach_step.IH [OF reach_step.prems] show ?case
    by cases (blast intro: reader_step_inv writer_step_inv)+
qed

text \<open>A thread makes no step only when it has returned or waits on an empty semaphore.\<close>

lemma reader_step_None:
  "rbs_inv (s, r, w) \<Longrightarrow> reader_step s r = None \<longleftrightarrow>
     rd_pc r = Done \<or> rd_pc r = Wait \<and> rs_signal_write s = 0"
proof (cases "rd_pc r")
  case (Ring p)
  assume "rbs_inv (s, r, w)"
  from ring_read_step_inv [OF this Ring] Ring show ?thesis by (auto simp: reader_step_def)
qed (simp_all add: reader_step_def)

lemma writer_step_None:
  "rbs_inv (s, r, w) \<Longrightarrow> writer_step s w = None \<longleftrightarrow>
     wr_pc w = Done \<or> wr_pc w = Wait \<and> rs_signal_read s = 0"
proof (cases "wr_pc w")
  case (Ring p)
  assume "rbs_inv (s, r, w)"
  from ring_write_step_inv [OF this Ring] Ring show ?thesis by (auto simp: writer_step_def)
qed (simp_all add: writer_step_def)

text \<open>What the threads were asked for does not change.\<close>

lemma reader_step_frame: "reader_step s r = Some (s', r') \<Longrightarrow> rd_size r' = rd_size r"
  by (auto simp: reader_step_def ring_read_step_def read_returns_def Let_def
      split: stream_pc.splits read_pc.splits if_splits option.splits prod.splits)

lemma writer_step_frame: "writer_step s w = Some (s', w') \<Longrightarrow> wr_source w' = wr_source w"
  by (auto simp: writer_step_def ring_write_step_def write_at_most_def write_returns_def Let_def
      split: stream_pc.splits write_pc.splits if_splits option.splits prod.splits)

lemma rb_reach_frame:
  "rb_reach init x \<Longrightarrow> rd_size (fst (snd x)) = rd_size (fst (snd init)) \<and>
     wr_source (snd (snd x)) = wr_source (snd (snd init))"
  by (induction rule: rb_reach.induct)
     (auto elim!: rb_step.cases dest: reader_step_frame writer_step_frame)

section \<open>Schedules\<close>

text \<open>An execution given by its schedule: \<^const>\<open>True\<close> lets the reader step.\<close>

fun rb_run :: "rb_system \<Rightarrow> bool list \<Rightarrow> rb_system option" where
  "rb_run x [] = Some x"
| "rb_run (s, r, w) (True # sched) =
     (case reader_step s r of None \<Rightarrow> None | Some (s', r') \<Rightarrow> rb_run (s', r', w) sched)"
| "rb_run (s, r, w) (False # sched) =
     (case writer_step s w of None \<Rightarrow> None | Some (s', w') \<Rightarrow> rb_run (s', r, w') sched)"

lemma rb_run_reach: "rb_run x sched = Some y \<Longrightarrow> rb_reach init x \<Longrightarrow> rb_reach init y"
proof (induction x sched rule: rb_run.induct)
  case (2 s r w sched)
  then obtain s' r' where "reader_step s r = Some (s', r')" "rb_run (s', r', w) sched = Some y"
    by (auto split: option.splits)
  with 2 show ?case by (blast intro: rb_reach.reach_step rb_step.intros)
next
  case (3 s r w sched)
  then obtain s' w' where "writer_step s w = Some (s', w')" "rb_run (s', r, w') sched = Some y"
    by (auto split: option.splits)
  with 3 show ?case by (blast intro: rb_reach.reach_step rb_step.intros)
qed simp

text \<open>
  C2. In every state that an interleaving of one reading and one writing thread of a ring buffer
  stream can reach, where each load and store of an offset, a flag or a counter and each copied byte is a step
  of its own and the memory is sequentially consistent: the bytes the reader has released followed by the ones in
  the buffer are exactly the bytes the writer has released, in order; what the reader has copied but
  not released yet is the beginning of the buffer; it never receives more than it asked for; and
  neither thread stops other than by returning or by waiting on its empty semaphore (in particular
  no access leaves the storage and no assertion fails).
\<close>

theorem ringbuffer_stream_safe:
  assumes "rb_reach (rb_start storage sz source) (s, r, w)"
  shows "rd_out r @ rb_contents (rs_ring s) = take (wr_sent w) source \<and>
    rd_copied r = take (length (rd_copied r)) (rb_contents (rs_ring s)) \<and> length (rd_out r @ rd_copied r) \<le> sz \<and>
    (reader_step s r = None \<longleftrightarrow> rd_pc r = Done \<or> rd_pc r = Wait \<and> rs_signal_write s = 0) \<and>
    (writer_step s w = None \<longleftrightarrow> wr_pc w = Done \<or> wr_pc w = Wait \<and> rs_signal_read s = 0)"
proof -
  have inv: "rbs_inv (s, r, w)" by (rule rb_reach_inv [OF assms rbs_inv_start])
  have "wr_source w = source" "rd_size r = sz"
    using rb_reach_frame [OF assms]
    by (simp_all add: rb_start_def ringbuffer_stream_write_def ringbuffer_stream_read_def)
  moreover have "rd_copied r = take (length (rd_copied r)) (rb_contents (rs_ring s)) \<and> length (rd_out r @ rd_copied r) \<le> rd_size r"
    using inv by (auto simp: reader_inv_def can_read_def split: stream_pc.splits read_pc.splits)
  ultimately show ?thesis using inv reader_step_None [OF inv] writer_step_None [OF inv] by simp
qed

theorem ringbuffer_stream_safe_witness:
  "case rb_run (rb_start (replicate 4 0) 5 [1, 2, 3, 4, 5]) (replicate 8 False @ [True, True, True, False, True]) of
     None \<Rightarrow> False
   | Some (s, r, w) \<Rightarrow> rd_out r @ rb_contents (rs_ring s) = take (wr_sent w) [1, 2, 3, 4, 5] \<and>
       rd_copied r = take 2 (rb_contents (rs_ring s)) \<and> rd_copied r = [1, 2]"
proof -
  let ?init = "rb_start (replicate 4 0) 5 [1, 2, 3, 4, 5]"
  let ?sched = "replicate 8 False @ [True, True, True, False, True]"
  have "case rb_run ?init ?sched of None \<Rightarrow> False | Some (s, r, w) \<Rightarrow> rd_copied r = [1, 2]"
    by code_simp
  then obtain s r w where run: "rb_run ?init ?sched = Some (s, r, w)" "rd_copied r = [1, 2]"
    by (auto split: option.splits)
  from ringbuffer_stream_safe [OF rb_run_reach [OF run(1) rb_reach.reach_start]] run
  show ?thesis by (simp add: numeral_2_eq_2)
qed

text \<open>
  C3. The wake-up of a blocked reader can be lost. There is an execution in which the writer
  has delivered all the bytes that the reader asked for and returned, while the reader waits
  for a signal that nobody will send: no thread can step although the data is in the buffer.
  The reader does not look at the buffer again between announcing that it is pending and
  waiting, and the writer signals only a reader that has announced itself.
\<close>

theorem ringbuffer_stream_lost_wakeup:
  "\<exists>s r w. rb_reach (rb_start (replicate 8 0) 4 [1, 2, 3, 4]) (s, r, w) \<and>
     rd_pc r = Wait \<and> rd_total r = 0 \<and> wr_pc w = Done \<and>
     rb_contents (rs_ring s) = [1, 2, 3, 4] \<and> (\<forall>y. \<not> rb_step (s, r, w) y)"
proof -
  let ?init = "rb_start (replicate 8 0) 4 [1, 2, 3, 4]"
  let ?sched = "replicate 2 True @ replicate 11 False @ replicate 3 True"
  have "case rb_run ?init ?sched of None \<Rightarrow> False | Some (s, r, w) \<Rightarrow>
     rd_pc r = Wait \<and> rd_total r = 0 \<and> wr_pc w = Done \<and>
     rb_contents (rs_ring s) = [1, 2, 3, 4] \<and> rs_signal_write s = 0"
    by code_simp
  then obtain s r w where run: "rb_run ?init ?sched = Some (s, r, w)"
    and st: "rd_pc r = Wait" "rd_total r = 0" "wr_pc w = Done"
      "rb_contents (rs_ring s) = [1, 2, 3, 4]" "rs_signal_write s = 0"
    by (auto split: option.splits)
  have reach: "rb_reach ?init (s, r, w)"
    by (rule rb_run_reach [OF run rb_reach.reach_start])
  have "reader_step s r = None" "writer_step s w = None"
    using st by (simp_all add: reader_step_def writer_step_def)
  then have "\<forall>y. \<not> rb_step (s, r, w) y" by (auto simp: rb_step_iff)
  with reach st show ?thesis by blast
qed


end
