(* ===== verification/Bucket_Map.thy ===== *)
theory Bucket_Map
  imports Prelude
begin

text \<open>
  What \<open>foundation/hashmap.c\<close> and \<open>foundation/uuidmap.c\<close> share: an array of buckets, each a
  growable array of key/value nodes, the loops over a bucket, and the contract of a keyed map
  that both implement. The two maps differ in the key type and in the choice of the bucket,
  which is a parameter here.
\<close>

section \<open>Nodes, buckets and the loops over them\<close>


record 'k map_node =
  node_key :: 'k
  node_value :: pointer

text \<open>
  A bucket is a growable array of \<open>array.h\<close>; the null array has size zero like an empty one.
\<close>

record 'k bucket_map =
  bm_bucket_count :: size_t
  bm_node_count :: size_t
  bm_bucket :: "'k map_node list list"

text \<open>The loop \<open>for (inode = 0; inode < nsize; ++inode)\<close> that compares the keys.\<close>

fun find_node :: "'k \<Rightarrow> 'k map_node list \<Rightarrow> nat option" where
  "find_node key [] = None"
| "find_node key (node # rest) =
     (if node_key node = key then Some 0 else map_option Suc (find_node key rest))"

text \<open>\<open>array_erase\<close>: the last element takes the place of the erased one.\<close>

definition array_erase :: "'a list \<Rightarrow> nat \<Rightarrow> 'a list" where
  "array_erase arr pos = butlast (arr[pos := last arr])"

definition array_push :: "'a list \<Rightarrow> 'a \<Rightarrow> 'a list" where
  "array_push arr element = arr @ [element]"

definition bucketmap_initialize :: "size_t \<Rightarrow> 'k bucket_map" where
  "bucketmap_initialize bucket_count =
     \<lparr>bm_bucket_count = bucket_count, bm_node_count = 0, bm_bucket = replicate bucket_count []\<rparr>"

definition bucketmap_insert :: "(size_t \<Rightarrow> 'k \<Rightarrow> nat) \<Rightarrow> 'k bucket_map \<Rightarrow> 'k \<Rightarrow> pointer \<Rightarrow> 'k bucket_map \<times> pointer" where
  "bucketmap_insert get_bucket m key value =
     (let ibucket = get_bucket (bm_bucket_count m) key;
          bucket = bm_bucket m ! ibucket
      in case find_node key bucket of
           Some inode \<Rightarrow>
             (m\<lparr>bm_bucket := (bm_bucket m)[ibucket := bucket[inode := (bucket ! inode)\<lparr>node_value := value\<rparr>]]\<rparr>,
              node_value (bucket ! inode))
         | None \<Rightarrow>
             (m\<lparr>bm_bucket := (bm_bucket m)[ibucket := array_push bucket \<lparr>node_key = key, node_value = value\<rparr>],
                  bm_node_count := bm_node_count m + 1\<rparr>, 0))"

definition bucketmap_erase :: "(size_t \<Rightarrow> 'k \<Rightarrow> nat) \<Rightarrow> 'k bucket_map \<Rightarrow> 'k \<Rightarrow> 'k bucket_map \<times> pointer" where
  "bucketmap_erase get_bucket m key =
     (let ibucket = get_bucket (bm_bucket_count m) key;
          bucket = bm_bucket m ! ibucket
      in case find_node key bucket of
           Some inode \<Rightarrow>
             (m\<lparr>bm_bucket := (bm_bucket m)[ibucket := array_erase bucket inode],
                  bm_node_count := size_sub (bm_node_count m) 1\<rparr>,
              node_value (bucket ! inode))
         | None \<Rightarrow> (m, 0))"

definition bucketmap_lookup :: "(size_t \<Rightarrow> 'k \<Rightarrow> nat) \<Rightarrow> 'k bucket_map \<Rightarrow> 'k \<Rightarrow> pointer" where
  "bucketmap_lookup get_bucket m key =
     (let bucket = bm_bucket m ! get_bucket (bm_bucket_count m) key
      in case find_node key bucket of Some inode \<Rightarrow> node_value (bucket ! inode) | None \<Rightarrow> 0)"

definition bucketmap_has_key :: "(size_t \<Rightarrow> 'k \<Rightarrow> nat) \<Rightarrow> 'k bucket_map \<Rightarrow> 'k \<Rightarrow> bool" where
  "bucketmap_has_key get_bucket m key =
     (let bucket = bm_bucket m ! get_bucket (bm_bucket_count m) key
      in case find_node key bucket of Some inode \<Rightarrow> True | None \<Rightarrow> False)"

definition bucketmap_clear :: "'k bucket_map \<Rightarrow> 'k bucket_map" where
  "bucketmap_clear m =
     m\<lparr>bm_bucket := map (\<lambda>_. []) (take (bm_bucket_count m) (bm_bucket m)) @
                      drop (bm_bucket_count m) (bm_bucket m), bm_node_count := 0\<rparr>"

text \<open>The callback's effect on its context is threaded through all values, bucket by bucket.\<close>

definition bucketmap_foreach :: "'k bucket_map \<Rightarrow> (pointer \<Rightarrow> 'c \<Rightarrow> 'c) \<Rightarrow> 'c \<Rightarrow> 'c" where
  "bucketmap_foreach m fn context =
     fold (\<lambda>ibucket ctx. fold (\<lambda>node. fn (node_value node)) (bm_bucket m ! ibucket) ctx)
       [0..<bm_bucket_count m] context"

section \<open>Facts about a bucket\<close>

lemma find_node_None: "find_node key b = None \<longleftrightarrow> key \<notin> node_key ` set b"
  by (induction b) auto

lemma find_node_Some:
  "find_node key b = Some i \<Longrightarrow> i < length b \<and> node_key (b ! i) = key \<and> (\<forall>j < i. node_key (b ! j) \<noteq> key)"
  by (induction b arbitrary: i) (auto simp: nth_Cons less_Suc_eq_0_disj split: if_splits nat.splits)

lemma mset_array_erase:
  assumes "i < length b"
  shows "mset (array_erase b i) = mset b - {#b ! i#}"
proof (cases "i = length b - 1")
  case True
  have "b \<noteq> []" using assms by auto
  then have "mset b = mset (butlast b) + {#last b#}"
    by (metis append_butlast_last_id mset.simps mset_append)
  then show ?thesis
    using True \<open>b \<noteq> []\<close> by (simp add: array_erase_def last_conv_nth butlast_list_update)
next
  case False
  then have i: "i < length (butlast b)" and ne: "b \<noteq> []" using assms by auto
  have "mset b = mset (butlast b) + {#last b#}"
    using ne by (metis append_butlast_last_id mset.simps mset_append)
  moreover have "array_erase b i = (butlast b)[i := last b]"
    using assms False ne by (simp add: array_erase_def butlast_list_update)
  moreover have "b ! i = butlast b ! i" using i by (simp add: nth_butlast)
  ultimately show ?thesis
    using i by (simp add: mset_update nth_mem_mset)
qed

text \<open>The keys of a bucket are distinct and its nodes are a partial function.\<close>

definition bucket_fun :: "'k map_node list \<Rightarrow> 'k \<Rightarrow> pointer option" where
  "bucket_fun b k = map_of (map (\<lambda>n. (node_key n, node_value n)) b) k"

lemma find_node_bucket_fun:
  "find_node k b = Some i \<Longrightarrow> bucket_fun b k = Some (node_value (b ! i))"
  by (induction b arbitrary: i) (auto simp: bucket_fun_def split: if_splits)

lemma bucket_fun_None: "find_node k b = None \<Longrightarrow> bucket_fun b k = None"
  by (induction b) (auto simp: bucket_fun_def split: if_splits)

lemma bucket_fun_set:
  assumes "distinct (map node_key b)"
  shows "bucket_fun b k = Some v \<longleftrightarrow> \<lparr>node_key = k, node_value = v\<rparr> \<in> set b"
proof -
  have "distinct (map fst (map (\<lambda>n. (node_key n, node_value n)) b))"
    using assms by (simp add: comp_def)
  then have "bucket_fun b k = Some v \<longleftrightarrow> (k, v) \<in> set (map (\<lambda>n. (node_key n, node_value n)) b)"
    unfolding bucket_fun_def by (simp add: map_of_eq_Some_iff)
  also have "\<dots> \<longleftrightarrow> \<lparr>node_key = k, node_value = v\<rparr> \<in> set b"
  proof
    assume "(k, v) \<in> set (map (\<lambda>n. (node_key n, node_value n)) b)"
    then obtain n where "n \<in> set b" "node_key n = k" "node_value n = v" by auto
    moreover have "n = \<lparr>node_key = node_key n, node_value = node_value n\<rparr>" by simp
    ultimately show "\<lparr>node_key = k, node_value = v\<rparr> \<in> set b" by metis
  qed (force simp: image_iff)
  finally show ?thesis .
qed

lemma bucket_fun_mset:
  assumes "distinct (map node_key b)" "mset b' = mset b"
  shows "bucket_fun b' = bucket_fun b"
proof
  fix x
  have "distinct (map node_key b')"
    using assms by (metis mset_eq_imp_distinct_iff mset_map)
  moreover have "set b' = set b" using assms(2) by (metis set_mset_mset)
  ultimately have "bucket_fun b' x = Some v \<longleftrightarrow> bucket_fun b x = Some v" for v
    using assms(1) by (simp add: bucket_fun_set)
  then show "bucket_fun b' x = bucket_fun b x" by (metis not_Some_eq)
qed

lemma bucket_fun_replace:
  "find_node k b = Some i \<Longrightarrow>
   bucket_fun (b[i := (b ! i)\<lparr>node_value := v\<rparr>]) = (bucket_fun b)(k \<mapsto> v)"
proof (induction b arbitrary: i)
  case (Cons n b)
  show ?case
  proof (cases "node_key n = k")
    case True
    then show ?thesis using Cons.prems by (auto simp: bucket_fun_def)
  next
    case False
    then obtain j where j: "i = Suc j" "find_node k b = Some j" using Cons.prems by auto
    then have "bucket_fun (b[j := (b ! j)\<lparr>node_value := v\<rparr>]) = (bucket_fun b)(k \<mapsto> v)"
      using Cons.IH by blast
    then show ?thesis using False j by (auto simp: bucket_fun_def fun_eq_iff)
  qed
qed simp

lemma bucket_fun_push:
  assumes "find_node k b = None"
  shows "bucket_fun (array_push b \<lparr>node_key = k, node_value = v\<rparr>) = (bucket_fun b)(k \<mapsto> v)"
proof -
  have "bucket_fun b k = None" by (rule bucket_fun_None [OF assms])
  then show ?thesis by (auto simp: bucket_fun_def array_push_def map_add_def split: option.splits)
qed

lemma distinct_array_erase:
  assumes "distinct (map f b)" "i < length b"
  shows "distinct (map f (array_erase b i @ [b ! i]))"
proof -
  have "mset (array_erase b i @ [b ! i]) = mset b"
    using assms(2) by (simp add: mset_array_erase)
  then have "mset (map f (array_erase b i @ [b ! i])) = mset (map f b)" by (simp only: mset_map)
  then show ?thesis using assms(1) mset_eq_imp_distinct_iff by blast
qed

lemma bucket_fun_erase:
  assumes d: "distinct (map node_key b)" and f: "find_node k b = Some i"
  shows "bucket_fun (array_erase b i) = (bucket_fun b)(k := None)"
proof
  fix x
  have i: "i < length b" "node_key (b ! i) = k" using find_node_Some [OF f] by auto
  have ms: "mset b = mset (array_erase b i) + {#b ! i#}"
    using i by (simp add: mset_array_erase)
  have d': "distinct (map node_key (array_erase b i @ [b ! i]))"
    by (rule distinct_array_erase [OF d i(1)])
  have "bucket_fun b = bucket_fun (array_erase b i @ [b ! i])"
    using ms by (intro bucket_fun_mset [OF d', symmetric, THEN sym]) simp
  then show "bucket_fun (array_erase b i) x = ((bucket_fun b)(k := None)) x"
    using d' i(2) by (auto simp: bucket_fun_def map_add_def map_of_eq_None_iff image_image split: option.splits)
qed

section \<open>The contract of a keyed map\<close>

text \<open>
  \<open>abs m\<close> is the finite partial function that a map stands for. The operations return the
  previous value, and the null pointer for no value, as the C functions do.
\<close>

locale keyed_map =
  fixes invar :: "'m \<Rightarrow> bool"
    and abs :: "'m \<Rightarrow> 'k \<Rightarrow> pointer option"
    and insert :: "'m \<Rightarrow> 'k \<Rightarrow> pointer \<Rightarrow> 'm \<times> pointer"
    and erase :: "'m \<Rightarrow> 'k \<Rightarrow> 'm \<times> pointer"
    and lookup :: "'m \<Rightarrow> 'k \<Rightarrow> pointer"
    and has_key :: "'m \<Rightarrow> 'k \<Rightarrow> bool"
    and count :: "'m \<Rightarrow> nat"
  assumes insert_spec: "invar m \<Longrightarrow> insert m k v = (m', p) \<Longrightarrow>
      invar m' \<and> abs m' = (abs m)(k \<mapsto> v) \<and> p = (case abs m k of None \<Rightarrow> 0 | Some q \<Rightarrow> q)"
    and erase_spec: "invar m \<Longrightarrow> erase m k = (m', p) \<Longrightarrow>
      invar m' \<and> abs m' = (abs m)(k := None) \<and> p = (case abs m k of None \<Rightarrow> 0 | Some q \<Rightarrow> q)"
    and lookup_spec: "invar m \<Longrightarrow> lookup m k = (case abs m k of None \<Rightarrow> 0 | Some q \<Rightarrow> q)"
    and has_key_spec: "invar m \<Longrightarrow> has_key m k \<longleftrightarrow> abs m k \<noteq> None"
    and count_spec: "invar m \<Longrightarrow> count m = card (dom (abs m))"

datatype 'k map_op = Insert 'k pointer | Erase 'k

text \<open>A sequence of updates, on the implementation and on partial functions.\<close>

fun map_run :: "('m \<Rightarrow> 'k \<Rightarrow> pointer \<Rightarrow> 'm \<times> pointer) \<Rightarrow> ('m \<Rightarrow> 'k \<Rightarrow> 'm \<times> pointer) \<Rightarrow>
    'm \<Rightarrow> 'k map_op list \<Rightarrow> 'm \<times> pointer list" where
  "map_run ins del m [] = (m, [])"
| "map_run ins del m (Insert k v # ops) =
     (let (m1, p) = ins m k v; (m2, ps) = map_run ins del m1 ops in (m2, p # ps))"
| "map_run ins del m (Erase k # ops) =
     (let (m1, p) = del m k; (m2, ps) = map_run ins del m1 ops in (m2, p # ps))"

fun map_spec :: "('k \<Rightarrow> pointer option) \<Rightarrow> 'k map_op list \<Rightarrow> ('k \<Rightarrow> pointer option) \<times> pointer list" where
  "map_spec f [] = (f, [])"
| "map_spec f (Insert k v # ops) =
     (let (g, ps) = map_spec (f(k \<mapsto> v)) ops in (g, (case f k of None \<Rightarrow> 0 | Some q \<Rightarrow> q) # ps))"
| "map_spec f (Erase k # ops) =
     (let (g, ps) = map_spec (f(k := None)) ops in (g, (case f k of None \<Rightarrow> 0 | Some q \<Rightarrow> q) # ps))"

context keyed_map
begin

lemma map_run_refines:
  "invar m \<Longrightarrow> map_run insert erase m ops = (m', ps) \<Longrightarrow>
     invar m' \<and> map_spec (abs m) ops = (abs m', ps)"
proof (induction ops arbitrary: m m' ps)
  case Nil
  then show ?case by simp
next
  case (Cons op ops)
  show ?case
  proof (cases op)
    case (Insert k v)
    obtain m1 p where 1: "insert m k v = (m1, p)" by fastforce
    obtain m2 qs where 2: "map_run insert erase m1 ops = (m2, qs)" by fastforce
    note ins = insert_spec [OF Cons.prems(1) 1]
    then have "invar m2 \<and> map_spec ((abs m)(k \<mapsto> v)) ops = (abs m2, qs)"
      using Cons.IH [OF _ 2] by metis
    then show ?thesis using Insert 1 2 ins Cons.prems(2) by (simp del: fun_upd_apply)
  next
    case (Erase k)
    obtain m1 p where 1: "erase m k = (m1, p)" by fastforce
    obtain m2 qs where 2: "map_run insert erase m1 ops = (m2, qs)" by fastforce
    note del = erase_spec [OF Cons.prems(1) 1]
    then have "invar m2 \<and> map_spec ((abs m)(k := None)) ops = (abs m2, qs)"
      using Cons.IH [OF _ 2] by metis
    then show ?thesis using Erase 1 2 del Cons.prems(2) by (simp del: fun_upd_apply)
  qed
qed

lemma map_run_observations:
  assumes "invar m" "map_run insert erase m ops = (m', ps)" "map_spec (abs m) ops = (g, qs)"
  shows "ps = qs \<and> lookup m' k = (case g k of None \<Rightarrow> 0 | Some q \<Rightarrow> q) \<and>
    (has_key m' k \<longleftrightarrow> g k \<noteq> None) \<and> count m' = card (dom g)"
  using map_run_refines [OF assms(1,2)] assms(3) lookup_spec has_key_spec count_spec by auto

end

section \<open>Buckets implement a keyed map\<close>

definition bm_home :: "(size_t \<Rightarrow> 'k \<Rightarrow> nat) \<Rightarrow> 'k bucket_map \<Rightarrow> bool" where
  "bm_home gb m \<longleftrightarrow> (\<forall>i < length (bm_bucket m). \<forall>n \<in> set (bm_bucket m ! i).
     gb (bm_bucket_count m) (node_key n) = i)"

definition bm_inv :: "(size_t \<Rightarrow> 'k \<Rightarrow> nat) \<Rightarrow> 'k bucket_map \<Rightarrow> bool" where
  "bm_inv gb m \<longleftrightarrow> 0 < bm_bucket_count m \<and> bm_bucket_count m = length (bm_bucket m) \<and>
     bm_home gb m \<and>
     distinct (map node_key (concat (bm_bucket m))) \<and>
     bm_node_count m = length (concat (bm_bucket m))"

definition bm_abs :: "(size_t \<Rightarrow> 'k \<Rightarrow> nat) \<Rightarrow> 'k bucket_map \<Rightarrow> 'k \<Rightarrow> pointer option" where
  "bm_abs gb m k = bucket_fun (bm_bucket m ! gb (bm_bucket_count m) k) k"

lemma mset_concat_update:
  "i < length bs \<Longrightarrow> mset (concat (bs[i := b])) + mset (bs ! i) = mset (concat bs) + mset b"
proof (induction bs arbitrary: i)
  case (Cons c bs)
  then show ?case by (cases i) (auto simp: ac_simps)
qed simp

lemma size_concat_update:
  "i < length bs \<Longrightarrow> length (concat (bs[i := b])) + length (bs ! i) = length (concat bs) + length b"
  using arg_cong [OF mset_concat_update [of i bs b], of size] by simp

lemma concat_nth_distinct:
  assumes "distinct (map f (concat bs))" "i < length bs"
  shows "distinct (map f (bs ! i))"
proof -
  have "concat bs = concat (take i bs) @ bs ! i @ concat (drop (Suc i) bs)"
    using assms(2) by (metis concat.simps(2) concat_append id_take_nth_drop)
  then show ?thesis using assms(1) by simp
qed

lemma index_not_i_take: "c \<in> set (take i bs) \<Longrightarrow> \<exists>j < length bs. j \<noteq> i \<and> bs ! j = c"
  by (fastforce simp: in_set_conv_nth)

lemma index_not_i_drop:
  assumes "c \<in> set (drop (Suc i) bs)"
  shows "\<exists>j < length bs. j \<noteq> i \<and> bs ! j = c"
proof -
  obtain k where "k < length bs - Suc i" "drop (Suc i) bs ! k = c"
    using assms by (auto simp: in_set_conv_nth)
  then show ?thesis by (intro exI [of _ "Suc i + k"]) auto
qed

lemma disjoint_image:
  assumes "\<And>n. n \<in> S \<Longrightarrow> f n \<notin> f ` T"
  shows "f ` T \<inter> f ` S = {}"
proof (rule equals0I)
  fix x assume "x \<in> f ` T \<inter> f ` S"
  then have "x \<in> f ` T" "x \<in> f ` S" by simp_all
  from this(2) obtain s where "x = f s" "s \<in> S" by (rule imageE)
  with assms [of s] \<open>x \<in> f ` T\<close> show False by simp
qed

lemma distinct_replace_middle:
  "distinct (map f (xs @ ys @ zs)) \<Longrightarrow> f ` set ys' \<inter> f ` (set xs \<union> set zs) = {} \<Longrightarrow>
   distinct (map f ys') \<Longrightarrow> distinct (map f (xs @ ys' @ zs))"
  by auto

text \<open>Replacing one bucket by one whose keys still belong there.\<close>

lemma bm_inv_update:
  assumes inv: "bm_inv gb m" and i: "i < length (bm_bucket m)"
    and here: "\<forall>n \<in> set b. gb (bm_bucket_count m) (node_key n) = i"
    and d: "distinct (map node_key b)"
    and cnt: "c + length (bm_bucket m ! i) = bm_node_count m + length b"
  shows "bm_inv gb (m\<lparr>bm_bucket := (bm_bucket m)[i := b], bm_node_count := c\<rparr>)"
proof -
  let ?bs = "bm_bucket m"
  have loc: "gb (bm_bucket_count m) (node_key n) = j" if "j < length ?bs" "n \<in> set (?bs[i := b] ! j)" for j n
  proof (cases "j = i")
    case True
    then show ?thesis using that here i by simp
  next
    case False
    then have "n \<in> set (?bs ! j)" using that(2) by simp
    with inv that(1) show ?thesis unfolding bm_inv_def bm_home_def by blast
  qed
  have split: "concat (?bs[i := b]) = concat (take i ?bs) @ b @ concat (drop (Suc i) ?bs)"
    "concat ?bs = concat (take i ?bs) @ ?bs ! i @ concat (drop (Suc i) ?bs)"
    using i by (simp_all add: upd_conv_take_nth_drop)
       (metis concat.simps(2) concat_append id_take_nth_drop)
  have other: "node_key n \<notin> node_key ` set b"
    if "n \<in> set (concat (take i ?bs)) \<union> set (concat (drop (Suc i) ?bs))" for n
  proof -
    from that obtain c where "c \<in> set (take i ?bs) \<union> set (drop (Suc i) ?bs)" "n \<in> set c" by auto
    then obtain j where j: "j < length ?bs" "j \<noteq> i" "n \<in> set (?bs ! j)"
      by (metis UnE i in_set_conv_nth index_not_i_take index_not_i_drop)
    then have "gb (bm_bucket_count m) (node_key n) = j" using inv unfolding bm_inv_def bm_home_def by blast
    then show ?thesis using here j(2) by auto
  qed
  have "distinct (map node_key (concat (take i ?bs) @ ?bs ! i @ concat (drop (Suc i) ?bs)))"
    using inv unfolding split(2) [symmetric] by (simp only: bm_inv_def)
  moreover have "node_key ` set b \<inter> node_key ` (set (concat (take i ?bs)) \<union> set (concat (drop (Suc i) ?bs))) = {}"
    by (rule disjoint_image) (rule other)
  ultimately have "distinct (map node_key (concat (?bs[i := b])))"
    unfolding split(1) using d by (rule distinct_replace_middle)
  moreover have "c = length (concat (?bs[i := b]))"
    using size_concat_update [OF i, of b] cnt inv by (simp add: bm_inv_def)
  moreover have "bm_home gb (m\<lparr>bm_bucket := ?bs[i := b], bm_node_count := c\<rparr>)"
    by (auto simp: bm_home_def intro!: loc)
  moreover have "?bs \<noteq> []" using i by auto
  ultimately show ?thesis using inv unfolding bm_inv_def by simp
qed

lemma bm_bucket_distinct:
  "bm_inv gb m \<Longrightarrow> i < length (bm_bucket m) \<Longrightarrow> distinct (map node_key (bm_bucket m ! i))"
  unfolding bm_inv_def by (blast intro: concat_nth_distinct)

lemma bm_bucket_home:
  "bm_inv gb m \<Longrightarrow> i < length (bm_bucket m) \<Longrightarrow> n \<in> set (bm_bucket m ! i) \<Longrightarrow>
   gb (bm_bucket_count m) (node_key n) = i"
  unfolding bm_inv_def bm_home_def by blast

text \<open>The bucket function must choose a bucket.\<close>

locale bucket_choice =
  fixes gb :: "size_t \<Rightarrow> 'k \<Rightarrow> nat"
  assumes in_range: "0 < n \<Longrightarrow> gb n k < n"
begin

lemma home_index: "bm_inv gb m \<Longrightarrow> gb (bm_bucket_count m) k < length (bm_bucket m)"
  using in_range [of "bm_bucket_count m" k] unfolding bm_inv_def by metis

lemma bm_abs_update:
  assumes "bm_inv gb m" "i = gb (bm_bucket_count m) k"
    and "bucket_fun b = (bucket_fun (bm_bucket m ! i))(k := v)"
  shows "bm_abs gb (m\<lparr>bm_bucket := (bm_bucket m)[i := b], bm_node_count := c\<rparr>) = (bm_abs gb m)(k := v)"
  using assms home_index [OF assms(1), of k]
  by (auto simp: bm_abs_def fun_eq_iff nth_list_update)

lemma insert_ok:
  assumes inv: "bm_inv gb m" and ins: "bucketmap_insert gb m k v = (m', p)"
  shows "bm_inv gb m' \<and> bm_abs gb m' = (bm_abs gb m)(k \<mapsto> v) \<and>
    p = (case bm_abs gb m k of None \<Rightarrow> 0 | Some q \<Rightarrow> q)"
proof -
  define i where "i = gb (bm_bucket_count m) k"
  define b where "b = bm_bucket m ! i"
  have i: "i < length (bm_bucket m)" using home_index [OF inv] by (simp add: i_def)
  note home = bm_bucket_home [OF inv i] and dist = bm_bucket_distinct [OF inv i]
  show ?thesis
  proof (cases "find_node k b")
    case None
    define b' where "b' = array_push b \<lparr>node_key = k, node_value = v\<rparr>"
    have m': "m' = m\<lparr>bm_bucket := (bm_bucket m)[i := b'], bm_node_count := bm_node_count m + 1\<rparr>" "p = 0"
      using ins None by (auto simp: bucketmap_insert_def Let_def i_def b_def b'_def)
    have "bm_inv gb m'" unfolding m'
      using None dist home
      by (intro bm_inv_update [OF inv i]) (auto simp: b'_def array_push_def b_def i_def find_node_None)
    moreover have "bm_abs gb m' = (bm_abs gb m)(k \<mapsto> v)"
      unfolding m' using bucket_fun_push [OF None, of v]
      by (intro bm_abs_update [OF inv i_def]) (simp add: b'_def b_def)
    moreover have "bm_abs gb m k = None"
      using bucket_fun_None [OF None] by (simp add: bm_abs_def b_def i_def)
    ultimately show ?thesis using m' by simp
  next
    case (Some j)
    define b' where "b' = b[j := (b ! j)\<lparr>node_value := v\<rparr>]"
    have j: "j < length b" "node_key (b ! j) = k" using find_node_Some [OF Some] by auto
    have m': "m' = m\<lparr>bm_bucket := (bm_bucket m)[i := b'], bm_node_count := bm_node_count m\<rparr>"
      "p = node_value (b ! j)"
      using ins Some by (auto simp: bucketmap_insert_def Let_def i_def b_def b'_def)
    have keys: "map node_key b' = map node_key b"
      using j by (auto simp: b'_def list_eq_iff_nth_eq nth_list_update)
    then have "node_key ` set b' = node_key ` set b" by (metis set_map)
    then have "\<forall>n \<in> set b'. gb (bm_bucket_count m) (node_key n) = i"
      using home unfolding b_def by (metis imageE imageI)
    then have "bm_inv gb m'" unfolding m'
      using dist keys by (intro bm_inv_update [OF inv i]) (auto simp: b_def b'_def)
    moreover have "bm_abs gb m' = (bm_abs gb m)(k \<mapsto> v)"
      unfolding m' using bucket_fun_replace [OF Some, of v]
      by (intro bm_abs_update [OF inv i_def]) (simp add: b'_def b_def)
    moreover have "bm_abs gb m k = Some (node_value (b ! j))"
      using find_node_bucket_fun [OF Some] by (simp add: bm_abs_def b_def i_def)
    ultimately show ?thesis using m' by simp
  qed
qed

lemma erase_ok:
  assumes inv: "bm_inv gb m" and del: "bucketmap_erase gb m k = (m', p)"
  shows "bm_inv gb m' \<and> bm_abs gb m' = (bm_abs gb m)(k := None) \<and>
    p = (case bm_abs gb m k of None \<Rightarrow> 0 | Some q \<Rightarrow> q)"
proof -
  define i where "i = gb (bm_bucket_count m) k"
  define b where "b = bm_bucket m ! i"
  have i: "i < length (bm_bucket m)" using home_index [OF inv] by (simp add: i_def)
  note home = bm_bucket_home [OF inv i] and dist = bm_bucket_distinct [OF inv i]
  show ?thesis
  proof (cases "find_node k b")
    case None
    have "m' = m" "p = 0" using del None by (auto simp: bucketmap_erase_def Let_def i_def b_def)
    moreover have "bm_abs gb m k = None"
      using bucket_fun_None [OF None] by (simp add: bm_abs_def b_def i_def)
    ultimately show ?thesis using inv by (auto simp: fun_upd_idem)
  next
    case (Some j)
    have j: "j < length b" "node_key (b ! j) = k" using find_node_Some [OF Some] by auto
    define b' where "b' = array_erase b j"
    have len: "length b' = length b - 1" using j by (simp add: b'_def array_erase_def)
    have "length b \<le> length (concat (bm_bucket m))"
      using size_concat_update [OF i, of "[]"] unfolding b_def by simp
    then have pos: "1 \<le> bm_node_count m" using inv j by (simp add: bm_inv_def)
    have m': "m' = m\<lparr>bm_bucket := (bm_bucket m)[i := b'], bm_node_count := bm_node_count m - 1\<rparr>"
      "p = node_value (b ! j)"
      using del Some pos by (auto simp: bucketmap_erase_def Let_def i_def b_def b'_def)
    have sub: "mset b' \<subseteq># mset b" using j by (simp add: b'_def mset_array_erase)
    then have "set b' \<subseteq> set (bm_bucket m ! i)" unfolding b_def by (metis set_mset_mono set_mset_mset)
    moreover have "distinct (map node_key b')"
      using distinct_array_erase [OF dist [folded b_def] j(1)] by (simp add: b'_def)
    moreover have "bm_node_count m - 1 + length (bm_bucket m ! i) = bm_node_count m + length b'"
      using len j(1) pos unfolding b_def by simp
    ultimately have "bm_inv gb m'" unfolding m'
      using home by (intro bm_inv_update [OF inv i]) (blast, blast, blast)
    moreover have "bm_abs gb m' = (bm_abs gb m)(k := None)"
      unfolding m' using bucket_fun_erase [OF dist [folded b_def] Some]
      by (intro bm_abs_update [OF inv i_def]) (simp add: b'_def b_def)
    moreover have "bm_abs gb m k = Some (node_value (b ! j))"
      using find_node_bucket_fun [OF Some] by (simp add: bm_abs_def b_def i_def)
    ultimately show ?thesis using m' by simp
  qed
qed

lemma lookup_ok: "bucketmap_lookup gb m k = (case bm_abs gb m k of None \<Rightarrow> 0 | Some q \<Rightarrow> q)"
  by (auto simp: bucketmap_lookup_def bm_abs_def Let_def find_node_bucket_fun bucket_fun_None
      split: option.split)

lemma has_key_ok: "bucketmap_has_key gb m k \<longleftrightarrow> bm_abs gb m k \<noteq> None"
  by (auto simp: bucketmap_has_key_def bm_abs_def Let_def find_node_bucket_fun bucket_fun_None
      split: option.split)

lemma count_ok:
  assumes inv: "bm_inv gb m"
  shows "bm_node_count m = card (dom (bm_abs gb m))"
proof -
  have "dom (bm_abs gb m) = node_key ` set (concat (bm_bucket m))"
  proof (intro equalityI subsetI)
    fix k assume "k \<in> dom (bm_abs gb m)"
    then have "find_node k (bm_bucket m ! gb (bm_bucket_count m) k) \<noteq> None"
      by (metis bm_abs_def bucket_fun_None domIff)
    then have "k \<in> node_key ` set (bm_bucket m ! gb (bm_bucket_count m) k)"
      by (simp only: find_node_None not_not)
    then show "k \<in> node_key ` set (concat (bm_bucket m))"
      using home_index [OF inv, of k] nth_mem by fastforce
  next
    fix k assume "k \<in> node_key ` set (concat (bm_bucket m))"
    then obtain n c where "k = node_key n" "c \<in> set (bm_bucket m)" "n \<in> set c" by auto
    then obtain i where n: "k = node_key n" "i < length (bm_bucket m)" "n \<in> set (bm_bucket m ! i)"
      by (metis in_set_conv_nth)
    then have "gb (bm_bucket_count m) k = i" using bm_bucket_home [OF inv] by blast
    then have "find_node k (bm_bucket m ! gb (bm_bucket_count m) k) \<noteq> None"
      using n by (auto simp: find_node_None)
    then show "k \<in> dom (bm_abs gb m)"
      by (auto simp: bm_abs_def dest: find_node_bucket_fun)
  qed
  then have "card (dom (bm_abs gb m)) = length (map node_key (concat (bm_bucket m)))"
    using inv unfolding bm_inv_def by (metis distinct_card set_map)
  then show ?thesis using inv by (simp add: bm_inv_def)
qed

end

sublocale bucket_choice \<subseteq> keyed_map "bm_inv gb" "bm_abs gb" "bucketmap_insert gb" "bucketmap_erase gb"
  "bucketmap_lookup gb" "bucketmap_has_key gb" bm_node_count
  by unfold_locales
    (fact insert_ok erase_ok | rule lookup_ok | rule has_key_ok | rule count_ok, assumption)+

lemma bm_initialize_inv [simp]: "0 < n \<Longrightarrow> bm_inv gb (bucketmap_initialize n)"
  by (auto simp: bm_inv_def bm_home_def bucketmap_initialize_def)

lemma bm_initialize_abs:
  "gb n k < n \<Longrightarrow> bm_abs gb (bucketmap_initialize n) k = None"
  by (simp add: bm_abs_def bucketmap_initialize_def bucket_fun_def)

lemma concat_map_Nil [simp]: "concat (map (\<lambda>_. []) xs) = []"
  by (induction xs) simp_all

lemma bm_clear_inv: "bm_inv gb m \<Longrightarrow> bm_inv gb (bucketmap_clear m)"
  by (auto simp: bm_inv_def bm_home_def bucketmap_clear_def)

end
