(* ===== verification/Hashmap.thy ===== *)
theory Hashmap
  imports Bucket_Map
begin

text \<open>
  \<open>foundation/hashmap.c\<close>: the map from 64-bit hashes to pointers. Growable arrays are
  lists; the reservation of bucket storage and the release of it have no counterpart.
\<close>

type_synonym hashmap_node_t = "u64 map_node"
type_synonym hashmap_t = "u64 bucket_map"

definition HASHMAP_MINBUCKETS :: size_t where
  "HASHMAP_MINBUCKETS = 13"

text \<open>\<open>GET_BUCKET\<close>: the key modulo the number of buckets.\<close>

definition hashmap_get_bucket :: "size_t \<Rightarrow> u64 \<Rightarrow> nat" where
  "hashmap_get_bucket bucket_count key = unat key mod bucket_count"

definition hashmap_initialize :: "size_t \<Rightarrow> hashmap_t" where
  "hashmap_initialize bucket_count = bucketmap_initialize bucket_count"

definition hashmap_allocate :: "size_t \<Rightarrow> hashmap_t" where
  "hashmap_allocate bucket_count =
     (let bucket_count = (if bucket_count < HASHMAP_MINBUCKETS then HASHMAP_MINBUCKETS else bucket_count)
      in hashmap_initialize bucket_count)"

definition hashmap_insert :: "hashmap_t \<Rightarrow> u64 \<Rightarrow> pointer \<Rightarrow> hashmap_t \<times> pointer" where
  "hashmap_insert = bucketmap_insert hashmap_get_bucket"

definition hashmap_erase :: "hashmap_t \<Rightarrow> u64 \<Rightarrow> hashmap_t \<times> pointer" where
  "hashmap_erase = bucketmap_erase hashmap_get_bucket"

definition hashmap_lookup :: "hashmap_t \<Rightarrow> u64 \<Rightarrow> pointer" where
  "hashmap_lookup = bucketmap_lookup hashmap_get_bucket"

definition hashmap_has_key :: "hashmap_t \<Rightarrow> u64 \<Rightarrow> bool" where
  "hashmap_has_key = bucketmap_has_key hashmap_get_bucket"

definition hashmap_size :: "hashmap_t \<Rightarrow> size_t" where
  "hashmap_size m = bm_node_count m"

definition hashmap_clear :: "hashmap_t \<Rightarrow> hashmap_t" where
  "hashmap_clear = bucketmap_clear"

definition hashmap_foreach :: "hashmap_t \<Rightarrow> (pointer \<Rightarrow> 'c \<Rightarrow> 'c) \<Rightarrow> 'c \<Rightarrow> 'c" where
  "hashmap_foreach = bucketmap_foreach"

interpretation hm: bucket_choice hashmap_get_bucket
  by unfold_locales (simp add: hashmap_get_bucket_def)

lemma hashmap_allocate_abs: "bm_abs hashmap_get_bucket (hashmap_allocate n) = Map.empty"
proof
  fix k
  have "0 < (if n < HASHMAP_MINBUCKETS then HASHMAP_MINBUCKETS else n)"
    by (auto simp: HASHMAP_MINBUCKETS_def)
  from hm.in_range [OF this, of k] show "bm_abs hashmap_get_bucket (hashmap_allocate n) k = None"
    by (simp add: hashmap_allocate_def hashmap_initialize_def Let_def bm_initialize_abs del: if_split)
qed

lemma hashmap_allocate_inv: "bm_inv hashmap_get_bucket (hashmap_allocate n)"
  by (auto simp: hashmap_allocate_def hashmap_initialize_def HASHMAP_MINBUCKETS_def Let_def)

text \<open>
  C4. A hash map behaves as a finite partial function from hashes to pointers: after any
  sequence of insertions and erasures on a freshly allocated map, every operation has returned
  the previous value of its key (null if there was none), a lookup gives the current value, a
  key is reported exactly when it is present, and the size is the number of keys present.
\<close>

theorem hashmap_refines_map:
  assumes "map_run hashmap_insert hashmap_erase (hashmap_allocate n) ops = (m, ps)"
    and "map_spec Map.empty ops = (g, qs)"
  shows "ps = qs \<and> hashmap_lookup m k = (case g k of None \<Rightarrow> 0 | Some q \<Rightarrow> q) \<and>
    (hashmap_has_key m k \<longleftrightarrow> g k \<noteq> None) \<and> hashmap_size m = card (dom g)"
  using hm.map_run_observations [OF hashmap_allocate_inv, of n ops m ps g qs k] assms
  by (simp add: hashmap_allocate_abs hashmap_insert_def hashmap_erase_def hashmap_lookup_def
      hashmap_has_key_def hashmap_size_def)

theorem hashmap_refines_map_witness:
  "fst (map_run hashmap_insert hashmap_erase (hashmap_allocate 0)
      [Insert 3 7, Insert 16 8, Insert 3 9, Erase 16]) \<noteq> hashmap_allocate 0 \<and>
   snd (map_run hashmap_insert hashmap_erase (hashmap_allocate 0)
      [Insert 3 7, Insert 16 8, Insert 3 9, Erase 16]) = [0, 0, 7, 8]"
proof -
  let ?ops = "[Insert 3 7, Insert 16 8, Insert 3 9, Erase 16 :: u64 map_op]"
  obtain m ps where r: "map_run hashmap_insert hashmap_erase (hashmap_allocate 0) ?ops = (m, ps)"
    by fastforce
  have s: "map_spec Map.empty ?ops = ((Map.empty(3 \<mapsto> 7, 16 \<mapsto> 8, 3 \<mapsto> 9))(16 := None), [0, 0, 7, 8])"
    by simp
  have ps: "ps = [0, 0, 7, 8]" and "hashmap_lookup m 3 = 9"
    using hashmap_refines_map [OF r s, of 3] by simp_all
  moreover have "hashmap_lookup (hashmap_allocate 0) 3 = 0" by code_simp
  ultimately show ?thesis unfolding r by auto
qed

text \<open>
  Clearing keeps the invariant and forgets every key; a visit hands the callback every stored
  value exactly once.
\<close>

lemma hashmap_clear_abs:
  assumes "bm_inv hashmap_get_bucket m"
  shows "bm_abs hashmap_get_bucket (hashmap_clear m) k = None"
proof -
  have "bm_bucket (hashmap_clear m) = map (\<lambda>_. []) (bm_bucket m)"
    "bm_bucket_count (hashmap_clear m) = bm_bucket_count m"
    using assms by (simp_all add: hashmap_clear_def bucketmap_clear_def bm_inv_def)
  then show ?thesis
    using hm.home_index [OF assms, of k] by (simp add: bm_abs_def bucket_fun_def)
qed

end
