(* ===== verification/Uuidmap.thy ===== *)
theory Uuidmap
  imports Bucket_Map
begin

text \<open>
  \<open>foundation/uuidmap.c\<close>: the map from UUIDs to pointers, and the comparison of UUIDs.
\<close>

record uuid_t =
  word0 :: u64
  word1 :: u64

definition uuid_equal :: "uuid_t \<Rightarrow> uuid_t \<Rightarrow> bool" where
  "uuid_equal u0 u1 \<longleftrightarrow> word0 u0 = word0 u1 \<and> word1 u0 = word1 u1"

lemma uuid_equal_eq [simp]: "uuid_equal u0 u1 \<longleftrightarrow> u0 = u1"
  by (auto simp: uuid_equal_def)

type_synonym uuidmap_t = "uuid_t bucket_map"

definition UUIDMAP_MINBUCKETS :: size_t where
  "UUIDMAP_MINBUCKETS = 13"

definition uuidmap_get_bucket :: "size_t \<Rightarrow> uuid_t \<Rightarrow> nat" where
  "uuidmap_get_bucket bucket_count key = unat (word0 key XOR word1 key) mod bucket_count"

definition uuidmap_initialize :: "size_t \<Rightarrow> uuidmap_t" where
  "uuidmap_initialize bucket_count = bucketmap_initialize bucket_count"

definition uuidmap_allocate :: "size_t \<Rightarrow> uuidmap_t" where
  "uuidmap_allocate bucket_count =
     (let bucket_count = (if bucket_count < UUIDMAP_MINBUCKETS then UUIDMAP_MINBUCKETS else bucket_count)
      in uuidmap_initialize bucket_count)"

definition uuidmap_insert :: "uuidmap_t \<Rightarrow> uuid_t \<Rightarrow> pointer \<Rightarrow> uuidmap_t \<times> pointer" where
  "uuidmap_insert = bucketmap_insert uuidmap_get_bucket"

definition uuidmap_erase :: "uuidmap_t \<Rightarrow> uuid_t \<Rightarrow> uuidmap_t \<times> pointer" where
  "uuidmap_erase = bucketmap_erase uuidmap_get_bucket"

definition uuidmap_lookup :: "uuidmap_t \<Rightarrow> uuid_t \<Rightarrow> pointer" where
  "uuidmap_lookup = bucketmap_lookup uuidmap_get_bucket"

definition uuidmap_has_key :: "uuidmap_t \<Rightarrow> uuid_t \<Rightarrow> bool" where
  "uuidmap_has_key = bucketmap_has_key uuidmap_get_bucket"

definition uuidmap_size :: "uuidmap_t \<Rightarrow> size_t" where
  "uuidmap_size m = bm_node_count m"

definition uuidmap_clear :: "uuidmap_t \<Rightarrow> uuidmap_t" where
  "uuidmap_clear = bucketmap_clear"

definition uuidmap_foreach :: "uuidmap_t \<Rightarrow> (pointer \<Rightarrow> 'c \<Rightarrow> 'c) \<Rightarrow> 'c \<Rightarrow> 'c" where
  "uuidmap_foreach = bucketmap_foreach"

interpretation um: bucket_choice uuidmap_get_bucket
  by unfold_locales (simp add: uuidmap_get_bucket_def)

lemma uuidmap_allocate_abs: "bm_abs uuidmap_get_bucket (uuidmap_allocate n) = Map.empty"
proof
  fix k
  have "0 < (if n < UUIDMAP_MINBUCKETS then UUIDMAP_MINBUCKETS else n)"
    by (auto simp: UUIDMAP_MINBUCKETS_def)
  from um.in_range [OF this, of k] show "bm_abs uuidmap_get_bucket (uuidmap_allocate n) k = None"
    by (simp add: uuidmap_allocate_def uuidmap_initialize_def Let_def bm_initialize_abs del: if_split)
qed

lemma uuidmap_allocate_inv: "bm_inv uuidmap_get_bucket (uuidmap_allocate n)"
  by (auto simp: uuidmap_allocate_def uuidmap_initialize_def UUIDMAP_MINBUCKETS_def Let_def)

text \<open>
  C5. A UUID map behaves as a finite partial function from UUIDs to pointers, in the sense of
  the hash map's theorem: previous values are returned, lookups and membership follow the
  updates, and the size is the number of keys present.
\<close>

theorem uuidmap_refines_map:
  assumes "map_run uuidmap_insert uuidmap_erase (uuidmap_allocate n) ops = (m, ps)"
    and "map_spec Map.empty ops = (g, qs)"
  shows "ps = qs \<and> uuidmap_lookup m k = (case g k of None \<Rightarrow> 0 | Some q \<Rightarrow> q) \<and>
    (uuidmap_has_key m k \<longleftrightarrow> g k \<noteq> None) \<and> uuidmap_size m = card (dom g)"
  using um.map_run_observations [OF uuidmap_allocate_inv, of n ops m ps g qs k] assms
  by (simp add: uuidmap_allocate_abs uuidmap_insert_def uuidmap_erase_def uuidmap_lookup_def
      uuidmap_has_key_def uuidmap_size_def)

text \<open>Two keys in one bucket: both words are exchanged, the exclusive or is the same.\<close>

theorem uuidmap_refines_map_witness:
  "snd (map_run uuidmap_insert uuidmap_erase (uuidmap_allocate 0)
      [Insert \<lparr>word0 = 1, word1 = 2\<rparr> 7, Insert \<lparr>word0 = 2, word1 = 1\<rparr> 8, Erase \<lparr>word0 = 1, word1 = 2\<rparr>])
     = [0, 0, 7] \<and>
   uuidmap_lookup (fst (map_run uuidmap_insert uuidmap_erase (uuidmap_allocate 0)
      [Insert \<lparr>word0 = 1, word1 = 2\<rparr> 7, Insert \<lparr>word0 = 2, word1 = 1\<rparr> 8, Erase \<lparr>word0 = 1, word1 = 2\<rparr>]))
      \<lparr>word0 = 2, word1 = 1\<rparr> = 8"
proof -
  let ?a = "\<lparr>word0 = 1, word1 = 2\<rparr> :: uuid_t" and ?b = "\<lparr>word0 = 2, word1 = 1\<rparr> :: uuid_t"
  let ?ops = "[Insert ?a 7, Insert ?b 8, Erase ?a]"
  obtain m ps where r: "map_run uuidmap_insert uuidmap_erase (uuidmap_allocate 0) ?ops = (m, ps)"
    by fastforce
  have s: "map_spec Map.empty ?ops = ((Map.empty(?a \<mapsto> 7, ?b \<mapsto> 8))(?a := None), [0, 0, 7])"
    by simp
  show ?thesis unfolding r using uuidmap_refines_map [OF r s, of ?b] by simp
qed

end
