(* ===== verification/Hashtable.thy ===== *)
theory Hashtable
  imports Prelude
begin

text \<open>
  \<open>foundation/hashtable.c\<close>: the open-addressing tables from non-zero keys to values, in the
  32-bit and the 64-bit variant. The variants are instances of one definition that is
  polymorphic in the word width and has the mixing function as a parameter. The operations are
  modelled as one thread executes them alone, where the compare-and-swap of an empty slot
  succeeds. The fuel of a probe loop is the capacity; the theorems show that this is enough.
\<close>

section \<open>Tables and probe loops\<close>

record 'a hashtable_entry =
  entry_key :: 'a
  entry_value :: 'a

record 'a hashtable =
  ht_capacity :: size_t
  ht_entries :: "'a hashtable_entry list"

definition hashtable32_hash :: "u32 \<Rightarrow> u32" where
  "hashtable32_hash key =
     (let key = key XOR drop_bit 16 key;
          key = key * 0x85ebca6b;
          key = key XOR drop_bit 13 key;
          key = key * 0xc2b2ae35;
          key = key XOR drop_bit 16 key
      in key)"

definition hashtable64_hash :: "u64 \<Rightarrow> u64" where
  "hashtable64_hash key =
     (let key = key XOR drop_bit 33 key;
          key = key * 0xff51afd7ed558ccd;
          key = key XOR drop_bit 33 key;
          key = key * 0xc4ceb9fe1a85ec53;
          key = key XOR drop_bit 33 key
      in key)"

definition ht_initialize :: "size_t \<Rightarrow> 'w::len word hashtable" where
  "ht_initialize bucket_count =
     \<lparr>ht_capacity = bucket_count, ht_entries = replicate bucket_count \<lparr>entry_key = 0, entry_value = 0\<rparr>\<rparr>"

fun ht_set_loop :: "nat \<Rightarrow> 'w::len word hashtable \<Rightarrow> 'w word \<Rightarrow> 'w word \<Rightarrow> nat \<Rightarrow> nat \<Rightarrow> ('w word hashtable \<times> bool) option" where
  "ht_set_loop 0 table key value ie eend = None"
| "ht_set_loop (Suc fuel) table key value ie eend =
     (let current_key = entry_key (ht_entries table ! ie)
      in if current_key = key \<or> current_key = 0
         then Some (table\<lparr>ht_entries := (ht_entries table)[ie := \<lparr>entry_key = key, entry_value = value\<rparr>]\<rparr>, True)
         else let ie = (ie + 1) mod ht_capacity table
              in if ie \<noteq> eend then ht_set_loop fuel table key value ie eend
                 else Some (table, False))"

fun ht_erase_loop :: "nat \<Rightarrow> 'w::len word hashtable \<Rightarrow> 'w word \<Rightarrow> nat \<Rightarrow> nat \<Rightarrow> 'w word hashtable option" where
  "ht_erase_loop 0 table key ie eend = None"
| "ht_erase_loop (Suc fuel) table key ie eend =
     (let entry = ht_entries table ! ie; current_key = entry_key entry
      in if current_key = key
         then Some (table\<lparr>ht_entries := (ht_entries table)[ie := entry\<lparr>entry_value := 0\<rparr>]\<rparr>)
         else let ie = (ie + 1) mod ht_capacity table
              in if current_key \<noteq> 0 \<and> ie \<noteq> eend then ht_erase_loop fuel table key ie eend
                 else Some table)"

fun ht_get_loop :: "nat \<Rightarrow> 'w::len word hashtable \<Rightarrow> 'w word \<Rightarrow> nat \<Rightarrow> nat \<Rightarrow> 'w word option" where
  "ht_get_loop 0 table key ie eend = None"
| "ht_get_loop (Suc fuel) table key ie eend =
     (let current_key = entry_key (ht_entries table ! ie)
      in if current_key = key then Some (entry_value (ht_entries table ! ie))
         else let ie = (ie + 1) mod ht_capacity table
              in if current_key \<noteq> 0 \<and> ie \<noteq> eend then ht_get_loop fuel table key ie eend
                 else Some 0)"

definition ht_set :: "('w::len word \<Rightarrow> 'w word) \<Rightarrow> 'w word hashtable \<Rightarrow> 'w word \<Rightarrow> 'w word \<Rightarrow> ('w word hashtable \<times> bool) option" where
  "ht_set hash table key value =
     do { c_assert (key \<noteq> 0);
          let eend = unat (hash key) mod ht_capacity table;
          ht_set_loop (ht_capacity table) table key value eend eend }"

definition ht_erase :: "('w::len word \<Rightarrow> 'w word) \<Rightarrow> 'w word hashtable \<Rightarrow> 'w word \<Rightarrow> 'w word hashtable option" where
  "ht_erase hash table key =
     do { c_assert (key \<noteq> 0);
          let eend = unat (hash key) mod ht_capacity table;
          ht_erase_loop (ht_capacity table) table key eend eend }"

definition ht_get :: "('w::len word \<Rightarrow> 'w word) \<Rightarrow> 'w word hashtable \<Rightarrow> 'w word \<Rightarrow> 'w word option" where
  "ht_get hash table key =
     do { c_assert (key \<noteq> 0);
          let eend = unat (hash key) mod ht_capacity table;
          ht_get_loop (ht_capacity table) table key eend eend }"

definition ht_raw :: "'w::len word hashtable \<Rightarrow> nat \<Rightarrow> 'w word option" where
  "ht_raw table slot =
     do { entry \<leftarrow> mem_get (ht_entries table) slot;
          Some (if entry_key entry = 0 then 0 else entry_value entry) }"

definition ht_size :: "'w::len word hashtable \<Rightarrow> size_t" where
  "ht_size table =
     fold (\<lambda>ie count. if entry_key (ht_entries table ! ie) \<noteq> 0 \<and> entry_value (ht_entries table ! ie) \<noteq> 0
                      then count + 1 else count) [0..<ht_capacity table] 0"

definition ht_clear :: "'w::len word hashtable \<Rightarrow> 'w word hashtable" where
  "ht_clear table =
     table\<lparr>ht_entries := replicate (ht_capacity table) \<lparr>entry_key = 0, entry_value = 0\<rparr>\<rparr>"

section \<open>The two variants\<close>

type_synonym hashtable32_t = "u32 hashtable"
type_synonym hashtable64_t = "u64 hashtable"

definition hashtable32_initialize :: "size_t \<Rightarrow> hashtable32_t" where
  "hashtable32_initialize = ht_initialize"
definition hashtable32_allocate :: "size_t \<Rightarrow> hashtable32_t" where
  "hashtable32_allocate bucket_count = hashtable32_initialize bucket_count"
definition hashtable32_set :: "hashtable32_t \<Rightarrow> u32 \<Rightarrow> u32 \<Rightarrow> (hashtable32_t \<times> bool) option" where
  "hashtable32_set = ht_set hashtable32_hash"
definition hashtable32_erase :: "hashtable32_t \<Rightarrow> u32 \<Rightarrow> hashtable32_t option" where
  "hashtable32_erase = ht_erase hashtable32_hash"
definition hashtable32_get :: "hashtable32_t \<Rightarrow> u32 \<Rightarrow> u32 option" where
  "hashtable32_get = ht_get hashtable32_hash"
definition hashtable32_raw :: "hashtable32_t \<Rightarrow> nat \<Rightarrow> u32 option" where
  "hashtable32_raw = ht_raw"
definition hashtable32_size :: "hashtable32_t \<Rightarrow> size_t" where
  "hashtable32_size = ht_size"
definition hashtable32_clear :: "hashtable32_t \<Rightarrow> hashtable32_t" where
  "hashtable32_clear = ht_clear"

definition hashtable64_initialize :: "size_t \<Rightarrow> hashtable64_t" where
  "hashtable64_initialize = ht_initialize"
definition hashtable64_allocate :: "size_t \<Rightarrow> hashtable64_t" where
  "hashtable64_allocate bucket_count = hashtable64_initialize bucket_count"
definition hashtable64_set :: "hashtable64_t \<Rightarrow> u64 \<Rightarrow> u64 \<Rightarrow> (hashtable64_t \<times> bool) option" where
  "hashtable64_set = ht_set hashtable64_hash"
definition hashtable64_erase :: "hashtable64_t \<Rightarrow> u64 \<Rightarrow> hashtable64_t option" where
  "hashtable64_erase = ht_erase hashtable64_hash"
definition hashtable64_get :: "hashtable64_t \<Rightarrow> u64 \<Rightarrow> u64 option" where
  "hashtable64_get = ht_get hashtable64_hash"
definition hashtable64_raw :: "hashtable64_t \<Rightarrow> nat \<Rightarrow> u64 option" where
  "hashtable64_raw = ht_raw"
definition hashtable64_size :: "hashtable64_t \<Rightarrow> size_t" where
  "hashtable64_size = ht_size"
definition hashtable64_clear :: "hashtable64_t \<Rightarrow> hashtable64_t" where
  "hashtable64_clear = ht_clear"

section \<open>Probe sequences\<close>

text \<open>Slot \<open>j\<close> of the probe sequence that starts at \<open>h\<close>.\<close>

definition probe :: "'w::len word hashtable \<Rightarrow> nat \<Rightarrow> nat \<Rightarrow> nat" where
  "probe t h j = (h + j) mod ht_capacity t"

lemma probe_Suc: "Suc (probe t h j) mod ht_capacity t = probe t h (Suc j)"
  by (simp add: probe_def mod_Suc_eq)

lemma probe_less: "0 < ht_capacity t \<Longrightarrow> probe t h j < ht_capacity t"
  by (simp add: probe_def)

lemma probe_eq_start:
  assumes "h < ht_capacity t" "j \<le> ht_capacity t"
  shows "probe t h j = h \<longleftrightarrow> j = 0 \<or> j = ht_capacity t"
proof (cases "h + j < ht_capacity t")
  case True
  then show ?thesis using assms by (auto simp: probe_def)
next
  case False
  then have "probe t h j = h + j - ht_capacity t"
    using assms by (simp add: probe_def mod_if)
  then show ?thesis using assms False by auto
qed

lemma probe_inj:
  assumes "h < ht_capacity t" "i < ht_capacity t" "j < ht_capacity t" "probe t h i = probe t h j"
  shows "i = j"
proof -
  have eq: "probe t h k = (if h + k < ht_capacity t then h + k else h + k - ht_capacity t)"
    if "k < ht_capacity t" for k
    using that assms(1) by (simp add: probe_def mod_if)
  show ?thesis using assms eq [of i] eq [of j] by (simp split: if_splits)
qed

lemma probe_surj:
  assumes "h < ht_capacity t" "i < ht_capacity t"
  shows "\<exists>j < ht_capacity t. probe t h j = i"
proof (cases "h \<le> i")
  case True
  then show ?thesis using assms by (intro exI [of _ "i - h"]) (auto simp: probe_def)
next
  case False
  then show ?thesis using assms
    by (intro exI [of _ "i + ht_capacity t - h"]) (auto simp: probe_def)
qed

text \<open>The first probe from \<open>s\<close> on that hits the key or an empty slot.\<close>

definition stop_at :: "'w::len word hashtable \<Rightarrow> 'w word \<Rightarrow> nat \<Rightarrow> nat \<Rightarrow> bool" where
  "stop_at t key h j \<longleftrightarrow> entry_key (ht_entries t ! probe t h j) = key \<or>
     entry_key (ht_entries t ! probe t h j) = 0"

lemma ht_set_loop_find:
  assumes "h < ht_capacity t" "s + fuel = ht_capacity t" "0 < fuel"
  shows "ht_set_loop fuel t key v (probe t h s) h =
    Some (case find (stop_at t key h) [s..<ht_capacity t] of
      None \<Rightarrow> (t, False)
    | Some j \<Rightarrow> (t\<lparr>ht_entries := (ht_entries t)[probe t h j := \<lparr>entry_key = key, entry_value = v\<rparr>]\<rparr>, True))"
  using assms(2,3)
proof (induction fuel arbitrary: s)
  case (Suc fuel)
  have upt: "[s..<ht_capacity t] = s # [Suc s..<ht_capacity t]"
    using Suc.prems by (simp add: upt_conv_Cons)
  have stop: "probe t h (Suc s) = h \<longleftrightarrow> fuel = 0"
    using Suc.prems probe_eq_start [OF assms(1), of "Suc s"] by auto
  show ?case
    using Suc.IH [of "Suc s"] Suc.prems stop
    by (auto simp: upt stop_at_def probe_Suc Let_def simp del: upt_Suc)
qed simp

lemma ht_erase_loop_find:
  assumes "h < ht_capacity t" "s + fuel = ht_capacity t" "0 < fuel" "key \<noteq> 0"
  shows "ht_erase_loop fuel t key (probe t h s) h =
    Some (case find (stop_at t key h) [s..<ht_capacity t] of
      None \<Rightarrow> t
    | Some j \<Rightarrow> if entry_key (ht_entries t ! probe t h j) = key
        then t\<lparr>ht_entries := (ht_entries t)[probe t h j := (ht_entries t ! probe t h j)\<lparr>entry_value := 0\<rparr>]\<rparr>
        else t)"
  using assms(2,3)
proof (induction fuel arbitrary: s)
  case (Suc fuel)
  have upt: "[s..<ht_capacity t] = s # [Suc s..<ht_capacity t]"
    using Suc.prems by (simp add: upt_conv_Cons)
  have stop: "probe t h (Suc s) = h \<longleftrightarrow> fuel = 0"
    using Suc.prems probe_eq_start [OF assms(1), of "Suc s"] by auto
  show ?case
    using Suc.IH [of "Suc s"] Suc.prems stop assms(4)
    by (auto simp: upt stop_at_def probe_Suc Let_def simp del: upt_Suc)
qed simp

lemma ht_get_loop_find:
  assumes "h < ht_capacity t" "s + fuel = ht_capacity t" "0 < fuel" "key \<noteq> 0"
  shows "ht_get_loop fuel t key (probe t h s) h =
    Some (case find (stop_at t key h) [s..<ht_capacity t] of
      None \<Rightarrow> 0
    | Some j \<Rightarrow> if entry_key (ht_entries t ! probe t h j) = key
        then entry_value (ht_entries t ! probe t h j) else 0)"
  using assms(2,3)
proof (induction fuel arbitrary: s)
  case (Suc fuel)
  have upt: "[s..<ht_capacity t] = s # [Suc s..<ht_capacity t]"
    using Suc.prems by (simp add: upt_conv_Cons)
  have stop: "probe t h (Suc s) = h \<longleftrightarrow> fuel = 0"
    using Suc.prems probe_eq_start [OF assms(1), of "Suc s"] by auto
  show ?case
    using Suc.IH [of "Suc s"] Suc.prems stop assms(4)
    by (auto simp: upt stop_at_def probe_Suc Let_def simp del: upt_Suc)
qed simp

section \<open>Invariant and abstraction\<close>

abbreviation kat :: "'w::len word hashtable \<Rightarrow> nat \<Rightarrow> 'w word" where
  "kat t i \<equiv> entry_key (ht_entries t ! i)"

definition home :: "('w::len word \<Rightarrow> 'w word) \<Rightarrow> 'w word hashtable \<Rightarrow> 'w word \<Rightarrow> nat" where
  "home hash t key = unat (hash key) mod ht_capacity t"

text \<open>
  Every slot of the table is in use by at most one key, and a key is reached from its home slot
  without passing an empty slot.
\<close>

definition ht_inv :: "('w::len word \<Rightarrow> 'w word) \<Rightarrow> 'w word hashtable \<Rightarrow> bool" where
  "ht_inv hash t \<longleftrightarrow> 0 < ht_capacity t \<and> length (ht_entries t) = ht_capacity t \<and>
     (\<forall>i<ht_capacity t. \<forall>k<ht_capacity t. kat t i \<noteq> 0 \<longrightarrow> kat t i = kat t k \<longrightarrow> i = k) \<and>
     (\<forall>i<ht_capacity t. kat t i \<noteq> 0 \<longrightarrow>
        (\<exists>j<ht_capacity t. probe t (home hash t (kat t i)) j = i \<and>
           (\<forall>l<j. kat t (probe t (home hash t (kat t i)) l) \<noteq> 0)))"

text \<open>The map a table stands for: the claimed keys with their values (zero once erased).\<close>

definition ht_abs :: "'w::len word hashtable \<Rightarrow> 'w word \<Rightarrow> 'w word option" where
  "ht_abs t key = (if key = 0 then None
     else map_option entry_value (find (\<lambda>e. entry_key e = key) (ht_entries t)))"

lemma ht_inv_pos [simp]: "ht_inv hash t \<Longrightarrow> 0 < ht_capacity t"
  and ht_inv_length: "ht_inv hash t \<Longrightarrow> length (ht_entries t) = ht_capacity t"
  and ht_inv_unique: "ht_inv hash t \<Longrightarrow> i < ht_capacity t \<Longrightarrow> k < ht_capacity t \<Longrightarrow>
    kat t i \<noteq> 0 \<Longrightarrow> kat t i = kat t k \<Longrightarrow> i = k"
  by (simp_all add: ht_inv_def)

lemma ht_inv_reach:
  assumes "ht_inv hash t" "i < ht_capacity t" "kat t i \<noteq> 0"
  obtains j where "j < ht_capacity t" "probe t (home hash t (kat t i)) j = i"
    "\<forall>l<j. kat t (probe t (home hash t (kat t i)) l) \<noteq> 0"
proof -
  have "\<forall>i<ht_capacity t. kat t i \<noteq> 0 \<longrightarrow>
        (\<exists>j<ht_capacity t. probe t (home hash t (kat t i)) j = i \<and>
           (\<forall>l<j. kat t (probe t (home hash t (kat t i)) l) \<noteq> 0))"
    using assms(1) unfolding ht_inv_def by (elim conjE)
  then show ?thesis using assms(2,3) that by blast
qed

lemma home_less: "ht_inv hash t \<Longrightarrow> home hash t key < ht_capacity t"
  by (simp add: home_def)

lemma ht_abs_at:
  assumes "ht_inv hash t" "i < ht_capacity t" "kat t i = key" "key \<noteq> 0"
  shows "ht_abs t key = Some (entry_value (ht_entries t ! i))"
proof -
  have "kat t l \<noteq> key" if "l < i" for l
    using ht_inv_unique [OF assms(1), of l i] that assms(2-4) by fastforce
  then have "find (\<lambda>e. entry_key e = key) (ht_entries t) = Some (ht_entries t ! i)"
    unfolding find_Some_iff
    using assms(2,3) ht_inv_length [OF assms(1)] by (intro exI [of _ i]) simp
  then show ?thesis using assms(4) by (simp add: ht_abs_def)
qed

lemma ht_abs_None:
  assumes "ht_inv hash t" "key \<noteq> 0"
  shows "ht_abs t key = None \<longleftrightarrow> (\<forall>i<ht_capacity t. kat t i \<noteq> key)"
  using assms(2) ht_inv_length [OF assms(1)]
  by (auto simp: ht_abs_def find_None_iff in_set_conv_nth)

lemma ht_abs_zero [simp]: "ht_abs t 0 = None"
  by (simp add: ht_abs_def)

lemma ht_abs_cases:
  assumes "ht_inv hash t" "key \<noteq> 0"
  obtains (absent) "ht_abs t key = None" "\<forall>i<ht_capacity t. kat t i \<noteq> key"
  | (present) i where "i < ht_capacity t" "kat t i = key" "ht_abs t key = Some (entry_value (ht_entries t ! i))"
proof (cases "\<forall>i<ht_capacity t. kat t i \<noteq> key")
  case True
  then show ?thesis using ht_abs_None [OF assms] by (intro absent) simp_all
next
  case False
  then show ?thesis using present ht_abs_at [OF assms(1) _ _ assms(2)] by blast
qed

lemma find_stop_present:
  assumes "ht_inv hash t" "i < ht_capacity t" "kat t i = key" "key \<noteq> 0"
  obtains j where "find (stop_at t key (home hash t key)) [0..<ht_capacity t] = Some j"
    "probe t (home hash t key) j = i" "j < ht_capacity t"
proof -
  obtain j where j: "j < ht_capacity t" "probe t (home hash t key) j = i"
    "\<forall>l<j. kat t (probe t (home hash t key) l) \<noteq> 0"
    using ht_inv_reach [OF assms(1,2)] assms(3,4) by metis
  have "kat t (probe t (home hash t key) l) \<noteq> key" if "l < j" for l
  proof
    assume "kat t (probe t (home hash t key) l) = key"
    then have "i = probe t (home hash t key) l"
      using ht_inv_unique [OF assms(1,2) probe_less [OF ht_inv_pos [OF assms(1)]]] assms(3,4) by metis
    then show False
      using probe_inj [OF home_less [OF assms(1)], of l j key] that j(1,2) by simp
  qed
  then have "find (stop_at t key (home hash t key)) [0..<ht_capacity t] = Some j"
    unfolding find_Some_iff using j assms(3) by (intro exI [of _ j]) (simp add: stop_at_def)
  then show ?thesis using that j by blast
qed

lemma find_stop_absent:
  assumes "ht_inv hash t" "\<forall>i<ht_capacity t. kat t i \<noteq> key"
  obtains (empty) j where "find (stop_at t key (home hash t key)) [0..<ht_capacity t] = Some j"
    "j < ht_capacity t" "kat t (probe t (home hash t key) j) = 0"
    "\<forall>l<j. kat t (probe t (home hash t key) l) \<noteq> 0"
  | (full) "find (stop_at t key (home hash t key)) [0..<ht_capacity t] = None"
    "\<forall>i<ht_capacity t. kat t i \<noteq> 0"
proof (cases "find (stop_at t key (home hash t key)) [0..<ht_capacity t]")
  case None
  have "kat t i \<noteq> 0" if "i < ht_capacity t" for i
    using None probe_surj [OF home_less [OF assms(1)] that, of key]
    by (auto simp: find_None_iff stop_at_def)
  then show ?thesis using full None by blast
next
  case (Some j)
  then have j: "j < ht_capacity t" "stop_at t key (home hash t key) j"
    "\<forall>l<j. \<not> stop_at t key (home hash t key) l"
    by (auto simp: find_Some_iff)
  moreover have "probe t (home hash t key) j < ht_capacity t"
    using probe_less [OF ht_inv_pos [OF assms(1)]] .
  ultimately have "kat t (probe t (home hash t key) j) = 0"
    using assms(2) by (auto simp: stop_at_def)
  then show ?thesis using empty [OF Some] j by (simp add: stop_at_def)
qed

section \<open>The operations on the abstraction\<close>

lemma ht_get_eq:
  assumes "ht_inv hash t" "key \<noteq> 0"
  shows "ht_get hash t key = Some (case ht_abs t key of None \<Rightarrow> 0 | Some v \<Rightarrow> v)"
proof -
  have "probe t (home hash t key) 0 = home hash t key"
    using home_less [OF assms(1)] by (simp add: probe_def)
  then have get: "ht_get hash t key =
    Some (case find (stop_at t key (home hash t key)) [0..<ht_capacity t] of None \<Rightarrow> 0
    | Some j \<Rightarrow> if kat t (probe t (home hash t key) j) = key
        then entry_value (ht_entries t ! probe t (home hash t key) j) else 0)"
    using ht_get_loop_find [OF home_less [OF assms(1)], of 0 "ht_capacity t" key key] assms
    by (simp add: ht_get_def home_def)
  show ?thesis
    using assms
  proof (cases rule: ht_abs_cases)
    case absent
    show ?thesis using assms(1) absent(2)
      by (cases rule: find_stop_absent) (use get absent(1) assms(2) in simp_all)
  next
    case (present i)
    then show ?thesis
      using get find_stop_present [OF assms(1) present(1,2) assms(2)] by fastforce
  qed
qed

lemma ht_erase_eq:
  assumes "ht_inv hash t" "key \<noteq> 0"
  shows "(\<forall>i<ht_capacity t. kat t i \<noteq> key) \<Longrightarrow> ht_erase hash t key = Some t"
    and "i < ht_capacity t \<Longrightarrow> kat t i = key \<Longrightarrow> ht_erase hash t key =
      Some (t\<lparr>ht_entries := (ht_entries t)[i := (ht_entries t ! i)\<lparr>entry_value := 0\<rparr>]\<rparr>)"
proof -
  have "probe t (home hash t key) 0 = home hash t key"
    using home_less [OF assms(1)] by (simp add: probe_def)
  then have erase: "ht_erase hash t key =
    Some (case find (stop_at t key (home hash t key)) [0..<ht_capacity t] of None \<Rightarrow> t
    | Some j \<Rightarrow> if kat t (probe t (home hash t key) j) = key
        then t\<lparr>ht_entries := (ht_entries t)[probe t (home hash t key) j :=
          (ht_entries t ! probe t (home hash t key) j)\<lparr>entry_value := 0\<rparr>]\<rparr> else t)"
    using ht_erase_loop_find [OF home_less [OF assms(1)], of 0 "ht_capacity t" key key] assms
    by (simp add: ht_erase_def home_def)
  show "ht_erase hash t key = Some t" if "\<forall>i<ht_capacity t. kat t i \<noteq> key"
    using assms(1) that by (cases rule: find_stop_absent) (use erase assms(2) in simp_all)
  show "ht_erase hash t key =
      Some (t\<lparr>ht_entries := (ht_entries t)[i := (ht_entries t ! i)\<lparr>entry_value := 0\<rparr>]\<rparr>)"
    if "i < ht_capacity t" "kat t i = key"
    using erase find_stop_present [OF assms(1) that assms(2)] that by fastforce
qed

lemma ht_set_find:
  assumes "ht_inv hash t" "key \<noteq> 0"
  shows "ht_set hash t key v =
    Some (case find (stop_at t key (home hash t key)) [0..<ht_capacity t] of
      None \<Rightarrow> (t, False)
    | Some j \<Rightarrow> (t\<lparr>ht_entries := (ht_entries t)[probe t (home hash t key) j :=
        \<lparr>entry_key = key, entry_value = v\<rparr>]\<rparr>, True))"
proof -
  have "probe t (home hash t key) 0 = home hash t key"
    using home_less [OF assms(1)] by (simp add: probe_def)
  then show ?thesis
    using ht_set_loop_find [OF home_less [OF assms(1)], of 0 "ht_capacity t" key v key] assms
    by (simp add: ht_set_def home_def)
qed

text \<open>Writing an entry whose key stays, or that claims the first empty slot of its key.\<close>

lemma ht_inv_update:
  assumes inv: "ht_inv hash t" and i: "i < ht_capacity t" and k: "entry_key e \<noteq> 0"
    and ok: "kat t i = entry_key e \<or> (kat t i = 0 \<and> (\<forall>l<ht_capacity t. kat t l \<noteq> entry_key e) \<and>
      (\<exists>j<ht_capacity t. probe t (home hash t (entry_key e)) j = i \<and>
         (\<forall>l<j. kat t (probe t (home hash t (entry_key e)) l) \<noteq> 0)))"
  shows "ht_inv hash (t\<lparr>ht_entries := (ht_entries t)[i := e]\<rparr>)"
proof -
  let ?t = "t\<lparr>ht_entries := (ht_entries t)[i := e]\<rparr>"
  have kat: "kat ?t l = (if l = i then entry_key e else kat t l)" if "l < ht_capacity t" for l
    using that i ht_inv_length [OF inv] by auto
  have geo: "ht_capacity ?t = ht_capacity t" "probe ?t = probe t" "home hash ?t = home hash t"
    by (auto simp: probe_def home_def fun_eq_iff)
  have "kat ?t l \<noteq> 0" if "kat t l \<noteq> 0" "l < ht_capacity t" for l
    using kat that k by simp
  then have live: "kat ?t (probe t h l) \<noteq> 0" if "kat t (probe t h l) \<noteq> 0" for h l
    using that probe_less [OF ht_inv_pos [OF inv]] by blast
  have uniq: "l = m" if "l < ht_capacity t" "m < ht_capacity t" "kat ?t l \<noteq> 0" "kat ?t l = kat ?t m" for l m
  proof (cases "l = i \<or> m = i")
    case True
    then have "m = i \<and> l = i" if "kat t i = entry_key e"
      using that \<open>kat ?t l = kat ?t m\<close> kat \<open>l < ht_capacity t\<close> \<open>m < ht_capacity t\<close> k
        ht_inv_unique [OF inv i] by metis
    moreover have "m = i \<and> l = i" if "\<forall>l<ht_capacity t. kat t l \<noteq> entry_key e"
      using that True \<open>kat ?t l = kat ?t m\<close> kat \<open>l < ht_capacity t\<close> \<open>m < ht_capacity t\<close> by metis
    ultimately show ?thesis using ok by blast
  next
    case False
    then show ?thesis using that kat ht_inv_unique [OF inv that(1,2)] by metis
  qed
  have reach: "\<exists>j<ht_capacity t. probe t (home hash t (kat ?t l)) j = l \<and>
      (\<forall>m<j. kat ?t (probe t (home hash t (kat ?t l)) m) \<noteq> 0)"
    if l: "l < ht_capacity t" "kat ?t l \<noteq> 0" for l
  proof (cases "kat t l = kat ?t l")
    case True
    then show ?thesis using ht_inv_reach [OF inv l(1)] l(2) live by metis
  next
    case False
    then have "l = i" using kat [OF l(1)] by presburger
    then show ?thesis using False ok kat [OF i] live by metis
  qed
  show ?thesis
    unfolding ht_inv_def geo using ht_inv_length [OF inv] ht_inv_pos [OF inv] uniq reach by simp
qed

lemma ht_abs_update:
  assumes inv: "ht_inv hash t" and i: "i < ht_capacity t" and k: "entry_key e \<noteq> 0"
    and inv': "ht_inv hash (t\<lparr>ht_entries := (ht_entries t)[i := e]\<rparr>)"
    and ok: "kat t i = entry_key e \<or> kat t i = 0"
  shows "ht_abs (t\<lparr>ht_entries := (ht_entries t)[i := e]\<rparr>) = (ht_abs t)(entry_key e \<mapsto> entry_value e)"
proof
  fix key
  let ?t = "t\<lparr>ht_entries := (ht_entries t)[i := e]\<rparr>"
  have at: "ht_entries ?t ! l = (if l = i then e else ht_entries t ! l)" if "l < ht_capacity t" for l
    using that i ht_inv_length [OF inv] by auto
  show "ht_abs ?t key = ((ht_abs t)(entry_key e \<mapsto> entry_value e)) key"
  proof (cases "key = entry_key e \<or> key = 0")
    case True
    then show ?thesis using ht_abs_at [OF inv', of i] at [OF i] i k by auto
  next
    case False
    from False have key: "key \<noteq> 0" by simp
    from inv' key show ?thesis
    proof (cases rule: ht_abs_cases)
      case absent
      have "kat t l \<noteq> key" if "l < ht_capacity t" for l
        using absent(2) that at [OF that] ok False by (auto split: if_splits)
      then show ?thesis using absent(1) ht_abs_None [OF inv key] False by simp
    next
      case (present l)
      then have l: "l < ht_capacity t" by simp
      then have "l \<noteq> i" "kat t l = key" using present(2) at [OF l] False by (auto split: if_splits)
      then show ?thesis using present(3) False at [OF l] ht_abs_at [OF inv l _ key] by simp
    qed
  qed
qed

lemma dom_ht_abs:
  assumes "ht_inv hash t"
  shows "dom (ht_abs t) = kat t ` {i. i < ht_capacity t \<and> kat t i \<noteq> 0}"
proof (rule set_eqI)
  fix key
  show "key \<in> dom (ht_abs t) \<longleftrightarrow> key \<in> kat t ` {i. i < ht_capacity t \<and> kat t i \<noteq> 0}"
    using ht_abs_None [OF assms, of key] by (cases "key = 0") auto
qed

lemma inj_kat:
  assumes "ht_inv hash t" shows "inj_on (kat t) {i. i < ht_capacity t \<and> kat t i \<noteq> 0}"
  using ht_inv_unique [OF assms] by (auto simp: inj_on_def)

lemma card_ht_abs:
  assumes "ht_inv hash t"
  shows "card (dom (ht_abs t)) < ht_capacity t \<longleftrightarrow> (\<exists>i<ht_capacity t. kat t i = 0)"
proof -
  let ?S = "{i. i < ht_capacity t \<and> kat t i \<noteq> 0}"
  have "card (dom (ht_abs t)) = card ?S"
    unfolding dom_ht_abs [OF assms] by (rule card_image [OF inj_kat [OF assms]])
  moreover have "card ?S < ht_capacity t \<longleftrightarrow> ?S \<noteq> {..<ht_capacity t}"
  proof -
    have sub: "?S \<subseteq> {..<ht_capacity t}" by (rule subsetI) (simp only: mem_Collect_eq lessThan_iff)
    show ?thesis
    proof
      assume "card ?S < ht_capacity t"
      then show "?S \<noteq> {..<ht_capacity t}" by (metis card_lessThan less_irrefl)
    next
      assume "?S \<noteq> {..<ht_capacity t}"
      then show "card ?S < ht_capacity t"
        using psubset_card_mono [OF finite_lessThan psubsetI [OF sub]] card_lessThan by metis
    qed
  qed
  moreover have "?S \<noteq> {..<ht_capacity t} \<longleftrightarrow> (\<exists>i<ht_capacity t. kat t i = 0)"
    unfolding set_eq_iff by auto
  ultimately show ?thesis by simp
qed

lemma ht_size_count: "ht_size t = card {i. i < ht_capacity t \<and> kat t i \<noteq> 0 \<and> entry_value (ht_entries t ! i) \<noteq> 0}"
proof -
  let ?P = "\<lambda>i. kat t i \<noteq> 0 \<and> entry_value (ht_entries t ! i) \<noteq> 0"
  have "fold (\<lambda>i c. if ?P i then c + 1 else c) xs c = c + length (filter ?P xs)" for c xs
    by (induction xs arbitrary: c) auto
  then have "ht_size t = card (set (filter ?P [0..<ht_capacity t]))"
    unfolding ht_size_def by (subst distinct_card) simp_all
  also have "set (filter ?P [0..<ht_capacity t]) = {i. i < ht_capacity t \<and> ?P i}" by auto
  finally show ?thesis .
qed

lemma ht_size_eq:
  assumes "ht_inv hash t"
  shows "ht_size t = card {key. \<exists>v. ht_abs t key = Some v \<and> v \<noteq> 0}"
proof -
  let ?S = "{i. i < ht_capacity t \<and> kat t i \<noteq> 0 \<and> entry_value (ht_entries t ! i) \<noteq> 0}"
  have "{key. \<exists>v. ht_abs t key = Some v \<and> v \<noteq> 0} = kat t ` ?S"
  proof (rule set_eqI)
    fix key
    show "key \<in> {key. \<exists>v. ht_abs t key = Some v \<and> v \<noteq> 0} \<longleftrightarrow> key \<in> kat t ` ?S"
    proof (cases "key = 0")
      case False
      from assms this show ?thesis
        by (cases rule: ht_abs_cases) (use ht_abs_at [OF assms] in auto)
    qed auto
  qed
  moreover have "inj_on (kat t) ?S" by (rule inj_on_subset [OF inj_kat [OF assms]]) auto
  ultimately show ?thesis by (simp add: ht_size_count card_image)
qed

lemma ht_initialize_inv: "0 < n \<Longrightarrow> ht_inv hash (ht_initialize n)"
  and ht_initialize_abs [simp]: "ht_abs (ht_initialize n) = Map.empty"
  and ht_initialize_capacity [simp]: "ht_capacity (ht_initialize n) = n"
  by (simp_all add: ht_inv_def ht_initialize_def ht_abs_def fun_eq_iff find_None_iff)

lemma ht_clear_eq: "ht_clear t = ht_initialize (ht_capacity t)"
  by (simp add: ht_clear_def ht_initialize_def)

section \<open>The contract of a bounded table\<close>

text \<open>
  A claimed key stays claimed until the table is cleared: erasing sets its value to zero. A
  store succeeds exactly when its key is claimed or a slot is free.
\<close>

datatype 'a table_op = Set 'a 'a | Erase 'a | Get 'a | Size | Clear
datatype 'a table_result = Stored bool | Value 'a | Count nat | Done

fun table_spec_step :: "nat \<Rightarrow> ('a::zero \<Rightarrow> 'a option) \<Rightarrow> 'a table_op \<Rightarrow> (('a \<Rightarrow> 'a option) \<times> 'a table_result) option" where
  "table_spec_step cap m (Set k v) = (if k = 0 then None
     else if k \<in> dom m \<or> card (dom m) < cap then Some (m(k \<mapsto> v), Stored True) else Some (m, Stored False))"
| "table_spec_step cap m (Erase k) = (if k = 0 then None
     else Some (if k \<in> dom m then m(k \<mapsto> 0) else m, Done))"
| "table_spec_step cap m (Get k) = (if k = 0 then None
     else Some (m, Value (case m k of None \<Rightarrow> 0 | Some v \<Rightarrow> v)))"
| "table_spec_step cap m Size = Some (m, Count (card {k. \<exists>v. m k = Some v \<and> v \<noteq> 0}))"
| "table_spec_step cap m Clear = Some (Map.empty, Done)"

fun table_spec :: "nat \<Rightarrow> ('a::zero \<Rightarrow> 'a option) \<Rightarrow> 'a table_op list \<Rightarrow> 'a table_result list option" where
  "table_spec cap m [] = Some []"
| "table_spec cap m (x # ops) =
     do { (m, r) \<leftarrow> table_spec_step cap m x; rs \<leftarrow> table_spec cap m ops; Some (r # rs) }"

fun table_run :: "('t \<Rightarrow> 'a \<Rightarrow> 'a \<Rightarrow> ('t \<times> bool) option) \<Rightarrow> ('t \<Rightarrow> 'a \<Rightarrow> 't option) \<Rightarrow>
    ('t \<Rightarrow> 'a \<Rightarrow> 'a option) \<Rightarrow> ('t \<Rightarrow> nat) \<Rightarrow> ('t \<Rightarrow> 't) \<Rightarrow>
    't \<Rightarrow> 'a table_op list \<Rightarrow> 'a table_result list option" where
  "table_run st er ge si cl t [] = Some []"
| "table_run st er ge si cl t (Set k v # ops) =
     do { (t, b) \<leftarrow> st t k v; rs \<leftarrow> table_run st er ge si cl t ops; Some (Stored b # rs) }"
| "table_run st er ge si cl t (Erase k # ops) =
     do { t \<leftarrow> er t k; rs \<leftarrow> table_run st er ge si cl t ops; Some (Done # rs) }"
| "table_run st er ge si cl t (Get k # ops) =
     do { v \<leftarrow> ge t k; rs \<leftarrow> table_run st er ge si cl t ops; Some (Value v # rs) }"
| "table_run st er ge si cl t (Size # ops) =
     do { rs \<leftarrow> table_run st er ge si cl t ops; Some (Count (si t) # rs) }"
| "table_run st er ge si cl t (Clear # ops) =
     do { rs \<leftarrow> table_run st er ge si cl (cl t) ops; Some (Done # rs) }"

definition hashtable32_run :: "hashtable32_t \<Rightarrow> u32 table_op list \<Rightarrow> u32 table_result list option" where
  "hashtable32_run = table_run hashtable32_set hashtable32_erase hashtable32_get hashtable32_size hashtable32_clear"

definition hashtable64_run :: "hashtable64_t \<Rightarrow> u64 table_op list \<Rightarrow> u64 table_result list option" where
  "hashtable64_run = table_run hashtable64_set hashtable64_erase hashtable64_get hashtable64_size hashtable64_clear"

locale bounded_table =
  fixes invar :: "'t \<Rightarrow> bool"
    and abs :: "'t \<Rightarrow> 'a::zero \<Rightarrow> 'a option"
    and cap :: "'t \<Rightarrow> nat"
    and set_op :: "'t \<Rightarrow> 'a \<Rightarrow> 'a \<Rightarrow> ('t \<times> bool) option"
    and erase_op :: "'t \<Rightarrow> 'a \<Rightarrow> 't option"
    and get_op :: "'t \<Rightarrow> 'a \<Rightarrow> 'a option"
    and size_op :: "'t \<Rightarrow> nat"
    and clear_op :: "'t \<Rightarrow> 't"
  assumes zero_key: "set_op t 0 v = None" "erase_op t 0 = None" "get_op t 0 = None"
    and set_ok: "invar t \<Longrightarrow> k \<noteq> 0 \<Longrightarrow> k \<in> dom (abs t) \<or> card (dom (abs t)) < cap t \<Longrightarrow>
      \<exists>t'. set_op t k v = Some (t', True) \<and> invar t' \<and> abs t' = (abs t)(k \<mapsto> v) \<and> cap t' = cap t"
    and set_full: "invar t \<Longrightarrow> k \<noteq> 0 \<Longrightarrow> k \<notin> dom (abs t) \<Longrightarrow> \<not> card (dom (abs t)) < cap t \<Longrightarrow>
      set_op t k v = Some (t, False)"
    and erase_ok: "invar t \<Longrightarrow> k \<noteq> 0 \<Longrightarrow> \<exists>t'. erase_op t k = Some t' \<and> invar t' \<and> cap t' = cap t \<and>
      abs t' = (if k \<in> dom (abs t) then (abs t)(k \<mapsto> 0) else abs t)"
    and get_ok: "invar t \<Longrightarrow> k \<noteq> 0 \<Longrightarrow> get_op t k = Some (case abs t k of None \<Rightarrow> 0 | Some v \<Rightarrow> v)"
    and size_ok: "invar t \<Longrightarrow> size_op t = card {k. \<exists>v. abs t k = Some v \<and> v \<noteq> 0}"
    and clear_ok: "invar t \<Longrightarrow> invar (clear_op t) \<and> abs (clear_op t) = Map.empty \<and> cap (clear_op t) = cap t"
begin

lemma set_refines:
  assumes "invar t"
  shows "rel_option (\<lambda>(t', b) (m, r). invar t' \<and> cap t' = cap t \<and> abs t' = m \<and> r = Stored b)
    (set_op t k v) (table_spec_step (cap t) (abs t) (Set k v))"
proof (cases "k = 0")
  case False
  then show ?thesis
    using set_ok [OF assms False, of v] set_full [OF assms False, of v] assms
    by (cases "k \<in> dom (abs t) \<or> card (dom (abs t)) < cap t") (auto simp del: fun_upd_apply)
qed (simp add: zero_key)

lemma erase_refines:
  assumes "invar t"
  shows "rel_option (\<lambda>t' (m, r). invar t' \<and> cap t' = cap t \<and> abs t' = m \<and> r = Done)
    (erase_op t k) (table_spec_step (cap t) (abs t) (Erase k))"
proof (cases "k = 0")
  case False
  obtain t' where "erase_op t k = Some t'" "invar t'" "cap t' = cap t"
    "abs t' = (if k \<in> dom (abs t) then (abs t)(k \<mapsto> 0) else abs t)"
    using erase_ok [OF assms False] by (elim exE conjE)
  then show ?thesis using False by simp
qed (simp add: zero_key)

lemma get_refines:
  assumes "invar t"
  shows "map_option (\<lambda>v. (abs t, Value v)) (get_op t k) = table_spec_step (cap t) (abs t) (Get k)"
  using get_ok [OF assms, of k] by (cases "k = 0") (simp_all add: zero_key)

lemma run_refines:
  "invar t \<Longrightarrow> table_run set_op erase_op get_op size_op clear_op t ops = table_spec (cap t) (abs t) ops"
proof (induction ops arbitrary: t)
  case (Cons x ops)
  note rest = Cons.IH
  show ?case
  proof (cases x)
    case (Set k v)
    then show ?thesis
      using set_refines [OF Cons.prems, of k v] rest by (auto elim!: option.rel_cases simp del: table_spec_step.simps)
  next
    case (Erase k)
    then show ?thesis
      using erase_refines [OF Cons.prems, of k] rest by (auto elim!: option.rel_cases simp del: table_spec_step.simps)
  next
    case (Get k)
    then show ?thesis
      using get_refines [OF Cons.prems, of k, symmetric] rest [OF Cons.prems]
      by (cases "get_op t k") (simp_all del: table_spec_step.simps)
  next
    case Size
    then show ?thesis using size_ok [OF Cons.prems] rest [OF Cons.prems] by simp
  next
    case Clear
    then show ?thesis using clear_ok [OF Cons.prems] rest [of "clear_op t"] by simp
  qed
qed simp

end

section \<open>Both variants keep the contract\<close>

lemma ht_set_ok:
  assumes "ht_inv hash t" "key \<noteq> 0" "key \<in> dom (ht_abs t) \<or> card (dom (ht_abs t)) < ht_capacity t"
  shows "\<exists>t'. ht_set hash t key v = Some (t', True) \<and> ht_inv hash t' \<and>
    ht_abs t' = (ht_abs t)(key \<mapsto> v) \<and> ht_capacity t' = ht_capacity t"
proof -
  let ?e = "\<lparr>entry_key = key, entry_value = v\<rparr>"
  let ?h = "home hash t key"
  obtain j where find: "find (stop_at t key ?h) [0..<ht_capacity t] = Some j" and "j < ht_capacity t"
    and ok: "kat t (probe t ?h j) = key \<or> (kat t (probe t ?h j) = 0 \<and>
      (\<forall>l<ht_capacity t. kat t l \<noteq> key) \<and> (\<forall>l<j. kat t (probe t ?h l) \<noteq> 0))"
    using assms(1,2)
  proof (cases rule: ht_abs_cases)
    case absent
    have "\<exists>i<ht_capacity t. kat t i = 0" using assms(3) card_ht_abs [OF assms(1)] absent(1) by auto
    with assms(1) absent(2) show ?thesis by (cases rule: find_stop_absent) (use that absent(2) in blast)+
  next
    case (present i)
    then show ?thesis using find_stop_present [OF assms(1) present(1,2) assms(2)] that by metis
  qed
  have i: "probe t ?h j < ht_capacity t" using probe_less [OF ht_inv_pos [OF assms(1)]] .
  have inv': "ht_inv hash (t\<lparr>ht_entries := (ht_entries t)[probe t ?h j := ?e]\<rparr>)"
    using ht_inv_update [OF assms(1) i, of ?e] ok assms(2) \<open>j < ht_capacity t\<close> by auto
  show ?thesis
    using ht_set_find [OF assms(1,2), of v] find inv' ht_abs_update [OF assms(1) i _ inv'] ok assms(2)
    by auto
qed

lemma ht_set_full:
  assumes "ht_inv hash t" "key \<noteq> 0" "key \<notin> dom (ht_abs t)" "\<not> card (dom (ht_abs t)) < ht_capacity t"
  shows "ht_set hash t key v = Some (t, False)"
proof -
  have "\<forall>i<ht_capacity t. kat t i \<noteq> key" using assms ht_abs_None [OF assms(1,2)] by auto
  with assms(1) show ?thesis
  proof (cases rule: find_stop_absent)
    case (empty j)
    then show ?thesis
      using card_ht_abs [OF assms(1)] assms(4) probe_less [OF ht_inv_pos [OF assms(1)]] by blast
  next
    case full
    then show ?thesis using ht_set_find [OF assms(1,2)] by simp
  qed
qed

lemma ht_erase_ok:
  assumes "ht_inv hash t" "key \<noteq> 0"
  shows "\<exists>t'. ht_erase hash t key = Some t' \<and> ht_inv hash t' \<and> ht_capacity t' = ht_capacity t \<and>
    ht_abs t' = (if key \<in> dom (ht_abs t) then (ht_abs t)(key \<mapsto> 0) else ht_abs t)"
  using assms
proof (cases rule: ht_abs_cases)
  case absent
  then show ?thesis using ht_erase_eq(1) [OF assms] assms(1) by auto
next
  case (present i)
  let ?e = "(ht_entries t ! i)\<lparr>entry_value := 0\<rparr>"
  have e: "entry_key ?e = key" "entry_value ?e = 0" using present(2) by simp_all
  have inv': "ht_inv hash (t\<lparr>ht_entries := (ht_entries t)[i := ?e]\<rparr>)"
    by (rule ht_inv_update [OF assms(1) present(1)]) (use e present(2) assms(2) in simp_all)
  have "ht_abs (t\<lparr>ht_entries := (ht_entries t)[i := ?e]\<rparr>) = (ht_abs t)(key \<mapsto> 0)"
    using ht_abs_update [OF assms(1) present(1) _ inv'] e present(2) assms(2) by simp
  then show ?thesis using ht_erase_eq(2) [OF assms present(1,2)] inv' present(3) by (auto simp: domIff)
qed

lemma ht_bounded_table:
  "bounded_table (ht_inv hash) ht_abs ht_capacity (ht_set hash) (ht_erase hash) (ht_get hash) ht_size ht_clear"
  by unfold_locales
    (simp_all add: ht_set_ok ht_set_full ht_erase_ok ht_get_eq ht_size_eq ht_clear_eq ht_initialize_inv,
     simp_all add: ht_set_def ht_erase_def ht_get_def)

interpretation ht32: bounded_table "ht_inv hashtable32_hash" ht_abs ht_capacity
  hashtable32_set hashtable32_erase hashtable32_get hashtable32_size hashtable32_clear
  unfolding hashtable32_set_def hashtable32_erase_def hashtable32_get_def hashtable32_size_def
    hashtable32_clear_def by (rule ht_bounded_table)

interpretation ht64: bounded_table "ht_inv hashtable64_hash" ht_abs ht_capacity
  hashtable64_set hashtable64_erase hashtable64_get hashtable64_size hashtable64_clear
  unfolding hashtable64_set_def hashtable64_erase_def hashtable64_get_def hashtable64_size_def
    hashtable64_clear_def by (rule ht_bounded_table)

text \<open>
  C6. The 32-bit hash table is a map of bounded size: any sequence of stores, erasures, lookups,
  counts and clears on a fresh table of at least one slot gives the results of the same sequence
  on a partial function in which a store fails exactly when its key is new and every slot is
  claimed, and an erased key keeps its slot with value zero. The result is \<open>None\<close> exactly when
  an operation is called with key zero; in particular the probe loops end.
\<close>

theorem hashtable32_refines_map:
  assumes "0 < bucket_count"
  shows "hashtable32_run (hashtable32_allocate bucket_count) ops = table_spec bucket_count Map.empty ops"
  using ht32.run_refines [OF ht_initialize_inv [OF assms], of ops]
  by (simp add: hashtable32_run_def hashtable32_allocate_def hashtable32_initialize_def)

theorem hashtable32_refines_map_witness:
  "hashtable32_run (hashtable32_allocate 2) [Set 5 1, Set 9 2, Set 4 3, Erase 5, Set 4 3, Get 9] =
     Some [Stored True, Stored True, Stored False, Done, Stored False, Value 2]"
  using hashtable32_refines_map [of 2 "[Set 5 1, Set 9 2, Set 4 3, Erase 5, Set 4 3, Get 9]"] by simp

text \<open>
  The same for the 64-bit hash table.
\<close>

theorem hashtable64_refines_map:
  assumes "0 < bucket_count"
  shows "hashtable64_run (hashtable64_allocate bucket_count) ops = table_spec bucket_count Map.empty ops"
  using ht64.run_refines [OF ht_initialize_inv [OF assms], of ops]
  by (simp add: hashtable64_run_def hashtable64_allocate_def hashtable64_initialize_def)

theorem hashtable64_refines_map_witness:
  "hashtable64_run (hashtable64_allocate 3) [Set 5 1, Set 5 2, Erase 9, Get 5, Clear, Get 5] =
     Some [Stored True, Stored True, Done, Value 2, Done, Value 0]"
  using hashtable64_refines_map [of 3 "[Set 5 1, Set 5 2, Erase 9, Get 5, Clear, Get 5]"] by simp

end
