(* ===== verification/Objectmap.thy ===== *)
theory Objectmap
  imports Prelude
begin

text \<open>
  \<open>foundation/objectmap.c\<close> and \<open>objectmap.h\<close>: reference-counted objects behind 32-bit
  handles. A handle is a 10-bit tag over a 22-bit slot index; a slot holds the object pointer
  and a word with the tag over the reference count, and free slots are chained through their
  pointer fields. The operations are modelled as one thread executes them (the semaphore is
  free, a compare-and-swap succeeds at once). The floating-point computation of the number of
  index bits is a parameter.
\<close>

section \<open>State\<close>

definition OBJECTMAP_TAGMASK :: u32 where "OBJECTMAP_TAGMASK = 0x3ff"
definition OBJECTMAP_INDEXBITS :: nat where "OBJECTMAP_INDEXBITS = 22"
definition OBJECTMAP_INDEXMASK :: u32 where "OBJECTMAP_INDEXMASK = 0x3fffff"

type_synonym object_t = u32

record objectmap_entry_t =
  oe_ptr :: pointer
  oe_ref :: u32

record objectmap_t =
  om_free :: u32
  om_tag :: u32
  om_size :: u32
  om_autolink :: u32
  om_map :: "objectmap_entry_t list"

section \<open>Operations\<close>

text \<open>\<open>index_bits\<close> stands for \<open>math_round(math_log2(count) + 0.5)\<close>.\<close>

definition objectmap_initialize :: "(size_t \<Rightarrow> nat) \<Rightarrow> size_t \<Rightarrow> objectmap_t option" where
  "objectmap_initialize index_bits cnt =
     (let bits = index_bits cnt in
      do { c_assert (bits \<le> OBJECTMAP_INDEXBITS);
           let cnt = (if bits > OBJECTMAP_INDEXBITS then 2 ^ OBJECTMAP_INDEXBITS - 1 - 1 else cnt);
           Some \<lparr>om_free = 0, om_tag = 0, om_size = of_nat cnt, om_autolink = 0,
                 om_map = replicate cnt \<lparr>oe_ptr = 0, oe_ref = 0\<rparr>\<rparr> })"

definition objectmap_allocate :: "(size_t \<Rightarrow> nat) \<Rightarrow> size_t \<Rightarrow> objectmap_t option" where
  "objectmap_allocate index_bits cnt =
     (let cnt = (if cnt < 3 then 3 else cnt) in objectmap_initialize index_bits cnt)"

text \<open>Finalizing reports a leak when a slot below both limits is still in use.\<close>

definition objectmap_finalize :: "objectmap_t \<Rightarrow> bool" where
  "objectmap_finalize m =
     list_ex (\<lambda>i. oe_ref (om_map m ! i) \<noteq> 0) [0..<min (unat (om_size m)) (unat (om_autolink m))]"

definition objectmap_size :: "objectmap_t \<Rightarrow> size_t" where
  "objectmap_size m = unat (om_size m)"

definition objectmap_raw_lookup :: "objectmap_t \<Rightarrow> size_t \<Rightarrow> pointer option" where
  "objectmap_raw_lookup m idx =
     do { entry \<leftarrow> mem_get (om_map m) idx;
          Some (if oe_ref entry \<noteq> 0 then oe_ptr entry else 0) }"

definition objectmap_raw_id :: "objectmap_t \<Rightarrow> size_t \<Rightarrow> object_t option" where
  "objectmap_raw_id m idx =
     do { entry \<leftarrow> mem_get (om_map m) idx;
          Some (if oe_ref entry \<noteq> 0 then (oe_ref entry AND NOT OBJECTMAP_INDEXMASK) OR of_nat idx else 0) }"

lemma tag_zero_succ:
  assumes "(x :: u32) AND OBJECTMAP_TAGMASK = 0"
  shows "(x + 1) AND OBJECTMAP_TAGMASK \<noteq> 0"
proof -
  have "bit OBJECTMAP_TAGMASK 0" by (simp add: OBJECTMAP_TAGMASK_def)
  then have "\<not> bit x 0" using arg_cong [OF assms, of "\<lambda>w. bit w 0"] by (simp add: bit_and_iff)
  then have "bit (x + 1) 0" by (simp add: bit_0)
  then have "bit ((x + 1) AND OBJECTMAP_TAGMASK) 0"
    using \<open>bit OBJECTMAP_TAGMASK 0\<close> by (simp add: bit_and_iff)
  then show ?thesis by auto
qed

lemma tag_zero_succ2:
  "(x :: u32) + 1 AND OBJECTMAP_TAGMASK = 0 \<Longrightarrow> 2 + x AND OBJECTMAP_TAGMASK \<noteq> 0"
  using tag_zero_succ [of "x + 1"] by (simp add: algebra_simps)

text \<open>The tag counter skips zero, so the loop runs at most twice.\<close>

function objectmap_next_tag :: "objectmap_t \<Rightarrow> objectmap_t \<times> u32" where
  "objectmap_next_tag m =
     (let m = m\<lparr>om_tag := om_tag m + 1\<rparr>; tag = om_tag m AND OBJECTMAP_TAGMASK
      in if tag = 0 then objectmap_next_tag m else (m, tag))"
  by pat_completeness auto
termination
  by (relation "measure (\<lambda>m. if (om_tag m + 1) AND OBJECTMAP_TAGMASK = 0 then 1 else 0)")
    (use tag_zero_succ2 in auto)

declare objectmap_next_tag.simps [simp del]

definition objectmap_reserve :: "objectmap_t \<Rightarrow> (objectmap_t \<times> object_t) option" where
  "objectmap_reserve m =
     (let idx = om_free m in
      if idx \<ge> om_size m then Some (m, 0)
      else do {
        c_assert (oe_ref (om_map m ! unat idx) = 0);
        let (m, next) = (if idx \<ge> om_autolink m
             then let m = m\<lparr>om_autolink := om_autolink m + 1\<rparr> in (m, om_autolink m)
             else (m, ucast (oe_ptr (om_map m ! unat idx)) AND OBJECTMAP_INDEXMASK));
        let m = m\<lparr>om_free := next\<rparr>;
        let m = m\<lparr>om_map := (om_map m)[unat idx := (om_map m ! unat idx)\<lparr>oe_ptr := 0\<rparr>]\<rparr>;
        let (m, tag) = objectmap_next_tag m;
        let tagshifted = push_bit OBJECTMAP_INDEXBITS tag;
        let m = m\<lparr>om_map := (om_map m)[unat idx := (om_map m ! unat idx)\<lparr>oe_ref := tagshifted\<rparr>]\<rparr>;
        Some (m, tagshifted OR idx) })"

definition objectmap_free :: "objectmap_t \<Rightarrow> object_t \<Rightarrow> objectmap_t \<times> bool" where
  "objectmap_free m oid =
     (let idx = oid AND OBJECTMAP_INDEXMASK; tag = drop_bit OBJECTMAP_INDEXBITS oid in
      if idx \<ge> om_size m then (m, False)
      else let ref = oe_ref (om_map m ! unat idx); reftag = drop_bit OBJECTMAP_INDEXBITS ref in
        if tag \<noteq> reftag then (m, False)
        else let next = om_free m; m = m\<lparr>om_free := idx\<rparr>;
                 m = m\<lparr>om_map := (om_map m)[unat idx := (om_map m ! unat idx)\<lparr>oe_ptr := ucast next\<rparr>]\<rparr>;
                 m = m\<lparr>om_map := (om_map m)[unat idx := (om_map m ! unat idx)\<lparr>oe_ref := 0\<rparr>]\<rparr>
             in (m, True))"

definition objectmap_set :: "objectmap_t \<Rightarrow> object_t \<Rightarrow> pointer \<Rightarrow> objectmap_t \<times> bool" where
  "objectmap_set m oid obj =
     (let idx = oid AND OBJECTMAP_INDEXMASK; tag = oid AND NOT OBJECTMAP_INDEXMASK in
      if idx \<ge> om_size m then (m, False)
      else let reftag = oe_ref (om_map m ! unat idx) in
        if oe_ptr (om_map m ! unat idx) = 0 \<and> tag = reftag
        then let m = m\<lparr>om_map := (om_map m)[unat idx := (om_map m ! unat idx)\<lparr>oe_ptr := obj\<rparr>]\<rparr>;
                 m = m\<lparr>om_map := (om_map m)[unat idx := (om_map m ! unat idx)\<lparr>oe_ref := reftag OR 1\<rparr>]\<rparr>
             in (m, True)
        else (m, False))"

definition objectmap_lookup :: "objectmap_t \<Rightarrow> object_t \<Rightarrow> pointer" where
  "objectmap_lookup m oid =
     (let idx = oid AND OBJECTMAP_INDEXMASK; tag = drop_bit OBJECTMAP_INDEXBITS oid in
      if idx \<ge> om_size m then 0
      else let ref = oe_ref (om_map m ! unat idx);
               refcount = ref AND OBJECTMAP_INDEXMASK; reftag = drop_bit OBJECTMAP_INDEXBITS ref in
        if tag = reftag \<and> refcount \<noteq> 0 then oe_ptr (om_map m ! unat idx) else 0)"

definition objectmap_acquire :: "objectmap_t \<Rightarrow> object_t \<Rightarrow> objectmap_t \<times> pointer" where
  "objectmap_acquire m oid =
     (let idx = oid AND OBJECTMAP_INDEXMASK; tag = drop_bit OBJECTMAP_INDEXBITS oid in
      if idx \<ge> om_size m then (m, 0)
      else let ref = oe_ref (om_map m ! unat idx);
               refcount = ref AND OBJECTMAP_INDEXMASK; reftag = drop_bit OBJECTMAP_INDEXBITS ref in
        if tag = reftag \<and> refcount \<noteq> 0
        then let newref = push_bit OBJECTMAP_INDEXBITS reftag OR (refcount + 1);
                 m = m\<lparr>om_map := (om_map m)[unat idx := (om_map m ! unat idx)\<lparr>oe_ref := newref\<rparr>]\<rparr>
             in (m, oe_ptr (om_map m ! unat idx))
        else (m, 0))"

text \<open>The last component is the list of pointers the deallocation callback is called with.\<close>

definition objectmap_release :: "objectmap_t \<Rightarrow> object_t \<Rightarrow> objectmap_t \<times> bool \<times> pointer list" where
  "objectmap_release m oid =
     (let idx = oid AND OBJECTMAP_INDEXMASK; tag = drop_bit OBJECTMAP_INDEXBITS oid in
      if idx \<ge> om_size m then (m, False, [])
      else let ref = oe_ref (om_map m ! unat idx);
               refcount = ref AND OBJECTMAP_INDEXMASK; reftag = drop_bit OBJECTMAP_INDEXBITS ref in
        if tag = reftag \<and> refcount \<noteq> 0
        then let newref = push_bit OBJECTMAP_INDEXBITS reftag OR (refcount - 1);
                 m = m\<lparr>om_map := (om_map m)[unat idx := (om_map m ! unat idx)\<lparr>oe_ref := newref\<rparr>]\<rparr>
             in if refcount = 1
                then let freed = oe_ptr (om_map m ! unat idx); (m, b) = objectmap_free m oid
                     in (m, True, [freed])
                else (m, True, [])
        else (m, False, []))"

section \<open>Handles and reference words\<close>

definition slot_of :: "u32 \<Rightarrow> nat" where "slot_of oid = unat (oid AND OBJECTMAP_INDEXMASK)"
definition tag_of :: "u32 \<Rightarrow> u32" where "tag_of oid = drop_bit OBJECTMAP_INDEXBITS oid"
definition count_of :: "u32 \<Rightarrow> u32" where "count_of ref = ref AND OBJECTMAP_INDEXMASK"
definition pack :: "u32 \<Rightarrow> u32 \<Rightarrow> u32" where "pack tag c = push_bit OBJECTMAP_INDEXBITS tag OR c"

lemma INDEXMASK_mask: "OBJECTMAP_INDEXMASK = mask OBJECTMAP_INDEXBITS"
  by (simp add: OBJECTMAP_INDEXMASK_def OBJECTMAP_INDEXBITS_def mask_eq_exp_minus_1)

lemma TAGMASK_mask: "OBJECTMAP_TAGMASK = mask 10"
  by (simp add: OBJECTMAP_TAGMASK_def mask_eq_exp_minus_1)

lemma count_of_take_bit: "count_of w = take_bit OBJECTMAP_INDEXBITS w"
  by (simp add: count_of_def INDEXMASK_mask take_bit_eq_mask)

lemma pack_parts [simp]: "pack (tag_of w) (count_of w) = w"
  by (rule bit_eqI)
    (auto simp: pack_def tag_of_def count_of_take_bit bit_simps OBJECTMAP_INDEXBITS_def)

lemma tag_of_pack:
  assumes "take_bit 10 t = t" "take_bit 22 c = c"
  shows "tag_of (pack t c) = t"
proof (rule bit_eqI)
  fix n assume "possible_bit TYPE(u32) n"
  have "bit t n \<Longrightarrow> n < 10" by (metis assms(1) bit_take_bit_iff)
  moreover have "\<not> bit c (n + 22)" by (metis assms(2) bit_take_bit_iff not_add_less2)
  ultimately show "bit (tag_of (pack t c)) n = bit t n"
    by (auto simp: pack_def tag_of_def bit_simps OBJECTMAP_INDEXBITS_def add.commute)
qed

lemma count_of_pack:
  assumes "take_bit 22 c = c"
  shows "count_of (pack t c) = c"
proof (rule bit_eqI)
  fix n assume "possible_bit TYPE(u32) n"
  have "bit c n \<Longrightarrow> n < 22" by (metis assms bit_take_bit_iff)
  then show "bit (count_of (pack t c)) n = bit c n"
    by (auto simp: pack_def count_of_take_bit bit_simps OBJECTMAP_INDEXBITS_def)
qed

lemma unat_less_take_bit: "unat (c :: u32) < 2 ^ 22 \<Longrightarrow> take_bit 22 c = c"
  by (rule word_unat_eq_iff [THEN iffD2]) (simp add: unsigned_take_bit_eq take_bit_nat_eq_self)

lemma count_of_less: "unat (count_of w) < 2 ^ 22"
proof -
  have "unat (count_of w) = take_bit 22 (unat w)"
    by (simp add: count_of_take_bit OBJECTMAP_INDEXBITS_def unsigned_take_bit_eq)
  then show ?thesis using take_bit_nat_less_exp [of 22 "unat w"] by simp
qed

lemma slot_of_count_of: "slot_of w = unat (count_of w)"
  by (simp add: slot_of_def count_of_def)

lemma next_tag:
  assumes "objectmap_next_tag m = (m', tag)"
  shows "tag \<noteq> 0 \<and> take_bit 10 tag = tag \<and> (\<exists>t. m' = m\<lparr>om_tag := t\<rparr>)"
  using assms
proof (induction m rule: objectmap_next_tag.induct)
  case (1 m)
  show ?case
  proof (cases "(om_tag m + 1) AND OBJECTMAP_TAGMASK = 0")
    case True
    then have "objectmap_next_tag (m\<lparr>om_tag := om_tag m + 1\<rparr>) = (m', tag)"
      using 1(2) by (subst (asm) objectmap_next_tag.simps) (simp add: Let_def)
    then show ?thesis using 1(1) True by fastforce
  next
    case False
    then have "m' = m\<lparr>om_tag := om_tag m + 1\<rparr>" "tag = (om_tag m + 1) AND OBJECTMAP_TAGMASK"
      using 1(2) by (auto simp: objectmap_next_tag.simps [of m] Let_def)
    then show ?thesis using False by (auto simp: TAGMASK_mask take_bit_eq_mask)
  qed
qed

lemma slot_of_pack:
  assumes "unat c < 2 ^ 22" shows "slot_of (pack t c) = unat c"
  using assms by (simp add: slot_of_count_of count_of_pack unat_less_take_bit)

lemma handle_eqI: "slot_of a = slot_of b \<Longrightarrow> tag_of a = tag_of b \<Longrightarrow> a = b"
  by (metis pack_parts slot_of_count_of word_unat_eq_iff)

section \<open>Invariant and abstraction\<close>

fun chain :: "objectmap_entry_t list \<Rightarrow> u32 \<Rightarrow> u32 \<Rightarrow> nat list \<Rightarrow> bool" where
  "chain es al i [] \<longleftrightarrow> i = al"
| "chain es al i (f # fs) \<longleftrightarrow> unat i = f \<and> i < al \<and>
     chain es al (ucast (oe_ptr (es ! f)) AND OBJECTMAP_INDEXMASK) fs"

lemma chain_cong: "\<forall>f \<in> set fs. es' ! f = es ! f \<Longrightarrow> chain es' al i fs = chain es al i fs"
  by (induction fs arbitrary: i) auto

text \<open>
  The free list runs through exactly the free slots below \<open>autolink\<close> and ends there; the
  slots from \<open>autolink\<close> on are free and not linked; a slot in use has a non-zero tag.
\<close>

definition om_inv :: "objectmap_t \<Rightarrow> bool" where
  "om_inv m \<longleftrightarrow> length (om_map m) = unat (om_size m) \<and> unat (om_size m) < 2 ^ 22 \<and>
     om_autolink m \<le> om_size m \<and>
     (\<exists>fs. chain (om_map m) (om_autolink m) (om_free m) fs \<and> distinct fs \<and>
        set fs = {i. i < unat (om_autolink m) \<and> oe_ref (om_map m ! i) = 0}) \<and>
     (\<forall>i. unat (om_autolink m) \<le> i \<and> i < unat (om_size m) \<longrightarrow> oe_ref (om_map m ! i) = 0) \<and>
     (\<forall>i < unat (om_size m). oe_ref (om_map m ! i) \<noteq> 0 \<longrightarrow> tag_of (oe_ref (om_map m ! i)) \<noteq> 0)"

text \<open>The live handles, with their object and reference count (zero while only reserved).\<close>

definition om_abs :: "objectmap_t \<Rightarrow> object_t \<Rightarrow> (pointer \<times> nat) option" where
  "om_abs m oid = (if slot_of oid < unat (om_size m) \<and> tag_of oid \<noteq> 0 \<and>
       tag_of (oe_ref (om_map m ! slot_of oid)) = tag_of oid
     then Some (oe_ptr (om_map m ! slot_of oid), unat (count_of (oe_ref (om_map m ! slot_of oid))))
     else None)"

lemma tag_of_zero [simp]: "tag_of 0 = 0" "count_of 0 = 0"
  by (simp_all add: tag_of_def count_of_def)

lemma om_abs_update:
  assumes "om_inv m" "i < unat (om_size m)"
    and "om_size m' = om_size m" "om_map m' = (om_map m)[i := e]"
  shows "om_abs m' oid = (if slot_of oid = i
    then if tag_of oid \<noteq> 0 \<and> tag_of (oe_ref e) = tag_of oid
         then Some (oe_ptr e, unat (count_of (oe_ref e))) else None
    else om_abs m oid)"
  using assms by (simp add: om_abs_def om_inv_def)

lemma om_abs_update_live:
  assumes "om_inv m" "slot_of oid < unat (om_size m)" "tag_of oid \<noteq> 0"
    and "tag_of (oe_ref e) = tag_of oid" "om_abs m oid \<noteq> None"
    and "om_size m' = om_size m" "om_map m' = (om_map m)[slot_of oid := e]"
  shows "om_abs m' = (om_abs m)(oid \<mapsto> (oe_ptr e, unat (count_of (oe_ref e))))"
proof
  fix k
  have "om_abs m k = None" if "slot_of k = slot_of oid" "k \<noteq> oid"
    using assms(5) that handle_eqI [of k oid] by (auto simp: om_abs_def split: if_splits)
  then show "om_abs m' k = ((om_abs m)(oid \<mapsto> (oe_ptr e, unat (count_of (oe_ref e))))) k"
    using om_abs_update [OF assms(1,2,6,7), of k] assms(3,4) handle_eqI [of k oid] by auto
qed

lemma om_abs_update_free:
  assumes "om_inv m" "slot_of oid < unat (om_size m)" "om_abs m oid \<noteq> None"
    and "oe_ref e = 0" "om_size m' = om_size m" "om_map m' = (om_map m)[slot_of oid := e]"
  shows "om_abs m' = (om_abs m)(oid := None)"
proof
  fix k
  have "om_abs m k = None" if "slot_of k = slot_of oid" "k \<noteq> oid"
    using assms(3) that handle_eqI [of k oid] by (auto simp: om_abs_def split: if_splits)
  then show "om_abs m' k = ((om_abs m)(oid := None)) k"
    using om_abs_update [OF assms(1,2,5,6), of k] assms(4) by auto
qed

text \<open>Changing a slot in use without freeing it keeps the invariant.\<close>

lemma om_inv_update_live:
  assumes inv: "om_inv m" and i: "i < unat (om_size m)"
    and live: "oe_ref (om_map m ! i) \<noteq> 0" and e: "tag_of (oe_ref e) \<noteq> 0"
  shows "om_inv (m\<lparr>om_map := (om_map m)[i := e]\<rparr>)"
proof -
  let ?es = "(om_map m)[i := e]"
  have len: "length (om_map m) = unat (om_size m)" using inv by (simp add: om_inv_def)
  have nz: "oe_ref e \<noteq> 0" using e by auto
  have at: "oe_ref (?es ! k) = 0 \<longleftrightarrow> oe_ref (om_map m ! k) = 0" if "k < unat (om_size m)" for k
    using that len live nz by (cases "k = i") simp_all
  obtain fs where fs: "chain (om_map m) (om_autolink m) (om_free m) fs" "distinct fs"
    "set fs = {i. i < unat (om_autolink m) \<and> oe_ref (om_map m ! i) = 0}"
    using inv unfolding om_inv_def by blast
  have al: "om_autolink m \<le> om_size m" using inv unfolding om_inv_def by blast
  then have "unat (om_autolink m) \<le> unat (om_size m)" by (simp add: word_le_nat_alt)
  then have "set fs = {i. i < unat (om_autolink m) \<and> oe_ref (?es ! i) = 0}"
    using fs(3) at by fastforce
  moreover have "chain ?es (om_autolink m) (om_free m) fs"
    using fs(1,3) live chain_cong [of fs ?es "om_map m"] by (metis (mono_tags, lifting) mem_Collect_eq nth_list_update_neq)
  moreover have "tag_of (oe_ref (?es ! k)) \<noteq> 0" if "k < unat (om_size m)" "oe_ref (?es ! k) \<noteq> 0" for k
    using that inv e at len by (cases "k = i") (simp_all add: om_inv_def)
  moreover have "oe_ref (?es ! k) = 0" if "unat (om_autolink m) \<le> k \<and> k < unat (om_size m)" for k
    using that inv at unfolding om_inv_def by blast
  ultimately show ?thesis
    using inv fs(2) unfolding om_inv_def by auto
qed

lemma om_inv_facts:
  assumes "om_inv m"
  shows "length (om_map m) = unat (om_size m)" "unat (om_size m) < 2 ^ 22"
    "unat (om_autolink m) \<le> unat (om_size m)"
    "unat (om_autolink m) \<le> i \<Longrightarrow> i < unat (om_size m) \<Longrightarrow> oe_ref (om_map m ! i) = 0"
    "i < unat (om_size m) \<Longrightarrow> oe_ref (om_map m ! i) \<noteq> 0 \<Longrightarrow> tag_of (oe_ref (om_map m ! i)) \<noteq> 0"
  using assms unfolding om_inv_def by (auto simp: word_le_nat_alt)

lemma om_inv_chain:
  assumes "om_inv m"
  obtains fs where "chain (om_map m) (om_autolink m) (om_free m) fs" "distinct fs"
    "set fs = {i. i < unat (om_autolink m) \<and> oe_ref (om_map m ! i) = 0}"
  using assms unfolding om_inv_def by blast

lemma om_invI:
  assumes "length (om_map m) = unat (om_size m)" "unat (om_size m) < 2 ^ 22"
    "unat (om_autolink m) \<le> unat (om_size m)"
    "chain (om_map m) (om_autolink m) (om_free m) fs" "distinct fs"
    "set fs = {i. i < unat (om_autolink m) \<and> oe_ref (om_map m ! i) = 0}"
    "\<And>i. unat (om_autolink m) \<le> i \<Longrightarrow> i < unat (om_size m) \<Longrightarrow> oe_ref (om_map m ! i) = 0"
    "\<And>i. i < unat (om_size m) \<Longrightarrow> oe_ref (om_map m ! i) \<noteq> 0 \<Longrightarrow> tag_of (oe_ref (om_map m ! i)) \<noteq> 0"
  shows "om_inv m"
  unfolding om_inv_def using assms by (simp add: word_le_nat_alt) blast

text \<open>Reserving takes the head of the free list, or the slot at \<open>autolink\<close> when it is empty.\<close>

definition om_claimed :: "objectmap_t \<Rightarrow> u32 \<Rightarrow> objectmap_t" where
  "om_claimed m tag =
     (let idx = om_free m; fresh = om_autolink m \<le> idx
      in m\<lparr>om_autolink := (if fresh then om_autolink m + 1 else om_autolink m),
            om_free := (if fresh then om_autolink m + 1
              else ucast (oe_ptr (om_map m ! unat idx)) AND OBJECTMAP_INDEXMASK),
            om_map := (om_map m)[unat idx := \<lparr>oe_ptr = 0, oe_ref = pack tag 0\<rparr>]\<rparr>)"

lemma om_free_slot:
  assumes "om_inv m" "om_free m < om_size m"
  shows "oe_ref (om_map m ! unat (om_free m)) = 0"
proof -
  obtain fs where fs: "chain (om_map m) (om_autolink m) (om_free m) fs"
    "set fs = {i. i < unat (om_autolink m) \<and> oe_ref (om_map m ! i) = 0}"
    by (rule om_inv_chain [OF assms(1)])
  show ?thesis
  proof (cases fs)
    case Nil
    then show ?thesis
      using fs(1) om_inv_facts(4) [OF assms(1), of "unat (om_free m)"] assms(2)
      by (simp add: word_less_nat_alt)
  next
    case (Cons f fs')
    then have "unat (om_free m) \<in> set fs" using fs(1) by simp
    then show ?thesis unfolding fs(2) by simp
  qed
qed

lemma entry_update [simp]: "e\<lparr>oe_ptr := p, oe_ref := r\<rparr> = \<lparr>oe_ptr = p, oe_ref = r\<rparr>"
  by (cases e) simp

lemma objectmap_reserve_claimed:
  assumes "om_inv m" "om_free m < om_size m"
  obtains tag t where "objectmap_reserve m = Some ((om_claimed m tag)\<lparr>om_tag := t\<rparr>, pack tag (om_free m))"
    "tag \<noteq> 0" "take_bit 10 tag = tag"
proof -
  have len: "unat (om_free m) < length (om_map m)"
    using assms om_inv_facts(1) [OF assms(1)] by (simp add: word_less_nat_alt)
  let ?m = "(om_claimed m 0)\<lparr>om_map := (om_map m)[unat (om_free m) :=
    (om_map m ! unat (om_free m))\<lparr>oe_ptr := 0\<rparr>]\<rparr>"
  obtain m' tag where nt: "objectmap_next_tag ?m = (m', tag)" by fastforce
  then obtain t where t: "tag \<noteq> 0" "take_bit 10 tag = tag" "m' = ?m\<lparr>om_tag := t\<rparr>"
    using next_tag by blast
  have "objectmap_reserve m = Some ((om_claimed m tag)\<lparr>om_tag := t\<rparr>, pack tag (om_free m))"
    using assms(2) om_free_slot [OF assms] nt len unfolding t(3)
    by (auto simp: objectmap_reserve_def om_claimed_def Let_def pack_def intro!: objectmap_t.equality)
  then show ?thesis using that t by blast
qed

lemma om_claimed_inv:
  assumes inv: "om_inv m" and free: "om_free m < om_size m" and tag: "tag \<noteq> 0" "take_bit 10 tag = tag"
  shows "om_inv ((om_claimed m tag)\<lparr>om_tag := t\<rparr>)"
proof -
  let ?i = "unat (om_free m)" and ?e = "\<lparr>oe_ptr = 0, oe_ref = pack tag 0\<rparr>"
  let ?es = "(om_map m)[?i := ?e]"
  note facts = om_inv_facts [OF inv]
  have i: "?i < unat (om_size m)" using free by (simp add: word_less_nat_alt)
  have etag: "tag_of (pack tag 0) = tag" using tag(2) by (simp add: tag_of_pack)
  then have enz: "pack tag 0 \<noteq> 0" using tag(1) by auto
  have at: "?es ! k = (if k = ?i then ?e else om_map m ! k)" if "k < unat (om_size m)" for k
    using that facts(1) i by simp
  have tags: "tag_of (oe_ref (?es ! k)) \<noteq> 0" if "k < unat (om_size m)" "oe_ref (?es ! k) \<noteq> 0" for k
    using that at [OF that(1)] facts(5) [of k] etag tag(1) by auto
  obtain fs where fs: "chain (om_map m) (om_autolink m) (om_free m) fs" "distinct fs"
    "set fs = {i. i < unat (om_autolink m) \<and> oe_ref (om_map m ! i) = 0}"
    by (rule om_inv_chain [OF inv])
  show ?thesis
  proof (cases fs)
    case Nil
    then have al: "om_free m = om_autolink m" using fs(1) by simp
    have suc: "unat (om_autolink m + 1) = Suc ?i"
      using i facts(2) al by (simp add: unat_word_ariths)
    show ?thesis
    proof (rule om_invI [of _ "[]"], goal_cases)
      case 6
      have "oe_ref (?es ! k) \<noteq> 0" if "k < Suc ?i" for k
        using that at [of k] i enz fs(3) Nil al by (cases "k = ?i") auto
      then show ?case using al suc by (auto simp: om_claimed_def Let_def)
    next
      case (7 k)
      then show ?case using al suc at [of k] facts(4) [of k] by (auto simp: om_claimed_def Let_def)
    qed (use facts suc al i tags in \<open>auto simp: om_claimed_def Let_def\<close>)
  next
    case (Cons f fs')
    then have f: "f = ?i" "om_free m < om_autolink m" "?i \<notin> set fs'" using fs(1,2) by auto
    have le: "unat (om_autolink m) \<le> unat (om_size m)" by (rule facts(3))
    have "chain ?es (om_autolink m) (ucast (oe_ptr (om_map m ! ?i)) AND OBJECTMAP_INDEXMASK) fs'"
      using fs(1) Cons f chain_cong [of fs' ?es "om_map m"] by (auto intro!: nth_list_update_neq)
    moreover have "set fs' = {i. i < unat (om_autolink m) \<and> oe_ref (?es ! i) = 0}"
    proof -
      have "set fs' = set fs - {?i}" using Cons f fs(2) by auto
      also have "\<dots> = {i. i < unat (om_autolink m) \<and> oe_ref (?es ! i) = 0}"
        unfolding fs(3)
      proof (rule set_eqI)
        fix k
        show "k \<in> {i. i < unat (om_autolink m) \<and> oe_ref (om_map m ! i) = 0} - {?i} \<longleftrightarrow>
          k \<in> {i. i < unat (om_autolink m) \<and> oe_ref (?es ! i) = 0}"
          using at [of k] le enz by (cases "k < unat (om_autolink m)") auto
      qed
      finally show ?thesis .
    qed
    moreover have "oe_ref (?es ! k) = 0" if "unat (om_autolink m) \<le> k" "k < unat (om_size m)" for k
      using that at [of k] facts(4) [of k] f(2) by (auto simp: word_less_nat_alt)
    moreover have "(om_claimed m tag)\<lparr>om_tag := t\<rparr> =
        m\<lparr>om_free := ucast (oe_ptr (om_map m ! ?i)) AND OBJECTMAP_INDEXMASK, om_map := ?es, om_tag := t\<rparr>"
      using f(2) by (simp add: om_claimed_def Let_def not_le [symmetric])
    moreover have "distinct fs'" using fs(2) Cons by simp
    ultimately show ?thesis
      using facts(1-3) tags by (intro om_invI [of _ fs']) simp_all
  qed
qed

text \<open>Freeing a slot in use puts it at the head of the free list.\<close>

lemma ucast_link: "(ucast (ucast (w :: u32) :: u64) :: u32) = w"
  by (rule bit_eqI) (auto simp: bit_simps dest: bit_imp_le_length)

lemma om_inv_freed:
  assumes inv: "om_inv m" and i: "unat idx < unat (om_size m)" and live: "oe_ref (om_map m ! unat idx) \<noteq> 0"
  shows "om_inv (m\<lparr>om_free := idx, om_map := (om_map m)[unat idx := \<lparr>oe_ptr = ucast (om_free m), oe_ref = 0\<rparr>]\<rparr>)"
proof -
  let ?e = "\<lparr>oe_ptr = ucast (om_free m), oe_ref = 0\<rparr>"
  let ?es = "(om_map m)[unat idx := ?e]"
  note facts = om_inv_facts [OF inv]
  obtain fs where fs: "chain (om_map m) (om_autolink m) (om_free m) fs" "distinct fs"
    "set fs = {i. i < unat (om_autolink m) \<and> oe_ref (om_map m ! i) = 0}"
    by (rule om_inv_chain [OF inv])
  have idx: "unat idx < unat (om_autolink m)" using facts(4) [of "unat idx"] i live by force
  have new: "unat idx \<notin> set fs" unfolding fs(3) using live by simp
  have at: "?es ! k = (if k = unat idx then ?e else om_map m ! k)" if "k < unat (om_size m)" for k
    using that facts(1) i by simp
  have "om_free m \<le> om_autolink m" using fs(1) by (cases fs) auto
  then have "unat (om_free m) < 2 ^ 22" using facts(2,3) by (simp add: word_le_nat_alt)
  then have link: "ucast (oe_ptr ?e) AND OBJECTMAP_INDEXMASK = om_free m"
    using unat_less_take_bit [of "om_free m"]
    by (simp add: ucast_link INDEXMASK_mask OBJECTMAP_INDEXBITS_def flip: take_bit_eq_mask)
  have "chain ?es (om_autolink m) idx (unat idx # fs)"
    using fs(1) chain_cong [of fs ?es "om_map m"] new link idx at [OF i]
    by (auto simp: word_less_nat_alt intro!: nth_list_update_neq)
  moreover have "set (unat idx # fs) = {i. i < unat (om_autolink m) \<and> oe_ref (?es ! i) = 0}"
  proof (rule set_eqI)
    fix k
    show "k \<in> set (unat idx # fs) \<longleftrightarrow> k \<in> {i. i < unat (om_autolink m) \<and> oe_ref (?es ! i) = 0}"
      using at [of k] facts(3) idx by (cases "k < unat (om_autolink m)") (auto simp: fs(3))
  qed
  moreover have "oe_ref (?es ! k) = 0" if "unat (om_autolink m) \<le> k" "k < unat (om_size m)" for k
    using that at [of k] facts(4) [of k] by simp
  moreover have "tag_of (oe_ref (?es ! k)) \<noteq> 0" if "k < unat (om_size m)" "oe_ref (?es ! k) \<noteq> 0" for k
    using that at [of k] facts(5) [of k] by (cases "k = unat idx") simp_all
  ultimately show ?thesis
    using facts(1-3) fs(2) new by (intro om_invI [of _ "unat idx # fs"]) simp_all
qed

lemma om_abs_SomeD:
  assumes "om_inv m" "om_abs m oid = Some (p, c)"
  shows "slot_of oid < unat (om_size m)" "tag_of oid \<noteq> 0"
    "om_map m ! slot_of oid = \<lparr>oe_ptr = p, oe_ref = pack (tag_of oid) (of_nat c)\<rparr>"
    "tag_of (oe_ref (om_map m ! slot_of oid)) = tag_of oid" "oe_ref (om_map m ! slot_of oid) \<noteq> 0"
    "count_of (oe_ref (om_map m ! slot_of oid)) = of_nat c" "c < 2 ^ 22" "oe_ptr (om_map m ! slot_of oid) = p"
proof -
  let ?e = "om_map m ! slot_of oid"
  have *: "slot_of oid < unat (om_size m)" "tag_of oid \<noteq> 0" "tag_of (oe_ref ?e) = tag_of oid"
    "p = oe_ptr ?e" "c = unat (count_of (oe_ref ?e))"
    using assms(2) by (auto simp: om_abs_def split: if_splits)
  then show "slot_of oid < unat (om_size m)" "tag_of oid \<noteq> 0" "tag_of (oe_ref ?e) = tag_of oid"
    "oe_ptr ?e = p" "c < 2 ^ 22" "count_of (oe_ref ?e) = of_nat c"
    using count_of_less by auto
  show "oe_ref ?e \<noteq> 0" using * by auto
  have "pack (tag_of oid) (of_nat c) = oe_ref ?e" using * pack_parts [of "oe_ref ?e"] by simp
  then show "?e = \<lparr>oe_ptr = p, oe_ref = pack (tag_of oid) (of_nat c)\<rparr>" using * by (cases ?e) simp
qed

lemma om_abs_NoneD:
  assumes "om_abs m oid = None" "slot_of oid < unat (om_size m)" "tag_of oid \<noteq> 0"
  shows "tag_of (oe_ref (om_map m ! slot_of oid)) \<noteq> tag_of oid"
  using assms by (auto simp: om_abs_def split: if_splits)

lemma guard_slot: "om_size m \<le> count_of oid \<longleftrightarrow> \<not> slot_of oid < unat (om_size m)"
  by (auto simp: slot_of_count_of word_le_nat_alt)

lemmas op_unfold = Let_def tag_of_def [symmetric] count_of_def [symmetric] guard_slot
  slot_of_count_of [symmetric] pack_def [symmetric]

lemma objectmap_free_spec:
  assumes "om_inv m" "tag_of oid \<noteq> 0"
  shows "om_inv (fst (objectmap_free m oid)) \<and> om_size (fst (objectmap_free m oid)) = om_size m \<and>
    om_abs (fst (objectmap_free m oid)) = (om_abs m)(oid := None) \<and>
    (snd (objectmap_free m oid) \<longleftrightarrow> oid \<in> dom (om_abs m))"
proof (cases "om_abs m oid")
  case None
  then have "objectmap_free m oid = (m, False)"
    using om_abs_NoneD [OF None _ assms(2)] by (auto simp: objectmap_free_def op_unfold)
  then show ?thesis using None assms(1) by (auto simp: fun_eq_iff)
next
  case (Some pc)
  obtain p c where pc: "om_abs m oid = Some (p, c)" using Some by (cases pc) simp
  note live = om_abs_SomeD [OF assms(1) pc]
  let ?m = "m\<lparr>om_free := count_of oid,
    om_map := (om_map m)[slot_of oid := \<lparr>oe_ptr = ucast (om_free m), oe_ref = 0\<rparr>]\<rparr>"
  have len: "slot_of oid < length (om_map m)" using live(1) om_inv_facts(1) [OF assms(1)] by simp
  have eq: "objectmap_free m oid = (?m, True)"
    using live(1,4) len by (simp add: objectmap_free_def op_unfold)
  have "om_inv ?m"
    using om_inv_freed [OF assms(1), of "count_of oid"] live(1,5) by (simp add: slot_of_count_of)
  moreover have "om_abs ?m = (om_abs m)(oid := None)"
    by (rule om_abs_update_free [OF assms(1) live(1), of "\<lparr>oe_ptr = ucast (om_free m), oe_ref = 0\<rparr>"])
      (simp_all add: pc)
  ultimately show ?thesis using eq pc by auto
qed

lemma tag_of_small [simp]: "take_bit 10 (tag_of w) = tag_of w"
  by (rule bit_eqI) (auto simp: tag_of_def bit_simps OBJECTMAP_INDEXBITS_def dest: bit_imp_le_length)

lemma tag_part: "oid AND NOT OBJECTMAP_INDEXMASK = pack (tag_of oid) 0"
  by (rule bit_eqI) (auto simp: pack_def tag_of_def INDEXMASK_mask bit_simps OBJECTMAP_INDEXBITS_def)

lemma pack_or_1: "pack t 0 OR 1 = pack t 1"
  by (simp add: pack_def)

lemma live_update:
  fixes q :: pointer
  assumes "om_inv m" "om_abs m oid = Some (p, c)" "d < 2 ^ 22"
  defines "e \<equiv> \<lparr>oe_ptr = q, oe_ref = pack (tag_of oid) (of_nat d)\<rparr>"
  shows "om_inv (m\<lparr>om_map := (om_map m)[slot_of oid := e]\<rparr>) \<and>
    om_abs (m\<lparr>om_map := (om_map m)[slot_of oid := e]\<rparr>) = (om_abs m)(oid \<mapsto> (q, d))"
proof -
  note live = om_abs_SomeD [OF assms(1,2)]
  have d: "unat (of_nat d :: u32) = d" using assms(3) by (simp add: unat_of_nat)
  then have small: "take_bit 22 (of_nat d :: u32) = of_nat d"
    using assms(3) by (intro unat_less_take_bit) simp
  then have e: "tag_of (oe_ref e) = tag_of oid" "count_of (oe_ref e) = of_nat d"
    by (simp_all add: e_def tag_of_pack count_of_pack)
  have "om_inv (m\<lparr>om_map := (om_map m)[slot_of oid := e]\<rparr>)"
    using om_inv_update_live [OF assms(1) live(1,5)] e(1) live(2) by simp
  moreover have "om_abs (m\<lparr>om_map := (om_map m)[slot_of oid := e]\<rparr>) =
      (om_abs m)(oid \<mapsto> (oe_ptr e, unat (count_of (oe_ref e))))"
    by (rule om_abs_update_live [OF assms(1) live(1,2) e(1)]) (simp_all add: assms(2))
  ultimately show ?thesis unfolding e(2) d by (simp add: e_def)
qed

lemma objectmap_set_cond:
  assumes "om_inv m" "tag_of oid \<noteq> 0" "slot_of oid < unat (om_size m)"
  shows "oe_ptr (om_map m ! slot_of oid) = 0 \<and> pack (tag_of oid) 0 = oe_ref (om_map m ! slot_of oid) \<longleftrightarrow>
    om_abs m oid = Some (0, 0)"
proof
  assume a: "oe_ptr (om_map m ! slot_of oid) = 0 \<and> pack (tag_of oid) 0 = oe_ref (om_map m ! slot_of oid)"
  then have "tag_of (oe_ref (om_map m ! slot_of oid)) = tag_of oid" "count_of (oe_ref (om_map m ! slot_of oid)) = 0"
    by (metis tag_of_pack tag_of_small take_bit_of_0, metis count_of_pack take_bit_of_0)
  then show "om_abs m oid = Some (0, 0)" using a assms by (simp add: om_abs_def)
next
  assume "om_abs m oid = Some (0, 0)"
  from om_abs_SomeD(3) [OF assms(1) this]
  show "oe_ptr (om_map m ! slot_of oid) = 0 \<and> pack (tag_of oid) 0 = oe_ref (om_map m ! slot_of oid)"
    by simp
qed

lemma objectmap_set_spec:
  assumes "om_inv m" "tag_of oid \<noteq> 0" "objectmap_set m oid p = (m', b)"
  shows "om_inv m' \<and> om_size m' = om_size m \<and>
    (if om_abs m oid = Some (0, 0) then b \<and> om_abs m' = (om_abs m)(oid \<mapsto> (p, 1)) else \<not> b \<and> m' = m)"
proof (cases "om_abs m oid = Some (0, 0)")
  case True
  note live = om_abs_SomeD [OF assms(1) True]
  have len: "slot_of oid < length (om_map m)" using live(1) om_inv_facts(1) [OF assms(1)] by simp
  have "m' = m\<lparr>om_map := (om_map m)[slot_of oid := \<lparr>oe_ptr = p, oe_ref = pack (tag_of oid) (of_nat 1)\<rparr>]\<rparr>" "b"
    using assms(3) live(1,3) len by (auto simp: objectmap_set_def tag_part op_unfold pack_or_1)
  then show ?thesis using live_update [OF assms(1) True, of 1 p] True by simp
next
  case False
  then have "m' = m \<and> \<not> b"
    using assms(3) objectmap_set_cond [OF assms(1,2)]
    by (auto simp: objectmap_set_def tag_part op_unfold split: if_splits)
  then show ?thesis using False assms(1) by simp
qed

lemma held_cond:
  assumes "om_inv m" "slot_of oid < unat (om_size m)"
  shows "tag_of oid = tag_of (oe_ref (om_map m ! slot_of oid)) \<and> count_of (oe_ref (om_map m ! slot_of oid)) \<noteq> 0 \<longleftrightarrow>
    (\<exists>p c. om_abs m oid = Some (p, Suc c))"
proof
  assume a: "tag_of oid = tag_of (oe_ref (om_map m ! slot_of oid)) \<and> count_of (oe_ref (om_map m ! slot_of oid)) \<noteq> 0"
  then have "oe_ref (om_map m ! slot_of oid) \<noteq> 0" by auto
  then have "tag_of oid \<noteq> 0" using om_inv_facts(5) [OF assms] a by simp
  moreover have "unat (count_of (oe_ref (om_map m ! slot_of oid))) \<noteq> 0" using a by (simp add: unat_eq_zero)
  ultimately show "\<exists>p c. om_abs m oid = Some (p, Suc c)"
    using a assms(2) by (auto simp: om_abs_def gr0_conv_Suc)
next
  assume "\<exists>p c. om_abs m oid = Some (p, Suc c)"
  then show "tag_of oid = tag_of (oe_ref (om_map m ! slot_of oid)) \<and> count_of (oe_ref (om_map m ! slot_of oid)) \<noteq> 0"
    by (auto simp: om_abs_def split: if_splits)
qed

lemma objectmap_lookup_spec:
  assumes "om_inv m"
  shows "objectmap_lookup m oid = (case om_abs m oid of Some (p, Suc c) \<Rightarrow> p | _ \<Rightarrow> 0)"
proof (cases "slot_of oid < unat (om_size m)")
  case True
  then show ?thesis
    using held_cond [OF assms True] om_abs_SomeD(8) [OF assms]
    by (auto simp: objectmap_lookup_def op_unfold split: option.splits nat.splits)
next
  case False
  then show ?thesis by (simp add: objectmap_lookup_def op_unfold om_abs_def)
qed

lemma objectmap_not_held:
  assumes "om_inv m" "\<nexists>p c. om_abs m oid = Some (p, Suc c)"
  shows "objectmap_acquire m oid = (m, 0)" "objectmap_release m oid = (m, False, [])"
proof -
  have "\<not> (slot_of oid < unat (om_size m) \<and> tag_of oid = tag_of (oe_ref (om_map m ! slot_of oid)) \<and>
    count_of (oe_ref (om_map m ! slot_of oid)) \<noteq> 0)"
    using held_cond [OF assms(1)] assms(2) by blast
  then show "objectmap_acquire m oid = (m, 0)" "objectmap_release m oid = (m, False, [])"
    by (auto simp: objectmap_acquire_def objectmap_release_def op_unfold)
qed

lemma objectmap_acquire_held:
  assumes "om_inv m" "om_abs m oid = Some (p, Suc c)" "c + 2 < 2 ^ 22" "objectmap_acquire m oid = (m', q)"
  shows "om_inv m' \<and> om_size m' = om_size m \<and> om_abs m' = (om_abs m)(oid \<mapsto> (p, c + 2)) \<and> q = p"
proof -
  note live = om_abs_SomeD [OF assms(1,2)]
  have len: "slot_of oid < length (om_map m)" using live(1) om_inv_facts(1) [OF assms(1)] by simp
  have "(of_nat (Suc c) :: u32) \<noteq> 0" using held_cond [OF assms(1) live(1)] assms(2) live(6) by auto
  then have "m' = m\<lparr>om_map := (om_map m)[slot_of oid := \<lparr>oe_ptr = p, oe_ref = pack (tag_of oid) (of_nat (c + 2))\<rparr>]\<rparr>" "q = p"
    using assms(4) live(1,4,6,8) len
    by (auto simp: objectmap_acquire_def op_unfold algebra_simps intro!: objectmap_entry_t.equality
        arg_cong [where f = "\<lambda>e. m\<lparr>om_map := (om_map m)[slot_of oid := e]\<rparr>"])
  then show ?thesis using live_update [OF assms(1,2,3), of p] by simp
qed

lemma objectmap_release_held:
  assumes "om_inv m" "om_abs m oid = Some (p, Suc c)" "objectmap_release m oid = (m', b, ps)"
  shows "om_inv m' \<and> om_size m' = om_size m \<and> b \<and>
    (if c = 0 then om_abs m' = (om_abs m)(oid := None) \<and> ps = [p]
     else om_abs m' = (om_abs m)(oid \<mapsto> (p, c)) \<and> ps = [])"
proof -
  note live = om_abs_SomeD [OF assms(1,2)]
  let ?m = "m\<lparr>om_map := (om_map m)[slot_of oid := \<lparr>oe_ptr = p, oe_ref = pack (tag_of oid) (of_nat c)\<rparr>]\<rparr>"
  have len: "slot_of oid < length (om_map m)" using live(1) om_inv_facts(1) [OF assms(1)] by simp
  have nz: "(of_nat (Suc c) :: u32) \<noteq> 0" using held_cond [OF assms(1) live(1)] assms(2) live(6) by auto
  have "unat (of_nat (Suc c) :: u32) = Suc c" using live(7) by (simp only: unat_of_nat) simp
  then have one: "(of_nat (Suc c) :: u32) = 1 \<longleftrightarrow> c = 0" by (metis One_nat_def Suc_inject of_nat_1 unat_1)
  have upd: "om_inv ?m" "om_abs ?m = (om_abs m)(oid \<mapsto> (p, c))"
    using live_update [OF assms(1,2), of c p] live(7) by simp_all
  have m: "m\<lparr>om_map := (om_map m)[slot_of oid := (om_map m ! slot_of oid)\<lparr>oe_ref := pack (tag_of oid) (of_nat c)\<rparr>]\<rparr> = ?m"
    using live(3) by simp
  have rel: "objectmap_release m oid =
    (if c = 0 then (fst (objectmap_free ?m oid), True, [p]) else (?m, True, []))"
    using live(1,4,6,8) len nz one m
    by (auto simp: objectmap_release_def op_unfold algebra_simps split: prod.splits)
  show ?thesis
    using objectmap_free_spec [OF upd(1) live(2)] assms(3) upd unfolding rel
    by (cases "c = 0") (auto simp: upd(2))
qed

text \<open>A live handle names a slot in use, and every slot in use has exactly one live handle.\<close>

lemma card_om_abs:
  assumes "om_inv m"
  shows "card (dom (om_abs m)) = card {i. i < unat (om_size m) \<and> oe_ref (om_map m ! i) \<noteq> 0}"
proof -
  have "inj_on slot_of (dom (om_abs m))"
    by (auto simp: inj_on_def om_abs_def split: if_splits intro: handle_eqI)
  moreover have "slot_of ` dom (om_abs m) = {i. i < unat (om_size m) \<and> oe_ref (om_map m ! i) \<noteq> 0}"
  proof (rule set_eqI, rule iffI)
    fix i assume "i \<in> slot_of ` dom (om_abs m)"
    then show "i \<in> {i. i < unat (om_size m) \<and> oe_ref (om_map m ! i) \<noteq> 0}"
      by (auto simp: om_abs_def split: if_splits)
  next
    fix i assume "i \<in> {i. i < unat (om_size m) \<and> oe_ref (om_map m ! i) \<noteq> 0}"
    then have i: "i < unat (om_size m)" "oe_ref (om_map m ! i) \<noteq> 0" by auto
    define h where "h = pack (tag_of (oe_ref (om_map m ! i))) (of_nat i)"
    have "unat (of_nat i :: u32) = i" using i(1) om_inv_facts(2) [OF assms] by (simp add: unat_of_nat)
    moreover have lt: "i < 2 ^ 22" using i(1) om_inv_facts(2) [OF assms] by simp
    ultimately have "slot_of h = i" "tag_of h = tag_of (oe_ref (om_map m ! i))"
      unfolding h_def by (simp_all add: slot_of_pack tag_of_pack unat_less_take_bit)
    then show "i \<in> slot_of ` dom (om_abs m)"
      using i om_inv_facts(5) [OF assms] by (intro image_eqI [of _ _ h]) (auto simp: om_abs_def)
  qed
  ultimately show ?thesis by (metis card_image)
qed

lemma card_om_abs_full:
  assumes "om_inv m"
  shows "om_size m \<le> om_free m \<Longrightarrow> card (dom (om_abs m)) = unat (om_size m)"
    and "om_free m < om_size m \<Longrightarrow> card (dom (om_abs m)) < unat (om_size m)"
proof -
  let ?S = "{i. i < unat (om_size m) \<and> oe_ref (om_map m ! i) \<noteq> 0}"
  show "card (dom (om_abs m)) = unat (om_size m)" if full: "om_size m \<le> om_free m"
  proof -
    obtain fs where fs: "chain (om_map m) (om_autolink m) (om_free m) fs"
      "set fs = {i. i < unat (om_autolink m) \<and> oe_ref (om_map m ! i) = 0}"
      by (rule om_inv_chain [OF assms])
    have "om_autolink m \<le> om_size m" using om_inv_facts(3) [OF assms] by (simp add: word_le_nat_alt)
    then have "fs = [] \<and> om_autolink m = om_size m"
      using fs(1) full by (cases fs) auto
    then have "{i. i < unat (om_size m) \<and> oe_ref (om_map m ! i) = 0} = {}" using fs(2) by simp
    then have "?S = {..<unat (om_size m)}" by blast
    then show ?thesis using card_om_abs [OF assms] by simp
  qed
  show "card (dom (om_abs m)) < unat (om_size m)" if free: "om_free m < om_size m"
  proof -
    have "?S \<subseteq> {..<unat (om_size m)}" by (rule subsetI) simp
    moreover have "unat (om_free m) \<in> {..<unat (om_size m)} - ?S"
      using om_free_slot [OF assms free] free by (simp add: word_less_nat_alt)
    ultimately have "?S \<subset> {..<unat (om_size m)}" by blast
    from psubset_card_mono [OF finite_lessThan this] show ?thesis
      unfolding card_om_abs [OF assms] card_lessThan .
  qed
qed

lemma objectmap_reserve_full:
  assumes "om_inv m" "\<not> om_free m < om_size m"
  shows "objectmap_reserve m = Some (m, 0) \<and> card (dom (om_abs m)) = unat (om_size m)"
  using assms card_om_abs_full(1) [OF assms(1)] by (auto simp: objectmap_reserve_def Let_def)

lemma objectmap_reserve_free:
  assumes "om_inv m" "om_free m < om_size m"
  shows "\<exists>m' oid. objectmap_reserve m = Some (m', oid) \<and> om_inv m' \<and> om_size m' = om_size m \<and>
    oid \<noteq> 0 \<and> tag_of oid \<noteq> 0 \<and> (\<forall>k \<in> dom (om_abs m). slot_of k \<noteq> slot_of oid) \<and>
    om_abs m' = (om_abs m)(oid \<mapsto> (0, 0)) \<and> card (dom (om_abs m)) < unat (om_size m)"
proof -
  obtain tag t where r: "objectmap_reserve m = Some ((om_claimed m tag)\<lparr>om_tag := t\<rparr>, pack tag (om_free m))"
    and tag: "tag \<noteq> 0" "take_bit 10 tag = tag"
    by (rule objectmap_reserve_claimed [OF assms])
  let ?m = "(om_claimed m tag)\<lparr>om_tag := t\<rparr>" and ?oid = "pack tag (om_free m)"
  have lt: "unat (om_free m) < unat (om_size m)" using assms(2) by (simp add: word_less_nat_alt)
  then have small: "unat (om_free m) < 2 ^ 22" using om_inv_facts(2) [OF assms(1)] by simp
  then have parts: "slot_of ?oid = unat (om_free m)" "tag_of ?oid = tag"
    using tag(2) by (simp_all add: slot_of_pack tag_of_pack unat_less_take_bit)
  have fresh: "slot_of k \<noteq> slot_of ?oid" if "k \<in> dom (om_abs m)" for k
    using that parts(1) om_free_slot [OF assms] by (auto simp: om_abs_def split: if_splits)
  have geo: "om_size ?m = om_size m" "om_map ?m = (om_map m)[unat (om_free m) := \<lparr>oe_ptr = 0, oe_ref = pack tag 0\<rparr>]"
    by (simp_all add: om_claimed_def Let_def)
  have "om_abs ?m = (om_abs m)(?oid \<mapsto> (0, 0))"
  proof
    fix k
    have upd: "om_abs ?m k = (if slot_of k = slot_of ?oid
        then if tag_of k \<noteq> 0 \<and> tag = tag_of k then Some (0, 0) else None else om_abs m k)"
      using om_abs_update [OF assms(1) lt geo, of k] tag(2) parts(1) by (simp add: tag_of_pack count_of_pack)
    show "om_abs ?m k = ((om_abs m)(?oid \<mapsto> (0, 0))) k"
    proof (cases "slot_of k = slot_of ?oid")
      case True
      then have "om_abs m k = None" using fresh by blast
      then show ?thesis using upd True parts(2) tag(1) handle_eqI [of k ?oid] by (cases "k = ?oid") auto
    next
      case False
      then have "k \<noteq> ?oid" by blast
      then show ?thesis using upd False by simp
    qed
  qed
  moreover have "?oid \<noteq> 0" using parts(2) tag(1) by auto
  ultimately show ?thesis
    using r om_claimed_inv [OF assms tag] fresh parts(2) tag(1) geo(1) card_om_abs_full(2) [OF assms]
    by (intro exI [of _ ?m] exI [of _ ?oid]) simp
qed

section \<open>The contract of a handle table\<close>

datatype om_op = Reserve | Free object_t | Put object_t pointer | Acquire object_t | Release object_t | Lookup object_t
datatype om_result = Handle object_t | Flag bool | Object pointer | Released bool "pointer list"

fun objectmap_step :: "objectmap_t \<Rightarrow> om_op \<Rightarrow> (objectmap_t \<times> om_result) option" where
  "objectmap_step m Reserve = map_option (apsnd Handle) (objectmap_reserve m)"
| "objectmap_step m (Free oid) = Some (apsnd Flag (objectmap_free m oid))"
| "objectmap_step m (Put oid p) = Some (apsnd Flag (objectmap_set m oid p))"
| "objectmap_step m (Acquire oid) = Some (apsnd Object (objectmap_acquire m oid))"
| "objectmap_step m (Release oid) = Some (apsnd (\<lambda>(b, ps). Released b ps) (objectmap_release m oid))"
| "objectmap_step m (Lookup oid) = Some (m, Object (objectmap_lookup m oid))"

fun op_run :: "('s \<Rightarrow> 'o \<Rightarrow> ('s \<times> 'r) option) \<Rightarrow> 's \<Rightarrow> 'o list \<Rightarrow> ('s \<times> 'r list) option" where
  "op_run f s [] = Some (s, [])"
| "op_run f s (x # xs) =
     do { (s, r) \<leftarrow> f s x; (s, rs) \<leftarrow> op_run f s xs; Some (s, r # rs) }"

text \<open>
  What a table of \<open>sz\<close> slots promises. Live handles map to an object and a reference count;
  \<open>handle_spec sz h x r h'\<close> says that \<open>x\<close> may answer \<open>r\<close> and lead to \<open>h'\<close>.
\<close>

fun handle_spec :: "nat \<Rightarrow> (object_t \<Rightarrow> (pointer \<times> nat) option) \<Rightarrow> om_op \<Rightarrow> om_result \<Rightarrow>
    (object_t \<Rightarrow> (pointer \<times> nat) option) \<Rightarrow> bool" where
  "handle_spec sz h Reserve r h' \<longleftrightarrow>
     (if card (dom h) = sz then r = Handle 0 \<and> h' = h
      else \<exists>oid. r = Handle oid \<and> oid \<noteq> 0 \<and> (\<forall>k \<in> dom h. slot_of k \<noteq> slot_of oid) \<and> h' = h(oid \<mapsto> (0, 0)))"
| "handle_spec sz h (Free oid) r h' \<longleftrightarrow> r = Flag (oid \<in> dom h) \<and> h' = h(oid := None)"
| "handle_spec sz h (Put oid p) r h' \<longleftrightarrow>
     (if h oid = Some (0, 0) then r = Flag True \<and> h' = h(oid \<mapsto> (p, 1)) else r = Flag False \<and> h' = h)"
| "handle_spec sz h (Acquire oid) r h' \<longleftrightarrow>
     (case h oid of Some (p, Suc c) \<Rightarrow> r = Object p \<and> h' = h(oid \<mapsto> (p, c + 2)) | _ \<Rightarrow> r = Object 0 \<and> h' = h)"
| "handle_spec sz h (Release oid) r h' \<longleftrightarrow>
     (case h oid of Some (p, Suc c) \<Rightarrow>
        if c = 0 then r = Released True [p] \<and> h' = h(oid := None)
        else r = Released True [] \<and> h' = h(oid \<mapsto> (p, c))
      | _ \<Rightarrow> r = Released False [] \<and> h' = h)"
| "handle_spec sz h (Lookup oid) r h' \<longleftrightarrow>
     r = Object (case h oid of Some (p, Suc c) \<Rightarrow> p | _ \<Rightarrow> 0) \<and> h' = h"

fun spec_run :: "('h \<Rightarrow> 'o \<Rightarrow> 'r \<Rightarrow> 'h \<Rightarrow> bool) \<Rightarrow> 'h \<Rightarrow> 'o list \<Rightarrow> 'r list \<Rightarrow> 'h \<Rightarrow> bool" where
  "spec_run S h [] [] h' \<longleftrightarrow> h' = h"
| "spec_run S h (x # xs) (r # rs) h' \<longleftrightarrow> (\<exists>h1. S h x r h1 \<and> spec_run S h1 xs rs h')"
| "spec_run S h _ _ h' \<longleftrightarrow> False"

text \<open>
  Stepwise refinement under a resource budget: each step preserves the invariant and uses one
  unit of the budget.
\<close>

locale budgeted_refinement =
  fixes invar :: "nat \<Rightarrow> 's \<Rightarrow> bool"
    and abs :: "'s \<Rightarrow> 'h"
    and legal :: "'o \<Rightarrow> bool"
    and run1 :: "'s \<Rightarrow> 'o \<Rightarrow> ('s \<times> 'r) option"
    and spec1 :: "'h \<Rightarrow> 'o \<Rightarrow> 'r \<Rightarrow> 'h \<Rightarrow> bool"
  assumes progress: "invar (Suc n) s \<Longrightarrow> legal x \<Longrightarrow>
    \<exists>s' r. run1 s x = Some (s', r) \<and> invar n s' \<and> spec1 (abs s) x r (abs s')"
begin

lemma run_refines_spec:
  "invar (length xs) s \<Longrightarrow> \<forall>x \<in> set xs. legal x \<Longrightarrow>
   \<exists>s' rs. op_run run1 s xs = Some (s', rs) \<and> invar 0 s' \<and> spec_run spec1 (abs s) xs rs (abs s')"
proof (induction xs arbitrary: s)
  case (Cons x xs)
  then obtain s1 r where 1: "run1 s x = Some (s1, r)" "invar (length xs) s1" "spec1 (abs s) x r (abs s1)"
    using progress [of "length xs" s x] by auto
  moreover obtain s2 rs where "op_run run1 s1 xs = Some (s2, rs)" "invar 0 s2" "spec_run spec1 (abs s1) xs rs (abs s2)"
    using Cons.IH [OF 1(2)] Cons.prems(2) by auto
  ultimately show ?case by (auto intro!: exI [of _ "r # rs"])
qed simp

end

text \<open>
  Handles that never came from \<open>objectmap_reserve\<close> have to be kept out where the code does
  not check them: a handle with tag zero.
\<close>

fun om_legal :: "om_op \<Rightarrow> bool" where
  "om_legal (Free oid) \<longleftrightarrow> tag_of oid \<noteq> 0"
| "om_legal (Put oid p) \<longleftrightarrow> tag_of oid \<noteq> 0"
| "om_legal _ \<longleftrightarrow> True"

text \<open>The budget bounds the reference counts, which have 22 bits.\<close>

definition om_budget :: "nat \<Rightarrow> nat \<Rightarrow> objectmap_t \<Rightarrow> bool" where
  "om_budget sz n m \<longleftrightarrow> om_inv m \<and> unat (om_size m) = sz \<and> n < 2 ^ 22 \<and>
     (\<forall>oid p c. om_abs m oid = Some (p, c) \<longrightarrow> c + n < 2 ^ 22)"

lemma om_budgetI:
  assumes "om_budget sz (Suc n) m" "om_inv m'" "om_size m' = om_size m"
    and "\<And>k p c. om_abs m' k = Some (p, c) \<Longrightarrow> (\<exists>q d. om_abs m k = Some (q, d) \<and> c \<le> Suc d) \<or> c + n < 2 ^ 22"
  shows "om_budget sz n m'"
  unfolding om_budget_def
proof (intro conjI allI impI)
  fix oid p c assume "om_abs m' oid = Some (p, c)"
  from assms(4) [OF this] show "c + n < 2 ^ 22"
    using assms(1) unfolding om_budget_def by fastforce
qed (use assms in \<open>simp_all add: om_budget_def\<close>)

lemma step_progress:
  assumes budget: "om_budget sz (Suc n) m" and legal: "om_legal x"
  shows "\<exists>m' r. objectmap_step m x = Some (m', r) \<and> om_budget sz n m' \<and> handle_spec sz (om_abs m) x r (om_abs m')"
proof -
  have inv: "om_inv m" and sz: "unat (om_size m) = sz" and n: "n < 2 ^ 22"
    using budget by (auto simp: om_budget_def)
  have same: "om_budget sz n m" by (rule om_budgetI [OF budget inv refl]) auto
  have bound: "c + Suc n < 2 ^ 22" if "om_abs m oid = Some (p, c)" for oid p c
    using budget that by (auto simp: om_budget_def)
  have upd: "om_budget sz n m'"
    if "om_inv m'" "om_size m' = om_size m" "om_abs m' = (om_abs m)(oid \<mapsto> (q, d))"
      "om_abs m oid = Some (p, c)" "d \<le> Suc c" for m' oid p c q d
    by (rule om_budgetI [OF budget that(1,2)]) (use that(3-5) in \<open>auto split: if_splits\<close>)
  have del: "om_budget sz n m'"
    if "om_inv m'" "om_size m' = om_size m" "om_abs m' = (om_abs m)(oid := None)" for m' oid
    by (rule om_budgetI [OF budget that(1,2)]) (use that(3) in \<open>auto split: if_splits\<close>)
  show ?thesis
  proof (cases x)
    case Reserve
    show ?thesis
    proof (cases "om_free m < om_size m")
      case True
      then obtain m' oid where r: "objectmap_reserve m = Some (m', oid)" "om_inv m'" "om_size m' = om_size m"
        "oid \<noteq> 0" "\<forall>k \<in> dom (om_abs m). slot_of k \<noteq> slot_of oid"
        "om_abs m' = (om_abs m)(oid \<mapsto> (0, 0))" "card (dom (om_abs m)) < unat (om_size m)"
        using objectmap_reserve_free [OF inv True] by blast
      moreover have "om_budget sz n m'"
        by (rule om_budgetI [OF budget r(2,3)]) (use n r(6) in \<open>auto split: if_splits\<close>)
      ultimately show ?thesis using Reserve sz by auto
    next
      case False
      then show ?thesis using objectmap_reserve_full [OF inv False] Reserve sz same by auto
    qed
  next
    case (Free oid)
    then show ?thesis
      using objectmap_free_spec [OF inv, of oid] legal del [of "fst (objectmap_free m oid)" oid]
      by (auto simp: apsnd_def map_prod_def split: prod.splits)
  next
    case (Put oid p)
    obtain m' b where put: "objectmap_set m oid p = (m', b)" by fastforce
    from objectmap_set_spec [OF inv _ put] legal Put show ?thesis
      using upd [of m' oid p 1 0 0] same put by (auto split: if_splits)
  next
    case (Acquire oid)
    show ?thesis
    proof (cases "\<exists>p c. om_abs m oid = Some (p, Suc c)")
      case True
      then obtain p c where pc: "om_abs m oid = Some (p, Suc c)" by blast
      obtain m' q where acq: "objectmap_acquire m oid = (m', q)" by fastforce
      have "c + 2 < 2 ^ 22" using bound [OF pc] by simp
      from objectmap_acquire_held [OF inv pc this acq] show ?thesis
        using Acquire acq pc upd [of m' oid p "c + 2" p "Suc c"] by auto
    next
      case False
      then show ?thesis using objectmap_not_held(1) [OF inv False] Acquire same
        by (auto split: option.splits nat.splits)
    qed
  next
    case (Release oid)
    show ?thesis
    proof (cases "\<exists>p c. om_abs m oid = Some (p, Suc c)")
      case True
      then obtain p c where pc: "om_abs m oid = Some (p, Suc c)" by blast
      obtain m' b ps where rel: "objectmap_release m oid = (m', b, ps)" by (metis prod_cases3)
      from objectmap_release_held [OF inv pc rel] show ?thesis
        using Release rel pc upd [of m' oid p c p "Suc c"] del [of m' oid] by (cases "c = 0") auto
    next
      case False
      then show ?thesis using objectmap_not_held(2) [OF inv False] Release same
        by (auto split: option.splits nat.splits)
    qed
  next
    case (Lookup oid)
    then show ?thesis using objectmap_lookup_spec [OF inv] same by auto
  qed
qed

interpretation om: budgeted_refinement "om_budget sz" om_abs om_legal objectmap_step "handle_spec sz"
  by unfold_locales (rule step_progress)

lemma objectmap_allocate_budget:
  assumes "\<forall>c. index_bits c \<le> OBJECTMAP_INDEXBITS \<longrightarrow> c < 2 ^ OBJECTMAP_INDEXBITS"
    and "objectmap_allocate index_bits c = Some m" "n < 2 ^ 22"
  shows "om_budget (objectmap_size m) n m \<and> om_abs m = Map.empty \<and> objectmap_size m = max 3 c"
proof -
  let ?c = "max 3 c"
  have bits: "index_bits ?c \<le> OBJECTMAP_INDEXBITS"
    and m: "m = \<lparr>om_free = 0, om_tag = 0, om_size = of_nat ?c, om_autolink = 0,
       om_map = replicate ?c \<lparr>oe_ptr = 0, oe_ref = 0\<rparr>\<rparr>"
    using assms(2) by (auto simp: objectmap_allocate_def objectmap_initialize_def Let_def max_def split: if_splits)
  have lt: "?c < 2 ^ 22" using assms(1) bits unfolding OBJECTMAP_INDEXBITS_def by blast
  then have sz: "unat (om_size m) = ?c" unfolding m by (simp add: unat_of_nat)
  have "om_inv m"
    by (rule om_invI [of _ "[]"]) (use sz lt in \<open>simp_all add: m\<close>)
  moreover have "om_abs m = Map.empty"
    unfolding om_abs_def sz by (auto simp: m)
  ultimately show ?thesis using assms(3) sz by (simp add: om_budget_def objectmap_size_def)
qed

text \<open>
  C7. An object map is a table of reference-counted handles. From a fresh map, every legal
  sequence of fewer than \<open>2 ^ 22\<close> operations runs without a failed assertion and answers as the
  contract says, where a sequence is legal when it never frees or sets a handle whose tag is zero
  (such as the null handle; \<open>objectmap_free_null_handle\<close> below shows what a free of it does), and
  the bound on its length keeps the tag counter from handing a tag out twice. The contract: a reservation returns a new non-zero handle on a slot no live handle has, or 0 exactly
  when every slot is taken; a handle can be set once; acquire and release count references and
  return the object only while it is held; the release of the last reference hands the object to
  the deallocation callback and kills the handle. The hypothesis on \<open>index_bits\<close> is that the logarithm is right about powers of two.
\<close>

theorem objectmap_refines_handle_table:
  assumes "\<forall>c. index_bits c \<le> OBJECTMAP_INDEXBITS \<longrightarrow> c < 2 ^ OBJECTMAP_INDEXBITS"
    and "objectmap_allocate index_bits c = Some m"
    and "\<forall>x \<in> set ops. om_legal x" and "length ops < 2 ^ 22"
  shows "\<exists>m' rs. op_run objectmap_step m ops = Some (m', rs) \<and>
    spec_run (handle_spec (max 3 c)) Map.empty ops rs (om_abs m')"
proof -
  have "om_budget (objectmap_size m) (length ops) m" "om_abs m = Map.empty" "objectmap_size m = max 3 c"
    using objectmap_allocate_budget [OF assms(1,2,4)] by auto
  then show ?thesis using om.run_refines_spec [of "objectmap_size m" ops m] assms(3) by auto
qed

theorem objectmap_refines_handle_table_witness:
  "\<exists>m' rs. op_run objectmap_step (the (objectmap_allocate (\<lambda>c. if c < 2 ^ 22 then 22 else 23) 1))
      [Reserve, Put 0x400000 9, Acquire 0x400000, Release 0x400000, Release 0x400000] = Some (m', rs) \<and>
    spec_run (handle_spec 3) Map.empty
      [Reserve, Put 0x400000 9, Acquire 0x400000, Release 0x400000, Release 0x400000] rs (om_abs m')"
proof -
  let ?b = "\<lambda>c. if c < 2 ^ 22 then 22 else (23 :: nat)"
  obtain m where m: "objectmap_allocate ?b 1 = Some m"
    by (auto simp: objectmap_allocate_def objectmap_initialize_def OBJECTMAP_INDEXBITS_def)
  show ?thesis
    unfolding m option.sel
    using objectmap_refines_handle_table [of ?b 1 m "[Reserve, Put 0x400000 9, Acquire 0x400000,
      Release 0x400000, Release 0x400000]"] m
    by (simp add: OBJECTMAP_INDEXBITS_def tag_of_def)
qed

text \<open>
  The checks do not keep handles with tag zero out: freeing the null handle in a map whose
  slot 0 is free answers true and links the slot to itself, so that a later reservation finds a
  taken slot and the sanity check of \<open>objectmap_reserve\<close> fails.
\<close>

theorem objectmap_free_null_handle:
  "map_option snd (op_run objectmap_step (the (objectmap_allocate (\<lambda>_. 2) 3))
     [Reserve, Free 0x400000, Free 0, Reserve]) =
     Some [Handle 0x400000, Flag True, Flag True, Handle 0x800000] \<and>
   op_run objectmap_step (the (objectmap_allocate (\<lambda>_. 2) 3))
     [Reserve, Free 0x400000, Free 0, Reserve, Reserve] = None"
  by code_simp

end
