(* ===== verification/Byteorder.thy ===== *)
theory Byteorder
  imports Prelude
begin

text \<open>
  Words in memory: the bytes of a number in both byte orders, and the byte order functions of
  \<open>foundation/bits.h\<close>. The host is little endian.
\<close>

section \<open>Numbers as byte sequences\<close>

text \<open>The number a byte sequence stands for, lowest byte first, and the bytes of a number.\<close>

fun le_value :: "byte list \<Rightarrow> nat" where
  "le_value [] = 0"
| "le_value (b # bs) = unat b + 256 * le_value bs"

definition le_bytes :: "nat \<Rightarrow> nat \<Rightarrow> byte list" where
  "le_bytes n v = map (\<lambda>i. word_of_nat (v div 256 ^ i)) [0..<n]"

definition be_bytes :: "nat \<Rightarrow> nat \<Rightarrow> byte list" where
  "be_bytes n v = rev (le_bytes n v)"

definition be_value :: "byte list \<Rightarrow> nat" where
  "be_value bs = le_value (rev bs)"

lemma length_bytes [simp]: "length (le_bytes n v) = n" "length (be_bytes n v) = n"
  by (simp_all add: le_bytes_def be_bytes_def)

lemma byte_less: "unat (b :: byte) < 256"
  using unsigned_less [of b, where ?'a = nat] by simp

lemma le_value_append: "le_value (xs @ ys) = le_value xs + 256 ^ length xs * le_value ys"
  by (induction xs) (simp_all add: algebra_simps)

lemma le_value_less: "le_value xs < 256 ^ length xs"
proof (induction xs)
  case (Cons b bs)
  have "le_value bs + 1 \<le> 256 ^ length bs" using Cons by simp
  then have "256 * (le_value bs + 1) \<le> 256 * 256 ^ length bs" by (rule mult_le_mono2)
  then show ?case using byte_less [of b] by simp
qed simp

lemma le_bytes_Suc: "le_bytes (Suc n) v = word_of_nat v # le_bytes n (v div 256)"
  unfolding le_bytes_def map_upt_Suc by (simp add: div_mult2_eq)

lemma le_bytes_le_value: "le_bytes (length bs) (le_value bs) = bs"
proof (induction bs)
  case (Cons b bs)
  have "(unat b + 256 * le_value bs) div 256 = le_value bs" using byte_less [of b] by simp
  moreover have "(word_of_nat (unat b + 256 * le_value bs) :: byte) = b"
    by (simp add: word_unat_eq_iff unat_of_nat byte_less flip: of_nat_add of_nat_mult)
  ultimately show ?case using Cons by (simp add: le_bytes_Suc del: of_nat_add of_nat_mult)
qed (simp add: le_bytes_def)

lemma le_value_le_bytes: "le_value (le_bytes n v) = v mod 256 ^ n"
proof (induction n arbitrary: v)
  case (Suc n)
  then show ?case by (simp add: le_bytes_Suc unat_of_nat mod_mult2_eq)
qed (simp add: le_bytes_def)

lemma le_bytes_mod: "le_bytes n (v mod 256 ^ n) = le_bytes n v"
  using le_bytes_le_value [of "le_bytes n v"] by (simp add: le_value_le_bytes)

lemma le_bytes_split: "le_bytes (m + n) v = le_bytes m v @ le_bytes n (v div 256 ^ m)"
  by (induction m arbitrary: v) (simp_all add: le_bytes_Suc le_bytes_def [of 0] div_mult2_eq)

section \<open>Byte order of words\<close>

text \<open>The four bytes of a word as the host stores it, and the word they stand for.\<close>

definition word_bytes :: "u32 \<Rightarrow> byte list" where
  "word_bytes w = [ucast w, ucast (drop_bit 8 w), ucast (drop_bit 16 w), ucast (drop_bit 24 w)]"

definition bytes_word :: "byte list \<Rightarrow> u32" where
  "bytes_word bs = ucast (bs ! 0) OR push_bit 8 (ucast (bs ! 1)) OR push_bit 16 (ucast (bs ! 2)) OR
     push_bit 24 (ucast (bs ! 3))"

definition byteorder_swap32 :: "u32 \<Rightarrow> u32" where
  "byteorder_swap32 arg = bytes_word (rev (word_bytes arg))"

definition host_load64 :: "byte list \<Rightarrow> u64" where
  "host_load64 bs = word_of_nat (le_value bs)"

definition host_store64 :: "u64 \<Rightarrow> byte list" where
  "host_store64 w = le_bytes 8 (unat w)"

definition byteorder_swap64 :: "u64 \<Rightarrow> u64" where
  "byteorder_swap64 arg = host_load64 (rev (host_store64 arg))"

definition byteorder_bigendian32 :: "u32 \<Rightarrow> u32" where
  "byteorder_bigendian32 arg = byteorder_swap32 arg"

definition byteorder_bigendian64 :: "u64 \<Rightarrow> u64" where
  "byteorder_bigendian64 arg = byteorder_swap64 arg"

lemma bytes_word_bytes [simp]: "bytes_word (word_bytes w) = w"
proof (rule bit_eqI)
  fix n assume "possible_bit TYPE(u32) n"
  then consider "n < 8" | "8 \<le> n" "n < 16" | "16 \<le> n" "n < 24" | "24 \<le> n" "n < 32" by fastforce
  then show "bit (bytes_word (word_bytes w)) n = bit w n"
    by cases (auto simp: bytes_word_def word_bytes_def bit_simps)
qed

lemma byte_bit_high: "8 \<le> m \<Longrightarrow> \<not> bit (a :: byte) m"
  using bit_imp_le_length [of a m] by auto

lemma length_word_bytes [simp]: "length (word_bytes w) = 4"
  by (simp add: word_bytes_def)

lemma word_bytes_word:
  assumes "length bs = 4" shows "word_bytes (bytes_word bs) = bs"
proof -
  obtain a b c d where "bs = [a, b, c, d]"
    using assms by (auto simp: numeral_eq_Suc length_Suc_conv)
  moreover have "word_bytes (bytes_word [a, b, c, d]) = [a, b, c, d]"
    by (auto simp: bytes_word_def word_bytes_def intro!: bit_eqI simp: bit_simps byte_bit_high)
  ultimately show ?thesis by simp
qed

lemma byteorder_swap32_twice [simp]: "byteorder_swap32 (byteorder_swap32 w) = w"
  by (simp add: byteorder_swap32_def word_bytes_word)

lemma unat_le_value64: "length bs = 8 \<Longrightarrow> unat (host_load64 bs) = le_value bs"
  using le_value_less [of bs] by (simp add: host_load64_def unat_of_nat)

lemma bigendian64_load: "length bs = 8 \<Longrightarrow> byteorder_bigendian64 (host_load64 bs) = word_of_nat (be_value bs)"
  using le_bytes_le_value [of bs]
  by (simp add: byteorder_bigendian64_def byteorder_swap64_def host_store64_def unat_le_value64)
    (simp add: host_load64_def be_value_def)

lemma bigendian64_store: "host_store64 (byteorder_bigendian64 w) = be_bytes 8 (unat w)"
  using le_bytes_le_value [of "rev (le_bytes 8 (unat w))"]
  by (simp add: byteorder_bigendian64_def byteorder_swap64_def host_store64_def unat_le_value64 be_bytes_def)

lemma word_bytes_le: "word_bytes w = le_bytes 4 (unat w)"
proof -
  have "ucast (drop_bit (8 * i) w) = (word_of_nat (unat w div 256 ^ i) :: byte)" for i
  proof -
    have "unat w div 256 ^ i = unat (drop_bit (8 * i) w)"
      using unsigned_less [of w, where ?'a = nat]
      by (simp add: unsigned_drop_bit_eq take_bit_nat_eq_self drop_bit_nat_def power_mult del: drop_bit_eq_div)
    then show ?thesis by simp
  qed
  from this [of 0] this [of 1] this [of 2] this [of 3]
  have "word_bytes w = map (\<lambda>i. word_of_nat (unat w div 256 ^ i)) [0, 1, 2, 3]"
    unfolding word_bytes_def by simp
  moreover have "[0..<4] = [0, 1, 2, 3 :: nat]" by (simp add: upt_rec)
  ultimately show ?thesis by (simp only: le_bytes_def)
qed

lemma unat_bytes_word: "length bs = 4 \<Longrightarrow> unat (bytes_word bs) = le_value bs"
proof -
  assume "length bs = 4"
  then have "le_bytes 4 (unat (bytes_word bs)) = bs" using word_bytes_word [of bs] by (simp add: word_bytes_le)
  then have "unat (bytes_word bs) mod 256 ^ 4 = le_value bs" by (metis le_value_le_bytes)
  then show ?thesis using unsigned_less [of "bytes_word bs", where ?'a = nat] by simp
qed

lemma word_of_unat: "unat w = n \<Longrightarrow> w = word_of_nat n"
  by auto

lemma bigendian32_load: "length bs = 4 \<Longrightarrow> byteorder_bigendian32 (bytes_word bs) = word_of_nat (be_value bs)"
  unfolding byteorder_bigendian32_def byteorder_swap32_def be_value_def
  by (rule word_of_unat) (simp add: word_bytes_word unat_bytes_word)

end
