(* ===== verification/Bitbuffer.thy ===== *)
theory Bitbuffer
  imports Byteorder
begin

text \<open>
  \<open>foundation/bitbuffer.c\<close>: reading and writing of integers of any number of bits through a
  32-bit window on a memory buffer or a stream. The buffer is the list of its bytes with the
  position of the next word; on a little-endian host the word at a position is read from and
  written to four bytes in that order, and the \<open>swap\<close> flag reverses them. The stream behind a
  buffer is a parameter: the state type \<open>'s\<close> with the two calls the code makes on it. Floating
  point values are their bit patterns.
\<close>

section \<open>State\<close>

record 's bitbuffer_t =
  bb_memory :: "byte list"
  bb_buffer :: nat
  bb_end :: nat
  bb_stream :: "'s option"
  bb_swap :: bool
  bb_pending_read :: u32
  bb_pending_write :: u32
  bb_offset_read :: nat
  bb_offset_write :: nat
  bb_count_read :: u64
  bb_count_write :: u64

text \<open>\<open>address\<close> is the address of the buffer, which the assertions look at.\<close>

definition bitbuffer_initialize_buffer :: "nat \<Rightarrow> byte list \<Rightarrow> size_t \<Rightarrow> bool \<Rightarrow> 's bitbuffer_t option" where
  "bitbuffer_initialize_buffer address buffer sz swap =
     do { c_assert (sz mod 4 = 0);
          c_assert (address \<noteq> 0);
          c_assert (address mod 8 = 0);
          Some \<lparr>bb_memory = buffer, bb_buffer = 0, bb_end = sz, bb_stream = None, bb_swap = swap,
            bb_pending_read = 0, bb_pending_write = 0, bb_offset_read = 32, bb_offset_write = 0,
            bb_count_read = 0, bb_count_write = 0\<rparr> }"

definition bitbuffer_allocate_buffer :: "nat \<Rightarrow> byte list \<Rightarrow> size_t \<Rightarrow> bool \<Rightarrow> 's bitbuffer_t option" where
  "bitbuffer_allocate_buffer address buffer sz swap = bitbuffer_initialize_buffer address buffer sz swap"

text \<open>\<open>set_binary\<close> is the call that switches the stream to binary mode.\<close>

definition bitbuffer_initialize_stream :: "('s \<Rightarrow> 's) \<Rightarrow> 's \<Rightarrow> 's bitbuffer_t" where
  "bitbuffer_initialize_stream set_binary stream =
     \<lparr>bb_memory = [], bb_buffer = 0, bb_end = 0, bb_stream = Some (set_binary stream), bb_swap = False,
      bb_pending_read = 0, bb_pending_write = 0, bb_offset_read = 32, bb_offset_write = 0,
      bb_count_read = 0, bb_count_write = 0\<rparr>"

definition bitbuffer_allocate_stream :: "('s \<Rightarrow> 's) \<Rightarrow> 's \<Rightarrow> 's bitbuffer_t" where
  "bitbuffer_allocate_stream set_binary stream = bitbuffer_initialize_stream set_binary stream"

section \<open>Operations\<close>

definition bitbuffer_get :: "('s \<Rightarrow> 's \<times> u32) \<Rightarrow> 's bitbuffer_t \<Rightarrow> 's bitbuffer_t option" where
  "bitbuffer_get stream_read_uint32 b =
     do { b \<leftarrow> (if bb_buffer b < bb_end b then
             do { bytes \<leftarrow> mem_load (bb_memory b) (bb_buffer b) 4;
                  Some (b\<lparr>bb_pending_read := (if bb_swap b then byteorder_swap32 (bytes_word bytes)
                          else bytes_word bytes),
                          bb_buffer := bb_buffer b + 4\<rparr>) }
           else case bb_stream b of
             Some s \<Rightarrow> let (s, w) = stream_read_uint32 s
                       in Some (b\<lparr>bb_pending_read := w, bb_stream := Some s\<rparr>)
           | None \<Rightarrow> Some (b\<lparr>bb_pending_read := 0\<rparr>));
          Some (b\<lparr>bb_offset_read := 0\<rparr>) }"

definition bitbuffer_put :: "('s \<Rightarrow> u32 \<Rightarrow> 's) \<Rightarrow> 's bitbuffer_t \<Rightarrow> 's bitbuffer_t option" where
  "bitbuffer_put stream_write_uint32 b =
     do { b \<leftarrow> (if bb_buffer b < bb_end b then
             do { mem \<leftarrow> mem_store (bb_memory b) (bb_buffer b)
                    (word_bytes (if bb_swap b then byteorder_swap32 (bb_pending_write b) else bb_pending_write b));
                  Some (b\<lparr>bb_memory := mem, bb_buffer := bb_buffer b + 4\<rparr>) }
           else case bb_stream b of
             Some s \<Rightarrow> Some (b\<lparr>bb_stream := Some (stream_write_uint32 s (bb_pending_write b))\<rparr>)
           | None \<Rightarrow> Some b);
          Some (b\<lparr>bb_offset_write := 0, bb_pending_write := 0\<rparr>) }"

text \<open>\<open>(1U << n) - 1\<close>\<close>

definition low_mask :: "nat \<Rightarrow> u32" where
  "low_mask n = push_bit n 1 - 1"

definition bitbuffer_read32 :: "('s \<Rightarrow> 's \<times> u32) \<Rightarrow> 's bitbuffer_t \<Rightarrow> nat \<Rightarrow> ('s bitbuffer_t \<times> u32) option" where
  "bitbuffer_read32 rd b bits =
     (if bits = 0 then Some (b, 0)
      else let bits = (if bits > 32 then 32 else bits) in
        do { b \<leftarrow> (if bb_offset_read b \<ge> 32 then bitbuffer_get rd b else Some b);
             let curbits = 32 - bb_offset_read b;
             let curbits = (if bits < curbits then bits else curbits);
             let ret = (if curbits = 32 then bb_pending_read b
                        else drop_bit (bb_offset_read b) (bb_pending_read b) AND low_mask curbits);
             let b = b\<lparr>bb_offset_read := bb_offset_read b + curbits,
                       bb_count_read := bb_count_read b + of_nat curbits\<rparr>;
             if curbits = bits then Some (b, ret)
             else do {
               c_assert (bits \<noteq> 0 \<and> curbits \<noteq> 0);
               c_assert (bb_offset_read b = 32);
               b \<leftarrow> bitbuffer_get rd b;
               let ret = ret OR push_bit curbits (bb_pending_read b AND low_mask (bits - curbits));
               Some (b\<lparr>bb_offset_read := bits - curbits,
                       bb_count_read := bb_count_read b + of_nat (bits - curbits)\<rparr>, ret) } })"

definition bitbuffer_read64 :: "('s \<Rightarrow> 's \<times> u32) \<Rightarrow> 's bitbuffer_t \<Rightarrow> nat \<Rightarrow> ('s bitbuffer_t \<times> u64) option" where
  "bitbuffer_read64 rd b bits =
     (if bits \<le> 32 then do { (b, v) \<leftarrow> bitbuffer_read32 rd b bits; Some (b, ucast v) }
      else let bits = (if bits > 64 then 64 else bits) in
        do { (b, val0) \<leftarrow> bitbuffer_read32 rd b 32;
             (b, val1) \<leftarrow> bitbuffer_read32 rd b (bits - 32);
             Some (b, ucast val0 OR push_bit 32 (ucast val1)) })"

text \<open>The result is \<open>(word[0], word[1])\<close>.\<close>

definition bitbuffer_read128 :: "('s \<Rightarrow> 's \<times> u32) \<Rightarrow> 's bitbuffer_t \<Rightarrow> nat \<Rightarrow> ('s bitbuffer_t \<times> u64 \<times> u64) option" where
  "bitbuffer_read128 rd b bits =
     (if bits \<le> 64 then do { (b, v) \<leftarrow> bitbuffer_read64 rd b bits; Some (b, v, 0) }
      else let bits = (if bits > 128 then 128 else bits) in
        do { (b, word0) \<leftarrow> bitbuffer_read64 rd b 64;
             (b, word1) \<leftarrow> bitbuffer_read64 rd b (bits - 64);
             Some (b, word0, word1) })"

definition bitbuffer_read_float64 :: "('s \<Rightarrow> 's \<times> u32) \<Rightarrow> 's bitbuffer_t \<Rightarrow> ('s bitbuffer_t \<times> u64) option" where
  "bitbuffer_read_float64 rd b = bitbuffer_read64 rd b 64"

definition bitbuffer_read_float32 :: "('s \<Rightarrow> 's \<times> u32) \<Rightarrow> 's bitbuffer_t \<Rightarrow> ('s bitbuffer_t \<times> u32) option" where
  "bitbuffer_read_float32 rd b = bitbuffer_read32 rd b 32"

definition bitbuffer_write32 :: "('s \<Rightarrow> u32 \<Rightarrow> 's) \<Rightarrow> 's bitbuffer_t \<Rightarrow> u32 \<Rightarrow> nat \<Rightarrow> 's bitbuffer_t option" where
  "bitbuffer_write32 wr b val bits =
     (if bits = 0 then Some b
      else let bits = (if bits > 32 then 32 else bits);
               curbits = 32 - bb_offset_write b;
               curbits = (if bits < curbits then bits else curbits);
               b = b\<lparr>bb_pending_write := bb_pending_write b OR
                       push_bit (bb_offset_write b) (if curbits = 32 then val else val AND low_mask curbits),
                     bb_offset_write := bb_offset_write b + curbits,
                     bb_count_write := bb_count_write b + of_nat bits\<rparr>
           in do { b \<leftarrow> (if bb_offset_write b = 32 then bitbuffer_put wr b else Some b);
                   if curbits = bits then Some b
                   else do {
                     c_assert (bits \<noteq> 0 \<and> curbits \<noteq> 0);
                     Some (b\<lparr>bb_pending_write := drop_bit curbits val AND low_mask (bits - curbits),
                             bb_offset_write := bits - curbits\<rparr>) } })"

definition bitbuffer_write64 :: "('s \<Rightarrow> u32 \<Rightarrow> 's) \<Rightarrow> 's bitbuffer_t \<Rightarrow> u64 \<Rightarrow> nat \<Rightarrow> 's bitbuffer_t option" where
  "bitbuffer_write64 wr b val bits =
     (if bits \<le> 32 then bitbuffer_write32 wr b (ucast val) bits
      else let bits = (if bits > 64 then 64 else bits) in
        do { b \<leftarrow> bitbuffer_write32 wr b (ucast val) 32;
             bitbuffer_write32 wr b (ucast (drop_bit 32 val)) (bits - 32) })"

definition bitbuffer_write128 :: "('s \<Rightarrow> u32 \<Rightarrow> 's) \<Rightarrow> 's bitbuffer_t \<Rightarrow> u64 \<times> u64 \<Rightarrow> nat \<Rightarrow> 's bitbuffer_t option" where
  "bitbuffer_write128 wr b val bits =
     (if bits \<le> 64 then bitbuffer_write64 wr b (fst val) bits
      else let bits = (if bits > 128 then 128 else bits) in
        do { b \<leftarrow> bitbuffer_write64 wr b (fst val) 64;
             bitbuffer_write64 wr b (snd val) (bits - 64) })"

definition bitbuffer_write_float64 :: "('s \<Rightarrow> u32 \<Rightarrow> 's) \<Rightarrow> 's bitbuffer_t \<Rightarrow> u64 \<Rightarrow> 's bitbuffer_t option" where
  "bitbuffer_write_float64 wr b val = bitbuffer_write64 wr b val 64"

definition bitbuffer_write_float32 :: "('s \<Rightarrow> u32 \<Rightarrow> 's) \<Rightarrow> 's bitbuffer_t \<Rightarrow> u32 \<Rightarrow> 's bitbuffer_t option" where
  "bitbuffer_write_float32 wr b val = bitbuffer_write32 wr b val 32"

definition bitbuffer_align_read :: "('s \<Rightarrow> 's \<times> u32) \<Rightarrow> 's bitbuffer_t \<Rightarrow> bool \<Rightarrow> 's bitbuffer_t option" where
  "bitbuffer_align_read rd b force =
     (if bb_offset_read b mod 32 = 0 \<and> \<not> force then Some b
      else do { b \<leftarrow> (if bb_offset_read b mod 32 = 0 \<and> bb_offset_read b \<noteq> 0 then bitbuffer_get rd b else Some b);
                Some (b\<lparr>bb_count_read := bb_count_read b + of_nat (32 - bb_offset_read b),
                        bb_offset_read := 32\<rparr>) })"

definition bitbuffer_align_write :: "('s \<Rightarrow> u32 \<Rightarrow> 's) \<Rightarrow> 's bitbuffer_t \<Rightarrow> bool \<Rightarrow> 's bitbuffer_t option" where
  "bitbuffer_align_write wr b force =
     (if bb_offset_write b = 0 \<and> \<not> force then Some b
      else let b = b\<lparr>bb_count_write := bb_count_write b + of_nat (32 - bb_offset_write b)\<rparr>
           in bitbuffer_put wr b)"

definition bitbuffer_discard_read :: "'s bitbuffer_t \<Rightarrow> 's bitbuffer_t" where
  "bitbuffer_discard_read b = (if bb_offset_read b \<noteq> 32 then b\<lparr>bb_offset_read := 0\<rparr> else b)"

definition bitbuffer_discard_write :: "'s bitbuffer_t \<Rightarrow> 's bitbuffer_t" where
  "bitbuffer_discard_write b = b\<lparr>bb_offset_write := 0, bb_pending_write := 0\<rparr>"

section \<open>Bits of words\<close>

definition to_bits :: "nat \<Rightarrow> 'a::len word \<Rightarrow> bool list" where
  "to_bits n w = map (bit w) [0..<n]"

lemma length_to_bits [simp]: "length (to_bits n w) = n"
  by (simp add: to_bits_def)

lemma nth_to_bits [simp]: "i < n \<Longrightarrow> to_bits n w ! i = bit w i"
  by (simp add: to_bits_def)

lemma to_bits_0 [simp]: "to_bits 0 w = []"
  by (simp add: to_bits_def)

lemma to_bits_eq_iff: "to_bits n v = to_bits n w \<longleftrightarrow> (\<forall>i<n. bit v i = bit w i)"
  by (auto simp: to_bits_def)

lemma bit_low_mask: "n < 32 \<Longrightarrow> bit (low_mask n) i \<longleftrightarrow> i < n"
proof -
  assume "n < 32"
  then have "low_mask n = mask n" by (simp add: low_mask_def mask_eq_exp_minus_1 push_bit_eq_mult)
  then show ?thesis using \<open>n < 32\<close> by (auto simp: bit_mask_iff)
qed

section \<open>The words and the bits of a buffer\<close>

definition decode_word :: "bool \<Rightarrow> byte list \<Rightarrow> u32" where
  "decode_word swap bs = (if swap then byteorder_swap32 (bytes_word bs) else bytes_word bs)"

definition encode_word :: "bool \<Rightarrow> u32 \<Rightarrow> byte list" where
  "encode_word swap w = word_bytes (if swap then byteorder_swap32 w else w)"

lemma decode_encode [simp]: "decode_word swap (encode_word swap w) = w"
  by (simp add: decode_word_def encode_word_def)

lemma length_encode_word [simp]: "length (encode_word swap w) = 4"
  by (simp add: encode_word_def)

text \<open>The bits of the first \<open>n\<close> words, lowest first.\<close>

definition word_at :: "bool \<Rightarrow> byte list \<Rightarrow> nat \<Rightarrow> u32" where
  "word_at swap mem i = decode_word swap (take 4 (drop (4 * i) mem))"

definition words_bits :: "bool \<Rightarrow> byte list \<Rightarrow> nat \<Rightarrow> nat \<Rightarrow> bool list" where
  "words_bits swap mem i n = concat (map (\<lambda>k. to_bits 32 (word_at swap mem k)) [i..<n])"

lemma length_words_bits [simp]: "length (words_bits swap mem i n) = 32 * (n - i)"
proof -
  have "length (concat (map (\<lambda>k. to_bits 32 (word_at swap mem k)) xs)) = 32 * length xs" for xs
    by (induction xs) simp_all
  then show ?thesis by (simp add: words_bits_def)
qed

lemma words_bits_Suc: "i \<le> n \<Longrightarrow> words_bits swap mem i (Suc n) = words_bits swap mem i n @ to_bits 32 (word_at swap mem n)"
  by (simp add: words_bits_def)

lemma words_bits_Cons: "i < n \<Longrightarrow> words_bits swap mem i n = to_bits 32 (word_at swap mem i) @ words_bits swap mem (Suc i) n"
  by (simp add: words_bits_def upt_conv_Cons)

lemma word_at_overwrite:
  assumes "4 * n + 4 \<le> length mem"
  shows "word_at swap (overwrite mem (4 * n) (encode_word swap w)) n = w"
    and "k < n \<Longrightarrow> word_at swap (overwrite mem (4 * n) (encode_word swap w)) k = word_at swap mem k"
proof -
  have "take 4 (drop (4 * n) (overwrite mem (4 * n) (encode_word swap w))) = encode_word swap w"
    using assms by (simp add: overwrite_def)
  then show "word_at swap (overwrite mem (4 * n) (encode_word swap w)) n = w"
    by (simp add: word_at_def)
next
  assume k: "k < n"
  then have "take (4 * k + 4) (overwrite mem (4 * n) (encode_word swap w)) = take (4 * k + 4) mem"
    using assms by (intro take_overwrite_front) simp_all
  then have "take 4 (drop (4 * k) (overwrite mem (4 * n) (encode_word swap w))) = take 4 (drop (4 * k) mem)"
    by (simp add: take_drop add.commute)
  then show "word_at swap (overwrite mem (4 * n) (encode_word swap w)) k = word_at swap mem k"
    by (simp add: word_at_def)
qed

lemma words_bits_overwrite:
  assumes "4 * n + 4 \<le> length mem"
  shows "words_bits swap (overwrite mem (4 * n) (encode_word swap w)) 0 (Suc n) = words_bits swap mem 0 n @ to_bits 32 w"
  using word_at_overwrite [OF assms]
  by (auto simp: words_bits_def intro!: arg_cong [where f = concat] map_cong)

section \<open>Writing\<close>

text \<open>
  A bit buffer over memory alone, at word \<open>n\<close>. The pending word holds the bits below the
  write offset and nothing above it.
\<close>

definition bb_writer :: "'s bitbuffer_t \<Rightarrow> nat \<Rightarrow> bool" where
  "bb_writer b n \<longleftrightarrow> bb_stream b = None \<and> bb_buffer b = 4 * n \<and> bb_end b = length (bb_memory b) \<and>
     length (bb_memory b) mod 4 = 0 \<and> bb_offset_write b < 32 \<and>
     (\<forall>i. bit (bb_pending_write b) i \<longrightarrow> i < bb_offset_write b)"

definition bb_written :: "'s bitbuffer_t \<Rightarrow> bool list" where
  "bb_written b = words_bits (bb_swap b) (bb_memory b) 0 (bb_buffer b div 4) @
     to_bits (bb_offset_write b) (bb_pending_write b)"

lemma bitbuffer_put_eq:
  assumes "bb_stream b = None" "bb_buffer b = 4 * n" "bb_end b = length (bb_memory b)"
    "4 * n + 4 \<le> length (bb_memory b)"
  shows "bitbuffer_put wr b = Some (b\<lparr>
    bb_memory := overwrite (bb_memory b) (4 * n) (encode_word (bb_swap b) (bb_pending_write b)),
    bb_buffer := 4 * n + 4, bb_offset_write := 0, bb_pending_write := 0\<rparr>)"
  using assms by (simp add: bitbuffer_put_def mem_simps encode_word_def)

lemma to_bits_split: "k \<le> n \<Longrightarrow> to_bits n w = to_bits k w @ to_bits (n - k) (drop_bit k w)"
  by (rule nth_equalityI) (auto simp: nth_append bit_simps)

definition filled :: "u32 \<Rightarrow> nat \<Rightarrow> nat \<Rightarrow> u32 \<Rightarrow> u32" where
  "filled p off cur val = p OR push_bit off (if cur = 32 then val else val AND low_mask cur)"

lemma bit_filled:
  assumes "off + cur \<le> 32" "\<forall>i. bit p i \<longrightarrow> i < off"
  shows "bit (filled p off cur val) i \<longleftrightarrow> (if i < off then bit p i else i < off + cur \<and> bit val (i - off))"
  using assms by (cases "cur = 32") (auto simp: filled_def bit_simps bit_low_mask dest: bit_imp_le_length)

lemma to_bits_filled:
  assumes "off + cur \<le> 32" "\<forall>i. bit p i \<longrightarrow> i < off"
  shows "to_bits (off + cur) (filled p off cur val) = to_bits off p @ to_bits cur val"
  by (rule nth_equalityI) (auto simp: nth_append bit_filled [OF assms])

definition bb_extends :: "'s bitbuffer_t \<Rightarrow> bool list \<Rightarrow> 's bitbuffer_t option \<Rightarrow> bool" where
  "bb_extends b bs r \<longleftrightarrow> (\<exists>b' n. r = Some b' \<and> bb_writer b' n \<and> bb_written b' = bb_written b @ bs \<and>
     bb_swap b' = bb_swap b \<and> length (bb_memory b') = length (bb_memory b))"

lemma length_bb_written: "bb_writer b n \<Longrightarrow> length (bb_written b) = 32 * n + bb_offset_write b"
  by (simp add: bb_written_def bb_writer_def)

lemma write32_step:
  assumes "bb_writer b n" "bits \<noteq> 0"
  defines "k \<equiv> min bits 32" and "cur \<equiv> min (min bits 32) (32 - bb_offset_write b)"
  shows "bitbuffer_write32 wr b val bits =
    (let b1 = b\<lparr>bb_pending_write := filled (bb_pending_write b) (bb_offset_write b) cur val,
        bb_offset_write := bb_offset_write b + cur, bb_count_write := bb_count_write b + of_nat k\<rparr>
     in do { b2 \<leftarrow> (if bb_offset_write b + cur = 32 then bitbuffer_put wr b1 else Some b1);
          if cur = k then Some b2
          else Some (b2\<lparr>bb_pending_write := drop_bit cur val AND low_mask (k - cur), bb_offset_write := k - cur\<rparr>) })"
proof -
  have eqs: "(if bits > 32 then 32 else bits) = k"
    "(if k < 32 - bb_offset_write b then k else 32 - bb_offset_write b) = cur"
    by (auto simp: k_def cur_def min_def)
  have "k \<noteq> 0 \<and> cur \<noteq> 0" using assms by (auto simp: bb_writer_def)
  then show ?thesis
    unfolding bitbuffer_write32_def Let_def eqs filled_def using assms(2) by (auto cong: if_cong)
qed

lemma bitbuffer_write32_extends:
  assumes w: "bb_writer b n"
    and room: "length (bb_written b) + min bits 32 \<le> 8 * length (bb_memory b)"
  shows "bb_extends b (to_bits (min bits 32) val) (bitbuffer_write32 wr b val bits)"
proof (cases "bits = 0")
  case True
  then show ?thesis using w by (auto simp: bb_extends_def bitbuffer_write32_def)
next
  case False
  define k where "k = min bits 32"
  define off where "off = bb_offset_write b"
  define cur where "cur = min k (32 - off)"
  define p where "p = filled (bb_pending_write b) off cur val"
  define b1 where "b1 = b\<lparr>bb_pending_write := p, bb_offset_write := off + cur,
    bb_count_write := bb_count_write b + of_nat k\<rparr>"
  have off: "off < 32" "\<forall>i. bit (bb_pending_write b) i \<longrightarrow> i < off" and pos: "bb_buffer b = 4 * n"
    and st: "bb_stream b = None" "bb_end b = length (bb_memory b)" "length (bb_memory b) mod 4 = 0"
    using w by (auto simp: bb_writer_def off_def)
  have cur: "off + cur \<le> 32" "cur \<le> k" using off by (auto simp: cur_def)
  have step: "bitbuffer_write32 wr b val bits =
    do { b2 \<leftarrow> (if off + cur = 32 then bitbuffer_put wr b1 else Some b1);
         if cur = k then Some b2
         else Some (b2\<lparr>bb_pending_write := drop_bit cur val AND low_mask (k - cur), bb_offset_write := k - cur\<rparr>) }"
    unfolding write32_step [OF w False] Let_def k_def cur_def off_def p_def b1_def ..
  have bits_p: "to_bits (off + cur) p = to_bits off (bb_pending_write b) @ to_bits cur val"
    unfolding p_def by (rule to_bits_filled [OF cur(1) off(2)])
  have high_p: "bit p i \<longrightarrow> i < off + cur" for i
    unfolding p_def bit_filled [OF cur(1) off(2)] by auto
  show ?thesis
  proof (cases "off + cur = 32")
    case False
    then have "cur = k" "off + cur < 32" using cur by (auto simp: cur_def)
    moreover have "bb_written b1 = bb_written b @ to_bits k val"
      using bits_p \<open>cur = k\<close> by (simp add: bb_written_def b1_def off_def)
    ultimately show ?thesis
      using step False high_p w unfolding bb_extends_def
      by (intro exI [of _ b1] exI [of _ n]) (auto simp: b1_def bb_writer_def k_def)
  next
    case True
    have k: "cur = 32 - off" "k \<le> 32" using True cur off by (auto simp: k_def)
    have fits: "4 * n + 4 \<le> length (bb_memory b)"
      using room length_bb_written [OF w] True cur(2) st(3) by (simp add: k_def off_def)
    define mem where "mem = overwrite (bb_memory b) (4 * n) (encode_word (bb_swap b) p)"
    define b2 where "b2 = b1\<lparr>bb_memory := mem, bb_buffer := 4 * n + 4, bb_offset_write := 0, bb_pending_write := 0\<rparr>"
    define b3 where "b3 = b2\<lparr>bb_pending_write := drop_bit cur val AND low_mask (k - cur), bb_offset_write := k - cur\<rparr>"
    have put: "bitbuffer_put wr b1 = Some b2"
      using bitbuffer_put_eq [of b1 n wr] st pos fits by (simp add: b1_def b2_def mem_def)
    have mem: "words_bits (bb_swap b) mem 0 (Suc n) = words_bits (bb_swap b) (bb_memory b) 0 n @
        to_bits off (bb_pending_write b) @ to_bits cur val"
      unfolding mem_def words_bits_overwrite [OF fits] using bits_p True by simp
    have len: "length mem = length (bb_memory b)" using fits by (simp add: mem_def)
    have res: "bitbuffer_write32 wr b val bits = Some (if cur = k then b2 else b3)"
      using step True put by (simp add: b3_def)
    have rest: "to_bits (k - cur) (drop_bit cur val AND low_mask (k - cur)) = to_bits (k - cur) (drop_bit cur val)"
      and high: "\<forall>i. bit (drop_bit cur val AND low_mask (k - cur)) i \<longrightarrow> i < k - cur"
      if "cur \<noteq> k"
      using that k off False by (auto simp: to_bits_eq_iff bit_simps bit_low_mask k_def cur_def)
    have written: "bb_written (if cur = k then b2 else b3) = bb_written b @ to_bits k val"
    proof -
      have "bb_written b = words_bits (bb_swap b) (bb_memory b) 0 n @ to_bits off (bb_pending_write b)"
        by (simp add: bb_written_def pos off_def)
      moreover have "bb_written b2 = words_bits (bb_swap b) mem 0 (Suc n)"
        by (simp add: bb_written_def b2_def b1_def)
      moreover have "bb_written b3 = words_bits (bb_swap b) mem 0 (Suc n) @ to_bits (k - cur) (drop_bit cur val)"
        if "cur \<noteq> k" using rest [OF that] by (simp add: bb_written_def b3_def b2_def b1_def)
      ultimately show ?thesis unfolding mem to_bits_split [OF cur(2), of val] by simp
    qed
    have writer: "bb_writer (if cur = k then b2 else b3) (Suc n)"
    proof (cases "cur = k")
      case True
      then show ?thesis using st len by (simp add: bb_writer_def b1_def b2_def)
    next
      case False
      moreover have "k - cur < 32" using k off cur \<open>bits \<noteq> 0\<close> by (auto simp: k_def cur_def)
      ultimately show ?thesis using st len high by (simp add: bb_writer_def b1_def b2_def b3_def)
    qed
    show ?thesis
      unfolding bb_extends_def res k_def [symmetric] using written writer len
      by (intro exI [of _ "if cur = k then b2 else b3"] exI [of _ "Suc n"])
        (simp add: b1_def b2_def b3_def)
  qed
qed

section \<open>Reading\<close>

definition of_bits :: "bool list \<Rightarrow> 'a::len word" where
  "of_bits bs = horner_sum of_bool 2 bs"

lemma bit_of_bits: "bit (of_bits bs :: 'a::len word) i \<longleftrightarrow> i < LENGTH('a) \<and> i < length bs \<and> bs ! i"
  by (simp add: of_bits_def bit_horner_sum_bit_iff)

lemma of_bits_to_bits: "of_bits (to_bits n w) = take_bit n w"
  by (rule bit_eqI) (auto simp: bit_of_bits bit_simps)

lemma of_bits_append:
  "of_bits (to_bits a v @ to_bits c w) = take_bit a v OR push_bit a (take_bit c (w :: 'a::len word))"
proof (rule bit_eqI)
  fix i assume "possible_bit TYPE('a word) i"
  then have i: "i < LENGTH('a)" by simp
  consider "i < a" | "a \<le> i" "i < a + c" | "a + c \<le> i" by linarith
  then show "bit (of_bits (to_bits a v @ to_bits c w) :: 'a word) i = bit (take_bit a v OR push_bit a (take_bit c w)) i"
    using i by cases (auto simp: bit_of_bits bit_simps nth_append)
qed

definition bb_reader :: "'s bitbuffer_t \<Rightarrow> nat \<Rightarrow> bool" where
  "bb_reader b n \<longleftrightarrow> bb_stream b = None \<and> bb_buffer b = 4 * n \<and> bb_end b = length (bb_memory b) \<and>
     length (bb_memory b) mod 4 = 0 \<and> bb_offset_read b \<le> 32"

definition bb_unread :: "'s bitbuffer_t \<Rightarrow> bool list" where
  "bb_unread b = to_bits (32 - bb_offset_read b) (drop_bit (bb_offset_read b) (bb_pending_read b)) @
     words_bits (bb_swap b) (bb_memory b) (bb_buffer b div 4) (length (bb_memory b) div 4)"

definition bb_rest :: "'s bitbuffer_t \<Rightarrow> bool list" where
  "bb_rest b = words_bits (bb_swap b) (bb_memory b) (bb_buffer b div 4) (length (bb_memory b) div 4)"

lemma bitbuffer_get_eq:
  assumes "bb_reader b n" "bb_rest b \<noteq> []"
  shows "\<exists>w. bitbuffer_get rd b = Some (b\<lparr>bb_pending_read := w, bb_buffer := 4 * n + 4, bb_offset_read := 0\<rparr>) \<and>
    bb_rest b = to_bits 32 w @ words_bits (bb_swap b) (bb_memory b) (Suc n) (length (bb_memory b) div 4)"
proof -
  have r: "bb_buffer b = 4 * n" "bb_end b = length (bb_memory b)" "length (bb_memory b) mod 4 = 0"
    using assms(1) by (auto simp: bb_reader_def)
  have lt: "n < length (bb_memory b) div 4"
  proof (rule ccontr)
    assume "\<not> n < length (bb_memory b) div 4"
    then show False using assms(2) r(1) by (simp add: bb_rest_def words_bits_def)
  qed
  then have fits: "4 * n + 4 \<le> length (bb_memory b)" using r(3) by presburger
  have "bitbuffer_get rd b = Some (b\<lparr>bb_pending_read := word_at (bb_swap b) (bb_memory b) n,
      bb_buffer := 4 * n + 4, bb_offset_read := 0\<rparr>)"
    using r fits by (simp add: bitbuffer_get_def mem_simps word_at_def decode_word_def)
  moreover have "bb_rest b = to_bits 32 (word_at (bb_swap b) (bb_memory b) n) @
      words_bits (bb_swap b) (bb_memory b) (Suc n) (length (bb_memory b) div 4)"
    using words_bits_Cons [OF lt] r(1) by (simp add: bb_rest_def)
  ultimately show ?thesis by blast
qed

definition bb_yields :: "'s bitbuffer_t \<Rightarrow> nat \<Rightarrow> 'a \<Rightarrow> ('s bitbuffer_t \<times> 'a) option \<Rightarrow> bool" where
  "bb_yields b k v r \<longleftrightarrow> (\<exists>b' n. r = Some (b', v) \<and> bb_reader b' n \<and> bb_unread b' = drop k (bb_unread b))"

lemma bb_yieldsI:
  "r = Some (b', v) \<Longrightarrow> bb_reader b' n \<Longrightarrow> bb_unread b' = drop k (bb_unread b) \<Longrightarrow> bb_yields b k v r"
  by (auto simp: bb_yields_def)

lemma drop_to_bits: "k \<le> n \<Longrightarrow> drop k (to_bits n w) = to_bits (n - k) (drop_bit k w)"
  by (rule nth_equalityI) (auto simp: bit_simps)

lemma take_to_bits: "k \<le> n \<Longrightarrow> take k (to_bits n w) = to_bits k w"
  by (rule nth_equalityI) auto

text \<open>The read of a word whose window is loaded.\<close>

definition read_loaded :: "('s \<Rightarrow> 's \<times> u32) \<Rightarrow> 's bitbuffer_t \<Rightarrow> nat \<Rightarrow> ('s bitbuffer_t \<times> u32) option" where
  "read_loaded rd b k =
     (let cur = min k (32 - bb_offset_read b);
          ret = take_bit cur (drop_bit (bb_offset_read b) (bb_pending_read b));
          b1 = b\<lparr>bb_offset_read := bb_offset_read b + cur, bb_count_read := bb_count_read b + of_nat cur\<rparr>
      in if cur = k then Some (b1, ret)
         else do { b2 \<leftarrow> bitbuffer_get rd b1;
           Some (b2\<lparr>bb_offset_read := k - cur, bb_count_read := bb_count_read b2 + of_nat (k - cur)\<rparr>,
             ret OR push_bit cur (take_bit (k - cur) (bb_pending_read b2))) })"

lemma and_low_mask: "n < 32 \<Longrightarrow> w AND low_mask n = take_bit n w"
  by (rule bit_eqI) (auto simp: bit_simps bit_low_mask)

lemma read32_loaded:
  assumes "bits \<noteq> 0" "bb_offset_read b < 32"
  shows "bitbuffer_read32 rd b bits = read_loaded rd b (min bits 32)"
proof -
  let ?off = "bb_offset_read b"
  define k where "k = min bits 32"
  define cur where "cur = min k (32 - ?off)"
  have eqs: "(if bits > 32 then 32 else bits) = k" "(if k < 32 - ?off then k else 32 - ?off) = cur"
    by (auto simp: k_def cur_def min_def)
  have pos: "k \<noteq> 0 \<and> cur \<noteq> 0" using assms by (auto simp: k_def cur_def)
  have ret: "(if cur = 32 then bb_pending_read b else drop_bit ?off (bb_pending_read b) AND low_mask cur) =
      take_bit cur (drop_bit ?off (bb_pending_read b))"
  proof (cases "cur = 32")
    case True
    then have "?off = 0" using assms(2) by (auto simp: cur_def k_def)
    then show ?thesis using True by (simp add: take_bit_word_eq_self)
  next
    case False
    then have "cur < 32" by (auto simp: cur_def k_def)
    then show ?thesis by (simp add: and_low_mask)
  qed
  have full: "cur \<noteq> k \<Longrightarrow> ?off + cur = 32" "k - cur < 32" using assms(2) pos by (auto simp: cur_def k_def)
  have ge: "(32 \<le> ?off) = False" "(bits = 0) = False" using assms by auto
  show ?thesis
    unfolding bitbuffer_read32_def read_loaded_def Let_def eqs(1) ge if_False Option.bind.simps(2)
      k_def [symmetric] eqs(2) cur_def [symmetric] ret
    using pos full by (cases "cur = k") (simp_all add: and_low_mask)
qed

lemma read32_refill:
  assumes "bits \<noteq> 0" "bb_offset_read b = 32" "bitbuffer_get rd b = Some b1" "bb_offset_read b1 = 0"
  shows "bitbuffer_read32 rd b bits = bitbuffer_read32 rd b1 bits"
  using assms by (simp add: bitbuffer_read32_def)

lemma read_loaded_yields:
  assumes r: "bb_reader b n" and off: "bb_offset_read b < 32" and k: "0 < k" "k \<le> 32" "k \<le> length (bb_unread b)"
  shows "bb_yields b k (of_bits (take k (bb_unread b))) (read_loaded rd b k)"
proof -
  define cur where "cur = min k (32 - bb_offset_read b)"
  define win where "win = drop_bit (bb_offset_read b) (bb_pending_read b)"
  define b1 where "b1 = b\<lparr>bb_offset_read := bb_offset_read b + cur, bb_count_read := bb_count_read b + of_nat cur\<rparr>"
  have un: "bb_unread b = to_bits (32 - bb_offset_read b) win @ bb_rest b"
    by (simp add: bb_unread_def bb_rest_def win_def)
  have r1: "bb_reader b1 n" "bb_rest b1 = bb_rest b"
    using r off by (auto simp: bb_reader_def b1_def cur_def bb_rest_def)
  show ?thesis
  proof (cases "cur = k")
    case True
    then have "bb_unread b1 = drop k (bb_unread b)"
      unfolding un by (simp add: bb_unread_def bb_rest_def b1_def cur_def win_def drop_to_bits add.commute)
    moreover have "of_bits (take k (bb_unread b)) = take_bit k win"
      using True unfolding un by (simp add: cur_def take_to_bits of_bits_to_bits)
    ultimately show ?thesis
      using True r1(1) by (intro bb_yieldsI [of _ b1 _ n]) (auto simp: read_loaded_def Let_def b1_def cur_def win_def)
  next
    case False
    then have cur: "cur = 32 - bb_offset_read b" "cur < k" by (auto simp: cur_def)
    have "length (bb_unread b) = cur + length (bb_rest b)" unfolding un using cur(1) by simp
    then have "bb_rest b1 \<noteq> []" using k cur r1(2) by auto
    then obtain w where get: "bitbuffer_get rd b1 = Some (b1\<lparr>bb_pending_read := w, bb_buffer := 4 * n + 4, bb_offset_read := 0\<rparr>)"
      and rest: "bb_rest b = to_bits 32 w @ words_bits (bb_swap b) (bb_memory b) (Suc n) (length (bb_memory b) div 4)"
      using bitbuffer_get_eq [OF r1(1), of rd] unfolding r1(2) by (auto simp: b1_def)
    define b2 where "b2 = b1\<lparr>bb_pending_read := w, bb_buffer := 4 * n + 4, bb_offset_read := k - cur,
      bb_count_read := bb_count_read b1 + of_nat (k - cur)\<rparr>"
    have res: "read_loaded rd b k = Some (b2, take_bit cur win OR push_bit cur (take_bit (k - cur) w))"
      using get False by (simp add: read_loaded_def Let_def cur_def [symmetric] win_def b1_def [symmetric] b2_def)
    have kc: "k - cur \<le> 32" using k(2) by simp
    have "bb_unread b2 = drop k (bb_unread b)"
      unfolding un rest using cur kc by (simp add: bb_unread_def b2_def b1_def drop_to_bits)
    moreover have "of_bits (take k (bb_unread b)) = take_bit cur win OR push_bit cur (take_bit (k - cur) w)"
    proof -
      have "take k (bb_unread b) = to_bits cur win @ to_bits (k - cur) w"
        unfolding un rest using cur kc by (simp add: take_to_bits)
      then show ?thesis by (simp add: of_bits_append)
    qed
    moreover have "bb_reader b2 (Suc n)" using r kc by (simp add: bb_reader_def b2_def b1_def)
    ultimately show ?thesis using res by (intro bb_yieldsI [of _ b2 _ "Suc n"]) simp_all
  qed
qed

lemma bitbuffer_read32_yields:
  assumes r: "bb_reader b n" and k: "min bits 32 \<le> length (bb_unread b)"
  shows "bb_yields b (min bits 32) (of_bits (take (min bits 32) (bb_unread b))) (bitbuffer_read32 rd b bits)"
proof (cases "bits = 0")
  case True
  then show ?thesis using r by (auto simp: bitbuffer_read32_def bb_yields_def of_bits_def)
next
  case nz: False
  show ?thesis
  proof (cases "bb_offset_read b < 32")
    case True
    then show ?thesis using read_loaded_yields [OF r True] k nz by (simp add: read32_loaded)
  next
    case False
    then have off: "bb_offset_read b = 32" using r by (simp add: bb_reader_def)
    then have un: "bb_unread b = bb_rest b" by (simp add: bb_unread_def bb_rest_def)
    then have "bb_rest b \<noteq> []" using k nz by auto
    then obtain w where get: "bitbuffer_get rd b = Some (b\<lparr>bb_pending_read := w, bb_buffer := 4 * n + 4, bb_offset_read := 0\<rparr>)"
      (is "_ = Some ?b1")
      and rest: "bb_rest b = to_bits 32 w @ words_bits (bb_swap b) (bb_memory b) (Suc n) (length (bb_memory b) div 4)"
      using bitbuffer_get_eq [OF r] by blast
    have un1: "bb_unread ?b1 = bb_unread b" unfolding un rest by (simp add: bb_unread_def)
    have r1: "bb_reader ?b1 (Suc n)" using r by (simp add: bb_reader_def)
    have "bb_yields ?b1 (min bits 32) (of_bits (take (min bits 32) (bb_unread ?b1))) (bitbuffer_read32 rd ?b1 bits)"
      using read_loaded_yields [OF r1] k nz un1 by (simp add: read32_loaded)
    then show ?thesis
      unfolding read32_refill [OF nz off get, simplified] un1 bb_yields_def .
  qed
qed

section \<open>Wider values\<close>

lemma bb_extendsE:
  assumes "bb_extends b bs r"
  obtains b1 n where "r = Some b1" "bb_writer b1 n" "bb_written b1 = bb_written b @ bs"
    "bb_swap b1 = bb_swap b" "length (bb_memory b1) = length (bb_memory b)"
  using assms by (auto simp: bb_extends_def)

lemma bb_extends_bind:
  assumes "bb_extends b bs r"
    and "\<And>b1 n. r = Some b1 \<Longrightarrow> bb_writer b1 n \<Longrightarrow> bb_written b1 = bb_written b @ bs \<Longrightarrow>
      length (bb_memory b1) = length (bb_memory b) \<Longrightarrow> bb_extends b1 cs (f b1)"
  shows "bb_extends b (bs @ cs) (r \<bind> f)"
proof -
  obtain b1 n where 1: "r = Some b1" "bb_writer b1 n" "bb_written b1 = bb_written b @ bs"
    "bb_swap b1 = bb_swap b" "length (bb_memory b1) = length (bb_memory b)"
    by (rule bb_extendsE [OF assms(1)])
  from assms(2) [OF 1(1,2,3,5)] show ?thesis
    by (rule bb_extendsE) (use 1 in \<open>auto simp: bb_extends_def\<close>)
qed

lemma bb_yields_bind:
  assumes "bb_yields b k v r" "length (bb_unread b) \<ge> k + l"
    and "\<And>b1 n. r = Some (b1, v) \<Longrightarrow> bb_reader b1 n \<Longrightarrow> bb_unread b1 = drop k (bb_unread b) \<Longrightarrow>
      bb_yields b1 l w (f (b1, v))"
  shows "bb_yields b (k + l) w (r \<bind> f)"
proof -
  obtain b1 n where 1: "r = Some (b1, v)" "bb_reader b1 n" "bb_unread b1 = drop k (bb_unread b)"
    using assms(1) by (auto simp: bb_yields_def)
  from assms(3) [OF this] show ?thesis
    using 1 by (auto simp: bb_yields_def add.commute)
qed

lemma bb_yields_return: "bb_yields b k v r \<Longrightarrow> bb_yields b k (g v) (r \<bind> (\<lambda>(b, v). Some (b, g v)))"
  by (auto simp: bb_yields_def)

lemma to_bits_ucast32:
  assumes "k \<le> 32"
  shows "to_bits k (ucast (v :: u64) :: u32) = to_bits k v"
    and "to_bits k (ucast (drop_bit 32 v) :: u32) = to_bits k (drop_bit 32 v)"
  using assms by (auto simp: to_bits_def bit_simps)

lemma bitbuffer_write64_extends:
  fixes b :: "'s bitbuffer_t"
  assumes w: "bb_writer b n"
    and room: "length (bb_written b) + min bits 64 \<le> 8 * length (bb_memory b)"
  shows "bb_extends b (to_bits (min bits 64) val) (bitbuffer_write64 wr b val bits)"
proof (cases "bits \<le> 32")
  case True
  then show ?thesis
    using bitbuffer_write32_extends [OF w, of bits "ucast val" wr] room
    by (simp add: bitbuffer_write64_def to_bits_ucast32)
next
  case False
  define k where "k = min bits 64 - 32"
  have k: "k \<le> 32" "min bits 64 = 32 + k" "(if bits > 64 then 64 else bits) - 32 = k"
    using False by (auto simp: k_def min_def)
  have first: "bb_extends b (to_bits 32 val) (bitbuffer_write32 wr b (ucast val) 32)"
    using bitbuffer_write32_extends [OF w, of 32 "ucast val" wr] room k by (simp add: to_bits_ucast32)
  have "bb_extends b (to_bits 32 val @ to_bits k (drop_bit 32 val))
    (bitbuffer_write32 wr b (ucast val) 32 \<bind> (\<lambda>b. bitbuffer_write32 wr b (ucast (drop_bit 32 val)) k))"
  proof (rule bb_extends_bind [OF first])
    fix b1 :: "'s bitbuffer_t" and n1 assume "bb_writer b1 n1" "bb_written b1 = bb_written b @ to_bits 32 val"
      "length (bb_memory b1) = length (bb_memory b)"
    then show "bb_extends b1 (to_bits k (drop_bit 32 val)) (bitbuffer_write32 wr b1 (ucast (drop_bit 32 val)) k)"
      using bitbuffer_write32_extends [of b1 n1 k "ucast (drop_bit 32 val)" wr] room k
      by (simp add: to_bits_ucast32)
  qed
  then show ?thesis
    using False k by (simp add: bitbuffer_write64_def Let_def to_bits_split [of 32 "32 + k" val])
qed

text \<open>The value of a 128-bit write: its words and the bits it puts out.\<close>

definition bits128 :: "nat \<Rightarrow> u64 \<times> u64 \<Rightarrow> bool list" where
  "bits128 bits val = (if bits \<le> 64 then to_bits bits (fst val)
     else to_bits 64 (fst val) @ to_bits (min bits 128 - 64) (snd val))"

lemma bitbuffer_write128_extends:
  fixes b :: "'s bitbuffer_t"
  assumes w: "bb_writer b n"
    and room: "length (bb_written b) + min bits 128 \<le> 8 * length (bb_memory b)"
  shows "bb_extends b (bits128 bits val) (bitbuffer_write128 wr b val bits)"
proof (cases "bits \<le> 64")
  case True
  then show ?thesis
    using bitbuffer_write64_extends [OF w, of bits "fst val" wr] room
    by (simp add: bitbuffer_write128_def bits128_def)
next
  case False
  have k: "(if bits > 128 then 128 else bits) - 64 = min bits 128 - 64" by (simp add: min_def)
  have first: "bb_extends b (to_bits 64 (fst val)) (bitbuffer_write64 wr b (fst val) 64)"
    using bitbuffer_write64_extends [OF w, of 64 "fst val" wr] room False by simp
  have "bb_extends b (to_bits 64 (fst val) @ to_bits (min bits 128 - 64) (snd val))
    (bitbuffer_write64 wr b (fst val) 64 \<bind> (\<lambda>b. bitbuffer_write64 wr b (snd val) (min bits 128 - 64)))"
  proof (rule bb_extends_bind [OF first])
    fix b1 :: "'s bitbuffer_t" and n1 assume "bb_writer b1 n1" "bb_written b1 = bb_written b @ to_bits 64 (fst val)"
      "length (bb_memory b1) = length (bb_memory b)"
    then show "bb_extends b1 (to_bits (min bits 128 - 64) (snd val)) (bitbuffer_write64 wr b1 (snd val) (min bits 128 - 64))"
      using bitbuffer_write64_extends [of b1 n1 "min bits 128 - 64" "snd val" wr] room False by simp
  qed
  then show ?thesis using False by (simp add: bitbuffer_write128_def Let_def bits128_def k)
qed

lemma of_bits_ucast: "length bs \<le> 32 \<Longrightarrow> ucast (of_bits bs :: u32) = (of_bits bs :: u64)"
  by (rule bit_eqI) (auto simp: bit_simps bit_of_bits)

lemma of_bits_join:
  assumes "length xs = 32" "length ys \<le> 32"
  shows "ucast (of_bits xs :: u32) OR push_bit 32 (ucast (of_bits ys :: u32)) = (of_bits (xs @ ys) :: u64)"
proof (rule bit_eqI)
  fix i assume "possible_bit TYPE(u64) i"
  then consider "i < 32" | "32 \<le> i" "i < 64" by fastforce
  then show "bit (ucast (of_bits xs :: u32) OR push_bit 32 (ucast (of_bits ys :: u32)) :: u64) i =
    bit (of_bits (xs @ ys) :: u64) i"
    using assms by cases (auto simp: bit_simps bit_of_bits nth_append)
qed

lemma bitbuffer_read64_yields:
  fixes b :: "'s bitbuffer_t"
  assumes r: "bb_reader b n" and len: "min bits 64 \<le> length (bb_unread b)"
  shows "bb_yields b (min bits 64) (of_bits (take (min bits 64) (bb_unread b))) (bitbuffer_read64 rd b bits)"
proof (cases "bits \<le> 32")
  case True
  have "bb_yields b (min bits 32) (ucast (of_bits (take (min bits 32) (bb_unread b)) :: u32)) (bitbuffer_read64 rd b bits)"
    using bb_yields_return [OF bitbuffer_read32_yields [OF r, of bits rd], of "\<lambda>v. ucast v :: u64"] True len
    by (simp add: bitbuffer_read64_def)
  then show ?thesis using True by (simp add: of_bits_ucast)
next
  case False
  define k where "k = min bits 64 - 32"
  have k: "k \<le> 32" "min bits 64 = 32 + k" "(if bits > 64 then 64 else bits) - 32 = k"
    using False by (auto simp: k_def min_def)
  define lo :: u32 where "lo = of_bits (take 32 (bb_unread b))"
  define hi :: u32 where "hi = of_bits (take k (drop 32 (bb_unread b)))"
  have first: "bb_yields b 32 lo (bitbuffer_read32 rd b 32)"
    using bitbuffer_read32_yields [OF r, of 32 rd] len k unfolding lo_def by simp
  have "bb_yields b (32 + k) (ucast lo OR push_bit 32 (ucast hi) :: u64)
    (bitbuffer_read32 rd b 32 \<bind> (\<lambda>(b, v0). bitbuffer_read32 rd b k \<bind>
      (\<lambda>(b, v1). Some (b, ucast v0 OR push_bit 32 (ucast v1)))))"
  proof (rule bb_yields_bind [OF first])
    fix b1 :: "'s bitbuffer_t" and n1 assume "bb_reader b1 n1" "bb_unread b1 = drop 32 (bb_unread b)"
    then have "bb_yields b1 k hi (bitbuffer_read32 rd b1 k)"
      using bitbuffer_read32_yields [of b1 n1 k rd] len k unfolding hi_def by simp
    from bb_yields_return [OF this]
    show "bb_yields b1 k (ucast lo OR push_bit 32 (ucast hi)) (case (b1, lo) of (b, v0) \<Rightarrow> bitbuffer_read32 rd b k \<bind>
      (\<lambda>(b, v1). Some (b, ucast v0 OR push_bit 32 (ucast v1))))" by simp
  qed (use len k in simp)
  moreover have "ucast lo OR push_bit 32 (ucast hi) = (of_bits (take (32 + k) (bb_unread b)) :: u64)"
    unfolding lo_def hi_def take_add using len k by (intro of_bits_join) simp_all
  ultimately show ?thesis using False k by (simp add: bitbuffer_read64_def Let_def)
qed

lemma bitbuffer_read128_yields:
  fixes b :: "'s bitbuffer_t"
  assumes r: "bb_reader b n" and len: "min bits 128 \<le> length (bb_unread b)"
  shows "bb_yields b (min bits 128)
    (if bits \<le> 64 then (of_bits (take bits (bb_unread b)), 0)
     else (of_bits (take 64 (bb_unread b)), of_bits (take (min bits 128 - 64) (drop 64 (bb_unread b)))))
    (bitbuffer_read128 rd b bits)"
proof (cases "bits \<le> 64")
  case True
  then show ?thesis
    using bb_yields_return [OF bitbuffer_read64_yields [OF r, of bits rd], of "\<lambda>v. (v, 0 :: u64)"] len
    by (simp add: bitbuffer_read128_def)
next
  case False
  define k where "k = min bits 128 - 64"
  have k: "k \<le> 64" "min bits 128 = 64 + k" "(if bits > 128 then 128 else bits) - 64 = k"
    using False by (auto simp: k_def min_def)
  define lo :: u64 where "lo = of_bits (take 64 (bb_unread b))"
  define hi :: u64 where "hi = of_bits (take k (drop 64 (bb_unread b)))"
  have first: "bb_yields b 64 lo (bitbuffer_read64 rd b 64)"
    using bitbuffer_read64_yields [OF r, of 64 rd] len k unfolding lo_def by simp
  have "bb_yields b (64 + k) (lo, hi)
    (bitbuffer_read64 rd b 64 \<bind> (\<lambda>(b, v0). bitbuffer_read64 rd b k \<bind> (\<lambda>(b, v1). Some (b, v0, v1))))"
  proof (rule bb_yields_bind [OF first])
    fix b1 :: "'s bitbuffer_t" and n1 assume "bb_reader b1 n1" "bb_unread b1 = drop 64 (bb_unread b)"
    then have "bb_yields b1 k hi (bitbuffer_read64 rd b1 k)"
      using bitbuffer_read64_yields [of b1 n1 k rd] len k unfolding hi_def by simp
    from bb_yields_return [OF this]
    show "bb_yields b1 k (lo, hi) (case (b1, lo) of (b, v0) \<Rightarrow> bitbuffer_read64 rd b k \<bind>
      (\<lambda>(b, v1). Some (b, v0, v1)))" by simp
  qed (use len k in simp)
  then show ?thesis using False k unfolding lo_def hi_def by (simp add: bitbuffer_read128_def Let_def)
qed

section \<open>Round trip\<close>

datatype bb_item = Item32 u32 nat | Item64 u64 nat | Item128 "u64 \<times> u64" nat | Float32 u32 | Float64 u64

fun write_item :: "('s \<Rightarrow> u32 \<Rightarrow> 's) \<Rightarrow> 's bitbuffer_t \<Rightarrow> bb_item \<Rightarrow> 's bitbuffer_t option" where
  "write_item wr b (Item32 v bits) = bitbuffer_write32 wr b v bits"
| "write_item wr b (Item64 v bits) = bitbuffer_write64 wr b v bits"
| "write_item wr b (Item128 v bits) = bitbuffer_write128 wr b v bits"
| "write_item wr b (Float32 v) = bitbuffer_write_float32 wr b v"
| "write_item wr b (Float64 v) = bitbuffer_write_float64 wr b v"

text \<open>Reading back an item of the same kind and width; the value of the argument is ignored.\<close>

fun read_item :: "('s \<Rightarrow> 's \<times> u32) \<Rightarrow> 's bitbuffer_t \<Rightarrow> bb_item \<Rightarrow> ('s bitbuffer_t \<times> bb_item) option" where
  "read_item rd b (Item32 _ bits) = do { (b, v) \<leftarrow> bitbuffer_read32 rd b bits; Some (b, Item32 v bits) }"
| "read_item rd b (Item64 _ bits) = do { (b, v) \<leftarrow> bitbuffer_read64 rd b bits; Some (b, Item64 v bits) }"
| "read_item rd b (Item128 _ bits) = do { (b, v) \<leftarrow> bitbuffer_read128 rd b bits; Some (b, Item128 v bits) }"
| "read_item rd b (Float32 _) = do { (b, v) \<leftarrow> bitbuffer_read_float32 rd b; Some (b, Float32 v) }"
| "read_item rd b (Float64 _) = do { (b, v) \<leftarrow> bitbuffer_read_float64 rd b; Some (b, Float64 v) }"

fun item_width :: "bb_item \<Rightarrow> nat" where
  "item_width (Item32 _ bits) = min bits 32"
| "item_width (Item64 _ bits) = min bits 64"
| "item_width (Item128 _ bits) = min bits 128"
| "item_width (Float32 _) = 32"
| "item_width (Float64 _) = 64"

text \<open>What is left of a value after it was cut to its width.\<close>

fun item_cut :: "bb_item \<Rightarrow> bb_item" where
  "item_cut (Item32 v bits) = Item32 (take_bit bits v) bits"
| "item_cut (Item64 v bits) = Item64 (take_bit bits v) bits"
| "item_cut (Item128 (v0, v1) bits) =
     Item128 (if bits \<le> 64 then (take_bit bits v0, 0) else (v0, take_bit (bits - 64) v1)) bits"
| "item_cut (Float32 v) = Float32 v"
| "item_cut (Float64 v) = Float64 v"

fun item_bits :: "bb_item \<Rightarrow> bool list" where
  "item_bits (Item32 v bits) = to_bits (min bits 32) v"
| "item_bits (Item64 v bits) = to_bits (min bits 64) v"
| "item_bits (Item128 v bits) = bits128 bits v"
| "item_bits (Float32 v) = to_bits 32 v"
| "item_bits (Float64 v) = to_bits 64 v"

fun write_items :: "('s \<Rightarrow> u32 \<Rightarrow> 's) \<Rightarrow> 's bitbuffer_t \<Rightarrow> bb_item list \<Rightarrow> 's bitbuffer_t option" where
  "write_items wr b [] = Some b"
| "write_items wr b (x # xs) = do { b \<leftarrow> write_item wr b x; write_items wr b xs }"

fun read_items :: "('s \<Rightarrow> 's \<times> u32) \<Rightarrow> 's bitbuffer_t \<Rightarrow> bb_item list \<Rightarrow> bb_item list option" where
  "read_items rd b [] = Some []"
| "read_items rd b (x # xs) = do { (b, y) \<leftarrow> read_item rd b x; ys \<leftarrow> read_items rd b xs; Some (y # ys) }"

definition bitbuffer_round_trip :: "('s \<Rightarrow> u32 \<Rightarrow> 's) \<Rightarrow> ('s \<Rightarrow> 's \<times> u32) \<Rightarrow> nat \<Rightarrow> byte list \<Rightarrow> bool \<Rightarrow>
    bb_item list \<Rightarrow> bb_item list option" where
  "bitbuffer_round_trip wr rd address mem swap items =
     do { b \<leftarrow> bitbuffer_initialize_buffer address mem (length mem) swap;
          b \<leftarrow> write_items wr b items;
          b \<leftarrow> bitbuffer_align_write wr b False;
          r \<leftarrow> bitbuffer_initialize_buffer address (bb_memory b) (length (bb_memory b)) swap;
          read_items rd r items }"

lemma length_item_bits [simp]: "length (item_bits x) = item_width x"
  by (cases x) (auto simp: bits128_def)

lemma write_item_extends:
  assumes "bb_writer b n" "length (bb_written b) + item_width x \<le> 8 * length (bb_memory b)"
  shows "bb_extends b (item_bits x) (write_item wr b x)"
  using assms bitbuffer_write32_extends [OF assms(1), of 32 _ wr] bitbuffer_write64_extends [OF assms(1), of 64 _ wr]
  by (cases x) (simp_all add: bitbuffer_write32_extends bitbuffer_write64_extends bitbuffer_write128_extends
      bitbuffer_write_float32_def bitbuffer_write_float64_def)

lemma write_items_extends:
  "bb_writer b n \<Longrightarrow> length (bb_written b) + sum_list (map item_width xs) \<le> 8 * length (bb_memory b) \<Longrightarrow>
   bb_extends b (concat (map item_bits xs)) (write_items wr b xs)"
proof (induction xs arbitrary: b n)
  case Nil
  then show ?case by (auto simp: bb_extends_def)
next
  case (Cons x xs)
  have "bb_extends b (item_bits x @ concat (map item_bits xs)) (write_item wr b x \<bind> (\<lambda>b. write_items wr b xs))"
  proof (rule bb_extends_bind)
    show "bb_extends b (item_bits x) (write_item wr b x)"
      by (rule write_item_extends [OF Cons.prems(1)]) (use Cons.prems(2) in simp)
  next
    fix b1 :: "'a bitbuffer_t" and n1
    assume "bb_writer b1 n1" "bb_written b1 = bb_written b @ item_bits x" "length (bb_memory b1) = length (bb_memory b)"
    then show "bb_extends b1 (concat (map item_bits xs)) (write_items wr b1 xs)"
      using Cons.prems(2) by (intro Cons.IH) simp_all
  qed
  then show ?case by simp
qed

lemma take_bit_min: "take_bit (min n LENGTH('a)) (w :: 'a::len word) = take_bit n w"
  by (rule bit_eqI) (auto simp: bit_simps)

lemma read_item_yields:
  assumes "bb_reader b n" "bb_unread b = item_bits x @ rest"
  shows "bb_yields b (item_width x) (item_cut x) (read_item rd b x)"
proof -
  have len: "item_width x \<le> length (bb_unread b)" using assms(2) by simp
  have take: "take (item_width x) (bb_unread b) = item_bits x" using assms(2) by simp
  show ?thesis
  proof (cases x)
    case (Item32 v bits)
    then show ?thesis
      using bb_yields_return [OF bitbuffer_read32_yields [OF assms(1), of bits rd], of "\<lambda>v. Item32 v bits"] len take
        take_bit_min [of bits v] by (simp add: of_bits_to_bits)
  next
    case (Item64 v bits)
    then show ?thesis
      using bb_yields_return [OF bitbuffer_read64_yields [OF assms(1), of bits rd], of "\<lambda>v. Item64 v bits"] len take
        take_bit_min [of bits v] by (simp add: of_bits_to_bits)
  next
    case (Item128 v bits)
    obtain v0 v1 where v: "v = (v0, v1)" by (cases v)
    have "(if bits \<le> 64 then (of_bits (take bits (bb_unread b)), 0)
       else (of_bits (take 64 (bb_unread b)), of_bits (take (min bits 128 - 64) (drop 64 (bb_unread b))))) =
      (if bits \<le> 64 then (take_bit bits v0, 0) else (v0, take_bit (bits - 64) v1))"
      using take_bit_min [of "bits - 64" v1] take_bit_word_eq_self [of 64 v0] unfolding assms(2) Item128 v
      by (auto simp: bits128_def of_bits_to_bits min_def split: if_splits)
    then show ?thesis
      using bb_yields_return [OF bitbuffer_read128_yields [OF assms(1), of bits rd], of "\<lambda>v. Item128 v bits"] len
      by (simp add: Item128 v)
  next
    case (Float32 v)
    then show ?thesis
      using bb_yields_return [OF bitbuffer_read32_yields [OF assms(1), of 32 rd], of Float32] len take
        take_bit_word_eq_self [of 32 v] by (simp add: of_bits_to_bits bitbuffer_read_float32_def)
  next
    case (Float64 v)
    then show ?thesis
      using bb_yields_return [OF bitbuffer_read64_yields [OF assms(1), of 64 rd], of Float64] len take
        take_bit_word_eq_self [of 64 v] by (simp add: of_bits_to_bits bitbuffer_read_float64_def)
  qed
qed

lemma read_items_eq:
  "bb_reader b n \<Longrightarrow> bb_unread b = concat (map item_bits xs) @ rest \<Longrightarrow>
   read_items rd b xs = Some (map item_cut xs)"
proof (induction xs arbitrary: b n)
  case (Cons x xs)
  then obtain b1 n1 where "read_item rd b x = Some (b1, item_cut x)" "bb_reader b1 n1"
    "bb_unread b1 = drop (item_width x) (bb_unread b)"
    using read_item_yields [OF Cons.prems(1), of x "concat (map item_bits xs) @ rest" rd]
    by (auto simp: bb_yields_def)
  then show ?case using Cons.IH [of b1 n1] Cons.prems(2) by simp
qed simp

lemma words_bits_append: "i \<le> n \<Longrightarrow> n \<le> m \<Longrightarrow> words_bits swap mem i m = words_bits swap mem i n @ words_bits swap mem n m"
  unfolding words_bits_def
  by (metis concat_append le_add_diff_inverse map_append upt_add_eq_append)

lemma bitbuffer_align_write_flush:
  assumes w: "bb_writer b n" and room: "length (bb_written b) \<le> 8 * length (bb_memory b)"
  shows "\<exists>b' rest. bitbuffer_align_write wr b False = Some b' \<and> length (bb_memory b') = length (bb_memory b) \<and>
    words_bits (bb_swap b) (bb_memory b') 0 (length (bb_memory b) div 4) = bb_written b @ rest"
proof (cases "bb_offset_write b = 0")
  case True
  have le: "n \<le> length (bb_memory b) div 4" using room length_bb_written [OF w] by simp
  have "bb_written b = words_bits (bb_swap b) (bb_memory b) 0 n"
    using w True by (simp add: bb_written_def bb_writer_def)
  then have "words_bits (bb_swap b) (bb_memory b) 0 (length (bb_memory b) div 4) =
    bb_written b @ words_bits (bb_swap b) (bb_memory b) n (length (bb_memory b) div 4)"
    using words_bits_append [OF le0 le] by simp
  then show ?thesis using True by (auto simp: bitbuffer_align_write_def)
next
  case False
  let ?b = "b\<lparr>bb_count_write := bb_count_write b + of_nat (32 - bb_offset_write b)\<rparr>"
  have fits: "4 * n + 4 \<le> length (bb_memory b)"
  proof -
    have "32 * n + bb_offset_write b \<le> 8 * length (bb_memory b)" "length (bb_memory b) mod 4 = 0"
      using room length_bb_written [OF w] w by (simp_all add: bb_writer_def)
    then show ?thesis using False by presburger
  qed
  then have le: "Suc n \<le> length (bb_memory b) div 4" by simp
  define mem where "mem = overwrite (bb_memory b) (4 * n) (encode_word (bb_swap b) (bb_pending_write b))"
  obtain b' where b': "bitbuffer_align_write wr b False = Some b'" "bb_memory b' = mem"
    using bitbuffer_put_eq [of ?b n wr] fits w False by (simp add: bitbuffer_align_write_def bb_writer_def mem_def Let_def)
  have "words_bits (bb_swap b) mem 0 (length (bb_memory b) div 4) =
      words_bits (bb_swap b) (bb_memory b) 0 n @ to_bits 32 (bb_pending_write b) @
      words_bits (bb_swap b) mem (Suc n) (length (bb_memory b) div 4)"
    using words_bits_append [OF _ le, of 0] words_bits_overwrite [OF fits] by (simp add: mem_def)
  moreover have "to_bits 32 (bb_pending_write b) = to_bits (bb_offset_write b) (bb_pending_write b) @
      to_bits (32 - bb_offset_write b) (drop_bit (bb_offset_write b) (bb_pending_write b))"
    using w by (intro to_bits_split) (simp add: bb_writer_def)
  ultimately have "\<exists>rest. words_bits (bb_swap b) mem 0 (length (bb_memory b) div 4) = bb_written b @ rest"
    using w by (auto simp: bb_written_def bb_writer_def)
  moreover have "length mem = length (bb_memory b)" using fits by (simp add: mem_def)
  ultimately show ?thesis using b' by auto
qed

text \<open>
  C8. Writing a sequence of values of any widths into a memory buffer, flushing it, and reading
  the buffer back with the same widths gives the values, each cut to its number of bits (at most
  32, 64 or 128), in both byte orders, whenever the buffer has room for all the bits. No access
  is out of bounds and no assertion fails on the way.
\<close>

theorem bitbuffer_write_read:
  fixes wr :: "'s \<Rightarrow> u32 \<Rightarrow> 's"
  assumes "address \<noteq> 0" "address mod 8 = 0" "length mem mod 4 = 0"
    and "sum_list (map item_width items) \<le> 8 * length mem"
  shows "bitbuffer_round_trip wr rd address mem swap items = Some (map item_cut items)"
proof -
  obtain b :: "'s bitbuffer_t" where b: "bitbuffer_initialize_buffer address mem (length mem) swap = Some b"
    "bb_writer b 0" "bb_written b = []" "bb_memory b = mem" "bb_swap b = swap"
    using assms(1-3) by (simp add: bitbuffer_initialize_buffer_def bb_writer_def bb_written_def words_bits_def)
  have "bb_extends b (concat (map item_bits items)) (write_items wr b items)"
    using write_items_extends [OF b(2)] b(3,4) assms(4) by simp
  then obtain b1 n where b1: "write_items wr b items = Some b1" "bb_writer b1 n"
    "bb_written b1 = concat (map item_bits items)" "bb_swap b1 = swap" "length (bb_memory b1) = length mem"
    by (rule bb_extendsE) (use b in auto)
  have "length (concat (map item_bits items)) = sum_list (map item_width items)"
    by (induction items) simp_all
  then obtain b2 rest where b2: "bitbuffer_align_write wr b1 False = Some b2" "length (bb_memory b2) = length mem"
    "words_bits swap (bb_memory b2) 0 (length mem div 4) = concat (map item_bits items) @ rest"
    using bitbuffer_align_write_flush [OF b1(2), of wr] b1(3,4,5) assms(4) by auto
  obtain r :: "'s bitbuffer_t" where r: "bitbuffer_initialize_buffer address (bb_memory b2) (length (bb_memory b2)) swap = Some r"
    "bb_reader r 0" "bb_unread r = concat (map item_bits items) @ rest"
    using assms(1-3) b2(2,3) by (simp add: bitbuffer_initialize_buffer_def bb_reader_def bb_unread_def)
  show ?thesis
    using b(1) b1(1) b2(1) r(1) read_items_eq [OF r(2,3)] by (simp add: bitbuffer_round_trip_def)
qed

theorem bitbuffer_write_read_witness:
  "bitbuffer_round_trip (\<lambda>_ _. ()) (\<lambda>s. (s, 0)) 16 (replicate 12 0) True [Item32 0x1ff 5, Item64 0x123456789ab 45, Float32 7] =
     Some [Item32 0x1f 5, Item64 0x123456789ab 45, Float32 7]"
  using bitbuffer_write_read [of 16 "replicate 12 0" "[Item32 0x1ff 5, Item64 0x123456789ab 45, Float32 7]"
    "\<lambda>_ _. ()" "\<lambda>s. (s, 0)" True]
  by simp

end
