(* ===== verification/Base64.thy ===== *)
theory Base64
  imports Prelude
begin

text \<open>
  \<open>foundation/base64.c\<close>: encoding and decoding between memory buffers. Every read of the
  source and every write to the destination is a checked access, so that a run out of bounds
  would be \<^const>\<open>None\<close>. \<open>char\<close> is signed, as on the platforms of the library's x86 builds.
\<close>

section \<open>Code\<close>

text \<open>The tables as the character codes of the two string literals.\<close>

definition base64_decode_table :: "byte list" where
  "base64_decode_table =
    [124, 0, 0, 0, 125, 114, 115, 116, 117, 118, 119, 120, 121, 122, 123, 0,
     0, 0, 0, 0, 0, 0, 62, 63, 64, 65, 66, 67, 68, 69, 70, 71,
     72, 73, 74, 75, 76, 77, 78, 79, 80, 81, 82, 83, 84, 85, 86, 87,
     0, 0, 0, 0, 0, 0, 88, 89, 90, 91, 92, 93, 94, 95, 96, 97,
     98, 99, 100, 101, 102, 103, 104, 105, 106, 107, 108, 109, 110, 111, 112, 113]"

definition base64_encode_table :: "byte list" where
  "base64_encode_table =
    [65, 66, 67, 68, 69, 70, 71, 72, 73, 74, 75, 76, 77, 78, 79, 80,
     81, 82, 83, 84, 85, 86, 87, 88, 89, 90, 97, 98, 99, 100, 101, 102,
     103, 104, 105, 106, 107, 108, 109, 110, 111, 112, 113, 114, 115, 116, 117, 118,
     119, 120, 121, 122, 48, 49, 50, 51, 52, 53, 54, 55, 56, 57, 43, 47]"

text \<open>\<open>*ptr++ = c\<close>\<close>

definition put_byte :: "byte list \<times> nat \<Rightarrow> byte \<Rightarrow> (byte list \<times> nat) option" where
  "put_byte d c = do { m \<leftarrow> mem_set (fst d) (snd d) c; Some (m, snd d + 1) }"

definition enc_char :: "byte \<Rightarrow> byte option" where
  "enc_char bits = mem_get base64_encode_table (unat bits)"

text \<open>The loop over full groups of three bytes, from \<open>carr\<close> on.\<close>

fun base64_encode_groups :: "byte list \<Rightarrow> nat \<Rightarrow> size_t \<Rightarrow> byte list \<times> nat \<Rightarrow> (nat \<times> size_t \<times> byte list \<times> nat) option" where
  "base64_encode_groups source carr sz d =
     (if sz > 2 then
        do { c0 \<leftarrow> mem_get source carr;
             c1 \<leftarrow> mem_get source (carr + 1);
             c2 \<leftarrow> mem_get source (carr + 2);
             b0 \<leftarrow> enc_char (drop_bit 2 c0 AND 0x3F);
             d \<leftarrow> put_byte d b0;
             b1 \<leftarrow> enc_char (push_bit 4 (c0 AND 0x3) OR (drop_bit 4 c1 AND 0xF));
             d \<leftarrow> put_byte d b1;
             b2 \<leftarrow> enc_char (push_bit 2 (c1 AND 0xF) OR (drop_bit 6 c2 AND 0x3));
             d \<leftarrow> put_byte d b2;
             b3 \<leftarrow> enc_char (c2 AND 0x3F);
             d \<leftarrow> put_byte d b3;
             base64_encode_groups source (carr + 3) (sz - 3) d }
      else Some (carr, sz, d))"

declare base64_encode_groups.simps [simp del]

text \<open>The last group of one or two bytes, with its padding.\<close>

definition base64_encode_rest :: "byte list \<Rightarrow> nat \<Rightarrow> size_t \<Rightarrow> byte list \<times> nat \<Rightarrow> (byte list \<times> nat) option" where
  "base64_encode_rest source carr sz d =
     (if sz = 2 then
        do { c0 \<leftarrow> mem_get source carr;
             c1 \<leftarrow> mem_get source (carr + 1);
             b0 \<leftarrow> enc_char (drop_bit 2 c0 AND 0x3F);
             d \<leftarrow> put_byte d b0;
             b1 \<leftarrow> enc_char (push_bit 4 (c0 AND 0x3) OR (drop_bit 4 c1 AND 0xF));
             d \<leftarrow> put_byte d b1;
             b2 \<leftarrow> enc_char (push_bit 2 (c1 AND 0xF));
             d \<leftarrow> put_byte d b2;
             put_byte d 61 }
      else if sz = 1 then
        do { c0 \<leftarrow> mem_get source carr;
             b0 \<leftarrow> enc_char (drop_bit 2 c0 AND 0x3F);
             d \<leftarrow> put_byte d b0;
             b1 \<leftarrow> enc_char (push_bit 4 (c0 AND 0x3));
             d \<leftarrow> put_byte d b1;
             d \<leftarrow> put_byte d 61;
             put_byte d 61 }
      else Some d)"

definition base64_encode :: "byte list \<Rightarrow> size_t \<Rightarrow> byte list \<Rightarrow> size_t \<Rightarrow> (byte list \<times> size_t) option" where
  "base64_encode source sz destination capacity =
     (if capacity > 0 then
        let maxsize = ((capacity - 1) div 4) * 3;
            sz = (if maxsize < sz then maxsize else sz)
        in do {
          (carr, sz, d) \<leftarrow> base64_encode_groups source 0 sz (destination, 0);
          d \<leftarrow> base64_encode_rest source carr sz d;
          d \<leftarrow> put_byte d 0;
          Some (fst d, snd d) }
      else Some (destination, 0))"

text \<open>\<open>(v < 43 || v > 122) ? 0 : base64_decode_table[v - 43]\<close> on a signed character\<close>

definition base64_value :: "byte \<Rightarrow> byte option" where
  "base64_value v = (if sint v < 43 \<or> sint v > 122 then Some 0
     else mem_get base64_decode_table (nat (sint v - 43)))"

text \<open>Consume one valid character: the new source position and size, and the table value (0 at the end).\<close>

fun base64_next :: "byte list \<Rightarrow> nat \<Rightarrow> size_t \<Rightarrow> (nat \<times> size_t \<times> byte) option" where
  "base64_next source pos 0 = Some (pos, 0, 0)"
| "base64_next source pos (Suc sz) =
     do { c \<leftarrow> mem_get source pos;
          v \<leftarrow> base64_value c;
          if v = 0 then base64_next source (pos + 1) sz else Some (pos + 1, sz, v) }"

text \<open>
  The loop that fills the block \<open>inp\<close> from index \<open>i\<close> on; \<open>blocksize\<close> counts the digits found.
\<close>

function base64_block :: "byte list \<Rightarrow> nat \<Rightarrow> size_t \<Rightarrow> nat \<Rightarrow> byte list \<Rightarrow> nat \<Rightarrow> (nat \<times> size_t \<times> byte list \<times> nat) option" where
  "base64_block source pos sz i inp blocksize =
     (if sz \<noteq> 0 \<and> i < 4 then
        do { (pos, sz, v) \<leftarrow> base64_next source pos sz;
             if v \<noteq> 0 then base64_block source pos sz (i + 1) (inp[i := v - 62]) (blocksize + 1)
             else base64_block source pos sz (i + 1) inp blocksize }
      else Some (pos, sz, inp, blocksize))"
  by pat_completeness auto
termination by (relation "measure (\<lambda>(source, pos, sz, i, inp, blocksize). 4 - i)") auto

declare base64_block.simps [simp del]

text \<open>The three bytes of a block.\<close>

definition base64_out :: "byte list \<Rightarrow> byte list" where
  "base64_out inp = [push_bit 2 (inp ! 0) OR drop_bit 4 (inp ! 1),
     push_bit 4 (inp ! 1) OR drop_bit 2 (inp ! 2),
     (push_bit 6 (inp ! 2) AND 0xc0) OR inp ! 3]"

text \<open>\<open>for (i = 0; (i < n) && (cdst < cdstend); ++i) *cdst++ = out[i]\<close>\<close>

fun base64_emit :: "byte list \<Rightarrow> nat \<Rightarrow> byte list \<times> nat \<Rightarrow> (byte list \<times> nat) option" where
  "base64_emit [] capacity d = Some d"
| "base64_emit (c # cs) capacity d =
     (if snd d < capacity then do { d \<leftarrow> put_byte d c; base64_emit cs capacity d } else Some d)"

lemma base64_next_size: "base64_next source pos sz = Some (pos', sz', v) \<Longrightarrow> sz \<noteq> 0 \<Longrightarrow> sz' < sz"
proof (induction source pos sz rule: base64_next.induct)
  case (2 source pos sz)
  then show ?case by (cases sz) (fastforce split: if_splits)+
qed simp

lemma base64_block_step:
  "sz \<noteq> 0 \<Longrightarrow> i < 4 \<Longrightarrow> base64_block source pos sz i inp n =
    base64_next source pos sz \<bind> (\<lambda>(pos, sz, v). base64_block source pos sz (i + 1)
      (if v \<noteq> 0 then inp[i := v - 62] else inp) (if v \<noteq> 0 then n + 1 else n))"
  by (subst base64_block.simps) (simp, rule arg_cong [where f = "Option.bind _"], auto)

lemma base64_block_stop: "sz = 0 \<or> \<not> i < 4 \<Longrightarrow> base64_block source pos sz i inp n = Some (pos, sz, inp, n)"
  by (subst base64_block.simps) auto

lemma base64_block_le:
  "base64_block source pos sz i inp n = Some (pos', sz', inp', n') \<Longrightarrow> sz' \<le> sz \<and> (sz \<noteq> 0 \<and> i < 4 \<longrightarrow> sz' < sz)"
proof (induction "4 - i" arbitrary: pos sz i inp n)
  case 0
  then show ?case by (simp add: base64_block_stop)
next
  case (Suc k)
  show ?case
  proof (cases "sz = 0")
    case True
    then show ?thesis using Suc.prems by (simp add: base64_block_stop)
  next
    case False
    then obtain p s v where next_eq: "base64_next source pos sz = Some (p, s, v)"
      and "base64_block source p s (i + 1) (if v \<noteq> 0 then inp[i := v - 62] else inp) (if v \<noteq> 0 then n + 1 else n) =
        Some (pos', sz', inp', n')"
      using Suc.prems Suc.hyps(2) by (auto simp: base64_block_step)
    then have "sz' \<le> s" using Suc.hyps(1) [of "i + 1" p s] Suc.hyps(2) by simp
    then show ?thesis using base64_next_size [OF next_eq False] by simp
  qed
qed

function base64_decode_loop :: "byte list \<Rightarrow> nat \<Rightarrow> size_t \<Rightarrow> size_t \<Rightarrow> byte list \<times> nat \<Rightarrow> (byte list \<times> nat) option" where
  "base64_decode_loop source pos sz capacity d =
     (if sz \<noteq> 0 \<and> snd d < capacity then
        do { (pos', sz', inp, blocksize) \<leftarrow> base64_block source pos sz 0 [0, 0, 0, 0] 0;
             d \<leftarrow> (if blocksize > 1 then base64_emit (take (blocksize - 1) (base64_out inp)) capacity d else Some d);
             base64_decode_loop source pos' sz' capacity d }
      else Some d)"
  by pat_completeness auto
termination
  by (relation "measure (\<lambda>(source, pos, sz, capacity, d). sz)") (auto dest: base64_block_le)

declare base64_decode_loop.simps [simp del]

definition base64_decode :: "byte list \<Rightarrow> size_t \<Rightarrow> byte list \<Rightarrow> size_t \<Rightarrow> (byte list \<times> size_t) option" where
  "base64_decode source sz destination capacity = base64_decode_loop source 0 sz capacity (destination, 0)"

section \<open>Digits\<close>

text \<open>The 6-bit value of a character of the alphabet.\<close>

definition digit :: "byte \<Rightarrow> byte option" where
  "digit c = (case base64_value c of Some v \<Rightarrow> if v = 0 then None else Some (v - 62) | None \<Rightarrow> None)"

definition digits :: "byte list \<Rightarrow> byte list" where
  "digits cs = List.map_filter digit cs"

lemma digits_simps [simp]:
  "digits [] = []" "digits (c # cs) = (case digit c of None \<Rightarrow> digits cs | Some v \<Rightarrow> v # digits cs)"
  by (simp_all add: digits_def List.map_filter_simps split: option.splits)

lemma digits_append: "digits (xs @ ys) = digits xs @ digits ys"
  by (induction xs) (auto split: option.splits)

lemma length_decode_table: "length base64_decode_table = 80"
  by (simp add: base64_decode_table_def)

lemma base64_value_total: "\<exists>v. base64_value c = Some v"
proof (cases "sint c < 43 \<or> sint c > 122")
  case False
  then have "nat (sint c - 43) < length base64_decode_table" by (simp add: length_decode_table nat_less_iff)
  then show ?thesis using False by (simp add: base64_value_def mem_simps)
qed (simp add: base64_value_def)

lemma digit_None: "digit c = None \<longleftrightarrow> base64_value c = Some 0"
  using base64_value_total [of c] by (auto simp: digit_def split: if_splits)

lemma digit_Some: "digit c = Some w \<longleftrightarrow> (\<exists>v. base64_value c = Some v \<and> v \<noteq> 0 \<and> w = v - 62)"
  using base64_value_total [of c] by (auto simp: digit_def split: if_splits)

lemma digit_encode_table:
  "list_all (\<lambda>i. digit (base64_encode_table ! i) = Some (of_nat i)) [0..<64]"
  by code_simp

lemma digit_enc_char:
  assumes "unat w < 64"
  shows "\<exists>c. enc_char w = Some c \<and> digit c = Some w"
proof -
  have "length base64_encode_table = 64" by (simp add: base64_encode_table_def)
  moreover have "digit (base64_encode_table ! unat w) = Some (of_nat (unat w))"
    using digit_encode_table assms by (simp add: list_all_iff)
  ultimately show ?thesis using assms by (simp add: enc_char_def mem_simps)
qed

text \<open>The 3-byte blocks that digits stand for, four at a time.\<close>

fun undigits :: "byte list \<Rightarrow> byte list" where
  "undigits (a # b # c # d # ds) = base64_out [a, b, c, d] @ undigits ds"
| "undigits [a, b, c] = take 2 (base64_out [a, b, c, 0])"
| "undigits [a, b] = take 1 (base64_out [a, b, 0, 0])"
| "undigits _ = []"

section \<open>Decoding\<close>

lemma base64_next_digits:
  "pos + sz \<le> length source \<Longrightarrow>
   \<exists>pos' sz' v. base64_next source pos sz = Some (pos', sz', v) \<and> pos' + sz' = pos + sz \<and>
     (case digits (take sz (drop pos source)) of [] \<Rightarrow> v = 0 \<and> sz' = 0
      | w # ws \<Rightarrow> v \<noteq> 0 \<and> w = v - 62 \<and> digits (take sz' (drop pos' source)) = ws)"
proof (induction sz arbitrary: pos)
  case (Suc sz)
  have drop: "drop pos source = source ! pos # drop (Suc pos) source"
    using Suc.prems by (simp add: Cons_nth_drop_Suc)
  obtain v where v: "base64_value (source ! pos) = Some v" using base64_value_total by blast
  show ?case
  proof (cases "v = 0")
    case True
    then have "digit (source ! pos) = None" using v digit_None by simp
    then show ?thesis using Suc.IH [of "Suc pos"] Suc.prems v True by (simp add: mem_simps drop)
  next
    case False
    then have "digit (source ! pos) = Some (v - 62)" using v digit_Some by blast
    then show ?thesis using Suc.prems v False by (simp add: mem_simps drop)
  qed
qed simp

definition pad4 :: "byte list \<Rightarrow> byte list" where
  "pad4 ds = ds @ replicate (4 - length ds) 0"

lemma pad4_snoc: "length ds < 4 \<Longrightarrow> (pad4 ds)[length ds := v] = pad4 (ds @ [v])"
proof -
  assume "length ds < 4"
  then obtain k where "4 - length ds = Suc k" "4 - length (ds @ [v]) = k"
    by (metis Suc_diff_Suc diff_Suc_eq_diff_pred length_append_singleton add_diff_cancel_left' plus_1_eq_Suc diff_diff_left)
  then show ?thesis by (simp add: pad4_def list_update_append)
qed

lemma base64_block_digits:
  "pos + sz \<le> length source \<Longrightarrow> length ds \<le> 4 \<Longrightarrow>
   \<exists>pos' sz'. base64_block source pos sz (length ds) (pad4 ds) (length ds) =
     Some (pos', sz', pad4 (ds @ take (4 - length ds) (digits (take sz (drop pos source)))),
       length (ds @ take (4 - length ds) (digits (take sz (drop pos source))))) \<and>
     pos' + sz' = pos + sz \<and>
     digits (take sz' (drop pos' source)) = drop (4 - length ds) (digits (take sz (drop pos source)))"
proof (induction "4 - length ds" arbitrary: pos sz ds)
  case 0
  then show ?case by (simp add: base64_block_stop)
next
  case (Suc k)
  show ?case
  proof (cases "sz = 0")
    case True
    then show ?thesis by (simp add: base64_block_stop)
  next
    case False
    obtain p s v where n: "base64_next source pos sz = Some (p, s, v)" "p + s = pos + sz"
      and d: "case digits (take sz (drop pos source)) of [] \<Rightarrow> v = 0 \<and> s = 0
        | w # ws \<Rightarrow> v \<noteq> 0 \<and> w = v - 62 \<and> digits (take s (drop p source)) = ws"
      using base64_next_digits [OF Suc.prems(1)] by blast
    have lt: "length ds < 4" using Suc.hyps(2) by simp
    note step = base64_block_step [OF False lt, of source pos "pad4 ds" "length ds", unfolded n(1)]
    show ?thesis
    proof (cases "digits (take sz (drop pos source))")
      case Nil
      then show ?thesis using d n(2) step by (simp add: base64_block_stop)
    next
      case (Cons w ws)
      then have v: "v \<noteq> 0" "w = v - 62" "digits (take s (drop p source)) = ws" using d by simp_all
      have len: "k = 4 - length (ds @ [w])" "4 - length ds = Suc (4 - length (ds @ [w]))" using Suc.hyps(2) by simp_all
      have "base64_block source pos sz (length ds) (pad4 ds) (length ds) =
        base64_block source p s (length (ds @ [w])) (pad4 (ds @ [w])) (length (ds @ [w]))"
        using step v pad4_snoc [OF lt] by simp
      moreover obtain pos' sz' where "base64_block source p s (length (ds @ [w])) (pad4 (ds @ [w])) (length (ds @ [w])) =
          Some (pos', sz', pad4 ((ds @ [w]) @ take (4 - length (ds @ [w])) ws),
            length ((ds @ [w]) @ take (4 - length (ds @ [w])) ws))"
        "pos' + sz' = p + s" "digits (take sz' (drop pos' source)) = drop (4 - length (ds @ [w])) ws"
        using Suc.hyps(1) [OF len(1), of p s] v(3) n(2) Suc.prems(1) lt by auto
      ultimately show ?thesis
        using Cons n(2) unfolding len(2) by simp
    qed
  qed
qed

lemma base64_emit_eq:
  "length (fst d) = capacity \<Longrightarrow> snd d \<le> capacity \<Longrightarrow>
   base64_emit cs capacity d = Some (overwrite (fst d) (snd d) (take (capacity - snd d) cs),
     snd d + length (take (capacity - snd d) cs))"
proof (induction cs arbitrary: d)
  case Nil
  then show ?case by simp
next
  case (Cons c cs)
  obtain m n where d: "d = (m, n)" by (cases d)
  show ?case
  proof (cases "n < capacity")
    case True
    then have "capacity - n = Suc (capacity - Suc n)" by simp
    moreover have "overwrite (m[n := c]) (Suc n) (take (capacity - Suc n) cs) =
        overwrite m n (c # take (capacity - Suc n) cs)"
      using True Cons.prems d by (auto intro!: nth_equalityI simp: nth_overwrite nth_Cons' nth_list_update)
    ultimately show ?thesis
      using True Cons.prems Cons.IH [of "(m[n := c], Suc n)"] d by (simp add: put_byte_def mem_simps)
  next
    case False
    then show ?thesis using d Cons.prems by simp
  qed
qed

definition block_bytes :: "byte list \<Rightarrow> byte list" where
  "block_bytes ds = take (length ds - 1) (base64_out (pad4 ds))"

lemma undigits_step: "undigits ds = block_bytes (take 4 ds) @ undigits (drop 4 ds)"
proof (cases ds rule: undigits.cases)
  case (1 a b c d ds)
  then show ?thesis by (simp add: block_bytes_def pad4_def base64_out_def)
qed (simp_all add: block_bytes_def pad4_def numeral_eq_Suc)

lemma overwrite_overwrite:
  assumes "ofs + length xs + length ys \<le> length m"
  shows "overwrite (overwrite m ofs xs) (ofs + length xs) ys = overwrite m ofs (xs @ ys)"
  using assms by (auto intro!: nth_equalityI simp: nth_overwrite nth_append)

lemma base64_decode_loop_eq:
  "pos + sz \<le> length source \<Longrightarrow> length (fst d) = capacity \<Longrightarrow> snd d \<le> capacity \<Longrightarrow>
   base64_decode_loop source pos sz capacity d =
     (let out = take (capacity - snd d) (undigits (digits (take sz (drop pos source))))
      in Some (overwrite (fst d) (snd d) out, snd d + length out))"
proof (induction sz arbitrary: pos d rule: less_induct)
  case (less sz)
  show ?case
  proof (cases "sz \<noteq> 0 \<and> snd d < capacity")
    case False
    then show ?thesis using less.prems by (subst base64_decode_loop.simps) (cases d, auto)
  next
    case True
    define D where "D = digits (take sz (drop pos source))"
    obtain pos' sz' where blk: "base64_block source pos sz 0 [0, 0, 0, 0] 0 =
        Some (pos', sz', pad4 (take 4 D), length (take 4 D))"
      and next_pos: "pos' + sz' = pos + sz" and rest: "digits (take sz' (drop pos' source)) = drop 4 D"
      using base64_block_digits [OF less.prems(1), of "[]"] by (auto simp: D_def pad4_def numeral_eq_Suc)
    have sz': "sz' < sz" using base64_block_le [OF blk] True by simp
    define out1 where "out1 = take (capacity - snd d) (block_bytes (take 4 D))"
    define d1 where "d1 = (overwrite (fst d) (snd d) out1, snd d + length out1)"
    have len1: "snd d + length out1 \<le> capacity" using less.prems by (simp add: out1_def)
    have emit: "(if length (take 4 D) > 1 then base64_emit (take (length (take 4 D) - 1) (base64_out (pad4 (take 4 D)))) capacity d
        else Some d) = Some d1"
      using base64_emit_eq [OF less.prems(2,3)]
      by (cases "length (take 4 D) > 1") (auto simp: d1_def out1_def block_bytes_def simp del: length_take take_take)
    have d1: "length (fst d1) = capacity" "snd d1 \<le> capacity"
      using len1 less.prems by (auto simp: d1_def)
    define out2 where "out2 = take (capacity - snd d1) (undigits (drop 4 D))"
    have "base64_decode_loop source pos sz capacity d = base64_decode_loop source pos' sz' capacity d1"
      by (subst base64_decode_loop.simps)
        (simp only: True simp_thms if_True blk Option.bind.simps prod.case emit)
    also have "\<dots> = Some (overwrite (fst d1) (snd d1) out2, snd d1 + length out2)"
      using less.IH [OF sz' _ d1, of pos'] rest next_pos less.prems(1) by (simp add: out2_def)
    also have "overwrite (fst d1) (snd d1) out2 = overwrite (fst d) (snd d) (out1 @ out2)"
      using len1 less.prems(2) d1(2) by (simp add: d1_def out2_def overwrite_overwrite)
    finally show ?thesis
      unfolding D_def [symmetric] undigits_step [of D]
      by (simp add: Let_def out1_def out2_def d1_def min_def)
  qed
qed

section \<open>Encoding\<close>

fun enc_digits :: "byte list \<Rightarrow> byte list" where
  "enc_digits [a, b, c] = [drop_bit 2 a AND 0x3F, push_bit 4 (a AND 0x3) OR (drop_bit 4 b AND 0xF),
     push_bit 2 (b AND 0xF) OR (drop_bit 6 c AND 0x3), c AND 0x3F]"
| "enc_digits [a, b] = [drop_bit 2 a AND 0x3F, push_bit 4 (a AND 0x3) OR (drop_bit 4 b AND 0xF), push_bit 2 (b AND 0xF)]"
| "enc_digits [a] = [drop_bit 2 a AND 0x3F, push_bit 4 (a AND 0x3)]"
| "enc_digits _ = []"

text \<open>The text of a byte sequence, in groups of three bytes.\<close>

fun base64_text :: "byte list \<Rightarrow> byte list" where
  "base64_text (a # b # c # bs) = map (\<lambda>w. base64_encode_table ! unat w) (enc_digits [a, b, c]) @ base64_text bs"
| "base64_text [a, b] = map (\<lambda>w. base64_encode_table ! unat w) (enc_digits [a, b]) @ [61]"
| "base64_text [a] = map (\<lambda>w. base64_encode_table ! unat w) (enc_digits [a]) @ [61, 61]"
| "base64_text [] = []"

lemma length_base64_text: "length (base64_text bs) = 4 * ((length bs + 2) div 3)"
proof (induction bs rule: base64_text.induct)
  case (1 a b c bs)
  have "(length (a # b # c # bs) + 2) div 3 = Suc ((length bs + 2) div 3)"
    by (simp add: div_nat_eqI)
  then show ?case using 1 by simp
qed simp_all

lemma byte_masks: "(0x3F :: byte) = mask 6" "(0xF :: byte) = mask 4" "(0x3 :: byte) = mask 2"
  "(0xc0 :: byte) = push_bit 6 (mask 2)"
  by (simp_all add: mask_eq_exp_minus_1)

lemma six_bits: "\<forall>w \<in> set (enc_digits bs). unat w < 64"
proof -
  have lt: "unat w < 64" if "\<And>n. bit w n \<Longrightarrow> n < 6" for w :: byte
  proof -
    have "take_bit 6 w = w" using that by (auto intro!: bit_eqI simp: bit_simps)
    then have "unat w = take_bit 6 (unat w)" by (metis unsigned_take_bit_eq)
    then show ?thesis using take_bit_nat_less_exp [of 6 "unat w"] by simp
  qed
  show ?thesis
    by (cases bs rule: enc_digits.cases) (auto intro!: lt simp: byte_masks bit_simps)
qed

lemma byte_eqI:
  assumes "list_all (\<lambda>n. bit x n = bit (y :: byte) n) [0, 1, 2, 3, 4, 5, 6, 7]"
  shows "x = y"
proof (rule bit_eqI)
  fix n assume "possible_bit TYPE(byte) n"
  then have "n \<in> set [0, 1, 2, 3, 4, 5, 6, 7]" by (auto simp: less_Suc_eq numeral_eq_Suc)
  then show "bit x n = bit y n" using assms unfolding list_all_iff by blast
qed

lemma base64_out_enc:
  "base64_out (enc_digits [a, b, c]) = [a, b, c]"
  "take 2 (base64_out (enc_digits [a, b] @ [0])) = [a, b]"
  "take 1 (base64_out (enc_digits [a] @ [0, 0])) = [a]"
  unfolding base64_out_def byte_masks
  by (auto intro!: byte_eqI simp: byte_masks bit_simps) (simp_all add: numeral_2_eq_2 numeral_3_eq_3)

text \<open>A destination \<open>m\<close> into which \<open>xs\<close> was written from the start.\<close>

definition emitted :: "byte list \<Rightarrow> byte list \<Rightarrow> byte list \<times> nat" where
  "emitted m xs = (overwrite m 0 xs, length xs)"

lemma put_byte_emitted:
  assumes "length xs < length m"
  shows "put_byte (emitted m xs) c = Some (emitted m (xs @ [c]))"
proof -
  have "(overwrite m 0 xs)[length xs := c] = overwrite m 0 (xs @ [c])"
    using assms by (auto intro!: nth_equalityI simp: nth_overwrite nth_append nth_list_update)
  then show ?thesis using assms by (simp add: put_byte_def emitted_def mem_simps)
qed

lemma enc_char_Some: "unat w < 64 \<Longrightarrow> enc_char w = Some (base64_encode_table ! unat w)"
  by (simp add: enc_char_def base64_encode_table_def mem_simps)

abbreviation enc_text :: "byte list \<Rightarrow> byte list" where
  "enc_text bs \<equiv> map (\<lambda>w. base64_encode_table ! unat w) (enc_digits bs)"

fun full_text :: "byte list \<Rightarrow> byte list" where
  "full_text (a # b # c # bs) = enc_text [a, b, c] @ full_text bs"
| "full_text _ = []"

lemma base64_encode_groups_eq:
  "carr + sz \<le> length source \<Longrightarrow> length xs + 4 * (sz div 3) < length m \<Longrightarrow>
   base64_encode_groups source carr sz (emitted m xs) =
     Some (carr + 3 * (sz div 3), sz mod 3, emitted m (xs @ full_text (take sz (drop carr source))))"
proof (induction sz arbitrary: carr xs rule: less_induct)
  case (less sz)
  show ?case
  proof (cases "sz > 2")
    case False
    then have "full_text (take sz (drop carr source)) = []"
      by (cases "take sz (drop carr source)" rule: full_text.cases) (auto dest: arg_cong [where f = length])
    then show ?thesis using False by (subst base64_encode_groups.simps) simp
  next
    case True
    then obtain sz' where sz: "sz = Suc (Suc (Suc sz'))" by (metis One_nat_def Suc_1 less_iff_Suc_add add_Suc add_Suc_shift plus_1_eq_Suc)
    define a b c where "a = source ! carr" and "b = source ! (carr + 1)" and "c = source ! (carr + 2)"
    have get: "mem_get source carr = Some a" "mem_get source (carr + 1) = Some b" "mem_get source (carr + 2) = Some c"
      using less.prems(1) sz by (simp_all add: mem_simps a_def b_def c_def)
    have drop: "drop carr source = a # b # c # drop (carr + 3) source"
      using less.prems(1) sz by (simp add: a_def b_def c_def Cons_nth_drop_Suc numeral_eq_Suc)
    have div: "sz div 3 = Suc (sz' div 3)" "sz mod 3 = sz' mod 3" unfolding sz by presburger+
    have room: "length xs + 4 + 4 * (sz' div 3) < length m" using less.prems(2) div by simp
    have enc: "enc_char w = Some (base64_encode_table ! unat w)" if "w \<in> set (enc_digits [a, b, c])" for w
      using six_bits [of "[a, b, c]"] that by (intro enc_char_Some) blast
    have "base64_encode_groups source carr sz (emitted m xs) =
        base64_encode_groups source (carr + 3) sz' (emitted m (xs @ enc_text [a, b, c]))"
      using True get room enc sz by (subst base64_encode_groups.simps) (simp add: put_byte_emitted)
    also have "\<dots> = Some (carr + 3 + 3 * (sz' div 3), sz' mod 3,
        emitted m ((xs @ enc_text [a, b, c]) @ full_text (take sz' (drop (carr + 3) source))))"
      by (rule less.IH) (use less.prems sz room in simp_all)
    finally show ?thesis using div sz drop by simp
  qed
qed

lemma base64_text_full:
  "base64_text bs = full_text bs @ base64_text (drop (3 * (length bs div 3)) bs)"
proof (induction bs rule: base64_text.induct)
  case (1 a b c bs)
  have "3 * (length (a # b # c # bs) div 3) = Suc (Suc (Suc (3 * (length bs div 3))))"
  proof -
    have "(3 + length bs) div 3 = Suc (length bs div 3)" by presburger
    then show ?thesis by simp
  qed
  then show ?case using 1 by (simp only: drop_Suc_Cons full_text.simps base64_text.simps append_assoc)
qed simp_all

lemma base64_encode_eq:
  assumes "sz \<le> length source" "0 < length destination"
  defines "n \<equiv> min sz ((length destination - 1) div 4 * 3)"
  shows "base64_encode source sz destination (length destination) =
    Some (overwrite destination 0 (base64_text (take n source) @ [0]), 4 * ((n + 2) div 3) + 1)"
proof -
  define r where "r = n mod 3"
  define body where "body = full_text (take n source)"
  define tail where "tail = drop (3 * (n div 3)) (take n source)"
  have n: "n \<le> length source" "(if (length destination - 1) div 4 * 3 < sz then (length destination - 1) div 4 * 3 else sz) = n"
    using assms by (auto simp: min_def)
  have "n \<le> (length destination - 1) div 4 * 3" by (simp add: n_def)
  moreover have "(k + 2) div 3 \<le> q" if "k \<le> q * 3" for k q :: nat using that by presburger
  ultimately have "(n + 2) div 3 \<le> (length destination - 1) div 4" by blast
  then have fits: "4 * ((n + 2) div 3) < length destination" using assms(2) by linarith
  have text_eq: "base64_text (take n source) = body @ base64_text tail"
    using base64_text_full [of "take n source"] n(1) by (simp add: body_def tail_def min_def)
  have len_tail: "length tail = r" using n(1) by (simp add: tail_def r_def min_def) presburger
  have len: "length body + length (base64_text tail) = 4 * ((n + 2) div 3)"
    using arg_cong [OF text_eq, of length] n(1) by (simp add: length_base64_text)
  have groups: "base64_encode_groups source 0 n (destination, 0) = Some (3 * (n div 3), r, emitted destination body)"
    using base64_encode_groups_eq [of 0 n source "[]" destination] fits n(1)
    by (simp add: emitted_def body_def r_def)
  have tail_nth: "i < r \<Longrightarrow> mem_get source (3 * (n div 3) + i) = Some (tail ! i)" for i
    using n(1) len_tail by (simp add: tail_def mem_simps r_def)
  have enc: "enc_char w = Some (base64_encode_table ! unat w)" if "w \<in> set (enc_digits bs)" for w bs
    using six_bits [of bs] that by (intro enc_char_Some) blast
  have fin: "put_byte (emitted destination (body @ base64_text tail)) 0 =
      Some (emitted destination ((body @ base64_text tail) @ [0]))"
    using len fits by (intro put_byte_emitted) simp
  consider (0) "tail = []" "r = 0" | (1) a where "tail = [a]" "r = 1" | (2) a b where "tail = [a, b]" "r = 2"
    using len_tail by (cases tail rule: base64_text.cases) (auto simp: r_def)
  then have rest: "base64_encode_rest source (3 * (n div 3)) r (emitted destination body) =
      Some (emitted destination (body @ base64_text tail))"
  proof cases
    case 0
    then show ?thesis by (simp add: base64_encode_rest_def)
  next
    case (1 a)
    then show ?thesis
      using len fits tail_nth [of 0] enc [of _ "[a]"] by (simp add: base64_encode_rest_def put_byte_emitted)
  next
    case (2 a b)
    then show ?thesis
      using len fits tail_nth [of 0] tail_nth [of 1] enc [of _ "[a, b]"]
      by (simp add: base64_encode_rest_def put_byte_emitted)
  qed
  show ?thesis
    unfolding base64_encode_def Let_def n(2) groups
    using rest fin text_eq len assms(2) by (simp add: emitted_def)
qed

lemma digits_enc_text: "digits (enc_text bs) = enc_digits bs"
proof -
  have "digits (map (\<lambda>w. base64_encode_table ! unat w) ds) = ds" if "\<forall>w \<in> set ds. unat w < 64" for ds
    using that
  proof (induction ds)
    case (Cons w ds)
    then obtain c where "enc_char w = Some c" "digit c = Some w" using digit_enc_char by auto
    then show ?case using Cons enc_char_Some [of w] by simp
  qed simp
  then show ?thesis using six_bits by blast
qed

lemma digit_special: "digit 61 = None" "digit 0 = None"
  by code_simp+

lemma undigits_append4: "length xs = 4 \<Longrightarrow> undigits (xs @ ys) = base64_out xs @ undigits ys"
  by (auto simp: numeral_eq_Suc length_Suc_conv)

lemma undigits_base64_text: "undigits (digits (base64_text bs)) = bs"
proof (induction bs rule: base64_text.induct)
  case (1 a b c bs)
  have "digits (base64_text (a # b # c # bs)) = enc_digits [a, b, c] @ digits (base64_text bs)"
    by (simp only: base64_text.simps digits_append digits_enc_text)
  then show ?case using 1 base64_out_enc(1) [of a b c] undigits_append4 [of "enc_digits [a, b, c]"] by simp
next
  case (2 a b)
  have "digits (base64_text [a, b]) = enc_digits [a, b]"
    by (simp only: base64_text.simps digits_append digits_enc_text) (simp add: digit_special)
  then show ?case using base64_out_enc(2) [of a b] by simp
next
  case (3 a)
  have "digits (base64_text [a]) = enc_digits [a]"
    by (simp only: base64_text.simps digits_append digits_enc_text) (simp add: digit_special)
  then show ?case using base64_out_enc(3) [of a] by simp
qed simp

section \<open>The specification of decoding\<close>

text \<open>
  The reading of a text after RFC 4648, independent of the tables and the shifts of the code: the
  value of a character is its place in the alphabet, and the values of a group are the digits of
  a number to the base 64, whose leading bytes are the bytes of the group.
\<close>

definition base64_index :: "byte \<Rightarrow> nat option" where
  "base64_index ch = (let n = unat ch in
     if 65 \<le> n \<and> n \<le> 90 then Some (n - 65)
     else if 97 \<le> n \<and> n \<le> 122 then Some (n - 97 + 26)
     else if 48 \<le> n \<and> n \<le> 57 then Some (n - 48 + 52)
     else if n = 43 then Some 62
     else if n = 47 then Some 63
     else None)"

fun base64_bytes :: "nat list \<Rightarrow> byte list" where
  "base64_bytes (a # b # c # d # ds) =
     (let v = a * 2 ^ 18 + b * 2 ^ 12 + c * 2 ^ 6 + d
      in [of_nat (v div 2 ^ 16), of_nat (v div 2 ^ 8 mod 2 ^ 8), of_nat (v mod 2 ^ 8)]) @ base64_bytes ds"
| "base64_bytes [a, b, c] =
     (let v = a * 2 ^ 12 + b * 2 ^ 6 + c in [of_nat (v div 2 ^ 10), of_nat (v div 2 ^ 2 mod 2 ^ 8)])"
| "base64_bytes [a, b] = (let v = a * 2 ^ 6 + b in [of_nat (v div 2 ^ 4)])"
| "base64_bytes _ = []"

lemma digit_index_table:
  "list_all (\<lambda>n. digit (of_nat n) = map_option of_nat (base64_index (of_nat n))) [43..<123]"
  by code_simp

lemma sint_outside_table:
  "list_all (\<lambda>n. sint (of_nat n :: byte) < 43 \<or> sint (of_nat n :: byte) > 122) ([0..<43] @ [123..<256])"
  by code_simp

lemma digit_index: "digit ch = map_option of_nat (base64_index ch)"
proof (cases "43 \<le> unat ch \<and> unat ch < 123")
  case True
  then have "unat ch \<in> set [43..<123]" by (simp only: set_upt atLeastLessThan_iff)
  then have "digit (of_nat (unat ch)) = map_option of_nat (base64_index (of_nat (unat ch)))"
    using digit_index_table unfolding list_all_iff by blast
  then show ?thesis by simp
next
  case False
  moreover have "unat ch < 256" using unsigned_less [of ch, where ?'a = nat] by simp
  ultimately have "unat ch \<in> set ([0..<43] @ [123..<256])"
    by (simp only: set_append set_upt Un_iff atLeastLessThan_iff) auto
  then have "sint (of_nat (unat ch) :: byte) < 43 \<or> sint (of_nat (unat ch) :: byte) > 122"
    using sint_outside_table unfolding list_all_iff by blast
  then have "digit ch = None" by (simp add: digit_None base64_value_def)
  then show ?thesis using False by (auto simp: base64_index_def Let_def)
qed

lemma base64_index_less: "base64_index ch = Some n \<Longrightarrow> n < 64"
  by (auto simp: base64_index_def Let_def split: if_splits)

lemma digits_index: "digits cs = map of_nat (List.map_filter base64_index cs)"
  by (induction cs) (auto simp: digit_index List.map_filter_simps split: option.splits)

lemma or_small:
  assumes "b < 2 ^ k"
  shows "push_bit k (of_nat a) OR (of_nat b :: byte) = of_nat (2 ^ k * a + b)"
proof -
  have "\<not> bit b n" if "k \<le> n" for n
  proof -
    have "(2 :: nat) ^ k \<le> 2 ^ n" using that by simp
    then have "b < 2 ^ n" using assms by (rule less_le_trans [rotated])
    then show ?thesis by (simp add: bit_iff_odd)
  qed
  then have "push_bit k (of_nat a :: byte) AND of_nat b = 0"
    by (intro bit_eqI) (simp add: bit_simps)
  then have "push_bit k (of_nat a) OR (of_nat b :: byte) = push_bit k (of_nat a) + of_nat b"
    by (simp add: disjunctive_add_eq_or)
  then show ?thesis by (simp add: push_bit_eq_mult mult.commute)
qed

lemma numeral_pow256: "2 ^ 8 = (256 :: nat)"
  by simp

lemma word_of_nat_mod256: "(of_nat (n mod 256) :: byte) = of_nat n"
  by (rule unsigned_word_eqI [where ?'a = nat]) (simp add: unat_of_nat)

lemma drop_bit_of_nat_byte:
  assumes "n < 256"
  shows "drop_bit k (of_nat n :: byte) = of_nat (n div 2 ^ k)"
proof -
  have "n div 2 ^ k < 256" using assms by (rule le_less_trans [OF div_le_dividend])
  then have "unat (of_nat (n div 2 ^ k) :: byte) = n div 2 ^ k" by (simp add: unat_of_nat)
  moreover have "unat (drop_bit k (of_nat n :: byte)) = drop_bit k n"
    unfolding unsigned_drop_bit_eq using assms by (simp add: unat_of_nat take_bit_eq_mod)
  ultimately show ?thesis
    by (intro unsigned_word_eqI [where ?'a = nat]) (simp only: drop_bit_eq_div)
qed

lemma word_of_nat_high256: "(of_nat (256 * k + n) :: byte) = of_nat n"
  using word_of_nat_mod256 [of "256 * k + n"] word_of_nat_mod256 [of n] by simp

lemma base64_out_arith:
  assumes "a < 64" "b < 64" "c < 64" "d < 64"
  defines "v \<equiv> a * 2 ^ 18 + b * 2 ^ 12 + c * 2 ^ 6 + d"
  shows "base64_out [of_nat a, of_nat b, of_nat c, of_nat d] =
    [of_nat (v div 2 ^ 16), of_nat (v div 2 ^ 8 mod 2 ^ 8), of_nat (v mod 2 ^ 8)]"
proof -
  have v: "v div 2 ^ 16 = 2 ^ 2 * a + b div 2 ^ 4" "v div 2 ^ 8 = 256 * (4 * a) + (2 ^ 4 * b + c div 2 ^ 2)"
    "v = 256 * (1024 * a + 16 * b) + (2 ^ 6 * c + d)"
    using assms(2-4) unfolding v_def by simp_all
  have out2: "push_bit 6 (of_nat c :: byte) AND 0xc0 = push_bit 6 (of_nat c)"
    unfolding byte_masks by (rule bit_eqI) (auto simp: bit_simps)
  have "base64_out [of_nat a, of_nat b, of_nat c, of_nat d] =
      [of_nat (2 ^ 2 * a + b div 2 ^ 4), of_nat (2 ^ 4 * b + c div 2 ^ 2), of_nat (2 ^ 6 * c + d)]"
    using or_small [of "b div 2 ^ 4" 2 a] or_small [of "c div 2 ^ 2" 4 b] or_small [of d 6 c] assms(1-4)
    by (simp add: base64_out_def out2 drop_bit_of_nat_byte)
  moreover have "of_nat (v div 2 ^ 8 mod 2 ^ 8) = (of_nat (2 ^ 4 * b + c div 2 ^ 2) :: byte)"
    using word_of_nat_mod256 [of "v div 2 ^ 8"] word_of_nat_high256 [of "4 * a"]
    unfolding v(2) by (metis numeral_pow256)
  moreover have "of_nat (v mod 2 ^ 8) = (of_nat (2 ^ 6 * c + d) :: byte)"
    using word_of_nat_mod256 [of v] word_of_nat_high256 [of "1024 * a + 16 * b" "2 ^ 6 * c + d"]
    unfolding v(3) [symmetric] by (metis numeral_pow256)
  ultimately show ?thesis unfolding v(1) by simp
qed

lemma undigits_arith:
  "\<forall>n \<in> set ns. n < 64 \<Longrightarrow> undigits (map of_nat ns) = base64_bytes ns"
proof (induction ns rule: base64_bytes.induct)
  case (1 a b c d ds)
  then show ?case using base64_out_arith [of a b c d] by (simp add: Let_def)
next
  case (2 a b c)
  have "(a * 2 ^ 18 + b * 2 ^ 12 + c * 2 ^ 6 + 0) div 2 ^ 6 = a * 2 ^ 12 + b * 2 ^ 6 + c" by simp
  then have "(a * 2 ^ 18 + b * 2 ^ 12 + c * 2 ^ 6 + 0) div 2 ^ 16 = (a * 2 ^ 12 + b * 2 ^ 6 + c) div 2 ^ 10"
    "(a * 2 ^ 18 + b * 2 ^ 12 + c * 2 ^ 6 + 0) div 2 ^ 8 = (a * 2 ^ 12 + b * 2 ^ 6 + c) div 2 ^ 2"
    by simp_all
  then show ?case using base64_out_arith [of a b c 0] 2 by (simp add: Let_def)
next
  case (3 a b)
  have "(a * 2 ^ 18 + b * 2 ^ 12 + 0 * 2 ^ 6 + 0) div 2 ^ 12 = a * 2 ^ 6 + b" by simp
  then have "(a * 2 ^ 18 + b * 2 ^ 12 + 0 * 2 ^ 6 + 0) div 2 ^ 16 = (a * 2 ^ 6 + b) div 2 ^ 4"
    by simp
  then show ?case using base64_out_arith [of a b 0 0] 3 by (simp add: Let_def)
qed simp_all

lemma undigits_digits: "undigits (digits cs) = base64_bytes (List.map_filter base64_index cs)"
proof -
  have "\<forall>n \<in> set (List.map_filter base64_index cs). n < 64"
    by (auto simp: List.map_filter_def base64_index_less)
  then show ?thesis by (simp add: digits_index undigits_arith)
qed

section \<open>Properties\<close>

text \<open>
  C9. Decoding, on any source text, stays in bounds and ends. Its output is the reading of the
  text after RFC 4648: the values of the characters of the alphabet (A-Z, a-z, 0-9, + and /, in
  this order; all others are skipped) as digits to the base 64, four of them giving the three
  bytes of a 24-bit number, and three or two at the end the two or one whole bytes of theirs. The
  destination starts with this output cut to the capacity, the rest of it is unchanged, and the
  number of bytes written is returned.
\<close>

theorem base64_decode_correct:
  assumes "sz \<le> length source"
  shows "base64_decode source sz destination (length destination) =
    (let out = take (length destination) (base64_bytes (List.map_filter base64_index (take sz source)))
     in Some (overwrite destination 0 out, length out))"
  using base64_decode_loop_eq [of 0 sz source "(destination, 0)" "length destination"] assms
  by (simp add: base64_decode_def undigits_digits)

theorem base64_decode_correct_witness:
  "base64_decode [84, 10, 87, 70, 61, 61] 6 (replicate 8 0) 8 = Some ([0x4d, 0x61, 0, 0, 0, 0, 0, 0], 2)"
proof -
  have "base64_bytes (List.map_filter base64_index [84, 10, 87, 70, 61, 61]) = [0x4d, 0x61]"
    by (simp add: base64_index_def List.map_filter_simps)
  then show ?thesis
    using base64_decode_correct [of 6 "[84, 10, 87, 70, 61, 61]" "replicate 8 0"]
    by (simp add: overwrite_def numeral_eq_Suc)
qed

text \<open>
  C10. Encoding into a buffer with room for the text and its terminator, and decoding the text
  into a buffer with room for the bytes, gives the bytes back. The encoder returns the length of
  the text with the terminator, four characters per started group of three bytes.
\<close>

theorem base64_round_trip:
  assumes "4 * ((length source + 2) div 3) < length buf" "length source \<le> length destination"
  shows "\<exists>text'. base64_encode source (length source) buf (length buf) = Some (text', 4 * ((length source + 2) div 3) + 1) \<and>
    base64_decode text' (4 * ((length source + 2) div 3) + 1) destination (length destination) =
      Some (overwrite destination 0 source, length source)"
proof -
  let ?t = "base64_text source @ [0]"
  have "length source \<le> (length buf - 1) div 4 * 3"
  proof -
    have "(length source + 2) div 3 \<le> (length buf - 1) div 4" using assms(1) by simp
    moreover have "length source \<le> (length source + 2) div 3 * 3" by presburger
    ultimately show ?thesis by (meson le_trans mult_le_mono1)
  qed
  then have enc: "base64_encode source (length source) buf (length buf) =
      Some (overwrite buf 0 ?t, 4 * ((length source + 2) div 3) + 1)"
    using base64_encode_eq [OF le_refl, of buf source] assms(1) by (fastforce simp: min_def)
  have len: "length ?t = 4 * ((length source + 2) div 3) + 1" by (simp add: length_base64_text)
  then have take_t: "take (length ?t) (overwrite buf 0 ?t) = ?t" by (simp add: overwrite_def)
  have "undigits (digits ?t) = source"
    by (simp add: digits_append digit_special undigits_base64_text)
  then have "base64_decode (overwrite buf 0 ?t) (length ?t) destination (length destination) =
      Some (overwrite destination 0 source, length source)"
    using base64_decode_loop_eq [of 0 "length ?t" "overwrite buf 0 ?t" "(destination, 0)" "length destination"]
      assms len take_t by (simp add: base64_decode_def)
  then show ?thesis using enc len by auto
qed

theorem base64_round_trip_witness:
  "\<exists>text'. base64_encode [0x4d, 0x61] 2 (replicate 5 0) 5 = Some (text', 5) \<and>
    base64_decode text' 5 [7, 7, 7] 3 = Some ([0x4d, 0x61, 7], 2)"
  using base64_round_trip [of "[0x4d, 0x61]" "replicate 5 0" "[7, 7, 7]"]
  by (simp add: overwrite_def flip: numeral_2_eq_2 numeral_3_eq_3)

end
