(* ===== verification/Radixsort.thy ===== *)
theory Radixsort
  imports Byteorder
begin

text \<open>
  \<open>foundation/radixsort.c\<close>: least-significant-byte-first radix sort of an array of integers,
  floating point values or custom unsigned values into a sequence of indices. The input is the
  memory of the array. The tables of the sorter are lists of the values their elements hold;
  arithmetic on 16-bit and 32-bit table elements is written out modulo \<open>2 ^ w\<close>, so that the
  16-bit and the 32-bit routines are the instances \<open>w = 16\<close> and \<open>w = 32\<close> of one definition.
  The host is little endian. Floating point values are their bit patterns, compared as IEEE 754
  prescribes.
\<close>

section \<open>State\<close>

datatype radixsort_data_t =
  RADIXSORT_INT32 | RADIXSORT_UINT32 | RADIXSORT_INT64 | RADIXSORT_UINT64 |
  RADIXSORT_FLOAT32 | RADIXSORT_FLOAT64 | RADIXSORT_CUSTOM

datatype radixsort_indextype_t = RADIXSORT_INDEX16 | RADIXSORT_INDEX32

fun data_index :: "radixsort_data_t \<Rightarrow> nat" where
  "data_index RADIXSORT_INT32 = 0"
| "data_index RADIXSORT_UINT32 = 1"
| "data_index RADIXSORT_INT64 = 2"
| "data_index RADIXSORT_UINT64 = 3"
| "data_index RADIXSORT_FLOAT32 = 4"
| "data_index RADIXSORT_FLOAT64 = 5"
| "data_index RADIXSORT_CUSTOM = 6"

definition radixsort_data_size :: "nat list" where
  "radixsort_data_size = [4, 4, 8, 8, 4, 8]"

definition radixsort_data_shift :: "nat list" where
  "radixsort_data_shift = [2, 2, 3, 3, 2, 3]"

definition radixsort_data_signed :: "bool list" where
  "radixsort_data_signed = [True, False, True, False, True, True]"

record radixsort_t =
  rx_type :: radixsort_data_t
  rx_indextype :: radixsort_indextype_t
  rx_custom_data_size :: size_t
  rx_size :: size_t
  rx_lastused :: size_t
  rx_indices0 :: "nat list"
  rx_indices1 :: "nat list"
  rx_histogram :: "nat list list"
  rx_offset :: "nat list"

definition rx_data_size :: "radixsort_t \<Rightarrow> nat" where
  "rx_data_size rs = (if rx_type rs \<noteq> RADIXSORT_CUSTOM then radixsort_data_size ! data_index (rx_type rs)
     else rx_custom_data_size rs)"

section \<open>Comparison of values\<close>

text \<open>A value of \<open>n\<close> bytes in memory, and the order of its type on such values.\<close>

definition read_value :: "nat \<Rightarrow> byte list \<Rightarrow> nat \<Rightarrow> nat option" where
  "read_value ds input i = map_option le_value (mem_load input (i * ds) ds)"

definition signed_value :: "nat \<Rightarrow> nat \<Rightarrow> int" where
  "signed_value bits v = (if v \<ge> 2 ^ (bits - 1) then int v - 2 ^ bits else int v)"

definition float_nan :: "nat \<Rightarrow> nat \<Rightarrow> bool" where
  "float_nan bits v = (v mod 2 ^ (bits - 1) > (if bits = 32 then 0x7f800000 else 0x7ff0000000000000))"

definition float_value :: "nat \<Rightarrow> nat \<Rightarrow> int" where
  "float_value bits v = (if v \<ge> 2 ^ (bits - 1) then - int (v mod 2 ^ (bits - 1)) else int v)"

definition float_less :: "nat \<Rightarrow> nat \<Rightarrow> nat \<Rightarrow> bool" where
  "float_less bits v w \<longleftrightarrow> \<not> float_nan bits v \<and> \<not> float_nan bits w \<and> float_value bits v < float_value bits w"

section \<open>Histograms\<close>

text \<open>\<open>++(histogram[ih][b])\<close>\<close>

definition bump :: "nat \<Rightarrow> nat list list \<Rightarrow> nat \<Rightarrow> byte \<Rightarrow> nat list list" where
  "bump w hist ih b = hist[ih := (hist ! ih)[unat b := (hist ! ih ! unat b + 1) mod 2 ^ w]]"

text \<open>The increments for the bytes of one element.\<close>

fun count_bytes :: "nat \<Rightarrow> nat list list \<Rightarrow> nat \<Rightarrow> byte list \<Rightarrow> nat list list" where
  "count_bytes w hist ih [] = hist"
| "count_bytes w hist ih (b # bs) = count_bytes w (bump w hist ih b) (ih + 1) bs"

text \<open>
  The loop that counts the elements while the previous order of indices is still sorted. It
  returns the number of elements it counted.
\<close>

function presort_loop :: "nat \<Rightarrow> (nat \<Rightarrow> nat \<Rightarrow> bool) \<Rightarrow> nat \<Rightarrow> byte list \<Rightarrow> nat list \<Rightarrow> size_t \<Rightarrow> nat \<Rightarrow> nat \<Rightarrow>
    nat list list \<Rightarrow> (nat \<times> nat list list) option" where
  "presort_loop w lt ds input indices cnt prev_val i hist =
     (if i < cnt then
        do { curindex \<leftarrow> mem_get indices i;
             if curindex \<ge> cnt then Some (i, hist)
             else do {
               val \<leftarrow> read_value ds input curindex;
               if lt val prev_val then Some (i, hist)
               else do {
                 bytes \<leftarrow> mem_load input (i * ds) ds;
                 presort_loop w lt ds input indices cnt val (i + 1) (count_bytes w hist 0 bytes) } } }
      else Some (i, hist))"
  by pat_completeness auto
termination
  by (relation "measure (\<lambda>(w, lt, ds, input, indices, cnt, prev_val, i, hist). cnt - i)") auto

declare presort_loop.simps [simp del]

definition presort :: "nat \<Rightarrow> (nat \<Rightarrow> nat \<Rightarrow> bool) \<Rightarrow> nat \<Rightarrow> byte list \<Rightarrow> nat list \<Rightarrow> size_t \<Rightarrow>
    nat list list \<Rightarrow> (nat \<times> nat list list) option" where
  "presort w lt ds input indices cnt hist =
     do { prev_val \<leftarrow> read_value ds input 0;
          presort_loop w lt ds input indices cnt prev_val 0 hist }"

definition presort_int32 :: "nat \<Rightarrow> byte list \<Rightarrow> nat list \<Rightarrow> size_t \<Rightarrow> nat list list \<Rightarrow> (nat \<times> nat list list) option" where
  "presort_int32 w = presort w (\<lambda>val prev_val. signed_value 32 val < signed_value 32 prev_val) 4"

definition presort_uint32 :: "nat \<Rightarrow> byte list \<Rightarrow> nat list \<Rightarrow> size_t \<Rightarrow> nat list list \<Rightarrow> (nat \<times> nat list list) option" where
  "presort_uint32 w = presort w (\<lambda>val prev_val. val < prev_val) 4"

definition presort_int64 :: "nat \<Rightarrow> byte list \<Rightarrow> nat list \<Rightarrow> size_t \<Rightarrow> nat list list \<Rightarrow> (nat \<times> nat list list) option" where
  "presort_int64 w = presort w (\<lambda>val prev_val. signed_value 64 val < signed_value 64 prev_val) 8"

definition presort_uint64 :: "nat \<Rightarrow> byte list \<Rightarrow> nat list \<Rightarrow> size_t \<Rightarrow> nat list list \<Rightarrow> (nat \<times> nat list list) option" where
  "presort_uint64 w = presort w (\<lambda>val prev_val. val < prev_val) 8"

definition presort_float32 :: "nat \<Rightarrow> byte list \<Rightarrow> nat list \<Rightarrow> size_t \<Rightarrow> nat list list \<Rightarrow> (nat \<times> nat list list) option" where
  "presort_float32 w = presort w (float_less 32) 4"

definition presort_float64 :: "nat \<Rightarrow> byte list \<Rightarrow> nat list \<Rightarrow> size_t \<Rightarrow> nat list list \<Rightarrow> (nat \<times> nat list list) option" where
  "presort_float64 w = presort w (float_less 64) 8"

text \<open>The switch over the data type; a custom type is not checked.\<close>

fun presort_switch :: "radixsort_data_t \<Rightarrow> nat \<Rightarrow> byte list \<Rightarrow> nat list \<Rightarrow> size_t \<Rightarrow> nat list list \<Rightarrow> (nat \<times> nat list list) option" where
  "presort_switch RADIXSORT_INT32 w input indices cnt hist = presort_int32 w input indices cnt hist"
| "presort_switch RADIXSORT_UINT32 w input indices cnt hist = presort_uint32 w input indices cnt hist"
| "presort_switch RADIXSORT_INT64 w input indices cnt hist = presort_int64 w input indices cnt hist"
| "presort_switch RADIXSORT_UINT64 w input indices cnt hist = presort_uint64 w input indices cnt hist"
| "presort_switch RADIXSORT_FLOAT32 w input indices cnt hist = presort_float32 w input indices cnt hist"
| "presort_switch RADIXSORT_FLOAT64 w input indices cnt hist = presort_float64 w input indices cnt hist"
| "presort_switch RADIXSORT_CUSTOM w input indices cnt hist = Some (0, hist)"

text \<open>\<open>indexarr[ih] = ih\<close> for the first elements of an index table\<close>

definition reset_indices :: "nat \<Rightarrow> size_t \<Rightarrow> nat list \<Rightarrow> nat list option" where
  "reset_indices w cnt indices = mem_store indices 0 (map (\<lambda>ih. ih mod 2 ^ w) [0..<cnt])"

text \<open>The rest of the counting, without checks.\<close>

function finish_histograms :: "nat \<Rightarrow> nat \<Rightarrow> byte list \<Rightarrow> size_t \<Rightarrow> nat \<Rightarrow> nat list list \<Rightarrow> nat list list option" where
  "finish_histograms w ds input cnt i hist =
     (if i < cnt then
        do { bytes \<leftarrow> mem_load input (i * ds) ds;
             finish_histograms w ds input cnt (i + 1) (count_bytes w hist 0 bytes) }
      else Some hist)"
  by pat_completeness auto
termination by (relation "measure (\<lambda>(w, ds, input, cnt, i, hist). cnt - i)") auto

declare finish_histograms.simps [simp del]

definition radixsort_create_histograms :: "nat \<Rightarrow> radixsort_t \<Rightarrow> byte list \<Rightarrow> size_t \<Rightarrow> (radixsort_t \<times> bool) option" where
  "radixsort_create_histograms w rs input cnt =
     (let ds = rx_data_size rs;
          hist = replicate ds (replicate 256 0)
      in do {
        (i, hist) \<leftarrow> (if cnt \<le> rx_lastused rs \<and> rx_type rs \<noteq> RADIXSORT_CUSTOM
             then presort_switch (rx_type rs) w input (rx_indices0 rs) cnt hist
             else Some (0, hist));
        if i * ds = cnt * ds then Some (rs\<lparr>rx_histogram := hist\<rparr>, True)
        else do {
          rs \<leftarrow> (if cnt \<noteq> rx_lastused rs then
               do { ind0 \<leftarrow> reset_indices w cnt (rx_indices0 rs);
                    ind1 \<leftarrow> reset_indices w cnt (rx_indices1 rs);
                    Some (rs\<lparr>rx_indices0 := ind0, rx_indices1 := ind1\<rparr>) }
             else Some rs);
          hist \<leftarrow> finish_histograms w ds input cnt i hist;
          Some (rs\<lparr>rx_histogram := hist\<rparr>, False) } })"

section \<open>Passes\<close>

text \<open>
  \<open>for (; n; --n, ++offset, ++current_count) { next = prev + *current_count; prev = next; *offset = next; }\<close>
  with the positions \<open>oi\<close> and \<open>ci\<close>, and the same with both pointers moving down.
\<close>

fun prefix_up :: "nat \<Rightarrow> nat list \<Rightarrow> nat \<Rightarrow> nat \<Rightarrow> nat \<Rightarrow> nat \<Rightarrow> nat list \<Rightarrow> nat list" where
  "prefix_up w counts 0 prev ci oi ofs = ofs"
| "prefix_up w counts (Suc n) prev ci oi ofs =
     (let nxt = (prev + counts ! ci) mod 2 ^ w
      in prefix_up w counts n nxt (ci + 1) (oi + 1) (ofs[oi := nxt]))"

fun prefix_down :: "nat \<Rightarrow> nat list \<Rightarrow> nat \<Rightarrow> nat \<Rightarrow> nat \<Rightarrow> nat \<Rightarrow> nat list \<Rightarrow> nat list" where
  "prefix_down w counts 0 prev ci oi ofs = ofs"
| "prefix_down w counts (Suc n) prev ci oi ofs =
     (let nxt = (prev + counts ! ci) mod 2 ^ w
      in prefix_down w counts n nxt (ci - 1) (oi - 1) (ofs[oi := nxt]))"

definition offsets_unsigned :: "nat \<Rightarrow> nat list \<Rightarrow> nat list \<Rightarrow> nat list" where
  "offsets_unsigned w counts ofs = prefix_up w counts 255 0 0 1 (ofs[0 := 0])"

definition offsets_signed :: "nat \<Rightarrow> nat list \<Rightarrow> nat \<Rightarrow> nat list \<Rightarrow> nat list" where
  "offsets_signed w counts negatives ofs =
     (let ofs = prefix_up w counts 127 negatives 0 1 (ofs[0 := negatives])
      in prefix_up w counts 127 0 128 129 (ofs[128 := 0]))"

definition offsets_float :: "nat \<Rightarrow> nat list \<Rightarrow> nat \<Rightarrow> nat list \<Rightarrow> nat list" where
  "offsets_float w counts negatives ofs =
     (let ofs = prefix_up w counts 127 negatives 0 1 (ofs[0 := negatives]);
          ofs = prefix_down w counts 127 0 255 254 (ofs[255 := 0])
      in fold (\<lambda>ival ofs. ofs[ival := (ofs ! ival + counts ! ival) mod 2 ^ w]) [128..<256] ofs)"

definition count_negatives :: "nat \<Rightarrow> nat list \<Rightarrow> nat" where
  "count_negatives w counts = fold (\<lambda>ival n. (n + counts ! ival) mod 2 ^ w) [128..<256] 0"

text \<open>\<open>indices_next[offset[input_bytes[pos ix]]++] = ix\<close> for the indices in order\<close>

fun scatter :: "nat \<Rightarrow> (nat \<Rightarrow> nat) \<Rightarrow> byte list \<Rightarrow> nat list \<Rightarrow> nat list \<Rightarrow> nat list \<Rightarrow> (nat list \<times> nat list) option" where
  "scatter w pos input [] ofs nxt = Some (ofs, nxt)"
| "scatter w pos input (ix # ids) ofs nxt =
     do { b \<leftarrow> mem_get input (pos ix);
          nxt \<leftarrow> mem_set nxt (ofs ! unat b) ix;
          scatter w pos input ids (ofs[unat b := (ofs ! unat b + 1) mod 2 ^ w]) nxt }"

text \<open>
  The floating point variant: positive values forward, negative values backward. \<open>radix\<close> is
  the top byte of the value.
\<close>

fun scatter_float :: "nat \<Rightarrow> nat \<Rightarrow> byte list \<Rightarrow> nat list \<Rightarrow> nat list \<Rightarrow> nat list \<Rightarrow> (nat list \<times> nat list) option" where
  "scatter_float w ds input [] ofs nxt = Some (ofs, nxt)"
| "scatter_float w ds input (ix # ids) ofs nxt =
     do { v \<leftarrow> read_value ds input ix;
          let radix = v div 2 ^ (8 * (ds - 1));
          if radix < 128 then
            do { nxt \<leftarrow> mem_set nxt (ofs ! radix) ix;
                 scatter_float w ds input ids (ofs[radix := (ofs ! radix + 1) mod 2 ^ w]) nxt }
          else
            do { let o' = (ofs ! radix + 2 ^ w - 1) mod 2 ^ w;
                 nxt \<leftarrow> mem_set nxt o' ix;
                 scatter_float w ds input ids (ofs[radix := o']) nxt } }"

text \<open>Storing the scattered indices and swapping the two tables.\<close>

definition rx_swap :: "radixsort_t \<Rightarrow> nat list \<times> nat list \<Rightarrow> radixsort_t" where
  "rx_swap rs r = rs\<lparr>rx_offset := fst r, rx_indices0 := snd r, rx_indices1 := rx_indices0 rs\<rparr>"

text \<open>Where the byte of a pass lies in the element; the product is a 32-bit operation.\<close>

definition byte_position :: "radixsort_t \<Rightarrow> nat \<Rightarrow> nat \<Rightarrow> nat" where
  "byte_position rs ipass ix = ipass +
     (if rx_type rs \<noteq> RADIXSORT_CUSTOM then ix * 2 ^ (radixsort_data_shift ! data_index (rx_type rs))
      else ix * rx_custom_data_size rs) mod 2 ^ 32"

definition radixsort_int_pass :: "nat \<Rightarrow> byte list \<Rightarrow> size_t \<Rightarrow> bool \<Rightarrow> nat \<Rightarrow> nat \<Rightarrow> radixsort_t \<Rightarrow> radixsort_t option" where
  "radixsort_int_pass w input cnt data_signed negatives ipass rs =
     (let current_count = rx_histogram rs ! ipass
      in do {
        first \<leftarrow> mem_get input ipass;
        if current_count ! unat first \<noteq> cnt then
          (let ofs = (if ipass \<noteq> rx_data_size rs - 1 \<or> \<not> data_signed
                      then offsets_unsigned w current_count (rx_offset rs)
                      else offsets_signed w current_count negatives (rx_offset rs))
           in do {
             ids \<leftarrow> mem_load (rx_indices0 rs) 0 cnt;
             r \<leftarrow> scatter w (byte_position rs ipass) input ids ofs (rx_indices1 rs);
             Some (rx_swap rs r) })
        else Some rs })"

definition radixsort_float_pass :: "nat \<Rightarrow> byte list \<Rightarrow> size_t \<Rightarrow> nat \<Rightarrow> nat \<Rightarrow> radixsort_t \<Rightarrow> radixsort_t option" where
  "radixsort_float_pass w input cnt negatives ipass rs =
     (let current_count = rx_histogram rs ! ipass
      in do {
        first \<leftarrow> mem_get input ipass;
        ids \<leftarrow> mem_load (rx_indices0 rs) 0 cnt;
        if ipass \<noteq> rx_data_size rs - 1 then
          (if current_count ! unat first \<noteq> cnt then
             do { r \<leftarrow> scatter w (byte_position rs ipass) input ids
                    (offsets_unsigned w current_count (rx_offset rs)) (rx_indices1 rs);
                  Some (rx_swap rs r) }
           else Some rs)
        else if current_count ! unat first \<noteq> cnt then
          do { r \<leftarrow> scatter_float w (rx_data_size rs) input ids
                 (offsets_float w current_count negatives (rx_offset rs)) (rx_indices1 rs);
               Some (rx_swap rs r) }
        else if unat first \<ge> 128 then
          do { nxt \<leftarrow> mem_store (rx_indices1 rs) 0 (rev ids);
               Some (rx_swap rs (rx_offset rs, nxt)) }
        else Some rs })"

fun run_passes :: "(nat \<Rightarrow> 's \<Rightarrow> 's option) \<Rightarrow> nat list \<Rightarrow> 's \<Rightarrow> 's option" where
  "run_passes f [] s = Some s"
| "run_passes f (i # is) s = do { s \<leftarrow> f i s; run_passes f is s }"

text \<open>
  The two routines for integers differ in the width \<open>w\<close> of an index only. They first read the shift
  of the data type from its table, whatever the type: a checked access, as \<open>RADIXSORT_CUSTOM\<close> has no
  entry there. (The shift is used, in \<^const>\<open>byte_position\<close>, for the types that have one.)
\<close>

definition radixsort_int_sort :: "nat \<Rightarrow> radixsort_t \<Rightarrow> byte list \<Rightarrow> size_t \<Rightarrow> radixsort_t option" where
  "radixsort_int_sort w rs input cnt =
     (let data_size = rx_data_size rs;
          data_signed = (if rx_type rs \<noteq> RADIXSORT_CUSTOM then radixsort_data_signed ! data_index (rx_type rs) else False)
      in if cnt = 0 then Some rs
         else do {
           (rs, already) \<leftarrow> radixsort_create_histograms w rs input cnt;
           if already then Some rs
           else let negatives = (if data_signed then count_negatives w (rx_histogram rs ! (data_size - 1)) else 0)
                in run_passes (radixsort_int_pass w input cnt data_signed negatives) [0..<data_size] rs })"

definition radixsort_int :: "nat \<Rightarrow> radixsort_t \<Rightarrow> byte list \<Rightarrow> size_t \<Rightarrow> radixsort_t option" where
  "radixsort_int w rs input cnt =
     do { data_shift \<leftarrow> mem_get radixsort_data_shift (data_index (rx_type rs));
          radixsort_int_sort w rs input cnt }"

definition radixsort_float :: "nat \<Rightarrow> radixsort_t \<Rightarrow> byte list \<Rightarrow> size_t \<Rightarrow> radixsort_t option" where
  "radixsort_float w rs input cnt =
     (let data_size = rx_data_size rs
      in if cnt = 0 then Some rs
         else do {
           (rs, already) \<leftarrow> radixsort_create_histograms w rs input cnt;
           if already then Some rs
           else let negatives = count_negatives w (rx_histogram rs ! (data_size - 1))
                in run_passes (radixsort_float_pass w input cnt negatives) [0..<data_size] rs })"

definition radixsort_int_index16 :: "radixsort_t \<Rightarrow> byte list \<Rightarrow> size_t \<Rightarrow> radixsort_t option" where
  "radixsort_int_index16 = radixsort_int 16"

definition radixsort_int_index32 :: "radixsort_t \<Rightarrow> byte list \<Rightarrow> size_t \<Rightarrow> radixsort_t option" where
  "radixsort_int_index32 = radixsort_int 32"

definition radixsort_float_index16 :: "radixsort_t \<Rightarrow> byte list \<Rightarrow> size_t \<Rightarrow> radixsort_t option" where
  "radixsort_float_index16 = radixsort_float 16"

definition radixsort_float_index32 :: "radixsort_t \<Rightarrow> byte list \<Rightarrow> size_t \<Rightarrow> radixsort_t option" where
  "radixsort_float_index32 = radixsort_float 32"

text \<open>The result is the table \<open>indices[0]\<close> of the returned sorter.\<close>

definition radixsort_sort :: "radixsort_t \<Rightarrow> byte list \<Rightarrow> size_t \<Rightarrow> radixsort_t option" where
  "radixsort_sort rs input cnt =
     do { c_assert (cnt \<le> rx_size rs);
          let cnt = (if cnt > rx_size rs then rx_size rs else cnt);
          rs \<leftarrow> (if rx_type rs = RADIXSORT_FLOAT32 \<or> rx_type rs = RADIXSORT_FLOAT64 then
               (if rx_indextype rs = RADIXSORT_INDEX16 then radixsort_float_index16 rs input cnt
                else radixsort_float_index32 rs input cnt)
             else
               (if rx_indextype rs = RADIXSORT_INDEX16 then radixsort_int_index16 rs input cnt
                else radixsort_int_index32 rs input cnt));
          Some (rs\<lparr>rx_lastused := cnt\<rparr>) }"

text \<open>
  Initialization fills both index tables with the identity. The tables are the ones the
  caller's memory block provides.
\<close>

definition initialize_indices :: "radixsort_t \<Rightarrow> size_t \<Rightarrow> radixsort_t option" where
  "initialize_indices rs cnt =
     do { c_assert (cnt \<le> 0xFFFFFFFF);
          let cnt = (if cnt \<ge> 0xFFFFFFFF then 0xFFFFFFFE else cnt);
          let w = (if cnt > 0xFFFF then 32 else 16);
          ind0 \<leftarrow> reset_indices w cnt (rx_indices0 rs);
          ind1 \<leftarrow> reset_indices w cnt (rx_indices1 rs);
          Some (rs\<lparr>rx_indextype := (if cnt > 0xFFFF then RADIXSORT_INDEX32 else RADIXSORT_INDEX16),
                     rx_indices0 := ind0, rx_indices1 := ind1\<rparr>) }"

definition radixsort_initialize_custom :: "radixsort_t \<Rightarrow> size_t \<Rightarrow> size_t \<Rightarrow> radixsort_t option" where
  "radixsort_initialize_custom rs data_size cnt =
     initialize_indices (rs\<lparr>rx_type := RADIXSORT_CUSTOM, rx_size := cnt, rx_lastused := cnt,
       rx_custom_data_size := data_size\<rparr>) cnt"

definition radixsort_initialize :: "radixsort_t \<Rightarrow> radixsort_data_t \<Rightarrow> size_t \<Rightarrow> radixsort_t option" where
  "radixsort_initialize rs type cnt =
     do { sz \<leftarrow> mem_get radixsort_data_size (data_index type);
          initialize_indices (rs\<lparr>rx_type := type, rx_size := cnt, rx_lastused := cnt,
            rx_custom_data_size := sz\<rparr>) cnt }"

text \<open>
  The allocation lays the two index tables, the histograms and the offset table out in one
  block. \<open>fill\<close> is what the fresh memory holds.
\<close>

definition radixsort_block :: "nat \<Rightarrow> size_t \<Rightarrow> size_t \<Rightarrow> radixsort_t" where
  "radixsort_block fill data_size cnt =
     \<lparr>rx_type = RADIXSORT_CUSTOM, rx_indextype = RADIXSORT_INDEX16, rx_custom_data_size = data_size,
      rx_size = fill, rx_lastused = fill, rx_indices0 = replicate cnt fill, rx_indices1 = replicate cnt fill,
      rx_histogram = replicate data_size (replicate 256 fill), rx_offset = replicate 256 fill\<rparr>"

definition radixsort_allocate_custom :: "nat \<Rightarrow> size_t \<Rightarrow> size_t \<Rightarrow> radixsort_t option" where
  "radixsort_allocate_custom fill data_size cnt =
     radixsort_initialize_custom (radixsort_block fill data_size cnt) data_size cnt"

definition radixsort_allocate :: "nat \<Rightarrow> radixsort_data_t \<Rightarrow> size_t \<Rightarrow> radixsort_t option" where
  "radixsort_allocate fill type cnt =
     do { sz \<leftarrow> mem_get radixsort_data_size (data_index type);
          radixsort_initialize (radixsort_block fill sz cnt) type cnt }"

end
