(* ===== verification/Counting_Pass.thy ===== *)
theory Counting_Pass
  imports Prelude
begin

text \<open>
  One pass of a counting sort, independent of how the digits of the elements and the table of
  offsets are obtained: elements are placed into the block of their digit, forward in the blocks
  where \<open>up\<close> holds and backward in the others. The result is the concatenation of the blocks.
\<close>

section \<open>Placing elements\<close>

definition part :: "(nat \<Rightarrow> nat) \<Rightarrow> nat \<Rightarrow> nat list \<Rightarrow> nat list" where
  "part dg d ids = filter (\<lambda>i. dg i = d) ids"

definition block :: "(nat \<Rightarrow> nat) \<Rightarrow> (nat \<Rightarrow> bool) \<Rightarrow> nat list \<Rightarrow> nat \<Rightarrow> nat list" where
  "block dg up ids d = (if up d then part dg d ids else rev (part dg d ids))"

fun place :: "nat \<Rightarrow> (nat \<Rightarrow> nat) \<Rightarrow> (nat \<Rightarrow> bool) \<Rightarrow> nat list \<Rightarrow> nat list \<Rightarrow> nat list \<Rightarrow> (nat list \<times> nat list) option" where
  "place w dg up [] ofs nxt = Some (ofs, nxt)"
| "place w dg up (i # ids) ofs nxt =
     (let d = dg i in
      if up d then do { nxt \<leftarrow> mem_set nxt (ofs ! d) i; place w dg up ids (ofs[d := (ofs ! d + 1) mod 2 ^ w]) nxt }
      else let o' = (ofs ! d + 2 ^ w - 1) mod 2 ^ w
           in do { nxt \<leftarrow> mem_set nxt o' i; place w dg up ids (ofs[d := o']) nxt })"

abbreviation cnt_of :: "(nat \<Rightarrow> nat) \<Rightarrow> nat list \<Rightarrow> nat \<Rightarrow> nat" where
  "cnt_of dg ids d \<equiv> length (part dg d ids)"

lemma part_Cons: "part dg d (i # ids) = (if dg i = d then i # part dg d ids else part dg d ids)"
  by (simp add: part_def)

text \<open>Blocks of an offset table: disjoint, within the target, without wrap-around.\<close>

definition blocks_ok :: "nat \<Rightarrow> nat \<Rightarrow> (nat \<Rightarrow> nat) \<Rightarrow> (nat \<Rightarrow> nat) \<Rightarrow> nat \<Rightarrow> bool" where
  "blocks_ok w n lo c m \<longleftrightarrow>
     (\<forall>d<n. lo d + c d \<le> m \<and> lo d + c d < 2 ^ w) \<and>
     (\<forall>d<n. \<forall>e<n. d \<noteq> e \<longrightarrow> lo d + c d \<le> lo e \<or> lo e + c e \<le> lo d)"

lemma blocks_okD:
  assumes "blocks_ok w n lo c m" "d < n"
  shows "lo d + c d \<le> m" "lo d + c d < 2 ^ w"
    and "e < n \<Longrightarrow> d \<noteq> e \<Longrightarrow> lo d + c d \<le> lo e \<or> lo e + c e \<le> lo d"
  using assms by (auto simp: blocks_ok_def)

lemma blocks_ok_shrink:
  assumes "blocks_ok w n lo c m" "\<And>d. d < n \<Longrightarrow> lo d \<le> lo' d \<and> lo' d + c' d \<le> lo d + c d"
  shows "blocks_ok w n lo' c' m"
proof -
  have "lo' d + c' d \<le> lo' e \<or> lo' e + c' e \<le> lo' d" if "d < n" "e < n" "d \<noteq> e" for d e
    using blocks_okD(3) [OF assms(1) that(1,2,3)] assms(2) [OF that(1)] assms(2) [OF that(2)] by linarith
  moreover have "lo' d + c' d \<le> m \<and> lo' d + c' d < 2 ^ w" if "d < n" for d
    using blocks_okD(1,2) [OF assms(1) that] assms(2) [OF that] by linarith
  ultimately show ?thesis by (simp add: blocks_ok_def)
qed

definition placed :: "nat \<Rightarrow> (nat \<Rightarrow> nat) \<Rightarrow> (nat \<Rightarrow> nat list) \<Rightarrow> nat list \<Rightarrow> nat list \<Rightarrow> bool" where
  "placed n lo blk nxt nxt' \<longleftrightarrow> length nxt' = length nxt \<and>
     (\<forall>d<n. segment nxt' (lo d) (lo d + length (blk d)) = blk d) \<and>
     (\<forall>p. (\<forall>d<n. \<not> (lo d \<le> p \<and> p < lo d + length (blk d))) \<longrightarrow> nxt' ! p = nxt ! p)"

lemma segment_cons: "i < j \<Longrightarrow> j \<le> length xs \<Longrightarrow> segment xs i j = xs ! i # segment xs (Suc i) j"
  by (rule nth_equalityI) (auto simp: segment_nth nth_Cons')

lemma segment_snoc: "i \<le> j \<Longrightarrow> Suc j \<le> length xs \<Longrightarrow> segment xs i (Suc j) = segment xs i j @ [xs ! j]"
  using segment_append [of i j "Suc j" xs] segment_cons [of j "Suc j" xs] by simp

lemma length_block [simp]: "length (block dg up ids d) = cnt_of dg ids d"
  by (simp add: block_def)

lemma place_blocks:
  "\<forall>i \<in> set ids. dg i < n \<Longrightarrow> length ofs = n \<Longrightarrow>
   blocks_ok w n lo (cnt_of dg ids) (length nxt) \<Longrightarrow>
   \<forall>d<n. ofs ! d = (if up d then lo d else lo d + cnt_of dg ids d) \<Longrightarrow>
   \<exists>ofs' nxt'. place w dg up ids ofs nxt = Some (ofs', nxt') \<and> length ofs' = n \<and>
     placed n lo (block dg up ids) nxt nxt'"
proof (induction ids arbitrary: ofs nxt lo)
  case Nil
  then show ?case by (auto simp: placed_def block_def part_def)
next
  case (Cons i ids)
  define d0 where "d0 = dg i"
  define c where "c = cnt_of dg ids"
  define p where "p = (if up d0 then lo d0 else lo d0 + c d0)"
  define lo' where "lo' = (\<lambda>d. if d = d0 \<and> up d0 then Suc (lo d) else lo d)"
  define o' where "o' = (if up d0 then Suc p else p)"
  have d0: "d0 < n" using Cons.prems(1) by (simp add: d0_def)
  have c': "cnt_of dg (i # ids) d = (if d = d0 then Suc (c d) else c d)" for d
    by (simp add: part_Cons d0_def c_def)
  have fit: "lo d0 + Suc (c d0) \<le> length nxt" "lo d0 + Suc (c d0) < 2 ^ w"
    using blocks_okD(1,2) [OF Cons.prems(3) d0] c' by simp_all
  have ok': "blocks_ok w n lo' c (length (nxt[p := i]))"
    using blocks_ok_shrink [OF Cons.prems(3), of lo' c] c' by (simp add: lo'_def)
  have ofs': "\<forall>d<n. ofs[d0 := o'] ! d = (if up d then lo' d else lo' d + c d)"
    using Cons.prems(2,4) d0 c' by (auto simp: nth_list_update o'_def p_def lo'_def)
  have ofs_d0: "ofs ! d0 = (if up d0 then lo d0 else lo d0 + Suc (c d0))" using Cons.prems(4) d0 c' by simp
  have step: "place w dg up (i # ids) ofs nxt = place w dg up ids (ofs[d0 := o']) (nxt[p := i])"
  proof (cases "up d0")
    case True
    then show ?thesis using fit ofs_d0 by (simp add: Let_def flip: d0_def) (simp add: mem_simps p_def o'_def)
  next
    case False
    then have "(ofs ! d0 + 2 ^ w - 1) mod 2 ^ w = p" using fit(2) ofs_d0 by (simp add: p_def)
    then show ?thesis using False fit by (simp add: Let_def flip: d0_def) (simp add: mem_simps p_def o'_def)
  qed
  obtain ofs'' nxt' where r: "place w dg up ids (ofs[d0 := o']) (nxt[p := i]) = Some (ofs'', nxt')" "length ofs'' = n"
    and pl: "placed n lo' (block dg up ids) (nxt[p := i]) nxt'"
    using Cons.IH [OF _ _ ok' [unfolded c_def] ofs' [unfolded c_def]] Cons.prems(1,2) by auto
  have len: "length nxt' = length nxt" using pl by (simp add: placed_def)
  have seg: "segment nxt' (lo' d) (lo' d + c d) = block dg up ids d" if "d < n" for d
    using pl that by (simp add: placed_def c_def)
  have frame: "nxt' ! q = nxt[p := i] ! q" if "\<And>d. d < n \<Longrightarrow> \<not> (lo' d \<le> q \<and> q < lo' d + c d)" for q
    using pl that by (auto simp: placed_def c_def)
  have disj: "lo d + c d \<le> lo d0 \<or> lo d0 + Suc (c d0) \<le> lo d" if "d < n" "d \<noteq> d0" for d
    using blocks_okD(3) [OF Cons.prems(3) that(1) d0] that c' by simp
  have "nxt' ! p = i"
  proof -
    have "\<not> (lo' d \<le> p \<and> p < lo' d + c d)" if "d < n" for d
      using disj [OF that] by (cases "d = d0") (auto simp: lo'_def p_def)
    then show ?thesis using frame [of p] fit(1) by (simp add: p_def)
  qed
  then have blk0: "segment nxt' (lo d0) (lo d0 + Suc (c d0)) = block dg up (i # ids) d0"
    using seg [OF d0] segment_cons [of "lo d0" "lo d0 + Suc (c d0)" nxt']
      segment_snoc [of "lo d0" "lo d0 + c d0" nxt'] fit(1) len
    by (cases "up d0") (simp_all add: lo'_def p_def block_def part_Cons flip: d0_def)
  have blk: "segment nxt' (lo d) (lo d + cnt_of dg (i # ids) d) = block dg up (i # ids) d" if "d < n" for d
  proof (cases "d = d0")
    case True
    then show ?thesis using blk0 c' by simp
  next
    case False
    then have "block dg up (i # ids) d = block dg up ids d" "cnt_of dg (i # ids) d = c d"
      by (auto simp: block_def part_Cons d0_def c_def)
    then show ?thesis using seg [OF that] False by (simp add: lo'_def)
  qed
  have "nxt' ! q = nxt ! q" if q: "\<forall>d<n. \<not> (lo d \<le> q \<and> q < lo d + cnt_of dg (i # ids) d)" for q
  proof -
    have "q \<noteq> p" using q d0 c' by (auto simp: p_def)
    moreover have "\<not> (lo' d \<le> q \<and> q < lo' d + c d)" if "d < n" for d
      using q that c' by (cases "d = d0") (auto simp: lo'_def)
    ultimately show ?thesis using frame [of q] by simp
  qed
  then show ?case
    using step r blk len by (auto simp: placed_def)
qed

section \<open>Assembling the blocks\<close>

text \<open>The start of the block of \<open>d\<close> when the blocks follow each other in the order \<open>ord\<close>.\<close>

definition start :: "nat list \<Rightarrow> (nat \<Rightarrow> nat) \<Rightarrow> nat \<Rightarrow> nat" where
  "start ord c d = sum_list (map c (takeWhile (\<lambda>x. x \<noteq> d) ord))"

lemma start_Cons: "start (e # ord) c d = (if e = d then 0 else c e + start ord c d)"
  by (simp add: start_def)

lemma start_append:
  "start (xs @ ys) c d = (if d \<in> set xs then start xs c d else sum_list (map c xs) + start ys c d)"
  by (induction xs) (auto simp: start_Cons)

lemma start_bound: "d \<in> set ord \<Longrightarrow> start ord c d + c d \<le> sum_list (map c ord)"
  by (induction ord) (auto simp: start_Cons)

lemma start_disjoint:
  "d \<in> set ord \<Longrightarrow> e \<in> set ord \<Longrightarrow> d \<noteq> e \<Longrightarrow>
   start ord c d + c d \<le> start ord c e \<or> start ord c e + c e \<le> start ord c d"
  by (induction ord) (auto simp: start_Cons)

lemma blocks_ok_start:
  assumes "\<forall>d<n. d \<in> set ord" "sum_list (map c ord) \<le> m" "sum_list (map c ord) < 2 ^ w"
  shows "blocks_ok w n (start ord c) c m"
  unfolding blocks_ok_def
proof (intro conjI allI impI)
  fix d assume "d < n"
  then have "start ord c d + c d \<le> sum_list (map c ord)" using assms(1) by (intro start_bound) blast
  then show "start ord c d + c d \<le> m" "start ord c d + c d < 2 ^ w" using assms(2,3) by linarith+
next
  fix d e assume "d < n" "e < n" "d \<noteq> e"
  then show "start ord c d + c d \<le> start ord c e \<or> start ord c e + c e \<le> start ord c d"
    using assms(1) by (intro start_disjoint) blast+
qed

lemma assemble:
  "distinct ord \<Longrightarrow> s + sum_list (map (\<lambda>d. length (blk d)) ord) \<le> length xs \<Longrightarrow>
   \<forall>d \<in> set ord. segment xs (s + start ord (\<lambda>d. length (blk d)) d) (s + start ord (\<lambda>d. length (blk d)) d + length (blk d)) = blk d \<Longrightarrow>
   segment xs s (s + sum_list (map (\<lambda>d. length (blk d)) ord)) = concat (map blk ord)"
proof (induction ord arbitrary: s)
  case (Cons e ord)
  have seg: "segment xs s (s + length (blk e)) = blk e" using Cons.prems(3) by (simp add: start_Cons)
  have "segment xs (s + length (blk e)) (s + length (blk e) + sum_list (map (\<lambda>d. length (blk d)) ord)) = concat (map blk ord)"
  proof (rule Cons.IH)
    show "\<forall>d \<in> set ord. segment xs (s + length (blk e) + start ord (\<lambda>d. length (blk d)) d)
        (s + length (blk e) + start ord (\<lambda>d. length (blk d)) d + length (blk d)) = blk d"
    proof
      fix d assume d: "d \<in> set ord"
      then have "e \<noteq> d" using Cons.prems(1) by auto
      then show "segment xs (s + length (blk e) + start ord (\<lambda>d. length (blk d)) d)
          (s + length (blk e) + start ord (\<lambda>d. length (blk d)) d + length (blk d)) = blk d"
        using bspec [OF Cons.prems(3), of d] d by (simp add: start_Cons add.assoc)
    qed
  qed (use Cons.prems in simp_all)
  then show ?case
    using seg segment_append [of s "s + length (blk e)" "s + length (blk e) + sum_list (map (\<lambda>d. length (blk d)) ord)" xs]
      Cons.prems(2) by (simp add: add.assoc)
qed simp

section \<open>Sortedness of the concatenation\<close>

lemma mset_blocks:
  assumes "distinct ord" "\<forall>i \<in> set ids. dg i \<in> set ord"
  shows "mset (concat (map (block dg up ids) ord)) = mset ids"
  using assms
proof (induction ids)
  case Nil
  then show ?case by (auto simp: block_def part_def)
next
  case (Cons i ids)
  have one: "mset (block dg up (i # ids) d) = (if d = dg i then {#i#} else {#}) + mset (block dg up ids d)" for d
    by (simp add: block_def part_Cons)
  have "mset (concat (map (block dg up (i # ids)) ord)) =
      sum_list (map (\<lambda>d. (if d = dg i then {#i#} else {#}) + mset (block dg up ids d)) ord)"
    by (simp add: mset_concat o_def one)
  also have "\<dots> = sum_list (map (\<lambda>d. if d = dg i then {#i#} else {#}) ord) + mset (concat (map (block dg up ids) ord))"
    by (simp add: mset_concat o_def sum_list_addf)
  also have "sum_list (map (\<lambda>d. if d = dg i then {#i#} else {#}) ord) = {#i#}"
    using Cons.prems by (simp add: sum_list_distinct_conv_sum_set)
  finally show ?case using Cons by simp
qed

lemma sorted_blocks:
  assumes "sorted_wrt R ids" "sorted_wrt before ord"
    and up: "\<And>a b. R a b \<Longrightarrow> dg a = dg b \<Longrightarrow> up (dg a) \<Longrightarrow> Q a b"
    and down: "\<And>a b. R a b \<Longrightarrow> dg a = dg b \<Longrightarrow> \<not> up (dg a) \<Longrightarrow> Q b a"
    and across: "\<And>a b. before (dg a) (dg b) \<Longrightarrow> a \<in> set ids \<Longrightarrow> b \<in> set ids \<Longrightarrow> Q a b"
  shows "sorted_wrt Q (concat (map (block dg up ids) ord))"
  using assms(2)
proof (induction ord)
  case (Cons d ord)
  have mem: "i \<in> set (block dg up ids e) \<longleftrightarrow> i \<in> set ids \<and> dg i = e" for i e
    by (auto simp: block_def part_def)
  have part_sorted: "sorted_wrt (\<lambda>a b. R a b \<and> dg a = d \<and> dg b = d) (part dg d ids)"
  proof -
    have "sorted_wrt R (part dg d ids)" using assms(1) by (simp add: part_def sorted_wrt_filter)
    then show ?thesis by (rule sorted_wrt_mono_rel [rotated]) (auto simp: part_def)
  qed
  have blk: "sorted_wrt Q (block dg up ids d)"
  proof (cases "up d")
    case True
    then show ?thesis
      using part_sorted up unfolding block_def by (auto intro: sorted_wrt_mono_rel [rotated])
  next
    case False
    have "sorted_wrt (\<lambda>a b. Q b a) (part dg d ids)"
      by (rule sorted_wrt_mono_rel [OF _ part_sorted]) (use down False in auto)
    then show ?thesis using False by (simp add: block_def sorted_wrt_rev)
  qed
  have "Q a b" if "a \<in> set (block dg up ids d)" "b \<in> set (concat (map (block dg up ids) ord))" for a b
    using that Cons.prems across mem by auto
  then show ?case using blk Cons by (simp add: sorted_wrt_append)
qed simp

section \<open>Orders of the digits\<close>

text \<open>
  What a pass relies on: an order of all digits, and for each digit the direction in which its
  block is filled. The client's offset table has to agree with the order.
\<close>

locale digit_order =
  fixes n :: nat and ord :: "nat list" and up :: "nat \<Rightarrow> bool"
  assumes distinct_ord: "distinct ord"
    and set_ord: "set ord = {..<n}"
begin

lemma sum_counts:
  assumes "\<forall>i \<in> set ids. dg i < n"
  shows "sum_list (map (cnt_of dg ids) ord) = length ids"
proof -
  have "mset (concat (map (block dg up ids) ord)) = mset ids"
    using assms set_ord by (intro mset_blocks distinct_ord) auto
  then have "length (concat (map (block dg up ids) ord)) = length ids" by (metis size_mset)
  then show ?thesis by (simp add: length_concat o_def)
qed

lemma counting_pass:
  assumes dg: "\<forall>i \<in> set ids. dg i < n"
    and ofs: "length ofs = n"
      "\<And>d. d < n \<Longrightarrow> ofs ! d = start ord (cnt_of dg ids) d + (if up d then 0 else cnt_of dg ids d)"
    and room: "length ids \<le> length nxt" "length ids < 2 ^ w"
  shows "\<exists>ofs' nxt'. place w dg up ids ofs nxt = Some (ofs', nxt') \<and> length ofs' = n \<and> length nxt' = length nxt \<and>
    take (length ids) nxt' = concat (map (block dg up ids) ord) \<and> mset (take (length ids) nxt') = mset ids"
proof -
  let ?lo = "start ord (cnt_of dg ids)"
  have ok: "blocks_ok w n ?lo (cnt_of dg ids) (length nxt)"
    using sum_counts [OF dg] room set_ord by (intro blocks_ok_start) auto
  have "\<forall>d<n. ofs ! d = (if up d then ?lo d else ?lo d + cnt_of dg ids d)" using ofs(2) by auto
  then obtain ofs' nxt' where r: "place w dg up ids ofs nxt = Some (ofs', nxt')" "length ofs' = n"
    and pl: "placed n ?lo (block dg up ids) nxt nxt'"
    using place_blocks [OF dg ofs(1) ok] by blast
  have len: "length nxt' = length nxt" using pl by (simp add: placed_def)
  have "segment nxt' 0 (0 + sum_list (map (\<lambda>d. length (block dg up ids d)) ord)) = concat (map (block dg up ids) ord)"
    using pl set_ord sum_counts [OF dg] room(1) len
    by (intro assemble distinct_ord) (auto simp: placed_def)
  then have "take (length ids) nxt' = concat (map (block dg up ids) ord)"
    using sum_counts [OF dg] by (simp add: segment_def)
  moreover have "mset (concat (map (block dg up ids) ord)) = mset ids"
    using dg set_ord by (intro mset_blocks distinct_ord) auto
  ultimately show ?thesis using r len by auto
qed

end

end
