(* ===== verification/Radixsort_Correct.thy ===== *)
theory Radixsort_Correct
  imports Radixsort Counting_Pass
begin

text \<open>
  Correctness of the radix sorter: the histograms count the bytes, the offset tables agree with
  the order of the digits, every pass is a counting pass, and the passes together sort.
\<close>

section \<open>Bytes of the input\<close>

definition digit_at :: "nat \<Rightarrow> byte list \<Rightarrow> nat \<Rightarrow> nat \<Rightarrow> nat" where
  "digit_at ds input p i = unat (input ! (i * ds + p))"

text \<open>The value of the low \<open>p\<close> bytes of an element.\<close>

definition low :: "nat \<Rightarrow> byte list \<Rightarrow> nat \<Rightarrow> nat \<Rightarrow> nat" where
  "low ds input p i = le_value (take p (drop (i * ds) input))"

definition element :: "nat \<Rightarrow> byte list \<Rightarrow> nat \<Rightarrow> nat" where
  "element ds input i = low ds input ds i"

lemma digit_at_less [simp]: "digit_at ds input p i < 256"
  using byte_less [of "input ! (i * ds + p)"] by (simp add: digit_at_def)

lemma in_bounds: "i < cnt \<Longrightarrow> p < ds \<Longrightarrow> cnt * ds \<le> m \<Longrightarrow> i * ds + p < (m :: nat)"
proof -
  assume a: "i < cnt" "p < ds" "cnt * ds \<le> m"
  then have "Suc i * ds \<le> cnt * ds" by (intro mult_le_mono1) simp
  then show ?thesis using a by simp
qed

lemma in_bounds_le: "i < cnt \<Longrightarrow> cnt * ds \<le> m \<Longrightarrow> i * ds + ds \<le> (m :: nat)"
proof -
  assume a: "i < cnt" "cnt * ds \<le> m"
  then have "Suc i * ds \<le> cnt * ds" by (intro mult_le_mono1) simp
  then show ?thesis using a by simp
qed

lemma low_Suc:
  assumes "i * ds + p < length input"
  shows "low ds input (Suc p) i = low ds input p i + 256 ^ p * digit_at ds input p i"
proof -
  have "take (Suc p) (drop (i * ds) input) = take p (drop (i * ds) input) @ [input ! (i * ds + p)]"
    using assms by (simp add: take_Suc_conv_app_nth add.commute)
  then show ?thesis using assms by (simp add: low_def digit_at_def le_value_append)
qed

lemma low_0 [simp]: "low ds input 0 i = 0"
  by (simp add: low_def)

lemma low_less: "low ds input p i < 256 ^ p"
  using le_value_less [of "take p (drop (i * ds) input)"]
  by (metis (no_types, lifting) length_take less_le_trans low_def min.cobounded2 one_le_numeral power_increasing)

lemma read_value_eq:
  assumes "i < cnt" "cnt * ds \<le> length input"
  shows "read_value ds input i = Some (element ds input i)"
  using in_bounds_le [OF assms] by (simp add: read_value_def mem_simps element_def low_def)

section \<open>Histograms\<close>

definition hist_ok :: "nat \<Rightarrow> byte list \<Rightarrow> nat \<Rightarrow> nat list list \<Rightarrow> bool" where
  "hist_ok ds input k hist \<longleftrightarrow> length hist = ds \<and>
     (\<forall>p<ds. length (hist ! p) = 256 \<and> (\<forall>b<256. hist ! p ! b = cnt_of (digit_at ds input p) [0..<k] b))"

lemma hist_ok_start: "hist_ok ds input 0 (replicate ds (replicate 256 0))"
  by (simp add: hist_ok_def part_def)

lemma count_bytes_nth:
  "ih + length bs \<le> length hist \<Longrightarrow> p < length hist \<Longrightarrow>
   count_bytes w hist ih bs ! p =
     (if ih \<le> p \<and> p < ih + length bs
      then (hist ! p)[unat (bs ! (p - ih)) := (hist ! p ! unat (bs ! (p - ih)) + 1) mod 2 ^ w] else hist ! p)"
proof (induction bs arbitrary: hist ih)
  case (Cons b bs)
  have "count_bytes w hist ih (b # bs) ! p = count_bytes w (bump w hist ih b) (Suc ih) bs ! p" by simp
  also have "\<dots> = (if Suc ih \<le> p \<and> p < Suc ih + length bs
      then (bump w hist ih b ! p)[unat (bs ! (p - Suc ih)) := (bump w hist ih b ! p ! unat (bs ! (p - Suc ih)) + 1) mod 2 ^ w]
      else bump w hist ih b ! p)"
    using Cons.prems by (intro Cons.IH) (simp_all add: bump_def)
  finally show ?case using Cons.prems by (auto simp: bump_def nth_list_update nth_Cons')
qed auto

lemma length_count_bytes [simp]: "length (count_bytes w hist ih bs) = length hist"
  by (induction bs arbitrary: hist ih) (simp_all add: bump_def)

lemma hist_ok_step:
  assumes "hist_ok ds input k hist" "k * ds + ds \<le> length input" "Suc k < 2 ^ w"
  shows "hist_ok ds input (Suc k) (count_bytes w hist 0 (take ds (drop (k * ds) input)))"
proof -
  let ?bs = "take ds (drop (k * ds) input)"
  have len: "length hist = ds" "length ?bs = ds" using assms(1,2) by (simp_all add: hist_ok_def)
  have "length (count_bytes w hist 0 ?bs ! p) = 256 \<and>
      (\<forall>b<256. count_bytes w hist 0 ?bs ! p ! b = cnt_of (digit_at ds input p) [0..<Suc k] b)" if p: "p < ds" for p
  proof -
    have row: "count_bytes w hist 0 ?bs ! p =
        (hist ! p)[digit_at ds input p k := (hist ! p ! digit_at ds input p k + 1) mod 2 ^ w]"
      using p len assms(2) by (simp add: count_bytes_nth digit_at_def)
    have old: "length (hist ! p) = 256" "\<forall>b<256. hist ! p ! b = cnt_of (digit_at ds input p) [0..<k] b"
      using assms(1) p by (auto simp: hist_ok_def)
    have "cnt_of (digit_at ds input p) [0..<k] b \<le> k" for b
      using length_filter_le [of _ "[0..<k]"] by (simp add: part_def)
    then have "Suc (cnt_of (digit_at ds input p) [0..<k] b) < 2 ^ w" for b
      using assms(3) by (meson Suc_le_mono le_less_trans)
    then show ?thesis using old unfolding row by (auto simp: nth_list_update part_def)
  qed
  then show ?thesis using len by (simp add: hist_ok_def)
qed

lemma finish_histograms_ok:
  assumes "cnt * ds \<le> length input" "cnt < 2 ^ w"
  shows "k \<le> cnt \<Longrightarrow> hist_ok ds input k hist \<Longrightarrow>
    \<exists>hist'. finish_histograms w ds input cnt k hist = Some hist' \<and> hist_ok ds input cnt hist'"
proof (induction "cnt - k" arbitrary: k hist)
  case 0
  then show ?case by (subst finish_histograms.simps) simp
next
  case (Suc m)
  then have k: "k < cnt" by simp
  note fit = in_bounds_le [OF k assms(1)]
  have "hist_ok ds input (Suc k) (count_bytes w hist 0 (take ds (drop (k * ds) input)))"
    using Suc.prems(2) fit k assms(2) by (intro hist_ok_step) simp_all
  then show ?case
    using Suc.hyps(1) [of "Suc k"] Suc.hyps(2) k fit
    by (subst finish_histograms.simps) (simp add: mem_simps)
qed

text \<open>The check of the previous order: what it counted, and what holds when it got through.\<close>

definition in_order :: "(nat \<Rightarrow> nat \<Rightarrow> bool) \<Rightarrow> nat \<Rightarrow> byte list \<Rightarrow> nat list \<Rightarrow> nat \<Rightarrow> bool" where
  "in_order lt ds input indices k \<longleftrightarrow>
     (\<forall>j. Suc j < k \<longrightarrow> \<not> lt (element ds input (indices ! Suc j)) (element ds input (indices ! j)))"

lemma presort_loop_ok:
  assumes "cnt * ds \<le> length input" "cnt < 2 ^ w" "cnt \<le> length indices"
  shows "k \<le> cnt \<Longrightarrow> hist_ok ds input k hist \<Longrightarrow> \<forall>j<k. indices ! j < cnt \<Longrightarrow> in_order lt ds input indices k \<Longrightarrow>
    (k \<noteq> 0 \<Longrightarrow> prev = element ds input (indices ! (k - 1))) \<Longrightarrow>
    \<exists>k' hist'. presort_loop w lt ds input indices cnt prev k hist = Some (k', hist') \<and> k' \<le> cnt \<and>
      hist_ok ds input k' hist' \<and> (k' = cnt \<longrightarrow> (\<forall>j<cnt. indices ! j < cnt) \<and> in_order lt ds input indices cnt)"
proof (induction "cnt - k" arbitrary: k hist prev)
  case 0
  then show ?case by (subst presort_loop.simps) simp
next
  case (Suc m)
  then have k: "k < cnt" by simp
  note fit = in_bounds_le [OF k assms(1)]
  let ?ix = "indices ! k"
  show ?case
  proof (cases "?ix < cnt \<and> \<not> lt (element ds input ?ix) prev")
    case False
    then show ?thesis
      using k Suc.prems(2) read_value_eq [OF _ assms(1), of ?ix] assms(3)
      by (subst presort_loop.simps) (auto simp: mem_simps)
  next
    case True
    have "hist_ok ds input (Suc k) (count_bytes w hist 0 (take ds (drop (k * ds) input)))"
      using Suc.prems(2) fit k assms(2) by (intro hist_ok_step) simp_all
    moreover have "\<forall>j<Suc k. indices ! j < cnt" using Suc.prems(3) True by (simp add: less_Suc_eq)
    moreover have "in_order lt ds input indices (Suc k)"
      unfolding in_order_def
    proof (intro allI impI)
      fix j assume "Suc j < Suc k"
      then consider "Suc j < k" | "k = Suc j" by linarith
      then show "\<not> lt (element ds input (indices ! Suc j)) (element ds input (indices ! j))"
        by cases (use Suc.prems(4,5) True in \<open>auto simp: in_order_def\<close>)
    qed
    moreover have "presort_loop w lt ds input indices cnt prev k hist =
        presort_loop w lt ds input indices cnt (element ds input ?ix) (Suc k) (count_bytes w hist 0 (take ds (drop (k * ds) input)))"
      using True k fit assms(3) read_value_eq [OF _ assms(1), of ?ix]
      by (subst presort_loop.simps) (simp add: mem_simps)
    ultimately show ?thesis
      using Suc.hyps(1) [of "Suc k" "count_bytes w hist 0 (take ds (drop (k * ds) input))" "element ds input ?ix"]
        Suc.hyps(2) k by simp
  qed
qed

section \<open>Invariant of a sorter\<close>

fun rx_lt :: "radixsort_data_t \<Rightarrow> nat \<Rightarrow> nat \<Rightarrow> bool" where
  "rx_lt RADIXSORT_INT32 v u = (signed_value 32 v < signed_value 32 u)"
| "rx_lt RADIXSORT_INT64 v u = (signed_value 64 v < signed_value 64 u)"
| "rx_lt RADIXSORT_FLOAT32 v u = float_less 32 v u"
| "rx_lt RADIXSORT_FLOAT64 v u = float_less 64 v u"
| "rx_lt _ v u = (v < u)"

definition rx_bits :: "radixsort_t \<Rightarrow> nat" where
  "rx_bits rs = (if rx_indextype rs = RADIXSORT_INDEX16 then 16 else 32)"

text \<open>The tables fit, and the first \<open>cnt\<close> indices are a permutation.\<close>

definition rx_ready :: "nat \<Rightarrow> radixsort_t \<Rightarrow> bool" where
  "rx_ready cnt rs \<longleftrightarrow> length (rx_indices0 rs) = rx_size rs \<and> length (rx_indices1 rs) = rx_size rs \<and>
     length (rx_offset rs) = 256 \<and> cnt \<le> rx_size rs \<and> rx_size rs < 2 ^ rx_bits rs \<and> 0 < rx_data_size rs \<and>
     mset (take cnt (rx_indices0 rs)) = mset [0..<cnt]"

definition rx_inv :: "radixsort_t \<Rightarrow> bool" where
  "rx_inv rs \<longleftrightarrow> rx_ready (rx_lastused rs) rs"

definition rx_same :: "radixsort_t \<Rightarrow> radixsort_t \<Rightarrow> bool" where
  "rx_same rs rs' \<longleftrightarrow> rx_type rs' = rx_type rs \<and> rx_indextype rs' = rx_indextype rs \<and>
     rx_custom_data_size rs' = rx_custom_data_size rs \<and> rx_size rs' = rx_size rs \<and> rx_lastused rs' = rx_lastused rs"

lemma rx_same_refl [simp]: "rx_same rs rs"
  by (simp add: rx_same_def)

lemma rx_same_trans: "rx_same a b \<Longrightarrow> rx_same b c \<Longrightarrow> rx_same a c"
  by (simp add: rx_same_def)

lemma rx_same_facts:
  "rx_same rs rs' \<Longrightarrow> rx_data_size rs' = rx_data_size rs" "rx_same rs rs' \<Longrightarrow> rx_bits rs' = rx_bits rs"
  by (simp_all add: rx_same_def rx_data_size_def rx_bits_def)

lemma presort_switch_eq:
  assumes "rx_type rs \<noteq> RADIXSORT_CUSTOM"
  shows "presort_switch (rx_type rs) w input indices cnt hist =
    presort w (rx_lt (rx_type rs)) (rx_data_size rs) input indices cnt hist"
proof -
  have "rx_lt RADIXSORT_INT32 = (\<lambda>v u. signed_value 32 v < signed_value 32 u)"
    "rx_lt RADIXSORT_INT64 = (\<lambda>v u. signed_value 64 v < signed_value 64 u)"
    "rx_lt RADIXSORT_UINT32 = (\<lambda>v u. v < u)" "rx_lt RADIXSORT_UINT64 = (\<lambda>v u. v < u)"
    "rx_lt RADIXSORT_FLOAT32 = float_less 32" "rx_lt RADIXSORT_FLOAT64 = float_less 64"
    by (simp_all add: fun_eq_iff)
  then show ?thesis using assms
    by (cases "rx_type rs") (simp_all add: rx_data_size_def radixsort_data_size_def presort_int32_def
        presort_uint32_def presort_int64_def presort_uint64_def presort_float32_def presort_float64_def)
qed

lemma prefix_permutation:
  assumes "mset (take m xs) = mset [0..<m]" "k \<le> m" "\<forall>j<k. xs ! j < k" "m \<le> length xs"
  shows "mset (take k xs) = mset [0..<k]"
proof -
  have "distinct (take m xs)" using assms(1) by (metis distinct_upt mset_eq_imp_distinct_iff)
  then have "distinct (take k xs)" using assms(2) by (metis distinct_take min.absorb1 take_take)
  moreover have "set (take k xs) \<subseteq> {..<k}" using assms(3) by (auto simp: in_set_conv_nth)
  moreover have "card (set (take k xs)) = k" using calculation(1) assms(2,4) by (simp add: distinct_card)
  ultimately have "set (take k xs) = {..<k}" by (intro card_subset_eq) auto
  then show ?thesis
    using \<open>distinct (take k xs)\<close> assms(2,4) distinct_map_nth_upt [of "take k xs"] by simp
qed

lemma reset_indices_ok:
  assumes "cnt \<le> length indices" "cnt < 2 ^ w"
  shows "\<exists>ind. reset_indices w cnt indices = Some ind \<and> length ind = length indices \<and> take cnt ind = [0..<cnt]"
proof -
  have "map (\<lambda>ih. ih mod 2 ^ w) [0..<cnt] = [0..<cnt]" using assms(2) by (auto intro!: map_idI)
  then show ?thesis using assms(1) by (auto simp: reset_indices_def mem_simps overwrite_def)
qed

lemma create_histograms_ok:
  assumes inv: "rx_inv rs" and cnt: "0 < cnt" "cnt \<le> rx_size rs" and input: "cnt * rx_data_size rs \<le> length input"
  shows "\<exists>rs' already. radixsort_create_histograms (rx_bits rs) rs input cnt = Some (rs', already) \<and>
    rx_same rs rs' \<and> rx_ready cnt rs' \<and> hist_ok (rx_data_size rs) input cnt (rx_histogram rs') \<and>
    (already \<longrightarrow> in_order (rx_lt (rx_type rs)) (rx_data_size rs) input (rx_indices0 rs') cnt)"
proof -
  let ?ds = "rx_data_size rs" and ?w = "rx_bits rs" and ?h = "replicate (rx_data_size rs) (replicate 256 0)"
  have r: "length (rx_indices0 rs) = rx_size rs" "length (rx_indices1 rs) = rx_size rs" "length (rx_offset rs) = 256"
    "rx_lastused rs \<le> rx_size rs" "rx_size rs < 2 ^ ?w" "0 < ?ds"
    "mset (take (rx_lastused rs) (rx_indices0 rs)) = mset [0..<rx_lastused rs]"
    using inv by (auto simp: rx_inv_def rx_ready_def)
  have w: "cnt < 2 ^ ?w" using cnt(2) r(5) by simp
  define pre where "pre = (if cnt \<le> rx_lastused rs \<and> rx_type rs \<noteq> RADIXSORT_CUSTOM
             then presort_switch (rx_type rs) ?w input (rx_indices0 rs) cnt ?h else Some (0, ?h))"
  obtain k hist where pre: "pre = Some (k, hist)" "k \<le> cnt" "hist_ok ?ds input k hist"
    and thru: "k = cnt \<Longrightarrow> cnt \<le> rx_lastused rs \<and> (\<forall>j<cnt. rx_indices0 rs ! j < cnt) \<and>
      in_order (rx_lt (rx_type rs)) ?ds input (rx_indices0 rs) cnt"
  proof (cases "cnt \<le> rx_lastused rs \<and> rx_type rs \<noteq> RADIXSORT_CUSTOM")
    case True
    then have "pre = presort_loop ?w (rx_lt (rx_type rs)) ?ds input (rx_indices0 rs) cnt (element ?ds input 0) 0 ?h"
      using presort_switch_eq read_value_eq [OF cnt(1) input] by (simp add: pre_def presort_def)
    moreover have "\<exists>k' hist'. presort_loop ?w (rx_lt (rx_type rs)) ?ds input (rx_indices0 rs) cnt (element ?ds input 0) 0 ?h =
        Some (k', hist') \<and> k' \<le> cnt \<and> hist_ok ?ds input k' hist' \<and>
        (k' = cnt \<longrightarrow> (\<forall>j<cnt. rx_indices0 rs ! j < cnt) \<and> in_order (rx_lt (rx_type rs)) ?ds input (rx_indices0 rs) cnt)"
      using cnt(2) r(1) by (intro presort_loop_ok input w hist_ok_start) (simp_all add: in_order_def)
    ultimately show ?thesis using that True by auto
  next
    case False
    then show ?thesis using that [of 0 ?h] cnt(1) hist_ok_start by (auto simp: pre_def)
  qed
  show ?thesis
  proof (cases "k = cnt")
    case True
    then have "radixsort_create_histograms ?w rs input cnt = Some (rs\<lparr>rx_histogram := hist\<rparr>, True)"
      using pre(1) by (simp add: radixsort_create_histograms_def Let_def flip: pre_def)
    moreover have "mset (take cnt (rx_indices0 rs)) = mset [0..<cnt]"
      using thru [OF True] r by (intro prefix_permutation [OF r(7)]) auto
    ultimately show ?thesis
      using r pre(3) True thru [OF True] cnt(2) by (auto simp: rx_same_def rx_ready_def rx_bits_def rx_data_size_def)
  next
    case False
    obtain hist' where hist': "finish_histograms ?w ?ds input cnt k hist = Some hist'" "hist_ok ?ds input cnt hist'"
      using finish_histograms_ok [OF input w pre(2,3)] by blast
    obtain ind0 where ind0: "reset_indices ?w cnt (rx_indices0 rs) = Some ind0" "length ind0 = rx_size rs" "take cnt ind0 = [0..<cnt]"
      using reset_indices_ok [of cnt "rx_indices0 rs" ?w] r cnt(2) w by auto
    obtain ind1 where ind1: "reset_indices ?w cnt (rx_indices1 rs) = Some ind1" "length ind1 = rx_size rs"
      using reset_indices_ok [of cnt "rx_indices1 rs" ?w] r cnt(2) w by auto
    have ne: "k * ?ds \<noteq> cnt * ?ds" using False r(6) by simp
    define rs1 where "rs1 = (if cnt \<noteq> rx_lastused rs then rs\<lparr>rx_indices0 := ind0, rx_indices1 := ind1\<rparr> else rs)"
    have "radixsort_create_histograms ?w rs input cnt = Some (rs1\<lparr>rx_histogram := hist'\<rparr>, False)"
      unfolding radixsort_create_histograms_def Let_def pre_def [symmetric] pre(1)
      using ne hist'(1) ind0(1) ind1(1) by (simp add: rs1_def)
    moreover have "rx_same rs (rs1\<lparr>rx_histogram := hist'\<rparr>)" by (simp add: rx_same_def rs1_def)
    moreover have "rx_ready cnt (rs1\<lparr>rx_histogram := hist'\<rparr>)"
      using r ind0 ind1 cnt(2) by (auto simp: rx_ready_def rs1_def rx_bits_def rx_data_size_def)
    ultimately show ?thesis using hist'(2) by auto
  qed
qed

section \<open>Offset tables\<close>

definition unsigned_ord :: "nat list" where "unsigned_ord = [0..<256]"
definition signed_ord :: "nat list" where "signed_ord = [128..<256] @ [0..<128]"
definition float_ord :: "nat list" where "float_ord = rev [128..<256] @ [0..<128]"

interpretation unsigned_order: digit_order 256 unsigned_ord "\<lambda>_. True"
  by unfold_locales (auto simp: unsigned_ord_def simp del: upt_rec_numeral)

interpretation signed_order: digit_order 256 signed_ord "\<lambda>_. True"
  by unfold_locales (auto simp: signed_ord_def simp del: upt_rec_numeral)

interpretation float_order: digit_order 256 float_ord "\<lambda>d. d < 128"
  by unfold_locales (auto simp: float_ord_def simp del: upt_rec_numeral)

abbreviation range_sum :: "nat list \<Rightarrow> nat \<Rightarrow> nat \<Rightarrow> nat" where
  "range_sum counts a b \<equiv> sum_list (map ((!) counts) [a..<b])"

lemma range_sum_Cons: "a < b \<Longrightarrow> range_sum c a b = c ! a + range_sum c (Suc a) b"
  by (simp add: upt_conv_Cons)

lemma range_sum_snoc: "a \<le> b \<Longrightarrow> range_sum c a (Suc b) = range_sum c a b + c ! b"
  by simp

lemma range_sum_split: "a \<le> b \<Longrightarrow> b \<le> m \<Longrightarrow> range_sum c a m = range_sum c a b + range_sum c b m"
proof -
  assume "a \<le> b" "b \<le> m"
  then have "[a..<m] = [a..<b] @ [b..<m]" by (metis le_add_diff_inverse upt_add_eq_append)
  then show ?thesis by simp
qed

lemma length_prefix_up [simp]: "length (prefix_up w c n prev ci oi ofs) = length ofs"
  by (induction n arbitrary: prev ci oi ofs) (simp_all add: Let_def)

lemma prefix_up_nth:
  "oi + n \<le> length ofs \<Longrightarrow> prev + range_sum c ci (ci + n) < 2 ^ w \<Longrightarrow> q < length ofs \<Longrightarrow>
   prefix_up w c n prev ci oi ofs ! q =
     (if oi \<le> q \<and> q < oi + n then prev + range_sum c ci (Suc (ci + (q - oi))) else ofs ! q)"
proof (induction n arbitrary: prev ci oi ofs)
  case (Suc n)
  have sum: "range_sum c ci (ci + Suc n) = c ! ci + range_sum c (Suc ci) (Suc ci + n)"
    using range_sum_Cons [of ci "ci + Suc n" c] by simp
  then have small: "(prev + c ! ci) mod 2 ^ w = prev + c ! ci" using Suc.prems(2) by simp
  have step: "prefix_up w c (Suc n) prev ci oi ofs ! q =
      (if Suc oi \<le> q \<and> q < Suc oi + n then prev + c ! ci + range_sum c (Suc ci) (Suc (Suc ci + (q - Suc oi)))
       else ofs[oi := prev + c ! ci] ! q)"
    using Suc.IH [of "Suc oi" "ofs[oi := prev + c ! ci]" "prev + c ! ci" "Suc ci"] Suc.prems sum small
    by (simp add: Let_def)
  consider "q = oi" | "Suc oi \<le> q" "q < oi + Suc n" | "q < oi \<or> oi + Suc n \<le> q" by linarith
  then show ?case
  proof cases
    case 2
    then have "Suc (ci + (q - oi)) = Suc (Suc ci + (q - Suc oi))" by simp
    then have "range_sum c ci (Suc (ci + (q - oi))) = c ! ci + range_sum c (Suc ci) (Suc (Suc ci + (q - Suc oi)))"
      using range_sum_Cons [of ci "Suc (ci + (q - oi))" c] by presburger
    then show ?thesis using 2 unfolding step by simp
  next
    case 1
    then show ?thesis using Suc.prems unfolding step by simp
  next
    case 3
    then have "\<not> (Suc oi \<le> q \<and> q < Suc oi + n)" "\<not> (oi \<le> q \<and> q < oi + Suc n)" "oi \<noteq> q" by auto
    then show ?thesis unfolding step by (simp only: if_False) simp
  qed
qed simp

lemma length_prefix_down [simp]: "length (prefix_down w c n prev ci oi ofs) = length ofs"
  by (induction n arbitrary: prev ci oi ofs) (simp_all add: Let_def)

lemma prefix_down_nth:
  "n \<le> Suc oi \<Longrightarrow> n \<le> Suc ci \<Longrightarrow> oi < length ofs \<Longrightarrow> prev + range_sum c (Suc ci - n) (Suc ci) < 2 ^ w \<Longrightarrow> q < length ofs \<Longrightarrow>
   prefix_down w c n prev ci oi ofs ! q =
     (if oi < q + n \<and> q \<le> oi then prev + range_sum c (ci - (oi - q)) (Suc ci) else ofs ! q)"
proof (induction n arbitrary: prev ci oi ofs)
  case (Suc n)
  have sum: "range_sum c (Suc ci - Suc n) (Suc ci) = range_sum c (ci - n) ci + c ! ci"
    using range_sum_snoc [of "ci - n" ci c] by simp
  then have small: "(prev + c ! ci) mod 2 ^ w = prev + c ! ci" using Suc.prems(4) by simp
  show ?case
  proof (cases "n = 0")
    case True
    then show ?thesis using small Suc.prems by (auto simp: Let_def nth_list_update)
  next
    case False
    have ci: "Suc (ci - 1) = ci" using False Suc.prems by simp
    have step: "prefix_down w c (Suc n) prev ci oi ofs ! q =
        (if oi - 1 < q + n \<and> q \<le> oi - 1 then prev + c ! ci + range_sum c (ci - 1 - (oi - 1 - q)) ci
         else ofs[oi := prev + c ! ci] ! q)"
      using Suc.IH [of "oi - 1" "ci - 1" "ofs[oi := prev + c ! ci]" "prev + c ! ci"] Suc.prems sum small False
      unfolding ci by (simp add: Let_def)
    consider "q = oi" | "q < oi" "oi < q + Suc n" | "\<not> (oi < q + Suc n \<and> q \<le> oi)" by linarith
    then show ?thesis
    proof cases
      case 1
      then show ?thesis using Suc.prems False unfolding step by auto
    next
      case 2
      then have "ci - (oi - q) = ci - 1 - (oi - 1 - q)" by simp
      then have "range_sum c (ci - (oi - q)) (Suc ci) = range_sum c (ci - 1 - (oi - 1 - q)) ci + c ! ci"
        using range_sum_snoc [of "ci - (oi - q)" ci c] diff_le_self by presburger
      moreover have "oi - 1 < q + n \<and> q \<le> oi - 1" using 2 by auto
      ultimately show ?thesis using 2 unfolding step by auto
    next
      case 3
      then have out: "\<not> (oi - 1 < q + n \<and> q \<le> oi - 1)" "oi \<noteq> q" using False by auto
      show ?thesis unfolding step if_not_P [OF out(1)] if_not_P [OF 3] using out(2) by simp
    qed
  qed
qed simp

lemma start_upt: "a \<le> d \<Longrightarrow> d < b \<Longrightarrow> start [a..<b] c d = sum_list (map c [a..<d])"
proof (induction "d - a" arbitrary: a)
  case (Suc k)
  then have "a < d" "[a..<b] = a # [Suc a..<b]" "[a..<d] = a # [Suc a..<d]" by (simp_all add: upt_conv_Cons)
  then show ?case using Suc.hyps(1) [of "Suc a"] Suc.hyps(2) Suc.prems(2) by (simp add: start_Cons)
qed (simp add: upt_conv_Cons start_Cons)

lemma start_rev_upt: "a \<le> d \<Longrightarrow> d < b \<Longrightarrow> start (rev [a..<b]) c d = sum_list (map c [Suc d..<b])"
proof (induction b)
  case (Suc b)
  have split: "rev [a..<Suc b] = b # rev [a..<b]" using Suc.prems by simp
  show ?case
  proof (cases "b = d")
    case False
    then show ?thesis using Suc unfolding split by (simp add: start_Cons)
  next
    case True
    then show ?thesis unfolding split by (simp add: start_Cons)
  qed
qed simp

text \<open>\<open>table c counts\<close>: the list \<open>counts\<close> tabulates \<open>c\<close> on all digits.\<close>

definition table :: "(nat \<Rightarrow> nat) \<Rightarrow> nat list \<Rightarrow> bool" where
  "table c counts \<longleftrightarrow> (\<forall>b<256. counts ! b = c b)"

lemma table_sum: "table c counts \<Longrightarrow> b \<le> 256 \<Longrightarrow> range_sum counts a b = sum_list (map c [a..<b])"
  by (intro arg_cong [where f = sum_list] map_cong) (auto simp: table_def)

lemma sum_list_upt_mono: "a' \<le> a \<Longrightarrow> b \<le> b' \<Longrightarrow> sum_list (map c [a..<b]) \<le> sum_list (map (c :: nat \<Rightarrow> nat) [a'..<b'])"
  unfolding interv_sum_list_conv_sum_set_nat by (intro sum_mono2) auto

lemma offsets_unsigned_nth:
  assumes "table c counts" "length ofs = 256" "sum_list (map c [0..<256]) < 2 ^ w" "d < 256"
  shows "offsets_unsigned w counts ofs ! d = start unsigned_ord c d"
proof -
  have total: "range_sum counts 0 (0 + 255) < 2 ^ w"
    using table_sum [OF assms(1), of 255 0] sum_list_upt_mono [of 0 0 255 256 c] assms(3) by simp
  have "offsets_unsigned w counts ofs ! d = (if 1 \<le> d \<and> d < 256 then range_sum counts 0 (Suc (d - 1)) else 0)"
    unfolding offsets_unsigned_def using prefix_up_nth [of 1 255 "ofs[0 := 0]" 0 counts 0 w d] total assms(2,4)
    by (cases d) (simp_all del: upt_rec_numeral)
  also have "\<dots> = sum_list (map c [0..<d])"
    using table_sum [OF assms(1), of d 0] assms(4) by (cases d) simp_all
  finally show ?thesis using start_upt [of 0 d 256 c] assms(4) by (simp add: unsigned_ord_def)
qed

lemma positive_offsets_nth:
  assumes "table c counts" "length ofs = 256" "neg + sum_list (map c [0..<127]) < 2 ^ w" "d < 256"
  shows "prefix_up w counts 127 neg 0 1 (ofs[0 := neg]) ! d =
    (if d < 128 then neg + sum_list (map c [0..<d]) else ofs ! d)"
proof -
  have total: "neg + range_sum counts 0 (0 + 127) < 2 ^ w" using table_sum [OF assms(1), of 127 0] assms(3) by simp
  have "prefix_up w counts 127 neg 0 1 (ofs[0 := neg]) ! d =
      (if 1 \<le> d \<and> d < 128 then neg + range_sum counts 0 (Suc (d - 1)) else ofs[0 := neg] ! d)"
    using prefix_up_nth [of 1 127 "ofs[0 := neg]" neg counts 0 w d] total assms(2,4)
    by (auto simp del: upt_rec_numeral)
  then show ?thesis
    using table_sum [OF assms(1), of d 0] assms(2,4) by (cases d) (simp_all del: upt_rec_numeral)
qed

lemma offsets_signed_nth:
  assumes "table c counts" "length ofs = 256" "sum_list (map c signed_ord) < 2 ^ w" "d < 256"
    and neg: "neg = sum_list (map c [128..<256])"
  shows "offsets_signed w counts neg ofs ! d = start signed_ord c d"
proof -
  have sum: "neg + sum_list (map c [0..<128]) < 2 ^ w"
    using assms(3) neg by (simp add: signed_ord_def del: upt_rec_numeral)
  define ofs1 where "ofs1 = prefix_up w counts 127 neg 0 1 (ofs[0 := neg])"
  have ofs1: "length ofs1 = 256" "ofs1 ! d = (if d < 128 then neg + sum_list (map c [0..<d]) else ofs ! d)"
    using positive_offsets_nth [OF assms(1,2), of neg w d] sum_list_upt_mono [of 0 0 127 128 c] sum assms(2,4)
    by (simp_all add: ofs1_def del: upt_rec_numeral)
  have "range_sum counts 128 (128 + 127) < 2 ^ w"
    using table_sum [OF assms(1), of 255 128] sum_list_upt_mono [of 128 128 255 256 c] sum neg
    by (simp del: upt_rec_numeral)
  then have "offsets_signed w counts neg ofs ! d =
      (if 129 \<le> d \<and> d < 256 then range_sum counts 128 (Suc (128 + (d - 129))) else ofs1[128 := 0] ! d)"
    unfolding offsets_signed_def Let_def ofs1_def [symmetric]
    using prefix_up_nth [of 129 127 "ofs1[128 := 0]" 0 counts 128 w d] ofs1(1) assms(4)
    by (simp del: upt_rec_numeral)
  also have "\<dots> = (if d < 128 then neg + sum_list (map c [0..<d]) else sum_list (map c [128..<d]))"
  proof -
    consider "d < 128" | "d = 128" | "129 \<le> d" by linarith
    then show ?thesis
    proof cases
      case 3
      then have "Suc (128 + (d - 129)) = d" by simp
      then show ?thesis using 3 table_sum [OF assms(1), of d 128] assms(4) by (simp del: upt_rec_numeral)
    qed (use ofs1 in \<open>simp_all del: upt_rec_numeral\<close>)
  qed
  finally show ?thesis
    using start_upt [of 0 d 128 c] start_upt [of 128 d 256 c] assms(4) neg
    by (simp add: signed_ord_def start_append del: upt_rec_numeral)
qed

lemma fold_add_nth:
  "distinct xs \<Longrightarrow> d < length ofs \<Longrightarrow>
   fold (\<lambda>i ofs. ofs[i := (ofs ! i + counts ! i) mod m]) xs ofs ! d =
     (if d \<in> set xs then (ofs ! d + counts ! d) mod m else ofs ! d)"
proof (induction xs arbitrary: ofs)
  case (Cons a xs)
  then show ?case by (cases "a = d") auto
qed simp

lemma length_fold_add [simp]:
  "length (fold (\<lambda>i ofs. ofs[i := (ofs ! i + counts ! i) mod m]) xs ofs) = length ofs"
  by (induction xs arbitrary: ofs) simp_all

lemma offsets_float_nth:
  assumes "table c counts" "length ofs = 256" "sum_list (map c signed_ord) < 2 ^ w" "d < 256"
    and neg: "neg = sum_list (map c [128..<256])"
  shows "offsets_float w counts neg ofs ! d = start float_ord c d + (if d < 128 then 0 else c d)"
proof -
  have sum: "neg + sum_list (map c [0..<128]) < 2 ^ w"
    using assms(3) neg by (simp add: signed_ord_def del: upt_rec_numeral)
  define ofs1 where "ofs1 = prefix_up w counts 127 neg 0 1 (ofs[0 := neg])"
  have ofs1: "length ofs1 = 256" "ofs1 ! d = (if d < 128 then neg + sum_list (map c [0..<d]) else ofs ! d)"
    using positive_offsets_nth [OF assms(1,2), of neg w d] sum_list_upt_mono [of 0 0 127 128 c] sum assms(2,4)
    by (simp_all add: ofs1_def del: upt_rec_numeral)
  define ofs2 where "ofs2 = prefix_down w counts 127 0 255 254 (ofs1[255 := 0])"
  have "range_sum counts 129 256 < 2 ^ w"
    using table_sum [OF assms(1), of 256 129] sum_list_upt_mono [of 128 129 256 256 c] sum neg
    by (simp del: upt_rec_numeral)
  then have "ofs2 ! d = (if 254 < d + 127 \<and> d \<le> 254 then range_sum counts (255 - (254 - d)) 256 else ofs1[255 := 0] ! d)"
    unfolding ofs2_def using prefix_down_nth [of 127 254 255 "ofs1[255 := 0]" 0 counts w d] ofs1(1) assms(4)
    by (simp del: upt_rec_numeral)
  also have "\<dots> = (if d < 128 then neg + sum_list (map c [0..<d]) else sum_list (map c [Suc d..<256]))"
  proof -
    consider "d < 128" | "d = 255" | "128 \<le> d" "d \<le> 254" using assms(4) by linarith
    then show ?thesis
    proof cases
      case 1
      then show ?thesis using ofs1 by (simp del: upt_rec_numeral)
    next
      case 2
      then show ?thesis using ofs1 by (simp add: upt_rec)
    next
      case 3
      then have "255 - (254 - d) = Suc d" by simp
      then show ?thesis using 3 table_sum [OF assms(1), of 256 "Suc d"] by (simp del: upt_rec_numeral)
    qed
  qed
  finally have ofs2: "ofs2 ! d = (if d < 128 then neg + sum_list (map c [0..<d]) else sum_list (map c [Suc d..<256]))" .
  have fin: "offsets_float w counts neg ofs ! d = (if d < 128 then ofs2 ! d else (ofs2 ! d + c d) mod 2 ^ w)"
    unfolding offsets_float_def Let_def ofs1_def [symmetric] ofs2_def [symmetric]
    using fold_add_nth [of "[128..<256]" d ofs2 counts "2 ^ w"] ofs1(1) assms(1,4)
    by (auto simp: ofs2_def table_def simp del: upt_rec_numeral)
  show ?thesis
  proof (cases "d < 128")
    case True
    then show ?thesis using fin ofs2 start_upt [of 0 d 128 c] neg
      by (simp add: float_ord_def start_append rev_map [symmetric] del: upt_rec_numeral)
  next
    case False
    have "sum_list (map c [Suc d..<256]) + c d = sum_list (map c [d..<256])"
      using assms(4) by (simp add: upt_conv_Cons del: upt_rec_numeral)
    also have "\<dots> \<le> neg" unfolding neg using False by (intro sum_list_upt_mono) simp_all
    finally have "sum_list (map c [Suc d..<256]) + c d < 2 ^ w" using sum by linarith
    then show ?thesis
      using fin ofs2 False start_rev_upt [of 128 d 256 c] assms(4)
      by (simp add: float_ord_def start_append del: upt_rec_numeral)
  qed
qed

lemma count_negatives_eq:
  assumes "table c counts" "sum_list (map c [128..<256]) < 2 ^ w"
  shows "count_negatives w counts = sum_list (map c [128..<256])"
proof -
  have "fold (\<lambda>i n. (n + counts ! i) mod m) xs n = (if xs = [] then n else (n + sum_list (map ((!) counts) xs)) mod m)" for xs n m
    by (induction xs arbitrary: n) (auto simp: mod_simps add.assoc)
  then have "count_negatives w counts = (0 + range_sum counts 128 256) mod 2 ^ w"
    unfolding count_negatives_def by (simp del: upt_rec_numeral)
  then show ?thesis using table_sum [OF assms(1), of 256 128] assms(2) by (simp del: upt_rec_numeral)
qed

section \<open>Passes\<close>

lemma scatter_place:
  "\<forall>i \<in> set ids. pos i < length input \<and> unat (input ! pos i) = dg i \<Longrightarrow>
   scatter w pos input ids ofs nxt = place w dg (\<lambda>_. True) ids ofs nxt"
proof (induction ids arbitrary: ofs nxt)
  case (Cons i ids)
  then have "mem_get input (pos i) = Some (input ! pos i)" "unat (input ! pos i) = dg i"
    by (simp_all add: mem_simps)
  moreover have "scatter w pos input ids = place w dg (\<lambda>_. True) ids" using Cons by (simp add: fun_eq_iff)
  ultimately show ?case by (simp add: Let_def)
qed simp

lemma element_top:
  assumes "i < cnt" "cnt * ds \<le> length input" "0 < ds"
  shows "element ds input i div 2 ^ (8 * (ds - 1)) = digit_at ds input (ds - 1) i"
proof -
  have "element ds input i = low ds input (ds - 1) i + 256 ^ (ds - 1) * digit_at ds input (ds - 1) i"
    using low_Suc [of i ds "ds - 1" input] in_bounds [OF assms(1), of "ds - 1" ds] assms(2,3)
    by (simp add: element_def)
  moreover have "(2 :: nat) ^ (8 * (ds - 1)) = 256 ^ (ds - 1)" by (simp add: power_mult)
  ultimately show ?thesis using low_less [of ds input "ds - 1" i] by simp
qed

lemma scatter_float_place:
  assumes "cnt * ds \<le> length input" "0 < ds"
  shows "\<forall>i \<in> set ids. i < cnt \<Longrightarrow>
   scatter_float w ds input ids ofs nxt = place w (digit_at ds input (ds - 1)) (\<lambda>d. d < 128) ids ofs nxt"
proof (induction ids arbitrary: ofs nxt)
  case (Cons i ids)
  then have "read_value ds input i = Some (element ds input i)"
    "element ds input i div 2 ^ (8 * (ds - 1)) = digit_at ds input (ds - 1) i"
    using read_value_eq [OF _ assms(1)] element_top [OF _ assms] by simp_all
  moreover have "scatter_float w ds input ids = place w (digit_at ds input (ds - 1)) (\<lambda>d. d < 128) ids"
    using Cons by (simp add: fun_eq_iff)
  ultimately show ?case by (simp add: Let_def)
qed simp

text \<open>Between the passes: the indices are a permutation sorted by the low \<open>p\<close> bytes.\<close>

definition pass_state :: "radixsort_t \<Rightarrow> byte list \<Rightarrow> nat \<Rightarrow> (nat \<Rightarrow> nat \<Rightarrow> bool) \<Rightarrow> radixsort_t \<Rightarrow> bool" where
  "pass_state rs0 input cnt R rs \<longleftrightarrow> rx_same rs0 rs \<and> rx_ready cnt rs \<and>
     hist_ok (rx_data_size rs0) input cnt (rx_histogram rs) \<and> sorted_wrt R (take cnt (rx_indices0 rs))"

definition low_le :: "nat \<Rightarrow> byte list \<Rightarrow> nat \<Rightarrow> nat \<Rightarrow> nat \<Rightarrow> bool" where
  "low_le ds input p a b \<longleftrightarrow> low ds input p a \<le> low ds input p b"

lemma permutation_set: "mset ids = mset [0..<cnt] \<Longrightarrow> i \<in> set ids \<longleftrightarrow> i < cnt"
  by (metis atLeastLessThan_iff le0 set_mset_mset set_upt)

lemma permutation_counts: "mset ids = mset [0..<cnt] \<Longrightarrow> cnt_of dg ids b = cnt_of dg [0..<cnt] b"
  by (metis mset_filter part_def size_mset)

lemma hist_table:
  assumes "hist_ok ds input cnt hist" "mset ids = mset [0..<cnt]" "p < ds"
  shows "table (cnt_of (digit_at ds input p) ids) (hist ! p)"
  using assms permutation_counts [OF assms(2)] by (simp add: table_def hist_ok_def)

text \<open>When one digit has all elements, every element has it.\<close>

lemma all_same_digit:
  assumes "cnt_of dg ids b = length ids" "i \<in> set ids"
  shows "dg i = b"
proof (rule ccontr)
  assume "dg i \<noteq> b"
  then have "length (filter (\<lambda>i. dg i = b) ids) < length ids" using assms(2) by (intro length_filter_less) auto
  then show False using assms(1) by (simp add: part_def)
qed

lemma pass_facts:
  assumes "pass_state rs0 input cnt R rs"
  shows "length (take cnt (rx_indices0 rs)) = cnt" "mset (take cnt (rx_indices0 rs)) = mset [0..<cnt]"
    "mem_load (rx_indices0 rs) 0 cnt = Some (take cnt (rx_indices0 rs))" "length (rx_offset rs) = 256"
    "cnt \<le> length (rx_indices1 rs)" "cnt < 2 ^ rx_bits rs0" "rx_data_size rs = rx_data_size rs0" "0 < rx_data_size rs0"
    "i \<in> set (take cnt (rx_indices0 rs)) \<longleftrightarrow> i < cnt"
  using assms permutation_set [of "take cnt (rx_indices0 rs)" cnt i] rx_same_facts [of rs0 rs]
  by (auto simp: pass_state_def rx_ready_def mem_simps)

lemma pass_state_swap:
  assumes "pass_state rs0 input cnt R rs" "length ofs = 256" "length nxt = length (rx_indices1 rs)"
    and "mset (take cnt nxt) = mset [0..<cnt]" "sorted_wrt R' (take cnt nxt)"
  shows "pass_state rs0 input cnt R' (rx_swap rs (ofs, nxt))"
  using assms by (auto simp: pass_state_def rx_same_def rx_ready_def rx_swap_def rx_bits_def rx_data_size_def)

lemma pass_state_mono:
  assumes "pass_state rs0 input cnt R rs" "\<And>a b. a < cnt \<Longrightarrow> b < cnt \<Longrightarrow> R a b \<Longrightarrow> R' a b"
  shows "pass_state rs0 input cnt R' rs"
proof -
  have "sorted_wrt R (take cnt (rx_indices0 rs))" using assms(1) by (simp add: pass_state_def)
  then have "sorted_wrt R' (take cnt (rx_indices0 rs))"
    by (rule sorted_wrt_mono_rel [rotated]) (use assms(2) pass_facts(9) [OF assms(1)] in auto)
  then show ?thesis using assms(1) by (simp add: pass_state_def)
qed

lemma byte_position_eq:
  assumes "rx_same rs0 rs" "i < cnt" "cnt * rx_data_size rs0 \<le> 2 ^ 32" "0 < rx_data_size rs0"
  shows "byte_position rs p i = i * rx_data_size rs0 + p"
proof -
  have "i * rx_data_size rs0 < cnt * rx_data_size rs0" using assms(2,4) by simp
  then have lt: "i * rx_data_size rs0 < 2 ^ 32" using assms(3) by linarith
  have "(if rx_type rs \<noteq> RADIXSORT_CUSTOM then i * 2 ^ (radixsort_data_shift ! data_index (rx_type rs))
      else i * rx_custom_data_size rs) = i * rx_data_size rs0"
    using assms(1) by (cases "rx_type rs")
      (auto simp: rx_same_def rx_data_size_def radixsort_data_size_def radixsort_data_shift_def)
  then show ?thesis using lt by (simp add: byte_position_def)
qed

lemma place_scatter:
  assumes st: "pass_state rs0 input cnt R rs" and p: "p < rx_data_size rs0"
    and input: "cnt * rx_data_size rs0 \<le> length input" "cnt * rx_data_size rs0 \<le> 2 ^ 32"
  shows "scatter w (byte_position rs p) input (take cnt (rx_indices0 rs)) ofs nxt =
    place w (digit_at (rx_data_size rs0) input p) (\<lambda>_. True) (take cnt (rx_indices0 rs)) ofs nxt"
proof (rule scatter_place, rule ballI)
  fix i assume "i \<in> set (take cnt (rx_indices0 rs))"
  then have i: "i < cnt" using pass_facts(9) [OF st] by simp
  then have "byte_position rs p i = i * rx_data_size rs0 + p"
    using st input(2) p by (intro byte_position_eq) (auto simp: pass_state_def)
  then show "byte_position rs p i < length input \<and> unat (input ! byte_position rs p i) = digit_at (rx_data_size rs0) input p i"
    using in_bounds [OF i p input(1)] by (simp add: digit_at_def)
qed

end
