(* ===== verification/Radixsort_Sorts.thy ===== *)
theory Radixsort_Sorts
  imports Radixsort_Correct
begin

text \<open>
  The passes of the radix sorter sort: low bytes first, then the top byte in the order of the
  data type. The main theorems say that a sorter returns a sorted permutation of the indices.
\<close>

section \<open>The order of the top byte\<close>

definition top_signed :: "nat \<Rightarrow> int" where
  "top_signed d = (if d \<ge> 128 then int d - 256 else int d)"

definition float_before :: "nat \<Rightarrow> nat \<Rightarrow> bool" where
  "float_before d e \<longleftrightarrow> 128 \<le> d \<and> (e < 128 \<or> e < d) \<or> d < e \<and> e < 128"

lemma sorted_upt_rel: "(\<And>i j. a \<le> i \<Longrightarrow> i < j \<Longrightarrow> j < b \<Longrightarrow> R i j) \<Longrightarrow> sorted_wrt R [a..<b]"
  by (auto simp: sorted_wrt_iff_nth_less)

lemma unsigned_ord_sorted: "sorted_wrt (<) unsigned_ord"
  unfolding unsigned_ord_def by (rule sorted_upt_rel)

lemma signed_ord_sorted: "sorted_wrt (\<lambda>d e. top_signed d < top_signed e) signed_ord"
  unfolding signed_ord_def sorted_wrt_append
  by (intro conjI sorted_upt_rel ballI) (auto simp: top_signed_def simp del: upt_rec_numeral)

lemma float_ord_sorted: "sorted_wrt float_before float_ord"
  unfolding float_ord_def sorted_wrt_append sorted_wrt_rev
  by (intro conjI sorted_upt_rel ballI) (auto simp: float_before_def simp del: upt_rec_numeral)

lemma low_across:
  assumes "d < e" "l < (256 :: nat) ^ p"
  shows "l + 256 ^ p * d \<le> m + 256 ^ p * e"
proof -
  have "256 ^ p * Suc d \<le> 256 ^ p * e" using assms(1) by (intro mult_le_mono2) simp
  then show ?thesis using assms(2) by simp
qed

text \<open>The value of an element in terms of its top byte and the rest.\<close>

definition rest_of :: "nat \<Rightarrow> byte list \<Rightarrow> nat \<Rightarrow> nat" where
  "rest_of ds input i = low ds input (ds - 1) i"

definition top_of :: "nat \<Rightarrow> byte list \<Rightarrow> nat \<Rightarrow> nat" where
  "top_of ds input i = digit_at ds input (ds - 1) i"

lemma element_split:
  assumes "i < cnt" "cnt * ds \<le> length input" "0 < ds"
  shows "element ds input i = rest_of ds input i + 256 ^ (ds - 1) * top_of ds input i"
    and "rest_of ds input i < 256 ^ (ds - 1)" and "top_of ds input i < 256"
proof -
  have "i * ds + (ds - 1) < length input" using assms by (intro in_bounds) simp_all
  from low_Suc [OF this] show "element ds input i = rest_of ds input i + 256 ^ (ds - 1) * top_of ds input i"
    using assms(3) by (simp add: element_def rest_of_def top_of_def)
qed (simp_all add: rest_of_def top_of_def low_less)

lemma value_powers:
  assumes "0 < ds"
  shows "(2 :: nat) ^ (8 * ds - 1) = 128 * 256 ^ (ds - 1)" "(2 :: int) ^ (8 * ds) = 256 * 256 ^ (ds - 1)"
proof -
  obtain k where ds: "ds = Suc k" using assms by (cases ds) auto
  have e: "8 * ds - 1 = 7 + 8 * k" "8 * ds = 8 + 8 * k" unfolding ds by simp_all
  show "(2 :: nat) ^ (8 * ds - 1) = 128 * 256 ^ (ds - 1)"
    unfolding e(1) by (simp add: ds power_add power_mult)
  show "(2 :: int) ^ (8 * ds) = 256 * 256 ^ (ds - 1)"
    unfolding e(2) by (simp add: ds power_add power_mult)
qed

lemma top_ge:
  assumes "r < q" shows "128 * q \<le> r + q * t \<longleftrightarrow> 128 \<le> (t :: nat)"
proof
  assume a: "128 * q \<le> r + q * t"
  show "128 \<le> t"
  proof (rule ccontr)
    assume "\<not> 128 \<le> t"
    then have "q * Suc t \<le> q * 128" by (intro mult_le_mono2) simp
    then have "q + q * t \<le> q * 128" unfolding mult_Suc_right .
    then show False using a assms by linarith
  qed
next
  assume "128 \<le> t"
  then have "q * 128 \<le> q * t" by (rule mult_le_mono2)
  then show "128 * q \<le> r + q * t" by linarith
qed

lemma signed_value_split:
  assumes "i < cnt" "cnt * ds \<le> length input" "0 < ds"
  shows "signed_value (8 * ds) (element ds input i) =
    int (rest_of ds input i) + 256 ^ (ds - 1) * top_signed (top_of ds input i)"
proof -
  note split = element_split [OF assms] and pow = value_powers [OF assms(3)]
  have "2 ^ (8 * ds - 1) \<le> element ds input i \<longleftrightarrow> 128 \<le> top_of ds input i"
    unfolding pow split(1) by (rule top_ge [OF split(2)])
  then show ?thesis unfolding signed_value_def top_signed_def pow(2) split(1)
    by (simp add: algebra_simps)
qed

lemma float_value_split:
  assumes "i < cnt" "cnt * ds \<le> length input" "0 < ds"
  shows "float_value (8 * ds) (element ds input i) =
    (if 128 \<le> top_of ds input i then - int (rest_of ds input i + 256 ^ (ds - 1) * (top_of ds input i - 128))
     else int (rest_of ds input i + 256 ^ (ds - 1) * top_of ds input i))"
proof -
  note split = element_split [OF assms] and pow = value_powers [OF assms(3)]
  let ?q = "256 ^ (ds - 1) :: nat" and ?r = "rest_of ds input i" and ?t = "top_of ds input i"
  have ge: "2 ^ (8 * ds - 1) \<le> element ds input i \<longleftrightarrow> 128 \<le> ?t"
    unfolding pow split(1) by (rule top_ge [OF split(2)])
  have "(?r + ?q * ?t) mod (128 * ?q) = ?r + ?q * (?t - 128)" if t: "128 \<le> ?t"
  proof -
    obtain t' where t': "?t = 128 + t'" using t le_Suc_ex by blast
    then have eq: "?r + ?q * ?t = ?r + ?q * (?t - 128) + 128 * ?q" by (simp add: algebra_simps)
    have "?q * Suc (?t - 128) \<le> ?q * 128" using split(3) t by (intro mult_le_mono2) simp
    then have "?q + ?q * (?t - 128) \<le> ?q * 128" unfolding mult_Suc_right .
    then have "?r + ?q * (?t - 128) < 128 * ?q" using split(2) by linarith
    then show ?thesis unfolding eq by simp
  qed
  then show ?thesis using ge unfolding float_value_def pow(1) split(1) by auto
qed

section \<open>One pass\<close>

lemma sum_ords:
  "\<forall>i \<in> set ids. dg i < 256 \<Longrightarrow> sum_list (map (cnt_of dg ids) signed_ord) = length ids"
  "\<forall>i \<in> set ids. dg i < 256 \<Longrightarrow> sum_list (map (cnt_of dg ids) [0..<256]) = length ids"
  using signed_order.sum_counts unsigned_order.sum_counts by (simp_all add: unsigned_ord_def del: upt_rec_numeral)

lemma length_offsets:
  "length (offsets_unsigned w counts ofs) = length ofs" "length (offsets_signed w counts neg ofs) = length ofs"
  "length (offsets_float w counts neg ofs) = length ofs"
  by (simp_all add: offsets_unsigned_def offsets_signed_def offsets_float_def Let_def del: upt_rec_numeral)

lemma unsigned_pass:
  assumes st: "pass_state rs0 input cnt (low_le (rx_data_size rs0) input p) rs" and p: "p < rx_data_size rs0"
    and input: "cnt * rx_data_size rs0 \<le> length input" "cnt * rx_data_size rs0 \<le> 2 ^ 32"
  shows "\<exists>r. scatter (rx_bits rs0) (byte_position rs p) input (take cnt (rx_indices0 rs))
      (offsets_unsigned (rx_bits rs0) (rx_histogram rs ! p) (rx_offset rs)) (rx_indices1 rs) = Some r \<and>
    pass_state rs0 input cnt (low_le (rx_data_size rs0) input (Suc p)) (rx_swap rs r)"
proof -
  let ?ds = "rx_data_size rs0" and ?ids = "take cnt (rx_indices0 rs)"
  let ?dg = "digit_at ?ds input p"
  note facts = pass_facts [OF st]
  have tab: "table (cnt_of ?dg ?ids) (rx_histogram rs ! p)"
    using st p facts(2) by (intro hist_table) (auto simp: pass_state_def)
  have total: "sum_list (map (cnt_of ?dg ?ids) [0..<256]) < 2 ^ rx_bits rs0"
    using sum_ords(2) [of ?ids ?dg] facts(1,6) by (simp del: upt_rec_numeral)
  obtain ofs' nxt' where r: "place (rx_bits rs0) ?dg (\<lambda>_. True) ?ids
      (offsets_unsigned (rx_bits rs0) (rx_histogram rs ! p) (rx_offset rs)) (rx_indices1 rs) = Some (ofs', nxt')"
    "length ofs' = 256" "length nxt' = length (rx_indices1 rs)"
    "take cnt nxt' = concat (map (block ?dg (\<lambda>_. True) ?ids) unsigned_ord)" "mset (take cnt nxt') = mset ?ids"
    using unsigned_order.counting_pass [of ?ids ?dg "offsets_unsigned (rx_bits rs0) (rx_histogram rs ! p) (rx_offset rs)"
      "rx_indices1 rs" "rx_bits rs0"] offsets_unsigned_nth [OF tab facts(4) total] facts(1,4,5,6)
    by (auto simp: length_offsets)
  have "sorted_wrt (low_le ?ds input (Suc p)) (take cnt nxt')"
    unfolding r(4)
  proof (rule sorted_blocks [OF _ unsigned_ord_sorted])
    show "sorted_wrt (\<lambda>a b. low_le ?ds input p a b \<and> a < cnt \<and> b < cnt) ?ids"
      using st facts(9) by (auto simp: pass_state_def intro: sorted_wrt_mono_rel)
  next
    fix a b assume "low_le ?ds input p a b \<and> a < cnt \<and> b < cnt" "?dg a = ?dg b"
    then show "low_le ?ds input (Suc p) a b"
      using in_bounds [OF _ p input(1)] by (simp add: low_le_def low_Suc)
  next
    fix a b assume "?dg a < ?dg b" "a \<in> set ?ids" "b \<in> set ?ids"
    then show "low_le ?ds input (Suc p) a b"
      using in_bounds [OF _ p input(1)] facts(9) low_across [OF _ low_less] by (simp add: low_le_def low_Suc)
  qed simp
  then show ?thesis
    using pass_state_swap [OF st r(2,3)] r facts(2) place_scatter [OF st p input] by simp
qed

lemma skipped_pass:
  assumes st: "pass_state rs0 input cnt (low_le (rx_data_size rs0) input p) rs" and p: "p < rx_data_size rs0"
    and input: "cnt * rx_data_size rs0 \<le> length input"
    and all: "rx_histogram rs ! p ! unat (input ! p) = cnt" and ab: "a < cnt"
  shows "digit_at (rx_data_size rs0) input p a = unat (input ! p)"
proof -
  let ?ids = "take cnt (rx_indices0 rs)" and ?dg = "digit_at (rx_data_size rs0) input p"
  note facts = pass_facts [OF st]
  have "table (cnt_of ?dg ?ids) (rx_histogram rs ! p)"
    using st p facts(2) by (intro hist_table) (auto simp: pass_state_def)
  then have "cnt_of ?dg ?ids (unat (input ! p)) = length ?ids"
    using all facts(1) byte_less [of "input ! p"] by (simp add: table_def)
  then show ?thesis using all_same_digit facts(9) ab by blast
qed

lemma first_byte:
  assumes "0 < cnt" "p < ds" "cnt * ds \<le> length input"
  shows "mem_get input p = Some (input ! p)"
  using in_bounds [OF assms] by (simp add: mem_simps)

lemma low_pass:
  assumes st: "pass_state rs0 input cnt (low_le (rx_data_size rs0) input p) rs" and p: "p < rx_data_size rs0"
    and input: "0 < cnt" "cnt * rx_data_size rs0 \<le> length input" "cnt * rx_data_size rs0 \<le> 2 ^ 32"
    and low: "p \<noteq> rx_data_size rs0 - 1 \<or> \<not> data_signed"
  shows "\<exists>rs'. radixsort_int_pass (rx_bits rs0) input cnt data_signed neg p rs = Some rs' \<and>
    pass_state rs0 input cnt (low_le (rx_data_size rs0) input (Suc p)) rs'"
proof (cases "rx_histogram rs ! p ! unat (input ! p) = cnt")
  case True
  have "low_le (rx_data_size rs0) input (Suc p) a b" if "a < cnt" "b < cnt" "low_le (rx_data_size rs0) input p a b" for a b
    using that skipped_pass [OF st p input(2) True] in_bounds [OF _ p input(2)] by (simp add: low_le_def low_Suc)
  then have "pass_state rs0 input cnt (low_le (rx_data_size rs0) input (Suc p)) rs"
    by (rule pass_state_mono [OF st])
  then show ?thesis using True first_byte [OF input(1) p input(2)] by (simp add: radixsort_int_pass_def Let_def)
next
  case False
  then show ?thesis
    using unsigned_pass [OF st p input(2,3)] first_byte [OF input(1) p input(2)] low pass_facts(3,7) [OF st]
    by (auto simp: radixsort_int_pass_def Let_def)
qed

section \<open>The top byte\<close>

definition key_le :: "(nat \<Rightarrow> int) \<Rightarrow> nat \<Rightarrow> byte list \<Rightarrow> nat \<Rightarrow> nat \<Rightarrow> bool" where
  "key_le key ds input a b \<longleftrightarrow> key (element ds input a) \<le> key (element ds input b)"

lemma int_across: "x < (y :: int) \<Longrightarrow> 0 \<le> l \<Longrightarrow> l < q \<Longrightarrow> 0 \<le> m \<Longrightarrow> l + q * x \<le> m + q * y"
proof -
  assume a: "x < y" "0 \<le> l" "l < q" "0 \<le> m"
  then have "q * (x + 1) \<le> q * y" by (intro mult_left_mono) simp_all
  then show ?thesis using a by (simp add: algebra_simps)
qed

lemma signed_same_top:
  assumes "a < cnt" "b < cnt" "cnt * ds \<le> length input" "0 < ds" "low_le ds input (ds - 1) a b"
    "top_of ds input a = top_of ds input b"
  shows "key_le (signed_value (8 * ds)) ds input a b"
  using assms(5,6) signed_value_split [OF assms(1,3,4)] signed_value_split [OF assms(2,3,4)]
  by (simp add: key_le_def low_le_def rest_of_def)

lemma signed_pass:
  assumes st: "pass_state rs0 input cnt (low_le (rx_data_size rs0) input (rx_data_size rs0 - 1)) rs"
    and input: "0 < cnt" "cnt * rx_data_size rs0 \<le> length input" "cnt * rx_data_size rs0 \<le> 2 ^ 32"
    and neg: "neg = count_negatives (rx_bits rs0) (rx_histogram rs ! (rx_data_size rs0 - 1))"
  shows "\<exists>rs'. radixsort_int_pass (rx_bits rs0) input cnt True neg (rx_data_size rs0 - 1) rs = Some rs' \<and>
    pass_state rs0 input cnt (key_le (signed_value (8 * rx_data_size rs0)) (rx_data_size rs0) input) rs'"
proof -
  let ?ds = "rx_data_size rs0" and ?ids = "take cnt (rx_indices0 rs)" and ?w = "rx_bits rs0"
  let ?dg = "digit_at ?ds input (?ds - 1)" and ?hist = "rx_histogram rs ! (rx_data_size rs0 - 1)"
  let ?Q = "key_le (signed_value (8 * ?ds)) ?ds input"
  note facts = pass_facts [OF st]
  have p: "?ds - 1 < ?ds" using facts(8) by simp
  have same: "?Q a b" if "a < cnt" "b < cnt" "low_le ?ds input (?ds - 1) a b" "?dg a = ?dg b" for a b
    using that by (intro signed_same_top [OF _ _ input(2) facts(8)]) (simp_all add: top_of_def)
  show ?thesis
  proof (cases "?hist ! unat (input ! (?ds - 1)) = cnt")
    case True
    have "pass_state rs0 input cnt ?Q rs"
      by (rule pass_state_mono [OF st]) (use same skipped_pass [OF st p input(2) True] in auto)
    then show ?thesis using True first_byte [OF input(1) p input(2)] by (simp add: radixsort_int_pass_def Let_def)
  next
    case False
    have tab: "table (cnt_of ?dg ?ids) ?hist"
      using st p facts(2) by (intro hist_table) (auto simp: pass_state_def)
    have total: "sum_list (map (cnt_of ?dg ?ids) signed_ord) < 2 ^ ?w"
      using sum_ords(1) [of ?ids ?dg] facts(1,6) by simp
    then have "sum_list (map (cnt_of ?dg ?ids) [128..<256]) < 2 ^ ?w"
      by (simp add: signed_ord_def del: upt_rec_numeral)
    then have neg': "neg = sum_list (map (cnt_of ?dg ?ids) [128..<256])"
      using neg count_negatives_eq [OF tab] by (simp del: upt_rec_numeral)
    let ?ofs = "offsets_signed ?w ?hist neg (rx_offset rs)"
    obtain ofs' nxt' where r: "place ?w ?dg (\<lambda>_. True) ?ids ?ofs (rx_indices1 rs) = Some (ofs', nxt')"
      "length ofs' = 256" "length nxt' = length (rx_indices1 rs)"
      "take cnt nxt' = concat (map (block ?dg (\<lambda>_. True) ?ids) signed_ord)" "mset (take cnt nxt') = mset ?ids"
      using signed_order.counting_pass [of ?ids ?dg ?ofs "rx_indices1 rs" ?w]
        offsets_signed_nth [OF tab facts(4) total _ neg'] facts(1,4,5,6)
      by (auto simp: length_offsets)
    have "sorted_wrt ?Q (take cnt nxt')"
      unfolding r(4)
    proof (rule sorted_blocks [OF _ signed_ord_sorted])
      show "sorted_wrt (\<lambda>a b. low_le ?ds input (?ds - 1) a b \<and> a < cnt \<and> b < cnt) ?ids"
        using st facts(9) by (auto simp: pass_state_def intro: sorted_wrt_mono_rel)
    next
      fix a b assume "low_le ?ds input (?ds - 1) a b \<and> a < cnt \<and> b < cnt" "?dg a = ?dg b"
      then show "?Q a b" using same by blast
    next
      fix a b assume "top_signed (?dg a) < top_signed (?dg b)" "a \<in> set ?ids" "b \<in> set ?ids"
      then have ab: "a < cnt" "b < cnt" "top_signed (top_of ?ds input a) < top_signed (top_of ?ds input b)"
        using facts(9) by (auto simp: top_of_def)
      then have "int (rest_of ?ds input a) < 256 ^ (?ds - 1)"
        using element_split(2) [OF ab(1) input(2) facts(8)] by (metis of_nat_less_iff of_nat_numeral of_nat_power)
      then show "?Q a b"
        using signed_value_split [OF ab(1) input(2) facts(8)] signed_value_split [OF ab(2) input(2) facts(8)]
          int_across [OF ab(3)] by (simp add: key_le_def)
    qed simp
    then have "pass_state rs0 input cnt ?Q (rx_swap rs (ofs', nxt'))"
      using pass_state_swap [OF st r(2,3)] r(5) facts(2) by simp
    then show ?thesis
      using False r(1) first_byte [OF input(1) p input(2)] facts(3,7) place_scatter [OF st p input(2,3)]
      by (auto simp: radixsort_int_pass_def Let_def)
  qed
qed

lemma float_same_top:
  assumes "a < cnt" "b < cnt" "cnt * ds \<le> length input" "0 < ds" "low_le ds input (ds - 1) a b"
    "top_of ds input a = top_of ds input b"
  shows "top_of ds input a < 128 \<Longrightarrow> key_le (float_value (8 * ds)) ds input a b"
    and "\<not> top_of ds input a < 128 \<Longrightarrow> key_le (float_value (8 * ds)) ds input b a"
  using assms(5,6) float_value_split [OF assms(1,3,4)] float_value_split [OF assms(2,3,4)]
  by (simp_all add: key_le_def low_le_def rest_of_def)

lemma float_across:
  assumes "a < cnt" "b < cnt" "cnt * ds \<le> length input" "0 < ds" "float_before (top_of ds input a) (top_of ds input b)"
  shows "key_le (float_value (8 * ds)) ds input a b"
proof -
  let ?t = "top_of ds input" and ?r = "rest_of ds input" and ?q = "256 ^ (ds - 1) :: nat"
  note va = float_value_split [OF assms(1,3,4)] and vb = float_value_split [OF assms(2,3,4)]
  consider "128 \<le> ?t a" "?t b < 128" | "128 \<le> ?t b" "?t b < ?t a" | "?t a < ?t b" "?t b < 128"
    using assms(5) unfolding float_before_def by linarith
  then show ?thesis
  proof cases
    case 1
    have le: "- int x \<le> int y" for x y :: nat by linarith
    show ?thesis
      unfolding key_le_def va vb if_P [OF 1(1)] if_not_P [OF not_le [THEN iffD2, OF 1(2)]] by (rule le)
  next
    case 2
    then have "?r b + ?q * (?t b - 128) \<le> ?r a + ?q * (?t a - 128)"
      by (intro low_across element_split(2) [OF assms(2-4)]) simp
    then have "int (?r b + ?q * (?t b - 128)) \<le> int (?r a + ?q * (?t a - 128))" by (rule zle_int [THEN iffD2])
    then show ?thesis using 2 unfolding key_le_def va vb by auto
  next
    case 3
    then have "?r a + ?q * ?t a \<le> ?r b + ?q * ?t b"
      by (intro low_across element_split(2) [OF assms(1,3,4)]) simp
    then have "int (?r a + ?q * ?t a) \<le> int (?r b + ?q * ?t b)" by (rule zle_int [THEN iffD2])
    then show ?thesis using 3 unfolding key_le_def va vb by auto
  qed
qed

lemma float_pass:
  assumes st: "pass_state rs0 input cnt (low_le (rx_data_size rs0) input (rx_data_size rs0 - 1)) rs"
    and input: "0 < cnt" "cnt * rx_data_size rs0 \<le> length input"
    and neg: "neg = count_negatives (rx_bits rs0) (rx_histogram rs ! (rx_data_size rs0 - 1))"
  shows "\<exists>rs'. radixsort_float_pass (rx_bits rs0) input cnt neg (rx_data_size rs0 - 1) rs = Some rs' \<and>
    pass_state rs0 input cnt (key_le (float_value (8 * rx_data_size rs0)) (rx_data_size rs0) input) rs'"
proof -
  let ?ds = "rx_data_size rs0" and ?ids = "take cnt (rx_indices0 rs)" and ?w = "rx_bits rs0"
  let ?dg = "digit_at ?ds input (?ds - 1)" and ?hist = "rx_histogram rs ! (rx_data_size rs0 - 1)"
  let ?Q = "key_le (float_value (8 * ?ds)) ?ds input"
  let ?R = "\<lambda>a b. low_le ?ds input (?ds - 1) a b \<and> a < cnt \<and> b < cnt"
  note facts = pass_facts [OF st]
  have p: "?ds - 1 < ?ds" using facts(8) by simp
  have sorted: "sorted_wrt ?R ?ids"
    using st facts(9) by (auto simp: pass_state_def intro: sorted_wrt_mono_rel)
  have up: "?Q a b" if "?R a b" "?dg a = ?dg b" "?dg a < 128" for a b
    using that by (intro float_same_top(1) [OF _ _ input(2) facts(8)]) (simp_all add: top_of_def)
  have down: "?Q b a" if "?R a b" "?dg a = ?dg b" "\<not> ?dg a < 128" for a b
    using that by (intro float_same_top(2) [OF _ _ input(2) facts(8)]) (simp_all add: top_of_def)
  show ?thesis
  proof (cases "?hist ! unat (input ! (?ds - 1)) = cnt")
    case True
    note same = skipped_pass [OF st p input(2) True]
    show ?thesis
    proof (cases "unat (input ! (?ds - 1)) < 128")
      case pos: True
      have "pass_state rs0 input cnt ?Q rs"
        by (rule pass_state_mono [OF st]) (use up same pos in auto)
      then show ?thesis using True pos first_byte [OF input(1) p input(2)] facts(3,7)
        by (simp add: radixsort_float_pass_def Let_def)
    next
      case neg: False
      have "sorted_wrt (\<lambda>a b. ?Q b a) ?ids"
        by (rule sorted_wrt_mono_rel [OF _ sorted]) (use down same neg in auto)
      then have rev: "sorted_wrt ?Q (rev ?ids)" by (simp add: sorted_wrt_rev)
      have store: "mem_store (rx_indices1 rs) 0 (rev ?ids) = Some (rev ?ids @ drop cnt (rx_indices1 rs))"
        using facts(1,5) by (simp add: mem_simps overwrite_def)
      have "pass_state rs0 input cnt ?Q (rx_swap rs (rx_offset rs, rev ?ids @ drop cnt (rx_indices1 rs)))"
        by (rule pass_state_swap [OF st facts(4)]) (use facts(1,2,5) rev in simp_all)
      then show ?thesis using True neg first_byte [OF input(1) p input(2)] facts(3,7) store
        by (simp add: radixsort_float_pass_def Let_def)
    qed
  next
    case False
    have tab: "table (cnt_of ?dg ?ids) ?hist"
      using st p facts(2) by (intro hist_table) (auto simp: pass_state_def)
    have total: "sum_list (map (cnt_of ?dg ?ids) signed_ord) < 2 ^ ?w"
      using sum_ords(1) [of ?ids ?dg] facts(1,6) by simp
    then have "sum_list (map (cnt_of ?dg ?ids) [128..<256]) < 2 ^ ?w"
      by (simp add: signed_ord_def del: upt_rec_numeral)
    then have neg': "neg = sum_list (map (cnt_of ?dg ?ids) [128..<256])"
      using neg count_negatives_eq [OF tab] by (simp del: upt_rec_numeral)
    let ?ofs = "offsets_float ?w ?hist neg (rx_offset rs)"
    obtain ofs' nxt' where r: "place ?w ?dg (\<lambda>d. d < 128) ?ids ?ofs (rx_indices1 rs) = Some (ofs', nxt')"
      "length ofs' = 256" "length nxt' = length (rx_indices1 rs)"
      "take cnt nxt' = concat (map (block ?dg (\<lambda>d. d < 128) ?ids) float_ord)" "mset (take cnt nxt') = mset ?ids"
      using float_order.counting_pass [of ?ids ?dg ?ofs "rx_indices1 rs" ?w]
        offsets_float_nth [OF tab facts(4) total _ neg'] facts(1,4,5,6)
      by (auto simp: length_offsets)
    have "sorted_wrt ?Q (take cnt nxt')"
      unfolding r(4)
    proof (rule sorted_blocks [OF sorted float_ord_sorted])
      fix a b assume "float_before (?dg a) (?dg b)" "a \<in> set ?ids" "b \<in> set ?ids"
      then show "?Q a b"
        using facts(9) by (intro float_across [OF _ _ input(2) facts(8)]) (simp_all add: top_of_def)
    qed (use up down in blast)+
    then have "pass_state rs0 input cnt ?Q (rx_swap rs (ofs', nxt'))"
      using pass_state_swap [OF st r(2,3)] r(5) facts(2) by simp
    then show ?thesis
      using False r(1) first_byte [OF input(1) p input(2)] facts(3,7,9)
        scatter_float_place [OF input(2) facts(8), of ?ids ?w ?ofs "rx_indices1 rs"]
      by (auto simp: radixsort_float_pass_def Let_def)
  qed
qed

lemma float_low_pass:
  assumes st: "pass_state rs0 input cnt (low_le (rx_data_size rs0) input p) rs" and p: "p < rx_data_size rs0 - 1"
    and input: "0 < cnt" "cnt * rx_data_size rs0 \<le> length input" "cnt * rx_data_size rs0 \<le> 2 ^ 32"
  shows "\<exists>rs'. radixsort_float_pass (rx_bits rs0) input cnt neg p rs = Some rs' \<and>
    pass_state rs0 input cnt (low_le (rx_data_size rs0) input (Suc p)) rs'"
proof -
  have p': "p < rx_data_size rs0" using p by simp
  have "radixsort_float_pass (rx_bits rs0) input cnt neg p rs = radixsort_int_pass (rx_bits rs0) input cnt False neg p rs"
    using p first_byte [OF input(1) p' input(2)] pass_facts(3,7) [OF st]
    by (simp add: radixsort_float_pass_def radixsort_int_pass_def Let_def)
  then show ?thesis using low_pass [OF st p' input, of False neg] by simp
qed

section \<open>All passes\<close>

lemma run_passes_append:
  "run_passes f (xs @ ys) s = do { s \<leftarrow> run_passes f xs s; run_passes f ys s }"
  by (induction xs arbitrary: s) (auto split: Option.bind_splits)

lemma run_passes_upt:
  assumes "\<And>p s. p < n \<Longrightarrow> P p s \<Longrightarrow> \<exists>s'. f p s = Some s' \<and> P (Suc p) s'" and "P 0 s"
  shows "\<exists>s'. run_passes f [0..<n] s = Some s' \<and> P n s'"
  using assms
proof (induction n)
  case (Suc n)
  then obtain s' where "run_passes f [0..<n] s = Some s'" "P n s'" by force
  moreover from this(2) Suc.prems(1) [of n s'] obtain s'' where "f n s' = Some s''" "P (Suc n) s''" by auto
  ultimately show ?case by (simp add: run_passes_append)
qed simp

lemma pass_keeps_histogram:
  "radixsort_int_pass w input cnt is_signed neg p rs = Some rs' \<Longrightarrow> rx_histogram rs' = rx_histogram rs"
  "radixsort_float_pass w input cnt neg p rs = Some rs' \<Longrightarrow> rx_histogram rs' = rx_histogram rs"
  by (auto simp: radixsort_int_pass_def radixsort_float_pass_def Let_def rx_swap_def
      split: Option.bind_splits if_splits)

text \<open>The rank of a value in the order of its type.\<close>

fun rx_key :: "radixsort_data_t \<Rightarrow> nat \<Rightarrow> int" where
  "rx_key RADIXSORT_INT32 v = signed_value 32 v"
| "rx_key RADIXSORT_INT64 v = signed_value 64 v"
| "rx_key RADIXSORT_FLOAT32 v = float_value 32 v"
| "rx_key RADIXSORT_FLOAT64 v = float_value 64 v"
| "rx_key _ v = int v"

fun rx_nan :: "radixsort_data_t \<Rightarrow> nat \<Rightarrow> bool" where
  "rx_nan RADIXSORT_FLOAT32 v = float_nan 32 v"
| "rx_nan RADIXSORT_FLOAT64 v = float_nan 64 v"
| "rx_nan _ v = False"

abbreviation rx_signed :: "radixsort_data_t \<Rightarrow> bool" where
  "rx_signed t \<equiv> t = RADIXSORT_INT32 \<or> t = RADIXSORT_INT64"

abbreviation rx_float :: "radixsort_data_t \<Rightarrow> bool" where
  "rx_float t \<equiv> t = RADIXSORT_FLOAT32 \<or> t = RADIXSORT_FLOAT64"

lemma rx_lt_key: "\<not> rx_nan t v \<Longrightarrow> \<not> rx_nan t u \<Longrightarrow> rx_lt t v u \<longleftrightarrow> rx_key t v < rx_key t u"
  by (cases t) (simp_all add: float_less_def)

lemma rx_key_signed: "rx_signed (rx_type rs) \<Longrightarrow> rx_key (rx_type rs) = signed_value (8 * rx_data_size rs)"
  by (auto simp: rx_data_size_def radixsort_data_size_def fun_eq_iff)

lemma rx_key_float: "rx_float (rx_type rs) \<Longrightarrow> rx_key (rx_type rs) = float_value (8 * rx_data_size rs)"
  by (auto simp: rx_data_size_def radixsort_data_size_def fun_eq_iff)

lemma rx_key_unsigned: "\<not> rx_signed t \<Longrightarrow> \<not> rx_float t \<Longrightarrow> rx_key t = int"
  by (cases t) (auto simp: fun_eq_iff)

abbreviation sorted_state :: "radixsort_t \<Rightarrow> byte list \<Rightarrow> nat \<Rightarrow> radixsort_t \<Rightarrow> bool" where
  "sorted_state rs0 input cnt \<equiv> pass_state rs0 input cnt (key_le (rx_key (rx_type rs0)) (rx_data_size rs0) input)"

lemma low_key: "low_le ds input ds = key_le int ds input"
  by (simp add: fun_eq_iff low_le_def key_le_def element_def)

lemma low_passes:
  assumes st: "pass_state rs0 input cnt (\<lambda>_ _. True) rs"
    and input: "0 < cnt" "cnt * rx_data_size rs0 \<le> length input" "cnt * rx_data_size rs0 \<le> 2 ^ 32"
    and n: "n \<le> rx_data_size rs0"
    and step: "\<And>p rs. p < n \<Longrightarrow> pass_state rs0 input cnt (low_le (rx_data_size rs0) input p) rs \<Longrightarrow>
      \<exists>rs'. f p rs = Some rs' \<and> pass_state rs0 input cnt (low_le (rx_data_size rs0) input (Suc p)) rs'"
    and keep: "\<And>p rs rs'. f p rs = Some rs' \<Longrightarrow> rx_histogram rs' = rx_histogram rs"
  shows "\<exists>rs'. run_passes f [0..<n] rs = Some rs' \<and>
    pass_state rs0 input cnt (low_le (rx_data_size rs0) input n) rs' \<and> rx_histogram rs' = rx_histogram rs"
proof (rule run_passes_upt [where P = "\<lambda>p s. pass_state rs0 input cnt (low_le (rx_data_size rs0) input p) s \<and>
    rx_histogram s = rx_histogram rs"])
  fix p s
  assume p: "p < n" and s: "pass_state rs0 input cnt (low_le (rx_data_size rs0) input p) s \<and> rx_histogram s = rx_histogram rs"
  from step [OF p conjunct1 [OF s]] obtain s' where
    "f p s = Some s'" "pass_state rs0 input cnt (low_le (rx_data_size rs0) input (Suc p)) s'" by blast
  then show "\<exists>s'. f p s = Some s' \<and> pass_state rs0 input cnt (low_le (rx_data_size rs0) input (Suc p)) s' \<and>
      rx_histogram s' = rx_histogram rs"
    using keep [of p s s'] s by simp
next
  show "pass_state rs0 input cnt (low_le (rx_data_size rs0) input 0) rs \<and> rx_histogram rs = rx_histogram rs"
    using pass_state_mono [OF st] by (simp add: low_le_def)
qed

lemma upt_top: "0 < n \<Longrightarrow> [0..<n] = [0..<n - 1] @ [n - 1]"
  by (cases n) simp_all

lemma int_passes:
  assumes st: "pass_state rs0 input cnt (\<lambda>_ _. True) rs" and nf: "\<not> rx_float (rx_type rs0)"
    and input: "0 < cnt" "cnt * rx_data_size rs0 \<le> length input" "cnt * rx_data_size rs0 \<le> 2 ^ 32"
    and neg: "rx_signed (rx_type rs0) \<Longrightarrow> neg = count_negatives (rx_bits rs0) (rx_histogram rs ! (rx_data_size rs0 - 1))"
  shows "\<exists>rs'. run_passes (radixsort_int_pass (rx_bits rs0) input cnt (rx_signed (rx_type rs0)) neg)
      [0..<rx_data_size rs0] rs = Some rs' \<and> sorted_state rs0 input cnt rs'"
proof (cases "rx_signed (rx_type rs0)")
  case False
  have "\<exists>rs'. run_passes (radixsort_int_pass (rx_bits rs0) input cnt False neg) [0..<rx_data_size rs0] rs = Some rs' \<and>
    pass_state rs0 input cnt (low_le (rx_data_size rs0) input (rx_data_size rs0)) rs' \<and> rx_histogram rs' = rx_histogram rs"
    by (rule low_passes [OF st input order_refl low_pass [OF _ _ input]]) (auto intro: pass_keeps_histogram)
  then show ?thesis
    unfolding low_key rx_key_unsigned [OF False nf] using False by auto
next
  case True
  let ?ds = "rx_data_size rs0"
  have ds: "0 < ?ds" using pass_facts(8) [OF st] .
  have "\<exists>rs'. run_passes (radixsort_int_pass (rx_bits rs0) input cnt True neg) [0..<?ds - 1] rs = Some rs' \<and>
    pass_state rs0 input cnt (low_le ?ds input (?ds - 1)) rs' \<and> rx_histogram rs' = rx_histogram rs"
    by (rule low_passes [OF st input diff_le_self low_pass [OF _ _ input]]) (auto intro: pass_keeps_histogram)
  then obtain rs1 where rs1: "run_passes (radixsort_int_pass (rx_bits rs0) input cnt True neg) [0..<?ds - 1] rs = Some rs1"
    "pass_state rs0 input cnt (low_le ?ds input (?ds - 1)) rs1" "rx_histogram rs1 = rx_histogram rs" by blast
  from signed_pass [OF rs1(2) input] neg [OF True] rs1(3) obtain rs2 where
    "radixsort_int_pass (rx_bits rs0) input cnt True neg (?ds - 1) rs1 = Some rs2" "sorted_state rs0 input cnt rs2"
    unfolding rx_key_signed [OF True] by metis
  then show ?thesis unfolding upt_top [OF ds] run_passes_append using rs1(1) True by auto
qed

lemma float_passes:
  assumes st: "pass_state rs0 input cnt (\<lambda>_ _. True) rs" and fl: "rx_float (rx_type rs0)"
    and input: "0 < cnt" "cnt * rx_data_size rs0 \<le> length input" "cnt * rx_data_size rs0 \<le> 2 ^ 32"
    and neg: "neg = count_negatives (rx_bits rs0) (rx_histogram rs ! (rx_data_size rs0 - 1))"
  shows "\<exists>rs'. run_passes (radixsort_float_pass (rx_bits rs0) input cnt neg) [0..<rx_data_size rs0] rs = Some rs' \<and>
    sorted_state rs0 input cnt rs'"
proof -
  let ?ds = "rx_data_size rs0"
  have ds: "0 < ?ds" using pass_facts(8) [OF st] .
  have "\<exists>rs'. run_passes (radixsort_float_pass (rx_bits rs0) input cnt neg) [0..<?ds - 1] rs = Some rs' \<and>
    pass_state rs0 input cnt (low_le ?ds input (?ds - 1)) rs' \<and> rx_histogram rs' = rx_histogram rs"
    by (rule low_passes [OF st input diff_le_self float_low_pass [OF _ _ input]]) (auto intro: pass_keeps_histogram)
  then obtain rs1 where rs1: "run_passes (radixsort_float_pass (rx_bits rs0) input cnt neg) [0..<?ds - 1] rs = Some rs1"
    "pass_state rs0 input cnt (low_le ?ds input (?ds - 1)) rs1" "rx_histogram rs1 = rx_histogram rs" by blast
  from float_pass [OF rs1(2) input(1,2)] neg rs1(3) obtain rs2 where
    "radixsort_float_pass (rx_bits rs0) input cnt neg (?ds - 1) rs1 = Some rs2" "sorted_state rs0 input cnt rs2"
    unfolding rx_key_float [OF fl] by metis
  then show ?thesis unfolding upt_top [OF ds] run_passes_append using rs1(1) by auto
qed

section \<open>The sorter sorts\<close>

lemma in_order_sorted:
  assumes "in_order (rx_lt t) ds input ids cnt" "cnt \<le> length ids" "\<forall>i \<in> set (take cnt ids). \<not> rx_nan t (element ds input i)"
  shows "sorted_wrt (key_le (rx_key t) ds input) (take cnt ids)"
proof -
  have "transp (key_le (rx_key t) ds input)" by (auto simp: transp_def key_le_def)
  moreover have "key_le (rx_key t) ds input (take cnt ids ! j) (take cnt ids ! Suc j)"
    if "Suc j < length (take cnt ids)" for j
  proof -
    have j: "Suc j < cnt" "ids ! j \<in> set (take cnt ids)" "ids ! Suc j \<in> set (take cnt ids)"
      using that by (auto simp: in_set_conv_nth intro: exI [of _ j] exI [of _ "Suc j"])
    then have "\<not> rx_lt t (element ds input (ids ! Suc j)) (element ds input (ids ! j))"
      using assms(1) by (simp add: in_order_def)
    then show ?thesis using rx_lt_key assms(3) j by (auto simp: key_le_def)
  qed
  ultimately show ?thesis by (simp add: sorted_wrt_iff_nth_Suc_transp)
qed

lemma rx_data_signed_eq:
  "\<not> rx_float (rx_type rs) \<Longrightarrow>
    (if rx_type rs \<noteq> RADIXSORT_CUSTOM then radixsort_data_signed ! data_index (rx_type rs) else False) = rx_signed (rx_type rs)"
  by (cases "rx_type rs") (simp_all add: radixsort_data_signed_def)

lemma sort_body:
  assumes inv: "rx_inv rs" and cnt: "cnt \<le> rx_size rs"
    and input: "cnt * rx_data_size rs \<le> length input" "cnt * rx_data_size rs \<le> 2 ^ 32"
    and nan: "\<forall>i<cnt. \<not> rx_nan (rx_type rs) (element (rx_data_size rs) input i)"
  shows "\<exists>rs'. (if rx_float (rx_type rs) then radixsort_float (rx_bits rs) rs input cnt
      else radixsort_int_sort (rx_bits rs) rs input cnt) = Some rs' \<and> rx_same rs rs' \<and> rx_ready cnt rs' \<and>
    sorted_wrt (key_le (rx_key (rx_type rs)) (rx_data_size rs) input) (take cnt (rx_indices0 rs'))"
proof (cases "cnt = 0")
  case True
  then show ?thesis using inv by (auto simp: radixsort_float_def radixsort_int_sort_def rx_inv_def rx_ready_def)
next
  case False
  then have pos: "0 < cnt" by simp
  from create_histograms_ok [OF inv pos cnt input(1)] obtain rs1 already where
    h: "radixsort_create_histograms (rx_bits rs) rs input cnt = Some (rs1, already)"
    and st: "rx_same rs rs1" "rx_ready cnt rs1" "hist_ok (rx_data_size rs) input cnt (rx_histogram rs1)"
    and al: "already \<longrightarrow> in_order (rx_lt (rx_type rs)) (rx_data_size rs) input (rx_indices0 rs1) cnt" by blast
  have ps: "pass_state rs input cnt (\<lambda>_ _. True) rs1" using st by (simp add: pass_state_def sorted_wrt_true)
  show ?thesis
  proof (cases already)
    case True
    have "sorted_wrt (key_le (rx_key (rx_type rs)) (rx_data_size rs) input) (take cnt (rx_indices0 rs1))"
      using True al nan pass_facts(1,9) [OF ps] by (intro in_order_sorted) auto
    then show ?thesis using st h True False by (simp add: radixsort_float_def radixsort_int_sort_def)
  next
    case new: False
    show ?thesis
    proof (cases "rx_float (rx_type rs)")
      case True
      from float_passes [OF ps True pos input refl] show ?thesis
        using True False new h by (auto simp: radixsort_float_def Let_def pass_state_def)
    next
      case no_float: False
      let ?neg = "if rx_signed (rx_type rs) then count_negatives (rx_bits rs) (rx_histogram rs1 ! (rx_data_size rs - 1)) else 0"
      have "radixsort_int_sort (rx_bits rs) rs input cnt =
          run_passes (radixsort_int_pass (rx_bits rs) input cnt (rx_signed (rx_type rs)) ?neg) [0..<rx_data_size rs] rs1"
        unfolding radixsort_int_sort_def Let_def rx_data_signed_eq [OF no_float] using False new h by simp
      then show ?thesis using int_passes [OF ps no_float pos input, of ?neg] no_float by (auto simp: pass_state_def)
    qed
  qed
qed

lemma radixsort_int_eq:
  "radixsort_int w rs input cnt =
    (if rx_type rs = RADIXSORT_CUSTOM then None else radixsort_int_sort w rs input cnt)"
  by (cases "rx_type rs") (simp_all add: radixsort_int_def radixsort_data_shift_def mem_get_def)

lemma radixsort_sort_bits:
  "cnt \<le> rx_size rs \<Longrightarrow> radixsort_sort rs input cnt =
    map_option (\<lambda>rs. rs\<lparr>rx_lastused := cnt\<rparr>) (if rx_float (rx_type rs) then radixsort_float (rx_bits rs) rs input cnt
      else if rx_type rs = RADIXSORT_CUSTOM then None else radixsort_int_sort (rx_bits rs) rs input cnt)"
  by (auto simp: radixsort_sort_def Let_def c_assert_def rx_bits_def radixsort_float_index16_def radixsort_float_index32_def
      radixsort_int_index16_def radixsort_int_index32_def radixsort_int_eq map_option_case bind_map_option
      split: Option.bind_splits option.splits)

text \<open>
  C11. A sorter of one of the six data types (signed or unsigned integers and IEEE 754 numbers of
  32 or 64 bits) that satisfies its invariant sorts: the routine returns, never accesses memory
  outside its tables or the input, keeps the invariant, and leaves in its index table a
  permutation of \<open>0, ..., cnt - 1\<close> in which no element is less (in the order of its data type)
  than one before it. The input has to be addressable by 32-bit offsets, because the code
  computes byte positions in 32 bits, and floating point input must not contain NaNs. A sorter of
  the type \<open>RADIXSORT_CUSTOM\<close> never gets that far: every sort first reads behind the end of the
  table \<open>radixsort_data_shift\<close>, which has no entry for that type.
\<close>

theorem radixsort_sort_correct:
  assumes "rx_inv rs" "cnt \<le> rx_size rs"
    and "cnt * rx_data_size rs \<le> length input" "cnt * rx_data_size rs \<le> 2 ^ 32"
    and "\<forall>i<cnt. \<not> rx_nan (rx_type rs) (element (rx_data_size rs) input i)"
  shows "(rx_type rs = RADIXSORT_CUSTOM \<longrightarrow> radixsort_sort rs input cnt = None) \<and>
    (rx_type rs \<noteq> RADIXSORT_CUSTOM \<longrightarrow>
      (\<exists>rs'. radixsort_sort rs input cnt = Some rs' \<and> rx_inv rs' \<and> rx_lastused rs' = cnt \<and>
        rx_type rs' = rx_type rs \<and> rx_size rs' = rx_size rs \<and>
        mset (take cnt (rx_indices0 rs')) = mset [0..<cnt] \<and>
        sorted_wrt (\<lambda>a b. \<not> rx_lt (rx_type rs) (element (rx_data_size rs) input b) (element (rx_data_size rs) input a))
          (take cnt (rx_indices0 rs'))))"
proof (cases "rx_type rs = RADIXSORT_CUSTOM")
  case True
  then show ?thesis by (simp add: radixsort_sort_bits [OF assms(2)])
next
  case False
  from sort_body [OF assms] obtain rs' where
    r: "(if rx_float (rx_type rs) then radixsort_float (rx_bits rs) rs input cnt
      else radixsort_int_sort (rx_bits rs) rs input cnt) = Some rs'" "rx_same rs rs'" "rx_ready cnt rs'"
    "sorted_wrt (key_le (rx_key (rx_type rs)) (rx_data_size rs) input) (take cnt (rx_indices0 rs'))" by blast
  have elems: "i < cnt" if "i \<in> set (take cnt (rx_indices0 rs'))" for i
    using that r(3) permutation_set [of "take cnt (rx_indices0 rs')" cnt i] by (simp add: rx_ready_def)
  have "sorted_wrt (\<lambda>a b. \<not> rx_lt (rx_type rs) (element (rx_data_size rs) input b) (element (rx_data_size rs) input a))
      (take cnt (rx_indices0 rs'))"
    by (rule sorted_wrt_mono_rel [OF _ r(4)]) (use elems rx_lt_key assms(5) in \<open>auto simp: key_le_def\<close>)
  moreover have "radixsort_sort rs input cnt = Some (rs'\<lparr>rx_lastused := cnt\<rparr>)"
    unfolding radixsort_sort_bits [OF assms(2)] using r(1) False by (simp only: if_False option.map refl)
  ultimately show ?thesis
    using False r(2,3) by (auto simp: rx_inv_def rx_ready_def rx_same_def rx_bits_def rx_data_size_def)
qed

definition example_sorter :: radixsort_t where
  "example_sorter = \<lparr>rx_type = RADIXSORT_INT32, rx_indextype = RADIXSORT_INDEX16, rx_custom_data_size = 4,
     rx_size = 3, rx_lastused = 3, rx_indices0 = [0, 1, 2], rx_indices1 = [0, 1, 2],
     rx_histogram = replicate 4 (replicate 256 0), rx_offset = replicate 256 0\<rparr>"

theorem radixsort_sort_correct_witness:
  "\<exists>rs'. radixsort_sort example_sorter [5, 0, 0, 0, 255, 255, 255, 255, 1, 2, 0, 0] 3 = Some rs' \<and>
     mset (take 3 (rx_indices0 rs')) = mset [0..<3] \<and>
     sorted_wrt (\<lambda>a b. signed_value 32 (element 4 [5, 0, 0, 0, 255, 255, 255, 255, 1, 2, 0, 0] a) \<le>
       signed_value 32 (element 4 [5, 0, 0, 0, 255, 255, 255, 255, 1, 2, 0, 0] b)) (take 3 (rx_indices0 rs'))"
proof -
  have "rx_inv example_sorter" "rx_data_size example_sorter = 4" "rx_type example_sorter = RADIXSORT_INT32"
    "rx_size example_sorter = 3"
    by (simp_all add: example_sorter_def rx_inv_def rx_ready_def rx_bits_def rx_data_size_def
        radixsort_data_size_def numeral_3_eq_3)
  then show ?thesis
    using radixsort_sort_correct [of example_sorter 3 "[5, 0, 0, 0, 255, 255, 255, 255, 1, 2, 0, 0]"]
    by (auto simp: not_less)
qed

section \<open>The life of a sorter\<close>

lemma initialize_indices_ok:
  assumes "cnt < 0xFFFFFFFF" "length (rx_indices0 rs) = cnt" "length (rx_indices1 rs) = cnt" "rx_size rs = cnt"
    "rx_lastused rs = cnt" "length (rx_offset rs) = 256" "0 < rx_data_size rs"
  shows "\<exists>rs'. initialize_indices rs cnt = Some rs' \<and> rx_inv rs' \<and> rx_size rs' = cnt \<and>
    rx_type rs' = rx_type rs \<and> rx_data_size rs' = rx_data_size rs"
proof -
  let ?w = "if cnt > 0xFFFF then 32 else 16 :: nat"
  have fits: "cnt < 2 ^ ?w" using assms(1) by auto
  obtain ind0 where ind0: "reset_indices ?w cnt (rx_indices0 rs) = Some ind0" "length ind0 = cnt" "take cnt ind0 = [0..<cnt]"
    using reset_indices_ok [of cnt "rx_indices0 rs" ?w] assms fits by auto
  obtain ind1 where ind1: "reset_indices ?w cnt (rx_indices1 rs) = Some ind1" "length ind1 = cnt"
    using reset_indices_ok [of cnt "rx_indices1 rs" ?w] assms fits by auto
  have "initialize_indices rs cnt = Some (rs\<lparr>rx_indextype := (if cnt > 0xFFFF then RADIXSORT_INDEX32 else RADIXSORT_INDEX16),
      rx_indices0 := ind0, rx_indices1 := ind1\<rparr>)"
    using assms(1) ind0(1) ind1(1) by (auto simp: initialize_indices_def c_assert_def Let_def)
  then show ?thesis
    using assms ind0 ind1 by (auto simp: rx_inv_def rx_ready_def rx_bits_def rx_data_size_def)
qed

lemma allocate_ok:
  assumes "cnt < 0xFFFFFFFF" "type \<noteq> RADIXSORT_CUSTOM"
  shows "\<exists>rs. radixsort_allocate fill type cnt = Some rs \<and> rx_inv rs \<and> rx_size rs = cnt \<and> rx_type rs = type"
proof -
  have idx: "data_index type < length radixsort_data_size" "0 < radixsort_data_size ! data_index type"
    using assms(2) by (cases type; simp add: radixsort_data_size_def)+
  let ?rs = "(radixsort_block fill (radixsort_data_size ! data_index type) cnt)\<lparr>rx_type := type, rx_size := cnt,
    rx_lastused := cnt, rx_custom_data_size := radixsort_data_size ! data_index type\<rparr>"
  have "\<exists>rs'. initialize_indices ?rs cnt = Some rs' \<and> rx_inv rs' \<and> rx_size rs' = cnt \<and>
    rx_type rs' = rx_type ?rs \<and> rx_data_size rs' = rx_data_size ?rs"
    using assms idx by (intro initialize_indices_ok) (simp_all add: radixsort_block_def rx_data_size_def)
  then show ?thesis using idx(1) by (auto simp: radixsort_allocate_def radixsort_initialize_def mem_simps)
qed

lemma allocate_custom_ok:
  assumes "cnt < 0xFFFFFFFF" "0 < data_size"
  shows "\<exists>rs. radixsort_allocate_custom fill data_size cnt = Some rs \<and> rx_inv rs \<and> rx_size rs = cnt \<and>
    rx_type rs = RADIXSORT_CUSTOM \<and> rx_data_size rs = data_size"
proof -
  let ?rs = "(radixsort_block fill data_size cnt)\<lparr>rx_type := RADIXSORT_CUSTOM, rx_size := cnt,
    rx_lastused := cnt, rx_custom_data_size := data_size\<rparr>"
  have "\<exists>rs'. initialize_indices ?rs cnt = Some rs' \<and> rx_inv rs' \<and> rx_size rs' = cnt \<and>
    rx_type rs' = rx_type ?rs \<and> rx_data_size rs' = rx_data_size ?rs"
    using assms by (intro initialize_indices_ok) (simp_all add: radixsort_block_def rx_data_size_def)
  then show ?thesis
    by (auto simp: radixsort_allocate_custom_def radixsort_initialize_custom_def rx_data_size_def radixsort_block_def)
qed

lemma rx_data_size_eq:
  "rx_type rs' = rx_type rs \<Longrightarrow> rx_type rs \<noteq> RADIXSORT_CUSTOM \<Longrightarrow> rx_data_size rs' = rx_data_size rs"
  by (simp add: rx_data_size_def)

text \<open>The sorters a program can hold: allocated ones, and ones used in a legal sort before.\<close>

inductive sorter :: "radixsort_data_t \<Rightarrow> size_t \<Rightarrow> radixsort_t \<Rightarrow> bool" where
  allocated: "radixsort_allocate fill type cnt = Some rs \<Longrightarrow> type \<noteq> RADIXSORT_CUSTOM \<Longrightarrow> cnt < 0xFFFFFFFF \<Longrightarrow>
    sorter type cnt rs"
| used: "sorter type cnt rs \<Longrightarrow> radixsort_sort rs input n = Some rs' \<Longrightarrow> n \<le> cnt \<Longrightarrow>
    n * rx_data_size rs \<le> length input \<Longrightarrow> n * rx_data_size rs \<le> 2 ^ 32 \<Longrightarrow>
    \<forall>i<n. \<not> rx_nan type (element (rx_data_size rs) input i) \<Longrightarrow> sorter type cnt rs'"

lemma sort_keeps_inv:
  assumes "rx_inv rs" "cnt \<le> rx_size rs"
    and "cnt * rx_data_size rs \<le> length input" "cnt * rx_data_size rs \<le> 2 ^ 32"
    and "\<forall>i<cnt. \<not> rx_nan (rx_type rs) (element (rx_data_size rs) input i)"
    and "radixsort_sort rs input cnt = Some rs'"
  shows "rx_inv rs' \<and> rx_size rs' = rx_size rs \<and> rx_type rs' = rx_type rs"
  using sort_body [OF assms(1-5)] assms(6) unfolding radixsort_sort_bits [OF assms(2)]
  by (auto split: if_splits simp: rx_inv_def rx_ready_def rx_same_def rx_bits_def rx_data_size_def)

text \<open>
  C12. Whatever sequence of legal sorts an allocated sorter has been through, with inputs that
  grow, shrink or repeat, its index table holds a permutation of the indices it used last and
  all its tables have the sizes the routines rely on, so that the next sort may start from the
  previous order; it keeps its type and capacity.
\<close>

theorem radixsort_invariant:
  assumes "sorter type cnt rs"
  shows "rx_inv rs \<and> rx_type rs = type \<and> rx_size rs = cnt \<and>
    mset (take (rx_lastused rs) (rx_indices0 rs)) = mset [0..<rx_lastused rs]"
proof -
  have "rx_inv rs \<and> rx_type rs = type \<and> rx_size rs = cnt"
    using assms
  proof induction
    case (allocated fill type cnt rs)
    then show ?case using allocate_ok [of cnt type fill] by auto
  next
    case (used type cnt rs input n rs')
    then show ?case using sort_keeps_inv [of rs n input rs'] by simp
  qed
  then show ?thesis by (simp add: rx_inv_def rx_ready_def)
qed

theorem radixsort_invariant_witness:
  "\<exists>rs rs'. radixsort_allocate 7 RADIXSORT_UINT32 2 = Some rs \<and>
     radixsort_sort rs [1, 1, 1, 1, 0, 0, 0, 0] 2 = Some rs' \<and> rx_inv rs' \<and> rx_size rs' = 2"
proof -
  obtain rs where rs: "radixsort_allocate 7 RADIXSORT_UINT32 2 = Some rs" "rx_inv rs" "rx_size rs = 2" "rx_type rs = RADIXSORT_UINT32"
    using allocate_ok [of 2 RADIXSORT_UINT32 7] by auto
  have ds: "rx_data_size rs = 4" using rs(4) by (simp add: rx_data_size_def radixsort_data_size_def)
  obtain rs' where rs': "radixsort_sort rs [1, 1, 1, 1, 0, 0, 0, 0] 2 = Some rs'"
    using sort_body [OF rs(2), of 2 "[1, 1, 1, 1, 0, 0, 0, 0]"] rs(3,4) ds
    by (auto simp: radixsort_sort_bits)
  have "sorter RADIXSORT_UINT32 2 rs" by (rule sorter.allocated [OF rs(1)]) simp_all
  then have "sorter RADIXSORT_UINT32 2 rs'" by (rule sorter.used [OF _ rs']) (simp_all add: ds)
  from radixsort_invariant [OF this] show ?thesis using rs(1) rs' by blast
qed

text \<open>
  The byte positions of the integer and the lower floating point passes are computed in 32
  bits. From element \<open>2 ^ 29\<close> of an array of 64-bit values on (\<open>2 ^ 30\<close> for 32-bit values) the
  product wraps, and the pass reads the byte of the element \<open>2 ^ 29\<close> places before it although a
  sorter with 32-bit indices accepts arrays of that size.
\<close>

theorem radixsort_position_wraps:
  assumes "rx_type rs \<noteq> RADIXSORT_CUSTOM" "n * rx_data_size rs = 2 ^ 32" "ix < n"
  shows "byte_position rs ipass (n + ix) = byte_position rs ipass ix \<and>
    byte_position rs ipass (n + ix) < ipass + (n + ix) * rx_data_size rs"
proof -
  have ds: "2 ^ (radixsort_data_shift ! data_index (rx_type rs)) = rx_data_size rs"
    using assms(1) by (cases "rx_type rs") (simp_all add: rx_data_size_def radixsort_data_size_def radixsort_data_shift_def)
  have "(n + ix) * rx_data_size rs = 2 ^ 32 + ix * rx_data_size rs" using assms(2) by (simp add: add_mult_distrib)
  moreover have "ix * rx_data_size rs mod 2 ^ 32 \<le> ix * rx_data_size rs" by simp
  ultimately show ?thesis using assms(1) by (simp add: byte_position_def ds)
qed

theorem radixsort_position_wraps_witness:
  "byte_position (example_sorter\<lparr>rx_type := RADIXSORT_UINT64\<rparr>) 1 (2 ^ 29 + 5) = 41"
  using radixsort_position_wraps [of "example_sorter\<lparr>rx_type := RADIXSORT_UINT64\<rparr>" "2 ^ 29" 5 1]
  by (simp add: rx_data_size_def radixsort_data_size_def byte_position_def radixsort_data_shift_def)

end
