(* ===== verification/Block_Hash.thy ===== *)
theory Block_Hash
  imports Byteorder
begin

text \<open>
  What the message digests (\<open>md5.c\<close>, \<open>sha.c\<close>) have in common: a compression function that is
  iterated over the full blocks of a message, bytes that wait for the rest of their block, and
  the contract of a digest object that is fed a message in pieces.
\<close>

section \<open>Iterating a compression function\<close>

text \<open>The state after the full blocks of \<open>xs\<close>, and the bytes behind them.\<close>

function absorb :: "('s \<Rightarrow> byte list \<Rightarrow> 's) \<Rightarrow> nat \<Rightarrow> 's \<Rightarrow> byte list \<Rightarrow> 's \<times> byte list" where
  "absorb c n st xs = (if 0 < n \<and> n \<le> length xs then absorb c n (c st (take n xs)) (drop n xs) else (st, xs))"
  by pat_completeness auto
termination by (relation "measure (\<lambda>(c, n, st, xs). length xs)") auto

declare absorb.simps [simp del]

lemma absorb_short: "length xs < n \<Longrightarrow> absorb c n st xs = (st, xs)"
  by (subst absorb.simps) simp

lemma absorb_long: "0 < n \<Longrightarrow> n \<le> length xs \<Longrightarrow> absorb c n st xs = absorb c n (c st (take n xs)) (drop n xs)"
  by (subst absorb.simps) simp

lemma absorb_block: "0 < n \<Longrightarrow> length b = n \<Longrightarrow> absorb c n st (b @ xs) = absorb c n (c st b) xs"
  by (subst absorb_long) simp_all

lemma absorb_one: "0 < n \<Longrightarrow> length b = n \<Longrightarrow> absorb c n st b = (c st b, [])"
  using absorb_block [of n b c st "[]"] by (simp add: absorb_short)

lemma length_rest: "0 < n \<Longrightarrow> length (snd (absorb c n st xs)) = length xs mod n"
proof (induction c n st xs rule: absorb.induct)
  case (1 c n st xs)
  show ?case
  proof (cases "n \<le> length xs")
    case True
    then have "length (snd (absorb c n (c st (take n xs)) (drop n xs))) = length (drop n xs) mod n"
      using 1 by blast
    then show ?thesis using 1(2) True by (simp add: absorb_long [OF 1(2) True] le_mod_geq)
  next
    case False
    then show ?thesis by (simp add: absorb_short)
  qed
qed

lemma absorb_append:
  "absorb c n st (xs @ ys) = absorb c n (fst (absorb c n st xs)) (snd (absorb c n st xs) @ ys)"
proof (induction c n st xs rule: absorb.induct)
  case (1 c n st xs)
  show ?case
  proof (cases "0 < n \<and> n \<le> length xs")
    case True
    then have "absorb c n st (xs @ ys) = absorb c n (c st (take n xs)) (drop n xs @ ys)"
      by (subst absorb_long) auto
    then show ?thesis using 1 True by (simp add: absorb_long)
  next
    case False
    then have "absorb c n st xs = (st, xs)" unfolding absorb.simps [of c n st xs] by (rule if_not_P)
    then show ?thesis by simp
  qed
qed

lemma absorb_append_eq:
  "absorb c n st xs = (st', r) \<Longrightarrow> absorb c n st (xs @ ys) = absorb c n st' (r @ ys)"
  by (subst absorb_append) simp

lemma absorb_state: "P st \<Longrightarrow> (\<And>st b. P (c st b)) \<Longrightarrow> P (fst (absorb c n st xs))"
proof (induction c n st xs rule: absorb.induct)
  case (1 c n st xs)
  then show ?case unfolding absorb.simps [of c n st xs] by (cases "0 < n \<and> n \<le> length xs") auto
qed

lemma absorb_cong:
  assumes "\<And>st b. P st \<Longrightarrow> length b = n \<Longrightarrow> c st b = c' st b \<and> P (c' st b)" and "P st"
  shows "absorb c n st xs = absorb c' n st xs"
  using assms(2)
proof (induction "length xs" arbitrary: st xs rule: less_induct)
  case less
  show ?case
  proof (cases "0 < n \<and> n \<le> length xs")
    case True
    then have "c st (take n xs) = c' st (take n xs)" "P (c' st (take n xs))"
      using assms(1) [OF less.prems, of "take n xs"] by simp_all
    moreover have "length (drop n xs) < length xs" using True by auto
    ultimately show ?thesis using less.hyps [of "drop n xs" "c' st (take n xs)"] True by (simp add: absorb_long)
  next
    case False
    then show ?thesis unfolding absorb.simps [of c n st xs] absorb.simps [of c' n st xs] by (simp only: if_False)
  qed
qed

section \<open>Digest objects\<close>

text \<open>
  A digest object is fed a message in pieces. \<open>holds d m\<close> says that \<open>d\<close> has been fed \<open>m\<close> since
  it was started; \<open>spec\<close> is the hash of the messages that \<open>fit\<close>, and \<open>ended\<close> an object that has
  delivered its result.
\<close>

primrec feed_all :: "('d \<Rightarrow> byte list \<Rightarrow> 'd option) \<Rightarrow> 'd \<Rightarrow> byte list list \<Rightarrow> 'd option" where
  "feed_all feed d [] = Some d"
| "feed_all feed d (xs # xss) = do { d \<leftarrow> feed d xs; feed_all feed d xss }"

locale streaming_digest =
  fixes start :: "'d" and feed :: "'d \<Rightarrow> byte list \<Rightarrow> 'd option" and finish :: "'d \<Rightarrow> 'd option"
    and result :: "'d \<Rightarrow> 'r" and holds :: "'d \<Rightarrow> byte list \<Rightarrow> bool" and ended :: "'d \<Rightarrow> bool"
    and fit :: "byte list \<Rightarrow> bool" and spec :: "byte list \<Rightarrow> 'r"
  assumes start_holds: "holds start []"
    and feed_holds: "holds d m \<Longrightarrow> \<exists>d'. feed d xs = Some d' \<and> holds d' (m @ xs)"
    and finish_result: "holds d m \<Longrightarrow> fit m \<Longrightarrow> \<exists>d'. finish d = Some d' \<and> result d' = spec m \<and> ended d'"
    and restart: "ended d \<Longrightarrow> \<exists>d'. feed d xs = Some d' \<and> holds d' xs"
begin

lemma feed_all_holds: "holds d m \<Longrightarrow> \<exists>d'. feed_all feed d xss = Some d' \<and> holds d' (m @ concat xss)"
proof (induction xss arbitrary: d m)
  case (Cons xs xss)
  from feed_holds [OF Cons.prems] obtain d' where d': "feed d xs = Some d'" "holds d' (m @ xs)" by blast
  from Cons.IH [OF this(2)] d'(1) show ?case by simp
qed simp

text \<open>The result depends on the bytes of the message only, not on how they were cut into pieces.\<close>

lemma chunks:
  assumes "holds d []" "fit (concat xss)"
  shows "\<exists>d'. Option.bind (feed_all feed d xss) finish = Some d' \<and> result d' = spec (concat xss) \<and> ended d'"
proof -
  from feed_all_holds [OF assms(1), of xss] obtain d' where "feed_all feed d xss = Some d'" "holds d' (concat xss)" by auto
  then show ?thesis using finish_result [OF _ assms(2)] by auto
qed

text \<open>A digest object that has delivered a result starts over when it is fed again.\<close>

lemma chunks_again:
  assumes "ended d" "xss \<noteq> []" "fit (concat xss)"
  shows "\<exists>d'. Option.bind (feed_all feed d xss) finish = Some d' \<and> result d' = spec (concat xss) \<and> ended d'"
proof -
  obtain xs rest where xss: "xss = xs # rest" using assms(2) by (cases xss) auto
  from restart [OF assms(1), of xs] obtain d1 where d1: "feed d xs = Some d1" "holds d1 xs" by blast
  from feed_all_holds [OF d1(2), of rest] obtain d' where "feed_all feed d1 rest = Some d'" "holds d' (xs @ concat rest)" by blast
  then show ?thesis using finish_result [of d' "concat xss"] assms(3) d1(1) by (auto simp: xss)
qed

end

end
