(* ===== verification/Md5.thy ===== *)
theory Md5
  imports Block_Hash
begin

text \<open>
  \<open>foundation/md5.c\<close>: the MD5 message digest. The model follows the code: the unrolled rounds,
  the bit counter in two 32-bit words with its carry, the block buffer and the padding. It is
  compared with the algorithm of RFC 1321, written with its tables and index formulas.
\<close>

section \<open>The code\<close>

record md5_t =
  md5_init :: bool
  md5_state :: "u32 list"
  md5_count :: "u32 list"
  md5_buffer :: "byte list"
  md5_result :: "byte list"

definition MD5_F1 :: "u32 \<Rightarrow> u32 \<Rightarrow> u32 \<Rightarrow> u32" where
  "MD5_F1 x y z = z XOR (x AND (y XOR z))"

definition MD5_F2 :: "u32 \<Rightarrow> u32 \<Rightarrow> u32 \<Rightarrow> u32" where
  "MD5_F2 x y z = y XOR (z AND (x XOR y))"

definition MD5_F3 :: "u32 \<Rightarrow> u32 \<Rightarrow> u32 \<Rightarrow> u32" where
  "MD5_F3 x y z = x XOR y XOR z"

definition MD5_F4 :: "u32 \<Rightarrow> u32 \<Rightarrow> u32 \<Rightarrow> u32" where
  "MD5_F4 x y z = y XOR (x OR NOT z)"

definition MD5_STEP :: "(u32 \<Rightarrow> u32 \<Rightarrow> u32 \<Rightarrow> u32) \<Rightarrow> u32 \<Rightarrow> u32 \<Rightarrow> u32 \<Rightarrow> u32 \<Rightarrow> u32 \<Rightarrow> nat \<Rightarrow> u32" where
  "MD5_STEP f a b c d t s =
     (let a = a + (f b c d + t);
          a = push_bit s a OR drop_bit (32 - s) a
      in a + b)"

definition md5_encode :: "u32 list \<Rightarrow> size_t \<Rightarrow> byte list" where
  "md5_encode src n = concat (map (\<lambda>i. [ucast (src ! i AND 0xff), ucast (drop_bit 8 (src ! i) AND 0xff),
     ucast (drop_bit 16 (src ! i) AND 0xff), ucast (drop_bit 24 (src ! i) AND 0xff)]) [0..<n div 4])"

definition md5_decode :: "byte list \<Rightarrow> size_t \<Rightarrow> u32 list" where
  "md5_decode src n = map (\<lambda>i. let j = 4 * i in ucast (src ! j) OR push_bit 8 (ucast (src ! (j + 1))) OR
     push_bit 16 (ucast (src ! (j + 2))) OR push_bit 24 (ucast (src ! (j + 3)))) [0..<n div 4]"

text \<open>
  Four consecutive steps: the registers take turns as the target, \<open>a\<close>, \<open>d\<close>, \<open>c\<close>, \<open>b\<close>. Each round
  is four such groups.
\<close>

definition md5_steps :: "(u32 \<Rightarrow> u32 \<Rightarrow> u32 \<Rightarrow> u32) \<Rightarrow> nat \<Rightarrow> nat \<Rightarrow> nat \<Rightarrow> nat \<Rightarrow> u32 \<Rightarrow> u32 \<Rightarrow> u32 \<Rightarrow> u32 \<Rightarrow>
    u32 \<times> u32 \<times> u32 \<times> u32 \<Rightarrow> u32 \<times> u32 \<times> u32 \<times> u32" where
  "md5_steps f s0 s1 s2 s3 t0 t1 t2 t3 = (\<lambda>(a, b, c, d).
     let a = MD5_STEP f a b c d t0 s0;
         d = MD5_STEP f d a b c t1 s1;
         c = MD5_STEP f c d a b t2 s2;
         b = MD5_STEP f b c d a t3 s3
     in (a, b, c, d))"

definition md5_round1 :: "u32 list \<Rightarrow> u32 \<times> u32 \<times> u32 \<times> u32 \<Rightarrow> u32 \<times> u32 \<times> u32 \<times> u32" where
  "md5_round1 x regs =
    (let regs = md5_steps MD5_F1 7 12 17 22 (x ! 0 + 0xd76aa478) (x ! 1 + 0xe8c7b756) (x ! 2 + 0x242070db) (x ! 3 + 0xc1bdceee) regs;
         regs = md5_steps MD5_F1 7 12 17 22 (x ! 4 + 0xf57c0faf) (x ! 5 + 0x4787c62a) (x ! 6 + 0xa8304613) (x ! 7 + 0xfd469501) regs;
         regs = md5_steps MD5_F1 7 12 17 22 (x ! 8 + 0x698098d8) (x ! 9 + 0x8b44f7af) (x ! 10 + 0xffff5bb1) (x ! 11 + 0x895cd7be) regs;
         regs = md5_steps MD5_F1 7 12 17 22 (x ! 12 + 0x6b901122) (x ! 13 + 0xfd987193) (x ! 14 + 0xa679438e) (x ! 15 + 0x49b40821) regs
     in regs)"

definition md5_round2 :: "u32 list \<Rightarrow> u32 \<times> u32 \<times> u32 \<times> u32 \<Rightarrow> u32 \<times> u32 \<times> u32 \<times> u32" where
  "md5_round2 x regs =
    (let regs = md5_steps MD5_F2 5 9 14 20 (x ! 1 + 0xf61e2562) (x ! 6 + 0xc040b340) (x ! 11 + 0x265e5a51) (x ! 0 + 0xe9b6c7aa) regs;
         regs = md5_steps MD5_F2 5 9 14 20 (x ! 5 + 0xd62f105d) (x ! 10 + 0x02441453) (x ! 15 + 0xd8a1e681) (x ! 4 + 0xe7d3fbc8) regs;
         regs = md5_steps MD5_F2 5 9 14 20 (x ! 9 + 0x21e1cde6) (x ! 14 + 0xc33707d6) (x ! 3 + 0xf4d50d87) (x ! 8 + 0x455a14ed) regs;
         regs = md5_steps MD5_F2 5 9 14 20 (x ! 13 + 0xa9e3e905) (x ! 2 + 0xfcefa3f8) (x ! 7 + 0x676f02d9) (x ! 12 + 0x8d2a4c8a) regs
     in regs)"

definition md5_round3 :: "u32 list \<Rightarrow> u32 \<times> u32 \<times> u32 \<times> u32 \<Rightarrow> u32 \<times> u32 \<times> u32 \<times> u32" where
  "md5_round3 x regs =
    (let regs = md5_steps MD5_F3 4 11 16 23 (x ! 5 + 0xfffa3942) (x ! 8 + 0x8771f681) (x ! 11 + 0x6d9d6122) (x ! 14 + 0xfde5380c) regs;
         regs = md5_steps MD5_F3 4 11 16 23 (x ! 1 + 0xa4beea44) (x ! 4 + 0x4bdecfa9) (x ! 7 + 0xf6bb4b60) (x ! 10 + 0xbebfbc70) regs;
         regs = md5_steps MD5_F3 4 11 16 23 (x ! 13 + 0x289b7ec6) (x ! 0 + 0xeaa127fa) (x ! 3 + 0xd4ef3085) (x ! 6 + 0x04881d05) regs;
         regs = md5_steps MD5_F3 4 11 16 23 (x ! 9 + 0xd9d4d039) (x ! 12 + 0xe6db99e5) (x ! 15 + 0x1fa27cf8) (x ! 2 + 0xc4ac5665) regs
     in regs)"

definition md5_round4 :: "u32 list \<Rightarrow> u32 \<times> u32 \<times> u32 \<times> u32 \<Rightarrow> u32 \<times> u32 \<times> u32 \<times> u32" where
  "md5_round4 x regs =
    (let regs = md5_steps MD5_F4 6 10 15 21 (x ! 0 + 0xf4292244) (x ! 7 + 0x432aff97) (x ! 14 + 0xab9423a7) (x ! 5 + 0xfc93a039) regs;
         regs = md5_steps MD5_F4 6 10 15 21 (x ! 12 + 0x655b59c3) (x ! 3 + 0x8f0ccc92) (x ! 10 + 0xffeff47d) (x ! 1 + 0x85845dd1) regs;
         regs = md5_steps MD5_F4 6 10 15 21 (x ! 8 + 0x6fa87e4f) (x ! 15 + 0xfe2ce6e0) (x ! 6 + 0xa3014314) (x ! 13 + 0x4e0811a1) regs;
         regs = md5_steps MD5_F4 6 10 15 21 (x ! 4 + 0xf7537e82) (x ! 11 + 0xbd3af235) (x ! 2 + 0x2ad7d2bb) (x ! 9 + 0xeb86d391) regs
     in regs)"

definition md5_transform_state :: "u32 list \<Rightarrow> byte list \<Rightarrow> u32 list" where
  "md5_transform_state state buffer =
     (let x = md5_decode buffer 64;
          (a, b, c, d) = md5_round4 x (md5_round3 x (md5_round2 x (md5_round1 x
             (state ! 0, state ! 1, state ! 2, state ! 3))))
      in [state ! 0 + a, state ! 1 + b, state ! 2 + c, state ! 3 + d])"

definition md5_transform :: "md5_t \<Rightarrow> byte list \<Rightarrow> md5_t" where
  "md5_transform digest buffer = digest\<lparr>md5_state := md5_transform_state (md5_state digest) buffer\<rparr>"

definition md5_initialize :: "md5_t \<Rightarrow> md5_t" where
  "md5_initialize digest = digest\<lparr>md5_init := False,
     md5_state := [0x67452301, 0xefcdab89, 0x98badcfe, 0x10325476],
     md5_count := [0, 0], md5_buffer := replicate 64 0\<rparr>"

text \<open>\<open>fresh\<close> is what the allocated memory holds.\<close>

definition md5_allocate :: "md5_t \<Rightarrow> md5_t" where
  "md5_allocate fresh = md5_initialize fresh"

text \<open>\<open>for (index_in = space_buf; (index_in + 64) <= size; index_in += 64)\<close>\<close>

function md5_blocks :: "md5_t \<Rightarrow> byte list \<Rightarrow> size_t \<Rightarrow> (md5_t \<times> size_t) option" where
  "md5_blocks digest buffer index_in =
     (if index_in + 64 \<le> length buffer then
        do { xs \<leftarrow> mem_load buffer index_in 64;
             md5_blocks (md5_transform digest xs) buffer (index_in + 64) }
      else Some (digest, index_in))"
  by pat_completeness auto
termination by (relation "measure (\<lambda>(digest, buffer, index_in). length buffer - index_in)") auto

declare md5_blocks.simps [simp del]

definition md5_index :: "md5_t \<Rightarrow> size_t" where
  "md5_index digest = unat (drop_bit 3 (md5_count digest ! 0) AND 0x3F)"

text \<open>The counter holds the number of bits in two words, low word first.\<close>

definition md5_add_count :: "md5_t \<Rightarrow> size_t \<Rightarrow> md5_t" where
  "md5_add_count digest n =
     (let prev_count = md5_count digest ! 0;
          add_count = word_of_nat (n * 8);
          count0 = prev_count + add_count;
          count1 = md5_count digest ! 1 + word_of_nat (n div 2 ^ 29);
          count1 = (if count0 < prev_count then count1 + 1 else count1)
      in digest\<lparr>md5_count := [count0, count1]\<rparr>)"

definition md5_digest :: "md5_t \<Rightarrow> md5_t option \<Rightarrow> byte list \<Rightarrow> md5_t option" where
  "md5_digest fresh digest buffer =
     (let n = length buffer;
          d = (case digest of None \<Rightarrow> md5_allocate fresh | Some d \<Rightarrow> d);
          d = (if md5_init d then md5_initialize d else d);
          index_buf = md5_index d;
          d = md5_add_count d n;
          space_buf = 64 - index_buf
      in do {
        (d, index_in, index_buf) \<leftarrow>
          (if n \<ge> space_buf then
             do { xs \<leftarrow> mem_load buffer 0 space_buf;
                  buf \<leftarrow> mem_store (md5_buffer d) index_buf xs;
                  let d = d\<lparr>md5_buffer := buf\<rparr>;
                  block \<leftarrow> mem_load (md5_buffer d) 0 64;
                  (d, index_in) \<leftarrow> md5_blocks (md5_transform d block) buffer space_buf;
                  Some (d, index_in, 0) }
           else Some (d, 0, index_buf));
        xs \<leftarrow> mem_load buffer index_in (n - index_in);
        buf \<leftarrow> mem_store (md5_buffer d) index_buf xs;
        Some (d\<lparr>md5_buffer := buf\<rparr>) })"

definition md5_padding :: "byte list" where
  "md5_padding = 0x80 # replicate 63 0"

definition md5_digest_finalize :: "md5_t option \<Rightarrow> md5_t option option" where
  "md5_digest_finalize digest =
     (case digest of None \<Rightarrow> Some None
      | Some d \<Rightarrow>
        (let bits = md5_encode (md5_count d) 8;
             idx = md5_index d;
             size_pad = (if idx < 56 then 56 - idx else 120 - idx)
         in do {
           pad \<leftarrow> mem_load md5_padding 0 size_pad;
           d \<leftarrow> md5_digest d (Some d) pad;
           d \<leftarrow> md5_digest d (Some d) bits;
           Some (Some (d\<lparr>md5_result := md5_encode (md5_state d) 16,
             md5_buffer := replicate 64 0, md5_init := True\<rparr>)) }))"

text \<open>The two 64-bit words of the result; no digest gives the null value.\<close>

definition md5_get_digest_raw :: "md5_t option \<Rightarrow> u64 \<times> u64" where
  "md5_get_digest_raw digest =
     (case digest of
        Some d \<Rightarrow> (byteorder_bigendian64 (host_load64 (take 8 (md5_result d))),
                   byteorder_bigendian64 (host_load64 (drop 8 (md5_result d))))
      | None \<Rightarrow> (0, 0))"

section \<open>RFC 1321\<close>

definition rfc_F :: "nat \<Rightarrow> u32 \<Rightarrow> u32 \<Rightarrow> u32 \<Rightarrow> u32" where
  "rfc_F i b c d =
     (if i < 16 then (b AND c) OR (NOT b AND d)
      else if i < 32 then (b AND d) OR (c AND NOT d)
      else if i < 48 then b XOR c XOR d
      else c XOR (b OR NOT d))"

definition rfc_index :: "nat \<Rightarrow> nat" where
  "rfc_index i = (if i < 16 then i else if i < 32 then (5 * i + 1) mod 16
     else if i < 48 then (3 * i + 5) mod 16 else (7 * i) mod 16)"

definition rfc_shift :: "nat \<Rightarrow> nat" where
  "rfc_shift i = [[7, 12, 17, 22], [5, 9, 14, 20], [4, 11, 16, 23], [6, 10, 15, 21]] ! (i div 16) ! (i mod 4)"

text \<open>The integer parts of \<open>2 ^ 32 * \<bar>sin (i + 1)\<bar>\<close>.\<close>

definition rfc_T :: "u32 list" where
  "rfc_T =
    [0xd76aa478, 0xe8c7b756, 0x242070db, 0xc1bdceee, 0xf57c0faf, 0x4787c62a, 0xa8304613, 0xfd469501,
     0x698098d8, 0x8b44f7af, 0xffff5bb1, 0x895cd7be, 0x6b901122, 0xfd987193, 0xa679438e, 0x49b40821,
     0xf61e2562, 0xc040b340, 0x265e5a51, 0xe9b6c7aa, 0xd62f105d, 0x02441453, 0xd8a1e681, 0xe7d3fbc8,
     0x21e1cde6, 0xc33707d6, 0xf4d50d87, 0x455a14ed, 0xa9e3e905, 0xfcefa3f8, 0x676f02d9, 0x8d2a4c8a,
     0xfffa3942, 0x8771f681, 0x6d9d6122, 0xfde5380c, 0xa4beea44, 0x4bdecfa9, 0xf6bb4b60, 0xbebfbc70,
     0x289b7ec6, 0xeaa127fa, 0xd4ef3085, 0x04881d05, 0xd9d4d039, 0xe6db99e5, 0x1fa27cf8, 0xc4ac5665,
     0xf4292244, 0x432aff97, 0xab9423a7, 0xfc93a039, 0x655b59c3, 0x8f0ccc92, 0xffeff47d, 0x85845dd1,
     0x6fa87e4f, 0xfe2ce6e0, 0xa3014314, 0x4e0811a1, 0xf7537e82, 0xbd3af235, 0x2ad7d2bb, 0xeb86d391]"

definition rfc_step :: "u32 list \<Rightarrow> nat \<Rightarrow> u32 \<times> u32 \<times> u32 \<times> u32 \<Rightarrow> u32 \<times> u32 \<times> u32 \<times> u32" where
  "rfc_step x i = (\<lambda>(a, b, c, d).
     (d, b + word_rotl (rfc_shift i) (a + rfc_F i b c d + x ! rfc_index i + rfc_T ! i), b, c))"

definition rfc_words :: "byte list \<Rightarrow> u32 list" where
  "rfc_words block = map (\<lambda>i. word_of_nat (le_value (take 4 (drop (4 * i) block)))) [0..<16]"

definition rfc_compress :: "u32 list \<Rightarrow> byte list \<Rightarrow> u32 list" where
  "rfc_compress st block =
     (let (a, b, c, d) = fold (rfc_step (rfc_words block)) [0..<64] (st ! 0, st ! 1, st ! 2, st ! 3)
      in [st ! 0 + a, st ! 1 + b, st ! 2 + c, st ! 3 + d])"

text \<open>A one bit, zeros up to 56 modulo 64 bytes, and the number of bits in 64 bits.\<close>

definition rfc_pad :: "byte list \<Rightarrow> byte list" where
  "rfc_pad m = m @ 0x80 # replicate ((119 - length m mod 64) mod 64) 0 @ le_bytes 8 (8 * length m)"

definition rfc_init :: "u32 list" where
  "rfc_init = [0x67452301, 0xefcdab89, 0x98badcfe, 0x10325476]"

definition rfc_md5 :: "byte list \<Rightarrow> byte list" where
  "rfc_md5 m = concat (map (\<lambda>w. le_bytes 4 (unat w)) (fst (absorb rfc_compress 64 rfc_init (rfc_pad m))))"

section \<open>The rounds are those of the RFC\<close>

lemma rotate_word:
  fixes w :: u32
  assumes "0 < s" "s < 32"
  shows "push_bit s w OR drop_bit (32 - s) w = word_rotl s w"
proof (rule bit_eqI)
  fix n assume "possible_bit TYPE(u32) n"
  then have n: "n < 32" by simp
  show "bit (push_bit s w OR drop_bit (32 - s) w) n = bit (word_rotl s w) n"
  proof (cases "n < s")
    case True
    then have "(n + (32 - s)) mod 32 = 32 - s + n" using assms by simp
    then show ?thesis using True n assms by (simp add: bit_simps bit_word_rotl_iff)
  next
    case False
    then have "(n + (32 - s)) mod 32 = n - s" using assms n by (simp add: mod_if)
    moreover have "\<not> bit w (32 - s + n)" using False assms bit_imp_le_length [of w "32 - s + n"] by auto
    ultimately show ?thesis using False n assms by (simp add: bit_simps bit_word_rotl_iff)
  qed
qed

lemma rfc_F_eq:
  "i < 16 \<Longrightarrow> rfc_F i = MD5_F1" "16 \<le> i \<Longrightarrow> i < 32 \<Longrightarrow> rfc_F i = MD5_F2"
  "32 \<le> i \<Longrightarrow> i < 48 \<Longrightarrow> rfc_F i = MD5_F3" "48 \<le> i \<Longrightarrow> rfc_F i = MD5_F4"
  by (auto simp: fun_eq_iff rfc_F_def MD5_F1_def MD5_F2_def MD5_F3_def MD5_F4_def bit_simps intro!: bit_eqI)

definition rfc_quad :: "u32 list \<Rightarrow> nat \<Rightarrow> u32 \<times> u32 \<times> u32 \<times> u32 \<Rightarrow> u32 \<times> u32 \<times> u32 \<times> u32" where
  "rfc_quad x i = md5_steps (rfc_F i) (rfc_shift i) (rfc_shift (i + 1)) (rfc_shift (i + 2)) (rfc_shift (i + 3))
     (x ! rfc_index i + rfc_T ! i) (x ! rfc_index (i + 1) + rfc_T ! (i + 1))
     (x ! rfc_index (i + 2) + rfc_T ! (i + 2)) (x ! rfc_index (i + 3) + rfc_T ! (i + 3))"

lemma rfc_F_quad: "k < 4 \<Longrightarrow> rfc_F (4 * j + k) = rfc_F (4 * j)"
proof -
  assume "k < 4"
  then have "(4 * j + k < 4 * m) = (4 * j < 4 * m)" for m by presburger
  from this [of 4] this [of 8] this [of 12] show ?thesis by (simp add: rfc_F_def fun_eq_iff)
qed

lemma rfc_shift_bounds:
  assumes "i < 64" shows "0 < rfc_shift i" "rfc_shift i < 32"
proof -
  have cases: "i div 16 \<in> {0, 1, 2, 3}" "i mod 4 \<in> {0, 1, 2, 3}" using assms by auto
  then show "0 < rfc_shift i" "rfc_shift i < 32" unfolding rfc_shift_def by auto
qed

lemma step_rfc:
  "i < 64 \<Longrightarrow> rfc_step x i (a, b, c, d) = (d, MD5_STEP (rfc_F i) a b c d (x ! rfc_index i + rfc_T ! i) (rfc_shift i), b, c)"
  by (simp add: rfc_step_def MD5_STEP_def Let_def rotate_word rfc_shift_bounds ac_simps)

lemma quad_rfc:
  assumes "j < 16" shows "fold (rfc_step x) [4 * j..<4 * j + 4] r = rfc_quad x (4 * j) r"
proof -
  have upt: "[4 * j..<4 * j + 4] = [4 * j, 4 * j + 1, 4 * j + 2, 4 * j + 3]" by (simp add: upt_rec)
  have "4 * j < 64" "4 * j + 1 < 64" "4 * j + 2 < 64" "4 * j + 3 < 64" using assms by simp_all
  note steps = this [THEN step_rfc, of x]
  obtain a b c d where r: "r = (a, b, c, d)" by (cases r)
  have F: "rfc_F (4 * j + 1) = rfc_F (4 * j)" "rfc_F (4 * j + 2) = rfc_F (4 * j)" "rfc_F (4 * j + 3) = rfc_F (4 * j)"
    by (rule rfc_F_quad; simp)+
  show ?thesis
    unfolding upt r rfc_quad_def md5_steps_def fold.simps comp_apply steps id_apply prod.case Let_def F by (rule refl)
qed

lemma fold_quads: "n \<le> 16 \<Longrightarrow> fold (rfc_step x) [0..<4 * n] r = fold (rfc_quad x) (map (\<lambda>j. 4 * j) [0..<n]) r"
proof (induction n)
  case (Suc n)
  have "[0..<4 * Suc n] = [0..<4 * n] @ [4 * n..<4 * n + 4]"
    using upt_add_eq_append [of 0 "4 * n" 4] by (simp add: add.commute)
  then show ?case using Suc quad_rfc [of n x] by simp
qed simp

lemma quad_indices: "map (\<lambda>j. 4 * j) [0..<16] = [0, 4, 8, 12, 16, 20, 24, 28, 32, 36, 40, 44, 48, 52, 56, 60 :: nat]"
  by (simp add: upt_rec)

lemma rounds_rfc:
  "md5_round4 x (md5_round3 x (md5_round2 x (md5_round1 x r))) = fold (rfc_step x) [0..<64] r"
proof -
  have r1: "md5_round1 x r = rfc_quad x 12 (rfc_quad x 8 (rfc_quad x 4 (rfc_quad x 0 r)))" for r
    by (simp add: md5_round1_def rfc_quad_def rfc_F_eq rfc_shift_def rfc_index_def rfc_T_def flip: numeral_2_eq_2)
  have r2: "md5_round2 x r = rfc_quad x 28 (rfc_quad x 24 (rfc_quad x 20 (rfc_quad x 16 r)))" for r
    by (simp add: md5_round2_def rfc_quad_def rfc_F_eq rfc_shift_def rfc_index_def rfc_T_def)
  have r3: "md5_round3 x r = rfc_quad x 44 (rfc_quad x 40 (rfc_quad x 36 (rfc_quad x 32 r)))" for r
    by (simp add: md5_round3_def rfc_quad_def rfc_F_eq rfc_shift_def rfc_index_def rfc_T_def)
  have r4: "md5_round4 x r = rfc_quad x 60 (rfc_quad x 56 (rfc_quad x 52 (rfc_quad x 48 r)))" for r
    by (simp add: md5_round4_def rfc_quad_def rfc_F_eq rfc_shift_def rfc_index_def rfc_T_def)
  have "fold (rfc_step x) [0..<64] r = fold (rfc_quad x) (map (\<lambda>j. 4 * j) [0..<16]) r"
    using fold_quads [of 16 x r] by (simp del: upt_rec_numeral)
  then show ?thesis unfolding quad_indices r1 r2 r3 r4 by simp
qed

lemma map_nth_upt4: "length bs = 4 \<Longrightarrow> bs = [bs ! 0, bs ! 1, bs ! 2, bs ! 3]"
  by (auto simp: numeral_eq_Suc length_Suc_conv)

lemma decode_words:
  assumes "length block = 64" shows "md5_decode block 64 = rfc_words block"
proof -
  have "(ucast (block ! (4 * i)) OR push_bit 8 (ucast (block ! (4 * i + 1))) OR
      push_bit 16 (ucast (block ! (4 * i + 2))) OR push_bit 24 (ucast (block ! (4 * i + 3))) :: u32) =
      word_of_nat (le_value (take 4 (drop (4 * i) block)))" if "i < 16" for i
  proof -
    let ?bs = "take 4 (drop (4 * i) block)"
    have "length ?bs = 4" using assms that by simp
    moreover have "?bs ! 0 = block ! (4 * i)" "?bs ! 1 = block ! (4 * i + 1)" "?bs ! 2 = block ! (4 * i + 2)"
      "?bs ! 3 = block ! (4 * i + 3)" using assms that by simp_all
    ultimately show ?thesis
      using word_of_unat [OF unat_bytes_word, of ?bs] by (simp only: bytes_word_def)
  qed
  then show ?thesis by (simp add: md5_decode_def rfc_words_def Let_def del: upt_rec_numeral)
qed

lemma transform_rfc: "length block = 64 \<Longrightarrow> md5_transform_state st block = rfc_compress st block"
  unfolding md5_transform_state_def rfc_compress_def Let_def rounds_rfc by (simp only: decode_words)

lemma length_rfc_compress [simp]: "length (rfc_compress st block) = 4"
  by (simp add: rfc_compress_def Let_def split: prod.split del: upt_rec_numeral)

lemma encode_byte: "(ucast ((w :: u32) AND 0xff) :: byte) = ucast w"
proof (rule bit_eqI)
  fix n assume "possible_bit TYPE(byte) n"
  then have n: "n < 8" by simp
  have "(0xff :: u32) = mask 8" by (simp add: mask_eq_exp_minus_1)
  then have "bit (0xff :: u32) n" using n by (simp only: bit_mask_iff) simp
  then show "bit (ucast (w AND 0xff) :: byte) n = bit (ucast w :: byte) n" using n by (simp add: bit_simps)
qed

lemma encode_bytes: "md5_encode src (4 * length src) = concat (map (\<lambda>w. le_bytes 4 (unat w)) src)"
proof -
  have "map (\<lambda>i. word_bytes (src ! i)) [0..<length src] = map (\<lambda>w. le_bytes 4 (unat w)) src"
    by (rule nth_equalityI) (simp_all add: word_bytes_le)
  then show ?thesis by (simp add: md5_encode_def encode_byte word_bytes_def)
qed

section \<open>Feeding a message\<close>

abbreviation md5_absorb :: "byte list \<Rightarrow> u32 list \<times> byte list" where
  "md5_absorb \<equiv> absorb rfc_compress 64 rfc_init"

definition md5_holds :: "md5_t \<Rightarrow> byte list \<Rightarrow> bool" where
  "md5_holds d m \<longleftrightarrow> \<not> md5_init d \<and> md5_state d = fst (md5_absorb m) \<and> length (md5_buffer d) = 64 \<and>
     take (length m mod 64) (md5_buffer d) = snd (md5_absorb m) \<and>
     md5_count d = [word_of_nat (8 * length m), word_of_nat (8 * length m div 2 ^ 32)]"

lemma md5_initialize_holds: "md5_holds (md5_initialize d) []"
  by (simp add: md5_holds_def md5_initialize_def rfc_init_def absorb_short)

lemma index_holds: "md5_holds d m \<Longrightarrow> md5_index d = length m mod 64"
proof -
  assume h: "md5_holds d m"
  have mask: "(0x3F :: u32) = mask 6" by (simp add: mask_eq_exp_minus_1)
  have "unat (drop_bit 3 (word_of_nat (8 * length m) :: u32) AND 0x3F) = take_bit 6 (unat (drop_bit 3 (word_of_nat (8 * length m) :: u32)))"
    unfolding mask take_bit_eq_mask [symmetric] unsigned_take_bit_eq ..
  also have "\<dots> = (8 * length m) mod 2 ^ 32 div 8 mod 2 ^ 6"
    unfolding unsigned_drop_bit_eq unat_of_nat take_bit_eq_mod drop_bit_nat_def by simp
  also have "\<dots> = length m mod 2 ^ 29 mod 2 ^ 6" 
  proof -
    have "8 * length m mod 2 ^ 32 = 8 * (length m mod 2 ^ 29)" using mult_mod_right [of 8 "length m" "2 ^ 29"] by simp
    then show ?thesis by (simp only:) simp
  qed
  also have "\<dots> = length m mod 64" using mod_mod_cancel [of "64" "2 ^ 29" "length m"] by simp
  finally show ?thesis using h by (simp add: md5_index_def md5_holds_def)
qed

lemma wrapped_sum: "x < q \<Longrightarrow> y < q \<Longrightarrow> (x + y) mod q < x \<longleftrightarrow> q \<le> x + (y :: nat)"
  by (cases "x + y < q") (simp_all add: le_mod_geq)

lemma carry:
  fixes a b :: nat
  shows "(word_of_nat (8 * a) + word_of_nat (b * 8) < (word_of_nat (8 * a) :: u32)) \<longleftrightarrow>
    2 ^ 32 \<le> (8 * a) mod 2 ^ 32 + (8 * b) mod 2 ^ 32"
proof -
  let ?x = "8 * a mod 2 ^ 32 :: nat" and ?y = "8 * b mod 2 ^ 32 :: nat"
  have lt: "?x < 2 ^ 32" "?y < 2 ^ 32" by simp_all
  have "unat (word_of_nat (8 * a) + word_of_nat (b * 8) :: u32) = (?x + ?y) mod 2 ^ 32"
    using unat_of_nat [where 'a = 32, of "8 * a + b * 8"] by (simp add: mult.commute mod_simps)
  moreover have "unat (word_of_nat (8 * a) :: u32) = ?x" unfolding unat_of_nat by simp
  moreover have "(?x + ?y) mod 2 ^ 32 < ?x \<longleftrightarrow> 2 ^ 32 \<le> ?x + ?y" by (rule wrapped_sum [OF lt])
  ultimately show ?thesis unfolding word_less_nat_alt by (simp only:)
qed

lemma add_count_holds:
  assumes "md5_holds d m"
  shows "md5_count (md5_add_count d n) = [word_of_nat (8 * (length m + n)), word_of_nat (8 * (length m + n) div 2 ^ 32)]"
proof -
  let ?L = "length m"
  have c: "md5_count d = [word_of_nat (8 * ?L), word_of_nat (8 * ?L div 2 ^ 32)]" using assms by (simp add: md5_holds_def)
  have half: "(x + y) div q = (if q \<le> x + y then 1 else 0)" if "x < q" "y < q" for x y q :: nat
  proof (cases "q \<le> x + y")
    case True
    then have "(x + y) div q = Suc ((x + y - q) div q)" using that by (simp add: le_div_geq)
    then show ?thesis using that True by simp
  qed simp
  have "8 * n div 2 ^ 32 = n div 2 ^ 29" using div_mult2_eq [of "8 * n" 8 "2 ^ 29"] by simp
  then have "8 * (?L + n) div 2 ^ 32 = 8 * ?L div 2 ^ 32 + n div 2 ^ 29 +
      (if 2 ^ 32 \<le> (8 * ?L) mod 2 ^ 32 + (8 * n) mod 2 ^ 32 then 1 else 0)"
    unfolding distrib_left div_add1_eq [of "8 * ?L" "8 * n" "2 ^ 32"] 
    using half [of "8 * ?L mod 2 ^ 32" "2 ^ 32" "8 * n mod 2 ^ 32"] by simp
  then show ?thesis
    using carry [of ?L n] by (simp add: md5_add_count_def Let_def c algebra_simps)
qed

lemma blocks_absorb:
  "i \<le> length buffer \<Longrightarrow> \<exists>i'. md5_blocks d buffer i = Some
      (d\<lparr>md5_state := fst (absorb rfc_compress 64 (md5_state d) (drop i buffer))\<rparr>, i') \<and> i' \<le> length buffer \<and>
    drop i' buffer = snd (absorb rfc_compress 64 (md5_state d) (drop i buffer))"
proof (induction d buffer i rule: md5_blocks.induct)
  case (1 d buffer i)
  show ?case
  proof (cases "i + 64 \<le> length buffer")
    case True
    let ?b = "take 64 (drop i buffer)"
    have load: "mem_load buffer i 64 = Some ?b" using True by (simp add: mem_simps)
    have len: "length ?b = 64" using True by simp
    have "absorb rfc_compress 64 (md5_state d) (drop i buffer) =
        absorb rfc_compress 64 (md5_state (md5_transform d ?b)) (drop (i + 64) buffer)"
      using True by (subst absorb_long) (simp_all add: md5_transform_def transform_rfc [OF len] add.commute)
    moreover have "md5_blocks d buffer i = md5_blocks (md5_transform d ?b) buffer (i + 64)"
      using True load by (subst md5_blocks.simps) simp
    ultimately show ?thesis using 1(1) [OF True load] True by (simp add: md5_transform_def)
  next
    case False
    then have "absorb rfc_compress 64 (md5_state d) (drop i buffer) = (md5_state d, drop i buffer)"
      by (intro absorb_short) simp
    then show ?thesis using False 1(2) by (subst md5_blocks.simps) simp
  qed
qed

lemma md5_digest_started:
  "\<not> md5_init d \<Longrightarrow> md5_digest fresh (Some d) buffer =
     (let n = length buffer; index_buf = md5_index d; d = md5_add_count d n; space_buf = 64 - index_buf
      in do {
        (d, index_in, index_buf) \<leftarrow>
          (if n \<ge> space_buf then
             do { xs \<leftarrow> mem_load buffer 0 space_buf;
                  buf \<leftarrow> mem_store (md5_buffer d) index_buf xs;
                  let d = d\<lparr>md5_buffer := buf\<rparr>;
                  block \<leftarrow> mem_load (md5_buffer d) 0 64;
                  (d, index_in) \<leftarrow> md5_blocks (md5_transform d block) buffer space_buf;
                  Some (d, index_in, 0) }
           else Some (d, 0, index_buf));
        xs \<leftarrow> mem_load buffer index_in (n - index_in);
        buf \<leftarrow> mem_store (md5_buffer d) index_buf xs;
        Some (d\<lparr>md5_buffer := buf\<rparr>) })"
  by (simp add: md5_digest_def Let_def)

lemma add_count_fields:
  "md5_init (md5_add_count d n) = md5_init d" "md5_state (md5_add_count d n) = md5_state d"
  "md5_buffer (md5_add_count d n) = md5_buffer d"
  by (simp_all add: md5_add_count_def Let_def)

lemma md5_digest_holds:
  assumes h: "md5_holds d m"
  shows "\<exists>d'. md5_digest fresh (Some d) xs = Some d' \<and> md5_holds d' (m @ xs)"
proof -
  let ?k = "length m mod 64" and ?n = "length xs" and ?d = "md5_add_count d (length xs)"
  have k: "?k < 64" by simp
  obtain st r where a: "md5_absorb m = (st, r)" by (cases "md5_absorb m")
  have d: "\<not> md5_init d" "md5_state d = st" "length (md5_buffer d) = 64" "take ?k (md5_buffer d) = r"
    using h a by (simp_all add: md5_holds_def)
  have r: "length r = ?k" using length_rest [of 64 rfc_compress rfc_init m] a by simp
  note cnt = add_count_holds [OF h, of ?n] and app = absorb_append_eq [OF a, of xs]
  note start = md5_digest_started [OF d(1), of fresh xs] and idx = index_holds [OF h]
  have modn: "length (m @ xs) mod 64 = (?k + ?n) mod 64" by (simp add: mod_simps)
  show ?thesis
  proof (cases "64 - ?k \<le> ?n")
    case False
    let ?buf = "overwrite (md5_buffer d) ?k xs"
    have "md5_digest fresh (Some d) xs = Some (?d\<lparr>md5_buffer := ?buf\<rparr>)"
      unfolding start idx using False d(3) by (simp add: add_count_fields mem_simps Let_def)
    moreover have "absorb rfc_compress 64 st (r @ xs) = (st, r @ xs)" using False r k by (intro absorb_short) simp
    moreover have "take (?k + ?n) ?buf = r @ xs" "length ?buf = 64"
      using False d(3,4) k by (simp_all add: take_overwrite_upto)
    moreover have "length (m @ xs) mod 64 = ?k + ?n" using modn False k by simp
    ultimately show ?thesis
      using d(1,2) app cnt by (simp add: md5_holds_def add_count_fields)
  next
    case True
    let ?s = "64 - ?k"
    let ?buf = "overwrite (md5_buffer d) ?k (take ?s xs)"
    have len: "length ?buf = 64" using True d(3) k by simp
    have buf: "?buf = r @ take ?s xs"
      using take_overwrite_upto [of ?k "take ?s xs" "md5_buffer d"] d(3,4) True len by simp
    let ?d1 = "md5_transform (?d\<lparr>md5_buffer := ?buf\<rparr>) ?buf"
    have st1: "md5_state ?d1 = rfc_compress st ?buf"
      using d(2) by (simp add: md5_transform_def transform_rfc [OF len] add_count_fields)
    from blocks_absorb [OF True, of ?d1] obtain i' where
      i': "md5_blocks ?d1 xs ?s = Some (?d1\<lparr>md5_state := fst (absorb rfc_compress 64 (md5_state ?d1) (drop ?s xs))\<rparr>, i')"
      "i' \<le> ?n" "drop i' xs = snd (absorb rfc_compress 64 (md5_state ?d1) (drop ?s xs))" by blast
    have whole: "absorb rfc_compress 64 st (r @ xs) = absorb rfc_compress 64 (md5_state ?d1) (drop ?s xs)"
      using absorb_block [of 64 ?buf rfc_compress st "drop ?s xs"] len unfolding st1 by (simp add: buf)
    have len': "length (drop i' xs) = length (m @ xs) mod 64"
      unfolding i'(3) whole [symmetric] using length_rest [of 64 rfc_compress st "r @ xs"] r modn by simp
    then have fit: "length (drop i' xs) \<le> 64" by (simp del: length_drop)
    let ?d2 = "?d1\<lparr>md5_state := fst (absorb rfc_compress 64 (md5_state ?d1) (drop ?s xs)), md5_buffer := overwrite ?buf 0 (drop i' xs)\<rparr>"
    have "md5_digest fresh (Some d) xs = Some ?d2"
      unfolding start idx using True d(3) i'(1,2) fit len
      by (simp add: add_count_fields mem_simps Let_def md5_transform_def)
    moreover have "md5_holds ?d2 (m @ xs)"
      using d(1) app whole cnt fit len len' i'(3) take_overwrite_upto [of 0 "drop i' xs" ?buf]
      by (simp add: md5_holds_def md5_transform_def add_count_fields)
    ultimately show ?thesis by blast
  qed
qed

section \<open>The result\<close>

lemma length_rfc_state: "length (fst (md5_absorb m)) = 4"
  by (rule absorb_state) (simp_all add: rfc_init_def)

lemma length_rfc_md5: "length (rfc_md5 m) = 16"
  using length_rfc_state [of "rfc_pad m"] by (simp add: rfc_md5_def length_concat comp_def sum_list_triv)

lemma encode_count:
  assumes "md5_holds d m" shows "md5_encode (md5_count d) 8 = le_bytes 8 (8 * length m)"
proof -
  have w: "le_bytes 4 (unat (word_of_nat v :: u32)) = le_bytes 4 v" for v
    using le_bytes_mod [of 4 v] by (simp add: unat_of_nat)
  have "md5_encode (md5_count d) 8 = concat (map (\<lambda>w. le_bytes 4 (unat w)) (md5_count d))"
    using encode_bytes [of "md5_count d"] assms by (simp add: md5_holds_def)
  also have "\<dots> = le_bytes 4 (8 * length m) @ le_bytes 4 (8 * length m div 2 ^ 32)"
    using assms w [of "8 * length m"] w [of "8 * length m div 2 ^ 32"] by (simp add: md5_holds_def)
  also have "\<dots> = le_bytes 8 (8 * length m)" using le_bytes_split [of 4 4 "8 * length m"] by simp
  finally show ?thesis .
qed

definition md5_finish :: "md5_t \<Rightarrow> md5_t option" where
  "md5_finish d = Option.bind (md5_digest_finalize (Some d)) (\<lambda>d. d)"

lemma finalize_holds:
  assumes h: "md5_holds d m"
  shows "\<exists>d'. md5_finish d = Some d' \<and> md5_result d' = rfc_md5 m \<and> md5_init d'"
proof -
  let ?k = "length m mod 64"
  let ?pad = "if ?k < 56 then 56 - ?k else 120 - ?k"
  have k: "?k < 64" by simp
  have pad: "mem_load md5_padding 0 ?pad = Some (0x80 # replicate ((119 - ?k) mod 64) 0)"
  proof (cases "?k < 56")
    case True
    then have e: "?pad = Suc (55 - ?k)" "(119 - ?k) mod 64 = 55 - ?k" by (simp_all add: le_mod_geq)
    show ?thesis unfolding e by (simp add: md5_padding_def mem_load_def min_def)
  next
    case False
    then have e: "?pad = Suc (119 - ?k)" "(119 - ?k) mod 64 = 119 - ?k" using k by simp_all
    have "119 - ?k \<le> 63" using False by simp
    then show ?thesis unfolding e by (simp add: md5_padding_def mem_load_def min_def)
  qed
  from md5_digest_holds [OF h] obtain d1 where
    d1: "md5_digest d (Some d) (0x80 # replicate ((119 - ?k) mod 64) 0) = Some d1"
    "md5_holds d1 (m @ 0x80 # replicate ((119 - ?k) mod 64) 0)" by blast
  from md5_digest_holds [OF d1(2)] obtain d2 where
    d2: "md5_digest d1 (Some d1) (le_bytes 8 (8 * length m)) = Some d2" "md5_holds d2 (rfc_pad m)"
    unfolding rfc_pad_def by auto
  let ?d = "d2\<lparr>md5_result := md5_encode (md5_state d2) 16, md5_buffer := replicate 64 0, md5_init := True\<rparr>"
  have "md5_digest_finalize (Some d) = Some (Some ?d)"
    unfolding md5_digest_finalize_def option.case Let_def encode_count [OF h] index_holds [OF h]
    using pad d1(1) d2(1) by simp
  moreover have "md5_encode (md5_state d2) 16 = rfc_md5 m"
    using encode_bytes [of "md5_state d2"] d2(2) length_rfc_state [of "rfc_pad m"] by (simp add: md5_holds_def rfc_md5_def)
  ultimately show ?thesis by (simp add: md5_finish_def)
qed

lemma md5_digest_restart: "md5_init d \<Longrightarrow> md5_digest fresh (Some d) xs = md5_digest fresh (Some (md5_initialize d)) xs"
  by (simp add: md5_digest_def md5_initialize_def)

interpretation md5_stream: streaming_digest "md5_initialize raw" "\<lambda>d. md5_digest fresh (Some d)" md5_finish md5_result
  md5_holds md5_init "\<lambda>m. True" rfc_md5 for raw fresh
proof
  show "md5_holds (md5_initialize raw) []" by (rule md5_initialize_holds)
qed (use md5_digest_holds finalize_holds md5_digest_restart md5_initialize_holds in \<open>force+\<close>)

lemma raw_result:
  assumes "md5_result d = rfc_md5 m"
  shows "md5_get_digest_raw (Some d) = (word_of_nat (be_value (take 8 (rfc_md5 m))), word_of_nat (be_value (drop 8 (rfc_md5 m))))"
  using assms length_rfc_md5 [of m] by (simp add: md5_get_digest_raw_def bigendian64_load)

text \<open>
  C13. The digest of a message is its MD5 hash as RFC 1321 defines it: feeding a digest object any
  pieces and finalizing it returns without an access outside of its buffers, and both the
  result bytes and the 128-bit value read from them are the hash of the concatenated pieces,
  however the message was cut and whatever the memory of the object held before.
\<close>

theorem md5_correct:
  "\<exists>d. Option.bind (feed_all (\<lambda>d. md5_digest fresh (Some d)) (md5_allocate raw) pieces) md5_finish = Some d \<and>
     md5_result d = rfc_md5 (concat pieces) \<and>
     md5_get_digest_raw (Some d) = (word_of_nat (be_value (take 8 (rfc_md5 (concat pieces)))),
       word_of_nat (be_value (drop 8 (rfc_md5 (concat pieces)))))"
  using md5_stream.chunks [OF md5_initialize_holds TrueI, of fresh raw pieces] raw_result unfolding md5_allocate_def by blast

text \<open>
  A digest object that has delivered a result may be used again: when it is fed another
  message it starts over, and the next result is the hash of that message alone.
\<close>

theorem md5_reuse:
  assumes "md5_finish d0 = Some d1" "pieces \<noteq> []"
  shows "\<exists>d. Option.bind (feed_all (\<lambda>d. md5_digest fresh (Some d)) d1 pieces) md5_finish = Some d \<and>
    md5_result d = rfc_md5 (concat pieces)"
proof -
  have "md5_init d1" using assms(1) by (auto simp: md5_finish_def md5_digest_finalize_def Let_def split: Option.bind_splits)
  from md5_stream.chunks_again [OF this assms(2) TrueI, of fresh] show ?thesis by blast
qed

definition example_md5 :: md5_t where
  "example_md5 = \<lparr>md5_init = True, md5_state = [], md5_count = [], md5_buffer = [], md5_result = []\<rparr>"

theorem md5_reuse_witness:
  "\<exists>d1 d. md5_finish (md5_allocate example_md5) = Some d1 \<and>
     Option.bind (feed_all (\<lambda>d. md5_digest example_md5 (Some d)) d1 [[97], [98, 99]]) md5_finish = Some d \<and>
     md5_result d = rfc_md5 [97, 98, 99]"
proof -
  obtain d1 where "md5_finish (md5_allocate example_md5) = Some d1"
    using finalize_holds [OF md5_initialize_holds] unfolding md5_allocate_def by blast
  then show ?thesis using md5_reuse [of "md5_allocate example_md5" d1 "[[97], [98, 99]]" example_md5] by auto
qed

end
