(* ===== verification/Sha.thy ===== *)
theory Sha
  imports Block_Hash
begin

text \<open>
  \<open>foundation/sha.c\<close>: the SHA-256 and SHA-512 message digests. The two compression functions
  unroll eight rounds over an array whose elements change roles instead of moving; they are
  compared with the rounds of FIPS 180-4, which shift eight working variables, and the digest
  objects with the hash of the padded message.
\<close>

section \<open>Round functions\<close>

text \<open>The tables of round constants, row by row as the code has them.\<close>

definition K256 :: "u32 list" where
  "K256 = concat
    [[0x428a2f98, 0x71374491, 0xb5c0fbcf, 0xe9b5dba5, 0x3956c25b, 0x59f111f1, 0x923f82a4, 0xab1c5ed5],
     [0xd807aa98, 0x12835b01, 0x243185be, 0x550c7dc3, 0x72be5d74, 0x80deb1fe, 0x9bdc06a7, 0xc19bf174],
     [0xe49b69c1, 0xefbe4786, 0x0fc19dc6, 0x240ca1cc, 0x2de92c6f, 0x4a7484aa, 0x5cb0a9dc, 0x76f988da],
     [0x983e5152, 0xa831c66d, 0xb00327c8, 0xbf597fc7, 0xc6e00bf3, 0xd5a79147, 0x06ca6351, 0x14292967],
     [0x27b70a85, 0x2e1b2138, 0x4d2c6dfc, 0x53380d13, 0x650a7354, 0x766a0abb, 0x81c2c92e, 0x92722c85],
     [0xa2bfe8a1, 0xa81a664b, 0xc24b8b70, 0xc76c51a3, 0xd192e819, 0xd6990624, 0xf40e3585, 0x106aa070],
     [0x19a4c116, 0x1e376c08, 0x2748774c, 0x34b0bcb5, 0x391c0cb3, 0x4ed8aa4a, 0x5b9cca4f, 0x682e6ff3],
     [0x748f82ee, 0x78a5636f, 0x84c87814, 0x8cc70208, 0x90befffa, 0xa4506ceb, 0xbef9a3f7, 0xc67178f2]]"

definition K512 :: "u64 list" where
  "K512 = concat
    [[0x428a2f98d728ae22, 0x7137449123ef65cd, 0xb5c0fbcfec4d3b2f, 0xe9b5dba58189dbbc, 0x3956c25bf348b538],
     [0x59f111f1b605d019, 0x923f82a4af194f9b, 0xab1c5ed5da6d8118, 0xd807aa98a3030242, 0x12835b0145706fbe],
     [0x243185be4ee4b28c, 0x550c7dc3d5ffb4e2, 0x72be5d74f27b896f, 0x80deb1fe3b1696b1, 0x9bdc06a725c71235],
     [0xc19bf174cf692694, 0xe49b69c19ef14ad2, 0xefbe4786384f25e3, 0x0fc19dc68b8cd5b5, 0x240ca1cc77ac9c65],
     [0x2de92c6f592b0275, 0x4a7484aa6ea6e483, 0x5cb0a9dcbd41fbd4, 0x76f988da831153b5, 0x983e5152ee66dfab],
     [0xa831c66d2db43210, 0xb00327c898fb213f, 0xbf597fc7beef0ee4, 0xc6e00bf33da88fc2, 0xd5a79147930aa725],
     [0x06ca6351e003826f, 0x142929670a0e6e70, 0x27b70a8546d22ffc, 0x2e1b21385c26c926, 0x4d2c6dfc5ac42aed],
     [0x53380d139d95b3df, 0x650a73548baf63de, 0x766a0abb3c77b2a8, 0x81c2c92e47edaee6, 0x92722c851482353b],
     [0xa2bfe8a14cf10364, 0xa81a664bbc423001, 0xc24b8b70d0f89791, 0xc76c51a30654be30, 0xd192e819d6ef5218],
     [0xd69906245565a910, 0xf40e35855771202a, 0x106aa07032bbd1b8, 0x19a4c116b8d2d0c8, 0x1e376c085141ab53],
     [0x2748774cdf8eeb99, 0x34b0bcb5e19b48a8, 0x391c0cb3c5c95a63, 0x4ed8aa4ae3418acb, 0x5b9cca4f7763e373],
     [0x682e6ff3d6b2b8a3, 0x748f82ee5defb2fc, 0x78a5636f43172f60, 0x84c87814a1f0ab72, 0x8cc702081a6439ec],
     [0x90befffa23631e28, 0xa4506cebde82bde9, 0xbef9a3f7b2c67915, 0xc67178f2e372532b, 0xca273eceea26619c],
     [0xd186b8c721c0c207, 0xeada7dd6cde0eb1e, 0xf57d4f7fee6ed178, 0x06f067aa72176fba, 0x0a637dc5a2c898a6],
     [0x113f9804bef90dae, 0x1b710b35131c471b, 0x28db77f523047d84, 0x32caab7b40c72493, 0x3c9ebe0a15c9bebc],
     [0x431d67c49c100d4c, 0x4cc5d4becb3e42b6, 0x597f299cfc657e2a, 0x5fcb6fab3ad6faec, 0x6c44198c4a475817]]"

definition choise32 :: "u32 \<Rightarrow> u32 \<Rightarrow> u32 \<Rightarrow> u32" where
  "choise32 x y z = z XOR (x AND (y XOR z))"

definition majority32 :: "u32 \<Rightarrow> u32 \<Rightarrow> u32 \<Rightarrow> u32" where
  "majority32 x y z = ((x OR y) AND z) OR (x AND y)"

definition rotate32 :: "u32 \<Rightarrow> u32 \<Rightarrow> u32" where
  "rotate32 x n = drop_bit (unat (n AND 31)) x OR push_bit (32 - unat (n AND 31)) x"

definition shift32 :: "u32 \<Rightarrow> u32 \<Rightarrow> u32" where
  "shift32 x n = drop_bit (unat n) x"

definition sigma0_32 :: "u32 \<Rightarrow> u32" where
  "sigma0_32 x = rotate32 x 2 XOR rotate32 x 13 XOR rotate32 x 22"

definition sigma1_32 :: "u32 \<Rightarrow> u32" where
  "sigma1_32 x = rotate32 x 6 XOR rotate32 x 11 XOR rotate32 x 25"

definition gamma0_32 :: "u32 \<Rightarrow> u32" where
  "gamma0_32 x = rotate32 x 7 XOR rotate32 x 18 XOR shift32 x 3"

definition gamma1_32 :: "u32 \<Rightarrow> u32" where
  "gamma1_32 x = rotate32 x 17 XOR rotate32 x 19 XOR shift32 x 10"

definition choise64 :: "u64 \<Rightarrow> u64 \<Rightarrow> u64 \<Rightarrow> u64" where
  "choise64 x y z = z XOR (x AND (y XOR z))"

definition majority64 :: "u64 \<Rightarrow> u64 \<Rightarrow> u64 \<Rightarrow> u64" where
  "majority64 x y z = ((x OR y) AND z) OR (x AND y)"

definition rotate64 :: "u64 \<Rightarrow> u64 \<Rightarrow> u64" where
  "rotate64 x n = drop_bit (unat (n AND 63)) x OR push_bit (64 - unat (n AND 63)) x"

definition shift64 :: "u64 \<Rightarrow> u64 \<Rightarrow> u64" where
  "shift64 x n = drop_bit (unat n) x"

definition sigma0_64 :: "u64 \<Rightarrow> u64" where
  "sigma0_64 x = rotate64 x 28 XOR rotate64 x 34 XOR rotate64 x 39"

definition sigma1_64 :: "u64 \<Rightarrow> u64" where
  "sigma1_64 x = rotate64 x 14 XOR rotate64 x 18 XOR rotate64 x 41"

definition gamma0_64 :: "u64 \<Rightarrow> u64" where
  "gamma0_64 x = rotate64 x 1 XOR rotate64 x 8 XOR shift64 x 7"

definition gamma1_64 :: "u64 \<Rightarrow> u64" where
  "gamma1_64 x = rotate64 x 19 XOR rotate64 x 61 XOR shift64 x 6"

text \<open>\<open>compress32\<close> and \<open>compress64\<close> return the new values of \<open>*d\<close> and \<open>*h\<close>.\<close>

definition compress32 :: "u32 list \<Rightarrow> u32 \<Rightarrow> u32 \<Rightarrow> u32 \<Rightarrow> u32 \<Rightarrow> u32 \<Rightarrow> u32 \<Rightarrow> u32 \<Rightarrow> u32 \<Rightarrow> nat \<Rightarrow> u32 \<times> u32" where
  "compress32 wbox a b c d e f g h i =
     (let t0 = h + sigma1_32 e + choise32 e f g + K256 ! i + wbox ! i;
          t1 = sigma0_32 a + majority32 a b c
      in (d + t0, t0 + t1))"

definition compress64 :: "u64 list \<Rightarrow> u64 \<Rightarrow> u64 \<Rightarrow> u64 \<Rightarrow> u64 \<Rightarrow> u64 \<Rightarrow> u64 \<Rightarrow> u64 \<Rightarrow> u64 \<Rightarrow> nat \<Rightarrow> u64 \<times> u64" where
  "compress64 wbox a b c d e f g h i =
     (let t0 = h + sigma1_64 e + choise64 e f g + K512 ! i + wbox ! i;
          t1 = sigma0_64 a + majority64 a b c
      in (d + t0, t0 + t1))"

definition sha_load32 :: "byte list \<Rightarrow> u32" where
  "sha_load32 buffer = byteorder_bigendian32 (bytes_word (take 4 buffer))"

definition sha_load64 :: "byte list \<Rightarrow> u64" where
  "sha_load64 buffer = byteorder_bigendian64 (host_load64 (take 8 buffer))"

definition sha_store64 :: "u64 \<Rightarrow> byte list" where
  "sha_store64 val = host_store64 (byteorder_bigendian64 val)"

section \<open>Compression\<close>

text \<open>
  The message schedule: 16 words of the block, then each word from four earlier ones. The array
  \<open>wbox\<close> is the list of the words computed so far.
\<close>

definition sha_extend :: "('w \<Rightarrow> 'w) \<Rightarrow> ('w \<Rightarrow> 'w) \<Rightarrow> nat \<Rightarrow> 'w list \<Rightarrow> ('w :: plus) list" where
  "sha_extend gamma0 gamma1 n wbox =
     fold (\<lambda>i wbox. wbox @ [gamma1 (wbox ! (i - 2)) + wbox ! (i - 7) + gamma0 (wbox ! (i - 15)) + wbox ! (i - 16)]) [16..<n] wbox"

text \<open>
  One call \<open>compress(wbox, sbox[a], sbox[b], sbox[c], sbox + d, sbox[e], sbox[f], sbox[g], sbox + h, i)\<close>,
  and the eight calls of the loop body.
\<close>

definition sha_call :: "(nat \<Rightarrow> 'w \<Rightarrow> 'w \<Rightarrow> 'w \<Rightarrow> 'w \<Rightarrow> 'w \<Rightarrow> 'w \<Rightarrow> 'w \<Rightarrow> 'w \<Rightarrow> 'w \<times> 'w) \<Rightarrow> nat \<Rightarrow> nat \<Rightarrow> nat \<Rightarrow> nat \<Rightarrow> nat \<Rightarrow> nat \<Rightarrow>
    nat \<Rightarrow> nat \<Rightarrow> nat \<Rightarrow> 'w list \<Rightarrow> 'w list" where
  "sha_call step a b c d e f g h i sbox =
     (let (d', h') = step i (sbox ! a) (sbox ! b) (sbox ! c) (sbox ! d) (sbox ! e) (sbox ! f) (sbox ! g) (sbox ! h)
      in sbox[d := d', h := h'])"

definition sha_rounds :: "(nat \<Rightarrow> 'w \<Rightarrow> 'w \<Rightarrow> 'w \<Rightarrow> 'w \<Rightarrow> 'w \<Rightarrow> 'w \<Rightarrow> 'w \<Rightarrow> 'w \<Rightarrow> 'w \<times> 'w) \<Rightarrow> nat \<Rightarrow> 'w list \<Rightarrow> 'w list" where
  "sha_rounds step i sbox =
     (let sbox = sha_call step 0 1 2 3 4 5 6 7 i sbox;
          sbox = sha_call step 7 0 1 2 3 4 5 6 (i + 1) sbox;
          sbox = sha_call step 6 7 0 1 2 3 4 5 (i + 2) sbox;
          sbox = sha_call step 5 6 7 0 1 2 3 4 (i + 3) sbox;
          sbox = sha_call step 4 5 6 7 0 1 2 3 (i + 4) sbox;
          sbox = sha_call step 3 4 5 6 7 0 1 2 (i + 5) sbox;
          sbox = sha_call step 2 3 4 5 6 7 0 1 (i + 6) sbox;
          sbox = sha_call step 1 2 3 4 5 6 7 0 (i + 7) sbox
      in sbox)"

text \<open>\<open>for (i = 0; i < n;)\<close> with \<open>i\<close> advancing by eight.\<close>

function sha_loop :: "(nat \<Rightarrow> 'w \<Rightarrow> 'w \<Rightarrow> 'w \<Rightarrow> 'w \<Rightarrow> 'w \<Rightarrow> 'w \<Rightarrow> 'w \<Rightarrow> 'w \<Rightarrow> 'w \<times> 'w) \<Rightarrow> nat \<Rightarrow> nat \<Rightarrow> 'w list \<Rightarrow> 'w list" where
  "sha_loop step n i sbox = (if i < n then sha_loop step n (i + 8) (sha_rounds step i sbox) else sbox)"
  by pat_completeness auto
termination by (relation "measure (\<lambda>(step, n, i, sbox). n - i)") auto

declare sha_loop.simps [simp del]

definition sha256_compress :: "u32 list \<Rightarrow> byte list \<Rightarrow> u32 list" where
  "sha256_compress state buffer =
     (let wbox = map (\<lambda>i. sha_load32 (drop (4 * i) buffer)) [0..<16];
          wbox = sha_extend gamma0_32 gamma1_32 64 wbox;
          sbox = sha_loop (\<lambda>i a b c d e f g h. compress32 wbox a b c d e f g h i) 64 0 state
      in map (\<lambda>i. state ! i + sbox ! i) [0..<8])"

definition sha512_compress :: "u64 list \<Rightarrow> byte list \<Rightarrow> u64 list" where
  "sha512_compress state buffer =
     (let wbox = map (\<lambda>i. sha_load64 (drop (8 * i) buffer)) [0..<16];
          wbox = sha_extend gamma0_64 gamma1_64 80 wbox;
          sbox = sha_loop (\<lambda>i a b c d e f g h. compress64 wbox a b c d e f g h i) 80 0 state
      in map (\<lambda>i. state ! i + sbox ! i) [0..<8])"

section \<open>Digest objects\<close>

record 'w sha_t =
  sha_init :: bool
  sha_current :: size_t
  sha_length :: u64
  sha_state :: "'w list"
  sha_buffer :: "byte list"

definition sha256_initialize :: "u32 sha_t \<Rightarrow> u32 sha_t" where
  "sha256_initialize digest = digest\<lparr>sha_init := False, sha_current := 0, sha_length := 0,
     sha_state := [0x6A09E667, 0xBB67AE85, 0x3C6EF372, 0xA54FF53A, 0x510E527F, 0x9B05688C, 0x1F83D9AB, 0x5BE0CD19]\<rparr>"

definition sha512_initialize :: "u64 sha_t \<Rightarrow> u64 sha_t" where
  "sha512_initialize digest = digest\<lparr>sha_init := False, sha_current := 0, sha_length := 0,
     sha_state := [0x6a09e667f3bcc908, 0xbb67ae8584caa73b, 0x3c6ef372fe94f82b, 0xa54ff53a5f1d36f1,
       0x510e527fade682d1, 0x9b05688c2b3e6c1f, 0x1f83d9abfb41bd6b, 0x5be0cd19137e2179]\<rparr>"

definition sha256_allocate :: "u32 sha_t \<Rightarrow> u32 sha_t" where
  "sha256_allocate fresh = sha256_initialize fresh"

definition sha512_allocate :: "u64 sha_t \<Rightarrow> u64 sha_t" where
  "sha512_allocate fresh = sha512_initialize fresh"

text \<open>
  \<open>while (size >= block_size)\<close>: the full blocks of the input. It returns the object and the
  input behind them. The two digests share the shape of the code; \<open>block_size\<close> is the size of
  the buffer, 64 or 128.
\<close>

function sha_blocks :: "('w list \<Rightarrow> byte list \<Rightarrow> 'w list) \<Rightarrow> nat \<Rightarrow> 'w sha_t \<Rightarrow> byte list \<Rightarrow> 'w sha_t \<times> byte list" where
  "sha_blocks compress block_size digest buffer =
     (if 0 < block_size \<and> length buffer \<ge> block_size then
        sha_blocks compress block_size (digest\<lparr>sha_state := compress (sha_state digest) (take block_size buffer),
            sha_length := sha_length digest + word_of_nat (block_size * 8)\<rparr>)
          (drop block_size buffer)
      else (digest, buffer))"
  by pat_completeness auto
termination by (relation "measure (\<lambda>(compress, block_size, digest, buffer). length buffer)") auto

declare sha_blocks.simps [simp del]

text \<open>The blocks of the input, and the bytes behind them into the buffer.\<close>

definition sha_rest :: "('w list \<Rightarrow> byte list \<Rightarrow> 'w list) \<Rightarrow> nat \<Rightarrow> 'w sha_t \<Rightarrow> byte list \<Rightarrow> 'w sha_t option" where
  "sha_rest compress block_size digest buffer =
     (let (d, buffer) = sha_blocks compress block_size digest buffer
      in if length buffer \<noteq> 0 then
           do { buf \<leftarrow> mem_store (sha_buffer d) 0 buffer;
                Some (d\<lparr>sha_buffer := buf, sha_current := sha_current d + length buffer\<rparr>) }
         else Some d)"

definition sha_digest :: "('w sha_t \<Rightarrow> 'w sha_t) \<Rightarrow> ('w list \<Rightarrow> byte list \<Rightarrow> 'w list) \<Rightarrow> 'w sha_t \<Rightarrow> byte list \<Rightarrow> 'w sha_t option" where
  "sha_digest initialize compress digest buffer =
     (let block_size = length (sha_buffer digest);
          d = (if sha_init digest then initialize digest else digest)
      in do {
        (d, buffer) \<leftarrow>
          (if sha_current d \<noteq> 0 then
             (let remain = block_size - sha_current d;
                  this_block = min (length buffer) remain
              in do {
                xs \<leftarrow> mem_load buffer 0 this_block;
                buf \<leftarrow> mem_store (sha_buffer d) (sha_current d) xs;
                let d = d\<lparr>sha_buffer := buf, sha_current := sha_current d + this_block\<rparr>;
                let d = (if sha_current d = block_size
                   then d\<lparr>sha_state := compress (sha_state d) (sha_buffer d),
                     sha_length := sha_length d + word_of_nat (block_size * 8), sha_current := 0\<rparr>
                   else d);
                Some (d, drop this_block buffer) })
           else Some (d, buffer));
        sha_rest compress block_size d buffer })"

definition sha256_digest :: "u32 sha_t \<Rightarrow> byte list \<Rightarrow> u32 sha_t option" where
  "sha256_digest = sha_digest sha256_initialize sha256_compress"

definition sha512_digest :: "u64 sha_t \<Rightarrow> byte list \<Rightarrow> u64 sha_t option" where
  "sha512_digest = sha_digest sha512_initialize sha512_compress"

text \<open>
  Finalization. \<open>limit\<close> is the largest fill after which the length still fits (56, 112), \<open>full\<close>
  the size of the buffer (64, 128), \<open>len_at\<close> the position of the 64-bit length (56, 120).
\<close>

definition sha_finalize :: "('w list \<Rightarrow> byte list \<Rightarrow> 'w list) \<Rightarrow> nat \<Rightarrow> nat \<Rightarrow> nat \<Rightarrow> 'w sha_t \<Rightarrow> 'w sha_t option" where
  "sha_finalize compress limit full len_at digest =
     do { let d = digest\<lparr>sha_length := sha_length digest + word_of_nat (sha_current digest * 8)\<rparr>;
          buf \<leftarrow> mem_set (sha_buffer d) (sha_current d) 0x80;
          let d = d\<lparr>sha_buffer := buf, sha_current := sha_current d + 1\<rparr>;
          d \<leftarrow> (if sha_current d > limit then
                  do { buf \<leftarrow> mem_store (sha_buffer d) (sha_current d) (replicate (full - sha_current d) 0);
                       Some (d\<lparr>sha_buffer := buf, sha_state := compress (sha_state d) buf, sha_current := 0\<rparr>) }
                else Some d);
          buf \<leftarrow> (if sha_current d < len_at
                    then mem_store (sha_buffer d) (sha_current d) (replicate (len_at - sha_current d) 0)
                    else Some (sha_buffer d));
          buf \<leftarrow> mem_store buf len_at (sha_store64 (sha_length d));
          Some (d\<lparr>sha_buffer := buf, sha_state := compress (sha_state d) buf, sha_init := True\<rparr>) }"

definition sha256_digest_finalize :: "u32 sha_t \<Rightarrow> u32 sha_t option" where
  "sha256_digest_finalize = sha_finalize sha256_compress 56 64 56"

definition sha512_digest_finalize :: "u64 sha_t \<Rightarrow> u64 sha_t option" where
  "sha512_digest_finalize = sha_finalize sha512_compress 112 128 120"

definition sha256_get_digest_raw :: "u32 sha_t \<Rightarrow> u64 list" where
  "sha256_get_digest_raw digest =
     (let pair = (\<lambda>i. push_bit 32 (ucast (sha_state digest ! i)) OR ucast (sha_state digest ! (i + 1)))
      in [pair 0, pair 2, pair 4, pair 6])"

definition sha512_get_digest_raw :: "u64 sha_t \<Rightarrow> u64 list" where
  "sha512_get_digest_raw digest = map (\<lambda>i. sha_state digest ! i) [0..<8]"

end
