(* ===== verification/Sha_Stream.thy ===== *)
theory Sha_Stream
  imports Sha
begin

text \<open>
  The digest objects of \<open>sha.c\<close> for any compression function: \<open>sha_object\<close> states what the two
  digests have in common, with block size \<open>N\<close> and length field of \<open>L\<close> bytes, and its lemmas say
  that feeding and finalizing an object hashes the padded message block by block.
\<close>

lemma sha_blocks_absorb:
  assumes "0 < N"
  shows "sha_blocks c N d xs =
    (d\<lparr>sha_state := fst (absorb c N (sha_state d) xs),
       sha_length := sha_length d + word_of_nat (8 * N * (length xs div N))\<rparr>, snd (absorb c N (sha_state d) xs))"
proof (induction "length xs" arbitrary: d xs rule: less_induct)
  case less
  show ?case
  proof (cases "N \<le> length xs")
    case True
    let ?d = "d\<lparr>sha_state := c (sha_state d) (take N xs), sha_length := sha_length d + word_of_nat (N * 8)\<rparr>"
    have "sha_blocks c N d xs = sha_blocks c N ?d (drop N xs)"
      using True assms by (subst sha_blocks.simps) simp
    moreover have "length xs div N = Suc (length (drop N xs) div N)" using True assms by (simp add: le_div_geq)
    ultimately show ?thesis
      using less [of "drop N xs" ?d] True assms by (simp add: absorb_long algebra_simps)
  next
    case False
    then show ?thesis by (subst sha_blocks.simps) (simp add: absorb_short)
  qed
qed

lemma le_bytes_zero: "le_bytes n 0 = replicate n 0"
  by (rule nth_equalityI) (simp_all add: le_bytes_def)

lemma be_bytes_high:
  assumes "8 \<le> L" "v < 2 ^ 64" shows "be_bytes L v = replicate (L - 8) 0 @ be_bytes 8 v"
proof -
  have "v div 256 ^ 8 = 0" using assms(2) by simp
  then show ?thesis using le_bytes_split [of 8 "L - 8" v] assms(1) by (simp add: be_bytes_def le_bytes_zero)
qed

text \<open>The padding of FIPS 180-4 for blocks of \<open>N\<close> bytes and a length field of \<open>L\<close> bytes.\<close>

definition fips_pad :: "nat \<Rightarrow> nat \<Rightarrow> byte list \<Rightarrow> byte list" where
  "fips_pad N L m = m @ 0x80 # replicate ((2 * N - L - 1 - length m mod N) mod N) 0 @ be_bytes L (8 * length m)"

locale sha_object =
  fixes initialize :: "'w sha_t \<Rightarrow> 'w sha_t" and compress :: "'w list \<Rightarrow> byte list \<Rightarrow> 'w list"
    and N L :: nat and H0 :: "'w list"
  assumes sizes: "8 \<le> L" "L < N"
    and init_fields: "\<not> sha_init (initialize d)" "sha_current (initialize d) = 0" "sha_length (initialize d) = 0"
      "sha_state (initialize d) = H0" "sha_buffer (initialize d) = sha_buffer d"
begin

lemma N_pos: "0 < N"
  using sizes by simp

definition sha_holds :: "'w sha_t \<Rightarrow> byte list \<Rightarrow> bool" where
  "sha_holds d m \<longleftrightarrow> \<not> sha_init d \<and> sha_state d = fst (absorb compress N H0 m) \<and> length (sha_buffer d) = N \<and>
     sha_current d = length m mod N \<and> take (length m mod N) (sha_buffer d) = snd (absorb compress N H0 m) \<and>
     sha_length d = word_of_nat (8 * N * (length m div N))"

definition sha_ended :: "'w sha_t \<Rightarrow> bool" where
  "sha_ended d \<longleftrightarrow> sha_init d \<and> length (sha_buffer d) = N"

lemma initialize_holds: "length (sha_buffer d) = N \<Longrightarrow> sha_holds (initialize d) []"
  using sizes by (simp add: sha_holds_def init_fields absorb_short)

lemma tail_holds:
  assumes d: "\<not> sha_init d" "length (sha_buffer d) = N" "sha_current d = 0"
    and whole: "absorb compress N H0 m = absorb compress N (sha_state d) xs"
    and len: "length m = N * q + length xs" "sha_length d = word_of_nat (8 * N * q)"
  shows "\<exists>d'. sha_rest compress N d xs = Some d' \<and> sha_holds d' m"
proof -
  let ?r = "snd (absorb compress N (sha_state d) xs)"
  have r: "length ?r = length m mod N" using length_rest [OF N_pos] len(1) by simp
  then have fit: "length ?r < N" using N_pos by simp
  have "length m div N = q + length xs div N" using len(1) N_pos by simp
  then have l: "sha_length d + word_of_nat (8 * N * (length xs div N)) = word_of_nat (8 * N * (length m div N))"
    unfolding len(2) by (simp add: algebra_simps)
  let ?d = "d\<lparr>sha_state := fst (absorb compress N (sha_state d) xs),
      sha_length := word_of_nat (8 * N * (length m div N))\<rparr>"
  have blocks: "sha_blocks compress N d xs = (?d, ?r)" unfolding sha_blocks_absorb [OF N_pos] l ..
  show ?thesis
  proof (cases "?r = []")
    case True
    then have "sha_rest compress N d xs = Some ?d" by (simp add: sha_rest_def blocks)
    moreover have "sha_holds ?d m" using d whole r True by (simp add: sha_holds_def)
    ultimately show ?thesis by blast
  next
    case False
    let ?d' = "?d\<lparr>sha_buffer := overwrite (sha_buffer d) 0 ?r, sha_current := length ?r\<rparr>"
    have "sha_rest compress N d xs = Some ?d'" using False d fit by (simp add: sha_rest_def blocks mem_simps)
    moreover have "sha_holds ?d' m"
      using d whole r fit take_overwrite_upto [of 0 ?r "sha_buffer d"] by (simp add: sha_holds_def)
    ultimately show ?thesis by blast
  qed
qed

lemma digest_tail:
  assumes "\<not> sha_init d" "length (sha_buffer d) = N"
  shows "sha_digest initialize compress d xs =
    (if sha_current d \<noteq> 0 then
       (let this_block = min (length xs) (N - sha_current d)
        in do {
          buf \<leftarrow> mem_store (sha_buffer d) (sha_current d) (take this_block xs);
          let d = d\<lparr>sha_buffer := buf, sha_current := sha_current d + this_block\<rparr>;
          sha_rest compress N (if sha_current d = N
             then d\<lparr>sha_state := compress (sha_state d) (sha_buffer d),
               sha_length := sha_length d + word_of_nat (N * 8), sha_current := 0\<rparr>
             else d) (drop this_block xs) })
     else sha_rest compress N d xs)"
  using assms by (simp add: sha_digest_def Let_def mem_simps)

lemma digest_holds:
  assumes h: "sha_holds d m" shows "\<exists>d'. sha_digest initialize compress d xs = Some d' \<and> sha_holds d' (m @ xs)"
proof -
  let ?k = "length m mod N" and ?q = "length m div N"
  obtain st r where a: "absorb compress N H0 m = (st, r)" by (cases "absorb compress N H0 m")
  have d: "\<not> sha_init d" "sha_state d = st" "length (sha_buffer d) = N" "sha_current d = ?k"
    "take ?k (sha_buffer d) = r" "sha_length d = word_of_nat (8 * N * ?q)"
    using h a by (simp_all add: sha_holds_def)
  have r: "length r = ?k" using length_rest [OF N_pos, of compress H0 m] a by simp
  have k: "?k < N" using N_pos by simp
  have lm: "length m = N * ?q + ?k" by simp
  note app = absorb_append_eq [OF a, of xs] and tail = digest_tail [OF d(1,3), of xs]
  show ?thesis
  proof (cases "?k = 0")
    case True
    then have "sha_digest initialize compress d xs = sha_rest compress N d xs" using tail d(4) by simp
    moreover have "absorb compress N H0 (m @ xs) = absorb compress N (sha_state d) xs" using app True r d(2) by simp
    ultimately show ?thesis
      using tail_holds [OF d(1,3) _ _ _ d(6), of "m @ xs" xs] d(4) True lm by simp
  next
    case False
    note call = tail [unfolded d(4) if_P [OF False] Let_def]
    show ?thesis
    proof (cases "length xs < N - ?k")
      case True
      let ?d = "d\<lparr>sha_buffer := overwrite (sha_buffer d) ?k xs, sha_current := ?k + length xs\<rparr>"
      have "sha_digest initialize compress d xs = sha_rest compress N ?d []"
      proof -
        have "min (length xs) (N - ?k) = length xs" "?k + length xs \<noteq> N" "?k + length xs \<le> N" using True by simp_all
        then show ?thesis unfolding call using d(3) by (simp add: mem_simps)
      qed
      also have "\<dots> = Some ?d" using N_pos by (simp add: sha_rest_def sha_blocks_absorb absorb_short)
      finally have "sha_digest initialize compress d xs = Some ?d" .
      moreover have "length (m @ xs) mod N = ?k + length xs" "length (m @ xs) div N = ?q"
      proof -
        have "length (m @ xs) = (?k + length xs) + N * ?q" using lm by simp
        then show "length (m @ xs) mod N = ?k + length xs" "length (m @ xs) div N = ?q"
          using True N_pos by (metis mod_mult_self2 mod_less less_diff_conv add.commute,
            metis div_mult_self2 div_less less_diff_conv add.commute add_0 less_not_refl)
      qed
      moreover have "absorb compress N st (r @ xs) = (st, r @ xs)" using True r by (intro absorb_short) simp
      ultimately show ?thesis
        using d app take_overwrite_upto [of ?k xs "sha_buffer d"] True by (auto simp: sha_holds_def)
    next
      case False
      let ?s = "N - ?k"
      have s: "?s \<le> length xs" "min (length xs) ?s = ?s" using False by simp_all
      let ?buf = "overwrite (sha_buffer d) ?k (take ?s xs)"
      have len: "length ?buf = N" using s d(3) k by simp
      have buf: "?buf = r @ take ?s xs"
        using take_overwrite_upto [of ?k "take ?s xs" "sha_buffer d"] d(3,5) s k len by simp
      let ?d = "d\<lparr>sha_buffer := ?buf, sha_state := compress st ?buf,
          sha_length := sha_length d + word_of_nat (N * 8), sha_current := 0\<rparr>"
      have "sha_digest initialize compress d xs = sha_rest compress N ?d (drop ?s xs)"
        using call s d(2,3,4) k by (simp add: mem_simps)
      moreover have "absorb compress N H0 (m @ xs) = absorb compress N (sha_state ?d) (drop ?s xs)"
        using app absorb_block [OF N_pos len, of compress st "drop ?s xs"] by (simp add: buf)
      moreover have "length (m @ xs) = N * (?q + 1) + length (drop ?s xs)" using lm s k by simp
      moreover have "sha_length ?d = word_of_nat (8 * N * (?q + 1))" using d(6) by (simp add: algebra_simps)
      ultimately show ?thesis
        using tail_holds [of ?d "m @ xs" "drop ?s xs" "?q + 1"] d(1) len by simp
    qed
  qed
qed

text \<open>The last block: zeros up to the length field, and the length.\<close>

definition last_block :: "byte list \<Rightarrow> nat \<Rightarrow> u64 \<Rightarrow> byte list option" where
  "last_block buf j l = Option.bind (if j < N - 8 then mem_store buf j (replicate (N - 8 - j) 0) else Some buf)
     (\<lambda>buf. mem_store buf (N - 8) (sha_store64 l))"

lemma final_block:
  assumes "length buf = N" "take j buf = p" "j \<le> N - 8" "length p = j"
  shows "last_block buf j l = Some (p @ replicate (N - 8 - j) 0 @ be_bytes 8 (unat l))"
proof -
  have st: "sha_store64 l = be_bytes 8 (unat l)" by (simp add: sha_store64_def bigendian64_store)
  have N8: "8 \<le> N" using sizes by simp
  let ?buf = "overwrite buf j (replicate (N - 8 - j) 0)"
  have len: "length ?buf = N" using assms(1,3) by simp
  have "(if j < N - 8 then mem_store buf j (replicate (N - 8 - j) 0) else Some buf) = Some ?buf"
    using assms(1,3) by (auto simp: mem_simps)
  moreover have "take (N - 8) ?buf = p @ replicate (N - 8 - j) 0"
  proof -
    have "j + length (replicate (N - 8 - j) 0) = N - 8" using assms(3) by simp
    then show ?thesis using take_overwrite_upto [of j "replicate (N - 8 - j) 0" buf] assms(1,2) by simp
  qed
  moreover have "overwrite ?buf (N - 8) (be_bytes 8 (unat l)) = take (N - 8) ?buf @ be_bytes 8 (unat l)"
    using len N8 by (simp add: overwrite_def)
  ultimately show ?thesis using len N8 by (simp add: last_block_def st mem_simps)
qed

lemma finalize_split:
  "sha_finalize compress (N - L) N (N - 8) d =
    do { buf \<leftarrow> mem_set (sha_buffer d) (sha_current d) 0x80;
         let l = sha_length d + word_of_nat (sha_current d * 8);
         (buf, st, j) \<leftarrow> (if sha_current d + 1 > N - L
            then do { buf \<leftarrow> mem_store buf (sha_current d + 1) (replicate (N - (sha_current d + 1)) 0);
                      Some (buf, compress (sha_state d) buf, 0) }
            else Some (buf, sha_state d, sha_current d + 1));
         buf \<leftarrow> last_block buf j l;
         Some (d\<lparr>sha_length := l, sha_current := j, sha_buffer := buf, sha_state := compress st buf, sha_init := True\<rparr>) }"
  by (simp add: sha_finalize_def last_block_def Let_def split: Option.bind_splits)

lemma finalize_result:
  assumes h: "sha_holds d m" and fit: "8 * length m < 2 ^ 64"
  shows "\<exists>d'. sha_finalize compress (N - L) N (N - 8) d = Some d' \<and>
    sha_state d' = fst (absorb compress N H0 (fips_pad N L m)) \<and> sha_ended d'"
proof -
  let ?k = "length m mod N" and ?q = "length m div N"
  obtain st r where a: "absorb compress N H0 m = (st, r)" by (cases "absorb compress N H0 m")
  have d: "sha_state d = st" "length (sha_buffer d) = N" "sha_current d = ?k" "take ?k (sha_buffer d) = r"
    "sha_length d = word_of_nat (8 * N * ?q)" using h a by (simp_all add: sha_holds_def)
  have r: "length r = ?k" using length_rest [OF N_pos, of compress H0 m] a by simp
  have k: "?k < N" using N_pos by simp
  let ?l = "word_of_nat (8 * length m) :: u64"
  have "8 * length m = 8 * N * ?q + ?k * 8" using mult_div_mod_eq [of N "length m"] by (metis add_mult_distrib2 mult.assoc mult.commute)
  then have l: "sha_length d + word_of_nat (sha_current d * 8) = ?l" unfolding d(3,5) by (metis of_nat_add)
  have ul: "unat ?l = 8 * length m" using fit by (simp only: unat_of_nat) simp
  let ?buf = "(sha_buffer d)[?k := 0x80]"
  have set: "mem_set (sha_buffer d) (sha_current d) 0x80 = Some ?buf" using d(2,3) k by (simp add: mem_simps)
  have buf: "length ?buf = N" "take (?k + 1) ?buf = r @ [0x80]"
    using d(2,4) k by (simp_all add: take_Suc_conv_app_nth)
  let ?be = "be_bytes 8 (8 * length m)"
  define z where "z = (2 * N - L - 1 - ?k) mod N"
  have pad: "absorb compress N H0 (fips_pad N L m) = absorb compress N st ((r @ [0x80]) @ replicate (z + (L - 8)) 0 @ ?be)"
    unfolding fips_pad_def absorb_append_eq [OF a] be_bytes_high [OF sizes(1) fit] z_def by (simp add: replicate_add)
  show ?thesis
  proof (cases "?k + 1 > N - L")
    case True
    let ?b1 = "(r @ [0x80]) @ replicate (N - (?k + 1)) 0" and ?b2 = "replicate (N - 8) 0 @ ?be"
    have ov: "overwrite ?buf (?k + 1) (replicate (N - (?k + 1)) 0) = ?b1"
      using buf k by (simp add: overwrite_def)
    have z: "z = 2 * N - L - 1 - ?k" unfolding z_def using True sizes k by (intro mod_less) simp
    have "z + (L - 8) = (N - (?k + 1)) + (N - 8)" using z True sizes k by linarith
    then have "absorb compress N H0 (fips_pad N L m) = absorb compress N st (?b1 @ ?b2)"
      unfolding pad by (simp add: replicate_add)
    also have "\<dots> = (compress (compress st ?b1) ?b2, [])"
    proof -
      have "?k + 1 + (N - (?k + 1)) = N" using k by linarith
      then have "length ?b1 = N" using r by simp
      moreover have "length ?b2 = N" using sizes by simp
      ultimately have "length ?b1 = N" "length ?b2 = N" .
      then show ?thesis by (simp only: absorb_block [OF N_pos] absorb_one [OF N_pos])
    qed
    finally have "fst (absorb compress N H0 (fips_pad N L m)) = compress (compress st ?b1) ?b2" by simp
    moreover have "last_block ?b1 0 ?l = Some ?b2"
      using final_block [of ?b1 0 "[]" ?l] r k ul by simp
    moreover have "mem_store ?buf (?k + 1) (replicate (N - (?k + 1)) 0) = Some ?b1"
      using ov buf(1) k by (simp add: mem_simps)
    ultimately show ?thesis
      unfolding finalize_split l set using True d(1,3) sizes by (simp add: sha_ended_def Let_def)
  next
    case False
    let ?b = "(r @ [0x80]) @ replicate (N - 8 - (?k + 1)) 0 @ ?be"
    have "2 * N - L - 1 - ?k = (N - L - 1 - ?k) + N" using False sizes by simp
    then have "z = (N - L - 1 - ?k) mod N" unfolding z_def by simp
    also have "\<dots> = N - L - 1 - ?k" using sizes by (intro mod_less) simp
    finally have "z + (L - 8) = N - 8 - (?k + 1)" using False sizes by simp
    then have "absorb compress N H0 (fips_pad N L m) = absorb compress N st ?b" unfolding pad by simp
    also have "\<dots> = (compress st ?b, [])" using False sizes r by (intro absorb_one [OF N_pos]) simp
    finally have "fst (absorb compress N H0 (fips_pad N L m)) = compress st ?b" by simp
    moreover have "last_block ?buf (?k + 1) ?l = Some ?b"
      using final_block [OF buf, of ?l] False sizes r ul by simp
    ultimately show ?thesis
      unfolding finalize_split l set using False d(1,3) sizes r k by (simp add: sha_ended_def Let_def)
  qed
qed

lemma digest_restart:
  "sha_ended d \<Longrightarrow> \<exists>d'. sha_digest initialize compress d xs = Some d' \<and> sha_holds d' xs"
proof -
  assume e: "sha_ended d"
  then have "sha_digest initialize compress d xs = sha_digest initialize compress (initialize d) xs"
    by (simp add: sha_digest_def sha_ended_def init_fields)
  then show ?thesis using digest_holds [OF initialize_holds, of d xs] e by (simp add: sha_ended_def)
qed

text \<open>An object of this kind keeps the contract of a digest object.\<close>

lemma streams:
  assumes "length (sha_buffer raw) = N"
  shows "streaming_digest (initialize raw) (sha_digest initialize compress) (sha_finalize compress (N - L) N (N - 8))
    sha_state sha_holds sha_ended (\<lambda>m. 8 * length m < 2 ^ 64) (\<lambda>m. fst (absorb compress N H0 (fips_pad N L m)))"
  by unfold_locales (use initialize_holds [OF assms] digest_holds finalize_result digest_restart in blast)+

end

end
