(* ===== verification/Sha_Correct.thy ===== *)
theory Sha_Correct
  imports Sha_Stream
begin

text \<open>
  The compression functions of \<open>sha.c\<close> are those of FIPS 180-4, and the digests of a message are
  its SHA-256 and SHA-512 hashes.
\<close>

section \<open>FIPS 180-4\<close>

definition Ch :: "'a::len word \<Rightarrow> 'a word \<Rightarrow> 'a word \<Rightarrow> 'a word" where
  "Ch x y z = (x AND y) XOR (NOT x AND z)"

definition Maj :: "'a::len word \<Rightarrow> 'a word \<Rightarrow> 'a word \<Rightarrow> 'a word" where
  "Maj x y z = (x AND y) XOR (x AND z) XOR (y AND z)"

definition big_sigma :: "nat \<Rightarrow> nat \<Rightarrow> nat \<Rightarrow> 'a::len word \<Rightarrow> 'a word" where
  "big_sigma i j k x = word_rotr i x XOR word_rotr j x XOR word_rotr k x"

definition small_sigma :: "nat \<Rightarrow> nat \<Rightarrow> nat \<Rightarrow> 'a::len word \<Rightarrow> 'a word" where
  "small_sigma i j k x = word_rotr i x XOR word_rotr j x XOR drop_bit k x"

text \<open>The message schedule.\<close>

fun fips_W :: "('w \<Rightarrow> 'w) \<Rightarrow> ('w \<Rightarrow> 'w) \<Rightarrow> 'w list \<Rightarrow> nat \<Rightarrow> ('w :: plus)" where
  "fips_W s0 s1 M t = (if t < 16 then M ! t
     else s1 (fips_W s0 s1 M (t - 2)) + fips_W s0 s1 M (t - 7) + s0 (fips_W s0 s1 M (t - 15)) + fips_W s0 s1 M (t - 16))"

declare fips_W.simps [simp del]

text \<open>One round on the eight working variables, and the compression of a block.\<close>

fun fips_round :: "('a::len word \<Rightarrow> 'a word) \<Rightarrow> ('a word \<Rightarrow> 'a word) \<Rightarrow> 'a word list \<Rightarrow> (nat \<Rightarrow> 'a word) \<Rightarrow> nat \<Rightarrow>
    'a word list \<Rightarrow> 'a word list" where
  "fips_round S0 S1 K W t [a, b, c, d, e, f, g, h] =
     (let T1 = h + S1 e + Ch e f g + K ! t + W t;
          T2 = S0 a + Maj a b c
      in [T1 + T2, a, b, c, d + T1, e, f, g])"
| "fips_round S0 S1 K W t vs = vs"

definition fips256_compress :: "u32 list \<Rightarrow> byte list \<Rightarrow> u32 list" where
  "fips256_compress H block =
     (let M = map (\<lambda>i. word_of_nat (be_value (take 4 (drop (4 * i) block)))) [0..<16];
          W = fips_W (small_sigma 7 18 3) (small_sigma 17 19 10) M;
          vs = fold (fips_round (big_sigma 2 13 22) (big_sigma 6 11 25) K256 W) [0..<64] H
      in map2 (+) H vs)"

definition fips512_compress :: "u64 list \<Rightarrow> byte list \<Rightarrow> u64 list" where
  "fips512_compress H block =
     (let M = map (\<lambda>i. word_of_nat (be_value (take 8 (drop (8 * i) block)))) [0..<16];
          W = fips_W (small_sigma 1 8 7) (small_sigma 19 61 6) M;
          vs = fold (fips_round (big_sigma 28 34 39) (big_sigma 14 18 41) K512 W) [0..<80] H
      in map2 (+) H vs)"

definition H256 :: "u32 list" where
  "H256 = [0x6A09E667, 0xBB67AE85, 0x3C6EF372, 0xA54FF53A, 0x510E527F, 0x9B05688C, 0x1F83D9AB, 0x5BE0CD19]"

definition H512 :: "u64 list" where
  "H512 = [0x6a09e667f3bcc908, 0xbb67ae8584caa73b, 0x3c6ef372fe94f82b, 0xa54ff53a5f1d36f1,
     0x510e527fade682d1, 0x9b05688c2b3e6c1f, 0x1f83d9abfb41bd6b, 0x5be0cd19137e2179]"

definition fips_sha256 :: "byte list \<Rightarrow> u32 list" where
  "fips_sha256 m = fst (absorb fips256_compress 64 H256 (fips_pad 64 8 m))"

definition fips_sha512 :: "byte list \<Rightarrow> u64 list" where
  "fips_sha512 m = fst (absorb fips512_compress 128 H512 (fips_pad 128 16 m))"

section \<open>Rounds\<close>

lemma list8: "length s = 8 \<Longrightarrow> \<exists>a b c d e f g h. s = [a, b, c, d, e, f, g, h]"
  by (auto simp: numeral_eq_Suc length_Suc_conv)

text \<open>The effect of a call of \<open>step\<close> on variables that move instead of changing roles.\<close>

definition shifted :: "(nat \<Rightarrow> 'w \<Rightarrow> 'w \<Rightarrow> 'w \<Rightarrow> 'w \<Rightarrow> 'w \<Rightarrow> 'w \<Rightarrow> 'w \<Rightarrow> 'w \<Rightarrow> 'w \<times> 'w) \<Rightarrow> nat \<Rightarrow> 'w list \<Rightarrow> 'w list" where
  "shifted step i vs =
     (let (d', h') = step i (vs ! 0) (vs ! 1) (vs ! 2) (vs ! 3) (vs ! 4) (vs ! 5) (vs ! 6) (vs ! 7)
      in [h', vs ! 0, vs ! 1, vs ! 2, d', vs ! 4, vs ! 5, vs ! 6])"

lemma length_sha_call [simp]: "length (sha_call step a b c d e f g h i s) = length s"
  by (simp add: sha_call_def split: prod.split)

lemma rotate_list8:
  "rotate 8 [a, b, c, d, e, f, g, h] = [a, b, c, d, e, f, g, h]" "rotate 7 [a, b, c, d, e, f, g, h] = [h, a, b, c, d, e, f, g]"
  "rotate 6 [a, b, c, d, e, f, g, h] = [g, h, a, b, c, d, e, f]" "rotate 5 [a, b, c, d, e, f, g, h] = [f, g, h, a, b, c, d, e]"
  "rotate 4 [a, b, c, d, e, f, g, h] = [e, f, g, h, a, b, c, d]" "rotate 3 [a, b, c, d, e, f, g, h] = [d, e, f, g, h, a, b, c]"
  "rotate 2 [a, b, c, d, e, f, g, h] = [c, d, e, f, g, h, a, b]" "rotate (Suc 0) [a, b, c, d, e, f, g, h] = [b, c, d, e, f, g, h, a]"
  by (simp_all add: rotate_drop_take)

lemma sha_calls:
  fixes step :: "nat \<Rightarrow> 'w \<Rightarrow> 'w \<Rightarrow> 'w \<Rightarrow> 'w \<Rightarrow> 'w \<Rightarrow> 'w \<Rightarrow> 'w \<Rightarrow> 'w \<Rightarrow> 'w \<times> 'w"
  assumes "length s = 8"
  shows "rotate 7 (sha_call step 0 1 2 3 4 5 6 7 i s) = shifted step i (rotate 8 s)"
    and "rotate 6 (sha_call step 7 0 1 2 3 4 5 6 i s) = shifted step i (rotate 7 s)"
    and "rotate 5 (sha_call step 6 7 0 1 2 3 4 5 i s) = shifted step i (rotate 6 s)"
    and "rotate 4 (sha_call step 5 6 7 0 1 2 3 4 i s) = shifted step i (rotate 5 s)"
    and "rotate 3 (sha_call step 4 5 6 7 0 1 2 3 i s) = shifted step i (rotate 4 s)"
    and "rotate 2 (sha_call step 3 4 5 6 7 0 1 2 i s) = shifted step i (rotate 3 s)"
    and "rotate 1 (sha_call step 2 3 4 5 6 7 0 1 i s) = shifted step i (rotate 2 s)"
    and "sha_call step 1 2 3 4 5 6 7 0 i s = shifted step i (rotate 1 s)"
proof -
  obtain a b c d e f g h where s: "s = [a, b, c, d, e, f, g, h]" using list8 [OF assms] by blast
  note eval = s sha_call_def shifted_def rotate_list8
  show "rotate 7 (sha_call step 0 1 2 3 4 5 6 7 i s) = shifted step i (rotate 8 s)" by (simp add: eval split: prod.split)
  show "rotate 6 (sha_call step 7 0 1 2 3 4 5 6 i s) = shifted step i (rotate 7 s)" by (simp add: eval split: prod.split)
  show "rotate 5 (sha_call step 6 7 0 1 2 3 4 5 i s) = shifted step i (rotate 6 s)" by (simp add: eval split: prod.split)
  show "rotate 4 (sha_call step 5 6 7 0 1 2 3 4 i s) = shifted step i (rotate 5 s)" by (simp add: eval split: prod.split)
  show "rotate 3 (sha_call step 4 5 6 7 0 1 2 3 i s) = shifted step i (rotate 4 s)" by (simp add: eval split: prod.split)
  show "rotate 2 (sha_call step 3 4 5 6 7 0 1 2 i s) = shifted step i (rotate 3 s)" by (simp add: eval split: prod.split)
  show "rotate 1 (sha_call step 2 3 4 5 6 7 0 1 i s) = shifted step i (rotate 2 s)" by (simp add: eval split: prod.split)
  show "sha_call step 1 2 3 4 5 6 7 0 i s = shifted step i (rotate 1 s)" by (simp add: eval split: prod.split)
qed

lemma length_shifted [simp]: "length (shifted step i vs) = 8"
  by (simp add: shifted_def split: prod.split)

lemma sha_rounds_shifted:
  assumes "length s = 8" shows "sha_rounds step i s = fold (shifted step) [i..<i + 8] s"
proof -
  have upt: "[i..<i + 8] = [i, i + 1, i + 2, i + 3, i + 4, i + 5, i + 6, i + 7]" by (simp add: upt_rec)
  have s8: "rotate 8 s = s" by (rule rotate_id) (simp add: assms)
  show ?thesis
    unfolding upt sha_rounds_def Let_def
    by (simp only: fold.simps comp_apply id_apply sha_calls length_sha_call assms s8)
qed

lemma sha_loop_shifted:
  "length s = 8 \<Longrightarrow> sha_loop step (8 * n) (8 * k) s = fold (shifted step) [8 * k..<8 * n] s"
proof (induction "n - k" arbitrary: k s)
  case 0
  then show ?case by (subst sha_loop.simps) simp
next
  case (Suc m)
  then have k: "8 * k < 8 * n" and k8: "8 * k + 8 \<le> 8 * n" by simp_all
  have upt: "[8 * k..<8 * n] = [8 * k..<8 * k + 8] @ [8 * k + 8..<8 * n]"
    using k8 upt_add_eq_append [of "8 * k" "8 * k + 8" "8 * n - (8 * k + 8)"] by simp
  have "sha_loop step (8 * n) (8 * k) s = sha_loop step (8 * n) (8 * Suc k) (fold (shifted step) [8 * k..<8 * k + 8] s)"
    using k by (subst sha_loop.simps) (simp add: sha_rounds_shifted [OF Suc.prems] add.commute)
  also have "\<dots> = fold (shifted step) [8 * Suc k..<8 * n] (fold (shifted step) [8 * k..<8 * k + 8] s)"
  proof (rule Suc.hyps(1))
    show "m = n - Suc k" using Suc.hyps(2) by simp
    show "length (fold (shifted step) [8 * k..<8 * k + 8] s) = 8" by (simp add: upt_rec)
  qed
  finally show ?case unfolding upt fold_append comp_apply by (simp add: add.commute)
qed

section \<open>Message schedule\<close>

lemma sha_extend_W:
  assumes "length M = 16" "16 \<le> n"
  shows "sha_extend g0 g1 n M = map (fips_W g0 g1 M) [0..<n]"
  using assms(2)
proof (induction n rule: dec_induct)
  case base
  have "map (fips_W g0 g1 M) [0..<16] = map ((!) M) [0..<length M]"
    using assms(1) by (intro map_cong) (simp_all add: fips_W.simps)
  then show ?case by (simp add: sha_extend_def map_nth)
next
  case (step n)
  let ?W = "map (fips_W g0 g1 M) [0..<n]"
  have "sha_extend g0 g1 (Suc n) M = ?W @ [g1 (?W ! (n - 2)) + ?W ! (n - 7) + g0 (?W ! (n - 15)) + ?W ! (n - 16)]"
    using step by (simp add: sha_extend_def)
  moreover have "fips_W g0 g1 M n = g1 (?W ! (n - 2)) + ?W ! (n - 7) + g0 (?W ! (n - 15)) + ?W ! (n - 16)"
    using step(1) by (subst fips_W.simps) simp
  ultimately show ?case by simp
qed

section \<open>Round functions\<close>

lemma rotate_right:
  fixes w :: "'a::len word"
  assumes "0 < s" "s < LENGTH('a)"
  shows "drop_bit s w OR push_bit (LENGTH('a) - s) w = word_rotr s w"
proof (rule bit_eqI)
  fix n assume "possible_bit TYPE('a word) n"
  then have n: "n < LENGTH('a)" by simp
  show "bit (drop_bit s w OR push_bit (LENGTH('a) - s) w) n = bit (word_rotr s w) n"
  proof (cases "n < LENGTH('a) - s")
    case True
    then have "(n + s) mod LENGTH('a) = s + n" by simp
    then show ?thesis using True n assms by (simp add: bit_simps bit_word_rotr_iff add.commute)
  next
    case False
    then have "(n + s) mod LENGTH('a) = n - (LENGTH('a) - s)" using assms n by (simp add: le_mod_geq)
    moreover have "\<not> bit w (s + n)" using False assms bit_imp_le_length [of w "s + n"] by auto
    ultimately show ?thesis using False n assms by (simp add: bit_simps bit_word_rotr_iff add.commute)
  qed
qed

lemma choose_majority:
  "choise32 = Ch" "majority32 = Maj" "choise64 = Ch" "majority64 = Maj"
  by (auto simp: fun_eq_iff choise32_def majority32_def choise64_def majority64_def Ch_def Maj_def bit_simps intro!: bit_eqI)

lemma rotate32_eq: "unat (n AND 31) = s \<Longrightarrow> 0 < s \<Longrightarrow> s < 32 \<Longrightarrow> rotate32 x n = word_rotr s x"
  using rotate_right [of s x] by (simp add: rotate32_def)

lemma rotate64_eq: "unat (n AND 63) = s \<Longrightarrow> 0 < s \<Longrightarrow> s < 64 \<Longrightarrow> rotate64 x n = word_rotr s x"
  using rotate_right [of s x] by (simp add: rotate64_def)

lemma sigmas32:
  "sigma0_32 = big_sigma 2 13 22" "sigma1_32 = big_sigma 6 11 25" "gamma0_32 = small_sigma 7 18 3" "gamma1_32 = small_sigma 17 19 10"
  by (simp_all add: fun_eq_iff sigma0_32_def sigma1_32_def gamma0_32_def gamma1_32_def big_sigma_def small_sigma_def
      shift32_def rotate32_eq)

lemma sigmas64:
  "sigma0_64 = big_sigma 28 34 39" "sigma1_64 = big_sigma 14 18 41" "gamma0_64 = small_sigma 1 8 7" "gamma1_64 = small_sigma 19 61 6"
  by (simp_all add: fun_eq_iff sigma0_64_def sigma1_64_def gamma0_64_def gamma1_64_def big_sigma_def small_sigma_def
      shift64_def rotate64_eq)

lemma fold_cong_length:
  "(\<And>i vs. i \<in> set is \<Longrightarrow> length vs = n \<Longrightarrow> f i vs = g i vs \<and> length (f i vs) = n) \<Longrightarrow> length vs = n \<Longrightarrow>
    fold f is vs = fold g is vs \<and> length (fold g is vs) = n"
proof (induction "is" arbitrary: vs)
  case (Cons i "is")
  have step: "f i vs = g i vs" "length (g i vs) = n" using Cons.prems(1) [of i vs] Cons.prems(2) by auto
  have "fold f is (g i vs) = fold g is (g i vs) \<and> length (fold g is (g i vs)) = n"
    by (rule Cons.IH [OF _ step(2)]) (rule Cons.prems(1); simp)
  then show ?case by (simp add: step)
qed simp

lemma rounds32:
  assumes "length H = 8" "\<And>i. i < 64 \<Longrightarrow> wbox ! i = W i"
  shows "sha_loop (\<lambda>i a b c d e f g h. compress32 wbox a b c d e f g h i) 64 0 H =
    fold (fips_round (big_sigma 2 13 22) (big_sigma 6 11 25) K256 W) [0..<64] H"
    and "length (sha_loop (\<lambda>i a b c d e f g h. compress32 wbox a b c d e f g h i) 64 0 H) = 8"
proof -
  let ?c = "\<lambda>i a b c d e f g h. compress32 wbox a b c d e f g h i"
  have "shifted ?c i vs = fips_round (big_sigma 2 13 22) (big_sigma 6 11 25) K256 W i vs" if "i < 64" "length vs = 8" for i vs
  proof -
    obtain a b c d e f g h where "vs = [a, b, c, d, e, f, g, h]" using list8 [OF \<open>length vs = 8\<close>] by blast
    then show ?thesis using assms(2) [OF \<open>i < 64\<close>]
      by (simp add: shifted_def compress32_def Let_def choose_majority sigmas32)
  qed
  then have "fold (shifted ?c) [0..<64] H = fold (fips_round (big_sigma 2 13 22) (big_sigma 6 11 25) K256 W) [0..<64] H \<and>
      length (fold (fips_round (big_sigma 2 13 22) (big_sigma 6 11 25) K256 W) [0..<64] H) = 8"
    by (intro fold_cong_length assms(1) conjI length_shifted) (simp del: upt_rec_numeral)
  then show "sha_loop ?c 64 0 H = fold (fips_round (big_sigma 2 13 22) (big_sigma 6 11 25) K256 W) [0..<64] H"
    "length (sha_loop ?c 64 0 H) = 8"
    using sha_loop_shifted [OF assms(1), of ?c 8 0] by (simp_all del: upt_rec_numeral)
qed

lemma rounds64:
  assumes "length H = 8" "\<And>i. i < 80 \<Longrightarrow> wbox ! i = W i"
  shows "sha_loop (\<lambda>i a b c d e f g h. compress64 wbox a b c d e f g h i) 80 0 H =
    fold (fips_round (big_sigma 28 34 39) (big_sigma 14 18 41) K512 W) [0..<80] H"
    and "length (sha_loop (\<lambda>i a b c d e f g h. compress64 wbox a b c d e f g h i) 80 0 H) = 8"
proof -
  let ?c = "\<lambda>i a b c d e f g h. compress64 wbox a b c d e f g h i"
  have "shifted ?c i vs = fips_round (big_sigma 28 34 39) (big_sigma 14 18 41) K512 W i vs" if "i < 80" "length vs = 8" for i vs
  proof -
    obtain a b c d e f g h where "vs = [a, b, c, d, e, f, g, h]" using list8 [OF \<open>length vs = 8\<close>] by blast
    then show ?thesis using assms(2) [OF \<open>i < 80\<close>]
      by (simp add: shifted_def compress64_def Let_def choose_majority sigmas64)
  qed
  then have "fold (shifted ?c) [0..<80] H = fold (fips_round (big_sigma 28 34 39) (big_sigma 14 18 41) K512 W) [0..<80] H \<and>
      length (fold (fips_round (big_sigma 28 34 39) (big_sigma 14 18 41) K512 W) [0..<80] H) = 8"
    by (intro fold_cong_length assms(1) conjI length_shifted) (simp del: upt_rec_numeral)
  then show "sha_loop ?c 80 0 H = fold (fips_round (big_sigma 28 34 39) (big_sigma 14 18 41) K512 W) [0..<80] H"
    "length (sha_loop ?c 80 0 H) = 8"
    using sha_loop_shifted [OF assms(1), of ?c 10 0] by (simp_all del: upt_rec_numeral)
qed

lemma map_nth_map2: "length H = n \<Longrightarrow> length vs = n \<Longrightarrow> map (\<lambda>i. H ! i + vs ! i) [0..<n] = map2 (+) H vs"
  by (rule nth_equalityI) simp_all

lemma compress256:
  assumes "length H = 8" "length block = 64"
  shows "sha256_compress H block = fips256_compress H block" "length (sha256_compress H block) = 8"
proof -
  let ?M = "map (\<lambda>i. word_of_nat (be_value (take 4 (drop (4 * i) block)))) [0..<16] :: u32 list"
  have M: "map (\<lambda>i. sha_load32 (drop (4 * i) block)) [0..<16] = ?M"
    using assms(2) by (intro map_cong) (simp_all add: sha_load32_def bigendian32_load)
  let ?W = "fips_W (small_sigma 7 18 3) (small_sigma 17 19 10) ?M"
  have W: "sha_extend gamma0_32 gamma1_32 64 ?M = map ?W [0..<64]"
    unfolding sigmas32 by (rule sha_extend_W) (simp_all del: upt_rec_numeral)
  have "map ?W [0..<64] ! i = ?W i" if "i < 64" for i using that by (simp del: upt_rec_numeral)
  note r = rounds32 [OF assms(1) this]
  show "sha256_compress H block = fips256_compress H block"
    unfolding sha256_compress_def fips256_compress_def Let_def M W
    using r map_nth_map2 [OF assms(1)] by (simp only:)
  show "length (sha256_compress H block) = 8" by (simp add: sha256_compress_def Let_def)
qed

lemma compress512:
  assumes "length H = 8" "length block = 128"
  shows "sha512_compress H block = fips512_compress H block" "length (sha512_compress H block) = 8"
proof -
  let ?M = "map (\<lambda>i. word_of_nat (be_value (take 8 (drop (8 * i) block)))) [0..<16] :: u64 list"
  have M: "map (\<lambda>i. sha_load64 (drop (8 * i) block)) [0..<16] = ?M"
    using assms(2) by (intro map_cong) (simp_all add: sha_load64_def bigendian64_load)
  let ?W = "fips_W (small_sigma 1 8 7) (small_sigma 19 61 6) ?M"
  have W: "sha_extend gamma0_64 gamma1_64 80 ?M = map ?W [0..<80]"
    unfolding sigmas64 by (rule sha_extend_W) (simp_all del: upt_rec_numeral)
  have "map ?W [0..<80] ! i = ?W i" if "i < 80" for i using that by (simp del: upt_rec_numeral)
  note r = rounds64 [OF assms(1) this]
  show "sha512_compress H block = fips512_compress H block"
    unfolding sha512_compress_def fips512_compress_def Let_def M W
    using r map_nth_map2 [OF assms(1)] by (simp only:)
  show "length (sha512_compress H block) = 8" by (simp add: sha512_compress_def Let_def)
qed

section \<open>The digests\<close>

interpretation sha256_obj: sha_object sha256_initialize sha256_compress 64 8 H256
  by unfold_locales (simp_all add: sha256_initialize_def H256_def)

interpretation sha512_obj: sha_object sha512_initialize sha512_compress 128 16 H512
  by unfold_locales (simp_all add: sha512_initialize_def H512_def)

lemma absorb256: "absorb sha256_compress 64 H256 m = absorb fips256_compress 64 H256 m"
  by (rule absorb_cong [where P = "\<lambda>st. length st = 8"]) (use compress256 in \<open>auto simp: H256_def\<close>)

lemma absorb512: "absorb sha512_compress 128 H512 m = absorb fips512_compress 128 H512 m"
  by (rule absorb_cong [where P = "\<lambda>st. length st = 8"]) (use compress512 in \<open>auto simp: H512_def\<close>)

lemma sha256_stream:
  "length (sha_buffer raw) = 64 \<Longrightarrow> streaming_digest (sha256_initialize raw) sha256_digest sha256_digest_finalize
    sha_state sha256_obj.sha_holds sha256_obj.sha_ended (\<lambda>m. 8 * length m < 2 ^ 64) fips_sha256"
  using sha256_obj.streams [of raw]
  by (simp add: sha256_digest_def sha256_digest_finalize_def absorb256 fips_sha256_def [abs_def])

lemma sha512_stream:
  "length (sha_buffer raw) = 128 \<Longrightarrow> streaming_digest (sha512_initialize raw) sha512_digest sha512_digest_finalize
    sha_state sha512_obj.sha_holds sha512_obj.sha_ended (\<lambda>m. 8 * length m < 2 ^ 64) fips_sha512"
  using sha512_obj.streams [of raw]
  by (simp add: sha512_digest_def sha512_digest_finalize_def absorb512 fips_sha512_def [abs_def])

lemma pair_cat: "push_bit 32 (ucast (a :: u32)) OR ucast (b :: u32) = (word_cat a b :: u64)"
proof (rule bit_eqI)
  fix n assume "possible_bit TYPE(u64) n"
  then have n: "n < 64" by simp
  have "\<not> bit b n" if "\<not> n < 32" using that bit_imp_le_length [of b n] by auto
  then show "bit (push_bit 32 (ucast a) OR ucast b :: u64) n = bit (word_cat a b :: u64) n"
    using n by (auto simp: bit_simps bit_word_cat_iff)
qed

text \<open>
  C14. The digest of a message of fewer than \<open>2 ^ 64\<close> bits is its SHA-256 hash as FIPS 180-4 defines
  it: feeding a digest object any pieces and finalizing it returns, stays in the bounds of its
  buffer, and leaves the hash of the concatenated pieces in the state; the four 64-bit words
  read from it are the eight words of the hash in order.
\<close>

theorem sha256_correct:
  assumes "length (sha_buffer raw) = 64" "8 * length (concat pieces) < 2 ^ 64"
  shows "\<exists>d. Option.bind (feed_all sha256_digest (sha256_allocate raw) pieces) sha256_digest_finalize = Some d \<and>
    sha_state d = fips_sha256 (concat pieces) \<and>
    (let h = fips_sha256 (concat pieces) in sha256_get_digest_raw d =
      [word_cat (h ! 0) (h ! 1), word_cat (h ! 2) (h ! 3), word_cat (h ! 4) (h ! 5), word_cat (h ! 6) (h ! 7)])"
proof -
  note st = sha256_stream [OF assms(1)]
  from streaming_digest.chunks [OF st streaming_digest.start_holds [OF st], of pieces] obtain d where
    "Option.bind (feed_all sha256_digest (sha256_allocate raw) pieces) sha256_digest_finalize = Some d"
    "sha_state d = fips_sha256 (concat pieces)"
    using assms(2) unfolding sha256_allocate_def by blast
  then show ?thesis by (simp add: sha256_get_digest_raw_def Let_def pair_cat)
qed

text \<open>
  The digest of a message of fewer than \<open>2 ^ 64\<close> bits is its SHA-512 hash as FIPS 180-4 defines
  it, although the code keeps the length in 64 bits instead of 128.
\<close>

theorem sha512_correct:
  assumes "length (sha_buffer raw) = 128" "8 * length (concat pieces) < 2 ^ 64"
  shows "\<exists>d. Option.bind (feed_all sha512_digest (sha512_allocate raw) pieces) sha512_digest_finalize = Some d \<and>
    sha_state d = fips_sha512 (concat pieces) \<and> sha512_get_digest_raw d = fips_sha512 (concat pieces)"
proof -
  note st = sha512_stream [OF assms(1)]
  from streaming_digest.chunks [OF st streaming_digest.start_holds [OF st], of pieces] obtain d where
    d: "Option.bind (feed_all sha512_digest (sha512_allocate raw) pieces) sha512_digest_finalize = Some d"
    "sha_state d = fips_sha512 (concat pieces)"
    using assms(2) unfolding sha512_allocate_def by blast
  have "length (fst (absorb fips512_compress 128 H512 xs)) = 8" for xs
    unfolding absorb512 [symmetric] by (rule absorb_state) (simp_all add: H512_def sha512_compress_def Let_def)
  then have "length (sha_state d) = 8" unfolding d(2) fips_sha512_def .
  then have "sha512_get_digest_raw d = sha_state d" unfolding sha512_get_digest_raw_def by (metis map_nth)
  then show ?thesis using d by simp
qed

definition example_sha :: "nat \<Rightarrow> ('a::len) word sha_t" where
  "example_sha n = \<lparr>sha_init = False, sha_current = 0, sha_length = 0, sha_state = [], sha_buffer = replicate n 0\<rparr>"

theorem sha256_correct_witness:
  "\<exists>d. Option.bind (feed_all sha256_digest (sha256_allocate (example_sha 64)) [[97], [], [98, 99]]) sha256_digest_finalize = Some d \<and>
     sha_state d = fips_sha256 [97, 98, 99]"
  using sha256_correct [of "example_sha 64" "[[97], [], [98, 99]]"] by (auto simp: example_sha_def)

theorem sha512_correct_witness:
  "\<exists>d. Option.bind (feed_all sha512_digest (sha512_allocate (example_sha 128)) [[97], [], [98, 99]]) sha512_digest_finalize = Some d \<and>
     sha_state d = fips_sha512 [97, 98, 99]"
  using sha512_correct [of "example_sha 128" "[[97], [], [98, 99]]"] by (auto simp: example_sha_def)

end
