(* ===== verification/Hash.thy ===== *)
theory Hash
  imports Block_Hash
begin

text \<open>
  \<open>foundation/hash.c\<close>: the 64-bit string hash, MurmurHash3 with the multipliers changing from
  block to block. The model follows the block loop and the fall-through switch over the bytes
  behind the last full block; the reference pads these bytes with zeros to one more block.
\<close>

section \<open>The code\<close>

definition rotl64 :: "u64 \<Rightarrow> nat \<Rightarrow> u64" where
  "rotl64 a bits = push_bit bits a OR drop_bit (64 - bits) a"

definition HASH_SEED :: u64 where "HASH_SEED = 0xbaadf00d"

record hash_state =
  h1 :: u64
  h2 :: u64
  c1 :: u64
  c2 :: u64

definition getblock :: "byte list \<Rightarrow> nat \<Rightarrow> u64 option" where
  "getblock p i = map_option host_load64 (mem_load p (8 * i) 8)"

definition bmix64 :: "hash_state \<Rightarrow> u64 \<Rightarrow> u64 \<Rightarrow> hash_state" where
  "bmix64 s k1 k2 =
     (let k1 = k1 * c1 s; k1 = rotl64 k1 23; k1 = k1 * c2 s;
          h1' = h1 s XOR k1; h1' = h1' + h2 s;
          h2' = rotl64 (h2 s) 41;
          k2 = k2 * c2 s; k2 = rotl64 k2 23; k2 = k2 * c1 s;
          h2' = h2' XOR k2; h2' = h2' + h1'
      in \<lparr>h1 = h1' * 3 + 0x52dce729, h2 = h2' * 3 + 0x38495ab5, c1 = c1 s * 5 + 0x7b7d159c, c2 = c2 s * 5 + 0x6bce6396\<rparr>)"

definition fmix64 :: "u64 \<Rightarrow> u64" where
  "fmix64 k =
     (let k = k XOR drop_bit 33 k;
          k = k * 0xff51afd7ed558ccd;
          k = k XOR drop_bit 33 k;
          k = k * 0xc4ceb9fe1a85ec53
      in k XOR drop_bit 33 k)"

text \<open>\<open>for (i = 0; i < nblocks; ++i)\<close>, with \<open>n\<close> blocks left.\<close>

fun hash_body :: "byte list \<Rightarrow> nat \<Rightarrow> nat \<Rightarrow> hash_state \<Rightarrow> hash_state option" where
  "hash_body key i 0 s = Some s"
| "hash_body key i (Suc n) s =
     do { k1 \<leftarrow> getblock key (i * 2);
          k2 \<leftarrow> getblock key (i * 2 + 1);
          hash_body key (i + 1) n (bmix64 s k1 k2) }"

text \<open>
  The switch: \<open>case j + 1\<close> and all cases below it run when \<open>len & 15\<close> is greater than \<open>j\<close>. The bytes
  from 8 on go to \<open>k2\<close>, the others to \<open>k1\<close>.
\<close>

definition hash_tail :: "byte list \<Rightarrow> hash_state \<Rightarrow> hash_state" where
  "hash_tail tail s =
     (let n = length tail;
          k2 = fold (\<lambda>j k2. if j < n then k2 XOR push_bit (8 * (j - 8)) (ucast (tail ! j)) else k2) [14, 13, 12, 11, 10, 9, 8] 0;
          k1 = fold (\<lambda>j k1. if j < n then k1 XOR push_bit (8 * j) (ucast (tail ! j)) else k1) [7, 6, 5, 4, 3, 2, 1, 0] 0
      in if 0 < n then bmix64 s k1 k2 else s)"

definition hash :: "byte list \<Rightarrow> u64 option" where
  "hash key =
     (let len = length key;
          nblocks = len div 16;
          s = \<lparr>h1 = 0x9368e53c2f6af274 XOR HASH_SEED, h2 = 0x586dcd208f7cd3fd XOR HASH_SEED,
               c1 = 0x87c37b91114253d5, c2 = 0x4cf5ad432745937f\<rparr>
      in do {
        s \<leftarrow> hash_body key 0 nblocks s;
        tail \<leftarrow> mem_load key (nblocks * 16) (len mod 16);
        let s = hash_tail tail s;
        let h2' = h2 s XOR ucast (word_of_nat len :: u32);
        let h1' = h1 s + h2';
        let h2' = h2' + h1';
        let h1' = fmix64 h1';
        let h2' = fmix64 h2';
        Some (h1' + h2') })"

section \<open>The reference\<close>

definition mix_block :: "hash_state \<Rightarrow> byte list \<Rightarrow> hash_state" where
  "mix_block s b = bmix64 s (word_of_nat (le_value (take 8 b))) (word_of_nat (le_value (drop 8 b)))"

text \<open>Zeros up to the next multiple of 16.\<close>

definition zero_pad :: "byte list \<Rightarrow> byte list" where
  "zero_pad key = key @ replicate ((16 - length key mod 16) mod 16) 0"

definition murmur3 :: "byte list \<Rightarrow> u64" where
  "murmur3 key =
     (let s = fst (absorb mix_block 16 \<lparr>h1 = 0x9368e53c2f6af274 XOR HASH_SEED, h2 = 0x586dcd208f7cd3fd XOR HASH_SEED,
            c1 = 0x87c37b91114253d5, c2 = 0x4cf5ad432745937f\<rparr> (zero_pad key));
          b = h2 s XOR word_of_nat (length key mod 2 ^ 32);
          a = h1 s + b
      in fmix64 a + fmix64 (b + a))"

section \<open>Bytes of a partial block\<close>

lemma byte_cons_word: "word_of_nat (unat (b :: byte) + 256 * v) = (ucast b XOR push_bit 8 (word_of_nat v) :: u64)"
proof -
  have "\<not> bit (ucast b :: u64) n \<or> \<not> bit (push_bit 8 (word_of_nat v) :: u64) n" for n
    by (cases "n < 8") (auto simp: bit_simps byte_bit_high)
  then have "(ucast b + push_bit 8 (word_of_nat v) :: u64) = ucast b OR push_bit 8 (word_of_nat v)"
    by (rule disjunctive_add)
  moreover have "(ucast b OR push_bit 8 (word_of_nat v) :: u64) = ucast b XOR push_bit 8 (word_of_nat v)"
    by (rule bit_eqI) (auto simp: bit_simps byte_bit_high)
  moreover have "(word_of_nat (unat b + 256 * v) :: u64) = ucast b + push_bit 8 (word_of_nat v)"
    by (simp add: push_bit_eq_mult mult.commute)
  ultimately show ?thesis by simp
qed

lemma le_value_words:
  "(word_of_nat (le_value [b0, b1, b2, b3, b4, b5, b6, b7]) :: u64) =
    ucast b0 XOR push_bit 8 (ucast b1) XOR push_bit 16 (ucast b2) XOR push_bit 24 (ucast b3) XOR
    push_bit 32 (ucast b4) XOR push_bit 40 (ucast b5) XOR push_bit 48 (ucast b6) XOR push_bit 56 (ucast b7)"
  unfolding le_value.simps byte_cons_word by (simp add: push_bit_xor)

lemma list16:
  "length bs = 16 \<Longrightarrow> \<exists>b0 b1 b2 b3 b4 b5 b6 b7 d0 d1 d2 d3 d4 d5 d6 d7.
     bs = [b0, b1, b2, b3, b4, b5, b6, b7, d0, d1, d2, d3, d4, d5, d6, d7]"
  by (auto simp: numeral_eq_Suc length_Suc_conv)

lemma tail_block:
  assumes "0 < length tail" "length tail < 16"
  shows "hash_tail tail s = mix_block s (tail @ replicate (16 - length tail) 0)"
proof -
  define bs where "bs = tail @ replicate (16 - length tail) 0"
  have nth: "(if j < length tail then k XOR push_bit m (ucast (tail ! j)) else k) = k XOR push_bit m (ucast (bs ! j))"
    if "j < 16" for j k m
    using that by (auto simp: bs_def nth_append)
  have "length bs = 16" using assms(2) by (simp add: bs_def)
  then obtain b0 b1 b2 b3 b4 b5 b6 b7 d0 d1 d2 d3 d4 d5 d6 d7
    where bs: "bs = [b0, b1, b2, b3, b4, b5, b6, b7, d0, d1, d2, d3, d4, d5, d6, d7]"
    using list16 [of bs] by auto
  have d7: "d7 = 0"
  proof -
    have "bs ! 15 = 0" using assms by (simp add: bs_def nth_append)
    then show ?thesis by (simp add: bs)
  qed
  have b0: "tail ! 0 = b0"
  proof -
    have "bs ! 0 = tail ! 0" using assms by (simp add: bs_def nth_append)
    then show ?thesis by (simp add: bs)
  qed
  have "hash_tail tail s = bmix64 s (word_of_nat (le_value [b0, b1, b2, b3, b4, b5, b6, b7]))
      (word_of_nat (le_value [d0, d1, d2, d3, d4, d5, d6, d7]))"
    unfolding le_value_words using assms(1) d7
    by (simp add: hash_tail_def Let_def nth bs b0 ac_simps)
  then show ?thesis unfolding mix_block_def bs_def [symmetric] by (simp add: bs)
qed

section \<open>The hash\<close>

lemma body_absorb:
  "16 * (i + n) \<le> length key \<Longrightarrow>
    hash_body key i n s = Some (fst (absorb mix_block 16 s (take (16 * n) (drop (16 * i) key))))"
proof (induction n arbitrary: i s)
  case (Suc n)
  let ?b = "take 16 (drop (16 * i) key)"
  have len: "length ?b = 16" using Suc.prems by simp
  have k: "getblock key (i * 2) = Some (word_of_nat (le_value (take 8 ?b)))"
    "getblock key (i * 2 + 1) = Some (word_of_nat (le_value (drop 8 ?b)))"
    using Suc.prems by (simp_all add: getblock_def mem_simps host_load64_def drop_take algebra_simps)
  have split: "take (16 * Suc n) (drop (16 * i) key) = ?b @ take (16 * n) (drop (16 * (i + 1)) key)"
    by (simp add: take_add algebra_simps)
  show ?case
    unfolding split using Suc k by (simp add: absorb_block [OF _ len] mix_block_def)
qed (simp add: absorb_short)

text \<open>
  C16. The string hash reads only the bytes of its key and returns for every length, and its
  value is MurmurHash3 of the key padded with zeros to full blocks: the fall-through switch over
  the last bytes is one more block.
\<close>

theorem hash_murmur3: "hash key = Some (murmur3 key)"
proof -
  let ?s0 = "\<lparr>h1 = 0x9368e53c2f6af274 XOR HASH_SEED, h2 = 0x586dcd208f7cd3fd XOR HASH_SEED,
    c1 = 0x87c37b91114253d5, c2 = 0x4cf5ad432745937f\<rparr>"
  let ?n = "length key div 16" and ?r = "length key mod 16"
  have len: "?n * 16 + ?r = length key" by simp
  define full where "full = take (16 * ?n) key"
  define tail where "tail = drop (16 * ?n) key"
  define s where "s = fst (absorb mix_block 16 ?s0 full)"
  have body: "hash_body key 0 ?n ?s0 = Some s"
    unfolding s_def full_def by (subst body_absorb) simp_all
  have load: "mem_load key (?n * 16) ?r = Some tail" "length tail = ?r"
    using len by (simp_all add: mem_load_def tail_def mult.commute minus_mult_div_eq_mod [symmetric])
  have rest: "snd (absorb mix_block 16 ?s0 full) = []"
  proof -
    have "length full = 16 * ?n" using len unfolding full_def length_take by linarith
    then show ?thesis using length_rest [of 16 mix_block ?s0 full] by simp
  qed
  have pad: "zero_pad key = full @ tail @ replicate ((16 - ?r) mod 16) 0"
    by (simp add: zero_pad_def full_def tail_def)
  have "fst (absorb mix_block 16 ?s0 (zero_pad key)) = hash_tail tail s"
  proof (cases "?r = 0")
    case True
    then have "tail = []" using load(2) by simp
    then show ?thesis using True pad by (simp add: s_def hash_tail_def)
  next
    case False
    then have "(16 - ?r) mod 16 = 16 - length tail" using load(2) by simp
    then have "absorb mix_block 16 ?s0 (zero_pad key) = absorb mix_block 16 s (tail @ replicate (16 - length tail) 0)"
      unfolding pad absorb_append [of mix_block 16 ?s0 full] rest s_def by simp
    also have "\<dots> = (mix_block s (tail @ replicate (16 - length tail) 0), [])"
      using load(2) by (intro absorb_one) simp_all
    finally show ?thesis using tail_block [of tail s] False load(2) by simp
  qed
  moreover have "ucast (word_of_nat (length key) :: u32) = (word_of_nat (length key mod 2 ^ 32) :: u64)"
    by (rule word_of_unat) (simp add: unsigned_ucast_eq unat_of_nat take_bit_eq_mod)
  ultimately show ?thesis
    unfolding hash_def murmur3_def Let_def body using load(1) by simp
qed

end
