(* ===== verification/Random_Generator.thy ===== *)
theory Random_Generator
  imports Prelude
begin

text \<open>
  \<open>foundation/random.c\<close>: the pseudorandom generator. The state of a generator is an array of 1391
  words and the position in it; \<open>random_from_state\<close> has one branch for each way in which the
  positions it reads wrap around. Threads take their state from a pool. The functions on
  floating point numbers are not modelled.

  The shift \<open>26U << x\<close> has no value in C when \<open>x\<close> is 32 or more, and the words of the state are:
  what the machine does is the parameter \<open>shl\<close>, of which nothing is assumed.
\<close>

section \<open>One step of a generator\<close>

definition RANDOM_STATE_SIZE :: u32 where "RANDOM_STATE_SIZE = 1391"
definition RANDOM_MASK_UPPER :: u32 where "RANDOM_MASK_UPPER = drop_bit 17 0xFFFFFFFF"
definition RANDOM_MASK_LOWER :: u32 where "RANDOM_MASK_LOWER = NOT RANDOM_MASK_UPPER"
definition RANDOM_BITMASK :: u32 where "RANDOM_BITMASK = 0x48000000"
definition RANDOM_LOW_LIMIT :: u32 where "RANDOM_LOW_LIMIT = 23"
definition RANDOM_MID_LIMIT :: u32 where "RANDOM_MID_LIMIT = 229"
definition RANDOM_HIGH_LIMIT :: u32 where "RANDOM_HIGH_LIMIT = 481"

lemmas random_constants = RANDOM_STATE_SIZE_def RANDOM_LOW_LIMIT_def RANDOM_MID_LIMIT_def RANDOM_HIGH_LIMIT_def

definition RANDOM_XOR_AND_LEFTSHIFT :: "nat \<Rightarrow> u32 \<Rightarrow> u32" where
  "RANDOM_XOR_AND_LEFTSHIFT bits val = val XOR push_bit bits val"

definition RANDOM_XOR_AND_RIGHTSHIFT :: "nat \<Rightarrow> u32 \<Rightarrow> u32" where
  "RANDOM_XOR_AND_RIGHTSHIFT bits val = val XOR drop_bit bits val"

definition RANDOM_TRANSFORM :: "nat \<Rightarrow> u32 \<Rightarrow> u32 \<Rightarrow> u32 \<Rightarrow> u32 \<Rightarrow> u32" where
  "RANDOM_TRANSFORM bits key msk test val =
     (if val AND test \<noteq> 0 then ((push_bit bits val XOR drop_bit (32 - bits) val) AND msk) XOR key
      else (push_bit bits val XOR drop_bit (32 - bits) val) AND msk)"

text \<open>
  The body all branches share: the positions of the two words before the current one, of the
  current word and of the three words it is combined with, the next position, and the position
  of the word the result is tempered with.
\<close>

definition random_branch :: "(u32 \<Rightarrow> u32 \<Rightarrow> u32) \<Rightarrow> u32 list \<Rightarrow> u32 \<Rightarrow> u32 \<Rightarrow> u32 \<Rightarrow> u32 \<Rightarrow> u32 \<Rightarrow> u32 \<Rightarrow> u32 \<Rightarrow> u32 \<Rightarrow>
    (u32 \<times> u32 list) option" where
  "random_branch shl state prev1 prev2 cur low mid high nxt out =
     do { v1 \<leftarrow> mem_get state (unat prev1);
          v2 \<leftarrow> mem_get state (unat prev2);
          v0 \<leftarrow> mem_get state (unat cur);
          vl \<leftarrow> mem_get state (unat low);
          vh \<leftarrow> mem_get state (unat high);
          vm \<leftarrow> mem_get state (unat mid);
          let bits0 = (v1 AND RANDOM_MASK_LOWER) OR (v2 AND RANDOM_MASK_UPPER);
          let bits1 = RANDOM_XOR_AND_LEFTSHIFT 24 v0 XOR RANDOM_XOR_AND_RIGHTSHIFT 30 vl;
          let bits2 = RANDOM_XOR_AND_LEFTSHIFT 10 vh XOR shl 26 vm;
          state \<leftarrow> mem_set state (unat cur) (bits1 XOR bits2);
          state \<leftarrow> mem_set state (unat prev1) (bits0 XOR RANDOM_XOR_AND_RIGHTSHIFT 20 bits1 XOR
            RANDOM_TRANSFORM 9 0xb729fcec 0xfbffffff 0x00020000 bits2 XOR (bits1 XOR bits2));
          state \<leftarrow> mem_set state (unat RANDOM_STATE_SIZE) nxt;
          a \<leftarrow> mem_get state (unat nxt);
          b \<leftarrow> mem_get state (unat out);
          Some (a XOR (b AND RANDOM_BITMASK), state) }"

definition random_from_state :: "(u32 \<Rightarrow> u32 \<Rightarrow> u32) \<Rightarrow> u32 list \<Rightarrow> (u32 \<times> u32 list) option" where
  "random_from_state shl state =
     do { i \<leftarrow> mem_get state (unat RANDOM_STATE_SIZE);
          if i = 0 then
            random_branch shl state (RANDOM_STATE_SIZE - 1) (RANDOM_STATE_SIZE - 2) 0 RANDOM_LOW_LIMIT RANDOM_MID_LIMIT
              RANDOM_HIGH_LIMIT (RANDOM_STATE_SIZE - 1)
              (((RANDOM_STATE_SIZE - 1) + RANDOM_HIGH_LIMIT) - RANDOM_STATE_SIZE + 1)
          else if i = 1 then
            random_branch shl state 0 (RANDOM_STATE_SIZE - 1) 1 (1 + RANDOM_LOW_LIMIT) (1 + RANDOM_MID_LIMIT)
              (1 + RANDOM_HIGH_LIMIT) 0 (0 + RANDOM_HIGH_LIMIT + 1)
          else if i + RANDOM_LOW_LIMIT \<ge> RANDOM_STATE_SIZE then
            random_branch shl state (i - 1) (i - 2) i (i + RANDOM_LOW_LIMIT - RANDOM_STATE_SIZE)
              ((i + RANDOM_MID_LIMIT) - RANDOM_STATE_SIZE) (i + RANDOM_HIGH_LIMIT - RANDOM_STATE_SIZE) (i - 1)
              ((i - 1) + RANDOM_HIGH_LIMIT - RANDOM_STATE_SIZE + 1)
          else if i + RANDOM_MID_LIMIT \<ge> RANDOM_STATE_SIZE then
            random_branch shl state (i - 1) (i - 2) i (i + RANDOM_LOW_LIMIT)
              (i + RANDOM_MID_LIMIT - RANDOM_STATE_SIZE) (i + RANDOM_HIGH_LIMIT - RANDOM_STATE_SIZE) (i - 1)
              (((i - 1) + RANDOM_HIGH_LIMIT) - RANDOM_STATE_SIZE + 1)
          else if i + RANDOM_HIGH_LIMIT \<ge> RANDOM_STATE_SIZE then
            random_branch shl state (i - 1) (i - 2) i (i + RANDOM_LOW_LIMIT)
              (i + RANDOM_MID_LIMIT) (i + RANDOM_HIGH_LIMIT - RANDOM_STATE_SIZE) (i - 1)
              (((i - 1) + RANDOM_HIGH_LIMIT) - RANDOM_STATE_SIZE + 1)
          else
            random_branch shl state (i - 1) (i - 2) i (i + RANDOM_LOW_LIMIT)
              (i + RANDOM_MID_LIMIT) (i + RANDOM_HIGH_LIMIT) (i - 1) ((i - 1) + RANDOM_HIGH_LIMIT + 1) }"

section \<open>The pool of states\<close>

text \<open>
  \<open>rp_memory\<close> holds the buffers by address, \<open>rp_state\<close> all buffers that were allocated,
  \<open>rp_available\<close> the ones a thread may take, and \<open>rp_thread\<close> is the thread-local pointer. Addresses
  and clock readings are parameters of the seed.
\<close>

record random_pool =
  rp_memory :: "nat \<Rightarrow> u32 list"
  rp_state :: "nat list"
  rp_available :: "nat list"
  rp_thread :: "nat \<Rightarrow> nat option"

record random_env =
  env_shl :: "u32 \<Rightarrow> u32 \<Rightarrow> u32"
  env_time_system :: "nat \<Rightarrow> u64"
  env_time_current :: "nat \<Rightarrow> nat \<Rightarrow> u64"

definition random_seed_buffer :: "random_env \<Rightarrow> nat \<Rightarrow> u32 list" where
  "random_seed_buffer env buffer =
     (let base = env_time_system env buffer
      in map (\<lambda>i. ucast ((word_of_nat (buffer + 4 * i) XOR
            (base + env_time_current env buffer i + word_of_nat (i * 481 * 23))) AND 0xFFFFFFFF :: u64)) [0..<1391])"

text \<open>A fresh address is one that no allocated buffer has.\<close>

definition random_allocate_buffer :: "random_env \<Rightarrow> nat \<Rightarrow> random_pool \<Rightarrow> random_pool" where
  "random_allocate_buffer env buffer pool =
     pool\<lparr>rp_memory := (rp_memory pool)(buffer := random_seed_buffer env buffer @ [0]),
          rp_state := rp_state pool @ [buffer]\<rparr>"

definition random_thread_initialize :: "random_env \<Rightarrow> nat \<Rightarrow> nat \<Rightarrow> random_pool \<Rightarrow> random_pool \<times> nat" where
  "random_thread_initialize env fresh t pool =
     (let (pool, buffer) =
        (if rp_available pool = [] then
           (let pool = random_allocate_buffer env fresh pool
            in (pool\<lparr>rp_available := rp_available pool @ [fresh]\<rparr>, fresh))
         else (pool\<lparr>rp_available := butlast (rp_available pool)\<rparr>, last (rp_available pool)))
      in (pool\<lparr>rp_thread := (rp_thread pool)(t \<mapsto> buffer)\<rparr>, buffer))"

definition random_thread_finalize :: "nat \<Rightarrow> random_pool \<Rightarrow> random_pool" where
  "random_thread_finalize t pool =
     (case rp_thread pool t of
        None \<Rightarrow> pool
      | Some buffer \<Rightarrow> pool\<lparr>rp_available := rp_available pool @ [buffer], rp_thread := (rp_thread pool)(t := None)\<rparr>)"

text \<open>\<open>state = get_thread_state(); if (!state) state = random_thread_initialize();\<close>\<close>

definition random_thread_state :: "random_env \<Rightarrow> nat \<Rightarrow> nat \<Rightarrow> random_pool \<Rightarrow> random_pool \<times> nat" where
  "random_thread_state env fresh t pool =
     (case rp_thread pool t of Some buffer \<Rightarrow> (pool, buffer) | None \<Rightarrow> random_thread_initialize env fresh t pool)"

definition random_draw :: "random_env \<Rightarrow> nat \<Rightarrow> random_pool \<Rightarrow> (u32 \<times> random_pool) option" where
  "random_draw env buffer pool =
     do { (v, state) \<leftarrow> random_from_state (env_shl env) (rp_memory pool buffer);
          Some (v, pool\<lparr>rp_memory := (rp_memory pool)(buffer := state)\<rparr>) }"

definition random32 :: "random_env \<Rightarrow> nat \<Rightarrow> nat \<Rightarrow> random_pool \<Rightarrow> (u32 \<times> random_pool) option" where
  "random32 env fresh t pool =
     (let (pool, buffer) = random_thread_state env fresh t pool in random_draw env buffer pool)"

definition random64 :: "random_env \<Rightarrow> nat \<Rightarrow> nat \<Rightarrow> random_pool \<Rightarrow> (u64 \<times> random_pool) option" where
  "random64 env fresh t pool =
     (let (pool, buffer) = random_thread_state env fresh t pool
      in do { (low, pool) \<leftarrow> random_draw env buffer pool;
              (high, pool) \<leftarrow> random_draw env buffer pool;
              Some (push_bit 32 (ucast high) OR ucast low, pool) })"

section \<open>Ranges\<close>

text \<open>A division by zero has no result.\<close>

definition random32_range :: "random_env \<Rightarrow> nat \<Rightarrow> nat \<Rightarrow> u32 \<Rightarrow> u32 \<Rightarrow> random_pool \<Rightarrow> (u32 \<times> random_pool) option" where
  "random32_range env fresh t low high pool =
     (let (low, high) = (if low > high then (high, low) else (low, high))
      in if high \<le> low + 1 then Some (low, pool)
         else do { (v, pool) \<leftarrow> random32 env fresh t pool;
                   c_assert (high - low \<noteq> 0);
                   Some (low + v mod (high - low), pool) })"

definition random64_range :: "random_env \<Rightarrow> nat \<Rightarrow> nat \<Rightarrow> u64 \<Rightarrow> u64 \<Rightarrow> random_pool \<Rightarrow> (u64 \<times> random_pool) option" where
  "random64_range env fresh t low high pool =
     (let (low, high) = (if low > high then (high, low) else (low, high))
      in if high \<le> low + 1 then Some (low, pool)
         else do { (v, pool) \<leftarrow> random64 env fresh t pool;
                   c_assert (high - low \<noteq> 0);
                   Some (low + v mod (high - low), pool) })"

text \<open>
  On \<open>int32_t\<close> the difference must fit; an overflow of the subtraction has no result. The bounds
  are the values of the arguments.
\<close>

definition int_diff :: "int \<Rightarrow> int \<Rightarrow> u64 option" where
  "int_diff high low = (if high - low < 2 ^ 31 then Some (word_of_int (high - low)) else None)"

definition int32_of :: "u64 \<Rightarrow> int" where
  "int32_of w = sint (ucast w :: u32)"

definition random32_gaussian_range :: "random_env \<Rightarrow> nat \<Rightarrow> nat \<Rightarrow> int \<Rightarrow> int \<Rightarrow> random_pool \<Rightarrow> (int \<times> random_pool) option" where
  "random32_gaussian_range env fresh t low high pool =
     do { (a, pool) \<leftarrow> random32 env fresh t pool;
          (b, pool) \<leftarrow> random32 env fresh t pool;
          (c, pool) \<leftarrow> random32 env fresh t pool;
          (d, pool) \<leftarrow> random32 env fresh t pool;
          let cubic = drop_bit 2 (((ucast a + ucast b) + (ucast c + ucast d)) + 2 :: u64);
          let (low, high) = (if low > high then (high, low) else (low, high));
          diff \<leftarrow> int_diff high low;
          Some (low + int32_of (drop_bit 32 (cubic * diff)), pool) }"

definition random32_triangle_range :: "random_env \<Rightarrow> nat \<Rightarrow> nat \<Rightarrow> int \<Rightarrow> int \<Rightarrow> random_pool \<Rightarrow> (int \<times> random_pool) option" where
  "random32_triangle_range env fresh t low high pool =
     do { (t0, pool) \<leftarrow> random32 env fresh t pool;
          (t1, pool) \<leftarrow> random32 env fresh t pool;
          let tri = (ucast (drop_bit 1 t0 + drop_bit 1 t1 + (t0 AND t1 AND 1)) :: u64);
          let (low, high) = (if low > high then (high, low) else (low, high));
          diff \<leftarrow> int_diff high low;
          Some (low + int32_of (drop_bit 32 (tri * diff)), pool) }"

section \<open>All branches are one step\<close>

text \<open>The reference: positions are counted modulo the size of the state.\<close>

definition state_ok :: "u32 list \<Rightarrow> bool" where
  "state_ok state \<longleftrightarrow> length state = 1392 \<and> unat (state ! 1391) < 1391"

definition well_step :: "(u32 \<Rightarrow> u32 \<Rightarrow> u32) \<Rightarrow> u32 list \<Rightarrow> u32 \<times> u32 list" where
  "well_step shl state =
     (let i = unat (state ! 1391);
          v = (\<lambda>k. state ! ((i + k) mod 1391));
          bits0 = (v 1390 AND RANDOM_MASK_LOWER) OR (v 1389 AND RANDOM_MASK_UPPER);
          bits1 = RANDOM_XOR_AND_LEFTSHIFT 24 (v 0) XOR RANDOM_XOR_AND_RIGHTSHIFT 30 (v 23);
          bits2 = RANDOM_XOR_AND_LEFTSHIFT 10 (v 481) XOR shl 26 (v 229);
          n0 = bits1 XOR bits2;
          n1 = bits0 XOR RANDOM_XOR_AND_RIGHTSHIFT 20 bits1 XOR RANDOM_TRANSFORM 9 0xb729fcec 0xfbffffff 0x00020000 bits2 XOR n0;
          j = (i + 1390) mod 1391;
          state' = state[i := n0, j := n1, 1391 := word_of_nat j]
      in (state' ! j XOR (state' ! ((j + 482) mod 1391) AND RANDOM_BITMASK), state'))"

lemma branch_step:
  assumes ok: "length state = 1392" "unat (state ! 1391) = i" "i < 1391"
    and pos: "unat prev1 = (i + 1390) mod 1391" "unat prev2 = (i + 1389) mod 1391" "unat cur = i"
      "unat low = (i + 23) mod 1391" "unat mid = (i + 229) mod 1391" "unat high = (i + 481) mod 1391"
      "nxt = prev1" "unat out = ((i + 1390) mod 1391 + 482) mod 1391"
  shows "random_branch shl state prev1 prev2 cur low mid high nxt out = Some (well_step shl state)"
proof -
  have size: "unat RANDOM_STATE_SIZE = 1391" by (simp add: RANDOM_STATE_SIZE_def)
  have nxt: "prev1 = word_of_nat ((i + 1390) mod 1391)" using pos(1) by (metis of_nat_unat ucast_id)
  have lt: "x mod 1391 < 1392" for x :: nat
    using mod_less_divisor [of 1391 x] by linarith
  show ?thesis
    unfolding random_branch_def well_step_def size pos(7) pos(1-6,8) ok(2) Let_def
    using ok(1,3) lt nxt by (simp add: mem_get_def mem_set_def)
qed

lemma word_pos:
  fixes w :: u32
  assumes "w = word_of_nat m" "m < 2 ^ 32" shows "unat w = m"
  using assms by (simp add: unat_of_nat)

lemma word_sub: "b \<le> a \<Longrightarrow> (word_of_nat a - word_of_nat b :: u32) = word_of_nat (a - b)"
  by (simp add: of_nat_diff)

lemma mod_state: "k < 1391 \<Longrightarrow> n < 1391 \<Longrightarrow> (n + k) mod 1391 = (if n + k < 1391 then n + k else n + k - 1391 :: nat)"
  by (simp add: le_mod_geq)

lemma positions:
  fixes n :: nat and w :: u32
  assumes "n < 1391" "w = word_of_nat n"
  shows "2 \<le> n \<Longrightarrow> unat (w - 1) = (n + 1390) mod 1391" "2 \<le> n \<Longrightarrow> unat (w - 2) = (n + 1389) mod 1391" "unat w = n"
    and "k \<le> 1390 \<Longrightarrow> n + k < 1391 \<Longrightarrow> unat (w + word_of_nat k) = (n + k) mod 1391"
    and "k \<le> 1390 \<Longrightarrow> 1391 \<le> n + k \<Longrightarrow> unat (w + word_of_nat k - 1391) = (n + k) mod 1391"
proof -
  show "unat (w - 1) = (n + 1390) mod 1391" if "2 \<le> n"
    by (rule word_pos) (use assms that word_sub [of 1 n] in \<open>simp_all add: mod_state\<close>)
  show "unat (w - 2) = (n + 1389) mod 1391" if "2 \<le> n"
    by (rule word_pos) (use assms that word_sub [of 2 n] in \<open>simp_all add: mod_state\<close>)
  show "unat w = n" using assms by (simp add: unat_of_nat)
  show "unat (w + word_of_nat k) = (n + k) mod 1391" if "k \<le> 1390" "n + k < 1391"
    by (rule word_pos) (use assms that in \<open>simp_all add: mod_state\<close>)
  show "unat (w + word_of_nat k - 1391) = (n + k) mod 1391" if "k \<le> 1390" "1391 \<le> n + k"
    by (rule word_pos) (use assms that word_sub [of 1391 "n + k"] in \<open>simp_all add: mod_state\<close>)
qed

lemma out_position: "(i + 1390) mod 1391 + 482 = i + 481 + (if i = 0 then 1391 else 0)" if "i < 1391" for i :: nat
  using that by (simp add: mod_state)

lemma from_state_step:
  assumes "state_ok state" shows "random_from_state shl state = Some (well_step shl state)"
proof -
  define n where "n = unat (state ! 1391)"
  define w where "w = state ! 1391"
  have ok: "length state = 1392" "n < 1391" using assms by (simp_all add: state_ok_def n_def)
  have w: "w = word_of_nat n" by (simp add: n_def w_def)
  have get: "mem_get state (unat (1391 :: u32)) = Some w"
    using ok(1) by (simp add: mem_get_def w_def)
  note step = branch_step [OF ok(1) n_def [symmetric] ok(2)]
  note p = positions [OF ok(2) w]
  have add: "n + 23 < 1391 \<Longrightarrow> unat (w + 23) = (n + 23) mod 1391" "n + 229 < 1391 \<Longrightarrow> unat (w + 229) = (n + 229) mod 1391"
    "n + 481 < 1391 \<Longrightarrow> unat (w + 481) = (n + 481) mod 1391"
    by (rule p(4) [of "numeral _", unfolded of_nat_numeral]; simp)+
  have sub: "1391 \<le> n + 23 \<Longrightarrow> unat (w + 23 - 1391) = (n + 23) mod 1391"
    "1391 \<le> n + 229 \<Longrightarrow> unat (w + 229 - 1391) = (n + 229) mod 1391"
    "1391 \<le> n + 481 \<Longrightarrow> unat (w + 481 - 1391) = (n + 481) mod 1391"
    by (rule p(5) [of "numeral _", unfolded of_nat_numeral]; simp)+
  have out: "((n + 1390) mod 1391 + 482) mod 1391 = (n + 481) mod 1391"
    unfolding out_position [OF ok(2)] by simp
  have cmp: "(1391 \<le> w + word_of_nat k) = (1391 \<le> n + k)" if "k \<le> 1390" for k
    unfolding w word_le_nat_alt using ok(2) that by (simp add: unat_of_nat flip: of_nat_add)
  note cmps = cmp [of 23, simplified] cmp [of 229, simplified] cmp [of 481, simplified]
  have z: "(w = 0) = (n = 0)" "(w = 1) = (n = 1)" using ok(2) by (simp_all add: w word_unat_eq_iff unat_of_nat)
  note chain = random_from_state_def [of shl state, unfolded random_constants get Option.bind.bind_lunit]
  have o1: "w - 1 + 481 - 1391 + 1 = w + 481 - 1391" "w - 1 + 481 + 1 = w + 481"
    by (simp_all add: add.commute)
  consider "n = 0" | "n = 1" | "2 \<le> n" "1391 \<le> n + 23" | "2 \<le> n" "n + 23 < 1391" "1391 \<le> n + 229"
    | "2 \<le> n" "n + 229 < 1391" "1391 \<le> n + 481" | "2 \<le> n" "n + 481 < 1391" by linarith
  then show ?thesis
  proof cases
    case 1
    then have c: "(w = 0) = True" using z by simp
    show ?thesis unfolding chain c if_True by (rule step) (simp_all add: 1)
  next
    case 2
    then have c: "(w = 0) = False" "(w = 1) = True" using z by simp_all
    show ?thesis unfolding chain c if_True if_False by (rule step) (simp_all add: 2)
  next
    case 3
    then have c: "(w = 0) = False" "(w = 1) = False" "(1391 \<le> w + 23) = True" using z cmps by simp_all
    show ?thesis unfolding chain c if_True if_False o1(1)
      by (rule step [OF p(1) p(2) p(3) sub(1) sub(2) sub(3) refl sub(3) [unfolded out [symmetric]]]) (use 3 in linarith)+
  next
    case 4
    then have c: "(w = 0) = False" "(w = 1) = False" "(1391 \<le> w + 23) = False" "(1391 \<le> w + 229) = True"
      using z cmps by simp_all
    show ?thesis unfolding chain c if_True if_False o1(1)
      by (rule step [OF p(1) p(2) p(3) add(1) sub(2) sub(3) refl sub(3) [unfolded out [symmetric]]]) (use 4 in linarith)+
  next
    case 5
    then have c: "(w = 0) = False" "(w = 1) = False" "(1391 \<le> w + 23) = False" "(1391 \<le> w + 229) = False"
      "(1391 \<le> w + 481) = True" using z cmps by simp_all
    show ?thesis unfolding chain c if_True if_False o1(1)
      by (rule step [OF p(1) p(2) p(3) add(1) add(2) sub(3) refl sub(3) [unfolded out [symmetric]]]) (use 5 in linarith)+
  next
    case 6
    then have c: "(w = 0) = False" "(w = 1) = False" "(1391 \<le> w + 23) = False" "(1391 \<le> w + 229) = False"
      "(1391 \<le> w + 481) = False" using z cmps by simp_all
    show ?thesis unfolding chain c if_True if_False o1(2)
      by (rule step [OF p(1) p(2) p(3) add(1) add(2) add(3) refl add(3) [unfolded out [symmetric]]]) (use 6 in linarith)+
  qed
qed

lemma well_step_ok: "state_ok state \<Longrightarrow> state_ok (snd (well_step shl state))"
proof -
  assume ok: "state_ok state"
  have "(k + 1390) mod 1391 < 1391" for k :: nat by simp
  then show ?thesis
    using ok by (simp add: state_ok_def well_step_def Let_def unat_of_nat)
qed

text \<open>
  C17. For every position, the six branches of the generator compute the same step, the one that
  counts positions modulo the size of the state; no branch reads or writes outside of the
  state, and the position stays in range.
\<close>

theorem random_from_state_step:
  assumes "state_ok state"
  shows "random_from_state shl state = Some (well_step shl state) \<and> state_ok (snd (well_step shl state))"
  using from_state_step [OF assms] well_step_ok [OF assms] by simp

theorem random_from_state_step_witness:
  "random_from_state (\<lambda>a n. a) (replicate 1391 5 @ [1367]) = Some (well_step (\<lambda>a n. a) (replicate 1391 5 @ [1367])) \<and>
   state_ok (snd (well_step (\<lambda>a n. a) (replicate 1391 5 @ [1367])))"
  by (rule random_from_state_step) (simp add: state_ok_def nth_append)

section \<open>Ranges\<close>

definition pool_ok :: "random_pool \<Rightarrow> bool" where
  "pool_ok pool \<longleftrightarrow> (\<forall>b \<in> set (rp_state pool). state_ok (rp_memory pool b)) \<and>
     set (rp_available pool) \<subseteq> set (rp_state pool) \<and> (\<forall>t b. rp_thread pool t = Some b \<longrightarrow> b \<in> set (rp_state pool))"

lemma seed_ok: "state_ok (random_seed_buffer env buffer @ [0])"
  by (simp add: state_ok_def random_seed_buffer_def Let_def nth_append del: upt_rec_numeral)

lemma thread_state_ok:
  assumes "pool_ok pool" "random_thread_state env fresh t pool = (pool', b)"
  shows "pool_ok pool'" "b \<in> set (rp_state pool')" "rp_thread pool' t = Some b"
proof -
  have last: "last (rp_available pool) \<in> set (rp_state pool)" if "rp_available pool \<noteq> []"
    using that assms(1) last_in_set [OF that] by (auto simp: pool_ok_def)
  have "pool_ok pool' \<and> b \<in> set (rp_state pool') \<and> rp_thread pool' t = Some b"
  proof (cases "rp_thread pool t")
    case (Some c)
    then show ?thesis using assms by (auto simp: random_thread_state_def pool_ok_def)
  next
    case None
    show ?thesis
    proof (cases "rp_available pool = []")
      case True
      then show ?thesis using assms None
        by (auto simp: random_thread_state_def random_thread_initialize_def random_allocate_buffer_def pool_ok_def seed_ok
            split: if_splits)
    next
      case False
      have "set (butlast (rp_available pool)) \<subseteq> set (rp_state pool)"
        using assms(1) by (auto simp: pool_ok_def dest: in_set_butlastD)
      then show ?thesis using False assms None last [OF False]
        by (auto simp: random_thread_state_def random_thread_initialize_def pool_ok_def split: if_splits)
    qed
  qed
  then show "pool_ok pool'" "b \<in> set (rp_state pool')" "rp_thread pool' t = Some b" by simp_all
qed

lemma draw_ok:
  assumes "pool_ok pool" "b \<in> set (rp_state pool)"
  shows "\<exists>v pool'. random_draw env b pool = Some (v, pool') \<and> pool_ok pool' \<and> rp_state pool' = rp_state pool"
proof -
  have ok: "state_ok (rp_memory pool b)" using assms by (simp add: pool_ok_def)
  obtain v st where "well_step (env_shl env) (rp_memory pool b) = (v, st)" by (cases "well_step (env_shl env) (rp_memory pool b)")
  then show ?thesis
    using from_state_step [OF ok, of "env_shl env"] well_step_ok [OF ok, of "env_shl env"] assms
    by (auto simp: random_draw_def pool_ok_def)
qed

lemma random32_ok: "pool_ok pool \<Longrightarrow> \<exists>v pool'. random32 env fresh t pool = Some (v, pool') \<and> pool_ok pool'"
proof -
  assume ok: "pool_ok pool"
  obtain pool1 b where s: "random_thread_state env fresh t pool = (pool1, b)" by (cases "random_thread_state env fresh t pool")
  show ?thesis using draw_ok [OF thread_state_ok(1,2) [OF ok s], of env] by (auto simp: random32_def s)
qed

lemma random64_ok: "pool_ok pool \<Longrightarrow> \<exists>v pool'. random64 env fresh t pool = Some (v, pool') \<and> pool_ok pool'"
proof -
  assume ok: "pool_ok pool"
  obtain pool1 b where s: "random_thread_state env fresh t pool = (pool1, b)" by (cases "random_thread_state env fresh t pool")
  note ts = thread_state_ok [OF ok s]
  from draw_ok [OF ts(1,2), of env] obtain v pool2 where
    d: "random_draw env b pool1 = Some (v, pool2)" "pool_ok pool2" "rp_state pool2 = rp_state pool1" by blast
  show ?thesis using draw_ok [OF d(2), of b env] d(1,3) ts(2) by (auto simp: random64_def s)
qed

lemma range_bounds:
  fixes low high v :: "'a::len word"
  assumes "low < high" shows "low \<le> low + v mod (high - low)" "low + v mod (high - low) < high"
proof -
  have d: "unat (high - low) = unat high - unat low" using assms by (intro unat_sub) simp
  have lt: "unat low < unat high" using assms by (simp add: word_less_nat_alt)
  have m: "unat (v mod (high - low)) < unat high - unat low"
    using d lt by (simp add: unat_mod)
  then have "unat low + unat (v mod (high - low)) < 2 ^ LENGTH('a)"
    using unsigned_less [of high, where ?'a = nat] by linarith
  then have s: "unat (low + v mod (high - low)) = unat low + unat (v mod (high - low))"
    by (simp add: unat_word_ariths)
  show "low \<le> low + v mod (high - low)" "low + v mod (high - low) < high"
    using m unfolding word_le_nat_alt word_less_nat_alt s by linarith+
qed

lemma not_close:
  fixes low high :: "'a::len word"
  assumes "low \<le> high" "\<not> high \<le> low + 1" "low \<noteq> -1" shows "low < high"
proof (rule ccontr)
  assume "\<not> low < high"
  then have "low = high" using assms(1) by simp
  then have "\<not> low \<le> low + 1" using assms(2) by simp
  moreover have "unat (1 + low) = Suc (unat low)" using assms(3) by (intro unatSuc) (metis add.commute eq_neg_iff_add_eq_0)
  ultimately show False by (simp add: word_le_nat_alt add.commute)
qed

lemma range32_ok:
  assumes "pool_ok pool" "min low high \<noteq> -1"
  shows "\<exists>v pool'. random32_range env fresh t low high pool = Some (v, pool') \<and> pool_ok pool' \<and>
      min low high \<le> v \<and> (v < max low high \<or> v = min low high)"
proof -
  define l h where "l = min low high" and "h = max low high"
  have sw: "(if low > high then (high, low) else (low, high)) = (l, h)" by (auto simp: min_def max_def l_def h_def)
  have "l \<le> h" by (auto simp: l_def h_def min_def max_def)
  have "\<exists>v pool'. random32_range env fresh t low high pool = Some (v, pool') \<and> pool_ok pool' \<and> l \<le> v \<and> (v < h \<or> v = l)"
  proof (cases "h \<le> l + 1")
    case True
    then show ?thesis using assms(1) unfolding random32_range_def sw by simp
  next
    case False
    have lt: "l < h" using not_close [OF \<open>l \<le> h\<close> False] assms(2) by (simp add: l_def)
    from random32_ok [OF assms(1), of env fresh t] obtain v pool' where
      "random32 env fresh t pool = Some (v, pool')" "pool_ok pool'" by blast
    moreover have "c_assert (h - l \<noteq> 0) = Some ()" using lt by (auto simp: c_assert_def)
    ultimately show ?thesis using range_bounds [OF lt, of v] False unfolding random32_range_def sw by simp
  qed
  then show ?thesis unfolding l_def h_def .
qed

lemma range64_ok:
  assumes "pool_ok pool" "min low high \<noteq> -1"
  shows "\<exists>v pool'. random64_range env fresh t low high pool = Some (v, pool') \<and> pool_ok pool' \<and>
      min low high \<le> v \<and> (v < max low high \<or> v = min low high)"
proof -
  define l h where "l = min low high" and "h = max low high"
  have sw: "(if low > high then (high, low) else (low, high)) = (l, h)" by (auto simp: min_def max_def l_def h_def)
  have "l \<le> h" by (auto simp: l_def h_def min_def max_def)
  have "\<exists>v pool'. random64_range env fresh t low high pool = Some (v, pool') \<and> pool_ok pool' \<and> l \<le> v \<and> (v < h \<or> v = l)"
  proof (cases "h \<le> l + 1")
    case True
    then show ?thesis using assms(1) unfolding random64_range_def sw by simp
  next
    case False
    have lt: "l < h" using not_close [OF \<open>l \<le> h\<close> False] assms(2) by (simp add: l_def)
    from random64_ok [OF assms(1), of env fresh t] obtain v pool' where
      "random64 env fresh t pool = Some (v, pool')" "pool_ok pool'" by blast
    moreover have "c_assert (h - l \<noteq> 0) = Some ()" using lt by (auto simp: c_assert_def)
    ultimately show ?thesis using range_bounds [OF lt, of v] False unfolding random64_range_def sw by simp
  qed
  then show ?thesis unfolding l_def h_def .
qed

lemma range_division_by_zero:
  "random32_range env fresh t (-1) (-1) pool = None" "random64_range env fresh t (-1) (-1) pool = None"
  by (auto simp: random32_range_def random64_range_def split: Option.bind_splits)

text \<open>
  C18. A draw from a range returns a value of the half-open range between the two bounds in
  either order (the lower bound when the range is empty) for 32 and 64 bits, and keeps the pool
  of states well-formed, unless both bounds are the greatest value: then the test for an empty
  range adds one to it and wraps to zero, and the code divides by zero.
\<close>

theorem random_range_bounds:
  assumes "pool_ok pool" "min l32 h32 \<noteq> -1" "min l64 h64 \<noteq> -1"
  shows "(\<exists>v pool'. random32_range env fresh t l32 h32 pool = Some (v, pool') \<and> pool_ok pool' \<and>
      min l32 h32 \<le> v \<and> (v < max l32 h32 \<or> v = min l32 h32)) \<and>
    (\<exists>v pool'. random64_range env fresh t l64 h64 pool = Some (v, pool') \<and> pool_ok pool' \<and>
      min l64 h64 \<le> v \<and> (v < max l64 h64 \<or> v = min l64 h64)) \<and>
    random32_range env fresh t (-1) (-1) pool = None \<and> random64_range env fresh t (-1) (-1) pool = None"
  using range32_ok [OF assms(1,2)] range64_ok [OF assms(1,3)] range_division_by_zero by blast

definition empty_pool :: random_pool where
  "empty_pool = \<lparr>rp_memory = (\<lambda>_. []), rp_state = [], rp_available = [], rp_thread = (\<lambda>_. None)\<rparr>"

definition example_env :: random_env where
  "example_env = \<lparr>env_shl = (\<lambda>a n. push_bit (unat n mod 32) a), env_time_system = (\<lambda>_. 1000), env_time_current = (\<lambda>_ i. word_of_nat i)\<rparr>"

lemma empty_pool_ok: "pool_ok empty_pool"
  by (simp add: pool_ok_def empty_pool_def)

theorem random_range_bounds_witness:
  "\<exists>v pool'. random32_range example_env 64 0 9 3 empty_pool = Some (v, pool') \<and> 3 \<le> v \<and> (v < 9 \<or> v = 3)"
  using random_range_bounds [OF empty_pool_ok, of 9 3 0 0 example_env 64 0] by (auto simp: min_def max_def)

lemma small_int32: "unat w < 2 ^ 31 \<Longrightarrow> int32_of w = int (unat w)"
proof -
  assume lt: "unat w < 2 ^ 31"
  have b: "uint w < 2 ^ 31" using lt unfolding unat_eq_nat_uint by (subst (asm) nat_less_iff) simp_all
  have "take_bit 32 (uint w) = uint w" using b by (intro take_bit_int_eq_self) auto
  moreover have "signed_take_bit 31 (uint w) = uint w"
    using b by (intro signed_take_bit_int_eq_self) (auto intro: order_trans [of _ 0])
  ultimately show ?thesis unfolding int32_of_def sint_uint by (simp add: unsigned_ucast_eq)
qed

lemma scaled_draw:
  fixes x :: u64
  assumes "unat x < 2 ^ 32" "int_diff high low = Some diff" "low \<le> high"
  shows "low \<le> low + int32_of (drop_bit 32 (x * diff)) \<and> (low + int32_of (drop_bit 32 (x * diff)) < high \<or>
    low + int32_of (drop_bit 32 (x * diff)) = low)"
proof -
  define d where "d = nat (high - low)"
  have d: "d < 2 ^ 31" "diff = word_of_nat d" "int d = high - low"
    using assms(2,3) by (auto simp: int_diff_def d_def split: if_splits)
  have ud: "unat diff = d" using d(1,2) by (simp add: unat_of_nat take_bit_nat_eq_self)
  have "unat x * d \<le> 2 ^ 32 * d" using assms(1) by (intro mult_le_mono1) simp
  also have "\<dots> < 2 ^ 32 * 2 ^ 31" using d(1) by simp
  finally have prod: "unat x * d < 2 ^ 32 * 2 ^ 31" .
  have u: "unat (drop_bit 32 (x * diff)) = unat x * d div 2 ^ 32"
    using prod ud by (simp add: unsigned_drop_bit_eq drop_bit_nat_def unat_word_ariths take_bit_nat_eq_self)
  have q: "unat x * d div 2 ^ 32 < d \<or> d = 0"
    using assms(1) by (cases "d = 0") (simp_all add: div_less_iff_less_mult)
  then have "unat x * d div 2 ^ 32 < 2 ^ 31" using d(1) by auto
  then have "int32_of (drop_bit 32 (x * diff)) = int (unat x * d div 2 ^ 32)"
    using small_int32 [of "drop_bit 32 (x * diff)"] unfolding u by blast
  then show ?thesis using q d(3) by (auto simp del: of_nat_div)
qed

lemma cubic_bound: "unat (drop_bit 2 (((ucast a + ucast b) + (ucast c + ucast d)) + 2 :: u64)) < 2 ^ 32"
  for a b c d :: u32
proof -
  have "unat a + unat b + (unat c + unat d) + 2 < 2 ^ 34"
    using unsigned_less [of a, where ?'a = nat] unsigned_less [of b, where ?'a = nat]
      unsigned_less [of c, where ?'a = nat] unsigned_less [of d, where ?'a = nat] by simp
  then show ?thesis
    by (simp add: unsigned_drop_bit_eq drop_bit_nat_def unat_word_ariths unsigned_ucast_eq take_bit_nat_eq_self
        less_mult_imp_div_less)
qed

lemma tri_bound: "unat (ucast (w :: u32) :: u64) < 2 ^ 32"
  using unsigned_less [of w, where ?'a = nat] by (simp add: unsigned_ucast_eq take_bit_nat_eq_self)

lemma ordered_pair:
  "(if low > high then (high, low) else (low, high)) = (min low high, max low (high :: int))"
  by (auto simp: min_def max_def)

lemma int_diff_defined:
  assumes "\<bar>high - low\<bar> < 2 ^ 31" obtains diff where "int_diff (max low high) (min low high) = Some diff"
proof -
  have "max low high - min low high < 2 ^ 31" using assms by (auto simp: max_def min_def)
  then show ?thesis using that by (simp add: int_diff_def)
qed

lemma gaussian_range_ok:
  assumes "pool_ok pool" "\<bar>high - low\<bar> < 2 ^ 31"
  shows "\<exists>v pool'. random32_gaussian_range env fresh t low high pool = Some (v, pool') \<and> pool_ok pool' \<and>
      min low high \<le> v \<and> (v < max low high \<or> v = min low high)"
proof -
  obtain a p1 where 1: "random32 env fresh t pool = Some (a, p1)" "pool_ok p1" using random32_ok [OF assms(1)] by blast
  obtain b p2 where 2: "random32 env fresh t p1 = Some (b, p2)" "pool_ok p2" using random32_ok [OF 1(2)] by blast
  obtain c p3 where 3: "random32 env fresh t p2 = Some (c, p3)" "pool_ok p3" using random32_ok [OF 2(2)] by blast
  obtain d p4 where 4: "random32 env fresh t p3 = Some (d, p4)" "pool_ok p4" using random32_ok [OF 3(2)] by blast
  obtain diff where df: "int_diff (max low high) (min low high) = Some diff" using int_diff_defined [OF assms(2)] .
  have "min low high \<le> max low high" by simp
  from scaled_draw [OF cubic_bound df this, of a b c d] show ?thesis
    unfolding random32_gaussian_range_def ordered_pair using 4(2)
    by (simp add: 1(1) 2(1) 3(1) 4(1) df)
qed

lemma triangle_range_ok:
  assumes "pool_ok pool" "\<bar>high - low\<bar> < 2 ^ 31"
  shows "\<exists>v pool'. random32_triangle_range env fresh t low high pool = Some (v, pool') \<and> pool_ok pool' \<and>
      min low high \<le> v \<and> (v < max low high \<or> v = min low high)"
proof -
  obtain a p1 where 1: "random32 env fresh t pool = Some (a, p1)" "pool_ok p1" using random32_ok [OF assms(1)] by blast
  obtain b p2 where 2: "random32 env fresh t p1 = Some (b, p2)" "pool_ok p2" using random32_ok [OF 1(2)] by blast
  obtain diff where df: "int_diff (max low high) (min low high) = Some diff" using int_diff_defined [OF assms(2)] .
  have "min low high \<le> max low high" by simp
  from scaled_draw [OF tri_bound df this, of "drop_bit 1 a + drop_bit 1 b + (a AND b AND 1)"] show ?thesis
    unfolding random32_triangle_range_def ordered_pair using 2(2)
    by (simp add: 1(1) 2(1) df)
qed

text \<open>
  The signed draws (a sum of four or of two uniform draws, scaled to the range by a 64-bit
  product) return a value of the half-open range between the bounds in either order whenever the
  difference of the bounds fits the 32-bit type: the scaled product never reaches the upper bound.
\<close>

theorem random_int_range_bounds:
  assumes "pool_ok pool" "\<bar>high - low\<bar> < 2 ^ 31"
  shows "(\<exists>v pool'. random32_gaussian_range env fresh t low high pool = Some (v, pool') \<and> pool_ok pool' \<and>
      min low high \<le> v \<and> (v < max low high \<or> v = min low high)) \<and>
    (\<exists>v pool'. random32_triangle_range env fresh t low high pool = Some (v, pool') \<and> pool_ok pool' \<and>
      min low high \<le> v \<and> (v < max low high \<or> v = min low high))"
  using gaussian_range_ok [OF assms] triangle_range_ok [OF assms] by blast

theorem random_int_range_bounds_witness:
  "\<exists>v pool'. random32_gaussian_range example_env 64 0 5 (-5) empty_pool = Some (v, pool') \<and> -5 \<le> v \<and> (v < 5 \<or> v = -5)"
  using random_int_range_bounds [OF empty_pool_ok, of "-5" 5 example_env 64 0] by (auto simp: min_def max_def)

section \<open>Sharing of states\<close>

text \<open>
  When no state is available, a thread that needs one allocates it and also leaves it in the
  list of available states: the next thread that asks gets the same state, and the two threads
  step one generator without a lock.
\<close>

theorem random_threads_share_state:
  assumes "rp_available pool = []" "rp_thread pool t = None" "rp_thread pool u = None" "t \<noteq> u"
    and "random_thread_state env f1 t pool = (pool1, b1)" "random_thread_state env f2 u pool1 = (pool2, b2)"
  shows "b1 = b2 \<and> rp_thread pool2 t = Some b1 \<and> rp_thread pool2 u = Some b1"
  using assms by (auto simp: random_thread_state_def random_thread_initialize_def random_allocate_buffer_def)

theorem random_threads_share_state_witness:
  "\<exists>pool2 b. random_thread_state example_env 128 2 (fst (random_thread_state example_env 64 1 empty_pool)) = (pool2, b) \<and>
     rp_thread pool2 1 = Some b \<and> rp_thread pool2 2 = Some b"
proof -
  obtain pool1 b1 where s1: "random_thread_state example_env 64 1 empty_pool = (pool1, b1)"
    by (cases "random_thread_state example_env 64 1 empty_pool")
  obtain pool2 b2 where s2: "random_thread_state example_env 128 2 pool1 = (pool2, b2)"
    by (cases "random_thread_state example_env 128 2 pool1")
  show ?thesis
    using random_threads_share_state [of empty_pool 1 2 example_env 64 pool1 b1 128 pool2 b2] s1 s2
    by (auto simp: empty_pool_def)
qed

end
