(* ===== verification/String_Pattern.thy ===== *)
theory String_Pattern
  imports Prelude
begin

text \<open>
  \<open>foundation/string.c\<close>, \<open>string_match_pattern\<close>: matching against a pattern with the wildcards
  \<open>?\<close> and \<open>*\<close>. The recursive matcher is compared with the language of a pattern, given by rules.
\<close>

section \<open>The code\<close>

text \<open>The pointers and lengths of the source advance together: a string is the list of its bytes.\<close>

function string_match_pattern :: "byte list \<Rightarrow> byte list \<Rightarrow> bool" where
  "string_match_pattern element pattern =
     (if pattern = [] \<or> (hd pattern = 42 \<and> length pattern = 1) then True
      else if hd pattern = 42 \<and> string_match_pattern element (tl pattern) then True
      else if hd pattern = 42 \<and> element \<noteq> [] then string_match_pattern (tl element) pattern
      else if element = [] then False
      else if hd pattern = 63 then string_match_pattern (tl element) (tl pattern)
      else if hd element = hd pattern then string_match_pattern (tl element) (tl pattern)
      else False)"
  by pat_completeness auto
termination
  by (relation "measure (\<lambda>(element, pattern). length element + length pattern)") (auto simp: neq_Nil_conv)

declare string_match_pattern.simps [simp del]

section \<open>The language of a pattern\<close>

inductive glob :: "byte list \<Rightarrow> byte list \<Rightarrow> bool" where
  glob_empty: "glob [] []"
| glob_any: "glob p s \<Longrightarrow> glob (63 # p) (x # s)"
| glob_star_stop: "glob p s \<Longrightarrow> glob (42 # p) s"
| glob_star_more: "glob (42 # p) s \<Longrightarrow> glob (42 # p) (x # s)"
| glob_char: "glob p s \<Longrightarrow> c \<noteq> 42 \<Longrightarrow> c \<noteq> 63 \<Longrightarrow> glob (c # p) (c # s)"

inductive_simps glob_Nil: "glob [] s"

text \<open>What the matcher decides: a front part of the string is in the language of the pattern.\<close>

definition matches_front :: "byte list \<Rightarrow> byte list \<Rightarrow> bool" where
  "matches_front p s \<longleftrightarrow> (\<exists>front rest. s = front @ rest \<and> glob p front)"

lemma front_Nil [simp]: "matches_front [] s"
  by (auto simp: matches_front_def glob_Nil)

lemma front_star: "matches_front (42 # p) s \<longleftrightarrow> matches_front p s \<or> (\<exists>x t. s = x # t \<and> matches_front (42 # p) t)"
proof
  assume "matches_front (42 # p) s"
  then obtain front rest where s: "s = front @ rest" and g: "glob (42 # p) front" by (auto simp: matches_front_def)
  from g show "matches_front p s \<or> (\<exists>x t. s = x # t \<and> matches_front (42 # p) t)"
    by (cases rule: glob.cases) (use s in \<open>auto simp: matches_front_def\<close>)
next
  assume "matches_front p s \<or> (\<exists>x t. s = x # t \<and> matches_front (42 # p) t)"
  then show "matches_front (42 # p) s"
    by (auto simp: matches_front_def intro: glob_star_stop) (metis append_Cons glob_star_more)
qed

lemma front_char:
  "c \<noteq> 42 \<Longrightarrow> matches_front (c # p) s \<longleftrightarrow> (\<exists>x t. s = x # t \<and> (c = 63 \<or> x = c) \<and> matches_front p t)"
proof
  assume c: "c \<noteq> 42" and "matches_front (c # p) s"
  then obtain front rest where s: "s = front @ rest" and g: "glob (c # p) front" by (auto simp: matches_front_def)
  from g c obtain x t where "front = x # t" "c = 63 \<or> x = c" "glob p t" by (cases rule: glob.cases) auto
  then show "\<exists>x t. s = x # t \<and> (c = 63 \<or> x = c) \<and> matches_front p t" using s by (auto simp: matches_front_def)
next
  assume c: "c \<noteq> 42" and "\<exists>x t. s = x # t \<and> (c = 63 \<or> x = c) \<and> matches_front p t"
  then obtain x t front rest where "s = x # t" "c = 63 \<or> x = c" "t = front @ rest" "glob p front"
    by (auto simp: matches_front_def)
  moreover from this c have "glob (c # p) (x # front)" by (cases "c = 63") (auto intro: glob_any glob_char)
  ultimately show "matches_front (c # p) s" unfolding matches_front_def by (metis append_Cons)
qed

lemma match_front: "string_match_pattern element pattern = matches_front pattern element"
proof (induction element pattern rule: string_match_pattern.induct)
  case (1 element pattern)
  show ?case
  proof (cases pattern)
    case Nil
    then show ?thesis by (simp add: string_match_pattern.simps)
  next
    case (Cons c p)
    show ?thesis
    proof (cases "c = 42")
      case star: True
      show ?thesis
      proof (cases "p = []")
        case True
        then show ?thesis unfolding Cons star by (subst string_match_pattern.simps, subst front_star) simp
      next
        case False
        then have IH1: "string_match_pattern element p = matches_front p element"
          using 1(1) Cons star by simp
        have IH2: "\<not> string_match_pattern element p \<Longrightarrow> element \<noteq> [] \<Longrightarrow>
            string_match_pattern (tl element) (42 # p) = matches_front (42 # p) (tl element)"
          using 1(2) Cons star False by simp
        show ?thesis
          using IH1 IH2 False unfolding Cons star
          by (subst string_match_pattern.simps, subst front_star) (cases element; auto)
      qed
    next
      case False
      show ?thesis
        using 1(3,4) False unfolding Cons front_char [OF False]
        by (subst string_match_pattern.simps) (cases element; auto)
    qed
  qed
qed

text \<open>
  C20. The matcher terminates on every string and pattern and accepts exactly the strings of
  which a front part is in the language of the pattern. So a pattern that ends with \<open>*\<close> is
  decided exactly, while any other pattern also accepts every longer string.
\<close>

theorem string_match_pattern_correct:
  "(string_match_pattern element pattern \<longleftrightarrow> (\<exists>front rest. element = front @ rest \<and> glob pattern front)) \<and>
   (string_match_pattern element (pattern @ [42]) \<longleftrightarrow> glob (pattern @ [42]) element)"
proof
  show "string_match_pattern element pattern \<longleftrightarrow> (\<exists>front rest. element = front @ rest \<and> glob pattern front)"
    unfolding match_front matches_front_def ..
  have all: "glob [42] s" for s by (induction s) (auto intro: glob.intros)
  have "glob q s \<Longrightarrow> q = p @ [42] \<Longrightarrow> glob (p @ [42]) (s @ t)" for q p s t
    by (induction q s arbitrary: p rule: glob.induct) (auto simp: Cons_eq_append_conv intro: glob.intros all)
  then show "string_match_pattern element (pattern @ [42]) \<longleftrightarrow> glob (pattern @ [42]) element"
    unfolding match_front matches_front_def by (metis append_Nil2)
qed

end
