(* ===== verification/String_Search.thy ===== *)
theory String_Search
  imports Prelude
begin

text \<open>
  \<open>foundation/string.c\<close>, searching: forward and backward search for a character, for a key string
  and for characters in or outside of a set, and the functions that cut a string at what they
  find (\<open>string_strip\<close>, \<open>string_split\<close>, \<open>string_substr\<close>, \<open>string_ends_with\<close>, \<open>string_equal\<close>).
  A string is a buffer and a length that may be smaller than the buffer. The reference is a
  search through the list of positions.
\<close>

section \<open>The standard library\<close>

text \<open>
  \<open>memchr\<close> and \<open>memcmp (...) == 0\<close>. Both are modelled as reading the whole range they are given.
\<close>

fun first_index :: "('a \<Rightarrow> bool) \<Rightarrow> 'a list \<Rightarrow> nat option" where
  "first_index P [] = None"
| "first_index P (x # xs) = (if P x then Some 0 else map_option Suc (first_index P xs))"

definition mem_chr :: "byte list \<Rightarrow> nat \<Rightarrow> byte \<Rightarrow> nat \<Rightarrow> nat option option" where
  "mem_chr buf ofs c n =
     (case mem_load buf ofs n of
        None \<Rightarrow> None
      | Some xs \<Rightarrow> Some (map_option (\<lambda>i. ofs + i) (first_index (\<lambda>x. x = c) xs)))"

definition mem_equal :: "byte list \<Rightarrow> nat \<Rightarrow> byte list \<Rightarrow> nat \<Rightarrow> nat \<Rightarrow> bool option" where
  "mem_equal a i b j n = do { x \<leftarrow> mem_load a i n; y \<leftarrow> mem_load b j n; Some (x = y) }"

definition STRING_NPOS :: size_t where "STRING_NPOS = SIZE_MOD - 1"

lemma mem_chr_behind: "mem_chr buf ofs c n = Some (Some f) \<Longrightarrow> ofs \<le> f \<and> f < ofs + n"
proof -
  have b: "first_index P xs = Some i \<Longrightarrow> i < length xs" for P :: "byte \<Rightarrow> bool" and xs i
    by (induction xs arbitrary: i) (auto split: if_splits)
  assume "mem_chr buf ofs c n = Some (Some f)"
  then show ?thesis
    by (auto simp: mem_chr_def mem_load_def dest!: b split: if_splits)
qed

section \<open>Searching\<close>

definition string_find :: "byte list \<Rightarrow> size_t \<Rightarrow> byte \<Rightarrow> size_t \<Rightarrow> size_t option" where
  "string_find str len c offset =
     (if offset \<ge> len then Some STRING_NPOS
      else do { found \<leftarrow> mem_chr str offset c (len - offset);
                Some (case found of Some f \<Rightarrow> f | None \<Rightarrow> STRING_NPOS) })"

text \<open>The \<open>do ... while (offset <= last_offset)\<close> loop.\<close>

function find_string_loop :: "byte list \<Rightarrow> byte list \<Rightarrow> size_t \<Rightarrow> size_t \<Rightarrow> size_t \<Rightarrow> size_t option" where
  "find_string_loop str key key_length last_offset offset =
     (case mem_get key 0 of
        None \<Rightarrow> None
      | Some keychar \<Rightarrow>
     (case mem_chr str offset keychar (1 + last_offset - offset) of
        None \<Rightarrow> None
      | Some None \<Rightarrow> Some STRING_NPOS
      | Some (Some found) \<Rightarrow>
     (case mem_equal str found key 0 key_length of
        None \<Rightarrow> None
      | Some True \<Rightarrow> Some found
      | Some False \<Rightarrow>
          if 1 + found \<le> last_offset then find_string_loop str key key_length last_offset (1 + found)
          else Some STRING_NPOS)))"
  by pat_completeness auto
termination
  by (relation "measure (\<lambda>(str, key, n, last_offset, offset). Suc last_offset - offset)")
     (auto dest!: mem_chr_behind)

definition string_find_string :: "byte list \<Rightarrow> size_t \<Rightarrow> byte list \<Rightarrow> size_t \<Rightarrow> size_t \<Rightarrow> size_t option" where
  "string_find_string str len key key_length offset =
     (if key_length = 0 then Some offset
      else if key_length > len \<or> offset > len - key_length then Some STRING_NPOS
      else find_string_loop str key key_length (len - key_length) offset)"

text \<open>
  The loops of the remaining functions: \<open>while (offset < length)\<close> upwards, and \<open>while (offset !=
  STRING_NPOS)\<close> downwards, where the step below position 0 wraps to \<open>STRING_NPOS\<close>. The test of
  a position is an argument; it fails when it reads outside of a buffer.
\<close>

function scan_up :: "(nat \<Rightarrow> bool option) \<Rightarrow> size_t \<Rightarrow> size_t \<Rightarrow> size_t option" where
  "scan_up test len offset =
     (if offset < len then
        (case test offset of
           None \<Rightarrow> None
         | Some True \<Rightarrow> Some offset
         | Some False \<Rightarrow> scan_up test len (offset + 1))
      else Some STRING_NPOS)"
  by pat_completeness auto
termination
  by (relation "measure (\<lambda>(test, len, offset). len - offset)") auto

function scan_down :: "(nat \<Rightarrow> bool option) \<Rightarrow> size_t \<Rightarrow> size_t option" where
  "scan_down test offset =
     (if offset \<noteq> STRING_NPOS then
        (case test offset of
           None \<Rightarrow> None
         | Some True \<Rightarrow> Some offset
         | Some False \<Rightarrow> scan_down test (size_sub offset 1))
      else Some STRING_NPOS)"
  by pat_completeness auto
termination
  by (relation "measure (\<lambda>(test, offset). if offset = STRING_NPOS then 0 else Suc offset)")
     (auto simp: size_sub_def STRING_NPOS_def)

declare find_string_loop.simps [simp del] scan_up.simps [simp del] scan_down.simps [simp del]

definition string_rfind :: "byte list \<Rightarrow> size_t \<Rightarrow> byte \<Rightarrow> size_t \<Rightarrow> size_t option" where
  "string_rfind str len c offset =
     (let offset = (if offset \<ge> len then size_sub len 1 else offset)
      in scan_down (\<lambda>i. map_option (\<lambda>x. c = x) (mem_get str i)) offset)"

definition string_rfind_string :: "byte list \<Rightarrow> size_t \<Rightarrow> byte list \<Rightarrow> size_t \<Rightarrow> size_t \<Rightarrow> size_t option" where
  "string_rfind_string str len key key_length offset =
     (if key_length > len then Some STRING_NPOS
      else if key_length = 0 then Some (if offset > len then len else offset)
      else let offset = (if offset \<ge> len - key_length then len - key_length else offset)
           in scan_down (\<lambda>i. mem_equal str i key 0 key_length) offset)"

text \<open>\<open>string_find(tokens, token_length, str[offset], 0) != STRING_NPOS\<close>\<close>

definition is_token :: "byte list \<Rightarrow> byte list \<Rightarrow> size_t \<Rightarrow> nat \<Rightarrow> bool option" where
  "is_token str tokens token_length offset =
     do { c \<leftarrow> mem_get str offset;
          found \<leftarrow> string_find tokens token_length c 0;
          Some (found \<noteq> STRING_NPOS) }"

definition string_find_first_of :: "byte list \<Rightarrow> size_t \<Rightarrow> byte list \<Rightarrow> size_t \<Rightarrow> size_t \<Rightarrow> size_t option" where
  "string_find_first_of str len tokens token_length offset =
     (if token_length = 0 then Some STRING_NPOS else scan_up (is_token str tokens token_length) len offset)"

definition string_find_last_of :: "byte list \<Rightarrow> size_t \<Rightarrow> byte list \<Rightarrow> size_t \<Rightarrow> size_t \<Rightarrow> size_t option" where
  "string_find_last_of str len tokens token_length offset =
     (if token_length = 0 then Some STRING_NPOS
      else let offset = (if offset \<ge> len then size_sub len 1 else offset)
           in scan_down (is_token str tokens token_length) offset)"

definition string_find_first_not_of :: "byte list \<Rightarrow> size_t \<Rightarrow> byte list \<Rightarrow> size_t \<Rightarrow> size_t \<Rightarrow> size_t option" where
  "string_find_first_not_of str len tokens token_length offset =
     (if offset \<ge> len then Some STRING_NPOS
      else if token_length = 0 then Some offset
      else scan_up (\<lambda>i. map_option Not (is_token str tokens token_length i)) len offset)"

definition string_find_last_not_of :: "byte list \<Rightarrow> size_t \<Rightarrow> byte list \<Rightarrow> size_t \<Rightarrow> size_t \<Rightarrow> size_t option" where
  "string_find_last_not_of str len tokens token_length offset =
     (let offset = (if offset \<ge> len then size_sub len 1 else offset)
      in if token_length = 0 then Some offset
         else scan_down (\<lambda>i. map_option Not (is_token str tokens token_length i)) offset)"

section \<open>Comparing and cutting\<close>

text \<open>A substring is its offset and its length in the buffer of the string; \<open>string_null\<close> is \<^const>\<open>None\<close>.\<close>

definition string_ends_with :: "byte list \<Rightarrow> size_t \<Rightarrow> byte list \<Rightarrow> size_t \<Rightarrow> bool option" where
  "string_ends_with str len suffix suffix_length =
     (if len < suffix_length then Some False
      else if suffix_length = 0 then Some True
      else mem_equal str (len - suffix_length) suffix 0 suffix_length)"

definition string_equal :: "byte list \<Rightarrow> size_t \<Rightarrow> byte list \<Rightarrow> size_t \<Rightarrow> bool option" where
  "string_equal rhs rhs_length lhs lhs_length =
     (if rhs_length \<noteq> 0 \<and> lhs_length = rhs_length then mem_equal rhs 0 lhs 0 rhs_length
      else Some (rhs_length = 0 \<and> lhs_length = 0))"

definition string_equal_substr :: "byte list \<Rightarrow> size_t \<Rightarrow> size_t \<Rightarrow> byte list \<Rightarrow> size_t \<Rightarrow> size_t \<Rightarrow> bool option" where
  "string_equal_substr rhs rhs_length rhs_offset lhs lhs_length lhs_offset =
     (let rhs_remain = (if rhs_offset < rhs_length then rhs_length - rhs_offset else 0);
          lhs_remain = (if lhs_offset < lhs_length then lhs_length - lhs_offset else 0)
      in string_equal (drop rhs_offset rhs) rhs_remain (drop lhs_offset lhs) lhs_remain)"

fun string_array_find :: "byte list list \<Rightarrow> byte list \<Rightarrow> nat \<Rightarrow> int option" where
  "string_array_find [] needle i = Some (-1)"
| "string_array_find (s # array) needle i =
     do { eq \<leftarrow> string_equal s (length s) needle (length needle);
          if eq then Some (int i) else string_array_find array needle (i + 1) }"

definition string_strip :: "byte list \<Rightarrow> size_t \<Rightarrow> byte list \<Rightarrow> size_t \<Rightarrow> (nat \<times> size_t) option" where
  "string_strip str len delimiters delim_length =
     (if len = 0 then Some (0, 0)
      else do { start \<leftarrow> string_find_first_not_of str len delimiters delim_length 0;
                end' \<leftarrow> string_find_last_not_of str len delimiters delim_length (len - 1);
                if start \<noteq> STRING_NPOS then
                  do { c_assert (end' \<noteq> STRING_NPOS);
                       Some (start, size_sub end' start + 1) }
                else Some (0, 0) })"

definition string_split :: "byte list \<Rightarrow> size_t \<Rightarrow> byte list \<Rightarrow> size_t \<Rightarrow> bool \<Rightarrow> ((nat \<times> size_t) \<times> nat \<times> size_t) option" where
  "string_split str len separators sep_length allowempty =
     do { start \<leftarrow> (if allowempty then Some 0 else string_find_first_not_of str len separators sep_length 0);
          if start = STRING_NPOS then Some ((0, 0), (0, 0))
          else do {
            delim \<leftarrow> string_find_first_of str len separators sep_length start;
            if delim \<noteq> STRING_NPOS then do {
              rest \<leftarrow> string_find_first_not_of str len separators sep_length delim;
              Some ((start, delim - start), if rest \<noteq> STRING_NPOS then (rest, len - rest) else (0, 0)) }
            else Some ((start, len - start), (len, 0)) } }"

definition string_substr :: "size_t \<Rightarrow> size_t \<Rightarrow> size_t \<Rightarrow> (nat \<times> size_t) option" where
  "string_substr len offset sub_length =
     (if offset < len then
        let end' = (offset + sub_length) mod SIZE_MOD
        in if end' < len \<and> sub_length < len then Some (offset, sub_length)
           else Some (offset, len - offset)
      else None)"

section \<open>The reference\<close>

text \<open>
  A search is a search through the list of the positions to try, in the order in which they are
  tried. \<open>occurs key str i\<close> says that the key stands in the string at \<open>i\<close>.
\<close>

definition npos :: "nat option \<Rightarrow> size_t" where
  "npos r = (case r of Some i \<Rightarrow> i | None \<Rightarrow> STRING_NPOS)"

definition occurs :: "byte list \<Rightarrow> byte list \<Rightarrow> nat \<Rightarrow> bool" where
  "occurs key str i \<longleftrightarrow> i + length key \<le> length str \<and> take (length key) (drop i str) = key"

lemma npos_simps [simp]: "npos (Some i) = i" "npos None = STRING_NPOS"
  by (simp_all add: npos_def)

lemma find_cong_list: "(\<And>x. x \<in> set xs \<Longrightarrow> P x = Q x) \<Longrightarrow> List.find P xs = List.find Q xs"
  by (induction xs) auto

lemma find_Some_iff_mem: "List.find P xs = Some x \<Longrightarrow> x \<in> set xs \<and> P x"
  by (induction xs) (auto split: if_splits)

lemma find_None_all: "List.find P xs = None \<longleftrightarrow> (\<forall>x\<in>set xs. \<not> P x)"
  by (induction xs) auto

lemma find_upt_Some:
  "List.find P [k..<n] = Some f \<Longrightarrow> k \<le> f \<and> f < n \<and> P f \<and> (\<forall>i. k \<le> i \<and> i < f \<longrightarrow> \<not> P i)"
proof -
  assume "List.find P [k..<n] = Some f"
  then obtain j where j: "j < n - k" "P (k + j)" "f = k + j" "\<And>l. l < j \<Longrightarrow> \<not> P (k + l)"
    unfolding find_Some_iff by auto
  have "\<not> P i" if "k \<le> i" "i < f" for i using j(4) [of "i - k"] j(3) that by simp
  then show ?thesis using j(1-3) by auto
qed

lemma find_skip: "k \<le> m \<Longrightarrow> m \<le> n \<Longrightarrow> \<forall>i. k \<le> i \<and> i < m \<longrightarrow> \<not> P i \<Longrightarrow>
    List.find P [k..<n] = List.find P [m..<n]"
proof -
  assume a: "k \<le> m" "m \<le> n" "\<forall>i. k \<le> i \<and> i < m \<longrightarrow> \<not> P i"
  have app: "List.find P (xs @ ys) = (case List.find P xs of None \<Rightarrow> List.find P ys | Some x \<Rightarrow> Some x)" for xs ys
    by (induction xs) auto
  have "[k..<n] = [k..<m] @ [m..<n]" using a(1,2) upt_add_eq_append [of k m "n - m"] by simp
  moreover have "List.find P [k..<m] = None" using a(3) by (simp add: find_None_all)
  ultimately show ?thesis by (simp add: app)
qed

lemma first_index_find:
  "map_option (\<lambda>i. ofs + i) (first_index P xs) = List.find (\<lambda>i. P (xs ! (i - ofs))) [ofs..<ofs + length xs]"
proof (induction xs arbitrary: ofs)
  case (Cons x xs)
  have "map_option (\<lambda>i. ofs + i) (map_option Suc (first_index P xs)) = map_option (\<lambda>i. Suc ofs + i) (first_index P xs)"
    by (simp add: option.map_comp o_def)
  also have "\<dots> = List.find (\<lambda>i. P (xs ! (i - Suc ofs))) [Suc ofs..<Suc ofs + length xs]" by (rule Cons.IH)
  also have "\<dots> = List.find (\<lambda>i. P ((x # xs) ! (i - ofs))) [Suc ofs..<Suc ofs + length xs]"
    by (rule find_cong_list) (auto simp: nth_Cons Suc_diff_Suc diff_Suc split: nat.splits)
  finally show ?case by (simp add: upt_conv_Cons del: upt_Suc)
qed simp

lemma mem_chr_find:
  assumes "ofs + n \<le> length buf"
  shows "mem_chr buf ofs c n = Some (List.find (\<lambda>i. buf ! i = c) [ofs..<ofs + n])"
proof -
  have "map_option (\<lambda>i. ofs + i) (first_index (\<lambda>x. x = c) (take n (drop ofs buf))) =
      List.find (\<lambda>i. take n (drop ofs buf) ! (i - ofs) = c) [ofs..<ofs + n]"
    using assms first_index_find [of ofs "\<lambda>x. x = c" "take n (drop ofs buf)"] by simp
  also have "\<dots> = List.find (\<lambda>i. buf ! i = c) [ofs..<ofs + n]"
    using assms by (intro find_cong_list) auto
  finally show ?thesis using assms by (simp add: mem_chr_def mem_load_Some)
qed

lemma string_find_find:
  "len \<le> length str \<Longrightarrow> string_find str len c offset = Some (npos (List.find (\<lambda>i. str ! i = c) [offset..<len]))"
  by (auto simp: string_find_def mem_chr_find npos_def)

lemma mem_equal_occurs:
  "i + length key \<le> length str \<Longrightarrow> mem_equal str i key 0 (length key) = Some (occurs key str i)"
  by (simp add: mem_equal_def mem_load_Some occurs_def)

lemma occurs_head: "occurs key str i \<Longrightarrow> key \<noteq> [] \<Longrightarrow> str ! i = key ! 0"
  by (cases key) (auto simp: occurs_def dest: arg_cong [where f = hd] simp: hd_drop_conv_nth hd_take)

lemma occurs_take: "n \<le> length str \<Longrightarrow> i + length key \<le> n \<Longrightarrow> occurs key (take n str) i = occurs key str i"
  by (simp add: occurs_def drop_take)

lemma scan_up_find:
  "(\<And>i. i < len \<Longrightarrow> test i = Some (P i)) \<Longrightarrow> scan_up test len offset = Some (npos (List.find P [offset..<len]))"
proof (induction test len offset rule: scan_up.induct)
  case (1 test len offset)
  show ?case
  proof (cases "offset < len")
    case True
    then show ?thesis using 1 by (subst scan_up.simps) (auto simp: upt_conv_Cons split: bool.split)
  qed (simp add: scan_up.simps [of _ len])
qed

lemma scan_down_find:
  "(\<And>i. i \<le> k \<Longrightarrow> test i = Some (P i)) \<Longrightarrow> k < STRING_NPOS \<Longrightarrow>
     scan_down test k = Some (npos (List.find P (rev [0..<Suc k])))"
proof (induction k)
  case 0
  have "scan_down test STRING_NPOS = Some STRING_NPOS" by (simp add: scan_down.simps)
  then have "scan_down test (size_sub 0 1) = Some STRING_NPOS" by (simp add: size_sub_def STRING_NPOS_def)
  then show ?case using 0 by (subst scan_down.simps) (auto split: bool.split)
next
  case (Suc k)
  then show ?case by (subst scan_down.simps) (auto split: bool.split)
qed

text \<open>The start of a backward search: past the end it is the last position, and nothing in an empty string.\<close>

lemma scan_down_clamped:
  assumes "\<And>i. i < len \<Longrightarrow> test i = Some (P i)" "len \<le> STRING_NPOS"
  shows "scan_down test (if offset \<ge> len then size_sub len 1 else offset) =
    Some (npos (List.find P (rev [0..<min (Suc offset) len])))"
proof (cases "len = 0")
  case True
  have "size_sub 0 1 = STRING_NPOS" by (simp add: size_sub_def STRING_NPOS_def)
  then show ?thesis using True by (simp add: scan_down.simps)
next
  case False
  define k where "k = (if offset \<ge> len then size_sub len 1 else offset)"
  have "k < len" "Suc k = min (Suc offset) len" using False by (auto simp: k_def)
  then show ?thesis using scan_down_find [of k test P] assms unfolding k_def [symmetric] by simp
qed

lemma is_token_set:
  assumes "i < length str" "token_length \<le> length tokens" "token_length \<le> STRING_NPOS"
  shows "is_token str tokens token_length i = Some (str ! i \<in> set (take token_length tokens))"
proof -
  have "npos (List.find (\<lambda>j. tokens ! j = c) [0..<token_length]) \<noteq> STRING_NPOS \<longleftrightarrow> c \<in> set (take token_length tokens)" for c
  proof (cases "List.find (\<lambda>j. tokens ! j = c) [0..<token_length]")
    case None
    then have "\<forall>j<token_length. tokens ! j \<noteq> c" by (auto simp: find_None_all)
    then have "c \<notin> set (take token_length tokens)" using assms(2) by (auto simp: in_set_conv_nth)
    then show ?thesis by (simp add: None)
  next
    case (Some j)
    then have "j < token_length" "tokens ! j = c" by (auto dest: find_Some_iff_mem)
    then show ?thesis using Some assms(2,3) by (auto simp: in_set_conv_nth)
  qed
  then show ?thesis using assms by (simp add: is_token_def mem_get_Some string_find_find)
qed

lemma find_string_loop_find:
  assumes "key \<noteq> []" "last_offset + length key \<le> length str" "offset \<le> last_offset"
  shows "find_string_loop str key (length key) last_offset offset =
    Some (npos (List.find (occurs key str) [offset..<Suc last_offset]))"
  using assms
proof (induction str key "length key" last_offset offset rule: find_string_loop.induct)
  case (1 str key last_offset offset)
  let ?scan = "List.find (\<lambda>i. str ! i = key ! 0) [offset..<Suc last_offset]"
  have range: "offset + (1 + last_offset - offset) = Suc last_offset" "Suc last_offset \<le> length str"
    using "1.prems" by (cases key; simp)+
  have get: "mem_get key 0 = Some (key ! 0)" using "1.prems" by (simp add: mem_get_Some)
  have chr: "mem_chr str offset (key ! 0) (1 + last_offset - offset) = Some ?scan"
    using mem_chr_find [of offset "1 + last_offset - offset" str "key ! 0"] range by (simp del: upt_Suc)
  have unf: "find_string_loop str key (length key) last_offset offset =
      (case ?scan of None \<Rightarrow> Some STRING_NPOS
       | Some found \<Rightarrow>
          (case mem_equal str found key 0 (length key) of
             None \<Rightarrow> None
           | Some True \<Rightarrow> Some found
           | Some False \<Rightarrow>
               if 1 + found \<le> last_offset then find_string_loop str key (length key) last_offset (1 + found)
               else Some STRING_NPOS))"
    by (subst find_string_loop.simps) (simp only: get chr option.case)
  show ?case
  proof (cases ?scan)
    case None
    then have "\<forall>i. offset \<le> i \<and> i < Suc last_offset \<longrightarrow> \<not> occurs key str i"
      using occurs_head "1.prems"(1) unfolding find_None_all by (metis atLeastLessThan_iff atLeastLessThan_upt)
    then have "List.find (occurs key str) [offset..<Suc last_offset] = None" unfolding find_None_all by auto
    then show ?thesis unfolding unf None by (simp del: upt_Suc)
  next
    case (Some f)
    then have f: "offset \<le> f" "f \<le> last_offset" using find_Some_iff_mem [OF Some] by auto
    have "\<forall>i. offset \<le> i \<and> i < f \<longrightarrow> \<not> occurs key str i"
      using find_upt_Some [OF Some] occurs_head "1.prems"(1) by blast
    then have skip: "List.find (occurs key str) [offset..<Suc last_offset] = List.find (occurs key str) [f..<Suc last_offset]"
      using f by (intro find_skip) auto
    have eq: "mem_equal str f key 0 (length key) = Some (occurs key str f)"
      using f "1.prems" by (intro mem_equal_occurs) simp
    show ?thesis
    proof (cases "occurs key str f")
      case True
      then have "List.find (occurs key str) [offset..<Suc last_offset] = Some f"
        unfolding skip using f by (simp add: upt_conv_Cons del: upt_Suc)
      then show ?thesis unfolding unf Some
        using eq True by (simp del: upt_Suc)
    next
      case False
      then have tail: "List.find (occurs key str) [offset..<Suc last_offset] = List.find (occurs key str) [Suc f..<Suc last_offset]"
        unfolding skip using f by (simp add: upt_conv_Cons del: upt_Suc)
      show ?thesis
      proof (cases "1 + f \<le> last_offset")
        case True
        have IH: "find_string_loop str key (length key) last_offset (1 + f) =
            Some (npos (List.find (occurs key str) [1 + f..<Suc last_offset]))"
          using "1.hyps" [OF get chr Some eq _ True] "1.prems" True False by blast
        then show ?thesis unfolding unf Some tail
          using eq True False by (simp del: upt_Suc)
      next
        case end': False
        then show ?thesis unfolding unf Some tail
          using eq False f by simp
      qed
    qed
  qed
qed

section \<open>The searches are correct\<close>

lemma string_rfind_find:
  "len \<le> length str \<Longrightarrow> len \<le> STRING_NPOS \<Longrightarrow>
   string_rfind str len c offset = Some (npos (List.find (\<lambda>i. c = str ! i) (rev [0..<min (Suc offset) len])))"
  unfolding string_rfind_def Let_def by (rule scan_down_clamped) (simp_all add: mem_get_Some)

lemma string_find_string_find:
  assumes "len \<le> length str" "key \<noteq> []"
  shows "string_find_string str len key (length key) offset =
    Some (npos (List.find (occurs key (take len str)) [offset..<Suc len - length key]))"
proof (cases "length key \<le> len \<and> offset \<le> len - length key")
  case True
  then have "string_find_string str len key (length key) offset =
      Some (npos (List.find (occurs key str) [offset..<Suc (len - length key)]))"
    using assms find_string_loop_find [of key "len - length key" str offset] by (simp add: string_find_string_def)
  also have "List.find (occurs key str) [offset..<Suc (len - length key)] =
      List.find (occurs key (take len str)) [offset..<Suc (len - length key)]"
    using assms(1) True by (intro find_cong_list) (auto simp: occurs_take)
  finally show ?thesis using True by (simp add: Suc_diff_le)
next
  case False
  then have "[offset..<Suc len - length key] = []" by (cases key) auto
  then show ?thesis using False assms(2) by (auto simp: string_find_string_def)
qed

lemma string_rfind_string_find:
  assumes "len \<le> length str" "len < STRING_NPOS" "key \<noteq> []"
  shows "string_rfind_string str len key (length key) offset =
    Some (npos (List.find (occurs key (take len str)) (rev [0..<min (Suc offset) (Suc len - length key)])))"
proof (cases "length key \<le> len")
  case True
  define k where "k = (if offset \<ge> len - length key then len - length key else offset)"
  have k: "k \<le> len - length key" "Suc k = min (Suc offset) (Suc len - length key)"
    using True by (auto simp: k_def)
  have "scan_down (\<lambda>i. mem_equal str i key 0 (length key)) k = Some (npos (List.find (occurs key (take len str)) (rev [0..<Suc k])))"
  proof (rule scan_down_find)
    show "mem_equal str i key 0 (length key) = Some (occurs key (take len str) i)" if "i \<le> k" for i
      using that k(1) True assms(1) by (simp add: mem_equal_occurs occurs_take)
  qed (use k(1) assms(2) in simp)
  then have "scan_down (\<lambda>i. mem_equal str i key 0 (length key)) k =
      Some (npos (List.find (occurs key (take len str)) (rev [0..<min (Suc offset) (Suc len - length key)])))"
    by (simp only: k(2))
  moreover have "string_rfind_string str len key (length key) offset = scan_down (\<lambda>i. mem_equal str i key 0 (length key)) k"
    using True assms(3) by (auto simp: string_rfind_string_def k_def)
  ultimately show ?thesis by simp
next
  case False
  then show ?thesis by (simp add: string_rfind_string_def)
qed

lemma token_tests:
  assumes "len \<le> length str" "length tokens \<le> STRING_NPOS" "i < len"
  shows "is_token str tokens (length tokens) i = Some (str ! i \<in> set tokens)"
    "map_option Not (is_token str tokens (length tokens) i) = Some (str ! i \<notin> set tokens)"
  using is_token_set [of i str "length tokens" tokens] assms by simp_all

lemma string_find_first_of_find:
  assumes "len \<le> length str" "length tokens \<le> STRING_NPOS"
  shows "string_find_first_of str len tokens (length tokens) offset =
    Some (npos (List.find (\<lambda>i. str ! i \<in> set tokens) [offset..<len]))"
proof (cases "tokens = []")
  case True
  have "List.find (\<lambda>i. False) xs = None" for xs :: "nat list" by (simp add: find_None_all)
  then show ?thesis using True by (simp add: string_find_first_of_def)
next
  case False
  then show ?thesis using scan_up_find [OF token_tests(1) [OF assms]] by (simp add: string_find_first_of_def)
qed

lemma string_find_last_of_find:
  assumes "len \<le> length str" "len \<le> STRING_NPOS" "length tokens \<le> STRING_NPOS"
  shows "string_find_last_of str len tokens (length tokens) offset =
    Some (npos (List.find (\<lambda>i. str ! i \<in> set tokens) (rev [0..<min (Suc offset) len])))"
proof (cases "tokens = []")
  case True
  have "List.find (\<lambda>i. False) xs = None" for xs :: "nat list" by (simp add: find_None_all)
  then show ?thesis using True by (simp add: string_find_last_of_def)
next
  case False
  then show ?thesis using scan_down_clamped [OF token_tests(1) [OF assms(1,3)] assms(2)]
    by (simp add: string_find_last_of_def Let_def)
qed

lemma string_find_first_not_of_find:
  assumes "len \<le> length str" "length tokens \<le> STRING_NPOS"
  shows "string_find_first_not_of str len tokens (length tokens) offset =
    Some (npos (List.find (\<lambda>i. str ! i \<notin> set tokens) [offset..<len]))"
  using scan_up_find [OF token_tests(2) [OF assms], where offset = offset]
  by (auto simp: string_find_first_not_of_def upt_conv_Cons)

lemma string_find_last_not_of_find:
  assumes "len \<le> length str" "len \<le> STRING_NPOS" "length tokens \<le> STRING_NPOS"
  shows "string_find_last_not_of str len tokens (length tokens) offset =
    Some (npos (List.find (\<lambda>i. str ! i \<notin> set tokens) (rev [0..<min (Suc offset) len])))"
proof (cases "tokens = []")
  case True
  define k where "k = (if offset \<ge> len then size_sub len 1 else offset)"
  have "scan_down (\<lambda>i. Some True) k = Some (npos (List.find (\<lambda>i. True) (rev [0..<min (Suc offset) len])))"
    unfolding k_def by (rule scan_down_clamped [OF _ assms(2)]) simp
  moreover have "scan_down (\<lambda>i. Some True) k = Some k" by (subst scan_down.simps) auto
  ultimately show ?thesis using True unfolding string_find_last_not_of_def k_def by simp
next
  case False
  then show ?thesis using scan_down_clamped [OF token_tests(2) [OF assms(1,3)] assms(2)]
    by (simp add: string_find_last_not_of_def Let_def)
qed

text \<open>
  C19. Every search finds the first position, in the direction of the search from the given
  offset, at which its test holds, and \<open>STRING_NPOS\<close> when there is none; none of them reads
  outside of the string, the key or the token set. The two searches for a key are about keys
  that are not empty. All of the backward searches, \<open>string_rfind\<close>, \<open>string_rfind_string\<close>,
  \<open>string_find_last_of\<close> and \<open>string_find_last_not_of\<close>, find the last position that is at most the
  offset, though the comments of \<open>string.h\<close> on the last two speak of positions greater than or
  equal to it. A backward search from an offset past the end, and the wrap-around below position
  0, are covered.
\<close>

theorem string_search_correct:
  assumes "len \<le> length str" "len < STRING_NPOS" "key \<noteq> []" "length tokens \<le> STRING_NPOS"
  shows "string_find str len c offset = Some (npos (List.find (\<lambda>i. str ! i = c) [offset..<len])) \<and>
    string_rfind str len c offset = Some (npos (List.find (\<lambda>i. c = str ! i) (rev [0..<min (Suc offset) len]))) \<and>
    string_find_string str len key (length key) offset =
      Some (npos (List.find (occurs key (take len str)) [offset..<Suc len - length key])) \<and>
    string_rfind_string str len key (length key) offset =
      Some (npos (List.find (occurs key (take len str)) (rev [0..<min (Suc offset) (Suc len - length key)]))) \<and>
    string_find_first_of str len tokens (length tokens) offset =
      Some (npos (List.find (\<lambda>i. str ! i \<in> set tokens) [offset..<len])) \<and>
    string_find_last_of str len tokens (length tokens) offset =
      Some (npos (List.find (\<lambda>i. str ! i \<in> set tokens) (rev [0..<min (Suc offset) len]))) \<and>
    string_find_first_not_of str len tokens (length tokens) offset =
      Some (npos (List.find (\<lambda>i. str ! i \<notin> set tokens) [offset..<len])) \<and>
    string_find_last_not_of str len tokens (length tokens) offset =
      Some (npos (List.find (\<lambda>i. str ! i \<notin> set tokens) (rev [0..<min (Suc offset) len])))"
proof (intro conjI)
  have "len \<le> STRING_NPOS" using assms(2) by simp
  note string_rfind_find [OF assms(1) this] string_find_last_of_find [OF assms(1) this assms(4)]
    string_find_last_not_of_find [OF assms(1) this assms(4)]
  then show "string_rfind str len c offset = Some (npos (List.find (\<lambda>i. c = str ! i) (rev [0..<min (Suc offset) len])))"
    "string_find_last_of str len tokens (length tokens) offset =
      Some (npos (List.find (\<lambda>i. str ! i \<in> set tokens) (rev [0..<min (Suc offset) len])))"
    "string_find_last_not_of str len tokens (length tokens) offset =
      Some (npos (List.find (\<lambda>i. str ! i \<notin> set tokens) (rev [0..<min (Suc offset) len])))"
    by this+
qed (rule string_find_find [OF assms(1)] string_find_string_find [OF assms(1,3)] string_rfind_string_find [OF assms(1,2,3)]
    string_find_first_of_find [OF assms(1,4)] string_find_first_not_of_find [OF assms(1,4)])+

theorem string_search_correct_witness:
  "string_find_string [97, 98, 97, 98, 99, 0] 5 [97, 98, 99] (length [97, 98, 99 :: byte]) 0 = Some 2"
proof -
  have "string_find_string [97, 98, 97, 98, 99, 0] 5 [97, 98, 99] (length [97, 98, 99 :: byte]) 0 =
      Some (npos (List.find (occurs [97, 98, 99] (take 5 [97, 98, 97, 98, 99, 0])) [0..<Suc 5 - length [97, 98, 99 :: byte]]))"
    by (rule string_search_correct [where tokens = "[]", THEN conjunct2, THEN conjunct2, THEN conjunct1])
       (simp_all add: STRING_NPOS_def SIZE_MOD_def)
  also have "List.find (occurs [97, 98, 99] (take 5 [97, 98, 97, 98, 99, 0])) [0..<Suc 5 - length [97, 98, 99 :: byte]] = Some 2"
    by (simp add: occurs_def upt_rec)
  finally show ?thesis by simp
qed

section \<open>Cutting\<close>

lemma first_index_takeWhile:
  "first_index P xs = (let n = length (takeWhile (\<lambda>x. \<not> P x) xs) in if n < length xs then Some n else None)"
  by (induction xs) (auto simp: Let_def)

lemma find_takeWhile:
  assumes "len \<le> length str" "k \<le> len"
  shows "List.find (\<lambda>i. P (str ! i)) [k..<len] =
    (let n = length (takeWhile (\<lambda>x. \<not> P x) (drop k (take len str))) in if k + n < len then Some (k + n) else None)"
proof -
  let ?xs = "drop k (take len str)"
  have l: "k + length ?xs = len" using assms by simp
  have "List.find (\<lambda>i. P (str ! i)) [k..<len] = List.find (\<lambda>i. P (?xs ! (i - k))) [k..<len]"
    using assms by (intro find_cong_list) auto
  also have "\<dots> = map_option (\<lambda>i. k + i) (first_index P ?xs)" using first_index_find [of k P ?xs] l by simp
  finally show ?thesis using l by (auto simp: first_index_takeWhile Let_def)
qed

lemma find_rev_takeWhile:
  assumes "len \<le> length str"
  shows "List.find (\<lambda>i. P (str ! i)) (rev [0..<len]) =
    (let n = length (dropWhile (\<lambda>x. \<not> P x) (rev (take len str))) in if 0 < n then Some (n - 1) else None)"
  using assms
proof (induction len)
  case (Suc len)
  then have "rev (take (Suc len) str) = str ! len # rev (take len str)" by (simp add: take_Suc_conv_app_nth)
  then show ?case using Suc by simp
qed simp

text \<open>\<open>trim\<close> cuts the characters of a set from both ends.\<close>

definition trim :: "byte set \<Rightarrow> byte list \<Rightarrow> byte list" where
  "trim D s = rev (dropWhile (\<lambda>x. x \<in> D) (rev (dropWhile (\<lambda>x. x \<in> D) s)))"

text \<open>The part of a string an offset and a length stand for.\<close>

definition part :: "byte list \<Rightarrow> nat \<times> size_t \<Rightarrow> byte list" where
  "part str r = take (snd r) (drop (fst r) str)"

lemma dropWhile_rev_length:
  "xs \<noteq> [] \<Longrightarrow> \<not> P (hd xs) \<Longrightarrow> dropWhile P (rev (ys @ xs)) = dropWhile P (rev xs) @ rev ys"
  by (cases xs) (auto simp: dropWhile_append)

lemma rev_dropWhile_take: "rev (dropWhile P (rev t)) = take (length (dropWhile P (rev t))) t"
proof (induction t rule: rev_induct)
  case (snoc x xs)
  then show ?case using length_dropWhile_le [of P "rev xs"] by simp
qed simp

lemma string_strip_trim:
  assumes "len \<le> length str" "len < STRING_NPOS" "length D \<le> STRING_NPOS"
  shows "\<exists>r. string_strip str len D (length D) = Some r \<and> fst r + snd r \<le> len \<and> part str r = trim (set D) (take len str)"
proof -
  let ?P = "\<lambda>x. x \<in> set D"
  let ?s = "take len str"
  define a where "a = length (takeWhile ?P ?s)"
  define b where "b = length (dropWhile ?P (rev ?s))"
  have first: "string_find_first_not_of str len D (length D) 0 = Some (npos (if a < len then Some a else None))"
    using find_takeWhile [OF assms(1), of 0 "\<lambda>x. x \<notin> set D"] string_find_first_not_of_find [OF assms(1,3)]
    by (simp add: a_def Let_def)
  have last: "string_find_last_not_of str len D (length D) (len - 1) = Some (npos (if 0 < b then Some (b - 1) else None))"
    if "len \<noteq> 0"
    using find_rev_takeWhile [OF assms(1), of "\<lambda>x. x \<notin> set D"] that assms(2)
      string_find_last_not_of_find [OF assms(1) _ assms(3), of "len - 1"]
    by (simp add: b_def Let_def)
  have parts: "?s = takeWhile ?P ?s @ dropWhile ?P ?s" by simp
  show ?thesis
  proof (cases "dropWhile ?P ?s = []")
    case True
    then have "a = len" using parts assms(1) unfolding a_def
      by (metis append_Nil2 length_take min.absorb2)
    then have "string_strip str len D (length D) = Some (0, 0)"
      using first last unfolding string_strip_def by (cases "len = 0") simp_all
    then show ?thesis unfolding trim_def True by (simp add: part_def)
  next
    case False
    let ?t = "dropWhile ?P ?s"
    have hd: "\<not> ?P (hd ?t)" using hd_dropWhile [OF False] .
    have "a + length ?t = len" using length_append [of "takeWhile ?P ?s" ?t] assms(1) unfolding takeWhile_dropWhile_id a_def by simp
    moreover have "0 < length ?t" using False by simp
    ultimately have alt: "a < len" "length ?t = len - a" by linarith+
    define e where "e = length (dropWhile ?P (rev ?t))"
    have "dropWhile ?P (rev ?s) = dropWhile ?P (rev ?t) @ rev (takeWhile ?P ?s)"
      using dropWhile_rev_length [of ?t ?P "takeWhile ?P ?s"] False hd by (simp only: takeWhile_dropWhile_id simp_thms)
    then have b: "b = e + a" unfolding b_def a_def e_def by simp
    have e: "0 < e" "e \<le> len - a"
    proof -
      have "hd ?t \<in> set (rev ?t)" using False by simp
      then show "0 < e" using hd unfolding e_def by (auto simp: dropWhile_eq_Nil_conv)
      show "e \<le> len - a" using length_dropWhile_le [of ?P "rev ?t"] alt(2) unfolding e_def by simp
    qed
    have "e + a - Suc 0 \<noteq> STRING_NPOS" using e alt(1) assms(2) by linarith
    then have r: "string_strip str len D (length D) = Some (a, e)"
      using first last alt(1) e assms(2) unfolding string_strip_def b by simp
    have "take e ?t = rev (dropWhile ?P (rev ?t))" unfolding e_def by (rule rev_dropWhile_take [symmetric])
    moreover have "?t = drop a ?s" unfolding a_def by (rule dropWhile_eq_drop)
    ultimately have "rev (dropWhile ?P (rev ?t)) = take e (drop a ?s)" by simp
    then have "part str (a, e) = trim (set D) ?s"
      using e(2) unfolding part_def trim_def by (simp add: drop_take min_def)
    then show ?thesis using r e alt(1) by (intro exI [of _ "(a, e)"]) simp
  qed
qed

lemma string_split_parts:
  fixes allowempty :: bool
  assumes "len \<le> length str" "len < STRING_NPOS" "length S \<le> STRING_NPOS"
  defines "s \<equiv> (if allowempty then take len str else dropWhile (\<lambda>x. x \<in> set S) (take len str))"
  shows "\<exists>l r. string_split str len S (length S) allowempty = Some (l, r) \<and>
    part str l = takeWhile (\<lambda>x. x \<notin> set S) s \<and>
    part str r = dropWhile (\<lambda>x. x \<in> set S) (dropWhile (\<lambda>x. x \<notin> set S) s)"
proof -
  let ?P = "\<lambda>x. x \<in> set S"
  define a where "a = (if allowempty then 0 else length (takeWhile ?P (take len str)))"
  have s: "s = drop a (take len str)" unfolding s_def a_def by (simp add: dropWhile_eq_drop)
  have "a \<le> len" using length_takeWhile_le [of ?P "take len str"] assms(1) unfolding a_def by simp
  define n where "n = length (takeWhile (\<lambda>x. x \<notin> set S) s)"
  have "n \<le> length s" unfolding n_def by (rule length_takeWhile_le)
  then have n: "a + n \<le> len" using \<open>a \<le> len\<close> assms(1) by (simp add: s)
  define k where "k = length (takeWhile ?P (drop n s))"
  have d: "dropWhile (\<lambda>x. x \<notin> set S) s = drop n s" unfolding n_def by (rule dropWhile_eq_drop)
  have d2: "dropWhile ?P (drop n s) = drop k (drop n s)" unfolding k_def by (rule dropWhile_eq_drop)
  have start: "(if allowempty then Some 0 else string_find_first_not_of str len S (length S) 0) =
      Some (if allowempty \<or> a < len then a else STRING_NPOS)"
    using find_takeWhile [OF assms(1), of 0 "\<lambda>x. x \<notin> set S"] string_find_first_not_of_find [OF assms(1,3)]
    by (simp add: a_def Let_def)
  have delim: "string_find_first_of str len S (length S) a = Some (npos (if a + n < len then Some (a + n) else None))"
    using find_takeWhile [OF assms(1) \<open>a \<le> len\<close>, of ?P] string_find_first_of_find [OF assms(1,3)]
    by (simp add: n_def s Let_def)
  have rest: "string_find_first_not_of str len S (length S) (a + n) =
      Some (npos (if a + n + k < len then Some (a + n + k) else None))"
    using find_takeWhile [OF assms(1) n, of "\<lambda>x. x \<notin> set S"] string_find_first_not_of_find [OF assms(1,3)]
    by (simp add: k_def s Let_def add.commute [of n a])
  show ?thesis
  proof (cases "allowempty \<or> a < len")
    case False
    then have "s = []" using \<open>a \<le> len\<close> assms(1) by (simp add: s)
    moreover have "string_split str len S (length S) allowempty = Some ((0, 0), (0, 0))"
      using start False by (simp add: string_split_def)
    ultimately show ?thesis by (auto simp: part_def)
  next
    case True
    then have st: "(if allowempty then Some 0 else string_find_first_not_of str len S (length S) 0) = Some a" "a \<noteq> STRING_NPOS"
      using start \<open>a \<le> len\<close> assms(2) by auto
    have tw: "takeWhile (\<lambda>x. x \<notin> set S) s = take n s" unfolding n_def by (rule takeWhile_eq_take)
    show ?thesis
    proof (cases "a + n < len")
      case d1: True
      then have "string_split str len S (length S) allowempty =
          Some ((a, n), if a + n + k < len then (a + n + k, len - (a + n + k)) else (0, 0))"
        using st delim rest assms(2) unfolding string_split_def by simp
      moreover have "part str (a, n) = take n s" using n by (simp add: part_def s drop_take min_def)
      moreover have "part str (if a + n + k < len then (a + n + k, len - (a + n + k)) else (0, 0)) = drop k (drop n s)"
        by (simp add: part_def s drop_take add.assoc add.left_commute add.commute)
      ultimately show ?thesis unfolding tw d d2 by blast
    next
      case d1: False
      then have "a + n = len" using n by simp
      have "string_split str len S (length S) allowempty = Some ((a, len - a), (len, 0))"
        using st delim d1 unfolding string_split_def by simp
      moreover have "part str (a, len - a) = take n s" using \<open>a + n = len\<close> by (auto simp: part_def s drop_take min_def)
      moreover have "drop k (drop n s) = []" using \<open>a + n = len\<close> assms(1) by (simp add: s)
      ultimately show ?thesis unfolding tw d d2 by (auto simp: part_def)
    qed
  qed
qed

text \<open>
  \<open>string_strip\<close> returns the part of the string between its leading and trailing delimiters;
  \<open>string_split\<close> returns the part up to the first separator and the part behind the group of
  separators found there, after skipping leading separators unless empty parts are allowed;
  \<open>string_equal\<close> and \<open>string_ends_with\<close> decide equality and the suffix relation.
\<close>

theorem string_cut_correct:
  assumes "len \<le> length str" "len < STRING_NPOS" "length D \<le> STRING_NPOS"
  shows "(\<exists>r. string_strip str len D (length D) = Some r \<and> fst r + snd r \<le> len \<and> part str r = trim (set D) (take len str)) \<and>
    (\<exists>l r. string_split str len D (length D) allowempty = Some (l, r) \<and>
      (let s = if allowempty then take len str else dropWhile (\<lambda>x. x \<in> set D) (take len str)
       in part str l = takeWhile (\<lambda>x. x \<notin> set D) s \<and>
          part str r = dropWhile (\<lambda>x. x \<in> set D) (dropWhile (\<lambda>x. x \<notin> set D) s))) \<and>
    string_equal str len D (length D) = Some (take len str = D) \<and>
    string_ends_with str len D (length D) = Some (\<exists>front. take len str = front @ D)"
proof (intro conjI)
  show "string_equal str len D (length D) = Some (take len str = D)"
    using assms(1) by (auto simp: string_equal_def mem_equal_def mem_load_Some)
  have "(\<exists>front. take len str = front @ D) \<longleftrightarrow> length D \<le> len \<and> drop (len - length D) (take len str) = D"
  proof
    assume "length D \<le> len \<and> drop (len - length D) (take len str) = D"
    then show "\<exists>front. take len str = front @ D" by (metis append_take_drop_id)
  next
    assume "\<exists>front. take len str = front @ D"
    then obtain front where f: "take len str = front @ D" ..
    then have "len = length front + length D" using assms(1) by (metis length_append length_take min.absorb2)
    then show "length D \<le> len \<and> drop (len - length D) (take len str) = D" using f by simp
  qed
  then show "string_ends_with str len D (length D) = Some (\<exists>front. take len str = front @ D)"
    using assms(1) by (auto simp: string_ends_with_def mem_equal_def mem_load_Some drop_take)
qed (use string_strip_trim [OF assms] string_split_parts [OF assms] in \<open>simp_all add: Let_def\<close>)

theorem string_cut_correct_witness:
  "\<exists>r. string_strip [32, 97, 32, 98, 32, 0] 5 [32] (length [32 :: byte]) = Some r \<and>
     part [32, 97, 32, 98, 32, 0] r = [97, 32, 98]"
proof -
  have "\<exists>r. string_strip [32, 97, 32, 98, 32, 0] 5 [32] (length [32 :: byte]) = Some r \<and> fst r + snd r \<le> 5 \<and>
      part [32, 97, 32, 98, 32, 0] r = trim (set [32]) (take 5 [32, 97, 32, 98, 32, 0])"
    by (rule string_cut_correct [THEN conjunct1]) (simp_all add: STRING_NPOS_def SIZE_MOD_def)
  moreover have "trim (set [32]) (take 5 [32, 97, 32, 98, 32, 0]) = [97, 32, 98]" by (simp add: trim_def)
  ultimately show ?thesis by auto
qed

end
