(* ===== verification/String_Buffer.thy ===== *)
theory String_Buffer
  imports Prelude
begin

text \<open>
  \<open>foundation/string.c\<close>, building strings in a buffer of fixed capacity: copying, appending,
  prepending, concatenating and merging. A buffer is the list of its bytes, so its capacity is
  the length of the list; every function returns the buffer and the length of the string in it.
  A \<open>va_list\<close> of pointer and length pairs up to the null pointer is the list of the fragments.
  \<open>raw n\<close> is what a new allocation of \<open>n\<close> bytes holds.
\<close>

type_synonym string_t = "byte list \<times> size_t"

section \<open>Copying and extending\<close>

definition string_copy :: "byte list \<Rightarrow> size_t \<Rightarrow> byte list \<Rightarrow> size_t \<Rightarrow> string_t option" where
  "string_copy dst capacity src len =
     (if capacity \<noteq> 0 then
        let n = (if len \<noteq> 0 \<and> len \<ge> capacity then capacity - 1 else len)
        in do { dst \<leftarrow> (if len \<noteq> 0 then do { data \<leftarrow> mem_load src 0 n; mem_store dst 0 data } else Some dst);
                dst \<leftarrow> mem_set dst n 0;
                Some (dst, n) }
      else Some (dst, 0))"

definition string_clone :: "(nat \<Rightarrow> byte list) \<Rightarrow> byte list \<Rightarrow> size_t \<Rightarrow> string_t option" where
  "string_clone raw str len =
     do { clone \<leftarrow> (if len \<noteq> 0 then do { data \<leftarrow> mem_load str 0 len; mem_store (raw (len + 1)) 0 data } else Some (raw (len + 1)));
          clone \<leftarrow> mem_set clone len 0;
          Some (clone, len) }"

text \<open>\<open>memory_reallocate\<close> keeps the bytes that fit.\<close>

definition reallocate :: "(nat \<Rightarrow> byte list) \<Rightarrow> byte list \<Rightarrow> nat \<Rightarrow> byte list" where
  "reallocate raw str n = take n str @ drop (length str) (raw n)"

definition string_resize :: "(nat \<Rightarrow> byte list) \<Rightarrow> byte list \<Rightarrow> size_t \<Rightarrow> size_t \<Rightarrow> size_t \<Rightarrow> byte \<Rightarrow> string_t option" where
  "string_resize raw str len capacity new_length c =
     do { c_assert (len \<le> capacity);
          let str = (if new_length \<ge> capacity
                     then if capacity \<noteq> 0 then reallocate raw str (new_length + 1) else raw (new_length + 1)
                     else str);
          str \<leftarrow> (if len < new_length then mem_store str len (replicate (new_length - len) c) else Some str);
          str \<leftarrow> mem_set str new_length 0;
          Some (str, new_length) }"

text \<open>
  The clamping of a fragment to the capacity: the length of the string, the total length, and the
  part of the fragment that fits.
\<close>

definition append_clamp :: "size_t \<Rightarrow> size_t \<Rightarrow> size_t \<Rightarrow> size_t \<times> size_t \<times> size_t" where
  "append_clamp len capacity suffix_length =
     (let total_length = len + suffix_length
      in if total_length \<ge> capacity then
           let len = (if len \<ge> capacity then capacity - 1 else len)
           in (len, capacity - 1, capacity - (len + 1))
         else (len, total_length, suffix_length))"

definition string_append_fragment :: "byte list \<Rightarrow> size_t \<Rightarrow> size_t \<Rightarrow> byte list \<Rightarrow> size_t \<Rightarrow> string_t option" where
  "string_append_fragment str len capacity suffix suffix_length =
     (if capacity = 0 then Some (str, 0)
      else if suffix_length = 0 then Some (str, len)
      else let (len, total_length, suffix_length) = append_clamp len capacity suffix_length
           in do { str \<leftarrow> (if suffix_length \<noteq> 0 then do { data \<leftarrow> mem_load suffix 0 suffix_length; mem_store str len data } else Some str);
                   str \<leftarrow> mem_set str total_length 0;
                   Some (str, total_length) })"

definition prepend_clamp :: "size_t \<Rightarrow> size_t \<Rightarrow> size_t \<Rightarrow> size_t \<times> size_t \<times> size_t \<times> size_t" where
  "prepend_clamp len capacity prefix_length =
     (let total_length = len + prefix_length
      in if total_length \<ge> capacity then
           let len = (if len \<ge> capacity then capacity - 1 else len);
               prefix_mod = capacity - (len + 1)
           in (len, capacity - 1, prefix_length - prefix_mod, prefix_mod)
         else (len, total_length, 0, prefix_length))"

definition string_prepend_fragment :: "byte list \<Rightarrow> size_t \<Rightarrow> size_t \<Rightarrow> byte list \<Rightarrow> size_t \<Rightarrow> string_t option" where
  "string_prepend_fragment str len capacity prefix prefix_length =
     (if capacity = 0 then Some (str, 0)
      else if prefix_length = 0 then Some (str, len)
      else let (len, total_length, prefix_offset, prefix_length) = prepend_clamp len capacity prefix_length
           in do { str \<leftarrow> (if len \<noteq> 0 \<and> prefix_length \<noteq> 0 then mem_move str prefix_length 0 len else Some str);
                   str \<leftarrow> (if prefix_length \<noteq> 0 then do { data \<leftarrow> mem_load prefix prefix_offset prefix_length; mem_store str 0 data } else Some str);
                   str \<leftarrow> mem_set str total_length 0;
                   Some (str, total_length) })"

definition string_append :: "byte list \<Rightarrow> size_t \<Rightarrow> size_t \<Rightarrow> byte list \<Rightarrow> size_t \<Rightarrow> string_t option" where
  "string_append = string_append_fragment"

definition string_prepend :: "byte list \<Rightarrow> size_t \<Rightarrow> size_t \<Rightarrow> byte list \<Rightarrow> size_t \<Rightarrow> string_t option" where
  "string_prepend = string_prepend_fragment"

text \<open>The loop over a \<open>va_list\<close>, which skips empty fragments.\<close>

fun fragment_loop :: "(byte list \<Rightarrow> size_t \<Rightarrow> size_t \<Rightarrow> byte list \<Rightarrow> size_t \<Rightarrow> string_t option) \<Rightarrow>
    size_t \<Rightarrow> byte list list \<Rightarrow> byte list \<Rightarrow> size_t \<Rightarrow> string_t option" where
  "fragment_loop fragment capacity [] str len = Some (str, len)"
| "fragment_loop fragment capacity (p # list) str len =
     (if length p \<noteq> 0 then
        (case fragment str len capacity p (length p) of
           None \<Rightarrow> None
         | Some (str, len) \<Rightarrow> fragment_loop fragment capacity list str len)
      else fragment_loop fragment capacity list str len)"

definition string_append_vlist :: "byte list \<Rightarrow> size_t \<Rightarrow> size_t \<Rightarrow> byte list list \<Rightarrow> string_t option" where
  "string_append_vlist str len capacity list = fragment_loop string_append_fragment capacity list str len"

definition string_append_varg :: "byte list \<Rightarrow> size_t \<Rightarrow> size_t \<Rightarrow> byte list \<Rightarrow> size_t \<Rightarrow> byte list list \<Rightarrow> string_t option" where
  "string_append_varg str len capacity suffix suffix_length list =
     do { (str, len) \<leftarrow> string_append_fragment str len capacity suffix suffix_length;
          string_append_vlist str len capacity list }"

definition string_prepend_vlist :: "byte list \<Rightarrow> size_t \<Rightarrow> size_t \<Rightarrow> byte list list \<Rightarrow> string_t option" where
  "string_prepend_vlist str len capacity list = fragment_loop string_prepend_fragment capacity list str len"

definition string_prepend_varg :: "byte list \<Rightarrow> size_t \<Rightarrow> size_t \<Rightarrow> byte list \<Rightarrow> size_t \<Rightarrow> byte list list \<Rightarrow> string_t option" where
  "string_prepend_varg str len capacity prefix prefix_length list =
     do { (str, len) \<leftarrow> string_prepend_fragment str len capacity prefix prefix_length;
          string_prepend_vlist str len capacity list }"

section \<open>Concatenating\<close>

definition string_concat :: "byte list \<Rightarrow> size_t \<Rightarrow> byte list \<Rightarrow> size_t \<Rightarrow> byte list \<Rightarrow> size_t \<Rightarrow> string_t option" where
  "string_concat str capacity prefix prefix_length suffix suffix_length =
     do { (str, len) \<leftarrow> string_copy str capacity prefix prefix_length;
          string_append str len capacity suffix suffix_length }"

definition string_concat_varg :: "byte list \<Rightarrow> size_t \<Rightarrow> byte list \<Rightarrow> size_t \<Rightarrow> byte list \<Rightarrow> size_t \<Rightarrow> byte list list \<Rightarrow> string_t option" where
  "string_concat_varg str capacity prefix prefix_length suffix suffix_length list =
     do { (str, len) \<leftarrow> string_copy str capacity prefix prefix_length;
          (str, len) \<leftarrow> string_append str len capacity suffix suffix_length;
          string_append_vlist str len capacity list }"

definition string_concat_vlist :: "byte list \<Rightarrow> size_t \<Rightarrow> byte list list \<Rightarrow> string_t option" where
  "string_concat_vlist str capacity list = fragment_loop string_append_fragment capacity list str 0"

definition string_allocate_concat :: "(nat \<Rightarrow> byte list) \<Rightarrow> byte list \<Rightarrow> size_t \<Rightarrow> byte list \<Rightarrow> size_t \<Rightarrow> string_t option" where
  "string_allocate_concat raw prefix prefix_length suffix suffix_length =
     (let buf = raw (prefix_length + suffix_length + 1)
      in do { buf \<leftarrow> (if prefix_length \<noteq> 0 then do { data \<leftarrow> mem_load prefix 0 prefix_length; mem_store buf 0 data } else Some buf);
              buf \<leftarrow> (if suffix_length \<noteq> 0 then do { data \<leftarrow> mem_load suffix 0 suffix_length; mem_store buf prefix_length data } else Some buf);
              buf \<leftarrow> mem_set buf (prefix_length + suffix_length) 0;
              Some (buf, prefix_length + suffix_length) })"

text \<open>The two passes over a \<open>va_list\<close>: adding up the lengths, then storing the fragments.\<close>

fun fragments_length :: "byte list list \<Rightarrow> size_t \<Rightarrow> size_t" where
  "fragments_length [] total_length = total_length"
| "fragments_length (p # list) total_length =
     fragments_length list (if length p \<noteq> 0 then total_length + length p else total_length)"

fun fragments_store :: "byte list list \<Rightarrow> byte list \<Rightarrow> size_t \<Rightarrow> byte list option" where
  "fragments_store [] buf len = Some buf"
| "fragments_store (p # list) buf len =
     (if length p \<noteq> 0 then
        (case mem_store buf len p of None \<Rightarrow> None | Some buf \<Rightarrow> fragments_store list buf (len + length p))
      else fragments_store list buf len)"

definition string_allocate_concat_varg :: "(nat \<Rightarrow> byte list) \<Rightarrow> byte list \<Rightarrow> size_t \<Rightarrow> byte list \<Rightarrow> size_t \<Rightarrow> byte list list \<Rightarrow> string_t option" where
  "string_allocate_concat_varg raw prefix prefix_length suffix suffix_length list =
     (let total_length = fragments_length list (prefix_length + suffix_length);
          buf = raw (total_length + 1)
      in do { buf \<leftarrow> (if prefix_length \<noteq> 0 then do { data \<leftarrow> mem_load prefix 0 prefix_length; mem_store buf 0 data } else Some buf);
              buf \<leftarrow> (if suffix_length \<noteq> 0 then do { data \<leftarrow> mem_load suffix 0 suffix_length; mem_store buf prefix_length data } else Some buf);
              buf \<leftarrow> fragments_store list buf (prefix_length + suffix_length);
              buf \<leftarrow> mem_set buf total_length 0;
              Some (buf, total_length) })"

definition string_allocate_concat_vlist :: "(nat \<Rightarrow> byte list) \<Rightarrow> byte list list \<Rightarrow> string_t option" where
  "string_allocate_concat_vlist raw list =
     (let total_length = fragments_length list 0;
          buf = raw (total_length + 1)
      in do { buf \<leftarrow> fragments_store list buf 0;
              buf \<leftarrow> mem_set buf total_length 0;
              Some (buf, total_length) })"

section \<open>Merging\<close>

text \<open>
  One clamped copy: \<open>limit = capacity - result.length; if (n < limit) limit = n; if (limit)
  memcpy(...); result.length += limit\<close>.
\<close>

definition merge_put :: "size_t \<Rightarrow> byte list \<Rightarrow> byte list \<Rightarrow> size_t \<Rightarrow> string_t option" where
  "merge_put capacity p dst len =
     (let limit = size_sub capacity len;
          limit = (if length p < limit then length p else limit)
      in do { dst \<leftarrow> (if limit \<noteq> 0 then do { data \<leftarrow> mem_load p 0 limit; mem_store dst len data } else Some dst);
              Some (dst, len + limit) })"

text \<open>The loop over all strings but the last, and the last.\<close>

fun merge_loop :: "size_t \<Rightarrow> byte list \<Rightarrow> byte list list \<Rightarrow> byte list \<Rightarrow> size_t \<Rightarrow> string_t option" where
  "merge_loop capacity delimiter [] dst len = Some (dst, len)"
| "merge_loop capacity delimiter [p] dst len = merge_put capacity p dst len"
| "merge_loop capacity delimiter (p # q # array) dst len =
     (case merge_put capacity p dst len of
        None \<Rightarrow> None
      | Some (dst, len) \<Rightarrow>
     (case merge_put capacity delimiter dst len of
        None \<Rightarrow> None
      | Some (dst, len) \<Rightarrow> merge_loop capacity delimiter (q # array) dst len))"

definition string_merge :: "byte list \<Rightarrow> size_t \<Rightarrow> byte list list \<Rightarrow> byte list \<Rightarrow> string_t option" where
  "string_merge dst capacity array delimiter =
     (if array = [] \<or> capacity = 0 then
        do { dst \<leftarrow> (if capacity \<noteq> 0 then mem_set dst 0 0 else Some dst); Some (dst, 0) }
      else do { (dst, len) \<leftarrow> merge_loop (capacity - 1) delimiter array dst 0;
                dst \<leftarrow> mem_set dst len 0;
                Some (dst, len) })"

text \<open>The loop of \<open>string_merge_vlist\<close> leaves at a fragment of which nothing can be copied.\<close>

fun merge_vlist_loop :: "size_t \<Rightarrow> byte list \<Rightarrow> byte list list \<Rightarrow> nat \<Rightarrow> byte list \<Rightarrow> size_t \<Rightarrow> string_t option" where
  "merge_vlist_loop capacity delimiter [] i dst len = Some (dst, len)"
| "merge_vlist_loop capacity delimiter (p # list) i dst len =
     (case (if i > 0 then merge_put capacity delimiter dst len else Some (dst, len)) of
        None \<Rightarrow> None
      | Some (dst, len) \<Rightarrow>
          if size_sub capacity len = 0 \<or> length p = 0 then Some (dst, len)
          else
     (case merge_put capacity p dst len of
        None \<Rightarrow> None
      | Some (dst, len) \<Rightarrow> merge_vlist_loop capacity delimiter list (i + 1) dst len))"

definition string_merge_vlist :: "byte list \<Rightarrow> size_t \<Rightarrow> byte list \<Rightarrow> byte list list \<Rightarrow> string_t option" where
  "string_merge_vlist dst capacity delimiter list =
     (if capacity = 0 then Some (dst, 0)
      else do { (dst, len) \<leftarrow> merge_vlist_loop (capacity - 1) delimiter list 0 dst 0;
                dst \<leftarrow> mem_set dst len 0;
                Some (dst, len) })"

text \<open>The merge of the arguments runs on the part of the buffer behind the first string and delimiter.\<close>

definition string_merge_varg :: "byte list \<Rightarrow> size_t \<Rightarrow> byte list \<Rightarrow> byte list \<Rightarrow> size_t \<Rightarrow> byte list list \<Rightarrow> string_t option" where
  "string_merge_varg dst capacity delimiter str len list =
     (if capacity = 0 then Some (dst, 0)
      else do {
        (dst, prelimit) \<leftarrow> string_copy dst capacity str len;
        if prelimit \<ge> capacity - 1 then Some (dst, prelimit)
        else do {
          (dst, premerge) \<leftarrow> string_append dst prelimit capacity delimiter (length delimiter);
          (sub, n) \<leftarrow> string_merge_vlist (drop premerge dst) (size_sub capacity premerge) delimiter list;
          let dst = take premerge dst @ sub;
          if n = 0 then
            do { let newlength = (if list \<noteq> [] then premerge else prelimit);
                 dst \<leftarrow> mem_set dst newlength 0;
                 Some (dst, newlength) }
          else Some (dst, n + premerge) } })"

section \<open>Strings in a buffer\<close>

text \<open>
  \<open>holds buf len text\<close>: the buffer holds the zero-terminated text. All functions keep this, and
  the texts they build are cut to what fits with the terminator: \<open>clip\<close> keeps the front,
  \<open>clip_front\<close> keeps the end of a text.
\<close>

definition holds :: "byte list \<Rightarrow> size_t \<Rightarrow> byte list \<Rightarrow> bool" where
  "holds buf len text \<longleftrightarrow> len < length buf \<and> take len buf = text \<and> buf ! len = 0"

definition clip :: "nat \<Rightarrow> byte list \<Rightarrow> byte list" where
  "clip capacity text = take (capacity - 1) text"

definition clip_front :: "nat \<Rightarrow> byte list \<Rightarrow> byte list" where
  "clip_front capacity text = drop (length text - (capacity - 1)) text"

lemma holds_length: "holds buf len t \<Longrightarrow> length t = len"
  by (auto simp: holds_def)

lemma holds_set:
  "len < length buf \<Longrightarrow> take len buf = t \<Longrightarrow> mem_set buf len 0 = Some (buf[len := 0]) \<and> holds (buf[len := 0]) len t"
  by (auto simp: holds_def mem_set_def)

lemma holds_overwrite_end:
  assumes "ofs + length xs < length buf" "take ofs buf = t"
  shows "take (ofs + length xs) (overwrite buf ofs xs) = t @ xs"
  using assms by (simp add: take_overwrite_upto)

lemma string_copy_holds:
  assumes "0 < length dst" "len \<le> length src"
  shows "\<exists>dst' n. string_copy dst (length dst) src len = Some (dst', n) \<and> length dst' = length dst \<and>
    holds dst' n (clip (length dst) (take len src))"
proof -
  define n where "n = (if len \<noteq> 0 \<and> len \<ge> length dst then length dst - 1 else len)"
  have mn: "n = min (length dst - 1) len" using assms(1) by (auto simp: n_def)
  then have n: "n \<le> length dst - 1" "n \<le> len" "take n src = clip (length dst) (take len src)"
    by (auto simp: clip_def)
  have n1: "n < length dst" using n(1) assms(1) by linarith
  define buf where "buf = (if len \<noteq> 0 then overwrite dst 0 (take n src) else dst)"
  have len: "length (take n src) = n" using n(2) assms(2) by simp
  have buf: "length buf = length dst" "take n buf = take n src"
    using n n1 len assms take_overwrite_upto [of 0 "take n src" dst] by (auto simp: buf_def)
  have "string_copy dst (length dst) src len = Some (buf[n := 0], n)"
    using assms n1 n(2) len unfolding string_copy_def n_def [symmetric] Let_def buf_def
    by (simp add: mem_load_Some mem_store_Some mem_set_Some)
  moreover have "holds (buf[n := 0]) n (clip (length dst) (take len src))"
    using n n1 buf by (simp add: holds_def)
  ultimately show ?thesis using buf(1) by auto
qed

lemma append_fragment_holds:
  assumes "holds str len t" "n \<le> length suffix"
  shows "\<exists>str' len'. string_append_fragment str len (length str) suffix n = Some (str', len') \<and> length str' = length str \<and>
    holds str' len' (clip (length str) (t @ take n suffix))"
proof (cases "n = 0")
  case True
  then show ?thesis using assms(1) by (auto simp: string_append_fragment_def holds_def clip_def)
next
  case False
  have t: "length t = len" "len < length str" "take len str = t" using assms(1) by (auto simp: holds_def)
  define k where "k = (if len + n \<ge> length str then length str - (len + 1) else n)"
  have mk: "k = min (length str - 1 - len) n" using t(2) by (auto simp: k_def)
  then have k: "k \<le> n" "len + k < length str" "clip (length str) (t @ take n suffix) = t @ take k suffix"
    using t(1,2) by (auto simp: clip_def)
  have lk: "length (take k suffix) = k" using k(1) assms(2) by simp
  define buf where "buf = (if k \<noteq> 0 then overwrite str len (take k suffix) else str)"
  have buf: "length buf = length str" "take (len + k) buf = t @ take k suffix"
    using k lk t holds_overwrite_end [of len "take k suffix" str t] by (auto simp: buf_def)
  have "string_append_fragment str len (length str) suffix n = Some (buf[len + k := 0], len + k)"
  proof -
    have "append_clamp len (length str) n = (len, len + k, k)" "length str \<noteq> 0"
      using t(2) by (auto simp: append_clamp_def k_def Let_def)
    then show ?thesis using False k(1,2) lk assms(2)
      by (simp add: string_append_fragment_def buf_def mem_load_Some mem_store_Some mem_set_Some)
  qed
  moreover have "holds (buf[len + k := 0]) (len + k) (clip (length str) (t @ take n suffix))"
    using k(2) buf unfolding k(3) by (simp add: holds_def)
  ultimately show ?thesis using buf(1) by auto
qed

lemma prepend_fragment_holds:
  assumes "holds str len t" "n \<le> length prefix"
  shows "\<exists>str' len'. string_prepend_fragment str len (length str) prefix n = Some (str', len') \<and> length str' = length str \<and>
    holds str' len' (clip_front (length str) (take n prefix @ t))"
proof (cases "n = 0")
  case True
  then show ?thesis using assms(1) by (auto simp: string_prepend_fragment_def holds_def clip_front_def)
next
  case False
  have t: "length t = len" "len < length str" "take len str = t" using assms(1) by (auto simp: holds_def)
  define k where "k = (if len + n \<ge> length str then length str - (len + 1) else n)"
  define p where "p = take k (drop (n - k) prefix)"
  have k: "k \<le> n" "len + k < length str" using t by (auto simp: k_def)
  have lp: "length p = k" using k(1) assms(2) by (simp add: p_def)
  have clip: "clip_front (length str) (take n prefix @ t) = p @ t"
  proof -
    have "length (take n prefix @ t) - (length str - 1) = n - k" using t assms(2) by (auto simp: k_def)
    then show ?thesis using k(1) assms(2) by (simp add: clip_front_def p_def drop_take)
  qed
  define moved where "moved = (if len \<noteq> 0 \<and> k \<noteq> 0 then overwrite str k t else str)"
  have moved: "length moved = length str" "take (k + len) moved = take k moved @ t"
    using k t by (auto simp: moved_def overwrite_def)
  define buf where "buf = (if k \<noteq> 0 then overwrite moved 0 p else moved)"
  have buf: "length buf = length str" "take (len + k) buf = p @ t"
  proof -
    show "length buf = length str" using moved(1) k(2) lp by (simp add: buf_def)
    have "drop k (take (k + len) moved) = t" unfolding moved(2) using moved(1) k(2) by simp
    then show "take (len + k) buf = p @ t"
      using lp t by (auto simp: buf_def overwrite_def add.commute drop_take)
  qed
  have "string_prepend_fragment str len (length str) prefix n = Some (buf[len + k := 0], len + k)"
  proof -
    have cl: "prepend_clamp len (length str) n = (len, len + k, n - k, k)" "length str \<noteq> 0"
      using t(2) by (auto simp: prepend_clamp_def k_def Let_def)
    have mv: "len \<noteq> 0 \<Longrightarrow> k \<noteq> 0 \<Longrightarrow> mem_move str k 0 len = Some moved"
      using t k by (simp add: mem_move_def mem_load_Some mem_store_Some moved_def)
    have ld: "mem_load prefix (n - k) k = Some p" using k assms(2) by (simp add: mem_load_Some p_def)
    have st: "k \<noteq> 0 \<Longrightarrow> mem_store moved 0 p = Some buf"
      using k lp moved(1) by (simp add: mem_store_Some buf_def)
    have same: "len = 0 \<or> k = 0 \<Longrightarrow> moved = str" "k = 0 \<Longrightarrow> buf = str" by (auto simp: moved_def buf_def)
    show ?thesis
      using False buf(1) k(2) cl ld mv st same
      by (cases "len = 0"; cases "k = 0") (auto simp: string_prepend_fragment_def mem_set_Some)
  qed
  moreover have "holds (buf[len + k := 0]) (len + k) (clip_front (length str) (take n prefix @ t))"
    using k(2) buf unfolding clip by (simp add: holds_def)
  ultimately show ?thesis using buf(1) by auto
qed

section \<open>Lists of fragments\<close>

lemma holds_short: "holds buf len t \<Longrightarrow> length t < length buf"
  by (auto simp: holds_def)

text \<open>
  What \<open>string_append_vlist\<close> and \<open>string_prepend_vlist\<close> rely on: adding one fragment keeps a
  string in the buffer and cuts the result to the capacity, adding an empty one changes nothing,
  and adding two fragments is adding their combination.
\<close>

locale fragment_op =
  fixes fragment :: "byte list \<Rightarrow> size_t \<Rightarrow> size_t \<Rightarrow> byte list \<Rightarrow> size_t \<Rightarrow> string_t option"
    and cut :: "nat \<Rightarrow> byte list \<Rightarrow> byte list \<Rightarrow> byte list"
    and combine :: "byte list \<Rightarrow> byte list \<Rightarrow> byte list"
  assumes fragment_holds: "holds str len t \<Longrightarrow>
      \<exists>str' len'. fragment str len (length str) p (length p) = Some (str', len') \<and> length str' = length str \<and>
        holds str' len' (cut (length str) t p)"
    and cut_empty: "length t < capacity \<Longrightarrow> cut capacity t [] = t"
    and cut_cut: "cut capacity (cut capacity t p) q = cut capacity t (combine p q)"
begin

lemma loop_holds:
  "holds str len t \<Longrightarrow>
     \<exists>str' len'. fragment_loop fragment (length str) fs str len = Some (str', len') \<and> length str' = length str \<and>
       holds str' len' (foldl (cut (length str)) t fs)"
proof (induction fs arbitrary: str len t)
  case Nil
  then show ?case by simp
next
  case (Cons p fs)
  show ?case
  proof (cases "p = []")
    case True
    have "cut (length str) t [] = t" using Cons.prems by (intro cut_empty) (auto simp: holds_def)
    then show ?thesis using Cons.IH [OF Cons.prems] True by simp
  next
    case False
    from fragment_holds [OF Cons.prems, of p] obtain str' len' where
      s: "fragment str len (length str) p (length p) = Some (str', len')" "length str' = length str"
         "holds str' len' (cut (length str) t p)" by blast
    then show ?thesis using Cons.IH [OF s(3)] False by simp
  qed
qed

lemma fold_cut: "length t < capacity \<Longrightarrow> foldl (cut capacity) t fs = cut capacity t (foldl combine [] fs)"
proof (induction fs rule: rev_induct)
  case Nil
  then show ?case by (simp add: cut_empty)
next
  case (snoc p fs)
  then show ?case by (simp add: cut_cut)
qed

lemma vlist_holds:
  assumes "holds str len t"
  shows "\<exists>str' len'. fragment_loop fragment (length str) fs str len = Some (str', len') \<and> length str' = length str \<and>
    holds str' len' (cut (length str) t (foldl combine [] fs))"
  using loop_holds [OF assms, of fs] fold_cut [OF holds_short [OF assms], of fs] by simp

lemma varg_holds:
  assumes "holds str len t"
  shows "\<exists>str' len'. do { (str1, len1) \<leftarrow> fragment str len (length str) p (length p);
      fragment_loop fragment (length str) fs str1 len1 } = Some (str', len') \<and> length str' = length str \<and>
    holds str' len' (cut (length str) t (foldl combine [] (p # fs)))"
proof -
  from fragment_holds [OF assms, of p] obtain str1 len1 where
    s: "fragment str len (length str) p (length p) = Some (str1, len1)" "length str1 = length str"
       "holds str1 len1 (cut (length str) t p)" by blast
  have "foldl (cut (length str)) (cut (length str) t p) fs = cut (length str) t (foldl combine [] (p # fs))"
    using fold_cut [OF holds_short [OF assms], of "p # fs"] by simp
  then show ?thesis using loop_holds [OF s(3), of fs] s(1,2) by simp
qed

end

lemma clip_clip: "clip n (clip n x @ q) = clip n (x @ q)"
  by (cases "length x \<le> n - 1") (auto simp: clip_def)

lemma clip_front_rev: "clip_front n x = rev (clip n (rev x))"
  by (simp add: clip_front_def clip_def rev_take)

interpretation append_op: fragment_op string_append_fragment "\<lambda>n t p. clip n (t @ p)" "\<lambda>p q. p @ q"
proof unfold_locales
  fix str t p :: "byte list" and len
  assume "holds str len t"
  then show "\<exists>str' len'. string_append_fragment str len (length str) p (length p) = Some (str', len') \<and>
      length str' = length str \<and> holds str' len' (clip (length str) (t @ p))"
    using append_fragment_holds [of str len t "length p" p] by simp
next
  fix t p q :: "byte list" and n
  show "clip n (clip n (t @ p) @ q) = clip n (t @ p @ q)" using clip_clip [of n "t @ p" q] by simp
qed (auto simp: clip_def)

interpretation prepend_op: fragment_op string_prepend_fragment "\<lambda>n t p. clip_front n (p @ t)" "\<lambda>p q. q @ p"
proof unfold_locales
  fix str t p :: "byte list" and len
  assume "holds str len t"
  then show "\<exists>str' len'. string_prepend_fragment str len (length str) p (length p) = Some (str', len') \<and>
      length str' = length str \<and> holds str' len' (clip_front (length str) (p @ t))"
    using prepend_fragment_holds [of str len t "length p" p] by simp
next
  fix t p q :: "byte list" and n
  show "clip_front n (q @ clip_front n (p @ t)) = clip_front n ((q @ p) @ t)"
    using clip_clip [of n "rev (p @ t)" "rev q"] by (simp add: clip_front_rev)
qed (auto simp: clip_front_def)

lemma foldl_append: "foldl (\<lambda>p q. p @ q) x fs = x @ concat fs"
  by (induction fs arbitrary: x) auto

lemma foldl_prepend: "foldl (\<lambda>p q. q @ p) x fs = concat (rev fs) @ x"
  by (induction fs arbitrary: x) auto

text \<open>
  C21. In a buffer of any capacity, appending fragments to a zero-terminated string gives the
  zero-terminated front of the concatenation that fits; prepending them one after the other
  gives the end of it that fits, the last fragment first; \<open>string_concat_varg\<close> is the front of
  the concatenation. No byte outside of the buffer is read or written.
\<close>

theorem string_append_prepend_correct:
  assumes "holds str len t"
  shows "(\<exists>str' len'. string_append_varg str len (length str) p (length p) fs = Some (str', len') \<and>
      length str' = length str \<and> holds str' len' (take (length str - 1) (t @ p @ concat fs))) \<and>
    (\<exists>str' len'. string_prepend_varg str len (length str) p (length p) fs = Some (str', len') \<and>
      length str' = length str \<and>
      (let all = concat (rev (p # fs)) @ t in holds str' len' (drop (length all - (length str - 1)) all))) \<and>
    (\<exists>str' len'. string_concat_varg str (length str) p (length p) s (length s) fs = Some (str', len') \<and>
      length str' = length str \<and> holds str' len' (take (length str - 1) (p @ s @ concat fs)))"
proof (intro conjI)
  show "\<exists>str' len'. string_append_varg str len (length str) p (length p) fs = Some (str', len') \<and>
      length str' = length str \<and> holds str' len' (take (length str - 1) (t @ p @ concat fs))"
    using append_op.varg_holds [OF assms, of p fs]
    by (simp add: string_append_varg_def string_append_vlist_def foldl_append clip_def)
  show "\<exists>str' len'. string_prepend_varg str len (length str) p (length p) fs = Some (str', len') \<and>
      length str' = length str \<and>
      (let all = concat (rev (p # fs)) @ t in holds str' len' (drop (length all - (length str - 1)) all))"
    using prepend_op.varg_holds [OF assms, of p fs]
    by (simp add: string_prepend_varg_def string_prepend_vlist_def foldl_prepend clip_front_def Let_def)
  have "0 < length str" using assms by (auto simp: holds_def)
  from string_copy_holds [OF this, of "length p" p] obtain str1 len1 where
    s: "string_copy str (length str) p (length p) = Some (str1, len1)" "length str1 = length str"
       "holds str1 len1 (clip (length str) p)" by auto
  have eq: "clip n (clip n p @ x) = clip n (p @ x)" for n x by (rule clip_clip)
  have "\<exists>str' len'. string_concat_varg str (length str) p (length p) s (length s) fs = Some (str', len') \<and>
      length str' = length str \<and> holds str' len' (clip (length str) (p @ s @ concat fs))"
    using append_op.varg_holds [OF s(3), of s fs] s(1,2)
    by (simp add: string_concat_varg_def string_append_def string_append_vlist_def foldl_append eq)
  then show "\<exists>str' len'. string_concat_varg str (length str) p (length p) s (length s) fs = Some (str', len') \<and>
      length str' = length str \<and> holds str' len' (take (length str - 1) (p @ s @ concat fs))"
    unfolding clip_def .
qed

theorem string_append_prepend_correct_witness:
  "\<exists>str' len'. string_append_varg [97, 98, 0, 7, 7] 2 5 [99] 1 [[100], [101]] = Some (str', len') \<and>
     holds str' len' [97, 98, 99, 100]"
proof -
  have "holds [97, 98, 0, 7, 7] 2 [97, 98]" by (simp add: holds_def)
  from string_append_prepend_correct [OF this, THEN conjunct1, of "[99]" "[[100], [101]]"] show ?thesis by (auto simp: numeral_eq_Suc)
qed

section \<open>Merging\<close>

text \<open>A buffer that holds the first \<open>capacity\<close> bytes of a text, without terminator.\<close>

definition filled :: "nat \<Rightarrow> byte list \<Rightarrow> byte list \<Rightarrow> size_t \<Rightarrow> bool" where
  "filled capacity x dst len \<longleftrightarrow> capacity < length dst \<and> len = min capacity (length x) \<and> take len dst = take capacity x"

lemma merge_put_filled:
  assumes "filled capacity x dst len"
  shows "\<exists>dst' len'. merge_put capacity p dst len = Some (dst', len') \<and> length dst' = length dst \<and>
    filled capacity (x @ p) dst' len'"
proof -
  have f: "capacity < length dst" "len \<le> capacity" "len = min capacity (length x)" "take len dst = take capacity x"
    using assms by (auto simp: filled_def)
  define k where "k = min (length p) (capacity - len)"
  have lim: "(if length p < size_sub capacity len then length p else size_sub capacity len) = k"
    using f(2) by (auto simp: k_def)
  define buf where "buf = (if k \<noteq> 0 then overwrite dst len (take k p) else dst)"
  have k: "k \<le> length p" "len + k \<le> capacity" using f(2) by (auto simp: k_def)
  have "merge_put capacity p dst len = Some (buf, len + k)"
    using k f(1) unfolding merge_put_def Let_def lim buf_def by (simp add: mem_load_Some mem_store_Some)
  moreover have "length buf = length dst" using k f(1) by (simp add: buf_def)
  moreover have "filled capacity (x @ p) buf (len + k)"
  proof -
    have "take (len + k) buf = take len dst @ take k p"
      using k f(1) take_overwrite_upto [of len "take k p" dst] by (auto simp: buf_def)
    also have "\<dots> = take capacity (x @ p)"
      using f(3,4) by (cases "length x \<le> capacity") (auto simp: k_def min_def)
    finally show ?thesis using f \<open>length buf = length dst\<close> by (auto simp: filled_def k_def)
  qed
  ultimately show ?thesis by blast
qed

fun join :: "byte list \<Rightarrow> byte list list \<Rightarrow> byte list" where
  "join d [] = []"
| "join d (p # ps) = p @ concat (map (\<lambda>q. d @ q) ps)"

lemma merge_loop_filled:
  "filled capacity x dst len \<Longrightarrow> \<exists>dst' len'. merge_loop capacity d array dst len = Some (dst', len') \<and>
     length dst' = length dst \<and> filled capacity (x @ join d array) dst' len'"
proof (induction capacity d array dst len arbitrary: x rule: merge_loop.induct)
  case (1 capacity d dst len)
  then show ?case by simp
next
  case (2 capacity d p dst len)
  then show ?case using merge_put_filled [OF 2] by simp
next
  case (3 capacity d p q array dst len)
  from merge_put_filled [OF 3(2), of p] obtain dst1 len1 where
    1: "merge_put capacity p dst len = Some (dst1, len1)" "length dst1 = length dst" "filled capacity (x @ p) dst1 len1"
    by blast
  from merge_put_filled [OF 1(3), of d] obtain dst2 len2 where
    2: "merge_put capacity d dst1 len1 = Some (dst2, len2)" "length dst2 = length dst1" "filled capacity ((x @ p) @ d) dst2 len2"
    by blast
  have "join d (p # q # array) = p @ d @ join d (q # array)" by simp
  then show ?case using 3(1) [OF 1(1) refl 2(1) refl 2(3)] 1(1,2) 2(1,2) by simp
qed

text \<open>
  The text \<open>string_merge_vlist\<close> builds: it stops at the first empty fragment, behind the
  delimiter for it.
\<close>

definition merged :: "byte list \<Rightarrow> byte list list \<Rightarrow> byte list" where
  "merged d fs = (let front = takeWhile (\<lambda>p. p \<noteq> []) fs
     in join d front @ (if front \<noteq> [] \<and> front \<noteq> fs then d else []))"

definition merged_more :: "byte list \<Rightarrow> byte list list \<Rightarrow> byte list" where
  "merged_more d fs = (let front = takeWhile (\<lambda>p. p \<noteq> []) fs
     in concat (map (\<lambda>q. d @ q) front) @ (if front \<noteq> fs then d else []))"

lemma filled_full: "filled capacity x dst len \<Longrightarrow> size_sub capacity len = 0 \<Longrightarrow> filled capacity (x @ y) dst len"
  by (auto simp: filled_def size_sub_def split: if_splits)

lemma merge_vlist_more:
  "filled capacity x dst len \<Longrightarrow> 0 < i \<Longrightarrow> \<exists>dst' len'. merge_vlist_loop capacity d fs i dst len = Some (dst', len') \<and>
     length dst' = length dst \<and> filled capacity (x @ merged_more d fs) dst' len'"
proof (induction fs arbitrary: i x dst len)
  case Nil
  then show ?case by (simp add: merged_more_def)
next
  case (Cons p fs)
  from merge_put_filled [OF Cons.prems(1), of d] obtain dst1 len1 where
    1: "merge_put capacity d dst len = Some (dst1, len1)" "length dst1 = length dst" "filled capacity (x @ d) dst1 len1"
    by blast
  consider "p = []" | "p \<noteq> []" "size_sub capacity len1 = 0" | "p \<noteq> []" "size_sub capacity len1 \<noteq> 0" by blast
  then show ?case
  proof cases
    case 1
    then show ?thesis using \<open>merge_put capacity d dst len = Some (dst1, len1)\<close> \<open>length dst1 = length dst\<close>
        \<open>filled capacity (x @ d) dst1 len1\<close> Cons.prems(2) by (simp add: merged_more_def)
  next
    case 2
    have "merged_more d (p # fs) = d @ p @ merged_more d fs" using 2(1) by (simp add: merged_more_def Let_def)
    then have "filled capacity (x @ merged_more d (p # fs)) dst1 len1"
      using filled_full [OF 1(3) 2(2), of "p @ merged_more d fs"] by simp
    then show ?thesis using 1 2(2) Cons.prems(2) by simp
  next
    case 3
    have eq: "merged_more d (p # fs) = d @ p @ merged_more d fs" using 3(1) by (simp add: merged_more_def Let_def)
    from merge_put_filled [OF 1(3), of p] obtain dst2 len2 where
      4: "merge_put capacity p dst1 len1 = Some (dst2, len2)" "length dst2 = length dst1" "filled capacity ((x @ d) @ p) dst2 len2"
      by blast
    show ?thesis using Cons.IH [OF 4(3), of "i + 1"] 1(1,2) 4(1,2) 3 Cons.prems(2) by (simp add: eq)
  qed
qed

lemma merge_vlist_filled:
  assumes "filled capacity [] dst 0"
  shows "\<exists>dst' len'. merge_vlist_loop capacity d fs 0 dst 0 = Some (dst', len') \<and>
     length dst' = length dst \<and> filled capacity (merged d fs) dst' len'"
proof (cases fs)
  case Nil
  then show ?thesis using assms by (simp add: merged_def)
next
  case (Cons p fs')
  consider "p = []" | "p \<noteq> []" "capacity = 0" | "p \<noteq> []" "capacity \<noteq> 0" by blast
  then show ?thesis
  proof cases
    case 1
    then show ?thesis using assms Cons by (simp add: merged_def)
  next
    case 2
    then have "filled capacity (merged d fs) dst 0" using filled_full [OF assms, of "merged d fs"] by simp
    then show ?thesis using 2 Cons by simp
  next
    case 3
    have eq: "merged d (p # fs') = p @ merged_more d fs'" using 3(1) by (simp add: merged_def merged_more_def Let_def)
    from merge_put_filled [OF assms, of p] obtain dst1 len1 where
      1: "merge_put capacity p dst 0 = Some (dst1, len1)" "length dst1 = length dst" "filled capacity p dst1 len1"
      by auto
    then show ?thesis using merge_vlist_more [OF 1(3), of 1 d fs'] 3 Cons by (simp add: eq)
  qed
qed

lemma filled_terminate:
  assumes "filled (length dst - 1) x dst' len" "length dst' = length dst"
  shows "mem_set dst' len 0 = Some (dst'[len := 0]) \<and> holds (dst'[len := 0]) len (clip (length dst) x)"
proof -
  have "len < length dst'" "take len dst' = clip (length dst) x"
    using assms by (auto simp: filled_def clip_def)
  then show ?thesis by (rule holds_set)
qed

lemma string_merge_holds:
  assumes "0 < length dst"
  shows "\<exists>dst' len'. string_merge dst (length dst) array d = Some (dst', len') \<and> length dst' = length dst \<and>
    holds dst' len' (clip (length dst) (join d array))"
proof (cases "array = []")
  case True
  then show ?thesis using assms by (simp add: string_merge_def mem_set_Some holds_def clip_def)
next
  case False
  have "filled (length dst - 1) [] dst 0" using assms by (simp add: filled_def)
  from merge_loop_filled [OF this, of d array] obtain dst1 len1 where
    1: "merge_loop (length dst - 1) d array dst 0 = Some (dst1, len1)" "length dst1 = length dst"
       "filled (length dst - 1) (join d array) dst1 len1" by auto
  then show ?thesis using filled_terminate [OF 1(3,2)] False assms by (simp add: string_merge_def)
qed

lemma string_merge_vlist_holds:
  assumes "0 < length dst"
  shows "\<exists>dst' len'. string_merge_vlist dst (length dst) d fs = Some (dst', len') \<and> length dst' = length dst \<and>
    holds dst' len' (clip (length dst) (merged d fs))"
proof -
  have "filled (length dst - 1) [] dst 0" using assms by (simp add: filled_def)
  from merge_vlist_filled [OF this, of d fs] obtain dst1 len1 where
    1: "merge_vlist_loop (length dst - 1) d fs 0 dst 0 = Some (dst1, len1)" "length dst1 = length dst"
       "filled (length dst - 1) (merged d fs) dst1 len1" by auto
  then show ?thesis using filled_terminate [OF 1(3,2)] assms by (simp add: string_merge_vlist_def)
qed

lemma clip_behind: "length x < n \<Longrightarrow> x @ clip (n - length x) y = clip n (x @ y)"
  by (simp add: clip_def)

lemma holds_behind:
  assumes "length x = n" "holds sub k t" shows "holds (x @ sub) (k + n) (x @ t)"
  using assms by (auto simp: holds_def nth_append)

lemma string_merge_varg_holds:
  assumes "0 < length dst"
  shows "\<exists>dst' len'. string_merge_varg dst (length dst) d str (length str) fs = Some (dst', len') \<and> length dst' = length dst \<and>
    holds dst' len' (clip (length dst) (if fs = [] then str else str @ d @ merged d fs))"
proof -
  from string_copy_holds [OF assms, of "length str" str] obtain dst1 n1 where
    1: "string_copy dst (length dst) str (length str) = Some (dst1, n1)" "length dst1 = length dst"
       "holds dst1 n1 (clip (length dst) str)" by auto
  show ?thesis
  proof (cases "n1 \<ge> length dst - 1")
    case True
    then have "clip (length dst) str = clip (length dst) (if fs = [] then str else str @ d @ merged d fs)"
      using holds_length [OF 1(3)] by (auto simp: clip_def)
    then show ?thesis using 1 True assms by (simp add: string_merge_varg_def)
  next
    case False
    then have s: "clip (length dst) str = str" "length str = n1" using holds_length [OF 1(3)] by (auto simp: clip_def)
    from append_fragment_holds [OF 1(3), of "length d" d] obtain dst2 n2 where
      2: "string_append dst1 n1 (length dst) d (length d) = Some (dst2, n2)" "length dst2 = length dst"
         "holds dst2 n2 (clip (length dst) (str @ d))" using 1(2) s by (auto simp: string_append_def)
    have n2: "n2 < length dst" "take n2 dst2 = clip (length dst) (str @ d)" using 2(2,3) by (auto simp: holds_def)
    have l2: "length (clip (length dst) (str @ d)) = n2" using holds_length [OF 2(3)] .
    have rem: "0 < length (drop n2 dst2)" "length (drop n2 dst2) = length dst - n2" using n2 2(2) by auto
    from string_merge_vlist_holds [OF rem(1), of d fs] obtain sub k where
      3: "string_merge_vlist (drop n2 dst2) (length dst - n2) d fs = Some (sub, k)" "length sub = length dst - n2"
         "holds sub k (clip (length dst - n2) (merged d fs))" unfolding rem(2) by auto
    define whole where "whole = take n2 dst2 @ sub"
    have wl: "length whole = length dst" using n2(1) l2 2(2) 3(2) by (simp add: whole_def n2(2))
    have hw: "holds whole (k + n2) (clip (length dst) (str @ d) @ clip (length dst - n2) (merged d fs))"
      unfolding whole_def n2(2) using holds_behind [OF l2 3(3)] .
    have "clip (length dst) (str @ d) @ clip (length dst - n2) (merged d fs) = clip (length dst) (clip (length dst) (str @ d) @ merged d fs)"
      using clip_behind [of "clip (length dst) (str @ d)" "length dst" "merged d fs"] l2 n2(1) by simp
    also have "\<dots> = clip (length dst) (str @ d @ merged d fs)" using clip_clip [of "length dst" "str @ d" "merged d fs"] by simp
    finally have hw': "holds whole (k + n2) (clip (length dst) (str @ d @ merged d fs))" using hw by simp
    have run: "string_merge_varg dst (length dst) d str (length str) fs =
        (if k = 0 then do { dst \<leftarrow> mem_set whole (if fs \<noteq> [] then n2 else n1) 0; Some (dst, if fs \<noteq> [] then n2 else n1) }
         else Some (whole, k + n2))"
      using 1(1) 2(1) 3(1) False assms n2(1) unfolding string_merge_varg_def whole_def by simp
    have n1n2: "n1 \<le> n2" using l2 s(2) False by (auto simp: clip_def)
    consider "fs = []" | "fs \<noteq> []" "k = 0" | "fs \<noteq> []" "k \<noteq> 0" by blast
    then show ?thesis
    proof cases
      case 1
      then have "k = 0" using holds_length [OF 3(3)] by (simp add: merged_def clip_def)
      have "take n1 whole = take n1 (take n2 whole)" using n1n2 by (simp add: min_def)
      also have "take n2 whole = clip (length dst) (str @ d)" unfolding whole_def n2(2) using l2 by simp
      also have "take n1 (clip (length dst) (str @ d)) = str" using s(2) False by (simp add: clip_def)
      finally have "take n1 whole = str" .
      then have "mem_set whole n1 0 = Some (whole[n1 := 0]) \<and> holds (whole[n1 := 0]) n1 str"
        using n1n2 n2(1) wl by (intro holds_set) auto
      then show ?thesis using run 1 \<open>k = 0\<close> wl s(1) by simp
    next
      case 2
      have "n2 < length whole" using wl n2(1) by simp
      moreover have "whole[n2 := 0] = whole" using hw' 2(2) by (auto simp: holds_def intro: list_update_same_conv [THEN iffD2])
      ultimately show ?thesis using run 2 wl hw' by (simp add: mem_set_Some)
    next
      case 3
      then show ?thesis using run wl hw' by simp
    qed
  qed
qed

text \<open>
  \<open>string_merge\<close> writes the front of the strings joined by the delimiter that fits, zero
  terminated. The variants on argument lists do so only up to the first empty argument: there
  they stop, behind the delimiter for it, and drop all arguments that follow.
\<close>

theorem string_merge_correct:
  assumes "0 < length dst"
  shows "(\<exists>dst' len'. string_merge dst (length dst) array d = Some (dst', len') \<and> length dst' = length dst \<and>
      holds dst' len' (take (length dst - 1) (join d array))) \<and>
    (\<exists>dst' len'. string_merge_vlist dst (length dst) d fs = Some (dst', len') \<and> length dst' = length dst \<and>
      holds dst' len' (take (length dst - 1) (merged d fs))) \<and>
    (\<exists>dst' len'. string_merge_varg dst (length dst) d str (length str) fs = Some (dst', len') \<and> length dst' = length dst \<and>
      holds dst' len' (take (length dst - 1) (if fs = [] then str else str @ d @ merged d fs))) \<and>
    ([] \<notin> set fs \<longrightarrow> merged d fs = join d fs) \<and>
    merged d ([x] # [] # fs) = [x] @ d"
proof (intro conjI impI)
  show "merged d fs = join d fs" if "[] \<notin> set fs"
  proof -
    have tw: "takeWhile (\<lambda>p. p \<noteq> []) fs = fs" using that by (auto simp: takeWhile_eq_all_conv)
    show ?thesis unfolding merged_def Let_def tw by simp
  qed
qed (use string_merge_holds [OF assms] string_merge_vlist_holds [OF assms] string_merge_varg_holds [OF assms]
  in \<open>auto simp: clip_def merged_def\<close>)

theorem string_merge_correct_witness:
  "\<exists>dst' len'. string_merge (replicate 6 7) 6 [[97], [], [98, 99]] [44] = Some (dst', len') \<and>
     holds dst' len' [97, 44, 44, 98, 99]"
  using string_merge_correct [of "replicate 6 7", THEN conjunct1, of "[[97], [], [98, 99]]" "[44]"] by auto

section \<open>Allocated strings\<close>

lemma fragments_length_sum: "fragments_length fs n = n + length (concat fs)"
  by (induction fs n rule: fragments_length.induct) auto

lemma fragments_store_ok:
  "len + length (concat fs) < length buf \<Longrightarrow> take len buf = t \<Longrightarrow>
   \<exists>buf'. fragments_store fs buf len = Some buf' \<and> length buf' = length buf \<and> take (len + length (concat fs)) buf' = t @ concat fs"
proof (induction fs buf len arbitrary: t rule: fragments_store.induct)
  case (1 buf len)
  then show ?case by simp
next
  case (2 p fs buf len)
  show ?case
  proof (cases "p = []")
    case True
    then show ?thesis using 2 by simp
  next
    case False
    have st: "mem_store buf len p = Some (overwrite buf len p)" using 2(3) by (simp add: mem_store_Some)
    have "take (len + length p) (overwrite buf len p) = t @ p" using 2(3,4) by (simp add: take_overwrite_upto)
    then show ?thesis using 2(1) [OF _ st, of "t @ p"] False 2(3) st by (simp add: add.assoc)
  qed
qed

lemma store_part:
  assumes "take len buf = t" "len + length p < length buf" "len \<le> length buf"
  shows "\<exists>buf'. (if length p \<noteq> 0 then do { data \<leftarrow> mem_load p 0 (length p); mem_store buf len data } else Some buf) = Some buf' \<and>
    length buf' = length buf \<and> take (len + length p) buf' = t @ p"
  using assms by (auto simp: mem_load_Some mem_store_Some take_overwrite_upto)

lemma allocate_concat_varg_holds:
  assumes raw: "\<And>n. length (raw n) = n"
  shows "\<exists>buf. string_allocate_concat_varg raw p (length p) s (length s) fs = Some (buf, length (p @ s @ concat fs)) \<and>
    length buf = length (p @ s @ concat fs) + 1 \<and> holds buf (length (p @ s @ concat fs)) (p @ s @ concat fs)"
proof -
  let ?n = "length p + length s + length (concat fs)"
  from store_part [of 0 "raw (?n + 1)" "[]" p] raw obtain b1 where
    b1: "(if length p \<noteq> 0 then do { data \<leftarrow> mem_load p 0 (length p); mem_store (raw (?n + 1)) 0 data } else Some (raw (?n + 1))) = Some b1"
        "length b1 = ?n + 1" "take (length p) b1 = p" by auto
  from store_part [of "length p" b1 p s] b1 obtain b2 where
    b2: "(if length s \<noteq> 0 then do { data \<leftarrow> mem_load s 0 (length s); mem_store b1 (length p) data } else Some b1) = Some b2"
        "length b2 = ?n + 1" "take (length p + length s) b2 = p @ s" by auto
  from fragments_store_ok [of "length p + length s" fs b2 "p @ s"] b2 obtain b3 where
    b3: "fragments_store fs b2 (length p + length s) = Some b3" "length b3 = ?n + 1" "take ?n b3 = (p @ s) @ concat fs" by auto
  have "mem_set b3 ?n 0 = Some (b3[?n := 0]) \<and> holds (b3[?n := 0]) ?n ((p @ s) @ concat fs)"
    using b3 by (intro holds_set) auto
  moreover have "string_allocate_concat_varg raw p (length p) s (length s) fs = do { buf \<leftarrow> mem_set b3 ?n 0; Some (buf, ?n) }"
    by (simp only: string_allocate_concat_varg_def Let_def fragments_length_sum b1(1) b2(1) b3(1) Option.bind.simps)
  ultimately show ?thesis using b3(2) by (simp add: add.assoc)
qed

lemma allocate_concat_holds:
  assumes raw: "\<And>n. length (raw n) = n"
  shows "\<exists>buf. string_allocate_concat raw p (length p) s (length s) = Some (buf, length (p @ s)) \<and>
    length buf = length (p @ s) + 1 \<and> holds buf (length (p @ s)) (p @ s)"
  using allocate_concat_varg_holds [OF raw, of p s "[]"]
  by (simp add: string_allocate_concat_def string_allocate_concat_varg_def Let_def)

lemma allocate_concat_vlist_holds:
  assumes raw: "\<And>n. length (raw n) = n"
  shows "\<exists>buf. string_allocate_concat_vlist raw fs = Some (buf, length (concat fs)) \<and>
    length buf = length (concat fs) + 1 \<and> holds buf (length (concat fs)) (concat fs)"
  using allocate_concat_varg_holds [OF raw, of "[]" "[]" fs]
  by (simp add: string_allocate_concat_vlist_def string_allocate_concat_varg_def Let_def)

lemma resize_holds:
  assumes raw: "\<And>n. length (raw n) = n" and "holds str len t"
  shows "\<exists>str'. string_resize raw str len (length str) n c = Some (str', n) \<and> n < length str' \<and>
    holds str' n (take n (t @ replicate (n - len) c))"
proof -
  have t: "length t = len" "len < length str" "take len str = t" using assms(2) by (auto simp: holds_def)
  define b where "b = (if n \<ge> length str then reallocate raw str (n + 1) else str)"
  have b: "n < length b" "len \<le> length b" "take len b = t"
    using t raw by (auto simp: b_def reallocate_def)
  define b' where "b' = (if len < n then overwrite b len (replicate (n - len) c) else b)"
  have "length b' = length b" using b by (simp add: b'_def)
  moreover have "take n b' = take n (t @ replicate (n - len) c)"
  proof (cases "len < n")
    case True
    then have "take n b' = t @ replicate (n - len) c"
      using take_overwrite_upto [of len "replicate (n - len) c" b] b by (simp add: b'_def)
    then show ?thesis using True t(1) by simp
  next
    case False
    then have "take n b' = take n (take len b)" by (simp add: b'_def min_def)
    then show ?thesis using False b(3) t(1) by simp
  qed
  ultimately have "mem_set b' n 0 = Some (b'[n := 0]) \<and> holds (b'[n := 0]) n (take n (t @ replicate (n - len) c))"
    using b(1) by (intro holds_set) auto
  moreover have "string_resize raw str len (length str) n c = do { str \<leftarrow> mem_set b' n 0; Some (str, n) }"
  proof -
    have grown: "(if n \<ge> length str then if length str \<noteq> 0 then reallocate raw str (n + 1) else raw (n + 1) else str) = b"
      using t(2) by (auto simp: b_def)
    have stored: "(if len < n then mem_store b len (replicate (n - len) c) else Some b) = Some b'"
      using b(1) by (simp add: b'_def mem_store_Some)
    have ok: "c_assert (len \<le> length str) = Some ()" using t(2) by simp
    show ?thesis unfolding string_resize_def Let_def grown stored ok by simp
  qed
  ultimately show ?thesis using \<open>length b' = length b\<close> b(1) by auto
qed

text \<open>
  The functions that allocate their result allocate one byte more than the text and fill the
  allocation exactly with the text and its terminator; \<open>string_resize\<close> keeps the text, cut or
  padded to the new length, and allocates only when it does not fit. An allocation of \<open>n\<close> bytes
  is assumed to have \<open>n\<close> bytes.
\<close>

theorem string_allocate_correct:
  assumes raw: "\<And>n. length (raw n) = n" and "holds str len t"
  shows "(\<exists>buf. string_clone raw str len = Some (buf, len) \<and> length buf = len + 1 \<and> holds buf len t) \<and>
    (\<exists>buf. string_allocate_concat raw p (length p) s (length s) = Some (buf, length (p @ s)) \<and>
      length buf = length (p @ s) + 1 \<and> holds buf (length (p @ s)) (p @ s)) \<and>
    (\<exists>buf. string_allocate_concat_varg raw p (length p) s (length s) fs = Some (buf, length (p @ s @ concat fs)) \<and>
      length buf = length (p @ s @ concat fs) + 1 \<and> holds buf (length (p @ s @ concat fs)) (p @ s @ concat fs)) \<and>
    (\<exists>buf. string_allocate_concat_vlist raw fs = Some (buf, length (concat fs)) \<and>
      length buf = length (concat fs) + 1 \<and> holds buf (length (concat fs)) (concat fs)) \<and>
    (\<exists>buf. string_resize raw str len (length str) n c = Some (buf, n) \<and> n < length buf \<and>
      holds buf n (take n (t @ replicate (n - len) c)))"
proof (intro conjI)
  have t: "length t = len" "len < length str" "take len str = t" using assms(2) by (auto simp: holds_def)
  have ld: "mem_load str 0 len = mem_load t 0 (length t)" using t by (simp add: mem_load_Some)
  from store_part [of 0 "raw (len + 1)" "[]" t] raw t(1) obtain b where
    b: "(if len \<noteq> 0 then do { data \<leftarrow> mem_load str 0 len; mem_store (raw (len + 1)) 0 data } else Some (raw (len + 1))) = Some b"
       "length b = len + 1" "take len b = t" unfolding ld by auto
  have "mem_set b len 0 = Some (b[len := 0]) \<and> holds (b[len := 0]) len t" using b by (intro holds_set) auto
  moreover have "string_clone raw str len = do { clone \<leftarrow> mem_set b len 0; Some (clone, len) }"
    by (simp only: string_clone_def b(1) Option.bind.simps)
  ultimately show "\<exists>buf. string_clone raw str len = Some (buf, len) \<and> length buf = len + 1 \<and> holds buf len t"
    using b(2) by auto
qed (rule allocate_concat_holds [OF raw] allocate_concat_varg_holds [OF raw] allocate_concat_vlist_holds [OF raw]
    resize_holds [OF raw assms(2)])+

theorem string_allocate_correct_witness:
  "\<exists>buf. string_resize (\<lambda>n. replicate n 7) [97, 98, 0] 2 3 4 120 = Some (buf, 4) \<and> holds buf 4 [97, 98, 120, 120]"
proof -
  have "holds [97, 98, 0] 2 [97, 98]" by (simp add: holds_def)
  from string_allocate_correct [where raw = "\<lambda>n. replicate n 7", OF length_replicate this, THEN conjunct2, THEN conjunct2,
      THEN conjunct2, THEN conjunct2, of 4 120]
  show ?thesis by (auto simp: numeral_eq_Suc)
qed

end
