(* ===== verification/String_Replace.thy ===== *)
theory String_Replace
  imports String_Search String_Buffer
begin

text \<open>
  \<open>foundation/string.c\<close>, \<open>string_replace\<close>: replacing a key in a buffer of fixed capacity, once per
  occurrence or repeatedly. The loop may run forever, so it is a partial function: \<^const>\<open>None\<close> is
  a run that does not end, \<open>Some None\<close> a run that stops at a failed assertion or an access
  outside of a buffer, and \<open>Some (Some r)\<close> a result.
\<close>

section \<open>The code\<close>

record replace_state =
  sr_str :: "byte list"
  sr_length :: size_t
  sr_pos :: size_t
  sr_lastpos :: size_t
  sr_replaced :: size_t

text \<open>The best effort when the grown string does not fit.\<close>

definition replace_clamped :: "byte list \<Rightarrow> size_t \<Rightarrow> size_t \<Rightarrow> size_t \<Rightarrow> byte list \<Rightarrow> size_t \<Rightarrow> (byte list \<times> size_t) option" where
  "replace_clamped str len capacity key_length newkey pos =
     (let dest_clamp = pos + length newkey
      in if dest_clamp < capacity then
           let size_clamp = len - (pos + key_length) + 1;
               size_clamp = (if dest_clamp + size_clamp \<ge> capacity then capacity - (dest_clamp + 1) else size_clamp)
           in do { str \<leftarrow> (if size_clamp > 0 then mem_move str dest_clamp (pos + key_length) size_clamp else Some str);
                   str \<leftarrow> mem_store str pos newkey;
                   Some (str, capacity - 1) }
         else
           let size_clamp = capacity - pos
           in do { str \<leftarrow> (if size_clamp > 0 then do { data \<leftarrow> mem_load newkey 0 size_clamp; mem_store str pos data } else Some str);
                   Some (str, len) })"

definition replace_at :: "byte list \<Rightarrow> size_t \<Rightarrow> size_t \<Rightarrow> size_t \<Rightarrow> byte list \<Rightarrow> size_t \<Rightarrow> (byte list \<times> size_t) option" where
  "replace_at str len capacity key_length newkey pos =
     (let lendiff = int (length newkey) - int key_length
      in if lendiff \<le> 0 then
           do { str \<leftarrow> mem_store str pos newkey;
                if lendiff < 0 then
                  do { str \<leftarrow> mem_move str (pos + length newkey) (pos + key_length) (len - (pos + key_length) + 1);
                       c_assert (len \<ge> nat (- lendiff));
                       Some (str, len - nat (- lendiff)) }
                else Some (str, len) }
         else if len + nat lendiff + 1 > capacity then replace_clamped str len capacity key_length newkey pos
         else do { str \<leftarrow> mem_move str (pos + length newkey) (pos + key_length) (len - (pos + key_length) + 1);
                   str \<leftarrow> mem_store str pos newkey;
                   Some (str, len + nat lendiff) })"

text \<open>One round of the loop: the search, the test that skips what a repeated replacement has inserted, and the replacement.\<close>

datatype replace_next = Fault | Exit | Next replace_state

definition replace_step :: "size_t \<Rightarrow> byte list \<Rightarrow> byte list \<Rightarrow> bool \<Rightarrow> replace_state \<Rightarrow> replace_next" where
  "replace_step capacity key newkey repeat s =
     (case string_find_string (sr_str s) (sr_length s) key (length key) (sr_pos s) of
        None \<Rightarrow> Fault
      | Some pos \<Rightarrow>
          let lendiff = int (length newkey) - int (length key)
          in if pos = STRING_NPOS then Exit
             else if repeat \<and> sr_lastpos s \<noteq> STRING_NPOS \<and> lendiff > 0 \<and> pos \<le> sr_lastpos s + nat lendiff
             then Next (s\<lparr>sr_pos := sr_lastpos s + length newkey\<rparr>)
             else (case replace_at (sr_str s) (sr_length s) capacity (length key) newkey pos of
                     None \<Rightarrow> Fault
                   | Some (str, len) \<Rightarrow>
                       Next \<lparr>sr_str = str, sr_length = len, sr_pos = (if repeat then pos else pos + length newkey),
                             sr_lastpos = pos, sr_replaced = sr_replaced s + 1\<rparr>))"

partial_function (option) replace_loop :: "size_t \<Rightarrow> byte list \<Rightarrow> byte list \<Rightarrow> bool \<Rightarrow> replace_state \<Rightarrow> replace_state option option" where
  "replace_loop capacity key newkey repeat s =
     (case replace_step capacity key newkey repeat s of
        Fault \<Rightarrow> Some None
      | Exit \<Rightarrow> Some (Some s)
      | Next s' \<Rightarrow> replace_loop capacity key newkey repeat s')"

definition string_replace :: "byte list \<Rightarrow> size_t \<Rightarrow> size_t \<Rightarrow> byte list \<Rightarrow> byte list \<Rightarrow> bool \<Rightarrow> string_t option option" where
  "string_replace str len capacity key newkey repeat =
     (if \<not> len \<le> capacity then Some None
      else if capacity = 0 \<or> len = 0 \<or> length key = 0 then Some (Some (str, len))
      else (case replace_loop capacity key newkey repeat
                   \<lparr>sr_str = str, sr_length = len, sr_pos = 0, sr_lastpos = STRING_NPOS, sr_replaced = 0\<rparr> of
              None \<Rightarrow> None
            | Some None \<Rightarrow> Some None
            | Some (Some s) \<Rightarrow>
                Some (if sr_replaced s \<noteq> 0 \<and> sr_length s \<noteq> len
                      then map_option (\<lambda>str. (str, sr_length s)) (mem_set (sr_str s) (sr_length s) 0)
                      else Some (sr_str s, sr_length s))))"

section \<open>One replacement\<close>

lemma replace_at_safe:
  assumes "len \<le> length str" "length newkey < key_length \<longrightarrow> len < length str" "pos + key_length \<le> len" "0 < key_length"
  shows "\<exists>str' len'. replace_at str len (length str) key_length newkey pos = Some (str', len') \<and> length str' = length str \<and>
    len' \<le> length str \<and> (len < length str \<longrightarrow> len' < length str) \<and>
    int len' \<le> int len + int (length newkey) - int key_length"
proof -
  let ?d = "int (length newkey) - int key_length"
  have mv: "mem_move b (pos + length newkey) (pos + key_length) (len - (pos + key_length) + 1) =
      Some (overwrite b (pos + length newkey) (take (len - (pos + key_length) + 1) (drop (pos + key_length) b)))"
    if "length b = length str" "len < length str" "len + length newkey + 1 \<le> length str + key_length" for b
    using that assms by (simp add: mem_move_def mem_load_Some mem_store_Some)
  consider "?d = 0" | "?d < 0" | "?d > 0" "len + nat ?d + 1 \<le> length str" | "?d > 0" "len + nat ?d + 1 > length str" by linarith
  then show ?thesis
  proof cases
    case 1
    then show ?thesis using assms by (simp add: replace_at_def mem_store_Some)
  next
    case 2
    then have b: "mem_store str pos newkey = Some (overwrite str pos newkey)" "length (overwrite str pos newkey) = length str"
      using assms by (simp_all add: mem_store_Some)
    have "len \<ge> nat (- ?d)" using assms(3) by linarith
    then show ?thesis using 2 b mv [OF b(2)] assms by (auto simp: replace_at_def Let_def)
  next
    case 3
    then show ?thesis using mv [of str] assms by (simp add: replace_at_def Let_def mem_store_Some)
  next
    case 4
    show ?thesis
    proof (cases "pos + length newkey < length str")
      case True
      define k where "k = length str - (pos + length newkey + 1)"
      have k: "(if pos + length newkey + (len - (pos + key_length) + 1) \<ge> length str then length str - (pos + length newkey + 1)
          else len - (pos + key_length) + 1) = k" using 4 assms by (auto simp: k_def)
      have "pos + key_length + k \<le> length str" "pos + length newkey + k \<le> length str" using 4 assms True by (auto simp: k_def)
      then have "\<exists>b. (if k > 0 then mem_move str (pos + length newkey) (pos + key_length) k else Some str) = Some b \<and> length b = length str"
        by (simp add: mem_move_def mem_load_Some mem_store_Some)
      then obtain b where b: "(if k > 0 then mem_move str (pos + length newkey) (pos + key_length) k else Some str) = Some b"
          "length b = length str" by blast
      have "replace_clamped str len (length str) key_length newkey pos = Some (overwrite b pos newkey, length str - 1)"
        using True b(2) unfolding replace_clamped_def Let_def k b(1) by (simp add: mem_store_Some)
      moreover have "length str - 1 < length str" "int (length str - 1) \<le> int len + ?d" using 4 assms by linarith+
      ultimately show ?thesis using 4 True b(2) assms by (simp add: replace_at_def Let_def)
    next
      case False
      then have "replace_clamped str len (length str) key_length newkey pos = Some (overwrite str pos (take (length str - pos) newkey), len)"
        using assms by (simp add: replace_clamped_def mem_load_Some mem_store_Some)
      then show ?thesis using 4 False assms by (simp add: replace_at_def Let_def)
    qed
  qed
qed

section \<open>Rounds of the loop\<close>

text \<open>
  The string may fill the buffer, unless \<open>tight\<close> says that there is room for a terminator, which a
  replacement by something shorter than the key needs.
\<close>

definition replace_inv :: "bool \<Rightarrow> size_t \<Rightarrow> replace_state \<Rightarrow> bool" where
  "replace_inv tight capacity s \<longleftrightarrow> length (sr_str s) = capacity \<and> sr_length s \<le> capacity \<and>
     (tight \<longrightarrow> sr_length s < capacity) \<and> capacity < STRING_NPOS"

definition inserted :: "byte list \<Rightarrow> byte list \<Rightarrow> bool \<Rightarrow> replace_state \<Rightarrow> nat \<Rightarrow> bool" where
  "inserted key newkey repeat s p \<longleftrightarrow> repeat \<and> sr_lastpos s \<noteq> STRING_NPOS \<and> length key < length newkey \<and>
     p \<le> sr_lastpos s + (length newkey - length key)"

text \<open>
  A round leaves the loop, or it finds the first occurrence of the key from the position on, and
  either skips it as a part of the last replacement or replaces it.
\<close>

lemma replace_step_cases:
  assumes "replace_inv tight capacity s" "key \<noteq> []" "length newkey < length key \<longrightarrow> tight"
  obtains
    (exit) "List.find (occurs key (take (sr_length s) (sr_str s))) [sr_pos s..<Suc (sr_length s) - length key] = None"
      "replace_step capacity key newkey repeat s = Exit"
  | (skip) p where "sr_pos s \<le> p" "p + length key \<le> sr_length s" "inserted key newkey repeat s p"
      "replace_step capacity key newkey repeat s = Next (s\<lparr>sr_pos := sr_lastpos s + length newkey\<rparr>)"
  | (replace) p str' len' where
      "List.find (occurs key (take (sr_length s) (sr_str s))) [sr_pos s..<Suc (sr_length s) - length key] = Some p"
      "sr_pos s \<le> p" "p + length key \<le> sr_length s" "occurs key (take (sr_length s) (sr_str s)) p"
      "\<not> inserted key newkey repeat s p"
      "replace_at (sr_str s) (sr_length s) capacity (length key) newkey p = Some (str', len')"
      "length str' = capacity" "len' \<le> capacity \<and> (tight \<longrightarrow> len' < capacity)" "int len' \<le> int (sr_length s) + int (length newkey) - int (length key)"
      "replace_step capacity key newkey repeat s = Next \<lparr>sr_str = str', sr_length = len',
         sr_pos = (if repeat then p else p + length newkey), sr_lastpos = p, sr_replaced = sr_replaced s + 1\<rparr>"
proof -
  let ?o = "List.find (occurs key (take (sr_length s) (sr_str s))) [sr_pos s..<Suc (sr_length s) - length key]"
  have inv: "sr_length s \<le> length (sr_str s)" "length (sr_str s) = capacity" "capacity < STRING_NPOS"
      "length newkey < length key \<longrightarrow> sr_length s < length (sr_str s)" "tight \<longrightarrow> sr_length s < length (sr_str s)"
    using assms(1,3) by (auto simp: replace_inv_def)
  have fd: "string_find_string (sr_str s) (sr_length s) key (length key) (sr_pos s) = Some (npos ?o)"
    using inv assms(2) by (intro string_find_string_find) auto
  show ?thesis
  proof (cases ?o)
    case None
    then have "replace_step capacity key newkey repeat s = Exit" unfolding replace_step_def fd by simp
    then show ?thesis using None by (rule exit [rotated])
  next
    case (Some p)
    then have p: "sr_pos s \<le> p" "p + length key \<le> sr_length s" "occurs key (take (sr_length s) (sr_str s)) p"
      using find_upt_Some [OF Some] by auto
    have np: "npos ?o = p" "p \<noteq> STRING_NPOS" using Some p(2) inv by auto
    have ins: "repeat \<and> sr_lastpos s \<noteq> STRING_NPOS \<and> int (length newkey) - int (length key) > 0 \<and>
        p \<le> sr_lastpos s + nat (int (length newkey) - int (length key)) \<longleftrightarrow> inserted key newkey repeat s p"
      by (auto simp: inserted_def nat_diff_distrib)
    show ?thesis
    proof (cases "inserted key newkey repeat s p")
      case True
      have "replace_step capacity key newkey repeat s = Next (s\<lparr>sr_pos := sr_lastpos s + length newkey\<rparr>)"
        unfolding replace_step_def fd np(1) Let_def option.case ins using True np(2) by simp
      then show ?thesis using True p by (intro skip)
    next
      case False
      from replace_at_safe [OF inv(1,4) p(2)] assms(2) inv(2,5) obtain str' len' where
        r: "replace_at (sr_str s) (sr_length s) capacity (length key) newkey p = Some (str', len')"
           "length str' = capacity" "len' \<le> capacity \<and> (tight \<longrightarrow> len' < capacity)" "int len' \<le> int (sr_length s) + int (length newkey) - int (length key)"
        by auto
      have "replace_step capacity key newkey repeat s = Next \<lparr>sr_str = str', sr_length = len',
         sr_pos = (if repeat then p else p + length newkey), sr_lastpos = p, sr_replaced = sr_replaced s + 1\<rparr>"
        unfolding replace_step_def fd np(1) Let_def option.case ins using False np(2) r(1) by simp
      then show ?thesis using Some p False r by (intro replace)
    qed
  qed
qed

lemma replace_loop_returns:
  fixes m :: "replace_state \<Rightarrow> nat"
  assumes "\<And>s. I s \<Longrightarrow> replace_step capacity key newkey repeat s = Exit \<or>
      (\<exists>s'. replace_step capacity key newkey repeat s = Next s' \<and> I s' \<and> m s' < m s)"
    and "I s"
  shows "\<exists>r. replace_loop capacity key newkey repeat s = Some (Some r) \<and> I r \<and> replace_step capacity key newkey repeat r = Exit"
  using assms(2)
proof (induction "m s" arbitrary: s rule: less_induct)
  case less
  from assms(1) [OF less.prems] show ?case
  proof
    assume "replace_step capacity key newkey repeat s = Exit"
    then show ?thesis using less.prems by (subst replace_loop.simps) simp
  next
    assume "\<exists>s'. replace_step capacity key newkey repeat s = Next s' \<and> I s' \<and> m s' < m s"
    then obtain s' where "replace_step capacity key newkey repeat s = Next s'" "I s'" "m s' < m s" by blast
    then show ?thesis using less.hyps [of s'] by (subst replace_loop.simps) simp
  qed
qed

lemma replace_next_inv:
  "length str' = capacity \<Longrightarrow> len' \<le> capacity \<and> (tight \<longrightarrow> len' < capacity) \<Longrightarrow> replace_inv tight capacity s \<Longrightarrow>
   replace_inv tight capacity \<lparr>sr_str = str', sr_length = len', sr_pos = q, sr_lastpos = p, sr_replaced = n\<rparr>"
  by (simp add: replace_inv_def)

lemma once_returns:
  assumes "replace_inv tight capacity s" "key \<noteq> []" "length newkey < length key \<longrightarrow> tight"
  shows "\<exists>r. replace_loop capacity key newkey False s = Some (Some r) \<and> replace_inv tight capacity r"
proof -
  define m where "m s = sr_length s - sr_pos s" for s :: replace_state
  have "replace_step capacity key newkey False s = Exit \<or>
      (\<exists>s'. replace_step capacity key newkey False s = Next s' \<and> replace_inv tight capacity s' \<and> m s' < m s)"
    if "replace_inv tight capacity s" for s
    using that assms(2,3)
  proof (cases rule: replace_step_cases [of _ _ _ _ newkey False])
    case (skip p)
    then show ?thesis by (simp add: inserted_def)
  next
    case (replace p str' len')
    have "0 < length key" using assms(2) by simp
    then have "len' - (p + length newkey) < sr_length s - sr_pos s" using replace(2,3,9) by linarith
    then show ?thesis using replace(7,8,10) replace_next_inv that by (simp add: m_def)
  qed simp
  from replace_loop_returns [of "replace_inv tight capacity", OF this assms(1)] show ?thesis by blast
qed

lemma repeat_grow_returns:
  assumes "replace_inv tight capacity s" "key \<noteq> []" "length key < length newkey"
  shows "\<exists>r. replace_loop capacity key newkey True s = Some (Some r) \<and> replace_inv tight capacity r"
proof -
  have small: "length newkey < length key \<longrightarrow> tight" using assms(3) by simp
  define d where "d = length newkey - length key"
  define eff where "eff s = (if sr_lastpos s \<noteq> STRING_NPOS then max (sr_pos s) (sr_lastpos s + d + 1) else sr_pos s)" for s :: replace_state
  define m where "m s = 2 * (sr_length s - eff s) + (if sr_pos s < eff s then 1 else 0)" for s :: replace_state
  have k: "0 < length key" using assms(2) by simp
  have "replace_step capacity key newkey True s = Exit \<or>
      (\<exists>s'. replace_step capacity key newkey True s = Next s' \<and> replace_inv tight capacity s' \<and> m s' < m s)"
    if inv: "replace_inv tight capacity s" for s
    using that assms(2) small
  proof (cases rule: replace_step_cases [of _ _ _ _ newkey True])
    case (skip p)
    let ?s' = "s\<lparr>sr_pos := sr_lastpos s + length newkey\<rparr>"
    have i: "sr_lastpos s \<noteq> STRING_NPOS" "p \<le> sr_lastpos s + d" using skip(3) by (auto simp: inserted_def d_def)
    have "eff s = sr_lastpos s + d + 1" "sr_pos s < eff s" using i skip(1) by (auto simp: eff_def)
    moreover have d1: "d + 1 \<le> length newkey" using k assms(3) unfolding d_def by linarith
    moreover have "eff ?s' = sr_lastpos s + length newkey" using i(1) d1 by (simp add: eff_def)
    ultimately have "m ?s' < m s" by (auto simp: m_def)
    moreover have "replace_inv tight capacity ?s'" using inv by (simp add: replace_inv_def)
    ultimately show ?thesis using skip(4) by blast
  next
    case (replace p str' len')
    let ?s' = "\<lparr>sr_str = str', sr_length = len', sr_pos = p, sr_lastpos = p, sr_replaced = sr_replaced s + 1\<rparr>"
    have "p \<noteq> STRING_NPOS" using replace(3) inv by (auto simp: replace_inv_def)
    then have e': "eff ?s' = p + d + 1" by (simp add: eff_def)
    have e: "eff s \<le> p" using replace(2,5) assms(3) by (auto simp: eff_def inserted_def d_def)
    have "len' \<le> sr_length s + d" using replace(9) assms(3) unfolding d_def by linarith
    then have "len' - eff ?s' < sr_length s - eff s" using e e' replace(3) k by linarith
    then have "m ?s' < m s" by (auto simp: m_def)
    then show ?thesis using replace(7,8,10) replace_next_inv [OF _ _ inv] by simp
  qed simp
  from replace_loop_returns [of "replace_inv tight capacity", OF this assms(1)] show ?thesis by blast
qed

lemma repeat_shrink_returns:
  assumes "replace_inv tight capacity s" "key \<noteq> []" "length newkey < length key" "tight"
  shows "\<exists>r. replace_loop capacity key newkey True s = Some (Some r) \<and> replace_inv tight capacity r"
proof -
  have small: "length newkey < length key \<longrightarrow> tight" using assms(4) by simp
  have "replace_step capacity key newkey True s = Exit \<or>
      (\<exists>s'. replace_step capacity key newkey True s = Next s' \<and> replace_inv tight capacity s' \<and> sr_length s' < sr_length s)"
    if inv: "replace_inv tight capacity s" for s
    using that assms(2) small
  proof (cases rule: replace_step_cases [of _ _ _ _ newkey True])
    case (skip p)
    then show ?thesis using assms(3) by (simp add: inserted_def)
  next
    case (replace p str' len')
    then show ?thesis using assms(3) replace_next_inv [OF _ _ inv] by simp
  qed simp
  from replace_loop_returns [of "replace_inv tight capacity", OF this assms(1)] show ?thesis by blast
qed

lemma replace_at_same:
  assumes "length newkey = key_length" "pos + key_length \<le> len" "len \<le> length str"
  shows "replace_at str len capacity key_length newkey pos = Some (overwrite str pos newkey, len)"
  using assms by (simp add: replace_at_def mem_store_Some)

lemma overwritten_part:
  assumes "pos + length newkey \<le> len" "len \<le> length str"
  shows "take (length newkey) (drop pos (take len (overwrite str pos newkey))) = newkey"
proof -
  have "take (length newkey) (drop pos (take len (overwrite str pos newkey))) =
      take (length newkey) (drop pos (overwrite str pos newkey))"
    using assms by (simp add: drop_take min_def)
  also have "\<dots> = newkey" using assms by (simp add: overwrite_def)
  finally show ?thesis .
qed

lemma repeat_same_returns:
  assumes "replace_inv tight capacity s" "key \<noteq> []" "length newkey = length key" "newkey \<noteq> key"
  shows "\<exists>r. replace_loop capacity key newkey True s = Some (Some r) \<and> replace_inv tight capacity r"
proof -
  have small: "length newkey < length key \<longrightarrow> tight" using assms(3) by simp
  define m where "m s = sr_length s - sr_pos s + (if occurs key (take (sr_length s) (sr_str s)) (sr_pos s) then 1 else 0)"
    for s :: replace_state
  have "replace_step capacity key newkey True s = Exit \<or>
      (\<exists>s'. replace_step capacity key newkey True s = Next s' \<and> replace_inv tight capacity s' \<and> m s' < m s)"
    if inv: "replace_inv tight capacity s" for s
    using that assms(2) small
  proof (cases rule: replace_step_cases [of _ _ _ _ newkey True])
    case (skip p)
    then show ?thesis using assms(3) by (simp add: inserted_def)
  next
    case (replace p str' len')
    let ?s' = "\<lparr>sr_str = str', sr_length = len', sr_pos = p, sr_lastpos = p, sr_replaced = sr_replaced s + 1\<rparr>"
    have l: "sr_length s \<le> length (sr_str s)" using inv by (simp add: replace_inv_def)
    have r: "str' = overwrite (sr_str s) p newkey" "len' = sr_length s"
      using replace(6) replace_at_same [OF assms(3) replace(3) l] by auto
    have "take (length key) (drop p (take len' str')) = newkey"
      using overwritten_part [of p newkey len' "sr_str s"] replace(3) l assms(3) r by simp
    then have "\<not> occurs key (take len' str') p" using assms(4) by (auto simp: occurs_def)
    moreover have "0 < length key" using assms(2) by simp
    ultimately have "m ?s' < m s" using replace(2,3,4) r by (cases "p = sr_pos s") (auto simp: m_def)
    then show ?thesis using replace(7,8,10) replace_next_inv [OF _ _ inv] by simp
  qed simp
  from replace_loop_returns [of "replace_inv tight capacity", OF this assms(1)] show ?thesis by blast
qed

text \<open>Replacing a key by itself leaves the string as it is, and the position where it was found.\<close>

lemma less_imp_triv: "length key < length key \<longrightarrow> tight"
  by simp

lemma repeat_itself_runs:
  assumes "replace_inv tight capacity s" "key \<noteq> []" "sr_pos s \<le> i" "occurs key (take (sr_length s) (sr_str s)) i"
  shows "\<exists>s' i'. replace_step capacity key key True s = Next s' \<and> replace_inv tight capacity s' \<and> sr_pos s' \<le> i' \<and>
    occurs key (take (sr_length s') (sr_str s')) i'"
  using assms(1,2) less_imp_triv
proof (cases rule: replace_step_cases [of _ _ _ _ key True])
  case exit
  have "i + length key \<le> sr_length s" using assms(4) by (simp add: occurs_def)
  then have "i \<in> set [sr_pos s..<Suc (sr_length s) - length key]" using assms(3) by auto
  then show ?thesis using exit(1) assms(4) unfolding find_None_all by blast
next
  case (skip p)
  then show ?thesis by (simp add: inserted_def)
next
  case (replace p str' len')
  have l: "sr_length s \<le> length (sr_str s)" using assms(1) by (simp add: replace_inv_def)
  have r: "str' = overwrite (sr_str s) p key" "len' = sr_length s"
    using replace(6) replace_at_same [OF refl replace(3) l] by auto
  have "take (length key) (drop p (take len' str')) = key"
    using overwritten_part [of p key len' "sr_str s"] replace(3) l r by simp
  moreover have "p + length key \<le> length (take len' str')" using replace(3,7,8) r(2) by simp
  ultimately have "occurs key (take len' str') p" by (simp add: occurs_def)
  then show ?thesis using replace(7,8,10) replace_next_inv [OF _ _ assms(1)] by auto
qed

lemma replace_itself_diverges:
  assumes "replace_inv tight capacity s" "key \<noteq> []" "sr_pos s \<le> i" "occurs key (take (sr_length s) (sr_str s)) i"
  shows "replace_loop capacity key key True s = None"
proof -
  let ?I = "\<lambda>s. replace_inv tight capacity s \<and> (\<exists>i. sr_pos s \<le> i \<and> occurs key (take (sr_length s) (sr_str s)) i)"
  have "c = capacity \<longrightarrow> k = key \<longrightarrow> nk = key \<longrightarrow> b \<longrightarrow> \<not> ?I s" if "replace_loop c k nk b s = Some y" for c k nk b s y
  proof (rule replace_loop.raw_induct [OF _ that])
    fix f c k nk b s y
    assume IH: "\<And>c k nk b s y. f c k nk b s = Some y \<Longrightarrow> c = capacity \<longrightarrow> k = key \<longrightarrow> nk = key \<longrightarrow> b \<longrightarrow> \<not> ?I s"
      and step: "(case replace_step c k nk b s of Fault \<Rightarrow> Some None | Exit \<Rightarrow> Some (Some s) | Next s' \<Rightarrow> f c k nk b s') = Some y"
    show "c = capacity \<longrightarrow> k = key \<longrightarrow> nk = key \<longrightarrow> b \<longrightarrow> \<not> ?I s"
    proof (intro impI notI)
      assume eq: "c = capacity" "k = key" "nk = key" "b" and I: "?I s"
      from I obtain i where "replace_inv tight capacity s" "sr_pos s \<le> i" "occurs key (take (sr_length s) (sr_str s)) i" by blast
      from repeat_itself_runs [OF this(1) assms(2) this(2,3)] obtain s' where
        s': "replace_step capacity key key True s = Next s'" "?I s'" by blast
      have "f capacity key key True s' = Some y" using step s'(1) eq by simp
      then show False using IH s'(2) by blast
    qed
  qed
  then show ?thesis using assms by (cases "replace_loop capacity key key True s") blast+
qed

lemma replace_loop_full_faults:
  assumes "sr_length s = length (sr_str s)" "length (sr_str s) < STRING_NPOS" "length newkey < length key"
    "sr_pos s = 0" "occurs key (sr_str s) i"
  shows "replace_loop (length (sr_str s)) key newkey repeat s = Some None"
proof -
  let ?o = "List.find (occurs key (sr_str s)) [0..<Suc (length (sr_str s)) - length key]"
  have key: "key \<noteq> []" using assms(3) by auto
  have "i \<in> set [0..<Suc (length (sr_str s)) - length key]" using assms(5) by (auto simp: occurs_def)
  then obtain p where p: "?o = Some p" using assms(5) find_None_all by (metis not_None_eq)
  then have pl: "p + length key \<le> length (sr_str s)" using find_upt_Some [OF p] by auto
  have fd: "string_find_string (sr_str s) (sr_length s) key (length key) (sr_pos s) = Some p"
    using string_find_string_find [of "sr_length s" "sr_str s" key "sr_pos s"] key assms(1,4) p by simp
  have "mem_load (overwrite (sr_str s) p newkey) (p + length key) (length (sr_str s) - (p + length key) + 1) = None"
    using pl assms(3) by (simp add: mem_load_def)
  then have "replace_at (sr_str s) (sr_length s) (length (sr_str s)) (length key) newkey p = None"
    using pl assms(1,3) by (simp add: replace_at_def Let_def mem_store_Some mem_move_def)
  moreover have "p \<noteq> STRING_NPOS" using pl assms(2) by simp
  ultimately have "replace_step (length (sr_str s)) key newkey repeat s = Fault"
    using assms(3) by (simp add: replace_step_def fd Let_def)
  then show ?thesis by (subst replace_loop.simps) simp
qed

lemma replace_loop_none:
  assumes "replace_inv tight capacity s" "key \<noteq> []" "\<And>i. \<not> occurs key (take (sr_length s) (sr_str s)) i"
  shows "replace_loop capacity key newkey repeat s = Some (Some s)"
proof -
  have "List.find (occurs key (take (sr_length s) (sr_str s))) is = None" for "is"
    using assms(3) by (simp add: find_None_all)
  then have "replace_step capacity key newkey repeat s = Exit"
    using string_find_string_find [of "sr_length s" "sr_str s" key "sr_pos s"] assms(1,2)
    by (simp add: replace_step_def replace_inv_def)
  then show ?thesis by (subst replace_loop.simps) simp
qed

lemma replace_loop_ok:
  assumes "replace_inv tight capacity s" "key \<noteq> []" "take (sr_length s) (sr_str s) = t"
    and "key \<noteq> [] \<and> (\<exists>i. occurs key t i) \<longrightarrow> \<not> (repeat \<and> newkey = key) \<and> (length newkey < length key \<longrightarrow> tight)"
  shows "\<exists>r. replace_loop capacity key newkey repeat s = Some (Some r) \<and> replace_inv tight capacity r"
proof (cases "\<exists>i. occurs key t i")
  case False
  then show ?thesis using replace_loop_none [OF assms(1,2)] assms(1,3) by blast
next
  case True
  then have ok: "\<not> (repeat \<and> newkey = key)" "length newkey < length key \<longrightarrow> tight" using assms(2,4) by blast+
  show ?thesis
  proof (cases repeat)
    case False
    then show ?thesis using once_returns [OF assms(1,2) ok(2)] by simp
  next
    case True
    consider "length key < length newkey" | "length newkey < length key" | "length newkey = length key" "newkey \<noteq> key"
      using ok(1) True by linarith
    then show ?thesis
      by cases (use True ok assms(1,2) repeat_grow_returns repeat_shrink_returns repeat_same_returns in auto)
  qed
qed

lemma string_replace_run:
  assumes "len \<le> length str"
  shows "len \<noteq> 0 \<and> key \<noteq> [] \<longrightarrow> string_replace str len (length str) key newkey repeat =
      (case replace_loop (length str) key newkey repeat
             \<lparr>sr_str = str, sr_length = len, sr_pos = 0, sr_lastpos = STRING_NPOS, sr_replaced = 0\<rparr> of
         None \<Rightarrow> None | Some None \<Rightarrow> Some None
       | Some (Some s) \<Rightarrow> Some (if sr_replaced s \<noteq> 0 \<and> sr_length s \<noteq> len
                      then map_option (\<lambda>str. (str, sr_length s)) (mem_set (sr_str s) (sr_length s) 0)
                      else Some (sr_str s, sr_length s)))"
  using assms by (cases "str = []") (simp_all add: string_replace_def)

text \<open>
  C22. What a call does for every string in a buffer (of any capacity, the string may fill it),
  key and replacement, repeated or not. It never returns in exactly one case: a repeated
  replacement of a key by itself, when the key occurs in the string. It leaves the buffer in
  exactly one case: the string fills the buffer, the key occurs in it and the replacement is
  shorter than the key, where the bytes moved down include the one behind the buffer. In all
  other cases it returns, with a length within the buffer, and one that leaves room for a
  terminator when the length before did.
\<close>

theorem string_replace_termination:
  fixes key :: "byte list"
  assumes "len \<le> length str" "length str < STRING_NPOS"
  defines "found \<equiv> key \<noteq> [] \<and> (\<exists>i. occurs key (take len str) i)"
  shows "(string_replace str len (length str) key newkey repeat = None \<longleftrightarrow> found \<and> repeat \<and> newkey = key) \<and>
    (string_replace str len (length str) key newkey repeat = Some None \<longleftrightarrow>
      found \<and> len = length str \<and> length newkey < length key) \<and>
    (\<forall>str' len'. string_replace str len (length str) key newkey repeat = Some (Some (str', len')) \<longrightarrow>
      length str' = length str \<and> len' \<le> length str \<and> (len < length str \<longrightarrow> len' < length str))"
proof (cases "len = 0 \<or> key = []")
  case True
  have "\<not> found" using True by (auto simp: occurs_def found_def)
  then show ?thesis using True assms(1) by (auto simp: string_replace_def)
next
  case False
  define s where "s = \<lparr>sr_str = str, sr_length = len, sr_pos = 0, sr_lastpos = STRING_NPOS, sr_replaced = 0\<rparr>"
  define tight where "tight \<longleftrightarrow> len < length str"
  have inv: "replace_inv tight (length str) s" using assms(1,2) by (simp add: replace_inv_def s_def tight_def)
  note run = string_replace_run [OF assms(1), of key newkey repeat, folded s_def]
  consider (diverge) "found" "repeat" "newkey = key" | (fault) "found" "len = length str" "length newkey < length key"
    | (ok) "found \<longrightarrow> \<not> (repeat \<and> newkey = key) \<and> (length newkey < length key \<longrightarrow> tight)"
    using le_neq_implies_less [OF assms(1)] unfolding tight_def by blast
  then show ?thesis
  proof cases
    case diverge
    then have "replace_loop (length str) key newkey repeat s = None"
      using replace_itself_diverges [OF inv] False by (auto simp: s_def found_def)
    then show ?thesis using run diverge False by simp
  next
    case fault
    then have "replace_loop (length str) key newkey repeat s = Some None"
      using replace_loop_full_faults [of s newkey key _ repeat] assms(2) by (auto simp: s_def found_def)
    then show ?thesis using run fault False by auto
  next
    case ok
    from replace_loop_ok [OF inv _ _ ok [unfolded found_def]] False obtain r where
      r: "replace_loop (length str) key newkey repeat s = Some (Some r)" "replace_inv tight (length str) r"
      by (auto simp: s_def)
    then have "string_replace str len (length str) key newkey repeat \<noteq> None \<and>
        (\<exists>str'. string_replace str len (length str) key newkey repeat = Some (Some (str', sr_length r)) \<and> length str' = length str)"
      using run assms(1) False by (auto simp: mem_set_Some replace_inv_def tight_def)
    then show ?thesis using ok r(2) assms(1) by (auto simp: tight_def replace_inv_def)
  qed
qed

theorem string_replace_termination_witness:
  "string_replace [97, 98, 0] 2 3 [98] [98] True = None \<and> string_replace [97, 98, 0] 2 3 [98] [98, 99, 98] True \<noteq> None \<and>
   string_replace [97, 98, 0] 3 3 [97, 98] [99] False = Some None"
proof (intro conjI)
  have big: "length [97, 98, 0 :: byte] < STRING_NPOS" by (simp add: STRING_NPOS_def SIZE_MOD_def)
  have "occurs [98] (take 2 [97, 98, 0]) 1" by (simp add: occurs_def)
  then have "string_replace [97, 98, 0] 2 (length [97, 98, 0 :: byte]) [98] [98] True = None"
    using string_replace_termination [OF _ big, of 2 "[98]" "[98]" True] by auto
  then show "string_replace [97, 98, 0] 2 3 [98] [98] True = None" by (simp add: numeral_eq_Suc)
  show "string_replace [97, 98, 0] 2 3 [98] [98, 99, 98] True \<noteq> None"
    using string_replace_termination [OF _ big, of 2 "[98]" "[98, 99, 98]" True] by (simp add: numeral_eq_Suc)
  have "occurs [97, 98] (take 3 [97, 98, 0]) 0" by (simp add: occurs_def)
  then have "string_replace [97, 98, 0] 3 (length [97, 98, 0 :: byte]) [97, 98] [99] False = Some None"
    using string_replace_termination [OF _ big, of 3 "[97, 98]" "[99]" False] by auto
  then show "string_replace [97, 98, 0] 3 3 [97, 98] [99] False = Some None" by (simp add: numeral_eq_Suc)
qed

section \<open>Replacing every occurrence\<close>

text \<open>The reference: from left to right, what is inserted is not searched again.\<close>

function replace_all :: "byte list \<Rightarrow> byte list \<Rightarrow> byte list \<Rightarrow> byte list" where
  "replace_all key newkey s =
     (if s = [] then []
      else if key \<noteq> [] \<and> take (length key) s = key then newkey @ replace_all key newkey (drop (length key) s)
      else hd s # replace_all key newkey (tl s))"
  by pat_completeness auto
termination
  by (relation "measure (\<lambda>(key, newkey, s). length s)") (auto simp: neq_Nil_conv)

declare replace_all.simps [simp del]

lemma occurs_0: "occurs key s 0 \<longleftrightarrow> take (length key) s = key"
  by (auto simp: occurs_def) (metis length_take min.cobounded1)

lemma occurs_Suc: "occurs key (x # s) (Suc i) \<longleftrightarrow> occurs key s i"
  by (simp add: occurs_def)

lemma occurs_append: "occurs key (u @ s) (length u + i) \<longleftrightarrow> occurs key s i"
  by (induction u) (simp_all add: occurs_Suc)

lemma replace_all_none: "(\<And>i. \<not> occurs key s i) \<Longrightarrow> replace_all key newkey s = s"
proof (induction s)
  case (Cons x s)
  have "\<not> occurs key s i" for i using Cons.prems [of "Suc i"] by (simp add: occurs_Suc)
  then show ?case using Cons.IH Cons.prems [of 0] by (subst replace_all.simps) (auto simp: occurs_0)
qed (simp add: replace_all.simps)

lemma replace_all_first:
  "key \<noteq> [] \<Longrightarrow> (\<And>j. j < length a \<Longrightarrow> \<not> occurs key (a @ key @ c) j) \<Longrightarrow>
   replace_all key newkey (a @ key @ c) = a @ newkey @ replace_all key newkey c"
proof (induction a)
  case Nil
  then show ?case by (subst replace_all.simps) auto
next
  case (Cons x a)
  have "\<not> occurs key (a @ key @ c) j" if "j < length a" for j
    using Cons.prems(2) [of "Suc j"] that by (simp add: occurs_Suc)
  moreover have "\<not> occurs key ((x # a) @ key @ c) 0" using Cons.prems(2) [of 0] by simp
  ultimately show ?case using Cons.IH [OF Cons.prems(1)] unfolding occurs_0 by (subst replace_all.simps) simp
qed

lemma holds_split: "holds str len t \<longleftrightarrow> (\<exists>z. str = t @ 0 # z \<and> len = length t)"
proof
  assume "holds str len t"
  then have h: "len < length str" "take len str = t" "str ! len = 0" by (auto simp: holds_def)
  then have "str = t @ 0 # drop (Suc len) str" "len = length t" using id_take_nth_drop [of len str] by auto
  then show "\<exists>z. str = t @ 0 # z \<and> len = length t" by blast
qed (auto simp: holds_def)

lemma overwrite_at: "overwrite (a @ b) (length a) xs = a @ xs @ drop (length xs) b"
  by (simp add: overwrite_def)

lemma replace_at_text:
  assumes "holds str len (u @ key @ c)" "length (u @ newkey @ c) < length str"
  shows "\<exists>str' len'. replace_at str len (length str) (length key) newkey (length u) = Some (str', len') \<and>
    length str' = length str \<and> holds str' len' (u @ newkey @ c)"
proof -
  from assms(1) obtain z where z: "str = u @ key @ c @ 0 # z" "len = length u + length key + length c"
    by (auto simp: holds_split)
  let ?d = "int (length newkey) - int (length key)"
  have n: "len - (length u + length key) + 1 = length (c @ [0 :: byte])" using z(2) by simp
  consider "?d = 0" | "?d < 0" | "?d > 0" by linarith
  then show ?thesis
  proof cases
    case 1
    then have "replace_at str len (length str) (length key) newkey (length u) = Some (overwrite str (length u) newkey, len)"
      using z by (intro replace_at_same) auto
    moreover have "overwrite str (length u) newkey = (u @ newkey @ c) @ 0 # z"
      using 1 unfolding z(1) overwrite_at by simp
    ultimately show ?thesis using 1 z by (auto simp: holds_split)
  next
    case 2
    define b where "b = u @ newkey @ drop (length newkey) key @ c @ 0 # z"
    have st: "mem_store str (length u) newkey = Some b"
      using 2 unfolding z(1) b_def by (simp add: mem_store_Some overwrite_at)
    have lb: "length b = length str" using 2 by (simp add: b_def z(1))
    have ld: "mem_load b (length u + length key) (length (c @ [0])) = Some (c @ [0])"
    proof -
      have "length u + length key = length (u @ newkey @ drop (length newkey) key)" using 2 by simp
      then have "drop (length u + length key) b = c @ 0 # z" unfolding b_def by (simp add: append_assoc [symmetric] del: append_assoc)
      then show ?thesis using lb z(1) by (simp add: mem_load_Some)
    qed
    define b' where "b' = u @ newkey @ c @ 0 # drop (length c + 1) (drop (length newkey) key @ c @ 0 # z)"
    have mv: "mem_move b (length u + length newkey) (length u + length key) (length (c @ [0])) = Some b'"
    proof -
      have "overwrite b (length (u @ newkey)) (c @ [0]) = b'"
        using overwrite_at [of "u @ newkey" "drop (length newkey) key @ c @ 0 # z" "c @ [0]"] by (simp add: b_def b'_def)
      moreover have "length (u @ newkey) + length (c @ [0]) \<le> length b" using assms(2) lb by simp
      ultimately show ?thesis unfolding mem_move_def ld by (simp add: mem_store_Some)
    qed
    have "length b' = length str" using 2 by (simp add: b'_def z(1))
    moreover have "replace_at str len (length str) (length key) newkey (length u) = Some (b', len - nat (- ?d))"
    proof -
      have "c_assert (len \<ge> nat (- ?d)) = Some ()" using z(2) by simp
      then show ?thesis using 2 unfolding replace_at_def Let_def n st by (simp add: mv [simplified])
    qed
    moreover have "holds b' (len - nat (- ?d)) (u @ newkey @ c)" using 2 z(2) by (auto simp: holds_split b'_def)
    ultimately show ?thesis by blast
  next
    case 3
    have ld: "mem_load str (length u + length key) (length (c @ [0])) = Some (c @ [0])"
      unfolding z(1) by (simp add: mem_load_Some)
    define b where "b = overwrite str (length u + length newkey) (c @ [0])"
    have fits: "length u + length newkey + length (c @ [0]) \<le> length str" using assms(2) by simp
    have mv: "mem_move str (length u + length newkey) (length u + length key) (length (c @ [0])) = Some b"
      unfolding mem_move_def ld using fits by (simp add: mem_store_Some b_def)
    have lb: "length b = length str" using fits by (simp add: b_def)
    define b' where "b' = overwrite b (length u) newkey"
    have st: "mem_store b (length u) newkey = Some b'" using fits lb by (simp add: mem_store_Some b'_def)
    have "take (length u) b = u" unfolding b_def using fits z(1) by (simp add: take_overwrite_front)
    moreover have "drop (length u + length newkey) b = c @ 0 # drop (length u + length newkey + length (c @ [0])) str"
      using fits by (simp add: b_def overwrite_def)
    ultimately have "b' = (u @ newkey @ c) @ 0 # drop (length u + length newkey + length (c @ [0])) str"
      by (simp add: b'_def overwrite_def)
    moreover have "length b' = length str" using fits lb by (simp add: b'_def)
    moreover have "replace_at str len (length str) (length key) newkey (length u) = Some (b', len + nat ?d)"
    proof -
      have "\<not> len + nat ?d + 1 > length str" using 3 fits z(2) by simp
      then show ?thesis using 3 unfolding replace_at_def Let_def n mv by (simp add: st)
    qed
    ultimately show ?thesis using 3 z(2) by (auto simp: holds_split)
  qed
qed

definition replacing :: "byte list \<Rightarrow> byte list \<Rightarrow> byte list \<Rightarrow> size_t \<Rightarrow> replace_state \<Rightarrow> bool" where
  "replacing key newkey result capacity s \<longleftrightarrow> length (sr_str s) = capacity \<and>
     (\<exists>u rest. length u = sr_pos s \<and> holds (sr_str s) (sr_length s) (u @ rest) \<and> u @ replace_all key newkey rest = result)"

lemma length_replace_all: "length key \<le> length newkey \<Longrightarrow> length s \<le> length (replace_all key newkey s)"
proof (induction key newkey s rule: replace_all.induct)
  case (1 key newkey s)
  show ?case
  proof (cases "s = []")
    case False
    show ?thesis
    proof (cases "key \<noteq> [] \<and> take (length key) s = key")
      case True
      then have "replace_all key newkey s = newkey @ replace_all key newkey (drop (length key) s)"
        using False by (subst replace_all.simps) simp
      then show ?thesis using 1(1) [OF False True 1(3)] 1(3) by simp
    next
      case no: False
      then have "replace_all key newkey s = hd s # replace_all key newkey (tl s)"
        using False by (subst replace_all.simps) auto
      then show ?thesis using 1(2) [OF False no 1(3)] by simp
    qed
  qed simp
qed

lemma replacing_step:
  assumes "replacing key newkey result capacity s" "key \<noteq> []" "length result < capacity" "capacity < STRING_NPOS"
  shows "(replace_step capacity key newkey False s = Exit \<and> holds (sr_str s) (sr_length s) result) \<or>
    (\<exists>s'. replace_step capacity key newkey False s = Next s' \<and> replacing key newkey result capacity s' \<and>
      sr_length s' - sr_pos s' < sr_length s - sr_pos s)"
proof -
  from assms(1) obtain u rest where u: "length u = sr_pos s" "holds (sr_str s) (sr_length s) (u @ rest)"
      "u @ replace_all key newkey rest = result" "length (sr_str s) = capacity" by (auto simp: replacing_def)
  have content: "take (sr_length s) (sr_str s) = u @ rest" and inv: "replace_inv True capacity s"
    using u(2,4) assms(4) by (auto simp: holds_def replace_inv_def)
  have len: "sr_length s = length u + length rest" using holds_length [OF u(2)] by simp
  from inv assms(2) impI [OF TrueI] show ?thesis
  proof (cases rule: replace_step_cases [of _ _ _ _ newkey False])
    case exit
    have "\<not> occurs key rest i" for i
    proof
      assume oc: "occurs key rest i"
      then have "length u + i \<in> set [sr_pos s..<Suc (sr_length s) - length key]" using len u(1) by (auto simp: occurs_def)
      then show False using exit(1) oc occurs_append [of key u rest i] unfolding content find_None_all by blast
    qed
    then have "replace_all key newkey rest = rest" by (rule replace_all_none)
    then show ?thesis using exit(2) u by simp
  next
    case (skip p)
    then show ?thesis by (simp add: inserted_def)
  next
    case (replace p str' len')
    define i where "i = p - length u"
    have p: "p = length u + i" using replace(2) u(1) by (simp add: i_def)
    have oc: "occurs key rest i" using replace(4) occurs_append [of key u rest i] unfolding content p by simp
    define a c where "a = take i rest" and "c = drop (i + length key) rest"
    have i: "i + length key \<le> length rest" "take (length key) (drop i rest) = key" using oc by (auto simp: occurs_def)
    have rest: "rest = a @ key @ c"
    proof -
      have "rest = take i rest @ take (length key) (drop i rest) @ drop (length key) (drop i rest)"
        by (simp only: append_take_drop_id)
      then show ?thesis using i(2) by (simp add: a_def c_def add.commute)
    qed
    have la: "length a = i" using i(1) by (simp add: a_def)
    have "\<not> occurs key (a @ key @ c) j" if "j < length a" for j
    proof -
      have "\<not> occurs key (u @ rest) (length u + j)"
        using find_upt_Some [OF replace(1)] that la u(1) p unfolding content by simp
      then show ?thesis unfolding occurs_append rest .
    qed
    from replace_all_first [OF assms(2) this] have ra: "result = u @ a @ newkey @ replace_all key newkey c"
      using u(3) unfolding rest by simp
    have "length ((u @ a) @ newkey @ c) < length (sr_str s)"
    proof (cases "length key \<le> length newkey")
      case True
      then show ?thesis using length_replace_all [OF True, of c] assms(3) u(4) ra by simp
    next
      case False
      have "length (u @ rest) < capacity" using u(2,4) by (auto dest: holds_short)
      then show ?thesis using False u(4) unfolding rest by simp
    qed
    moreover have "holds (sr_str s) (sr_length s) ((u @ a) @ key @ c)" using u(2) unfolding rest by simp
    ultimately have "holds str' len' ((u @ a) @ newkey @ c)"
      using replace_at_text [of "sr_str s" "sr_length s" "u @ a" key c newkey] replace(6) u(4) la p by simp
    then have "replacing key newkey result capacity \<lparr>sr_str = str', sr_length = len', sr_pos = p + length newkey,
        sr_lastpos = p, sr_replaced = sr_replaced s + 1\<rparr>"
      using replace(7) ra la p unfolding replacing_def
      by (intro conjI exI [of _ "u @ a @ newkey"] exI [of _ c]) simp_all
    moreover have "len' - (p + length newkey) < sr_length s - sr_pos s"
    proof -
      have "0 < length key" using assms(2) by simp
      then show ?thesis using replace(2,3,9) by linarith
    qed
    ultimately show ?thesis using replace(10) by simp
  qed
qed

text \<open>
  C23. When the result fits the buffer, a replacement that is not repeated returns, and the buffer
  holds the zero-terminated string in which every occurrence of the key, from left to right and
  without overlap, is replaced.
\<close>

theorem string_replace_correct:
  assumes "holds str len t" "key \<noteq> []" "t \<noteq> []" "length (replace_all key newkey t) < length str" "length str < STRING_NPOS"
  shows "\<exists>str' len'. string_replace str len (length str) key newkey False = Some (Some (str', len')) \<and>
    length str' = length str \<and> holds str' len' (replace_all key newkey t)"
proof -
  let ?R = "replace_all key newkey t"
  define s where "s = \<lparr>sr_str = str, sr_length = len, sr_pos = 0, sr_lastpos = STRING_NPOS, sr_replaced = 0\<rparr>"
  define I where "I = replacing key newkey ?R (length str)"
  define m :: "replace_state \<Rightarrow> nat" where "m s = sr_length s - sr_pos s" for s
  have "I s" using assms(1) unfolding I_def replacing_def s_def by (intro conjI exI [of _ "[]"] exI [of _ t]) simp_all
  have step: "(replace_step (length str) key newkey False x = Exit \<and> holds (sr_str x) (sr_length x) ?R) \<or>
      (\<exists>s'. replace_step (length str) key newkey False x = Next s' \<and> I s' \<and> m s' < m x)" if "I x" for x
    using replacing_step [OF that [unfolded I_def] assms(2,4,5)] by (simp add: I_def m_def)
  then have "\<exists>r. replace_loop (length str) key newkey False s = Some (Some r) \<and> I r \<and>
      replace_step (length str) key newkey False r = Exit"
    using replace_loop_returns [of I _ key newkey False m, OF _ \<open>I s\<close>] by blast
  then obtain r where r: "replace_loop (length str) key newkey False s = Some (Some r)" "I r"
      "replace_step (length str) key newkey False r = Exit" by blast
  have h: "holds (sr_str r) (sr_length r) ?R" using step [OF r(2)] r(3) by auto
  have lr: "length (sr_str r) = length str" using r(2) by (simp add: I_def replacing_def)
  have same: "mem_set (sr_str r) (sr_length r) 0 = Some (sr_str r)"
    using h by (auto simp: holds_def mem_set_Some list_update_same_conv)
  have "len \<noteq> 0" "len \<le> length str" "length str \<noteq> 0" using assms(1,3) holds_length [OF assms(1)] by (auto simp: holds_def)
  then have "string_replace str len (length str) key newkey False = Some (Some (sr_str r, sr_length r))"
    using assms(2) r(1) same unfolding string_replace_def s_def [symmetric] by simp
  then show ?thesis using h lr by blast
qed

theorem string_replace_correct_witness:
  "\<exists>str' len'. string_replace [97, 98, 97, 0, 7, 7] 3 (length [97, 98, 97, 0, 7, 7 :: byte]) [97] [99, 97] False =
     Some (Some (str', len')) \<and> holds str' len' [99, 97, 98, 99, 97]"
proof -
  have "holds [97, 98, 97, 0, 7, 7] 3 [97, 98, 97]" by (simp add: holds_def)
  moreover have "replace_all [97] [99, 97] [97, 98, 97] = [99, 97, 98, 99, 97]" by (simp add: replace_all.simps)
  moreover have "length [97, 98, 97, 0, 7, 7 :: byte] < STRING_NPOS" by (simp add: STRING_NPOS_def SIZE_MOD_def)
  ultimately show ?thesis
    using string_replace_correct [of "[97, 98, 97, 0, 7, 7]" 3 "[97, 98, 97]" "[97]" "[99, 97]"] by auto
qed

end
