(* ===== verification/String_Explode.thy ===== *)
theory String_Explode
  imports String_Search String_Buffer
begin

text \<open>
  \<open>foundation/string.c\<close>, \<open>string_explode\<close>: cutting a string at delimiter characters, with or
  without the empty parts, into an array of limited size. The result is the list of the parts
  stored, each by offset and length. As in \<open>String_Replace\<close>, \<^const>\<open>None\<close> is a run that does not
  end and \<open>Some None\<close> one that reads outside of a buffer.
\<close>

section \<open>The code\<close>

partial_function (option) explode_loop :: "byte list \<Rightarrow> size_t \<Rightarrow> byte list \<Rightarrow> size_t \<Rightarrow> bool \<Rightarrow> size_t \<Rightarrow> size_t \<Rightarrow>
    (nat \<times> size_t) list \<Rightarrow> (nat \<times> size_t) list option option" where
  "explode_loop str len delimiters arrsize allow_empty token end' arr =
     (if end' < len \<and> length arr < arrsize then
        (case (if \<not> allow_empty then string_find_first_not_of str len delimiters (length delimiters) end' else Some token) of
           None \<Rightarrow> Some None
         | Some token \<Rightarrow>
        (case string_find_first_of str len delimiters (length delimiters) token of
           None \<Rightarrow> Some None
         | Some end' \<Rightarrow>
             explode_loop str len delimiters arrsize allow_empty
               (if allow_empty then (end' + 1) mod SIZE_MOD else token) end'
               (if token \<noteq> STRING_NPOS
                then arr @ [(token, if end' \<noteq> STRING_NPOS then end' - token else len - token)] else arr)))
      else Some (Some arr))"

definition string_explode :: "byte list \<Rightarrow> size_t \<Rightarrow> byte list \<Rightarrow> size_t \<Rightarrow> bool \<Rightarrow> (nat \<times> size_t) list option option" where
  "string_explode str len delimiters arrsize allow_empty =
     (if len = 0 \<or> arrsize = 0 then Some (Some [])
      else if length delimiters = 0 then Some (Some [(0, len)])
      else explode_loop str len delimiters arrsize allow_empty 0 0 [])"

section \<open>The reference\<close>

function fields :: "byte set \<Rightarrow> byte list \<Rightarrow> byte list list" where
  "fields D s =
     (case dropWhile (\<lambda>x. x \<notin> D) s of
        [] \<Rightarrow> [s]
      | d # rest \<Rightarrow> takeWhile (\<lambda>x. x \<notin> D) s # fields D rest)"
  by pat_completeness auto
termination
proof (relation "measure (\<lambda>(D, s). length s)")
  fix D :: "byte set" and s d rest
  assume "dropWhile (\<lambda>x. x \<notin> D) s = d # rest"
  then show "((D, rest), (D, s)) \<in> measure (\<lambda>(D, s). length s)"
    using length_dropWhile_le [of "\<lambda>x. x \<notin> D" s] by simp
qed simp

declare fields.simps [simp del] dropWhile_eq_Nil_conv [simp del] takeWhile_eq_all_conv [simp del]

definition tokens :: "byte set \<Rightarrow> byte list \<Rightarrow> byte list list" where
  "tokens D s = filter (\<lambda>f. f \<noteq> []) (fields D s)"

lemma fields_last: "dropWhile (\<lambda>x. x \<notin> D) s = [] \<Longrightarrow> fields D s = [s]"
  by (subst fields.simps) simp

lemma fields_more: "dropWhile (\<lambda>x. x \<notin> D) s = d # rest \<Longrightarrow> fields D s = takeWhile (\<lambda>x. x \<notin> D) s # fields D rest"
  by (subst fields.simps) simp

lemma tokens_Nil [simp]: "tokens D [] = []"
  by (simp add: tokens_def fields_last)

lemma tokens_delim: "d \<in> D \<Longrightarrow> tokens D (d # s) = tokens D s"
  using fields_more [of D "d # s" d s] by (simp add: tokens_def)

lemma tokens_skip: "tokens D s = tokens D (dropWhile (\<lambda>x. x \<in> D) s)"
  by (induction s) (simp_all add: tokens_delim)

lemma tokens_more:
  assumes "s \<noteq> []" "hd s \<notin> D"
  shows "tokens D s = takeWhile (\<lambda>x. x \<notin> D) s # tokens D (dropWhile (\<lambda>x. x \<notin> D) s)"
proof (cases "dropWhile (\<lambda>x. x \<notin> D) s")
  case Nil
  then have "takeWhile (\<lambda>x. x \<notin> D) s = s" using takeWhile_dropWhile_id [of "\<lambda>x. x \<notin> D" s] by simp
  then show ?thesis using Nil assms(1) by (simp add: tokens_def fields_last)
next
  case (Cons d rest)
  then have "d \<in> D" using hd_dropWhile [of "\<lambda>x. x \<notin> D" s] by simp
  moreover have "takeWhile (\<lambda>x. x \<notin> D) s \<noteq> []" using assms by (cases s) auto
  ultimately show ?thesis using fields_more [OF Cons] Cons by (simp add: tokens_def) (metis tokens_def tokens_delim)
qed

lemma join_fields: "join [d] (fields {d} s) = s"
proof (induction "{d}" s rule: fields.induct)
  case (1 s)
  show ?case
  proof (cases "dropWhile (\<lambda>x. x \<notin> {d}) s")
    case Nil
    then show ?thesis by (simp add: fields_last)
  next
    case (Cons c rest)
    then have "c = d" using hd_dropWhile [of "\<lambda>x. x \<notin> {d}" s] by simp
    have s: "s = takeWhile (\<lambda>x. x \<notin> {d}) s @ d # rest" using Cons \<open>c = d\<close> by (metis takeWhile_dropWhile_id)
    have "\<exists>f fs. fields {d} rest = f # fs" by (subst fields.simps) (auto split: list.split)
    then obtain f fs where f: "fields {d} rest = f # fs" by blast
    have "join [d] (fields {d} s) = takeWhile (\<lambda>x. x \<notin> {d}) s @ d # join [d] (fields {d} rest)"
      using f by (simp add: fields_more [OF Cons])
    also have "\<dots> = s" using 1 [OF Cons] s by simp
    finally show ?thesis .
  qed
qed

section \<open>The loop\<close>

text \<open>The two searches of a round, by the parts of the string they skip.\<close>

lemma find_parts:
  assumes "len \<le> length str" "k \<le> len"
  shows "List.find (\<lambda>i. P (str ! i)) [k..<len] = (case dropWhile (\<lambda>x. \<not> P x) (drop k (take len str)) of [] \<Rightarrow> None
    | _ # _ \<Rightarrow> Some (k + length (takeWhile (\<lambda>x. \<not> P x) (drop k (take len str)))))"
proof -
  let ?t = "drop k (take len str)"
  have "length (takeWhile (\<lambda>x. \<not> P x) ?t) + length (dropWhile (\<lambda>x. \<not> P x) ?t) = len - k"
    using length_append [of "takeWhile (\<lambda>x. \<not> P x) ?t" "dropWhile (\<lambda>x. \<not> P x) ?t"] assms
    unfolding takeWhile_dropWhile_id by simp
  then show ?thesis
    using find_takeWhile [OF assms, of P] assms(2)
    by (cases "dropWhile (\<lambda>x. \<not> P x) ?t") (simp_all add: Let_def)
qed

lemma first_of_part:
  assumes "len \<le> length str" "length D \<le> STRING_NPOS" "k \<le> len"
  shows "string_find_first_of str len D (length D) k =
    Some (case dropWhile (\<lambda>x. x \<notin> set D) (drop k (take len str)) of [] \<Rightarrow> STRING_NPOS
      | _ # _ \<Rightarrow> k + length (takeWhile (\<lambda>x. x \<notin> set D) (drop k (take len str))))"
  unfolding string_find_first_of_find [OF assms(1,2)] find_parts [OF assms(1,3), of "\<lambda>x. x \<in> set D"]
  by (simp split: list.split)

lemma first_not_of_part:
  assumes "len \<le> length str" "length D \<le> STRING_NPOS" "k \<le> len"
  shows "string_find_first_not_of str len D (length D) k =
    Some (case dropWhile (\<lambda>x. x \<in> set D) (drop k (take len str)) of [] \<Rightarrow> STRING_NPOS
      | _ # _ \<Rightarrow> k + length (takeWhile (\<lambda>x. x \<in> set D) (drop k (take len str))))"
  unfolding string_find_first_not_of_find [OF assms(1,2)] find_parts [OF assms(1,3), of "\<lambda>x. x \<notin> set D"]
  by (simp split: list.split)

text \<open>
  One round with empty parts, at the token \<open>k\<close>: the field at \<open>k\<close> is stored, and the loop goes on
  behind the delimiter or ends.
\<close>

lemma explode_empty_round:
  assumes "len \<le> length str" "len < STRING_NPOS" "length D \<le> STRING_NPOS" "k \<le> len" "e < len" "length arr < arrsize"
  defines "t \<equiv> drop k (take len str)"
  defines "n \<equiv> length (takeWhile (\<lambda>x. x \<notin> set D) t)"
  shows "explode_loop str len D arrsize True k e arr =
    (case dropWhile (\<lambda>x. x \<notin> set D) t of
       [] \<Rightarrow> Some (Some (arr @ [(k, len - k)]))
     | _ # _ \<Rightarrow> explode_loop str len D arrsize True (k + n + 1) (k + n) (arr @ [(k, n)]))"
proof -
  have fd: "string_find_first_of str len D (length D) k =
      Some (case dropWhile (\<lambda>x. x \<notin> set D) t of [] \<Rightarrow> STRING_NPOS | _ # _ \<Rightarrow> k + n)"
    unfolding t_def n_def by (rule first_of_part [OF assms(1,3,4)])
  have k: "k \<noteq> STRING_NPOS" using assms(2,4) by simp
  have "n \<le> length t" unfolding n_def by (rule length_takeWhile_le)
  then have n: "k + n \<le> len" using assms(1,4) by (simp add: t_def)
  show ?thesis
  proof (cases "dropWhile (\<lambda>x. x \<notin> set D) t")
    case Nil
    have "explode_loop str len D arrsize True k e arr =
        explode_loop str len D arrsize True ((STRING_NPOS + 1) mod SIZE_MOD) STRING_NPOS (arr @ [(k, len - k)])"
      using assms(5,6) fd k Nil by (subst explode_loop.simps) simp
    also have "\<dots> = Some (Some (arr @ [(k, len - k)]))" using assms(2) by (subst explode_loop.simps) simp
    finally show ?thesis using Nil by simp
  next
    case (Cons d rest)
    have "(k + n + 1) mod SIZE_MOD = k + n + 1" "k + n \<noteq> STRING_NPOS" using n assms(2) by (auto simp: STRING_NPOS_def)
    then show ?thesis using assms(5,6) fd k Cons by (subst explode_loop.simps) simp
  qed
qed

lemma drop_behind:
  assumes "dropWhile P t = d # rest" shows "drop (Suc (length (takeWhile P t))) t = rest"
proof -
  have "drop (length (takeWhile P t)) t = d # rest" using assms dropWhile_eq_drop [of P t] by simp
  then show ?thesis by (metis drop_Suc list.sel(3) tl_drop)
qed

lemma explode_empty_loop:
  assumes "len \<le> length str" "len < STRING_NPOS" "length D \<le> STRING_NPOS"
  shows "k \<le> len \<Longrightarrow> e < len \<Longrightarrow> length arr \<le> arrsize \<Longrightarrow>
    \<exists>arr'. explode_loop str len D arrsize True k e arr = Some (Some arr') \<and>
      map (part str) arr' = map (part str) arr @ take (arrsize - length arr) (fields (set D) (drop k (take len str)))"
proof (induction "len - k" arbitrary: k e arr rule: less_induct)
  case less
  let ?t = "drop k (take len str)"
  let ?n = "length (takeWhile (\<lambda>x. x \<notin> set D) ?t)"
  show ?case
  proof (cases "length arr < arrsize")
    case False
    then show ?thesis by (subst explode_loop.simps) simp
  next
    case True
    then obtain j where j: "arrsize - length arr = Suc j" "arrsize - Suc (length arr) = j"
      by (metis Suc_diff_Suc diff_Suc_Suc)
    note round = explode_empty_round [OF assms less.prems(1,2) True]
    show ?thesis
    proof (cases "dropWhile (\<lambda>x. x \<notin> set D) ?t")
      case Nil
      have "part str (k, len - k) = ?t" by (simp add: part_def drop_take)
      then show ?thesis using round Nil by (simp add: fields_last j)
    next
      case (Cons d rest)
      have "?n + length (d # rest) = length ?t"
        using length_append [of "takeWhile (\<lambda>x. x \<notin> set D) ?t" "d # rest"] Cons [symmetric] by simp
      then have n: "k + ?n < len" using assms(1) less.prems(1) by simp
      have rest: "drop (Suc (k + ?n)) (take len str) = rest"
        using drop_behind [OF Cons] by (simp add: add.commute)
      have pt: "part str (k, ?n) = takeWhile (\<lambda>x. x \<notin> set D) ?t"
      proof -
        have "take ?n ?t = takeWhile (\<lambda>x. x \<notin> set D) ?t" by (rule takeWhile_eq_take [symmetric])
        moreover have "take ?n ?t = take ?n (drop k str)" using n by (simp add: drop_take min_def)
        ultimately show ?thesis by (simp add: part_def)
      qed
      have "len - Suc (k + ?n) < len - k" using n by linarith
      from less.hyps [OF this, of "k + ?n" "arr @ [(k, ?n)]"] n True obtain arr' where
        "explode_loop str len D arrsize True (Suc (k + ?n)) (k + ?n) (arr @ [(k, ?n)]) = Some (Some arr')"
        "map (part str) arr' = map (part str) (arr @ [(k, ?n)]) @ take j (fields (set D) rest)"
        unfolding rest by (auto simp: j)
      then show ?thesis using round Cons by (simp add: fields_more [OF Cons] j pt)
    qed
  qed
qed

lemma explode_tokens_loop:
  assumes "len \<le> length str" "len < STRING_NPOS" "length D \<le> STRING_NPOS"
  shows "e \<le> len \<Longrightarrow> length arr \<le> arrsize \<Longrightarrow>
    \<exists>arr'. explode_loop str len D arrsize False tk e arr = Some (Some arr') \<and>
      map (part str) arr' = map (part str) arr @ take (arrsize - length arr) (tokens (set D) (drop e (take len str)))"
proof (induction "len - e" arbitrary: tk e arr rule: less_induct)
  case less
  let ?t = "drop e (take len str)"
  show ?case
  proof (cases "e < len \<and> length arr < arrsize")
    case False
    then have "arrsize - length arr = 0 \<or> ?t = []" using less.prems assms(1) by auto
    then show ?thesis using False by (subst explode_loop.simps) auto
  next
    case True
    then obtain j where j: "arrsize - length arr = Suc j" "arrsize - Suc (length arr) = j"
      by (metis Suc_diff_Suc diff_Suc_Suc)
    note nf = first_not_of_part [OF assms(1,3) less.prems(1)]
    show ?thesis
    proof (cases "dropWhile (\<lambda>x. x \<in> set D) ?t")
      case Nil
      have "string_find_first_of str len D (length D) STRING_NPOS = Some STRING_NPOS"
        using assms(1-3) by (simp add: string_find_first_of_find)
      then have "explode_loop str len D arrsize False tk e arr = explode_loop str len D arrsize False STRING_NPOS STRING_NPOS arr"
        using True nf Nil by (subst explode_loop.simps) simp
      also have "\<dots> = Some (Some arr)" using assms(2) by (subst explode_loop.simps) simp
      finally show ?thesis using tokens_skip [of "set D" ?t] Nil by simp
    next
      case (Cons c s')
      define k where "k = e + length (takeWhile (\<lambda>x. x \<in> set D) ?t)"
      have dk: "drop k (take len str) = c # s'"
        using Cons dropWhile_eq_drop [of "\<lambda>x. x \<in> set D" ?t] by (simp add: k_def add.commute)
      then have "k < len" using assms(1) by (metis drop_eq_Nil leI length_take list.distinct(1) min.absorb2)
      have c: "c \<notin> set D" using hd_dropWhile [of "\<lambda>x. x \<in> set D" ?t] Cons by simp
      define n where "n = length (takeWhile (\<lambda>x. x \<notin> set D) (c # s'))"
      have "0 < n" using c by (simp add: n_def)
      have fd: "string_find_first_of str len D (length D) k =
          Some (case dropWhile (\<lambda>x. x \<notin> set D) (c # s') of [] \<Rightarrow> STRING_NPOS | _ # _ \<Rightarrow> k + n)"
        using first_of_part [OF assms(1,3), of k] \<open>k < len\<close> unfolding dk n_def by simp
      have tk: "tokens (set D) ?t = takeWhile (\<lambda>x. x \<notin> set D) (c # s') # tokens (set D) (dropWhile (\<lambda>x. x \<notin> set D) (c # s'))"
        using tokens_skip [of "set D" ?t] tokens_more [of "c # s'" "set D"] c Cons by simp
      have kn: "k \<noteq> STRING_NPOS" using \<open>k < len\<close> assms(2) by simp
      show ?thesis
      proof (cases "dropWhile (\<lambda>x. x \<notin> set D) (c # s')")
        case Nil
        then have "takeWhile (\<lambda>x. x \<notin> set D) (c # s') = c # s'"
          using takeWhile_dropWhile_id [of "\<lambda>x. x \<notin> set D" "c # s'"] by (metis append_Nil2)
        moreover have "part str (k, len - k) = c # s'" using dk by (simp add: part_def drop_take)
        moreover have "explode_loop str len D arrsize False tk e arr =
            explode_loop str len D arrsize False k STRING_NPOS (arr @ [(k, len - k)])"
          using True nf Cons fd Nil kn by (subst explode_loop.simps) (simp add: k_def)
        moreover have "\<dots> = Some (Some (arr @ [(k, len - k)]))" using assms(2) by (subst explode_loop.simps) simp
        ultimately show ?thesis using tk Nil by (simp add: j)
      next
        case more: (Cons d rest)
        have "n + length (d # rest) = length (c # s')"
          using arg_cong [OF takeWhile_dropWhile_id [of "\<lambda>x. x \<notin> set D" "c # s'"], of length]
          unfolding length_append more n_def .
        moreover have "length (c # s') = len - k" unfolding dk [symmetric] using assms(1) by simp
        ultimately have n: "k + n < len" by simp
        have dn: "drop (k + n) (take len str) = d # rest"
        proof -
          have "drop n (drop k (take len str)) = d # rest"
            unfolding dk n_def dropWhile_eq_drop [symmetric] by (rule more)
          then show ?thesis by (simp add: add.commute)
        qed
        have pt: "part str (k, n) = takeWhile (\<lambda>x. x \<notin> set D) (c # s')"
        proof -
          have "take n (c # s') = takeWhile (\<lambda>x. x \<notin> set D) (c # s')" unfolding n_def by (rule takeWhile_eq_take [symmetric])
          moreover have "take n (drop k (take len str)) = take n (drop k str)" using n by (simp add: drop_take min_def)
          ultimately show ?thesis unfolding dk by (simp add: part_def)
        qed
        have rd: "explode_loop str len D arrsize False tk e arr = explode_loop str len D arrsize False k (k + n) (arr @ [(k, n)])"
          using True nf Cons fd more kn n assms(2) by (subst explode_loop.simps) (simp add: k_def)
        have "len - (k + n) < len - e" using n \<open>0 < n\<close> by (simp add: k_def)
        from less.hyps [OF this, of "arr @ [(k, n)]" k] n True obtain arr' where
          "explode_loop str len D arrsize False k (k + n) (arr @ [(k, n)]) = Some (Some arr')"
          "map (part str) arr' = map (part str) (arr @ [(k, n)]) @ take j (tokens (set D) (d # rest))"
          unfolding dn by (auto simp: j)
        then show ?thesis using rd tk more by (simp add: j pt)
      qed
    qed
  qed
qed

text \<open>
  C24. The loop ends and stays inside of the string. With empty parts allowed it stores the fields
  between the delimiters, otherwise the maximal parts without delimiters, from the left and up
  to the size of the array; without delimiters it stores the whole string.
\<close>

theorem string_explode_correct:
  assumes "len \<le> length str" "len < STRING_NPOS" "length D \<le> STRING_NPOS" "len \<noteq> 0"
  shows "\<exists>arr. string_explode str len D arrsize allow_empty = Some (Some arr) \<and>
    map (part str) arr = take arrsize (if D = [] then [take len str]
      else if allow_empty then fields (set D) (take len str) else tokens (set D) (take len str))"
proof (cases "arrsize = 0 \<or> D = []")
  case True
  then show ?thesis using assms(4) by (auto simp: string_explode_def part_def take_Cons')
next
  case False
  then have "string_explode str len D arrsize allow_empty = explode_loop str len D arrsize allow_empty 0 0 []"
    using assms(4) by (simp add: string_explode_def)
  then show ?thesis
    using False explode_empty_loop [OF assms(1-3), of 0 0 "[]" arrsize] explode_tokens_loop [OF assms(1-3), of 0 "[]" arrsize 0] assms(4)
    by (cases allow_empty) auto
qed

theorem string_explode_correct_witness:
  "\<exists>arr. string_explode [44, 97, 44, 44, 98, 0] 5 [44] 8 False = Some (Some arr) \<and>
     map (part [44, 97, 44, 44, 98, 0]) arr = [[97], [98]]"
proof -
  have "tokens {44} [44, 97, 44, 44, 98] = [[97], [98]]"
    by (simp add: tokens_def fields.simps [of "{44}"])
  then show ?thesis
    using string_explode_correct [of 5 "[44, 97, 44, 44, 98, 0]" "[44]" 8 False] by (simp add: STRING_NPOS_def SIZE_MOD_def)
qed

text \<open>
  Merging the fields of a string with the delimiter they were cut at gives the string back,
  when the array has room for all fields and the buffer for the string.
\<close>

theorem string_explode_merge:
  assumes "len \<le> length str" "len < STRING_NPOS" "len \<noteq> 0" "length (fields {d} (take len str)) \<le> arrsize" "len < length dst"
  shows "\<exists>arr dst'. string_explode str len [d] arrsize True = Some (Some arr) \<and>
    string_merge dst (length dst) (map (part str) arr) [d] = Some (dst', len) \<and> holds dst' len (take len str)"
proof -
  have "fields {d} (take len str) \<noteq> []" by (subst fields.simps) (auto split: list.split)
  then have "arrsize \<noteq> 0" using assms(4) by (cases "fields {d} (take len str)") simp_all
  have "length [d] \<le> STRING_NPOS" by (simp add: STRING_NPOS_def SIZE_MOD_def)
  from explode_empty_loop [OF assms(1,2) this, of 0 0 "[]" arrsize] assms(3,4) \<open>arrsize \<noteq> 0\<close> obtain arr where
    arr: "string_explode str len [d] arrsize True = Some (Some arr)" "map (part str) arr = fields {d} (take len str)"
    by (auto simp: string_explode_def)
  have "0 < length dst" using assms(5) by linarith
  from string_merge_holds [OF this, of "map (part str) arr" "[d]"] obtain dst' n where
    m: "string_merge dst (length dst) (map (part str) arr) [d] = Some (dst', n)" "holds dst' n (clip (length dst) (take len str))"
    unfolding arr(2) join_fields by blast
  have "len \<le> length dst - 1" using assms(5) by linarith
  then have "clip (length dst) (take len str) = take len str" by (simp add: clip_def min.absorb2)
  then have "holds dst' n (take len str)" "n = len" using m(2) holds_length [OF m(2)] assms(1) by simp_all
  then show ?thesis using arr(1) m(1) by blast
qed

theorem string_explode_merge_witness:
  "\<exists>arr dst'. string_explode [44, 97, 44, 0] 3 [44] 4 True = Some (Some arr) \<and>
     string_merge [1, 2, 3, 4] (length [1, 2, 3, 4 :: byte]) (map (part [44, 97, 44, 0]) arr) [44] = Some (dst', 3) \<and>
     holds dst' 3 [44, 97, 44]"
proof -
  have "fields {44} [44, 97, 44] = [[], [97], []]" by (simp add: fields.simps [of "{44}"])
  then show ?thesis
    using string_explode_merge [of 3 "[44, 97, 44, 0]" 44 4 "[1, 2, 3, 4]"] by (simp add: STRING_NPOS_def SIZE_MOD_def)
qed

end
