(* ===== verification/String_Utf.thy ===== *)
theory String_Utf
  imports String_Buffer Byteorder
begin

text \<open>
  \<open>foundation/string.c\<close>, conversions between UTF-8, UTF-16 and UTF-32. A wide character is a
  32-bit code point, as on the platforms where \<open>wchar_t\<close> has four bytes. The encoder goes up to
  six bytes for values below \<open>2 ^ 31\<close>, as UTF-8 was first defined.
\<close>

section \<open>One code point\<close>

definition get_bit_mask :: "nat \<Rightarrow> u32" where
  "get_bit_mask bits = push_bit bits 1 - 1"

definition get_utf8_bytes_count :: "byte \<Rightarrow> size_t" where
  "get_utf8_bytes_count lead =
     (if lead AND 0xFE = 0xFC then 6
      else if lead AND 0xFC = 0xF8 then 5
      else if lead AND 0xF8 = 0xF0 then 4
      else if lead AND 0xF0 = 0xE0 then 3
      else if lead AND 0xE0 = 0xC0 then 2
      else 1)"

definition get_bytes_count_as_utf8 :: "u32 \<Rightarrow> size_t" where
  "get_bytes_count_as_utf8 val =
     (if val \<ge> 0x04000000 then 6
      else if val \<ge> 0x00200000 then 5
      else if val \<ge> 0x00010000 then 4
      else if val \<ge> 0x00000800 then 3
      else if val \<ge> 0x00000080 then 2
      else 1)"

text \<open>The bytes the encoder writes, and the encoder.\<close>

definition utf8_bytes :: "u32 \<Rightarrow> byte list" where
  "utf8_bytes val =
     (if val < 0x80 then [ucast val]
      else let num = get_bytes_count_as_utf8 val - 1
           in ucast ((0x80 OR push_bit (7 - num) (get_bit_mask num)) OR (drop_bit (6 * num) val AND get_bit_mask (6 - num))) #
              map (\<lambda>j. ucast (0x80 OR (drop_bit (6 * (num - j)) val AND 0x3F))) [1..<Suc num])"

definition encode_utf8 :: "byte list \<Rightarrow> nat \<Rightarrow> u32 \<Rightarrow> (byte list \<times> size_t) option" where
  "encode_utf8 str ofs val =
     do { str \<leftarrow> mem_store str ofs (utf8_bytes val); Some (str, length (utf8_bytes val)) }"

text \<open>\<open>for (j = 1; (j <= num) && (cur < end); ++j, ++cur)\<close> with the glyph, \<open>j\<close> and \<open>cur\<close> it ends with.\<close>

function extra_bytes :: "byte list \<Rightarrow> nat \<Rightarrow> nat \<Rightarrow> nat \<Rightarrow> nat \<Rightarrow> u32 \<Rightarrow> (u32 \<times> nat \<times> nat) option" where
  "extra_bytes str end' num j cur glyph =
     (if j \<le> num \<and> cur < end' then
        (case mem_get str cur of
           None \<Rightarrow> None
         | Some ext \<Rightarrow> extra_bytes str end' num (j + 1) (cur + 1) (glyph OR push_bit (6 * (num - j)) (ucast ext AND 0x3F)))
      else Some (glyph, j, cur))"
  by pat_completeness auto
termination
  by (relation "measure (\<lambda>(str, end', num, j, cur, glyph). Suc num - j)") auto

declare extra_bytes.simps [simp del]

text \<open>The decoding of the glyph at \<open>cur\<close>, shared by three functions: the glyph, the bytes consumed, and the new \<open>cur\<close>.\<close>

definition decode_glyph :: "byte list \<Rightarrow> nat \<Rightarrow> nat \<Rightarrow> (u32 \<times> nat \<times> nat) option" where
  "decode_glyph str end' cur =
     do { c \<leftarrow> mem_get str cur;
          if c AND 0x80 = 0 then Some (ucast c, 1, cur + 1)
          else let num = get_utf8_bytes_count c - 1;
                   glyph = push_bit (6 * num) (ucast c AND get_bit_mask (6 - num))
               in extra_bytes str end' num 1 (cur + 1) glyph }"

definition string_glyph :: "byte list \<Rightarrow> size_t \<Rightarrow> size_t \<Rightarrow> (u32 \<times> size_t) option" where
  "string_glyph str len offset =
     (if offset \<ge> len then Some (0, 0)
      else do { (glyph, consumed, cur) \<leftarrow> decode_glyph str len offset; Some (glyph, consumed) })"

lemma count_positive: "0 < get_utf8_bytes_count c"
  by (simp add: get_utf8_bytes_count_def)

function string_glyphs_loop :: "byte list \<Rightarrow> nat \<Rightarrow> nat \<Rightarrow> size_t \<Rightarrow> size_t option" where
  "string_glyphs_loop str end' cur num =
     (if cur < end' then
        (case mem_get str cur of
           None \<Rightarrow> None
         | Some c \<Rightarrow> string_glyphs_loop str end' (cur + get_utf8_bytes_count c) (num + 1))
      else Some num)"
  by pat_completeness auto
termination
  by (relation "measure (\<lambda>(str, end', cur, num). end' - cur)") (use count_positive in \<open>auto simp: diff_less_mono2\<close>)

declare string_glyphs_loop.simps [simp del]

definition string_glyphs :: "byte list \<Rightarrow> size_t \<Rightarrow> size_t option" where
  "string_glyphs str len = string_glyphs_loop str len 0 0"

fun continuation_bytes :: "byte list \<Rightarrow> nat \<Rightarrow> nat \<Rightarrow> bool option" where
  "continuation_bytes str i 0 = Some True"
| "continuation_bytes str i (Suc n) =
     (case mem_get str i of
        None \<Rightarrow> None
      | Some b \<Rightarrow> if b AND 0xC0 \<noteq> 0x80 then Some False else continuation_bytes str (i + 1) n)"

definition string_glyph_length :: "byte list \<Rightarrow> size_t \<Rightarrow> int option" where
  "string_glyph_length str len =
     (if len = 0 then Some (-1)
      else do { c \<leftarrow> mem_get str 0;
                let byte_count = get_utf8_bytes_count c;
                if byte_count > len then Some (-1)
                else do { ok \<leftarrow> continuation_bytes str 1 (byte_count - 1);
                          Some (if ok then int byte_count else -1) } })"

section \<open>UTF-8 to UTF-32\<close>

text \<open>The first loop of \<open>wstring_allocate_from_string\<close>; \<open>i\<close> and \<open>cur\<close> advance together.\<close>

function wstring_count :: "byte list \<Rightarrow> size_t \<Rightarrow> nat \<Rightarrow> size_t \<Rightarrow> size_t option" where
  "wstring_count str len cur chars_count =
     (if cur < len then
        (case mem_get str cur of
           None \<Rightarrow> None
         | Some c \<Rightarrow> wstring_count str len (cur + get_utf8_bytes_count c) (chars_count + 1))
      else Some chars_count)"
  by pat_completeness auto
termination
  by (relation "measure (\<lambda>(str, len, cur, n). len - cur)") (use count_positive in \<open>auto simp: diff_less_mono2\<close>)

lemma extra_bytes_forward: "extra_bytes str end' num j cur glyph = Some (g, j', cur') \<Longrightarrow> cur \<le> cur' \<and> j' \<le> max j (Suc num)"
proof (induction str end' num j cur glyph rule: extra_bytes.induct)
  case (1 str end' num j cur glyph)
  then show ?case by (subst (asm) (2) extra_bytes.simps) (fastforce split: if_splits option.splits)
qed

lemma decode_glyph_forward: "decode_glyph str end' cur = Some (g, n, cur') \<Longrightarrow> cur < cur'"
  by (auto simp: decode_glyph_def Let_def split: if_splits Option.bind_splits dest!: extra_bytes_forward)

text \<open>
  The second loop: \<open>i\<close> grows by the extra bytes only, so that \<open>i < length\<close> holds whenever
  \<open>cur < end\<close> does. \<open>dest\<close> is the position in the allocation.
\<close>

function wstring_fill :: "byte list \<Rightarrow> size_t \<Rightarrow> nat \<Rightarrow> nat \<Rightarrow> u32 list \<Rightarrow> nat \<Rightarrow> (u32 list \<times> nat) option" where
  "wstring_fill str len i cur buffer dest =
     (if i < len \<and> cur < len then
        (case mem_get str cur of
           None \<Rightarrow> None
         | Some c \<Rightarrow>
        (case decode_glyph str len cur of
           None \<Rightarrow> None
         | Some (glyph, n, cur') \<Rightarrow>
        (case mem_set buffer dest glyph of
           None \<Rightarrow> None
         | Some buffer \<Rightarrow>
             wstring_fill str len (if c AND 0x80 = 0 then i else i + (get_utf8_bytes_count c - 1)) cur' buffer (dest + 1))))
      else Some (buffer, dest))"
  by pat_completeness auto
termination
  by (relation "measure (\<lambda>(str, len, i, cur, buffer, dest). len - cur)") (auto dest!: decode_glyph_forward)

declare wstring_count.simps [simp del] wstring_fill.simps [simp del]

definition wstring_allocate_from_string :: "byte list \<Rightarrow> size_t \<Rightarrow> u32 list option" where
  "wstring_allocate_from_string str len =
     (if len = 0 then Some [0]
      else do { chars_count \<leftarrow> wstring_count str len 0 0;
                (buffer, dest) \<leftarrow> wstring_fill str len 0 0 (replicate (chars_count + 1) 0) 0;
                mem_set buffer dest 0 })"

text \<open>\<open>wstring_from_string\<close> stops when the last place of the buffer is reached.\<close>

function wstring_copy :: "byte list \<Rightarrow> size_t \<Rightarrow> nat \<Rightarrow> nat \<Rightarrow> u32 list \<Rightarrow> nat \<Rightarrow> nat \<Rightarrow> (u32 list \<times> nat) option" where
  "wstring_copy str len i cur dest d last' =
     (if i < len \<and> cur < len \<and> d < last' then
        (case mem_get str cur of
           None \<Rightarrow> None
         | Some c \<Rightarrow>
        (case decode_glyph str len cur of
           None \<Rightarrow> None
         | Some (glyph, n, cur') \<Rightarrow>
        (case mem_set dest d glyph of
           None \<Rightarrow> None
         | Some dest \<Rightarrow>
             wstring_copy str len ((if c AND 0x80 = 0 then i else i + (get_utf8_bytes_count c - 1)) + 1) cur' dest (d + 1) last')))
      else Some (dest, d))"
  by pat_completeness auto
termination
  by (relation "measure (\<lambda>(str, len, i, cur, dest, d, l). len - cur)") (auto dest!: decode_glyph_forward)

declare wstring_copy.simps [simp del]

definition wstring_from_string :: "u32 list \<Rightarrow> size_t \<Rightarrow> byte list \<Rightarrow> size_t \<Rightarrow> u32 list option" where
  "wstring_from_string dest capacity source len =
     (if capacity = 0 then Some dest
      else do { (dest, d) \<leftarrow> wstring_copy source len 0 0 dest 0 (capacity - 1);
                mem_set dest d 0 })"

section \<open>UTF-32 to UTF-8\<close>

text \<open>The byte order mark and the swapping of a unit.\<close>

fun utf32_count :: "u32 list \<Rightarrow> bool \<Rightarrow> size_t \<Rightarrow> size_t" where
  "utf32_count [] swap curlen = curlen"
| "utf32_count (glyph # str) swap curlen =
     (if glyph = 0x0000FEFF \<or> glyph = 0xFFFE0000 then utf32_count str (glyph \<noteq> 0x0000FEFF) curlen
      else let glyph = (if swap then byteorder_swap32 glyph else glyph)
           in utf32_count str swap (curlen + get_bytes_count_as_utf8 glyph))"

fun utf32_convert :: "byte list \<Rightarrow> size_t \<Rightarrow> u32 list \<Rightarrow> bool \<Rightarrow> size_t \<Rightarrow> (byte list \<times> size_t) option" where
  "utf32_convert dst capacity [] swap curlen = Some (dst, curlen)"
| "utf32_convert dst capacity (glyph # src) swap curlen =
     (if curlen < capacity then
        if glyph = 0x0000FEFF \<or> glyph = 0xFFFE0000 then utf32_convert dst capacity src (glyph \<noteq> 0x0000FEFF) curlen
        else let glyph = (if swap then byteorder_swap32 glyph else glyph)
             in if curlen + get_bytes_count_as_utf8 glyph < capacity then
                  (case encode_utf8 dst curlen glyph of
                     None \<Rightarrow> None
                   | Some (dst, n) \<Rightarrow> utf32_convert dst capacity src swap (curlen + n))
                else utf32_convert dst capacity src swap curlen
      else Some (dst, curlen))"

definition string_convert_utf32 :: "byte list \<Rightarrow> size_t \<Rightarrow> u32 list \<Rightarrow> string_t option" where
  "string_convert_utf32 dst capacity src =
     do { (dst, curlen) \<leftarrow> utf32_convert dst capacity src False 0;
          dst \<leftarrow> mem_set dst curlen 0;
          Some (dst, curlen) }"

definition string_allocate_from_utf32 :: "u32 list \<Rightarrow> string_t option" where
  "string_allocate_from_utf32 str =
     (let curlen = utf32_count str False 0;
          buf = replicate (curlen + 1) 0
      in do { (buf, n) \<leftarrow> string_convert_utf32 buf (curlen + 1) str; Some (buf, curlen) })"

section \<open>UTF-16 to UTF-8\<close>

definition byteorder_swap16 :: "u16 \<Rightarrow> u16" where
  "byteorder_swap16 arg = push_bit 8 arg OR drop_bit 8 arg"

definition surrogate_pair :: "u32 \<Rightarrow> u32 \<Rightarrow> u32" where
  "surrogate_pair glyph lval = (push_bit 10 (glyph AND 0x3FF) OR (lval AND 0x3FF)) + 0x10000"

text \<open>The counting loop reads the unit behind a surrogate without comparing its position with the length.\<close>

function utf16_count :: "u16 list \<Rightarrow> nat \<Rightarrow> bool \<Rightarrow> size_t \<Rightarrow> size_t option" where
  "utf16_count str i swap curlen =
     (if i < length str then
        let unit = str ! i
        in if unit = 0xFFFE \<or> unit = 0xFEFF then utf16_count str (i + 1) (unit \<noteq> 0xFEFF) curlen
           else let glyph = ucast (if swap then byteorder_swap16 unit else unit) :: u32
                in if glyph \<ge> 0xD800 \<and> glyph \<le> 0xDFFF then
                     (case mem_get str (i + 1) of
                        None \<Rightarrow> None
                      | Some lval \<Rightarrow>
                          utf16_count str (i + 2) swap (curlen + get_bytes_count_as_utf8
                            (surrogate_pair glyph (ucast (if swap then byteorder_swap16 lval else lval)))))
                   else utf16_count str (i + 1) swap (curlen + get_bytes_count_as_utf8 glyph)
      else Some curlen)"
  by pat_completeness auto
termination
  by (relation "measure (\<lambda>(str, i, swap, curlen). length str - i)") auto

definition utf16_put :: "byte list \<Rightarrow> size_t \<Rightarrow> size_t \<Rightarrow> u32 \<Rightarrow> (byte list \<times> size_t) option" where
  "utf16_put dst capacity curlen glyph =
     (if curlen + get_bytes_count_as_utf8 glyph < capacity then
        do { (dst, n) \<leftarrow> encode_utf8 dst curlen glyph; Some (dst, curlen + n) }
      else Some (dst, curlen))"

function utf16_convert :: "byte list \<Rightarrow> size_t \<Rightarrow> u16 list \<Rightarrow> nat \<Rightarrow> bool \<Rightarrow> size_t \<Rightarrow> (byte list \<times> size_t) option" where
  "utf16_convert dst capacity src i swap curlen =
     (if i < length src \<and> curlen < capacity then
        let unit = src ! i
        in if unit = 0xFFFE \<or> unit = 0xFEFF then utf16_convert dst capacity src (i + 1) (unit \<noteq> 0xFEFF) curlen
           else let glyph = ucast (if swap then byteorder_swap16 unit else unit) :: u32
                in if glyph \<ge> 0xD800 \<and> glyph \<le> 0xDFFF then
                     if i + 1 \<ge> length src then utf16_convert dst capacity src (i + 2) swap curlen
                     else let lval = src ! (i + 1)
                          in (case utf16_put dst capacity curlen
                                     (surrogate_pair glyph (ucast (if swap then byteorder_swap16 lval else lval))) of
                                None \<Rightarrow> None
                              | Some (dst, curlen) \<Rightarrow> utf16_convert dst capacity src (i + 2) swap curlen)
                   else (case utf16_put dst capacity curlen glyph of
                           None \<Rightarrow> None
                         | Some (dst, curlen) \<Rightarrow> utf16_convert dst capacity src (i + 1) swap curlen)
      else Some (dst, curlen))"
  by pat_completeness auto
termination
  by (relation "measure (\<lambda>(dst, capacity, src, i, swap, curlen). length src - i)") auto

declare utf16_count.simps [simp del] utf16_convert.simps [simp del]

definition string_convert_utf16 :: "byte list \<Rightarrow> size_t \<Rightarrow> u16 list \<Rightarrow> string_t option" where
  "string_convert_utf16 dst capacity src =
     do { (dst, curlen) \<leftarrow> utf16_convert dst capacity src 0 False 0;
          dst \<leftarrow> mem_set dst curlen 0;
          Some (dst, curlen) }"

definition string_allocate_from_utf16 :: "u16 list \<Rightarrow> string_t option" where
  "string_allocate_from_utf16 str =
     do { curlen \<leftarrow> utf16_count str 0 False 0;
          let buf = replicate (curlen + 1) 0;
          (buf, n) \<leftarrow> string_convert_utf16 buf (curlen + 1) str;
          Some (buf, curlen) }"

section \<open>Decoding an encoded code point\<close>

lemma get_bit_mask_mask: "get_bit_mask n = mask n"
  by (simp add: get_bit_mask_def mask_eq_exp_minus_1)

lemma and_mask_low: "(w :: u32) AND get_bit_mask n = take_bit n w" "(w :: u32) AND 0x3F = take_bit 6 w"
proof -
  have "(0x3F :: u32) = mask 6" by (simp add: mask_eq_exp_minus_1)
  then show "(w :: u32) AND 0x3F = take_bit 6 w" by (simp add: take_bit_eq_mask)
qed (simp add: get_bit_mask_mask take_bit_eq_mask)

text \<open>A byte of the encoding read back as a word.\<close>

lemma byte_back: "n \<le> 8 \<Longrightarrow> take_bit n (ucast (ucast (x :: u32) :: byte) :: u32) = take_bit n x"
  by (rule bit_eqI) (auto simp: bit_simps)

lemma take_bit_or_left: "take_bit 6 (0x80 OR x :: u32) = take_bit 6 x"
proof -
  have "take_bit 6 (0x80 :: u32) = 0" by (simp add: take_bit_eq_mask mask_eq_exp_minus_1)
  then show ?thesis by (simp add: take_bit_or)
qed

lemma take_bit_split: "push_bit m (take_bit n (drop_bit m w)) OR take_bit m w = take_bit (m + n) (w :: u32)"
  by (rule bit_eqI) (auto simp: bit_simps)

definition cont_bytes :: "u32 \<Rightarrow> nat \<Rightarrow> byte list" where
  "cont_bytes val n = map (\<lambda>j. ucast (0x80 OR (drop_bit (6 * (n - j)) val AND 0x3F))) [1..<Suc n]"

lemma cont_bytes_Suc:
  "cont_bytes val (Suc n) = ucast (0x80 OR (drop_bit (6 * n) val AND 0x3F)) # cont_bytes val n"
proof -
  have "[1..<Suc (Suc n)] = 1 # map Suc [1..<Suc n]" by (simp add: upt_conv_Cons map_Suc_upt del: upt_Suc)
  then show ?thesis by (simp add: cont_bytes_def del: upt_Suc)
qed

lemma length_cont_bytes [simp]: "length (cont_bytes val n) = n"
  by (simp add: cont_bytes_def del: upt_Suc)

lemma extra_bytes_decode:
  "take n (drop cur str) = cont_bytes val n \<Longrightarrow> cur + n \<le> end' \<Longrightarrow> cur + n \<le> length str \<Longrightarrow> Suc num = j + n \<Longrightarrow>
   extra_bytes str end' num j cur glyph = Some (glyph OR take_bit (6 * n) val, j + n, cur + n)"
proof (induction n arbitrary: j cur glyph)
  case 0
  then show ?case by (subst extra_bytes.simps) simp
next
  case (Suc n)
  have "take (Suc n) (drop cur str) = str ! cur # take n (drop (Suc cur) str)"
    using Suc.prems(3) Cons_nth_drop_Suc [of cur str] by (metis Suc_le_lessD add_Suc_right le_add1 order_le_less_trans take_Suc_Cons)
  then have nth: "str ! cur = ucast (0x80 OR (drop_bit (6 * n) val AND 0x3F))" and rest: "take n (drop (Suc cur) str) = cont_bytes val n"
    using Suc.prems(1) unfolding cont_bytes_Suc by simp_all
  have num: "num - j = n" "j \<le> num" using Suc.prems(4) by simp_all
  have g: "push_bit (6 * n) (ucast (str ! cur) AND 0x3F) = push_bit (6 * n) (take_bit 6 (drop_bit (6 * n) val))"
    unfolding nth and_mask_low by (simp add: byte_back take_bit_or_left)
  have "extra_bytes str end' num j cur glyph =
      extra_bytes str end' num (j + 1) (cur + 1) (glyph OR push_bit (6 * n) (take_bit 6 (drop_bit (6 * n) val)))"
    using Suc.prems(2,3) num g by (subst extra_bytes.simps) (simp add: mem_get_Some)
  also have "\<dots> = Some (glyph OR take_bit (6 * Suc n) val, j + Suc n, cur + Suc n)"
    using Suc.IH [of "cur + 1" "j + 1"] rest Suc.prems take_bit_split [of "6 * n" 6 val] by (simp add: or.assoc add.commute)
  finally show ?case .
qed

text \<open>The lead byte tells the number of bytes.\<close>

definition lead_byte :: "nat \<Rightarrow> u32 \<Rightarrow> byte" where
  "lead_byte num val = ucast ((0x80 OR push_bit (7 - num) (get_bit_mask num)) OR (drop_bit (6 * num) val AND get_bit_mask (6 - num)))"

lemma lead_bytes_checked:
  "list_all (\<lambda>num. list_all (\<lambda>y. get_utf8_bytes_count (ucast ((0x80 OR push_bit (7 - num) (get_bit_mask num)) OR word_of_nat y)) = Suc num \<and>
     (ucast ((0x80 OR push_bit (7 - num) (get_bit_mask num)) OR word_of_nat y) :: byte) AND 0x80 \<noteq> 0) [0..<2 ^ (6 - num)]) [1, 2, 3, 4, 5]"
  by code_simp

lemma lead_byte_count:
  assumes "1 \<le> num" "num \<le> 5"
  shows "get_utf8_bytes_count (lead_byte num val) = Suc num" "lead_byte num val AND 0x80 \<noteq> 0"
proof -
  define y where "y = unat (drop_bit (6 * num) val AND get_bit_mask (6 - num))"
  have "y < 2 ^ (6 - num)"
    unfolding y_def and_mask_low by (simp add: unsigned_take_bit_eq take_bit_nat_less_exp)
  moreover have "num \<in> set [1, 2, 3, 4, 5]" using assms by auto
  moreover have "drop_bit (6 * num) val AND get_bit_mask (6 - num) = word_of_nat y" by (simp add: y_def)
  ultimately show "get_utf8_bytes_count (lead_byte num val) = Suc num" "lead_byte num val AND 0x80 \<noteq> 0"
    using lead_bytes_checked unfolding list_all_iff lead_byte_def by auto
qed

lemma lead_byte_bits:
  assumes "1 \<le> num" "num \<le> 5"
  shows "ucast (lead_byte num val) AND get_bit_mask (6 - num) = take_bit (6 - num) (drop_bit (6 * num) val)"
proof -
  have "take_bit (6 - num) (0x80 OR push_bit (7 - num) (get_bit_mask num)) = 0"
  proof -
    have "num \<in> {1, 2, 3, 4, 5}" using assms by auto
    then show ?thesis by (auto simp: get_bit_mask_def take_bit_eq_mask mask_eq_exp_minus_1)
  qed
  then show ?thesis using assms by (simp add: lead_byte_def and_mask_low byte_back take_bit_or)
qed

lemma take_bit_small: "unat (w :: u32) < 2 ^ n \<Longrightarrow> take_bit n w = w"
  by (simp add: word_unat_eq_iff unsigned_take_bit_eq take_bit_nat_eq_self)

lemma utf8_bytes_parts:
  assumes "\<not> val < 0x80"
  shows "utf8_bytes val = lead_byte (get_bytes_count_as_utf8 val - 1) val # cont_bytes val (get_bytes_count_as_utf8 val - 1)"
    and "1 \<le> get_bytes_count_as_utf8 val - 1" "get_bytes_count_as_utf8 val - 1 \<le> 5"
    and "val < 0x80000000 \<Longrightarrow> take_bit (6 + 5 * (get_bytes_count_as_utf8 val - 1)) val = val"
proof -
  show "utf8_bytes val = lead_byte (get_bytes_count_as_utf8 val - 1) val # cont_bytes val (get_bytes_count_as_utf8 val - 1)"
    using assms by (simp add: utf8_bytes_def lead_byte_def cont_bytes_def Let_def del: upt_Suc)
  show "1 \<le> get_bytes_count_as_utf8 val - 1" "get_bytes_count_as_utf8 val - 1 \<le> 5"
    using assms by (auto simp: get_bytes_count_as_utf8_def)
  show "take_bit (6 + 5 * (get_bytes_count_as_utf8 val - 1)) val = val" if "val < 0x80000000"
    using that assms by (intro take_bit_small) (auto simp: get_bytes_count_as_utf8_def word_less_nat_alt word_le_nat_alt)
qed

lemma length_utf8_bytes: "length (utf8_bytes val) = get_bytes_count_as_utf8 val"
proof (cases "val < 0x80")
  case True
  then have "get_bytes_count_as_utf8 val = 1" by (auto simp: get_bytes_count_as_utf8_def word_less_nat_alt word_le_nat_alt)
  then show ?thesis using True by (simp add: utf8_bytes_def)
next
  case False
  then show ?thesis using utf8_bytes_parts(1,2) [OF False] by simp
qed

lemma ascii_byte: "val < 0x80 \<Longrightarrow> (ucast (val :: u32) :: byte) AND 0x80 = 0 \<and> (ucast (ucast val :: byte) :: u32) = val"
proof -
  assume "val < 0x80"
  then have v: "take_bit 7 val = val" by (intro take_bit_small) (simp add: word_less_nat_alt)
  have "(ucast val :: byte) = ucast (take_bit 7 val)" by (simp only: v)
  also have "\<dots> = take_bit 7 (ucast val)" by (rule bit_eqI) (auto simp: bit_simps)
  also have "\<dots> = ucast val AND 0x7F" by (simp add: take_bit_eq_mask mask_eq_exp_minus_1)
  finally have "(ucast val :: byte) AND 0x80 = (ucast val AND 0x7F) AND 0x80" by simp
  then have "(ucast val :: byte) AND 0x80 = 0" by (simp add: and.assoc)
  moreover have "(ucast (ucast val :: byte) :: u32) = val"
  proof -
    have "(ucast (ucast val :: byte) :: u32) = take_bit 8 val" by (rule bit_eqI) (auto simp: bit_simps)
    also have "\<dots> = val" using \<open>val < 0x80\<close> by (intro take_bit_small) (simp add: word_less_nat_alt)
    finally show ?thesis .
  qed
  ultimately show ?thesis by simp
qed

lemma decode_glyph_utf8:
  assumes "val < 0x80000000" "take (length (utf8_bytes val)) (drop cur str) = utf8_bytes val"
    "cur + length (utf8_bytes val) \<le> end'" "end' \<le> length str"
  shows "decode_glyph str end' cur = Some (val, length (utf8_bytes val), cur + length (utf8_bytes val))"
    and "str ! cur = hd (utf8_bytes val)"
proof -
  let ?n = "get_bytes_count_as_utf8 val - 1"
  have "utf8_bytes val \<noteq> []" by (simp add: utf8_bytes_def Let_def)
  then obtain b bs where u: "utf8_bytes val = b # bs" by (cases "utf8_bytes val") auto
  have cur: "cur < length str" using assms(3,4) u by simp
  have "take (Suc (length bs)) (drop cur str) = str ! cur # take (length bs) (drop (Suc cur) str)"
    using Cons_nth_drop_Suc [OF cur] by (metis take_Suc_Cons)
  then have b: "str ! cur = b" "take (length bs) (drop (Suc cur) str) = bs" using assms(2) u by simp_all
  then show "str ! cur = hd (utf8_bytes val)" using u by simp
  show "decode_glyph str end' cur = Some (val, length (utf8_bytes val), cur + length (utf8_bytes val))"
  proof (cases "val < 0x80")
    case True
    then have "b = ucast val" "bs = []" using u by (simp_all add: utf8_bytes_def)
    then show ?thesis using ascii_byte [OF True] b cur u by (simp add: decode_glyph_def mem_get_Some)
  next
    case False
    note p = utf8_bytes_parts [OF False]
    have e: "b = lead_byte ?n val" "bs = cont_bytes val ?n" using p(1) u by simp_all
    have c: "get_utf8_bytes_count b - 1 = ?n" "b AND 0x80 \<noteq> 0" using lead_byte_count [OF p(2,3), of val] e(1) by simp_all
    have "decode_glyph str end' cur = extra_bytes str end' ?n 1 (cur + 1) (push_bit (6 * ?n) (take_bit (6 - ?n) (drop_bit (6 * ?n) val)))"
      using c b cur lead_byte_bits [OF p(2,3), of val] e(1) by (simp add: decode_glyph_def mem_get_Some Let_def del: push_bit_and)
    also have "\<dots> = Some (push_bit (6 * ?n) (take_bit (6 - ?n) (drop_bit (6 * ?n) val)) OR take_bit (6 * ?n) val, 1 + ?n, cur + 1 + ?n)"
      using b e(2) assms(3,4) u by (intro extra_bytes_decode) simp_all
    also have "push_bit (6 * ?n) (take_bit (6 - ?n) (drop_bit (6 * ?n) val)) OR take_bit (6 * ?n) val = val"
    proof -
      have "6 * ?n + (6 - ?n) = 6 + 5 * ?n" using p(3) by simp
      then show ?thesis using p(4) [OF assms(1)] take_bit_split [of "6 * ?n" "6 - ?n" val] by (simp only:)
    qed
    finally show ?thesis using u e(2) by simp
  qed
qed

lemma ascii_bytes_checked: "list_all (\<lambda>y. get_utf8_bytes_count (word_of_nat y) = 1) [0..<128]"
  by code_simp

lemma lead_count:
  assumes "utf8_bytes val = b # bs"
  shows "get_utf8_bytes_count b = length (utf8_bytes val)"
proof (cases "val < 0x80")
  case True
  then have "(ucast val :: byte) = word_of_nat (unat val)" "unat val \<in> set [0..<128]"
    by (simp_all add: word_less_nat_alt)
  then have "get_utf8_bytes_count (ucast val) = 1" using ascii_bytes_checked unfolding list_all_iff by metis
  then show ?thesis using True assms by (simp add: utf8_bytes_def)
next
  case False
  note p = utf8_bytes_parts [OF False]
  then show ?thesis using lead_byte_count(1) [OF p(2,3), of val] assms by simp
qed

section \<open>Sequences of code points\<close>

definition utf8_text :: "u32 list \<Rightarrow> byte list" where
  "utf8_text vs = concat (map utf8_bytes vs)"

lemma utf8_text_simps [simp]: "utf8_text [] = []" "utf8_text (v # vs) = utf8_bytes v @ utf8_text vs"
  by (simp_all add: utf8_text_def)

definition plain :: "u32 \<Rightarrow> bool" where
  "plain v \<longleftrightarrow> v < 0x80000000 \<and> v \<noteq> 0xFEFF \<and> v \<noteq> 0xFFFE0000"

lemma utf32_count_plain: "\<forall>v\<in>set vs. plain v \<Longrightarrow> utf32_count vs False n = n + length (utf8_text vs)"
  by (induction vs arbitrary: n) (simp_all add: plain_def length_utf8_bytes)

lemma utf32_convert_plain:
  "\<forall>v\<in>set vs. plain v \<Longrightarrow> n + length (utf8_text vs) < length dst \<Longrightarrow> take n dst = t \<Longrightarrow>
   \<exists>dst'. utf32_convert dst (length dst) vs False n = Some (dst', n + length (utf8_text vs)) \<and> length dst' = length dst \<and>
     take (n + length (utf8_text vs)) dst' = t @ utf8_text vs"
proof (induction vs arbitrary: n dst t)
  case Nil
  then show ?case by simp
next
  case (Cons v vs)
  define dst1 where "dst1 = overwrite dst n (utf8_bytes v)"
  have l: "n + length (utf8_bytes v) \<le> length dst" using Cons.prems(2) by simp
  then have 1: "encode_utf8 dst n v = Some (dst1, length (utf8_bytes v))" "length dst1 = length dst"
      "take (n + length (utf8_bytes v)) dst1 = t @ utf8_bytes v"
    using Cons.prems(3) by (simp_all add: encode_utf8_def mem_store_Some dst1_def take_overwrite_upto)
  from Cons.IH [of "n + length (utf8_bytes v)" dst1 "t @ utf8_bytes v"] Cons.prems(1,2) 1 obtain dst' where
    2: "utf32_convert dst1 (length dst) vs False (n + length (utf8_bytes v)) =
          Some (dst', n + length (utf8_bytes v) + length (utf8_text vs))" "length dst' = length dst"
       "take (n + length (utf8_bytes v) + length (utf8_text vs)) dst' = (t @ utf8_bytes v) @ utf8_text vs" by auto
  have "n < length dst" "n + get_bytes_count_as_utf8 v < length dst" using Cons.prems(2) by (simp_all add: length_utf8_bytes)
  then have "utf32_convert dst (length dst) (v # vs) False n = utf32_convert dst1 (length dst) vs False (n + length (utf8_bytes v))"
    using Cons.prems(1) 1(1) by (simp add: plain_def)
  then show ?case using 2 by (simp add: add.assoc)
qed

lemma allocate_from_utf32_plain:
  assumes "\<forall>v\<in>set vs. plain v"
  shows "\<exists>buf. string_allocate_from_utf32 vs = Some (buf, length (utf8_text vs)) \<and> holds buf (length (utf8_text vs)) (utf8_text vs)"
proof -
  let ?n = "length (utf8_text vs)"
  from utf32_convert_plain [OF assms, of 0 "replicate (?n + 1) 0" "[]"] obtain b where
    b: "utf32_convert (replicate (?n + 1) 0) (?n + 1) vs False 0 = Some (b, ?n)" "length b = ?n + 1" "take ?n b = utf8_text vs"
    by auto
  then have "mem_set b ?n 0 = Some (b[?n := 0]) \<and> holds (b[?n := 0]) ?n (utf8_text vs)" by (intro holds_set) auto
  then show ?thesis using b(1) utf32_count_plain [OF assms, of 0]
    by (simp add: string_allocate_from_utf32_def string_convert_utf32_def Let_def)
qed

text \<open>A text read at a position: the code point there, and the position of the rest.\<close>

lemma text_at:
  assumes "drop cur (take len str) = utf8_text (v # vs)" "len \<le> length str" "v < 0x80000000"
  shows "cur < len" "get_utf8_bytes_count (str ! cur) = length (utf8_bytes v)"
    "decode_glyph str len cur = Some (v, length (utf8_bytes v), cur + length (utf8_bytes v))"
    "drop (cur + length (utf8_bytes v)) (take len str) = utf8_text vs"
proof -
  have "utf8_bytes v \<noteq> []" by (simp add: utf8_bytes_def Let_def)
  then obtain b bs where u: "utf8_bytes v = b # bs" by (cases "utf8_bytes v") auto
  have l: "len - cur = length (utf8_bytes v) + length (utf8_text vs)"
    using arg_cong [OF assms(1), of length] assms(2) by simp
  then show cur: "cur < len" using u by simp
  have "take (length (utf8_bytes v)) (drop cur str) = utf8_bytes v"
  proof -
    have "take (length (utf8_bytes v)) (drop cur (take len str)) = utf8_bytes v" unfolding assms(1) by simp
    then show ?thesis using l by (simp add: drop_take)
  qed
  then show "decode_glyph str len cur = Some (v, length (utf8_bytes v), cur + length (utf8_bytes v))"
    and "get_utf8_bytes_count (str ! cur) = length (utf8_bytes v)"
    using decode_glyph_utf8 [OF assms(3), of cur str len] lead_count [OF u] u l cur assms(2) by simp_all
  show "drop (cur + length (utf8_bytes v)) (take len str) = utf8_text vs"
    using arg_cong [OF assms(1), of "drop (length (utf8_bytes v))"] by (simp add: add.commute)
qed

lemma wstring_count_text:
  "drop cur (take len str) = utf8_text vs \<Longrightarrow> len \<le> length str \<Longrightarrow> \<forall>v\<in>set vs. v < 0x80000000 \<Longrightarrow>
   wstring_count str len cur n = Some (n + length vs) \<and> string_glyphs_loop str len cur n = Some (n + length vs)"
proof (induction vs arbitrary: cur n)
  case Nil
  then have "\<not> cur < len" by simp
  then show ?case by (subst wstring_count.simps, subst string_glyphs_loop.simps) simp
next
  case (Cons v vs)
  have "v < 0x80000000" using Cons.prems(3) by simp
  note at = text_at [OF Cons.prems(1,2) this]
  have IH: "wstring_count str len (cur + length (utf8_bytes v)) (n + 1) = Some (n + 1 + length vs)"
      "string_glyphs_loop str len (cur + length (utf8_bytes v)) (n + 1) = Some (n + 1 + length vs)"
    using Cons.IH [OF at(4) Cons.prems(2)] Cons.prems(3) by simp_all
  have "cur < length str" using at(1) Cons.prems(2) by simp
  then show ?case using IH at(1,2)
    by (subst wstring_count.simps, subst string_glyphs_loop.simps) (simp add: mem_get_Some)
qed

lemma overwrite_Cons: "dest < length buf \<Longrightarrow> overwrite (buf[dest := v]) (dest + 1) vs = overwrite buf dest (v # vs)"
  by (simp add: overwrite_def take_Suc_conv_app_nth drop_update_cancel)

lemma wstring_fill_text:
  "drop cur (take len str) = utf8_text vs \<Longrightarrow> len \<le> length str \<Longrightarrow> \<forall>v\<in>set vs. v < 0x80000000 \<Longrightarrow> i \<le> cur \<Longrightarrow>
   dest + length vs < length buffer \<Longrightarrow>
   wstring_fill str len i cur buffer dest = Some (overwrite buffer dest vs, dest + length vs)"
proof (induction vs arbitrary: cur i buffer dest)
  case Nil
  then have "\<not> cur < len" by simp
  then show ?case by (subst wstring_fill.simps) simp
next
  case (Cons v vs)
  have "v < 0x80000000" using Cons.prems(3) by simp
  note at = text_at [OF Cons.prems(1,2) this]
  let ?i = "if str ! cur AND 0x80 = 0 then i else i + (get_utf8_bytes_count (str ! cur) - 1)"
  define i' where "i' = ?i"
  have "i' \<le> cur + length (utf8_bytes v)" using Cons.prems(4) at(2) by (auto simp: i'_def intro!: add_mono)
  then have IH: "wstring_fill str len i' (cur + length (utf8_bytes v)) (buffer[dest := v]) (dest + 1) =
      Some (overwrite (buffer[dest := v]) (dest + 1) vs, dest + 1 + length vs)"
    using Cons.IH [OF at(4) Cons.prems(2)] Cons.prems(3,5) by simp
  have "overwrite (buffer[dest := v]) (dest + 1) vs = overwrite buffer dest (v # vs)"
    using Cons.prems(5) by (intro overwrite_Cons) simp
  moreover have "wstring_fill str len i cur buffer dest = wstring_fill str len i' (cur + length (utf8_bytes v)) (buffer[dest := v]) (dest + 1)"
  proof -
    have "cur < length str" "i < len" "dest < length buffer" using at(1) Cons.prems(2,4,5) by simp_all
    then show ?thesis using at(1,3) by (subst wstring_fill.simps) (simp only: mem_get_Some mem_set_Some i'_def option.case prod.case simp_thms if_True)
  qed
  ultimately show ?case using IH by simp
qed

lemma wstring_allocate_text:
  assumes "holds buf (length (utf8_text vs)) (utf8_text vs)" "\<forall>v\<in>set vs. v < 0x80000000"
  shows "wstring_allocate_from_string buf (length (utf8_text vs)) = Some (vs @ [0])"
proof (cases "vs = []")
  case True
  then show ?thesis by (simp add: wstring_allocate_from_string_def)
next
  case False
  let ?n = "length (utf8_text vs)"
  have l: "?n \<le> length buf" "drop 0 (take ?n buf) = utf8_text vs" using assms(1) by (auto simp: holds_def)
  have "utf8_text vs \<noteq> []" using False by (cases vs) (auto simp: utf8_bytes_def Let_def)
  moreover have "wstring_count buf ?n 0 0 = Some (length vs)" using wstring_count_text [OF l(2,1) assms(2), of 0] by simp
  moreover have "wstring_fill buf ?n 0 0 (replicate (length vs + 1) 0) 0 = Some (vs @ [0], length vs)"
  proof -
    have "drop (length vs) (replicate (length vs + 1) (0 :: u32)) = [0]" by (simp only: drop_replicate) simp
    then show ?thesis using wstring_fill_text [OF l(2,1) assms(2), of 0 0 "replicate (length vs + 1) 0"]
      by (simp add: overwrite_def)
  qed
  ultimately show ?thesis by (simp add: wstring_allocate_from_string_def mem_set_Some list_update_append)
qed

text \<open>
  C25. A sequence of code points below \<open>2 ^ 31\<close> without byte order marks, converted from UTF-32 to
  UTF-8, fills the allocated string exactly; converting the string back gives the sequence and
  its terminator in a wide string of the right size, and the string is counted to have as many
  glyphs as the sequence. No conversion leaves its buffers.
\<close>

theorem utf8_round_trip:
  assumes "\<forall>v\<in>set vs. plain v"
  shows "\<exists>buf len. string_allocate_from_utf32 vs = Some (buf, len) \<and> holds buf len (utf8_text vs) \<and>
    wstring_allocate_from_string buf len = Some (vs @ [0]) \<and> string_glyphs buf len = Some (length vs)"
proof -
  from allocate_from_utf32_plain [OF assms] obtain buf where
    b: "string_allocate_from_utf32 vs = Some (buf, length (utf8_text vs))" "holds buf (length (utf8_text vs)) (utf8_text vs)" by blast
  have small: "\<forall>v\<in>set vs. v < 0x80000000" using assms by (auto simp: plain_def)
  have l: "length (utf8_text vs) \<le> length buf" "drop 0 (take (length (utf8_text vs)) buf) = utf8_text vs"
    using b(2) by (auto simp: holds_def)
  show ?thesis
    using b wstring_allocate_text [OF b(2) small] wstring_count_text [OF l(2,1) small, of 0] by (auto simp: string_glyphs_def)
qed

theorem utf8_round_trip_witness:
  "\<exists>buf len. string_allocate_from_utf32 [0x41, 0x20AC, 0x1F600] = Some (buf, len) \<and>
     wstring_allocate_from_string buf len = Some [0x41, 0x20AC, 0x1F600, 0]"
  using utf8_round_trip [of "[0x41, 0x20AC, 0x1F600]"] by (auto simp: plain_def)

section \<open>UTF-16\<close>

text \<open>The units of a code point, the code points a sequence may have, and the units in either byte order.\<close>

definition utf16_units :: "u32 \<Rightarrow> u16 list" where
  "utf16_units v =
     (if v < 0x10000 then [ucast v]
      else let w = v - 0x10000 in [ucast (0xD800 OR (drop_bit 10 w AND 0x3FF)), ucast (0xDC00 OR (w AND 0x3FF))])"

definition scalar :: "u32 \<Rightarrow> bool" where
  "scalar v \<longleftrightarrow> v < 0x110000 \<and> \<not> (0xD800 \<le> v \<and> v \<le> 0xDFFF) \<and> v \<noteq> 0xFEFF \<and> v \<noteq> 0xFFFE"

definition in_order :: "bool \<Rightarrow> u16 \<Rightarrow> u16" where
  "in_order swap u = (if swap then byteorder_swap16 u else u)"

definition utf16_text :: "bool \<Rightarrow> u32 list \<Rightarrow> u16 list" where
  "utf16_text swap vs = concat (map (\<lambda>v. map (in_order swap) (utf16_units v)) vs)"

lemma utf16_text_simps [simp]:
  "utf16_text swap [] = []" "utf16_text swap (v # vs) = map (in_order swap) (utf16_units v) @ utf16_text swap vs"
  by (simp_all add: utf16_text_def)

lemma swap16_twice [simp]: "byteorder_swap16 (byteorder_swap16 u) = u"
  by (rule bit_eqI) (auto simp: byteorder_swap16_def bit_simps)

lemma in_order_back: "(if swap then byteorder_swap16 (in_order swap u) else in_order swap u) = u"
  by (simp add: in_order_def)

lemma in_order_mark:
  assumes "u \<noteq> 0xFFFE" "u \<noteq> 0xFEFF" shows "in_order swap u \<noteq> 0xFFFE \<and> in_order swap u \<noteq> 0xFEFF"
proof -
  have "byteorder_swap16 0xFFFE = 0xFEFF" "byteorder_swap16 0xFEFF = 0xFFFE" by (simp_all add: byteorder_swap16_def)
  then show ?thesis using assms swap16_twice [of u] unfolding in_order_def by metis
qed

lemma ucast16_back: "v < 0x10000 \<Longrightarrow> (ucast (ucast (v :: u32) :: u16) :: u32) = v"
proof -
  assume "v < 0x10000"
  have "(ucast (ucast v :: u16) :: u32) = take_bit 16 v" by (rule bit_eqI) (auto simp: bit_simps)
  also have "\<dots> = v" using \<open>v < 0x10000\<close> by (intro take_bit_small) (simp add: word_less_nat_alt)
  finally show ?thesis .
qed

lemma and_3FF: "(w :: u32) AND 0x3FF = take_bit 10 w"
  by (simp add: take_bit_eq_mask mask_eq_exp_minus_1)

lemma surrogate_unit:
  fixes base y :: u32
  assumes "base = 0xD800 \<or> base = 0xDC00"
  defines "u \<equiv> base OR take_bit 10 y"
  shows "0xD800 \<le> u" "u \<le> 0xDFFF" "u AND 0x3FF = take_bit 10 y" "u < 0x10000"
proof -
  have disj: "base AND take_bit 10 y = 0"
  proof -
    have "base AND take_bit 10 y = y AND (base AND 0x3FF)" unfolding and_3FF [symmetric] by (rule and.left_commute)
    moreover have "base AND 0x3FF = 0" using assms(1) by auto
    ultimately show ?thesis by simp
  qed
  have small: "unat (take_bit 10 y) < 1024"
    using take_bit_nat_less_exp [of 10 "unat y"] by (simp add: unsigned_take_bit_eq)
  have "u = base + take_bit 10 y"
    unfolding u_def using disj by (metis disjunctive_add bit_and_iff bit_0_eq bot_apply bot_bool_def)
  then have "unat u = unat base + unat (take_bit 10 y)" using assms(1) small by (auto simp: unat_word_ariths)
  then show "0xD800 \<le> u" "u \<le> 0xDFFF" "u < 0x10000"
    using assms(1) small by (auto simp: word_le_nat_alt word_less_nat_alt)
  have "take_bit 10 base = 0" using assms(1) by (auto simp: take_bit_eq_mask mask_eq_exp_minus_1)
  then show "u AND 0x3FF = take_bit 10 y" by (simp add: and_3FF u_def take_bit_or)
qed

lemma pair_back:
  assumes "\<not> v < 0x10000" "v < 0x110000"
  defines "w \<equiv> v - 0x10000"
  shows "surrogate_pair (0xD800 OR take_bit 10 (drop_bit 10 w)) (0xDC00 OR take_bit 10 w) = v"
proof -
  have "unat w < 2 ^ 20" using assms by (simp add: w_def word_less_nat_alt unat_sub_if')
  then have "take_bit 20 w = w" by (rule take_bit_small)
  then have "push_bit 10 (take_bit 10 (drop_bit 10 w)) OR take_bit 10 w = w" using take_bit_split [of 10 10 w] by simp
  then show ?thesis using surrogate_unit(3) [of "0xD800" "drop_bit 10 w"] surrogate_unit(3) [of "0xDC00" w]
    by (simp add: surrogate_pair_def w_def)
qed

text \<open>What both loops see of the units of one code point.\<close>

lemma one_unit:
  assumes "scalar v" "v < 0x10000" "drop i str = in_order swap (ucast v) # rest"
  shows "i < length str" "str ! i = in_order swap (ucast v)" "str ! i \<noteq> 0xFFFE" "str ! i \<noteq> 0xFEFF"
    "(ucast (if swap then byteorder_swap16 (str ! i) else str ! i) :: u32) = v" "\<not> (0xD800 \<le> v \<and> v \<le> 0xDFFF)"
    "drop (i + 1) str = rest"
proof -
  show i: "i < length str" using assms(3) by (metis drop_all list.distinct(1) not_le)
  then have "drop i str = str ! i # drop (Suc i) str" by (rule Cons_nth_drop_Suc [symmetric])
  then show n: "str ! i = in_order swap (ucast v)" and "drop (i + 1) str = rest" using assms(3) by simp_all
  have b: "(ucast (ucast v :: u16) :: u32) = v" by (rule ucast16_back [OF assms(2)])
  have "(ucast (0xFFFE :: u16) :: u32) = 0xFFFE" "(ucast (0xFEFF :: u16) :: u32) = 0xFEFF" by simp_all
  then have "(ucast v :: u16) \<noteq> 0xFFFE" "(ucast v :: u16) \<noteq> 0xFEFF" using b assms(1) by (metis scalar_def)+
  then show "str ! i \<noteq> 0xFFFE" "str ! i \<noteq> 0xFEFF" using in_order_mark n by simp_all
  show "(ucast (if swap then byteorder_swap16 (str ! i) else str ! i) :: u32) = v" unfolding n in_order_back b ..
  show "\<not> (0xD800 \<le> v \<and> v \<le> 0xDFFF)" using assms(1) by (simp add: scalar_def)
qed

lemma two_units:
  assumes "v < 0x110000" "\<not> v < 0x10000" "drop i str = map (in_order swap) (utf16_units v) @ rest"
  defines "hi \<equiv> (ucast (if swap then byteorder_swap16 (str ! i) else str ! i) :: u32)"
  shows "i + 1 < length str" "str ! i \<noteq> 0xFFFE" "str ! i \<noteq> 0xFEFF" "0xD800 \<le> hi" "hi \<le> 0xDFFF"
    "surrogate_pair hi (ucast (if swap then byteorder_swap16 (str ! (i + 1)) else str ! (i + 1))) = v"
    "drop (i + 2) str = rest"
proof -
  define w where "w = v - 0x10000"
  define a b where "a = 0xD800 OR take_bit 10 (drop_bit 10 w)" and "b = 0xDC00 OR take_bit 10 w"
  have units: "drop i str = in_order swap (ucast a) # in_order swap (ucast b) # rest"
    using assms(2,3) by (simp add: utf16_units_def Let_def and_3FF w_def a_def b_def)
  show i: "i + 1 < length str" using arg_cong [OF units, of length] by simp
  then have "drop i str = str ! i # str ! (i + 1) # drop (i + 2) str"
    using Cons_nth_drop_Suc [of i str] Cons_nth_drop_Suc [of "i + 1" str] by simp
  then have n: "str ! i = in_order swap (ucast a)" "str ! (i + 1) = in_order swap (ucast b)" and "drop (i + 2) str = rest"
    using units by simp_all
  then show "drop (i + 2) str = rest" by simp
  have ra: "0xD800 \<le> a" "a \<le> 0xDFFF" "a < 0x10000" "b < 0x10000"
    using surrogate_unit [of "0xD800" "drop_bit 10 w"] surrogate_unit [of "0xDC00" w] by (simp_all add: a_def b_def)
  have "(ucast (0xFFFE :: u16) :: u32) = 0xFFFE" "(ucast (0xFEFF :: u16) :: u32) = 0xFEFF" by simp_all
  then have "(ucast a :: u16) \<noteq> 0xFFFE" "(ucast a :: u16) \<noteq> 0xFEFF"
    using ucast16_back [OF ra(3)] ra(2) by (auto simp: word_le_nat_alt)
  then show "str ! i \<noteq> 0xFFFE" "str ! i \<noteq> 0xFEFF" using in_order_mark n(1) by simp_all
  have hi: "hi = a" unfolding hi_def n(1) in_order_back by (rule ucast16_back [OF ra(3)])
  then show "0xD800 \<le> hi" "hi \<le> 0xDFFF" using ra by simp_all
  show "surrogate_pair hi (ucast (if swap then byteorder_swap16 (str ! (i + 1)) else str ! (i + 1))) = v"
    unfolding hi n(2) in_order_back ucast16_back [OF ra(4)] using pair_back [OF assms(2,1)] by (simp add: a_def b_def w_def)
qed

lemma utf16_count_step:
  assumes "scalar v" "drop i str = map (in_order swap) (utf16_units v) @ rest"
  shows "\<exists>j. drop j str = rest \<and> utf16_count str i swap n = utf16_count str j swap (n + length (utf8_bytes v))"
proof (cases "v < 0x10000")
  case True
  then have "drop i str = in_order swap (ucast v) # rest" using assms(2) by (simp add: utf16_units_def)
  note u = one_unit [OF assms(1) True this]
  have "utf16_count str i swap n = utf16_count str (i + 1) swap (n + length (utf8_bytes v))"
    by (subst utf16_count.simps) (simp only: Let_def u(1,3-6) length_utf8_bytes if_True if_False simp_thms)
  then show ?thesis using u(7) by blast
next
  case False
  have "v < 0x110000" using assms(1) by (simp add: scalar_def)
  note u = two_units [OF this False assms(2)]
  have "utf16_count str i swap n = utf16_count str (i + 2) swap (n + length (utf8_bytes v))"
    by (subst utf16_count.simps) (simp only: Let_def u(2-6) Suc_lessD [OF u(1) [unfolded Suc_eq_plus1 [symmetric]]]
      mem_get_Some [OF u(1)] option.case length_utf8_bytes if_True if_False simp_thms)
  then show ?thesis using u(7) by blast
qed

lemma utf16_count_text:
  "\<forall>v\<in>set vs. scalar v \<Longrightarrow> drop i str = utf16_text swap vs @ rest \<Longrightarrow>
   \<exists>j. drop j str = rest \<and> utf16_count str i swap n = utf16_count str j swap (n + length (utf8_text vs))"
proof (induction vs arbitrary: i n)
  case Nil
  then show ?case by auto
next
  case (Cons v vs)
  from utf16_count_step [of v i str swap "utf16_text swap vs @ rest" n] Cons.prems obtain j where
    "drop j str = utf16_text swap vs @ rest" "utf16_count str i swap n = utf16_count str j swap (n + length (utf8_bytes v))" by auto
  then show ?case using Cons.IH [of j "n + length (utf8_bytes v)"] Cons.prems(1) by (simp add: add.assoc)
qed

lemma utf16_put_fits:
  assumes "n + length (utf8_bytes v) < length dst" "take n dst = t"
  shows "\<exists>dst'. utf16_put dst (length dst) n v = Some (dst', n + length (utf8_bytes v)) \<and> length dst' = length dst \<and>
    take (n + length (utf8_bytes v)) dst' = t @ utf8_bytes v"
  using assms by (simp add: utf16_put_def encode_utf8_def mem_store_Some take_overwrite_upto flip: length_utf8_bytes)

lemma utf16_convert_step:
  assumes "scalar v" "drop i src = map (in_order swap) (utf16_units v) @ rest" "n + length (utf8_bytes v) < length dst" "take n dst = t"
  shows "\<exists>j dst'. drop j src = rest \<and> length dst' = length dst \<and> take (n + length (utf8_bytes v)) dst' = t @ utf8_bytes v \<and>
    utf16_convert dst (length dst) src i swap n = utf16_convert dst' (length dst) src j swap (n + length (utf8_bytes v))"
proof -
  from utf16_put_fits [OF assms(3,4)] obtain dst' where
    p: "utf16_put dst (length dst) n v = Some (dst', n + length (utf8_bytes v))" "length dst' = length dst"
       "take (n + length (utf8_bytes v)) dst' = t @ utf8_bytes v" by blast
  have n: "n < length dst" using assms(3) by simp
  show ?thesis
  proof (cases "v < 0x10000")
    case True
    then have "drop i src = in_order swap (ucast v) # rest" using assms(2) by (simp add: utf16_units_def)
    note u = one_unit [OF assms(1) True this]
    have "utf16_convert dst (length dst) src i swap n = utf16_convert dst' (length dst) src (i + 1) swap (n + length (utf8_bytes v))"
      by (subst utf16_convert.simps) (simp only: Let_def u(1,3-6) n p(1) option.case prod.case if_True if_False simp_thms)
    then show ?thesis using u(7) p by blast
  next
    case False
    have "v < 0x110000" using assms(1) by (simp add: scalar_def)
    note u = two_units [OF this False assms(2)]
    have nle: "\<not> i + 1 \<ge> length src" using u(1) by simp
    have "utf16_convert dst (length dst) src i swap n = utf16_convert dst' (length dst) src (i + 2) swap (n + length (utf8_bytes v))"
      by (subst utf16_convert.simps) (simp only: Let_def u(2-6) Suc_lessD [OF u(1) [unfolded Suc_eq_plus1 [symmetric]]]
        nle n p(1) option.case prod.case if_True if_False simp_thms)
    then show ?thesis using u(7) p by blast
  qed
qed

lemma utf16_convert_text:
  "\<forall>v\<in>set vs. scalar v \<Longrightarrow> drop i src = utf16_text swap vs \<Longrightarrow> n + length (utf8_text vs) < length dst \<Longrightarrow> take n dst = t \<Longrightarrow>
   \<exists>dst'. utf16_convert dst (length dst) src i swap n = Some (dst', n + length (utf8_text vs)) \<and> length dst' = length dst \<and>
     take (n + length (utf8_text vs)) dst' = t @ utf8_text vs"
proof (induction vs arbitrary: i n dst t)
  case Nil
  then have "\<not> i < length src" by simp
  then show ?case using Nil by (subst utf16_convert.simps) simp
next
  case (Cons v vs)
  from utf16_convert_step [of v i src swap "utf16_text swap vs" n dst t] Cons.prems obtain j dst1 where
    1: "drop j src = utf16_text swap vs" "length dst1 = length dst" "take (n + length (utf8_bytes v)) dst1 = t @ utf8_bytes v"
       "utf16_convert dst (length dst) src i swap n = utf16_convert dst1 (length dst) src j swap (n + length (utf8_bytes v))" by auto
  from Cons.IH [of j "n + length (utf8_bytes v)" dst1 "t @ utf8_bytes v"] Cons.prems(1,3) 1(1-3) obtain dst' where
    "utf16_convert dst1 (length dst) src j swap (n + length (utf8_bytes v)) =
       Some (dst', n + length (utf8_bytes v) + length (utf8_text vs))" "length dst' = length dst"
    "take (n + length (utf8_bytes v) + length (utf8_text vs)) dst' = (t @ utf8_bytes v) @ utf8_text vs" by auto
  then show ?case using 1(4) by (simp add: add.assoc)
qed

text \<open>A text in the other byte order starts with the swapped byte order mark.\<close>

definition with_mark :: "bool \<Rightarrow> u16 list \<Rightarrow> u16 list" where
  "with_mark swap units = (if swap then 0xFFFE # units else units)"

lemma utf16_start:
  "0 < capacity \<Longrightarrow> \<exists>i. drop i (with_mark swap units) = units \<and>
     utf16_count (with_mark swap units) 0 False n = utf16_count (with_mark swap units) i swap n \<and>
     utf16_convert dst capacity (with_mark swap units) 0 False 0 = utf16_convert dst capacity (with_mark swap units) i swap 0"
proof (cases swap)
  case True
  assume "0 < capacity"
  then show ?thesis using True
    by (intro exI [of _ 1] conjI, simp add: with_mark_def,
        subst utf16_count.simps, simp add: with_mark_def, subst utf16_convert.simps, simp add: with_mark_def)
qed (auto simp: with_mark_def intro: exI [of _ 0])

text \<open>
  C26. A well-formed UTF-16 sequence in either byte order, the other one announced by its mark, is
  converted to the UTF-8 text of its code points, which fills the allocated string exactly. When
  such a sequence is followed by a lone surrogate, counting the bytes reads the unit behind the
  end of the sequence.
\<close>

theorem utf16_to_utf8:
  assumes "\<forall>v\<in>set vs. scalar v" "0xD800 \<le> s" "s \<le> 0xDFFF"
  shows "(\<exists>buf len. string_allocate_from_utf16 (with_mark swap (utf16_text swap vs)) = Some (buf, len) \<and> holds buf len (utf8_text vs)) \<and>
    string_allocate_from_utf16 (utf16_text False vs @ [s]) = None"
proof
  let ?n = "length (utf8_text vs)" and ?str = "with_mark swap (utf16_text swap vs)"
  let ?buf = "replicate (?n + 1) (0 :: byte)"
  from utf16_start [of "?n + 1" swap "utf16_text swap vs" 0 ?buf] obtain i where
    i: "drop i ?str = utf16_text swap vs" "utf16_count ?str 0 False 0 = utf16_count ?str i swap 0"
       "utf16_convert ?buf (?n + 1) ?str 0 False 0 = utf16_convert ?buf (?n + 1) ?str i swap 0" by auto
  from utf16_count_text [OF assms(1), of i ?str swap "[]" 0] i(1) obtain j where
    j: "drop j ?str = []" "utf16_count ?str i swap 0 = utf16_count ?str j swap ?n" by auto
  have "utf16_count ?str j swap ?n = Some ?n" using j(1) by (subst utf16_count.simps) simp
  moreover from utf16_convert_text [OF assms(1) i(1), of 0 ?buf "[]"] obtain b where
    b: "utf16_convert ?buf (?n + 1) ?str i swap 0 = Some (b, ?n)" "length b = ?n + 1" "take ?n b = utf8_text vs" by auto
  moreover have "mem_set b ?n 0 = Some (b[?n := 0]) \<and> holds (b[?n := 0]) ?n (utf8_text vs)" using b by (intro holds_set) auto
  ultimately show "\<exists>buf len. string_allocate_from_utf16 ?str = Some (buf, len) \<and> holds buf len (utf8_text vs)"
    using i(2,3) j(2) by (simp add: string_allocate_from_utf16_def string_convert_utf16_def del: replicate_Suc)
next
  let ?str = "utf16_text False vs @ [s]"
  from utf16_count_text [OF assms(1), of 0 ?str False "[s]" 0] obtain j where
    j: "drop j ?str = [s]" "utf16_count ?str 0 False 0 = utf16_count ?str j False (length (utf8_text vs))" by auto
  have l: "j < length ?str" "j + 1 = length ?str" using arg_cong [OF j(1), of length] by auto
  have nth: "?str ! j = s" using l(2) by (simp add: nth_append)
  have range: "0xD800 \<le> (ucast s :: u32)" "(ucast s :: u32) \<le> 0xDFFF" "s \<noteq> 0xFFFE" "s \<noteq> 0xFEFF"
    using assms(2,3) by (auto simp: word_le_nat_alt unsigned_ucast_eq take_bit_nat_eq_self)
  have "utf16_count ?str j False (length (utf8_text vs)) = None"
    using l range nth by (subst utf16_count.simps) (simp add: Let_def mem_get_def del: append.simps)
  then show "string_allocate_from_utf16 ?str = None" using j(2) by (simp add: string_allocate_from_utf16_def)
qed

theorem utf16_to_utf8_witness:
  "\<exists>buf len. string_allocate_from_utf16 (with_mark True (utf16_text True [0x41, 0x1F600])) = Some (buf, len) \<and>
     holds buf len (utf8_text [0x41, 0x1F600])"
  using utf16_to_utf8 [where vs = "[0x41, 0x1F600]" and s = "0xD800" and swap = True] by (simp add: scalar_def)

end
