(* ===== verification/Nsync_Dll.thy ===== *)
theory Nsync_Dll
  imports Prelude
begin

text \<open>
  \<open>nsync/internal/dll.c\<close>: the circular doubly linked lists that hold the waiters of the
  synchronization primitives. The list elements live in a store from addresses to elements; address 0
  is \<open>NULL\<close> and reading or writing through an address that holds no element is a fault. A list head
  is the address of the last element of a circular list. The lemmas show that every operation
  implements the operation on sequences its comment describes, writes no element outside the lists
  it is given, and never faults on well-formed lists.
\<close>

section \<open>The operations\<close>

type_synonym dll_ptr = nat

record nsync_dll_element =
  e_next :: dll_ptr
  e_prev :: dll_ptr
  e_container :: nat

type_synonym nsync_dll_list = dll_ptr
type_synonym dll_store = "dll_ptr \<rightharpoonup> nsync_dll_element"

text \<open>\<open>e->next = v\<close> and \<open>e->prev = v\<close>.\<close>

definition set_next :: "dll_store \<Rightarrow> dll_ptr \<Rightarrow> dll_ptr \<Rightarrow> dll_store option" where
  "set_next h e v = (case h e of None \<Rightarrow> None | Some x \<Rightarrow> Some (h(e \<mapsto> x\<lparr>e_next := v\<rparr>)))"

definition set_prev :: "dll_store \<Rightarrow> dll_ptr \<Rightarrow> dll_ptr \<Rightarrow> dll_store option" where
  "set_prev h e v = (case h e of None \<Rightarrow> None | Some x \<Rightarrow> Some (h(e \<mapsto> x\<lparr>e_prev := v\<rparr>)))"

definition get_next :: "dll_store \<Rightarrow> dll_ptr \<Rightarrow> dll_ptr option" where
  "get_next h e = map_option e_next (h e)"

definition get_prev :: "dll_store \<Rightarrow> dll_ptr \<Rightarrow> dll_ptr option" where
  "get_prev h e = map_option e_prev (h e)"

definition nsync_dll_init :: "dll_store \<Rightarrow> dll_ptr \<Rightarrow> nat \<Rightarrow> dll_store option" where
  "nsync_dll_init h e container =
     (case h e of
        None \<Rightarrow> None
      | Some x \<Rightarrow> Some (h(e \<mapsto> x\<lparr>e_next := e, e_prev := e, e_container := container\<rparr>)))"

definition nsync_dll_is_empty :: "nsync_dll_list \<Rightarrow> bool" where
  "nsync_dll_is_empty list \<longleftrightarrow> list = 0"

text \<open>The head that removing \<open>e\<close> leaves.\<close>

definition removed_head :: "dll_store \<Rightarrow> nsync_dll_list \<Rightarrow> dll_ptr \<Rightarrow> nsync_dll_list option" where
  "removed_head h list e =
     (if list = e then
        do { p \<leftarrow> get_prev h list;
             Some (if p = list then 0 else p) }
      else Some list)"

definition nsync_dll_remove :: "dll_store \<Rightarrow> nsync_dll_list \<Rightarrow> dll_ptr \<Rightarrow> (dll_store \<times> nsync_dll_list) option" where
  "nsync_dll_remove h list e =
     do { list \<leftarrow> removed_head h list e;
          n \<leftarrow> get_next h e;
          p \<leftarrow> get_prev h e;
          h \<leftarrow> set_prev h n p;
          p \<leftarrow> get_prev h e;
          n \<leftarrow> get_next h e;
          h \<leftarrow> set_next h p n;
          h \<leftarrow> set_next h e e;
          h \<leftarrow> set_prev h e e;
          Some (h, list) }"

definition nsync_dll_splice_after :: "dll_store \<Rightarrow> dll_ptr \<Rightarrow> dll_ptr \<Rightarrow> dll_store option" where
  "nsync_dll_splice_after h p n =
     do { p_2nd \<leftarrow> get_next h p;
          n_last \<leftarrow> get_prev h n;
          h \<leftarrow> set_next h p n;
          h \<leftarrow> set_prev h n p;
          h \<leftarrow> set_next h n_last p_2nd;
          set_prev h p_2nd n_last }"

definition nsync_dll_make_first_in_list ::
  "dll_store \<Rightarrow> nsync_dll_list \<Rightarrow> dll_ptr \<Rightarrow> (dll_store \<times> nsync_dll_list) option" where
  "nsync_dll_make_first_in_list h list e =
     (if e \<noteq> 0 then
        (if list = 0 then do { list \<leftarrow> get_prev h e; Some (h, list) }
         else do { h \<leftarrow> nsync_dll_splice_after h list e; Some (h, list) })
      else Some (h, list))"

definition nsync_dll_make_last_in_list ::
  "dll_store \<Rightarrow> nsync_dll_list \<Rightarrow> dll_ptr \<Rightarrow> (dll_store \<times> nsync_dll_list) option" where
  "nsync_dll_make_last_in_list h list e =
     (if e \<noteq> 0 then
        do { n \<leftarrow> get_next h e;
             (h, _) \<leftarrow> nsync_dll_make_first_in_list h list n;
             Some (h, e) }
      else Some (h, list))"

definition nsync_dll_first :: "dll_store \<Rightarrow> nsync_dll_list \<Rightarrow> dll_ptr option" where
  "nsync_dll_first h list = (if list \<noteq> 0 then get_next h list else Some 0)"

definition nsync_dll_last :: "nsync_dll_list \<Rightarrow> dll_ptr" where
  "nsync_dll_last list = list"

definition nsync_dll_next :: "dll_store \<Rightarrow> nsync_dll_list \<Rightarrow> dll_ptr \<Rightarrow> dll_ptr option" where
  "nsync_dll_next h list e = (if e \<noteq> list then get_next h e else Some 0)"

definition nsync_dll_prev :: "dll_store \<Rightarrow> nsync_dll_list \<Rightarrow> dll_ptr \<Rightarrow> dll_ptr option" where
  "nsync_dll_prev h list e =
     do { n \<leftarrow> get_next h list;
          if e \<noteq> n then get_prev h e else Some 0 }"

section \<open>Paths and rings\<close>

text \<open>\<open>b\<close> follows \<open>a\<close>: the two pointers between them agree.\<close>

definition link :: "dll_store \<Rightarrow> dll_ptr \<Rightarrow> dll_ptr \<Rightarrow> bool" where
  "link h a b \<longleftrightarrow> get_next h a = Some b \<and> get_prev h b = Some a"

fun linked :: "dll_store \<Rightarrow> dll_ptr list \<Rightarrow> bool" where
  "linked h (a # b # xs) \<longleftrightarrow> link h a b \<and> linked h (b # xs)"
| "linked h _ \<longleftrightarrow> True"

text \<open>The elements of \<open>xs\<close>, in this order, form one circular list.\<close>

definition ring :: "dll_store \<Rightarrow> dll_ptr list \<Rightarrow> bool" where
  "ring h xs \<longleftrightarrow> xs \<noteq> [] \<and> distinct xs \<and> 0 \<notin> set xs \<and> linked h (xs @ [hd xs])"

text \<open>The head \<open>list\<close> stands for the sequence \<open>xs\<close>.\<close>

definition dll_rep :: "dll_store \<Rightarrow> nsync_dll_list \<Rightarrow> dll_ptr list \<Rightarrow> bool" where
  "dll_rep h list xs \<longleftrightarrow> (if list = 0 then xs = [] else ring h xs \<and> list = last xs)"

text \<open>Two stores agree outside \<open>A\<close> and on the containers.\<close>

definition only_links :: "dll_ptr set \<Rightarrow> dll_store \<Rightarrow> dll_store \<Rightarrow> bool" where
  "only_links A h h' \<longleftrightarrow> (\<forall>a. a \<notin> A \<longrightarrow> h' a = h a) \<and> (\<forall>a. map_option e_container (h' a) = map_option e_container (h a))"

lemma linked_append: "linked h (xs @ a # ys) \<longleftrightarrow> linked h (xs @ [a]) \<and> linked h (a # ys)"
  by (induction h xs rule: linked.induct) auto

lemma linked_join:
  "linked h (xs @ ys) \<longleftrightarrow>
     linked h xs \<and> linked h ys \<and> (xs \<noteq> [] \<longrightarrow> ys \<noteq> [] \<longrightarrow> link h (last xs) (hd ys))"
  by (induction h xs rule: linked.induct) (auto, (cases ys; simp)+)

lemma linked_cong:
  assumes "\<And>x. x \<in> set (butlast xs) \<Longrightarrow> get_next h' x = get_next h x"
    and "\<And>x. x \<in> set (tl xs) \<Longrightarrow> get_prev h' x = get_prev h x"
  shows "linked h' xs \<longleftrightarrow> linked h xs"
  using assms by (induction h xs rule: linked.induct) (auto simp: link_def)

lemma ring_rotate:
  assumes "ring h (xs @ ys)" and "ys \<noteq> []"
  shows "ring h (ys @ xs)"
proof (cases xs)
  case Nil
  then show ?thesis using assms by simp
next
  case (Cons a as)
  obtain b bs where ys: "ys = b # bs" using assms by (cases ys) auto
  have "linked h (a # as @ b # (bs @ [a]))"
    using assms by (simp add: ring_def Cons ys)
  then have "linked h (a # as @ [b])" "linked h (b # bs @ [a])"
    using linked_append [of h "a # as" b "bs @ [a]"] by auto
  then have "linked h ((b # bs) @ a # as @ [b])"
    using linked_append [of h "b # bs" a "as @ [b]"] by simp
  then show ?thesis
    using assms by (auto simp: ring_def Cons ys)
qed

lemma in_butlast_neq_last: "distinct xs \<Longrightarrow> x \<in> set (butlast xs) \<Longrightarrow> x \<noteq> last xs"
  by (induction xs) (auto split: if_splits)

lemma get_after_set [simp]:
  "set_next h e v = Some h' \<Longrightarrow> get_next h' a = (if a = e then Some v else get_next h a)"
  "set_next h e v = Some h' \<Longrightarrow> get_prev h' a = get_prev h a"
  "set_prev h e v = Some h' \<Longrightarrow> get_next h' a = get_next h a"
  "set_prev h e v = Some h' \<Longrightarrow> get_prev h' a = (if a = e then Some v else get_prev h a)"
  by (auto simp: set_next_def set_prev_def get_next_def get_prev_def split: option.splits)

lemma only_links_set:
  "set_next h e v = Some h' \<Longrightarrow> e \<in> A \<Longrightarrow> only_links A h h'"
  "set_prev h e v = Some h' \<Longrightarrow> e \<in> A \<Longrightarrow> only_links A h h'"
  by (auto simp: set_next_def set_prev_def only_links_def split: option.splits)

lemma only_links_trans: "only_links A h h' \<Longrightarrow> only_links B h' h'' \<Longrightarrow> only_links (A \<union> B) h h''"
  by (auto simp: only_links_def)

lemma only_links_refl [simp]: "only_links A h h"
  by (simp add: only_links_def)

lemma set_link_total:
  "e \<in> dom h \<Longrightarrow> \<exists>h'. set_next h e v = Some h' \<and> dom h' = dom h"
  "e \<in> dom h \<Longrightarrow> \<exists>h'. set_prev h e v = Some h' \<and> dom h' = dom h"
  by (auto simp: set_next_def set_prev_def)

lemma get_link_dom:
  "get_next h e = Some x \<Longrightarrow> e \<in> dom h"
  "get_prev h e = Some x \<Longrightarrow> e \<in> dom h"
  by (auto simp: get_next_def get_prev_def)

lemma ring_hd_last:
  "ring h xs \<Longrightarrow> get_prev h (hd xs) = Some (last xs)"
  "ring h xs \<Longrightarrow> get_next h (last xs) = Some (hd xs)"
proof -
  assume r: "ring h xs"
  then have "linked h ((butlast xs @ [last xs]) @ [hd xs])"
    by (simp add: ring_def)
  then have "linked h (butlast xs @ last xs # [hd xs])"
    by (simp only: append_assoc append.simps)
  then have "link h (last xs) (hd xs)"
    using linked_append [of h "butlast xs" "last xs" "[hd xs]"] by simp
  then show "get_prev h (hd xs) = Some (last xs)" "get_next h (last xs) = Some (hd xs)"
    by (auto simp: link_def)
qed

lemma ring_frame:
  assumes "ring h xs" and "only_links A h h'" and "A \<inter> set xs = {}"
  shows "ring h' xs"
proof -
  have eq: "h' x = h x" if "x \<in> set xs" for x
    using assms that by (auto simp: only_links_def)
  have "linked h' (xs @ [hd xs]) \<longleftrightarrow> linked h (xs @ [hd xs])"
    using assms(1) by (intro linked_cong)
      (auto simp: ring_def get_next_def get_prev_def eq dest: list.set_sel(2))
  then show ?thesis
    using assms(1) by (simp add: ring_def)
qed

text \<open>The elements of two rings that do not meet, spliced.\<close>

lemma splice_ring:
  assumes p: "ring h (p # ps)" and n: "ring h (n # ns)" and d: "set (p # ps) \<inter> set (n # ns) = {}"
  shows "\<exists>h'. nsync_dll_splice_after h p n = Some h' \<and> ring h' (p # n # ns @ ps)
           \<and> only_links (set (p # ps) \<union> set (n # ns)) h h'"
proof -
  define q where "q = hd (ps @ [p])"
  define l where "l = last (n # ns)"
  have q: "get_next h p = Some q" "get_prev h q = Some p"
    using p by (cases ps; auto simp: ring_def q_def link_def)+
  have l: "get_prev h n = Some l" "get_next h l = Some n"
    using ring_hd_last [OF n] by (simp_all add: l_def)
  have qin: "q \<in> set (p # ps)" and lin: "l \<in> set (n # ns)"
    by (auto simp: q_def l_def hd_append split: if_splits)
  note doms = get_link_dom(1) [OF q(1)] get_link_dom(2) [OF q(2)] get_link_dom(2) [OF l(1)] get_link_dom(1) [OF l(2)]
  obtain h1 where h1: "set_next h p n = Some h1" "dom h1 = dom h" using set_link_total doms by blast
  obtain h2 where h2: "set_prev h1 n p = Some h2" "dom h2 = dom h" using set_link_total doms h1 by metis
  obtain h3 where h3: "set_next h2 l q = Some h3" "dom h3 = dom h" using set_link_total doms h2 by metis
  obtain h' where h': "set_prev h3 q l = Some h'" using set_link_total doms h3 by metis
  have ne: "q \<noteq> n" "p \<noteq> l" "p \<noteq> n" "q \<noteq> l" using d qin lin by auto
  have nx: "get_next h' a = (if a = l then Some q else if a = p then Some n else get_next h a)" for a
    using h1 h2 h3 h' by simp
  have pv: "get_prev h' a = (if a = q then Some l else if a = n then Some p else get_prev h a)" for a
    using h1 h2 h3 h' by simp
  have "linked h' (n # ns) \<longleftrightarrow> linked h (n # ns)"
  proof (rule linked_cong)
    fix x assume "x \<in> set (butlast (n # ns))"
    then have "x \<noteq> l" "x \<noteq> p"
      using n d in_butlast_neq_last [of "n # ns" x] in_set_butlastD [of x "n # ns"] by (auto simp: ring_def l_def)
    then show "get_next h' x = get_next h x" by (simp add: nx)
  next
    fix x assume "x \<in> set (tl (n # ns))"
    then have "x \<noteq> q" "x \<noteq> n" using n d qin by (auto simp: ring_def)
    then show "get_prev h' x = get_prev h x" by (simp add: pv)
  qed
  moreover have "linked h' (ps @ [p]) \<longleftrightarrow> linked h (ps @ [p])"
  proof (rule linked_cong)
    fix x assume "x \<in> set (butlast (ps @ [p]))"
    then have "x \<noteq> l" "x \<noteq> p" using p d lin by (auto simp: ring_def)
    then show "get_next h' x = get_next h x" by (simp add: nx)
  next
    fix x assume "x \<in> set (tl (ps @ [p]))"
    then have "x \<noteq> q" "x \<noteq> n" using p d by (cases ps; auto simp: ring_def q_def)+
    then show "get_prev h' x = get_prev h x" by (simp add: pv)
  qed
  ultimately have parts: "linked h' (n # ns)" "linked h' (ps @ [p])"
    using n p linked_join [of h "n # ns" "[n]"] linked_join [of h "[p]" "ps @ [p]"] by (auto simp: ring_def)
  have "linked h' (n # ns @ ps @ [p])"
  proof -
    have "link h' (last (n # ns)) (hd (ps @ [p]))"
      unfolding l_def [symmetric] q_def [symmetric] using ne by (simp add: link_def nx pv)
    then show ?thesis
      using parts linked_join [of h' "n # ns" "ps @ [p]"] by simp
  qed
  moreover have "link h' p n" using ne by (simp add: link_def nx pv)
  ultimately have "ring h' (p # n # ns @ ps)"
    using p n d by (auto simp: ring_def)
  moreover have "only_links (set (p # ps) \<union> set (n # ns)) h h'"
  proof -
    have "only_links ({p} \<union> {n} \<union> {l} \<union> {q}) h h'"
      using only_links_set h1 h2 h3 h' by (meson only_links_trans singletonI)
    then show ?thesis using qin lin by (auto simp: only_links_def)
  qed
  ultimately show ?thesis
    using q l h1 h2 h3 h' by (simp add: nsync_dll_splice_after_def)
qed

text \<open>An element taken out of its ring.\<close>

lemma remove_ring:
  assumes e: "ring h (e # xs)"
  shows "\<exists>h'. (\<forall>list. nsync_dll_remove h list e =
                 Some (h', if list = e then (if xs = [] then 0 else last xs) else list))
           \<and> ring h' [e] \<and> (xs \<noteq> [] \<longrightarrow> ring h' xs) \<and> only_links (set (e # xs)) h h'"
proof -
  define n where "n = hd (xs @ [e])"
  define p where "p = last (e # xs)"
  have l: "link h e n"
    using e by (cases xs; auto simp: ring_def n_def)
  have p: "get_prev h e = Some p" "get_next h p = Some e"
    using ring_hd_last [OF e] by (simp_all add: p_def)
  have n: "get_next h e = Some n" "get_prev h n = Some e"
    using l by (simp_all add: link_def)
  have nin: "n \<in> set (e # xs)" and pin: "p \<in> set (e # xs)"
    by (auto simp: n_def p_def hd_append split: if_splits)
  have single: "xs = [] \<longleftrightarrow> n = e" "xs = [] \<longleftrightarrow> p = e"
    using e by (cases xs; auto simp: n_def p_def ring_def)+
  note doms = get_link_dom(1) [OF n(1)] get_link_dom(2) [OF n(2)] get_link_dom(1) [OF p(2)]
  obtain h1 where h1: "set_prev h n p = Some h1" "dom h1 = dom h" using set_link_total doms by blast
  obtain h2 where h2: "set_next h1 p n = Some h2" "dom h2 = dom h" using set_link_total doms h1 by metis
  obtain h3 where h3: "set_next h2 e e = Some h3" "dom h3 = dom h" using set_link_total doms h2 by metis
  obtain h' where h': "set_prev h3 e e = Some h'" using set_link_total doms h3 by metis
  have nx: "get_next h' a = (if a = e then Some e else if a = p then Some n else get_next h a)" for a
    using h1 h2 h3 h' by simp
  have pv: "get_prev h' a = (if a = e then Some e else if a = n then Some p else get_prev h a)" for a
    using h1 h2 h3 h' by simp
  have h1e: "get_prev h1 e = Some p" "get_next h1 e = Some n"
    using h1 p n single by auto
  have "ring h' [e]"
    using e by (simp add: ring_def link_def nx pv)
  moreover have "ring h' xs" if ne: "xs \<noteq> []"
  proof -
    have hl: "n = hd xs" "p = last xs" using ne by (simp_all add: n_def p_def)
    have "linked h' xs \<longleftrightarrow> linked h xs"
    proof (rule linked_cong)
      fix x assume "x \<in> set (butlast xs)"
      then have "x \<noteq> e" "x \<noteq> p" using e in_butlast_neq_last [of xs x] hl by (auto simp: ring_def dest: in_set_butlastD)
      then show "get_next h' x = get_next h x" by (simp add: nx)
    next
      fix x assume "x \<in> set (tl xs)"
      then have "x \<noteq> e" "x \<noteq> n" using e hl ne by (cases xs; auto simp: ring_def)+
      then show "get_prev h' x = get_prev h x" by (simp add: pv)
    qed
    moreover have "linked h xs"
      using e linked_join [of h "[e]" "xs @ [e]"] linked_join [of h xs "[e]"] by (simp add: ring_def)
    moreover have "link h' p n" using ne single e pin nin by (auto simp: link_def nx pv)
    ultimately have "linked h' (xs @ [hd xs])"
      using ne hl by (simp add: linked_join)
    then show ?thesis using e ne by (simp add: ring_def)
  qed
  moreover have "only_links (set (e # xs)) h h'"
  proof -
    have "only_links ({n} \<union> {p} \<union> {e} \<union> {e}) h h'"
      using only_links_set h1 h2 h3 h' by (meson only_links_trans singletonI)
    then show ?thesis using nin pin by (auto simp: only_links_def)
  qed
  moreover have "nsync_dll_remove h list e = Some (h', if list = e then (if xs = [] then 0 else last xs) else list)" for list
  proof -
    have "removed_head h list e = Some (if list = e then (if xs = [] then 0 else last xs) else list)"
      using single(2) p(1) by (cases "xs = []") (simp_all add: removed_head_def, simp add: p_def)
    then show ?thesis
      unfolding nsync_dll_remove_def using p(1) n(1) h1(1) h1e h2(1) h3(1) h'
      by (simp only: Option.bind.simps)
  qed
  ultimately show ?thesis by blast
qed

section \<open>The operations on sequences\<close>

lemma dll_rep_Nil [simp]: "dll_rep h list [] \<longleftrightarrow> list = 0"
  by (auto simp: dll_rep_def ring_def)

lemma ring_last_nonzero: "ring h xs \<Longrightarrow> last xs \<noteq> 0"
  by (metis last_in_set ring_def)

lemma dll_rep_ring: "xs \<noteq> [] \<Longrightarrow> dll_rep h list xs \<longleftrightarrow> ring h xs \<and> list = last xs"
  using ring_last_nonzero by (auto simp: dll_rep_def)

lemma dll_rep_frame:
  "dll_rep h list xs \<Longrightarrow> only_links A h h' \<Longrightarrow> A \<inter> set xs = {} \<Longrightarrow> dll_rep h' list xs"
  by (cases "xs = []") (auto simp: dll_rep_ring intro: ring_frame)

lemma ring_last_first: "ring h xs \<Longrightarrow> ring h (last xs # butlast xs)"
  using ring_rotate [of h "butlast xs" "[last xs]"] by (simp add: ring_def)

lemma make_first_rep:
  assumes r: "dll_rep h list xs" and es: "ring h (e # es)" and d: "set xs \<inter> set (e # es) = {}"
  shows "\<exists>h' list'. nsync_dll_make_first_in_list h list e = Some (h', list') \<and> dll_rep h' list' (e # es @ xs)
           \<and> only_links (set xs \<union> set (e # es)) h h' \<and> (list \<noteq> 0 \<longrightarrow> list' = list)"
proof (cases "xs = []")
  case True
  then show ?thesis
    using r es ring_hd_last(1) [OF es] by (auto simp: nsync_dll_make_first_in_list_def dll_rep_ring ring_def)
next
  case False
  then have x: "ring h (last xs # butlast xs)" and l: "list = last xs" "list \<noteq> 0"
    using r ring_last_nonzero by (auto simp: dll_rep_ring ring_last_first)
  have "set (last xs # butlast xs) = set xs"
    using False by (metis append_butlast_last_id list.set_intros(1) rotate1.simps(2) set_rotate1)
  then obtain h' where h': "nsync_dll_splice_after h (last xs) e = Some h'"
      "ring h' (last xs # e # es @ butlast xs)" "only_links (set xs \<union> set (e # es)) h h'"
    using splice_ring [OF x es] d by auto
  have "ring h' ((e # es @ butlast xs) @ [last xs])"
    using ring_rotate [of h' "[last xs]" "e # es @ butlast xs"] h'(2) by simp
  then have "dll_rep h' (last xs) (e # es @ xs)"
    using False by (simp add: dll_rep_ring)
  then show ?thesis
    using h' l es by (auto simp: nsync_dll_make_first_in_list_def ring_def)
qed

lemma make_last_rep:
  assumes r: "dll_rep h list xs" and es: "ring h (es @ [e])" and d: "set xs \<inter> set (es @ [e]) = {}"
  shows "\<exists>h'. nsync_dll_make_last_in_list h list e = Some (h', e) \<and> dll_rep h' e (xs @ es @ [e])
           \<and> only_links (set xs \<union> set (es @ [e])) h h'"
proof -
  define n where "n = hd (es @ [e])"
  have ne: "get_next h e = Some n" and e0: "e \<noteq> 0"
    using ring_hd_last(2) [OF es] es by (simp_all add: n_def ring_def)
  have split: "es @ [e] = n # tl (es @ [e])" by (simp add: n_def)
  obtain h' list' where h': "nsync_dll_make_first_in_list h list n = Some (h', list')"
      "dll_rep h' list' (n # tl (es @ [e]) @ xs)" "only_links (set xs \<union> set (es @ [e])) h h'"
    using make_first_rep [OF r, of n "tl (es @ [e])"] es d split by metis
  have "ring h' ((es @ [e]) @ xs)"
    using h'(2) split by (metis append_Cons dll_rep_ring list.distinct(1))
  then have "ring h' (xs @ es @ [e])"
    using ring_rotate [of h' "es @ [e]" xs] by (cases xs) auto
  then have "dll_rep h' e (xs @ es @ [e])"
    by (simp add: dll_rep_ring)
  then show ?thesis
    using h' ne e0 by (simp add: nsync_dll_make_last_in_list_def)
qed

lemma remove_rep:
  assumes r: "dll_rep h list (xs @ e # ys)"
  shows "\<exists>h' list'. nsync_dll_remove h list e = Some (h', list') \<and> dll_rep h' list' (xs @ ys) \<and> ring h' [e]
           \<and> only_links (set (xs @ e # ys)) h h'"
proof -
  have x: "ring h (xs @ e # ys)" and l: "list = last (e # ys)"
    using r by (auto simp: dll_rep_ring)
  have "ring h (e # ys @ xs)" using ring_rotate [OF x] by simp
  then obtain h' where h': "\<And>list. nsync_dll_remove h list e =
        Some (h', if list = e then (if ys @ xs = [] then 0 else last (ys @ xs)) else list)"
      "ring h' [e]" "ys @ xs \<noteq> [] \<longrightarrow> ring h' (ys @ xs)" "only_links (set (xs @ e # ys)) h h'"
    using remove_ring [of h e "ys @ xs"] by (auto simp: Un_commute)
  have d: "e \<notin> set (xs @ ys)" using x by (auto simp: ring_def)
  have "dll_rep h' (if list = e then (if ys @ xs = [] then 0 else last (ys @ xs)) else list) (xs @ ys)"
  proof (cases ys)
    case Nil
    then show ?thesis using l h'(3) by (auto simp: dll_rep_ring)
  next
    case (Cons a as)
    then have "list \<noteq> e" "list = last (xs @ ys)" using l d by auto
    moreover have "ring h' (xs @ ys)" using ring_rotate [of h' ys xs] h'(3) Cons by (cases xs) auto
    ultimately show ?thesis using Cons by (simp add: dll_rep_ring)
  qed
  then show ?thesis using h' by auto
qed

lemma next_rep:
  assumes r: "dll_rep h list (xs @ e # ys)"
  shows "nsync_dll_next h list e = Some (case ys of [] \<Rightarrow> 0 | y # _ \<Rightarrow> y)"
    and "nsync_dll_prev h list e = Some (case rev xs of [] \<Rightarrow> 0 | x # _ \<Rightarrow> x)"
proof -
  have x: "ring h (xs @ e # ys)" and l: "list = last (e # ys)"
    using r by (auto simp: dll_rep_ring)
  then have d: "distinct (xs @ e # ys)" and k: "linked h (xs @ e # ys)"
    using linked_join [of h "xs @ e # ys" "[hd (xs @ e # ys)]"] by (auto simp: ring_def)
  show "nsync_dll_next h list e = Some (case ys of [] \<Rightarrow> 0 | y # _ \<Rightarrow> y)"
    using k d l linked_join [of h xs "e # ys"] by (cases ys) (auto simp: nsync_dll_next_def link_def)
  have n: "get_next h list = Some (hd (xs @ [e]))"
    using ring_hd_last(2) [OF x] l by (cases xs) auto
  show "nsync_dll_prev h list e = Some (case rev xs of [] \<Rightarrow> 0 | x # _ \<Rightarrow> x)"
  proof (cases xs rule: rev_cases)
    case Nil
    then show ?thesis using n by (simp add: nsync_dll_prev_def)
  next
    case (snoc zs z)
    then have "get_prev h e = Some z"
      using k linked_join [of h xs "e # ys"] by (simp add: link_def)
    moreover have "e \<noteq> hd (xs @ [e])" using d snoc by (cases zs) auto
    ultimately show ?thesis using n snoc by (simp add: nsync_dll_prev_def)
  qed
qed

lemma first_rep:
  "dll_rep h list xs \<Longrightarrow> nsync_dll_first h list = Some (case xs of [] \<Rightarrow> 0 | x # _ \<Rightarrow> x)"
  using ring_hd_last(2) [of h xs] ring_last_nonzero [of h xs]
  by (cases xs) (auto simp: nsync_dll_first_def dll_rep_ring)

lemma init_ring: "h e = Some x \<Longrightarrow> e \<noteq> 0 \<Longrightarrow> \<exists>h'. nsync_dll_init h e c = Some h' \<and> ring h' [e] \<and>
    map_option e_container (h' e) = Some c \<and> (\<forall>a. a \<noteq> e \<longrightarrow> h' a = h a)"
  by (auto simp: nsync_dll_init_def ring_def link_def get_next_def get_prev_def)

section \<open>Queues of waiters\<close>

text \<open>
  The clients queue a waiter with \<open>nsync_dll_make_last_in_list_\<close> and take the first one off with
  \<open>nsync_dll_first_\<close> and \<open>nsync_dll_remove_\<close>. The contract they rely on, and what follows from it: a
  queue hands its waiters out in the order of their arrival.
\<close>

fun enqueue_all :: "('s \<Rightarrow> 'l \<Rightarrow> nat \<Rightarrow> ('s \<times> 'l) option) \<Rightarrow> 's \<Rightarrow> 'l \<Rightarrow> nat list \<Rightarrow> ('s \<times> 'l) option" where
  "enqueue_all add s l [] = Some (s, l)"
| "enqueue_all add s l (e # es) = do { (s, l) \<leftarrow> add s l e; enqueue_all add s l es }"

fun drain :: "('s \<Rightarrow> 'l \<Rightarrow> nat option) \<Rightarrow> ('s \<Rightarrow> 'l \<Rightarrow> nat \<Rightarrow> ('s \<times> 'l) option) \<Rightarrow> nat \<Rightarrow> 's \<Rightarrow> 'l \<Rightarrow> nat list option" where
  "drain fst' del 0 s l = Some []"
| "drain fst' del (Suc n) s l =
     do { e \<leftarrow> fst' s l;
          if e = 0 then Some []
          else do { (s, l) \<leftarrow> del s l e;
                    es \<leftarrow> drain fst' del n s l;
                    Some (e # es) } }"

locale waiter_queue =
  fixes rep :: "'s \<Rightarrow> 'l \<Rightarrow> nat list \<Rightarrow> bool"
    and alone :: "'s \<Rightarrow> nat \<Rightarrow> bool"
    and add :: "'s \<Rightarrow> 'l \<Rightarrow> nat \<Rightarrow> ('s \<times> 'l) option"
    and del :: "'s \<Rightarrow> 'l \<Rightarrow> nat \<Rightarrow> ('s \<times> 'l) option"
    and first :: "'s \<Rightarrow> 'l \<Rightarrow> nat option"
  assumes add_rep: "rep s l xs \<Longrightarrow> alone s e \<Longrightarrow> e \<notin> set xs \<Longrightarrow>
      \<exists>s' l'. add s l e = Some (s', l') \<and> rep s' l' (xs @ [e]) \<and>
        (\<forall>x. x \<notin> set xs \<longrightarrow> x \<noteq> e \<longrightarrow> alone s x \<longrightarrow> alone s' x)"
    and del_rep: "rep s l (x # xs) \<Longrightarrow> \<exists>s' l'. del s l x = Some (s', l') \<and> rep s' l' xs"
    and first_rep': "rep s l xs \<Longrightarrow> first s l = Some (case xs of [] \<Rightarrow> 0 | x # _ \<Rightarrow> x)"
    and nonzero: "rep s l xs \<Longrightarrow> 0 \<notin> set xs"
begin

lemma enqueue_all_rep:
  "rep s l xs \<Longrightarrow> \<forall>e\<in>set es. alone s e \<Longrightarrow> distinct es \<Longrightarrow> set xs \<inter> set es = {} \<Longrightarrow>
   \<exists>s' l'. enqueue_all add s l es = Some (s', l') \<and> rep s' l' (xs @ es)"
proof (induction es arbitrary: s l xs)
  case Nil
  then show ?case by simp
next
  case (Cons e es)
  obtain s' l' where s': "add s l e = Some (s', l')" "rep s' l' (xs @ [e])"
      "\<forall>x. x \<notin> set xs \<longrightarrow> x \<noteq> e \<longrightarrow> alone s x \<longrightarrow> alone s' x"
    using add_rep [OF Cons.prems(1), of e] Cons.prems by auto
  have "\<forall>x\<in>set es. alone s' x" using s'(3) Cons.prems by auto
  then show ?case using Cons.IH [OF s'(2)] Cons.prems s'(1) by auto
qed

lemma drain_rep: "rep s l xs \<Longrightarrow> length xs \<le> n \<Longrightarrow> drain first del n s l = Some xs"
proof (induction n arbitrary: s l xs)
  case 0
  then show ?case by simp
next
  case (Suc n)
  then show ?case
    using first_rep' [OF Suc.prems(1)] del_rep nonzero [OF Suc.prems(1)]
    by (cases xs) fastforce+
qed

lemma fifo:
  assumes "rep s l xs" and "\<forall>e\<in>set es. alone s e" and "distinct es" and "set xs \<inter> set es = {}"
  shows "\<exists>s' l'. enqueue_all add s l es = Some (s', l') \<and>
           drain first del (length xs + length es) s' l' = Some (xs @ es)"
  using enqueue_all_rep [OF assms] drain_rep by fastforce

end

lemma ring_alone_frame: "only_links A h h' \<Longrightarrow> x \<notin> A \<Longrightarrow> ring h [x] \<Longrightarrow> ring h' [x]"
  by (rule ring_frame [where A = A]) auto

interpretation dllq: waiter_queue dll_rep "\<lambda>h e. ring h [e]" nsync_dll_make_last_in_list nsync_dll_remove nsync_dll_first
proof
  show "\<exists>s' l'. nsync_dll_make_last_in_list s l e = Some (s', l') \<and> dll_rep s' l' (xs @ [e]) \<and>
        (\<forall>x. x \<notin> set xs \<longrightarrow> x \<noteq> e \<longrightarrow> ring s [x] \<longrightarrow> ring s' [x])"
    if "dll_rep s l xs" "ring s [e]" "e \<notin> set xs" for s l xs e
    using make_last_rep [of s l xs "[]" e] that by (fastforce intro: ring_alone_frame)
  show "\<exists>s' l'. nsync_dll_remove s l x = Some (s', l') \<and> dll_rep s' l' xs" if "dll_rep s l (x # xs)" for s l x xs
    using remove_rep [of s l "[]" x xs] that by auto
  show "nsync_dll_first s l = Some (case xs of [] \<Rightarrow> 0 | x # _ \<Rightarrow> x)" if "dll_rep s l xs" for s l xs
    using that by (rule first_rep)
  show "0 \<notin> set xs" if "dll_rep s l xs" for s l xs
    using that by (cases "xs = []") (auto simp: dll_rep_ring ring_def)
qed

section \<open>Properties\<close>

text \<open>
  C27. The circular lists of \<open>dll.c\<close> implement sequences. If the head \<open>list\<close> stands for
  \<open>xs @ e # ys\<close> then \<open>nsync_dll_remove_\<close> leaves a head for \<open>xs @ ys\<close> and \<open>e\<close> in a list of its own, and
  \<open>nsync_dll_next_\<close> and \<open>nsync_dll_prev_\<close> give the neighbours of \<open>e\<close> or \<open>NULL\<close> at the ends; and if
  another circular list \<open>f # fs\<close> has no element in common with it, \<open>nsync_dll_make_first_in_list_\<close> puts
  that list in front, and \<open>nsync_dll_make_last_in_list_\<close> of its last element puts it at the end. None
  of them faults or writes an element of any other list, and containers are never changed.
\<close>

theorem nsync_dll_refines_sequences:
  assumes "dll_rep h list (xs @ e # ys)" and "ring h (f # fs)" and "set (xs @ e # ys) \<inter> set (f # fs) = {}"
  shows "(\<exists>h' list'. nsync_dll_remove h list e = Some (h', list') \<and> dll_rep h' list' (xs @ ys) \<and> dll_rep h' e [e] \<and>
            only_links (set (xs @ e # ys)) h h')
       \<and> nsync_dll_next h list e = Some (case ys of [] \<Rightarrow> 0 | y # _ \<Rightarrow> y)
       \<and> nsync_dll_prev h list e = Some (case rev xs of [] \<Rightarrow> 0 | x # _ \<Rightarrow> x)
       \<and> nsync_dll_first h list = Some (hd (xs @ [e])) \<and> nsync_dll_last list = last (e # ys)
       \<and> (\<exists>h'. nsync_dll_make_first_in_list h list f = Some (h', list) \<and> dll_rep h' list ((f # fs) @ xs @ e # ys) \<and>
            only_links (set (xs @ e # ys) \<union> set (f # fs)) h h')
       \<and> (\<exists>h'. nsync_dll_make_last_in_list h list (last (f # fs)) = Some (h', last (f # fs)) \<and>
            dll_rep h' (last (f # fs)) ((xs @ e # ys) @ f # fs) \<and> only_links (set (xs @ e # ys) \<union> set (f # fs)) h h')"
proof -
  let ?l = "last (f # fs)"
  have fs: "butlast (f # fs) @ [?l] = f # fs" by simp
  have list: "list \<noteq> 0" "list = last (e # ys)"
    using assms(1) ring_last_nonzero [of h "xs @ e # ys"] by (auto simp: dll_rep_ring)
  have "\<exists>h'. nsync_dll_make_first_in_list h list f = Some (h', list) \<and> dll_rep h' list ((f # fs) @ xs @ e # ys) \<and>
            only_links (set (xs @ e # ys) \<union> set (f # fs)) h h'"
    using make_first_rep [OF assms] list(1) by auto
  moreover have "\<exists>h'. nsync_dll_make_last_in_list h list ?l = Some (h', ?l) \<and>
            dll_rep h' ?l ((xs @ e # ys) @ f # fs) \<and> only_links (set (xs @ e # ys) \<union> set (f # fs)) h h'"
    using make_last_rep [OF assms(1), of "butlast (f # fs)" ?l] assms(2,3) unfolding fs by simp
  moreover have "\<exists>h' list'. nsync_dll_remove h list e = Some (h', list') \<and> dll_rep h' list' (xs @ ys) \<and> dll_rep h' e [e] \<and>
            only_links (set (xs @ e # ys)) h h'"
    using remove_rep [OF assms(1)] by (auto simp: dll_rep_ring)
  moreover have "nsync_dll_first h list = Some (hd (xs @ [e]))"
    using first_rep [OF assms(1)] by (cases xs) auto
  ultimately show ?thesis
    using next_rep [OF assms(1)] list(2) by (simp only: nsync_dll_last_def simp_thms)
qed

theorem nsync_dll_refines_sequences_witness:
  "\<exists>h. dll_rep h 3 [1, 2, 3] \<and> ring h [4, 5] \<and> (\<exists>h'. nsync_dll_make_last_in_list h 3 5 = Some (h', 5) \<and> dll_rep h' 5 [1, 2, 3, 4, 5])"
proof -
  define el where "el n p = \<lparr>e_next = n, e_prev = p, e_container = 0\<rparr>" for n p :: nat
  let ?h = "[1 \<mapsto> el 2 3, 2 \<mapsto> el 3 1, 3 \<mapsto> el 1 2, 4 \<mapsto> el 5 5, 5 \<mapsto> el 4 4]"
  have h: "dll_rep ?h 3 ([1] @ 2 # [3])" "ring ?h (4 # [5])"
    by (simp_all add: dll_rep_def ring_def link_def get_next_def get_prev_def el_def)
  then show ?thesis
    using nsync_dll_refines_sequences [OF h] by (intro exI [of _ ?h]) auto
qed

text \<open>
  Waiters are handed out first come, first served: elements that are each alone in their list,
  appended one after the other to a list that stands for \<open>xs\<close> and then taken off from the front until
  the list is empty, come out as \<open>xs\<close> followed by the appended elements in the order they were
  appended; no step faults.
\<close>

theorem nsync_dll_fifo:
  assumes "dll_rep h list xs" and "\<forall>e\<in>set es. ring h [e]" and "distinct es" and "set xs \<inter> set es = {}"
  shows "\<exists>h' list'. enqueue_all nsync_dll_make_last_in_list h list es = Some (h', list') \<and>
           drain nsync_dll_first nsync_dll_remove (length xs + length es) h' list' = Some (xs @ es)"
  using assms by (rule dllq.fifo)

theorem nsync_dll_fifo_witness:
  "\<exists>h. \<exists>h' list'. enqueue_all nsync_dll_make_last_in_list h 0 [7, 4] = Some (h', list') \<and>
           drain nsync_dll_first nsync_dll_remove 2 h' list' = Some [7, 4]"
proof -
  define el where "el n = \<lparr>e_next = n, e_prev = n, e_container = 0\<rparr>" for n :: nat
  let ?h = "[4 \<mapsto> el 4, 7 \<mapsto> el 7]"
  have "dll_rep ?h 0 []" "\<forall>e\<in>set [7, 4]. ring ?h [e]" "distinct [7, 4 :: nat]" "set [] \<inter> set [7, 4 :: nat] = {}"
    by (simp_all add: ring_def link_def get_next_def get_prev_def el_def)
  note fifo = nsync_dll_fifo [OF this]
  have two: "length ([] :: nat list) + length [7, 4 :: nat] = 2" by simp
  show ?thesis
    by (rule exI [of _ ?h]) (use fifo in \<open>simp only: two append.simps\<close>)
qed

end
