(* ===== verification/Nsync_Word.thy ===== *)
theory Nsync_Word
  imports Nsync_Dll
begin

text \<open>
  The word of an \<open>nsync_mu\<close> (\<open>nsync/internal/common.h\<close>): bit 0 is the writer lock, bit 1 the
  spinlock that protects the queue of waiters, bits 2 to 7 are flags and the remaining 24 bits count
  the readers. The lemmas give the effect of each update the mutex makes on the three fields.
\<close>

unbundle bit_operations_syntax

section \<open>The fields of the word\<close>

abbreviation MU_WLOCK :: u32 where "MU_WLOCK \<equiv> 0x1"
abbreviation MU_SPINLOCK :: u32 where "MU_SPINLOCK \<equiv> 0x2"
abbreviation MU_WAITING :: u32 where "MU_WAITING \<equiv> 0x4"
abbreviation MU_DESIG_WAKER :: u32 where "MU_DESIG_WAKER \<equiv> 0x8"
abbreviation MU_CONDITION :: u32 where "MU_CONDITION \<equiv> 0x10"
abbreviation MU_WRITER_WAITING :: u32 where "MU_WRITER_WAITING \<equiv> 0x20"
abbreviation MU_LONG_WAIT :: u32 where "MU_LONG_WAIT \<equiv> 0x40"
abbreviation MU_ALL_FALSE :: u32 where "MU_ALL_FALSE \<equiv> 0x80"
abbreviation MU_RLOCK :: u32 where "MU_RLOCK \<equiv> 0x100"
abbreviation MU_RLOCK_FIELD :: u32 where "MU_RLOCK_FIELD \<equiv> NOT (MU_RLOCK - 1)"
abbreviation MU_ANY_LOCK :: u32 where "MU_ANY_LOCK \<equiv> MU_WLOCK OR MU_RLOCK_FIELD"

record lock_type =
  zero_to_acquire :: u32
  add_to_acquire :: u32
  held_if_non_zero :: u32
  set_when_waiting :: u32
  clear_on_acquire :: u32
  clear_on_uncontended_release :: u32

definition nsync_writer_type :: lock_type where
  "nsync_writer_type =
     \<lparr>zero_to_acquire = MU_ANY_LOCK OR MU_LONG_WAIT,
      add_to_acquire = MU_WLOCK,
      held_if_non_zero = MU_WLOCK,
      set_when_waiting = MU_WAITING OR MU_WRITER_WAITING,
      clear_on_acquire = MU_WRITER_WAITING,
      clear_on_uncontended_release = MU_ALL_FALSE\<rparr>"

definition nsync_reader_type :: lock_type where
  "nsync_reader_type =
     \<lparr>zero_to_acquire = MU_WLOCK OR MU_WRITER_WAITING OR MU_LONG_WAIT,
      add_to_acquire = MU_RLOCK,
      held_if_non_zero = MU_RLOCK_FIELD,
      set_when_waiting = MU_WAITING,
      clear_on_acquire = 0,
      clear_on_uncontended_release = 0\<rparr>"

text \<open>The fields that the proofs speak about.\<close>

definition wl :: "u32 \<Rightarrow> bool" where "wl w = bit w 0"
definition sl :: "u32 \<Rightarrow> bool" where "sl w = bit w 1"
definition rc :: "u32 \<Rightarrow> nat" where "rc w = unat w div 256"

text \<open>Only flags: no lock bit and no spinlock bit.\<close>

definition flags_only :: "u32 \<Rightarrow> bool" where
  "flags_only v \<longleftrightarrow> v AND 0xFFFFFF03 = 0"

section \<open>Effects of the updates\<close>

lemma unat_bounds: "unat (w :: u32) < 4294967296"
  using unsigned_less [of w] by simp

lemma bit_no_flags: "n < 32 \<Longrightarrow> bit (0xFFFFFF03 :: u32) n \<longleftrightarrow> n < 2 \<or> 8 \<le> n"
proof -
  assume b: "n < 32"
  have "list_all (\<lambda>n. bit (0xFFFFFF03 :: u32) n \<longleftrightarrow> n < 2 \<or> 8 \<le> n) [0..<32]" by code_simp
  then show ?thesis using b by (auto simp: list_all_iff)
qed

lemma flags_only_iff: "flags_only v \<longleftrightarrow> (\<forall>n. bit v n \<longrightarrow> 2 \<le> n \<and> n < 8)"
proof -
  have "flags_only v \<longleftrightarrow> (\<forall>n < 32. \<not> (bit v n \<and> bit (0xFFFFFF03 :: u32) n))"
    by (auto simp: flags_only_def bit_eq_iff bit_and_iff)
  also have "\<dots> \<longleftrightarrow> (\<forall>n < 32. bit v n \<longrightarrow> 2 \<le> n \<and> n < 8)"
    using bit_no_flags by (auto simp: not_le)
  also have "\<dots> \<longleftrightarrow> (\<forall>n. bit v n \<longrightarrow> 2 \<le> n \<and> n < 8)"
    using bit_imp_le_length [of v] by auto
  finally show ?thesis .
qed

lemma flags_bit: "flags_only v \<Longrightarrow> bit v n \<Longrightarrow> 2 \<le> n \<and> n < 8"
  by (simp add: flags_only_iff)

lemma rc_drop: "rc w = unat (drop_bit 8 w)"
proof -
  have "take_bit 32 (unat w) = unat w"
    by (rule take_bit_nat_eq_self) (use unat_bounds [of w] in simp)
  then show ?thesis unfolding rc_def unsigned_drop_bit_eq by (simp add: drop_bit_eq_div)
qed

lemma div_256: "n div 256 = n div 2 div (128 :: nat)"
  by (simp add: div_mult2_eq [symmetric])

lemma word_bit_bound: "bit (w :: u32) n \<Longrightarrow> n < 32"
  using bit_imp_le_length [of w n] by simp

lemma u32_eq_iff: "v = w \<longleftrightarrow> (\<forall>n<32. bit v n = bit (w :: u32) n)"
  by (auto intro!: bit_eqI dest: word_bit_bound)

lemma rc_cong: "(\<And>n. 8 \<le> n \<Longrightarrow> bit w n = bit v n) \<Longrightarrow> rc w = rc v"
  unfolding rc_drop by (rule arg_cong [where f = unat]) (rule bit_eqI, simp add: bit_simps)

lemma wl_odd: "wl w \<longleftrightarrow> odd (unat w)"
  unfolding wl_def bit_0 [symmetric] by (simp add: bit_unsigned_iff del: bit_0)

lemma sl_odd: "sl w \<longleftrightarrow> odd (unat w div 2)"
proof -
  have "bit (unat w) 1 = odd (unat w div 2)" by (simp add: bit_iff_odd)
  moreover have "bit (unat w) 1 = bit w 1" by (simp add: bit_unsigned_iff)
  ultimately show ?thesis by (simp add: sl_def)
qed

text \<open>Setting and clearing flags.\<close>

lemma flags_or:
  assumes "flags_only v"
  shows "wl (w OR v) = wl w" "sl (w OR v) = sl w" "rc (w OR v) = rc w"
  using flags_bit [OF assms] by (fastforce simp: wl_def sl_def bit_simps intro!: rc_cong)+

lemma flags_and_not:
  assumes "flags_only v"
  shows "wl (w AND NOT v) = wl w" "sl (w AND NOT v) = sl w" "rc (w AND NOT v) = rc w"
  using flags_bit [OF assms] by (fastforce simp: wl_def sl_def bit_simps intro!: rc_cong dest: word_bit_bound)+

lemma flags_only_or [simp]: "flags_only (u OR v) \<longleftrightarrow> flags_only u \<and> flags_only v"
  by (auto simp: flags_only_iff bit_or_iff)

lemma flags_only_and [simp]: "flags_only u \<Longrightarrow> flags_only (u AND v)"
  by (auto simp: flags_only_iff bit_and_iff)

lemma flags_only_num [simp]:
  "flags_only 0" "flags_only MU_WAITING" "flags_only MU_DESIG_WAKER" "flags_only MU_CONDITION"
  "flags_only MU_WRITER_WAITING" "flags_only MU_LONG_WAIT" "flags_only MU_ALL_FALSE"
  by (simp_all add: flags_only_def)

text \<open>The spinlock bit.\<close>

lemma spin_or:
  "wl (w OR MU_SPINLOCK) = wl w" "sl (w OR MU_SPINLOCK)" "rc (w OR MU_SPINLOCK) = rc w"
  by (auto simp: wl_def sl_def bit_simps intro!: rc_cong)

lemma spin_and_not:
  "wl (w AND NOT MU_SPINLOCK) = wl w" "\<not> sl (w AND NOT MU_SPINLOCK)" "rc (w AND NOT MU_SPINLOCK) = rc w"
  by (auto simp: wl_def sl_def bit_simps intro!: rc_cong dest: word_bit_bound)

text \<open>Adding and subtracting locks.\<close>

lemma add_wlock:
  assumes "\<not> wl w"
  shows "wl (w + MU_WLOCK)" "sl (w + MU_WLOCK) = sl w" "rc (w + MU_WLOCK) = rc w"
proof -
  have e: "even (unat w)" using assms by (simp add: wl_odd)
  then have "unat w + 1 < 4294967296" using unat_bounds [of w] by presburger
  then have u: "unat (w + 1) = unat w + 1"
    by (subst unat_add_lem [THEN iffD1]) simp_all
  show "wl (w + MU_WLOCK)" using e by (simp add: wl_odd u)
  show "sl (w + MU_WLOCK) = sl w" using e by (simp add: sl_odd u)
  show "rc (w + MU_WLOCK) = rc w" using e by (simp add: rc_def u div_256)
qed

lemma sub_wlock:
  assumes "wl w"
  shows "\<not> wl (w - MU_WLOCK)" "sl (w - MU_WLOCK) = sl w" "rc (w - MU_WLOCK) = rc w"
proof -
  have o: "odd (unat w)" using assms by (simp add: wl_odd)
  then have "1 \<le> w" by (auto simp: word_le_nat_alt intro: Suc_leI odd_pos)
  then have u: "unat (w - 1) = unat w - 1" by (simp add: unat_sub)
  show "\<not> wl (w - MU_WLOCK)" using o by (simp add: wl_odd u)
  show "sl (w - MU_WLOCK) = sl w" using o unfolding sl_odd u by presburger
  have "(unat w - 1) div 2 = unat w div 2" using o by presburger
  then show "rc (w - MU_WLOCK) = rc w" by (simp add: rc_def u div_256)
qed

lemma add_rlock:
  assumes "rc w + 1 < 2 ^ 24"
  shows "wl (w + MU_RLOCK) = wl w" "sl (w + MU_RLOCK) = sl w" "rc (w + MU_RLOCK) = rc w + 1"
proof -
  have "unat w + 256 < 4294967296" using assms unfolding rc_def by simp
  then have u: "unat (w + 256) = unat w + 256"
    by (subst unat_add_lem [THEN iffD1]) simp_all
  show "wl (w + MU_RLOCK) = wl w" by (simp add: wl_odd u)
  show "sl (w + MU_RLOCK) = sl w" unfolding sl_odd u by presburger
  show "rc (w + MU_RLOCK) = rc w + 1" by (simp add: rc_def u)
qed

lemma sub_rlock:
  assumes "0 < rc w"
  shows "wl (w - MU_RLOCK) = wl w" "sl (w - MU_RLOCK) = sl w" "rc (w - MU_RLOCK) = rc w - 1"
proof -
  have g: "256 \<le> unat w" using assms unfolding rc_def by simp
  then have "256 \<le> w" by (simp add: word_le_nat_alt)
  then have u: "unat (w - 256) = unat w - 256" by (simp add: unat_sub)
  show "wl (w - MU_RLOCK) = wl w" using g by (simp add: wl_odd u)
  show "sl (w - MU_RLOCK) = sl w" using g unfolding sl_odd u by presburger
  show "rc (w - MU_RLOCK) = rc w - 1" using g by (simp add: rc_def u le_div_geq)
qed

text \<open>Tests of the word.\<close>

lemma rc_zero_iff: "rc w = 0 \<longleftrightarrow> (\<forall>n\<ge>8. \<not> bit w n)"
proof -
  have "rc w = 0 \<longleftrightarrow> drop_bit 8 w = 0" by (simp add: rc_drop unat_eq_0)
  also have "\<dots> \<longleftrightarrow> (\<forall>n. \<not> bit w (8 + n))" 
  proof
    show "\<forall>n. \<not> bit w (8 + n)" if "drop_bit 8 w = 0"
      using that by (metis bit_0_eq bit_drop_bit_eq bot_apply bot_bool_def comp_apply)
    show "drop_bit 8 w = 0" if "\<forall>n. \<not> bit w (8 + n)"
      using that by (intro bit_eqI) (simp add: bit_drop_bit_eq)
  qed
  also have "\<dots> \<longleftrightarrow> (\<forall>n\<ge>8. \<not> bit w n)" by (metis le_add1 le_Suc_ex)
  finally show ?thesis .
qed

lemma bit_rlock_field: "n < 32 \<Longrightarrow> bit MU_RLOCK_FIELD n \<longleftrightarrow> 8 \<le> n"
proof -
  assume b: "n < 32"
  have "list_all (\<lambda>n. bit MU_RLOCK_FIELD n \<longleftrightarrow> 8 \<le> n) [0..<32]" by code_simp
  then show ?thesis using b by (auto simp: list_all_iff)
qed

lemma and_wlock: "w AND MU_WLOCK = 0 \<longleftrightarrow> \<not> wl w"
  unfolding wl_def u32_eq_iff bit_and_iff bit_1_iff by (metis bit_0_eq bot_apply bot_bool_def not_numeral_le_zero linorder_not_le)

lemma and_spinlock: "w AND MU_SPINLOCK = 0 \<longleftrightarrow> \<not> sl w"
proof -
  have "w AND MU_SPINLOCK = 0 \<longleftrightarrow> (\<forall>n<32. \<not> (bit w n \<and> n = 1))"
    unfolding u32_eq_iff bit_and_iff bit_2_iff by simp
  also have "\<dots> \<longleftrightarrow> \<not> bit w 1" using word_bit_bound [of w 1] by blast
  finally show ?thesis by (simp add: sl_def)
qed

lemma and_rlock_field: "w AND MU_RLOCK_FIELD = 0 \<longleftrightarrow> rc w = 0"
proof -
  have "w AND MU_RLOCK_FIELD = 0 \<longleftrightarrow> (\<forall>n<32. \<not> (bit w n \<and> bit MU_RLOCK_FIELD n))"
    unfolding bit_eq_iff bit_and_iff by (auto dest: word_bit_bound)
  also have "\<dots> \<longleftrightarrow> (\<forall>n<32. \<not> (bit w n \<and> 8 \<le> n))"
    using bit_rlock_field by blast
  also have "\<dots> \<longleftrightarrow> rc w = 0"
    using word_bit_bound unfolding rc_zero_iff by blast
  finally show ?thesis .
qed

lemma and_or_zero: "w AND (u OR v) = 0 \<longleftrightarrow> w AND u = 0 \<and> w AND (v :: u32) = 0"
  by (auto simp: bit_eq_iff bit_and_iff bit_or_iff)

lemma and_any_lock: "w AND MU_ANY_LOCK = 0 \<longleftrightarrow> \<not> wl w \<and> rc w = 0"
  using and_or_zero [of w MU_WLOCK MU_RLOCK_FIELD] and_wlock and_rlock_field by metis

lemma and_not_zero_test:
  assumes "w AND (z AND NOT v) = 0" and "flags_only v"
  shows "wl z \<Longrightarrow> \<not> wl w" and "(\<And>n. 8 \<le> n \<Longrightarrow> n < 32 \<Longrightarrow> bit z n) \<Longrightarrow> rc w = 0"
proof -
  have b: "\<not> (bit w n \<and> bit z n)" if "n < 2 \<or> 8 \<le> n" "n < 32" for n
  proof -
    have "\<not> bit (w AND (z AND NOT v)) n" using assms(1) by simp
    moreover have "\<not> bit v n" using flags_bit [OF assms(2), of n] that by auto
    ultimately show ?thesis using that(2) by (auto simp: bit_and_iff bit_not_iff)
  qed
  show "\<not> wl w" if "wl z" using b [of 0] that by (auto simp: wl_def)
  show "rc w = 0" if "\<And>n. 8 \<le> n \<Longrightarrow> n < 32 \<Longrightarrow> bit z n"
    using b that word_bit_bound unfolding rc_zero_iff by blast
qed

lemma rlock_field_gt: "w AND MU_RLOCK_FIELD > MU_RLOCK \<longleftrightarrow> 1 < rc w"
proof -
  have "w AND MU_RLOCK_FIELD = push_bit 8 (drop_bit 8 w)"
    unfolding u32_eq_iff bit_and_iff bit_push_bit_iff bit_drop_bit_eq
    using bit_rlock_field by force
  also have "unat \<dots> = 256 * rc w"
  proof -
    have "unat (drop_bit 8 w) < 2 ^ 24" using unat_bounds [of w] unfolding rc_drop [symmetric] rc_def by simp
    then have "unat (drop_bit 8 w) * 256 < 2 ^ 32" by simp
    then show ?thesis
      unfolding rc_drop unsigned_push_bit_eq by (simp add: push_bit_eq_mult take_bit_nat_eq_self mult.commute)
  qed
  finally have "unat (w AND MU_RLOCK_FIELD) = 256 * rc w" .
  then show ?thesis unfolding word_less_nat_alt by simp
qed

lemma word_fields [simp]:
  "\<not> wl 0" "\<not> sl 0" "rc 0 = 0" "wl MU_WLOCK" "\<not> sl MU_WLOCK" "rc MU_WLOCK = 0"
  "\<not> wl MU_RLOCK" "\<not> sl MU_RLOCK" "rc MU_RLOCK = 1"
  by (simp_all add: wl_odd sl_odd rc_def)

text \<open>The fields of combined words.\<close>

lemma wl_bits: "wl (a OR b) \<longleftrightarrow> wl a \<or> wl b" "wl (a AND b) \<longleftrightarrow> wl a \<and> wl b" "wl (NOT a) \<longleftrightarrow> \<not> wl a"
  by (simp_all add: wl_def bit_simps)

lemma sl_bits: "sl (a OR b) \<longleftrightarrow> sl a \<or> sl b" "sl (a AND b) \<longleftrightarrow> sl a \<and> sl b" "sl (NOT a) \<longleftrightarrow> \<not> sl a"
  by (simp_all add: sl_def bit_simps)

lemma rc_or: "rc b = 0 \<Longrightarrow> rc (a OR b) = rc a"
  by (rule rc_cong) (auto simp: rc_zero_iff bit_or_iff)

lemma rc_and_not: "rc b = 0 \<Longrightarrow> rc (a AND NOT b) = rc a"
  by (rule rc_cong) (auto simp: rc_zero_iff bit_and_iff bit_not_iff dest: word_bit_bound)

lemma rc_or_zero: "rc (a OR b) = 0 \<longleftrightarrow> rc a = 0 \<and> rc b = 0"
  by (auto simp: rc_zero_iff bit_or_iff)

lemma flags_fields: "flags_only v \<Longrightarrow> \<not> wl v" "flags_only v \<Longrightarrow> \<not> sl v" "flags_only v \<Longrightarrow> rc v = 0"
  using flags_bit [of v] by (fastforce simp: wl_def sl_def rc_zero_iff)+

lemma numeral_fields:
  "wl (numeral k) \<longleftrightarrow> odd (unat (numeral k :: u32))" "sl (numeral k) \<longleftrightarrow> odd (unat (numeral k :: u32) div 2)"
  "rc (numeral k) = unat (numeral k :: u32) div 256"
  by (simp_all only: wl_odd sl_odd rc_def)

lemmas word_field_simps = wl_bits sl_bits rc_or rc_and_not rc_or_zero flags_fields numeral_fields

end
