(* ===== verification/Nsync_Mu.thy ===== *)
theory Nsync_Mu
  imports Nsync_Word
begin

text \<open>
  \<open>nsync/internal/mu.c\<close> and \<open>mu_wait.c\<close>: the reader-writer mutex with conditional waits. A thread
  takes one step per atomic operation on the word, and one per operation on the queue of waiters,
  which is only touched under the spinlock or by the thread that has taken the whole queue. Threads
  are numbers; a thread waits with its own waiter, so waiters are named by threads as well. The queues
  are sequences of waiters, which \<open>Nsync_Dll\<close> shows the circular lists to implement; the links of the
  \<open>same_condition\<close> rings are the pointers of the code. The outcome of evaluating a condition and of a
  wait with a deadline is chosen freely in every step.
\<close>

section \<open>Shared state and program counters\<close>

type_synonym thread = nat

datatype mu_mode = Writer | Reader

fun l_type_of :: "mu_mode \<Rightarrow> lock_type" where
  "l_type_of Writer = nsync_writer_type"
| "l_type_of Reader = nsync_reader_type"

text \<open>A condition: its function, the argument, and the optional comparison of arguments.\<close>

record wait_condition_s =
  wc_f :: nat
  wc_v :: nat
  wc_eq :: "(nat \<Rightarrow> nat \<Rightarrow> bool) option"

definition no_condition :: wait_condition_s where
  "no_condition = \<lparr>wc_f = 0, wc_v = 0, wc_eq = None\<rparr>"

definition WAIT_CONDITION_EQ :: "wait_condition_s \<Rightarrow> wait_condition_s \<Rightarrow> bool" where
  "WAIT_CONDITION_EQ a b \<longleftrightarrow>
     wc_f a \<noteq> 0 \<and> wc_f a = wc_f b \<and>
     (wc_v a = wc_v b \<or> (case wc_eq a of None \<Rightarrow> False | Some eq \<Rightarrow> eq (wc_v a) (wc_v b)))"

record mu_shared =
  word' :: u32
  waiters :: "thread list"
  waiting :: "thread \<Rightarrow> bool"
  semaphore :: "thread \<Rightarrow> nat"
  w_l_type :: "thread \<Rightarrow> mu_mode"
  w_cond :: "thread \<Rightarrow> wait_condition_s"
  remove_count :: "thread \<Rightarrow> u32"
  same_next :: "thread \<Rightarrow> thread"
  same_prev :: "thread \<Rightarrow> thread"

text \<open>The local variables of \<open>nsync_mu_wait_with_deadline\<close>; \<open>mw_timed\<close> tells it from \<open>nsync_mu_wait\<close>.\<close>

record mw_locals =
  mw_mode :: mu_mode
  mw_cond :: wait_condition_s
  mw_timed :: bool
  mw_first_wait :: bool
  mw_outcome :: nat
  mw_remove_count :: u32
  mw_had_waiters :: bool
  mw_sem_outcome :: nat
  mw_have_lock :: bool

text \<open>Where the slow paths return to.\<close>

datatype mu_return = To_Client | To_Wait mw_locals

record slow_locals =
  s_mode :: mu_mode
  s_clear :: u32
  s_zero :: u32
  s_wait_count :: u32
  s_long_wait :: u32

record scan_locals =
  u_testing :: bool
  u_late_release :: u32
  u_waiters :: "thread list"
  u_new_waiters :: "thread list"
  u_wake :: "thread list"
  u_wake_type :: "mu_mode option"
  u_clear_on_release :: u32
  u_set_on_release :: u32
  u_p :: "thread option"

datatype lock_pc = L_First | L_Load | L_Cas u32

datatype slow_pc = S_Load | S_Acquire u32 | S_Spin u32 | S_Queue | S_Rel_Load | S_Rel_Cas u32 | S_Wait | S_Sem

datatype unlock_pc = U_First | U_Load | U_Cas u32 u32

datatype release_pc = R_Load | R_Cas u32 | R_Acquire u32

datatype scan_pc = N_Take | N_Head | N_Unspin_Load | N_Unspin_Cas u32 | N_Scan | N_Respin_Load | N_Respin_Cas u32 |
  N_Merge | N_Final_Load | N_Final_Cas u32 | N_Panic

datatype wait_pc = W_Load | W_Eval | W_Prepare | W_Spin_Load | W_Spin_Cas u32 | W_Queue | W_Rel_Load |
  W_Rel_Cas u32 u32 | W_Wait | W_Sem | W_Check | T_Load | T_Test u32 | T_Writer u32 | T_Confirm u32 |
  T_Keep u32 | T_Back u32

datatype unlock_kind = Unlock | Unlock_Without_Wakeup | Runlock

datatype mu_pc =
    Idle
  | Held mu_mode nat
  | Locking mu_mode lock_pc
  | Trying mu_mode lock_pc
  | Slow slow_locals mu_return slow_pc
  | Unlocking unlock_kind unlock_pc
  | Releasing mu_mode mu_return release_pc
  | Scanning mu_mode mu_return scan_locals scan_pc
  | Waking mu_return "thread list"
  | Posting mu_return "thread list" thread
  | Waiting mw_locals wait_pc
  | Panicked

section \<open>Queues and rings of equal conditions\<close>

text \<open>The neighbours in a sequence, as \<open>nsync_dll_next_\<close> and the links of the circular list give them.\<close>

definition seq_next :: "thread list \<Rightarrow> thread \<Rightarrow> thread option" where
  "seq_next xs e = (case dropWhile (\<lambda>x. x \<noteq> e) xs of _ # y # _ \<Rightarrow> Some y | _ \<Rightarrow> None)"

definition seq_first :: "thread list \<Rightarrow> thread option" where
  "seq_first xs = (case xs of [] \<Rightarrow> None | x # _ \<Rightarrow> Some x)"

definition seq_last :: "thread list \<Rightarrow> thread option" where
  "seq_last xs = (if xs = [] then None else Some (last xs))"

definition circ_next :: "thread list \<Rightarrow> thread \<Rightarrow> thread" where
  "circ_next xs e = (case seq_next xs e of None \<Rightarrow> hd xs | Some y \<Rightarrow> y)"

definition circ_prev :: "thread list \<Rightarrow> thread \<Rightarrow> thread" where
  "circ_prev xs e = (case takeWhile (\<lambda>x. x \<noteq> e) xs of [] \<Rightarrow> last xs | ys \<Rightarrow> last ys)"

definition skip_past_same_condition :: "mu_shared \<Rightarrow> thread list \<Rightarrow> thread \<Rightarrow> thread option" where
  "skip_past_same_condition s waiter_list p =
     (let last_with_same_condition = same_prev s p
      in if last_with_same_condition \<noteq> p \<and> last_with_same_condition \<noteq> circ_prev waiter_list p
         then seq_next waiter_list last_with_same_condition
         else seq_next waiter_list p)"

definition splice_same :: "mu_shared \<Rightarrow> thread \<Rightarrow> thread \<Rightarrow> mu_shared" where
  "splice_same s p n =
     (let p_2nd = same_next s p; n_last = same_prev s n
      in s\<lparr>same_next := (same_next s)(p := n, n_last := p_2nd), same_prev := (same_prev s)(n := p, p_2nd := n_last)\<rparr>)"

definition nsync_maybe_merge_conditions :: "mu_shared \<Rightarrow> thread option \<Rightarrow> thread option \<Rightarrow> mu_shared" where
  "nsync_maybe_merge_conditions s p n =
     (case (p, n) of
        (Some p, Some n) \<Rightarrow> if WAIT_CONDITION_EQ (w_cond s p) (w_cond s n) then splice_same s p n else s
      | _ \<Rightarrow> s)"

definition unlink_same :: "mu_shared \<Rightarrow> thread \<Rightarrow> mu_shared" where
  "unlink_same s e =
     (let n = same_next s e; p = same_prev s e
      in s\<lparr>same_next := (same_next s)(p := n, e := e), same_prev := (same_prev s)(n := p, e := e)\<rparr>)"

definition nsync_remove_from_mu_queue :: "mu_shared \<Rightarrow> thread list \<Rightarrow> thread \<Rightarrow> mu_shared \<times> thread list" where
  "nsync_remove_from_mu_queue s mu_queue e =
     (let prev = circ_prev mu_queue e;
          next' = circ_next mu_queue e;
          mu_queue = remove1 e mu_queue;
          s = s\<lparr>remove_count := (remove_count s)(e := remove_count s e + 1)\<rparr>
      in if mu_queue \<noteq> [] then
           (if same_next s e \<noteq> e then (unlink_same s e, mu_queue)
            else if prev \<noteq> last mu_queue then (nsync_maybe_merge_conditions s (Some prev) (Some next'), mu_queue)
            else (s, mu_queue))
         else (s, mu_queue))"

section \<open>Acquiring\<close>

text \<open>\<open>ATM_CAS\<close> on the word.\<close>

definition cas :: "mu_shared \<Rightarrow> u32 \<Rightarrow> u32 \<Rightarrow> 'a \<Rightarrow> 'a \<Rightarrow> mu_shared \<times> 'a" where
  "cas s old new succ fail = (if word' s = old then (s\<lparr>word' := new\<rparr>, succ) else (s, fail))"

definition nsync_mu_init :: "mu_shared \<Rightarrow> mu_shared" where
  "nsync_mu_init s = s\<lparr>word' := 0, waiters := []\<rparr>"

text \<open>The entry of \<open>nsync_mu_lock_slow_\<close> up to its loop.\<close>

definition enter_slow :: "mu_shared \<Rightarrow> thread \<Rightarrow> u32 \<Rightarrow> mu_mode \<Rightarrow> mu_return \<Rightarrow> mu_shared \<times> mu_pc" where
  "enter_slow s t clear m r =
     (let zero = zero_to_acquire (l_type_of m)
      in (s\<lparr>w_cond := (w_cond s)(t := no_condition), w_l_type := (w_l_type s)(t := m)\<rparr>,
          Slow \<lparr>s_mode = m, s_clear = clear,
                s_zero = (if clear \<noteq> 0 then zero AND NOT (MU_WRITER_WAITING OR MU_LONG_WAIT) else zero),
                s_wait_count = 0, s_long_wait = 0\<rparr> r S_Load))"

text \<open>What a return from the slow lock continues with.\<close>

fun lock_returns :: "mu_mode \<Rightarrow> mu_return \<Rightarrow> mu_pc" where
  "lock_returns m To_Client = Held m 0"
| "lock_returns m (To_Wait l) = Waiting l W_Eval"

definition LONG_WAIT_THRESHOLD :: u32 where "LONG_WAIT_THRESHOLD = 30"

fun lock_slow_step :: "mu_shared \<Rightarrow> thread \<Rightarrow> slow_locals \<Rightarrow> mu_return \<Rightarrow> slow_pc \<Rightarrow> mu_shared \<times> mu_pc" where
  "lock_slow_step s t l r S_Load =
     (let old_word = word' s
      in (s, if old_word AND s_zero l = 0 then Slow l r (S_Acquire old_word)
             else if old_word AND MU_SPINLOCK = 0 then Slow l r (S_Spin old_word)
             else Slow l r S_Load))"
| "lock_slow_step s t l r (S_Acquire old_word) =
     cas s old_word
       ((old_word + add_to_acquire (l_type_of (s_mode l)))
         AND NOT (s_clear l OR s_long_wait l OR clear_on_acquire (l_type_of (s_mode l))))
       (lock_returns (s_mode l) r) (Slow l r S_Load)"
| "lock_slow_step s t l r (S_Spin old_word) =
     cas s old_word
       ((old_word OR MU_SPINLOCK OR s_long_wait l OR set_when_waiting (l_type_of (s_mode l)))
         AND NOT (s_clear l OR MU_ALL_FALSE))
       (Slow l r S_Queue) (Slow l r S_Load)"
| "lock_slow_step s t l r S_Queue =
     (s\<lparr>waiting := (waiting s)(t := True),
        waiters := (if s_wait_count l = 0 then waiters s @ [t] else t # waiters s)\<rparr>,
      Slow l r S_Rel_Load)"
| "lock_slow_step s t l r S_Rel_Load = (s, Slow l r (S_Rel_Cas (word' s)))"
| "lock_slow_step s t l r (S_Rel_Cas old_word) =
     cas s old_word (old_word AND NOT MU_SPINLOCK) (Slow l r S_Wait) (Slow l r S_Rel_Load)"
| "lock_slow_step s t l r S_Wait =
     (if waiting s t then (s, Slow l r S_Sem)
      else let wait_count = s_wait_count l + 1
           in (s, Slow (l\<lparr>s_wait_count := wait_count,
                          s_long_wait := (if wait_count = LONG_WAIT_THRESHOLD then MU_LONG_WAIT else s_long_wait l),
                          s_clear := MU_DESIG_WAKER,
                          s_zero := s_zero l AND NOT (MU_WRITER_WAITING OR MU_LONG_WAIT)\<rparr>) r S_Load))"
| "lock_slow_step s t l r S_Sem =
     (if semaphore s t > 0 then (s\<lparr>semaphore := (semaphore s)(t := semaphore s t - 1)\<rparr>, Slow l r S_Wait)
      else (s, Slow l r S_Sem))"

text \<open>\<open>nsync_mu_lock\<close> and \<open>nsync_mu_rlock\<close>.\<close>

fun lock_step :: "mu_shared \<Rightarrow> thread \<Rightarrow> mu_mode \<Rightarrow> lock_pc \<Rightarrow> mu_shared \<times> mu_pc" where
  "lock_step s t m L_First = cas s 0 (add_to_acquire (l_type_of m)) (Held m 0) (Locking m L_Load)"
| "lock_step s t m L_Load =
     (if word' s AND zero_to_acquire (l_type_of m) \<noteq> 0 then enter_slow s t 0 m To_Client
      else (s, Locking m (L_Cas (word' s))))"
| "lock_step s t m (L_Cas old_word) =
     (if word' s = old_word
      then (s\<lparr>word' := (old_word + add_to_acquire (l_type_of m)) AND NOT (clear_on_acquire (l_type_of m))\<rparr>, Held m 0)
      else enter_slow s t 0 m To_Client)"

text \<open>\<open>nsync_mu_trylock\<close> and \<open>nsync_mu_rtrylock\<close>; a failed attempt returns 0.\<close>

fun trylock_step :: "mu_shared \<Rightarrow> mu_mode \<Rightarrow> lock_pc \<Rightarrow> mu_shared \<times> mu_pc" where
  "trylock_step s m L_First = cas s 0 (add_to_acquire (l_type_of m)) (Held m 0) (Trying m L_Load)"
| "trylock_step s m L_Load =
     (s, if word' s AND zero_to_acquire (l_type_of m) = 0 then Trying m (L_Cas (word' s)) else Idle)"
| "trylock_step s m (L_Cas old_word) =
     cas s old_word ((old_word + add_to_acquire (l_type_of m)) AND NOT (clear_on_acquire (l_type_of m))) (Held m 0) Idle"

section \<open>Releasing\<close>

fun unlock_returns :: "mu_return \<Rightarrow> mu_pc" where
  "unlock_returns To_Client = Idle"
| "unlock_returns (To_Wait l) = Waiting (l\<lparr>mw_sem_outcome := 0, mw_have_lock := False\<rparr>) W_Wait"

text \<open>\<open>nsync_mu_unlock_slow_\<close> up to the point where the spinlock is held.\<close>

fun release_step :: "mu_shared \<Rightarrow> mu_mode \<Rightarrow> mu_return \<Rightarrow> release_pc \<Rightarrow> mu_shared \<times> mu_pc" where
  "release_step s m r R_Load =
     (let old_word = word' s
      in (s, if old_word AND MU_WAITING = 0 \<or> old_word AND MU_DESIG_WAKER \<noteq> 0 \<or>
                old_word AND MU_RLOCK_FIELD > MU_RLOCK \<or>
                old_word AND (MU_RLOCK OR MU_ALL_FALSE) = MU_RLOCK OR MU_ALL_FALSE
             then Releasing m r (R_Cas old_word)
             else if old_word AND MU_SPINLOCK = 0 then Releasing m r (R_Acquire old_word)
             else Releasing m r R_Load))"
| "release_step s m r (R_Cas old_word) =
     cas s old_word
       ((old_word - add_to_acquire (l_type_of m)) AND NOT (clear_on_uncontended_release (l_type_of m)))
       (unlock_returns r) (Releasing m r R_Load)"
| "release_step s m r (R_Acquire old_word) =
     (let testing = old_word AND MU_CONDITION \<noteq> 0;
          early_release_mu = (if testing then add_to_acquire (l_type_of m) - MU_WLOCK else add_to_acquire (l_type_of m));
          late_release_mu = (if testing then MU_WLOCK else 0)
      in cas s old_word ((old_word - early_release_mu) OR MU_SPINLOCK OR MU_DESIG_WAKER)
           (Scanning m r \<lparr>u_testing = testing, u_late_release = late_release_mu, u_waiters = [], u_new_waiters = [],
                          u_wake = [], u_wake_type = None, u_clear_on_release = MU_SPINLOCK,
                          u_set_on_release = MU_ALL_FALSE, u_p = None\<rparr> N_Take)
           (Releasing m r R_Load))"

text \<open>Whether the conditions of the next batch of waiters, the first of which is \<open>p\<close>, are to be tested.\<close>

definition go_on_testing :: "mu_shared \<Rightarrow> scan_locals \<Rightarrow> thread \<Rightarrow> bool" where
  "go_on_testing s u p \<longleftrightarrow>
     u_testing u \<and> u_wake_type u \<noteq> Some Writer \<and>
     \<not> (u_wake_type u = None \<and> w_l_type s p \<noteq> Reader \<and> wc_f (w_cond s p) = 0)"

text \<open>One iteration of the loop over the waiters; \<open>c\<close> is the value of the condition of \<open>p\<close>.\<close>

definition scan_waiter :: "bool \<Rightarrow> mu_shared \<Rightarrow> scan_locals \<Rightarrow> thread \<Rightarrow> mu_shared \<times> scan_locals" where
  "scan_waiter c s u p =
     (let next' = seq_next (u_new_waiters u) p;
          p_has_condition = (wc_f (w_cond s p) \<noteq> 0)
      in if p_has_condition \<and> \<not> c then
           (s, u\<lparr>u_p := skip_past_same_condition s (u_new_waiters u) p\<rparr>)
         else if u_wake_type u = None \<or> w_l_type s p = Reader then
           (let (s', new_waiters) = nsync_remove_from_mu_queue s (u_new_waiters u) p
            in (s', u\<lparr>u_new_waiters := new_waiters, u_wake := u_wake u @ [p], u_wake_type := Some (w_l_type s p),
                      u_p := next'\<rparr>))
         else
           (s, u\<lparr>u_set_on_release := (u_set_on_release u OR MU_WRITER_WAITING) AND NOT MU_ALL_FALSE, u_p := next'\<rparr>))"

text \<open>The bits to clear when the scan ends and \<open>waiters\<close> are left.\<close>

definition final_clear :: "scan_locals \<Rightarrow> u32" where
  "final_clear u =
     (let clear = u_clear_on_release u;
          clear = (if u_wake u = [] then clear OR MU_DESIG_WAKER else clear);
          clear = (if u_set_on_release u AND MU_ALL_FALSE = 0 then clear OR MU_ALL_FALSE else clear)
      in if u_waiters u = [] then clear OR (MU_WAITING OR MU_WRITER_WAITING OR MU_CONDITION OR MU_ALL_FALSE)
         else clear)"

fun scan_step :: "bool \<Rightarrow> mu_shared \<Rightarrow> mu_mode \<Rightarrow> mu_return \<Rightarrow> scan_locals \<Rightarrow> scan_pc \<Rightarrow> mu_shared \<times> mu_pc" where
  "scan_step c s m r u N_Take = (s\<lparr>waiters := []\<rparr>, Scanning m r (u\<lparr>u_new_waiters := waiters s\<rparr>) N_Head)"
| "scan_step c s m r u N_Head =
     (case seq_first (u_new_waiters u) of
        None \<Rightarrow> (s\<lparr>waiters := u_waiters u\<rparr>, Scanning m r (u\<lparr>u_clear_on_release := final_clear u\<rparr>) N_Final_Load)
      | Some p \<Rightarrow>
          (let testing = go_on_testing s u p
           in (s, Scanning m r (u\<lparr>u_p := Some p, u_testing := testing\<rparr>) (if testing then N_Unspin_Load else N_Scan))))"
| "scan_step c s m r u N_Unspin_Load = (s, Scanning m r u (N_Unspin_Cas (word' s)))"
| "scan_step c s m r u (N_Unspin_Cas old_word) =
     cas s old_word (old_word AND NOT MU_SPINLOCK) (Scanning m r u N_Scan) (Scanning m r u N_Unspin_Load)"
| "scan_step c s m r u N_Scan =
     (case u_p u of
        Some p \<Rightarrow>
          if u_wake_type u \<noteq> Some Writer then
            (if wc_f (w_cond s p) \<noteq> 0 \<and> \<not> u_testing u then (s, Scanning m r u N_Panic)
             else let (s', u') = scan_waiter c s u p in (s', Scanning m r u' N_Scan))
          else (s, Scanning m r (u\<lparr>u_set_on_release := u_set_on_release u AND NOT MU_ALL_FALSE\<rparr>)
                     (if u_testing u then N_Respin_Load else N_Merge))
      | None \<Rightarrow> (s, Scanning m r u (if u_testing u then N_Respin_Load else N_Merge)))"
| "scan_step c s m r u N_Respin_Load =
     (s, Scanning m r u (if word' s AND MU_SPINLOCK \<noteq> 0 then N_Respin_Load else N_Respin_Cas (word' s)))"
| "scan_step c s m r u (N_Respin_Cas old_word) =
     cas s old_word (old_word OR MU_SPINLOCK) (Scanning m r u N_Merge) (Scanning m r u N_Respin_Load)"
| "scan_step c s m r u N_Merge =
     (let s' = nsync_maybe_merge_conditions s (seq_last (u_waiters u)) (seq_first (u_new_waiters u))
      in (s'\<lparr>waiters := []\<rparr>,
          Scanning m r (u\<lparr>u_waiters := u_waiters u @ u_new_waiters u, u_new_waiters := waiters s\<rparr>) N_Head))"
| "scan_step c s m r u N_Final_Load = (s, Scanning m r u (N_Final_Cas (word' s)))"
| "scan_step c s m r u (N_Final_Cas old_word) =
     cas s old_word (((old_word - u_late_release u) OR u_set_on_release u) AND NOT (u_clear_on_release u))
       (Waking r (u_wake u)) (Scanning m r u N_Final_Load)"
| "scan_step c s m r u N_Panic = (s, Scanning m r u N_Panic)"

text \<open>The loop that wakes the waiters.\<close>

fun wake_step :: "mu_shared \<Rightarrow> mu_return \<Rightarrow> thread list \<Rightarrow> mu_shared \<times> mu_pc" where
  "wake_step s r [] = (s, unlock_returns r)"
| "wake_step s r (p # wake) = (s\<lparr>waiting := (waiting s)(p := False)\<rparr>, Posting r wake p)"

definition post_step :: "mu_shared \<Rightarrow> mu_return \<Rightarrow> thread list \<Rightarrow> thread \<Rightarrow> mu_shared \<times> mu_pc" where
  "post_step s r wake p = (s\<lparr>semaphore := (semaphore s)(p := semaphore s p + 1)\<rparr>, Waking r wake)"

text \<open>\<open>nsync_mu_unlock\<close>, \<open>nsync_mu_unlock_without_wakeup\<close> and \<open>nsync_mu_runlock\<close>.\<close>

definition unlock_load :: "u32 \<Rightarrow> mu_pc" where
  "unlock_load old_word =
     (let new_word = (old_word - MU_WLOCK) AND NOT MU_ALL_FALSE
      in if new_word AND (MU_RLOCK_FIELD OR MU_WLOCK) \<noteq> 0 then Panicked
         else if old_word AND (MU_WAITING OR MU_DESIG_WAKER) = MU_WAITING then Releasing Writer To_Client R_Load
         else Unlocking Unlock (U_Cas old_word new_word))"

definition unlock_without_wakeup_load :: "u32 \<Rightarrow> mu_pc" where
  "unlock_without_wakeup_load old_word =
     (let new_word = old_word - MU_WLOCK
      in if new_word AND (MU_RLOCK_FIELD OR MU_WLOCK) \<noteq> 0 then Panicked
         else if old_word AND (MU_WAITING OR MU_DESIG_WAKER OR MU_ALL_FALSE) = MU_WAITING
              then Releasing Writer To_Client R_Load
         else Unlocking Unlock_Without_Wakeup (U_Cas old_word new_word))"

definition runlock_load :: "u32 \<Rightarrow> mu_pc" where
  "runlock_load old_word =
     (if (old_word XOR MU_WLOCK) AND (MU_WLOCK OR MU_RLOCK_FIELD) = 0 then Panicked
      else if old_word AND (MU_WAITING OR MU_DESIG_WAKER) = MU_WAITING \<and>
              old_word AND (MU_RLOCK_FIELD OR MU_ALL_FALSE) = MU_RLOCK then Releasing Reader To_Client R_Load
      else Unlocking Runlock (U_Cas old_word (old_word - MU_RLOCK)))"

fun unlock_mode :: "unlock_kind \<Rightarrow> mu_mode" where
  "unlock_mode Runlock = Reader"
| "unlock_mode _ = Writer"

fun unlock_step :: "mu_shared \<Rightarrow> unlock_kind \<Rightarrow> unlock_pc \<Rightarrow> mu_shared \<times> mu_pc" where
  "unlock_step s k U_First = cas s (add_to_acquire (l_type_of (unlock_mode k))) 0 Idle (Unlocking k U_Load)"
| "unlock_step s k U_Load =
     (s, case k of Unlock \<Rightarrow> unlock_load (word' s)
                 | Unlock_Without_Wakeup \<Rightarrow> unlock_without_wakeup_load (word' s)
                 | Runlock \<Rightarrow> runlock_load (word' s))"
| "unlock_step s k (U_Cas old_word new_word) =
     cas s old_word new_word Idle (Releasing (unlock_mode k) To_Client R_Load)"

text \<open>\<open>nsync_mu_assert_held\<close>, \<open>nsync_mu_rassert_held\<close> and \<open>nsync_mu_is_reader\<close>; \<open>None\<close> is the panic.\<close>

definition nsync_mu_assert_held :: "mu_shared \<Rightarrow> unit option" where
  "nsync_mu_assert_held s = (if word' s AND held_if_non_zero nsync_writer_type = 0 then None else Some ())"

definition nsync_mu_rassert_held :: "mu_shared \<Rightarrow> unit option" where
  "nsync_mu_rassert_held s = (if word' s AND MU_ANY_LOCK = 0 then None else Some ())"

definition nsync_mu_is_reader :: "mu_shared \<Rightarrow> bool option" where
  "nsync_mu_is_reader s = (if word' s AND MU_ANY_LOCK = 0 then None else Some (word' s AND MU_WLOCK = 0))"

section \<open>Waiting for a condition\<close>

text \<open>\<open>condition == NULL || (*condition) (condition_arg)\<close>, and the end of the wait when it is so.\<close>

definition wait_evaluated :: "bool \<Rightarrow> mw_locals \<Rightarrow> mu_pc" where
  "wait_evaluated c l =
     (let condition_is_true = (wc_f (mw_cond l) = 0 \<or> c)
      in if mw_outcome l = 0 \<and> \<not> condition_is_true then Waiting l W_Prepare
         else let outcome = (if condition_is_true then 0 else mw_outcome l)
              in if \<not> mw_timed l \<and> outcome \<noteq> 0 then Panicked else Held (mw_mode l) outcome)"

text \<open>The waiter is set up and queued; the merge of conditions comes before the insertion.\<close>

definition wait_prepare :: "mu_shared \<Rightarrow> thread \<Rightarrow> mw_locals \<Rightarrow> mu_shared \<times> mu_pc" where
  "wait_prepare s t l =
     (s\<lparr>w_l_type := (w_l_type s)(t := mw_mode l), w_cond := (w_cond s)(t := mw_cond l), waiting := (waiting s)(t := True)\<rparr>,
      Waiting (l\<lparr>mw_remove_count := remove_count s t\<rparr>) W_Spin_Load)"

definition wait_queue :: "mu_shared \<Rightarrow> thread \<Rightarrow> mw_locals \<Rightarrow> mu_shared \<times> mu_pc" where
  "wait_queue s t l =
     (if mw_first_wait l then
        ((nsync_maybe_merge_conditions s (seq_last (waiters s)) (Some t))\<lparr>waiters := waiters s @ [t]\<rparr>,
         Waiting (l\<lparr>mw_first_wait := False\<rparr>) W_Rel_Load)
      else
        ((nsync_maybe_merge_conditions s (Some t) (seq_first (waiters s)))\<lparr>waiters := t # waiters s\<rparr>,
         Waiting l W_Rel_Load))"

text \<open>\<open>nsync_sem_wait_with_cancel_\<close>: it takes the semaphore, or times out or is cancelled with outcome \<open>n\<close>.\<close>

definition sem_wait :: "nat \<Rightarrow> mu_shared \<Rightarrow> thread \<Rightarrow> mw_locals \<Rightarrow> mu_shared \<times> mu_pc" where
  "sem_wait n s t l =
     (if n \<noteq> 0 \<and> mw_timed l then (s, Waiting (l\<lparr>mw_sem_outcome := n\<rparr>) W_Check)
      else if semaphore s t > 0 then
        (s\<lparr>semaphore := (semaphore s)(t := semaphore s t - 1)\<rparr>, Waiting (l\<lparr>mw_sem_outcome := 0\<rparr>) W_Check)
      else (s, Waiting l W_Sem))"

text \<open>
  The steps of \<open>nsync_mu_wait_with_deadline\<close>; the ones from \<open>T_Load\<close> on are those of
  \<open>mu_try_acquire_after_timeout_or_cancel\<close>.
\<close>

fun wait_step :: "bool \<Rightarrow> nat \<Rightarrow> mu_shared \<Rightarrow> thread \<Rightarrow> mw_locals \<Rightarrow> wait_pc \<Rightarrow> mu_shared \<times> mu_pc" where
  "wait_step c n s t l W_Load =
     (s, if word' s AND MU_ANY_LOCK = 0 then Panicked
         else Waiting (l\<lparr>mw_mode := (if word' s AND held_if_non_zero nsync_reader_type \<noteq> 0 then Reader else Writer)\<rparr>) W_Eval)"
| "wait_step c n s t l W_Eval = (s, wait_evaluated c l)"
| "wait_step c n s t l W_Prepare = wait_prepare s t l"
| "wait_step c n s t l W_Spin_Load =
     (s, Waiting l (if word' s AND MU_SPINLOCK \<noteq> 0 then W_Spin_Load else W_Spin_Cas (word' s)))"
| "wait_step c n s t l (W_Spin_Cas old_word) =
     (let has_condition = (if wc_f (mw_cond l) \<noteq> 0 then MU_CONDITION else 0)
      in cas s old_word ((old_word OR (MU_SPINLOCK OR MU_WAITING OR has_condition)) AND NOT MU_ALL_FALSE)
           (Waiting (l\<lparr>mw_had_waiters := (old_word AND (MU_DESIG_WAKER OR MU_WAITING) = MU_WAITING)\<rparr>) W_Queue)
           (Waiting l W_Spin_Load))"
| "wait_step c n s t l W_Queue = wait_queue s t l"
| "wait_step c n s t l W_Rel_Load =
     (let old_word = word' s;
          add = add_to_acquire (l_type_of (mw_mode l));
          add = (if (old_word - add) AND MU_ANY_LOCK = 0 \<and> mw_had_waiters l then 0 else add)
      in (s, Waiting l (W_Rel_Cas old_word add)))"
| "wait_step c n s t l (W_Rel_Cas old_word add) =
     cas s old_word ((old_word - add) AND NOT MU_SPINLOCK)
       (if add = 0 then Releasing (mw_mode l) (To_Wait l) R_Load else unlock_returns (To_Wait l))
       (Waiting l W_Rel_Load)"
| "wait_step c n s t l W_Wait =
     (if waiting s t then (s, Waiting l (if mw_sem_outcome l = 0 then W_Sem else W_Wait))
      else if mw_have_lock l then (s, Waiting l W_Eval)
      else enter_slow s t MU_DESIG_WAKER (mw_mode l) (To_Wait l))"
| "wait_step c n s t l W_Sem = sem_wait n s t l"
| "wait_step c n s t l W_Check =
     (s, Waiting l (if mw_sem_outcome l \<noteq> 0 \<and> waiting s t then T_Load else W_Wait))"
| "wait_step c n s t l T_Load = (s, Waiting l (T_Test (word' s)))"
| "wait_step c n s t l (T_Test old_word) =
     (if old_word AND (zero_to_acquire nsync_writer_type OR MU_SPINLOCK) \<noteq> 0 then (s, Waiting l (T_Writer old_word))
      else cas s old_word ((old_word + MU_WLOCK + MU_SPINLOCK) AND NOT (clear_on_acquire nsync_writer_type))
             (Waiting l (T_Confirm old_word)) (Waiting l (T_Writer old_word)))"
| "wait_step c n s t l (T_Writer old_word) =
     (if old_word AND (MU_WRITER_WAITING OR MU_SPINLOCK) = 0
      then cas s old_word (old_word OR MU_WRITER_WAITING) (Waiting l T_Load) (Waiting l T_Load)
      else (s, Waiting l T_Load))"
| "wait_step c n s t l (T_Confirm old_word) =
     (if waiting s t \<and> mw_remove_count l = remove_count s t then
        (let (s', mu_queue) = nsync_remove_from_mu_queue s (waiters s) t
         in (s'\<lparr>waiters := mu_queue, waiting := (waiting s')(t := False)\<rparr>, Waiting l (T_Keep old_word)))
      else (s, Waiting l (T_Back old_word)))"
| "wait_step c n s t l (T_Keep old_word) =
     (s\<lparr>word' := old_word + add_to_acquire (l_type_of (mw_mode l))\<rparr>,
      Waiting (l\<lparr>mw_have_lock := True, mw_outcome := mw_sem_outcome l\<rparr>) W_Wait)"
| "wait_step c n s t l (T_Back old_word) = (s\<lparr>word' := old_word\<rparr>, Waiting l W_Wait)"

section \<open>The system\<close>

text \<open>A step of thread \<open>t\<close> inside of the mutex; \<open>c\<close> and \<open>n\<close> are the outcomes of calls out of it.\<close>

fun thread_step :: "bool \<Rightarrow> nat \<Rightarrow> thread \<Rightarrow> mu_shared \<Rightarrow> mu_pc \<Rightarrow> mu_shared \<times> mu_pc" where
  "thread_step c n t s (Locking m p) = lock_step s t m p"
| "thread_step c n t s (Trying m p) = trylock_step s m p"
| "thread_step c n t s (Slow l r p) = lock_slow_step s t l r p"
| "thread_step c n t s (Unlocking k p) = unlock_step s k p"
| "thread_step c n t s (Releasing m r p) = release_step s m r p"
| "thread_step c n t s (Scanning m r u p) = scan_step c s m r u p"
| "thread_step c n t s (Waking r wake) = wake_step s r wake"
| "thread_step c n t s (Posting r wake p) = post_step s r wake p"
| "thread_step c n t s (Waiting l p) = wait_step c n s t l p"
| "thread_step c n t s p = (s, p)"

text \<open>
  The calls a client may make: it releases what it holds, and does not lock again before. The mode
  with which a wait starts is not used by the code, which takes it from the word.
\<close>

definition start_wait :: "mu_mode \<Rightarrow> wait_condition_s \<Rightarrow> bool \<Rightarrow> mw_locals" where
  "start_wait m cond timed =
     \<lparr>mw_mode = m, mw_cond = cond, mw_timed = timed, mw_first_wait = True, mw_outcome = 0, mw_remove_count = 0,
      mw_had_waiters = False, mw_sem_outcome = 0, mw_have_lock = False\<rparr>"

inductive mu_call :: "mu_pc \<Rightarrow> mu_pc \<Rightarrow> bool" where
  "mu_call Idle (Locking m L_First)"
| "mu_call Idle (Trying m L_First)"
| "mu_call (Held Writer res) (Unlocking Unlock U_First)"
| "mu_call (Held Writer res) (Unlocking Unlock_Without_Wakeup U_First)"
| "mu_call (Held Reader res) (Unlocking Runlock U_First)"
| "mu_call (Held m res) (Waiting (start_wait m cond timed) W_Load)"

text \<open>All interleavings of the threads below \<open>N\<close>, from a mutex that has just been initialized.\<close>

definition mu_initial :: "mu_shared \<Rightarrow> (thread \<Rightarrow> mu_pc) \<Rightarrow> bool" where
  "mu_initial s pcs \<longleftrightarrow> word' s = 0 \<and> waiters s = [] \<and> same_next s = (\<lambda>t. t) \<and> same_prev s = (\<lambda>t. t) \<and> pcs = (\<lambda>t. Idle)"

inductive mu_reachable :: "nat \<Rightarrow> mu_shared \<Rightarrow> (thread \<Rightarrow> mu_pc) \<Rightarrow> bool" for N where
  initial: "mu_initial s pcs \<Longrightarrow> mu_reachable N s pcs"
| call: "mu_reachable N s pcs \<Longrightarrow> t < N \<Longrightarrow> mu_call (pcs t) p \<Longrightarrow> mu_reachable N s (pcs(t := p))"
| step: "mu_reachable N s pcs \<Longrightarrow> t < N \<Longrightarrow> thread_step c n t s (pcs t) = (s', p) \<Longrightarrow> mu_reachable N s' (pcs(t := p))"

end
