(* ===== verification/Nsync_Mu_Safe.thy ===== *)
theory Nsync_Mu_Safe
  imports Nsync_Mu
begin

text \<open>
  Mutual exclusion of \<open>nsync_mu\<close>. Every thread has a share in the mutex, which its program counter
  tells; the word counts the shares, and each step changes both by the same amount.
\<close>

section \<open>Who holds what\<close>

text \<open>The lock and the spinlock that a thread holds, by its program counter.\<close>

fun wait_share :: "mw_locals \<Rightarrow> wait_pc \<Rightarrow> mu_mode option" where
  "wait_share l W_Wait = (if mw_have_lock l then Some (mw_mode l) else None)"
| "wait_share l W_Sem = None"
| "wait_share l W_Check = None"
| "wait_share l T_Load = None"
| "wait_share l (T_Test _) = None"
| "wait_share l (T_Writer _) = None"
| "wait_share l (T_Confirm _) = Some Writer"
| "wait_share l (T_Keep _) = Some Writer"
| "wait_share l (T_Back _) = Some Writer"
| "wait_share l _ = Some (mw_mode l)"

fun share :: "mu_pc \<Rightarrow> mu_mode option" where
  "share (Held m _) = Some m"
| "share (Unlocking k _) = Some (unlock_mode k)"
| "share (Releasing m _ _) = Some m"
| "share (Scanning _ _ u _) = (if u_late_release u = 0 then None else Some Writer)"
| "share (Waiting l p) = wait_share l p"
| "share _ = None"

fun wait_spin :: "wait_pc \<Rightarrow> bool" where
  "wait_spin W_Queue = True"
| "wait_spin W_Rel_Load = True"
| "wait_spin (W_Rel_Cas _ _) = True"
| "wait_spin (T_Confirm _) = True"
| "wait_spin (T_Keep _) = True"
| "wait_spin (T_Back _) = True"
| "wait_spin _ = False"

fun scan_spin :: "scan_locals \<Rightarrow> scan_pc \<Rightarrow> bool" where
  "scan_spin u N_Scan = (\<not> u_testing u)"
| "scan_spin u N_Panic = (\<not> u_testing u)"
| "scan_spin u N_Respin_Load = False"
| "scan_spin u (N_Respin_Cas _) = False"
| "scan_spin u _ = True"

fun slow_spin :: "slow_pc \<Rightarrow> bool" where
  "slow_spin S_Queue = True"
| "slow_spin S_Rel_Load = True"
| "slow_spin (S_Rel_Cas _) = True"
| "slow_spin _ = False"

fun spin :: "mu_pc \<Rightarrow> bool" where
  "spin (Slow _ _ p) = slow_spin p"
| "spin (Scanning _ _ u p) = scan_spin u p"
| "spin (Waiting _ p) = wait_spin p"
| "spin _ = False"

text \<open>What holds of the local variables of a thread at a program counter.\<close>

fun ok_lock :: "mu_mode \<Rightarrow> lock_pc \<Rightarrow> bool" where
  "ok_lock m (L_Cas old) \<longleftrightarrow> old AND zero_to_acquire (l_type_of m) = 0"
| "ok_lock m _ \<longleftrightarrow> True"

definition ok_mw :: "mw_locals \<Rightarrow> bool" where
  "ok_mw l \<longleftrightarrow> (mw_timed l \<or> mw_outcome l = 0 \<and> mw_sem_outcome l = 0)"

fun ok_return :: "mu_mode \<Rightarrow> mu_return \<Rightarrow> bool" where
  "ok_return m To_Client \<longleftrightarrow> True"
| "ok_return m (To_Wait l) \<longleftrightarrow> ok_mw l \<and> mw_mode l = m"

definition ok_slow_locals :: "slow_locals \<Rightarrow> bool" where
  "ok_slow_locals l \<longleftrightarrow> flags_only (s_clear l) \<and> flags_only (s_long_wait l) \<and>
     (\<exists>v. flags_only v \<and> s_zero l = zero_to_acquire (l_type_of (s_mode l)) AND NOT v)"

fun ok_slow :: "slow_locals \<Rightarrow> slow_pc \<Rightarrow> bool" where
  "ok_slow l (S_Acquire old) \<longleftrightarrow> old AND s_zero l = 0"
| "ok_slow l (S_Spin old) \<longleftrightarrow> \<not> sl old"
| "ok_slow l _ \<longleftrightarrow> True"

fun ok_unlock :: "unlock_kind \<Rightarrow> unlock_pc \<Rightarrow> bool" where
  "ok_unlock k (U_Cas old new) \<longleftrightarrow> (\<exists>v. flags_only v \<and> new = (old - add_to_acquire (l_type_of (unlock_mode k))) AND NOT v)"
| "ok_unlock k _ \<longleftrightarrow> True"

fun ok_release :: "release_pc \<Rightarrow> bool" where
  "ok_release (R_Acquire old) \<longleftrightarrow> \<not> sl old \<and> rc old \<le> 1"
| "ok_release _ \<longleftrightarrow> True"

definition ok_scan_locals :: "scan_locals \<Rightarrow> bool" where
  "ok_scan_locals u \<longleftrightarrow> (u_late_release u = MU_WLOCK \<or> u_late_release u = 0 \<and> \<not> u_testing u) \<and>
     flags_only (u_set_on_release u) \<and> (\<exists>v. flags_only v \<and> u_clear_on_release u = MU_SPINLOCK OR v)"

fun ok_scan :: "scan_locals \<Rightarrow> scan_pc \<Rightarrow> bool" where
  "ok_scan u N_Unspin_Load \<longleftrightarrow> u_testing u"
| "ok_scan u (N_Unspin_Cas _) \<longleftrightarrow> u_testing u"
| "ok_scan u N_Respin_Load \<longleftrightarrow> u_testing u"
| "ok_scan u (N_Respin_Cas old) \<longleftrightarrow> u_testing u \<and> \<not> sl old"
| "ok_scan u _ \<longleftrightarrow> True"

definition taken_over :: "u32 \<Rightarrow> u32 \<Rightarrow> bool" where
  "taken_over w old \<longleftrightarrow> \<not> wl old \<and> \<not> sl old \<and> rc old = 0 \<and>
     w = (old + MU_WLOCK + MU_SPINLOCK) AND NOT (clear_on_acquire nsync_writer_type)"

fun ok_wait :: "u32 \<Rightarrow> bool \<Rightarrow> mw_locals \<Rightarrow> wait_pc \<Rightarrow> bool" where
  "ok_wait w wt l (W_Spin_Cas old) \<longleftrightarrow> \<not> sl old"
| "ok_wait w wt l (W_Rel_Cas old add) \<longleftrightarrow> add = 0 \<or> add = add_to_acquire (l_type_of (mw_mode l))"
| "ok_wait w wt l W_Wait \<longleftrightarrow> (mw_have_lock l \<longrightarrow> \<not> wt)"
| "ok_wait w wt l W_Sem \<longleftrightarrow> \<not> mw_have_lock l"
| "ok_wait w wt l W_Check \<longleftrightarrow> \<not> mw_have_lock l"
| "ok_wait w wt l T_Load \<longleftrightarrow> \<not> mw_have_lock l"
| "ok_wait w wt l (T_Test _) \<longleftrightarrow> \<not> mw_have_lock l"
| "ok_wait w wt l (T_Writer _) \<longleftrightarrow> \<not> mw_have_lock l"
| "ok_wait w wt l (T_Confirm old) \<longleftrightarrow> \<not> mw_have_lock l \<and> taken_over w old"
| "ok_wait w wt l (T_Keep old) \<longleftrightarrow> \<not> mw_have_lock l \<and> taken_over w old \<and> \<not> wt"
| "ok_wait w wt l (T_Back old) \<longleftrightarrow> \<not> mw_have_lock l \<and> taken_over w old"
| "ok_wait w wt l _ \<longleftrightarrow> True"

fun ok_pc :: "u32 \<Rightarrow> bool \<Rightarrow> mu_pc \<Rightarrow> bool" where
  "ok_pc w wt (Locking m p) \<longleftrightarrow> ok_lock m p"
| "ok_pc w wt (Trying m p) \<longleftrightarrow> ok_lock m p"
| "ok_pc w wt (Slow l r p) \<longleftrightarrow> ok_slow_locals l \<and> ok_return (s_mode l) r \<and> ok_slow l p"
| "ok_pc w wt (Unlocking k p) \<longleftrightarrow> ok_unlock k p"
| "ok_pc w wt (Releasing m r p) \<longleftrightarrow> ok_return m r \<and> ok_release p"
| "ok_pc w wt (Scanning m r u p) \<longleftrightarrow> ok_return m r \<and> ok_scan_locals u \<and> ok_scan u p"
| "ok_pc w wt (Waking r _) \<longleftrightarrow> (\<exists>m. ok_return m r)"
| "ok_pc w wt (Posting r _ _) \<longleftrightarrow> (\<exists>m. ok_return m r)"
| "ok_pc w wt (Waiting l p) \<longleftrightarrow> ok_mw l \<and> ok_wait w wt l p"
| "ok_pc w wt Panicked \<longleftrightarrow> False"
| "ok_pc w wt _ \<longleftrightarrow> True"

section \<open>One step keeps the account\<close>

text \<open>
  The word counts the locks: what a step changes in the fields of the word is what it changes in the
  share of its thread.
\<close>

definition has :: "mu_mode \<Rightarrow> mu_pc \<Rightarrow> nat" where
  "has m p = of_bool (share p = Some m)"

definition word_backs :: "u32 \<Rightarrow> mu_pc \<Rightarrow> bool" where
  "word_backs w p \<longleftrightarrow>
     (share p = Some Writer \<longrightarrow> wl w) \<and> (share p = Some Reader \<longrightarrow> 0 < rc w) \<and> (spin p \<longrightarrow> sl w) \<and>
     (wl w \<longrightarrow> rc w = 0) \<and> rc w + 1 < 2 ^ 24 + has Reader p"

definition accounted :: "mu_pc \<Rightarrow> u32 \<Rightarrow> mu_pc \<Rightarrow> u32 \<Rightarrow> bool" where
  "accounted p w p' w' \<longleftrightarrow>
     of_bool (wl w') + has Writer p = of_bool (wl w) + has Writer p' \<and>
     rc w' + has Reader p = rc w + has Reader p' \<and>
     of_bool (sl w') + of_bool (spin p) = of_bool (sl w) + (of_bool (spin p') :: nat) \<and>
     (wl w' \<longrightarrow> rc w' = 0) \<and>
     (wl w \<longrightarrow> sl w \<longrightarrow> w' \<noteq> w \<longrightarrow> share p = Some Writer \<or> spin p)"

definition keeps :: "thread \<Rightarrow> mu_shared \<Rightarrow> mu_pc \<Rightarrow> mu_shared \<times> mu_pc \<Rightarrow> bool" where
  "keeps t s p x \<longleftrightarrow>
     (case x of (s', p') \<Rightarrow>
        accounted p (word' s) p' (word' s') \<and> ok_pc (word' s') (waiting s' t) p' \<and>
        (\<forall>u. u \<noteq> t \<longrightarrow> waiting s' u \<longrightarrow> waiting s u))"

lemma accounted_same [simp]:
  "wl w \<longrightarrow> rc w = 0 \<Longrightarrow> accounted p w p' w \<longleftrightarrow> share p' = share p \<and> spin p' = spin p"
  by (cases "share p"; cases "share p'") (auto simp: accounted_def has_def split: mu_mode.splits intro: mu_mode.exhaust)

lemma backs_exclusive: "word_backs w p \<Longrightarrow> wl w \<longrightarrow> rc w = 0"
  by (simp add: word_backs_def)

lemma zero_type:
  "wl (zero_to_acquire (l_type_of m))"
  "8 \<le> n \<Longrightarrow> n < 32 \<Longrightarrow> bit (zero_to_acquire nsync_writer_type) n"
proof -
  show "wl (zero_to_acquire (l_type_of m))"
    by (cases m) (simp_all add: nsync_writer_type_def nsync_reader_type_def wl_odd)
  have "list_all (\<lambda>n. bit (zero_to_acquire nsync_writer_type) n) [8..<32]" by code_simp
  then show "bit (zero_to_acquire nsync_writer_type) n" if "8 \<le> n" "n < 32"
    using that unfolding list_all_iff set_upt by (simp only: atLeastLessThan_iff)
qed

lemma add_type: "add_to_acquire nsync_writer_type = MU_WLOCK" "add_to_acquire nsync_reader_type = MU_RLOCK"
  by (simp_all add: nsync_writer_type_def nsync_reader_type_def)

lemma accounted_acquire:
  assumes "w AND (zero_to_acquire (l_type_of m) AND NOT v) = 0" and "flags_only v" and "flags_only f"
    and "rc w + 1 < 2 ^ 24" and "share p = None" and "share p' = Some m" and "\<not> spin p" and "\<not> spin p'"
  shows "accounted p w p' ((w + add_to_acquire (l_type_of m)) AND NOT f)"
proof (cases m)
  case Writer
  have z: "\<not> wl w" "rc w = 0"
    using and_not_zero_test [OF assms(1,2)] zero_type(1) [of m] zero_type(2) Writer by auto
  then show ?thesis
    using assms(3,5-8) Writer add_wlock [OF z(1)]
    by (simp add: accounted_def has_def add_type word_field_simps)
next
  case Reader
  have z: "\<not> wl w"
    using and_not_zero_test(1) [OF assms(1,2)] zero_type by blast
  then show ?thesis
    using assms(3-8) Reader add_rlock [OF assms(4)]
    by (simp add: accounted_def has_def add_type word_field_simps)
qed

lemma accounted_release:
  assumes "word_backs w p" and "share p = Some m" and "share p' = None" and "spin p = spin p'" and "flags_only f"
  shows "accounted p w p' ((w - add_to_acquire (l_type_of m)) AND NOT f)"
proof (cases m)
  case Writer
  then have z: "wl w" "rc w = 0" using assms by (auto simp: word_backs_def)
  then show ?thesis
    using assms(2-5) Writer sub_wlock [OF z(1)]
    by (simp add: accounted_def has_def add_type word_field_simps)
next
  case Reader
  then have z: "\<not> wl w" "0 < rc w" using assms by (auto simp: word_backs_def)
  then show ?thesis
    using assms(2-5) Reader sub_rlock [OF z(2)]
    by (simp add: accounted_def has_def add_type word_field_simps)
qed

lemma accounted_spin:
  assumes "wl w' = wl w" and "rc w' = rc w" and "share p' = share p" and "wl w \<longrightarrow> rc w = 0"
    and "sl w = spin p" and "sl w' = spin p'" and "spin p \<noteq> spin p'"
  shows "accounted p w p' w'"
  using assms by (auto simp: accounted_def has_def)

lemma accounted_spin_on:
  assumes "\<not> sl w" and "wl w \<longrightarrow> rc w = 0" and "share p' = share p" and "\<not> spin p" and "spin p'" and "flags_only f" and "flags_only g"
  shows "accounted p w p' ((w OR MU_SPINLOCK OR f) AND NOT g)"
  using assms by (intro accounted_spin) (simp_all add: word_field_simps)

lemma accounted_spin_off:
  assumes "word_backs w p" and "share p' = share p" and "spin p" and "\<not> spin p'"
  shows "accounted p w p' (w AND NOT MU_SPINLOCK)"
  by (rule accounted_spin) (use assms spin_and_not [of w] in \<open>auto simp only: word_backs_def\<close>)

lemma l_type_flags [simp]: "flags_only (clear_on_acquire (l_type_of m))" "flags_only (set_when_waiting (l_type_of m))"
    "flags_only (clear_on_uncontended_release (l_type_of m))"
  by (cases m; simp add: nsync_writer_type_def nsync_reader_type_def flags_only_def)+

lemma keeps_cas:
  assumes "word' s = old \<Longrightarrow> accounted p old p1 new \<and> ok_pc new (waiting s t) p1"
    and "wl (word' s) \<longrightarrow> rc (word' s) = 0" and "share p2 = share p" "spin p2 = spin p" "ok_pc (word' s) (waiting s t) p2"
  shows "keeps t s p (cas s old new p1 p2)"
  using assms by (auto simp: keeps_def cas_def)

lemma keeps_same:
  assumes "wl (word' s) \<longrightarrow> rc (word' s) = 0" and "share p2 = share p" "spin p2 = spin p" "ok_pc (word' s) (waiting s t) p2"
  shows "keeps t s p (s, p2)"
  using assms by (auto simp: keeps_def)

lemma keeps_enter_slow:
  assumes "wl (word' s) \<longrightarrow> rc (word' s) = 0" and "share p = None" "\<not> spin p" "flags_only clear" "ok_return m r"
  shows "keeps t s p (enter_slow s t clear m r)"
proof -
  let ?z = "zero_to_acquire (l_type_of m)"
  have z: "\<exists>v. flags_only v \<and> (if clear \<noteq> 0 then ?z AND NOT (MU_WRITER_WAITING OR MU_LONG_WAIT) else ?z) = ?z AND NOT v"
  proof (cases "clear = 0")
    case True
    then show ?thesis by (intro exI [of _ 0]) simp
  next
    case False
    then show ?thesis
      by (intro exI [of _ "MU_WRITER_WAITING OR MU_LONG_WAIT"]) (simp only: flags_only_or flags_only_num if_True not_False_eq_True simp_thms)
  qed
  then have "ok_slow_locals \<lparr>s_mode = m, s_clear = clear,
      s_zero = if clear \<noteq> 0 then ?z AND NOT (MU_WRITER_WAITING OR MU_LONG_WAIT) else ?z, s_wait_count = 0, s_long_wait = 0\<rparr>"
    using assms(4) unfolding ok_slow_locals_def by (simp only: slow_locals.simps flags_only_num simp_thms)
  then show ?thesis
    using assms by (simp add: keeps_def enter_slow_def Let_def)
qed

lemma reader_room: "word_backs w p \<Longrightarrow> share p = None \<Longrightarrow> rc w + 1 < 2 ^ 24"
  by (simp add: word_backs_def has_def)

lemma lock_step_keeps:
  assumes "word_backs (word' s) (Locking m p)" and "ok_lock m p"
  shows "keeps t s (Locking m p) (lock_step s t m p)"
proof (cases p)
  case L_First
  show ?thesis
    unfolding L_First lock_step.simps using accounted_acquire [of 0 m 0 0 "Locking m L_First" "Held m 0"] backs_exclusive [OF assms(1)]
    by (intro keeps_cas) simp_all
next
  case L_Load
  then show ?thesis
    using backs_exclusive [OF assms(1)] by (auto intro: keeps_same keeps_enter_slow)
next
  case (L_Cas old)
  then show ?thesis
    using backs_exclusive [OF assms(1)] assms(2) reader_room [OF assms(1)]
      accounted_acquire [of "word' s" m 0 "clear_on_acquire (l_type_of m)" "Locking m p" "Held m 0"]
    by (cases "word' s = old") (simp_all add: keeps_enter_slow, simp add: keeps_def)
qed

lemma trylock_step_keeps:
  assumes "word_backs (word' s) (Trying m p)" and "ok_lock m p"
  shows "keeps t s (Trying m p) (trylock_step s m p)"
proof (cases p)
  case L_First
  show ?thesis
    unfolding L_First trylock_step.simps using accounted_acquire [of 0 m 0 0 "Trying m L_First" "Held m 0"] backs_exclusive [OF assms(1)]
    by (intro keeps_cas) simp_all
next
  case L_Load
  then show ?thesis
    using backs_exclusive [OF assms(1)] by (auto intro: keeps_same)
next
  case (L_Cas old)
  then show ?thesis
    using backs_exclusive [OF assms(1)] assms(2) reader_room [OF assms(1)]
      accounted_acquire [of "word' s" m 0 "clear_on_acquire (l_type_of m)" "Trying m p" "Held m 0"]
    by (auto intro!: keeps_cas)
qed

lemma share_lock_returns [simp]:
  "share (lock_returns m To_Client) = Some m" "share (lock_returns m (To_Wait l)) = Some (mw_mode l)"
  "\<not> spin (lock_returns m r)"
  by (cases r; simp)+

lemma ok_lock_returns: "ok_return m r \<Longrightarrow> ok_pc w wt (lock_returns m r) \<and> share (lock_returns m r) = Some m"
  by (cases r) auto

lemma slow_step_keeps:
  assumes b: "word_backs (word' s) (Slow l r p)" and ok: "ok_pc (word' s) (waiting s t) (Slow l r p)"
  shows "keeps t s (Slow l r p) (lock_slow_step s t l r p)"
proof (cases p)
  case S_Load
  then show ?thesis using backs_exclusive [OF b] ok by (auto simp: Let_def and_spinlock intro!: keeps_same)
next
  case (S_Acquire old)
  obtain v where v: "flags_only v" "s_zero l = zero_to_acquire (l_type_of (s_mode l)) AND NOT v"
    and f: "flags_only (s_clear l OR s_long_wait l OR clear_on_acquire (l_type_of (s_mode l)))"
    using ok by (auto simp: ok_slow_locals_def)
  have "accounted (Slow l r p) old (lock_returns (s_mode l) r)
      ((old + add_to_acquire (l_type_of (s_mode l))) AND NOT (s_clear l OR s_long_wait l OR clear_on_acquire (l_type_of (s_mode l))))"
    if "word' s = old"
    using ok S_Acquire v f that reader_room [OF b] ok_lock_returns [of "s_mode l" r]
    by (intro accounted_acquire [of _ _ v]) simp_all
  then show ?thesis
    unfolding S_Acquire lock_slow_step.simps
    using ok S_Acquire backs_exclusive [OF b] ok_lock_returns by (intro keeps_cas) simp_all
next
  case (S_Spin old)
  have f: "flags_only (s_clear l)" "flags_only (s_long_wait l)" using ok by (auto simp: ok_slow_locals_def)
  have "accounted (Slow l r p) old (Slow l r S_Queue)
      ((old OR MU_SPINLOCK OR s_long_wait l OR set_when_waiting (l_type_of (s_mode l))) AND NOT (s_clear l OR MU_ALL_FALSE))"
    if "word' s = old"
    by (rule accounted_spin_on) (use ok S_Spin f that backs_exclusive [OF b] in simp_all)
  then show ?thesis
    unfolding S_Spin lock_slow_step.simps using ok S_Spin backs_exclusive [OF b] by (intro keeps_cas) simp_all
next
  case S_Queue
  then show ?thesis using backs_exclusive [OF b] ok by (simp add: keeps_def)
next
  case S_Rel_Load
  then show ?thesis using backs_exclusive [OF b] ok by (simp add: keeps_def)
next
  case (S_Rel_Cas old)
  have "accounted (Slow l r p) old (Slow l r S_Wait) (old AND NOT MU_SPINLOCK)" if "word' s = old"
    by (rule accounted_spin_off) (use b that S_Rel_Cas in simp_all)
  then show ?thesis
    unfolding S_Rel_Cas lock_slow_step.simps using ok S_Rel_Cas backs_exclusive [OF b] by (intro keeps_cas) simp_all
next
  case S_Wait
  have "ok_slow_locals (l\<lparr>s_wait_count := n, s_long_wait := (if c then MU_LONG_WAIT else s_long_wait l),
      s_clear := MU_DESIG_WAKER, s_zero := s_zero l AND NOT (MU_WRITER_WAITING OR MU_LONG_WAIT)\<rparr>)" for n c
  proof -
    obtain v where v: "flags_only v" "s_zero l = zero_to_acquire (l_type_of (s_mode l)) AND NOT v"
      using ok by (auto simp: ok_slow_locals_def)
    then have "s_zero l AND NOT (MU_WRITER_WAITING OR MU_LONG_WAIT) =
        zero_to_acquire (l_type_of (s_mode l)) AND NOT (v OR (MU_WRITER_WAITING OR MU_LONG_WAIT))"
      by (simp only: bit.de_Morgan_disj and.assoc)
    moreover have "flags_only (v OR (MU_WRITER_WAITING OR MU_LONG_WAIT))"
      using v by (simp only: flags_only_or flags_only_num simp_thms)
    ultimately show ?thesis
      using ok unfolding ok_pc.simps ok_slow_locals_def by (auto simp del: flags_only_or)
  qed
  then show ?thesis using S_Wait backs_exclusive [OF b] ok by (simp add: keeps_def Let_def)
next
  case S_Sem
  then show ?thesis using backs_exclusive [OF b] ok by (simp add: keeps_def)
qed

lemma field_test: "w AND (MU_RLOCK_FIELD OR MU_WLOCK) = 0 \<longleftrightarrow> \<not> wl w \<and> rc w = 0"
  by (metis and_any_lock or.commute)

lemma runlock_test: "(w XOR MU_WLOCK) AND (MU_WLOCK OR MU_RLOCK_FIELD) = 0 \<longleftrightarrow> wl w \<and> rc w = 0"
proof -
  have "rc (w XOR MU_WLOCK) = rc w" by (rule rc_cong) (simp add: bit_xor_iff bit_1_iff)
  moreover have "wl (w XOR MU_WLOCK) \<longleftrightarrow> \<not> wl w" by (simp add: wl_def bit_xor_iff bit_1_iff)
  ultimately show ?thesis using and_any_lock by metis
qed

lemma unlock_step_keeps:
  assumes b: "word_backs (word' s) (Unlocking k p)" and ok: "ok_unlock k p"
  shows "keeps t s (Unlocking k p) (unlock_step s k p)"
proof (cases p)
  case U_First
  let ?a = "add_to_acquire (l_type_of (unlock_mode k))"
  have "accounted (Unlocking k p) ?a Idle ((?a - ?a) AND NOT 0)" if "word' s = ?a"
    by (rule accounted_release) (use b that in simp_all)
  then show ?thesis
    unfolding U_First unlock_step.simps using backs_exclusive [OF b] U_First by (intro keeps_cas) simp_all
next
  case U_Load
  have "keeps t s (Unlocking k p) (s, unlock_load (word' s))" if "k = Unlock"
  proof -
    have w: "wl (word' s)" "rc (word' s) = 0" using b that by (auto simp: word_backs_def)
    have "((word' s - MU_WLOCK) AND NOT MU_ALL_FALSE) AND (MU_RLOCK_FIELD OR MU_WLOCK) = 0"
      unfolding field_test using sub_wlock [OF w(1)] w(2) flags_and_not [of MU_ALL_FALSE "word' s - MU_WLOCK"] flags_only_num(7) by metis
    then show ?thesis
      unfolding unlock_load_def Let_def using that backs_exclusive [OF b]
      by (auto intro!: keeps_same exI [of _ MU_ALL_FALSE] simp: add_type)
  qed
  moreover have "keeps t s (Unlocking k p) (s, unlock_without_wakeup_load (word' s))" if "k = Unlock_Without_Wakeup"
  proof -
    have w: "wl (word' s)" "rc (word' s) = 0" using b that by (auto simp: word_backs_def)
    have "(word' s - MU_WLOCK) AND (MU_RLOCK_FIELD OR MU_WLOCK) = 0"
      unfolding field_test using sub_wlock [OF w(1)] w(2) by metis
    then show ?thesis
      unfolding unlock_without_wakeup_load_def Let_def using that backs_exclusive [OF b]
      by (auto intro!: keeps_same exI [of _ 0] simp: add_type)
  qed
  moreover have "keeps t s (Unlocking k p) (s, runlock_load (word' s))" if "k = Runlock"
  proof -
    have "\<not> (wl (word' s) \<and> rc (word' s) = 0)" using b that by (auto simp: word_backs_def)
    then show ?thesis
      unfolding runlock_load_def runlock_test using that backs_exclusive [OF b]
      by (auto intro!: keeps_same exI [of _ 0] simp: add_type)
  qed
  ultimately show ?thesis by (cases k) (simp_all add: U_Load)
next
  case (U_Cas old new)
  then obtain v where v: "flags_only v" "new = (old - add_to_acquire (l_type_of (unlock_mode k))) AND NOT v"
    using ok by auto
  have "accounted (Unlocking k p) old Idle ((old - add_to_acquire (l_type_of (unlock_mode k))) AND NOT v)" if "word' s = old"
    by (rule accounted_release) (use b that v in simp_all)
  then show ?thesis
    unfolding U_Cas unlock_step.simps using backs_exclusive [OF b] U_Cas v by (intro keeps_cas) simp_all
qed

lemma unlock_returns_fields:
  "share (unlock_returns r) = None" "\<not> spin (unlock_returns r)" "ok_return m r \<Longrightarrow> ok_pc w wt (unlock_returns r)"
  by (cases r; auto simp: ok_mw_def)+

lemma release_step_keeps:
  assumes b: "word_backs (word' s) (Releasing m r p)" and ok: "ok_pc (word' s) (waiting s t) (Releasing m r p)"
  shows "keeps t s (Releasing m r p) (release_step s m r p)"
proof (cases p)
  case R_Load
  then show ?thesis
    unfolding R_Load release_step.simps Let_def using backs_exclusive [OF b] ok rlock_field_gt [of "word' s"]
    by (intro keeps_same) (auto simp only: share.simps spin.simps ok_pc.simps ok_release.simps and_spinlock not_less split: if_splits)
next
  case (R_Cas old)
  have "accounted (Releasing m r p) old (unlock_returns r)
      ((old - add_to_acquire (l_type_of m)) AND NOT (clear_on_uncontended_release (l_type_of m)))" if "word' s = old"
    by (rule accounted_release) (use b that in \<open>simp_all add: unlock_returns_fields\<close>)
  then show ?thesis
    unfolding R_Cas release_step.simps using backs_exclusive [OF b] R_Cas ok
    by (intro keeps_cas) (simp_all add: unlock_returns_fields)
next
  case (R_Acquire old)
  define testing where "testing \<longleftrightarrow> old AND MU_CONDITION \<noteq> 0"
  define early where "early = (if testing then add_to_acquire (l_type_of m) - MU_WLOCK else add_to_acquire (l_type_of m))"
  define u where "u = \<lparr>u_testing = testing, u_late_release = (if testing then MU_WLOCK else 0), u_waiters = [], u_new_waiters = [],
                          u_wake = [], u_wake_type = None, u_clear_on_release = MU_SPINLOCK,
                          u_set_on_release = MU_ALL_FALSE, u_p = None\<rparr>"
  have o: "\<not> sl old" "rc old \<le> 1" using ok R_Acquire by auto
  have acc: "accounted (Releasing m r p) old (Scanning m r u N_Take) ((old - early) OR MU_SPINLOCK OR MU_DESIG_WAKER)" if "word' s = old"
  proof -
    have f: "(wl (old - early) \<longleftrightarrow> testing) \<and> (sl (old - early) = sl old) \<and> rc (old - early) = 0 \<and> (wl old \<longleftrightarrow> m = Writer) \<and> rc old = has Reader (Releasing m r p)"
    proof (cases m)
      case Writer
      then have z: "wl old" "rc old = 0" using b that by (auto simp: word_backs_def)
      then show ?thesis
        using sub_wlock [OF z(1)] Writer by (simp add: early_def add_type has_def)
    next
      case Reader
      then have z: "\<not> wl old" "rc old = 1" using b that o by (auto simp: word_backs_def)
      have r: "\<not> wl (old - MU_RLOCK)" "sl (old - MU_RLOCK) = sl old" "rc (old - MU_RLOCK) = 0"
        using sub_rlock [of old] z by simp_all
      have e: "old - (MU_RLOCK - MU_WLOCK) = (old - MU_RLOCK) + MU_WLOCK" by (simp only: diff_diff_eq2 diff_add_eq)
      show ?thesis
        using Reader r z add_wlock [OF r(1)] e by (simp add: early_def add_type has_def del: diff_numeral_special)
    qed
    then have "wl ((old - early) OR MU_SPINLOCK OR MU_DESIG_WAKER) \<longleftrightarrow> testing" "sl ((old - early) OR MU_SPINLOCK OR MU_DESIG_WAKER)"
        "rc ((old - early) OR MU_SPINLOCK OR MU_DESIG_WAKER) = 0"
      by (simp_all add: word_field_simps)
    then show ?thesis
      using f o by (auto simp: accounted_def has_def u_def)
  qed
  have "ok_scan_locals u"
    by (auto simp: ok_scan_locals_def u_def intro!: exI [of _ 0])
  then show ?thesis
    unfolding R_Acquire release_step.simps Let_def testing_def [symmetric] early_def [symmetric] u_def [symmetric]
    using backs_exclusive [OF b] R_Acquire ok acc by (intro keeps_cas) simp_all
qed

lemma queue_keeps [simp]:
  "word' (splice_same s p n) = word' s" "waiting (splice_same s p n) = waiting s"
  "word' (unlink_same s e) = word' s" "waiting (unlink_same s e) = waiting s"
  by (simp_all add: splice_same_def unlink_same_def Let_def)

lemma merge_keeps [simp]:
  "word' (nsync_maybe_merge_conditions s p n) = word' s" "waiting (nsync_maybe_merge_conditions s p n) = waiting s"
  by (auto simp: nsync_maybe_merge_conditions_def split: option.splits)

lemma remove_keeps [simp]:
  "word' (fst (nsync_remove_from_mu_queue s q e)) = word' s" "waiting (fst (nsync_remove_from_mu_queue s q e)) = waiting s"
  by (auto simp: nsync_remove_from_mu_queue_def Let_def)

lemma scan_waiter_keeps:
  assumes "scan_waiter c s u p = (s', u')" and "ok_scan_locals u"
  shows "word' s' = word' s \<and> waiting s' = waiting s \<and> u_testing u' = u_testing u \<and> u_late_release u' = u_late_release u \<and> ok_scan_locals u'"
proof -
  have "flags_only ((u_set_on_release u OR MU_WRITER_WAITING) AND NOT MU_ALL_FALSE)"
    using assms(2) by (intro flags_only_and) (simp add: ok_scan_locals_def)
  then show ?thesis
    using assms
    by (auto simp: scan_waiter_def ok_scan_locals_def Let_def case_prod_beta split: if_splits)
qed

lemma final_clear_ok: "ok_scan_locals u \<Longrightarrow> \<exists>v. flags_only v \<and> final_clear u = MU_SPINLOCK OR v"
proof -
  assume "ok_scan_locals u"
  then obtain v where v: "flags_only v" "u_clear_on_release u = MU_SPINLOCK OR v"
    by (auto simp: ok_scan_locals_def)
  have step: "\<exists>v. flags_only v \<and> (if c then x OR f else x) = MU_SPINLOCK OR v"
    if "\<exists>v. flags_only v \<and> x = MU_SPINLOCK OR v" "flags_only f" for c x f
    using that by (metis flags_only_or or.assoc)
  show ?thesis
    unfolding final_clear_def Let_def
    by (intro step) (use v in \<open>auto simp: flags_only_def\<close>)
qed

lemma accounted_final:
  assumes b: "word_backs w (Scanning m r u p)" and ok: "ok_scan_locals u" and "scan_spin u p"
  shows "accounted (Scanning m r u p) w (Waking r wake) (((w - u_late_release u) OR u_set_on_release u) AND NOT (u_clear_on_release u))"
proof -
  have f: "flags_only (u_set_on_release u)"
    using ok by (simp add: ok_scan_locals_def)
  have v: "\<not> wl (u_clear_on_release u)" "sl (u_clear_on_release u)" "rc (u_clear_on_release u) = 0"
    using ok by (auto simp: ok_scan_locals_def word_field_simps)
  have s: "sl w" using b assms(3) by (simp add: word_backs_def)
  show ?thesis
  proof (cases "u_late_release u = 0")
    case True
    then show ?thesis
      using b v f s assms(3) by (simp add: accounted_def has_def word_field_simps word_backs_def)
  next
    case False
    then have l: "u_late_release u = MU_WLOCK" and w: "wl w" "rc w = 0"
      using ok b by (auto simp: ok_scan_locals_def word_backs_def)
    then show ?thesis
      using sub_wlock [OF w(1)] v f s assms(3) by (simp add: accounted_def has_def word_field_simps)
  qed
qed

lemma scan_step_keeps:
  assumes b: "word_backs (word' s) (Scanning m r u p)" and ok: "ok_pc (word' s) (waiting s t) (Scanning m r u p)"
  shows "keeps t s (Scanning m r u p) (scan_step c s m r u p)"
proof (cases p)
  case N_Take
  then show ?thesis using backs_exclusive [OF b] ok by (simp add: keeps_def ok_scan_locals_def)
next
  case N_Head
  show ?thesis
  proof (cases "seq_first (u_new_waiters u)")
    case None
    have "ok_scan_locals (u\<lparr>u_clear_on_release := final_clear u\<rparr>)"
      using ok final_clear_ok [of u] by (auto simp: ok_scan_locals_def)
    then show ?thesis using N_Head None backs_exclusive [OF b] ok by (simp add: keeps_def)
  next
    case (Some q)
    have "ok_scan_locals (u\<lparr>u_p := Some q, u_testing := go_on_testing s u q\<rparr>)"
      using ok by (auto simp: ok_scan_locals_def go_on_testing_def)
    then show ?thesis using N_Head Some backs_exclusive [OF b] ok by (auto simp: keeps_def Let_def)
  qed
next
  case N_Unspin_Load
  then show ?thesis using backs_exclusive [OF b] ok by (simp add: keeps_def)
next
  case (N_Unspin_Cas old)
  have "accounted (Scanning m r u p) old (Scanning m r u N_Scan) (old AND NOT MU_SPINLOCK)" if "word' s = old"
    by (rule accounted_spin_off) (use b that N_Unspin_Cas ok in simp_all)
  then show ?thesis
    unfolding N_Unspin_Cas scan_step.simps using ok N_Unspin_Cas backs_exclusive [OF b] by (intro keeps_cas) simp_all
next
  case N_Scan
  have "ok_scan_locals (u\<lparr>u_set_on_release := u_set_on_release u AND NOT MU_ALL_FALSE\<rparr>)"
    using ok by (auto simp: ok_scan_locals_def)
  then show ?thesis
    using N_Scan backs_exclusive [OF b] ok scan_waiter_keeps [of c s u]
    by (auto simp: keeps_def split: option.splits prod.splits if_splits)
next
  case N_Respin_Load
  then show ?thesis using backs_exclusive [OF b] ok by (simp add: keeps_def and_spinlock)
next
  case (N_Respin_Cas old)
  have "accounted (Scanning m r u p) old (Scanning m r u N_Merge) ((old OR MU_SPINLOCK OR 0) AND NOT 0)" if "word' s = old"
    by (rule accounted_spin_on) (use b that N_Respin_Cas ok backs_exclusive [OF b] in simp_all)
  then show ?thesis
    unfolding N_Respin_Cas scan_step.simps using ok N_Respin_Cas backs_exclusive [OF b] by (intro keeps_cas) simp_all
next
  case N_Merge
  then show ?thesis using backs_exclusive [OF b] ok by (simp add: keeps_def Let_def ok_scan_locals_def)
next
  case N_Final_Load
  then show ?thesis using backs_exclusive [OF b] ok by (simp add: keeps_def)
next
  case (N_Final_Cas old)
  show ?thesis
    unfolding N_Final_Cas scan_step.simps
    using b ok N_Final_Cas backs_exclusive [OF b] accounted_final [of "word' s" m r u p "u_wake u"] by (intro keeps_cas) auto
next
  case N_Panic
  then show ?thesis using backs_exclusive [OF b] ok by (simp add: keeps_def)
qed

lemma wake_step_keeps:
  assumes b: "word_backs (word' s) (Waking r wake)" and ok: "ok_pc (word' s) (waiting s t) (Waking r wake)"
  shows "keeps t s (Waking r wake) (wake_step s r wake)"
  using backs_exclusive [OF b] ok unlock_returns_fields
  by (cases wake) (auto simp: keeps_def)

lemma post_step_keeps:
  assumes b: "word_backs (word' s) (Posting r wake q)" and ok: "ok_pc (word' s) (waiting s t) (Posting r wake q)"
  shows "keeps t s (Posting r wake q) (post_step s r wake q)"
  using backs_exclusive [OF b] ok by (simp add: keeps_def post_step_def)

text \<open>A waiter that timed out takes the writer lock and the spinlock together.\<close>

lemma add_both:
  assumes "\<not> wl w" and "\<not> sl w"
  shows "wl (w + MU_WLOCK + MU_SPINLOCK)" "sl (w + MU_WLOCK + MU_SPINLOCK)" "rc (w + MU_WLOCK + MU_SPINLOCK) = rc w"
proof -
  have e: "even (unat w)" "even (unat w div 2)" using assms by (simp_all add: wl_odd sl_odd)
  then have "4 dvd unat w" by presburger
  then have "unat w + 3 < 4294967296" using unat_bounds [of w] by presburger
  then have u: "unat (w + 3) = unat w + 3"
    by (subst unat_add_lem [THEN iffD1]) simp_all
  have w: "w + MU_WLOCK + MU_SPINLOCK = w + 3" by simp
  show "wl (w + MU_WLOCK + MU_SPINLOCK)" unfolding w wl_odd u using e by simp
  show "sl (w + MU_WLOCK + MU_SPINLOCK)" unfolding w sl_odd u using e by presburger
  have "(unat w + 3) div 4 = unat w div 4" using \<open>4 dvd unat w\<close> by presburger
  then have "(unat w + 3) div 4 div 64 = unat w div 4 div 64" by simp
  then show "rc (w + MU_WLOCK + MU_SPINLOCK) = rc w" unfolding w rc_def u by (simp add: div_mult2_eq [symmetric])
qed

lemma taken_over_fields: "taken_over w old \<Longrightarrow> wl w \<and> sl w \<and> rc w = 0"
  using add_both [of old] l_type_flags(1) [of Writer] by (simp add: taken_over_def flags_and_not)

lemma timeout_test:
  "w AND (zero_to_acquire nsync_writer_type OR MU_SPINLOCK) = 0 \<Longrightarrow> \<not> wl w \<and> \<not> sl w \<and> rc w = 0"
proof -
  assume a: "w AND (zero_to_acquire nsync_writer_type OR MU_SPINLOCK) = 0"
  then have "w AND zero_to_acquire nsync_writer_type = 0" "\<not> sl w"
    by (simp_all add: and_or_zero and_spinlock)
  then show ?thesis
    using and_not_zero_test [of w "zero_to_acquire nsync_writer_type" 0] zero_type(1) [of Writer] zero_type(2) by simp
qed

lemma wait_evaluated_keeps:
  "ok_mw l \<Longrightarrow> share (wait_evaluated c l) = Some (mw_mode l) \<and> \<not> spin (wait_evaluated c l) \<and> ok_pc w wt (wait_evaluated c l)"
  by (auto simp: wait_evaluated_def ok_mw_def Let_def)

lemma accounted_release_spin:
  assumes "word_backs w p" and "share p = Some m" and "share p' = None" and "spin p" and "\<not> spin p'"
  shows "accounted p w p' ((w - add_to_acquire (l_type_of m)) AND NOT MU_SPINLOCK)"
proof (cases m)
  case Writer
  then have z: "wl w" "rc w = 0" "sl w" using assms by (auto simp: word_backs_def)
  then show ?thesis
    using assms(2-5) Writer sub_wlock [OF z(1)] spin_and_not [of "w - MU_WLOCK"]
    unfolding accounted_def has_def Writer l_type_of.simps add_type by auto
next
  case Reader
  then have z: "\<not> wl w" "0 < rc w" "sl w" using assms by (auto simp: word_backs_def)
  then show ?thesis
    using assms(2-5) Reader sub_rlock [OF z(2)] spin_and_not [of "w - MU_RLOCK"]
    unfolding accounted_def has_def Reader l_type_of.simps add_type by auto
qed

lemma wait_step_keeps:
  assumes b: "word_backs (word' s) (Waiting l p)" and ok: "ok_pc (word' s) (waiting s t) (Waiting l p)"
  shows "keeps t s (Waiting l p) (wait_step c n s t l p)"
proof (cases p)
  case W_Load
  have w: "share (Waiting l p) = Some (mw_mode l)" using W_Load by simp
  have "word' s AND held_if_non_zero nsync_reader_type \<noteq> 0 \<longleftrightarrow> mw_mode l = Reader"
    using b w and_rlock_field [of "word' s"] by (cases "mw_mode l") (simp_all add: nsync_reader_type_def word_backs_def)
  moreover have "word' s AND MU_ANY_LOCK \<noteq> 0"
    unfolding and_any_lock using b w by (cases "mw_mode l") (simp_all add: word_backs_def)
  moreover have "l\<lparr>mw_mode := (if mw_mode l = Reader then Reader else Writer)\<rparr> = l"
    by (cases l; cases "mw_mode l") auto
  ultimately have "wait_step c n s t l p = (s, Waiting l W_Eval)"
    unfolding W_Load wait_step.simps by (simp only: if_False)
  then show ?thesis using W_Load ok backs_exclusive [OF b] by (simp add: keeps_def)
next
  case W_Eval
  then show ?thesis using backs_exclusive [OF b] ok wait_evaluated_keeps [of l c] by (simp add: keeps_def)
next
  case W_Prepare
  then show ?thesis using backs_exclusive [OF b] ok by (simp add: keeps_def wait_prepare_def ok_mw_def)
next
  case W_Spin_Load
  then show ?thesis using backs_exclusive [OF b] ok by (simp add: keeps_def and_spinlock)
next
  case (W_Spin_Cas old)
  let ?h = "if wc_f (mw_cond l) \<noteq> 0 then MU_CONDITION else 0"
  have "accounted (Waiting l p) old (Waiting (l\<lparr>mw_had_waiters := hw\<rparr>) W_Queue) ((old OR MU_SPINLOCK OR (MU_WAITING OR ?h)) AND NOT MU_ALL_FALSE)"
    if "word' s = old" for hw
    by (rule accounted_spin_on) (use that W_Spin_Cas ok backs_exclusive [OF b] in \<open>simp_all add: flags_only_def\<close>)
  then show ?thesis
    unfolding W_Spin_Cas wait_step.simps Let_def using ok W_Spin_Cas backs_exclusive [OF b]
    by (intro keeps_cas) (simp_all add: ok_mw_def)
next
  case W_Queue
  then show ?thesis using backs_exclusive [OF b] ok by (auto simp: keeps_def wait_queue_def ok_mw_def)
next
  case W_Rel_Load
  then show ?thesis using backs_exclusive [OF b] ok by (simp add: keeps_def Let_def)
next
  case (W_Rel_Cas old add)
  have "add \<noteq> 0 \<Longrightarrow> accounted (Waiting l p) old (unlock_returns (To_Wait l)) ((old - add) AND NOT MU_SPINLOCK)"
    "add = 0 \<Longrightarrow> accounted (Waiting l p) old (Releasing (mw_mode l) (To_Wait l) R_Load) ((old - add) AND NOT MU_SPINLOCK)" if "word' s = old"
  proof -
    assume "add \<noteq> 0"
    then have a: "add = add_to_acquire (l_type_of (mw_mode l))" using ok W_Rel_Cas by simp
    show "accounted (Waiting l p) old (unlock_returns (To_Wait l)) ((old - add) AND NOT MU_SPINLOCK)"
      unfolding a by (rule accounted_release_spin) (use b W_Rel_Cas that in \<open>simp_all add: unlock_returns_fields\<close>)
  next
    assume "add = 0"
    then show "accounted (Waiting l p) old (Releasing (mw_mode l) (To_Wait l) R_Load) ((old - add) AND NOT MU_SPINLOCK)"
      using accounted_spin_off [OF b, of "Releasing (mw_mode l) (To_Wait l) R_Load"] W_Rel_Cas that by simp
  qed
  then show ?thesis
    unfolding W_Rel_Cas wait_step.simps using ok W_Rel_Cas backs_exclusive [OF b] unlock_returns_fields(3) [of "mw_mode l" "To_Wait l"]
    by (intro keeps_cas) auto
next
  case W_Wait
  then show ?thesis
    using backs_exclusive [OF b] ok by (auto intro!: keeps_same keeps_enter_slow)
next
  case W_Sem
  then show ?thesis using backs_exclusive [OF b] ok by (auto simp: keeps_def sem_wait_def ok_mw_def)
next
  case W_Check
  then show ?thesis using backs_exclusive [OF b] ok by (auto simp: keeps_def)
next
  case T_Load
  then show ?thesis using backs_exclusive [OF b] ok by (simp add: keeps_def)
next
  case (T_Test old)
  let ?w = "(old + MU_WLOCK + MU_SPINLOCK) AND NOT (clear_on_acquire nsync_writer_type)"
  have "accounted (Waiting l p) old (Waiting l (T_Confirm old)) ?w \<and> taken_over ?w old"
    if "old AND (zero_to_acquire nsync_writer_type OR MU_SPINLOCK) = 0"
    using T_Test timeout_test [OF that] taken_over_fields [of ?w old]
    by (auto simp: taken_over_def accounted_def has_def)
  then show ?thesis
    unfolding T_Test wait_step.simps using ok T_Test backs_exclusive [OF b]
    by (cases "old AND (zero_to_acquire nsync_writer_type OR MU_SPINLOCK) = 0") (auto intro!: keeps_cas keeps_same)
next
  case (T_Writer old)
  have "accounted (Waiting l p) old (Waiting l T_Load) (old OR MU_WRITER_WAITING)"
    if "old AND (MU_WRITER_WAITING OR MU_SPINLOCK) = 0" "word' s = old"
  proof -
    have "\<not> sl old" using that(1) and_or_zero and_spinlock by blast
    then show ?thesis
      using T_Writer backs_exclusive [OF b] that(2) by (simp add: accounted_def has_def flags_or)
  qed
  then show ?thesis
    unfolding T_Writer wait_step.simps using ok T_Writer backs_exclusive [OF b]
    by (cases "old AND (MU_WRITER_WAITING OR MU_SPINLOCK) = 0") (simp_all only: if_True if_False refl simp_thms, auto intro!: keeps_cas keeps_same)
next
  case (T_Confirm old)
  then show ?thesis using backs_exclusive [OF b] ok
    by (auto simp: keeps_def case_prod_beta)
next
  case (T_Keep old)
  have t: "taken_over (word' s) old" "\<not> waiting s t" "ok_mw l" using ok T_Keep by auto
  have o: "\<not> wl old" "\<not> sl old" "rc old = 0" using t(1) by (simp_all add: taken_over_def)
  have "accounted (Waiting l p) (word' s) (Waiting (l\<lparr>mw_have_lock := True, mw_outcome := mw_sem_outcome l\<rparr>) W_Wait)
      (old + add_to_acquire (l_type_of (mw_mode l)))"
    using T_Keep taken_over_fields [OF t(1)] o add_wlock [of old] add_rlock [of old]
    by (cases "mw_mode l") (simp_all add: accounted_def has_def add_type)
  then show ?thesis
    using T_Keep t by (auto simp: keeps_def ok_mw_def)
next
  case (T_Back old)
  then show ?thesis
    using taken_over_fields [of "word' s" old] ok
    by (auto simp: keeps_def accounted_def has_def taken_over_def)
qed

lemma thread_step_keeps:
  assumes "word_backs (word' s) p" and "ok_pc (word' s) (waiting s t) p"
  shows "keeps t s p (thread_step c n t s p)"
  using assms backs_exclusive [OF assms(1)]
  by (cases p) (simp_all add: lock_step_keeps trylock_step_keeps slow_step_keeps unlock_step_keeps release_step_keeps
      scan_step_keeps wake_step_keeps post_step_keeps wait_step_keeps keeps_same del: ok_pc.simps(3,5-9))

section \<open>The invariant\<close>

definition shares :: "nat \<Rightarrow> mu_mode \<Rightarrow> (thread \<Rightarrow> mu_pc) \<Rightarrow> nat" where
  "shares N m pcs = (\<Sum>t<N. has m (pcs t))"

definition spinners :: "nat \<Rightarrow> (thread \<Rightarrow> mu_pc) \<Rightarrow> nat" where
  "spinners N pcs = (\<Sum>t<N. of_bool (spin (pcs t)))"

definition mu_inv :: "nat \<Rightarrow> mu_shared \<Rightarrow> (thread \<Rightarrow> mu_pc) \<Rightarrow> bool" where
  "mu_inv N s pcs \<longleftrightarrow>
     of_bool (wl (word' s)) = shares N Writer pcs \<and> rc (word' s) = shares N Reader pcs \<and>
     of_bool (sl (word' s)) = spinners N pcs \<and> (wl (word' s) \<longrightarrow> rc (word' s) = 0) \<and>
     (\<forall>t. ok_pc (word' s) (waiting s t) (pcs t)) \<and> (\<forall>t\<ge>N. pcs t = Idle)"

lemma sum_upd:
  fixes f :: "'a \<Rightarrow> nat" and t u N :: nat
  assumes "t < N"
  shows "(\<Sum>u<N. f ((pcs(t := p)) u)) + f (pcs t) = (\<Sum>u<N. f (pcs u)) + f p"
proof -
  have "(\<Sum>u<N. f (q u)) = f (q t) + (\<Sum>u\<in>{..<N} - {t}. f (q u))" for q
    using assms by (simp add: sum.remove)
  moreover have "(\<Sum>u\<in>{..<N} - {t}. f ((pcs(t := p)) u)) = (\<Sum>u\<in>{..<N} - {t}. f (pcs u))"
    by (rule sum.cong) auto
  ultimately show ?thesis by simp
qed

lemma sum_ge_two:
  fixes f :: "'a \<Rightarrow> nat" and t u N :: nat
  assumes "t < N" and "u < N" and "t \<noteq> u"
  shows "f (pcs t) + f (pcs u) \<le> (\<Sum>v<N. f (pcs v))"
proof -
  have "(\<Sum>v\<in>{t, u}. f (pcs v)) \<le> (\<Sum>v<N. f (pcs v))"
    using assms by (intro sum_mono2) auto
  then show ?thesis using assms(3) by simp
qed

lemma sum_ge_one: "(t :: nat) < N \<Longrightarrow> (f (pcs t) :: nat) \<le> (\<Sum>v<N. f (pcs v))"
  by (rule member_le_sum) auto

text \<open>Fewer threads than the counter of readers can count.\<close>

lemma inv_backs:
  assumes "mu_inv N s pcs" and "t < N" and "N < 2 ^ 24"
  shows "word_backs (word' s) (pcs t)"
proof -
  have "shares N Reader pcs \<le> N - 1 + has Reader (pcs t)"
  proof -
    have "shares N Reader pcs = has Reader (pcs t) + (\<Sum>u\<in>{..<N} - {t}. has Reader (pcs u))"
      using assms(2) by (simp add: shares_def sum.remove)
    moreover have "(\<Sum>u\<in>{..<N} - {t}. has Reader (pcs u)) \<le> (\<Sum>u\<in>{..<N} - {t}. 1)"
      by (rule sum_mono) (simp add: has_def)
    ultimately show ?thesis using assms(2) by simp
  qed
  then have "rc (word' s) + 1 < 2 ^ 24 + has Reader (pcs t)"
    using assms by (simp add: mu_inv_def)
  moreover have h: "has m (pcs t) \<le> shares N m pcs" for m
    unfolding shares_def by (rule sum_ge_one [OF assms(2)])
  have "wl (word' s)" if "share (pcs t) = Some Writer"
    using h [of Writer] that assms(1) by (cases "wl (word' s)") (auto simp: has_def mu_inv_def)
  moreover have "0 < rc (word' s)" if "share (pcs t) = Some Reader"
    using h [of Reader] that assms(1) by (auto simp: has_def mu_inv_def)
  moreover have "of_bool (spin (pcs t)) \<le> spinners N pcs"
    unfolding spinners_def by (rule sum_ge_one [OF assms(2)])
  then have "sl (word' s)" if "spin (pcs t)"
    using that assms(1) by (cases "sl (word' s)") (auto simp: mu_inv_def)
  ultimately show ?thesis
    using assms(1) by (auto simp: word_backs_def mu_inv_def)
qed

lemma ok_pc_stable:
  assumes "ok_pc w wt p" and "wt' \<longrightarrow> wt" and "share p = Some Writer \<Longrightarrow> spin p \<Longrightarrow> w' = w"
  shows "ok_pc w' wt' p"
proof (cases p)
  case (Waiting l q)
  then show ?thesis using assms by (cases q) auto
qed (use assms in auto)

lemma inv_step:
  assumes inv: "mu_inv N s pcs" and t: "t < N" and N: "N < 2 ^ 24" and st: "thread_step c n t s (pcs t) = (s', p)"
  shows "mu_inv N s' (pcs(t := p))"
proof -
  let ?pcs = "pcs(t := p)"
  have "keeps t s (pcs t) (s', p)"
    using thread_step_keeps [OF inv_backs [OF inv t N], where t = t] inv st by (metis mu_inv_def)
  then have acc: "accounted (pcs t) (word' s) p (word' s')" and ok: "ok_pc (word' s') (waiting s' t) p"
    and wt: "\<And>u. u \<noteq> t \<Longrightarrow> waiting s' u \<Longrightarrow> waiting s u"
    by (auto simp: keeps_def)
  have "ok_pc (word' s') (waiting s' u) (pcs u)" if "u \<noteq> t" for u
  proof (rule ok_pc_stable)
    show "ok_pc (word' s) (waiting s u) (pcs u)" using inv by (simp add: mu_inv_def)
    show "waiting s' u \<longrightarrow> waiting s u" using wt that by blast
    assume u: "share (pcs u) = Some Writer" "spin (pcs u)"
    then have "u < N" using inv by (metis linorder_not_le mu_inv_def option.distinct(1) share.simps(6))
    have "has Writer (pcs t) + has Writer (pcs u) \<le> shares N Writer pcs"
      unfolding shares_def using t \<open>u < N\<close> that by (intro sum_ge_two) auto
    moreover have "of_bool (spin (pcs t)) + of_bool (spin (pcs u)) \<le> spinners N pcs"
      unfolding spinners_def using t \<open>u < N\<close> that by (intro sum_ge_two) auto
    moreover have "shares N Writer pcs \<le> 1" "spinners N pcs \<le> 1" "wl (word' s)" "sl (word' s)"
      using inv u inv_backs [OF inv \<open>u < N\<close> N] unfolding mu_inv_def word_backs_def
      by (metis of_bool_less_eq_one order_refl)+
    ultimately show "word' s' = word' s"
      using u acc by (auto simp: accounted_def has_def split: if_splits)
  qed
  then have "\<forall>u. ok_pc (word' s') (waiting s' u) (?pcs u)" using ok by simp
  moreover have "shares N m ?pcs + has m (pcs t) = shares N m pcs + has m p" for m
    unfolding shares_def by (rule sum_upd [OF t])
  moreover have "spinners N ?pcs + of_bool (spin (pcs t)) = spinners N pcs + of_bool (spin p)"
    unfolding spinners_def by (rule sum_upd [OF t])
  moreover have "\<forall>u\<ge>N. ?pcs u = Idle" using inv t by (auto simp: mu_inv_def)
  ultimately show ?thesis
    using inv acc unfolding mu_inv_def accounted_def by (metis add_right_cancel)
qed

lemma mu_reachable_inv:
  assumes "mu_reachable N s pcs" and "N < 2 ^ 24"
  shows "mu_inv N s pcs"
  using assms(1)
proof induction
  case (initial s pcs)
  then show ?case by (simp add: mu_initial_def mu_inv_def shares_def spinners_def has_def)
next
  case (call s pcs t p)
  have same: "share p = share (pcs t)" "spin p = spin (pcs t)" "ok_pc w wt p" for w wt
    using call.hyps(3) by (cases, auto simp: start_wait_def ok_mw_def)+
  have "shares N m (pcs(t := p)) = shares N m pcs" for m
    using sum_upd [OF call.hyps(2), of "has m" pcs p] same by (simp add: shares_def has_def)
  moreover have "spinners N (pcs(t := p)) = spinners N pcs"
    using sum_upd [OF call.hyps(2), of "\<lambda>p. of_bool (spin p)" pcs p] same by (simp add: spinners_def)
  moreover have "\<forall>u. ok_pc (word' s) (waiting s u) ((pcs(t := p)) u)" "\<forall>u\<ge>N. (pcs(t := p)) u = Idle"
    using call same by (auto simp: mu_inv_def)
  ultimately show ?case
    using call.IH by (auto simp: mu_inv_def simp del: fun_upd_apply)
next
  case (step s pcs t c n s' p)
  then show ?case using inv_step assms(2) by blast
qed

section \<open>Properties\<close>

lemma no_two:
  assumes "mu_inv N s pcs" and "share (pcs t) = Some Writer" and "t \<noteq> u" and "N < 2 ^ 24"
  shows "share (pcs u) = None"
proof (rule ccontr)
  assume "share (pcs u) \<noteq> None"
  then obtain m where m: "share (pcs u) = Some m" by auto
  have N: "t < N" "u < N"
    using assms(1,2) m by (metis linorder_not_le mu_inv_def option.distinct(1) share.simps(6))+
  have w: "wl (word' s)" "rc (word' s) = 0"
    using inv_backs [OF assms(1) N(1) assms(4)] assms(2) by (auto simp: word_backs_def)
  show False
  proof (cases m)
    case Writer
    have "has Writer (pcs t) + has Writer (pcs u) \<le> shares N Writer pcs"
      unfolding shares_def using N assms(3) by (intro sum_ge_two) auto
    then show False using assms(1,2) m Writer w by (simp add: has_def mu_inv_def)
  next
    case Reader
    then show False using inv_backs [OF assms(1) N(2) assms(4)] m w by (simp add: word_backs_def)
  qed
qed

lemma no_two_spin:
  assumes "mu_inv N s pcs" and "spin (pcs t)" and "t \<noteq> u"
  shows "\<not> spin (pcs u)"
proof
  assume u: "spin (pcs u)"
  have N: "t < N" "u < N"
    using assms(1,2) u by (metis linorder_not_le mu_inv_def spin.simps(4))+
  have "of_bool (spin (pcs t)) + of_bool (spin (pcs u)) \<le> spinners N pcs"
    unfolding spinners_def using N assms(3) by (intro sum_ge_two) auto
  then show False using assms u by (cases "sl (word' s)") (auto simp: mu_inv_def)
qed

text \<open>
  C28. Mutual exclusion of \<open>nsync_mu\<close>, with \<open>nsync_mu_lock\<close>, \<open>rlock\<close>, \<open>trylock\<close>, \<open>rtrylock\<close>, the three
  unlocks and \<open>nsync_mu_wait_with_deadline\<close> called by fewer than \<open>2 ^ 24\<close> threads in any
  interleaving of their atomic operations, with any outcomes of conditions and timeouts: when one
  thread holds the lock in write mode no other thread holds it in any mode, and the spinlock that
  protects the waiters has at most one holder. The word tells the truth: its writer bit and its
  reader count are the numbers of the threads that hold the lock. No sanity check of the word fails.
\<close>

theorem nsync_mu_mutual_exclusion:
  assumes "mu_reachable N s pcs" and "N < 2 ^ 24"
  shows "(\<forall>t u m i j. pcs t = Held Writer i \<longrightarrow> t \<noteq> u \<longrightarrow> pcs u \<noteq> Held m j)
       \<and> (\<forall>t u. share (pcs t) = Some Writer \<longrightarrow> t \<noteq> u \<longrightarrow> share (pcs u) = None)
       \<and> (\<forall>t u. spin (pcs t) \<longrightarrow> t \<noteq> u \<longrightarrow> \<not> spin (pcs u))
       \<and> (word' s AND MU_WLOCK \<noteq> 0 \<longleftrightarrow> (\<exists>t. share (pcs t) = Some Writer))
       \<and> unat (drop_bit 8 (word' s)) = card {t. share (pcs t) = Some Reader}
       \<and> (\<forall>t. pcs t \<noteq> Panicked)"
proof -
  have inv: "mu_inv N s pcs" using assms by (rule mu_reachable_inv)
  have below: "t < N" if "share (pcs t) \<noteq> None" for t
    using inv that by (metis linorder_not_le mu_inv_def share.simps(6))
  have "wl (word' s) \<longleftrightarrow> (\<exists>t. share (pcs t) = Some Writer)"
  proof
    assume "wl (word' s)"
    then have "shares N Writer pcs \<noteq> 0" using inv by (simp add: mu_inv_def)
    then show "\<exists>t. share (pcs t) = Some Writer" by (auto simp: shares_def has_def)
  next
    assume "\<exists>t. share (pcs t) = Some Writer"
    then show "wl (word' s)" using inv_backs [OF inv below assms(2)] by (auto simp: word_backs_def)
  qed
  moreover have "rc (word' s) = card {t. share (pcs t) = Some Reader}"
  proof -
    have "{t. share (pcs t) = Some Reader} = {..<N} \<inter> {t. share (pcs t) = Some Reader}" using below by auto
    then show ?thesis using inv by (simp add: mu_inv_def shares_def has_def)
  qed
  moreover have "pcs t \<noteq> Panicked" for t
    using inv by (metis mu_inv_def ok_pc.simps(10))
  moreover have "\<forall>t u m i j. pcs t = Held Writer i \<longrightarrow> t \<noteq> u \<longrightarrow> pcs u \<noteq> Held m j"
    using no_two [OF inv _ _ assms(2)] by (metis option.distinct(1) share.simps(1))
  ultimately show ?thesis
    using no_two [OF inv _ _ assms(2)] no_two_spin [OF inv] unfolding and_wlock rc_drop by blast
qed

definition mu_free :: mu_shared where
  "mu_free = \<lparr>word' = 0, waiters = [], waiting = (\<lambda>_. False), semaphore = (\<lambda>_. 0), w_l_type = (\<lambda>_. Writer),
     w_cond = (\<lambda>_. no_condition), remove_count = (\<lambda>_. 0), same_next = (\<lambda>t. t), same_prev = (\<lambda>t. t)\<rparr>"

theorem nsync_mu_mutual_exclusion_witness:
  "\<exists>s pcs. mu_reachable 2 s pcs \<and> pcs 0 = Held Writer 0 \<and> share (pcs 1) = None \<and> pcs 1 \<noteq> Panicked"
proof -
  let ?i = "\<lambda>t :: thread. Idle"
  let ?w = "mu_free\<lparr>word' := MU_WLOCK\<rparr>"
  have 0: "mu_reachable 2 mu_free ?i"
    by (rule mu_reachable.initial) (simp add: mu_initial_def mu_free_def)
  have 1: "mu_reachable 2 mu_free (?i(0 := Locking Writer L_First))"
    using 0 by (rule mu_reachable.call) (auto intro: mu_call.intros)
  have 2: "mu_reachable 2 ?w (?i(0 := Locking Writer L_First, 0 := Held Writer 0))"
    using 1 by (rule mu_reachable.step [where c = False and n = 0]) (simp_all add: cas_def add_type mu_free_def)
  have 3: "mu_reachable 2 ?w (?i(0 := Locking Writer L_First, 0 := Held Writer 0, 1 := Locking Writer L_First))"
    using 2 by (rule mu_reachable.call) (auto intro: mu_call.intros)
  let ?p = "?i(0 := Locking Writer L_First, 0 := Held Writer 0, 1 := Locking Writer L_First, 1 := Locking Writer L_Load)"
  have 4: "mu_reachable 2 ?w ?p"
    using 3 by (rule mu_reachable.step [where c = False and n = 0]) (simp_all add: cas_def)
  have h: "?p 0 = Held Writer 0" by simp
  have N: "(2 :: nat) < 2 ^ 24" by simp
  note m = nsync_mu_mutual_exclusion [OF 4 N]
  have "share (?p 1) = None"
    using m [THEN conjunct2, THEN conjunct1, rule_format, of 0 1] h by simp
  moreover have "?p 1 \<noteq> Panicked" using m by blast
  ultimately show ?thesis using 4 h by blast
qed

lemma wl_sub: "wl (w - MU_WLOCK) \<longleftrightarrow> \<not> wl w"
proof (cases "wl w")
  case False
  have "wl (w - MU_WLOCK)"
  proof (rule ccontr)
    assume "\<not> wl (w - MU_WLOCK)"
    from add_wlock(1) [OF this] show False using False by simp
  qed
  then show ?thesis using False by simp
qed (simp add: sub_wlock)

text \<open>
  C29. The sanity checks of the unlocks. \<open>nsync_mu_unlock\<close> and \<open>nsync_mu_unlock_without_wakeup\<close> panic on
  exactly the words of a mutex that is not held in write mode alone. The check of \<open>nsync_mu_runlock\<close>
  panics on exactly the words of a mutex held in write mode, so the panic for a mutex that is not held
  at all is never reached: there the reader count is taken below zero, to \<open>2 ^ 24 - 1\<close> readers.
\<close>

theorem nsync_mu_misuse:
  "(unlock_load w = Panicked \<longleftrightarrow> \<not> (w AND MU_WLOCK \<noteq> 0 \<and> w AND MU_RLOCK_FIELD = 0))
   \<and> (unlock_without_wakeup_load w = Panicked \<longleftrightarrow> \<not> (w AND MU_WLOCK \<noteq> 0 \<and> w AND MU_RLOCK_FIELD = 0))
   \<and> (runlock_load w = Panicked \<longleftrightarrow> w AND MU_WLOCK \<noteq> 0 \<and> w AND MU_RLOCK_FIELD = 0)
   \<and> runlock_load 0 = Unlocking Runlock (U_Cas 0 (- MU_RLOCK))
   \<and> unat (drop_bit 8 (- MU_RLOCK)) = 2 ^ 24 - 1"
proof (intro conjI)
  have f: "\<not> (wl ((w - MU_WLOCK) AND NOT v) \<or> rc ((w - MU_WLOCK) AND NOT v) \<noteq> 0) \<longleftrightarrow> wl w \<and> rc w = 0" if "flags_only v" for v
    using flags_and_not [OF that, of "w - MU_WLOCK"] wl_sub [of w] sub_wlock(3) [of w] by auto
  show "unlock_load w = Panicked \<longleftrightarrow> \<not> (w AND MU_WLOCK \<noteq> 0 \<and> w AND MU_RLOCK_FIELD = 0)"
    using f [OF flags_only_num(7)] unfolding unlock_load_def Let_def and_rlock_field and_wlock field_test
    by (simp only: split: if_splits) (auto simp only: mu_pc.distinct)
  show "unlock_without_wakeup_load w = Panicked \<longleftrightarrow> \<not> (w AND MU_WLOCK \<noteq> 0 \<and> w AND MU_RLOCK_FIELD = 0)"
    using f [OF flags_only_num(1)] unfolding unlock_without_wakeup_load_def Let_def and_rlock_field and_wlock field_test
    by auto
  show "runlock_load w = Panicked \<longleftrightarrow> w AND MU_WLOCK \<noteq> 0 \<and> w AND MU_RLOCK_FIELD = 0"
    unfolding runlock_load_def and_rlock_field and_wlock runlock_test by auto
  show "runlock_load 0 = Unlocking Runlock (U_Cas 0 (- MU_RLOCK))"
    by (simp add: runlock_load_def)
  show "unat (drop_bit 8 (- MU_RLOCK)) = 2 ^ 24 - 1"
    by (simp add: rc_drop [symmetric] rc_def)
qed

end
