(* ===== verification/Nsync_Once.thy ===== *)
theory Nsync_Once
  imports Prelude
begin

text \<open>
  \<open>nsync/internal/once.c\<close>: running a function exactly once. The shared state is the \<open>nsync_once\<close> word
  (0: not started, 1: running, 2: finished) and the mutex of the \<open>once_sync_s\<close> the word is mapped
  to, given by its owner; \<open>started\<close> and \<open>finished\<close> count the calls and the returns of the function. A
  thread takes one step per atomic operation. Waiting on the condition variable releases the mutex and
  takes it again at any later time, with a wakeup or at the deadline. The variants with spinning have
  no \<open>once_sync_s\<close>, which the flag \<open>sync\<close> of a thread tells.
\<close>

section \<open>The steps of \<open>nsync_run_once_impl\<close>\<close>

record once_state =
  once :: u32
  once_mu :: "nat option"
  started :: nat
  finished :: nat

datatype once_pc =
    O_Out | O_Fast | O_Load | O_Lock u32 | O_Claim u32 | O_Reload | O_Unlock | O_Call | O_Return | O_Relock | O_Store |
    O_Wait | O_Cv_Wait | O_Cv_Lock | O_Unlock_End | O_Done

text \<open>Locking and unlocking of \<open>once_mu\<close>, which does nothing without a \<open>once_sync_s\<close>.\<close>

definition can_lock :: "bool \<Rightarrow> once_state \<Rightarrow> bool" where
  "can_lock sync s \<longleftrightarrow> \<not> sync \<or> once_mu s = None"

definition lock_mu :: "bool \<Rightarrow> nat \<Rightarrow> once_state \<Rightarrow> once_state" where
  "lock_mu sync t s = (if sync then s\<lparr>once_mu := Some t\<rparr> else s)"

definition unlock_mu :: "bool \<Rightarrow> once_state \<Rightarrow> once_state" where
  "unlock_mu sync s = (if sync then s\<lparr>once_mu := None\<rparr> else s)"

inductive once_step :: "bool \<Rightarrow> nat \<Rightarrow> once_state \<Rightarrow> once_pc \<Rightarrow> once_state \<Rightarrow> once_pc \<Rightarrow> bool" for sync t where
  fast: "once_step sync t s O_Fast s (if once s \<noteq> 2 then O_Load else O_Done)"
| load: "once_step sync t s O_Load s (if once s \<noteq> 2 then O_Lock (once s) else O_Done)"
| lock: "can_lock sync s \<Longrightarrow> once_step sync t s (O_Lock x) (lock_mu sync t s) (O_Claim x)"
| claim: "once s = 0 \<Longrightarrow> once_step sync t s (O_Claim 0) (s\<lparr>once := 1\<rparr>) O_Unlock"
| claim_fails: "once s \<noteq> 0 \<Longrightarrow> once_step sync t s (O_Claim 0) s O_Reload"
| reload: "once_step sync t s O_Reload s (O_Claim (once s))"
| not_first: "x \<noteq> 0 \<Longrightarrow> once_step sync t s (O_Claim x) s O_Wait"
| unlock: "once_step sync t s O_Unlock (unlock_mu sync s) O_Call"
| call: "once_step sync t s O_Call (s\<lparr>started := started s + 1\<rparr>) O_Return"
| return: "once_step sync t s O_Return (s\<lparr>finished := finished s + 1\<rparr>) O_Relock"
| relock: "can_lock sync s \<Longrightarrow> once_step sync t s O_Relock (lock_mu sync t s) O_Store"
| store: "once_step sync t s O_Store (s\<lparr>once := 2\<rparr>) O_Wait"
| wait: "once_step sync t s O_Wait s (if once s \<noteq> 2 then (if sync then O_Cv_Wait else O_Wait) else O_Unlock_End)"
| cv_wait: "once_step sync t s O_Cv_Wait (unlock_mu sync s) O_Cv_Lock"
| cv_lock: "can_lock sync s \<Longrightarrow> once_step sync t s O_Cv_Lock (lock_mu sync t s) O_Wait"
| unlock_end: "once_step sync t s O_Unlock_End (unlock_mu sync s) O_Done"

text \<open>
  All interleavings. Thread \<open>t\<close> calls \<open>nsync_run_once\<close> or \<open>nsync_run_once_arg\<close> when \<open>sync t\<close>, and a
  spinning variant otherwise, any number of times.
\<close>

inductive once_reachable :: "(nat \<Rightarrow> bool) \<Rightarrow> once_state \<Rightarrow> (nat \<Rightarrow> once_pc) \<Rightarrow> bool" for sync where
  initial: "once_reachable sync \<lparr>once = 0, once_mu = None, started = 0, finished = 0\<rparr> (\<lambda>_. O_Out)"
| enter: "once_reachable sync s pcs \<Longrightarrow> pcs t \<in> {O_Out, O_Done} \<Longrightarrow> once_reachable sync s (pcs(t := O_Fast))"
| step: "once_reachable sync s pcs \<Longrightarrow> once_step (sync t) t s (pcs t) s' p \<Longrightarrow> once_reachable sync s' (pcs(t := p))"

section \<open>The invariant\<close>

text \<open>The thread that has moved the word from 0 to 1 and not yet to 2; who holds the mutex.\<close>

fun runner :: "once_pc \<Rightarrow> bool" where
  "runner O_Unlock = True"
| "runner O_Call = True"
| "runner O_Return = True"
| "runner O_Relock = True"
| "runner O_Store = True"
| "runner _ = False"

fun holds_mu :: "once_pc \<Rightarrow> bool" where
  "holds_mu (O_Claim _) = True"
| "holds_mu O_Reload = True"
| "holds_mu O_Unlock = True"
| "holds_mu O_Store = True"
| "holds_mu O_Wait = True"
| "holds_mu O_Cv_Wait = True"
| "holds_mu O_Unlock_End = True"
| "holds_mu _ = False"

text \<open>What the runner has done, and what a thread that is about to return has seen.\<close>

fun calls :: "once_pc \<Rightarrow> nat \<times> nat" where
  "calls O_Return = (1, 0)"
| "calls O_Relock = (1, 1)"
| "calls O_Store = (1, 1)"
| "calls _ = (0, 0)"

definition counts_ok :: "once_state \<Rightarrow> bool" where
  "counts_ok s \<longleftrightarrow> once s \<in> {0, 1, 2} \<and> (once s = 0 \<longrightarrow> started s = 0) \<and> (once s = 2 \<longrightarrow> finished s = 1) \<and>
     finished s \<le> started s \<and> started s \<le> 1"

definition runner_ok :: "once_state \<Rightarrow> (nat \<Rightarrow> once_pc) \<Rightarrow> bool" where
  "runner_ok s pcs \<longleftrightarrow>
     (\<forall>t. runner (pcs t) \<longrightarrow> once s = 1 \<and> (started s, finished s) = calls (pcs t)) \<and>
     (\<forall>t u. runner (pcs t) \<longrightarrow> runner (pcs u) \<longrightarrow> t = u) \<and>
     (once s = 1 \<longrightarrow> (\<exists>t. runner (pcs t)))"

definition returns_ok :: "once_state \<Rightarrow> (nat \<Rightarrow> once_pc) \<Rightarrow> bool" where
  "returns_ok s pcs \<longleftrightarrow> (\<forall>t. pcs t = O_Unlock_End \<or> pcs t = O_Done \<longrightarrow> once s = 2)"

definition mu_ok :: "(nat \<Rightarrow> bool) \<Rightarrow> once_state \<Rightarrow> (nat \<Rightarrow> once_pc) \<Rightarrow> bool" where
  "mu_ok sync s pcs \<longleftrightarrow> (\<forall>t. sync t \<longrightarrow> (holds_mu (pcs t) \<longleftrightarrow> once_mu s = Some t)) \<and> (\<forall>t. \<not> sync t \<longrightarrow> once_mu s \<noteq> Some t)"

lemma counts_step:
  assumes "once_step (sync t) t s (pcs t) s' p" and "counts_ok s" and "runner_ok s pcs"
  shows "counts_ok s'"
proof -
  have r: "runner (pcs t) \<Longrightarrow> once s = 1 \<and> (started s, finished s) = calls (pcs t)"
    using assms(3) by (simp add: runner_ok_def)
  from assms(1) show ?thesis
    using assms(2) r by cases (simp_all add: counts_ok_def lock_mu_def unlock_mu_def split: if_splits)
qed

lemma runner_quiet:
  assumes "runner_ok s pcs" and "once s' = once s" "started s' = started s" "finished s' = finished s"
    and "runner p = runner (pcs t)" "calls p = calls (pcs t)"
  shows "runner_ok s' (pcs(t := p))"
  using assms unfolding runner_ok_def by (auto simp: fun_upd_def; metis)

lemma runner_acts:
  assumes "runner_ok s pcs" and "runner (pcs t)" and "runner p"
    and "once s' = 1" and "(started s', finished s') = calls p"
  shows "runner_ok s' (pcs(t := p))"
  using assms unfolding runner_ok_def by (auto simp: fun_upd_def)

lemma runner_step:
  assumes "once_step (sync t) t s (pcs t) s' p" and ok: "runner_ok s pcs" and "counts_ok s"
  shows "runner_ok s' (pcs(t := p))"
proof -
  have r: "runner (pcs t) \<Longrightarrow> once s = 1 \<and> (started s, finished s) = calls (pcs t)"
    using ok by (simp add: runner_ok_def)
  from assms(1) show ?thesis
  proof cases
    case claim
    then have "\<not> runner (pcs u)" for u using ok by (auto simp: runner_ok_def)
    then show ?thesis using claim assms(3) by (auto simp: runner_ok_def counts_ok_def)
  next
    case call
    then show ?thesis using r by (intro runner_acts [OF ok]) auto
  next
    case return
    then show ?thesis using r by (intro runner_acts [OF ok]) auto
  next
    case store
    then have "\<not> runner (pcs u)" if "u \<noteq> t" for u using ok that by (auto simp: runner_ok_def)
    then show ?thesis using store by (auto simp: runner_ok_def)
  qed (auto intro!: runner_quiet [OF ok] simp: lock_mu_def unlock_mu_def)
qed

lemma returns_step:
  assumes "once_step (sync t) t s (pcs t) s' p" and "returns_ok s pcs" and "runner_ok s pcs"
  shows "returns_ok s' (pcs(t := p))"
  using assms(1)
proof cases
  case claim
  then show ?thesis using assms(2) by (auto simp: returns_ok_def)
qed (use assms(2) in \<open>auto simp: returns_ok_def lock_mu_def unlock_mu_def\<close>)

lemma mu_step:
  assumes "once_step (sync t) t s (pcs t) s' p" and "mu_ok sync s pcs"
  shows "mu_ok sync s' (pcs(t := p))"
proof -
  have h: "sync u \<Longrightarrow> holds_mu (pcs u) \<longleftrightarrow> once_mu s = Some u" "\<not> sync u \<Longrightarrow> once_mu s \<noteq> Some u" for u
    using assms(2) by (auto simp: mu_ok_def)
  from assms(1) show ?thesis
    by cases (use h [of t] h in \<open>auto simp: mu_ok_def can_lock_def lock_mu_def unlock_mu_def\<close>)
qed

lemma once_reachable_inv:
  "once_reachable sync s pcs \<Longrightarrow> counts_ok s \<and> runner_ok s pcs \<and> returns_ok s pcs \<and> mu_ok sync s pcs"
proof (induction rule: once_reachable.induct)
  case initial
  then show ?case by (simp add: counts_ok_def runner_ok_def returns_ok_def mu_ok_def)
next
  case (enter s pcs t)
  then have "runner_ok s (pcs(t := O_Fast))" by (intro runner_quiet) auto
  moreover have "returns_ok s (pcs(t := O_Fast))" "mu_ok sync s (pcs(t := O_Fast))"
    using enter by (auto simp: returns_ok_def mu_ok_def)
  ultimately show ?case using enter by blast
next
  case (step s pcs t s' p)
  note st = step.hyps(2)
  show ?case
    using counts_step [of sync t s pcs, OF st] runner_step [of sync t s pcs, OF st] returns_step [of sync t s pcs, OF st]
      mu_step [of sync t s pcs, OF st] step.IH by blast
qed

text \<open>
  C30. \<open>nsync_run_once\<close> and its variants, called by any threads at any time, waiting or spinning: the
  function is called at most once; it has been called and has returned before any of the calls of
  \<open>nsync_run_once\<close> returns; it is called by one thread only, which does not hold the mutex of the
  \<open>once_sync_s\<close> during the call, and no caller returns with that mutex held. While the word is 1 there is
  a thread that is on its way to set it to 2, and its only obstacle is the mutex.
\<close>

theorem nsync_run_once_exactly_once:
  assumes "once_reachable sync s pcs"
  shows "started s \<le> 1
       \<and> (\<forall>t. pcs t = O_Done \<longrightarrow> started s = 1 \<and> finished s = 1)
       \<and> (\<forall>t u. runner (pcs t) \<longrightarrow> runner (pcs u) \<longrightarrow> t = u)
       \<and> (\<forall>t. pcs t \<in> {O_Return, O_Done} \<longrightarrow> once_mu s \<noteq> Some t)
       \<and> (once s = 1 \<longrightarrow> (\<exists>t. runner (pcs t) \<and> (\<exists>s' p. once_step (sync t) t (s\<lparr>once_mu := None\<rparr>) (pcs t) s' p)))"
proof -
  have ok: "counts_ok s" "runner_ok s pcs" "returns_ok s pcs" "mu_ok sync s pcs"
    using once_reachable_inv [OF assms] by auto
  have acts: "\<exists>s' p. once_step (sync t) t (s\<lparr>once_mu := None\<rparr>) (pcs t) s' p" if "runner (pcs t)" for t
  proof (cases "pcs t = O_Relock")
    case True
    have "can_lock (sync t) (s\<lparr>once_mu := None\<rparr>)" by (simp add: can_lock_def)
    then show ?thesis unfolding True by (blast intro: once_step.relock)
  next
    case False
    then show ?thesis using that by (cases "pcs t") (auto intro: once_step.intros)
  qed
  have "once_mu s \<noteq> Some t" if "pcs t \<in> {O_Return, O_Done}" for t
    using ok(4) that by (cases "sync t") (auto simp: mu_ok_def)
  then show ?thesis
    using ok(1-3) acts unfolding counts_ok_def runner_ok_def returns_ok_def by (intro conjI) auto
qed

theorem nsync_run_once_exactly_once_witness:
  "\<exists>s pcs. once_reachable (\<lambda>_. False) s pcs \<and> pcs 0 = O_Return \<and> started s = 1 \<and> once_mu s \<noteq> Some 0"
proof -
  let ?i = "\<lparr>once = 0, once_mu = None, started = 0, finished = 0\<rparr>"
  let ?r = "once_reachable (\<lambda>_. False)"
  let ?p = "\<lambda>x :: once_pc. (\<lambda>_. O_Out)(0 := x)"
  have move: "?r s' (?p q)" if "?r s (?p p)" "once_step False 0 s p s' q" for s s' p q
    using once_reachable.step [where sync = "\<lambda>_. False" and t = 0, OF that(1), of s' q] that(2) by simp
  have "?r ?i (?p O_Fast)"
    using once_reachable.enter [OF once_reachable.initial, where t = 0] by simp
  from move [OF this once_step.fast] have "?r ?i (?p O_Load)" by simp
  from move [OF this once_step.load] have "?r ?i (?p (O_Lock 0))" by simp
  from move [OF this once_step.lock] have "?r ?i (?p (O_Claim 0))" by (simp add: can_lock_def lock_mu_def)
  from move [OF this once_step.claim] have "?r (?i\<lparr>once := 1\<rparr>) (?p O_Unlock)" by simp
  from move [OF this once_step.unlock] have "?r (?i\<lparr>once := 1\<rparr>) (?p O_Call)" by (simp add: unlock_mu_def)
  from move [OF this once_step.call] have r: "?r (?i\<lparr>once := 1, started := 1\<rparr>) (?p O_Return)" by simp
  have "?p O_Return 0 \<in> {O_Return, O_Done}" by simp
  with nsync_run_once_exactly_once [OF r] have "once_mu (?i\<lparr>once := 1, started := 1\<rparr>) \<noteq> Some 0" by blast
  then show ?thesis using r by (intro exI [of _ "?i\<lparr>once := 1, started := 1\<rparr>"] exI [of _ "?p O_Return"]) simp
qed

end
