(* ===== verification/Bufferstream.thy ===== *)
theory Bufferstream
  imports Stream_Base
begin

text \<open>
  \<open>foundation/bufferstream.c\<close>: streams over a memory buffer. The lemmas show that a buffer stream
  is a file of bytes with a position: its contents are the first \<open>size\<close> bytes of the buffer, and
  every operation is the operation on contents and position that its caller expects, within the
  capacity of the buffer.
\<close>

unbundle bit_operations_syntax

section \<open>The operations\<close>

record stream_buffer_t = stream_t +
  bs_current :: size_t
  bs_size :: size_t
  bs_capacity :: size_t
  bs_buffer :: "byte list"
  bs_own :: bool
  bs_grow :: bool
  bs_lastmod :: nat

text \<open>
  \<open>memory_reallocate\<close> keeps the first \<open>oldsize\<close> bytes; \<open>raw\<close> gives the bytes of fresh memory, which are
  not initialized.
\<close>

definition buffer_reallocate :: "(nat \<Rightarrow> byte list) \<Rightarrow> byte list \<Rightarrow> size_t \<Rightarrow> size_t \<Rightarrow> byte list" where
  "buffer_reallocate raw buffer n oldsize = take n (take oldsize buffer) @ drop (min oldsize (length buffer)) (raw n)"

text \<open>A null buffer is \<open>None\<close>; \<open>path\<close> is the formatted address and \<open>now\<close> the value of \<open>time_current\<close>.\<close>

definition buffer_stream_initialize ::
    "byte list option \<Rightarrow> u32 \<Rightarrow> size_t \<Rightarrow> size_t \<Rightarrow> bool \<Rightarrow> bool \<Rightarrow> string \<Rightarrow> nat \<Rightarrow> stream_buffer_t" where
  "buffer_stream_initialize buffer mode sz capacity adopt grow path now =
     (let zeroed = \<lparr>st_type = STREAMTYPE_INVALID, st_sequential = False, st_reliable = False,
            st_inorder = False, st_swap = False, st_byteorder = BYTEORDER_LITTLEENDIAN,
            st_persistent = False, st_compressed = False, st_mode = 0, st_path = [],
            bs_current = 0, bs_size = 0, bs_capacity = 0, bs_buffer = [], bs_own = False, bs_grow = False, bs_lastmod = 0\<rparr>;
          stream = stream_initialize zeroed system_byteorder;
          grow = (if \<not> adopt \<and> grow then False else grow);
          capacity = (if buffer = None then 0 else capacity);
          sz = (if buffer = None then 0 else sz);
          sz = (if sz > capacity then capacity else sz);
          stream = stream\<lparr>st_type := STREAMTYPE_MEMORY, st_path := path,
                     st_mode := mode AND (STREAM_OUT OR STREAM_IN OR STREAM_BINARY),
                     bs_buffer := (case buffer of None \<Rightarrow> [] | Some b \<Rightarrow> b), bs_size := sz, bs_capacity := capacity,
                     bs_own := adopt, bs_grow := (adopt \<and> grow), bs_lastmod := now\<rparr>;
          stream = (if mode AND STREAM_OUT \<noteq> 0 \<and> mode AND STREAM_TRUNCATE \<noteq> 0 then stream\<lparr>bs_size := 0\<rparr> else stream)
      in if mode AND STREAM_ATEND \<noteq> 0 then stream\<lparr>bs_current := bs_size stream\<rparr> else stream)"

text \<open>The bytes a read stores in its destination; their number is its result.\<close>

definition buffer_stream_read :: "stream_buffer_t \<Rightarrow> size_t \<Rightarrow> (stream_buffer_t \<times> byte list) option" where
  "buffer_stream_read s sz =
     do { _ \<leftarrow> c_assert (bs_size s \<ge> bs_current s);
          let available = bs_size s - bs_current s;
          let sz = (if available < sz then available else sz);
          if sz > 0 then
            do { bytes \<leftarrow> mem_load (bs_buffer s) (bs_current s) sz;
                 Some (s\<lparr>bs_current := bs_current s + sz\<rparr>, bytes) }
          else Some (s, []) }"

text \<open>The room a write makes for \<open>want\<close> bytes: the stream and the bytes available in it.\<close>

definition write_room :: "(nat \<Rightarrow> byte list) \<Rightarrow> stream_buffer_t \<Rightarrow> size_t \<Rightarrow> stream_buffer_t \<times> size_t" where
  "write_room raw s want =
     (let available = bs_size s - bs_current s
      in if want > available then
           (if bs_capacity s \<ge> bs_current s + want then (s\<lparr>bs_size := bs_current s + want\<rparr>, want)
            else if bs_grow s then
              (let sz = bs_current s + want;
                   capacity = (if sz < 1024 then 1024 else sz + 1024)
               in (s\<lparr>bs_size := sz, bs_capacity := capacity,
                     bs_buffer := buffer_reallocate raw (bs_buffer s) capacity (bs_capacity s)\<rparr>, want))
            else (s\<lparr>bs_size := bs_capacity s\<rparr>, bs_capacity s - bs_current s))
         else (s, available))"

definition buffer_stream_write ::
    "(nat \<Rightarrow> byte list) \<Rightarrow> nat \<Rightarrow> stream_buffer_t \<Rightarrow> byte list \<Rightarrow> (stream_buffer_t \<times> size_t) option" where
  "buffer_stream_write raw now s source =
     do { _ \<leftarrow> c_assert (bs_size s \<ge> bs_current s);
          let want = length source;
          let (s, available) = write_room raw s want;
          let s = s\<lparr>bs_lastmod := now\<rparr>;
          let sz = (if want < available then want else available);
          if sz > 0 then
            do { b \<leftarrow> mem_store (bs_buffer s) (bs_current s) (take sz source);
                 Some (s\<lparr>bs_buffer := b, bs_current := bs_current s + sz\<rparr>, sz) }
          else Some (s, 0) }"

definition buffer_stream_eos :: "stream_buffer_t \<Rightarrow> bool" where
  "buffer_stream_eos s \<longleftrightarrow> bs_current s \<ge> bs_size s"

definition buffer_stream_truncate :: "(nat \<Rightarrow> byte list) \<Rightarrow> nat \<Rightarrow> stream_buffer_t \<Rightarrow> size_t \<Rightarrow> stream_buffer_t" where
  "buffer_stream_truncate raw now s sz =
     (let s = (if bs_capacity s \<ge> sz then s\<lparr>bs_size := sz\<rparr>
               else if bs_grow s then
                 s\<lparr>bs_capacity := sz, bs_buffer := buffer_reallocate raw (bs_buffer s) sz (bs_current s), bs_size := sz\<rparr>
               else s\<lparr>bs_size := bs_capacity s\<rparr>);
          s = (if bs_current s > bs_size s then s\<lparr>bs_current := bs_size s\<rparr> else s)
      in s\<lparr>bs_lastmod := now\<rparr>)"

definition buffer_stream_size :: "stream_buffer_t \<Rightarrow> size_t" where
  "buffer_stream_size s = bs_size s"

definition buffer_stream_seek :: "stream_buffer_t \<Rightarrow> int \<Rightarrow> stream_seek_mode_t \<Rightarrow> stream_buffer_t" where
  "buffer_stream_seek s offset direction =
     (let abs_offset = nat \<bar>offset\<bar>;
          new_current =
            (case direction of
               STREAM_SEEK_CURRENT \<Rightarrow>
                 if offset < 0 then (if abs_offset > bs_current s then 0 else bs_current s - abs_offset)
                 else bs_current s + abs_offset
             | STREAM_SEEK_BEGIN \<Rightarrow> if offset > 0 then abs_offset else 0
             | STREAM_SEEK_END \<Rightarrow> if offset < 0 then size_sub (bs_size s) abs_offset else bs_size s)
      in s\<lparr>bs_current := (if new_current > bs_size s then bs_size s else new_current)\<rparr>)"

definition buffer_stream_tell :: "stream_buffer_t \<Rightarrow> size_t" where
  "buffer_stream_tell s = bs_current s"

definition buffer_stream_available_read :: "stream_buffer_t \<Rightarrow> size_t" where
  "buffer_stream_available_read s = size_sub (bs_size s) (bs_current s)"

text \<open>The buffer that is given back to the allocator, if it is owned, and the stream without it.\<close>

definition buffer_stream_finalize :: "stream_buffer_t \<Rightarrow> byte list option \<times> stream_buffer_t" where
  "buffer_stream_finalize s =
     (if st_type s \<noteq> STREAMTYPE_MEMORY then (None, s)
      else ((if bs_own s then Some (bs_buffer s) else None), s\<lparr>bs_buffer := []\<rparr>))"

section \<open>A buffer stream is a file\<close>

definition bs_inv :: "stream_buffer_t \<Rightarrow> bool" where
  "bs_inv s \<longleftrightarrow> bs_current s \<le> bs_size s \<and> bs_size s \<le> bs_capacity s \<and> length (bs_buffer s) = bs_capacity s \<and>
     bs_capacity s < SIZE_MOD \<and> (bs_grow s \<longrightarrow> bs_own s)"

definition contents :: "stream_buffer_t \<Rightarrow> byte list" where
  "contents s = take (bs_size s) (bs_buffer s)"

text \<open>The fields that reading, writing and seeking leave alone.\<close>

definition same_stream :: "stream_buffer_t \<Rightarrow> stream_buffer_t \<Rightarrow> bool" where
  "same_stream s s' \<longleftrightarrow>
     stream_t.truncate s' = stream_t.truncate s \<and> bs_own s' = bs_own s \<and> bs_grow s' = bs_grow s"

lemma contents_length: "bs_inv s \<Longrightarrow> length (contents s) = bs_size s"
  by (simp add: bs_inv_def contents_def)

lemma initialize_inv:
  assumes "buffer = None \<or> (\<exists>b. buffer = Some b \<and> length b = capacity)" and "capacity < SIZE_MOD"
  shows "bs_inv (buffer_stream_initialize buffer mode sz capacity adopt grow path now)"
  using assms by (auto simp: buffer_stream_initialize_def bs_inv_def Let_def stream_initialize_def SIZE_MOD_def)

lemma read_file:
  assumes "bs_inv s"
  shows "\<exists>s'. buffer_stream_read s n = Some (s', take n (drop (bs_current s) (contents s))) \<and>
           s' = s\<lparr>bs_current := min (bs_current s + n) (bs_size s)\<rparr>"
proof -
  define k where "k = min n (bs_size s - bs_current s)"
  have "bs_current s + k \<le> length (bs_buffer s)" using assms by (auto simp: bs_inv_def k_def)
  then have l: "mem_load (bs_buffer s) (bs_current s) k = Some (take k (drop (bs_current s) (bs_buffer s)))"
    by (simp add: mem_load_def)
  have t: "take n (drop (bs_current s) (contents s)) = take k (drop (bs_current s) (bs_buffer s))"
    by (simp add: contents_def drop_take min.commute k_def)
  have m: "min (bs_current s + n) (bs_size s) = bs_current s + k" using assms by (auto simp: bs_inv_def k_def)
  have e: "(if bs_size s - bs_current s < n then bs_size s - bs_current s else n) = k" by (auto simp: k_def)
  show ?thesis
    using assms l by (cases "k = 0") (simp_all add: buffer_stream_read_def bs_inv_def Let_def e t m)
qed

lemma write_room_file:
  assumes "bs_inv s" and "\<And>n. length (raw n) = n" and "bs_current s + want + 1024 < SIZE_MOD"
  shows "let (s', available) = write_room raw s want; k = min want available
         in k = (if bs_grow s then want else min want (bs_capacity s - bs_current s)) \<and>
            bs_inv s' \<and> bs_current s' = bs_current s \<and> bs_size s' = max (bs_size s) (bs_current s + k) \<and>
            take (bs_size s) (bs_buffer s') = contents s \<and>
            same_stream s s'"
proof -
  have r: "length (buffer_reallocate raw (bs_buffer s) n (bs_capacity s)) = n"
      "take (bs_size s) (buffer_reallocate raw (bs_buffer s) n (bs_capacity s)) = contents s" if "bs_capacity s \<le> n" for n
    using assms that by (auto simp: buffer_reallocate_def bs_inv_def contents_def)
  have c: "take (bs_size s) (bs_buffer s) = contents s" by (simp add: contents_def)
  consider "want \<le> bs_size s - bs_current s"
    | "want > bs_size s - bs_current s" "bs_capacity s \<ge> bs_current s + want"
    | "bs_capacity s < bs_current s + want" "bs_grow s"
    | "bs_capacity s < bs_current s + want" "\<not> bs_grow s"
    by linarith
  then show ?thesis
  proof cases
    case 1
    then have "write_room raw s want = (s, bs_size s - bs_current s)" by (simp add: write_room_def Let_def)
    then show ?thesis using 1 assms(1) c by (auto simp: bs_inv_def same_stream_def)
  next
    case 2
    then have "write_room raw s want = (s\<lparr>bs_size := bs_current s + want\<rparr>, want)" by (simp add: write_room_def Let_def)
    then show ?thesis using 2 assms(1) c by (auto simp: bs_inv_def same_stream_def stream_t.truncate_def)
  next
    case 3
    define n where "n = (if bs_current s + want < 1024 then 1024 else bs_current s + want + 1024)"
    have n: "bs_current s + want \<le> n" "bs_capacity s \<le> n" "n < SIZE_MOD"
      using 3 assms(3) by (auto simp: n_def SIZE_MOD_def)
    from 3 have "write_room raw s want = (s\<lparr>bs_size := bs_current s + want, bs_capacity := n,
        bs_buffer := buffer_reallocate raw (bs_buffer s) n (bs_capacity s)\<rparr>, want)"
      using 3 assms(1) by (auto simp: write_room_def Let_def n_def bs_inv_def)
    then show ?thesis using 3 assms(1) r [OF n(2)] n by (auto simp: bs_inv_def same_stream_def stream_t.truncate_def)
  next
    case 4
    then have "write_room raw s want = (s\<lparr>bs_size := bs_capacity s\<rparr>, bs_capacity s - bs_current s)"
      using assms(1) by (auto simp: write_room_def Let_def bs_inv_def)
    then show ?thesis using 4 assms(1) c by (auto simp: bs_inv_def same_stream_def stream_t.truncate_def)
  qed
qed

lemma write_file:
  assumes "bs_inv s" and "\<And>n. length (raw n) = n" and "bs_current s + length source + 1024 < SIZE_MOD"
  defines "k \<equiv> (if bs_grow s then length source else min (length source) (bs_capacity s - bs_current s))"
  shows "\<exists>s'. buffer_stream_write raw now s source = Some (s', k) \<and> bs_inv s' \<and>
           contents s' = overwrite (contents s) (bs_current s) (take k source) \<and> bs_current s' = bs_current s + k \<and>
           same_stream s s'"
proof -
  obtain s1 a where room: "write_room raw s (length source) = (s1, a)" by fastforce
  have r: "min (length source) a = k" "bs_inv s1" "bs_current s1 = bs_current s" "bs_size s1 = max (bs_size s) (bs_current s + k)"
      "take (bs_size s) (bs_buffer s1) = contents s"
    and ex: "same_stream s s1"
    using write_room_file [OF assms(1,2,3)] unfolding room k_def prod.case Let_def by (auto split: if_splits)
  have kl: "k \<le> length source" by (simp add: k_def)
  have fit: "bs_current s + k \<le> length (bs_buffer s1)" using r(2,4) by (auto simp: bs_inv_def)
  define b where "b = overwrite (bs_buffer s1) (bs_current s) (take k source)"
  have st: "mem_store (bs_buffer s1) (bs_current s) (take k source) = Some b"
    using fit kl by (simp add: mem_store_def b_def)
  let ?s = "s1\<lparr>bs_lastmod := now, bs_buffer := b, bs_current := bs_current s + k\<rparr>"
  have bl: "length b = length (bs_buffer s1)" using fit kl by (simp add: b_def length_overwrite)
  have inv: "bs_inv ?s" using r(2,4) bl by (auto simp: bs_inv_def)
  have c: "contents ?s = overwrite (contents s) (bs_current s) (take k source)"
  proof -
    have "take (max (bs_size s) (bs_current s + k)) b =
        take (bs_current s) (bs_buffer s1) @ take k source @ drop (bs_current s + k) (take (bs_size s) (bs_buffer s1))"
      using fit kl by (auto simp: b_def overwrite_def drop_take max_def)
    moreover have "take (bs_current s) (bs_buffer s1) = take (bs_current s) (contents s)"
      using assms(1) r(5) [symmetric] by (simp add: bs_inv_def min_absorb1)
    ultimately show ?thesis using kl r(4,5) by (simp add: contents_def overwrite_def min_absorb2)
  qed
  have e: "(if length source < a then length source else a) = k" using r(1) by (auto simp: min_def split: if_splits)
  have same': "same_stream s ?s" using ex by (simp add: same_stream_def stream_t.truncate_def)
  have run: "buffer_stream_write raw now s source =
      (if k > 0 then Some (?s, k) else Some (s1\<lparr>bs_lastmod := now\<rparr>, 0))"
    using assms(1) st r(3) by (simp add: buffer_stream_write_def room e bs_inv_def Let_def)
  have "s1\<lparr>bs_lastmod := now\<rparr> = ?s" if "k = 0"
    using that r(3) by (simp add: b_def)
  then have "buffer_stream_write raw now s source = Some (?s, k)"
    unfolding run by (cases "k = 0") auto
  then show ?thesis using inv c same' by auto
qed

text \<open>Positions after a seek; one that is out of range goes to the nearer end.\<close>

definition clamp :: "int \<Rightarrow> nat \<Rightarrow> nat" where
  "clamp p n = nat (max 0 (min p (int n)))"

lemma seek_file:
  assumes "bs_inv s"
  shows "bs_current (buffer_stream_seek s offset STREAM_SEEK_CURRENT) = clamp (int (bs_current s) + offset) (bs_size s)"
    and "bs_current (buffer_stream_seek s offset STREAM_SEEK_BEGIN) = clamp offset (bs_size s)"
    and "- offset \<le> int (bs_size s) \<Longrightarrow>
         bs_current (buffer_stream_seek s offset STREAM_SEEK_END) = clamp (int (bs_size s) + offset) (bs_size s)"
    and "int (bs_size s) < - offset \<Longrightarrow> - offset \<le> 2 ^ 63 \<Longrightarrow>
         bs_current (buffer_stream_seek s offset STREAM_SEEK_END) = bs_size s"
  using assms
  by (auto simp: buffer_stream_seek_def clamp_def bs_inv_def Let_def size_sub_def SIZE_MOD_def)

lemma seek_keeps:
  "bs_inv s \<Longrightarrow> bs_inv (buffer_stream_seek s offset direction)"
  "contents (buffer_stream_seek s offset direction) = contents s"
  "same_stream s (buffer_stream_seek s offset direction)"
  by (auto simp: buffer_stream_seek_def bs_inv_def contents_def same_stream_def stream_t.truncate_def Let_def)

lemma truncate_file:
  fixes now :: nat
  assumes "bs_inv s" and "\<And>n. length (raw n) = n" and "sz < SIZE_MOD"
  defines "s' \<equiv> buffer_stream_truncate raw now s sz"
  shows "bs_inv s'" and "length (contents s') = (if bs_grow s then sz else min sz (bs_capacity s))"
    and "bs_current s' = min (bs_current s) (length (contents s'))"
    and "sz \<le> bs_capacity s \<or> \<not> bs_grow s \<Longrightarrow> take (bs_size s) (contents s') = take sz (contents s)"
    and "bs_capacity s < sz \<Longrightarrow> bs_grow s \<Longrightarrow> take (bs_current s) (contents s') = take (bs_current s) (contents s)"
proof -
  consider "sz \<le> bs_capacity s" | "bs_capacity s < sz" "bs_grow s" | "bs_capacity s < sz" "\<not> bs_grow s" by linarith
  then have "bs_inv s' \<and> length (contents s') = (if bs_grow s then sz else min sz (bs_capacity s)) \<and>
      bs_current s' = min (bs_current s) (length (contents s')) \<and>
      (sz \<le> bs_capacity s \<or> \<not> bs_grow s \<longrightarrow> take (bs_size s) (contents s') = take sz (contents s)) \<and>
      (bs_capacity s < sz \<longrightarrow> bs_grow s \<longrightarrow> take (bs_current s) (contents s') = take (bs_current s) (contents s))"
  proof cases
    case 1
    then show ?thesis using assms(1) by (auto simp: s'_def buffer_stream_truncate_def bs_inv_def contents_def Let_def min_def)
  next
    case 2
    then show ?thesis using assms(1,2,3)
      by (auto simp: s'_def buffer_stream_truncate_def bs_inv_def contents_def Let_def min_def buffer_reallocate_def)
  next
    case 3
    then show ?thesis using assms(1) by (auto simp: s'_def buffer_stream_truncate_def bs_inv_def contents_def Let_def min_def)
  qed
  then show "bs_inv s'" "length (contents s') = (if bs_grow s then sz else min sz (bs_capacity s))"
    "bs_current s' = min (bs_current s) (length (contents s'))"
    "sz \<le> bs_capacity s \<or> \<not> bs_grow s \<Longrightarrow> take (bs_size s) (contents s') = take sz (contents s)"
    "bs_capacity s < sz \<Longrightarrow> bs_grow s \<Longrightarrow> take (bs_current s) (contents s') = take (bs_current s) (contents s)"
    by blast+
qed

lemma read_keeps:
  "bs_inv s \<Longrightarrow> bs_inv (s\<lparr>bs_current := min p (bs_size s)\<rparr>)"
  "contents (s\<lparr>bs_current := p\<rparr>) = contents s"
  by (auto simp: bs_inv_def contents_def)

section \<open>Properties\<close>

text \<open>
  C31. A buffer stream is a file with a position. A read returns the bytes from the position on, as
  many as asked for or left, and advances by their number. A write puts its bytes at the position over
  the old ones, extending the contents; a stream that may grow takes all of them, one that may not
  takes what fits into its buffer. A seek moves the position, to the nearer end if it is out of range,
  but a seek from the end to before the start goes to the end. The size, the position and the end of
  the stream are those of the file, and the invariant of the stream (position within size within
  capacity, which is the length of the buffer) is kept, so that no access is outside of the buffer.
\<close>

theorem buffer_stream_refines_file:
  assumes "bs_inv s" and "\<And>n. length (raw n) = n" and "bs_current s + length source + 1024 < SIZE_MOD"
  shows "(\<exists>s'. buffer_stream_read s n = Some (s', take n (drop (bs_current s) (contents s))) \<and> bs_inv s' \<and>
             contents s' = contents s \<and> bs_current s' = min (bs_current s + n) (length (contents s)))
       \<and> (\<exists>s' k. buffer_stream_write raw now s source = Some (s', k) \<and> bs_inv s' \<and>
             k = (if bs_grow s then length source else min (length source) (bs_capacity s - bs_current s)) \<and>
             contents s' = overwrite (contents s) (bs_current s) (take k source) \<and> bs_current s' = bs_current s + k)
       \<and> (\<forall>direction offset. bs_inv (buffer_stream_seek s offset direction) \<and> contents (buffer_stream_seek s offset direction) = contents s)
       \<and> (\<forall>offset. bs_current (buffer_stream_seek s offset STREAM_SEEK_CURRENT) = clamp (int (bs_current s) + offset) (length (contents s)))
       \<and> (\<forall>offset. bs_current (buffer_stream_seek s offset STREAM_SEEK_BEGIN) = clamp offset (length (contents s)))
       \<and> (\<forall>offset. - offset \<le> 2 ^ 63 \<longrightarrow> bs_current (buffer_stream_seek s offset STREAM_SEEK_END) =
             (if - offset \<le> int (length (contents s)) then clamp (int (length (contents s)) + offset) (length (contents s)) else length (contents s)))
       \<and> buffer_stream_size s = length (contents s) \<and> buffer_stream_tell s = bs_current s
       \<and> (buffer_stream_eos s \<longleftrightarrow> drop (bs_current s) (contents s) = [])
       \<and> buffer_stream_available_read s = length (drop (bs_current s) (contents s))"
proof -
  have l: "length (contents s) = bs_size s" by (rule contents_length [OF assms(1)])
  have "\<exists>s'. buffer_stream_read s n = Some (s', take n (drop (bs_current s) (contents s))) \<and> bs_inv s' \<and>
             contents s' = contents s \<and> bs_current s' = min (bs_current s + n) (length (contents s))"
    using read_file [OF assms(1), of n] read_keeps assms(1) by (auto simp: l)
  moreover have "\<exists>s' k. buffer_stream_write raw now s source = Some (s', k) \<and> bs_inv s' \<and>
             k = (if bs_grow s then length source else min (length source) (bs_capacity s - bs_current s)) \<and>
             contents s' = overwrite (contents s) (bs_current s) (take k source) \<and> bs_current s' = bs_current s + k"
    using write_file [OF assms] by blast
  moreover have "- offset \<le> 2 ^ 63 \<longrightarrow> bs_current (buffer_stream_seek s offset STREAM_SEEK_END) =
             (if - offset \<le> int (bs_size s) then clamp (int (bs_size s) + offset) (bs_size s) else bs_size s)" for offset
    using seek_file(3,4) [OF assms(1), of offset] by auto
  ultimately show ?thesis
    using seek_file(1,2) [OF assms(1)] seek_keeps(1) [OF assms(1)] seek_keeps(2) assms(1) unfolding l
    by (auto simp: buffer_stream_size_def buffer_stream_tell_def buffer_stream_eos_def buffer_stream_available_read_def l bs_inv_def)
qed

definition example_stream :: stream_buffer_t where
  "example_stream = buffer_stream_initialize (Some [1, 2, 3, 4]) (STREAM_IN OR STREAM_OUT) 4 4 True True [] 0"

theorem buffer_stream_refines_file_witness:
  "bs_inv example_stream \<and> contents example_stream = [1, 2, 3, 4] \<and>
   (\<exists>s k. buffer_stream_write (\<lambda>n. replicate n 0) 0 example_stream [9, 8, 7, 6, 5] = Some (s, k) \<and> contents s = [9, 8, 7, 6, 5])"
proof -
  have i: "bs_inv example_stream"
    unfolding example_stream_def by (rule initialize_inv) (auto simp: SIZE_MOD_def)
  have c: "contents example_stream = [1, 2, 3, 4]" "bs_current example_stream = 0" "bs_grow example_stream"
    by (simp_all add: example_stream_def buffer_stream_initialize_def stream_initialize_def contents_def Let_def
        STREAM_OUT_def STREAM_IN_def STREAM_TRUNCATE_def STREAM_ATEND_def)
  have raw: "length (replicate n (0 :: byte)) = n" for n by simp
  have b: "bs_current example_stream + length [9, 8, 7, 6, 5 :: byte] + 1024 < SIZE_MOD" using c by (simp add: SIZE_MOD_def)
  show ?thesis
    using buffer_stream_refines_file [OF i raw b, where now = 0 and n = 0, THEN conjunct2, THEN conjunct1] i c
    by (auto simp: overwrite_def)
qed

text \<open>
  C32. What truncating does to the file. Within the capacity the size is set, keeping the bytes; beyond
  it a stream that may not grow takes its capacity as size. A stream that grows gets exactly the new
  size, and then only the bytes in front of the position are sure to be kept, because the position is
  passed as the number of bytes to preserve.
\<close>

theorem buffer_stream_truncate_correct:
  assumes "bs_inv s" and "\<And>n. length (raw n) = n" and "sz < SIZE_MOD"
  shows "bs_inv (buffer_stream_truncate raw now s sz)
       \<and> length (contents (buffer_stream_truncate raw now s sz)) = (if bs_grow s then sz else min sz (bs_capacity s))
       \<and> bs_current (buffer_stream_truncate raw now s sz) = min (bs_current s) (length (contents (buffer_stream_truncate raw now s sz)))
       \<and> (sz \<le> bs_capacity s \<or> \<not> bs_grow s \<longrightarrow> take (bs_size s) (contents (buffer_stream_truncate raw now s sz)) = take sz (contents s))
       \<and> (bs_capacity s < sz \<longrightarrow> bs_grow s \<longrightarrow>
            contents (buffer_stream_truncate raw now s sz) = take (bs_current s) (contents s) @ drop (bs_current s) (raw sz))"
proof -
  have "contents (buffer_stream_truncate raw now s sz) = take (bs_current s) (contents s) @ drop (bs_current s) (raw sz)"
    if "bs_capacity s < sz" "bs_grow s"
    using that assms by (auto simp: buffer_stream_truncate_def bs_inv_def contents_def Let_def min_def buffer_reallocate_def)
  then show ?thesis using truncate_file [OF assms] by blast
qed

theorem buffer_stream_truncate_correct_witness:
  "contents (buffer_stream_truncate (\<lambda>n. replicate n 0) 0 example_stream 6) = [0, 0, 0, 0, 0, 0]"
proof -
  have i: "bs_inv example_stream"
    unfolding example_stream_def by (rule initialize_inv) (auto simp: SIZE_MOD_def)
  have c: "bs_capacity example_stream = 4" "bs_current example_stream = 0" "bs_grow example_stream"
    by (simp_all add: example_stream_def buffer_stream_initialize_def stream_initialize_def Let_def
        STREAM_OUT_def STREAM_IN_def STREAM_TRUNCATE_def STREAM_ATEND_def)
  have raw: "length (replicate n (0 :: byte)) = n" for n by simp
  have b: "(6 :: nat) < SIZE_MOD" by (simp add: SIZE_MOD_def)
  show ?thesis
    using buffer_stream_truncate_correct [OF i raw b, of 0] c by (simp add: numeral_eq_Suc)
qed

end
