(* ===== verification/Stream.thy ===== *)
theory Stream
  imports Bufferstream String_Search
begin

text \<open>
  \<open>foundation/stream.c\<close>: the operations every stream offers, over the table of functions of its kind.
  The contract of a stream that behaves like a file is a locale; what the operations do is proved
  from it once, and buffer streams are shown to meet it.
\<close>

section \<open>The table of functions\<close>

text \<open>Entries that may be null are optional; a read gives the bytes it stored.\<close>

record 's stream_vtable_t =
  vt_read :: "'s \<Rightarrow> size_t \<Rightarrow> ('s \<times> byte list) option"
  vt_write :: "'s \<Rightarrow> byte list \<Rightarrow> ('s \<times> size_t) option"
  vt_eos :: "('s \<Rightarrow> bool) option"
  vt_truncate :: "('s \<Rightarrow> size_t \<Rightarrow> 's) option"
  vt_size :: "('s \<Rightarrow> size_t) option"
  vt_seek :: "('s \<Rightarrow> int \<Rightarrow> stream_seek_mode_t \<Rightarrow> 's) option"
  vt_tell :: "('s \<Rightarrow> size_t) option"
  vt_md5 :: "('s \<Rightarrow> 's \<times> u64 \<times> u64) option"
  vt_sha256 :: "('s \<Rightarrow> 's \<times> u64 list) option"
  vt_sha512 :: "('s \<Rightarrow> 's \<times> u64 list) option"
  vt_available_read :: "('s \<Rightarrow> size_t) option"

definition stream_is_binary :: "'a stream_t_scheme \<Rightarrow> bool" where
  "stream_is_binary stream \<longleftrightarrow> \<not> (st_mode stream AND STREAM_BINARY = 0)"

definition stream_is_sequential :: "'a stream_t_scheme \<Rightarrow> bool" where
  "stream_is_sequential stream \<longleftrightarrow> st_sequential stream"

definition stream_set_binary :: "'a stream_t_scheme \<Rightarrow> bool \<Rightarrow> 'a stream_t_scheme" where
  "stream_set_binary stream binary =
     stream\<lparr>st_mode := (if binary then st_mode stream OR STREAM_BINARY else st_mode stream AND NOT STREAM_BINARY)\<rparr>"

definition stream_set_byteorder :: "'a stream_t_scheme \<Rightarrow> byteorder_t \<Rightarrow> 'a stream_t_scheme" where
  "stream_set_byteorder stream order = stream\<lparr>st_byteorder := order, st_swap := (order \<noteq> system_byteorder)\<rparr>"

definition stream_eos :: "'s stream_vtable_t \<Rightarrow> 's \<Rightarrow> bool" where
  "stream_eos vt stream = (case vt_eos vt of Some f \<Rightarrow> f stream | None \<Rightarrow> False)"

definition stream_seek :: "'s stream_vtable_t \<Rightarrow> 's \<Rightarrow> int \<Rightarrow> stream_seek_mode_t \<Rightarrow> 's" where
  "stream_seek vt stream offset direction = (case vt_seek vt of Some f \<Rightarrow> f stream offset direction | None \<Rightarrow> stream)"

definition stream_tell :: "'s stream_vtable_t \<Rightarrow> 's \<Rightarrow> size_t" where
  "stream_tell vt stream = (case vt_tell vt of Some f \<Rightarrow> f stream | None \<Rightarrow> 0)"

definition stream_size :: "'s stream_vtable_t \<Rightarrow> 's \<Rightarrow> size_t" where
  "stream_size vt stream = (case vt_size vt of Some f \<Rightarrow> f stream | None \<Rightarrow> 0)"

definition stream_truncate :: "'s stream_vtable_t \<Rightarrow> 's \<Rightarrow> size_t \<Rightarrow> 's" where
  "stream_truncate vt stream sz = (case vt_truncate vt of Some f \<Rightarrow> f stream sz | None \<Rightarrow> stream)"

text \<open>The result is cut to 32 bits.\<close>

definition stream_available_read :: "'s stream_vtable_t \<Rightarrow> 's \<Rightarrow> size_t" where
  "stream_available_read vt stream =
     (case vt_available_read vt of
        Some f \<Rightarrow> f stream mod 2 ^ 32
      | None \<Rightarrow> size_sub (stream_size vt stream) (stream_tell vt stream) mod 2 ^ 32)"

definition stream_read ::
    "'a stream_t_scheme stream_vtable_t \<Rightarrow> 'a stream_t_scheme \<Rightarrow> size_t \<Rightarrow> ('a stream_t_scheme \<times> byte list) option" where
  "stream_read vt stream sz =
     (if st_mode stream AND STREAM_IN = 0 then Some (stream, []) else vt_read vt stream sz)"

definition stream_write ::
    "'a stream_t_scheme stream_vtable_t \<Rightarrow> 'a stream_t_scheme \<Rightarrow> byte list \<Rightarrow> ('a stream_t_scheme \<times> size_t) option" where
  "stream_write vt stream buffer =
     (if st_mode stream AND STREAM_OUT = 0 then Some (stream, 0) else vt_write vt stream buffer)"

definition stream_write_string ::
    "'a stream_t_scheme stream_vtable_t \<Rightarrow> 'a stream_t_scheme \<Rightarrow> byte list \<Rightarrow> 'a stream_t_scheme option" where
  "stream_write_string vt stream str =
     do { stream \<leftarrow> (if str \<noteq> [] then map_option fst (stream_write vt stream str) else Some stream);
          if stream_is_binary stream then map_option fst (stream_write vt stream [0]) else Some stream }"

definition stream_write_separator ::
    "'a stream_t_scheme stream_vtable_t \<Rightarrow> 'a stream_t_scheme \<Rightarrow> 'a stream_t_scheme option" where
  "stream_write_separator vt stream =
     (if \<not> stream_is_binary stream then map_option fst (stream_write vt stream [32]) else Some stream)"

section \<open>Copying\<close>

text \<open>One round of the copying loop: a fault, the end with the result, or the next round.\<close>

datatype ('s, 't) copy_round = Copy_Fault | Copy_End 's 't bool | Copy_Next 's 't

definition copy_step ::
    "'a stream_t_scheme stream_vtable_t \<Rightarrow> 'b stream_t_scheme stream_vtable_t \<Rightarrow> 'a stream_t_scheme \<Rightarrow> 'b stream_t_scheme \<Rightarrow>
     ('a stream_t_scheme, 'b stream_t_scheme) copy_round" where
  "copy_step vs vd source destination =
     (if stream_eos vs source then Copy_End source destination True
      else case stream_read vs source 4096 of
             None \<Rightarrow> Copy_Fault
           | Some (source, buffer) \<Rightarrow>
               if buffer \<noteq> [] then
                 (case stream_write vd destination buffer of
                    None \<Rightarrow> Copy_Fault
                  | Some (destination, n) \<Rightarrow>
                      if n \<noteq> length buffer then Copy_End source destination False else Copy_Next source destination)
               else Copy_Next source destination)"

text \<open>\<^const>\<open>None\<close>: the loop does not end; \<open>Some None\<close>: an access outside of a buffer.\<close>

partial_function (option) stream_copy ::
    "'a stream_t_scheme stream_vtable_t \<Rightarrow> 'b stream_t_scheme stream_vtable_t \<Rightarrow> 'a stream_t_scheme \<Rightarrow> 'b stream_t_scheme \<Rightarrow>
     ('a stream_t_scheme \<times> 'b stream_t_scheme \<times> bool) option option" where
  "stream_copy vs vd source destination =
     (case copy_step vs vd source destination of
        Copy_Fault \<Rightarrow> Some None
      | Copy_End source destination success \<Rightarrow> Some (Some (source, destination, success))
      | Copy_Next source destination \<Rightarrow> stream_copy vs vd source destination)"

section \<open>Reading lines\<close>

text \<open>
  The bytes up to the delimiter, and the stream after a chunk of which \<open>i\<close> bytes belong to the line: the
  rest of the chunk behind the delimiter is given back.
\<close>

definition line_part :: "byte \<Rightarrow> byte list \<Rightarrow> nat" where
  "line_part delimiter bytes = length (takeWhile (\<lambda>c. c \<noteq> delimiter) bytes)"

lemma line_part_pos: "\<not> line_part delimiter bytes < length bytes \<Longrightarrow> bytes \<noteq> [] \<Longrightarrow> 0 < line_part delimiter bytes"
  by (cases bytes) (auto simp: line_part_def)

definition give_back :: "'s stream_vtable_t \<Rightarrow> 's \<Rightarrow> nat \<Rightarrow> nat \<Rightarrow> 's" where
  "give_back vt stream i n =
     (if i + 1 < n then stream_seek vt stream (int (1 + i) - int n) STREAM_SEEK_CURRENT else stream)"

function read_line_loop ::
    "'s stream_vtable_t \<Rightarrow> 's \<Rightarrow> byte list \<Rightarrow> nat \<Rightarrow> nat \<Rightarrow> nat \<Rightarrow> byte \<Rightarrow> ('s \<times> byte list \<times> nat) option" where
  "read_line_loop vt stream dest count' total' hardlimit delimiter =
     (if stream_eos vt stream then Some (stream, dest, total')
      else let limit = count' - total';
               limit = (if limit > hardlimit then hardlimit else limit)
           in if limit = 0 then Some (stream, dest, total')
              else case vt_read vt stream limit of
                     None \<Rightarrow> None
                   | Some (stream, bytes) \<Rightarrow>
                       if bytes = [] then Some (stream, dest, total')
                       else case mem_store dest total' bytes of
                              None \<Rightarrow> None
                            | Some dest \<Rightarrow>
                                let i = line_part delimiter bytes
                                in if i < length bytes then Some (give_back vt stream i (length bytes), dest, total' + i)
                                   else read_line_loop vt stream dest count' (total' + i) hardlimit delimiter)"
  by pat_completeness auto
termination
  by (relation "measure (\<lambda>(vt, stream, dest, count', total', hardlimit, delimiter). count' - total')")
     (auto dest: line_part_pos split: if_splits)

declare read_line_loop.simps [simp del]

definition stream_read_line_buffer ::
    "'a stream_t_scheme stream_vtable_t \<Rightarrow> 'a stream_t_scheme \<Rightarrow> byte list option \<Rightarrow> nat \<Rightarrow> byte \<Rightarrow>
     ('a stream_t_scheme \<times> byte list option \<times> nat) option" where
  "stream_read_line_buffer vt stream dest n delimiter =
     (case dest of
        None \<Rightarrow> Some (stream, None, 0)
      | Some dest \<Rightarrow>
          if st_mode stream AND STREAM_IN = 0 \<or> n < 2 then
            (if n \<noteq> 0 then do { dest \<leftarrow> mem_set dest 0 0; Some (stream, Some dest, 0) } else Some (stream, Some dest, 0))
          else
            do { (stream, dest, total') \<leftarrow>
                   read_line_loop vt stream dest (n - 1) 0 (if stream_is_sequential stream then 1 else 128) delimiter;
                 dest \<leftarrow> mem_set dest total' 0;
                 Some (stream, Some dest, total') })"

section \<open>Whitespace and text detection\<close>

datatype 's skip_round = Skip_Fault | Skip_End 's nat | Skip_Next 's nat

text \<open>\<open>STRING_WHITESPACE\<close>: space, newline, carriage return, tab, vertical tab and form feed.\<close>

definition STRING_WHITESPACE :: "byte list" where
  "STRING_WHITESPACE = [32, 10, 13, 9, 11, 12]"

definition skip_step :: "'s stream_vtable_t \<Rightarrow> 's \<Rightarrow> nat \<Rightarrow> 's skip_round" where
  "skip_step vt stream total' =
     (case vt_read vt stream 1 of
        None \<Rightarrow> Skip_Fault
      | Some (stream, []) \<Rightarrow> Skip_End stream total'
      | Some (stream, token # tokens) \<Rightarrow>
          let total' = total' + length (token # tokens)
          in case string_find STRING_WHITESPACE (length STRING_WHITESPACE) token 0 of
               None \<Rightarrow> Skip_Fault
             | Some i \<Rightarrow> if i \<noteq> STRING_NPOS then Skip_Next stream total'
                        else Skip_End (stream_seek vt stream (- 1) STREAM_SEEK_CURRENT) (total' - 1))"

partial_function (option) skip_loop :: "'s stream_vtable_t \<Rightarrow> 's \<Rightarrow> nat \<Rightarrow> ('s \<times> nat) option option" where
  "skip_loop vt stream total' =
     (case skip_step vt stream total' of
        Skip_Fault \<Rightarrow> Some None
      | Skip_End stream total' \<Rightarrow> Some (Some (stream, total'))
      | Skip_Next stream total' \<Rightarrow> skip_loop vt stream total')"

definition stream_skip_whitespace ::
    "'a stream_t_scheme stream_vtable_t \<Rightarrow> 'a stream_t_scheme \<Rightarrow> ('a stream_t_scheme \<times> nat) option option" where
  "stream_skip_whitespace vt stream =
     (if st_mode stream AND STREAM_IN = 0 \<or> st_mode stream AND STREAM_BINARY \<noteq> 0 \<or> stream_is_sequential stream
      then Some (Some (stream, 0)) else skip_loop vt stream 0)"

text \<open>A byte that makes a stream binary; \<open>char\<close> is signed, so bytes from 128 on compare as negative.\<close>

definition binary_char :: "byte \<Rightarrow> bool" where
  "binary_char c \<longleftrightarrow> sint c < 0x20 \<and> c \<noteq> 0x09 \<and> c \<noteq> 0x0a \<and> c \<noteq> 0x0d \<or> sint c > 0x7e"

definition stream_determine_binary_mode ::
    "'a stream_t_scheme stream_vtable_t \<Rightarrow> 'a stream_t_scheme \<Rightarrow> size_t \<Rightarrow> 'a stream_t_scheme option" where
  "stream_determine_binary_mode vt stream n =
     (if st_mode stream AND STREAM_IN = 0 \<or> stream_is_sequential stream then Some stream
      else let n = (if n = 0 then 8 else n);
               cur = stream_tell vt stream
           in do { (stream, bytes) \<leftarrow> stream_read vt stream n;
                   let stream = stream_seek vt stream (int cur) STREAM_SEEK_BEGIN;
                   let stream = stream\<lparr>st_mode := st_mode stream AND NOT STREAM_BINARY\<rparr>;
                   Some (if list_ex binary_char bytes then stream\<lparr>st_mode := st_mode stream OR STREAM_BINARY\<rparr> else stream) })"

section \<open>Streams that are files\<close>

text \<open>
  The contract: a stream stands for the bytes of a file and a position in it. Reads, seeks and the
  end of the stream are those of the file, and the common fields of the stream stay as they are.
\<close>

locale file_stream =
  fixes vt :: "'a stream_t_scheme stream_vtable_t"
    and fil :: "'a stream_t_scheme \<Rightarrow> byte list"
    and pos :: "'a stream_t_scheme \<Rightarrow> nat"
    and ok :: "'a stream_t_scheme \<Rightarrow> bool"
  assumes pos_le: "ok s \<Longrightarrow> pos s \<le> length (fil s)"
    and read_law: "ok s \<Longrightarrow> \<exists>s'. vt_read vt s n = Some (s', take n (drop (pos s) (fil s))) \<and> ok s' \<and>
      fil s' = fil s \<and> pos s' = min (pos s + n) (length (fil s)) \<and> stream_t.truncate s' = stream_t.truncate s"
    and eos_law: "ok s \<Longrightarrow> stream_eos vt s \<longleftrightarrow> pos s = length (fil s)"
    and tell_law: "ok s \<Longrightarrow> stream_tell vt s = pos s"
    and seek_law: "ok s \<Longrightarrow> ok (stream_seek vt s offset direction) \<and> fil (stream_seek vt s offset direction) = fil s \<and>
      stream_t.truncate (stream_seek vt s offset direction) = stream_t.truncate s"
    and seek_current: "ok s \<Longrightarrow> pos (stream_seek vt s offset STREAM_SEEK_CURRENT) = clamp (int (pos s) + offset) (length (fil s))"
    and seek_begin: "ok s \<Longrightarrow> pos (stream_seek vt s offset STREAM_SEEK_BEGIN) = clamp offset (length (fil s))"

text \<open>One that can also be written, as long as what it accepts suffices.\<close>

locale writable_stream = file_stream +
  fixes room :: "'a stream_t_scheme \<Rightarrow> nat \<Rightarrow> bool"
  assumes write_law: "ok s \<Longrightarrow> room s (length xs) \<Longrightarrow> \<exists>s'. vt_write vt s xs = Some (s', length xs) \<and> ok s' \<and>
      fil s' = overwrite (fil s) (pos s) xs \<and> pos s' = pos s + length xs \<and> stream_t.truncate s' = stream_t.truncate s \<and>
      (\<forall>n. room s (length xs + n) \<longrightarrow> room s' n)"
    and room_mono: "room s n \<Longrightarrow> m \<le> n \<Longrightarrow> room s m"

definition buffer_stream_vtable :: "(nat \<Rightarrow> byte list) \<Rightarrow> nat \<Rightarrow> stream_buffer_t stream_vtable_t" where
  "buffer_stream_vtable raw now =
     \<lparr>vt_read = buffer_stream_read, vt_write = buffer_stream_write raw now, vt_eos = Some buffer_stream_eos,
      vt_truncate = Some (buffer_stream_truncate raw now), vt_size = Some buffer_stream_size, vt_seek = Some buffer_stream_seek,
      vt_tell = Some buffer_stream_tell, vt_md5 = None, vt_sha256 = None, vt_sha512 = None, vt_available_read = Some buffer_stream_available_read\<rparr>"

definition buffer_room :: "stream_buffer_t \<Rightarrow> nat \<Rightarrow> bool" where
  "buffer_room s n \<longleftrightarrow> (bs_grow s \<or> bs_current s + n \<le> bs_capacity s) \<and> bs_current s + n + 1024 < SIZE_MOD"

lemma write_capacity:
  "buffer_stream_write raw now s xs = Some (s', k) \<Longrightarrow> bs_capacity s \<le> bs_capacity s'"
  by (auto simp: buffer_stream_write_def write_room_def Let_def split: if_splits Option.bind_splits)

interpretation bufs: file_stream "buffer_stream_vtable raw now" contents bs_current bs_inv for raw now
proof
  fix s :: stream_buffer_t and n offset direction
  assume i: "bs_inv s"
  have l: "length (contents s) = bs_size s" by (rule contents_length [OF i])
  show "bs_current s \<le> length (contents s)" using i by (simp add: l bs_inv_def)
  show "\<exists>s'. vt_read (buffer_stream_vtable raw now) s n = Some (s', take n (drop (bs_current s) (contents s))) \<and> bs_inv s' \<and>
      contents s' = contents s \<and> bs_current s' = min (bs_current s + n) (length (contents s)) \<and> stream_t.truncate s' = stream_t.truncate s"
    using read_file [OF i, of n] read_keeps i by (auto simp: buffer_stream_vtable_def l stream_t.truncate_def)
  show "stream_eos (buffer_stream_vtable raw now) s \<longleftrightarrow> bs_current s = length (contents s)"
    using i by (auto simp: stream_eos_def buffer_stream_vtable_def buffer_stream_eos_def l bs_inv_def)
  show "stream_tell (buffer_stream_vtable raw now) s = bs_current s"
    by (simp add: stream_tell_def buffer_stream_vtable_def buffer_stream_tell_def)
  show "bs_inv (stream_seek (buffer_stream_vtable raw now) s offset direction) \<and>
      contents (stream_seek (buffer_stream_vtable raw now) s offset direction) = contents s \<and>
      stream_t.truncate (stream_seek (buffer_stream_vtable raw now) s offset direction) = stream_t.truncate s"
    using seek_keeps(1) [OF i] seek_keeps(2,3) [of s offset direction] by (simp add: stream_seek_def buffer_stream_vtable_def same_stream_def)
  show "bs_current (stream_seek (buffer_stream_vtable raw now) s offset STREAM_SEEK_CURRENT) = clamp (int (bs_current s) + offset) (length (contents s))"
    "bs_current (stream_seek (buffer_stream_vtable raw now) s offset STREAM_SEEK_BEGIN) = clamp offset (length (contents s))"
    using seek_file(1,2) [OF i] by (simp_all add: stream_seek_def buffer_stream_vtable_def l)
qed

lemma buffer_writable:
  assumes raw: "\<And>n. length (raw n) = n"
  shows "writable_stream (buffer_stream_vtable raw now) contents bs_current bs_inv buffer_room"
proof (intro writable_stream.intro writable_stream_axioms.intro)
  show "file_stream (buffer_stream_vtable raw now) contents bs_current bs_inv" ..
  show "\<exists>s'. vt_write (buffer_stream_vtable raw now) s xs = Some (s', length xs) \<and> bs_inv s' \<and>
      contents s' = overwrite (contents s) (bs_current s) xs \<and> bs_current s' = bs_current s + length xs \<and>
      stream_t.truncate s' = stream_t.truncate s \<and> (\<forall>n. buffer_room s (length xs + n) \<longrightarrow> buffer_room s' n)"
    if i: "bs_inv s" and r: "buffer_room s (length xs)" for s xs
  proof -
    have b: "bs_current s + length xs + 1024 < SIZE_MOD" using r by (simp add: buffer_room_def)
    have k: "(if bs_grow s then length xs else min (length xs) (bs_capacity s - bs_current s)) = length xs"
      using r by (auto simp: buffer_room_def)
    obtain s' where s': "buffer_stream_write raw now s xs = Some (s', length xs)" "bs_inv s'"
        "contents s' = overwrite (contents s) (bs_current s) xs" "bs_current s' = bs_current s + length xs" "same_stream s s'"
        "bs_capacity s \<le> bs_capacity s'"
      using write_file [OF i raw b, where now = now] write_capacity [of raw now s xs] unfolding k by auto
    then show ?thesis by (auto simp: buffer_stream_vtable_def same_stream_def buffer_room_def)
  qed
  show "buffer_room s m" if "buffer_room s n" "m \<le> n" for s m n
    using that by (auto simp: buffer_room_def)
qed

section \<open>Lines\<close>

lemma line_part_simps [simp]:
  "line_part d [] = 0" "line_part d (x # xs) = (if x = d then 0 else Suc (line_part d xs))"
  by (simp_all add: line_part_def)

lemma line_part_take: "line_part d (take n xs) = min n (line_part d xs)"
  by (induction xs arbitrary: n) (auto simp: take_Cons split: nat.splits)

lemma line_part_le: "line_part d xs \<le> length xs"
  by (induction xs) auto

lemma line_part_append:
  "line_part d (xs @ ys) = (if line_part d xs < length xs then line_part d xs else length xs + line_part d ys)"
  by (induction xs) auto

text \<open>Where a line of at most \<open>n\<close> bytes ends: how many bytes are in it, and how many are consumed.\<close>

definition line_length :: "byte \<Rightarrow> nat \<Rightarrow> byte list \<Rightarrow> nat" where
  "line_length d n xs = min n (line_part d xs)"

definition line_consumed :: "byte \<Rightarrow> nat \<Rightarrow> byte list \<Rightarrow> nat" where
  "line_consumed d n xs = (if line_part d xs < n \<and> line_part d xs < length xs then line_part d xs + 1 else line_length d n xs)"

lemma line_split:
  assumes "\<not> line_part d (take m xs) < length (take m xs)" and "m \<le> n"
  defines "k \<equiv> length (take m xs)"
  shows "line_length d n xs = k + line_length d (n - k) (drop k xs)"
    and "line_consumed d n xs = k + line_consumed d (n - k) (drop k xs)"
proof -
  have "xs = take m xs @ drop k xs" by (simp add: k_def min_def)
  then have p: "line_part d xs = k + line_part d (drop k xs)"
    using line_part_append [of d "take m xs" "drop k xs"] assms(1) unfolding k_def by metis
  have kn: "k \<le> n" "k \<le> length xs" using assms(2) by (auto simp: k_def)
  show "line_length d n xs = k + line_length d (n - k) (drop k xs)"
    using p kn by (auto simp: line_length_def)
  show "line_consumed d n xs = k + line_consumed d (n - k) (drop k xs)"
    using p kn by (auto simp: line_consumed_def line_length_def)
qed

lemma drop_eq_Cons_nth: "drop n xs = y # ys \<Longrightarrow> n < length xs \<and> xs ! n = y"
  by (metis Cons_nth_drop_Suc drop_all linorder_not_le list.distinct(1) list.inject)

lemma whitespace_found:
  "\<exists>i. string_find STRING_WHITESPACE (length STRING_WHITESPACE) c 0 = Some i \<and> (i \<noteq> STRING_NPOS \<longleftrightarrow> c \<in> set STRING_WHITESPACE)"
proof -
  let ?f = "List.find (\<lambda>i. STRING_WHITESPACE ! i = c) [0..<length STRING_WHITESPACE]"
  have "npos ?f \<noteq> STRING_NPOS \<longleftrightarrow> c \<in> set STRING_WHITESPACE"
  proof (cases ?f)
    case None
    then have "c \<notin> set STRING_WHITESPACE" by (auto simp: find_None_iff in_set_conv_nth)
    then show ?thesis unfolding None by (simp add: npos_def)
  next
    case (Some i)
    then have "i < length STRING_WHITESPACE" "STRING_WHITESPACE ! i = c" by (auto simp: find_Some_iff)
    moreover have "length STRING_WHITESPACE < STRING_NPOS" by (simp add: STRING_WHITESPACE_def STRING_NPOS_def SIZE_MOD_def)
    ultimately show ?thesis using Some by (auto simp: npos_def)
  qed
  then show ?thesis by (simp add: string_find_find)
qed

context file_stream
begin

lemma read_line_loop_spec:
  assumes "ok s" and "total' \<le> count'" and "count' \<le> length dest" and "0 < hardlimit"
  defines "rest \<equiv> drop (pos s) (fil s)"
  shows "\<exists>s' dest'. read_line_loop vt s dest count' total' hardlimit d = Some (s', dest', total' + line_length d (count' - total') rest) \<and>
     ok s' \<and> fil s' = fil s \<and> stream_t.truncate s' = stream_t.truncate s \<and>
     pos s' = pos s + line_consumed d (count' - total') rest \<and> length dest' = length dest \<and>
     take (total' + line_length d (count' - total') rest) dest' = take total' dest @ take (line_length d (count' - total') rest) rest"
  using assms(1-3) unfolding rest_def
proof (induction "count' - total'" arbitrary: s dest total' rule: less_induct)
  case less
  let ?rest = "drop (pos s) (fil s)"
  define limit where "limit = min hardlimit (count' - total')"
  have step: "read_line_loop vt s dest count' total' hardlimit d =
     (if stream_eos vt s then Some (s, dest, total')
      else if limit = 0 then Some (s, dest, total')
      else case vt_read vt s limit of
             None \<Rightarrow> None
           | Some (s, bytes) \<Rightarrow>
               if bytes = [] then Some (s, dest, total')
               else case mem_store dest total' bytes of
                      None \<Rightarrow> None
                    | Some dest \<Rightarrow>
                        let i = line_part d bytes
                        in if i < length bytes then Some (give_back vt s i (length bytes), dest, total' + i)
                           else read_line_loop vt s dest count' (total' + i) hardlimit d)"
    by (subst read_line_loop.simps) (auto simp: limit_def min_def Let_def)
  show ?case
  proof (cases "stream_eos vt s \<or> limit = 0")
    case True
    then have "?rest = [] \<or> count' = total'"
      using eos_law [OF less.prems(1)] assms(4) less.prems(2) by (auto simp: limit_def)
    then have z: "line_length d (count' - total') ?rest = 0" "line_consumed d (count' - total') ?rest = 0"
      by (auto simp: line_length_def line_consumed_def line_part_def)
    show ?thesis using True less.prems(1) unfolding step z by auto
  next
    case False
    obtain s1 where s1: "vt_read vt s limit = Some (s1, take limit ?rest)" "ok s1" "fil s1 = fil s"
        "pos s1 = min (pos s + limit) (length (fil s))" "stream_t.truncate s1 = stream_t.truncate s"
      using read_law [OF less.prems(1)] by blast
    let ?bytes = "take limit ?rest"
    have ne: "?bytes \<noteq> []" using False eos_law [OF less.prems(1)] pos_le [OF less.prems(1)] by auto
    have fits: "total' + length ?bytes \<le> length dest" using less.prems by (auto simp: limit_def)
    define dest1 where "dest1 = overwrite dest total' ?bytes"
    have st: "mem_store dest total' ?bytes = Some dest1" using fits by (simp add: mem_store_def dest1_def)
    have front: "take (total' + length ?bytes) dest1 = take total' dest @ ?bytes"
      unfolding dest1_def by (rule take_overwrite_upto [OF fits])
    have len1: "length dest1 = length dest" using fits by (simp add: dest1_def)
    have p1: "pos s1 = pos s + length ?bytes" using s1(4) pos_le [OF less.prems(1)] by auto
    have lim: "limit \<le> count' - total'" by (simp add: limit_def)
    show ?thesis
    proof (cases "line_part d ?bytes < length ?bytes")
      case True
      define i where "i = line_part d ?bytes"
      have i: "line_part d ?rest = i" "i < limit" "i < length ?rest" "i < length ?bytes"
        using True line_part_take [of d limit ?rest] by (auto simp: i_def)
      have ll: "line_length d (count' - total') ?rest = i" "line_consumed d (count' - total') ?rest = i + 1"
        using i lim by (auto simp: line_length_def line_consumed_def)
      have t: "take (total' + i) dest1 = take total' dest @ take i ?rest"
      proof -
        have "take (total' + i) dest1 = take (total' + i) (take (total' + length ?bytes) dest1)"
          using i(4) by (simp add: min_absorb1)
        also have "\<dots> = take total' dest @ take i ?rest"
          unfolding front using i(2) less.prems by (simp add: min_absorb1 min_absorb2)
        finally show ?thesis .
      qed
      let ?s = "give_back vt s1 i (length ?bytes)"
      have g: "ok ?s \<and> fil ?s = fil s \<and> stream_t.truncate ?s = stream_t.truncate s \<and> pos ?s = pos s + (i + 1)"
      proof (cases "i + 1 < length ?bytes")
        case True
        have "pos ?s = clamp (int (pos s + (i + 1))) (length (fil s))"
          using True seek_current [OF s1(2)] p1 s1(3) by (simp add: give_back_def add.assoc add.left_commute)
        moreover have "pos s + (i + 1) \<le> length (fil s)" using i(3) pos_le [OF less.prems(1)] by simp
        ultimately show ?thesis
          using True seek_law [OF s1(2)] s1 by (simp add: give_back_def clamp_def)
      next
        case False
        then have "length ?bytes = i + 1" using i(4) by linarith
        then show ?thesis using s1 p1 by (simp only: give_back_def less_irrefl if_False simp_thms)
      qed
      have "read_line_loop vt s dest count' total' hardlimit d = Some (?s, dest1, total' + i)"
        unfolding step using \<open>\<not> (stream_eos vt s \<or> limit = 0)\<close> s1(1) ne st True by (simp add: Let_def i_def)
      then show ?thesis unfolding ll using g t len1 by blast
    next
      case whole: False
      let ?k = "length ?bytes"
      have k: "0 < ?k" "total' + ?k \<le> count'" using ne lim less.prems(2) by auto
      have lp: "line_part d ?bytes = ?k" using whole line_part_le [of d ?bytes] by linarith
      have "count' - (total' + ?k) < count' - total'" using k by linarith
      from less.hyps [OF this s1(2) k(2), of dest1] less.prems(3) len1
      obtain s' dest' where r: "read_line_loop vt s1 dest1 count' (total' + ?k) hardlimit d =
            Some (s', dest', total' + ?k + line_length d (count' - (total' + ?k)) (drop (pos s1) (fil s1)))"
          "ok s'" "fil s' = fil s1" "stream_t.truncate s' = stream_t.truncate s1"
          "pos s' = pos s1 + line_consumed d (count' - (total' + ?k)) (drop (pos s1) (fil s1))" "length dest' = length dest1"
          "take (total' + ?k + line_length d (count' - (total' + ?k)) (drop (pos s1) (fil s1))) dest' =
             take (total' + ?k) dest1 @ take (line_length d (count' - (total' + ?k)) (drop (pos s1) (fil s1))) (drop (pos s1) (fil s1))"
        by auto
      have rest1: "drop (pos s1) (fil s1) = drop ?k ?rest" using p1 s1(3) by (simp add: add.commute)
      have sub: "count' - (total' + ?k) = count' - total' - ?k" by simp
      note sp = line_split [OF whole lim]
      have "read_line_loop vt s dest count' total' hardlimit d = read_line_loop vt s1 dest1 count' (total' + ?k) hardlimit d"
        unfolding step using \<open>\<not> (stream_eos vt s \<or> limit = 0)\<close> s1(1) ne st whole by (simp add: Let_def lp del: length_take)
      then have run: "read_line_loop vt s dest count' total' hardlimit d =
          Some (s', dest', total' + (?k + line_length d (count' - total' - ?k) (drop ?k ?rest)))"
        using r(1) unfolding rest1 sub by (simp only: add.assoc)
      have p': "pos s' = pos s + (?k + line_consumed d (count' - total' - ?k) (drop ?k ?rest))"
        using r(5) p1 unfolding rest1 sub by (simp only: add.assoc)
      have "?bytes @ take n (drop ?k ?rest) = take (?k + n) ?rest" for n
        by (simp add: take_add min_def)
      then have "take (total' + (?k + line_length d (count' - total' - ?k) (drop ?k ?rest))) dest' =
          take total' dest @ take (?k + line_length d (count' - total' - ?k) (drop ?k ?rest)) ?rest"
        using r(7) unfolding rest1 sub front by (simp only: add.assoc append_assoc)
      then show ?thesis
        using r(2-4,6) s1(3,5) len1 run p' unfolding sp by metis
    qed
  qed
qed

lemma read_line_spec:
  assumes "ok s" and "st_mode s AND STREAM_IN \<noteq> 0" and "2 \<le> n" and "n \<le> length dest"
  defines "rest \<equiv> drop (pos s) (fil s)"
  shows "\<exists>s' dest'. stream_read_line_buffer vt s (Some dest) n d = Some (s', Some dest', line_length d (n - 1) rest) \<and>
     ok s' \<and> fil s' = fil s \<and> pos s' = pos s + line_consumed d (n - 1) rest \<and> length dest' = length dest \<and>
     take (line_length d (n - 1) rest + 1) dest' = take (line_length d (n - 1) rest) rest @ [0]"
proof -
  let ?l = "line_length d (n - 1) rest"
  obtain s' dest' where r: "read_line_loop vt s dest (n - 1) 0 (if stream_is_sequential s then 1 else 128) d = Some (s', dest', ?l)"
      "ok s'" "fil s' = fil s" "pos s' = pos s + line_consumed d (n - 1) rest" "length dest' = length dest" "take ?l dest' = take ?l rest"
  proof -
    have c: "n - 1 \<le> length dest" using assms(4) by simp
    have h: "0 < (if stream_is_sequential s then 1 else 128 :: nat)" by simp
    from read_line_loop_spec [OF assms(1) le0 c h, of d, folded rest_def] that show thesis by auto
  qed
  have "?l < length dest'" using assms(3,4) r(5) by (auto simp: line_length_def)
  then have "mem_set dest' ?l 0 = Some (dest'[?l := 0])" "take (?l + 1) (dest'[?l := 0]) = take ?l dest' @ [0]"
    by (simp_all add: mem_set_def take_Suc_conv_app_nth)
  then show ?thesis
    using r assms(2,3) by (simp add: stream_read_line_buffer_def)
qed

lemma skip_step_spec:
  assumes "ok s"
  shows "\<exists>s'. ok s' \<and> fil s' = fil s \<and> stream_t.truncate s' = stream_t.truncate s \<and>
    (if pos s < length (fil s) \<and> fil s ! pos s \<in> set STRING_WHITESPACE
     then skip_step vt s n = Skip_Next s' (n + 1) \<and> pos s' = pos s + 1
     else skip_step vt s n = Skip_End s' n \<and> pos s' = pos s)"
proof -
  obtain s1 where s1: "vt_read vt s 1 = Some (s1, take 1 (drop (pos s) (fil s)))" "ok s1" "fil s1 = fil s"
      "pos s1 = min (pos s + 1) (length (fil s))" "stream_t.truncate s1 = stream_t.truncate s"
    using read_law [OF assms] by blast
  show ?thesis
  proof (cases "pos s < length (fil s)")
    case False
    then have "pos s1 = pos s" using s1(4) pos_le [OF assms] by simp
    then show ?thesis using False s1 by (auto simp: skip_step_def)
  next
    case True
    then have b: "take 1 (drop (pos s) (fil s)) = [fil s ! pos s]" by (simp add: take_Suc_conv_app_nth Cons_nth_drop_Suc [symmetric])
    have p1: "pos s1 = pos s + 1" using s1(4) True by simp
    let ?s = "stream_seek vt s1 (- 1) STREAM_SEEK_CURRENT"
    have returned: "ok ?s \<and> fil ?s = fil s \<and> stream_t.truncate ?s = stream_t.truncate s \<and> pos ?s = pos s"
      using seek_law [OF s1(2)] seek_current [OF s1(2), of "- 1"] s1 p1 True by (simp add: clamp_def)
    have step: "skip_step vt s n = (if fil s ! pos s \<in> set STRING_WHITESPACE then Skip_Next s1 (n + 1) else Skip_End ?s n)"
    proof -
      obtain i where "string_find STRING_WHITESPACE (length STRING_WHITESPACE) (fil s ! pos s) 0 = Some i"
          "i \<noteq> STRING_NPOS \<longleftrightarrow> fil s ! pos s \<in> set STRING_WHITESPACE"
        using whitespace_found by blast
      then show ?thesis using s1(1) unfolding b by (simp add: skip_step_def)
    qed
    show ?thesis
    proof (cases "fil s ! pos s \<in> set STRING_WHITESPACE")
      case ws: True
      then show ?thesis using True step s1 p1 by (intro exI [of _ s1]) simp
    next
      case ws: False
      then show ?thesis using step returned by (intro exI [of _ ?s]) simp
    qed
  qed
qed

text \<open>Whitespace is skipped to the first other byte.\<close>

lemma skip_loop_spec:
  assumes "ok s"
  defines "k \<equiv> length (takeWhile (\<lambda>c. c \<in> set STRING_WHITESPACE) (drop (pos s) (fil s)))"
  shows "\<exists>s'. skip_loop vt s n = Some (Some (s', n + k)) \<and> ok s' \<and> fil s' = fil s \<and> pos s' = pos s + k \<and>
    stream_t.truncate s' = stream_t.truncate s"
  using assms(1) unfolding k_def
proof (induction "length (fil s) - pos s" arbitrary: s n rule: less_induct)
  case less
  obtain s' where s': "ok s'" "fil s' = fil s" "stream_t.truncate s' = stream_t.truncate s"
      "if pos s < length (fil s) \<and> fil s ! pos s \<in> set STRING_WHITESPACE
       then skip_step vt s n = Skip_Next s' (n + 1) \<and> pos s' = pos s + 1
       else skip_step vt s n = Skip_End s' n \<and> pos s' = pos s"
    using skip_step_spec [OF less.prems] by blast
  show ?case
  proof (cases "pos s < length (fil s) \<and> fil s ! pos s \<in> set STRING_WHITESPACE")
    case True
    then have st: "skip_step vt s n = Skip_Next s' (n + 1)" "pos s' = pos s + 1" using s'(4) by auto
    have d: "drop (pos s) (fil s) = fil s ! pos s # drop (pos s') (fil s')"
      using True st(2) s'(2) by (simp add: Cons_nth_drop_Suc)
    have "length (fil s') - pos s' < length (fil s) - pos s" using True st(2) s'(2) by auto
    from less.hyps [OF this s'(1), of "n + 1"] show ?thesis
      using True st s'(2,3) by (subst skip_loop.simps) (auto simp: d)
  next
    case False
    then have st: "skip_step vt s n = Skip_End s' n" "pos s' = pos s" using s'(4) by auto
    have "takeWhile (\<lambda>c. c \<in> set STRING_WHITESPACE) (drop (pos s) (fil s)) = []"
      using False by (cases "drop (pos s) (fil s)") (auto simp: drop_eq_Cons_nth)
    then show ?thesis using st s' by (subst skip_loop.simps) simp
  qed
qed

lemma determine_binary_spec:
  fixes n :: nat
  assumes "ok s" and "st_mode s AND STREAM_IN \<noteq> 0" and "\<not> st_sequential s" and "length (fil s) < 2 ^ 63"
  defines "bytes \<equiv> take (if n = 0 then 8 else n) (drop (pos s) (fil s))"
  shows "\<exists>s'. stream_determine_binary_mode vt s n = Some (stream_set_binary s' (list_ex binary_char bytes)) \<and>
    ok s' \<and> fil s' = fil s \<and> pos s' = pos s \<and> stream_t.truncate s' = stream_t.truncate s"
proof -
  define m where "m = (if n = 0 then 8 else n)"
  obtain s1 where s1: "vt_read vt s m = Some (s1, bytes)" "ok s1" "fil s1 = fil s" "stream_t.truncate s1 = stream_t.truncate s"
    using read_law [OF assms(1), of m] unfolding bytes_def m_def by blast
  let ?s = "stream_seek vt s1 (int (pos s)) STREAM_SEEK_BEGIN"
  have s: "ok ?s" "fil ?s = fil s" "stream_t.truncate ?s = stream_t.truncate s" "pos ?s = pos s"
    using seek_law [OF s1(2)] seek_begin [OF s1(2)] s1 pos_le [OF assms(1)] by (simp_all add: clamp_def)
  have b: "(w AND NOT STREAM_BINARY) OR STREAM_BINARY = w OR STREAM_BINARY" for w :: u32
    by (metis or.assoc or.commute bit.disj_conj_distrib2 bit.disj_cancel_left bit.conj_one_right)
  have "stream_determine_binary_mode vt s n = Some (stream_set_binary ?s (list_ex binary_char bytes))"
    using assms(1-3) s1(1) by (simp add: stream_determine_binary_mode_def stream_is_sequential_def stream_read_def tell_law
        m_def [symmetric] stream_set_binary_def b Let_def)
  then show ?thesis using s by blast
qed

end

section \<open>Copying from one stream to another\<close>

lemma rest_split: "drop p xs = take n (drop p xs) @ drop (p + length (take n (drop p xs))) xs"
proof -
  have "ys = take n ys @ drop (length (take n ys)) ys" for ys :: "'a list"
    by (cases "n \<le> length ys") (simp_all add: min_absorb2)
  then have "drop p xs = take n (drop p xs) @ drop (length (take n (drop p xs))) (drop p xs)" .
  then show ?thesis by (simp only: drop_drop add.commute)
qed

locale stream_pair =
  src: file_stream vs sfil spos sok + dst: writable_stream vd dfil dpos dok room
  for vs :: "'a stream_t_scheme stream_vtable_t" and sfil spos sok
    and vd :: "'b stream_t_scheme stream_vtable_t" and dfil dpos dok room
begin

lemma copy_step_spec:
  assumes "sok s" and "dok d" and "st_mode s AND STREAM_IN \<noteq> 0" and "st_mode d AND STREAM_OUT \<noteq> 0"
    and "room d (length (drop (spos s) (sfil s)))"
  defines "chunk \<equiv> take 4096 (drop (spos s) (sfil s))"
  shows "if spos s = length (sfil s) then copy_step vs vd s d = Copy_End s d True
    else \<exists>s' d'. copy_step vs vd s d = Copy_Next s' d' \<and> sok s' \<and> sfil s' = sfil s \<and> spos s' = spos s + length chunk \<and>
           st_mode s' = st_mode s \<and> dok d' \<and> dfil d' = overwrite (dfil d) (dpos d) chunk \<and> dpos d' = dpos d + length chunk \<and>
           st_mode d' = st_mode d \<and> room d' (length (drop (spos s') (sfil s'))) \<and> chunk \<noteq> []"
proof (cases "spos s = length (sfil s)")
  case True
  then show ?thesis using src.eos_law [OF assms(1)] by (simp add: copy_step_def)
next
  case False
  then have ne: "chunk \<noteq> []" using src.pos_le [OF assms(1)] by (simp add: chunk_def)
  obtain s' where s': "vt_read vs s 4096 = Some (s', chunk)" "sok s'" "sfil s' = sfil s"
      "spos s' = min (spos s + 4096) (length (sfil s))" "stream_t.truncate s' = stream_t.truncate s"
    using src.read_law [OF assms(1), of 4096] unfolding chunk_def by blast
  have p: "spos s' = spos s + length chunk" using s'(4) src.pos_le [OF assms(1)] by (auto simp: chunk_def)
  have whole: "length (drop (spos s) (sfil s)) = length chunk + length (drop (spos s') (sfil s'))"
    unfolding p s'(3) by (auto simp: chunk_def)
  then have "room d (length chunk)" using dst.room_mono [OF assms(5)] by simp
  from dst.write_law [OF assms(2) this] obtain d' where d': "vt_write vd d chunk = Some (d', length chunk)" "dok d'"
      "dfil d' = overwrite (dfil d) (dpos d) chunk" "dpos d' = dpos d + length chunk" "stream_t.truncate d' = stream_t.truncate d"
      "\<forall>n. room d (length chunk + n) \<longrightarrow> room d' n"
    by blast
  have "copy_step vs vd s d = Copy_Next s' d'"
    using False src.eos_law [OF assms(1)] s'(1) d'(1) ne assms(3,4) by (simp add: copy_step_def stream_read_def stream_write_def)
  moreover have "st_mode s' = st_mode s" "st_mode d' = st_mode d" using s'(5) d'(5) by (simp_all add: stream_t.truncate_def)
  moreover have "room d' (length (drop (spos s') (sfil s')))" using d'(6) assms(5) unfolding whole by blast
  ultimately show ?thesis using False s' d' p ne by auto
qed

lemma copy_spec:
  assumes "sok s" and "dok d" and "st_mode s AND STREAM_IN \<noteq> 0" and "st_mode d AND STREAM_OUT \<noteq> 0"
    and "room d (length (drop (spos s) (sfil s)))"
  shows "\<exists>s' d'. stream_copy vs vd s d = Some (Some (s', d', True)) \<and> sok s' \<and> sfil s' = sfil s \<and> spos s' = length (sfil s) \<and>
    dok d' \<and> dfil d' = overwrite (dfil d) (dpos d) (drop (spos s) (sfil s)) \<and>
    dpos d' = dpos d + length (drop (spos s) (sfil s))"
  using assms
proof (induction "length (sfil s) - spos s" arbitrary: s d rule: less_induct)
  case less
  note step = copy_step_spec [OF less.prems]
  show ?case
  proof (cases "spos s = length (sfil s)")
    case True
    then show ?thesis using step less.prems(1,2) by (subst stream_copy.simps) simp
  next
    case False
    let ?c = "take 4096 (drop (spos s) (sfil s))"
    from step False obtain s' d' where n: "copy_step vs vd s d = Copy_Next s' d'" "sok s'" "sfil s' = sfil s" "spos s' = spos s + length ?c"
        "st_mode s' = st_mode s" "dok d'" "dfil d' = overwrite (dfil d) (dpos d) ?c" "dpos d' = dpos d + length ?c"
        "st_mode d' = st_mode d" "room d' (length (drop (spos s') (sfil s')))" "?c \<noteq> []"
      by auto
    have "0 < length ?c" using n(11) by blast
    then have "length (sfil s') - spos s' < length (sfil s) - spos s"
      unfolding n(3,4) by simp
    from less.hyps [OF this n(2,6)] n(5,9,10) less.prems(3,4) obtain s2 d2 where r: "stream_copy vs vd s' d' = Some (Some (s2, d2, True))"
        "sok s2" "sfil s2 = sfil s'" "spos s2 = length (sfil s')" "dok d2"
        "dfil d2 = overwrite (dfil d') (dpos d') (drop (spos s') (sfil s'))"
        "dpos d2 = dpos d' + length (drop (spos s') (sfil s'))"
      by auto
    have c: "drop (spos s) (sfil s) = ?c @ drop (spos s') (sfil s')"
      unfolding n(3,4) by (rule rest_split)
    have "dfil d2 = overwrite (dfil d) (dpos d) (drop (spos s) (sfil s))"
      unfolding r(6) n(7,8) overwrite_append [OF dst.pos_le [OF less.prems(2)]] c [symmetric] ..
    moreover have "dpos d2 = dpos d + length (drop (spos s) (sfil s))"
      unfolding r(7) n(8) by (subst c) (simp only: length_append add.assoc)
    ultimately show ?thesis using r n(1,3) by (subst stream_copy.simps) auto
  qed
qed

end

text \<open>A source that cannot be read and is not at its end keeps the loop going for ever.\<close>

lemma copy_diverges:
  assumes "st_mode s AND STREAM_IN = 0" and "\<not> stream_eos vs s"
  shows "stream_copy vs vd s d = None"
proof -
  have step: "copy_step vs vd s d = Copy_Next s d" for d using assms by (simp add: copy_step_def stream_read_def)
  have "v = vs \<longrightarrow> t = s \<longrightarrow> False" if "stream_copy v w t d = Some y" for v w t d y
  proof (rule stream_copy.raw_induct [OF _ that])
    fix f v w t d y
    assume IH: "\<And>v w t d y. f v w t d = Some y \<Longrightarrow> v = vs \<longrightarrow> t = s \<longrightarrow> False"
      and run: "(case copy_step v w t d of Copy_Fault \<Rightarrow> Some None | Copy_End s' d' b \<Rightarrow> Some (Some (s', d', b)) | Copy_Next s' d' \<Rightarrow> f v w s' d') = Some y"
    show "v = vs \<longrightarrow> t = s \<longrightarrow> False"
    proof (intro impI)
      assume "v = vs" "t = s"
      moreover from this have "copy_step v w t d = Copy_Next s d" using assms by (simp add: copy_step_def stream_read_def)
      ultimately have "f vs w s d = Some y" using run by simp
      then show False using IH by blast
    qed
  qed
  then show ?thesis by (cases "stream_copy vs vd s d") blast+
qed

text \<open>A fresh block of memory holds arbitrary bytes.\<close>

interpretation bufcopy: stream_pair "buffer_stream_vtable raw now" contents bs_current bs_inv
    "buffer_stream_vtable (\<lambda>n. map (garbage n) [0..<n]) later" contents bs_current bs_inv buffer_room
  for raw now later and garbage :: "nat \<Rightarrow> nat \<Rightarrow> byte"
  by (intro stream_pair.intro bufs.file_stream_axioms buffer_writable) simp

text \<open>
  C33. Copying a readable buffer stream to a writable one that can take the bytes ends with success, with
  everything from the position of the source to its end written at the position of the destination; a
  source that is not readable and not at its end is never left.
\<close>

theorem stream_copy_correct:
  assumes "bs_inv s" and "bs_inv d" and "\<And>n. length (raw n) = n"
  shows "(st_mode s AND STREAM_IN \<noteq> 0 \<longrightarrow> st_mode d AND STREAM_OUT \<noteq> 0 \<longrightarrow> buffer_room d (length (drop (bs_current s) (contents s))) \<longrightarrow>
      (\<exists>s' d'. stream_copy (buffer_stream_vtable raw0 now) (buffer_stream_vtable raw later) s d = Some (Some (s', d', True)) \<and>
         contents s' = contents s \<and> bs_current s' = bs_size s \<and>
         contents d' = overwrite (contents d) (bs_current d) (drop (bs_current s) (contents s)) \<and>
         bs_current d' = bs_current d + length (drop (bs_current s) (contents s))))
    \<and> (st_mode s AND STREAM_IN = 0 \<longrightarrow> bs_current s \<noteq> bs_size s \<longrightarrow>
         stream_copy (buffer_stream_vtable raw0 now) (buffer_stream_vtable raw later) s d = None)"
proof -
  have "raw = (\<lambda>n. map ((!) (raw n)) [0..<n])" using map_nth [of "raw _"] assms(3) by (metis)
  note copies = bufcopy.copy_spec [OF assms(1,2), of raw0 now "\<lambda>n. (!) (raw n)" later, folded this]
  have e: "stream_eos (buffer_stream_vtable raw0 now) s \<longleftrightarrow> bs_current s = bs_size s"
    using bufs.eos_law [OF assms(1)] contents_length [OF assms(1)] by simp
  show ?thesis
    using copies [unfolded contents_length [OF assms(1)]] copy_diverges [of s "buffer_stream_vtable raw0 now"] unfolding e by blast
qed

lemma example_stream_facts:
  "bs_inv example_stream" "contents example_stream = [1, 2, 3, 4]" "bs_current example_stream = 0" "bs_grow example_stream"
  "st_mode example_stream AND STREAM_IN \<noteq> 0" "st_mode example_stream AND STREAM_OUT \<noteq> 0" "bs_size example_stream = 4"
  "buffer_room example_stream 4"
proof -
  show "bs_inv example_stream"
    unfolding example_stream_def by (rule initialize_inv) (auto simp: SIZE_MOD_def)
qed (simp_all add: example_stream_def buffer_stream_initialize_def stream_initialize_def contents_def Let_def buffer_room_def
    SIZE_MOD_def STREAM_OUT_def STREAM_IN_def STREAM_TRUNCATE_def STREAM_ATEND_def STREAM_BINARY_def)

theorem stream_copy_correct_witness:
  "\<exists>s d. stream_copy (buffer_stream_vtable (\<lambda>n. replicate n 0) 0) (buffer_stream_vtable (\<lambda>n. replicate n 0) 0)
      example_stream (buffer_stream_seek example_stream 3 STREAM_SEEK_BEGIN) = Some (Some (s, d, True)) \<and>
    contents d = [1, 2, 3, 1, 2, 3, 4]"
proof -
  let ?d = "buffer_stream_seek example_stream 3 STREAM_SEEK_BEGIN"
  note ex = example_stream_facts
  have raw: "length (replicate n (0 :: byte)) = n" for n by simp
  have d: "bs_inv ?d" "contents ?d = [1, 2, 3, 4]" "bs_current ?d = 3" "st_mode ?d AND STREAM_OUT \<noteq> 0" "buffer_room ?d 4"
    using seek_keeps(1) [OF ex(1)] seek_keeps(2,3) [of example_stream 3 STREAM_SEEK_BEGIN] seek_file(2) [OF ex(1)] ex
    by (auto simp: clamp_def same_stream_def stream_t.truncate_def buffer_room_def SIZE_MOD_def)
  show ?thesis
    using stream_copy_correct [OF ex(1) d(1) raw, THEN conjunct1, of "\<lambda>n. replicate n 0" 0 0] ex d
    by (auto simp: overwrite_def numeral_eq_Suc)
qed

text \<open>
  C34. A line read from a buffer stream into a buffer of \<open>n\<close> bytes holds the bytes up to the delimiter, the
  end of the stream or \<open>n - 1\<close> bytes, whatever the size of the chunks it is read in, and a zero byte behind
  them; the position is then behind the delimiter, or behind the line where there is none. The returned
  length does not count the delimiter. (The comment in \<open>stream.h\<close> lets it read \<open>n\<close> bytes and return the
  number of them including the delimiter.)
\<close>

theorem stream_read_line_buffer_correct:
  fixes delimiter :: byte
  assumes "bs_inv s" and "st_mode s AND STREAM_IN \<noteq> 0" and "2 \<le> n" and "n \<le> length dest"
  defines "rest \<equiv> drop (bs_current s) (contents s)"
  defines "k \<equiv> min (n - 1) (length (takeWhile (\<lambda>c. c \<noteq> delimiter) rest))"
  shows "\<exists>s' dest'. stream_read_line_buffer (buffer_stream_vtable raw now) s (Some dest) n delimiter = Some (s', Some dest', k) \<and>
     take (k + 1) dest' = take k rest @ [0] \<and> length dest' = length dest \<and> contents s' = contents s \<and>
     bs_current s' = bs_current s + (if k < n - 1 \<and> k < length rest then k + 1 else k)"
proof -
  have k: "line_length delimiter (n - 1) rest = k" by (simp add: k_def line_length_def line_part_def)
  have "line_consumed delimiter (n - 1) rest = (if k < n - 1 \<and> k < length rest then k + 1 else k)"
    using line_part_le [of delimiter rest] by (auto simp: k_def line_consumed_def line_length_def line_part_def)
  then show ?thesis
    using bufs.read_line_spec [OF assms(1-4), of raw now delimiter, folded rest_def] unfolding k by auto
qed

theorem stream_read_line_buffer_correct_witness:
  "\<exists>s dest. stream_read_line_buffer (buffer_stream_vtable (\<lambda>n. replicate n 0) 0) example_stream (Some [7, 7, 7, 7, 7]) 5 3 =
      Some (s, Some dest, 2) \<and> take 3 dest = [1, 2, 0] \<and> bs_current s = 3"
proof -
  note ex = example_stream_facts
  have "(2 :: nat) \<le> 5" "5 \<le> length [7, 7, 7, 7, 7 :: byte]" by simp_all
  from stream_read_line_buffer_correct [OF ex(1,5) this, of "\<lambda>n. replicate n 0" 0 3] ex(2,3) show ?thesis
    by (auto simp: numeral_eq_Suc)
qed





end
