(* ===== verification/Stream_Digest.thy ===== *)
theory Stream_Digest
  imports Stream Md5 Sha_Correct
begin

text \<open>
  The digests of a stream (\<open>foundation/stream.c\<close>): the whole stream is fed to a digest object in chunks
  of a kilobyte, in a text stream with every line ending made a newline.
\<close>

section \<open>Feeding the chunks\<close>

text \<open>
  A digester gives the updated object and whether it succeeded; \<^const>\<open>None\<close> is an access outside of its
  memory. \<open>digest_lines\<close> is the loop over the lines of a chunk: it ends with the failure of the digester
  or with the start of the last, unfinished line.
\<close>

type_synonym 'd digester = "'d \<Rightarrow> byte list \<Rightarrow> ('d \<times> bool) option"

datatype 'd line_round = Line_Fault | Line_Failed 'd | Line_Rest 'd "byte list" nat bool

function digest_lines :: "'d digester \<Rightarrow> 'd \<Rightarrow> byte list \<Rightarrow> nat \<Rightarrow> nat \<Rightarrow> nat \<Rightarrow> nat \<Rightarrow> bool \<Rightarrow> 'd line_round" where
  "digest_lines digester data buf sz limit lastc ic ignore_lf =
     (if ic < sz \<and> ic < limit then
        (case mem_get buf ic of
           None \<Rightarrow> Line_Fault
         | Some c \<Rightarrow>
             let was_cr = (c = 13); was_lf = (c = 10)
             in if was_cr \<or> was_lf then
                  let ignore_lf = (if was_cr \<and> ic = limit - 1 then True else ignore_lf);
                      buf = buf[ic := 10]
                  in (case Option.bind (mem_load buf lastc (ic - lastc + 1)) (digester data) of
                        None \<Rightarrow> Line_Fault
                      | Some (data, success) \<Rightarrow>
                          if \<not> success then Line_Failed data
                          else case (if was_cr then mem_get buf (ic + 1) else Some 0) of
                                 None \<Rightarrow> Line_Fault
                               | Some follow \<Rightarrow>
                                   let ic = (if was_cr \<and> follow = 10 then ic + 1 else ic)
                                   in digest_lines digester data buf sz limit (ic + 1) (ic + 1) ignore_lf)
                else digest_lines digester data buf sz limit lastc (ic + 1) ignore_lf)
      else Line_Rest data buf lastc ignore_lf)"
  by pat_completeness auto
termination
  by (relation "measure (\<lambda>(digester, data, buf, sz, limit, lastc, ic, ignore_lf). sz - ic)") (auto split: if_splits)

declare digest_lines.simps [simp del]

datatype ('s, 'd) digest_round = Digest_Fault | Digest_End 's 'd | Digest_Failed 's 'd | Digest_Next 's 'd "byte list" bool

definition digest_step ::
    "'a stream_t_scheme stream_vtable_t \<Rightarrow> 'd digester \<Rightarrow> nat \<Rightarrow> 'a stream_t_scheme \<Rightarrow> 'd \<Rightarrow> byte list \<Rightarrow> bool \<Rightarrow>
     ('a stream_t_scheme, 'd) digest_round" where
  "digest_step vt digester limit stream data buf ignore_lf =
     (if stream_eos vt stream then Digest_End stream data
      else case vt_read vt stream limit of
             None \<Rightarrow> Digest_Fault
           | Some (stream, bytes) \<Rightarrow>
               let sz = length bytes
               in case mem_store buf 0 bytes of
                    None \<Rightarrow> Digest_Fault
                  | Some buf \<Rightarrow>
                      if sz = 0 then Digest_Next stream data buf ignore_lf
                      else if stream_is_binary stream then
                        (case digester data bytes of
                           None \<Rightarrow> Digest_Fault
                         | Some (data, success) \<Rightarrow>
                             if \<not> success then Digest_Failed stream data else Digest_Next stream data buf ignore_lf)
                      else let lastc = (if ignore_lf \<and> buf ! 0 = 10 then 1 else 0)
                           in case digest_lines digester data buf sz limit lastc lastc False of
                                Line_Fault \<Rightarrow> Digest_Fault
                              | Line_Failed data \<Rightarrow> Digest_Failed stream data
                              | Line_Rest data buf lastc ignore_lf \<Rightarrow>
                                  if lastc < sz then
                                    (case Option.bind (mem_load buf lastc (sz - lastc)) (digester data) of
                                       None \<Rightarrow> Digest_Fault
                                     | Some (data, success) \<Rightarrow>
                                         if \<not> success then Digest_Failed stream data else Digest_Next stream data buf ignore_lf)
                                  else Digest_Next stream data buf ignore_lf)"

text \<open>\<^const>\<open>None\<close>: the loop does not end; \<open>Some None\<close>: an access outside of a buffer.\<close>

partial_function (option) digest_loop ::
    "'a stream_t_scheme stream_vtable_t \<Rightarrow> 'd digester \<Rightarrow> nat \<Rightarrow> nat \<Rightarrow> 'a stream_t_scheme \<Rightarrow> 'd \<Rightarrow> byte list \<Rightarrow> bool \<Rightarrow>
     ('a stream_t_scheme \<times> 'd \<times> bool) option option" where
  "digest_loop vt digester limit cur stream data buf ignore_lf =
     (case digest_step vt digester limit stream data buf ignore_lf of
        Digest_Fault \<Rightarrow> Some None
      | Digest_End stream data \<Rightarrow> Some (Some (stream_seek vt stream (int cur) STREAM_SEEK_BEGIN, data, True))
      | Digest_Failed stream data \<Rightarrow> Some (Some (stream, data, False))
      | Digest_Next stream data buf ignore_lf \<Rightarrow> digest_loop vt digester limit cur stream data buf ignore_lf)"

text \<open>\<open>stack\<close> is what the buffer of 1025 bytes holds when the function is entered.\<close>

definition stream_digest ::
    "'a stream_t_scheme stream_vtable_t \<Rightarrow> byte list \<Rightarrow> 'a stream_t_scheme \<Rightarrow> 'd digester \<Rightarrow> 'd \<Rightarrow>
     ('a stream_t_scheme \<times> 'd \<times> bool) option option" where
  "stream_digest vt stack stream digester data =
     (if stream_is_sequential stream \<or> st_mode stream AND STREAM_IN = 0 then Some (Some (stream, data, False))
      else let cur = stream_tell vt stream;
               stream = stream_seek vt stream 0 STREAM_SEEK_BEGIN;
               limit = length stack - 1
           in digest_loop vt digester limit cur stream data (stack[limit := 0]) False)"

definition stream_md5_digest :: "md5_t \<Rightarrow> md5_t digester" where
  "stream_md5_digest fresh digest buffer = map_option (\<lambda>d. (d, True)) (md5_digest fresh (Some digest) buffer)"

definition stream_sha256_digest :: "u32 sha_t digester" where
  "stream_sha256_digest digest buffer = map_option (\<lambda>d. (d, True)) (sha256_digest digest buffer)"

definition stream_sha512_digest :: "u64 sha_t digester" where
  "stream_sha512_digest digest buffer = map_option (\<lambda>d. (d, True)) (sha512_digest digest buffer)"

text \<open>What the three public functions share: the digest of the stream's own kind, or the loop above.\<close>

definition digest_result ::
    "('a stream_t_scheme \<Rightarrow> 'a stream_t_scheme \<times> 'r) option \<Rightarrow> ('a stream_t_scheme \<times> 'd \<times> bool) option option \<Rightarrow>
     'a stream_t_scheme \<Rightarrow> ('d \<Rightarrow> 'd option) \<Rightarrow> ('d \<Rightarrow> 'r) \<Rightarrow> 'r \<Rightarrow> ('a stream_t_scheme \<times> 'r) option option" where
  "digest_result own fed stream digest_finalize get_digest_raw null =
     (case own of
        Some f \<Rightarrow> Some (Some (f stream))
      | None \<Rightarrow>
          map_option (\<lambda>r. do { (stream, digest, success) \<leftarrow> r;
                               if success then do { digest \<leftarrow> digest_finalize digest; Some (stream, get_digest_raw digest) }
                               else Some (stream, null) }) fed)"

definition stream_md5 ::
    "'a stream_t_scheme stream_vtable_t \<Rightarrow> byte list \<Rightarrow> md5_t \<Rightarrow> 'a stream_t_scheme \<Rightarrow> ('a stream_t_scheme \<times> u64 \<times> u64) option option" where
  "stream_md5 vt stack raw stream =
     digest_result (vt_md5 vt) (stream_digest vt stack stream (stream_md5_digest raw) (md5_initialize raw)) stream
       (\<lambda>d. Option.bind (md5_digest_finalize (Some d)) (\<lambda>d. d)) (\<lambda>d. md5_get_digest_raw (Some d)) (0, 0)"

definition stream_sha256 ::
    "'a stream_t_scheme stream_vtable_t \<Rightarrow> byte list \<Rightarrow> u32 sha_t \<Rightarrow> 'a stream_t_scheme \<Rightarrow> ('a stream_t_scheme \<times> u64 list) option option" where
  "stream_sha256 vt stack raw stream =
     digest_result (vt_sha256 vt) (stream_digest vt stack stream stream_sha256_digest (sha256_initialize raw)) stream
       sha256_digest_finalize sha256_get_digest_raw (replicate 4 0)"

definition stream_sha512 ::
    "'a stream_t_scheme stream_vtable_t \<Rightarrow> byte list \<Rightarrow> u64 sha_t \<Rightarrow> 'a stream_t_scheme \<Rightarrow> ('a stream_t_scheme \<times> u64 list) option option" where
  "stream_sha512 vt stack raw stream =
     digest_result (vt_sha512 vt) (stream_digest vt stack stream stream_sha512_digest (sha512_initialize raw)) stream
       sha512_digest_finalize sha512_get_digest_raw (replicate 8 0)"

section \<open>Line endings\<close>

text \<open>A carriage return, a newline and the two in a row all end a line; each is made one newline.\<close>

fun unix_lines :: "bool \<Rightarrow> byte list \<Rightarrow> byte list" where
  "unix_lines after_cr [] = []"
| "unix_lines after_cr (c # cs) =
     (if c = 13 then 10 # unix_lines True cs
      else if c = 10 then (if after_cr then unix_lines False cs else 10 # unix_lines False cs)
      else c # unix_lines False cs)"

lemma unix_lines_append:
  "unix_lines b (xs @ ys) = unix_lines b xs @ unix_lines (if xs = [] then b else List.last xs = 13) ys"
  by (induction b xs rule: unix_lines.induct) auto

lemma unix_lines_skip:
  "unix_lines b xs = unix_lines False (if b \<and> xs \<noteq> [] \<and> hd xs = 10 then tl xs else xs)"
  by (cases xs) auto

text \<open>Plain bytes are left as they are.\<close>

lemma unix_lines_plain: "\<forall>c\<in>set xs. c \<noteq> 13 \<and> c \<noteq> 10 \<Longrightarrow> unix_lines b xs = xs"
  by (induction xs arbitrary: b) auto

section \<open>The digester's contract\<close>

text \<open>\<open>holds d m\<close>: the object \<open>d\<close> has been fed the message \<open>m\<close>.\<close>

locale feeder =
  fixes digester :: "'d digester" and holds :: "'d \<Rightarrow> byte list \<Rightarrow> bool"
  assumes feeds: "holds d m \<Longrightarrow> \<exists>d'. digester d xs = Some (d', True) \<and> holds d' (m @ xs)"
begin

text \<open>
  The lines of a chunk: what has been fed, with the unfinished line behind it, is the chunk with its line
  endings unified.
\<close>

lemma digest_lines_spec:
  assumes "holds d m" and "sz \<le> limit" and "length buf = limit + 1" and "lastc \<le> ic"
  shows "\<exists>d' m' buf' lastc' b. digest_lines digester d buf sz limit lastc ic ign = Line_Rest d' buf' lastc' b \<and>
     holds d' m' \<and> length buf' = limit + 1 \<and>
     m' @ segment buf' lastc' sz = m @ segment buf lastc (min ic sz) @ unix_lines False (segment buf ic sz) \<and>
     b = (ign \<or> ic < sz \<and> sz = limit \<and> buf ! (limit - 1) = 13)"
  using assms
proof (induction "sz - ic" arbitrary: d m buf lastc ic ign rule: less_induct)
  case less
  show ?case
  proof (cases "ic < sz")
    case False
    then have "digest_lines digester d buf sz limit lastc ic ign = Line_Rest d buf lastc ign"
      by (subst digest_lines.simps) simp
    moreover have "segment buf ic sz = []" using False by (simp add: segment_def)
    ultimately show ?thesis using False less.prems by (auto simp: min_absorb2)
  next
    case True
    let ?c = "buf ! ic"
    have ic: "ic < length buf" "ic < limit" "ic + 1 < length buf" using True less.prems(2,3) by auto
    have c: "segment buf ic sz = ?c # segment buf (ic + 1) sz"
      using True ic less.prems(2,3) by (simp add: segment_def Cons_nth_drop_Suc [symmetric])
    show ?thesis
    proof (cases "?c = 13 \<or> ?c = 10")
      case False
      then have e: "digest_lines digester d buf sz limit lastc ic ign = digest_lines digester d buf sz limit lastc (ic + 1) ign"
        using True ic by (subst digest_lines.simps) (simp add: mem_get_def)
      have "sz - (ic + 1) < sz - ic" using True by simp
      from less.hyps [OF this less.prems(1-3), of lastc ign] less.prems(4) True
      obtain d' m' buf' lastc' b where r: "digest_lines digester d buf sz limit lastc (ic + 1) ign = Line_Rest d' buf' lastc' b"
         "holds d' m'" "length buf' = limit + 1"
         "m' @ segment buf' lastc' sz = m @ segment buf lastc (ic + 1) @ unix_lines False (segment buf (ic + 1) sz)"
         "b = (ign \<or> ic + 1 < sz \<and> sz = limit \<and> buf ! (limit - 1) = 13)"
        by (auto simp: min_def split: if_splits)
      have "segment buf lastc (ic + 1) = segment buf lastc ic @ [?c]"
        using ic less.prems(4) by (simp add: segment_def take_Suc_conv_app_nth)
      moreover have "b = (ign \<or> ic < sz \<and> sz = limit \<and> buf ! (limit - 1) = 13)"
        using r(5) False True by (cases "ic + 1 = sz") auto
      ultimately show ?thesis using r False True unfolding e c by (auto simp: min_def)
    next
      case end_of_line: True
      let ?buf = "buf[ic := 10]"
      define b where "b = (if ?c = 13 \<and> ic = limit - 1 then True else ign)"
      have piece: "take (ic - lastc + 1) (drop lastc ?buf) = segment buf lastc ic @ [10]"
        using ic less.prems(4) by (simp add: segment_def take_drop take_Suc_conv_app_nth Suc_diff_le)
      obtain d1 where d1: "digester d (segment buf lastc ic @ [10]) = Some (d1, True)" "holds d1 (m @ segment buf lastc ic @ [10])"
        using feeds [OF less.prems(1)] by metis
      define j where "j = (if ?c = 13 \<and> buf ! (ic + 1) = 10 then ic + 1 else ic)"
      have e: "digest_lines digester d buf sz limit lastc ic ign = digest_lines digester d1 ?buf sz limit (j + 1) (j + 1) b"
        using True ic end_of_line less.prems(4) d1(1) piece
        by (subst digest_lines.simps) (auto simp: mem_get_def mem_load_def Let_def b_def j_def)
      have "sz - (j + 1) < sz - ic" using True by (auto simp: j_def)
      from less.hyps [OF this d1(2) less.prems(2), of ?buf "j + 1" b] less.prems(3)
      obtain d' m' buf' lastc' b' where r: "digest_lines digester d1 ?buf sz limit (j + 1) (j + 1) b = Line_Rest d' buf' lastc' b'"
         "holds d' m'" "length buf' = limit + 1"
         "m' @ segment buf' lastc' sz = (m @ segment buf lastc ic @ [10]) @ segment ?buf (j + 1) (min (j + 1) sz) @ unix_lines False (segment ?buf (j + 1) sz)"
         "b' = (b \<or> j + 1 < sz \<and> sz = limit \<and> ?buf ! (limit - 1) = 13)"
        by auto
      have seg: "segment ?buf (j + 1) sz = segment buf (j + 1) sz" "segment ?buf (j + 1) (min (j + 1) sz) = []"
        by (auto simp: segment_def j_def take_update_swap)
      have "unix_lines False (segment buf ic sz) = 10 # unix_lines False (segment buf (j + 1) sz)"
      proof (cases "?c = 13 \<and> buf ! (ic + 1) = 10")
        case True
        have "segment buf (ic + 1) sz = (if ic + 1 < sz then 10 # segment buf (ic + 2) sz else [])"
          using True less.prems(2,3) by (auto simp: segment_def Cons_nth_drop_Suc [symmetric])
        moreover have "segment buf (ic + 2) sz = []" if "\<not> ic + 1 < sz" using that by (simp add: segment_def)
        ultimately show ?thesis using True unfolding c by (auto simp: j_def)
      next
        case False
        then have j: "j = ic" by (auto simp: j_def)
        show ?thesis
        proof (cases "?c = 13")
          case True
          have "hd (segment buf (ic + 1) sz) \<noteq> 10" if "segment buf (ic + 1) sz \<noteq> []"
            using that False True ic by (auto simp: segment_def hd_drop_conv_nth)
          then show ?thesis using True unfolding c j by (auto simp: unix_lines_skip [of True])
        qed (use end_of_line c j in auto)
      qed
      moreover have "b' = (ign \<or> ic < sz \<and> sz = limit \<and> buf ! (limit - 1) = 13)"
      proof (cases "ic = limit - 1")
        case True
        then have "\<not> j + 1 < sz" using less.prems(2) by (auto simp: j_def)
        then show ?thesis using True \<open>ic < sz\<close> less.prems(2) ic(2) unfolding r(5) by (auto simp: b_def)
      next
        case False
        have "j + 1 < sz \<or> buf ! (limit - 1) \<noteq> 13" if "sz = limit"
        proof (cases "ic + 1 = limit - 1")
          case True
          then have "j + 1 < sz \<or> buf ! (ic + 1) = 10" using that by (auto simp: j_def)
          then show ?thesis unfolding True by auto
        next
          case gap: False
          then have "j + 1 < sz" using False ic(2) that by (auto simp: j_def)
          then show ?thesis ..
        qed
        then show ?thesis using False True unfolding r(5) by (auto simp: b_def)
      qed
      ultimately show ?thesis using r(1-4) True unfolding e seg by (auto simp: min_def)
    qed
  qed
qed

end

section \<open>The whole stream\<close>

text \<open>The bytes that are digested: all of them, in a text stream with unified line endings.\<close>

definition digested :: "bool \<Rightarrow> bool \<Rightarrow> byte list \<Rightarrow> byte list" where
  "digested binary after_cr xs = (if binary then xs else unix_lines after_cr xs)"

locale digested_stream = file_stream vt fil pos ok + feeder digester holds
  for vt :: "'a stream_t_scheme stream_vtable_t" and fil pos ok and digester :: "'d digester" and holds
begin

text \<open>
  One round: the next chunk is fed. Only a chunk that fills the buffer can leave a carriage return pending, and
  a chunk that does not is the last.
\<close>

lemma digest_step_spec:
  assumes "ok s" and "holds d m" and "length buf = limit + 1" and "0 < limit"
  defines "chunk \<equiv> take limit (drop (pos s) (fil s))"
  shows "if pos s = length (fil s) then digest_step vt digester limit s d buf b = Digest_End s d
    else \<exists>s' d' buf' b'. digest_step vt digester limit s d buf b = Digest_Next s' d' buf' b' \<and> ok s' \<and> fil s' = fil s \<and>
      pos s' = pos s + length chunk \<and> stream_t.truncate s' = stream_t.truncate s \<and> length buf' = limit + 1 \<and> chunk \<noteq> [] \<and>
      holds d' (m @ digested (stream_is_binary s) b chunk) \<and>
      (\<not> stream_is_binary s \<longrightarrow> pos s' = length (fil s) \<or> b' = (List.last chunk = 13))"
proof (cases "pos s = length (fil s)")
  case True
  then show ?thesis using eos_law [OF assms(1)] by (simp add: digest_step_def)
next
  case False
  then have ne: "chunk \<noteq> []" using pos_le [OF assms(1)] assms(4) by (simp add: chunk_def)
  obtain s' where s': "vt_read vt s limit = Some (s', chunk)" "ok s'" "fil s' = fil s"
      "pos s' = min (pos s + limit) (length (fil s))" "stream_t.truncate s' = stream_t.truncate s"
    using read_law [OF assms(1), of limit] unfolding chunk_def by blast
  have p: "pos s' = pos s + length chunk" using s'(4) pos_le [OF assms(1)] by (auto simp: chunk_def)
  have n: "length chunk \<le> limit" by (simp add: chunk_def)
  define buf1 where "buf1 = overwrite buf 0 chunk"
  have st: "mem_store buf 0 chunk = Some buf1" using n assms(3) by (simp add: mem_store_def buf1_def)
  have buf1: "length buf1 = limit + 1" "take (length chunk) buf1 = chunk"
    using n assms(3) by (simp_all add: buf1_def overwrite_def)
  have mode: "stream_is_binary s' = stream_is_binary s" using s'(5) by (simp add: stream_is_binary_def stream_t.truncate_def)
  have ne': "\<not> stream_eos vt s" using False eos_law [OF assms(1)] by simp
  show ?thesis
  proof (cases "stream_is_binary s")
    case True
    obtain d' where "digester d chunk = Some (d', True)" "holds d' (m @ chunk)" using feeds [OF assms(2)] by metis
    then have "digest_step vt digester limit s d buf b = Digest_Next s' d' buf1 b" "holds d' (m @ digested (stream_is_binary s) b chunk)"
      using True ne ne' s'(1) st mode by (simp_all add: digest_step_def digested_def)
    then show ?thesis using False True s' p buf1 ne by auto
  next
    case text_mode: False
    define j where "j = (if b \<and> buf1 ! 0 = 10 then 1 else 0 :: nat)"
    have hd: "buf1 ! 0 = hd chunk" using buf1(2) ne by (metis hd_conv_nth length_greater_0_conv nth_take)
    have seg: "segment buf1 j (length chunk) = (if b \<and> hd chunk = 10 then tl chunk else chunk)"
      using hd buf1(2) by (simp add: segment_def j_def drop_Suc)
    have "segment buf1 j (min j (length chunk)) = []" by (simp add: segment_def)
    with digest_lines_spec [OF assms(2) n buf1(1) order_refl, of j False]
    obtain d1 m1 buf2 k b1 where r: "digest_lines digester d buf1 (length chunk) limit j j False = Line_Rest d1 buf2 k b1" "holds d1 m1"
        "length buf2 = limit + 1" "m1 @ segment buf2 k (length chunk) = m @ unix_lines False (segment buf1 j (length chunk))"
        "b1 = (j < length chunk \<and> length chunk = limit \<and> buf1 ! (limit - 1) = 13)"
      by auto
    have all: "m1 @ segment buf2 k (length chunk) = m @ digested (stream_is_binary s) b chunk"
      unfolding r(4) seg using text_mode ne unix_lines_skip [of b chunk] by (simp add: digested_def)
    have last: "pos s' = length (fil s) \<or> b1 = (List.last chunk = 13)"
    proof (cases "length chunk = limit")
      case True
      then have "buf1 ! (limit - 1) = List.last chunk" using buf1(2) ne assms(4) by (metis diff_less last_conv_nth nth_take zero_less_one)
      moreover have "j < length chunk" if "List.last chunk = 13"
      proof (rule ccontr)
        assume "\<not> j < length chunk"
        then have "length chunk = 1" "hd chunk = 10" using ne hd by (auto simp: j_def split: if_splits) (simp add: Suc_leI le_antisym)
        then show False using that by (cases chunk) auto
      qed
      ultimately show ?thesis using r(5) True by auto
    next
      case False
      then show ?thesis using s'(4) p pos_le [OF assms(1)] by (auto simp: chunk_def min_def split: if_splits)
    qed
    show ?thesis
    proof (cases "k < length chunk")
      case True
      then have ld: "mem_load buf2 k (length chunk - k) = Some (segment buf2 k (length chunk))"
        using n r(3) by (simp add: mem_load_def segment_def take_drop)
      obtain d2 where d2: "digester d1 (segment buf2 k (length chunk)) = Some (d2, True)" "holds d2 (m1 @ segment buf2 k (length chunk))"
        using feeds [OF r(2)] by metis
      have "digest_step vt digester limit s d buf b = Digest_Next s' d2 buf2 b1"
        using text_mode ne ne' s'(1) st mode True r(1) ld d2(1) by (simp add: digest_step_def Let_def j_def)
      then show ?thesis using False s' p r(3) ne d2(2) last unfolding all by auto
    next
      case k: False
      then have "segment buf2 k (length chunk) = []" by (simp add: segment_def)
      moreover have "digest_step vt digester limit s d buf b = Digest_Next s' d1 buf2 b1"
        using text_mode ne ne' s'(1) st mode k r(1) by (simp add: digest_step_def Let_def j_def)
      ultimately show ?thesis using False s' p r(2,3) ne last all by auto
    qed
  qed
qed

end

lemma digested_append:
  "xs \<noteq> [] \<Longrightarrow> digested binary b (xs @ ys) = digested binary b xs @ digested binary (List.last xs = 13) ys"
  by (simp add: digested_def unix_lines_append)

lemma digested_Nil [simp]: "digested binary b [] = []"
  by (simp add: digested_def)

context digested_stream
begin

lemma digest_loop_spec:
  assumes "ok s" and "holds d m" and "length buf = limit + 1" and "0 < limit"
  shows "\<exists>s' d'. digest_loop vt digester limit cur s d buf b = Some (Some (s', d', True)) \<and>
    ok s' \<and> fil s' = fil s \<and> pos s' = min cur (length (fil s)) \<and> stream_t.truncate s' = stream_t.truncate s \<and>
    holds d' (m @ digested (stream_is_binary s) b (drop (pos s) (fil s)))"
  using assms(1-3)
proof (induction "length (fil s) - pos s" arbitrary: s d m buf b rule: less_induct)
  case less
  let ?c = "take limit (drop (pos s) (fil s))"
  note step = digest_step_spec [OF less.prems assms(4), of b]
  show ?case
  proof (cases "pos s = length (fil s)")
    case True
    let ?s = "stream_seek vt s (int cur) STREAM_SEEK_BEGIN"
    have "digest_loop vt digester limit cur s d buf b = Some (Some (?s, d, True))"
      using step True by (subst digest_loop.simps) simp
    moreover have "ok ?s" "fil ?s = fil s" "stream_t.truncate ?s = stream_t.truncate s" "pos ?s = min cur (length (fil s))"
      using seek_law [OF less.prems(1)] seek_begin [OF less.prems(1), of "int cur"] by (auto simp: clamp_def)
    ultimately show ?thesis using True less.prems(2) by auto
  next
    case False
    from step False obtain s' d' buf' b' where n: "digest_step vt digester limit s d buf b = Digest_Next s' d' buf' b'" "ok s'" "fil s' = fil s"
        "pos s' = pos s + length ?c" "stream_t.truncate s' = stream_t.truncate s" "length buf' = limit + 1" "?c \<noteq> []"
        "holds d' (m @ digested (stream_is_binary s) b ?c)"
        "\<not> stream_is_binary s \<longrightarrow> pos s' = length (fil s) \<or> b' = (List.last ?c = 13)"
      by auto
    have "0 < length ?c" using n(7) by blast
    then have "length (fil s') - pos s' < length (fil s) - pos s" unfolding n(3,4) by (auto simp: min_def)
    from less.hyps [OF this n(2,8,6), of b'] obtain s2 d2 where r: "digest_loop vt digester limit cur s' d' buf' b' = Some (Some (s2, d2, True))"
        "ok s2" "fil s2 = fil s'" "pos s2 = min cur (length (fil s'))" "stream_t.truncate s2 = stream_t.truncate s'"
        "holds d2 ((m @ digested (stream_is_binary s) b ?c) @ digested (stream_is_binary s') b' (drop (pos s') (fil s')))"
      by blast
    have mode: "stream_is_binary s' = stream_is_binary s" using n(5) by (simp add: stream_is_binary_def stream_t.truncate_def)
    have rest: "drop (pos s) (fil s) = ?c @ drop (pos s') (fil s')"
      unfolding n(3,4) by (rule rest_split)
    have "digested (stream_is_binary s') b' (drop (pos s') (fil s')) = digested (stream_is_binary s) (List.last ?c = 13) (drop (pos s') (fil s'))"
      using n(3,9) mode by (cases "pos s' = length (fil s)") (auto simp: digested_def)
    then have "digested (stream_is_binary s) b ?c @ digested (stream_is_binary s') b' (drop (pos s') (fil s')) =
        digested (stream_is_binary s) b (drop (pos s) (fil s))"
      by (subst rest) (simp only: digested_append [OF n(7)])
    then show ?thesis using r n(1,3,5) by (subst digest_loop.simps) auto
  qed
qed

lemma stream_digest_spec:
  assumes "ok s" and "holds d []" and "length stack = 1025" and "\<not> st_sequential s" and "st_mode s AND STREAM_IN \<noteq> 0"
  shows "\<exists>s' d'. stream_digest vt stack s digester d = Some (Some (s', d', True)) \<and> ok s' \<and> fil s' = fil s \<and> pos s' = pos s \<and>
    holds d' (digested (stream_is_binary s) False (fil s))"
proof -
  let ?s = "stream_seek vt s 0 STREAM_SEEK_BEGIN"
  have s: "ok ?s" "fil ?s = fil s" "pos ?s = 0" "stream_t.truncate ?s = stream_t.truncate s"
    using seek_law [OF assms(1)] seek_begin [OF assms(1)] by (auto simp: clamp_def)
  have mode: "stream_is_binary ?s = stream_is_binary s" using s(4) by (simp add: stream_is_binary_def stream_t.truncate_def)
  have l: "length (stack[1024 := 0]) = 1024 + 1" using assms(3) by simp
  from digest_loop_spec [OF s(1) assms(2) l, of "pos s" False] s(2,3) mode pos_le [OF assms(1)]
  obtain s' d' where "digest_loop vt digester 1024 (pos s) ?s d (stack[1024 := 0]) False = Some (Some (s', d', True))"
      "ok s'" "fil s' = fil s" "pos s' = pos s" "holds d' (digested (stream_is_binary s) False (fil s))"
    by (auto simp: min_absorb1)
  then show ?thesis
    using assms(3-5) tell_law [OF assms(1)] by (simp add: stream_digest_def stream_is_sequential_def)
qed

end

text \<open>A digest object with the contract of Block-Hash feeds, and its result is the result of the stream.\<close>

lemma streaming_feeder:
  assumes "streaming_digest start feed finish result holds ended fit spec"
  shows "feeder (\<lambda>d xs. map_option (\<lambda>d. (d, True)) (feed d xs)) holds"
proof
  fix d m xs assume "holds d m"
  from streaming_digest.feed_holds [OF assms this, of xs]
  show "\<exists>d'. map_option (\<lambda>d. (d, True)) (feed d xs) = Some (d', True) \<and> holds d' (m @ xs)" by auto
qed

lemma buffer_digest:
  assumes digest: "streaming_digest start feed finish result holds ended fit spec"
    and s: "bs_inv s" "st_mode s AND STREAM_IN \<noteq> 0" "\<not> st_sequential s" and stack: "length stack = 1025"
    and fit: "fit (digested (stream_is_binary s) False (contents s))"
  shows "\<exists>s' d. digest_result None (stream_digest (buffer_stream_vtable raw now) stack s (\<lambda>d xs. map_option (\<lambda>d. (d, True)) (feed d xs)) start)
      s finish get null = Some (Some (s', get d)) \<and>
    result d = spec (digested (stream_is_binary s) False (contents s)) \<and> contents s' = contents s \<and> bs_current s' = bs_current s"
proof -
  have ds: "digested_stream (buffer_stream_vtable raw now) contents bs_current bs_inv (\<lambda>d xs. map_option (\<lambda>d. (d, True)) (feed d xs)) holds"
    by (intro digested_stream.intro bufs.file_stream_axioms streaming_feeder [OF digest])
  from digested_stream.stream_digest_spec [OF ds s(1) streaming_digest.start_holds [OF digest] stack s(3,2)]
  obtain s' d where r: "stream_digest (buffer_stream_vtable raw now) stack s (\<lambda>d xs. map_option (\<lambda>d. (d, True)) (feed d xs)) start =
        Some (Some (s', d, True))" "contents s' = contents s" "bs_current s' = bs_current s"
      "holds d (digested (stream_is_binary s) False (contents s))"
    by blast
  from streaming_digest.finish_result [OF digest r(4) fit] obtain d' where
    "finish d = Some d'" "result d' = spec (digested (stream_is_binary s) False (contents s))" by blast
  then show ?thesis using r(1-3) by (auto simp: digest_result_def)
qed

lemma raw_result256:
  "sha_state d = h \<Longrightarrow> sha256_get_digest_raw d = map (\<lambda>i. word_cat (h ! (2 * i)) (h ! (2 * i + 1))) [0..<4]"
  by (simp add: sha256_get_digest_raw_def pair_cat upt_rec)

lemma raw_result512: "sha_state d = h \<Longrightarrow> sha512_get_digest_raw d = map (\<lambda>i. h ! i) [0..<8]"
  by (simp only: sha512_get_digest_raw_def)

interpretation md5_feed: feeder "stream_md5_digest fresh" md5_holds for fresh
  using streaming_feeder [OF md5_stream.streaming_digest_axioms, of fresh] by (simp add: stream_md5_digest_def [abs_def])

interpretation md5_buffer_stream: digested_stream "buffer_stream_vtable raw now" contents bs_current bs_inv "stream_md5_digest fresh" md5_holds
  for raw now fresh ..

text \<open>
  C35. The MD5, SHA-256 and SHA-512 digests of a readable buffer stream are those of its whole contents,
  in a text stream with every carriage return, newline and pair of the two made one newline, whatever
  chunk boundary they fall on; the loop ends, stays within its buffer and restores the position.
\<close>

theorem stream_digest_correct:
  assumes "bs_inv s" and "st_mode s AND STREAM_IN \<noteq> 0" and "\<not> st_sequential s" and "length stack = 1025"
    and "length (sha_buffer raw256) = 64" and "length (sha_buffer raw512) = 128"
    and "8 * length (if stream_is_binary s then contents s else unix_lines False (contents s)) < 2 ^ 64"
  defines "m \<equiv> if stream_is_binary s then contents s else unix_lines False (contents s)"
  shows "(\<exists>s'. stream_md5 (buffer_stream_vtable raw now) stack rawmd5 s =
       Some (Some (s', word_of_nat (be_value (take 8 (rfc_md5 m))), word_of_nat (be_value (drop 8 (rfc_md5 m))))) \<and>
       contents s' = contents s \<and> bs_current s' = bs_current s)
    \<and> (\<exists>s'. stream_sha256 (buffer_stream_vtable raw now) stack raw256 s =
       Some (Some (s', map (\<lambda>i. word_cat (fips_sha256 m ! (2 * i)) (fips_sha256 m ! (2 * i + 1))) [0..<4])) \<and>
       contents s' = contents s \<and> bs_current s' = bs_current s)
    \<and> (\<exists>s'. stream_sha512 (buffer_stream_vtable raw now) stack raw512 s = Some (Some (s', map (\<lambda>i. fips_sha512 m ! i) [0..<8])) \<and>
       contents s' = contents s \<and> bs_current s' = bs_current s)"
proof (intro conjI)
  have m: "m = digested (stream_is_binary s) False (contents s)" by (simp add: m_def digested_def)
  have fit: "8 * length (digested (stream_is_binary s) False (contents s)) < 2 ^ 64" using assms(7) by (simp only: digested_def)
  have own: "vt_md5 (buffer_stream_vtable raw now) = None" "vt_sha256 (buffer_stream_vtable raw now) = None"
    "vt_sha512 (buffer_stream_vtable raw now) = None" by (simp_all add: buffer_stream_vtable_def)
  note run = buffer_digest [OF _ assms(1-4), of _ _ _ _ _ _ _ _ raw now]
  show "\<exists>s'. stream_md5 (buffer_stream_vtable raw now) stack rawmd5 s =
       Some (Some (s', word_of_nat (be_value (take 8 (rfc_md5 m))), word_of_nat (be_value (drop 8 (rfc_md5 m))))) \<and>
       contents s' = contents s \<and> bs_current s' = bs_current s"
    using run [OF md5_stream.streaming_digest_axioms TrueI, of rawmd5 rawmd5 "\<lambda>d. md5_get_digest_raw (Some d)" "(0, 0)"]
    unfolding stream_md5_def own stream_md5_digest_def [abs_def] md5_finish_def [abs_def, symmetric] m
    by (elim exE conjE) (intro exI conjI, simp only: raw_result, assumption+)
  show "\<exists>s'. stream_sha256 (buffer_stream_vtable raw now) stack raw256 s =
       Some (Some (s', map (\<lambda>i. word_cat (fips_sha256 m ! (2 * i)) (fips_sha256 m ! (2 * i + 1))) [0..<4])) \<and>
       contents s' = contents s \<and> bs_current s' = bs_current s"
    using run [OF sha256_stream [OF assms(5)] fit, of sha256_get_digest_raw "replicate 4 0"]
    unfolding stream_sha256_def own stream_sha256_digest_def [abs_def] m [symmetric]
    by (elim exE conjE) (intro exI conjI, simp only: raw_result256, assumption+)
  show "\<exists>s'. stream_sha512 (buffer_stream_vtable raw now) stack raw512 s = Some (Some (s', map (\<lambda>i. fips_sha512 m ! i) [0..<8])) \<and>
       contents s' = contents s \<and> bs_current s' = bs_current s"
    using run [OF sha512_stream [OF assms(6)] fit, of sha512_get_digest_raw "replicate 8 0"]
    unfolding stream_sha512_def own stream_sha512_digest_def [abs_def] m [symmetric]
    by (elim exE conjE) (intro exI conjI, simp only: raw_result512, assumption+)
qed

definition text_stream :: stream_buffer_t where
  "text_stream = buffer_stream_initialize (Some [97, 13, 10, 98, 13]) STREAM_IN 5 5 True True [] 0"

theorem stream_digest_correct_witness:
  "\<exists>s. stream_sha512 (buffer_stream_vtable (\<lambda>n. replicate n 0) 0) (replicate 1025 7) (example_sha 128) text_stream =
    Some (Some (s, map (\<lambda>i. fips_sha512 [97, 10, 98, 10] ! i) [0..<8])) \<and> contents s = [97, 13, 10, 98, 13]"
proof -
  have i: "bs_inv text_stream"
    unfolding text_stream_def by (rule initialize_inv) (auto simp: SIZE_MOD_def)
  have c: "contents text_stream = [97, 13, 10, 98, 13]" "st_mode text_stream AND STREAM_IN \<noteq> 0" "\<not> st_sequential text_stream"
      "\<not> stream_is_binary text_stream"
    by (simp_all add: text_stream_def buffer_stream_initialize_def stream_initialize_def contents_def Let_def stream_is_binary_def
        STREAM_OUT_def STREAM_IN_def STREAM_TRUNCATE_def STREAM_ATEND_def STREAM_BINARY_def)
  have b: "length (replicate 1025 (7 :: byte)) = 1025" "length (sha_buffer (example_sha 64 :: u32 sha_t)) = 64"
    "length (sha_buffer (example_sha 128 :: u64 sha_t)) = 128" by (simp_all only: length_replicate example_sha_def sha_t.simps)
  have fit: "8 * length (if stream_is_binary text_stream then contents text_stream else unix_lines False (contents text_stream)) < 2 ^ 64"
    using c(1,4) by simp
  show ?thesis
    using stream_digest_correct [OF i c(2,3) b fit, THEN conjunct2, THEN conjunct2, of "\<lambda>n. replicate n 0" 0] c(1,4) by auto
qed

end
