(* ===== verification/Json.thy ===== *)
theory Json
  imports String_Search
begin

text \<open>
  \<open>foundation/json.c\<close>: the parser of JSON and of simplified JSON, which fills an array of tokens of a
  given capacity and counts the tokens beyond it.

  The mutually recursive parse functions carry a fuel that the calls and the rounds of the loops
  use up; \<^const>\<open>None\<close> is an access outside of the text or an exhausted fuel, so that a theorem that a
  parse returns \<open>Some\<close> excludes both.
\<close>

section \<open>Tokens\<close>

datatype json_type_t = JSON_UNDEFINED | JSON_OBJECT | JSON_ARRAY | JSON_STRING | JSON_PRIMITIVE

record json_token_t =
  jt_type :: json_type_t
  jt_id :: nat
  jt_id_length :: nat
  jt_value :: nat
  jt_value_length :: nat
  jt_child :: nat
  jt_sibling :: nat

text \<open>A conversion to \<open>unsigned int\<close>.\<close>

definition to_uint :: "nat \<Rightarrow> nat" where
  "to_uint n = n mod 2 ^ 32"

text \<open>
  The capacity of the array is the length of the list of tokens: an update behind it changes nothing,
  as the code does nothing when \<open>get_token\<close> gives a null pointer.
\<close>

definition get_token :: "json_token_t list \<Rightarrow> nat \<Rightarrow> json_token_t option" where
  "get_token tokens index = (if index < length tokens then Some (tokens ! index) else None)"

definition update_token :: "json_token_t list \<Rightarrow> nat \<Rightarrow> (json_token_t \<Rightarrow> json_token_t) \<Rightarrow> json_token_t list" where
  "update_token tokens index f = (case get_token tokens index of Some token \<Rightarrow> tokens[index := f token] | None \<Rightarrow> tokens)"

definition is_valid_token :: "json_token_t list \<Rightarrow> nat \<Rightarrow> bool" where
  "is_valid_token tokens index = (case get_token tokens index of Some token \<Rightarrow> jt_type token \<noteq> JSON_UNDEFINED | None \<Rightarrow> True)"

definition set_token_primitive :: "json_token_t list \<Rightarrow> nat \<Rightarrow> json_type_t \<Rightarrow> size_t \<Rightarrow> size_t \<Rightarrow> json_token_t list" where
  "set_token_primitive tokens current type value' value_length = update_token tokens current
     (\<lambda>token. token\<lparr>jt_type := type, jt_child := 0, jt_sibling := 0, jt_value := to_uint value', jt_value_length := to_uint value_length\<rparr>)"

definition set_token_complex :: "json_token_t list \<Rightarrow> nat \<Rightarrow> json_type_t \<Rightarrow> size_t \<Rightarrow> json_token_t list" where
  "set_token_complex tokens current type pos = update_token tokens current
     (\<lambda>token. token\<lparr>jt_type := type, jt_child := to_uint (current + 1), jt_sibling := 0, jt_value := to_uint pos, jt_value_length := 0\<rparr>)"

definition set_token_id :: "json_token_t list \<Rightarrow> nat \<Rightarrow> size_t \<Rightarrow> size_t \<Rightarrow> json_token_t list" where
  "set_token_id tokens current ident id_length = update_token tokens current
     (\<lambda>token. token\<lparr>jt_id := to_uint ident, jt_id_length := to_uint id_length\<rparr>)"

definition set_sibling :: "json_token_t list \<Rightarrow> nat \<Rightarrow> nat \<Rightarrow> json_token_t list" where
  "set_sibling tokens index current = update_token tokens index (\<lambda>token. token\<lparr>jt_sibling := current\<rparr>)"

section \<open>Characters, strings and numbers\<close>

definition is_whitespace :: "byte \<Rightarrow> bool" where
  "is_whitespace c \<longleftrightarrow> c = 32 \<or> c = 9 \<or> c = 10 \<or> c = 13"

definition is_token_delimiter :: "byte \<Rightarrow> bool" where
  "is_token_delimiter c \<longleftrightarrow> is_whitespace c \<or> c = 93 \<or> c = 125 \<or> c = 44"

function skip_whitespace :: "byte list \<Rightarrow> size_t \<Rightarrow> size_t \<Rightarrow> size_t option" where
  "skip_whitespace buffer len pos =
     (if pos < len then
        (case mem_get buffer pos of
           None \<Rightarrow> None
         | Some c \<Rightarrow> if \<not> is_whitespace c then Some pos else skip_whitespace buffer len (pos + 1))
      else Some pos)"
  by pat_completeness auto
termination by (relation "measure (\<lambda>(buffer, len, pos). len - pos)") auto

declare skip_whitespace.simps [simp del]

definition hex_digit :: "byte \<Rightarrow> bool" where
  "hex_digit c \<longleftrightarrow> 48 \<le> c \<and> c \<le> 57 \<or> 65 \<le> c \<and> c \<le> 70 \<or> 97 \<le> c \<and> c \<le> 102"

text \<open>The loop over the four digits of an escape \<open>\uXXXX\<close>: the position of the last, or \<^const>\<open>STRING_NPOS\<close>.\<close>

fun unicode_escape :: "byte list \<Rightarrow> size_t \<Rightarrow> size_t \<Rightarrow> nat \<Rightarrow> size_t option" where
  "unicode_escape buffer len pos 0 = Some pos"
| "unicode_escape buffer len pos (Suc n) =
     (if pos < len then
        (case mem_get buffer (pos + 1) of
           None \<Rightarrow> None
         | Some c \<Rightarrow> if hex_digit c then unicode_escape buffer len (pos + 1) n else Some STRING_NPOS)
      else Some pos)"

lemma unicode_escape_ge: "unicode_escape buffer len pos n = Some p \<Longrightarrow> p = STRING_NPOS \<or> pos \<le> p"
  by (induction buffer len pos n rule: unicode_escape.induct) (fastforce split: if_splits option.splits)+

text \<open>The characters that may follow a backslash: quote, slash, backslash, \<open>b\<close>, \<open>f\<close>, \<open>r\<close>, \<open>n\<close>, \<open>t\<close>.\<close>

definition escape_chars :: "byte list" where
  "escape_chars = [34, 47, 92, 98, 102, 114, 110, 116]"

function parse_string_loop :: "byte list \<Rightarrow> size_t \<Rightarrow> size_t \<Rightarrow> size_t \<Rightarrow> bool \<Rightarrow> bool \<Rightarrow> size_t option" where
  "parse_string_loop buffer len start pos key simple =
     (if pos < len then
        (case mem_get buffer pos of
           None \<Rightarrow> None
         | Some c \<Rightarrow>
             if simple \<and> (is_token_delimiter c \<or> key \<and> (c = 61 \<or> c = 58)) then Some (pos - start)
             else if c = 34 then Some (pos - start)
             else if c = 92 \<and> pos + 1 < len then
               (case mem_get buffer (pos + 1) of
                  None \<Rightarrow> None
                | Some e \<Rightarrow>
                    if e \<in> set escape_chars then parse_string_loop buffer len start (pos + 2) key simple
                    else if e = 117 then
                      (case unicode_escape buffer len (pos + 1) 4 of
                         None \<Rightarrow> None
                       | Some p \<Rightarrow> if p = STRING_NPOS then Some STRING_NPOS
                                   else parse_string_loop buffer len start (p + 1) key simple)
                    else Some STRING_NPOS)
             else parse_string_loop buffer len start (pos + 1) key simple)
      else Some (if simple then pos - start else STRING_NPOS))"
  by pat_completeness auto
termination
  by (relation "measure (\<lambda>(buffer, len, start, pos, key, simple). len - pos)") (auto dest!: unicode_escape_ge)

declare parse_string_loop.simps [simp del]

definition parse_string :: "byte list \<Rightarrow> size_t \<Rightarrow> size_t \<Rightarrow> bool \<Rightarrow> bool \<Rightarrow> size_t option" where
  "parse_string buffer len pos key simple = parse_string_loop buffer len pos pos key simple"

function parse_number_loop :: "byte list \<Rightarrow> size_t \<Rightarrow> size_t \<Rightarrow> size_t \<Rightarrow> bool \<Rightarrow> bool \<Rightarrow> bool \<Rightarrow> size_t option" where
  "parse_number_loop buffer len start pos has_dot has_digit has_exp =
     (if pos < len then
        (case mem_get buffer pos of
           None \<Rightarrow> None
         | Some c \<Rightarrow>
             if is_token_delimiter c then Some (if has_digit then pos - start else STRING_NPOS)
             else if c = 45 then
               (if start \<noteq> pos then Some STRING_NPOS else parse_number_loop buffer len start (pos + 1) has_dot has_digit has_exp)
             else if c = 46 then
               (if has_dot \<or> has_exp then Some STRING_NPOS else parse_number_loop buffer len start (pos + 1) True has_digit has_exp)
             else if c = 101 \<or> c = 69 then
               (if \<not> has_digit \<or> has_exp then Some STRING_NPOS
                else if pos + 1 < len then
                  (case mem_get buffer (pos + 1) of
                     None \<Rightarrow> None
                   | Some s \<Rightarrow> parse_number_loop buffer len start (if s = 43 \<or> s = 45 then pos + 2 else pos + 1) has_dot has_digit True)
                else parse_number_loop buffer len start (pos + 1) has_dot has_digit True)
             else if c < 48 \<or> 57 < c then Some STRING_NPOS
             else parse_number_loop buffer len start (pos + 1) has_dot True has_exp)
      else Some (if has_digit then pos - start else STRING_NPOS))"
  by pat_completeness auto
termination
  by (relation "measure (\<lambda>(buffer, len, start, pos, has_dot, has_digit, has_exp). len - pos)") auto

declare parse_number_loop.simps [simp del]

definition parse_number :: "byte list \<Rightarrow> size_t \<Rightarrow> size_t \<Rightarrow> size_t option" where
  "parse_number buffer len pos = parse_number_loop buffer len pos pos False False False"

section \<open>Values, objects and arrays\<close>

type_synonym parsed = "size_t \<times> json_token_t list \<times> nat"

text \<open>Whether the text has the given word at a position, with a delimiter behind it.\<close>

definition at_word :: "byte list \<Rightarrow> size_t \<Rightarrow> size_t \<Rightarrow> byte list \<Rightarrow> bool option" where
  "at_word buffer len pos word =
     (if len - pos \<ge> length word + 1 then
        do { s \<leftarrow> mem_load buffer pos (length word);
             eq \<leftarrow> string_equal s (length word) word (length word);
             if eq then do { c \<leftarrow> mem_get buffer (pos + length word); Some (is_token_delimiter c) } else Some False }
      else Some False)"

text \<open>A string value: without quotes only in the simplified notation.\<close>

definition parse_string_value :: "byte list \<Rightarrow> size_t \<Rightarrow> bool \<Rightarrow> byte \<Rightarrow> size_t \<Rightarrow> json_token_t list \<Rightarrow> nat \<Rightarrow> parsed option" where
  "parse_string_value buffer len simple c pos tokens current =
     (if c \<noteq> 34 \<and> \<not> simple then Some (STRING_NPOS, tokens, current)
      else let simple_string = (c \<noteq> 34);
               pos = (if simple_string then pos - 1 else pos)
           in do { string \<leftarrow> parse_string buffer len pos False simple_string;
                   if string = STRING_NPOS then Some (STRING_NPOS, tokens, current)
                   else do {
                     let tokens = set_token_primitive tokens current JSON_STRING pos string;
                     quote \<leftarrow> (if \<not> simple_string then Some True
                               else if pos + string < len then do { q \<leftarrow> mem_get buffer (pos + string); Some (q = 34) }
                               else Some False);
                     Some (pos + (if quote then string + 1 else string), tokens, to_uint (current + 1)) } })"

definition parse_number_value :: "byte list \<Rightarrow> size_t \<Rightarrow> bool \<Rightarrow> size_t \<Rightarrow> json_token_t list \<Rightarrow> nat \<Rightarrow> parsed option" where
  "parse_number_value buffer len simple pos tokens current =
     do { number \<leftarrow> parse_number buffer len (pos - 1);
          (type, string) \<leftarrow> (if number = STRING_NPOS \<and> simple
                             then do { s \<leftarrow> parse_string buffer len (pos - 1) False True; Some (JSON_STRING, s) }
                             else Some (JSON_PRIMITIVE, number));
          if string = STRING_NPOS then Some (STRING_NPOS, tokens, current)
          else Some (pos + string - 1, set_token_primitive tokens current type (pos - 1) string, to_uint (current + 1)) }"

text \<open>The words \<open>true\<close>, \<open>false\<close> and \<open>null\<close>, whose first character has been read.\<close>

definition parse_word_value :: "byte list \<Rightarrow> size_t \<Rightarrow> bool \<Rightarrow> byte \<Rightarrow> size_t \<Rightarrow> json_token_t list \<Rightarrow> nat \<Rightarrow> parsed option" where
  "parse_word_value buffer len simple c pos tokens current =
     (let word = (if c = 116 then [114, 117, 101] else if c = 102 then [97, 108, 115, 101] else [117, 108, 108])
      in do { found \<leftarrow> at_word buffer len pos word;
              if found then
                Some (pos + length word, set_token_primitive tokens current JSON_PRIMITIVE (pos - 1) (length word + 1), to_uint (current + 1))
              else if \<not> simple then Some (STRING_NPOS, tokens, current)
              else parse_string_value buffer len simple c pos tokens current })"

text \<open>What is done with the token of an object when its members have been parsed.\<close>

definition object_end :: "json_token_t list \<Rightarrow> nat \<Rightarrow> size_t \<Rightarrow> nat \<Rightarrow> json_token_t list" where
  "object_end tokens owner pos current = update_token tokens owner
     (\<lambda>token. let token = (if pos \<noteq> STRING_NPOS then token\<lparr>jt_value_length := to_uint (size_sub pos (jt_value token))\<rparr> else token)
              in if jt_child token = current then token\<lparr>jt_child := 0\<rparr> else token)"

text \<open>
  The three parse functions call each other. Each is a definition over the function that its calls
  go to, and \<open>parse\<close> ties the knot: the call of a value, of a round of the loop of an object, or of
  a round of the loop of an array.
\<close>

datatype json_call = Parse_Value size_t | Object_Loop size_t nat | Array_Loop size_t nat nat

type_synonym parser = "json_call \<Rightarrow> json_token_t list \<Rightarrow> nat \<Rightarrow> parsed option"

definition parse_object :: "parser \<Rightarrow> byte list \<Rightarrow> size_t \<Rightarrow> size_t \<Rightarrow> json_token_t list \<Rightarrow> nat \<Rightarrow> parsed option" where
  "parse_object rec buffer len pos tokens current =
     do { pos \<leftarrow> skip_whitespace buffer len pos; rec (Object_Loop pos 0) tokens current }"

definition parse_array :: "parser \<Rightarrow> byte list \<Rightarrow> size_t \<Rightarrow> size_t \<Rightarrow> nat \<Rightarrow> json_token_t list \<Rightarrow> nat \<Rightarrow> parsed option" where
  "parse_array rec buffer len pos owner tokens current =
     do { pos \<leftarrow> skip_whitespace buffer len pos;
          c \<leftarrow> mem_get buffer pos;
          if c = 93 then do {
            pos \<leftarrow> skip_whitespace buffer len (pos + 1);
            Some (pos, update_token tokens owner (\<lambda>token. token\<lparr>jt_child := 0\<rparr>), current) }
          else rec (Array_Loop pos owner 0) tokens current }"

definition parse_value :: "parser \<Rightarrow> byte list \<Rightarrow> size_t \<Rightarrow> bool \<Rightarrow> size_t \<Rightarrow> json_token_t list \<Rightarrow> nat \<Rightarrow> parsed option" where
  "parse_value rec buffer len simple pos tokens current =
     do { pos \<leftarrow> skip_whitespace buffer len pos;
          if pos < len then do {
            c \<leftarrow> mem_get buffer pos;
            let pos = pos + 1;
            if c = 123 then do {
              (p, tokens', current') \<leftarrow>
                parse_object rec buffer len pos (set_token_complex tokens current JSON_OBJECT (pos - 1)) (to_uint (current + 1));
              Some (p, object_end tokens' current p current', current') }
            else if c = 91 then
              parse_array rec buffer len pos current (set_token_complex tokens current JSON_ARRAY 0) (to_uint (current + 1))
            else if c = 45 \<or> 48 \<le> c \<and> c \<le> 57 \<or> c = 46 then parse_number_value buffer len simple pos tokens current
            else if c = 116 \<or> c = 102 \<or> c = 110 then parse_word_value buffer len simple c pos tokens current
            else parse_string_value buffer len simple c pos tokens current }
          else Some (STRING_NPOS, tokens, current) }"

text \<open>A member of an object: its key, the separator and its value.\<close>

definition parse_member :: "parser \<Rightarrow> byte list \<Rightarrow> size_t \<Rightarrow> bool \<Rightarrow> byte \<Rightarrow> size_t \<Rightarrow> json_token_t list \<Rightarrow> nat \<Rightarrow> parsed option" where
  "parse_member rec buffer len simple c pos tokens current =
     do { let simple_string = (c \<noteq> 34);
          let pos = (if simple_string then pos - 1 else pos);
          string \<leftarrow> parse_string buffer len pos True simple_string;
          if string = STRING_NPOS then Some (STRING_NPOS, tokens, current)
          else do {
            let tokens = set_token_id tokens current pos string;
            quote \<leftarrow> (if \<not> simple then Some True
                      else if pos + string < len then do { q \<leftarrow> mem_get buffer (pos + string); Some (q = 34) }
                      else Some False);
            pos \<leftarrow> skip_whitespace buffer len (pos + (if quote then string + 1 else string));
            sep \<leftarrow> mem_get buffer pos;
            if sep \<noteq> 58 \<and> (\<not> simple \<or> sep \<noteq> 61) then Some (STRING_NPOS, tokens, current)
            else do {
              (pos, tokens', current') \<leftarrow> rec (Parse_Value (pos + 1)) tokens current;
              pos \<leftarrow> skip_whitespace buffer len pos;
              another \<leftarrow> (if simple_string \<and> pos < len then do { n \<leftarrow> mem_get buffer pos; Some (n \<noteq> 44 \<and> n \<noteq> 125) } else Some False);
              if another then rec (Object_Loop pos 0) (set_sibling tokens' current current') current'
              else rec (Object_Loop pos current) tokens' current' } } }"

definition object_loop :: "parser \<Rightarrow> byte list \<Rightarrow> size_t \<Rightarrow> bool \<Rightarrow> size_t \<Rightarrow> nat \<Rightarrow> json_token_t list \<Rightarrow> nat \<Rightarrow> parsed option" where
  "object_loop rec buffer len simple pos last' tokens current =
     (if pos < len then do {
        c \<leftarrow> mem_get buffer pos;
        if c = 125 then
          Some (if last' \<noteq> 0 \<and> \<not> is_valid_token tokens last' then STRING_NPOS else pos + 1, tokens, current)
        else if c = 44 then
          (if last' = 0 \<or> \<not> is_valid_token tokens last' then Some (STRING_NPOS, tokens, current)
           else do { pos \<leftarrow> skip_whitespace buffer len (pos + 1);
                     rec (Object_Loop pos 0) (set_sibling tokens last' current) current })
        else if last' \<noteq> 0 \<or> c \<noteq> 34 \<and> \<not> simple then Some (STRING_NPOS, tokens, current)
        else parse_member rec buffer len simple c (pos + 1) tokens current }
      else Some (if simple then pos else STRING_NPOS, tokens, current))"

definition array_loop :: "parser \<Rightarrow> byte list \<Rightarrow> size_t \<Rightarrow> bool \<Rightarrow> size_t \<Rightarrow> nat \<Rightarrow> nat \<Rightarrow> json_token_t list \<Rightarrow> nat \<Rightarrow> parsed option" where
  "array_loop rec buffer len simple pos owner last' tokens current =
     (if pos < len then do {
        (pos, tokens', current') \<leftarrow> rec (Parse_Value pos) (set_token_id tokens current 0 0) current;
        if pos = STRING_NPOS then Some (STRING_NPOS, tokens', current')
        else do {
          let tokens' = update_token tokens' owner (\<lambda>token. token\<lparr>jt_value_length := to_uint (jt_value_length token + 1)\<rparr>);
          let tokens' = (if last' \<noteq> 0 then set_sibling tokens' last' current else tokens');
          pos \<leftarrow> skip_whitespace buffer len pos;
          c \<leftarrow> mem_get buffer pos;
          if c = 44 then rec (Array_Loop (pos + 1) owner current) tokens' current'
          else if c = 93 then Some (pos + 1, tokens', current')
          else if \<not> simple \<or> c = 125 then Some (STRING_NPOS, tokens', current')
          else rec (Array_Loop pos owner current) tokens' current' } }
      else Some (STRING_NPOS, tokens, current))"

primrec parse :: "nat \<Rightarrow> byte list \<Rightarrow> size_t \<Rightarrow> bool \<Rightarrow> parser" where
  "parse 0 buffer len simple = (\<lambda>call tokens current. None)"
| "parse (Suc fuel) buffer len simple = (\<lambda>call tokens current.
     case call of
       Parse_Value pos \<Rightarrow> parse_value (parse fuel buffer len simple) buffer len simple pos tokens current
     | Object_Loop pos last' \<Rightarrow> object_loop (parse fuel buffer len simple) buffer len simple pos last' tokens current
     | Array_Loop pos owner last' \<Rightarrow> array_loop (parse fuel buffer len simple) buffer len simple pos owner last' tokens current)"

section \<open>The entry points\<close>

text \<open>Every character pays for at most two calls.\<close>

definition json_fuel :: "size_t \<Rightarrow> nat" where
  "json_fuel len = 2 * len + 3"

definition json_parse :: "byte list \<Rightarrow> size_t \<Rightarrow> json_token_t list \<Rightarrow> (nat \<times> json_token_t list) option" where
  "json_parse buffer sz tokens =
     do { let tokens = set_token_id tokens 0 0 0;
          let tokens = set_token_primitive tokens 0 JSON_UNDEFINED 0 0;
          (pos, tokens, current) \<leftarrow> parse (json_fuel sz) buffer sz False (Parse_Value 0) tokens 0;
          Some (if pos = STRING_NPOS then 0 else current, tokens) }"

definition sjson_parse :: "byte list \<Rightarrow> size_t \<Rightarrow> json_token_t list \<Rightarrow> (nat \<times> json_token_t list) option" where
  "sjson_parse buffer sz tokens =
     do { pos \<leftarrow> skip_whitespace buffer sz 0;
          c \<leftarrow> (if pos < sz then mem_get buffer pos else Some 123);
          if c \<noteq> 123 then do {
            let tokens = set_token_id tokens 0 0 0;
            let tokens = set_token_complex tokens 0 JSON_OBJECT pos;
            (p, tokens, current) \<leftarrow> parse_object (parse (json_fuel sz) buffer sz True) buffer sz pos tokens 1;
            let tokens = update_token tokens 0 (\<lambda>token. token\<lparr>jt_value_length := to_uint (size_sub sz (jt_value token))\<rparr>);
            Some (if p = STRING_NPOS then 0 else current, tokens) }
          else do {
            (pos, tokens, current) \<leftarrow> parse (json_fuel sz) buffer sz True (Parse_Value pos) tokens 0;
            Some (if pos = STRING_NPOS then 0 else current, tokens) } }"

end
