(* ===== verification/Json_Safe.thy ===== *)
theory Json_Safe
  imports Json
begin

text \<open>
  The parser of \<^theory_text>\<open>Json\<close> stays within a text with a terminating zero, ends, fills in well-formed
  tokens, and finds the same number of tokens whatever the capacity of the array.
\<close>

section \<open>Scanning a terminated text\<close>

text \<open>A text of \<open>len\<close> characters with a zero behind it.\<close>

definition terminated :: "byte list \<Rightarrow> size_t \<Rightarrow> bool" where
  "terminated buffer len \<longleftrightarrow> len < length buffer \<and> buffer ! len = 0 \<and> len < STRING_NPOS"

lemma terminated_get: "terminated buffer len \<Longrightarrow> pos \<le> len \<Longrightarrow> mem_get buffer pos = Some (buffer ! pos)"
  by (simp add: terminated_def mem_get_def)

lemma skip_whitespace_spec:
  assumes "terminated buffer len"
  shows "\<exists>p. skip_whitespace buffer len pos = Some p \<and> pos \<le> p \<and> (pos \<le> len \<longrightarrow> p \<le> len) \<and> (len < pos \<longrightarrow> p = pos) \<and>
    (p < len \<longrightarrow> \<not> is_whitespace (buffer ! p))"
proof (induction "len - pos" arbitrary: pos rule: less_induct)
  case less
  show ?case
  proof (cases "pos < len \<and> is_whitespace (buffer ! pos)")
    case True
    then have "skip_whitespace buffer len pos = skip_whitespace buffer len (pos + 1)"
      using terminated_get [OF assms, of pos] by (subst skip_whitespace.simps) simp
    moreover have "len - (pos + 1) < len - pos" using True by auto
    from less.hyps [OF this] obtain p where "skip_whitespace buffer len (pos + 1) = Some p" "pos + 1 \<le> p" "pos + 1 \<le> len \<longrightarrow> p \<le> len"
      "p < len \<longrightarrow> \<not> is_whitespace (buffer ! p)" by blast
    ultimately show ?thesis using True by auto
  next
    case False
    then have "skip_whitespace buffer len pos = Some pos"
      using terminated_get [OF assms, of pos] by (subst skip_whitespace.simps) auto
    then show ?thesis using False by auto
  qed
qed

lemma unicode_escape_spec:
  assumes "terminated buffer len" and "pos < len"
  shows "\<exists>p. unicode_escape buffer len pos n = Some p \<and> (p = STRING_NPOS \<or> pos \<le> p \<and> p < len)"
  using assms(2)
proof (induction n arbitrary: pos)
  case (Suc n)
  have get: "mem_get buffer (pos + 1) = Some (buffer ! (pos + 1))" using Suc.prems terminated_get [OF assms(1)] by simp
  show ?case
  proof (cases "hex_digit (buffer ! (pos + 1))")
    case True
    moreover have "\<not> hex_digit 0" by (simp add: hex_digit_def word_le_nat_alt)
    ultimately have "pos + 1 \<noteq> len" using assms(1) by (auto simp: terminated_def)
    then have "pos + 1 < len" using Suc.prems by simp
    from Suc.IH [OF this] show ?thesis using True get Suc.prems by auto
  qed (use get Suc.prems in auto)
qed auto

text \<open>
  A string: its end is within the text, at the closing quote unless it is a simplified one; a simplified
  string is empty only before a delimiter or a separator.
\<close>

lemma parse_string_loop_spec:
  assumes "terminated buffer len" and "start \<le> pos" and "pos \<le> len"
  shows "\<exists>n. parse_string_loop buffer len start pos key simple = Some n \<and>
    (n \<noteq> STRING_NPOS \<longrightarrow> pos \<le> start + n \<and> start + n \<le> len \<and> (\<not> simple \<longrightarrow> start + n < len \<and> buffer ! (start + n) = 34) \<and>
      (start + n = pos \<longrightarrow> pos = len \<or> buffer ! pos = 34 \<or> is_token_delimiter (buffer ! pos) \<or> key \<and> (buffer ! pos = 61 \<or> buffer ! pos = 58)))"
  using assms(2,3)
proof (induction "len - pos" arbitrary: pos rule: less_induct)
  case less
  let ?goal = "\<lambda>pos r. \<exists>n. r = Some n \<and>
    (n \<noteq> STRING_NPOS \<longrightarrow> pos \<le> start + n \<and> start + n \<le> len \<and> (\<not> simple \<longrightarrow> start + n < len \<and> buffer ! (start + n) = 34) \<and>
      (start + n = pos \<longrightarrow> pos = len \<or> buffer ! pos = 34 \<or> is_token_delimiter (buffer ! pos) \<or> key \<and> (buffer ! pos = 61 \<or> buffer ! pos = 58)))"
  have on: "?goal pos (parse_string_loop buffer len start p key simple)" if "pos < p" "p \<le> len" for p
  proof -
    have "len - p < len - pos" using that by simp
    from less.hyps [OF this] that less.prems(1) show ?thesis by fastforce
  qed
  let ?c = "buffer ! pos"
  show ?case
  proof (cases "pos < len")
    case False
    then show ?thesis using less.prems by (subst parse_string_loop.simps) auto
  next
    case True
    have get: "mem_get buffer pos = Some ?c" using terminated_get [OF assms(1)] True by simp
    consider "simple \<and> (is_token_delimiter ?c \<or> key \<and> (?c = 61 \<or> ?c = 58)) \<or> ?c = 34"
      | "\<not> (simple \<and> (is_token_delimiter ?c \<or> key \<and> (?c = 61 \<or> ?c = 58)))" "?c \<noteq> 34" "?c = 92 \<and> pos + 1 < len"
      | "\<not> (simple \<and> (is_token_delimiter ?c \<or> key \<and> (?c = 61 \<or> ?c = 58)))" "?c \<noteq> 34" "\<not> (?c = 92 \<and> pos + 1 < len)" by blast
    then show ?thesis
    proof cases
      case 1
      then have "parse_string_loop buffer len start pos key simple = Some (pos - start)"
        using True get by (subst parse_string_loop.simps) auto
      then show ?thesis using 1 True less.prems by auto
    next
      case 2
      have get2: "mem_get buffer (pos + 1) = Some (buffer ! (pos + 1))" using terminated_get [OF assms(1)] 2 by simp
      from 2 unicode_escape_spec [OF assms(1), of "pos + 1" 4] obtain p where
        p: "unicode_escape buffer len (pos + 1) 4 = Some p" "p = STRING_NPOS \<or> pos + 1 \<le> p \<and> p < len" by blast
      have "parse_string_loop buffer len start pos key simple =
          (if buffer ! (pos + 1) \<in> set escape_chars then parse_string_loop buffer len start (pos + 2) key simple
           else if buffer ! (pos + 1) = 117 then
             (if p = STRING_NPOS then Some STRING_NPOS else parse_string_loop buffer len start (p + 1) key simple)
           else Some STRING_NPOS)"
        using 2 True get get2 p by (subst parse_string_loop.simps) auto
      then show ?thesis using on [of "pos + 2"] on [of "p + 1"] 2 p(2) by auto
    next
      case 3
      then have "parse_string_loop buffer len start pos key simple = parse_string_loop buffer len start (pos + 1) key simple"
        using True get by (subst parse_string_loop.simps) auto
      then show ?thesis using on [of "pos + 1"] True by simp
    qed
  qed
qed

lemma parse_number_loop_spec:
  assumes "terminated buffer len" and "start \<le> pos" and "pos \<le> len" and "has_digit \<Longrightarrow> start < pos"
  shows "\<exists>n. parse_number_loop buffer len start pos has_dot has_digit has_exp = Some n \<and>
    (n \<noteq> STRING_NPOS \<longrightarrow> 0 < n \<and> start + n \<le> len)"
  using assms(2-4)
proof (induction "len - pos" arbitrary: pos has_dot has_digit has_exp rule: less_induct)
  case less
  have on: "\<exists>n. parse_number_loop buffer len start p d g e = Some n \<and> (n \<noteq> STRING_NPOS \<longrightarrow> 0 < n \<and> start + n \<le> len)"
    if "pos < p" "p \<le> len" for p d g e
    using less.hyps [of p g d e] that less.prems(1) by fastforce
  show ?case
  proof (cases "pos < len")
    case False
    then show ?thesis using less.prems by (subst parse_number_loop.simps) auto
  next
    case True
    have get: "mem_get buffer pos = Some (buffer ! pos)" using terminated_get [OF assms(1)] True by simp
    have get2: "mem_get buffer (pos + 1) = Some (buffer ! (pos + 1))" if "pos + 1 < len" using terminated_get [OF assms(1)] that by simp
    show ?thesis
      using True get get2 on [of "pos + 1"] on [of "pos + 2"] less.prems
      by (subst parse_number_loop.simps) (auto split: if_splits)
  qed
qed

section \<open>Well-formed tokens\<close>

text \<open>
  A token of a parse that has found \<open>n\<close> tokens: its strings lie in the text, its child is the token behind
  it, and its sibling comes later.
\<close>

definition token_ok :: "nat \<Rightarrow> nat \<Rightarrow> nat \<Rightarrow> json_token_t \<Rightarrow> bool" where
  "token_ok len n i t \<longleftrightarrow> jt_type t \<noteq> JSON_UNDEFINED \<and> jt_id t + jt_id_length t \<le> len \<and>
     (jt_type t \<noteq> JSON_ARRAY \<longrightarrow> jt_value t + jt_value_length t \<le> len) \<and>
     (jt_child t = 0 \<or> jt_child t = i + 1 \<and> i + 1 \<le> n) \<and> (jt_sibling t = 0 \<or> i < jt_sibling t \<and> jt_sibling t \<le> n)"

definition tokens_ok :: "nat \<Rightarrow> nat \<Rightarrow> json_token_t list \<Rightarrow> bool" where
  "tokens_ok len n T \<longleftrightarrow> (\<forall>i < length T. i < n \<longrightarrow> token_ok len n i (T ! i))"

text \<open>The last token has no child, which would be the token that is still to come.\<close>

definition closed :: "nat \<Rightarrow> json_token_t list \<Rightarrow> bool" where
  "closed n T \<longleftrightarrow> 0 < n \<and> (n - 1 < length T \<longrightarrow> jt_child (T ! (n - 1)) \<noteq> n)"

text \<open>What a call leaves of the tokens before it: all but the sibling and the length of the value.\<close>

definition same_token :: "json_token_t \<Rightarrow> json_token_t \<Rightarrow> bool" where
  "same_token t t' \<longleftrightarrow> jt_type t' = jt_type t \<and> jt_id t' = jt_id t \<and> jt_id_length t' = jt_id_length t \<and>
     jt_value t' = jt_value t \<and> jt_child t' = jt_child t"

definition framed :: "nat \<Rightarrow> json_token_t list \<Rightarrow> json_token_t list \<Rightarrow> bool" where
  "framed n T T' \<longleftrightarrow> length T' = length T \<and> (\<forall>i < length T. i < n \<longrightarrow> same_token (T ! i) (T' ! i))"

lemma framed_refl [simp]: "framed n T T"
  by (simp add: framed_def same_token_def)

lemma framed_trans: "framed n A B \<Longrightarrow> framed m B C \<Longrightarrow> n \<le> m \<Longrightarrow> framed n A C"
  by (auto simp: framed_def same_token_def)

lemma update_token_Nil [simp]: "update_token [] i f = []"
  by (simp add: update_token_def get_token_def)

lemma length_update_token [simp]: "length (update_token T i f) = length T"
  by (simp add: update_token_def get_token_def)

lemma nth_update_token: "j < length T \<Longrightarrow> update_token T i f ! j = (if i = j then f (T ! j) else T ! j)"
  by (simp add: update_token_def get_token_def)

lemma framed_update: "n \<le> i \<Longrightarrow> framed n T (update_token T i f)"
  by (auto simp: framed_def nth_update_token same_token_def)

lemma framed_update_same: "(\<And>t. same_token t (f t)) \<Longrightarrow> framed n T (update_token T i f)"
  by (auto simp: framed_def nth_update_token same_token_def)

lemma set_token_Nil [simp]:
  "set_token_id [] i a b = []" "set_token_primitive [] i ty a b = []" "set_token_complex [] i ty a = []"
  "set_sibling [] i n = []" "object_end [] i p n = []" "is_valid_token [] i"
  by (simp_all add: set_token_id_def set_token_primitive_def set_token_complex_def set_sibling_def object_end_def
      is_valid_token_def get_token_def)

lemma to_uint_id: "n < 2 ^ 32 \<Longrightarrow> to_uint n = n"
  by (simp add: to_uint_def)

lemma framed_closed: "framed n T T' \<Longrightarrow> closed n T \<Longrightarrow> closed n T'"
  by (auto simp: framed_def closed_def same_token_def)

lemma framed_valid: "framed n T T' \<Longrightarrow> i < n \<Longrightarrow> is_valid_token T' i = is_valid_token T i"
  by (auto simp: framed_def is_valid_token_def get_token_def same_token_def)

lemma tokens_ok_valid: "tokens_ok len n T \<Longrightarrow> i < n \<Longrightarrow> is_valid_token T i"
  by (auto simp: tokens_ok_def is_valid_token_def get_token_def token_ok_def)

lemma token_ok_mono: "token_ok len n i t \<Longrightarrow> n \<le> m \<Longrightarrow> token_ok len m i t"
  by (auto simp: token_ok_def)

lemma tokens_ok_update:
  assumes "tokens_ok len n T" and "n \<le> m" and "\<And>t. i < length T \<Longrightarrow> i < n \<Longrightarrow> token_ok len n i (T ! i) \<Longrightarrow> token_ok len m i (f (T ! i))"
    and "\<And>j. n \<le> j \<Longrightarrow> j < m \<Longrightarrow> j < length T \<Longrightarrow> j = i \<and> token_ok len m i (f (T ! i))"
  shows "tokens_ok len m (update_token T i f)"
  unfolding tokens_ok_def
proof (intro allI impI)
  fix j assume j: "j < length (update_token T i f)" "j < m"
  show "token_ok len m j (update_token T i f ! j)"
  proof (cases "j < n")
    case True
    then show ?thesis using j assms(1,2,3) by (auto simp: tokens_ok_def nth_update_token intro: token_ok_mono)
  next
    case False
    then show ?thesis using j assms(4) [of j] by (auto simp: nth_update_token)
  qed
qed

lemma set_sibling_ok:
  assumes "tokens_ok len n T" "i < n" "n' \<le> n" "i < n'"
  shows "tokens_ok len n (set_sibling T i n')" "framed m T (set_sibling T i n')"
proof -
  show "tokens_ok len n (set_sibling T i n')"
    unfolding set_sibling_def by (rule tokens_ok_update [OF assms(1) order_refl]) (use assms in \<open>auto simp: token_ok_def\<close>)
  show "framed m T (set_sibling T i n')"
    unfolding set_sibling_def by (rule framed_update_same) (simp add: same_token_def)
qed

lemma set_token_id_ok:
  assumes "tokens_ok len n T" and "ident + l \<le> len" and "len < 2 ^ 32"
  shows "tokens_ok len n (set_token_id T n ident l)" "framed n T (set_token_id T n ident l)"
    "n < length T \<Longrightarrow> jt_id (set_token_id T n ident l ! n) + jt_id_length (set_token_id T n ident l ! n) \<le> len"
proof -
  show "tokens_ok len n (set_token_id T n ident l)"
    unfolding set_token_id_def by (rule tokens_ok_update [OF assms(1) order_refl]) auto
  show "framed n T (set_token_id T n ident l)"
    unfolding set_token_id_def by (rule framed_update) simp
  show "jt_id (set_token_id T n ident l ! n) + jt_id_length (set_token_id T n ident l ! n) \<le> len" if "n < length T"
    using assms that by (simp add: set_token_id_def nth_update_token to_uint_id)
qed

text \<open>A token that is complete when it is written: a string or a primitive value.\<close>

lemma set_token_primitive_ok:
  assumes "tokens_ok len n T" and "n < length T \<Longrightarrow> jt_id (T ! n) + jt_id_length (T ! n) \<le> len"
    and "v + l \<le> len" and "len < 2 ^ 32" and "type \<noteq> JSON_UNDEFINED"
  shows "tokens_ok len (n + 1) (set_token_primitive T n type v l)" "framed n T (set_token_primitive T n type v l)"
    "closed (n + 1) (set_token_primitive T n type v l)"
proof -
  show "tokens_ok len (n + 1) (set_token_primitive T n type v l)"
    unfolding set_token_primitive_def
    by (rule tokens_ok_update [OF assms(1)]) (use assms in \<open>auto simp: token_ok_def to_uint_id\<close>)
  show "framed n T (set_token_primitive T n type v l)"
    unfolding set_token_primitive_def by (rule framed_update) simp
  show "closed (n + 1) (set_token_primitive T n type v l)"
    by (auto simp: closed_def set_token_primitive_def nth_update_token)
qed

lemma set_token_complex_ok:
  assumes "tokens_ok len n T" and "n < length T \<Longrightarrow> jt_id (T ! n) + jt_id_length (T ! n) \<le> len"
    and "v \<le> len" and "len < 2 ^ 32" and "n + 1 < 2 ^ 32" and "type \<noteq> JSON_UNDEFINED"
  shows "tokens_ok len (n + 1) (set_token_complex T n type v)" "framed n T (set_token_complex T n type v)"
    "n < length T \<Longrightarrow> jt_value (set_token_complex T n type v ! n) = v \<and> jt_type (set_token_complex T n type v ! n) = type"
proof -
  show "tokens_ok len (n + 1) (set_token_complex T n type v)"
    unfolding set_token_complex_def
    by (rule tokens_ok_update [OF assms(1)]) (use assms in \<open>auto simp: token_ok_def to_uint_id\<close>)
  show "framed n T (set_token_complex T n type v)"
    unfolding set_token_complex_def by (rule framed_update) simp
  show "n < length T \<Longrightarrow> jt_value (set_token_complex T n type v ! n) = v \<and> jt_type (set_token_complex T n type v ! n) = type"
    using assms(3,4) by (simp add: set_token_complex_def nth_update_token to_uint_id)
qed

section \<open>What a call does\<close>

text \<open>
  A call at position \<open>s\<close> with \<open>cur\<close> tokens found ends at \<open>p\<close> with \<open>c\<close> tokens; \<^const>\<open>STRING_NPOS\<close> is a failure.
\<close>

definition outcome :: "nat \<Rightarrow> nat \<Rightarrow> json_token_t list \<Rightarrow> nat \<Rightarrow> nat \<Rightarrow> json_token_t list \<Rightarrow> nat \<Rightarrow> bool" where
  "outcome len s T cur p T' c \<longleftrightarrow> cur \<le> c \<and> framed cur T T' \<and>
     (p \<noteq> STRING_NPOS \<longrightarrow> s \<le> p \<and> p \<le> len \<and> tokens_ok len c T' \<and> (cur < c \<or> closed cur T \<longrightarrow> closed c T'))"

text \<open>How far a call got, for the number of tokens it may have found.\<close>

definition reached :: "nat \<Rightarrow> nat \<Rightarrow> nat" where
  "reached len p = (if p = STRING_NPOS then len else p)"

definition value_outcome :: "byte list \<Rightarrow> nat \<Rightarrow> nat \<Rightarrow> json_token_t list \<Rightarrow> nat \<Rightarrow> nat \<Rightarrow> json_token_t list \<Rightarrow> nat \<Rightarrow> bool" where
  "value_outcome buffer len s T cur p T' c \<longleftrightarrow> outcome len s T cur p T' c \<and> c \<le> cur + max 1 (reached len p - s) \<and>
     (p \<noteq> STRING_NPOS \<longrightarrow> cur < c \<and> (p = s \<longrightarrow> s < len \<longrightarrow> buffer ! s \<in> {44, 93, 125}))"

definition loop_outcome :: "nat \<Rightarrow> nat \<Rightarrow> json_token_t list \<Rightarrow> nat \<Rightarrow> nat \<Rightarrow> json_token_t list \<Rightarrow> nat \<Rightarrow> bool" where
  "loop_outcome len s T cur p T' c \<longleftrightarrow> outcome len s T cur p T' c \<and> c \<le> cur + (reached len p - s)"

text \<open>The state a call needs: well-formed tokens, and numbers that fit an \<open>unsigned int\<close>.\<close>

definition ready :: "nat \<Rightarrow> nat \<Rightarrow> json_token_t list \<Rightarrow> nat \<Rightarrow> bool" where
  "ready len s T cur \<longleftrightarrow> s \<le> len \<and> tokens_ok len cur T \<and> cur + (len - s) + 1 < 2 ^ 32 \<and> len < 2 ^ 32"

definition id_ok :: "nat \<Rightarrow> nat \<Rightarrow> json_token_t list \<Rightarrow> bool" where
  "id_ok len n T \<longleftrightarrow> (n < length T \<longrightarrow> jt_id (T ! n) + jt_id_length (T ! n) \<le> len)"

definition array_at :: "nat \<Rightarrow> json_token_t list \<Rightarrow> bool" where
  "array_at i T \<longleftrightarrow> (i < length T \<longrightarrow> jt_type (T ! i) = JSON_ARRAY)"

text \<open>
  The run on an array of tokens and the run on an array of capacity zero, which finds the same.
\<close>

definition runs :: "(json_token_t list \<Rightarrow> parsed option) \<Rightarrow> json_token_t list \<Rightarrow> (nat \<Rightarrow> json_token_t list \<Rightarrow> nat \<Rightarrow> bool) \<Rightarrow> bool" where
  "runs f T Q \<longleftrightarrow> (\<exists>p T' c. f T = Some (p, T', c) \<and> f [] = Some (p, [], c) \<and> Q p T' c)"

definition good_parser :: "byte list \<Rightarrow> nat \<Rightarrow> nat \<Rightarrow> parser \<Rightarrow> bool" where
  "good_parser buffer len k rec \<longleftrightarrow>
     (\<forall>s T cur. 2 * (len - s) + 1 \<le> k \<longrightarrow> ready len s T cur \<longrightarrow> id_ok len cur T \<longrightarrow>
        runs (\<lambda>T. rec (Parse_Value s) T cur) T (value_outcome buffer len s T cur)) \<and>
     (\<forall>s l T cur. 2 * (len - s) + 1 \<le> k \<longrightarrow> ready len s T cur \<longrightarrow> l < cur \<longrightarrow>
        runs (\<lambda>T. rec (Object_Loop s l) T cur) T (loop_outcome len s T cur)) \<and>
     (\<forall>l T cur. 1 \<le> k \<longrightarrow> rec (Object_Loop STRING_NPOS l) T cur = Some (STRING_NPOS, T, cur)) \<and>
     (\<forall>s owner l T cur. 2 * (len - s) + 2 \<le> k \<longrightarrow> ready len s T cur \<longrightarrow> array_at owner T \<longrightarrow> owner < cur \<longrightarrow> l < cur \<longrightarrow>
        runs (\<lambda>T. rec (Array_Loop s owner l) T cur) T (\<lambda>p T' c. loop_outcome len s T cur p T' c \<and> (p \<noteq> STRING_NPOS \<longrightarrow> cur < c)))"

lemma runsI: "f T = Some (p, T', c) \<Longrightarrow> f [] = Some (p, [], c) \<Longrightarrow> Q p T' c \<Longrightarrow> runs f T Q"
  unfolding runs_def by blast

lemma failed_value: "ready len s T cur \<Longrightarrow> value_outcome buffer len s T cur STRING_NPOS T cur"
  by (simp add: value_outcome_def outcome_def)

lemma failed_loop: "ready len s T cur \<Longrightarrow> loop_outcome len s T cur STRING_NPOS T cur"
  by (simp add: loop_outcome_def outcome_def)

text \<open>A value that is one string or primitive token.\<close>

lemma one_token:
  assumes "ready len s T cur" and "id_ok len cur T" and "s \<le> v" and "v + l \<le> p" and "p \<le> len" and "type \<noteq> JSON_UNDEFINED"
    and "p = s \<Longrightarrow> s < len \<Longrightarrow> buffer ! s \<in> {44, 93, 125}" and "len < STRING_NPOS"
  shows "value_outcome buffer len s T cur p (set_token_primitive T cur type v l) (to_uint (cur + 1))"
proof -
  have r: "tokens_ok len cur T" "cur + 1 < 2 ^ 32" "len < 2 ^ 32" "s \<le> len" using assms(1) by (auto simp: ready_def)
  note t = set_token_primitive_ok [OF r(1), of v l type]
  show ?thesis
    using assms r t by (auto simp: value_outcome_def outcome_def reached_def to_uint_id id_ok_def)
qed

lemma parse_string_value_spec:
  assumes "terminated buffer len" and "ready len s T cur" and "id_ok len cur T" and "s \<le> pos" and "pos < len"
    and "\<not> is_whitespace (buffer ! pos)"
  shows "runs (\<lambda>T. parse_string_value buffer len simple (buffer ! pos) (pos + 1) T cur) T (value_outcome buffer len s T cur)"
proof (cases "buffer ! pos \<noteq> 34 \<and> \<not> simple")
  case True
  then show ?thesis using failed_value [OF assms(2)] by (intro runsI) (simp_all add: parse_string_value_def)
next
  case False
  define q where "q = (buffer ! pos \<noteq> 34)"
  define start where "start = (if q then pos else pos + 1)"
  have start: "s \<le> start" "start \<le> len" using assms(4,5) by (auto simp: start_def)
  from parse_string_loop_spec [OF assms(1) order_refl start(2), of False q] obtain n where
    n: "parse_string buffer len start False q = Some n" "n \<noteq> STRING_NPOS \<Longrightarrow> start + n \<le> len"
      "n \<noteq> STRING_NPOS \<Longrightarrow> \<not> q \<Longrightarrow> start + n < len"
      "n \<noteq> STRING_NPOS \<Longrightarrow> n = 0 \<Longrightarrow> start = len \<or> buffer ! start = 34 \<or> is_token_delimiter (buffer ! start)"
    unfolding parse_string_def by auto
  have step: "parse_string_value buffer len simple (buffer ! pos) (pos + 1) T cur =
      (if n = STRING_NPOS then Some (STRING_NPOS, T, cur)
       else do { quote \<leftarrow> (if \<not> q then Some True
                           else if start + n < len then do { c \<leftarrow> mem_get buffer (start + n); Some (c = 34) } else Some False);
                 Some (start + (if quote then n + 1 else n), set_token_primitive T cur JSON_STRING start n, to_uint (cur + 1)) })" for T
    using False n(1) by (cases "buffer ! pos = 34") (simp_all add: parse_string_value_def start_def q_def Let_def)
  show ?thesis
  proof (cases "n = STRING_NPOS")
    case True
    then show ?thesis unfolding step using failed_value [OF assms(2)] by (intro runsI) simp_all
  next
    case ok: False
    define quote where "quote = (if \<not> q then True else if start + n < len then buffer ! (start + n) = 34 else False)"
    have quote: "(if \<not> q then Some True else if start + n < len then Option.bind (mem_get buffer (start + n)) (\<lambda>c. Some (c = 34)) else Some False) = Some quote"
      using terminated_get [OF assms(1)] by (auto simp: quote_def)
    define p where "p = start + (if quote then n + 1 else n)"
    have run: "parse_string_value buffer len simple (buffer ! pos) (pos + 1) T cur =
        Some (p, set_token_primitive T cur JSON_STRING start n, to_uint (cur + 1))" for T
      unfolding step quote using ok by (simp add: p_def)
    have "p \<le> len" using n(2,3) ok by (auto simp: p_def quote_def split: if_splits)
    moreover have "buffer ! s \<in> {44, 93, 125}" if "p = s" "s < len"
    proof -
      have "n = 0" "start = pos" "s = pos" "q" using that assms(4) by (auto simp: p_def start_def split: if_splits)
      then show ?thesis using n(4) ok assms(5,6) by (auto simp: q_def is_token_delimiter_def)
    qed
    ultimately have "value_outcome buffer len s T cur p (set_token_primitive T cur JSON_STRING start n) (to_uint (cur + 1))"
      using assms(1-3) start(1) by (intro one_token) (auto simp: p_def terminated_def)
    then show ?thesis unfolding run by (intro runsI) simp_all
  qed
qed

lemma parse_number_value_spec:
  assumes "terminated buffer len" and "ready len s T cur" and "id_ok len cur T" and "s \<le> pos" and "pos < len"
    and "\<not> is_token_delimiter (buffer ! pos)" and "buffer ! pos \<noteq> 34"
  shows "runs (\<lambda>T. parse_number_value buffer len simple (pos + 1) T cur) T (value_outcome buffer len s T cur)"
proof -
  have le: "pos \<le> len" using assms(5) by simp
  from parse_number_loop_spec [OF assms(1) order_refl le, of False False False] obtain m where
    m: "parse_number buffer len pos = Some m" "m \<noteq> STRING_NPOS \<longrightarrow> 0 < m \<and> pos + m \<le> len"
    unfolding parse_number_def by auto
  from parse_string_loop_spec [OF assms(1) order_refl le, of False True] obtain k where
    k: "parse_string buffer len pos False True = Some k" "k \<noteq> STRING_NPOS \<longrightarrow> 0 < k \<and> pos + k \<le> len"
    using assms(5-7) unfolding parse_string_def by auto
  define type where "type = (if m = STRING_NPOS \<and> simple then JSON_STRING else JSON_PRIMITIVE)"
  define n where "n = (if m = STRING_NPOS \<and> simple then k else m)"
  have n: "n \<noteq> STRING_NPOS \<longrightarrow> 0 < n \<and> pos + n \<le> len" using m k by (simp add: n_def)
  have run: "parse_number_value buffer len simple (pos + 1) T cur =
      (if n = STRING_NPOS then Some (STRING_NPOS, T, cur)
       else Some (pos + n, set_token_primitive T cur type pos n, to_uint (cur + 1)))" for T
    using m(1) k(1) by (auto simp: parse_number_value_def n_def type_def)
  show ?thesis
  proof (cases "n = STRING_NPOS")
    case True
    then show ?thesis unfolding run using failed_value [OF assms(2)] by (intro runsI) simp_all
  next
    case False
    then have "value_outcome buffer len s T cur (pos + n) (set_token_primitive T cur type pos n) (to_uint (cur + 1))"
      using assms(1-4) n by (intro one_token) (auto simp: type_def terminated_def)
    then show ?thesis unfolding run using False by (intro runsI) simp_all
  qed
qed

lemma parse_word_value_spec:
  assumes "terminated buffer len" and "ready len s T cur" and "id_ok len cur T" and "s \<le> pos" and "pos < len"
    and "\<not> is_whitespace (buffer ! pos)"
  shows "runs (\<lambda>T. parse_word_value buffer len simple (buffer ! pos) (pos + 1) T cur) T (value_outcome buffer len s T cur)"
proof -
  define w :: "byte list" where
    "w = (if buffer ! pos = 116 then [114, 117, 101] else if buffer ! pos = 102 then [97, 108, 115, 101] else [117, 108, 108])"
  have "\<exists>b. at_word buffer len (pos + 1) w = Some b \<and> (b \<longrightarrow> pos + 1 + length w \<le> len)"
  proof (cases "len - (pos + 1) \<ge> length w + 1")
    case True
    then have l: "mem_load buffer (pos + 1) (length w) = Some (take (length w) (drop (pos + 1) buffer))"
      and g: "mem_get buffer (pos + 1 + length w) = Some (buffer ! (pos + 1 + length w))"
      using assms(1) by (auto simp: mem_load_def mem_get_def terminated_def)
    have "\<exists>b. string_equal (take (length w) (drop (pos + 1) buffer)) (length w) w (length w) = Some b"
      using True assms(1) by (auto simp: string_equal_def terminated_def mem_equal_def mem_load_def)
    then show ?thesis using True l g by (auto simp: at_word_def)
  qed (auto simp: at_word_def)
  then obtain b where b: "at_word buffer len (pos + 1) w = Some b" "b \<longrightarrow> pos + 1 + length w \<le> len" by blast
  have run: "parse_word_value buffer len simple (buffer ! pos) (pos + 1) T cur =
      (if b then Some (pos + 1 + length w, set_token_primitive T cur JSON_PRIMITIVE pos (length w + 1), to_uint (cur + 1))
       else if \<not> simple then Some (STRING_NPOS, T, cur)
       else parse_string_value buffer len simple (buffer ! pos) (pos + 1) T cur)" for T
    using b(1) by (simp add: parse_word_value_def w_def [symmetric] Let_def)
  show ?thesis
  proof (cases b)
    case True
    then have "value_outcome buffer len s T cur (pos + 1 + length w) (set_token_primitive T cur JSON_PRIMITIVE pos (length w + 1)) (to_uint (cur + 1))"
      using assms(1-4) b(2) by (intro one_token) (auto simp: terminated_def)
    then show ?thesis unfolding run using True by (intro runsI) simp_all
  next
    case False
    show ?thesis
    proof (cases simple)
      case True
      then show ?thesis unfolding run using \<open>\<not> b\<close> parse_string_value_spec [OF assms, of simple] by simp
    next
      case False
      then show ?thesis unfolding run using \<open>\<not> b\<close> failed_value [OF assms(2)] by (intro runsI) simp_all
    qed
  qed
qed

section \<open>The loops\<close>

lemma loop_then:
  assumes "loop_outcome len s2 T2 c1 p T' c" and "framed cur T T2" and "cur \<le> c1" and "s \<le> s2" and "s2 \<le> len"
    and "c1 \<le> cur + (s2 - s)" and "cur < c1 \<or> closed cur T \<Longrightarrow> closed c1 T2"
  shows "loop_outcome len s T cur p T' c"
proof -
  have "framed c1 T2 T'" using assms(1) by (simp add: loop_outcome_def outcome_def)
  then have "framed cur T T'" by (rule framed_trans [OF assms(2) _ assms(3)])
  moreover have "c \<le> cur + (reached len p - s)"
    using assms by (auto simp: loop_outcome_def outcome_def reached_def split: if_splits)
  moreover have "closed c T'" if "p \<noteq> STRING_NPOS" "cur < c \<or> closed cur T"
    using that assms by (auto simp: loop_outcome_def outcome_def)
  ultimately show ?thesis using assms by (auto simp: loop_outcome_def outcome_def)
qed

lemma good_value:
  "good_parser buffer len k rec \<Longrightarrow> 2 * (len - s) + 1 \<le> k \<Longrightarrow> ready len s T cur \<Longrightarrow> id_ok len cur T \<Longrightarrow>
   \<exists>p T' c. rec (Parse_Value s) T cur = Some (p, T', c) \<and> rec (Parse_Value s) [] cur = Some (p, [], c) \<and> value_outcome buffer len s T cur p T' c"
  unfolding good_parser_def runs_def by blast

lemma good_object:
  "good_parser buffer len k rec \<Longrightarrow> 2 * (len - s) + 1 \<le> k \<Longrightarrow> ready len s T cur \<Longrightarrow> l < cur \<Longrightarrow>
   \<exists>p T' c. rec (Object_Loop s l) T cur = Some (p, T', c) \<and> rec (Object_Loop s l) [] cur = Some (p, [], c) \<and> loop_outcome len s T cur p T' c"
  unfolding good_parser_def runs_def by blast

lemma good_array:
  "good_parser buffer len k rec \<Longrightarrow> 2 * (len - s) + 2 \<le> k \<Longrightarrow> ready len s T cur \<Longrightarrow> array_at owner T \<Longrightarrow> owner < cur \<Longrightarrow> l < cur \<Longrightarrow>
   \<exists>p T' c. rec (Array_Loop s owner l) T cur = Some (p, T', c) \<and> rec (Array_Loop s owner l) [] cur = Some (p, [], c) \<and>
     loop_outcome len s T cur p T' c \<and> (p \<noteq> STRING_NPOS \<longrightarrow> cur < c)"
  unfolding good_parser_def runs_def by blast

lemma good_failed: "good_parser buffer len k rec \<Longrightarrow> 1 \<le> k \<Longrightarrow> rec (Object_Loop STRING_NPOS l) T cur = Some (STRING_NPOS, T, cur)"
  unfolding good_parser_def by blast

lemma parse_member_spec:
  assumes nul: "terminated buffer len" and good: "good_parser buffer len k rec" and k: "2 * (len - pos) \<le> k"
    and ready: "ready len pos T cur" and "0 < cur" and "pos < len" and simple: "buffer ! pos = 34 \<or> simple"
  shows "runs (\<lambda>T. parse_member rec buffer len simple (buffer ! pos) (pos + 1) T cur) T (loop_outcome len pos T cur)"
proof -
  define q where "q = (buffer ! pos \<noteq> 34)"
  define start where "start = (if q then pos else pos + 1)"
  have start: "pos \<le> start" "start \<le> len" using assms(6) by (auto simp: start_def)
  have r: "tokens_ok len cur T" "cur + (len - pos) + 1 < 2 ^ 32" "len < 2 ^ 32" using ready by (auto simp: ready_def)
  from parse_string_loop_spec [OF nul order_refl start(2), of True q] obtain n where
    n: "parse_string buffer len start True q = Some n" "n \<noteq> STRING_NPOS \<Longrightarrow> start + n \<le> len"
      "n \<noteq> STRING_NPOS \<Longrightarrow> \<not> q \<Longrightarrow> start + n < len"
    unfolding parse_string_def by auto
  define quote where "quote = (if \<not> simple then True else if start + n < len then buffer ! (start + n) = 34 else False)"
  have quote: "(if \<not> simple then Some True else if start + n < len then Option.bind (mem_get buffer (start + n)) (\<lambda>c. Some (c = 34)) else Some False) = Some quote"
    using terminated_get [OF nul] by (auto simp: quote_def)
  obtain p2 where p2: "skip_whitespace buffer len (start + (if quote then n + 1 else n)) = Some p2"
      "start \<le> p2" "start + (if quote then n + 1 else n) \<le> len \<Longrightarrow> p2 \<le> len"
    using skip_whitespace_spec [OF nul, of "start + (if quote then n + 1 else n)"] by (auto split: if_splits)
  have step: "parse_member rec buffer len simple (buffer ! pos) (pos + 1) T cur =
    (if n = STRING_NPOS then Some (STRING_NPOS, T, cur)
     else do { sep \<leftarrow> mem_get buffer p2;
               if sep \<noteq> 58 \<and> (\<not> simple \<or> sep \<noteq> 61) then Some (STRING_NPOS, set_token_id T cur start n, cur)
               else do {
                 (p, T', c) \<leftarrow> rec (Parse_Value (p2 + 1)) (set_token_id T cur start n) cur;
                 p \<leftarrow> skip_whitespace buffer len p;
                 another \<leftarrow> (if q \<and> p < len then do { n \<leftarrow> mem_get buffer p; Some (n \<noteq> 44 \<and> n \<noteq> 125) } else Some False);
                 if another then rec (Object_Loop p 0) (set_sibling T' cur c) c else rec (Object_Loop p cur) T' c } })" for T
    unfolding parse_member_def Let_def q_def [symmetric] add_diff_cancel_right' start_def [symmetric] n(1) bind.bind_lunit quote p2(1) by simp
  show ?thesis
  proof (cases "n = STRING_NPOS")
    case True
    then show ?thesis unfolding step using failed_loop [OF ready] by (intro runsI) simp_all
  next
    case ok: False
    have le: "p2 \<le> len" using n(2,3) ok p2(3) simple by (auto simp: quote_def q_def split: if_splits)
    have sep: "mem_get buffer p2 = Some (buffer ! p2)" by (rule terminated_get [OF nul le])
    let ?T = "set_token_id T cur start n"
    have t: "tokens_ok len cur ?T" "framed cur T ?T" "id_ok len cur ?T"
      using set_token_id_ok [OF r(1) n(2) [OF ok] r(3)] by (auto simp: id_ok_def set_token_id_def)
    show ?thesis
    proof (cases "buffer ! p2 \<noteq> 58 \<and> (\<not> simple \<or> buffer ! p2 \<noteq> 61)")
      case True
      then show ?thesis unfolding step using ok sep t
        by (intro runsI [where p = STRING_NPOS and T' = ?T and c = cur]) (simp_all add: loop_outcome_def outcome_def)
    next
      case False
      then have "p2 \<noteq> len" using nul by (auto simp: terminated_def)
      then have p2': "p2 < len" using le by simp
      have "2 * (len - (p2 + 1)) + 1 \<le> k" "ready len (p2 + 1) ?T cur"
        using k p2' p2(2) start r t by (auto simp: ready_def)
      from good_value [OF good this t(3)] obtain p3 T3 c3 where
        v: "rec (Parse_Value (p2 + 1)) ?T cur = Some (p3, T3, c3)" "rec (Parse_Value (p2 + 1)) [] cur = Some (p3, [], c3)"
          "value_outcome buffer len (p2 + 1) ?T cur p3 T3 c3" by blast
      have fr: "framed cur T T3" using framed_trans [OF t(2)] v(3) by (auto simp: value_outcome_def outcome_def)
      obtain p4 where p4: "skip_whitespace buffer len p3 = Some p4" "p3 \<le> p4" "p3 \<le> len \<longrightarrow> p4 \<le> len" "len < p3 \<longrightarrow> p4 = p3"
        using skip_whitespace_spec [OF nul, of p3] by auto
      show ?thesis
      proof (cases "p3 = STRING_NPOS")
        case True
        then have "p4 = STRING_NPOS" "\<not> p4 < len" using p4(4) nul by (auto simp: terminated_def)
        moreover have "1 \<le> k" using k assms(6) by simp
        moreover have "loop_outcome len pos T cur STRING_NPOS T3 c3"
          using v(3) fr True p2' p2(2) start by (auto simp: loop_outcome_def value_outcome_def outcome_def reached_def)
        ultimately show ?thesis unfolding step using ok sep False v(1,2) p4(1) good_failed [OF good]
          by (intro runsI [where p = STRING_NPOS and T' = T3 and c = c3]) auto
      next
        case found: False
        have o: "cur < c3" "p2 + 1 \<le> p3" "p3 \<le> len" "tokens_ok len c3 T3" "closed c3 T3" "c3 \<le> cur + max 1 (p3 - (p2 + 1))"
          using v(3) found by (auto simp: value_outcome_def outcome_def reached_def)
        define another where "another = (q \<and> p4 < len \<and> buffer ! p4 \<noteq> 44 \<and> buffer ! p4 \<noteq> 125)"
        have another: "(if q \<and> p4 < len then Option.bind (mem_get buffer p4) (\<lambda>n. Some (n \<noteq> 44 \<and> n \<noteq> 125)) else Some False) = Some another"
          using terminated_get [OF nul] by (auto simp: another_def)
        define T4 where "T4 = (\<lambda>T3. if another then set_sibling T3 cur c3 else T3)"
        define l where "l = (if another then 0 else cur)"
        have step2: "parse_member rec buffer len simple (buffer ! pos) (pos + 1) S cur = rec (Object_Loop p4 l) (T4 S') c3"
          if "rec (Parse_Value (p2 + 1)) (set_token_id S cur start n) cur = Some (p3, S', c3)" for S S'
          unfolding step using ok sep False that p4(1) another by (auto simp: T4_def l_def)
        have t4: "tokens_ok len c3 (T4 T3)" "framed c3 T3 (T4 T3)" "T4 [] = []"
          using set_sibling_ok [OF o(4,1) order_refl o(1)] o(4) by (auto simp: T4_def)
        have "2 * (len - p4) + 1 \<le> k" "ready len p4 (T4 T3) c3" "l < c3"
          using k p2' p2(2) start o p4 r t4 assms(5) by (auto simp: ready_def l_def max_def split: if_splits)
        from good_object [OF good this] obtain p T' c where
          g: "rec (Object_Loop p4 l) (T4 T3) c3 = Some (p, T', c)" "rec (Object_Loop p4 l) [] c3 = Some (p, [], c)"
            "loop_outcome len p4 (T4 T3) c3 p T' c" by blast
        have "loop_outcome len pos T cur p T' c"
        proof (rule loop_then [OF g(3)])
          show "framed cur T (T4 T3)" using framed_trans [OF fr t4(2)] o(1) by simp
          show "c3 \<le> cur + (p4 - pos)" using o p4(2) p2(2) start(1) by (auto simp: max_def split: if_splits)
          show "closed c3 (T4 T3)" by (rule framed_closed [OF t4(2) o(5)])
        qed (use o p4 p2(2) start(1) in auto)
        then show ?thesis using step2 [OF v(1)] step2 [of "[]" "[]"] v(2) g(1,2) t4(3) by (intro runsI) simp_all
      qed
    qed
  qed
qed

lemma object_loop_spec:
  assumes nul: "terminated buffer len" and good: "good_parser buffer len k rec" and k: "2 * (len - pos) \<le> k"
    and ready: "ready len pos T cur" and l: "l < cur"
  shows "runs (\<lambda>T. object_loop rec buffer len simple pos l T cur) T (loop_outcome len pos T cur)"
proof (cases "pos < len")
  case False
  then have "pos = len" using ready by (auto simp: ready_def)
  then have "loop_outcome len pos T cur (if simple then pos else STRING_NPOS) T cur"
    using ready nul by (auto simp: loop_outcome_def outcome_def reached_def ready_def)
  then show ?thesis using False by (intro runsI) (simp_all add: object_loop_def)
next
  case True
  have ok: "tokens_ok len cur T" using ready by (simp add: ready_def)
  have get: "mem_get buffer pos = Some (buffer ! pos)" using terminated_get [OF nul] True by simp
  have fail: "runs (\<lambda>T. Some (STRING_NPOS, T, cur)) T (loop_outcome len pos T cur)"
    using failed_loop [OF ready] by (intro runsI) simp_all
  consider "buffer ! pos = 125" | "buffer ! pos = 44" "l = 0" | "buffer ! pos = 44" "l \<noteq> 0"
    | "buffer ! pos \<noteq> 125" "buffer ! pos \<noteq> 44" "l \<noteq> 0 \<or> buffer ! pos \<noteq> 34 \<and> \<not> simple"
    | "buffer ! pos \<noteq> 125" "buffer ! pos \<noteq> 44" "l = 0" "buffer ! pos = 34 \<or> simple" by blast
  then show ?thesis
  proof cases
    case 1
    have "loop_outcome len pos T cur (pos + 1) T cur"
      using True ok by (auto simp: loop_outcome_def outcome_def)
    then show ?thesis using 1 True get tokens_ok_valid [OF ok l]
      by (intro runsI [where p = "pos + 1" and T' = T and c = cur]) (simp_all add: object_loop_def)
  next
    case 2
    then show ?thesis using True get fail by (simp add: object_loop_def)
  next
    case 3
    obtain p2 where p2: "skip_whitespace buffer len (pos + 1) = Some p2" "pos + 1 \<le> p2" "p2 \<le> len"
      using skip_whitespace_spec [OF nul, of "pos + 1"] True by auto
    note t = set_sibling_ok [OF ok l order_refl l]
    have "2 * (len - p2) + 1 \<le> k" "ready len p2 (set_sibling T l cur) cur" "0 < cur"
      using k p2 True ready t l by (auto simp: ready_def)
    from good_object [OF good this] obtain p T' c where
      g: "rec (Object_Loop p2 0) (set_sibling T l cur) cur = Some (p, T', c)" "rec (Object_Loop p2 0) [] cur = Some (p, [], c)"
        "loop_outcome len p2 (set_sibling T l cur) cur p T' c" by blast
    have "loop_outcome len pos T cur p T' c"
      by (rule loop_then [OF g(3)]) (use p2 t framed_closed [OF t(2)] in auto)
    then show ?thesis using 3 True get p2(1) g(1,2) tokens_ok_valid [OF ok l]
      by (intro runsI [where p = p and T' = T' and c = c]) (simp_all add: object_loop_def)
  next
    case 4
    then show ?thesis using True get fail by (simp add: object_loop_def)
  next
    case 5
    then have "object_loop rec buffer len simple pos l T cur = parse_member rec buffer len simple (buffer ! pos) (pos + 1) T cur" for T
      using True get by (auto simp: object_loop_def)
    then show ?thesis using parse_member_spec [OF nul good k ready _ True 5(4)] l by simp
  qed
qed

lemma array_loop_spec:
  assumes nul: "terminated buffer len" and good: "good_parser buffer len k rec" and k: "2 * (len - pos) + 1 \<le> k"
    and ready: "ready len pos T cur" and owner: "array_at owner T" "owner < cur" and l: "l < cur"
  shows "runs (\<lambda>T. array_loop rec buffer len simple pos owner l T cur) T
    (\<lambda>p T' c. loop_outcome len pos T cur p T' c \<and> (p \<noteq> STRING_NPOS \<longrightarrow> cur < c))"
proof (cases "pos < len")
  case False
  then show ?thesis using failed_loop [OF ready]
    by (intro runsI [where p = STRING_NPOS and T' = T and c = cur]) (simp_all add: array_loop_def)
next
  case True
  have r: "tokens_ok len cur T" "cur + (len - pos) + 1 < 2 ^ 32" "len < 2 ^ 32" "0 + 0 \<le> len" using ready by (auto simp: ready_def)
  let ?T = "set_token_id T cur 0 0"
  have t: "tokens_ok len cur ?T" "framed cur T ?T" "id_ok len cur ?T"
    using set_token_id_ok [OF r(1,4,3)] by (auto simp: id_ok_def set_token_id_def)
  have "ready len pos ?T cur" using ready t(1) by (auto simp: ready_def)
  from good_value [OF good k this t(3)] obtain p1 T1 c1 where
    v: "rec (Parse_Value pos) ?T cur = Some (p1, T1, c1)" "rec (Parse_Value pos) [] cur = Some (p1, [], c1)"
      "value_outcome buffer len pos ?T cur p1 T1 c1" by blast
  have fr: "framed cur T T1" using framed_trans [OF t(2)] v(3) by (auto simp: value_outcome_def outcome_def)
  have fail: "loop_outcome len pos T cur STRING_NPOS T' c1" if "framed cur T T'" for T'
    using that v(3) True by (auto simp: loop_outcome_def value_outcome_def outcome_def reached_def max_def split: if_splits)
  show ?thesis
  proof (cases "p1 = STRING_NPOS")
    case True
    then show ?thesis using fail [OF fr] v(1,2) \<open>pos < len\<close>
      by (intro runsI [where p = STRING_NPOS and T' = T1 and c = c1]) (simp_all add: array_loop_def)
  next
    case found: False
    have o: "cur < c1" "pos \<le> p1" "p1 \<le> len" "tokens_ok len c1 T1" "closed c1 T1" "c1 \<le> cur + max 1 (p1 - pos)"
        "p1 = pos \<longrightarrow> buffer ! pos \<in> {44, 93, 125}"
      using v(3) found True by (auto simp: value_outcome_def outcome_def reached_def)
    define T2 where "T2 = (\<lambda>T. update_token T owner (\<lambda>token. token\<lparr>jt_value_length := to_uint (jt_value_length token + 1)\<rparr>))"
    define T3 where "T3 = (\<lambda>T. if l \<noteq> 0 then set_sibling (T2 T) l cur else T2 T)"
    obtain p2 where p2: "skip_whitespace buffer len p1 = Some p2" "p1 \<le> p2" "p2 \<le> len"
      using skip_whitespace_spec [OF nul, of p1] o(3) by auto
    have get: "mem_get buffer p2 = Some (buffer ! p2)" by (rule terminated_get [OF nul p2(3)])
    have step: "array_loop rec buffer len simple pos owner l S cur =
        (if buffer ! p2 = 44 then rec (Array_Loop (p2 + 1) owner cur) (T3 S') c1
         else if buffer ! p2 = 93 then Some (p2 + 1, T3 S', c1)
         else if \<not> simple \<or> buffer ! p2 = 125 then Some (STRING_NPOS, T3 S', c1)
         else rec (Array_Loop p2 owner cur) (T3 S') c1)"
      if "rec (Parse_Value pos) (set_token_id S cur 0 0) cur = Some (p1, S', c1)" for S S'
      using that True found p2(1) get by (simp add: array_loop_def T3_def T2_def)
    have t2: "tokens_ok len c1 (T2 T1)" "framed c1 T1 (T2 T1)"
    proof -
      have "array_at owner T1" using fr owner by (auto simp: array_at_def framed_def same_token_def)
      then show "tokens_ok len c1 (T2 T1)"
        unfolding T2_def by (intro tokens_ok_update [OF o(4) order_refl]) (auto simp: token_ok_def array_at_def)
      show "framed c1 T1 (T2 T1)" unfolding T2_def by (rule framed_update_same) (simp add: same_token_def)
    qed
    have lc: "l < c1" "cur \<le> c1" using l o(1) by auto
    have t3: "tokens_ok len c1 (T3 T1)" "framed c1 T1 (T3 T1)" "T3 [] = []"
      using set_sibling_ok(1) [OF t2(1) lc l] set_sibling_ok(2) [OF t2(1) lc l, of c1] t2 framed_trans [OF t2(2), of c1] by (auto simp: T3_def T2_def)
    have fr3: "framed cur T (T3 T1)" using framed_trans [OF fr t3(2)] o(1) by simp
    have own3: "array_at owner (T3 T1)" using fr3 owner by (auto simp: array_at_def framed_def same_token_def)
    have closed3: "closed c1 (T3 T1)" by (rule framed_closed [OF t3(2) o(5)])
    have again: "runs (\<lambda>T. array_loop rec buffer len simple pos owner l T cur) T
        (\<lambda>p T' c. loop_outcome len pos T cur p T' c \<and> (p \<noteq> STRING_NPOS \<longrightarrow> cur < c))"
      if next': "array_loop rec buffer len simple pos owner l T cur = rec (Array_Loop s owner cur) (T3 T1) c1"
        "array_loop rec buffer len simple pos owner l [] cur = rec (Array_Loop s owner cur) [] c1"
        and s: "pos < s" "p1 \<le> s" "s \<le> len" for s
    proof -
      have c1: "c1 \<le> cur + (s - pos)" using o(6) s by (auto simp: max_def split: if_splits)
      have "2 * (len - s) + 2 \<le> k" "ready len s (T3 T1) c1" using k s c1 r t3(1) by (auto simp: ready_def)
      from good_array [OF good this own3 _ o(1)] owner(2) o(1) obtain p T' c where
        g: "rec (Array_Loop s owner cur) (T3 T1) c1 = Some (p, T', c)" "rec (Array_Loop s owner cur) [] c1 = Some (p, [], c)"
          "loop_outcome len s (T3 T1) c1 p T' c" "p \<noteq> STRING_NPOS \<longrightarrow> c1 < c" by auto
      have "loop_outcome len pos T cur p T' c"
        by (rule loop_then [OF g(3) fr3]) (use s c1 closed3 o(1) in auto)
      then show ?thesis using next' g o(1) by (intro runsI [where p = p and T' = T' and c = c]) auto
    qed
    consider "buffer ! p2 = 44" | "buffer ! p2 = 93" | "buffer ! p2 \<noteq> 44" "buffer ! p2 \<noteq> 93" "\<not> simple \<or> buffer ! p2 = 125"
      | "buffer ! p2 \<notin> {44, 93, 125}" "simple" by blast
    then show ?thesis
    proof cases
      case 1
      then have "p2 \<noteq> len" using nul by (auto simp: terminated_def)
      then show ?thesis using again [of "p2 + 1"] step [OF v(1)] step [of "[]" "[]"] v(2) t3(3) 1 p2 o(2) by simp
    next
      case 2
      then have "p2 \<noteq> len" using nul by (auto simp: terminated_def)
      then have "loop_outcome len pos T cur (p2 + 1) (T3 T1) c1"
        using p2 o fr3 t3(1) closed3 nul by (auto simp: loop_outcome_def outcome_def reached_def terminated_def max_def split: if_splits)
      then show ?thesis using 2 step [OF v(1)] step [of "[]" "[]"] v(2) t3(3) o(1)
        by (intro runsI [where p = "p2 + 1" and T' = "T3 T1" and c = c1]) simp_all
    next
      case 3
      then show ?thesis using fail [OF fr3] step [OF v(1)] step [of "[]" "[]"] v(2) t3(3)
        by (intro runsI [where p = STRING_NPOS and T' = "T3 T1" and c = c1]) auto
    next
      case 4
      then have "pos \<noteq> p2" using o(2,7) p2(2) by auto
      then show ?thesis using again [of p2] step [OF v(1)] step [of "[]" "[]"] v(2) t3(3) 4 p2 o(2) by simp
    qed
  qed
qed

section \<open>Values\<close>

lemma object_value_spec:
  assumes nul: "terminated buffer len" and good: "good_parser buffer len k rec" and k: "2 * (len - s) \<le> k"
    and ready: "ready len s T cur" and ident: "id_ok len cur T" and pos: "s \<le> pos" "pos < len"
  shows "runs (\<lambda>T. do { (p, T', c) \<leftarrow> parse_object rec buffer len (pos + 1) (set_token_complex T cur JSON_OBJECT pos) (to_uint (cur + 1));
                      Some (p, object_end T' cur p c, c) }) T (value_outcome buffer len s T cur)"
proof -
  have r: "tokens_ok len cur T" "cur + (len - s) + 1 < 2 ^ 32" "len < 2 ^ 32" "cur + 1 < 2 ^ 32" using ready by (auto simp: ready_def)
  let ?T = "set_token_complex T cur JSON_OBJECT pos"
  have t: "tokens_ok len (cur + 1) ?T" "framed cur T ?T" "cur < length T \<Longrightarrow> jt_value (?T ! cur) = pos" "length ?T = length T"
    using set_token_complex_ok [OF r(1), of pos JSON_OBJECT] ident pos r(3,4) by (auto simp: id_ok_def set_token_complex_def)
  obtain p1 where p1: "skip_whitespace buffer len (pos + 1) = Some p1" "pos + 1 \<le> p1" "p1 \<le> len"
    using skip_whitespace_spec [OF nul, of "pos + 1"] pos by auto
  have "2 * (len - p1) + 1 \<le> k" "ready len p1 ?T (cur + 1)" "0 < cur + 1"
    using k p1 pos r t(1) by (auto simp: ready_def)
  from good_object [OF good this] obtain p T' c where
    g: "rec (Object_Loop p1 0) ?T (cur + 1) = Some (p, T', c)" "rec (Object_Loop p1 0) [] (cur + 1) = Some (p, [], c)"
      "loop_outcome len p1 ?T (cur + 1) p T' c" by blast
  have o: "cur + 1 \<le> c" "framed (cur + 1) ?T T'" "c \<le> cur + 1 + (reached len p - p1)" using g(3) by (auto simp: loop_outcome_def outcome_def)
  have fr: "framed cur T (object_end T' cur p c)"
    using framed_trans [OF t(2) framed_trans [OF o(2) framed_update, of cur]] framed_trans [OF t(2)] o(2)
    unfolding object_end_def by (metis (no_types, lifting) add.commute framed_trans framed_update le_add2 order_refl)
  have "value_outcome buffer len s T cur p (object_end T' cur p c) c"
  proof (cases "p = STRING_NPOS")
    case True
    then show ?thesis using fr o p1 pos by (auto simp: value_outcome_def outcome_def reached_def)
  next
    case False
    then have f: "p1 \<le> p" "p \<le> len" "tokens_ok len c T'" "cur + 1 < c \<longrightarrow> closed c T'"
      using g(3) by (auto simp: loop_outcome_def outcome_def)
    have v: "jt_value (T' ! cur) = pos" if "cur < length T'" using that o(2) t(3,4) by (auto simp: framed_def same_token_def)
    have small: "p - pos < 2 ^ 32" "pos \<le> p" using f p1 r(3) by auto
    have "tokens_ok len c (object_end T' cur p c)"
      unfolding object_end_def
      by (rule tokens_ok_update [OF f(3) order_refl]) (use v small f False in \<open>auto simp: token_ok_def Let_def to_uint_id\<close>)
    moreover have "closed c (object_end T' cur p c)"
    proof (cases "cur + 1 < c")
      case True
      then show ?thesis using f(4) by (auto simp: closed_def object_end_def nth_update_token)
    next
      case no_member: False
      then have "c = cur + 1" using o(1) by simp
      then show ?thesis by (auto simp: closed_def object_end_def nth_update_token Let_def)
    qed
    ultimately show ?thesis using fr o p1 pos f False by (auto simp: value_outcome_def outcome_def reached_def)
  qed
  then show ?thesis using g(1,2) p1(1) r(4)
    by (intro runsI [where p = p and T' = "object_end T' cur p c" and c = c]) (simp_all add: parse_object_def to_uint_id)
qed

lemma array_value_spec:
  assumes nul: "terminated buffer len" and good: "good_parser buffer len k rec" and k: "2 * (len - s) \<le> k"
    and ready: "ready len s T cur" and ident: "id_ok len cur T" and pos: "s \<le> pos" "pos < len"
  shows "runs (\<lambda>T. parse_array rec buffer len (pos + 1) cur (set_token_complex T cur JSON_ARRAY 0) (to_uint (cur + 1))) T
    (value_outcome buffer len s T cur)"
proof -
  have r: "tokens_ok len cur T" "cur + (len - s) + 1 < 2 ^ 32" "len < 2 ^ 32" "cur + 1 < 2 ^ 32" using ready by (auto simp: ready_def)
  let ?T = "set_token_complex T cur JSON_ARRAY 0"
  have t: "tokens_ok len (cur + 1) ?T" "framed cur T ?T" "array_at cur ?T" "length ?T = length T"
    using set_token_complex_ok [OF r(1), of 0 JSON_ARRAY] ident pos r(3,4) by (auto simp: id_ok_def array_at_def set_token_complex_def)
  obtain p1 where p1: "skip_whitespace buffer len (pos + 1) = Some p1" "pos + 1 \<le> p1" "p1 \<le> len"
    using skip_whitespace_spec [OF nul, of "pos + 1"] pos by auto
  have get: "mem_get buffer p1 = Some (buffer ! p1)" by (rule terminated_get [OF nul p1(3)])
  show ?thesis
  proof (cases "buffer ! p1 = 93")
    case True
    then have "p1 \<noteq> len" using nul by (auto simp: terminated_def)
    then obtain p2 where p2: "skip_whitespace buffer len (p1 + 1) = Some p2" "p1 + 1 \<le> p2" "p2 \<le> len"
      using skip_whitespace_spec [OF nul, of "p1 + 1"] p1(3) by auto
    let ?E = "update_token ?T cur (\<lambda>token. token\<lparr>jt_child := 0\<rparr>)"
    have "tokens_ok len (cur + 1) ?E"
      by (rule tokens_ok_update [OF t(1) order_refl]) (auto simp: token_ok_def)
    moreover have "framed cur T ?E" by (rule framed_trans [OF t(2) framed_update [OF order_refl] order_refl])
    moreover have "closed (cur + 1) ?E" by (auto simp: closed_def nth_update_token)
    ultimately have "value_outcome buffer len s T cur p2 ?E (cur + 1)"
      using p1 p2 pos by (auto simp: value_outcome_def outcome_def reached_def)
    then show ?thesis using True p1(1) p2(1) get r(4)
      by (intro runsI [where p = p2 and T' = ?E and c = "cur + 1"]) (simp_all add: parse_array_def to_uint_id)
  next
    case False
    have "2 * (len - p1) + 2 \<le> k" "ready len p1 ?T (cur + 1)" "cur < cur + 1" "0 < cur + 1"
      using k p1 pos r t(1) by (auto simp: ready_def)
    from good_array [OF good this(1,2) t(3) this(3,4)] obtain p T' c where
      g: "rec (Array_Loop p1 cur 0) ?T (cur + 1) = Some (p, T', c)" "rec (Array_Loop p1 cur 0) [] (cur + 1) = Some (p, [], c)"
        "loop_outcome len p1 ?T (cur + 1) p T' c" "p \<noteq> STRING_NPOS \<longrightarrow> cur + 1 < c" by blast
    have "framed cur T T'" using framed_trans [OF t(2), of "cur + 1"] g(3) by (auto simp: loop_outcome_def outcome_def)
    then have "value_outcome buffer len s T cur p T' c"
      using g(3,4) p1 pos by (auto simp: value_outcome_def loop_outcome_def outcome_def reached_def split: if_splits)
    then show ?thesis using False p1(1) get g(1,2) r(4)
      by (intro runsI [where p = p and T' = T' and c = c]) (simp_all add: parse_array_def to_uint_id)
  qed
qed

lemma parse_value_spec:
  assumes nul: "terminated buffer len" and good: "good_parser buffer len k rec" and k: "2 * (len - s) \<le> k"
    and ready: "ready len s T cur" and ident: "id_ok len cur T"
  shows "runs (\<lambda>T. parse_value rec buffer len simple s T cur) T (value_outcome buffer len s T cur)"
proof -
  obtain pos where pos: "skip_whitespace buffer len s = Some pos" "s \<le> pos" "pos \<le> len" "pos < len \<longrightarrow> \<not> is_whitespace (buffer ! pos)"
    using skip_whitespace_spec [OF nul, of s] ready by (auto simp: ready_def)
  show ?thesis
  proof (cases "pos < len")
    case False
    then show ?thesis using pos(1) failed_value [OF ready] by (intro runsI) (simp_all add: parse_value_def)
  next
    case True
    let ?c = "buffer ! pos"
    have get: "mem_get buffer pos = Some ?c" by (rule terminated_get [OF nul pos(3)])
    have ws: "\<not> is_whitespace ?c" using pos(4) True by simp
    have step: "parse_value rec buffer len simple s T cur =
       (if ?c = 123 then do { (p, T', c) \<leftarrow> parse_object rec buffer len (pos + 1) (set_token_complex T cur JSON_OBJECT pos) (to_uint (cur + 1));
                              Some (p, object_end T' cur p c, c) }
        else if ?c = 91 then parse_array rec buffer len (pos + 1) cur (set_token_complex T cur JSON_ARRAY 0) (to_uint (cur + 1))
        else if ?c = 45 \<or> 48 \<le> ?c \<and> ?c \<le> 57 \<or> ?c = 46 then parse_number_value buffer len simple (pos + 1) T cur
        else if ?c = 116 \<or> ?c = 102 \<or> ?c = 110 then parse_word_value buffer len simple ?c (pos + 1) T cur
        else parse_string_value buffer len simple ?c (pos + 1) T cur)" for T
      using pos(1) True get by (simp add: parse_value_def)
    consider "?c = 123" | "?c = 91" | "?c \<noteq> 123" "?c \<noteq> 91" "?c = 45 \<or> 48 \<le> ?c \<and> ?c \<le> 57 \<or> ?c = 46"
      | "?c \<noteq> 123" "?c \<noteq> 91" "\<not> (?c = 45 \<or> 48 \<le> ?c \<and> ?c \<le> 57 \<or> ?c = 46)" "?c = 116 \<or> ?c = 102 \<or> ?c = 110"
      | "?c \<noteq> 123" "?c \<noteq> 91" "\<not> (?c = 45 \<or> 48 \<le> ?c \<and> ?c \<le> 57 \<or> ?c = 46)" "\<not> (?c = 116 \<or> ?c = 102 \<or> ?c = 110)" by blast
    then show ?thesis
    proof cases
      case 1
      then show ?thesis using object_value_spec [OF nul good k ready ident pos(2) True] unfolding step by (simp only: if_True simp_thms)
    next
      case 2
      then show ?thesis using array_value_spec [OF nul good k ready ident pos(2) True] unfolding step by simp
    next
      case 3
      have "\<not> is_token_delimiter ?c" "?c \<noteq> 34"
        using 3(3) ws by (auto simp: is_token_delimiter_def word_le_nat_alt)
      from parse_number_value_spec [OF nul ready ident pos(2) True this, of simple] 3 show ?thesis
        unfolding step by (simp only: if_True if_False)
    next
      case 4
      then show ?thesis using parse_word_value_spec [OF nul ready ident pos(2) True ws, of simple] unfolding step
        by (simp only: if_True if_False)
    next
      case 5
      then show ?thesis using parse_string_value_spec [OF nul ready ident pos(2) True ws, of simple] unfolding step
        by (simp only: if_True if_False)
    qed
  qed
qed

lemma parse_good:
  assumes nul: "terminated buffer len"
  shows "good_parser buffer len k (parse k buffer len simple)"
proof (induction k)
  case 0
  then show ?case by (simp add: good_parser_def)
next
  case (Suc k)
  note steps = parse_value_spec [OF nul Suc] object_loop_spec [OF nul Suc] array_loop_spec [OF nul Suc]
  have "\<not> STRING_NPOS < len" using nul by (simp add: terminated_def)
  then show ?case using steps by (auto simp: good_parser_def object_loop_def)
qed

section \<open>The entry points\<close>

lemma undefined_token_ready:
  assumes "sz + 2 < 2 ^ 32"
  defines "U \<equiv> \<lambda>T. set_token_primitive (set_token_id T 0 0 0) 0 JSON_UNDEFINED 0 0"
  shows "ready sz 0 (U T) 0" "id_ok sz 0 (U T)"
  using assms by (auto simp: ready_def id_ok_def tokens_ok_def set_token_primitive_def set_token_id_def nth_update_token to_uint_def)

text \<open>
  C36. Parsing a text with a zero behind it returns for every content, reads nothing behind the zero and writes
  nothing behind the tokens; the number of tokens found is the same for every capacity of the array, at
  most one for each character, and on success every token that fits the array is well formed: its identifier and
  its value lie in the text, its child is the next token, and its sibling is a later index.
\<close>

theorem json_parse_correct:
  assumes "sz < length buffer" and "buffer ! sz = 0" and "sz + 2 < 2 ^ 32"
  shows "\<exists>n. (\<forall>tokens. \<exists>T. json_parse buffer sz tokens = Some (n, T) \<and> length T = length tokens \<and>
      (\<forall>i < min n (length T). jt_type (T ! i) \<noteq> JSON_UNDEFINED \<and> jt_id (T ! i) + jt_id_length (T ! i) \<le> sz \<and>
         (jt_type (T ! i) \<noteq> JSON_ARRAY \<longrightarrow> jt_value (T ! i) + jt_value_length (T ! i) \<le> sz) \<and>
         (jt_child (T ! i) = 0 \<or> jt_child (T ! i) = i + 1 \<and> i + 1 < n) \<and>
         (jt_sibling (T ! i) = 0 \<or> i < jt_sibling (T ! i) \<and> jt_sibling (T ! i) \<le> n))) \<and> n \<le> max 1 sz"
proof -
  have nul: "terminated buffer sz" using assms by (simp add: terminated_def STRING_NPOS_def SIZE_MOD_def)
  define U where "U = (\<lambda>T. set_token_primitive (set_token_id T 0 0 0) 0 JSON_UNDEFINED 0 0)"
  define n where "n = (case parse (json_fuel sz) buffer sz False (Parse_Value 0) [] 0 of Some (p, T, c) \<Rightarrow> if p = STRING_NPOS then 0 else c | None \<Rightarrow> 0)"
  note rd = undefined_token_ready [OF assms(3), folded U_def]
  have fuel: "2 * (sz - 0) + 1 \<le> json_fuel sz" by (simp add: json_fuel_def)
  note run = good_value [OF parse_good [OF nul, where simple = False] fuel rd(1) rd(2)]
  have "\<exists>T. json_parse buffer sz tokens = Some (n, T) \<and> length T = length tokens \<and>
      (\<forall>i < min n (length T). jt_type (T ! i) \<noteq> JSON_UNDEFINED \<and> jt_id (T ! i) + jt_id_length (T ! i) \<le> sz \<and>
         (jt_type (T ! i) \<noteq> JSON_ARRAY \<longrightarrow> jt_value (T ! i) + jt_value_length (T ! i) \<le> sz) \<and>
         (jt_child (T ! i) = 0 \<or> jt_child (T ! i) = i + 1 \<and> i + 1 < n) \<and>
         (jt_sibling (T ! i) = 0 \<or> i < jt_sibling (T ! i) \<and> jt_sibling (T ! i) \<le> n)) \<and> n \<le> max 1 sz" for tokens
  proof -
    obtain p T c where
      g: "parse (json_fuel sz) buffer sz False (Parse_Value 0) (U tokens) 0 = Some (p, T, c)"
        "parse (json_fuel sz) buffer sz False (Parse_Value 0) [] 0 = Some (p, [], c)"
        "value_outcome buffer sz 0 (U tokens) 0 p T c" using run unfolding U_def by blast
    have n: "n = (if p = STRING_NPOS then 0 else c)" by (simp add: n_def g(2))
    have "json_parse buffer sz tokens = Some (n, T)"
      using g(1) by (simp add: json_parse_def U_def n)
    moreover have "length T = length tokens"
      using g(3) by (auto simp: value_outcome_def outcome_def framed_def U_def set_token_primitive_def set_token_id_def)
    moreover have "n \<le> max 1 sz" using g(3) by (auto simp: n value_outcome_def outcome_def reached_def)
    moreover have "jt_type (T ! i) \<noteq> JSON_UNDEFINED \<and> jt_id (T ! i) + jt_id_length (T ! i) \<le> sz \<and>
         (jt_type (T ! i) \<noteq> JSON_ARRAY \<longrightarrow> jt_value (T ! i) + jt_value_length (T ! i) \<le> sz) \<and>
         (jt_child (T ! i) = 0 \<or> jt_child (T ! i) = i + 1 \<and> i + 1 < n) \<and>
         (jt_sibling (T ! i) = 0 \<or> i < jt_sibling (T ! i) \<and> jt_sibling (T ! i) \<le> n)" if "i < min n (length T)" for i
    proof -
      have ok: "p \<noteq> STRING_NPOS" "n = c" using that by (auto simp: n split: if_splits)
      then have "tokens_ok sz c T" "closed c T" using g(3) by (auto simp: value_outcome_def outcome_def)
      then have "token_ok sz n i (T ! i)" "i + 1 = n \<longrightarrow> jt_child (T ! i) \<noteq> n" using that ok(2) by (auto simp: tokens_ok_def closed_def)
      then show ?thesis using that by (auto simp: token_ok_def)
    qed
    ultimately show ?thesis by blast
  qed
  then show ?thesis by blast
qed



theorem json_parse_correct_witness:
  "\<exists>n. (\<forall>tokens. \<exists>T. json_parse [91, 123, 125, 93, 0] 4 tokens = Some (n, T) \<and> length T = length tokens) \<and> n \<le> 4"
proof -
  have "4 < length [91, 123, 125, 93, 0 :: byte]" "[91, 123, 125, 93, 0 :: byte] ! 4 = 0" "(4 :: nat) + 2 < 2 ^ 32" by simp_all
  from json_parse_correct [OF this] obtain n where
    "\<forall>tokens. \<exists>T. json_parse [91, 123, 125, 93, 0] 4 tokens = Some (n, T) \<and> length T = length tokens" "n \<le> max 1 4" by meson
  then show ?thesis by auto
qed

text \<open>Evaluating a parse: an empty object with braces, and a brace alone, whose object has a child that does not exist.\<close>

definition example_tokens :: "json_token_t list" where
  "example_tokens = replicate 3 \<lparr>jt_type = JSON_UNDEFINED, jt_id = 0, jt_id_length = 2, jt_value = 0,
     jt_value_length = 0, jt_child = 0, jt_sibling = 0\<rparr>"

lemmas json_eval = sjson_parse_def mem_get_def parse_object_def object_loop_def
  parse_value_def set_token_id_def set_token_complex_def update_token_def to_uint_def size_sub_def STRING_NPOS_def
  SIZE_MOD_def json_fuel_def object_end_def is_valid_token_def get_token_def example_tokens_def numeral_3_eq_3

lemma example_skip: "skip_whitespace [123, 125, 0] 2 0 = Some 0" "skip_whitespace [123, 125, 0] 2 1 = Some 1"
  "skip_whitespace [125, 0] 1 0 = Some 0"
  by (subst skip_whitespace.simps; simp add: is_whitespace_def mem_get_def)+

lemma example_loop:
  "0 < fuel \<Longrightarrow> parse fuel [123, 125, 0] 2 True (Object_Loop (Suc 0) 0) T n = Some (2, T, n)"
  "0 < fuel \<Longrightarrow> parse fuel [125, 0] (Suc 0) True (Object_Loop 0 0) T n = Some (1, T, n)"
  by (cases fuel; simp add: object_loop_def mem_get_def)+


lemma example_dangling_child: "\<exists>T. sjson_parse [125, 0] 1 example_tokens = Some (1, T) \<and> jt_child (T ! 0) = 1"
  by (simp add: json_eval example_skip [simplified] example_loop del: parse.simps)


end
