(* ===== verification/Json_Escape.thy ===== *)
theory Json_Escape
  imports Json String_Utf
begin

text \<open>
  \<open>json_escape\<close> and \<open>json_unescape\<close> of \<open>foundation/json.c\<close>, with the conversion of hexadecimal digits
  (\<open>string_to_uint\<close>) they use.
\<close>

section \<open>Escaping\<close>

definition hex_char :: "byte \<Rightarrow> byte" where
  "hex_char val = (if val < 10 then 48 + val else if val < 16 then 97 + (val - 10) else 48)"

text \<open>
  What a character is written as. \<open>char\<close> is signed: a byte from 128 on is less than \<open>0x20\<close>.
\<close>

definition escape_char :: "byte \<Rightarrow> byte list" where
  "escape_char c =
     (if c = 34 \<or> c = 92 then [92, c]
      else if c = 8 then [92, 98]
      else if c = 12 then [92, 102]
      else if c = 13 then [92, 114]
      else if c = 10 then [92, 110]
      else if c = 9 then [92, 116]
      else if sint c < 0x20 then [92, 117, 48, 48, hex_char (drop_bit 4 c AND 0xF), hex_char (c AND 0xF)]
      else [c])"

text \<open>Every character is written only where there is room.\<close>

primrec emit :: "byte list \<Rightarrow> byte list \<Rightarrow> size_t \<Rightarrow> size_t \<Rightarrow> (byte list \<times> size_t) option" where
  "emit [] buffer capacity outlength = Some (buffer, outlength)"
| "emit (c # cs) buffer capacity outlength =
     (if outlength < capacity then do { buffer \<leftarrow> mem_set buffer outlength c; emit cs buffer capacity (outlength + 1) }
      else emit cs buffer capacity outlength)"

primrec escape_loop :: "byte list \<Rightarrow> byte list \<Rightarrow> size_t \<Rightarrow> size_t \<Rightarrow> (byte list \<times> size_t) option" where
  "escape_loop [] buffer capacity outlength = Some (buffer, outlength)"
| "escape_loop (c # cs) buffer capacity outlength =
     (if outlength < capacity then
        do { (buffer, outlength) \<leftarrow> emit (escape_char c) buffer capacity outlength; escape_loop cs buffer capacity outlength }
      else Some (buffer, outlength))"

definition json_escape :: "byte list \<Rightarrow> size_t \<Rightarrow> byte list \<Rightarrow> (byte list \<times> size_t) option" where
  "json_escape buffer capacity string = escape_loop string buffer capacity 0"

section \<open>Numbers\<close>

definition digit_value :: "byte \<Rightarrow> nat option" where
  "digit_value c =
     (if 48 \<le> c \<and> c \<le> 57 then Some (unat c - 48)
      else if 97 \<le> c \<and> c \<le> 122 then Some (unat c - 87)
      else if 65 \<le> c \<and> c \<le> 90 then Some (unat c - 55)
      else None)"

fun digits_value :: "nat \<Rightarrow> nat \<Rightarrow> byte list \<Rightarrow> nat" where
  "digits_value base acc [] = acc"
| "digits_value base acc (c # cs) =
     (case digit_value c of Some d \<Rightarrow> if d < base then digits_value base (acc * base + d) cs else acc | None \<Rightarrow> acc)"

text \<open>
  \<open>strtoul\<close> of the C library: leading whitespace, a sign, the prefix \<open>0x\<close> of a hexadecimal number, and the digits
  up to the first other character; a number that does not fit gives the largest.
\<close>

definition skip_sign :: "byte list \<Rightarrow> bool \<times> byte list" where
  "skip_sign s = (case s of [] \<Rightarrow> (False, s) | c # cs \<Rightarrow> if c = 45 then (True, cs) else if c = 43 then (False, cs) else (False, s))"

definition skip_prefix :: "nat \<Rightarrow> byte list \<Rightarrow> byte list" where
  "skip_prefix base s =
     (case s of a # b # c # cs \<Rightarrow>
        if base = 16 \<and> a = 48 \<and> (b = 120 \<or> b = 88) \<and> (case digit_value c of Some d \<Rightarrow> d < 16 | None \<Rightarrow> False) then c # cs else s
      | _ \<Rightarrow> s)"

definition strtoul :: "byte list \<Rightarrow> nat \<Rightarrow> u64" where
  "strtoul s base =
     (let (neg, s) = skip_sign (dropWhile (\<lambda>c. c = 32 \<or> 9 \<le> c \<and> c \<le> 13) s);
          v = digits_value base 0 (skip_prefix base s);
          w = (if v < 2 ^ 64 then word_of_nat v else - 1)
      in if neg \<and> v < 2 ^ 64 then - w else w)"

definition string_to_uint :: "byte list \<Rightarrow> byte list \<Rightarrow> size_t \<Rightarrow> bool \<Rightarrow> u32 option" where
  "string_to_uint stack val len hex =
     (if len \<noteq> 0 then
        do { (buf, n) \<leftarrow> string_copy stack 16 val len; Some (ucast (strtoul buf (if hex then 16 else 10))) }
      else Some 0)"

section \<open>Unescaping\<close>

definition simple_escapes :: "byte \<Rightarrow> byte option" where
  "simple_escapes c =
     (if c = 34 \<or> c = 47 \<or> c = 92 then Some c
      else if c = 98 then Some 8
      else if c = 102 then Some 12
      else if c = 114 then Some 13
      else if c = 110 then Some 10
      else if c = 116 then Some 9
      else None)"

text \<open>\<open>stack\<close> is what the buffer of sixteen bytes of \<open>string_to_uint\<close> holds.\<close>

function unescape_loop :: "byte list \<Rightarrow> byte list \<Rightarrow> byte list \<Rightarrow> size_t \<Rightarrow> size_t \<Rightarrow> size_t \<Rightarrow> (byte list \<times> size_t) option" where
  "unescape_loop stack string buffer capacity i outlength =
     (if i < length string \<and> outlength < capacity then
        if string ! i = 92 \<and> i + 1 < length string then
          (case simple_escapes (string ! (i + 1)) of
             Some c \<Rightarrow>
               (case mem_set buffer outlength c of
                  None \<Rightarrow> None
                | Some buffer \<Rightarrow> unescape_loop stack string buffer capacity (i + 2) (outlength + 1))
           | None \<Rightarrow>
               if string ! (i + 1) = 117 \<and> i + 1 + 4 < length string then
                 (case string_to_uint stack (drop (i + 2) string) 4 True of
                    None \<Rightarrow> None
                  | Some val \<Rightarrow>
                      (case string_convert_utf16 (drop outlength buffer) (capacity - outlength) [ucast val] of
                         None \<Rightarrow> None
                       | Some (conv, n) \<Rightarrow> unescape_loop stack string (take outlength buffer @ conv) capacity (i + 6) (outlength + n)))
               else unescape_loop stack string buffer capacity (i + 2) outlength)
        else (case mem_set buffer outlength (string ! i) of
                None \<Rightarrow> None
              | Some buffer \<Rightarrow> unescape_loop stack string buffer capacity (i + 1) (outlength + 1))
      else Some (buffer, outlength))"
  by pat_completeness auto
termination
  by (relation "measure (\<lambda>(stack, string, buffer, capacity, i, outlength). length string - i)") auto

declare unescape_loop.simps [simp del]

definition json_unescape :: "byte list \<Rightarrow> byte list \<Rightarrow> size_t \<Rightarrow> byte list \<Rightarrow> (byte list \<times> size_t) option" where
  "json_unescape stack buffer capacity string = unescape_loop stack string buffer capacity 0 0"

section \<open>What the functions write\<close>

lemma emit_spec:
  assumes "out \<le> capacity" and "capacity \<le> length buffer"
  shows "\<exists>b. emit cs buffer capacity out = Some (b, min capacity (out + length cs)) \<and> length b = length buffer \<and>
    take (min capacity (out + length cs)) b = take out buffer @ take (capacity - out) cs"
  using assms
proof (induction cs arbitrary: buffer out)
  case (Cons c cs)
  show ?case
  proof (cases "out < capacity")
    case True
    then have "out + 1 \<le> capacity" "capacity \<le> length (buffer[out := c])" "out < length buffer" using Cons.prems by auto
    from Cons.IH [OF this(1,2)] obtain b where b: "emit cs (buffer[out := c]) capacity (out + 1) = Some (b, min capacity (out + 1 + length cs))"
      "length b = length buffer" "take (min capacity (out + 1 + length cs)) b = take (out + 1) (buffer[out := c]) @ take (capacity - (out + 1)) cs" by auto
    have "take (out + 1) (buffer[out := c]) = take out buffer @ [c]" using \<open>out < length buffer\<close> by (simp add: take_Suc_conv_app_nth)
    moreover have "capacity - out = Suc (capacity - (out + 1))" using True by simp
    ultimately show ?thesis using True b \<open>out < length buffer\<close> by (simp add: mem_set_def)
  next
    case False
    then have "out = capacity" using Cons.prems by simp
    then show ?thesis using Cons.IH [OF Cons.prems] by (simp add: min_def)
  qed
qed (auto simp: min_def)

lemma escape_loop_spec:
  assumes "out \<le> capacity" and "capacity \<le> length buffer"
  defines "E \<equiv> \<lambda>s. concat (map escape_char s)"
  shows "\<exists>b. escape_loop s buffer capacity out = Some (b, min capacity (out + length (E s))) \<and> length b = length buffer \<and>
    take (min capacity (out + length (E s))) b = take out buffer @ take (capacity - out) (E s)"
  using assms(1,2)
proof (induction s arbitrary: buffer out)
  case (Cons c cs)
  show ?case
  proof (cases "out < capacity")
    case True
    from emit_spec [OF Cons.prems, of "escape_char c"] obtain b where
      b: "emit (escape_char c) buffer capacity out = Some (b, min capacity (out + length (escape_char c)))" "length b = length buffer"
        "take (min capacity (out + length (escape_char c))) b = take out buffer @ take (capacity - out) (escape_char c)" by blast
    let ?o = "min capacity (out + length (escape_char c))"
    have "?o \<le> capacity" "capacity \<le> length b" using b(2) Cons.prems by auto
    from Cons.IH [OF this] obtain b2 where
      b2: "escape_loop cs b capacity ?o = Some (b2, min capacity (?o + length (E cs)))" "length b2 = length b"
        "take (min capacity (?o + length (E cs))) b2 = take ?o b @ take (capacity - ?o) (E cs)" by blast
    have m: "min capacity (?o + length (E cs)) = min capacity (out + length (E (c # cs)))" by (simp add: E_def min_def)
    have "take (capacity - out) (escape_char c) @ take (capacity - ?o) (E cs) = take (capacity - out) (E (c # cs))"
      by (auto simp: E_def min_def)
    then have "take ?o b @ take (capacity - ?o) (E cs) = take out buffer @ take (capacity - out) (E (c # cs))"
      unfolding b(3) by simp
    then show ?thesis using True b(1,2) b2 unfolding m by simp
  next
    case False
    then show ?thesis using Cons.prems by (auto simp: min_def)
  qed
qed (auto simp: E_def min_def)

section \<open>Reading an escape back\<close>

lemma hex_char_checked: "list_all (\<lambda>n. digit_value (hex_char (word_of_nat n)) = Some n) [0..<16]"
  by code_simp

lemma hex_char_value: "h < 16 \<Longrightarrow> digit_value (hex_char h) = Some (unat h)"
proof -
  assume "h < 16"
  then have "unat h < 16" by (simp add: word_less_nat_alt)
  then have "unat h \<in> set [0..<16]" by simp
  then have "digit_value (hex_char (word_of_nat (unat h))) = Some (unat h)" using hex_char_checked unfolding list_all_iff by blast
  then show ?thesis by simp
qed

lemma nibbles: "unat (drop_bit 4 c AND 0xF) * 16 + unat (c AND 0xF) = unat (c :: byte)" "drop_bit 4 c AND 0xF < (16 :: byte)" "c AND 0xF < (16 :: byte)"
proof -
  have m: "(0xF :: byte) = mask 4" by (simp add: mask_eq_exp_minus_1)
  have low: "unat (c AND 0xF) = unat c mod 16" "unat (drop_bit 4 c AND 0xF) = unat c div 16 mod 16"
    unfolding m by (simp_all flip: take_bit_eq_mask add: unsigned_take_bit_eq unsigned_drop_bit_eq take_bit_eq_mod drop_bit_eq_div unat_mod unat_div)
  have "unat c < 256" using unsigned_less [of c, where ?'a = nat] by simp
  then show "unat (drop_bit 4 c AND 0xF) * 16 + unat (c AND 0xF) = unat c" unfolding low by (simp add: div_mult_mod_eq)
  show "drop_bit 4 c AND 0xF < (16 :: byte)" "c AND 0xF < (16 :: byte)" unfolding word_less_nat_alt low by simp_all
qed

lemma string_to_uint_hex:
  assumes "length stack = 16"
  shows "string_to_uint stack (48 # 48 # hex_char (drop_bit 4 c AND 0xF) # hex_char (c AND 0xF) # rest) 4 True = Some (ucast c)"
proof -
  let ?h = "hex_char (drop_bit 4 c AND 0xF)" and ?l = "hex_char (c AND 0xF)"
  have cp: "string_copy stack 16 (48 # 48 # ?h # ?l # rest) 4 = Some ([48, 48, ?h, ?l, 0] @ drop 5 stack, 4)"
    using assms by (simp add: string_copy_def mem_load_def mem_store_def mem_set_def overwrite_def list_update_append numeral_eq_Suc
        Cons_nth_drop_Suc [symmetric])
  have d: "digit_value 48 = Some 0" "digit_value 0 = None" by (simp_all add: digit_value_def)
  have v: "digits_value 16 0 ([48, 48, ?h, ?l, 0] @ drop 5 stack) = unat c"
    using nibbles [of c] by (simp add: d hex_char_value word_less_nat_alt)
  have "skip_prefix 16 ([48, 48, ?h, ?l, 0] @ drop 5 stack) = [48, 48, ?h, ?l, 0] @ drop 5 stack" by (simp add: skip_prefix_def)
  then have "strtoul ([48, 48, ?h, ?l, 0] @ drop 5 stack) 16 = word_of_nat (unat c)"
    using v unsigned_less [of c, where ?'a = nat] by (simp add: strtoul_def skip_sign_def)
  moreover have "ucast (ucast c :: u64) = (ucast c :: u32)"
    by (rule bit_eqI) (auto simp: bit_simps dest: bit_imp_le_length)
  ultimately show ?thesis using cp by (simp add: string_to_uint_def)
qed

lemma latin1_scalar: "scalar (ucast (c :: byte))"
proof -
  have "(ucast c :: u32) < 0x100" using unsigned_less [of c, where ?'a = nat] by (simp add: word_less_nat_alt unsigned_ucast_eq take_bit_nat_eq_self)
  then have "unat (ucast c :: u32) < 256" by (simp add: word_less_nat_alt)
  then show ?thesis by (auto simp: scalar_def word_less_nat_alt word_le_nat_alt)
qed

text \<open>One escape: the reader takes it and writes the bytes of the code point of the same number.\<close>

lemma convert_latin1:
  assumes "length (utf8_bytes (ucast (c :: byte))) < length dst"
  shows "\<exists>dst'. string_convert_utf16 dst (length dst) [ucast (ucast c :: u32)] = Some (dst', length (utf8_bytes (ucast c))) \<and>
    length dst' = length dst \<and> take (length (utf8_bytes (ucast c))) dst' = utf8_bytes (ucast c)"
proof -
  have s: "\<forall>v\<in>set [ucast c :: u32]. scalar v" using latin1_scalar by simp
  have "unat (ucast c :: u32) < 0x10000" using unsigned_less [of c, where ?'a = nat] by (simp add: unsigned_ucast_eq take_bit_nat_eq_self)
  then have "(ucast c :: u32) < 0x10000" by (simp add: word_less_nat_alt)
  then have d: "drop 0 [ucast (ucast c :: u32)] = utf16_text False [ucast c]" by (simp add: utf16_units_def in_order_def)
  have l: "0 + length (utf8_text [ucast c]) < length dst" using assms by simp
  from utf16_convert_text [OF s d l refl] obtain dst' where
    r: "utf16_convert dst (length dst) [ucast (ucast c :: u32)] 0 False 0 = Some (dst', length (utf8_bytes (ucast c)))"
      "length dst' = length dst" "take (length (utf8_bytes (ucast c))) dst' = utf8_bytes (ucast c)" by auto
  then show ?thesis using assms by (simp add: string_convert_utf16_def mem_set_def)
qed

definition unescaped :: "byte \<Rightarrow> byte list" where
  "unescaped c = utf8_bytes (ucast c)"

lemma unescaped_ascii: "c < 0x80 \<Longrightarrow> unescaped c = [c]"
proof -
  assume c: "c < 0x80"
  have "unat (ucast c :: u32) = unat c" using unsigned_less [of c, where ?'a = nat] by (simp add: unsigned_ucast_eq take_bit_nat_eq_self)
  then have "(ucast c :: u32) < 0x80" using c by (simp add: word_less_nat_alt)
  moreover have "ucast (ucast c :: u32) = c" by (rule bit_eqI) (auto simp: bit_simps dest: bit_imp_le_length)
  ultimately show ?thesis by (simp add: unescaped_def utf8_bytes_def)
qed

lemma ascii_sint_checked: "list_all (\<lambda>n. sint (word_of_nat n :: byte) < 0x20 \<or> (word_of_nat n :: byte) < 0x80) [0..<256]"
  by code_simp

lemma ascii_sint: "sint (c :: byte) < 0x20 \<or> c < 0x80"
proof -
  have "unat c \<in> set [0..<256]" using unsigned_less [of c, where ?'a = nat] by simp
  then have "sint (word_of_nat (unat c) :: byte) < 0x20 \<or> (word_of_nat (unat c) :: byte) < 0x80"
    using ascii_sint_checked unfolding list_all_iff by blast
  then show ?thesis by simp
qed

lemma drop_Cons_facts: "drop i xs = y # ys \<Longrightarrow> i < length xs \<and> xs ! i = y \<and> drop (i + 1) xs = ys"
  by (metis Cons_nth_drop_Suc Suc_eq_plus1 drop_all linorder_not_le list.distinct(1) list.inject)

lemma unescape_plain:
  assumes "i < length string" "string ! i \<noteq> 92" "out < length buffer"
  shows "unescape_loop stack string buffer (length buffer) i out =
    unescape_loop stack string (buffer[out := string ! i]) (length buffer) (i + 1) (out + 1)"
  using assms by (subst unescape_loop.simps) (simp add: mem_set_def)

lemma unescape_simple:
  assumes "i + 1 < length string" "string ! i = 92" "simple_escapes (string ! (i + 1)) = Some c" "out < length buffer"
  shows "unescape_loop stack string buffer (length buffer) i out =
    unescape_loop stack string (buffer[out := c]) (length buffer) (i + 2) (out + 1)"
  using assms by (subst unescape_loop.simps) (simp add: mem_set_def)

lemma escape_char_cases:
  "(\<exists>e. escape_char c = [92, e] \<and> simple_escapes e = Some c \<and> c < 0x80)
   \<or> escape_char c = [92, 117, 48, 48, hex_char (drop_bit 4 c AND 0xF), hex_char (c AND 0xF)]
   \<or> escape_char c = [c] \<and> c \<noteq> 92 \<and> c < 0x80"
proof (cases "c \<in> {34, 92, 8, 12, 13, 10, 9}")
  case True
  then have "\<exists>e. escape_char c = [92, e] \<and> simple_escapes e = Some c \<and> c < 0x80"
    by (elim insertE emptyE) (simp_all add: escape_char_def simple_escapes_def)
  then show ?thesis ..
next
  case False
  then show ?thesis using ascii_sint [of c] by (cases "sint c < 0x20") (simp_all add: escape_char_def)
qed

lemma unescape_step:
  assumes stack: "length stack = 16" and d: "drop i string = escape_char c @ rest" and room: "out + length (unescaped c) < length buffer"
  shows "\<exists>b. unescape_loop stack string buffer (length buffer) i out =
      unescape_loop stack string b (length buffer) (i + length (escape_char c)) (out + length (unescaped c)) \<and>
    length b = length buffer \<and> take (out + length (unescaped c)) b = take out buffer @ unescaped c"
proof -
  have one: "take (out + 1) (buffer[out := c]) = take out buffer @ [c]" if "out < length buffer"
    using that by (simp add: take_Suc_conv_app_nth)
  consider e where "escape_char c = [92, e]" "simple_escapes e = Some c" "c < 0x80"
    | "escape_char c = [92, 117, 48, 48, hex_char (drop_bit 4 c AND 0xF), hex_char (c AND 0xF)]"
    | "escape_char c = [c]" "c \<noteq> 92" "c < 0x80"
    using escape_char_cases [of c] by blast
  then show ?thesis
  proof cases
    case 1
    have u: "unescaped c = [c]" by (rule unescaped_ascii [OF 1(3)])
    have f: "i < length string" "string ! i = 92" "i + 1 < length string" "string ! (i + 1) = e"
      using drop_Cons_facts [of i string 92 "e # rest"] drop_Cons_facts [of "i + 1" string e rest] d 1(1) by auto
    have "out < length buffer" using room by simp
    then show ?thesis
      using unescape_simple [of i string c out buffer stack] f 1(2) one unfolding u 1(1)
      by (intro exI [of _ "buffer[out := c]"]) simp
  next
    case 2
    let ?h = "hex_char (drop_bit 4 c AND 0xF)" and ?l = "hex_char (c AND 0xF)"
    have d': "drop i string = 92 # 117 # 48 # 48 # ?h # ?l # rest" using d 2 by simp
    have f: "string ! i = 92" "string ! (i + 1) = 117" "drop (i + 2) string = 48 # 48 # ?h # ?l # rest"
      using drop_Cons_facts [OF d'] drop_Cons_facts [of "i + 1" string 117] by auto
    have len: "i + 6 \<le> length string" using arg_cong [OF d', of length] by simp
    have "length (utf8_bytes (ucast c)) < length (drop out buffer)" using room by (simp add: unescaped_def)
    from convert_latin1 [OF this] obtain dst where
      c: "string_convert_utf16 (drop out buffer) (length buffer - out) [ucast (ucast c :: u32)] = Some (dst, length (unescaped c))"
        "length dst = length buffer - out" "take (length (unescaped c)) dst = unescaped c" by (auto simp: unescaped_def)
    have run: "unescape_loop stack string buffer (length buffer) i out =
        unescape_loop stack string (take out buffer @ dst) (length buffer) (i + 6) (out + length (unescaped c))"
      using f len room c(1) string_to_uint_hex [OF stack, of c rest]
      by (subst unescape_loop.simps) (simp add: simple_escapes_def)
    have l: "length (escape_char c) = 6" using 2 by simp
    show ?thesis using run room c(2,3) unfolding l by (intro exI [of _ "take out buffer @ dst"]) simp
  next
    case 3
    have u: "unescaped c = [c]" by (rule unescaped_ascii [OF 3(3)])
    have f: "i < length string" "string ! i = c" using drop_Cons_facts [of i string c rest] d 3(1) by auto
    have "out < length buffer" using room by simp
    then show ?thesis
      using unescape_plain [of i string out buffer stack] f 3(2) one unfolding u 3(1)
      by (intro exI [of _ "buffer[out := c]"]) simp
  qed
qed

lemma unescape_all:
  assumes "length stack = 16" and "drop i string = concat (map escape_char s)"
    and "out + length (concat (map unescaped s)) < length buffer"
  shows "\<exists>b. unescape_loop stack string buffer (length buffer) i out = Some (b, out + length (concat (map unescaped s))) \<and>
    length b = length buffer \<and> take (out + length (concat (map unescaped s))) b = take out buffer @ concat (map unescaped s)"
  using assms(2,3)
proof (induction s arbitrary: i out buffer)
  case Nil
  then have "\<not> i < length string" by simp
  then show ?case by (subst unescape_loop.simps) simp
next
  case (Cons c s)
  have d: "drop i string = escape_char c @ concat (map escape_char s)" and r: "out + length (unescaped c) < length buffer"
    using Cons.prems by auto
  from unescape_step [OF assms(1) d r] obtain b where
    b: "unescape_loop stack string buffer (length buffer) i out =
        unescape_loop stack string b (length b) (i + length (escape_char c)) (out + length (unescaped c))"
      "length b = length buffer" "take (out + length (unescaped c)) b = take out buffer @ unescaped c" by auto
  have d2: "drop (i + length (escape_char c)) string = concat (map escape_char s)"
    using d by (metis add.commute append_eq_conv_conj drop_drop)
  have "out + length (unescaped c) + length (concat (map unescaped s)) < length b" using Cons.prems(2) b(2) by simp
  from Cons.IH [OF d2 this] b show ?case by (auto simp: add.assoc)
qed

text \<open>
  C38. Escaping a string and unescaping the result gives, in buffers with enough room, the bytes of the string read
  as code points and written in UTF-8: the string itself when it has only ASCII characters, and two bytes for
  every other byte, so that a string in UTF-8 is not restored.
\<close>

theorem json_escape_unescape:
  assumes "length stack = 16" and "length (concat (map escape_char s)) \<le> length buffer"
    and "length (concat (map (\<lambda>c. utf8_bytes (ucast c)) s)) < length out"
  shows "\<exists>b n b' n'. json_escape buffer (length buffer) s = Some (b, n) \<and> n \<le> length b \<and>
      json_unescape stack out (length out) (take n b) = Some (b', n') \<and> take n' b' = concat (map (\<lambda>c. utf8_bytes (ucast c)) s) \<and>
      ((\<forall>c\<in>set s. c < 0x80) \<longrightarrow> take n' b' = s)"
proof -
  let ?E = "concat (map escape_char s)"
  from escape_loop_spec [of 0 "length buffer" buffer s] assms(2) obtain b where
    b: "json_escape buffer (length buffer) s = Some (b, length ?E)" "length b = length buffer" "take (length ?E) b = ?E"
    by (auto simp: json_escape_def min_absorb2)
  have u: "(\<lambda>c. utf8_bytes (ucast c)) = unescaped" by (simp add: unescaped_def [abs_def])
  have "drop 0 (take (length ?E) b) = ?E" "0 + length (concat (map unescaped s)) < length out" using b(3) assms(3) u by simp_all
  from unescape_all [OF assms(1) this] obtain b' where
    b': "json_unescape stack out (length out) (take (length ?E) b) = Some (b', length (concat (map unescaped s)))"
      "take (length (concat (map unescaped s))) b' = concat (map unescaped s)" by (auto simp: json_unescape_def)
  have "concat (map unescaped s) = s" if "\<forall>c\<in>set s. c < 0x80" using that by (induction s) (auto simp: unescaped_ascii)
  then show ?thesis using b b' assms(2) unfolding u by fastforce
qed

theorem json_escape_unescape_witness:
  "\<exists>b n b' n'. json_escape (replicate 20 0) 20 [34, 65, 0xC3] = Some (b, n) \<and>
    json_unescape (replicate 16 7) (replicate 20 0) 20 (take n b) = Some (b', n') \<and> take n' b' = [34, 65, 0xC3, 0x83]"
proof -
  have u: "concat (map (\<lambda>c. utf8_bytes (ucast c)) [34, 65, 0xC3 :: byte]) = [34, 65, 0xC3, 0x83]" by code_simp
  have e: "length (concat (map escape_char [34, 65, 0xC3])) \<le> length (replicate 20 (0 :: byte))" by code_simp
  have l: "length (concat (map (\<lambda>c. utf8_bytes (ucast c)) [34, 65, 0xC3 :: byte])) < length (replicate 20 (0 :: byte))" unfolding u by simp
  from json_escape_unescape [OF _ e l, of "replicate 16 7"] show ?thesis unfolding u by auto
qed

end
