(* ===== verification/Bucketarray.thy ===== *)
theory Bucketarray
  imports Prelude
begin

text \<open>
  \<open>foundation/bucketarray.c\<close>: arrays of elements of a fixed size kept in buckets, so that an array grows
  without moving its elements. A bucket is the list of its bytes, and the array is shown to be the
  sequence of the bytes of its elements.
\<close>

section \<open>The array and its operations\<close>

record bucketarray_t =
  ba_bucket :: "byte list list"
  ba_element_size :: size_t
  ba_bucket_mask :: size_t
  ba_bucket_shift :: size_t
  ba_bucket_count :: size_t
  ba_count :: size_t

text \<open>
  \<open>while (bucket_element_count_power_of_two < bucket_element_count)\<close>, where \<open>p\<close> is the power of two of
  type \<open>size_t\<close>: above \<open>2 ^ 63\<close> elements it wraps to 0 and the loop does not end, which is the value \<^const>\<open>None\<close>.
\<close>

partial_function (option) bucket_shift_for :: "size_t \<Rightarrow> size_t \<Rightarrow> size_t \<Rightarrow> size_t option" where
  "bucket_shift_for shift p n = (if p < n then bucket_shift_for (shift + 1) (2 * p mod SIZE_MOD) n else Some shift)"

declare bucket_shift_for.simps [code]

definition bucketarray_initialize :: "size_t \<Rightarrow> size_t \<Rightarrow> bucketarray_t option" where
  "bucketarray_initialize element_size bucket_element_count =
     do { bucket_shift \<leftarrow> bucket_shift_for 4 (2 ^ 4) bucket_element_count;
          Some \<lparr>ba_bucket = [], ba_element_size = element_size, ba_bucket_mask = 2 ^ bucket_shift - 1,
            ba_bucket_shift = bucket_shift, ba_bucket_count = 0, ba_count = 0\<rparr> }"

text \<open>
  \<open>fresh i n\<close> is what the memory of \<open>n\<close> bytes allocated for bucket \<open>i\<close> holds.
\<close>

definition bucketarray_reserve :: "(nat \<Rightarrow> nat \<Rightarrow> byte list) \<Rightarrow> bucketarray_t \<Rightarrow> size_t \<Rightarrow> bucketarray_t" where
  "bucketarray_reserve fresh array n =
     (if push_bit (ba_bucket_shift array) (ba_bucket_count array) \<ge> n then array
      else let bucket_count = drop_bit (ba_bucket_shift array) (n + ba_bucket_mask array);
               bucket_size = push_bit (ba_bucket_shift array) (ba_element_size array)
           in array\<lparr>ba_bucket := ba_bucket array @ map (\<lambda>i. fresh i bucket_size) [ba_bucket_count array..<bucket_count],
                    ba_bucket_count := bucket_count\<rparr>)"

definition bucketarray_resize :: "(nat \<Rightarrow> nat \<Rightarrow> byte list) \<Rightarrow> bucketarray_t \<Rightarrow> size_t \<Rightarrow> bucketarray_t" where
  "bucketarray_resize fresh array n = (bucketarray_reserve fresh array n)\<lparr>ba_count := n\<rparr>"

text \<open>\<open>memcpy\<close> into and out of a bucket.\<close>

definition bucket_store :: "bucketarray_t \<Rightarrow> nat \<Rightarrow> nat \<Rightarrow> byte list \<Rightarrow> bucketarray_t option" where
  "bucket_store array idx ofs bytes =
     do { b \<leftarrow> mem_get (ba_bucket array) idx;
          b \<leftarrow> mem_store b ofs bytes;
          Some (array\<lparr>ba_bucket := (ba_bucket array)[idx := b]\<rparr>) }"

definition bucket_load :: "bucketarray_t \<Rightarrow> nat \<Rightarrow> nat \<Rightarrow> nat \<Rightarrow> byte list option" where
  "bucket_load array idx ofs n = do { b \<leftarrow> mem_get (ba_bucket array) idx; mem_load b ofs n }"

definition bucketarray_push :: "(nat \<Rightarrow> nat \<Rightarrow> byte list) \<Rightarrow> bucketarray_t \<Rightarrow> byte list \<Rightarrow> bucketarray_t option" where
  "bucketarray_push fresh array element =
     (let bucket_idx = drop_bit (ba_bucket_shift array) (ba_count array);
          array = (if bucket_idx \<ge> ba_bucket_count array
                   then bucketarray_reserve fresh array (ba_count array + ba_bucket_mask array) else array);
          index = ba_count array AND ba_bucket_mask array
      in do { bytes \<leftarrow> mem_load element 0 (ba_element_size array);
              array \<leftarrow> bucket_store array bucket_idx (ba_element_size array * index) bytes;
              Some (array\<lparr>ba_count := ba_count array + 1\<rparr>) })"

definition bucketarray_erase :: "bucketarray_t \<Rightarrow> size_t \<Rightarrow> bucketarray_t option" where
  "bucketarray_erase array element =
     (let last_element = size_sub (ba_count array) 1
      in do { array \<leftarrow>
                (if element < last_element then
                   do { bytes \<leftarrow> bucket_load array (drop_bit (ba_bucket_shift array) last_element)
                                  (ba_element_size array * (last_element AND ba_bucket_mask array)) (ba_element_size array);
                        bucket_store array (drop_bit (ba_bucket_shift array) element)
                          (ba_element_size array * (element AND ba_bucket_mask array)) bytes }
                 else Some array);
              Some (array\<lparr>ba_count := size_sub (ba_count array) 1\<rparr>) })"

definition bucketarray_get :: "bucketarray_t \<Rightarrow> size_t \<Rightarrow> byte list option" where
  "bucketarray_get array index =
     do { c_assert (index < ba_count array);
          bucket_load array (drop_bit (ba_bucket_shift array) index)
            (ba_element_size array * (index AND ba_bucket_mask array)) (ba_element_size array) }"

text \<open>The loops that copy whole buckets, and the last part of one.\<close>

fun copy_buckets :: "bucketarray_t \<Rightarrow> nat \<Rightarrow> nat \<Rightarrow> byte list \<Rightarrow> nat \<Rightarrow> (byte list \<times> nat) option" where
  "copy_buckets array ibucket 0 destination ofs = Some (destination, ofs)"
| "copy_buckets array ibucket (Suc n) destination ofs =
     (let bucket_size = push_bit (ba_bucket_shift array) (ba_element_size array)
      in do { bytes \<leftarrow> bucket_load array ibucket 0 bucket_size;
              destination \<leftarrow> mem_store destination ofs bytes;
              copy_buckets array (ibucket + 1) n destination (ofs + bucket_size) })"

definition bucketarray_copy :: "bucketarray_t \<Rightarrow> byte list \<Rightarrow> byte list option" where
  "bucketarray_copy array destination =
     (let bucket_count = drop_bit (ba_bucket_shift array) (ba_count array)
      in do { (destination, ofs) \<leftarrow> copy_buckets array 0 bucket_count destination 0;
              let element_count = ba_count array AND ba_bucket_mask array;
              if element_count \<noteq> 0 then
                do { bytes \<leftarrow> bucket_load array bucket_count 0 (ba_element_size array * element_count);
                     mem_store destination ofs bytes }
              else Some destination })"

text \<open>
  The loop of \<open>bucketarray_append\<close>: \<open>dst_index\<close> and \<open>src_index\<close> are the positions in the two buckets. A round
  that copies nothing would be repeated for ever. The array appended is another one.
\<close>

definition append_chunk :: "bucketarray_t \<Rightarrow> bucketarray_t \<Rightarrow> nat \<Rightarrow> nat \<Rightarrow> nat \<Rightarrow> nat" where
  "append_chunk array append' dst_index src_index copy_count =
     (let this_copy = 2 ^ ba_bucket_shift array - dst_index;
          limit_copy = 2 ^ ba_bucket_shift append' - src_index;
          this_copy = (if limit_copy < this_copy then limit_copy else this_copy)
      in if copy_count < this_copy then copy_count else this_copy)"

definition advance :: "nat \<Rightarrow> nat \<Rightarrow> nat \<Rightarrow> nat \<Rightarrow> nat \<times> nat" where
  "advance bucket_size bucket_idx index this_copy =
     (if index + this_copy = bucket_size then (bucket_idx + 1, 0) else (bucket_idx, index + this_copy))"

function append_loop :: "bucketarray_t \<Rightarrow> bucketarray_t \<Rightarrow> nat \<Rightarrow> nat \<Rightarrow> nat \<Rightarrow> nat \<Rightarrow> nat \<Rightarrow> bucketarray_t option" where
  "append_loop array append' dst_idx dst_index src_idx src_index copy_count =
     (let this_copy = append_chunk array append' dst_index src_index copy_count
      in if copy_count = 0 \<or> this_copy = 0 then (if copy_count = 0 then Some array else None)
         else case bucket_load append' src_idx (ba_element_size array * src_index) (ba_element_size array * this_copy) of
                None \<Rightarrow> None
              | Some bytes \<Rightarrow>
                  (case bucket_store array dst_idx (ba_element_size array * dst_index) bytes of
                     None \<Rightarrow> None
                   | Some array \<Rightarrow>
                       (case (advance (2 ^ ba_bucket_shift array) dst_idx dst_index this_copy,
                              advance (2 ^ ba_bucket_shift append') src_idx src_index this_copy) of
                          ((dst_idx, dst_index), (src_idx, src_index)) \<Rightarrow>
                            append_loop array append' dst_idx dst_index src_idx src_index (copy_count - this_copy))))"
  by pat_completeness auto
termination
  by (relation "measure (\<lambda>(array, append', dst_idx, dst_index, src_idx, src_index, copy_count). copy_count)") auto

declare append_loop.simps [simp del]

definition bucketarray_append :: "(nat \<Rightarrow> nat \<Rightarrow> byte list) \<Rightarrow> bucketarray_t \<Rightarrow> bucketarray_t \<Rightarrow> bucketarray_t option" where
  "bucketarray_append fresh array append' =
     (if ba_count append' = 0 then Some array
      else if ba_element_size array \<noteq> ba_element_size append' then Some array
      else let pre_count = ba_count array;
               copy_count = ba_count append';
               array = bucketarray_resize fresh array (ba_count array + ba_count append')
           in append_loop array append' (drop_bit (ba_bucket_shift array) pre_count) (pre_count AND ba_bucket_mask array) 0 0 copy_count)"

text \<open>\<open>memset\<close> of a part of a bucket; the offset is a number of bytes.\<close>

definition bucket_fill :: "bucketarray_t \<Rightarrow> nat \<Rightarrow> nat \<Rightarrow> byte \<Rightarrow> nat \<Rightarrow> bucketarray_t option" where
  "bucket_fill array idx ofs fill n = bucket_store array idx ofs (replicate n fill)"

fun fill_buckets :: "bucketarray_t \<Rightarrow> nat \<Rightarrow> nat \<Rightarrow> nat \<Rightarrow> byte \<Rightarrow> (bucketarray_t \<times> nat) option" where
  "fill_buckets array bucket_index index 0 fill = Some (array, index)"
| "fill_buckets array bucket_index index (Suc n) fill =
     do { array \<leftarrow> bucket_fill array bucket_index index fill ((2 ^ ba_bucket_shift array - index) * ba_element_size array);
          fill_buckets array (bucket_index + 1) 0 n fill }"

definition bucketarray_resize_fill :: "(nat \<Rightarrow> nat \<Rightarrow> byte list) \<Rightarrow> bucketarray_t \<Rightarrow> size_t \<Rightarrow> byte \<Rightarrow> bucketarray_t option" where
  "bucketarray_resize_fill fresh array n fill =
     (let array = bucketarray_reserve fresh array n
      in do { array \<leftarrow>
                (if n > ba_count array then
                   (let start_bucket_idx = drop_bit (ba_bucket_shift array) (ba_count array);
                        end_bucket_idx = drop_bit (ba_bucket_shift array) n
                    in do { (array, index) \<leftarrow>
                              fill_buckets array start_bucket_idx (ba_count array AND ba_bucket_mask array) (end_bucket_idx - start_bucket_idx) fill;
                            let last_bucket_count = n AND ba_bucket_mask array;
                            if index < last_bucket_count
                            then bucket_fill array end_bucket_idx index fill ((last_bucket_count - index) * ba_element_size array)
                            else Some array })
                 else Some array);
              Some (array\<lparr>ba_count := n\<rparr>) })"

definition bucketarray_clear :: "bucketarray_t \<Rightarrow> bucketarray_t" where
  "bucketarray_clear array = array\<lparr>ba_count := 0\<rparr>"

definition bucketarray_clear_and_free :: "bucketarray_t \<Rightarrow> bucketarray_t" where
  "bucketarray_clear_and_free array = array\<lparr>ba_bucket := [], ba_bucket_count := 0, ba_count := 0\<rparr>"

text \<open>A copy: the buckets are allocated, and the elements of each are copied.\<close>

fun copied_buckets :: "(nat \<Rightarrow> nat \<Rightarrow> byte list) \<Rightarrow> bucketarray_t \<Rightarrow> nat \<Rightarrow> nat \<Rightarrow> nat \<Rightarrow> byte list list option" where
  "copied_buckets fresh source ibucket 0 elements_to_copy = Some []"
| "copied_buckets fresh source ibucket (Suc n) elements_to_copy =
     (let bucket_element_count = 2 ^ ba_bucket_shift source;
          bucket = fresh ibucket (push_bit (ba_bucket_shift source) (ba_element_size source));
          this_copy = (if elements_to_copy > bucket_element_count then bucket_element_count else elements_to_copy)
      in do { bucket \<leftarrow> (if elements_to_copy \<noteq> 0
                        then do { bytes \<leftarrow> bucket_load source ibucket 0 (ba_element_size source * this_copy); mem_store bucket 0 bytes }
                        else Some bucket);
              buckets \<leftarrow> copied_buckets fresh source (ibucket + 1) n (elements_to_copy - this_copy);
              Some (bucket # buckets) })"

definition bucketarray_initialize_copy :: "(nat \<Rightarrow> nat \<Rightarrow> byte list) \<Rightarrow> bucketarray_t \<Rightarrow> bucketarray_t option" where
  "bucketarray_initialize_copy fresh source =
     do { buckets \<leftarrow> copied_buckets fresh source 0 (ba_bucket_count source) (ba_count source);
          Some (source\<lparr>ba_bucket := buckets\<rparr>) }"

section \<open>Buckets of one size\<close>

lemma length_concat_uniform: "\<forall>b\<in>set bs. length b = B \<Longrightarrow> length (concat bs) = B * length bs"
  by (induction bs) auto

lemma concat_split:
  assumes "\<forall>b\<in>set bs. length b = B" and "i < length bs"
  shows "concat bs = concat (take i bs) @ bs ! i @ concat (drop (Suc i) bs)" "length (concat (take i bs)) = B * i" "length (bs ! i) = B"
proof -
  have "bs = take i bs @ bs ! i # drop (Suc i) bs" using assms(2) by (rule id_take_nth_drop)
  then have "concat bs = concat (take i bs @ bs ! i # drop (Suc i) bs)" by simp
  then show "concat bs = concat (take i bs) @ bs ! i @ concat (drop (Suc i) bs)" by simp
  show "length (bs ! i) = B" using assms by simp
  have "\<forall>b\<in>set (take i bs). length b = B" using assms(1) set_take_subset [of i bs] by blast
  then have "length (concat (take i bs)) = B * length (take i bs)" by (rule length_concat_uniform)
  then show "length (concat (take i bs)) = B * i" using assms(2) by (simp add: min_absorb2)
qed

lemma concat_load:
  assumes "\<forall>b\<in>set bs. length b = B" and "i < length bs" and "ofs + n \<le> B"
  shows "take n (drop ofs (bs ! i)) = take n (drop (B * i + ofs) (concat bs))"
  unfolding concat_split(1) [OF assms(1,2)] using concat_split(2,3) [OF assms(1,2)] assms(3) by simp

lemma concat_store:
  assumes "\<forall>b\<in>set bs. length b = B" and "i < length bs" and "ofs + length xs \<le> B"
  shows "concat (bs[i := overwrite (bs ! i) ofs xs]) = overwrite (concat bs) (B * i + ofs) xs"
proof -
  note c = concat_split [OF assms(1,2)]
  have "concat (bs[i := overwrite (bs ! i) ofs xs]) = concat (take i bs) @ overwrite (bs ! i) ofs xs @ concat (drop (Suc i) bs)"
    using assms(2) by (simp add: upd_conv_take_nth_drop)
  also have "\<dots> = overwrite (concat bs) (B * i + ofs) xs"
    unfolding c(1) overwrite_def using c(2,3) assms(3) by simp
  finally show ?thesis .
qed

lemma shift_mask_nat:
  "push_bit k (n :: nat) = n * 2 ^ k" "drop_bit k (n :: nat) = n div 2 ^ k" "n AND (2 ^ k - 1) = (n :: nat) mod 2 ^ k"
proof -
  show "n AND (2 ^ k - 1) = (n :: nat) mod 2 ^ k"
    by (simp only: take_bit_eq_mod [symmetric] take_bit_eq_mask mask_eq_exp_minus_1)
qed (simp_all add: push_bit_eq_mult drop_bit_eq_div)

section \<open>The array as a sequence of bytes\<close>

definition ba_inv :: "bucketarray_t \<Rightarrow> bool" where
  "ba_inv a \<longleftrightarrow> ba_bucket_count a = length (ba_bucket a) \<and> ba_bucket_mask a = 2 ^ ba_bucket_shift a - 1 \<and>
     (\<forall>b\<in>set (ba_bucket a). length b = ba_element_size a * 2 ^ ba_bucket_shift a) \<and>
     ba_count a \<le> ba_bucket_count a * 2 ^ ba_bucket_shift a \<and> 0 < ba_bucket_shift a"

definition ba_bytes :: "bucketarray_t \<Rightarrow> byte list" where
  "ba_bytes a = take (ba_element_size a * ba_count a) (concat (ba_bucket a))"

text \<open>What an operation keeps.\<close>

definition same_shape :: "bucketarray_t \<Rightarrow> bucketarray_t \<Rightarrow> bool" where
  "same_shape a a' \<longleftrightarrow> ba_element_size a' = ba_element_size a \<and> ba_bucket_mask a' = ba_bucket_mask a \<and> ba_bucket_shift a' = ba_bucket_shift a"

lemma ba_position: "e * 2 ^ k * (i div 2 ^ k) + e * (i mod 2 ^ k) = e * (i :: nat)"
proof -
  have "e * 2 ^ k * (i div 2 ^ k) + e * (i mod 2 ^ k) = e * (2 ^ k * (i div 2 ^ k) + i mod 2 ^ k)" by (simp only: distrib_left mult.assoc)
  then show ?thesis by (simp only: mult_div_mod_eq)
qed

lemma length_ba_concat: "ba_inv a \<Longrightarrow> length (concat (ba_bucket a)) = ba_element_size a * 2 ^ ba_bucket_shift a * ba_bucket_count a"
  using length_concat_uniform [of "ba_bucket a"] by (simp add: ba_inv_def)

lemma count_fits: "ba_inv a \<Longrightarrow> ba_element_size a * ba_count a \<le> length (concat (ba_bucket a))"
  unfolding length_ba_concat by (auto simp: ba_inv_def mult.commute mult.left_commute)

lemma length_ba_bytes: "ba_inv a \<Longrightarrow> length (ba_bytes a) = ba_element_size a * ba_count a"
  using count_fits by (simp add: ba_bytes_def min_absorb2)

lemma element_end: "(i :: nat) mod 2 ^ k * e + e \<le> e * 2 ^ k"
proof -
  have "i mod 2 ^ k + 1 \<le> (2 ^ k :: nat)" by (simp add: Suc_leI)
  then have "e * (i mod 2 ^ k + 1) \<le> e * 2 ^ k" by (rule mult_le_mono2)
  then show ?thesis by (simp add: mult.commute)
qed

text \<open>Loads and stores of a bucket are those of the sequence.\<close>

lemma bucket_load_flat:
  assumes "ba_inv a" and "idx < ba_bucket_count a" and "ofs + n \<le> ba_element_size a * 2 ^ ba_bucket_shift a"
  shows "bucket_load a idx ofs n = Some (take n (drop (ba_element_size a * 2 ^ ba_bucket_shift a * idx + ofs) (concat (ba_bucket a))))"
proof -
  have u: "\<forall>b\<in>set (ba_bucket a). length b = ba_element_size a * 2 ^ ba_bucket_shift a" "idx < length (ba_bucket a)"
    using assms(1,2) by (auto simp: ba_inv_def)
  show ?thesis using u assms(3) concat_load [OF u assms(3)] by (simp add: bucket_load_def mem_get_def mem_load_def)
qed

lemma bucket_store_flat:
  assumes "ba_inv a" and "idx < ba_bucket_count a" and "ofs + length xs \<le> ba_element_size a * 2 ^ ba_bucket_shift a"
  shows "\<exists>a'. bucket_store a idx ofs xs = Some a' \<and> ba_inv a' \<and> same_shape a a' \<and> ba_count a' = ba_count a \<and> ba_bucket_count a' = ba_bucket_count a \<and>
    concat (ba_bucket a') = overwrite (concat (ba_bucket a)) (ba_element_size a * 2 ^ ba_bucket_shift a * idx + ofs) xs"
proof -
  have u: "\<forall>b\<in>set (ba_bucket a). length b = ba_element_size a * 2 ^ ba_bucket_shift a" "idx < length (ba_bucket a)"
    using assms(1,2) by (auto simp: ba_inv_def)
  let ?b = "overwrite (ba_bucket a ! idx) ofs xs"
  have l: "length (ba_bucket a ! idx) = ba_element_size a * 2 ^ ba_bucket_shift a" using u by simp
  then have "length ?b = ba_element_size a * 2 ^ ba_bucket_shift a" using assms(3) by simp
  then have "\<forall>b\<in>set ((ba_bucket a)[idx := ?b]). length b = ba_element_size a * 2 ^ ba_bucket_shift a"
    using u(1) set_update_subset_insert [of "ba_bucket a" idx ?b] by blast
  then show ?thesis using assms(1) u(2) l assms(3) concat_store [OF u assms(3)]
    by (auto simp: bucket_store_def mem_get_def mem_store_def ba_inv_def same_shape_def)
qed

lemma reserve_spec:
  fixes n :: nat
  assumes "ba_inv a" and fresh: "\<And>i n. length (fresh i n) = n"
  defines "a' \<equiv> bucketarray_reserve fresh a n"
  shows "ba_inv a'" "same_shape a a'" "ba_count a' = ba_count a" "n \<le> ba_bucket_count a' * 2 ^ ba_bucket_shift a"
    "ba_bucket_count a \<le> ba_bucket_count a'" "\<exists>xs. concat (ba_bucket a') = concat (ba_bucket a) @ xs"
proof -
  let ?k = "ba_bucket_shift a" and ?B = "ba_element_size a * 2 ^ ba_bucket_shift a"
  have "ba_inv a' \<and> same_shape a a' \<and> ba_count a' = ba_count a \<and> n \<le> ba_bucket_count a' * 2 ^ ?k \<and>
    ba_bucket_count a \<le> ba_bucket_count a' \<and> (\<exists>xs. concat (ba_bucket a') = concat (ba_bucket a) @ xs)"
  proof (cases "n \<le> ba_bucket_count a * 2 ^ ?k")
    case True
    then show ?thesis using assms(1) by (auto simp: a'_def bucketarray_reserve_def shift_mask_nat same_shape_def)
  next
    case False
    have mask: "ba_bucket_mask a = 2 ^ ?k - 1" using assms(1) by (simp add: ba_inv_def)
    define m where "m = (n + ba_bucket_mask a) div 2 ^ ?k"
    have a': "a' = a\<lparr>ba_bucket := ba_bucket a @ map (\<lambda>i. fresh i ?B) [ba_bucket_count a..<m], ba_bucket_count := m\<rparr>"
      using False by (simp add: a'_def bucketarray_reserve_def shift_mask_nat m_def Let_def)
    have n: "n \<le> m * 2 ^ ?k"
    proof -
      have "n + ba_bucket_mask a < (m + 1) * 2 ^ ?k"
        unfolding m_def using dividend_less_div_times [of "2 ^ ?k" "n + ba_bucket_mask a"] by simp
      then show ?thesis using mask by simp
    qed
    then have "ba_bucket_count a * 2 ^ ?k < m * 2 ^ ?k" using False by linarith
    then have m: "ba_bucket_count a < m" by simp
    have "ba_count a \<le> m * 2 ^ ?k" using assms(1) m
      by (meson ba_inv_def less_imp_le_nat mult_le_mono1 order_trans)
    then show ?thesis using assms(1) m n fresh unfolding a' by (auto simp: ba_inv_def same_shape_def)
  qed
  then show "ba_inv a'" "same_shape a a'" "ba_count a' = ba_count a" "n \<le> ba_bucket_count a' * 2 ^ ba_bucket_shift a"
    "ba_bucket_count a \<le> ba_bucket_count a'" "\<exists>xs. concat (ba_bucket a') = concat (ba_bucket a) @ xs" by blast+
qed

lemma reserve_bytes:
  assumes "ba_inv a" and fresh: "\<And>i n. length (fresh i n) = n"
  shows "ba_bytes (bucketarray_reserve fresh a n) = ba_bytes a"
  using reserve_spec [where fresh = fresh and n = n, OF assms] count_fits [OF assms(1)] by (auto simp: ba_bytes_def same_shape_def)

lemma ba_mask: "ba_inv a \<Longrightarrow> n AND ba_bucket_mask a = n mod 2 ^ ba_bucket_shift a"
  by (simp only: ba_inv_def shift_mask_nat(3))

lemma push_spec:
  assumes "ba_inv a" and fresh: "\<And>i n. length (fresh i n) = n" and "length element = ba_element_size a"
  shows "\<exists>a'. bucketarray_push fresh a element = Some a' \<and> ba_inv a' \<and> same_shape a a' \<and> ba_count a' = ba_count a + 1 \<and> ba_bytes a' = ba_bytes a @ element"
proof -
  let ?k = "ba_bucket_shift a" and ?e = "ba_element_size a" and ?c = "ba_count a"
  define b where "b = (if ?c div 2 ^ ?k \<ge> ba_bucket_count a then bucketarray_reserve fresh a (?c + ba_bucket_mask a) else a)"
  have pos: "0 < ba_bucket_mask a"
  proof -
    have "(2 :: nat) ^ 1 \<le> 2 ^ ?k" using assms(1) by (intro power_increasing) (auto simp: ba_inv_def)
    then show ?thesis using assms(1) by (simp add: ba_inv_def)
  qed
  have b: "ba_inv b" "same_shape a b" "ba_count b = ?c" "ba_bytes b = ba_bytes a" "?c < ba_bucket_count b * 2 ^ ?k"
  proof -
    note r = reserve_spec [where fresh = fresh and n = "?c + ba_bucket_mask a", OF assms(1) fresh]
    have "?c < ba_bucket_count a * 2 ^ ?k" if "\<not> ?c div 2 ^ ?k \<ge> ba_bucket_count a"
      using that by (metis div_less_iff_less_mult linorder_not_le zero_less_numeral zero_less_power)
    then show "?c < ba_bucket_count b * 2 ^ ?k" using r(4) pos by (auto simp: b_def)
    show "ba_inv b" "same_shape a b" "ba_count b = ?c" "ba_bytes b = ba_bytes a"
      using assms(1) r reserve_bytes [where fresh = fresh, OF assms(1) fresh] by (auto simp: b_def same_shape_def)
  qed
  have s: "ba_element_size b = ?e" "ba_bucket_shift b = ?k" using b(2) by (auto simp: same_shape_def)
  have idx: "?c div 2 ^ ?k < ba_bucket_count b" using b(5) by (rule less_mult_imp_div_less)
  have fits: "?e * (?c mod 2 ^ ?k) + length element \<le> ?e * 2 ^ ?k" using element_end [of ?c ?k ?e] assms(3) by (simp add: mult.commute)
  from bucket_store_flat [OF b(1) idx, unfolded s, OF fits] obtain d where
    d: "bucket_store b (?c div 2 ^ ?k) (?e * (?c mod 2 ^ ?k)) element = Some d" "ba_inv d" "same_shape b d" "ba_count d = ?c"
      "ba_bucket_count d = ba_bucket_count b" "concat (ba_bucket d) = overwrite (concat (ba_bucket b)) (?e * ?c) element"
    using b(3) by (auto simp: ba_position)
  let ?d = "d\<lparr>ba_count := ?c + 1\<rparr>"
  have run: "bucketarray_push fresh a element = Some ?d"
    using d(1,4) assms(3) b(3) s by (simp add: bucketarray_push_def shift_mask_nat(2) b_def [symmetric] ba_mask [OF b(1)] mem_load_def)
  have inv: "ba_inv ?d" using d(2,3,5) b(5) s by (auto simp: ba_inv_def same_shape_def)
  have room: "?e * ?c + length element \<le> length (concat (ba_bucket b))"
    using count_fits [OF inv] length_ba_concat [OF d(2)] length_ba_concat [OF b(1)] d(3,5) s assms(3) by (simp add: same_shape_def)
  have "ba_bytes ?d = take (?e * ?c + length element) (overwrite (concat (ba_bucket b)) (?e * ?c) element)"
    using d(3,6) s assms(3) by (simp add: ba_bytes_def same_shape_def add.commute)
  also have "\<dots> = ba_bytes a @ element"
    unfolding take_overwrite_upto [OF room] b(4) [symmetric] using b(3) s by (simp add: ba_bytes_def)
  finally show ?thesis using run inv d(3) b(2) by (auto simp: same_shape_def)
qed

lemma get_spec:
  assumes "ba_inv a" and "i < ba_count a"
  shows "bucket_load a (i div 2 ^ ba_bucket_shift a) (ba_element_size a * (i mod 2 ^ ba_bucket_shift a)) (ba_element_size a) =
      Some (take (ba_element_size a) (drop (ba_element_size a * i) (ba_bytes a)))"
    "bucketarray_get a i = Some (take (ba_element_size a) (drop (ba_element_size a * i) (ba_bytes a)))"
proof -
  let ?k = "ba_bucket_shift a" and ?e = "ba_element_size a"
  have "i < ba_bucket_count a * 2 ^ ?k" using assms by (auto simp: ba_inv_def)
  then have idx: "i div 2 ^ ?k < ba_bucket_count a" by (rule less_mult_imp_div_less)
  have fits: "?e * (i mod 2 ^ ?k) + ?e \<le> ?e * 2 ^ ?k" using element_end [of i ?k ?e] by (simp add: mult.commute)
  have "?e * i + ?e \<le> ?e * ba_count a" using assms(2) by (metis Suc_leI mult_Suc_right mult_le_mono2 add.commute)
  then have "take ?e (drop (?e * i) (concat (ba_bucket a))) = take ?e (drop (?e * i) (ba_bytes a))"
    by (simp add: ba_bytes_def drop_take min_absorb1)
  then show *: "bucket_load a (i div 2 ^ ?k) (?e * (i mod 2 ^ ?k)) ?e = Some (take ?e (drop (?e * i) (ba_bytes a)))"
    using bucket_load_flat [OF assms(1) idx fits] by (simp add: ba_position)
  show "bucketarray_get a i = Some (take ?e (drop (?e * i) (ba_bytes a)))"
    using * assms by (simp add: bucketarray_get_def shift_mask_nat(2) ba_mask)
qed

lemma take_overwrite_take:
  assumes "p + length ys \<le> l" and "l \<le> m" and "m \<le> length xs"
  shows "take l (overwrite (take m xs) p ys) = take l (overwrite xs p ys)"
  using assms by (simp add: overwrite_def drop_take min_absorb1 min_absorb2)

lemma erase_spec:
  assumes "ba_inv a" and "i < ba_count a" and "ba_count a < SIZE_MOD"
  defines "l \<equiv> ba_element_size a * (ba_count a - 1)"
  shows "\<exists>a'. bucketarray_erase a i = Some a' \<and> ba_inv a' \<and> same_shape a a' \<and> ba_count a' = ba_count a - 1 \<and>
    ba_bytes a' = take l (overwrite (ba_bytes a) (ba_element_size a * i) (drop l (ba_bytes a)))"
proof -
  let ?k = "ba_bucket_shift a" and ?e = "ba_element_size a" and ?c = "ba_count a"
  have lc: "?c - 1 < ?c" "size_sub ?c 1 = ?c - 1" using assms(2) by auto
  have dl: "drop l (ba_bytes a) = take ?e (drop (?e * (?c - 1)) (ba_bytes a))"
    using length_ba_bytes [OF assms(1)] assms(2) by (simp add: l_def) (cases ?c, auto)
  have last: "length (drop l (ba_bytes a)) = ?e" using length_ba_bytes [OF assms(1)] assms(2) by (simp add: l_def) (cases ?c, auto)
  show ?thesis
  proof (cases "i < ?c - 1")
    case False
    then have "i = ?c - 1" using assms(2) by simp
    then have "take l (overwrite (ba_bytes a) (?e * i) (drop l (ba_bytes a))) = take l (ba_bytes a)"
      using length_ba_bytes [OF assms(1)] by (simp add: l_def overwrite_def)
    moreover have "take l (ba_bytes a) = take (?e * (?c - 1)) (concat (ba_bucket a))"
      by (simp add: ba_bytes_def l_def min_absorb1 diff_mult_distrib2)
    ultimately show ?thesis using False lc assms(1)
      by (auto simp: bucketarray_erase_def ba_inv_def same_shape_def ba_bytes_def)
  next
    case True
    have "i < ba_bucket_count a * 2 ^ ?k" using assms(1,2) by (auto simp: ba_inv_def)
    then have idx: "i div 2 ^ ?k < ba_bucket_count a" by (rule less_mult_imp_div_less)
    have fits: "?e * (i mod 2 ^ ?k) + length (drop l (ba_bytes a)) \<le> ?e * 2 ^ ?k"
      using element_end [of i ?k ?e] last by (simp add: mult.commute)
    from bucket_store_flat [OF assms(1) idx fits] obtain d where
      d: "bucket_store a (i div 2 ^ ?k) (?e * (i mod 2 ^ ?k)) (drop l (ba_bytes a)) = Some d" "ba_inv d" "same_shape a d" "ba_count d = ?c"
        "concat (ba_bucket d) = overwrite (concat (ba_bucket a)) (?e * i) (drop l (ba_bytes a))"
      by (auto simp: ba_position)
    let ?d = "d\<lparr>ba_count := ?c - 1\<rparr>"
    have run: "bucketarray_erase a i = Some ?d"
      using True lc d(1,4) get_spec(1) [OF assms(1) lc(1)] unfolding dl [symmetric]
      by (simp add: bucketarray_erase_def shift_mask_nat(2) ba_mask [OF assms(1)])
    have inv: "ba_inv ?d" using d(2,4) by (auto simp: ba_inv_def)
    have il: "?e * i + ?e \<le> l" using True by (metis Suc_leI l_def mult_Suc_right mult_le_mono2 add.commute)
    have le: "l \<le> ?e * ?c" by (simp add: l_def)
    have "take l (overwrite (concat (ba_bucket a)) (?e * i) (drop l (ba_bytes a))) =
        take l (overwrite (ba_bytes a) (?e * i) (drop l (ba_bytes a)))"
      unfolding ba_bytes_def by (rule take_overwrite_take [symmetric]) (use il le last count_fits [OF assms(1)] in \<open>simp_all add: ba_bytes_def\<close>)
    then show ?thesis using run inv d(3,5) by (auto simp: ba_bytes_def same_shape_def l_def)
  qed
qed

section \<open>Appending and copying\<close>

lemma position_idx: "idx * 2 ^ k + index < n * 2 ^ k \<Longrightarrow> idx < (n :: nat)"
  by (metis add_lessD1 mult_less_cancel2)

lemma advance_position:
  assumes "advance (2 ^ k) idx index t = (idx', index')" and "index + t \<le> 2 ^ k" and "0 < k"
  shows "idx' * 2 ^ k + index' = idx * 2 ^ k + index + t" "index' < 2 ^ k"
  using assms by (auto simp: advance_def split: if_splits)

lemma append_loop_spec:
  fixes dst_idx dst_index src_idx src_index r :: nat
  assumes inv: "ba_inv a" "ba_inv b" and es: "ba_element_size b = ba_element_size a"
    and "dst_index < 2 ^ ba_bucket_shift a" and "src_index < 2 ^ ba_bucket_shift b"
  defines "D \<equiv> dst_idx * 2 ^ ba_bucket_shift a + dst_index" and "S \<equiv> src_idx * 2 ^ ba_bucket_shift b + src_index"
  assumes "S + r \<le> ba_count b" and "D + r \<le> ba_bucket_count a * 2 ^ ba_bucket_shift a"
  shows "\<exists>a'. append_loop a b dst_idx dst_index src_idx src_index r = Some a' \<and> ba_inv a' \<and> same_shape a a' \<and> ba_count a' = ba_count a \<and>
    concat (ba_bucket a') = overwrite (concat (ba_bucket a)) (ba_element_size a * D)
      (take (ba_element_size a * r) (drop (ba_element_size a * S) (concat (ba_bucket b))))"
  using inv(1) es assms(4,5,8,9) unfolding D_def S_def
proof (induction r arbitrary: a dst_idx dst_index src_idx src_index rule: less_induct)
  case (less r)
  let ?k = "ba_bucket_shift a" and ?l = "ba_bucket_shift b" and ?e = "ba_element_size a"
  let ?D = "dst_idx * 2 ^ ?k + dst_index" and ?S = "src_idx * 2 ^ ?l + src_index"
  show ?case
  proof (cases "r = 0")
    case True
    then show ?thesis using less.prems(1) by (subst append_loop.simps) (simp add: same_shape_def)
  next
    case False
    define t where "t = append_chunk a b dst_index src_index r"
    have t: "0 < t" "dst_index + t \<le> 2 ^ ?k" "src_index + t \<le> 2 ^ ?l" "t \<le> r"
      using less.prems(3,4) False by (auto simp: t_def append_chunk_def Let_def)
    have "?S < ba_bucket_count b * 2 ^ ?l" using less.prems(5) inv(2) False by (auto simp: ba_inv_def)
    then have si: "src_idx < ba_bucket_count b" by (rule position_idx)
    have "?D < ba_bucket_count a * 2 ^ ?k" using less.prems(6) False by linarith
    then have di: "dst_idx < ba_bucket_count a" by (rule position_idx)
    let ?xs = "take (?e * t) (drop (?e * ?S) (concat (ba_bucket b)))"
    have "?e * src_index + ?e * t \<le> ?e * 2 ^ ?l" using mult_le_mono2 [OF t(3), of ?e] by (simp add: distrib_left)
    from bucket_load_flat [OF inv(2) si, unfolded less.prems(2), OF this]
    have ld: "bucket_load b src_idx (?e * src_index) (?e * t) = Some ?xs" by (simp add: distrib_left mult.assoc mult.commute mult.left_commute)
    have "?e * (?S + t) \<le> ?e * ba_count b" using less.prems(5) t(4) by (intro mult_le_mono2) linarith
    then have "?e * ?S + ?e * t \<le> length (concat (ba_bucket b))" using count_fits [OF inv(2)] less.prems(2) by (simp add: distrib_left)
    then have lx: "length ?xs = ?e * t" by simp
    have "?e * dst_index + length ?xs \<le> ?e * 2 ^ ?k" unfolding lx using mult_le_mono2 [OF t(2), of ?e] by (simp add: distrib_left)
    from bucket_store_flat [OF less.prems(1) di this] obtain c where
      c: "bucket_store a dst_idx (?e * dst_index) ?xs = Some c" "ba_inv c" "same_shape a c" "ba_count c = ba_count a"
        "ba_bucket_count c = ba_bucket_count a" "concat (ba_bucket c) = overwrite (concat (ba_bucket a)) (?e * ?D) ?xs"
      by (auto simp: distrib_left mult.assoc mult.commute mult.left_commute)
    have s: "ba_element_size c = ?e" "ba_bucket_shift c = ?k" using c(3) by (auto simp: same_shape_def)
    obtain d1 d2 s1 s2 where adv: "advance (2 ^ ?k) dst_idx dst_index t = (d1, d2)" "advance (2 ^ ?l) src_idx src_index t = (s1, s2)"
      by (metis surj_pair)
    have k: "0 < ?k" "0 < ?l" using less.prems(1) inv(2) by (auto simp: ba_inv_def)
    note dp = advance_position [OF adv(1) t(2) k(1)] and sp = advance_position [OF adv(2) t(3) k(2)]
    have step: "append_loop a b dst_idx dst_index src_idx src_index r = append_loop c b d1 d2 s1 s2 (r - t)"
      using False t(1) ld c(1) adv s by (subst append_loop.simps) (simp add: t_def [symmetric])
    have "r - t < r" using t(1) False by simp
    moreover have pr: "ba_element_size b = ba_element_size c" "d2 < 2 ^ ba_bucket_shift c" "s2 < 2 ^ ?l"
        "s1 * 2 ^ ?l + s2 + (r - t) \<le> ba_count b" "d1 * 2 ^ ba_bucket_shift c + d2 + (r - t) \<le> ba_bucket_count c * 2 ^ ba_bucket_shift c"
      unfolding s c(5) dp(1) sp(1) using less.prems(2,5,6) dp(2) sp(2) t(4) by auto
    ultimately obtain a' where
      a': "append_loop c b d1 d2 s1 s2 (r - t) = Some a'" "ba_inv a'" "same_shape c a'" "ba_count a' = ba_count c"
        "concat (ba_bucket a') = overwrite (concat (ba_bucket c)) (?e * (d1 * 2 ^ ?k + d2))
          (take (?e * (r - t)) (drop (?e * (s1 * 2 ^ ?l + s2)) (concat (ba_bucket b))))"
      using less.IH [OF _ c(2) pr] unfolding s by blast
    let ?ys = "take (?e * (r - t)) (drop (?e * (?S + t)) (concat (ba_bucket b)))"
    have "?xs @ ?ys = take (?e * r) (drop (?e * ?S) (concat (ba_bucket b)))"
    proof -
      have "?e * r = ?e * t + ?e * (r - t)" using t(4) by (simp flip: distrib_left)
      then show ?thesis by (simp add: take_add distrib_left add.commute)
    qed
    moreover have "?e * ?D \<le> length (concat (ba_bucket a))"
      unfolding length_ba_concat [OF less.prems(1)] using less.prems(6)
      by (metis add_leD1 mult.assoc mult.commute mult_le_mono2)
    ultimately have "concat (ba_bucket a') = overwrite (concat (ba_bucket a)) (?e * ?D) (take (?e * r) (drop (?e * ?S) (concat (ba_bucket b))))"
      unfolding a'(5) c(6) dp(1) sp(1) using overwrite_append [of "?e * ?D" "concat (ba_bucket a)" ?xs ?ys] lx by (simp add: distrib_left)
    then show ?thesis using step a'(1-4) c(3,4) by (auto simp: same_shape_def)
  qed
qed

lemma resize_spec:
  assumes "ba_inv a" and fresh: "\<And>i n. length (fresh i n) = n"
  shows "ba_inv (bucketarray_resize fresh a n)" "same_shape a (bucketarray_resize fresh a n)" "ba_count (bucketarray_resize fresh a n) = n"
    "take (length (ba_bytes a)) (ba_bytes (bucketarray_resize fresh a n)) = take (ba_element_size a * n) (ba_bytes a)"
proof -
  note r = reserve_spec [where fresh = fresh and n = n, OF assms]
  let ?a = "bucketarray_resize fresh a n"
  show i: "ba_inv ?a" using r(1,2,4) by (auto simp: bucketarray_resize_def ba_inv_def same_shape_def)
  show "same_shape a ?a" "ba_count ?a = n" using r(2) by (auto simp: bucketarray_resize_def same_shape_def)
  have "take (ba_element_size a * ba_count a) (concat (ba_bucket ?a)) = ba_bytes a"
    using r(6) count_fits [OF assms(1)] by (auto simp: bucketarray_resize_def ba_bytes_def)
  then show "take (length (ba_bytes a)) (ba_bytes ?a) = take (ba_element_size a * n) (ba_bytes a)"
    using r(2) length_ba_bytes [OF assms(1)] by (simp add: bucketarray_resize_def ba_bytes_def same_shape_def min.commute) (metis take_take)
qed

lemma append_spec:
  assumes "ba_inv a" and "ba_inv b" and "ba_element_size b = ba_element_size a" and fresh: "\<And>i n. length (fresh i n) = n"
  shows "\<exists>a'. bucketarray_append fresh a b = Some a' \<and> ba_inv a' \<and> same_shape a a' \<and> ba_bytes a' = ba_bytes a @ ba_bytes b"
proof (cases "ba_count b = 0")
  case True
  then show ?thesis using assms(1) by (simp add: bucketarray_append_def ba_bytes_def same_shape_def)
next
  case False
  let ?e = "ba_element_size a" and ?c = "ba_count a" and ?n = "ba_count a + ba_count b"
  define d where "d = bucketarray_resize fresh a ?n"
  note r = resize_spec [where fresh = fresh and n = ?n, OF assms(1) fresh, folded d_def]
  have s: "ba_element_size d = ?e" "ba_bucket_shift d = ba_bucket_shift a" using r(2) by (auto simp: same_shape_def)
  have room: "?c div 2 ^ ba_bucket_shift d * 2 ^ ba_bucket_shift d + ?c mod 2 ^ ba_bucket_shift d + ba_count b \<le> ba_bucket_count d * 2 ^ ba_bucket_shift d"
    using r(1,3) unfolding div_mult_mod_eq by (auto simp: ba_inv_def)
  have k: "?c mod 2 ^ ba_bucket_shift d < 2 ^ ba_bucket_shift d" "0 < (2 :: nat) ^ ba_bucket_shift b" by simp_all
  have start: "0 * 2 ^ ba_bucket_shift b + 0 + ba_count b \<le> ba_count b" by simp
  from append_loop_spec [OF r(1) assms(2) _ k start room] assms(3) s obtain a' where
    a': "append_loop d b (?c div 2 ^ ba_bucket_shift d) (?c mod 2 ^ ba_bucket_shift d) 0 0 (ba_count b) = Some a'" "ba_inv a'" "same_shape d a'"
      "ba_count a' = ?n" "concat (ba_bucket a') = overwrite (concat (ba_bucket d)) (?e * ?c) (take (?e * ba_count b) (concat (ba_bucket b)))"
    using r(3) by (auto simp: div_mult_mod_eq)
  have b: "take (?e * ba_count b) (concat (ba_bucket b)) = ba_bytes b" using assms(3) by (simp add: ba_bytes_def)
  have lb: "length (ba_bytes b) = ?e * ba_count b" using length_ba_bytes [OF assms(2)] assms(3) by simp
  have "?e * ?c + length (ba_bytes b) \<le> length (concat (ba_bucket d))" using count_fits [OF r(1)] r(3) s lb by (simp add: distrib_left)
  from take_overwrite_upto [OF this] have "ba_bytes a' = take (?e * ?c) (concat (ba_bucket d)) @ ba_bytes b"
    unfolding b [symmetric] using a'(3,4,5) s lb b by (simp add: ba_bytes_def same_shape_def distrib_left)
  moreover have "take (?e * ?c) (concat (ba_bucket d)) = ba_bytes a"
    using r(4) length_ba_bytes [OF assms(1)] s r(3) by (simp add: ba_bytes_def distrib_left min_absorb1)
  ultimately show ?thesis using False assms(3) a'(1,2,3) s r(2)
    by (simp add: bucketarray_append_def shift_mask_nat(2) ba_mask [OF r(1)] ba_mask [OF assms(1)] d_def [symmetric] Let_def same_shape_def)
qed

lemma copy_buckets_spec:
  fixes ibucket n :: nat and a :: bucketarray_t
  defines "B \<equiv> ba_element_size a * 2 ^ ba_bucket_shift a"
  assumes "ba_inv a" and "ibucket + n \<le> ba_bucket_count a" and "B * (ibucket + n) \<le> length destination"
  shows "copy_buckets a ibucket n destination (B * ibucket) =
    Some (overwrite destination (B * ibucket) (take (B * n) (drop (B * ibucket) (concat (ba_bucket a)))), B * (ibucket + n))"
  using assms(3,4)
proof (induction n arbitrary: ibucket destination)
  case 0
  then show ?case by simp
next
  case (Suc n)
  have size: "push_bit (ba_bucket_shift a) (ba_element_size a) = B" by (simp add: shift_mask_nat B_def)
  let ?F = "concat (ba_bucket a)"
  have "ibucket < ba_bucket_count a" "0 + B \<le> B" using Suc.prems by simp_all
  from bucket_load_flat [OF assms(2) this [unfolded B_def]]
  have ld: "bucket_load a ibucket 0 B = Some (take B (drop (B * ibucket) ?F))" by (simp add: B_def)
  have "B * (ibucket + 1) \<le> B * ba_bucket_count a" using Suc.prems(1) by (intro mult_le_mono2) simp
  then have lx: "length (take B (drop (B * ibucket) ?F)) = B" using length_ba_concat [OF assms(2)] by (simp add: B_def [symmetric] distrib_left)
  let ?d = "overwrite destination (B * ibucket) (take B (drop (B * ibucket) ?F))"
  have fits: "B * ibucket + length (take B (drop (B * ibucket) ?F)) \<le> length destination"
    unfolding lx using Suc.prems(2) by (simp add: distrib_left)
  have st: "mem_store destination (B * ibucket) (take B (drop (B * ibucket) ?F)) = Some ?d"
    using fits unfolding mem_store_def by simp
  have ld': "length ?d = length destination" using fits by simp
  have "ibucket + 1 + n \<le> ba_bucket_count a" "B * (ibucket + 1 + n) \<le> length ?d" unfolding ld' using Suc.prems by simp_all
  note IH = Suc.IH [OF this]
  have "B * ibucket \<le> length destination" using Suc.prems(2) by (simp add: distrib_left)
  from overwrite_append [OF this, of "take B (drop (B * ibucket) ?F)" "take (B * n) (drop (B * (ibucket + 1)) ?F)"]
  have "overwrite ?d (B * (ibucket + 1)) (take (B * n) (drop (B * (ibucket + 1)) ?F)) =
      overwrite destination (B * ibucket) (take (B * Suc n) (drop (B * ibucket) ?F))"
    unfolding lx by (simp add: take_add distrib_left add.commute)
  then show ?case using IH ld st by (simp add: size Let_def distrib_left add.commute)
qed

lemma bucketarray_copy_spec:
  assumes "ba_inv a" and "length (ba_bytes a) \<le> length destination"
  shows "bucketarray_copy a destination = Some (overwrite destination 0 (ba_bytes a))"
proof -
  let ?k = "ba_bucket_shift a" and ?e = "ba_element_size a" and ?c = "ba_count a" and ?F = "concat (ba_bucket a)"
  let ?B = "?e * 2 ^ ?k" and ?n = "?c div 2 ^ ?k" and ?m = "?c mod 2 ^ ?k"
  have pos: "?B * ?n + ?e * ?m = ?e * ?c" by (rule ba_position)
  have "?c \<le> ba_bucket_count a * 2 ^ ?k" using assms(1) by (auto simp: ba_inv_def)
  then have nb: "?n \<le> ba_bucket_count a" by (metis div_le_mono div_mult_self_is_m zero_less_numeral zero_less_power)
  have room: "?e * ?c \<le> length destination" using assms(2) length_ba_bytes [OF assms(1)] by simp
  have "0 + ?n \<le> ba_bucket_count a" "?B * (0 + ?n) \<le> length destination" using nb room pos by auto
  from copy_buckets_spec [OF assms(1) this]
  have cb: "copy_buckets a 0 ?n destination 0 = Some (overwrite destination 0 (take (?B * ?n) ?F), ?B * ?n)" by simp
  show ?thesis
  proof (cases "?m = 0")
    case True
    then have "?B * ?n = ?e * ?c" using pos by (simp only: mult_0_right add_0_right)
    then have "ba_bytes a = take (?B * ?n) ?F" by (simp only: ba_bytes_def)
    then show ?thesis using cb True by (simp add: bucketarray_copy_def shift_mask_nat(2) ba_mask [OF assms(1)])
  next
    case False
    then have "?n < ba_bucket_count a"
      using \<open>?c \<le> ba_bucket_count a * 2 ^ ?k\<close> by (intro less_mult_imp_div_less) (metis le_neq_implies_less mod_mult_self2_is_0)
    moreover have "0 + ?e * ?m \<le> ?B" by (simp add: less_imp_le)
    ultimately have ld: "bucket_load a ?n 0 (?e * ?m) = Some (take (?e * ?m) (drop (?B * ?n) ?F))"
      using bucket_load_flat [OF assms(1)] by simp
    have lf: "?B * ?n + ?e * ?m \<le> length ?F" unfolding pos by (rule count_fits [OF assms(1)])
    let ?d = "overwrite destination 0 (take (?B * ?n) ?F)"
    have lt: "length (take (?B * ?n) ?F) = ?B * ?n" using lf by simp
    have ldst: "length ?d = length destination" using room pos lt by (intro length_overwrite) linarith
    have "mem_store ?d (?B * ?n) (take (?e * ?m) (drop (?B * ?n) ?F)) = Some (overwrite ?d (?B * ?n) (take (?e * ?m) (drop (?B * ?n) ?F)))"
      using lf room pos unfolding mem_store_def ldst by simp
    moreover have "overwrite ?d (?B * ?n) (take (?e * ?m) (drop (?B * ?n) ?F)) = overwrite destination 0 (ba_bytes a)"
      using overwrite_append [of 0 destination "take (?B * ?n) ?F" "take (?e * ?m) (drop (?B * ?n) ?F)"] lt pos
      by (simp add: ba_bytes_def flip: take_add)
    ultimately show ?thesis using cb ld False by (simp add: bucketarray_copy_def shift_mask_nat(2) ba_mask [OF assms(1)])
  qed
qed

lemma copied_buckets_spec:
  fixes ibucket n r :: nat and a :: bucketarray_t
  defines "B \<equiv> ba_element_size a * 2 ^ ba_bucket_shift a"
  assumes inv: "ba_inv a" and fresh: "\<And>i n. length (fresh i n) = n"
    and "ibucket + n \<le> ba_bucket_count a" and "r \<le> n * 2 ^ ba_bucket_shift a"
  shows "\<exists>bs. copied_buckets fresh a ibucket n r = Some bs \<and> length bs = n \<and> (\<forall>b\<in>set bs. length b = B) \<and>
    take (ba_element_size a * r) (concat bs) = take (ba_element_size a * r) (drop (B * ibucket) (concat (ba_bucket a)))"
  using assms(4,5)
proof (induction n arbitrary: ibucket r)
  case 0
  then show ?case by simp
next
  case (Suc n)
  let ?k = "ba_bucket_shift a" and ?e = "ba_element_size a" and ?F = "concat (ba_bucket a)"
  define t where "t = (if r > 2 ^ ?k then 2 ^ ?k else r)"
  have t: "t \<le> r" "t \<le> 2 ^ ?k" "r - t \<le> n * 2 ^ ?k" using Suc.prems(2) by (auto simp: t_def)
  have size: "push_bit ?k ?e = B" by (simp add: shift_mask_nat B_def)
  have "ibucket < ba_bucket_count a" "0 + ?e * t \<le> ?e * 2 ^ ?k" using Suc.prems(1) t(2) by simp_all
  from bucket_load_flat [OF inv this]
  have ld: "bucket_load a ibucket 0 (?e * t) = Some (take (?e * t) (drop (B * ibucket) ?F))" by (simp add: B_def)
  have "B * (ibucket + 1) \<le> B * ba_bucket_count a" using Suc.prems(1) by (intro mult_le_mono2) simp
  then have lF: "B * ibucket + B \<le> length ?F" using length_ba_concat [OF inv] by (simp add: B_def [symmetric] distrib_left)
  have etB: "?e * t \<le> B" using t(2) by (simp add: B_def)
  have lx: "length (take (?e * t) (drop (B * ibucket) ?F)) = ?e * t" using lF etB by simp
  define b where "b = (if r \<noteq> 0 then overwrite (fresh ibucket B) 0 (take (?e * t) (drop (B * ibucket) ?F)) else fresh ibucket B)"
  have b: "length b = B" "take (?e * t) b = take (?e * t) (drop (B * ibucket) ?F)"
  proof -
    have "0 + length (take (?e * t) (drop (B * ibucket) ?F)) \<le> length (fresh ibucket B)" unfolding lx fresh using etB by simp
    then show "length b = B" unfolding b_def using fresh by (simp del: length_take)
    show "take (?e * t) b = take (?e * t) (drop (B * ibucket) ?F)"
      using t(1) lx by (cases "r = 0") (simp_all add: b_def overwrite_def)
  qed
  have bucket: "(if r \<noteq> 0 then do { bytes \<leftarrow> bucket_load a ibucket 0 (?e * t); mem_store (fresh ibucket B) 0 bytes } else Some (fresh ibucket B)) = Some b"
    using ld lx etB fresh by (simp add: b_def mem_store_def)
  have "ibucket + 1 + n \<le> ba_bucket_count a" using Suc.prems(1) by simp
  from Suc.IH [OF this t(3)] obtain bs where bs: "copied_buckets fresh a (ibucket + 1) n (r - t) = Some bs" "length bs = n"
    "\<forall>b\<in>set bs. length b = B" "take (?e * (r - t)) (concat bs) = take (?e * (r - t)) (drop (B * (ibucket + 1)) ?F)" by blast
  have run: "copied_buckets fresh a ibucket (Suc n) r = Some (b # bs)"
    unfolding copied_buckets.simps Let_def size t_def [symmetric] bucket using bs(1) by simp
  have "take (?e * r) (b @ concat bs) = take (?e * r) (drop (B * ibucket) ?F)"
  proof (cases "r > 2 ^ ?k")
    case True
    then have eq: "t = 2 ^ ?k" "?e * t = B" by (simp_all add: t_def B_def)
    have whole: "?e * r = B + ?e * (r - t)" using t(1) unfolding eq(2) [symmetric] by (simp flip: distrib_left)
    have "b = take B (drop (B * ibucket) ?F)" using b unfolding eq(2) by simp
    then show ?thesis unfolding whole using b(1) bs(4) by (simp add: take_add distrib_left add.commute)
  next
    case False
    then have "t = r" by (simp add: t_def)
    then show ?thesis using b etB by simp
  qed
  then show ?case using run bs(2,3) b(1) by simp
qed

lemma initialize_copy_spec:
  assumes "ba_inv a" and fresh: "\<And>i n. length (fresh i n) = n"
  shows "\<exists>c. bucketarray_initialize_copy fresh a = Some c \<and> ba_inv c \<and> same_shape a c \<and> ba_bytes c = ba_bytes a"
proof -
  have r: "0 + ba_bucket_count a \<le> ba_bucket_count a" "ba_count a \<le> ba_bucket_count a * 2 ^ ba_bucket_shift a" using assms(1) by (auto simp: ba_inv_def)
  from copied_buckets_spec [where fresh = fresh, OF assms(1) fresh r] obtain bs where
    bs: "copied_buckets fresh a 0 (ba_bucket_count a) (ba_count a) = Some bs" "length bs = ba_bucket_count a"
      "\<forall>b\<in>set bs. length b = ba_element_size a * 2 ^ ba_bucket_shift a"
      "take (ba_element_size a * ba_count a) (concat bs) = take (ba_element_size a * ba_count a) (concat (ba_bucket a))" by auto
  then show ?thesis using assms(1) by (auto simp: bucketarray_initialize_copy_def ba_inv_def same_shape_def ba_bytes_def)
qed

lemma bucket_shift_for_spec:
  "shift \<le> 63 \<Longrightarrow> n \<le> 2 ^ 63 \<Longrightarrow> \<exists>r. bucket_shift_for shift (2 ^ shift) n = Some r \<and> shift \<le> r \<and> r \<le> 63 \<and> n \<le> 2 ^ r"
proof (induction "63 - shift" arbitrary: shift)
  case 0
  then show ?case by (subst bucket_shift_for.simps) simp
next
  case (Suc k)
  show ?case
  proof (cases "2 ^ shift < n")
    case True
    have "(2 :: nat) ^ Suc shift \<le> 2 ^ 63" using Suc.hyps(2) by (intro power_increasing) simp_all
    then have "2 * 2 ^ shift mod SIZE_MOD = 2 ^ Suc shift" by (simp add: SIZE_MOD_def)
    moreover have "\<exists>r. bucket_shift_for (Suc shift) (2 ^ Suc shift) n = Some r \<and> Suc shift \<le> r \<and> r \<le> 63 \<and> n \<le> 2 ^ r"
      by (rule Suc.hyps(1)) (use Suc.hyps(2) Suc.prems in auto)
    ultimately show ?thesis using True by (subst bucket_shift_for.simps) auto
  qed (use Suc.prems in \<open>subst bucket_shift_for.simps, simp\<close>)
qed

lemma double_wraps:
  assumes "p = 0 \<or> (\<exists>k \<le> 63. p = 2 ^ k)"
  shows "2 * p mod SIZE_MOD = 0 \<or> (\<exists>k \<le> 63. 2 * p mod SIZE_MOD = 2 ^ k)"
proof (cases "p = 0 \<or> p = 2 ^ 63")
  case True
  then show ?thesis by (auto simp: SIZE_MOD_def)
next
  case False
  then obtain k where k: "k \<le> 63" "p = 2 ^ k" using assms by auto
  then have "k \<noteq> 63" using False by auto
  with k have k: "k < 63" "p = 2 ^ k" by simp_all
  then have "(2 :: nat) ^ Suc k \<le> 2 ^ 63" by (intro power_increasing) simp_all
  then have "2 * p mod SIZE_MOD = 2 ^ Suc k" using k(2) by (simp add: SIZE_MOD_def)
  then show ?thesis using k by (intro disjI2 exI [of _ "Suc k"]) simp
qed

lemma bucket_shift_for_diverges:
  assumes "2 ^ 63 < n"
  shows "bucket_shift_for 4 (2 ^ 4) n = None"
proof -
  have "m = n \<longrightarrow> \<not> (p = 0 \<or> (\<exists>k \<le> 63. p = 2 ^ k))" if "bucket_shift_for shift p m = Some r" for shift p m r
  proof (rule bucket_shift_for.raw_induct [OF _ that])
    fix f shift p m r
    assume IH: "\<And>shift p m r. f shift p m = Some r \<Longrightarrow> m = n \<longrightarrow> \<not> (p = 0 \<or> (\<exists>k \<le> 63. p = 2 ^ k))"
      and step: "(if p < m then f (shift + 1) (2 * p mod SIZE_MOD) m else Some shift) = Some r"
    show "m = n \<longrightarrow> \<not> (p = 0 \<or> (\<exists>k \<le> 63. p = 2 ^ k))"
    proof (intro impI notI)
      assume m: "m = n" and p: "p = 0 \<or> (\<exists>k \<le> 63. p = 2 ^ k)"
      have "(2 :: nat) ^ k \<le> 2 ^ 63" if "k \<le> 63" for k using that by (intro power_increasing) simp_all
      then have "p < m" using p m assms by (auto intro: le_less_trans)
      then show False using step IH [of "shift + 1" "2 * p mod SIZE_MOD" m r] m double_wraps [OF p] by simp
    qed
  qed
  moreover have "\<exists>k \<le> 63. (2 :: nat) ^ 4 = 2 ^ k" by (rule exI [of _ 4]) simp
  ultimately show ?thesis by (cases "bucket_shift_for 4 (2 ^ 4) n") blast+
qed

lemma initialize_ba:
  "n \<le> 2 ^ 63 \<Longrightarrow> \<exists>a. bucketarray_initialize e n = Some a \<and> ba_inv a \<and> ba_bytes a = [] \<and> ba_element_size a = e"
  "2 ^ 63 < n \<Longrightarrow> bucketarray_initialize e n = None"
proof -
  show "\<exists>a. bucketarray_initialize e n = Some a \<and> ba_inv a \<and> ba_bytes a = [] \<and> ba_element_size a = e" if "n \<le> 2 ^ 63"
    using bucket_shift_for_spec [of 4 n] that by (auto simp: bucketarray_initialize_def ba_inv_def ba_bytes_def)
  show "bucketarray_initialize e n = None" if "2 ^ 63 < n"
    using bucket_shift_for_diverges [OF that] by (simp add: bucketarray_initialize_def)
qed

section \<open>Filling\<close>

text \<open>
  The offsets given to \<open>memset\<close> are indices of elements, not of bytes: they are right for elements of one byte, and at
  the start of a bucket.
\<close>

lemma bucket_fill_flat:
  fixes idx index m :: nat
  assumes "ba_inv a" and "idx < ba_bucket_count a" and "index + m \<le> 2 ^ ba_bucket_shift a" and "ba_element_size a = 1 \<or> index = 0"
  shows "\<exists>a'. bucket_fill a idx index fill (m * ba_element_size a) = Some a' \<and> ba_inv a' \<and> same_shape a a' \<and> ba_count a' = ba_count a \<and>
    ba_bucket_count a' = ba_bucket_count a \<and> concat (ba_bucket a') =
      overwrite (concat (ba_bucket a)) (ba_element_size a * (idx * 2 ^ ba_bucket_shift a + index)) (replicate (ba_element_size a * m) fill)"
proof -
  have i: "ba_element_size a * index = index" using assms(4) by auto
  have "ba_element_size a * (index + m) \<le> ba_element_size a * 2 ^ ba_bucket_shift a" using assms(3) by (rule mult_le_mono2)
  then have "index + length (replicate (m * ba_element_size a) fill) \<le> ba_element_size a * 2 ^ ba_bucket_shift a"
    using assms(4) by (auto simp: distrib_left mult.commute)
  from bucket_store_flat [OF assms(1,2) this] show ?thesis
    using i by (auto simp: bucket_fill_def distrib_left mult.commute mult.left_commute)
qed

lemma fill_buckets_spec:
  fixes idx index n :: nat
  assumes "ba_inv a" and "idx + n \<le> ba_bucket_count a" and "index < 2 ^ ba_bucket_shift a" and "ba_element_size a = 1 \<or> index = 0"
  shows "\<exists>a' i'. fill_buckets a idx index n fill = Some (a', i') \<and> ba_inv a' \<and> same_shape a a' \<and> ba_count a' = ba_count a \<and>
    ba_bucket_count a' = ba_bucket_count a \<and> i' = (if n = 0 then index else 0) \<and>
    concat (ba_bucket a') = overwrite (concat (ba_bucket a)) (ba_element_size a * (idx * 2 ^ ba_bucket_shift a + index))
      (replicate (ba_element_size a * (n * 2 ^ ba_bucket_shift a - (if n = 0 then 0 else index))) fill)"
  using assms
proof (induction n arbitrary: a idx index)
  case 0
  then show ?case by (simp add: same_shape_def)
next
  case (Suc n)
  let ?e = "ba_element_size a" and ?N = "2 ^ ba_bucket_shift a :: nat"
  have pre: "idx < ba_bucket_count a" "index + (?N - index) \<le> ?N" using Suc.prems by auto
  from bucket_fill_flat [OF Suc.prems(1) pre Suc.prems(4), of fill] obtain c where
    c: "bucket_fill a idx index fill ((?N - index) * ?e) = Some c" "ba_inv c" "same_shape a c" "ba_count c = ba_count a"
      "ba_bucket_count c = ba_bucket_count a" "concat (ba_bucket c) = overwrite (concat (ba_bucket a)) (?e * (idx * ?N + index)) (replicate (?e * (?N - index)) fill)"
    by blast
  have s: "ba_element_size c = ?e" "ba_bucket_shift c = ba_bucket_shift a" using c(3) by (auto simp: same_shape_def)
  have "idx + 1 + n \<le> ba_bucket_count c" "0 < (2 :: nat) ^ ba_bucket_shift c" "ba_element_size c = 1 \<or> (0 :: nat) = 0" using Suc.prems(2) c(5) by auto
  from Suc.IH [OF c(2) this] obtain a' i' where
    a': "fill_buckets c (idx + 1) 0 n fill = Some (a', i')" "ba_inv a'" "same_shape c a'" "ba_count a' = ba_count c" "ba_bucket_count a' = ba_bucket_count c"
      "i' = 0" "concat (ba_bucket a') = overwrite (concat (ba_bucket c)) (?e * ((idx + 1) * ?N)) (replicate (?e * (n * ?N)) fill)"
    unfolding s by auto
  have "(idx + 1) * ?N \<le> ba_bucket_count a * ?N" using pre(1) by (intro mult_le_mono1) simp
  then have "idx * ?N + index \<le> ba_bucket_count a * ?N" using Suc.prems(3) by simp
  then have le: "?e * (idx * ?N + index) \<le> length (concat (ba_bucket a))"
    unfolding length_ba_concat [OF Suc.prems(1)] by (metis mult.assoc mult.commute mult_le_mono2)
  have "?e * (idx * ?N + index) + length (replicate (?e * (?N - index)) fill) = ?e * ((idx + 1) * ?N)"
  proof -
    have "idx * ?N + index + (?N - index) = (idx + 1) * ?N" using Suc.prems(3) by simp
    then show ?thesis by (simp only: length_replicate flip: distrib_left)
  qed
  moreover have "replicate (?e * (?N - index)) fill @ replicate (?e * (n * ?N)) fill = replicate (?e * (Suc n * ?N - index)) fill"
  proof -
    have "?N - index + n * ?N = Suc n * ?N - index" using Suc.prems(3) by simp
    then show ?thesis by (simp only: flip: replicate_add distrib_left)
  qed
  ultimately have "concat (ba_bucket a') = overwrite (concat (ba_bucket a)) (?e * (idx * ?N + index)) (replicate (?e * (Suc n * ?N - index)) fill)"
    unfolding a'(7) c(6) using overwrite_append [OF le, of "replicate (?e * (?N - index)) fill" "replicate (?e * (n * ?N)) fill"] by simp
  then show ?case using c a'(1-6) by (auto simp: same_shape_def)
qed

lemma resize_fill_spec:
  fixes n :: nat
  assumes "ba_inv a" and fresh: "\<And>i n. length (fresh i n) = n" and "ba_count a < n"
    and "ba_element_size a = 1 \<or> ba_count a mod 2 ^ ba_bucket_shift a = 0"
  shows "\<exists>a'. bucketarray_resize_fill fresh a n fill = Some a' \<and> ba_inv a' \<and> same_shape a a' \<and>
    ba_bytes a' = ba_bytes a @ replicate (ba_element_size a * (n - ba_count a)) fill"
proof -
  let ?e = "ba_element_size a" and ?N = "2 ^ ba_bucket_shift a :: nat" and ?c = "ba_count a"
  define d where "d = bucketarray_reserve fresh a n"
  note r = reserve_spec [where fresh = fresh and n = n, OF assms(1) fresh, folded d_def]
  have s: "ba_element_size d = ?e" "ba_bucket_shift d = ba_bucket_shift a" "ba_bucket_mask d = ba_bucket_mask a" using r(2) by (auto simp: same_shape_def)
  let ?s = "?c div ?N" and ?t = "n div ?N"
  have st: "?s \<le> ?t" using assms(3) by (simp add: div_le_mono)
  have "?t \<le> ba_bucket_count d" using r(4) by (metis div_le_mono div_mult_self_is_m zero_less_numeral zero_less_power)
  then have pre: "?s + (?t - ?s) \<le> ba_bucket_count d" "?c mod ?N < 2 ^ ba_bucket_shift d" "ba_element_size d = 1 \<or> ?c mod ?N = 0"
    using st assms(4) s by auto
  from fill_buckets_spec [OF r(1) pre, of fill] obtain b i where
    b: "fill_buckets d ?s (?c mod ?N) (?t - ?s) fill = Some (b, i)" "ba_inv b" "same_shape d b" "ba_count b = ?c" "ba_bucket_count b = ba_bucket_count d"
      "i = (if ?t - ?s = 0 then ?c mod ?N else 0)" "concat (ba_bucket b) = overwrite (concat (ba_bucket d)) (?e * (?s * ?N + ?c mod ?N))
      (replicate (?e * ((?t - ?s) * ?N - (if ?t - ?s = 0 then 0 else ?c mod ?N))) fill)"
    using r(3) unfolding s by auto
  have sb: "ba_element_size b = ?e" "ba_bucket_shift b = ba_bucket_shift a" using b(3) s by (auto simp: same_shape_def)
  have cN: "?s * ?N + ?c mod ?N = ?c" and nN: "?t * ?N + n mod ?N = n" by (simp_all add: div_mult_mod_eq)
  have upto: "?c + ((?t - ?s) * ?N - (if ?t - ?s = 0 then 0 else ?c mod ?N)) = ?t * ?N + i" (is "?c + ?m = _")
  proof (cases "?t = ?s")
    case True
    then show ?thesis using b(6) cN by simp
  next
    case False
    then have "?N \<le> (?t - ?s) * ?N" "?s * ?N + (?t - ?s) * ?N = ?t * ?N" using st by (auto simp flip: distrib_right)
    moreover have "?c mod ?N < ?N" by simp
    moreover have "i = 0" "(if ?t - ?s = 0 then 0 else ?c mod ?N) = ?c mod ?N" using False st b(6) by simp_all
    ultimately show ?thesis using cN by linarith
  qed
  have flat: "concat (ba_bucket b) = overwrite (concat (ba_bucket d)) (?e * ?c) (replicate (?e * ?m) fill)" using b(7) unfolding cN by simp
  have ec: "?e * ?c \<le> length (concat (ba_bucket d))" using count_fits [OF r(1)] r(3) s by simp
  obtain g where g: "(if i < n mod ?N then bucket_fill b ?t i fill ((n mod ?N - i) * ?e) else Some b) = Some g" "ba_inv g" "same_shape b g"
      "ba_bucket_count g = ba_bucket_count b" "concat (ba_bucket g) = overwrite (concat (ba_bucket d)) (?e * ?c) (replicate (?e * (n - ?c)) fill)"
  proof (cases "i < n mod ?N")
    case True
    have "?t < ba_bucket_count b"
      using True nN r(4) b(5) by (intro less_mult_imp_div_less) (metis le_neq_implies_less mod_mult_self2_is_0 not_less_zero)
    moreover have "i + (n mod ?N - i) \<le> 2 ^ ba_bucket_shift b" using True sb by (simp add: less_imp_le)
    moreover have "ba_element_size b = 1 \<or> i = 0" using assms(4) sb b(6) by auto
    ultimately obtain h where h: "bucket_fill b ?t i fill ((n mod ?N - i) * ?e) = Some h" "ba_inv h" "same_shape b h"
        "ba_bucket_count h = ba_bucket_count b" "concat (ba_bucket h) = overwrite (concat (ba_bucket b)) (?e * (?t * ?N + i)) (replicate (?e * (n mod ?N - i)) fill)"
      using bucket_fill_flat [OF b(2), of ?t i "n mod ?N - i" fill] unfolding sb by blast
    have "?m + (n mod ?N - i) = n - ?c" using upto nN True by linarith
    then have "replicate (?e * ?m) fill @ replicate (?e * (n mod ?N - i)) fill = replicate (?e * (n - ?c)) fill"
      by (simp only: flip: replicate_add distrib_left)
    moreover have "?e * ?c + length (replicate (?e * ?m) fill) = ?e * (?t * ?N + i)" unfolding upto [symmetric] by (simp only: length_replicate distrib_left)
    ultimately have "concat (ba_bucket h) = overwrite (concat (ba_bucket d)) (?e * ?c) (replicate (?e * (n - ?c)) fill)"
      using h(5) flat overwrite_append [OF ec, of "replicate (?e * ?m) fill" "replicate (?e * (n mod ?N - i)) fill"] by metis
    then show thesis using True h by (intro that [of h]) simp_all
  next
    case False
    have "?c < ?t * ?N + n mod ?N" using assms(3) nN by simp
    then have "i = n mod ?N" using False upto b(6) by (auto split: if_splits)
    then have "?m = n - ?c" using upto nN by linarith
    then show thesis using False b(2) flat by (intro that [of b]) (simp_all add: same_shape_def)
  qed
  have fit: "?e * ?c + length (replicate (?e * (n - ?c)) fill) \<le> length (concat (ba_bucket d))"
  proof -
    have "?e * n \<le> ?e * (ba_bucket_count d * ?N)" using r(4) by (rule mult_le_mono2)
    then have "?e * n \<le> length (concat (ba_bucket d))" unfolding length_ba_concat [OF r(1)] s by (simp add: mult.commute mult.left_commute)
    then show ?thesis using assms(3) by (simp flip: distrib_left)
  qed
  let ?g = "g\<lparr>ba_count := n\<rparr>"
  have inv: "ba_inv ?g" using g(2-4) b(5) r(4) sb by (auto simp: ba_inv_def same_shape_def)
  have "ba_bytes ?g = take (?e * ?c + length (replicate (?e * (n - ?c)) fill)) (concat (ba_bucket g))"
    using g(3) sb assms(3) by (simp add: ba_bytes_def same_shape_def flip: distrib_left)
  also have "\<dots> = take (?e * ?c) (concat (ba_bucket d)) @ replicate (?e * (n - ?c)) fill"
    unfolding g(5) by (rule take_overwrite_upto [OF fit])
  also have "take (?e * ?c) (concat (ba_bucket d)) = ba_bytes a"
    using reserve_bytes [where fresh = fresh and n = n, OF assms(1) fresh] r(3) s by (simp add: ba_bytes_def d_def)
  finally have bytes: "ba_bytes ?g = ba_bytes a @ replicate (?e * (n - ?c)) fill" .
  have mask: "m AND ba_bucket_mask a = m mod ?N" "m AND ba_bucket_mask b = m mod ?N" for m
    using ba_mask [OF assms(1)] ba_mask [OF b(2)] sb by simp_all
  have "bucketarray_resize_fill fresh a n fill = Some ?g"
    using b(1) g(1) assms(3) r(3) s sb
    by (auto simp: bucketarray_resize_fill_def d_def [symmetric] shift_mask_nat(2) mask Let_def split: if_splits)
  then show ?thesis using inv bytes g(3) b(3) r(2) by (auto simp: same_shape_def)
qed

section \<open>The array as a sequence\<close>

text \<open>
  C39. A bucket array is the sequence of the bytes of its elements, whatever the size of its buckets: a new one is
  empty (it is made for up to \<open>2 ^ 63\<close> elements in a bucket; beyond, the initialization does not end), pushing adds an element at the end, an element is read at its index, erasing moves the last element into the
  gap, another array is appended across the boundaries of the buckets of both, and copies hold the same
  sequence. All of these stay within the buckets and keep the array well formed.
\<close>

theorem bucketarray_refines_sequence:
  assumes "ba_inv a" and "ba_inv b" and "ba_element_size b = ba_element_size a" and "\<And>i n. length (fresh i n) = n"
    and "length element = ba_element_size a" and "ba_count a < SIZE_MOD" and "length (ba_bytes a) \<le> length destination"
  shows "(n \<le> 2 ^ 63 \<longrightarrow>
        (\<exists>a0. bucketarray_initialize e n = Some a0 \<and> ba_inv a0 \<and> ba_bytes a0 = [] \<and> ba_element_size a0 = e))
    \<and> (2 ^ 63 < n \<longrightarrow> bucketarray_initialize e n = None)
    \<and> (\<exists>a'. bucketarray_push fresh a element = Some a' \<and> ba_inv a' \<and> ba_bytes a' = ba_bytes a @ element)
    \<and> (\<forall>i < ba_count a. bucketarray_get a i = Some (take (ba_element_size a) (drop (ba_element_size a * i) (ba_bytes a))))
    \<and> (\<forall>i < ba_count a. \<exists>a'. bucketarray_erase a i = Some a' \<and> ba_inv a' \<and> ba_bytes a' =
          take (ba_element_size a * (ba_count a - 1)) (overwrite (ba_bytes a) (ba_element_size a * i) (drop (ba_element_size a * (ba_count a - 1)) (ba_bytes a))))
    \<and> (\<exists>a'. bucketarray_append fresh a b = Some a' \<and> ba_inv a' \<and> ba_bytes a' = ba_bytes a @ ba_bytes b)
    \<and> bucketarray_copy a destination = Some (overwrite destination 0 (ba_bytes a))
    \<and> (\<exists>c. bucketarray_initialize_copy fresh a = Some c \<and> ba_inv c \<and> ba_bytes c = ba_bytes a)"
proof (intro conjI allI impI)
  note fresh = assms(4)
  show "\<exists>a0. bucketarray_initialize e n = Some a0 \<and> ba_inv a0 \<and> ba_bytes a0 = [] \<and> ba_element_size a0 = e" if "n \<le> 2 ^ 63"
    by (rule initialize_ba(1) [OF that])
  show "bucketarray_initialize e n = None" if "2 ^ 63 < n" by (rule initialize_ba(2) [OF that])
  show "\<exists>a'. bucketarray_push fresh a element = Some a' \<and> ba_inv a' \<and> ba_bytes a' = ba_bytes a @ element"
    using push_spec [where fresh = fresh, OF assms(1) fresh assms(5)] by blast
  show "bucketarray_get a i = Some (take (ba_element_size a) (drop (ba_element_size a * i) (ba_bytes a)))" if "i < ba_count a" for i
    by (rule get_spec(2) [OF assms(1) that])
  show "\<exists>a'. bucketarray_erase a i = Some a' \<and> ba_inv a' \<and> ba_bytes a' =
      take (ba_element_size a * (ba_count a - 1)) (overwrite (ba_bytes a) (ba_element_size a * i) (drop (ba_element_size a * (ba_count a - 1)) (ba_bytes a)))"
    if "i < ba_count a" for i
    using erase_spec [OF assms(1) that assms(6)] by blast
  show "\<exists>a'. bucketarray_append fresh a b = Some a' \<and> ba_inv a' \<and> ba_bytes a' = ba_bytes a @ ba_bytes b"
    using append_spec [where fresh = fresh, OF assms(1-3) fresh] by blast
  show "bucketarray_copy a destination = Some (overwrite destination 0 (ba_bytes a))" by (rule bucketarray_copy_spec [OF assms(1,7)])
  show "\<exists>c. bucketarray_initialize_copy fresh a = Some c \<and> ba_inv c \<and> ba_bytes c = ba_bytes a"
    using initialize_copy_spec [where fresh = fresh, OF assms(1) fresh] by blast
qed

definition example_bucket_array :: bucketarray_t where
  "example_bucket_array = \<lparr>ba_bucket = [[1, 2] @ replicate 30 0], ba_element_size = 2, ba_bucket_mask = 15, ba_bucket_shift = 4,
     ba_bucket_count = 1, ba_count = 1\<rparr>"

lemma example_bucket_array_inv: "ba_inv example_bucket_array" "ba_bytes example_bucket_array = [1, 2]"
  by (simp_all add: ba_inv_def ba_bytes_def example_bucket_array_def numeral_eq_Suc)

theorem bucketarray_refines_sequence_witness:
  "\<exists>a. bucketarray_push (\<lambda>i n. replicate n 0) example_bucket_array [3, 4] = Some a \<and> ba_bytes a = [1, 2, 3, 4]"
proof -
  note ex = example_bucket_array_inv
  have p: "length (replicate n (0 :: byte)) = n" "length [3, 4 :: byte] = ba_element_size example_bucket_array"
    "ba_count example_bucket_array < SIZE_MOD" "length (ba_bytes example_bucket_array) \<le> length [0, 0 :: byte]" for n
    using ex(2) by (simp_all add: example_bucket_array_def SIZE_MOD_def)
  show ?thesis
    using bucketarray_refines_sequence [where fresh = "\<lambda>i n. replicate n 0" and e = 2 and n = 16, OF ex(1) ex(1) refl p,
        THEN conjunct2, THEN conjunct2, THEN conjunct1] ex(2) by auto
qed

text \<open>
  Growing an array with a fill value keeps its elements and fills the new ones when the elements have one
  byte or the array ends at the boundary of a bucket. An example where it does not: growing an array of one element
  of two bytes, \<open>1\<close> and \<open>2\<close>, to two elements filled with \<open>9\<close> overwrites a byte of the first element and
  leaves one of the second unset.
\<close>

lemma bucketarray_resize_fill_partial:
  assumes "ba_inv a" and "\<And>i n. length (fresh i n) = n" and "ba_count a < n"
  shows "(ba_element_size a = 1 \<or> ba_count a mod 2 ^ ba_bucket_shift a = 0 \<longrightarrow>
      (\<exists>a'. bucketarray_resize_fill fresh a n fill = Some a' \<and> ba_inv a' \<and>
         ba_bytes a' = ba_bytes a @ replicate (ba_element_size a * (n - ba_count a)) fill))
    \<and> (\<exists>a'. bucketarray_resize_fill fresh example_bucket_array 2 9 = Some a' \<and> ba_bytes a' = [1, 9, 9, 0])"
proof (intro conjI impI)
  show "\<exists>a'. bucketarray_resize_fill fresh a n fill = Some a' \<and> ba_inv a' \<and>
      ba_bytes a' = ba_bytes a @ replicate (ba_element_size a * (n - ba_count a)) fill"
    if "ba_element_size a = 1 \<or> ba_count a mod 2 ^ ba_bucket_shift a = 0"
    using resize_fill_spec [where fresh = fresh, OF assms that] by blast
  have "bucketarray_reserve fresh example_bucket_array 2 = example_bucket_array"
    by (simp add: bucketarray_reserve_def example_bucket_array_def push_bit_eq_mult)
  moreover have "bucket_fill example_bucket_array 0 1 9 2 = Some (example_bucket_array\<lparr>ba_bucket := [[1, 9, 9] @ replicate 29 0]\<rparr>)"
    by (simp add: bucket_fill_def bucket_store_def mem_get_def mem_store_def overwrite_def example_bucket_array_def numeral_eq_Suc)
  ultimately have "bucketarray_resize_fill fresh example_bucket_array 2 9 =
      Some (example_bucket_array\<lparr>ba_bucket := [[1, 9, 9] @ replicate 29 0], ba_count := 2\<rparr>)"
    by (simp add: bucketarray_resize_fill_def example_bucket_array_def drop_bit_eq_div)
  then show "\<exists>a'. bucketarray_resize_fill fresh example_bucket_array 2 9 = Some a' \<and> ba_bytes a' = [1, 9, 9, 0]"
    by (simp add: ba_bytes_def example_bucket_array_def numeral_eq_Suc)
qed

end
