(* ===== verification/Regex.thy ===== *)
theory Regex
  imports String_Search
begin

text \<open>
  \<open>foundation/regex.c\<close>: the compiler from patterns to a byte code, and the backtracking matcher that
  runs it.

  Neither has to end, so both are partial functions: \<^const>\<open>None\<close> is a run that does not return,
  \<open>Some None\<close> an access outside of the pattern, the input or the code, and \<open>Some (Some r)\<close> the return of
  \<open>r\<close>. \<open>fresh\<close> gives the contents of newly allocated memory.
\<close>

section \<open>Runs that may not return\<close>

type_synonym 'a run = "'a option option"

definition then_run :: "'a run \<Rightarrow> ('a \<Rightarrow> 'b run) \<Rightarrow> 'b run" where
  "then_run m f = Option.bind m (\<lambda>r. case r of None \<Rightarrow> Some None | Some x \<Rightarrow> f x)"

abbreviation ret :: "'a \<Rightarrow> 'a run" where
  "ret x \<equiv> Some (Some x)"

lemma then_run_simps [simp]:
  "then_run None f = None" "then_run (Some None) f = Some None" "then_run (ret x) f = f x"
  by (simp_all add: then_run_def)

lemma then_run_mono [partial_function_mono]:
  assumes "mono_option B" "\<And>y. mono_option (\<lambda>f. C y f)"
  shows "mono_option (\<lambda>f. then_run (B f) (\<lambda>y. C y f))"
proof -
  have "mono_option (\<lambda>f. case r of None \<Rightarrow> Some None | Some x \<Rightarrow> C x f)" for r
    using assms(2) by (cases r) (auto simp: monotone_def fun_ord_def flat_ord_def)
  then show ?thesis unfolding then_run_def by (intro bind_mono assms(1))
qed

lemma case_prod_mono [partial_function_mono]:
  "(\<And>a b. mono_option (\<lambda>f. C a b f)) \<Longrightarrow> mono_option (\<lambda>f. case y of (a, b) \<Rightarrow> C a b f)"
  by (cases y) simp

section \<open>Constants\<close>

definition REGEXERR_OK :: size_t where "REGEXERR_OK = 0"
definition REGEXERR_TOO_LONG :: size_t where "REGEXERR_TOO_LONG = SIZE_MOD - 1"
definition REGEXERR_MISMATCHED_CAPTURES :: size_t where "REGEXERR_MISMATCHED_CAPTURES = SIZE_MOD - 2"
definition REGEXERR_MISMATCHED_BLOCKS :: size_t where "REGEXERR_MISMATCHED_BLOCKS = SIZE_MOD - 3"
definition REGEXERR_INVALID_QUANTIFIER :: size_t where "REGEXERR_INVALID_QUANTIFIER = SIZE_MOD - 4"
definition REGEXERR_BRANCH_FAILURE :: size_t where "REGEXERR_BRANCH_FAILURE = SIZE_MOD - 5"
definition REGEXERR_INTERNAL_FAILURE :: size_t where "REGEXERR_INTERNAL_FAILURE = SIZE_MOD - 6"

definition REGEXRES_INTERNAL_FAILURE :: size_t where "REGEXRES_INTERNAL_FAILURE = SIZE_MOD - 2"
definition REGEXRES_NOMATCH :: size_t where "REGEXRES_NOMATCH = SIZE_MOD - 1"
definition REGEXPARSE_NOBRANCH :: size_t where "REGEXPARSE_NOBRANCH = SIZE_MOD - 1"

definition REGEXCODE_NULL :: int where "REGEXCODE_NULL = 0"
definition REGEXCODE_WHITESPACE :: int where "REGEXCODE_WHITESPACE = 0x0100"
definition REGEXCODE_NONWHITESPACE :: int where "REGEXCODE_NONWHITESPACE = 0x0200"
definition REGEXCODE_DIGIT :: int where "REGEXCODE_DIGIT = 0x0300"
definition REGEXCODE_NONDIGIT :: int where "REGEXCODE_NONDIGIT = 0x0400"

definition REGEXOP_BEGIN_CAPTURE :: byte where "REGEXOP_BEGIN_CAPTURE = 0"
definition REGEXOP_END_CAPTURE :: byte where "REGEXOP_END_CAPTURE = 1"
definition REGEXOP_BEGINNING_OF_LINE :: byte where "REGEXOP_BEGINNING_OF_LINE = 2"
definition REGEXOP_END_OF_LINE :: byte where "REGEXOP_END_OF_LINE = 3"
definition REGEXOP_EXACT_MATCH :: byte where "REGEXOP_EXACT_MATCH = 4"
definition REGEXOP_META_MATCH :: byte where "REGEXOP_META_MATCH = 5"
definition REGEXOP_ANY :: byte where "REGEXOP_ANY = 6"
definition REGEXOP_ANY_OF :: byte where "REGEXOP_ANY_OF = 7"
definition REGEXOP_ANY_BUT :: byte where "REGEXOP_ANY_BUT = 8"
definition REGEXOP_ZERO_OR_MORE :: byte where "REGEXOP_ZERO_OR_MORE = 9"
definition REGEXOP_ONE_OR_MORE :: byte where "REGEXOP_ONE_OR_MORE = 10"
definition REGEXOP_ZERO_OR_MORE_SHORTEST :: byte where "REGEXOP_ZERO_OR_MORE_SHORTEST = 11"
definition REGEXOP_ONE_OR_MORE_SHORTEST :: byte where "REGEXOP_ONE_OR_MORE_SHORTEST = 12"
definition REGEXOP_ZERO_OR_ONE :: byte where "REGEXOP_ZERO_OR_ONE = 13"
definition REGEXOP_BRANCH :: byte where "REGEXOP_BRANCH = 14"
definition REGEXOP_BRANCH_END :: byte where "REGEXOP_BRANCH_END = 15"

lemmas regexerr_defs = REGEXERR_OK_def REGEXERR_TOO_LONG_def REGEXERR_MISMATCHED_CAPTURES_def
  REGEXERR_MISMATCHED_BLOCKS_def REGEXERR_INVALID_QUANTIFIER_def REGEXERR_BRANCH_FAILURE_def
  REGEXERR_INTERNAL_FAILURE_def REGEXRES_INTERNAL_FAILURE_def REGEXRES_NOMATCH_def REGEXPARSE_NOBRANCH_def

lemmas regexop_defs = REGEXOP_BEGIN_CAPTURE_def REGEXOP_END_CAPTURE_def REGEXOP_BEGINNING_OF_LINE_def
  REGEXOP_END_OF_LINE_def REGEXOP_EXACT_MATCH_def REGEXOP_META_MATCH_def REGEXOP_ANY_def REGEXOP_ANY_OF_def
  REGEXOP_ANY_BUT_def REGEXOP_ZERO_OR_MORE_def REGEXOP_ONE_OR_MORE_def REGEXOP_ZERO_OR_MORE_SHORTEST_def
  REGEXOP_ONE_OR_MORE_SHORTEST_def REGEXOP_ZERO_OR_ONE_def REGEXOP_BRANCH_def REGEXOP_BRANCH_END_def

lemmas regexcode_defs = REGEXCODE_NULL_def REGEXCODE_WHITESPACE_def REGEXCODE_NONWHITESPACE_def
  REGEXCODE_DIGIT_def REGEXCODE_NONDIGIT_def

text \<open>The characters \<open>^$()[].*+?|\\<close> and the two sets that the escapes name.\<close>

definition REGEX_META_CHARACTERS :: "byte list" where
  "REGEX_META_CHARACTERS = [94, 36, 40, 41, 91, 93, 46, 42, 43, 63, 124, 92]"

definition whitespace_chars :: "byte list" where
  "whitespace_chars = [32, 10, 13, 9, 11, 12]"

definition digit_chars :: "byte list" where
  "digit_chars = [48, 49, 50, 51, 52, 53, 54, 55, 56, 57]"

text \<open>\<open>string_find(chars, c, 0) != STRING_NPOS\<close> for a constant string.\<close>

definition char_in :: "byte list \<Rightarrow> byte \<Rightarrow> bool" where
  "char_in chars c \<longleftrightarrow> string_find chars (length chars) c 0 \<noteq> Some STRING_NPOS"

section \<open>Emitting code\<close>

record regex_t =
  rx_capture_count :: nat
  rx_code_length :: size_t
  rx_code_allocated :: size_t
  rx_code :: "byte list"

text \<open>A conversion to \<open>int\<close>.\<close>

definition c_int :: "nat \<Rightarrow> int" where
  "c_int n = sint (of_nat n :: 32 word)"

definition regex_reserve :: "(nat \<Rightarrow> byte) \<Rightarrow> bool \<Rightarrow> regex_t \<Rightarrow> nat \<Rightarrow> regex_t option" where
  "regex_reserve fresh allow_grow target ops =
     (if rx_code_length target + ops > rx_code_allocated target then
        (if \<not> allow_grow then None
         else let new_allocated = 2 * rx_code_allocated target + ops
              in Some (target\<lparr>rx_code := rx_code target @ map fresh [length (rx_code target)..<new_allocated],
                             rx_code_allocated := new_allocated\<rparr>))
      else Some target)"

fun emit_ops :: "regex_t \<Rightarrow> int list \<Rightarrow> (regex_t \<times> size_t) option" where
  "emit_ops target [] = Some (target, REGEXERR_OK)"
| "emit_ops target (val # vals) =
     (if val > 256 then Some (target, REGEXERR_TOO_LONG)
      else do { code \<leftarrow> mem_set (rx_code target) (rx_code_length target) (of_int val);
                emit_ops (target\<lparr>rx_code := code, rx_code_length := rx_code_length target + 1\<rparr>) vals })"

definition regex_emit :: "(nat \<Rightarrow> byte) \<Rightarrow> bool \<Rightarrow> regex_t \<Rightarrow> int list \<Rightarrow> (regex_t \<times> size_t) option" where
  "regex_emit fresh allow_grow target vals =
     (case regex_reserve fresh allow_grow target (length vals) of
        None \<Rightarrow> Some (target, REGEXERR_TOO_LONG)
      | Some target \<Rightarrow> emit_ops target vals)"

definition regex_emit_buffer :: "(nat \<Rightarrow> byte) \<Rightarrow> bool \<Rightarrow> regex_t \<Rightarrow> byte list \<Rightarrow> (regex_t \<times> size_t) option" where
  "regex_emit_buffer fresh allow_grow target buffer =
     (case regex_reserve fresh allow_grow target (length buffer) of
        None \<Rightarrow> Some (target, REGEXERR_TOO_LONG)
      | Some target \<Rightarrow>
          do { code \<leftarrow> mem_store (rx_code target) (rx_code_length target) buffer;
               Some (target\<lparr>rx_code := code, rx_code_length := rx_code_length target + length buffer\<rparr>, REGEXERR_OK) })"

section \<open>Escapes\<close>

definition regex_hex_char :: "byte \<Rightarrow> bool" where
  "regex_hex_char c \<longleftrightarrow> 48 \<le> c \<and> c \<le> 57 \<or> 97 \<le> c \<and> c \<le> 102 \<or> 65 \<le> c \<and> c \<le> 70"

definition regex_is_hex :: "byte list \<Rightarrow> size_t \<Rightarrow> bool option" where
  "regex_is_hex p offset =
     do { c \<leftarrow> mem_get p offset;
          if \<not> regex_hex_char c then Some False
          else do { d \<leftarrow> mem_get p (offset + 1); Some (regex_hex_char d) } }"

definition regex_parse_hex_digit :: "byte \<Rightarrow> byte" where
  "regex_parse_hex_digit c =
     (if 48 \<le> c \<and> c \<le> 57 then c - 48
      else if 97 \<le> c \<and> c \<le> 102 then 10 + (c - 97)
      else if 65 \<le> c \<and> c \<le> 70 then 10 + (c - 65)
      else 0)"

definition regex_parse_hex :: "byte list \<Rightarrow> size_t \<Rightarrow> byte option" where
  "regex_parse_hex p offset =
     do { c \<leftarrow> mem_get p offset;
          d \<leftarrow> mem_get p (offset + 1);
          Some ((push_bit 4 (regex_parse_hex_digit c) AND 0xF0) OR (regex_parse_hex_digit d AND 0xF)) }"

text \<open>\<open>char\<close> is signed, so the result of a character from 128 on is negative.\<close>

definition regex_encode_escape :: "byte \<Rightarrow> int" where
  "regex_encode_escape code =
     (if code = 110 then 10
      else if code = 114 then 13
      else if code = 116 then 9
      else if code = 48 then REGEXCODE_NULL
      else if code = 115 then REGEXCODE_WHITESPACE
      else if code = 83 then REGEXCODE_NONWHITESPACE
      else if code = 100 then REGEXCODE_DIGIT
      else if code = 68 then REGEXCODE_NONDIGIT
      else sint code)"

definition regex_match_escape :: "byte \<Rightarrow> int \<Rightarrow> bool" where
  "regex_match_escape c code =
     (if code = REGEXCODE_NULL then c = 0
      else if code = REGEXCODE_WHITESPACE then char_in whitespace_chars c
      else if code = REGEXCODE_NONWHITESPACE then \<not> char_in whitespace_chars c
      else if code = REGEXCODE_DIGIT then char_in digit_chars c
      else if code = REGEXCODE_NONDIGIT then \<not> char_in digit_chars c
      else False)"

text \<open>The bytes that an escape stands for in the code: a null byte marks a set.\<close>

definition escape_bytes :: "byte \<Rightarrow> byte list" where
  "escape_bytes c =
     (let code = regex_encode_escape c
      in if code = 0 \<or> code > 0xFF then [0, of_int (code div 256)] else [of_int code])"

section \<open>The parser\<close>

definition regex_compile_quantifier :: "(nat \<Rightarrow> byte) \<Rightarrow> bool \<Rightarrow> regex_t \<Rightarrow> size_t \<Rightarrow> byte \<Rightarrow> (regex_t \<times> size_t) option" where
  "regex_compile_quantifier fresh allow_grow target last_code_length quantifier =
     do { o' \<leftarrow> mem_get (rx_code target) last_code_length;
          n \<leftarrow> (if o' = REGEXOP_EXACT_MATCH then mem_get (rx_code target) (last_code_length + 1) else Some 0);
          if o' = REGEXOP_EXACT_MATCH \<and> n > 1 then
            do { last_char \<leftarrow> mem_get (rx_code target) (size_sub (rx_code_length target) 1);
                 before_last \<leftarrow> mem_get (rx_code target) (size_sub (rx_code_length target) 2);
                 if before_last = 0 then Some (target, REGEXERR_INTERNAL_FAILURE)
                 else do { code \<leftarrow> mem_set (rx_code target) (last_code_length + 1) (n - 1);
                           regex_emit fresh allow_grow
                             (target\<lparr>rx_code := code, rx_code_length := size_sub (rx_code_length target) 1\<rparr>)
                             [uint quantifier, uint REGEXOP_EXACT_MATCH, 1, uint last_char] } }
          else
            (let move_size = size_sub (1 + rx_code_length target) last_code_length
             in do { (target, r) \<leftarrow> regex_emit fresh allow_grow target [0];
                     if r \<noteq> 0 then Some (target, r)
                     else do { code \<leftarrow> mem_move (rx_code target) (last_code_length + 1) last_code_length move_size;
                               code \<leftarrow> mem_set code last_code_length quantifier;
                               Some (target\<lparr>rx_code := code\<rparr>, REGEXERR_OK) } }) }"

text \<open>The loop over the characters of a group: where it is closed, and the bytes collected.\<close>

datatype group_end = Group_Closed size_t "byte list" | Group_Open | Group_Too_Long

function group_loop :: "byte list \<Rightarrow> size_t \<Rightarrow> size_t \<Rightarrow> byte list \<Rightarrow> group_end option" where
  "group_loop pattern len offset buffer =
     (if offset < len then
        do { c \<leftarrow> mem_get pattern offset;
             if c = 93 then Some (Group_Closed offset buffer)
             else if length buffer \<ge> 256 then Some Group_Too_Long
             else if c = 92 then
               do { hex \<leftarrow> (if offset + 2 < len then regex_is_hex pattern (offset + 1) else Some False);
                    if hex then
                      do { b \<leftarrow> regex_parse_hex pattern (offset + 1);
                           group_loop pattern len (offset + 3) (buffer @ [b]) }
                    else if offset + 1 < len then
                      do { e \<leftarrow> mem_get pattern (offset + 1);
                           if length buffer + length (escape_bytes e) > 256 then Some Group_Too_Long
                           else group_loop pattern len (offset + 2) (buffer @ escape_bytes e) }
                    else Some Group_Open }
             else group_loop pattern len (offset + 1) (buffer @ [c]) }
      else Some Group_Open)"
  by pat_completeness auto
termination by (relation "measure (\<lambda>(pattern, len, offset, buffer). len - offset)") auto

declare group_loop.simps [simp del]

text \<open>The result is an error, or the offset behind the group.\<close>

definition regex_parse_group :: "(nat \<Rightarrow> byte) \<Rightarrow> bool \<Rightarrow> regex_t \<Rightarrow> byte list \<Rightarrow> size_t \<Rightarrow> size_t \<Rightarrow> (regex_t \<times> size_t) option" where
  "regex_parse_group fresh allow_grow target pattern offset len =
     do { c \<leftarrow> mem_get pattern offset;
          let op = (if c = 94 then REGEXOP_ANY_BUT else REGEXOP_ANY_OF);
          let offset = (if c = 94 then offset + 1 else offset);
          g \<leftarrow> group_loop pattern len offset [];
          case g of
            Group_Too_Long \<Rightarrow> Some (target, REGEXERR_TOO_LONG)
          | Group_Open \<Rightarrow> Some (target, REGEXERR_MISMATCHED_BLOCKS)
          | Group_Closed offset buffer \<Rightarrow>
              do { (target, r) \<leftarrow> regex_emit fresh allow_grow target [uint op, int (length buffer)];
                   if r \<noteq> 0 then Some (target, r)
                   else do { (target, r) \<leftarrow> (if buffer \<noteq> [] then regex_emit_buffer fresh allow_grow target buffer
                                            else Some (target, REGEXERR_OK));
                             Some (target, if r \<noteq> 0 then r else offset + 1) } } }"

text \<open>The number of characters of a literal: the loop ends at a meta character.\<close>

function literal_size :: "byte list \<Rightarrow> size_t \<Rightarrow> size_t \<Rightarrow> size_t option" where
  "literal_size pattern len offset =
     (if offset < len then
        do { c \<leftarrow> mem_get pattern offset;
             if \<not> char_in REGEX_META_CHARACTERS c
             then do { n \<leftarrow> literal_size pattern len (offset + 1); Some (n + 1) }
             else Some 0 }
      else Some 0)"
  by pat_completeness auto
termination by (relation "measure (\<lambda>(pattern, len, offset). len - offset)") auto

declare literal_size.simps [simp del]

text \<open>What a round of the loop of the parser does: return a value, or go on.\<close>

datatype parse_round = Parse_Return regex_t size_t | Parse_Next regex_t size_t size_t size_t

definition next_unless :: "regex_t \<times> size_t \<Rightarrow> size_t \<Rightarrow> size_t \<Rightarrow> size_t \<Rightarrow> parse_round" where
  "next_unless r offset last_code_length branch_op =
     (if snd r \<noteq> 0 then Parse_Return (fst r) (snd r) else Parse_Next (fst r) offset last_code_length branch_op)"

definition parse_quantifier ::
    "(nat \<Rightarrow> byte) \<Rightarrow> bool \<Rightarrow> regex_t \<Rightarrow> size_t \<Rightarrow> size_t \<Rightarrow> size_t \<Rightarrow> byte \<Rightarrow> parse_round option" where
  "parse_quantifier fresh allow_grow target offset last_code_length branch_op quantifier =
     (if last_code_length \<ge> rx_code_length target then Some (Parse_Return target REGEXERR_INVALID_QUANTIFIER)
      else do { o' \<leftarrow> mem_get (rx_code target) last_code_length;
                if o' < REGEXOP_EXACT_MATCH \<or> o' > REGEXOP_ANY_BUT then Some (Parse_Return target REGEXERR_INVALID_QUANTIFIER)
                else do { r \<leftarrow> regex_compile_quantifier fresh allow_grow target last_code_length quantifier;
                          Some (next_unless r offset last_code_length branch_op) } })"

definition parse_branch ::
    "(nat \<Rightarrow> byte) \<Rightarrow> bool \<Rightarrow> size_t \<Rightarrow> regex_t \<Rightarrow> size_t \<Rightarrow> size_t \<Rightarrow> parse_round option" where
  "parse_branch fresh allow_grow branch_begin target offset last_code_length =
     (if branch_begin \<ge> rx_code_length target then Some (Parse_Return target REGEXERR_BRANCH_FAILURE)
      else let sz = rx_code_length target - branch_begin
           in do { (target, r) \<leftarrow> regex_emit fresh allow_grow target [0, 0, uint REGEXOP_BRANCH_END, 0];
                   if r \<noteq> 0 then Some (Parse_Return target r)
                   else do { code \<leftarrow> mem_move (rx_code target) (branch_begin + 2) branch_begin sz;
                             code \<leftarrow> mem_set code branch_begin REGEXOP_BRANCH;
                             code \<leftarrow> mem_set code (branch_begin + 1) (of_nat (sz + 2));
                             Some (Parse_Next (target\<lparr>rx_code := code\<rparr>) offset last_code_length
                                     (rx_code_length target - 2)) } })"

definition parse_escape ::
    "(nat \<Rightarrow> byte) \<Rightarrow> bool \<Rightarrow> regex_t \<Rightarrow> byte list \<Rightarrow> size_t \<Rightarrow> size_t \<Rightarrow> size_t \<Rightarrow> parse_round option" where
  "parse_escape fresh allow_grow target pattern offset len branch_op =
     do { let last_code_length = rx_code_length target;
          hex \<leftarrow> (if offset + 1 < len then regex_is_hex pattern offset else Some False);
          if hex then
            do { b \<leftarrow> regex_parse_hex pattern offset;
                 r \<leftarrow> regex_emit fresh allow_grow target [uint REGEXOP_META_MATCH, uint b];
                 Some (next_unless r (offset + 2) last_code_length branch_op) }
          else if offset < len then
            do { c \<leftarrow> mem_get pattern offset;
                 let code = regex_encode_escape c;
                 r \<leftarrow> regex_emit fresh allow_grow target
                       (if code = 0 \<or> code > 0xFF then [uint REGEXOP_META_MATCH, 0, code div 256]
                        else [uint REGEXOP_META_MATCH, code]);
                 Some (next_unless r (offset + 1) last_code_length branch_op) }
          else Some (Parse_Next target offset last_code_length branch_op) }"

text \<open>
  A round of the loop with the character \<open>c\<close>, which is not an opening parenthesis; \<open>offset\<close> is behind it.
\<close>

definition parse_token ::
    "(nat \<Rightarrow> byte) \<Rightarrow> bool \<Rightarrow> byte list \<Rightarrow> size_t \<Rightarrow> nat \<Rightarrow> size_t \<Rightarrow> regex_t \<Rightarrow> size_t \<Rightarrow> size_t \<Rightarrow> size_t \<Rightarrow> byte \<Rightarrow> parse_round option" where
  "parse_token fresh allow_grow pattern len level branch_begin target offset last_code_length branch_op c =
     (if c = 94 then
        do { r \<leftarrow> regex_emit fresh allow_grow target [uint REGEXOP_BEGINNING_OF_LINE];
             Some (next_unless r offset last_code_length branch_op) }
      else if c = 36 then
        do { r \<leftarrow> regex_emit fresh allow_grow target [uint REGEXOP_END_OF_LINE];
             Some (next_unless r offset last_code_length branch_op) }
      else if c = 41 then
        do { code \<leftarrow> (if branch_op \<noteq> REGEXPARSE_NOBRANCH
                      then mem_set (rx_code target) (branch_op + 1) (of_nat (size_sub (rx_code_length target) (branch_op + 2)))
                      else Some (rx_code target));
             Some (Parse_Return (target\<lparr>rx_code := code\<rparr>) (if level = 0 then REGEXERR_MISMATCHED_CAPTURES else offset)) }
      else if c = 91 then
        do { (target', offset) \<leftarrow> regex_parse_group fresh allow_grow target pattern offset len;
             Some (if offset > len then Parse_Return target' 0
                   else Parse_Next target' offset (rx_code_length target) branch_op) }
      else if c = 46 then
        do { r \<leftarrow> regex_emit fresh allow_grow target [uint REGEXOP_ANY];
             Some (next_unless r offset (rx_code_length target) branch_op) }
      else if c = 42 \<or> c = 43 then
        do { shortest \<leftarrow> (if offset < len then map_option (\<lambda>d. d = 63) (mem_get pattern offset) else Some False);
             parse_quantifier fresh allow_grow target (if shortest then offset + 1 else offset) last_code_length branch_op
               (if c = 42 then (if shortest then REGEXOP_ZERO_OR_MORE_SHORTEST else REGEXOP_ZERO_OR_MORE)
                else (if shortest then REGEXOP_ONE_OR_MORE_SHORTEST else REGEXOP_ONE_OR_MORE)) }
      else if c = 63 then
        parse_quantifier fresh allow_grow target offset last_code_length branch_op REGEXOP_ZERO_OR_ONE
      else if c = 92 then parse_escape fresh allow_grow target pattern offset len branch_op
      else if c = 124 then parse_branch fresh allow_grow branch_begin target offset last_code_length
      else
        do { sz \<leftarrow> literal_size pattern len (offset - 1);
             (target', r) \<leftarrow> regex_emit fresh allow_grow target [uint REGEXOP_EXACT_MATCH, c_int sz];
             if r \<noteq> 0 then Some (Parse_Return target' r)
             else do { matched \<leftarrow> mem_load pattern (offset - 1) sz;
                       r \<leftarrow> regex_emit_buffer fresh allow_grow target' matched;
                       Some (next_unless r (offset - 1 + sz) (rx_code_length target) branch_op) } })"

text \<open>The end of a capture, after the call of the parser behind its parenthesis has returned \<open>offset\<close>.\<close>

definition end_capture ::
    "(nat \<Rightarrow> byte) \<Rightarrow> bool \<Rightarrow> byte list \<Rightarrow> size_t \<Rightarrow> nat \<Rightarrow> regex_t \<Rightarrow> size_t \<Rightarrow> size_t \<Rightarrow> size_t \<Rightarrow> parse_round option" where
  "end_capture fresh allow_grow pattern len capture target offset last_code_length branch_op =
     (if offset > len then Some (Parse_Return target REGEXERR_MISMATCHED_CAPTURES)
      else do { c \<leftarrow> mem_get pattern (size_sub offset 1);
                if c \<noteq> 41 then Some (Parse_Return target REGEXERR_MISMATCHED_CAPTURES)
                else do { r \<leftarrow> regex_emit fresh allow_grow target [uint REGEXOP_END_CAPTURE, c_int capture];
                          Some (next_unless r offset last_code_length branch_op) } })"

text \<open>The loop of \<open>regex_parser\<close>, and the call that enters it.\<close>

partial_function (option) regex_parser_loop ::
    "(nat \<Rightarrow> byte) \<Rightarrow> bool \<Rightarrow> byte list \<Rightarrow> size_t \<Rightarrow> nat \<Rightarrow> size_t \<Rightarrow> regex_t \<Rightarrow> size_t \<Rightarrow> size_t \<Rightarrow> size_t \<Rightarrow> (regex_t \<times> size_t) run" where
  "regex_parser_loop fresh allow_grow pattern len level branch_begin target offset last_code_length branch_op =
     (if offset < len then
        then_run (Some (mem_get pattern offset)) (\<lambda>c.
          if c = 40 then
            then_run (Some (regex_emit fresh allow_grow
                (target\<lparr>rx_capture_count := (rx_capture_count target + 1) mod 2 ^ 32\<rparr>)
                [uint REGEXOP_BEGIN_CAPTURE, c_int (rx_capture_count target)])) (\<lambda>(inner, r).
              if r \<noteq> 0 then ret (inner, r)
              else then_run (regex_parser_loop fresh allow_grow pattern len (level + 1) (rx_code_length inner) inner
                               (offset + 1) (rx_code_length inner) REGEXPARSE_NOBRANCH) (\<lambda>(outer, offset).
                then_run (Some (end_capture fresh allow_grow pattern len (rx_capture_count target) outer offset
                                  (rx_code_length target) branch_op)) (\<lambda>round.
                  case round of
                    Parse_Return target r \<Rightarrow> ret (target, r)
                  | Parse_Next target offset last_code_length branch_op \<Rightarrow>
                      regex_parser_loop fresh allow_grow pattern len level branch_begin target offset last_code_length branch_op)))
          else
            then_run (Some (parse_token fresh allow_grow pattern len level branch_begin target (offset + 1)
                              last_code_length branch_op c)) (\<lambda>round.
              case round of
                Parse_Return target r \<Rightarrow> ret (target, r)
              | Parse_Next target offset last_code_length branch_op \<Rightarrow>
                  regex_parser_loop fresh allow_grow pattern len level branch_begin target offset last_code_length branch_op))
      else ret (target, offset))"

declare regex_parser_loop.simps [code]

definition regex_parser :: "(nat \<Rightarrow> byte) \<Rightarrow> bool \<Rightarrow> regex_t \<Rightarrow> byte list \<Rightarrow> size_t \<Rightarrow> size_t \<Rightarrow> nat \<Rightarrow> (regex_t \<times> size_t) run" where
  "regex_parser fresh allow_grow target pattern offset len level =
     regex_parser_loop fresh allow_grow pattern len level (rx_code_length target) target offset (rx_code_length target) REGEXPARSE_NOBRANCH"

text \<open>\<open>regex_compile\<close> returns a null pointer for a pattern it rejects.\<close>

definition regex_compile :: "(nat \<Rightarrow> byte) \<Rightarrow> byte list \<Rightarrow> size_t \<Rightarrow> regex_t option run" where
  "regex_compile fresh pattern pattern_length =
     then_run (regex_parser fresh True
         \<lparr>rx_capture_count = 0, rx_code_length = 0, rx_code_allocated = pattern_length + 16,
          rx_code = map fresh [0..<pattern_length + 16]\<rparr> pattern 0 pattern_length 0)
       (\<lambda>(compiled, r). ret (if r = pattern_length then Some compiled else None))"

definition regex_parse :: "(nat \<Rightarrow> byte) \<Rightarrow> regex_t \<Rightarrow> byte list \<Rightarrow> size_t \<Rightarrow> (regex_t \<times> bool) run" where
  "regex_parse fresh regex pattern pattern_length =
     then_run (regex_parser fresh False regex pattern 0 pattern_length 0)
       (\<lambda>(result, r). ret (result, r = pattern_length))"

section \<open>The matcher\<close>

record regex_context_t =
  cx_op :: size_t
  cx_inoffset :: size_t

abbreviation mk_context :: "size_t \<Rightarrow> size_t \<Rightarrow> regex_context_t" where
  "mk_context op inoffset \<equiv> \<lparr>cx_op = op, cx_inoffset = inoffset\<rparr>"

definition regex_context_nomatch :: "size_t \<Rightarrow> regex_context_t" where
  "regex_context_nomatch next_op = mk_context next_op REGEXRES_NOMATCH"

definition regex_context_internal_failure :: "size_t \<Rightarrow> regex_context_t" where
  "regex_context_internal_failure next_op = mk_context next_op REGEXRES_INTERNAL_FAILURE"

text \<open>
  The array of captures, or \<^const>\<open>None\<close> for a null pointer. A pointer into the input is its distance
  from the start of the input.
\<close>

record capture_t =
  cap_str :: int
  cap_length :: size_t

type_synonym captures = "capture_t list option"

definition begin_capture :: "captures \<Rightarrow> nat \<Rightarrow> size_t \<Rightarrow> captures" where
  "begin_capture captures capture inoffset =
     map_option (\<lambda>cs. if capture < length cs then cs[capture := (cs ! capture)\<lparr>cap_str := int inoffset\<rparr>] else cs) captures"

definition finish_capture :: "captures \<Rightarrow> nat \<Rightarrow> size_t \<Rightarrow> captures" where
  "finish_capture captures capture inoffset =
     map_option (\<lambda>cs. if capture < length cs
       then cs[capture := (cs ! capture)\<lparr>cap_length := nat ((int inoffset - cap_str (cs ! capture)) mod int SIZE_MOD)\<rparr>]
       else cs) captures"

text \<open>
  The loop over the bytes of a set: whether the character is found, or \<open>False\<close> at the end, together with
  \<open>ibuf == buffer_len\<close>.
\<close>

function scan_set :: "byte list \<Rightarrow> size_t \<Rightarrow> nat \<Rightarrow> byte \<Rightarrow> nat \<Rightarrow> (bool \<times> bool) option" where
  "scan_set code op buffer_len cin ibuf =
     (if ibuf < buffer_len then
        do { cmatch \<leftarrow> mem_get code (op + ibuf);
             if cmatch = 0 then
               do { e \<leftarrow> mem_get code (op + (ibuf + 1));
                    if regex_match_escape cin (uint e * 256) then Some (True, ibuf + 1 = buffer_len)
                    else scan_set code op buffer_len cin (ibuf + 2) }
             else if cin = cmatch then Some (True, False)
             else scan_set code op buffer_len cin (ibuf + 1) }
      else Some (False, ibuf = buffer_len))"
  by pat_completeness auto
termination by (relation "measure (\<lambda>(code, op, buffer_len, cin, ibuf). buffer_len - ibuf)") auto

declare scan_set.simps [simp del]

text \<open>The operations that do not call the matcher; \<open>op\<close> is behind the operation \<open>code\<close>.\<close>

definition match_any_of :: "byte list \<Rightarrow> byte list \<Rightarrow> size_t \<Rightarrow> size_t \<Rightarrow> size_t \<Rightarrow> regex_context_t option" where
  "match_any_of code input inlength op inoffset =
     do { cin \<leftarrow> mem_get input inoffset;
          b \<leftarrow> mem_get code op;
          let op = op + 1; let buffer_len = unat b;
          if inoffset \<ge> inlength then Some (regex_context_nomatch (op + buffer_len))
          else do { (found, at_end) \<leftarrow> scan_set code op buffer_len cin 0;
                    Some (if at_end then regex_context_nomatch (op + buffer_len)
                          else mk_context (op + buffer_len) (inoffset + 1)) } }"

definition match_any_but :: "byte list \<Rightarrow> byte list \<Rightarrow> size_t \<Rightarrow> size_t \<Rightarrow> size_t \<Rightarrow> regex_context_t option" where
  "match_any_but code input inlength op inoffset =
     do { cin \<leftarrow> mem_get input inoffset;
          b \<leftarrow> mem_get code op;
          let op = op + 1; let buffer_len = unat b;
          if inoffset \<ge> inlength then Some (regex_context_nomatch (op + buffer_len))
          else do { (found, at_end) \<leftarrow> scan_set code op buffer_len cin 0;
                    Some (if found then regex_context_nomatch (op + buffer_len)
                          else mk_context (op + buffer_len) (inoffset + 1)) } }"

definition match_exact :: "byte list \<Rightarrow> byte list \<Rightarrow> size_t \<Rightarrow> size_t \<Rightarrow> size_t \<Rightarrow> regex_context_t option" where
  "match_exact code input inlength op inoffset =
     do { b \<leftarrow> mem_get code op;
          let op = op + 1; let matchlen = unat b;
          if matchlen > size_sub inlength inoffset then Some (regex_context_nomatch (op + matchlen))
          else do { x \<leftarrow> mem_load input inoffset matchlen;
                    y \<leftarrow> mem_load code op matchlen;
                    Some (if x \<noteq> y then regex_context_nomatch (op + matchlen)
                          else mk_context (op + matchlen) (inoffset + matchlen)) } }"

definition match_meta :: "byte list \<Rightarrow> byte list \<Rightarrow> size_t \<Rightarrow> size_t \<Rightarrow> regex_context_t option" where
  "match_meta code input op inoffset =
     do { cin \<leftarrow> mem_get code op;
          cmatch \<leftarrow> mem_get input inoffset;
          if cin = 0 then
            do { e \<leftarrow> mem_get code (op + 1);
                 Some (if regex_match_escape cmatch (uint e * 256) then mk_context (op + 2) (inoffset + 1)
                       else regex_context_nomatch (op + 2)) }
          else Some (if cin = cmatch then mk_context (op + 1) (inoffset + 1) else regex_context_nomatch (op + 1)) }"

definition simple_op ::
    "byte list \<Rightarrow> byte list \<Rightarrow> size_t \<Rightarrow> byte \<Rightarrow> size_t \<Rightarrow> size_t \<Rightarrow> captures \<Rightarrow> (regex_context_t \<times> captures) option" where
  "simple_op code input inlength o' op inoffset captures =
     (if o' = REGEXOP_BEGIN_CAPTURE then
        do { capture \<leftarrow> mem_get code op; Some (mk_context (op + 1) inoffset, begin_capture captures (unat capture) inoffset) }
      else if o' = REGEXOP_END_CAPTURE then
        do { capture \<leftarrow> mem_get code op; Some (mk_context (op + 1) inoffset, finish_capture captures (unat capture) inoffset) }
      else if o' = REGEXOP_BEGINNING_OF_LINE then
        Some (if inoffset \<noteq> 0 then regex_context_nomatch op else mk_context op inoffset, captures)
      else if o' = REGEXOP_END_OF_LINE then
        Some (if inoffset \<noteq> inlength then regex_context_nomatch op else mk_context op inoffset, captures)
      else if o' = REGEXOP_ANY_OF then
        do { c \<leftarrow> match_any_of code input inlength op inoffset; Some (c, captures) }
      else if o' = REGEXOP_ANY_BUT then
        do { c \<leftarrow> match_any_but code input inlength op inoffset; Some (c, captures) }
      else if o' = REGEXOP_ANY then
        Some (if inoffset < inlength then mk_context op (inoffset + 1) else regex_context_nomatch op, captures)
      else if o' = REGEXOP_EXACT_MATCH then
        do { c \<leftarrow> match_exact code input inlength op inoffset; Some (c, captures) }
      else if o' = REGEXOP_META_MATCH then
        do { c \<leftarrow> match_meta code input op inoffset; Some (c, captures) }
      else if o' = REGEXOP_BRANCH_END then
        do { skip \<leftarrow> mem_get code op; Some (mk_context (op + 1 + unat skip) inoffset, captures) }
      else
        do { unsupported \<leftarrow> mem_get code op; Some (regex_context_internal_failure op, captures) })"

text \<open>
  The functions of the matcher call each other: each is a definition over the function \<open>f\<close> that its calls
  go to, and \<open>regex_run\<close> ties the knot. The loops of the two consume functions are calls that carry the
  offset of their context and the best context so far.
\<close>

datatype regex_call =
    Execute_Single size_t size_t
  | Execute size_t size_t
  | Consume_Longest size_t size_t regex_context_t
  | Consume_Shortest size_t size_t regex_context_t

type_synonym matcher = "regex_call \<times> captures \<Rightarrow> (regex_context_t \<times> captures) run"

definition best_or_next :: "regex_t \<Rightarrow> regex_context_t \<Rightarrow> regex_context_t \<Rightarrow> regex_context_t" where
  "best_or_next regex best_context cx =
     (if cx_op best_context > rx_code_length regex then best_context\<lparr>cx_op := cx_op cx\<rparr> else best_context)"

definition regex_consume_longest ::
    "matcher \<Rightarrow> regex_t \<Rightarrow> size_t \<Rightarrow> size_t \<Rightarrow> size_t \<Rightarrow> regex_context_t \<Rightarrow> captures \<Rightarrow> (regex_context_t \<times> captures) run" where
  "regex_consume_longest f regex inlength op inoffset best_context captures =
     then_run (f (Execute_Single op inoffset, None)) (\<lambda>(cx, no_captures).
       if cx_inoffset cx > inlength then ret (best_or_next regex best_context cx, captures)
       else if cx_op cx \<ge> rx_code_length regex then ret (cx, captures)
       else then_run (f (Execute (cx_op cx) (cx_inoffset cx), None)) (\<lambda>(next_context, no_captures).
         if cx_inoffset next_context \<le> inlength then
           (if captures \<noteq> None then
              then_run (f (Execute (cx_op cx) (cx_inoffset cx), captures)) (\<lambda>(same_context, captures).
                f (Consume_Longest op (cx_inoffset cx) next_context, captures))
            else f (Consume_Longest op (cx_inoffset cx) next_context, captures))
         else f (Consume_Longest op (cx_inoffset cx) best_context, captures)))"

definition regex_consume_shortest ::
    "matcher \<Rightarrow> regex_t \<Rightarrow> size_t \<Rightarrow> size_t \<Rightarrow> size_t \<Rightarrow> regex_context_t \<Rightarrow> captures \<Rightarrow> (regex_context_t \<times> captures) run" where
  "regex_consume_shortest f regex inlength op inoffset best_context captures =
     then_run (f (Execute_Single op inoffset, None)) (\<lambda>(cx, no_captures).
       if cx_inoffset cx > inlength then ret (best_or_next regex best_context cx, captures)
       else if cx_op cx \<ge> rx_code_length regex then ret (cx, captures)
       else then_run (f (Execute (cx_op cx) (cx_inoffset cx), None)) (\<lambda>(next_context, no_captures).
         if cx_inoffset next_context \<le> inlength then
           (if captures \<noteq> None then
              then_run (f (Execute (cx_op cx) (cx_inoffset cx), captures)) (\<lambda>(same_context, captures).
                ret (best_or_next regex next_context cx, captures))
            else ret (best_or_next regex next_context cx, captures))
         else f (Consume_Shortest op (cx_inoffset cx) best_context, captures)))"

abbreviation no_best :: "size_t \<Rightarrow> regex_context_t" where
  "no_best inoffset \<equiv> mk_context REGEXRES_NOMATCH inoffset"

definition execute_zero_or_one ::
    "matcher \<Rightarrow> size_t \<Rightarrow> size_t \<Rightarrow> size_t \<Rightarrow> captures \<Rightarrow> (regex_context_t \<times> captures) run" where
  "execute_zero_or_one f inlength op inoffset captures =
     then_run (f (Execute_Single op inoffset, captures)) (\<lambda>(cx, captures).
       then_run (if cx_inoffset cx \<le> inlength then f (Execute (cx_op cx) (cx_inoffset cx), captures)
                 else ret (regex_context_nomatch (cx_op cx), captures)) (\<lambda>(maybe_context, captures).
         if cx_inoffset cx \<le> inlength \<and> cx_inoffset maybe_context \<le> inlength then ret (maybe_context, captures)
         else then_run (f (Execute (cx_op cx) inoffset, captures)) (\<lambda>(rest_context, captures).
           ret (if cx_inoffset rest_context \<le> inlength then rest_context else regex_context_nomatch (cx_op cx), captures))))"

definition execute_branch ::
    "matcher \<Rightarrow> byte list \<Rightarrow> size_t \<Rightarrow> size_t \<Rightarrow> size_t \<Rightarrow> captures \<Rightarrow> (regex_context_t \<times> captures) run" where
  "execute_branch f code inlength op inoffset captures =
     then_run (Some (mem_get code op)) (\<lambda>skip.
       then_run (f (Execute (op + 1) inoffset, captures)) (\<lambda>(cx, captures).
         if cx_inoffset cx \<le> inlength then ret (cx, captures)
         else f (Execute (op + 1 + unat skip) inoffset, captures)))"

definition regex_execute_single ::
    "matcher \<Rightarrow> regex_t \<Rightarrow> byte list \<Rightarrow> size_t \<Rightarrow> size_t \<Rightarrow> size_t \<Rightarrow> captures \<Rightarrow> (regex_context_t \<times> captures) run" where
  "regex_execute_single f regex input inlength op inoffset captures =
     then_run (Some (mem_get (rx_code regex) op)) (\<lambda>o'.
       if o' = REGEXOP_ZERO_OR_MORE then f (Consume_Longest (op + 1) inoffset (no_best inoffset), captures)
       else if o' = REGEXOP_ONE_OR_MORE then
         then_run (f (Execute_Single (op + 1) inoffset, captures)) (\<lambda>(cx, captures).
           if cx_inoffset cx > inlength then ret (cx, captures)
           else f (Consume_Longest (op + 1) (cx_inoffset cx) (no_best (cx_inoffset cx)), captures))
       else if o' = REGEXOP_ZERO_OR_MORE_SHORTEST then f (Consume_Shortest (op + 1) inoffset (no_best inoffset), captures)
       else if o' = REGEXOP_ONE_OR_MORE_SHORTEST then
         then_run (f (Execute_Single (op + 1) inoffset, captures)) (\<lambda>(cx, captures).
           if cx_inoffset cx > inlength then ret (cx, captures)
           else f (Consume_Shortest (op + 1) (cx_inoffset cx) (no_best (cx_inoffset cx)), captures))
       else if o' = REGEXOP_ZERO_OR_ONE then execute_zero_or_one f inlength (op + 1) inoffset captures
       else if o' = REGEXOP_BRANCH then execute_branch f (rx_code regex) inlength (op + 1) inoffset captures
       else Some (simple_op (rx_code regex) input inlength o' (op + 1) inoffset captures))"

definition regex_execute ::
    "matcher \<Rightarrow> regex_t \<Rightarrow> size_t \<Rightarrow> size_t \<Rightarrow> size_t \<Rightarrow> captures \<Rightarrow> (regex_context_t \<times> captures) run" where
  "regex_execute f regex inlength op inoffset captures =
     (if op < rx_code_length regex then
        then_run (f (Execute_Single op inoffset, captures)) (\<lambda>(cx, captures).
          if cx_inoffset cx > inlength then ret (cx, captures)
          else f (Execute (cx_op cx) (cx_inoffset cx), captures))
      else ret (mk_context op inoffset, captures))"

lemmas matcher_mono_rules = then_run_mono case_prod_mono if_mono option.const_mono

lemma call_mono' [partial_function_mono]: "mono_option (\<lambda>f. f x)"
  by (rule call_mono)

lemma matcher_mono [partial_function_mono]:
  "mono_option (\<lambda>f. regex_consume_longest (\<lambda>y. f (t y)) regex inlength op inoffset best_context captures)"
  "mono_option (\<lambda>f. regex_consume_shortest (\<lambda>y. f (t y)) regex inlength op inoffset best_context captures)"
  "mono_option (\<lambda>f. execute_zero_or_one (\<lambda>y. f (t y)) inlength op inoffset captures)"
  "mono_option (\<lambda>f. execute_branch (\<lambda>y. f (t y)) code inlength op inoffset captures)"
  "mono_option (\<lambda>f. regex_execute (\<lambda>y. f (t y)) regex inlength op inoffset captures)"
  unfolding regex_consume_longest_def regex_consume_shortest_def execute_zero_or_one_def execute_branch_def regex_execute_def
  by (intro matcher_mono_rules call_mono')+

lemma execute_single_mono [partial_function_mono]:
  "mono_option (\<lambda>f. regex_execute_single (\<lambda>y. f (t y)) regex input inlength op inoffset captures)"
  unfolding regex_execute_single_def by (intro matcher_mono_rules call_mono' matcher_mono)

partial_function (option) regex_run ::
    "regex_t \<Rightarrow> byte list \<Rightarrow> size_t \<Rightarrow> regex_call \<times> captures \<Rightarrow> (regex_context_t \<times> captures) run" where
  "regex_run regex input inlength x =
     (case fst x of
        Execute_Single op inoffset \<Rightarrow>
          regex_execute_single (regex_run regex input inlength) regex input inlength op inoffset (snd x)
      | Execute op inoffset \<Rightarrow> regex_execute (regex_run regex input inlength) regex inlength op inoffset (snd x)
      | Consume_Longest op inoffset best_context \<Rightarrow>
          regex_consume_longest (regex_run regex input inlength) regex inlength op inoffset best_context (snd x)
      | Consume_Shortest op inoffset best_context \<Rightarrow>
          regex_consume_shortest (regex_run regex input inlength) regex inlength op inoffset best_context (snd x))"

declare regex_run.simps [code]

text \<open>The loop over the start offsets, and the match of a whole input; a null regex matches everything.\<close>

function match_from :: "regex_t \<Rightarrow> byte list \<Rightarrow> size_t \<Rightarrow> size_t \<Rightarrow> captures \<Rightarrow> (bool \<times> captures) run" where
  "match_from regex input inlength iin captures =
     (if iin < inlength then
        then_run (regex_run regex input inlength (Execute 0 iin, captures)) (\<lambda>(cx, captures).
          if cx_inoffset cx \<le> inlength then ret (True, captures)
          else if cx_inoffset cx = REGEXRES_INTERNAL_FAILURE then ret (False, captures)
          else match_from regex input inlength (iin + 1) captures)
      else ret (False, captures))"
  by pat_completeness auto
termination by (relation "measure (\<lambda>(regex, input, inlength, iin, captures). inlength - iin)") auto

declare match_from.simps [simp del]

definition regex_match :: "regex_t option \<Rightarrow> byte list \<Rightarrow> size_t \<Rightarrow> captures \<Rightarrow> (bool \<times> captures) run" where
  "regex_match regex input inlength captures =
     (case regex of
        None \<Rightarrow> ret (True, captures)
      | Some regex \<Rightarrow>
          if rx_code_length regex = 0 then ret (True, captures)
          else then_run (Some (mem_get (rx_code regex) 0)) (\<lambda>o'.
            if o' = REGEXOP_BEGINNING_OF_LINE then
              then_run (regex_run regex input inlength (Execute 0 0, captures)) (\<lambda>(cx, captures).
                ret (cx_inoffset cx \<le> inlength, captures))
            else match_from regex input inlength 0 captures))"

end
