(* ===== verification/Regex_Run.thy ===== *)
theory Regex_Run
  imports Regex
begin

text \<open>
  What the matcher of \<open>foundation/regex.c\<close> computes on code that was put together from atoms, quantified
  atoms, marks of captures, anchors and branches. Each kind of code is one lemma about \<open>runs_as\<close>: the run
  from an operation returns, and it succeeds from an offset exactly when a given predicate holds of it.
\<close>

section \<open>Atoms and what they match\<close>

datatype char_class = Null_Char | Whitespace | Non_Whitespace | Digit | Non_Digit

fun class_code :: "char_class \<Rightarrow> byte" where
  "class_code Null_Char = 0"
| "class_code Whitespace = 1"
| "class_code Non_Whitespace = 2"
| "class_code Digit = 3"
| "class_code Non_Digit = 4"

fun in_class :: "char_class \<Rightarrow> byte \<Rightarrow> bool" where
  "in_class Null_Char c \<longleftrightarrow> c = 0"
| "in_class Whitespace c \<longleftrightarrow> c \<in> {9, 10, 11, 12, 13, 32}"
| "in_class Non_Whitespace c \<longleftrightarrow> c \<notin> {9, 10, 11, 12, 13, 32}"
| "in_class Digit c \<longleftrightarrow> 48 \<le> c \<and> c \<le> 57"
| "in_class Non_Digit c \<longleftrightarrow> \<not> (48 \<le> c \<and> c \<le> 57)"

datatype elem = Elem_Byte byte | Elem_Class char_class

fun elem_code :: "elem \<Rightarrow> byte list" where
  "elem_code (Elem_Byte b) = [b]"
| "elem_code (Elem_Class k) = [0, class_code k]"

fun elem_matches :: "elem \<Rightarrow> byte \<Rightarrow> bool" where
  "elem_matches (Elem_Byte b) c \<longleftrightarrow> c = b"
| "elem_matches (Elem_Class k) c \<longleftrightarrow> in_class k c"

datatype atom = Exact "byte list" | Any_Char | Any_Of "elem list" | Any_But "elem list" | Meta elem

definition elems_code :: "elem list \<Rightarrow> byte list" where
  "elems_code es = concat (map elem_code es)"

fun atom_code :: "atom \<Rightarrow> byte list" where
  "atom_code (Exact s) = REGEXOP_EXACT_MATCH # of_nat (length s) # s"
| "atom_code Any_Char = [REGEXOP_ANY]"
| "atom_code (Any_Of es) = REGEXOP_ANY_OF # of_nat (length (elems_code es)) # elems_code es"
| "atom_code (Any_But es) = REGEXOP_ANY_BUT # of_nat (length (elems_code es)) # elems_code es"
| "atom_code (Meta e) = REGEXOP_META_MATCH # elem_code e"

fun atom_width :: "atom \<Rightarrow> nat" where
  "atom_width (Exact s) = length s"
| "atom_width a = 1"

text \<open>Whether the atom matches the first \<open>n\<close> bytes of the input at the offset \<open>i\<close>.\<close>

fun atom_at :: "byte list \<Rightarrow> nat \<Rightarrow> atom \<Rightarrow> nat \<Rightarrow> bool" where
  "atom_at input n (Exact s) i \<longleftrightarrow> i + length s \<le> n \<and> take (length s) (drop i input) = s"
| "atom_at input n Any_Char i \<longleftrightarrow> i < n"
| "atom_at input n (Any_Of es) i \<longleftrightarrow> i < n \<and> (\<exists>e\<in>set es. elem_matches e (input ! i))"
| "atom_at input n (Any_But es) i \<longleftrightarrow> i < n \<and> \<not> (\<exists>e\<in>set es. elem_matches e (input ! i))"
| "atom_at input n (Meta e) i \<longleftrightarrow> i < n \<and> elem_matches e (input ! i)"

definition atom_step :: "byte list \<Rightarrow> nat \<Rightarrow> atom \<Rightarrow> nat \<Rightarrow> nat \<Rightarrow> bool" where
  "atom_step input n a i j \<longleftrightarrow> atom_at input n a i \<and> j = i + atom_width a"

definition byte_elems :: "elem list \<Rightarrow> bool" where
  "byte_elems es \<longleftrightarrow> Elem_Byte 0 \<notin> set es \<and> length (elems_code es) \<le> 255"

fun wf_atom :: "atom \<Rightarrow> bool" where
  "wf_atom (Exact s) \<longleftrightarrow> s \<noteq> [] \<and> length s \<le> 255"
| "wf_atom Any_Char \<longleftrightarrow> True"
| "wf_atom (Any_Of es) \<longleftrightarrow> byte_elems es"
| "wf_atom (Any_But es) \<longleftrightarrow> byte_elems es"
| "wf_atom (Meta e) \<longleftrightarrow> e \<noteq> Elem_Byte 0"

lemma atom_width_pos: "wf_atom a \<Longrightarrow> 0 < atom_width a"
  by (cases a) auto

lemma atom_at_bound: "wf_atom a \<Longrightarrow> atom_at input n a i \<Longrightarrow> i + atom_width a \<le> n"
  by (cases a) auto

section \<open>Code at an offset\<close>

definition has_code :: "byte list \<Rightarrow> nat \<Rightarrow> byte list \<Rightarrow> bool" where
  "has_code code op xs \<longleftrightarrow> op + length xs \<le> length code \<and> take (length xs) (drop op code) = xs"

lemma has_code_append: "has_code code op (xs @ ys) \<longleftrightarrow> has_code code op xs \<and> has_code code (op + length xs) ys"
  by (auto simp: has_code_def take_add add.commute append_eq_append_conv_if min_def)

lemma has_code_Cons: "has_code code op (x # xs) \<longleftrightarrow> mem_get code op = Some x \<and> has_code code (op + 1) xs"
proof (cases "op < length code")
  case True
  then have "drop op code = code ! op # drop (op + 1) code" by (simp add: Cons_nth_drop_Suc)
  then show ?thesis using True by (auto simp: has_code_def mem_get_def)
next
  case False
  then show ?thesis by (auto simp: has_code_def mem_get_def)
qed

lemma has_code_load: "has_code code op xs \<Longrightarrow> mem_load code op (length xs) = Some xs"
  by (simp add: has_code_def mem_load_def)

section \<open>Atoms\<close>

lemma char_in_iff:
  assumes "length chars < STRING_NPOS"
  shows "char_in chars c \<longleftrightarrow> c \<in> set chars"
proof (cases "List.find (\<lambda>i. chars ! i = c) [0..<length chars]")
  case None
  then have "\<not> char_in chars c" by (simp add: char_in_def string_find_find npos_def)
  moreover have "c \<notin> set chars" using None by (auto simp: find_None_iff in_set_conv_nth)
  ultimately show ?thesis by simp
next
  case (Some i)
  then have "i < length chars" "chars ! i = c" by (auto simp: find_Some_iff)
  then show ?thesis using Some assms
    by (auto simp: char_in_def string_find_find npos_def in_set_conv_nth)
qed

lemma char_in_constants:
  "char_in whitespace_chars c \<longleftrightarrow> c \<in> {9, 10, 11, 12, 13, 32}"
  "char_in digit_chars c \<longleftrightarrow> 48 \<le> c \<and> c \<le> 57"
  "char_in REGEX_META_CHARACTERS c \<longleftrightarrow> c \<in> set REGEX_META_CHARACTERS"
proof -
  show "char_in whitespace_chars c \<longleftrightarrow> c \<in> {9, 10, 11, 12, 13, 32}"
    by (subst char_in_iff) (auto simp: whitespace_chars_def STRING_NPOS_def SIZE_MOD_def)
  have "c \<in> set digit_chars \<longleftrightarrow> unat c \<in> {48..57}"
    unfolding digit_chars_def by (simp add: word_unat_eq_iff) presburger
  then show "char_in digit_chars c \<longleftrightarrow> 48 \<le> c \<and> c \<le> 57"
    by (subst char_in_iff) (auto simp: digit_chars_def STRING_NPOS_def SIZE_MOD_def word_le_nat_alt)
  show "char_in REGEX_META_CHARACTERS c \<longleftrightarrow> c \<in> set REGEX_META_CHARACTERS"
    by (subst char_in_iff) (auto simp: REGEX_META_CHARACTERS_def STRING_NPOS_def SIZE_MOD_def)
qed

lemma match_escape_class: "regex_match_escape c (uint (class_code k) * 256) \<longleftrightarrow> in_class k c"
  by (cases k) (simp_all add: regex_match_escape_def regexcode_defs char_in_constants)

lemma elem_code_not_Nil: "elem_code e \<noteq> []" and length_elem_code: "0 < length (elem_code e)"
  by (cases e; simp)+

lemma elems_code_simps [simp]: "elems_code [] = []" "elems_code (e # es) = elem_code e @ elems_code es"
  by (simp_all add: elems_code_def)

lemma scan_set_elems:
  assumes "has_code code (op + ibuf) (elems_code es)" "Elem_Byte 0 \<notin> set es"
    "buffer_len = ibuf + length (elems_code es)"
  shows "scan_set code op buffer_len c ibuf =
    Some (\<exists>e\<in>set es. elem_matches e c, \<not> (\<exists>e\<in>set es. elem_matches e c))"
  using assms
proof (induction es arbitrary: ibuf)
  case Nil
  then show ?case by (simp add: scan_set.simps)
next
  case (Cons e es)
  show ?case
  proof (cases e)
    case (Elem_Byte b)
    then show ?thesis using Cons.prems Cons.IH [of "ibuf + 1"]
      by (subst scan_set.simps) (simp add: has_code_Cons ac_simps)
  next
    case (Elem_Class k)
    then show ?thesis using Cons.prems Cons.IH [of "ibuf + 2"]
      by (subst scan_set.simps) (auto simp: has_code_Cons match_escape_class ac_simps)
  qed
qed

text \<open>The input is followed by a readable byte, and the sizes are below the error values.\<close>

definition fits :: "regex_t \<Rightarrow> byte list \<Rightarrow> nat \<Rightarrow> bool" where
  "fits rx input n \<longleftrightarrow> n < length input \<and> n + 3 < SIZE_MOD \<and> rx_code_length rx < REGEXRES_NOMATCH"

lemma fits_nomatch: "fits rx input n \<Longrightarrow> n < REGEXRES_NOMATCH"
  by (auto simp: fits_def REGEXRES_NOMATCH_def)

text \<open>What a call on an atom returns: the operation behind the atom, and an offset only if the atom matches.\<close>

definition atom_context :: "byte list \<Rightarrow> nat \<Rightarrow> atom \<Rightarrow> size_t \<Rightarrow> size_t \<Rightarrow> regex_context_t \<Rightarrow> bool" where
  "atom_context input n a op i cx \<longleftrightarrow> cx_op cx = op + length (atom_code a) \<and>
     cx_inoffset cx \<noteq> REGEXRES_INTERNAL_FAILURE \<and>
     (if atom_at input n a i then cx_inoffset cx = i + atom_width a else cx_inoffset cx > n)"

lemma atom_context_simps:
  assumes "fits rx input n" "i \<le> n" "wf_atom a"
  shows "atom_context input n a op i (regex_context_nomatch op') \<longleftrightarrow> op' = op + length (atom_code a) \<and> \<not> atom_at input n a i"
    "atom_at input n a i \<Longrightarrow> atom_context input n a op i (mk_context op' j) \<longleftrightarrow> op' = op + length (atom_code a) \<and> j = i + atom_width a"
proof -
  have "n < REGEXRES_NOMATCH" "REGEXRES_NOMATCH \<noteq> REGEXRES_INTERNAL_FAILURE" "n + 1 < REGEXRES_INTERNAL_FAILURE"
    using assms(1) by (auto simp: fits_def regexerr_defs SIZE_MOD_def)
  then show "atom_context input n a op i (regex_context_nomatch op') \<longleftrightarrow> op' = op + length (atom_code a) \<and> \<not> atom_at input n a i"
    "atom_at input n a i \<Longrightarrow> atom_context input n a op i (mk_context op' j) \<longleftrightarrow> op' = op + length (atom_code a) \<and> j = i + atom_width a"
    using atom_at_bound [OF assms(3), of input n i] by (auto simp: atom_context_def regex_context_nomatch_def)
qed

lemma match_set_elems:
  assumes "fits rx input n" "i \<le> n" "byte_elems es" "has_code code (op + 1) (of_nat (length (elems_code es)) # elems_code es)"
  shows "\<exists>cx. match_any_of code input n (op + 1) i = Some cx \<and> atom_context input n (Any_Of es) op i cx"
    "\<exists>cx. match_any_but code input n (op + 1) i = Some cx \<and> atom_context input n (Any_But es) op i cx"
proof -
  have i: "mem_get input i = Some (input ! i)" using assms(1,2) by (simp add: fits_def mem_get_def)
  have es: "Elem_Byte 0 \<notin> set es" and len: "unat (of_nat (length (elems_code es)) :: byte) = length (elems_code es)"
    using assms(3) by (auto simp: byte_elems_def unsigned_of_nat take_bit_nat_eq_self)
  note code = assms(4) [unfolded has_code_Cons]
  have scan: "scan_set code (op + 1 + 1) (length (elems_code es)) c 0 =
      Some (\<exists>e\<in>set es. elem_matches e c, \<not> (\<exists>e\<in>set es. elem_matches e c))" for c
    using scan_set_elems [of code "op + 1 + 1" 0 es "length (elems_code es)" c] code es by simp
  note ctx = atom_context_simps [OF assms(1,2)]
  show "\<exists>cx. match_any_of code input n (op + 1) i = Some cx \<and> atom_context input n (Any_Of es) op i cx"
    unfolding match_any_of_def using code assms(3)
    by (auto simp: i len scan [simplified] ctx Let_def)
  show "\<exists>cx. match_any_but code input n (op + 1) i = Some cx \<and> atom_context input n (Any_But es) op i cx"
    unfolding match_any_but_def using code assms(3)
    by (auto simp: i len scan [simplified] ctx Let_def)
qed

lemma match_exact_atom:
  assumes "fits rx input n" "i \<le> n" "wf_atom (Exact s)" "has_code code (op + 1) (of_nat (length s) # s)"
  shows "\<exists>cx. match_exact code input n (op + 1) i = Some cx \<and> atom_context input n (Exact s) op i cx"
proof -
  have len: "unat (of_nat (length s) :: byte) = length s" using assms(3) by (simp add: unsigned_of_nat take_bit_nat_eq_self)
  note code = assms(4) [unfolded has_code_Cons]
  have y: "mem_load code (op + 1 + 1) (length s) = Some s" using code by (simp add: has_code_load)
  have x: "i + length s \<le> n \<Longrightarrow> mem_load input i (length s) = Some (take (length s) (drop i input))"
    using assms(1) by (simp add: fits_def mem_load_def)
  show ?thesis
    unfolding match_exact_def using code assms(2,3) x
    by (auto simp: len y [simplified] Let_def atom_context_simps [OF assms(1,2,3)])
qed

lemma match_meta_atom:
  assumes "fits rx input n" "i \<le> n" "wf_atom (Meta e)" "has_code code (op + 1) (elem_code e)"
  shows "\<exists>cx. match_meta code input (op + 1) i = Some cx \<and> atom_context input n (Meta e) op i cx"
proof -
  have i: "mem_get input i = Some (input ! i)" using assms(1,2) by (simp add: fits_def mem_get_def)
  have past: "atom_context input n (Meta e) op n (mk_context op' (Suc n)) \<longleftrightarrow> op' = op + length (atom_code (Meta e))"
    "atom_context input n (Meta e) op n (regex_context_nomatch op') \<longleftrightarrow> op' = op + length (atom_code (Meta e))" for op' e
    using assms(1) by (auto simp: atom_context_def regex_context_nomatch_def fits_def regexerr_defs SIZE_MOD_def)
  show ?thesis
  proof (cases "i = n")
    case True
    show ?thesis unfolding True using assms(3,4)
      by (cases e) (auto simp: match_meta_def has_code_Cons i [unfolded True] past match_escape_class)
  next
    case False
    then have "i < n" using assms(2) by simp
    then show ?thesis using assms(3,4)
      by (cases e) (auto simp: match_meta_def has_code_Cons i match_escape_class atom_context_simps [OF assms(1,2)])
  qed
qed

section \<open>Runs\<close>

lemma regex_run_simps:
  "regex_run rx input n (Execute_Single op i, caps) = regex_execute_single (regex_run rx input n) rx input n op i caps"
  "regex_run rx input n (Execute op i, caps) = regex_execute (regex_run rx input n) rx n op i caps"
  "regex_run rx input n (Consume_Longest op i best, caps) = regex_consume_longest (regex_run rx input n) rx n op i best caps"
  "regex_run rx input n (Consume_Shortest op i best, caps) = regex_consume_shortest (regex_run rx input n) rx n op i best caps"
  by (subst regex_run.simps, simp)+

lemma single_atom:
  assumes "fits rx input n" "i \<le> n" "wf_atom a" "has_code (rx_code rx) op (atom_code a)"
  shows "\<exists>cx. regex_run rx input n (Execute_Single op i, caps) = ret (cx, caps) \<and> atom_context input n a op i cx"
proof -
  have "\<exists>cx. simple_op (rx_code rx) input n (hd (atom_code a)) (op + 1) i caps = Some (cx, caps) \<and> atom_context input n a op i cx"
  proof (cases a)
    case (Exact s)
    then show ?thesis using match_exact_atom [of rx input n i s "rx_code rx" op] assms
      by (auto simp: simple_op_def regexop_defs has_code_Cons)
  next
    case Any_Char
    then show ?thesis using assms atom_context_simps [OF assms(1,2), of Any_Char] by (auto simp: simple_op_def regexop_defs)
  next
    case (Any_Of es)
    then show ?thesis using match_set_elems(1) [of rx input n i es "rx_code rx" op] assms
      by (auto simp: simple_op_def regexop_defs has_code_Cons)
  next
    case (Any_But es)
    then show ?thesis using match_set_elems(2) [of rx input n i es "rx_code rx" op] assms
      by (auto simp: simple_op_def regexop_defs has_code_Cons)
  next
    case (Meta e)
    then show ?thesis using match_meta_atom [of rx input n i e "rx_code rx" op] assms
      by (auto simp: simple_op_def regexop_defs has_code_Cons)
  qed
  moreover have "mem_get (rx_code rx) op = Some (hd (atom_code a))" "hd (atom_code a) \<le> 8"
    using assms(4) by (cases a; simp add: has_code_Cons regexop_defs)+
  ultimately show ?thesis
    by (auto simp: regex_run_simps(1) regex_execute_single_def regexop_defs)
qed

text \<open>
  The run from \<open>op\<close> returns; it succeeds from the offset \<open>i\<close> if and only if \<open>K i\<close>, and then it ends
  behind the code.
\<close>

definition runs_as :: "regex_t \<Rightarrow> byte list \<Rightarrow> nat \<Rightarrow> size_t \<Rightarrow> (nat \<Rightarrow> bool) \<Rightarrow> bool" where
  "runs_as rx input n op K \<longleftrightarrow> (\<forall>i\<le>n. \<forall>caps. \<exists>cx caps'.
     regex_run rx input n (Execute op i, caps) = ret (cx, caps') \<and> cx_inoffset cx \<noteq> REGEXRES_INTERNAL_FAILURE \<and>
     (if K i then cx_inoffset cx \<le> n \<and> cx_op cx = rx_code_length rx else cx_inoffset cx > n))"

lemma runs_asD:
  assumes "runs_as rx input n op K" "i \<le> n"
  obtains cx caps' where "regex_run rx input n (Execute op i, caps) = ret (cx, caps')"
    "cx_inoffset cx \<noteq> REGEXRES_INTERNAL_FAILURE"
    "if K i then cx_inoffset cx \<le> n \<and> cx_op cx = rx_code_length rx else cx_inoffset cx > n"
  using assms unfolding runs_as_def by metis

lemma execute_end: "rx_code_length rx \<le> op \<Longrightarrow> regex_run rx input n (Execute op i, caps) = ret (mk_context op i, caps)"
  by (simp add: regex_run_simps(2) regex_execute_def)

lemma runs_as_end: "fits rx input n \<Longrightarrow> runs_as rx input n (rx_code_length rx) (\<lambda>i. True)"
  by (auto simp: runs_as_def execute_end fits_def regexerr_defs)

lemma execute_step:
  assumes "op < rx_code_length rx" "regex_run rx input n (Execute_Single op i, caps) = ret (cx, caps')"
  shows "regex_run rx input n (Execute op i, caps) =
    (if cx_inoffset cx > n then ret (cx, caps') else regex_run rx input n (Execute (cx_op cx) (cx_inoffset cx), caps'))"
  using assms by (simp add: regex_run_simps(2) regex_execute_def)

text \<open>An operation that always goes on at \<open>op'\<close>, or fails, and one whose call has run the rest already.\<close>

lemma runs_as_stepI:
  assumes "op < rx_code_length rx" "runs_as rx input n op' K"
    and "\<And>i caps. i \<le> n \<Longrightarrow> \<exists>cx caps'. regex_run rx input n (Execute_Single op i, caps) = ret (cx, caps') \<and>
      cx_inoffset cx \<noteq> REGEXRES_INTERNAL_FAILURE \<and>
      (if P i then cx_op cx = op' \<and> cx_inoffset cx = g i \<and> g i \<le> n else cx_inoffset cx > n)"
  shows "runs_as rx input n op (\<lambda>i. P i \<and> K (g i))"
  unfolding runs_as_def
proof (intro allI impI)
  fix i caps assume i: "i \<le> n"
  then obtain cx caps' where s: "regex_run rx input n (Execute_Single op i, caps) = ret (cx, caps')"
      "cx_inoffset cx \<noteq> REGEXRES_INTERNAL_FAILURE"
      "if P i then cx_op cx = op' \<and> cx_inoffset cx = g i \<and> g i \<le> n else cx_inoffset cx > n"
    using assms(3) by blast
  show "\<exists>cx caps'. regex_run rx input n (Execute op i, caps) = ret (cx, caps') \<and> cx_inoffset cx \<noteq> REGEXRES_INTERNAL_FAILURE \<and>
      (if P i \<and> K (g i) then cx_inoffset cx \<le> n \<and> cx_op cx = rx_code_length rx else cx_inoffset cx > n)"
  proof (cases "P i")
    case True
    then have gi: "g i \<le> n" using s(3) by simp
    obtain cy caps'' where r: "regex_run rx input n (Execute op' (g i), caps') = ret (cy, caps'')"
      "cx_inoffset cy \<noteq> REGEXRES_INTERNAL_FAILURE"
      "if K (g i) then cx_inoffset cy \<le> n \<and> cx_op cy = rx_code_length rx else cx_inoffset cy > n"
      by (rule runs_asD [OF assms(2) gi, where caps = caps'])
    have "regex_run rx input n (Execute op i, caps) = ret (cy, caps'')"
      using execute_step [OF assms(1) s(1)] s(3) True r(1) by simp
    then show ?thesis using r(2,3) True by (cases "K (g i)") auto
  next
    case False
    then show ?thesis using execute_step [OF assms(1) s(1)] s by auto
  qed
qed

section \<open>Operations that go on behind themselves\<close>

lemma runs_as_atom:
  assumes "fits rx input n" "wf_atom a" "op < rx_code_length rx" "has_code (rx_code rx) op (atom_code a)"
    "runs_as rx input n (op + length (atom_code a)) K"
  shows "runs_as rx input n op (\<lambda>i. \<exists>j. atom_step input n a i j \<and> K j)"
proof -
  have "runs_as rx input n op (\<lambda>i. atom_at input n a i \<and> K (i + atom_width a))"
  proof (rule runs_as_stepI [OF assms(3,5)])
    fix i caps assume "i \<le> n"
    then show "\<exists>cx caps'. regex_run rx input n (Execute_Single op i, caps) = ret (cx, caps') \<and>
        cx_inoffset cx \<noteq> REGEXRES_INTERNAL_FAILURE \<and>
        (if atom_at input n a i then cx_op cx = op + length (atom_code a) \<and> cx_inoffset cx = i + atom_width a \<and> i + atom_width a \<le> n
         else cx_inoffset cx > n)"
      using single_atom [OF assms(1) _ assms(2,4), of i caps] atom_at_bound [OF assms(2), of input n i]
      by (auto simp: atom_context_def split: if_splits)
  qed
  then show ?thesis by (simp add: atom_step_def)
qed

lemma nomatch_context:
  "fits rx input n \<Longrightarrow> cx_inoffset (regex_context_nomatch op) > n \<and> cx_inoffset (regex_context_nomatch op) \<noteq> REGEXRES_INTERNAL_FAILURE"
  by (auto simp: regex_context_nomatch_def fits_def regexerr_defs SIZE_MOD_def)

lemma below_failure: "fits rx input n \<Longrightarrow> i \<le> n \<Longrightarrow> i \<noteq> REGEXRES_INTERNAL_FAILURE"
  by (auto simp: fits_def regexerr_defs SIZE_MOD_def)

text \<open>The operations that do not read the input.\<close>

lemma runs_as_anchor:
  assumes "fits rx input n" "op < rx_code_length rx" "runs_as rx input n (op + 1) K"
  shows "mem_get (rx_code rx) op = Some REGEXOP_BEGINNING_OF_LINE \<Longrightarrow> runs_as rx input n op (\<lambda>i. i = 0 \<and> K i)"
    "mem_get (rx_code rx) op = Some REGEXOP_END_OF_LINE \<Longrightarrow> runs_as rx input n op (\<lambda>i. i = n \<and> K i)"
  by (rule runs_as_stepI [OF assms(2,3)]; use nomatch_context [OF assms(1)] below_failure [OF assms(1)] in
      \<open>auto simp: regex_run_simps(1) regex_execute_single_def simple_op_def regexop_defs\<close>)+

lemma runs_as_skip:
  assumes "op < rx_code_length rx" "runs_as rx input n op' K"
    and "\<And>i caps. i \<le> n \<Longrightarrow> \<exists>caps'. regex_run rx input n (Execute_Single op i, caps) = ret (mk_context op' i, caps')"
    and "fits rx input n"
  shows "runs_as rx input n op K"
  using runs_as_stepI [OF assms(1,2), of "\<lambda>i. True" "\<lambda>i. i"] assms(3) below_failure [OF assms(4)] by fastforce

lemma runs_as_capture:
  assumes "fits rx input n" "op < rx_code_length rx" "runs_as rx input n (op + 2) K" "mem_get (rx_code rx) (op + 1) = Some c"
    "mem_get (rx_code rx) op \<in> {Some REGEXOP_BEGIN_CAPTURE, Some REGEXOP_END_CAPTURE}"
  shows "runs_as rx input n op K"
  by (rule runs_as_skip [OF assms(2,3) _ assms(1)])
    (use assms(4,5) in \<open>auto simp: regex_run_simps(1) regex_execute_single_def simple_op_def regexop_defs\<close>)

lemma runs_as_branch_end:
  assumes "fits rx input n" "op < rx_code_length rx" "mem_get (rx_code rx) op = Some REGEXOP_BRANCH_END"
    "mem_get (rx_code rx) (op + 1) = Some skip" "runs_as rx input n (op + 2 + unat skip) K"
  shows "runs_as rx input n op K"
  by (rule runs_as_skip [OF assms(2,5) _ assms(1)])
    (use assms(3,4) in \<open>auto simp: regex_run_simps(1) regex_execute_single_def simple_op_def regexop_defs\<close>)

section \<open>Operations that run the rest of the code\<close>

text \<open>The call of a single operation has run the rest, which succeeds if \<open>K\<close> holds, or goes on at \<open>op'\<close>.\<close>

lemma runs_as_restI:
  assumes "op < rx_code_length rx" "fits rx input n"
    and "\<And>i caps. i \<le> n \<Longrightarrow> \<exists>cx caps'. regex_run rx input n (Execute_Single op i, caps) = ret (cx, caps') \<and>
      cx_inoffset cx \<noteq> REGEXRES_INTERNAL_FAILURE \<and>
      (if K i then cx_inoffset cx \<le> n \<and> cx_op cx = rx_code_length rx
       else cx_inoffset cx > n)"
  shows "runs_as rx input n op K"
  unfolding runs_as_def
proof (intro allI impI)
  fix i caps assume i: "i \<le> n"
  then obtain cx caps' where s: "regex_run rx input n (Execute_Single op i, caps) = ret (cx, caps')"
      "cx_inoffset cx \<noteq> REGEXRES_INTERNAL_FAILURE"
      "if K i then cx_inoffset cx \<le> n \<and> cx_op cx = rx_code_length rx else cx_inoffset cx > n"
    using assms(3) by blast
  show "\<exists>cx caps'. regex_run rx input n (Execute op i, caps) = ret (cx, caps') \<and> cx_inoffset cx \<noteq> REGEXRES_INTERNAL_FAILURE \<and>
      (if K i then cx_inoffset cx \<le> n \<and> cx_op cx = rx_code_length rx else cx_inoffset cx > n)"
    using execute_step [OF assms(1) s(1)] s(2,3) by (cases "K i") (auto simp: execute_end)
qed

lemma runs_as_branch:
  assumes "fits rx input n" "op < rx_code_length rx" "mem_get (rx_code rx) op = Some REGEXOP_BRANCH"
    "mem_get (rx_code rx) (op + 1) = Some skip" "runs_as rx input n (op + 2) K" "runs_as rx input n (op + 2 + unat skip) K'"
  shows "runs_as rx input n op (\<lambda>i. K i \<or> K' i)"
proof (rule runs_as_restI [OF assms(2,1)])
  fix i caps assume i: "i \<le> n"
  obtain cx caps' where a: "regex_run rx input n (Execute (op + 2) i, caps) = ret (cx, caps')"
      "cx_inoffset cx \<noteq> REGEXRES_INTERNAL_FAILURE"
      "if K i then cx_inoffset cx \<le> n \<and> cx_op cx = rx_code_length rx else cx_inoffset cx > n"
    by (rule runs_asD [OF assms(5) i, where caps = caps])
  obtain cy caps'' where b: "regex_run rx input n (Execute (op + 2 + unat skip) i, caps') = ret (cy, caps'')"
      "cx_inoffset cy \<noteq> REGEXRES_INTERNAL_FAILURE"
      "if K' i then cx_inoffset cy \<le> n \<and> cx_op cy = rx_code_length rx else cx_inoffset cy > n"
    by (rule runs_asD [OF assms(6) i, where caps = caps'])
  have "regex_run rx input n (Execute_Single op i, caps) = (if K i then ret (cx, caps') else ret (cy, caps''))"
    using a b assms(3,4) by (cases "K i") (auto simp: regex_run_simps(1) regex_execute_single_def execute_branch_def regexop_defs)
  then show "\<exists>cx caps'. regex_run rx input n (Execute_Single op i, caps) = ret (cx, caps') \<and>
      cx_inoffset cx \<noteq> REGEXRES_INTERNAL_FAILURE \<and>
      (if K i \<or> K' i then cx_inoffset cx \<le> n \<and> cx_op cx = rx_code_length rx else cx_inoffset cx > n)"
    using a(2,3) b(2,3) by (cases "K i") auto
qed

section \<open>Quantified atoms\<close>

text \<open>Some positive number of matches of the atom leads to an offset with \<open>K\<close>.\<close>

definition reaches :: "byte list \<Rightarrow> nat \<Rightarrow> atom \<Rightarrow> (nat \<Rightarrow> bool) \<Rightarrow> nat \<Rightarrow> bool" where
  "reaches input n a K i \<longleftrightarrow> (\<exists>j. (atom_step input n a)\<^sup>+\<^sup>+ i j \<and> K j)"

lemma reaches_unfold:
  "reaches input n a K i \<longleftrightarrow> atom_at input n a i \<and> (K (i + atom_width a) \<or> reaches input n a K (i + atom_width a))"
proof -
  have "(atom_step input n a)\<^sup>+\<^sup>+ i j \<longleftrightarrow> atom_at input n a i \<and>
      (j = i + atom_width a \<or> (atom_step input n a)\<^sup>+\<^sup>+ (i + atom_width a) j)" for j
    by (auto simp: atom_step_def elim: tranclp.cases dest: tranclpD rtranclpD intro: tranclp_into_tranclp2)
      (metis (no_types, lifting) atom_step_def rtranclpD tranclpD)
  then show ?thesis by (auto simp: reaches_def)
qed

lemma star_reaches: "(\<exists>j. (atom_step input n a)\<^sup>*\<^sup>* i j \<and> K j) \<longleftrightarrow> K i \<or> reaches input n a K i"
  by (auto simp: reaches_def dest: rtranclpD tranclp_into_rtranclp)

definition consumed :: "regex_t \<Rightarrow> nat \<Rightarrow> size_t \<Rightarrow> bool \<Rightarrow> regex_context_t \<Rightarrow> regex_context_t \<Rightarrow> bool" where
  "consumed rx n op' success best cx \<longleftrightarrow>
     (if success \<or> cx_op best = rx_code_length rx then cx_op cx = rx_code_length rx \<and> cx_inoffset cx \<le> n
      else cx = mk_context op' (cx_inoffset best))"

definition best_ok :: "regex_t \<Rightarrow> nat \<Rightarrow> regex_context_t \<Rightarrow> bool" where
  "best_ok rx n best \<longleftrightarrow> (cx_op best = rx_code_length rx \<or> cx_op best = REGEXRES_NOMATCH) \<and> cx_inoffset best \<le> n"

lemma best_or_next_consumed:
  assumes "fits rx input n" "best_ok rx n best" "cx_op cx = op'"
  shows "consumed rx n op' False best (best_or_next rx best cx)"
  using assms by (cases best) (auto simp: consumed_def best_ok_def best_or_next_def fits_def)

lemma consume_longest:
  assumes "fits rx input n" "wf_atom a" "has_code (rx_code rx) op (atom_code a)" "op' = op + length (atom_code a)"
    "op' \<le> rx_code_length rx" "runs_as rx input n op' K" "best_ok rx n best" "i \<le> n"
  shows "\<exists>cx caps'. regex_run rx input n (Consume_Longest op i best, caps) = ret (cx, caps') \<and>
    consumed rx n op' (reaches input n a K i) best cx"
  using assms(7,8)
proof (induction "n - i" arbitrary: i best caps rule: less_induct)
  case less
  obtain cx where s: "regex_run rx input n (Execute_Single op i, None) = ret (cx, None)" "atom_context input n a op i cx"
    using single_atom [OF assms(1) less.prems(2) assms(2,3)] by blast
  note unf = regex_run_simps(3) regex_consume_longest_def s(1)
  have op': "cx_op cx = op'" using s(2) assms(4) by (simp add: atom_context_def)
  show ?case
  proof (cases "atom_at input n a i")
    case False
    then have "\<not> reaches input n a K i" "cx_inoffset cx > n"
      using reaches_unfold [of input n a K i] s(2) by (auto simp: atom_context_def)
    then show ?thesis using best_or_next_consumed [OF assms(1) less.prems(1) op'] by (simp add: unf)
  next
    case True
    define i' where "i' = i + atom_width a"
    have i': "i' \<le> n" "i < i'" and cx: "cx_inoffset cx = i'"
      using atom_at_bound [OF assms(2) True] atom_width_pos [OF assms(2)] s(2) True by (auto simp: i'_def atom_context_def)
    have reach: "reaches input n a K i \<longleftrightarrow> K i' \<or> reaches input n a K i'"
      using reaches_unfold [of input n a K i] True by (simp add: i'_def)
    have at: "\<exists>cy caps'. regex_run rx input n (Execute op' i', caps) = ret (cy, caps') \<and>
        (if K i' then cx_inoffset cy \<le> n \<and> cx_op cy = rx_code_length rx else cx_inoffset cy > n)" for caps
      using assms(6) i'(1) unfolding runs_as_def by meson
    show ?thesis
    proof (cases "rx_code_length rx \<le> op'")
      case end': True
      then have "K i'" using at [of None] i'(1) by (auto simp: execute_end split: if_splits)
      then show ?thesis using end' assms(5) i'(1) reach by (auto simp: unf cx op' consumed_def)
    next
      case False
      obtain cy caps0 where r: "regex_run rx input n (Execute op' i', None) = ret (cy, caps0)"
          "if K i' then cx_inoffset cy \<le> n \<and> cx_op cy = rx_code_length rx else cx_inoffset cy > n"
        using at by blast
      obtain cz caps1 where r': "regex_run rx input n (Execute op' i', caps) = ret (cz, caps1)"
        using at by blast
      have dec: "n - i' < n - i" using i' by simp
      define caps2 where "caps2 = (if caps = None then None else caps1)"
      have step: "regex_run rx input n (Consume_Longest op i best, caps) =
          (if K i' then regex_run rx input n (Consume_Longest op i' cy, caps2)
           else regex_run rx input n (Consume_Longest op i' best, caps))"
        by (subst regex_run_simps(3)) (use r r' False i'(1) in \<open>auto simp: regex_consume_longest_def s(1) cx op' caps2_def\<close>)
      show ?thesis
      proof (cases "K i'")
        case True
        then have "best_ok rx n cy" using r(2) by (simp add: best_ok_def)
        from less.hyps [OF dec this i'(1), of caps2] r(2) True show ?thesis
          by (auto simp: step consumed_def reach)
      next
        case notK: False
        from less.hyps [OF dec less.prems(1) i'(1), of caps] notK show ?thesis
          by (simp add: step reach)
      qed
    qed
  qed
qed

lemma consume_shortest:
  assumes "fits rx input n" "wf_atom a" "has_code (rx_code rx) op (atom_code a)" "op' = op + length (atom_code a)"
    "op' \<le> rx_code_length rx" "runs_as rx input n op' K" "best_ok rx n best" "i \<le> n"
  shows "\<exists>cx caps'. regex_run rx input n (Consume_Shortest op i best, caps) = ret (cx, caps') \<and>
    consumed rx n op' (reaches input n a K i) best cx"
  using assms(8)
proof (induction "n - i" arbitrary: i rule: less_induct)
  case less
  obtain cx where s: "regex_run rx input n (Execute_Single op i, None) = ret (cx, None)" "atom_context input n a op i cx"
    using single_atom [OF assms(1) less.prems assms(2,3)] by blast
  note unf = regex_run_simps(4) regex_consume_shortest_def s(1)
  have op': "cx_op cx = op'" using s(2) assms(4) by (simp add: atom_context_def)
  show ?case
  proof (cases "atom_at input n a i")
    case False
    then have "\<not> reaches input n a K i" "cx_inoffset cx > n"
      using reaches_unfold [of input n a K i] s(2) by (auto simp: atom_context_def)
    then show ?thesis using best_or_next_consumed [OF assms(1,7) op'] by (simp add: unf)
  next
    case True
    define i' where "i' = i + atom_width a"
    have i': "i' \<le> n" "i < i'" and cx: "cx_inoffset cx = i'"
      using atom_at_bound [OF assms(2) True] atom_width_pos [OF assms(2)] s(2) True by (auto simp: i'_def atom_context_def)
    have reach: "reaches input n a K i \<longleftrightarrow> K i' \<or> reaches input n a K i'"
      using reaches_unfold [of input n a K i] True by (simp add: i'_def)
    have at: "\<exists>cy caps'. regex_run rx input n (Execute op' i', caps) = ret (cy, caps') \<and>
        (if K i' then cx_inoffset cy \<le> n \<and> cx_op cy = rx_code_length rx else cx_inoffset cy > n)" for caps
      using assms(6) i'(1) unfolding runs_as_def by meson
    show ?thesis
    proof (cases "rx_code_length rx \<le> op'")
      case end': True
      then have "K i'" using at [of None] i'(1) by (auto simp: execute_end split: if_splits)
      then show ?thesis using end' assms(5) i'(1) reach by (auto simp: unf cx op' consumed_def)
    next
      case False
      obtain cy caps0 where r: "regex_run rx input n (Execute op' i', None) = ret (cy, caps0)"
          "if K i' then cx_inoffset cy \<le> n \<and> cx_op cy = rx_code_length rx else cx_inoffset cy > n"
        using at by blast
      obtain cz caps1 where r': "regex_run rx input n (Execute op' i', caps) = ret (cz, caps1)"
        using at by blast
      have step: "regex_run rx input n (Consume_Shortest op i best, caps) =
          (if K i' then ret (cy, if caps = None then None else caps1)
           else regex_run rx input n (Consume_Shortest op i' best, caps))"
        by (subst regex_run_simps(4))
          (use r r' False i'(1) in \<open>auto simp: regex_consume_shortest_def s(1) cx op' best_or_next_def\<close>)
      show ?thesis
      proof (cases "K i'")
        case True
        then show ?thesis using r(2) by (auto simp: step consumed_def reach)
      next
        case notK: False
        have "n - i' < n - i" using i' by simp
        from less.hyps [OF this i'(1)] notK show ?thesis by (simp add: step reach)
      qed
    qed
  qed
qed

datatype quantifier = Zero_Or_More | One_Or_More | Zero_Or_More_Shortest | One_Or_More_Shortest | Zero_Or_One

fun quantifier_code :: "quantifier \<Rightarrow> byte" where
  "quantifier_code Zero_Or_More = REGEXOP_ZERO_OR_MORE"
| "quantifier_code One_Or_More = REGEXOP_ONE_OR_MORE"
| "quantifier_code Zero_Or_More_Shortest = REGEXOP_ZERO_OR_MORE_SHORTEST"
| "quantifier_code One_Or_More_Shortest = REGEXOP_ONE_OR_MORE_SHORTEST"
| "quantifier_code Zero_Or_One = REGEXOP_ZERO_OR_ONE"

fun repeated :: "quantifier \<Rightarrow> (nat \<Rightarrow> nat \<Rightarrow> bool) \<Rightarrow> nat \<Rightarrow> nat \<Rightarrow> bool" where
  "repeated Zero_Or_More r i j \<longleftrightarrow> r\<^sup>*\<^sup>* i j"
| "repeated Zero_Or_More_Shortest r i j \<longleftrightarrow> r\<^sup>*\<^sup>* i j"
| "repeated One_Or_More r i j \<longleftrightarrow> r\<^sup>+\<^sup>+ i j"
| "repeated One_Or_More_Shortest r i j \<longleftrightarrow> r\<^sup>+\<^sup>+ i j"
| "repeated Zero_Or_One r i j \<longleftrightarrow> i = j \<or> r i j"

text \<open>A run that consumes matches of the atom from \<open>i\<close> on, and then goes on with the rest.\<close>

lemma consumed_rest:
  assumes "fits rx input n" "runs_as rx input n op' K" "i \<le> n"
    "consumed rx n op' (reaches input n a K i) (no_best i) cx"
  shows "cx_inoffset cx \<le> n"
    "\<exists>cy caps'. regex_run rx input n (Execute (cx_op cx) (cx_inoffset cx), caps) = ret (cy, caps') \<and>
      cx_inoffset cy \<noteq> REGEXRES_INTERNAL_FAILURE \<and>
      (if K i \<or> reaches input n a K i then cx_inoffset cy \<le> n \<and> cx_op cy = rx_code_length rx else cx_inoffset cy > n)"
proof -
  have ne: "REGEXRES_NOMATCH \<noteq> rx_code_length rx" using assms(1) by (auto simp: fits_def)
  show "cx_inoffset cx \<le> n" using assms(3,4) ne by (auto simp: consumed_def split: if_splits)
  show "\<exists>cy caps'. regex_run rx input n (Execute (cx_op cx) (cx_inoffset cx), caps) = ret (cy, caps') \<and>
      cx_inoffset cy \<noteq> REGEXRES_INTERNAL_FAILURE \<and>
      (if K i \<or> reaches input n a K i then cx_inoffset cy \<le> n \<and> cx_op cy = rx_code_length rx else cx_inoffset cy > n)"
  proof (cases "reaches input n a K i")
    case True
    then show ?thesis using assms(4) below_failure [OF assms(1)] by (auto simp: consumed_def execute_end)
  next
    case False
    then have "cx = mk_context op' i" using assms(4) ne by (simp add: consumed_def)
    then show ?thesis using runs_asD [OF assms(2,3), where caps = caps] False by (metis regex_context_t.select_convs)
  qed
qed

lemma consume_both:
  assumes "fits rx input n" "wf_atom a" "has_code (rx_code rx) op (atom_code a)" "op' = op + length (atom_code a)"
    "op' \<le> rx_code_length rx" "runs_as rx input n op' K" "i \<le> n" "c = Consume_Longest \<or> c = Consume_Shortest"
  shows "\<exists>cx caps'. regex_run rx input n (c op i (no_best i), caps) = ret (cx, caps') \<and>
    consumed rx n op' (reaches input n a K i) (no_best i) cx"
proof -
  have "best_ok rx n (no_best i)" using assms(7) by (simp add: best_ok_def)
  then show ?thesis using consume_longest [OF assms(1-6) _ assms(7)] consume_shortest [OF assms(1-6) _ assms(7)] assms(8) by blast
qed

lemma runs_as_star:
  assumes "fits rx input n" "wf_atom a" "op < rx_code_length rx" "has_code (rx_code rx) (op + 1) (atom_code a)"
    "op' = op + 1 + length (atom_code a)" "op' \<le> rx_code_length rx" "runs_as rx input n op' K"
    "c = Consume_Longest \<or> c = Consume_Shortest"
    "\<And>i caps. regex_run rx input n (Execute_Single op i, caps) = regex_run rx input n (c (op + 1) i (no_best i), caps)"
  shows "runs_as rx input n op (\<lambda>i. K i \<or> reaches input n a K i)"
  unfolding runs_as_def
proof (intro allI impI)
  fix i caps assume i: "i \<le> n"
  obtain cx caps1 where r: "regex_run rx input n (Execute_Single op i, caps) = ret (cx, caps1)"
      "consumed rx n op' (reaches input n a K i) (no_best i) cx"
    using consume_both [OF assms(1,2,4-7) i assms(8), of caps] assms(9) by auto
  note rest = consumed_rest [OF assms(1,7) i r(2)]
  have "regex_run rx input n (Execute op i, caps) = regex_run rx input n (Execute (cx_op cx) (cx_inoffset cx), caps1)"
    using execute_step [OF assms(3) r(1)] rest(1) by simp
  then show "\<exists>cx caps'. regex_run rx input n (Execute op i, caps) = ret (cx, caps') \<and> cx_inoffset cx \<noteq> REGEXRES_INTERNAL_FAILURE \<and>
      (if K i \<or> reaches input n a K i then cx_inoffset cx \<le> n \<and> cx_op cx = rx_code_length rx else cx_inoffset cx > n)"
    using rest(2) [of caps1] by simp
qed

lemma runs_as_plus:
  assumes "fits rx input n" "wf_atom a" "op < rx_code_length rx" "has_code (rx_code rx) (op + 1) (atom_code a)"
    "op' = op + 1 + length (atom_code a)" "op' \<le> rx_code_length rx" "runs_as rx input n op' K"
    "c = Consume_Longest \<or> c = Consume_Shortest"
    "\<And>i caps. regex_run rx input n (Execute_Single op i, caps) =
       then_run (regex_run rx input n (Execute_Single (op + 1) i, caps)) (\<lambda>(cx, captures).
         if cx_inoffset cx > n then ret (cx, captures)
         else regex_run rx input n (c (op + 1) (cx_inoffset cx) (no_best (cx_inoffset cx)), captures))"
  shows "runs_as rx input n op (reaches input n a K)"
  unfolding runs_as_def
proof (intro allI impI)
  fix i caps assume i: "i \<le> n"
  obtain cx where s: "regex_run rx input n (Execute_Single (op + 1) i, caps) = ret (cx, caps)" "atom_context input n a (op + 1) i cx"
    using single_atom [OF assms(1) i assms(2,4)] by blast
  show "\<exists>cx caps'. regex_run rx input n (Execute op i, caps) = ret (cx, caps') \<and> cx_inoffset cx \<noteq> REGEXRES_INTERNAL_FAILURE \<and>
      (if reaches input n a K i then cx_inoffset cx \<le> n \<and> cx_op cx = rx_code_length rx else cx_inoffset cx > n)"
  proof (cases "atom_at input n a i")
    case False
    then have "cx_inoffset cx > n" "cx_inoffset cx \<noteq> REGEXRES_INTERNAL_FAILURE" "\<not> reaches input n a K i"
      using s(2) reaches_unfold [of input n a K i] by (auto simp: atom_context_def)
    moreover from this have "regex_run rx input n (Execute_Single op i, caps) = ret (cx, caps)" by (simp add: assms(9) s(1) [simplified])
    ultimately show ?thesis using execute_step [OF assms(3)] by auto
  next
    case True
    define i' where "i' = i + atom_width a"
    have i': "i' \<le> n" and cx: "cx_inoffset cx = i'"
      using atom_at_bound [OF assms(2) True] s(2) True by (auto simp: i'_def atom_context_def)
    obtain cy caps1 where r: "regex_run rx input n (c (op + 1) i' (no_best i'), caps) = ret (cy, caps1)"
        "consumed rx n op' (reaches input n a K i') (no_best i') cy"
      using consume_both [OF assms(1,2,4-7) i' assms(8), of caps] by auto
    note rest = consumed_rest [OF assms(1,7) i' r(2)]
    have "regex_run rx input n (Execute_Single op i, caps) = ret (cy, caps1)" using i' by (simp add: assms(9) s(1) [simplified] r(1) [simplified] cx)
    from execute_step [OF assms(3) this] rest(1)
    have "regex_run rx input n (Execute op i, caps) = regex_run rx input n (Execute (cx_op cy) (cx_inoffset cy), caps1)" by simp
    moreover have "reaches input n a K i \<longleftrightarrow> K i' \<or> reaches input n a K i'"
      using reaches_unfold [of input n a K i] True by (simp add: i'_def)
    ultimately show ?thesis using rest(2) [of caps1] by simp
  qed
qed

lemma runs_as_optional:
  assumes "fits rx input n" "wf_atom a" "op < rx_code_length rx" "has_code (rx_code rx) (op + 1) (atom_code a)"
    "runs_as rx input n (op + 1 + length (atom_code a)) K" "mem_get (rx_code rx) op = Some REGEXOP_ZERO_OR_ONE"
  shows "runs_as rx input n op (\<lambda>i. K i \<or> atom_at input n a i \<and> K (i + atom_width a))"
proof (rule runs_as_restI [OF assms(3,1)])
  fix i caps assume i: "i \<le> n"
  define op' where "op' = op + 1 + length (atom_code a)"
  obtain cx where s: "regex_run rx input n (Execute_Single (op + 1) i, caps) = ret (cx, caps)" "atom_context input n a (op + 1) i cx"
    using single_atom [OF assms(1) i assms(2,4)] by blast
  have at: "\<exists>cy caps'. regex_run rx input n (Execute op' j, caps) = ret (cy, caps') \<and> cx_inoffset cy \<noteq> REGEXRES_INTERNAL_FAILURE \<and>
      (if K j then cx_inoffset cy \<le> n \<and> cx_op cy = rx_code_length rx else cx_inoffset cy > n)" if "j \<le> n" for j caps
    using assms(5) that unfolding runs_as_def op'_def by meson
  have single: "regex_run rx input n (Execute_Single op i, caps) = execute_zero_or_one (regex_run rx input n) n (op + 1) i caps"
    using assms(6) by (simp add: regex_run_simps(1) regex_execute_single_def regexop_defs)
  have op': "cx_op cx = op'" using s(2) by (simp add: atom_context_def op'_def)
  show "\<exists>cx caps'. regex_run rx input n (Execute_Single op i, caps) = ret (cx, caps') \<and>
      cx_inoffset cx \<noteq> REGEXRES_INTERNAL_FAILURE \<and>
      (if K i \<or> atom_at input n a i \<and> K (i + atom_width a) then cx_inoffset cx \<le> n \<and> cx_op cx = rx_code_length rx
       else cx_inoffset cx > n)"
  proof (cases "atom_at input n a i")
    case False
    then have "cx_inoffset cx > n" using s(2) by (auto simp: atom_context_def)
    then show ?thesis using at [OF i, of caps] nomatch_context [OF assms(1)] False
      by (auto simp: single execute_zero_or_one_def s(1) [simplified] op' split: if_splits)
  next
    case True
    define i' where "i' = i + atom_width a"
    have i': "i' \<le> n" and cx: "cx_inoffset cx = i'"
      using atom_at_bound [OF assms(2) True] s(2) True by (auto simp: i'_def atom_context_def)
    obtain cy caps1 where y: "regex_run rx input n (Execute op' i', caps) = ret (cy, caps1)" "cx_inoffset cy \<noteq> REGEXRES_INTERNAL_FAILURE"
        "if K i' then cx_inoffset cy \<le> n \<and> cx_op cy = rx_code_length rx else cx_inoffset cy > n"
      using at [OF i', of caps] by blast
    show ?thesis using at [OF i, of caps1] nomatch_context [OF assms(1)] True y i'
      by (auto simp: single execute_zero_or_one_def s(1) [simplified] op' cx i'_def [symmetric] split: if_splits)
  qed
qed

lemma runs_as_quantified:
  assumes "fits rx input n" "wf_atom a" "op + 1 + length (atom_code a) \<le> rx_code_length rx"
    "has_code (rx_code rx) op (quantifier_code q # atom_code a)" "runs_as rx input n (op + 1 + length (atom_code a)) K"
  shows "runs_as rx input n op (\<lambda>i. \<exists>j. repeated q (atom_step input n a) i j \<and> K j)"
proof -
  have op: "op < rx_code_length rx" using assms(3) by simp
  have q: "mem_get (rx_code rx) op = Some (quantifier_code q)" and a: "has_code (rx_code rx) (op + 1) (atom_code a)"
    using assms(4) by (auto simp: has_code_Cons)
  note star = runs_as_star [OF assms(1,2) op a refl assms(3,5)]
  note plus = runs_as_plus [OF assms(1,2) op a refl assms(3,5)]
  note single = regex_run_simps(1) [of rx input n op] regex_execute_single_def regexop_defs
  show ?thesis
  proof (cases q)
    case Zero_Or_More
    then show ?thesis using star [of Consume_Longest] q by (simp add: star_reaches single)
  next
    case One_Or_More
    then show ?thesis using plus [of Consume_Longest] q by (simp add: reaches_def [abs_def] single)
  next
    case Zero_Or_More_Shortest
    then show ?thesis using star [of Consume_Shortest] q by (simp add: star_reaches single)
  next
    case One_Or_More_Shortest
    then show ?thesis using plus [of Consume_Shortest] q by (simp add: reaches_def [abs_def] single)
  next
    case Zero_Or_One
    have "(\<exists>j. repeated q (atom_step input n a) i j \<and> K j) \<longleftrightarrow> K i \<or> atom_at input n a i \<and> K (i + atom_width a)" for i
      using Zero_Or_One by (auto simp: atom_step_def)
    then show ?thesis using runs_as_optional [OF assms(1,2) op a assms(5)] q Zero_Or_One by simp
  qed
qed

end
