(* ===== verification/Regex_Pattern.thy ===== *)
theory Regex_Pattern
  imports Regex_Run
begin

text \<open>
  The patterns of \<open>foundation/regex.h\<close> as data: how they are written, what they match, and the code they
  stand for. A pattern is a sequence of pieces; a run of literal characters is one piece, because the
  compiler reads it as one and a quantifier behind it applies to its last character only.
\<close>

section \<open>Patterns\<close>

text \<open>A member of a set, or an escape: a character, two hexadecimal digits, or a character behind a backslash.\<close>

datatype spelling = Plain byte | Hex byte byte | Escaped byte

datatype body = Dot | Bracket bool "spelling list" | Escape spelling

datatype piece =
    Literal "byte list"
  | Literal_Last "byte list" byte quantifier
  | Body body "quantifier option"
  | Line_Begin
  | Line_End
  | Group "piece list"
  | Branches "piece list" "piece list"

fun elem_of :: "spelling \<Rightarrow> elem" where
  "elem_of (Plain b) = Elem_Byte b"
| "elem_of (Hex c d) = Elem_Byte (16 * regex_parse_hex_digit c + regex_parse_hex_digit d)"
| "elem_of (Escaped c) =
     (if c = 110 then Elem_Byte 10
      else if c = 114 then Elem_Byte 13
      else if c = 116 then Elem_Byte 9
      else if c = 48 \<or> c = 0 then Elem_Class Null_Char
      else if c = 115 then Elem_Class Whitespace
      else if c = 83 then Elem_Class Non_Whitespace
      else if c = 100 then Elem_Class Digit
      else if c = 68 then Elem_Class Non_Digit
      else Elem_Byte c)"

fun atom_of :: "body \<Rightarrow> atom" where
  "atom_of Dot = Any_Char"
| "atom_of (Bracket negated es) = (if negated then Any_But (map elem_of es) else Any_Of (map elem_of es))"
| "atom_of (Escape e) = Meta (elem_of e)"

section \<open>What a pattern matches\<close>

text \<open>\<open>pieces_match input n ps i j\<close>: the pieces match the bytes from \<open>i\<close> up to \<open>j\<close> of the first \<open>n\<close> bytes.\<close>

fun piece_match :: "byte list \<Rightarrow> nat \<Rightarrow> piece \<Rightarrow> nat \<Rightarrow> nat \<Rightarrow> bool"
  and pieces_match :: "byte list \<Rightarrow> nat \<Rightarrow> piece list \<Rightarrow> nat \<Rightarrow> nat \<Rightarrow> bool" where
  "piece_match input n (Literal s) i j \<longleftrightarrow> atom_step input n (Exact s) i j"
| "piece_match input n (Literal_Last s c q) i j \<longleftrightarrow>
     (\<exists>k. atom_step input n (Exact s) i k \<and> repeated q (atom_step input n (Exact [c])) k j)"
| "piece_match input n (Body b None) i j \<longleftrightarrow> atom_step input n (atom_of b) i j"
| "piece_match input n (Body b (Some q)) i j \<longleftrightarrow> repeated q (atom_step input n (atom_of b)) i j"
| "piece_match input n Line_Begin i j \<longleftrightarrow> i = 0 \<and> i = j"
| "piece_match input n Line_End i j \<longleftrightarrow> i = n \<and> i = j"
| "piece_match input n (Group ps) i j \<longleftrightarrow> pieces_match input n ps i j"
| "piece_match input n (Branches ps qs) i j \<longleftrightarrow> pieces_match input n ps i j \<or> pieces_match input n qs i j"
| "pieces_match input n [] i j \<longleftrightarrow> i = j"
| "pieces_match input n (p # ps) i j \<longleftrightarrow> (\<exists>k. piece_match input n p i k \<and> pieces_match input n ps k j)"

section \<open>The code of a pattern\<close>

fun piece_captures :: "piece \<Rightarrow> nat" and pieces_captures :: "piece list \<Rightarrow> nat" where
  "piece_captures (Group ps) = pieces_captures ps + 1"
| "piece_captures (Branches ps qs) = pieces_captures ps + pieces_captures qs + 1"
| "piece_captures p = 0"
| "pieces_captures [] = 0"
| "pieces_captures (p # ps) = piece_captures p + pieces_captures ps"

text \<open>The code of a piece whose first capture has the number \<open>m\<close>.\<close>

fun piece_code :: "nat \<Rightarrow> piece \<Rightarrow> byte list" and pieces_code :: "nat \<Rightarrow> piece list \<Rightarrow> byte list" where
  "piece_code m (Literal s) = atom_code (Exact s)"
| "piece_code m (Literal_Last s c q) =
     (if s = [] then [] else atom_code (Exact s)) @ quantifier_code q # atom_code (Exact [c])"
| "piece_code m (Body b None) = atom_code (atom_of b)"
| "piece_code m (Body b (Some q)) = quantifier_code q # atom_code (atom_of b)"
| "piece_code m Line_Begin = [REGEXOP_BEGINNING_OF_LINE]"
| "piece_code m Line_End = [REGEXOP_END_OF_LINE]"
| "piece_code m (Group ps) = [REGEXOP_BEGIN_CAPTURE, of_nat m] @ pieces_code (m + 1) ps @ [REGEXOP_END_CAPTURE, of_nat m]"
| "piece_code m (Branches ps qs) =
     (let a = pieces_code (m + 1) ps; b = pieces_code (m + 1 + pieces_captures ps) qs
      in [REGEXOP_BEGIN_CAPTURE, of_nat m, REGEXOP_BRANCH, of_nat (length a + 2)] @ a @
         [REGEXOP_BRANCH_END, of_nat (length b)] @ b @ [REGEXOP_END_CAPTURE, of_nat m])"
| "pieces_code m [] = []"
| "pieces_code m (p # ps) = piece_code m p @ pieces_code (m + piece_captures p) ps"

fun piece_size :: "piece \<Rightarrow> nat" and pieces_size :: "piece list \<Rightarrow> nat" where
  "piece_size (Literal s) = length s + 2"
| "piece_size (Literal_Last s c q) = (if s = [] then 4 else length s + 6)"
| "piece_size (Body b None) = length (atom_code (atom_of b))"
| "piece_size (Body b (Some q)) = length (atom_code (atom_of b)) + 1"
| "piece_size Line_Begin = 1"
| "piece_size Line_End = 1"
| "piece_size (Group ps) = pieces_size ps + 4"
| "piece_size (Branches ps qs) = pieces_size ps + pieces_size qs + 8"
| "pieces_size [] = 0"
| "pieces_size (p # ps) = piece_size p + pieces_size ps"

text \<open>Sizes that the code has room for: a literal and a set of 255 bytes, and a branch that can be skipped.\<close>

fun wf_piece :: "piece \<Rightarrow> bool" and wf_pieces :: "piece list \<Rightarrow> bool" where
  "wf_piece (Literal s) \<longleftrightarrow> s \<noteq> [] \<and> length s \<le> 255"
| "wf_piece (Literal_Last s c q) \<longleftrightarrow> length s \<le> 254"
| "wf_piece (Body b q) \<longleftrightarrow> wf_atom (atom_of b)"
| "wf_piece Line_Begin \<longleftrightarrow> True"
| "wf_piece Line_End \<longleftrightarrow> True"
| "wf_piece (Group ps) \<longleftrightarrow> wf_pieces ps"
| "wf_piece (Branches ps qs) \<longleftrightarrow> wf_pieces ps \<and> wf_pieces qs \<and> ps \<noteq> [] \<and>
     pieces_size ps \<le> 253 \<and> pieces_size qs \<le> 255"
| "wf_pieces [] \<longleftrightarrow> True"
| "wf_pieces (p # ps) \<longleftrightarrow> wf_piece p \<and> wf_pieces ps"

lemma length_code [simp]:
  "length (piece_code m p) = piece_size p" "length (pieces_code m ps) = pieces_size ps"
  by (induction m p and m ps rule: piece_code_pieces_code.induct) (simp_all add: Let_def)

lemma atom_code_pos: "0 < length (atom_code a)"
  by (cases a) simp_all

lemma piece_size_pos: "0 < piece_size p"
proof (cases p)
  case (Body b q)
  then show ?thesis using atom_code_pos [of "atom_of b"] by (cases q) auto
qed auto

lemma pieces_code_append: "pieces_code m (ps @ qs) = pieces_code m ps @ pieces_code (m + pieces_captures ps) qs"
  by (induction ps arbitrary: m) (simp_all add: add.assoc)

lemma pieces_match_append:
  "pieces_match input n (ps @ qs) i j \<longleftrightarrow> (\<exists>k. pieces_match input n ps i k \<and> pieces_match input n qs k j)"
  by (induction ps arbitrary: i) auto

section \<open>The matcher runs the code of a pattern\<close>

lemma byte_of_nat: "k \<le> 255 \<Longrightarrow> unat (of_nat k :: byte) = k"
  by (simp add: unsigned_of_nat take_bit_nat_eq_self)

lemma runs_as_cong: "runs_as rx input n op K \<Longrightarrow> (\<And>i. i \<le> n \<Longrightarrow> K i \<longleftrightarrow> K' i) \<Longrightarrow> runs_as rx input n op K'"
  by (simp add: runs_as_def)

lemma runs_as_group:
  assumes "fits rx input n" "has_code (rx_code rx) op ([REGEXOP_BEGIN_CAPTURE, x] @ code @ [REGEXOP_END_CAPTURE, x])"
    "op + length code + 4 \<le> rx_code_length rx" "runs_as rx input n (op + length code + 4) K"
    and inner: "has_code (rx_code rx) (op + 2) code \<Longrightarrow> runs_as rx input n (op + 2 + length code) K \<Longrightarrow> runs_as rx input n (op + 2) K'"
  shows "runs_as rx input n op K'"
proof -
  define e where "e = op + 2 + length code"
  have code: "mem_get (rx_code rx) op = Some REGEXOP_BEGIN_CAPTURE" "mem_get (rx_code rx) (op + 1) = Some x"
      "has_code (rx_code rx) (op + 2) code" "mem_get (rx_code rx) e = Some REGEXOP_END_CAPTURE" "mem_get (rx_code rx) (e + 1) = Some x"
    using assms(2) by (auto simp: has_code_append has_code_Cons e_def)
  have "op + length code + 4 = e + 2" by (simp add: e_def)
  note ends = assms(3,4) [unfolded this]
  have e: "e < rx_code_length rx" "runs_as rx input n (e + 2) K" using ends by (simp, simp only:)
  have "runs_as rx input n e K" using runs_as_capture [OF assms(1) e code(5)] code(4) by simp
  from inner [OF code(3) this [unfolded e_def]]
  have "runs_as rx input n (op + 2) K'" .
  moreover have "op < rx_code_length rx" using assms(3) by simp
  ultimately show ?thesis using runs_as_capture [OF assms(1) _ _ code(2)] code(1) by simp
qed

lemma runs_as_branches:
  assumes "fits rx input n" "length a \<le> 253" "length b \<le> 255"
    "has_code (rx_code rx) op ([REGEXOP_BRANCH, of_nat (length a + 2)] @ a @ [REGEXOP_BRANCH_END, of_nat (length b)] @ b)"
    "op + length a + length b + 4 \<le> rx_code_length rx" "runs_as rx input n (op + length a + length b + 4) K"
    and a: "has_code (rx_code rx) (op + 2) a \<Longrightarrow> runs_as rx input n (op + 2 + length a) K \<Longrightarrow> runs_as rx input n (op + 2) Ka"
    and b: "has_code (rx_code rx) (op + 4 + length a) b \<Longrightarrow> runs_as rx input n (op + 4 + length a + length b) K \<Longrightarrow>
      runs_as rx input n (op + 4 + length a) Kb"
  shows "runs_as rx input n op (\<lambda>i. Ka i \<or> Kb i)"
proof -
  define e where "e = op + 2 + length a"
  have code: "mem_get (rx_code rx) op = Some REGEXOP_BRANCH" "mem_get (rx_code rx) (op + 1) = Some (of_nat (length a + 2))"
      "has_code (rx_code rx) (op + 2) a" "mem_get (rx_code rx) e = Some REGEXOP_BRANCH_END"
      "mem_get (rx_code rx) (e + 1) = Some (of_nat (length b))" "has_code (rx_code rx) (e + 2) b"
    using assms(4) by (auto simp: has_code_append has_code_Cons e_def)
  have skip: "op + 2 + unat (of_nat (length a + 2) :: byte) = e + 2" "e + 2 + unat (of_nat (length b) :: byte) = e + 2 + length b"
    using byte_of_nat [of "length a + 2"] byte_of_nat [of "length b"] assms(2,3) by (simp_all only: e_def)
  have ops: "op < rx_code_length rx" "e < rx_code_length rx" using assms(5) by (simp_all add: e_def)
  have e2: "op + 4 + length a = e + 2" and ends: "op + length a + length b + 4 = e + 2 + length b" by (simp_all add: e_def)
  note rest = assms(6) [unfolded ends]
  have "runs_as rx input n (e + 2) Kb" using b [unfolded e2] code(6) rest by simp
  moreover have "runs_as rx input n (op + 2) Ka"
    using a [folded e_def] code(3) runs_as_branch_end [OF assms(1) ops(2) code(4,5), of K] rest by (simp only: skip)
  ultimately show ?thesis using runs_as_branch [OF assms(1) ops(1) code(1,2), of Ka Kb] by (simp only: skip)
qed

text \<open>The run of the code at \<open>op\<close>, which lies before the end of the code, given the run of what follows it.\<close>

lemma runs_as_code:
  assumes "fits rx input n"
  shows "wf_piece p \<Longrightarrow> has_code (rx_code rx) op (piece_code m p) \<Longrightarrow> op + piece_size p \<le> rx_code_length rx \<Longrightarrow>
      runs_as rx input n (op + piece_size p) K \<Longrightarrow>
      runs_as rx input n op (\<lambda>i. \<exists>j. piece_match input n p i j \<and> K j)"
    and "wf_pieces ps \<Longrightarrow> has_code (rx_code rx) op (pieces_code m ps) \<Longrightarrow> op + pieces_size ps \<le> rx_code_length rx \<Longrightarrow>
      runs_as rx input n (op + pieces_size ps) K \<Longrightarrow>
      runs_as rx input n op (\<lambda>i. \<exists>j. pieces_match input n ps i j \<and> K j)"
proof (induction m p and m ps arbitrary: op K and op K rule: piece_code_pieces_code.induct)
  case (1 m s)
  then show ?case using runs_as_atom [OF assms, of "Exact s" op K] by simp
next
  case (2 m s c q)
  define op1 where "op1 = op + (if s = [] then 0 else length s + 2)"
  have q: "runs_as rx input n op1 (\<lambda>k. \<exists>j. repeated q (atom_step input n (Exact [c])) k j \<and> K j)"
  proof (rule runs_as_quantified [OF assms])
    have e: "op1 + 1 + length (atom_code (Exact [c])) = op + piece_size (Literal_Last s c q)" by (simp add: op1_def)
    show "op1 + 1 + length (atom_code (Exact [c])) \<le> rx_code_length rx" unfolding e by (rule "2.prems"(3))
    show "runs_as rx input n (op1 + 1 + length (atom_code (Exact [c]))) K" unfolding e by (rule "2.prems"(4))
    show "has_code (rx_code rx) op1 (quantifier_code q # atom_code (Exact [c]))"
      using "2.prems"(2) by (auto simp: op1_def has_code_append)
  qed simp
  show ?case
  proof (cases "s = []")
    case True
    then show ?thesis using runs_as_cong [OF q] by (simp add: op1_def atom_step_def)
  next
    case False
    then have op1: "op1 = op + length (atom_code (Exact s))" by (simp add: op1_def)
    have "runs_as rx input n op (\<lambda>i. \<exists>k. atom_step input n (Exact s) i k \<and> (\<exists>j. repeated q (atom_step input n (Exact [c])) k j \<and> K j))"
      using "2.prems" False by (intro runs_as_atom [OF assms] q [unfolded op1]) (auto simp: has_code_append has_code_Cons)
    then show ?thesis by (rule runs_as_cong) auto
  qed
next
  case (3 m b)
  then show ?case using runs_as_atom [OF assms, of "atom_of b" op K] atom_code_pos [of "atom_of b"] by simp
next
  case (4 m b q)
  then show ?case using runs_as_quantified [OF assms, of "atom_of b" op q K] by simp
next
  case (5 m)
  then show ?case using runs_as_anchor(1) [OF assms, of op K] by (simp add: has_code_Cons)
next
  case (6 m)
  then show ?case using runs_as_anchor(2) [OF assms, of op K] by (simp add: has_code_Cons)
next
  case (7 m ps)
  show ?case
    by (rule runs_as_group [OF assms 7(3) [unfolded piece_code.simps]])
      (use 7 in \<open>auto simp: ac_simps\<close>)
next
  case (8 m ps qs)
  define a where "a = pieces_code (m + 1) ps"
  define b where "b = pieces_code (m + 1 + pieces_captures ps) qs"
  have len: "length a = pieces_size ps" "length b = pieces_size qs" by (simp_all add: a_def b_def)
  define branch where "branch = [REGEXOP_BRANCH, of_nat (length a + 2)] @ a @ [REGEXOP_BRANCH_END, of_nat (length b)] @ b"
  have "has_code (rx_code rx) op ([REGEXOP_BEGIN_CAPTURE, of_nat m] @ branch @ [REGEXOP_END_CAPTURE, of_nat m])"
    using "8.prems"(2) by (simp add: Let_def branch_def a_def b_def)
  then show ?case
  proof (rule runs_as_group [OF assms])
    show "op + length branch + 4 \<le> rx_code_length rx" "runs_as rx input n (op + length branch + 4) K"
      using "8.prems"(3,4) by (simp_all add: branch_def len ac_simps)
  next
    assume inner: "has_code (rx_code rx) (op + 2) branch" "runs_as rx input n (op + 2 + length branch) K"
    have "runs_as rx input n (op + 2) (\<lambda>i. (\<exists>j. pieces_match input n ps i j \<and> K j) \<or> (\<exists>j. pieces_match input n qs i j \<and> K j))"
    proof (rule runs_as_branches [OF assms _ _ inner(1) [unfolded branch_def], where K = K])
      have e: "op + 2 + length branch = op + 2 + length a + length b + 4" by (simp add: branch_def)
      show "runs_as rx input n (op + 2 + length a + length b + 4) K" using inner(2) unfolding e .
      show le: "op + 2 + length a + length b + 4 \<le> rx_code_length rx" using "8.prems"(3) by (simp add: len)
      show "length a \<le> 253" "length b \<le> 255" using "8.prems"(1) by (simp_all add: len)
      show "runs_as rx input n (op + 2 + 2) (\<lambda>i. \<exists>j. pieces_match input n ps i j \<and> K j)"
        if "has_code (rx_code rx) (op + 2 + 2) a" "runs_as rx input n (op + 2 + 2 + length a) K"
        using "8.IH"(1) [of "op + 2 + 2" K] that "8.prems"(1) le by (simp add: a_def)
      show "runs_as rx input n (op + 2 + 4 + length a) (\<lambda>i. \<exists>j. pieces_match input n qs i j \<and> K j)"
        if "has_code (rx_code rx) (op + 2 + 4 + length a) b" "runs_as rx input n (op + 2 + 4 + length a + length b) K"
        using "8.IH"(2) [of a "op + 2 + 4 + length a" K] that "8.prems"(1) le by (simp add: a_def b_def)
    qed
    then show "runs_as rx input n (op + 2) (\<lambda>i. \<exists>j. piece_match input n (Branches ps qs) i j \<and> K j)"
      by (rule runs_as_cong) auto
  qed
next
  case (9 m)
  then show ?case by simp
next
  case (10 m p ps)
  have "runs_as rx input n op (\<lambda>i. \<exists>k. piece_match input n p i k \<and> (\<exists>j. pieces_match input n ps k j \<and> K j))"
    using "10.prems" by (intro "10.IH") (auto simp: has_code_append ac_simps)
  then show ?case by (rule runs_as_cong) auto
qed

section \<open>Matches of a whole input\<close>

lemma match_from_runs:
  assumes "runs_as rx input n 0 K"
  shows "\<exists>caps'. match_from rx input n iin caps = ret (\<exists>i. iin \<le> i \<and> i < n \<and> K i, caps')"
proof (induction "n - iin" arbitrary: iin caps)
  case 0
  then show ?case by (auto simp: match_from.simps)
next
  case (Suc k)
  then have iin: "iin \<le> n" by simp
  obtain cx caps' where r: "regex_run rx input n (Execute 0 iin, caps) = ret (cx, caps')" "cx_inoffset cx \<noteq> REGEXRES_INTERNAL_FAILURE"
      "if K iin then cx_inoffset cx \<le> n \<and> cx_op cx = rx_code_length rx else cx_inoffset cx > n"
    by (rule runs_asD [OF assms iin, where caps = caps])
  have step: "match_from rx input n iin caps = (if K iin then ret (True, caps') else match_from rx input n (iin + 1) caps')"
    by (subst match_from.simps) (use Suc.hyps(2) r in auto)
  have "(\<exists>i\<ge>iin. i < n \<and> K i) \<longleftrightarrow> K iin \<or> (\<exists>i\<ge>iin + 1. i < n \<and> K i)"
    using Suc.hyps(2) by (metis Suc_eq_plus1 Suc_leD le_eq_less_or_eq less_eq_Suc_le zero_less_Suc zero_less_diff)
  then show ?case using Suc.hyps(1) [of "iin + 1" caps'] Suc.hyps(2) by (auto simp: step)
qed

lemma regex_match_runs:
  assumes "runs_as rx input n 0 K" "0 < rx_code_length rx" "mem_get (rx_code rx) 0 = Some o'"
  shows "\<exists>caps'. regex_match (Some rx) input n caps =
    ret (if o' = REGEXOP_BEGINNING_OF_LINE then K 0 else \<exists>i<n. K i, caps')"
proof (cases "o' = REGEXOP_BEGINNING_OF_LINE")
  case True
  obtain cx caps' where "regex_run rx input n (Execute 0 0, caps) = ret (cx, caps')"
      "cx_inoffset cx \<noteq> REGEXRES_INTERNAL_FAILURE"
      "if K 0 then cx_inoffset cx \<le> n \<and> cx_op cx = rx_code_length rx else cx_inoffset cx > n"
    by (rule runs_asD [OF assms(1) le0, where caps = caps])
  then show ?thesis using assms(2,3) True by (auto simp: regex_match_def split: if_splits)
next
  case False
  then show ?thesis using match_from_runs [OF assms(1), of 0 caps] assms(2,3) by (simp add: regex_match_def)
qed

text \<open>
  The input that a compiled pattern accepts. The search starts at every offset before the end of the
  input; only a pattern that begins with an anchor is tried on an empty input.
\<close>

definition pattern_matches :: "piece list \<Rightarrow> byte list \<Rightarrow> nat \<Rightarrow> bool" where
  "pattern_matches ps input n \<longleftrightarrow>
     ps = [] \<or> (\<exists>i j. (i < n \<or> hd ps = Line_Begin \<and> i = 0) \<and> pieces_match input n ps i j)"

lemma not_anchor: "hd (atom_code a) \<noteq> REGEXOP_BEGINNING_OF_LINE" "quantifier_code q \<noteq> REGEXOP_BEGINNING_OF_LINE"
  by (cases a; simp add: regexop_defs) (cases q; simp add: regexop_defs)

lemma first_op: "hd (piece_code m p) = REGEXOP_BEGINNING_OF_LINE \<longleftrightarrow> p = Line_Begin"
proof (cases p)
  case (Body b q)
  then show ?thesis by (cases q) (simp_all add: not_anchor)
next
  case (Literal_Last s c q)
  then show ?thesis by (simp add: not_anchor) (simp add: regexop_defs)
qed (auto simp: regexop_defs Let_def)

lemma regex_match_pieces:
  assumes "fits rx input n" "wf_pieces ps" "rx_code_length rx = pieces_size ps" "has_code (rx_code rx) 0 (pieces_code 0 ps)"
  shows "\<exists>caps'. regex_match (Some rx) input n caps = ret (pattern_matches ps input n, caps')"
proof (cases ps)
  case Nil
  then show ?thesis using assms(3) by (simp add: regex_match_def pattern_matches_def)
next
  case (Cons p qs)
  have "runs_as rx input n 0 (\<lambda>i. \<exists>j. pieces_match input n ps i j \<and> True)"
    using assms(2-4) runs_as_end [OF assms(1)] by (intro runs_as_code(2) [OF assms(1)]) simp_all
  then have run: "runs_as rx input n 0 (\<lambda>i. \<exists>j. pieces_match input n ps i j)" by simp
  obtain o' code where p: "piece_code 0 p = o' # code" using piece_size_pos [of p] length_code(1) [of 0 p] by (cases "piece_code 0 p") auto
  then have o': "mem_get (rx_code rx) 0 = Some o'" using assms(4) Cons by (simp add: has_code_Cons)
  have "o' = REGEXOP_BEGINNING_OF_LINE \<longleftrightarrow> p = Line_Begin" using first_op [of 0 p] p by simp
  then have anchor: "p = Line_Begin \<longleftrightarrow> o' = REGEXOP_BEGINNING_OF_LINE" by simp
  have match: "\<exists>caps'. regex_match (Some rx) input n caps = ret (if o' = REGEXOP_BEGINNING_OF_LINE
      then \<exists>j. pieces_match input n ps 0 j else \<exists>i<n. \<exists>j. pieces_match input n ps i j, caps')"
    using regex_match_runs [OF run _ o'] assms(3) Cons piece_size_pos [of p] by simp
  have "p = Line_Begin \<Longrightarrow> pieces_match input n ps i j \<Longrightarrow> i = 0" for i j using Cons by simp
  moreover have "ps \<noteq> []" "hd ps = p" using Cons by simp_all
  ultimately have "pattern_matches ps input n \<longleftrightarrow> (if o' = REGEXOP_BEGINNING_OF_LINE
      then \<exists>j. pieces_match input n ps 0 j else \<exists>i<n. \<exists>j. pieces_match input n ps i j)"
    unfolding pattern_matches_def anchor [symmetric] by (cases "p = Line_Begin") auto
  with match show ?thesis by simp
qed

end
