(* ===== verification/Regex_Compile.thy ===== *)
theory Regex_Compile
  imports Regex_Pattern
begin

text \<open>
  The compiler of \<open>foundation/regex.c\<close>: it turns a written pattern into the code of its pieces, which the
  matcher then runs; and what it does with patterns that are not of this form.
\<close>

section \<open>How patterns are written\<close>

fun quantifier_print :: "quantifier \<Rightarrow> byte list" where
  "quantifier_print Zero_Or_More = [42]"
| "quantifier_print One_Or_More = [43]"
| "quantifier_print Zero_Or_More_Shortest = [42, 63]"
| "quantifier_print One_Or_More_Shortest = [43, 63]"
| "quantifier_print Zero_Or_One = [63]"

fun spelling_print :: "spelling \<Rightarrow> byte list" where
  "spelling_print (Plain b) = [b]"
| "spelling_print (Hex c d) = [92, c, d]"
| "spelling_print (Escaped c) = [92, c]"

definition spellings_print :: "spelling list \<Rightarrow> byte list" where
  "spellings_print es = concat (map spelling_print es)"

fun body_print :: "body \<Rightarrow> byte list" where
  "body_print Dot = [46]"
| "body_print (Bracket negated es) = 91 # (if negated then [94] else []) @ spellings_print es @ [93]"
| "body_print (Escape e) = spelling_print e"

fun piece_print :: "piece \<Rightarrow> byte list" and pieces_print :: "piece list \<Rightarrow> byte list" where
  "piece_print (Literal s) = s"
| "piece_print (Literal_Last s c q) = s @ c # quantifier_print q"
| "piece_print (Body b None) = body_print b"
| "piece_print (Body b (Some q)) = body_print b @ quantifier_print q"
| "piece_print Line_Begin = [94]"
| "piece_print Line_End = [36]"
| "piece_print (Group ps) = 40 # pieces_print ps @ [41]"
| "piece_print (Branches ps qs) = 40 # pieces_print ps @ 124 # pieces_print qs @ [41]"
| "pieces_print [] = []"
| "pieces_print (p # ps) = piece_print p @ pieces_print ps"

text \<open>
  When a piece that is followed by \<open>rest\<close> can be told from it: an escape by one character is not
  followed by what makes it an escape by two digits, a literal is followed by a meta character, and a
  quantifier is not followed by a question mark.
\<close>

definition clear_escape :: "byte \<Rightarrow> byte list \<Rightarrow> bool" where
  "clear_escape c rest \<longleftrightarrow> \<not> (regex_hex_char c \<and> rest \<noteq> [] \<and> regex_hex_char (hd rest))"

fun spelling_ok :: "spelling \<Rightarrow> byte list \<Rightarrow> bool" where
  "spelling_ok (Plain b) rest \<longleftrightarrow> b \<noteq> 93 \<and> b \<noteq> 92"
| "spelling_ok (Hex c d) rest \<longleftrightarrow> regex_hex_char c \<and> regex_hex_char d"
| "spelling_ok (Escaped c) rest \<longleftrightarrow> clear_escape c rest"

fun spellings_ok :: "spelling list \<Rightarrow> byte list \<Rightarrow> bool" where
  "spellings_ok [] rest \<longleftrightarrow> True"
| "spellings_ok (e # es) rest \<longleftrightarrow> spelling_ok e (spellings_print es @ rest) \<and> spellings_ok es rest"

fun body_ok :: "body \<Rightarrow> byte list \<Rightarrow> bool" where
  "body_ok Dot rest \<longleftrightarrow> True"
| "body_ok (Bracket negated es) rest \<longleftrightarrow>
     spellings_ok es (93 # rest) \<and> (\<not> negated \<longrightarrow> hd (spellings_print es @ [93]) \<noteq> 94)"
| "body_ok (Escape e) rest \<longleftrightarrow> (\<forall>b. e \<noteq> Plain b) \<and> spelling_ok e rest"

definition literal_char :: "byte \<Rightarrow> bool" where
  "literal_char c \<longleftrightarrow> c \<notin> set REGEX_META_CHARACTERS"

fun quantifier_ok :: "quantifier \<Rightarrow> byte list \<Rightarrow> bool" where
  "quantifier_ok Zero_Or_More rest \<longleftrightarrow> rest = [] \<or> hd rest \<noteq> 63"
| "quantifier_ok One_Or_More rest \<longleftrightarrow> rest = [] \<or> hd rest \<noteq> 63"
| "quantifier_ok q rest \<longleftrightarrow> True"

fun piece_ok :: "piece \<Rightarrow> byte list \<Rightarrow> bool" and pieces_ok :: "piece list \<Rightarrow> byte list \<Rightarrow> bool" where
  "piece_ok (Literal s) rest \<longleftrightarrow> (\<forall>c\<in>set s. literal_char c) \<and> (rest = [] \<or> \<not> literal_char (hd rest))"
| "piece_ok (Literal_Last s c q) rest \<longleftrightarrow>
     (\<forall>c\<in>set s. literal_char c) \<and> literal_char c \<and> (s \<noteq> [] \<longrightarrow> last s \<noteq> 0) \<and> quantifier_ok q rest"
| "piece_ok (Body b None) rest \<longleftrightarrow> body_ok b rest"
| "piece_ok (Body b (Some q)) rest \<longleftrightarrow> body_ok b (quantifier_print q @ rest) \<and> quantifier_ok q rest"
| "piece_ok Line_Begin rest \<longleftrightarrow> True"
| "piece_ok Line_End rest \<longleftrightarrow> True"
| "piece_ok (Group ps) rest \<longleftrightarrow> pieces_ok ps (41 # rest)"
| "piece_ok (Branches ps qs) rest \<longleftrightarrow> pieces_ok ps (124 # pieces_print qs @ 41 # rest) \<and> pieces_ok qs (41 # rest)"
| "pieces_ok [] rest \<longleftrightarrow> True"
| "pieces_ok (p # ps) rest \<longleftrightarrow> piece_ok p (pieces_print ps @ rest) \<and> pieces_ok ps rest"

section \<open>Emitted code\<close>

text \<open>The code of a target with room for \<open>A\<close> bytes, after \<open>m\<close> captures.\<close>

definition code_is :: "regex_t \<Rightarrow> byte list \<Rightarrow> nat \<Rightarrow> nat \<Rightarrow> bool" where
  "code_is T C A m \<longleftrightarrow> rx_code_length T = length C \<and> take (length C) (rx_code T) = C \<and> length (rx_code T) = A \<and>
     rx_code_allocated T = A \<and> length C \<le> A \<and> rx_capture_count T = m"

lemma code_isE:
  assumes "code_is T C A m"
  obtains Y where "rx_code T = C @ Y" "rx_code_length T = length C" "rx_code_allocated T = A" "length C + length Y = A"
    "rx_capture_count T = m"
proof
  show "rx_code T = C @ drop (length C) (rx_code T)"
    using assms append_take_drop_id [of "length C" "rx_code T"] by (simp add: code_is_def)
qed (use assms in \<open>auto simp: code_is_def\<close>)

lemma code_isI:
  "rx_code T = C @ Y \<Longrightarrow> rx_code_length T = length C \<Longrightarrow> rx_code_allocated T = A \<Longrightarrow> length C + length Y = A \<Longrightarrow>
   rx_capture_count T = m \<Longrightarrow> code_is T C A m"
  by (auto simp: code_is_def)

lemma emit_ops_is:
  assumes "code_is T C A m" "length C + length vals \<le> A" "\<forall>v\<in>set vals. v \<le> 256"
  shows "\<exists>T'. emit_ops T vals = Some (T', 0) \<and> code_is T' (C @ map of_int vals) A m"
  using assms
proof (induction vals arbitrary: T C)
  case Nil
  then show ?case by (simp add: REGEXERR_OK_def)
next
  case (Cons v vals)
  obtain Y where T: "rx_code T = C @ Y" "rx_code_length T = length C" "rx_code_allocated T = A" "length C + length Y = A"
      "rx_capture_count T = m"
    using Cons.prems(1) by (rule code_isE)
  then obtain y Y' where Y: "Y = y # Y'" using Cons.prems(2) by (cases Y) auto
  define T1 where "T1 = T\<lparr>rx_code := (C @ [of_int v]) @ Y', rx_code_length := rx_code_length T + 1\<rparr>"
  have "code_is T1 (C @ [of_int v]) A m" by (rule code_isI) (use T Y in \<open>auto simp: T1_def\<close>)
  from Cons.IH [OF this] Cons.prems(2,3) show ?case
    using T Y by (simp add: mem_set_def list_update_append T1_def)
qed

lemma regex_emit_is:
  assumes "code_is T C A m" "length C + length vals \<le> A" "\<forall>v\<in>set vals. v \<le> 256"
  shows "\<exists>T'. regex_emit fresh allow_grow T vals = Some (T', 0) \<and> code_is T' (C @ map of_int vals) A m"
  using emit_ops_is [OF assms] assms(1,2) by (simp add: regex_emit_def regex_reserve_def code_is_def)

lemma regex_emit_buffer_is:
  assumes "code_is T C A m" "length C + length xs \<le> A"
  shows "\<exists>T'. regex_emit_buffer fresh allow_grow T xs = Some (T', 0) \<and> code_is T' (C @ xs) A m"
proof -
  obtain Y where T: "rx_code T = C @ Y" "rx_code_length T = length C" "rx_code_allocated T = A" "length C + length Y = A"
      "rx_capture_count T = m"
    using assms(1) by (rule code_isE)
  have "mem_store (rx_code T) (rx_code_length T) xs = Some ((C @ xs) @ drop (length xs) Y)"
    using T assms(2) by (simp add: mem_store_def overwrite_def)
  moreover have "code_is (T\<lparr>rx_code := (C @ xs) @ drop (length xs) Y, rx_code_length := length C + length xs\<rparr>) (C @ xs) A m"
    by (rule code_isI) (use T assms(2) in auto)
  ultimately show ?thesis using T assms(2) by (simp add: regex_emit_buffer_def regex_reserve_def REGEXERR_OK_def)
qed

section \<open>Quantifiers\<close>

lemma mem_move_up:
  assumes "Y \<noteq> []"
  shows "mem_move (C @ X @ z # Y) (length C + 1) (length C) (length X + 1) = Some (C @ hd (X @ [z]) # X @ z # tl Y)"
proof -
  obtain y Y' where Y: "Y = y # Y'" using assms by (cases Y) auto
  have "mem_load (C @ X @ z # Y) (length C) (length X + 1) = Some (X @ [z])" by (simp add: mem_load_def)
  moreover have "take (length C + 1) (C @ X @ z # Y) = C @ [hd (X @ [z])]" by (cases X) auto
  moreover have "drop (length C + 1 + (length X + 1)) (C @ X @ z # Y) = Y'" by (simp add: Y)
  ultimately show ?thesis by (simp add: mem_move_def mem_store_def overwrite_def Y)
qed

lemma compile_quantifier_insert:
  assumes "code_is T (C @ o' # X) A m" "length C + length X + 2 < A" "o' = REGEXOP_EXACT_MATCH \<Longrightarrow> X \<noteq> [] \<and> hd X = 1"
  shows "\<exists>T'. regex_compile_quantifier fresh allow_grow T (length C) q = Some (T', 0) \<and> code_is T' (C @ q # o' # X) A m"
proof -
  obtain Y where T: "rx_code T = (C @ o' # X) @ Y" "rx_code_length T = length (C @ o' # X)" "rx_code_allocated T = A"
      "length (C @ o' # X) + length Y = A" "rx_capture_count T = m"
    using assms(1) by (rule code_isE)
  obtain T1 where e: "regex_emit fresh allow_grow T [0] = Some (T1, 0)" "code_is T1 (C @ o' # X @ [0]) A m"
    using regex_emit_is [OF assms(1), of "[0]" fresh allow_grow] assms(2) by auto
  obtain Y1 where T1: "rx_code T1 = (C @ o' # X @ [0]) @ Y1" "rx_code_length T1 = length (C @ o' # X @ [0])" "rx_code_allocated T1 = A"
      "length (C @ o' # X @ [0]) + length Y1 = A" "rx_capture_count T1 = m"
    using e(2) by (rule code_isE)
  have "Y1 \<noteq> []" using T1(4) assms(2) by auto
  from mem_move_up [OF this, of C "o' # X" 0] have move: "mem_move (rx_code T1) (length C + 1) (length C) (length X + 2) =
      Some (C @ o' # o' # X @ 0 # tl Y1)" by (simp add: T1)
  define T2 where "T2 = T1\<lparr>rx_code := (C @ q # o' # X) @ 0 # tl Y1\<rparr>"
  have "code_is T2 (C @ q # o' # X) A m"
    by (rule code_isI [where Y = "0 # tl Y1"]) (use T1 \<open>Y1 \<noteq> []\<close> in \<open>auto simp: T2_def\<close>)
  moreover have "mem_get (rx_code T) (length C) = Some o'" by (simp add: T mem_get_def)
  moreover have "o' = REGEXOP_EXACT_MATCH \<Longrightarrow> mem_get (rx_code T) (length C + 1) = Some 1"
    using assms(3) by (cases X) (auto simp: T mem_get_def nth_append)
  moreover have "mem_set (C @ o' # o' # X @ 0 # tl Y1) (length C) q = Some (rx_code T2)"
    by (simp add: mem_set_def T2_def)
  moreover have "size_sub (1 + rx_code_length T) (length C) = length X + 2" using T(2) by simp
  ultimately show ?thesis using e(1) move
    by (cases "o' = REGEXOP_EXACT_MATCH") (auto simp: regex_compile_quantifier_def Let_def REGEXERR_OK_def T2_def)
qed
lemma uint_byte_le: "uint (b :: byte) \<le> 256"
  using uint_lt2p [of b] by simp

lemma compile_quantifier_split:
  assumes "code_is T (C @ REGEXOP_EXACT_MATCH # of_nat (length s + 1) # s @ [c]) A m"
    "s \<noteq> []" "last s \<noteq> 0" "length s \<le> 254" "length C + length s + 6 \<le> A"
  shows "\<exists>T'. regex_compile_quantifier fresh allow_grow T (length C) q = Some (T', 0) \<and>
    code_is T' (C @ REGEXOP_EXACT_MATCH # of_nat (length s) # s @ [q, REGEXOP_EXACT_MATCH, 1, c]) A m"
proof -
  define C' where "C' = C @ REGEXOP_EXACT_MATCH # of_nat (length s + 1) # s @ [c]"
  obtain Y where T: "rx_code T = C' @ Y" "rx_code_length T = length C'" "rx_code_allocated T = A"
      "length C' + length Y = A" "rx_capture_count T = m"
    using assms(1) unfolding C'_def by (rule code_isE)
  have get: "mem_get (rx_code T) (length C) = Some REGEXOP_EXACT_MATCH" "mem_get (rx_code T) (length C + 1) = Some (of_nat (length s + 1))"
    by (simp_all add: T mem_get_def C'_def nth_append)
  have "size_sub (rx_code_length T) 1 = length C + length s + 2" "size_sub (rx_code_length T) 2 = length C + length s + 1"
    by (simp_all add: T C'_def)
  moreover have "(C' @ Y) ! (length C + length s + 2) = c" by (simp add: C'_def nth_append)
  moreover have "(C' @ Y) ! (length C + length s + 1) = last s" using assms(2)
    by (simp add: C'_def nth_append last_conv_nth nth_Cons')
  moreover have "length C + length s + 2 < length (C' @ Y)" by (simp add: C'_def)
  ultimately have last2: "mem_get (rx_code T) (size_sub (rx_code_length T) 1) = Some c"
      "mem_get (rx_code T) (size_sub (rx_code_length T) 2) = Some (last s)"
    by (simp_all add: T mem_get_def)
  have n: "1 < (of_nat (length s + 1) :: byte)" "of_nat (length s + 1) - 1 = (of_nat (length s) :: byte)"
    using assms(2,4) byte_of_nat [of "length s + 1"] by (auto simp: word_less_nat_alt)
  define T1 where "T1 = T\<lparr>rx_code := (rx_code T)[length C + 1 := of_nat (length s)], rx_code_length := length C + length s + 2\<rparr>"
  have "code_is T1 (C @ REGEXOP_EXACT_MATCH # of_nat (length s) # s) A m"
    by (rule code_isI [where Y = "c # Y"]) (use T in \<open>auto simp: T1_def C'_def list_update_append\<close>)
  from regex_emit_is [OF this, of "[uint q, uint REGEXOP_EXACT_MATCH, 1, uint c]" fresh allow_grow] assms(5)
  obtain T' where "regex_emit fresh allow_grow T1 [uint q, uint REGEXOP_EXACT_MATCH, 1, uint c] = Some (T', 0)"
      "code_is T' (C @ REGEXOP_EXACT_MATCH # of_nat (length s) # s @ [q, REGEXOP_EXACT_MATCH, 1, c]) A m"
    by (auto simp: uint_byte_le)
  moreover have "mem_set (rx_code T) (length C + 1) (of_nat (length s + 1) - 1) = Some (rx_code T1)"
    unfolding n(2) by (simp add: mem_set_def T1_def T C'_def)
  ultimately show ?thesis
    using get last2 n(1) assms(3) T(2)
    by (auto simp: regex_compile_quantifier_def T1_def C'_def)
qed

section \<open>Escapes and sets\<close>

lemma hex_digit_less: "regex_parse_hex_digit c \<in> set (map of_nat [0..<16])"
proof -
  have "unat (regex_parse_hex_digit c) < 16"
    by (auto simp: regex_parse_hex_digit_def word_le_nat_alt unat_sub_if' unat_word_ariths)
  then show ?thesis
    unfolding set_map by (intro image_eqI [where x = "unat (regex_parse_hex_digit c)"]) simp_all
qed

lemma hex_byte:
  "(push_bit 4 (regex_parse_hex_digit c) AND 0xF0) OR (regex_parse_hex_digit d AND 0xF) =
   16 * regex_parse_hex_digit c + regex_parse_hex_digit d"
proof -
  have "\<forall>x\<in>set (map of_nat [0..<16]). \<forall>y\<in>set (map of_nat [0..<16]).
      (push_bit 4 x AND 0xF0) OR (y AND 0xF) = 16 * x + (y :: byte)"
    by code_simp
  then show ?thesis using hex_digit_less by blast
qed

lemma escape_bytes_elem: "escape_bytes c = elem_code (elem_of (Escaped c))"
proof -
  have "sint c \<le> 127" using sint_lt [of c] by simp
  moreover have "sint c = 0 \<longleftrightarrow> c = 0" using signed_word_eqI [of c 0] by auto
  ultimately show ?thesis by (simp add: escape_bytes_def regex_encode_escape_def regexcode_defs Let_def)
qed

lemma drop_mem_get:
  assumes "drop offset pattern = c # xs"
  shows "mem_get pattern offset = Some c" "offset < length pattern" "drop (offset + 1) pattern = xs"
proof -
  have "offset < length pattern" using assms by (metis drop_all linorder_not_less list.distinct(1))
  moreover from this have "drop offset pattern = pattern ! offset # drop (offset + 1) pattern" by (simp add: Cons_nth_drop_Suc)
  ultimately show "mem_get pattern offset = Some c" "offset < length pattern" "drop (offset + 1) pattern = xs"
    using assms by (auto simp: mem_get_def)
qed

text \<open>Whether an escape is read as two digits.\<close>

lemma is_hex_two:
  assumes "drop offset pattern = c # d # xs"
  shows "offset + 1 < length pattern" "regex_is_hex pattern offset = Some (regex_hex_char c \<and> regex_hex_char d)"
    "regex_parse_hex pattern offset = Some (16 * regex_parse_hex_digit c + regex_parse_hex_digit d)"
  using drop_mem_get [OF assms] drop_mem_get [of "offset + 1" pattern d xs]
  by (auto simp: regex_is_hex_def regex_parse_hex_def hex_byte)

lemma escape_not_hex:
  assumes "drop offset pattern = c # xs" "clear_escape c xs"
  shows "(if offset + 1 < length pattern then regex_is_hex pattern offset else Some False) = Some False"
proof (cases xs)
  case Nil
  then show ?thesis using drop_mem_get(3) [OF assms(1)] by simp
next
  case (Cons d ys)
  then show ?thesis using is_hex_two [of offset pattern c d ys] assms by (simp add: clear_escape_def)
qed

lemma spellings_print_simps [simp]:
  "spellings_print [] = []" "spellings_print (e # es) = spelling_print e @ spellings_print es"
  by (simp_all add: spellings_print_def)

lemma group_loop_is:
  assumes "drop offset pattern = spellings_print es @ 93 # rest" "spellings_ok es (93 # rest)"
    "length buffer + length (elems_code (map elem_of es)) \<le> 255"
  shows "group_loop pattern (length pattern) offset buffer =
    Some (Group_Closed (offset + length (spellings_print es)) (buffer @ elems_code (map elem_of es)))"
  using assms
proof (induction es arbitrary: offset buffer)
  case Nil
  then show ?case using drop_mem_get [of offset pattern 93 rest] by (subst group_loop.simps) simp
next
  case (Cons e es)
  define xs where "xs = spellings_print es @ 93 # rest"
  have ok: "spelling_ok e xs" "spellings_ok es (93 # rest)" using Cons.prems(2) by (simp_all add: xs_def)
  note IH = Cons.IH [folded xs_def, OF _ ok(2)]
  show ?case
  proof (cases e)
    case (Plain b)
    then have "drop offset pattern = b # xs" using Cons.prems(1) by (simp add: xs_def)
    note d = drop_mem_get [OF this]
    show ?thesis using d ok(1) Plain Cons.prems(3) IH [OF d(3), of "buffer @ [b]"] by (subst group_loop.simps) simp
  next
    case (Hex c d)
    then have "drop offset pattern = 92 # c # d # xs" using Cons.prems(1) by (simp add: xs_def)
    note d0 = drop_mem_get [OF this]
    note d1 = drop_mem_get [OF d0(3)]
    note d2 = drop_mem_get [OF d1(3)]
    note h = is_hex_two [OF d0(3)]
    show ?thesis using d0 h d2(2) d2(3) ok(1) Hex Cons.prems(3)
        IH [of "offset + 3" "buffer @ [16 * regex_parse_hex_digit c + regex_parse_hex_digit d]"]
      by (subst group_loop.simps) (simp add: numeral_3_eq_3)
  next
    case (Escaped c)
    then have "drop offset pattern = 92 # c # xs" using Cons.prems(1) by (simp add: xs_def)
    note d0 = drop_mem_get [OF this]
    note d1 = drop_mem_get [OF d0(3)]
    have h: "(if offset + 2 < length pattern then regex_is_hex pattern (offset + 1) else Some False) = Some False"
      using escape_not_hex [OF d0(3)] ok(1) Escaped by (simp add: numeral_2_eq_2)
    have len: "length buffer + length (escape_bytes c) \<le> 255" "length buffer < 256"
      using Cons.prems(3) Escaped by (simp_all add: escape_bytes_elem del: elem_of.simps)
    have "group_loop pattern (length pattern) offset buffer = group_loop pattern (length pattern) (offset + 2) (buffer @ escape_bytes c)"
      by (subst group_loop.simps) (use d0 d1 h len in \<open>simp del: group_loop.simps\<close>)
    also have "\<dots> = Some (Group_Closed (offset + 2 + length (spellings_print es)) ((buffer @ escape_bytes c) @ elems_code (map elem_of es)))"
      using d1(3) Cons.prems(3) Escaped
      by (intro IH) (simp_all add: escape_bytes_elem numeral_2_eq_2 del: elem_of.simps)
    finally show ?thesis using Escaped by (simp add: escape_bytes_elem del: elem_of.simps)
  qed
qed

lemma regex_parse_group_is:
  assumes "drop offset pattern = (if negated then [94] else []) @ spellings_print es @ 93 # rest"
    "body_ok (Bracket negated es) rest" "byte_elems (map elem_of es)" "code_is T C A m"
    "length C + length (elems_code (map elem_of es)) + 2 \<le> A"
  shows "\<exists>T'. regex_parse_group fresh allow_grow T pattern offset (length pattern) =
      Some (T', offset + (if negated then 1 else 0) + length (spellings_print es) + 1) \<and>
    code_is T' (C @ atom_code (atom_of (Bracket negated es))) A m"
proof -
  define offset' where "offset' = offset + (if negated then 1 else 0)"
  define buffer where "buffer = elems_code (map elem_of es)"
  have len: "length buffer \<le> 255" using assms(3) by (simp add: byte_elems_def buffer_def)
  have d: "drop offset' pattern = spellings_print es @ 93 # rest"
    using assms(1) drop_mem_get(3) [of offset pattern 94] by (auto simp: offset'_def split: if_splits)
  have loop: "group_loop pattern (length pattern) offset' [] = Some (Group_Closed (offset' + length (spellings_print es)) buffer)"
    using group_loop_is [OF d, of "[]"] assms(2) len by (simp add: buffer_def)
  obtain c where c: "mem_get pattern offset = Some c" "c = 94 \<longleftrightarrow> negated"
  proof (cases negated)
    case True
    then show ?thesis using that drop_mem_get(1) [of offset pattern 94] assms(1) by simp
  next
    case False
    then obtain c ys where "spellings_print es @ [93] = c # ys" by (cases "spellings_print es") auto
    then have "drop offset pattern = c # ys @ rest" "c \<noteq> 94" using assms(1,2) False append_assoc [of "spellings_print es" "[93]" rest] by auto
    then show ?thesis using that [of c] drop_mem_get(1) [of offset pattern c] False by simp
  qed
  define op where "op = (if negated then REGEXOP_ANY_BUT else REGEXOP_ANY_OF)"
  obtain T1 where e1: "regex_emit fresh allow_grow T [uint op, int (length buffer)] = Some (T1, 0)"
      "code_is T1 (C @ [op, of_nat (length buffer)]) A m"
    using regex_emit_is [OF assms(4), of "[uint op, int (length buffer)]" fresh allow_grow] assms(5) len
    by (auto simp: uint_byte_le buffer_def)
  obtain T2 where e2: "regex_emit_buffer fresh allow_grow T1 buffer = Some (T2, 0)"
      "code_is T2 (C @ [op, of_nat (length buffer)] @ buffer) A m"
    using regex_emit_buffer_is [OF e1(2), of buffer fresh allow_grow] assms(5) by (auto simp: buffer_def)
  have "atom_code (atom_of (Bracket negated es)) = [op, of_nat (length buffer)] @ buffer"
    by (simp add: op_def buffer_def)
  then show ?thesis using c loop e1 e2
    by (cases "buffer = []") (auto simp: regex_parse_group_def offset'_def op_def REGEXERR_OK_def Let_def)
qed

section \<open>Rounds of the parser\<close>

lemma c_int_small: "n \<le> 255 \<Longrightarrow> c_int n = int n"
  by (simp add: c_int_def signed_of_nat signed_take_bit_int_eq_self)

lemma literal_size_is:
  assumes "drop offset pattern = s @ rest" "\<forall>c\<in>set s. literal_char c" "rest = [] \<or> \<not> literal_char (hd rest)"
  shows "literal_size pattern (length pattern) offset = Some (length s)"
  using assms
proof (induction s arbitrary: offset)
  case Nil
  show ?case
  proof (cases rest)
    case Nil
    then show ?thesis using Nil.prems(1) by (subst literal_size.simps) simp
  next
    case (Cons c xs)
    then show ?thesis using Nil.prems drop_mem_get [of offset pattern c xs]
      by (subst literal_size.simps) (simp add: char_in_constants literal_char_def)
  qed
next
  case (Cons c s)
  then have d: "drop offset pattern = c # (s @ rest)" by simp
  note m = drop_mem_get [OF d]
  show ?case using m Cons.IH [OF m(3)] Cons.prems(2,3)
    by (subst literal_size.simps) (simp add: char_in_constants literal_char_def)
qed

lemma meta_chars: "literal_char c \<Longrightarrow> c \<notin> {94, 36, 40, 41, 91, 46, 42, 43, 63, 92, 124}"
  by (auto simp: literal_char_def REGEX_META_CHARACTERS_def)

text \<open>A literal is one round.\<close>

lemma literal_token:
  assumes "drop offset pattern = s @ rest" "s \<noteq> []" "\<forall>c\<in>set s. literal_char c" "rest = [] \<or> \<not> literal_char (hd rest)"
    "length s \<le> 255" "code_is T C A m" "length C + length s + 2 \<le> A"
  shows "\<exists>T'. parse_token fresh allow_grow pattern (length pattern) level branch_begin T (offset + 1) last_code_length branch_op (hd s) =
      Some (Parse_Next T' (offset + length s) (length C) branch_op) \<and> code_is T' (C @ atom_code (Exact s)) A m"
proof -
  have c: "hd s \<notin> {94, 36, 40, 41, 91, 46, 42, 43, 63, 92, 124}" using meta_chars [of "hd s"] assms(2,3) by simp
  obtain T1 where e1: "regex_emit fresh allow_grow T [uint REGEXOP_EXACT_MATCH, c_int (length s)] = Some (T1, 0)"
      "code_is T1 (C @ [REGEXOP_EXACT_MATCH, of_nat (length s)]) A m"
    using regex_emit_is [OF assms(6), of "[uint REGEXOP_EXACT_MATCH, c_int (length s)]" fresh allow_grow] assms(5,7)
    by (auto simp: uint_byte_le c_int_small)
  obtain T2 where e2: "regex_emit_buffer fresh allow_grow T1 s = Some (T2, 0)"
      "code_is T2 (C @ atom_code (Exact s)) A m"
    using regex_emit_buffer_is [OF e1(2), of s fresh allow_grow] assms(7) by auto
  have "length s + length rest = length pattern - offset" "0 < length s" using assms(2) arg_cong [OF assms(1), of length] by auto
  then have "offset + length s \<le> length pattern" by linarith
  then have "mem_load pattern offset (length s) = Some s" using assms(1) by (simp add: mem_load_def)
  moreover have "rx_code_length T = length C" using assms(6) by (simp add: code_is_def)
  ultimately show ?thesis using c e1(1) e2 literal_size_is [OF assms(1,3,4)]
    by (simp add: parse_token_def next_unless_def)
qed

lemma escape_token:
  assumes "drop offset pattern = spelling_print e @ rest" "body_ok (Escape e) rest" "code_is T C A m"
    "length C + length (elem_code (elem_of e)) + 1 \<le> A"
  shows "\<exists>T'. parse_escape fresh allow_grow T pattern (offset + 1) (length pattern) branch_op =
      Some (Parse_Next T' (offset + length (spelling_print e)) (length C) branch_op) \<and>
    code_is T' (C @ atom_code (Meta (elem_of e))) A m"
proof -
  have len: "rx_code_length T = length C" using assms(3) by (simp add: code_is_def)
  show ?thesis
  proof (cases e)
    case (Plain b)
    then show ?thesis using assms(2) by simp
  next
    case (Hex c d)
    then have "drop offset pattern = 92 # c # d # rest" using assms(1) by simp
    note h = is_hex_two [OF drop_mem_get(3) [OF this]]
    define b where "b = 16 * regex_parse_hex_digit c + regex_parse_hex_digit d"
    obtain T' where "regex_emit fresh allow_grow T [uint REGEXOP_META_MATCH, uint b] = Some (T', 0)"
        "code_is T' (C @ [REGEXOP_META_MATCH, b]) A m"
      using regex_emit_is [OF assms(3), of "[uint REGEXOP_META_MATCH, uint b]" fresh allow_grow] assms(4) Hex by (auto simp: uint_byte_le)
    then show ?thesis using h Hex assms(2) len by (simp add: parse_escape_def next_unless_def b_def numeral_3_eq_3)
  next
    case (Escaped c)
    then have "drop offset pattern = 92 # c # rest" using assms(1) by simp
    note d0 = drop_mem_get [OF this]
    note d1 = drop_mem_get [OF d0(3)]
    define vals where "vals = (let code = regex_encode_escape c in
      if code = 0 \<or> code > 0xFF then [uint REGEXOP_META_MATCH, 0, code div 256] else [uint REGEXOP_META_MATCH, code])"
    have vals: "map of_int vals = REGEXOP_META_MATCH # elem_code (elem_of e)"
      unfolding Escaped escape_bytes_elem [symmetric] by (simp add: vals_def escape_bytes_def Let_def)
    have "regex_encode_escape c \<le> 1024" using sint_lt [of c] by (simp add: regex_encode_escape_def regexcode_defs)
    then have small: "\<forall>v\<in>set vals. v \<le> 256" by (auto simp: vals_def Let_def uint_byte_le split: if_splits)
    have "length vals = length (map of_int vals :: byte list)" by simp
    then have "length vals = length (elem_code (elem_of e)) + 1" unfolding vals by simp
    then obtain T' where "regex_emit fresh allow_grow T vals = Some (T', 0)"
        "code_is T' (C @ atom_code (Meta (elem_of e))) A m"
      using regex_emit_is [OF assms(3) _ small, of fresh allow_grow] assms(4) vals by auto
    moreover have h: "(if offset + 1 + 1 < length pattern then regex_is_hex pattern (offset + 1) else Some False) = Some False"
      using escape_not_hex [OF d0(3)] assms(2) Escaped by simp
    have "parse_escape fresh allow_grow T pattern (offset + 1) (length pattern) branch_op =
        Option.bind (regex_emit fresh allow_grow T vals) (\<lambda>r. Some (next_unless r (offset + 1 + 1) (length C) branch_op))"
      unfolding parse_escape_def Let_def h by (simp add: d1(1,2) [simplified] len vals_def Let_def)
    ultimately show ?thesis using Escaped by (simp add: next_unless_def del: elem_of.simps)
  qed
qed

lemma body_token:
  assumes "drop offset pattern = body_print b @ rest" "body_ok b rest" "wf_atom (atom_of b)" "code_is T C A m"
    "length C + length (atom_code (atom_of b)) \<le> A"
  shows "\<exists>T'. parse_token fresh allow_grow pattern (length pattern) level branch_begin T (offset + 1) last_code_length branch_op (hd (body_print b)) =
      Some (Parse_Next T' (offset + length (body_print b)) (length C) branch_op) \<and> code_is T' (C @ atom_code (atom_of b)) A m"
proof (cases b)
  case Dot
  then show ?thesis using regex_emit_is [OF assms(4), of "[uint REGEXOP_ANY]" fresh allow_grow] assms(4,5)
    by (auto simp: parse_token_def next_unless_def uint_byte_le code_is_def)
next
  case (Bracket negated es)
  then have "drop offset pattern = 91 # ((if negated then [94] else []) @ spellings_print es @ 93 # rest)" using assms(1) by simp
  note d = drop_mem_get [OF this]
  obtain T' where g: "regex_parse_group fresh allow_grow T pattern (offset + 1) (length pattern) =
      Some (T', offset + 1 + (if negated then 1 else 0) + length (spellings_print es) + 1)"
      "code_is T' (C @ atom_code (atom_of (Bracket negated es))) A m"
    using regex_parse_group_is [OF d(3) _ _ assms(4), of fresh allow_grow] assms(2,3,5) Bracket by (auto split: if_splits)
  have "length (drop offset pattern) = length (body_print b) + length rest" using assms(1) by simp
  then have "offset + length (body_print b) \<le> length pattern" using d(2) by simp
  moreover have "offset + 1 + (if negated then 1 else 0) + length (spellings_print es) + 1 = offset + length (body_print b)"
    using Bracket by simp
  ultimately show ?thesis using g assms(4) Bracket by (auto simp: parse_token_def code_is_def)
next
  case (Escape e)
  moreover have "hd (spelling_print e) = 92" using assms(2) Escape by (cases e) auto
  ultimately show ?thesis using escape_token [of offset pattern e rest T C A m] assms by (simp add: parse_token_def)
qed

lemma quantifier_token:
  assumes "drop offset pattern = quantifier_print q @ rest" "quantifier_ok q rest" "last_code_length < rx_code_length T"
    "mem_get (rx_code T) last_code_length = Some o'" "REGEXOP_EXACT_MATCH \<le> o'" "o' \<le> REGEXOP_ANY_BUT"
    "regex_compile_quantifier fresh allow_grow T last_code_length (quantifier_code q) = Some (T', 0)"
  shows "parse_token fresh allow_grow pattern (length pattern) level branch_begin T (offset + 1) last_code_length branch_op (hd (quantifier_print q)) =
    Some (Parse_Next T' (offset + length (quantifier_print q)) last_code_length branch_op)"
proof -
  have q: "parse_quantifier fresh allow_grow T off last_code_length branch_op (quantifier_code q) =
      Some (Parse_Next T' off last_code_length branch_op)" for off
    using assms(3-7) by (simp add: parse_quantifier_def next_unless_def not_less)
  have short: "(if offset + 1 < length pattern then map_option (\<lambda>d. d = 63) (mem_get pattern (offset + 1)) else Some False) =
      Some (q \<in> {Zero_Or_More_Shortest, One_Or_More_Shortest})" if "q \<noteq> Zero_Or_One"
  proof -
    obtain c xs where c: "quantifier_print q @ rest = c # xs" by (cases q) auto
    note d = drop_mem_get [OF assms(1) [unfolded c]]
    show ?thesis
    proof (cases xs)
      case Nil
      then show ?thesis using d c that by (cases q) auto
    next
      case (Cons y ys)
      then show ?thesis using d(3) drop_mem_get [of "offset + 1" pattern y ys] c that assms(2) by (cases q) auto
    qed
  qed
  show ?thesis
  proof (cases "q = Zero_Or_One")
    case True
    then show ?thesis using q by (simp add: parse_token_def)
  next
    case False
    show ?thesis unfolding parse_token_def short [OF False] using q False by (cases q) simp_all
  qed
qed

section \<open>The parser reads a pattern\<close>

lemma loop_token:
  assumes "mem_get pattern offset = Some c" "offset < length pattern" "c \<noteq> 40"
    "parse_token fresh allow_grow pattern (length pattern) level branch_begin T (offset + 1) last_code_length branch_op c =
       Some (Parse_Next T' offset' last' branch_op')"
  shows "regex_parser_loop fresh allow_grow pattern (length pattern) level branch_begin T offset last_code_length branch_op =
    regex_parser_loop fresh allow_grow pattern (length pattern) level branch_begin T' offset' last' branch_op'"
  using assms by (subst regex_parser_loop.simps) simp

text \<open>
  From \<open>offset\<close> on the parser reads up to \<open>offset'\<close> and goes on, with the code \<open>C'\<close> in place of \<open>C\<close> and
  \<open>m'\<close> captures in place of \<open>m\<close>.
\<close>

definition parses :: "(nat \<Rightarrow> byte) \<Rightarrow> bool \<Rightarrow> byte list \<Rightarrow> nat \<Rightarrow> nat \<Rightarrow> nat \<Rightarrow> byte list \<Rightarrow> byte list \<Rightarrow> nat \<Rightarrow> nat \<Rightarrow> bool" where
  "parses fresh allow_grow pattern A offset offset' C C' m m' \<longleftrightarrow>
     (\<forall>T level branch_begin last_code_length branch_op. code_is T C A m \<longrightarrow>
        (\<exists>T' last'. code_is T' C' A m' \<and>
           regex_parser_loop fresh allow_grow pattern (length pattern) level branch_begin T offset last_code_length branch_op =
           regex_parser_loop fresh allow_grow pattern (length pattern) level branch_begin T' offset' last' branch_op))"

lemma parses_refl: "parses fresh allow_grow pattern A offset offset C C m m"
  unfolding parses_def by blast

lemma parses_trans:
  "parses fresh allow_grow pattern A o1 o2 C1 C2 m1 m2 \<Longrightarrow> parses fresh allow_grow pattern A o2 o3 C2 C3 m2 m3 \<Longrightarrow>
   parses fresh allow_grow pattern A o1 o3 C1 C3 m1 m3"
  unfolding parses_def by metis

lemma parses_tokenI:
  assumes "drop offset pattern = c # xs" "c \<noteq> 40"
    "\<And>T level branch_begin last_code_length branch_op. code_is T C A m \<Longrightarrow>
       \<exists>T' last'. parse_token fresh allow_grow pattern (length pattern) level branch_begin T (offset + 1) last_code_length branch_op c =
         Some (Parse_Next T' offset' last' branch_op) \<and> code_is T' C' A m"
  shows "parses fresh allow_grow pattern A offset offset' C C' m m"
  unfolding parses_def using loop_token [OF drop_mem_get(1,2) [OF assms(1)] assms(2)] assms(3) by metis

text \<open>A token that sets the last operation, and a quantifier behind it.\<close>

lemma parses_quantifiedI:
  assumes "drop offset pattern = c # xs" "c \<noteq> 40" "drop offset1 pattern = quantifier_print q @ rest" "quantifier_ok q rest"
    "\<And>T level branch_begin last_code_length branch_op. code_is T C A m \<Longrightarrow>
       \<exists>T'. parse_token fresh allow_grow pattern (length pattern) level branch_begin T (offset + 1) last_code_length branch_op c =
         Some (Parse_Next T' offset1 (length C) branch_op) \<and> code_is T' (C @ o' # X) A m"
    "REGEXOP_EXACT_MATCH \<le> o'" "o' \<le> REGEXOP_ANY_BUT"
    "\<And>T. code_is T (C @ o' # X) A m \<Longrightarrow>
       \<exists>T'. regex_compile_quantifier fresh allow_grow T (length C) (quantifier_code q) = Some (T', 0) \<and> code_is T' C' A m"
  shows "parses fresh allow_grow pattern A offset (offset1 + length (quantifier_print q)) C C' m m"
  unfolding parses_def
proof (intro allI impI)
  fix T level branch_begin last_code_length branch_op assume "code_is T C A m"
  then obtain T1 where T1: "parse_token fresh allow_grow pattern (length pattern) level branch_begin T (offset + 1) last_code_length branch_op c =
      Some (Parse_Next T1 offset1 (length C) branch_op)" "code_is T1 (C @ o' # X) A m"
    using assms(5) by blast
  obtain T2 where T2: "regex_compile_quantifier fresh allow_grow T1 (length C) (quantifier_code q) = Some (T2, 0)" "code_is T2 C' A m"
    using assms(8) [OF T1(2)] by blast
  obtain Y where Y: "rx_code T1 = (C @ o' # X) @ Y" "rx_code_length T1 = length (C @ o' # X)"
    using T1(2) by (rule code_isE) blast
  have o': "length C < rx_code_length T1" "mem_get (rx_code T1) (length C) = Some o'" using Y by (simp_all add: mem_get_def)
  have hd_q: "hd (quantifier_print q) \<noteq> 40" "quantifier_print q = hd (quantifier_print q) # tl (quantifier_print q)" by (cases q; simp)+
  have d: "drop offset1 pattern = hd (quantifier_print q) # (tl (quantifier_print q) @ rest)"
    using assms(3) hd_q(2) by (metis append_Cons)
  have "regex_parser_loop fresh allow_grow pattern (length pattern) level branch_begin T offset last_code_length branch_op =
      regex_parser_loop fresh allow_grow pattern (length pattern) level branch_begin T1 offset1 (length C) branch_op"
    by (rule loop_token [OF drop_mem_get(1,2) [OF assms(1)] assms(2) T1(1)])
  also have "\<dots> = regex_parser_loop fresh allow_grow pattern (length pattern) level branch_begin T2
      (offset1 + length (quantifier_print q)) (length C) branch_op"
    by (rule loop_token [OF drop_mem_get(1,2) [OF d] hd_q(1) quantifier_token [OF assms(3,4) o' assms(6,7) T2(1)]])
  finally show "\<exists>T' last'. code_is T' C' A m \<and>
      regex_parser_loop fresh allow_grow pattern (length pattern) level branch_begin T offset last_code_length branch_op =
      regex_parser_loop fresh allow_grow pattern (length pattern) level branch_begin T' (offset1 + length (quantifier_print q)) last' branch_op"
    using T2(2) by blast
qed

lemma parse_branch_is:
  assumes "code_is T (C @ a) A m" "a \<noteq> []" "length C + length a + 4 \<le> A"
  shows "\<exists>T'. parse_branch fresh allow_grow (length C) T offset last_code_length =
      Some (Parse_Next T' offset last_code_length (length C + length a + 2)) \<and>
    code_is T' (C @ [REGEXOP_BRANCH, of_nat (length a + 2)] @ a @ [REGEXOP_BRANCH_END, 0]) A m"
proof -
  obtain T1 where e: "regex_emit fresh allow_grow T [0, 0, uint REGEXOP_BRANCH_END, 0] = Some (T1, 0)"
      "code_is T1 (C @ a @ [0, 0, REGEXOP_BRANCH_END, 0]) A m"
    using regex_emit_is [OF assms(1), of "[0, 0, uint REGEXOP_BRANCH_END, 0]" fresh allow_grow] assms(3) by (auto simp: uint_byte_le)
  obtain Y where T1: "rx_code T1 = (C @ a @ [0, 0, REGEXOP_BRANCH_END, 0]) @ Y" "rx_code_length T1 = length (C @ a @ [0, 0, REGEXOP_BRANCH_END, 0])"
      "rx_code_allocated T1 = A" "length (C @ a @ [0, 0, REGEXOP_BRANCH_END, 0]) + length Y = A" "rx_capture_count T1 = m"
    using e(2) by (rule code_isE)
  obtain x y zs where xy: "a @ [0, 0] = x # y # zs" by (cases a; cases "tl a") auto
  define R where "R = [REGEXOP_BRANCH_END, 0] @ Y"
  have code: "rx_code T1 = C @ (a @ [0, 0]) @ R" by (simp add: T1 R_def)
  have zs: "length zs = length a" using arg_cong [OF xy, of length] by simp
  have "mem_load (rx_code T1) (length C) (length a) = Some a" by (simp add: code mem_load_def)
  moreover have "mem_store (rx_code T1) (length C + 2) a = Some (C @ [x, y] @ a @ R)"
    unfolding code xy using zs by (simp add: mem_store_def overwrite_def)
  ultimately have move: "mem_move (rx_code T1) (length C + 2) (length C) (length a) = Some (C @ [x, y] @ a @ R)"
    by (simp add: mem_move_def)
  define T' where "T' = T1\<lparr>rx_code := (C @ [REGEXOP_BRANCH, of_nat (length a + 2)] @ a @ [REGEXOP_BRANCH_END, 0]) @ Y\<rparr>"
  have sets: "mem_set (C @ [x, y] @ a @ R) (length C) REGEXOP_BRANCH = Some (C @ [REGEXOP_BRANCH, y] @ a @ R)"
    "mem_set (C @ [REGEXOP_BRANCH, y] @ a @ R) (length C + 1) (of_nat (length a + 2)) = Some (rx_code T')"
    by (simp_all add: mem_set_def T'_def R_def list_update_append)
  have "code_is T' (C @ [REGEXOP_BRANCH, of_nat (length a + 2)] @ a @ [REGEXOP_BRANCH_END, 0]) A m"
    by (rule code_isI [where Y = Y]) (use T1 in \<open>simp_all add: T'_def\<close>)
  moreover have "rx_code_length T = length C + length a" "rx_code_length T1 = length C + length a + 4"
    using assms(1) by (simp_all add: code_is_def T1)
  moreover have "T1\<lparr>rx_code := rx_code T'\<rparr> = T'" by (simp add: T'_def)
  ultimately show ?thesis using e(1) move sets assms(2) by (simp add: parse_branch_def Let_def)
qed

text \<open>The closing parenthesis ends the call for a capture, and completes the jump over a second branch.\<close>

lemma loop_close:
  assumes "drop offset pattern = 41 # xs" "code_is T (C @ b) A m"
    "branch_op = REGEXPARSE_NOBRANCH \<and> C' = C \<or>
     branch_op \<noteq> REGEXPARSE_NOBRANCH \<and> branch_op + 2 = length C \<and> C' = butlast C @ [of_nat (length b)]"
  shows "\<exists>T'. regex_parser_loop fresh allow_grow pattern (length pattern) (level + 1) branch_begin T offset last_code_length branch_op =
      ret (T', offset + 1) \<and> code_is T' (C' @ b) A m"
proof -
  obtain Y where T: "rx_code T = (C @ b) @ Y" "rx_code_length T = length (C @ b)" "rx_code_allocated T = A"
      "length (C @ b) + length Y = A" "rx_capture_count T = m"
    using assms(2) by (rule code_isE)
  define T' where "T' = T\<lparr>rx_code := (C' @ b) @ Y\<rparr>"
  have "length C' = length C" using assms(3) by (auto simp: Suc_diff_1)
  then have "code_is T' (C' @ b) A m" by (intro code_isI [where Y = Y]) (use T in \<open>simp_all add: T'_def\<close>)
  moreover have "parse_token fresh allow_grow pattern (length pattern) (level + 1) branch_begin T (offset + 1) last_code_length branch_op 41 =
      Some (Parse_Return T' (offset + 1))"
    using assms(3)
  proof
    assume "branch_op = REGEXPARSE_NOBRANCH \<and> C' = C"
    then show ?thesis using T(1) by (simp add: parse_token_def T'_def)
  next
    assume b: "branch_op \<noteq> REGEXPARSE_NOBRANCH \<and> branch_op + 2 = length C \<and> C' = butlast C @ [of_nat (length b)]"
    then obtain D z where C: "C = D @ [z]" "length D = branch_op + 1" by (cases C rule: rev_cases) auto
    then have "mem_set (rx_code T) (branch_op + 1) (of_nat (length b)) = Some (rx_code T')"
      using b T(1) by (simp add: mem_set_def T'_def list_update_append)
    moreover have "size_sub (rx_code_length T) (branch_op + 2) = length b" using T(2) b by simp
    moreover have "T\<lparr>rx_code := rx_code T'\<rparr> = T'" by (simp add: T'_def)
    ultimately show ?thesis using b by (simp add: parse_token_def)
  qed
  ultimately show ?thesis using drop_mem_get [OF assms(1)] by (subst regex_parser_loop.simps) auto
qed

lemma parses_groupI:
  assumes "drop offset pattern = 40 # xs" "drop offset1 pattern = 41 # ys" "m \<le> 255" "length C + length X + 4 \<le> A"
    "\<And>T level. code_is T (C @ [REGEXOP_BEGIN_CAPTURE, of_nat m]) A (m + 1) \<Longrightarrow>
      \<exists>T'. regex_parser_loop fresh allow_grow pattern (length pattern) (level + 1) (length C + 2) T (offset + 1) (length C + 2) REGEXPARSE_NOBRANCH =
        ret (T', offset1 + 1) \<and> code_is T' (C @ [REGEXOP_BEGIN_CAPTURE, of_nat m] @ X) A m'"
  shows "parses fresh allow_grow pattern A offset (offset1 + 1) C
    (C @ [REGEXOP_BEGIN_CAPTURE, of_nat m] @ X @ [REGEXOP_END_CAPTURE, of_nat m]) m m'"
  unfolding parses_def
proof (intro allI impI)
  fix T level branch_begin last_code_length branch_op assume T: "code_is T C A m"
  define T0 where "T0 = T\<lparr>rx_capture_count := (rx_capture_count T + 1) mod 2 ^ 32\<rparr>"
  have m: "rx_capture_count T = m" "rx_code_length T = length C" using T by (simp_all add: code_is_def)
  have "code_is T0 C A (m + 1)" using T assms(3) by (simp add: code_is_def T0_def)
  from regex_emit_is [OF this, of "[uint REGEXOP_BEGIN_CAPTURE, c_int m]" fresh allow_grow] assms(3,4)
  obtain T1 where T1: "regex_emit fresh allow_grow T0 [uint REGEXOP_BEGIN_CAPTURE, c_int m] = Some (T1, 0)"
      "code_is T1 (C @ [REGEXOP_BEGIN_CAPTURE, of_nat m]) A (m + 1)"
    by (auto simp: uint_byte_le c_int_small)
  have l1: "rx_code_length T1 = length C + 2" using T1(2) by (simp add: code_is_def)
  obtain T2 where T2: "regex_parser_loop fresh allow_grow pattern (length pattern) (level + 1) (length C + 2) T1 (offset + 1) (length C + 2) REGEXPARSE_NOBRANCH =
        ret (T2, offset1 + 1)" "code_is T2 (C @ [REGEXOP_BEGIN_CAPTURE, of_nat m] @ X) A m'"
    using assms(5) [OF T1(2)] by blast
  from regex_emit_is [OF T2(2), of "[uint REGEXOP_END_CAPTURE, c_int m]" fresh allow_grow] assms(3,4)
  obtain T3 where T3: "regex_emit fresh allow_grow T2 [uint REGEXOP_END_CAPTURE, c_int m] = Some (T3, 0)"
      "code_is T3 (C @ [REGEXOP_BEGIN_CAPTURE, of_nat m] @ X @ [REGEXOP_END_CAPTURE, of_nat m]) A m'"
    by (auto simp: uint_byte_le c_int_small)
  have close: "end_capture fresh allow_grow pattern (length pattern) m T2 (offset1 + 1) (length C) branch_op =
      Some (Parse_Next T3 (offset1 + 1) (length C) branch_op)"
    using drop_mem_get [OF assms(2)] T3(1) by (simp add: end_capture_def next_unless_def)
  have "regex_parser_loop fresh allow_grow pattern (length pattern) level branch_begin T offset last_code_length branch_op =
      regex_parser_loop fresh allow_grow pattern (length pattern) level branch_begin T3 (offset1 + 1) (length C) branch_op"
    by (subst regex_parser_loop.simps)
      (use drop_mem_get [OF assms(1)] T1(1) [unfolded T0_def m] T2(1) close in \<open>simp add: m l1\<close>)
  then show "\<exists>T' last'. code_is T' (C @ [REGEXOP_BEGIN_CAPTURE, of_nat m] @ X @ [REGEXOP_END_CAPTURE, of_nat m]) A m' \<and>
      regex_parser_loop fresh allow_grow pattern (length pattern) level branch_begin T offset last_code_length branch_op =
      regex_parser_loop fresh allow_grow pattern (length pattern) level branch_begin T' (offset1 + 1) last' branch_op"
    using T3(2) by blast
qed

lemma parses_group:
  assumes "drop offset pattern = 40 # xs" "drop offset1 pattern = 41 # ys" "m \<le> 255" "length C + length X + 4 \<le> A"
    "parses fresh allow_grow pattern A (offset + 1) offset1 (C @ [REGEXOP_BEGIN_CAPTURE, of_nat m])
       (C @ [REGEXOP_BEGIN_CAPTURE, of_nat m] @ X) (m + 1) m'"
  shows "parses fresh allow_grow pattern A offset (offset1 + 1) C
    (C @ [REGEXOP_BEGIN_CAPTURE, of_nat m] @ X @ [REGEXOP_END_CAPTURE, of_nat m]) m m'"
proof (rule parses_groupI [OF assms(1-4)])
  fix T level assume "code_is T (C @ [REGEXOP_BEGIN_CAPTURE, of_nat m]) A (m + 1)"
  then obtain T' last' where "code_is T' (C @ [REGEXOP_BEGIN_CAPTURE, of_nat m] @ X) A m'"
      "regex_parser_loop fresh allow_grow pattern (length pattern) (level + 1) (length C + 2) T (offset + 1) (length C + 2) REGEXPARSE_NOBRANCH =
       regex_parser_loop fresh allow_grow pattern (length pattern) (level + 1) (length C + 2) T' offset1 last' REGEXPARSE_NOBRANCH"
    using assms(5) unfolding parses_def by blast
  then show "\<exists>T'. regex_parser_loop fresh allow_grow pattern (length pattern) (level + 1) (length C + 2) T (offset + 1) (length C + 2) REGEXPARSE_NOBRANCH =
      ret (T', offset1 + 1) \<and> code_is T' (C @ [REGEXOP_BEGIN_CAPTURE, of_nat m] @ X) A m'"
    using loop_close [OF assms(2), of T' "C @ [REGEXOP_BEGIN_CAPTURE, of_nat m] @ X" "[]" A m' REGEXPARSE_NOBRANCH] by simp
qed

lemma parses_branches:
  fixes C a b :: "byte list" and m m1 m2 A :: nat
  defines "D \<equiv> C @ [REGEXOP_BEGIN_CAPTURE, of_nat m]"
  defines "E \<equiv> D @ [REGEXOP_BRANCH, of_nat (length a + 2)] @ a"
  assumes "drop offset pattern = 40 # xs" "drop offset1 pattern = 124 # ys" "drop offset2 pattern = 41 # zs"
    "m \<le> 255" "a \<noteq> []" "length C + length a + length b + 8 \<le> A" "A < REGEXPARSE_NOBRANCH"
    "parses fresh allow_grow pattern A (offset + 1) offset1 D (D @ a) (m + 1) m1"
    "parses fresh allow_grow pattern A (offset1 + 1) offset2 (E @ [REGEXOP_BRANCH_END, 0]) ((E @ [REGEXOP_BRANCH_END, 0]) @ b) m1 m2"
  shows "parses fresh allow_grow pattern A offset (offset2 + 1) C
    (C @ [REGEXOP_BEGIN_CAPTURE, of_nat m] @ ([REGEXOP_BRANCH, of_nat (length a + 2)] @ a @ [REGEXOP_BRANCH_END, of_nat (length b)] @ b) @
     [REGEXOP_END_CAPTURE, of_nat m]) m m2"
proof (rule parses_groupI [OF assms(3,5,6)])
  show "length C + length ([REGEXOP_BRANCH, of_nat (length a + 2)] @ a @ [REGEXOP_BRANCH_END, of_nat (length b)] @ b) + 4 \<le> A"
    using assms(8) by simp
next
  fix T level assume "code_is T (C @ [REGEXOP_BEGIN_CAPTURE, of_nat m]) A (m + 1)"
  define loop where "loop = regex_parser_loop fresh allow_grow pattern (length pattern) (level + 1) (length C + 2)"
  define p where "p = length D + length a + 2"
  obtain T1 last1 where T1: "code_is T1 (D @ a) A m1" "loop T (offset + 1) (length C + 2) REGEXPARSE_NOBRANCH = loop T1 offset1 last1 REGEXPARSE_NOBRANCH"
    using assms(10) \<open>code_is T _ _ _\<close> unfolding parses_def loop_def D_def by blast
  obtain T2 where T2: "parse_branch fresh allow_grow (length D) T1 (offset1 + 1) last1 = Some (Parse_Next T2 (offset1 + 1) last1 p)"
      "code_is T2 (E @ [REGEXOP_BRANCH_END, 0]) A m1"
    using parse_branch_is [OF T1(1) assms(7), of fresh allow_grow "offset1 + 1" last1] assms(8) by (auto simp: D_def E_def p_def)
  have "loop T1 offset1 last1 REGEXPARSE_NOBRANCH = loop T2 (offset1 + 1) last1 p"
    unfolding loop_def using loop_token [OF drop_mem_get(1,2) [OF assms(4)]] T2(1) by (simp add: parse_token_def D_def)
  moreover obtain T3 last3 where T3: "code_is T3 ((E @ [REGEXOP_BRANCH_END, 0]) @ b) A m2"
      "loop T2 (offset1 + 1) last1 p = loop T3 offset2 last3 p"
    using assms(11) T2(2) unfolding parses_def loop_def by blast
  moreover have "\<exists>T'. loop T3 offset2 last3 p = ret (T', offset2 + 1) \<and> code_is T' ((E @ [REGEXOP_BRANCH_END, of_nat (length b)]) @ b) A m2"
    unfolding loop_def
    by (rule loop_close [OF assms(5) T3(1)]) (use assms(8,9) in \<open>auto simp: p_def E_def D_def butlast_append\<close>)
  ultimately show "\<exists>T'. regex_parser_loop fresh allow_grow pattern (length pattern) (level + 1) (length C + 2) T (offset + 1) (length C + 2) REGEXPARSE_NOBRANCH =
      ret (T', offset2 + 1) \<and> code_is T' (C @ [REGEXOP_BEGIN_CAPTURE, of_nat m] @
        [REGEXOP_BRANCH, of_nat (length a + 2)] @ a @ [REGEXOP_BRANCH_END, of_nat (length b)] @ b) A m2"
    using T1(2) unfolding loop_def by (simp add: E_def D_def)
qed

lemma pattern_drop_behind: "drop offset pattern = xs @ ys \<Longrightarrow> drop (offset + length xs) pattern = ys"
  using drop_drop [of "length xs" offset pattern] by (simp add: add.commute)

lemma atom_first_op:
  "\<exists>o' X. atom_code (atom_of b) = o' # X \<and> REGEXOP_EXACT_MATCH < o' \<and> o' \<le> REGEXOP_ANY_BUT"
  by (cases b) (auto simp: regexop_defs)

lemma body_print_first: "body_ok b rest \<Longrightarrow> \<exists>c xs. body_print b = c # xs \<and> c \<noteq> 40"
  by (cases b) (auto elim: spelling_ok.elims)

lemma parses_literal:
  assumes "piece_ok (Literal s) rest" "wf_piece (Literal s)" "drop offset pattern = s @ rest" "length C + length s + 2 \<le> A"
  shows "parses fresh allow_grow pattern A offset (offset + length s) C (C @ atom_code (Exact s)) m m"
proof -
  obtain c xs where s: "s = c # xs" using assms(2) by (cases s) auto
  then have "c \<noteq> 40" using assms(1) meta_chars [of c] by auto
  show ?thesis
  proof (rule parses_tokenI [of _ _ c "xs @ rest"])
    fix T level branch_begin last_code_length branch_op assume "code_is T C A m"
    then show "\<exists>T' last'. parse_token fresh allow_grow pattern (length pattern) level branch_begin T (offset + 1) last_code_length branch_op c =
        Some (Parse_Next T' (offset + length s) last' branch_op) \<and> code_is T' (C @ atom_code (Exact s)) A m"
      using literal_token [OF assms(3), of T C A m] assms(1,2,4) s by fastforce
  qed (use assms(3) s \<open>c \<noteq> 40\<close> in simp_all)
qed

lemma parses_literal_last:
  assumes "piece_ok (Literal_Last s c q) rest" "wf_piece (Literal_Last s c q)" "drop offset pattern = s @ c # quantifier_print q @ rest"
    "length C + piece_size (Literal_Last s c q) < A"
  shows "parses fresh allow_grow pattern A offset (offset + length s + 1 + length (quantifier_print q)) C
    (C @ piece_code m (Literal_Last s c q)) m m"
proof -
  define t where "t = s @ [c]"
  have t: "drop offset pattern = t @ quantifier_print q @ rest" "t \<noteq> []" "\<forall>c\<in>set t. literal_char c" "length t \<le> 255"
    using assms(1,2,3) by (auto simp: t_def)
  have meta: "quantifier_print q @ rest = [] \<or> \<not> literal_char (hd (quantifier_print q @ rest))"
    by (cases q) (auto simp: literal_char_def REGEX_META_CHARACTERS_def)
  obtain d xs where d: "t = d # xs" using t(2) by (cases t) auto
  then have "d \<noteq> 40" using t(3) meta_chars [of d] by auto
  have size: "length C + length t + 2 \<le> A" using assms(4) by (simp add: t_def split: if_splits)
  have "parses fresh allow_grow pattern A offset (offset + length t + length (quantifier_print q)) C (C @ piece_code m (Literal_Last s c q)) m m"
  proof (rule parses_quantifiedI [of _ _ d "xs @ quantifier_print q @ rest" _ _ rest _ _ _ _ _ REGEXOP_EXACT_MATCH "of_nat (length t) # t"])
    show "quantifier_ok q rest" using assms(1) by simp
    show "drop (offset + length t) pattern = quantifier_print q @ rest" by (rule pattern_drop_behind [OF t(1)])
    fix T level branch_begin last_code_length branch_op assume "code_is T C A m"
    then show "\<exists>T'. parse_token fresh allow_grow pattern (length pattern) level branch_begin T (offset + 1) last_code_length branch_op d =
        Some (Parse_Next T' (offset + length t) (length C) branch_op) \<and> code_is T' (C @ REGEXOP_EXACT_MATCH # of_nat (length t) # t) A m"
      using literal_token [OF t(1,2,3) meta t(4) _ size] d by simp
  next
    fix T assume T: "code_is T (C @ REGEXOP_EXACT_MATCH # of_nat (length t) # t) A m"
    show "\<exists>T'. regex_compile_quantifier fresh allow_grow T (length C) (quantifier_code q) = Some (T', 0) \<and>
        code_is T' (C @ piece_code m (Literal_Last s c q)) A m"
    proof (cases "s = []")
      case True
      then show ?thesis using compile_quantifier_insert [OF T] assms(4) by (simp add: t_def)
    next
      case False
      then show ?thesis using compile_quantifier_split [of T C s c A m fresh allow_grow "quantifier_code q"] T assms(1,2,4)
        by (simp add: t_def)
    qed
  qed (use t(1) d \<open>d \<noteq> 40\<close> in \<open>simp_all add: regexop_defs\<close>)
  then show ?thesis by (simp add: t_def)
qed

lemma parses_body:
  assumes "body_ok b rest" "wf_atom (atom_of b)" "drop offset pattern = body_print b @ rest" "length C + length (atom_code (atom_of b)) \<le> A"
  shows "parses fresh allow_grow pattern A offset (offset + length (body_print b)) C (C @ atom_code (atom_of b)) m m"
proof -
  obtain c xs where c: "body_print b = c # xs" "c \<noteq> 40" using body_print_first [OF assms(1)] by blast
  show ?thesis
  proof (rule parses_tokenI [of _ _ c "xs @ rest"])
    fix T level branch_begin last_code_length branch_op assume "code_is T C A m"
    then show "\<exists>T' last'. parse_token fresh allow_grow pattern (length pattern) level branch_begin T (offset + 1) last_code_length branch_op c =
        Some (Parse_Next T' (offset + length (body_print b)) last' branch_op) \<and> code_is T' (C @ atom_code (atom_of b)) A m"
      using body_token [OF assms(3,1,2) _ assms(4), of T m] c by fastforce
  qed (use assms(3) c in simp_all)
qed

lemma parses_body_quantified:
  assumes "body_ok b (quantifier_print q @ rest)" "quantifier_ok q rest" "wf_atom (atom_of b)"
    "drop offset pattern = body_print b @ quantifier_print q @ rest" "length C + length (atom_code (atom_of b)) + 1 < A"
  shows "parses fresh allow_grow pattern A offset (offset + length (body_print b) + length (quantifier_print q)) C
    (C @ quantifier_code q # atom_code (atom_of b)) m m"
proof -
  obtain c xs where c: "body_print b = c # xs" "c \<noteq> 40" using body_print_first [OF assms(1)] by blast
  obtain o' X where o': "atom_code (atom_of b) = o' # X" "REGEXOP_EXACT_MATCH < o'" "o' \<le> REGEXOP_ANY_BUT"
    using atom_first_op by blast
  show ?thesis
  proof (rule parses_quantifiedI [of _ _ c "xs @ quantifier_print q @ rest" _ _ rest _ _ _ _ _ o' X])
    show "drop (offset + length (body_print b)) pattern = quantifier_print q @ rest" by (rule pattern_drop_behind [OF assms(4)])
    fix T level branch_begin last_code_length branch_op assume "code_is T C A m"
    then show "\<exists>T'. parse_token fresh allow_grow pattern (length pattern) level branch_begin T (offset + 1) last_code_length branch_op c =
        Some (Parse_Next T' (offset + length (body_print b)) (length C) branch_op) \<and> code_is T' (C @ o' # X) A m"
      using body_token [OF assms(4,1,3), of T C A m] assms(5) c o'(1) by fastforce
  next
    fix T assume T: "code_is T (C @ o' # X) A m"
    show "\<exists>T'. regex_compile_quantifier fresh allow_grow T (length C) (quantifier_code q) = Some (T', 0) \<and>
        code_is T' (C @ quantifier_code q # atom_code (atom_of b)) A m"
      using compile_quantifier_insert [OF T, of fresh allow_grow "quantifier_code q"] assms(5) o' by auto
  qed (use assms(2,4) c o' in simp_all)
qed

lemma parses_anchor:
  assumes "drop offset pattern = c # rest" "c = 94 \<and> o' = REGEXOP_BEGINNING_OF_LINE \<or> c = 36 \<and> o' = REGEXOP_END_OF_LINE" "length C < A"
  shows "parses fresh allow_grow pattern A offset (offset + 1) C (C @ [o']) m m"
proof (rule parses_tokenI [OF assms(1)])
  show "c \<noteq> 40" using assms(2) by auto
  fix T level branch_begin last_code_length branch_op assume "code_is T C A m"
  from regex_emit_is [OF this, of "[uint o']" fresh allow_grow] assms(3)
  obtain T' where "regex_emit fresh allow_grow T [uint o'] = Some (T', 0)" "code_is T' (C @ [o']) A m" by (auto simp: uint_byte_le)
  then show "\<exists>T' last'. parse_token fresh allow_grow pattern (length pattern) level branch_begin T (offset + 1) last_code_length branch_op c =
      Some (Parse_Next T' (offset + 1) last' branch_op) \<and> code_is T' (C @ [o']) A m"
    using assms(2) by (auto simp: parse_token_def next_unless_def)
qed

lemma pieces_parsed:
  assumes "A < REGEXPARSE_NOBRANCH"
  shows "piece_ok p rest \<Longrightarrow> wf_piece p \<Longrightarrow> drop offset pattern = piece_print p @ rest \<Longrightarrow> length C + piece_size p < A \<Longrightarrow>
      m + piece_captures p \<le> 256 \<Longrightarrow>
      parses fresh allow_grow pattern A offset (offset + length (piece_print p)) C (C @ piece_code m p) m (m + piece_captures p)"
    and "pieces_ok ps rest \<Longrightarrow> wf_pieces ps \<Longrightarrow> drop offset pattern = pieces_print ps @ rest \<Longrightarrow> length C + pieces_size ps < A \<Longrightarrow>
      m + pieces_captures ps \<le> 256 \<Longrightarrow>
      parses fresh allow_grow pattern A offset (offset + length (pieces_print ps)) C (C @ pieces_code m ps) m (m + pieces_captures ps)"
proof (induction p rest and ps rest arbitrary: offset C m and offset C m rule: piece_ok_pieces_ok.induct)
  case (1 s rest)
  then show ?case using parses_literal [of s rest offset pattern C A] by simp
next
  case (2 s c q rest)
  then show ?case using parses_literal_last [of s c q rest offset pattern C A] by (simp add: add.assoc)
next
  case (3 b rest)
  then show ?case using parses_body [of b rest offset pattern C A] by simp
next
  case (4 b q rest)
  then show ?case using parses_body_quantified [of b q rest offset pattern C A] by (simp add: add.assoc)
next
  case (5 rest)
  then show ?case using parses_anchor [of offset pattern 94 rest REGEXOP_BEGINNING_OF_LINE C A] by simp
next
  case (6 rest)
  then show ?case using parses_anchor [of offset pattern 36 rest REGEXOP_END_OF_LINE C A] by simp
next
  case (7 ps rest)
  have d: "drop offset pattern = 40 # pieces_print ps @ 41 # rest" using "7.prems"(3) by simp
  note d1 = drop_mem_get(3) [OF d]
  have "parses fresh allow_grow pattern A offset (offset + 1 + length (pieces_print ps) + 1) C
      (C @ [REGEXOP_BEGIN_CAPTURE, of_nat m] @ pieces_code (m + 1) ps @ [REGEXOP_END_CAPTURE, of_nat m]) m (m + 1 + pieces_captures ps)"
  proof (rule parses_group [OF d pattern_drop_behind [OF d1]])
    show "parses fresh allow_grow pattern A (offset + 1) (offset + 1 + length (pieces_print ps)) (C @ [REGEXOP_BEGIN_CAPTURE, of_nat m])
        (C @ [REGEXOP_BEGIN_CAPTURE, of_nat m] @ pieces_code (m + 1) ps) (m + 1) (m + 1 + pieces_captures ps)"
      using "7.IH" [OF _ _ d1, of "C @ [REGEXOP_BEGIN_CAPTURE, of_nat m]" "m + 1"] "7.prems" by simp
  qed (use "7.prems" in simp_all)
  then show ?case by (simp add: ac_simps)
next
  case (8 ps qs rest)
  define a where "a = pieces_code (m + 1) ps"
  define b where "b = pieces_code (m + 1 + pieces_captures ps) qs"
  define D where "D = C @ [REGEXOP_BEGIN_CAPTURE, of_nat m]"
  have len: "length a = pieces_size ps" "length b = pieces_size qs" by (simp_all add: a_def b_def)
  have d: "drop offset pattern = 40 # pieces_print ps @ 124 # pieces_print qs @ 41 # rest" using "8.prems"(3) by simp
  note d1 = drop_mem_get(3) [OF d]
  note d2 = pattern_drop_behind [OF d1]
  note d3 = drop_mem_get(3) [OF d2]
  have "0 < length a" using "8.prems"(2) piece_size_pos by (cases ps) (simp_all add: len)
  then have "a \<noteq> []" by simp
  have "parses fresh allow_grow pattern A offset (offset + 1 + length (pieces_print ps) + 1 + length (pieces_print qs) + 1) C
      (C @ [REGEXOP_BEGIN_CAPTURE, of_nat m] @ ([REGEXOP_BRANCH, of_nat (length a + 2)] @ a @ [REGEXOP_BRANCH_END, of_nat (length b)] @ b) @
       [REGEXOP_END_CAPTURE, of_nat m]) m (m + 1 + pieces_captures ps + pieces_captures qs)"
  proof (rule parses_branches [OF d d2 pattern_drop_behind [OF d3] _ \<open>a \<noteq> []\<close> _ assms, where C = C and m = m and ?m1.0 = "m + 1 + pieces_captures ps", folded D_def])
    show "parses fresh allow_grow pattern A (offset + 1) (offset + 1 + length (pieces_print ps)) D (D @ a) (m + 1) (m + 1 + pieces_captures ps)"
      using "8.IH"(1) [OF _ _ d1, of D "m + 1"] "8.prems" by (simp add: a_def D_def)
    show "parses fresh allow_grow pattern A (offset + 1 + length (pieces_print ps) + 1)
        (offset + 1 + length (pieces_print ps) + 1 + length (pieces_print qs))
        ((D @ [REGEXOP_BRANCH, of_nat (length a + 2)] @ a) @ [REGEXOP_BRANCH_END, 0])
        (((D @ [REGEXOP_BRANCH, of_nat (length a + 2)] @ a) @ [REGEXOP_BRANCH_END, 0]) @ b)
        (m + 1 + pieces_captures ps) (m + 1 + pieces_captures ps + pieces_captures qs)"
      unfolding b_def using "8.prems" by (intro "8.IH"(2)) (simp_all add: d3 [simplified] D_def len)
  qed (use "8.prems" in \<open>simp_all add: len\<close>)
  then show ?case by (simp add: a_def b_def Let_def ac_simps)
next
  case (9 rest)
  then show ?case by (simp add: parses_refl)
next
  case (10 p ps rest)
  have "parses fresh allow_grow pattern A offset (offset + length (piece_print p)) C (C @ piece_code m p) m (m + piece_captures p)"
    using "10.prems" by (intro "10.IH"(1)) simp_all
  moreover have "parses fresh allow_grow pattern A (offset + length (piece_print p)) (offset + length (piece_print p) + length (pieces_print ps))
      (C @ piece_code m p) ((C @ piece_code m p) @ pieces_code (m + piece_captures p) ps)
      (m + piece_captures p) (m + piece_captures p + pieces_captures ps)"
    using "10.prems" pattern_drop_behind [of offset pattern "piece_print p" "pieces_print ps @ rest"] by (intro "10.IH"(2)) simp_all
  ultimately show ?case using parses_trans by (fastforce simp: add.assoc)
qed

section \<open>Compiled patterns\<close>

text \<open>The sizes for which the code fits into the memory that is allocated for it first, with a byte to spare.\<close>

definition compiles_ok :: "piece list \<Rightarrow> byte list \<Rightarrow> bool" where
  "compiles_ok ps pattern \<longleftrightarrow> wf_pieces ps \<and> pieces_size ps < length pattern + 16 \<and> pieces_captures ps \<le> 256 \<and>
     length pattern + 16 < REGEXPARSE_NOBRANCH"

definition new_regex :: "(nat \<Rightarrow> byte) \<Rightarrow> nat \<Rightarrow> regex_t" where
  "new_regex fresh n = \<lparr>rx_capture_count = 0, rx_code_length = 0, rx_code_allocated = n, rx_code = map fresh [0..<n]\<rparr>"

lemma new_regex_code: "code_is (new_regex fresh n) [] n 0"
  by (simp add: new_regex_def code_is_def)

lemma regex_compile_unfold:
  "regex_compile fresh pattern len =
     then_run (regex_parser_loop fresh True pattern len 0 0 (new_regex fresh (len + 16)) 0 0 REGEXPARSE_NOBRANCH)
       (\<lambda>(compiled, r). ret (if r = len then Some compiled else None))"
  by (simp add: regex_compile_def regex_parser_def new_regex_def)

lemma loop_end: "regex_parser_loop fresh allow_grow pattern len level branch_begin T len last_code_length branch_op = ret (T, len)"
  by (subst regex_parser_loop.simps) simp


lemma code_is_has_code: "code_is rx C A m \<Longrightarrow> has_code (rx_code rx) 0 C \<and> rx_code_length rx = length C"
  by (simp add: code_is_def has_code_def)



section \<open>Patterns that are not read as they are meant\<close>

text \<open>A closing bracket outside of a set is a meta character without a meaning: the parser emits an empty literal and stays where it is.\<close>

definition has_room :: "regex_t \<Rightarrow> bool" where
  "has_room T \<longleftrightarrow> length (rx_code T) = rx_code_allocated T \<and> rx_code_length T \<le> rx_code_allocated T"

lemma bracket_token:
  assumes "drop offset pattern = 93 # rest" "has_room T"
  shows "\<exists>T'. parse_token fresh True pattern (length pattern) level branch_begin T (offset + 1) last_code_length branch_op 93 =
      Some (Parse_Next T' offset (rx_code_length T) branch_op) \<and> has_room T'"
proof -
  obtain T1 where T1: "regex_reserve fresh True T 2 = Some T1" "has_room T1" "rx_code_length T1 = rx_code_length T"
      "rx_code_length T1 + 2 \<le> rx_code_allocated T1"
  proof (cases "rx_code_length T + 2 > rx_code_allocated T")
    case True
    define a where "a = rx_code_allocated T"
    show ?thesis
      by (rule that [of "T\<lparr>rx_code := rx_code T @ map fresh [length (rx_code T)..<2 * a + 2], rx_code_allocated := 2 * a + 2\<rparr>"])
        (use assms(2) True in \<open>simp_all add: regex_reserve_def has_room_def Let_def flip: a_def\<close>)
  next
    case False
    show ?thesis by (rule that [of T]) (use assms(2) False in \<open>simp_all add: regex_reserve_def\<close>)
  qed
  then have is1: "code_is T1 (take (rx_code_length T1) (rx_code T1)) (rx_code_allocated T1) (rx_capture_count T1)"
    by (auto simp: code_is_def has_room_def)
  from emit_ops_is [OF this, of "[uint REGEXOP_EXACT_MATCH, c_int 0]"] T1(2,4)
  obtain T2 where T2: "emit_ops T1 [uint REGEXOP_EXACT_MATCH, c_int 0] = Some (T2, 0)"
      "code_is T2 (take (rx_code_length T1) (rx_code T1) @ map of_int [uint REGEXOP_EXACT_MATCH, c_int 0]) (rx_code_allocated T1) (rx_capture_count T1)"
    by (auto simp: has_room_def uint_byte_le c_int_small)
  have "regex_emit fresh True T [uint REGEXOP_EXACT_MATCH, c_int 0] = Some (T2, 0)"
    using T1(1) T2(1) by (simp add: regex_emit_def numeral_2_eq_2)
  moreover have "has_room T2" using T2(2) by (auto simp: has_room_def code_is_def)
  moreover from this have "regex_emit_buffer fresh True T2 [] = Some (T2, 0)"
    by (auto simp: regex_emit_buffer_def regex_reserve_def has_room_def mem_store_def overwrite_def REGEXERR_OK_def)
  moreover have "literal_size pattern (length pattern) offset = Some 0"
    using literal_size_is [of offset pattern "[]" "93 # rest"] assms(1) by (simp add: literal_char_def REGEX_META_CHARACTERS_def)
  moreover have "mem_load pattern offset 0 = Some []" using drop_mem_get(2) [OF assms(1)] by (simp add: mem_load_def)
  ultimately show ?thesis by (simp add: parse_token_def next_unless_def)
qed

lemma loop_stuck:
  assumes "drop offset pattern = 93 # rest" "has_room T"
  shows "regex_parser_loop fresh True pattern (length pattern) level branch_begin T offset last_code_length branch_op = None"
proof -
  let ?P = "\<lambda>fr g p n T o'. fr = fresh \<longrightarrow> g \<longrightarrow> p = pattern \<longrightarrow> n = length pattern \<longrightarrow> o' = offset \<longrightarrow> \<not> has_room T"
  have "?P fr g p n T o'" if "regex_parser_loop fr g p n level branch_begin T o' last_code_length branch_op = Some y"
    for fr g p n level branch_begin T o' last_code_length branch_op y
  proof (rule regex_parser_loop.raw_induct [OF _ that], goal_cases)
    case (1 f fr g p n level branch_begin T o' last_code_length branch_op y)
    show ?case
    proof (intro impI notI)
      assume eq: "fr = fresh" "g" "p = pattern" "n = length pattern" "o' = offset" and room: "has_room T"
      obtain T' where T': "parse_token fresh True pattern (length pattern) level branch_begin T (offset + 1) last_code_length branch_op 93 =
          Some (Parse_Next T' offset (rx_code_length T) branch_op)" "has_room T'"
        using bracket_token [OF assms(1) room] by blast
      have "f fresh True pattern (length pattern) level branch_begin T' offset (rx_code_length T) branch_op = Some y"
        using 1(2) T'(1) eq drop_mem_get(1,2) [OF assms(1)] by simp
      then show False using 1(1) T'(2) by blast
    qed
  qed
  then show ?thesis using assms(2)
    by (cases "regex_parser_loop fresh True pattern (length pattern) level branch_begin T offset last_code_length branch_op") blast+
qed

text \<open>The compiler does not return for a pattern that has a closing bracket outside of a set, as long as memory
  is granted to it: behind any readable beginning of a pattern, it emits empty literals without end.\<close>

theorem regex_stray_bracket_diverges:
  assumes "pieces_ok ps (93 # rest)" "compiles_ok ps (pieces_print ps @ 93 # rest)"
  shows "regex_compile fresh (pieces_print ps @ 93 # rest) (length (pieces_print ps @ 93 # rest)) = None"
proof -
  define pattern where "pattern = pieces_print ps @ 93 # rest"
  have "parses fresh True pattern (length pattern + 16) 0 (0 + length (pieces_print ps)) [] ([] @ pieces_code 0 ps) 0 (0 + pieces_captures ps)"
    using assms by (intro pieces_parsed(2) [of _ _ "93 # rest"]) (auto simp: compiles_ok_def pattern_def)
  then obtain T' last' where T': "code_is T' (pieces_code 0 ps) (length pattern + 16) (pieces_captures ps)"
      "regex_parser_loop fresh True pattern (length pattern) 0 0 (new_regex fresh (length pattern + 16)) 0 0 REGEXPARSE_NOBRANCH =
       regex_parser_loop fresh True pattern (length pattern) 0 0 T' (length (pieces_print ps)) last' REGEXPARSE_NOBRANCH"
    using new_regex_code unfolding parses_def by fastforce
  have "has_room T'" using T'(1) by (auto simp: code_is_def has_room_def)
  moreover have "drop (length (pieces_print ps)) pattern = 93 # rest" by (simp add: pattern_def)
  ultimately show ?thesis using T'(2) loop_stuck by (simp add: regex_compile_unfold flip: pattern_def)
qed

theorem regex_stray_bracket_diverges_witness: "regex_compile (\<lambda>i. 0) [97, 93] 2 = None"
proof -
  have "regex_compile (\<lambda>i. 0) (pieces_print [Literal [97]] @ 93 # []) (length (pieces_print [Literal [97]] @ 93 # [])) = None"
    by (rule regex_stray_bracket_diverges)
      (simp_all add: compiles_ok_def literal_char_def REGEX_META_CHARACTERS_def REGEXPARSE_NOBRANCH_def SIZE_MOD_def)
  then show ?thesis by (simp add: numeral_2_eq_2)
qed

text \<open>Two branches that are not in a group: the jump behind the first branch is never completed, so it leads into the second.\<close>

definition top_level_ok :: "piece list \<Rightarrow> piece list \<Rightarrow> bool" where
  "top_level_ok ps qs \<longleftrightarrow> pieces_ok ps (124 # pieces_print qs) \<and> pieces_ok qs [] \<and> ps \<noteq> [] \<and> pieces_size ps \<le> 253 \<and>
     wf_pieces (ps @ qs) \<and> pieces_captures (ps @ qs) \<le> 256 \<and>
     pieces_size (ps @ qs) + 4 < length (pieces_print ps @ 124 # pieces_print qs) + 16 \<and>
     length (pieces_print ps @ 124 # pieces_print qs) + 16 < REGEXPARSE_NOBRANCH"

lemma pieces_append [simp]:
  "wf_pieces (ps @ qs) \<longleftrightarrow> wf_pieces ps \<and> wf_pieces qs" "pieces_size (ps @ qs) = pieces_size ps + pieces_size qs"
  "pieces_captures (ps @ qs) = pieces_captures ps + pieces_captures qs"
  by (induction ps) simp_all

lemma compile_top_level:
  assumes "top_level_ok ps qs"
  defines "pattern \<equiv> pieces_print ps @ 124 # pieces_print qs" and "a \<equiv> pieces_code 0 ps" and "b \<equiv> pieces_code (pieces_captures ps) qs"
  shows "\<exists>rx. regex_compile fresh pattern (length pattern) = ret (Some rx) \<and>
    code_is rx ([REGEXOP_BRANCH, of_nat (length a + 2)] @ a @ [REGEXOP_BRANCH_END, 0] @ b) (length pattern + 16) (pieces_captures (ps @ qs))"
proof -
  define A where "A = length pattern + 16"
  define o1 where "o1 = length (pieces_print ps)"
  define E where "E = [REGEXOP_BRANCH, of_nat (length a + 2)] @ a @ [REGEXOP_BRANCH_END, 0]"
  have len: "length a = pieces_size ps" "length b = pieces_size qs" by (simp_all add: a_def b_def)
  note ok = assms(1) [unfolded top_level_ok_def, folded pattern_def A_def]
  have A: "A < REGEXPARSE_NOBRANCH" "length a + length b + 4 < A" using ok by (simp_all add: len A_def)
  have d: "drop o1 pattern = 124 # pieces_print qs" by (simp add: pattern_def o1_def)
  have "parses fresh True pattern A 0 (0 + length (pieces_print ps)) [] ([] @ a) 0 (0 + pieces_captures ps)"
    unfolding a_def using ok A by (intro pieces_parsed(2) [of _ _ "124 # pieces_print qs"]) (auto simp: pattern_def len)
  then obtain T1 last1 where T1: "code_is T1 a A (pieces_captures ps)"
      "regex_parser_loop fresh True pattern (length pattern) 0 0 (new_regex fresh A) 0 0 REGEXPARSE_NOBRANCH =
       regex_parser_loop fresh True pattern (length pattern) 0 0 T1 o1 last1 REGEXPARSE_NOBRANCH"
    using new_regex_code unfolding parses_def o1_def by fastforce
  have "0 < length a" using ok piece_size_pos by (cases ps) (simp_all add: len)
  then have "a \<noteq> []" by simp
  from parse_branch_is [of T1 "[]", simplified, OF T1(1) this, of fresh True "o1 + 1" last1] A(2)
  obtain T2 bop where T2: "parse_branch fresh True 0 T1 (o1 + 1) last1 = Some (Parse_Next T2 (o1 + 1) last1 bop)"
      "code_is T2 E A (pieces_captures ps)"
    by (auto simp: E_def)
  have branch: "regex_parser_loop fresh True pattern (length pattern) 0 0 T1 o1 last1 REGEXPARSE_NOBRANCH =
      regex_parser_loop fresh True pattern (length pattern) 0 0 T2 (o1 + 1) last1 bop"
    using loop_token [OF drop_mem_get(1,2) [OF d]] T2(1) by (simp add: parse_token_def)
  have "parses fresh True pattern A (o1 + 1) (o1 + 1 + length (pieces_print qs)) E (E @ b) (pieces_captures ps) (pieces_captures ps + pieces_captures qs)"
    unfolding b_def using ok A drop_mem_get(3) [OF d] by (intro pieces_parsed(2) [of _ _ "[]"]) (auto simp: E_def len)
  then obtain T3 last3 where T3: "code_is T3 (E @ b) A (pieces_captures ps + pieces_captures qs)"
      "regex_parser_loop fresh True pattern (length pattern) 0 0 T2 (o1 + 1) last1 bop =
       regex_parser_loop fresh True pattern (length pattern) 0 0 T3 (o1 + 1 + length (pieces_print qs)) last3 bop"
    using T2(2) unfolding parses_def by blast
  have "o1 + 1 + length (pieces_print qs) = length pattern" by (simp add: pattern_def o1_def)
  then have "regex_compile fresh pattern (length pattern) = ret (Some T3)"
    unfolding regex_compile_unfold A_def [symmetric] T1(2) branch T3(2) by (simp only: loop_end) simp
  then show ?thesis using T3(1) by (auto simp: E_def A_def)
qed

text \<open>The code for two branches that are not in a group means something else than the branches: a pattern of
  the branches \<open>ps\<close> and \<open>qs\<close> matches where \<open>qs\<close> matches and where \<open>ps\<close> followed by \<open>qs\<close> matches, not where
  \<open>ps\<close> alone does.\<close>

theorem regex_top_level_branches:
  assumes "top_level_ok ps qs"
  defines "pattern \<equiv> pieces_print ps @ 124 # pieces_print qs"
  shows "\<exists>rx. regex_compile fresh pattern (length pattern) = ret (Some rx) \<and>
    (\<forall>input n caps. n < length input \<longrightarrow> n + 3 < SIZE_MOD \<longrightarrow>
       (\<exists>caps'. regex_match (Some rx) input n caps =
          ret (\<exists>i<n. \<exists>j. pieces_match input n (ps @ qs) i j \<or> pieces_match input n qs i j, caps')))"
proof -
  define a where "a = pieces_code 0 ps"
  define b where "b = pieces_code (pieces_captures ps) qs"
  have len: "length a = pieces_size ps" "length b = pieces_size qs" by (simp_all add: a_def b_def)
  note ok = assms(1) [unfolded top_level_ok_def]
  obtain rx where rx: "regex_compile fresh pattern (length pattern) = ret (Some rx)"
      "code_is rx ([REGEXOP_BRANCH, of_nat (length a + 2)] @ a @ [REGEXOP_BRANCH_END, 0] @ b) (length pattern + 16) (pieces_captures (ps @ qs))"
    using compile_top_level [OF assms(1)] unfolding pattern_def a_def b_def by blast
  define e where "e = 2 + length a"
  have L: "rx_code_length rx = e + 2 + length b" using code_is_has_code [OF rx(2)] by (simp add: e_def)
  have code: "mem_get (rx_code rx) 0 = Some REGEXOP_BRANCH" "mem_get (rx_code rx) (0 + 1) = Some (of_nat (length a + 2))"
      "has_code (rx_code rx) 2 a" "mem_get (rx_code rx) e = Some REGEXOP_BRANCH_END" "mem_get (rx_code rx) (e + 1) = Some 0"
      "has_code (rx_code rx) (e + 2) b"
    using code_is_has_code [OF rx(2)] by (auto simp: has_code_append has_code_Cons e_def numeral_2_eq_2)
  have "\<exists>caps'. regex_match (Some rx) input n caps =
      ret (\<exists>i<n. \<exists>j. pieces_match input n (ps @ qs) i j \<or> pieces_match input n qs i j, caps')"
    if "n < length input" "n + 3 < SIZE_MOD" for input n caps
  proof -
    have fits: "fits rx input n" using that L ok
      by (auto simp: fits_def e_def len REGEXRES_NOMATCH_def REGEXPARSE_NOBRANCH_def)
    define Q where "Q = (\<lambda>i. \<exists>j. pieces_match input n qs i j)"
    have "runs_as rx input n (e + 2) (\<lambda>i. \<exists>j. pieces_match input n qs i j \<and> True)"
      using code(6) ok L runs_as_end [OF fits] unfolding b_def by (intro runs_as_code(2) [OF fits]) (simp_all add: len)
    then have q: "runs_as rx input n (e + 2) Q" by (simp add: Q_def)
    have "runs_as rx input n e Q" using runs_as_branch_end [OF fits _ code(4,5), of Q] q L by simp
    then have p: "runs_as rx input n (0 + 2) (\<lambda>i. \<exists>k. pieces_match input n ps i k \<and> Q k)"
      using ok L by (intro runs_as_code(2) [OF fits, where m = 0]) (simp_all add: code(3) [unfolded a_def numeral_2_eq_2] e_def len)
    have skip: "0 + 2 + unat (of_nat (length a + 2) :: byte) = e + 2"
      using byte_of_nat [of "length a + 2"] ok by (simp add: len e_def del: of_nat_add)
    have "runs_as rx input n 0 (\<lambda>i. (\<exists>k. pieces_match input n ps i k \<and> Q k) \<or> Q i)"
      using runs_as_branch [OF fits _ code(1,2) p, of Q] q L unfolding skip by simp
    moreover have "((\<exists>k. pieces_match input n ps i k \<and> Q k) \<or> Q i) \<longleftrightarrow>
        (\<exists>j. pieces_match input n (ps @ qs) i j \<or> pieces_match input n qs i j)" for i
      unfolding Q_def pieces_match_append by blast
    ultimately have "runs_as rx input n 0 (\<lambda>i. \<exists>j. pieces_match input n (ps @ qs) i j \<or> pieces_match input n qs i j)" by simp
    from regex_match_runs [OF this _ code(1), of caps] L show ?thesis by (simp add: regexop_defs)
  qed
  then show ?thesis using rx(1) by blast
qed

theorem regex_top_level_branches_witness:
  "\<exists>rx caps'. regex_compile (\<lambda>i. 0) [97, 124, 98] 3 = ret (Some rx) \<and> regex_match (Some rx) [97, 0] 1 None = ret (False, caps')"
proof -
  have ok: "top_level_ok [Literal [97]] [Literal [98]]"
    by (simp add: top_level_ok_def literal_char_def REGEX_META_CHARACTERS_def REGEXPARSE_NOBRANCH_def SIZE_MOD_def)
  obtain rx where c: "regex_compile (\<lambda>i. 0) (pieces_print [Literal [97]] @ 124 # pieces_print [Literal [98]])
        (length (pieces_print [Literal [97]] @ 124 # pieces_print [Literal [98]])) = ret (Some rx)"
    and match: "\<forall>input n caps. n < length input \<longrightarrow> n + 3 < SIZE_MOD \<longrightarrow>
       (\<exists>caps'. regex_match (Some rx) input n caps =
          ret (\<exists>i<n. \<exists>j. pieces_match input n ([Literal [97]] @ [Literal [98]]) i j \<or> pieces_match input n [Literal [98]] i j, caps'))"
    using regex_top_level_branches [OF ok, of "\<lambda>i. 0"] by blast
  have "regex_compile (\<lambda>i. 0) [97, 124, 98] 3 = ret (Some rx)" using c by (simp add: numeral_3_eq_3)
  moreover have "\<exists>caps'. regex_match (Some rx) [97, 0] 1 None = ret (False, caps')"
    using match by (rule allE [of _ "[97, 0]"]) (auto simp: SIZE_MOD_def atom_step_def dest!: spec [of _ "1 :: nat"] spec [of _ None])
  ultimately show ?thesis by blast
qed

end
