(* ===== verification/Spec2Isabelle.thy ===== *)
theory Spec2Isabelle
  imports Ringbuffer_Stream Hashmap Uuidmap Hashtable Objectmap Bitbuffer Base64 Radixsort_Sorts Md5 Sha_Correct Blowfish
    Hash Random_Generator String_Pattern String_Replace String_Explode String_Utf Nsync_Mu_Safe Nsync_Once
    Stream_Digest Json_Safe Json_Escape Bucketarray Regex_Compile
begin

text \<open>
  Verification library for the C support library of Laser-D (the files under \<open>src/library\<close>):
  the foundation library and the nsync synchronization primitives. The compiler itself is written
  in D and is not covered, nor are the utf8proc and rpmalloc libraries that lie beside them.

  \<^bold>\<open>Conventions.\<close> \<open>Prelude\<close> fixes them. A struct is a record, an enumeration a datatype,
  a machine integer a word of its width; \<open>size_t\<close> is \<^typ>\<open>nat\<close> with the wrap-around written out
  where the code lets it happen. A buffer is the list of its bytes and every access goes through
  a checked operation: reading or writing outside of a buffer, a failed assertion and a division
  by zero are the value \<^const>\<open>None\<close>, so that a theorem with result \<open>Some\<close> is also a theorem of
  memory safety. A loop is a recursive function with its termination proof; a loop that may run
  forever is a partial function into \<open>option\<close>, and that it returns, or for which arguments it does
  not, is proved. Fuel occurs in \<open>Hashtable\<close>, where the capacity of the table is enough, and in \<open>Json\<close>,
  where \<open>json_fuel len = 2 * len + 3\<close> is enough because each character pays for at most two calls; that
  it is enough is part of the theorems. What the code takes from outside
  (clocks, addresses, the contents of new memory, the result of a shift that C leaves undefined)
  is a parameter of the definitions.

  \<^bold>\<open>Containers.\<close>
  \<^item> \<open>Ringbuffer\<close> (ringbuffer.c): \<open>ringbuffer_read\<close> and \<open>ringbuffer_write\<close> refine a bounded queue of
    bytes. \<open>Ringbuffer_Stream\<close> (ringbuffer.c, stream.c): the blocking stream as a
    reader and a writer that interleave at every load and store of a shared variable and every byte
    copied, also inside of the unsynchronized ring buffer calls (sequential consistency); no byte is
    lost or reordered in any interleaving, and there is one after which the reader waits forever.
  \<^item> \<open>Bucket_Map\<close>, \<open>Hashmap\<close> (hashmap.c), \<open>Uuidmap\<close> (uuidmap.c): bucketed maps refine finite maps;
    the locale of the shared bucket algorithm is interpreted for both key types.
  \<^item> \<open>Hashtable\<close> (hashtable.c): open addressing with linear probing refines a finite map of bounded
    size, for 32 and 64 bits.
  \<^item> \<open>Objectmap\<close> (objectmap.c): the lock-free handle table, operation by operation, refines a table
    of tagged handles with reference counts, for handles whose tag is not zero.
  \<^item> \<open>Bucketarray\<close> (bucketarray.c): an array in buckets refines the sequence of its elements.

  \<^bold>\<open>Encodings and numbers.\<close>
  \<^item> \<open>Byteorder\<close> (bits.h), \<open>Bitbuffer\<close> (bitbuffer.c): what is written as a sequence of bit fields is
    read back. \<open>Base64\<close> (base64.c): the decoder computes the bytes of
    RFC 4648, written as arithmetic on base 64 digits, and inverts the encoder.
  \<^item> \<open>Radixsort\<close>, \<open>Counting_Pass\<close>, \<open>Radixsort_Correct\<close>, \<open>Radixsort_Sorts\<close> (radixsort.c): every
    sorter of a data type with an entry in the tables sorts by the order of its type, and a sorter of
    custom data reads behind a table.
  \<^item> \<open>Block_Hash\<close>, \<open>Md5\<close> (md5.c), \<open>Sha\<close>, \<open>Sha_Stream\<close>, \<open>Sha_Correct\<close> (sha.c): feeding a message in
    pieces gives the digest of RFC 1321 and FIPS 180-4. \<open>Hash\<close> (hash.c): the string hash.
  \<^item> \<open>Blowfish\<close> (blowfish.c): decryption inverts encryption in every mode. \<open>Random_Generator\<close>
    (random.c): the six branches of the generator are one step, draws lie in their range, and two
    threads can get the same state.

  \<^bold>\<open>Strings\<close> (string.c).
  \<^item> \<open>String_Search\<close>: all searches, strip and split. \<open>String_Pattern\<close>: the pattern matcher.
    \<open>String_Buffer\<close>: copying, appending, prepending, concatenating and merging in a buffer of fixed
    capacity, with a locale for the operations that add one fragment. \<open>String_Replace\<close>: for
    which arguments replacement returns, runs forever or leaves its buffer, and what it computes. \<open>String_Explode\<close>: exploding and merging back.
    \<open>String_Utf\<close>: conversions between UTF-8, UTF-16 and UTF-32.

  \<^bold>\<open>Streams\<close> (stream.c, bufferstream.c).
  \<^item> \<open>Stream_Base\<close>: the header every stream has. \<open>Bufferstream\<close>: a stream over a block of memory refines
    a file with a position. \<open>Stream\<close>: the operations over the function table of a stream (copying,
    lines, whitespace, text or binary), as a locale of the laws of a readable stream that is
    interpreted on buffer streams. \<open>Stream_Digest\<close>: the digests of a stream, with unified line ends.

  \<^bold>\<open>Languages.\<close>
  \<^item> \<open>Json\<close>, \<open>Json_Safe\<close>, \<open>Json_Escape\<close> (json.c): the parser of JSON and simplified JSON stays in its
    buffers, ends, and produces well-formed tokens; escaping and unescaping of strings.
  \<^item> \<open>Regex\<close> (regex.c): the compiler of patterns to byte code and the backtracking matcher.
    \<open>Regex_Run\<close>: what the matcher does with the code of an element, a quantifier and a branch.
    \<open>Regex_Pattern\<close>: patterns as data, their meaning and their code. \<open>Regex_Compile\<close>: how a pattern is
    written, that the compiler produces its code, and with that the correctness of both; patterns
    for which the compiler does not return or produces other code.

  \<^bold>\<open>Synchronization\<close> (src/library/nsync/internal).
  \<^item> \<open>Nsync_Dll\<close> (dll.c): circular doubly linked lists in a store refine sequences.
  \<^item> \<open>Nsync_Word\<close>, \<open>Nsync_Mu\<close>, \<open>Nsync_Mu_Safe\<close> (mu.c, mu_wait.c, common.h): the reader-writer mutex with
    conditional waits as threads that interleave at their atomic operations on a 32-bit word; mutual
    exclusion, and what the sanity checks detect. \<open>Nsync_Once\<close> (once.c): the function given to
    \<open>nsync_run_once\<close> runs exactly once, before any caller returns.

  \<^bold>\<open>Not modelled.\<close> Wrappers of the operating system (files, assets, pipes, processes, threads,
  clocks), the formatting and parsing of numbers by the C library, floating point draws of the
  random generator, the text form of typed values in streams, virtual arrays, paths, UUID
  generation, the condition variables, notes and counters of nsync, the allocator, the Unicode
  library with its generated tables, and platform glue.
\<close>

end
